(* ===== verification/Hevc_Prelude.thy ===== *)
theory Hevc_Prelude
  imports Main "HOL-Library.Word" "HOL-Library.Monad_Syntax"
begin

text \<open>
  What every component of the model shares: the machine integer types of
  \<^verbatim>\<open>ihevc_typedefs.h\<close>, the effect used for undefined behaviour, the bit macros of
  \<^verbatim>\<open>common/x86/ihevc_platform_macros.h\<close>, byte memory with 32-bit loads, and the view of a
  byte buffer as a sequence of bits, most significant bit first.

  An operation that can run into behaviour the C standard leaves undefined (an access outside
  an object, a shift by the width or more, a dereference of a null pointer) or into a failing
  \<^verbatim>\<open>ASSERT\<close> is modelled in the option monad: \<open>None\<close> is that outcome. A theorem that an
  operation is \<open>Some\<close> of a value is therefore also a theorem that it is safe. Error codes the
  code returns are values, not \<open>None\<close>.
\<close>

unbundle bit_operations_syntax

type_synonym u8 = "8 word"
type_synonym u32 = "32 word"

named_theorems exec_simps
named_theorems inv_simps

section \<open>The effect: undefined behaviour and assertions\<close>

definition require :: "bool \<Rightarrow> unit option" where
  "require b = (if b then Some () else None)"

lemma require_simps [simp, exec_simps]:
  "require True = Some ()"
  "require False = None"
  "require b = Some u \<longleftrightarrow> b"
  "require b = None \<longleftrightarrow> \<not> b"
  by (simp_all add: require_def)

lemma bind_require [simp, exec_simps]:
  "b \<Longrightarrow> Option.bind (require b) f = f ()"
  "\<not> b \<Longrightarrow> Option.bind (require b) f = None"
  by (simp_all add: require_def)

lemma bind_Some_iff:
  "Option.bind m f = Some y \<longleftrightarrow> (\<exists>x. m = Some x \<and> f x = Some y)"
  by (cases m) simp_all

text \<open>Reading and writing an array element: undefined outside the array.\<close>

definition rd :: "'a list \<Rightarrow> nat \<Rightarrow> 'a option" where
  "rd xs i = (if i < length xs then Some (xs ! i) else None)"

definition wr :: "'a list \<Rightarrow> nat \<Rightarrow> 'a \<Rightarrow> 'a list option" where
  "wr xs i v = (if i < length xs then Some (xs[i := v]) else None)"

text \<open>The same with a signed index.\<close>

definition rdi :: "'a list \<Rightarrow> int \<Rightarrow> 'a option" where
  "rdi xs i = (if 0 \<le> i then rd xs (nat i) else None)"

definition wri :: "'a list \<Rightarrow> int \<Rightarrow> 'a \<Rightarrow> 'a list option" where
  "wri xs i v = (if 0 \<le> i then wr xs (nat i) v else None)"

lemma rdi_int [simp, exec_simps]: "rdi xs (int i) = rd xs i" "wri xs (int i) v = wr xs i v"
  by (simp_all add: rdi_def wri_def)

lemma rdi_Some_iff: "rdi xs i = Some v \<longleftrightarrow> 0 \<le> i \<and> nat i < length xs \<and> v = xs ! nat i"
  by (auto simp: rdi_def rd_def)

lemma wri_Some_iff: "wri xs i v = Some ys \<longleftrightarrow> 0 \<le> i \<and> nat i < length xs \<and> ys = xs[nat i := v]"
  by (auto simp: wri_def wr_def)

lemma rd_in [simp, exec_simps]: "i < length xs \<Longrightarrow> rd xs i = Some (xs ! i)"
  by (simp add: rd_def)

lemma rd_Some_iff: "rd xs i = Some v \<longleftrightarrow> i < length xs \<and> v = xs ! i"
  by (auto simp: rd_def)

lemma wr_in [simp, exec_simps]: "i < length xs \<Longrightarrow> wr xs i v = Some (xs[i := v])"
  by (simp add: wr_def)

lemma nth_update: "j < length xs \<Longrightarrow> xs[i := v] ! j = (if i = j then v else xs ! j)"
  by (cases "i = j") simp_all

lemma wr_Some_iff: "wr xs i v = Some ys \<longleftrightarrow> i < length xs \<and> ys = xs[i := v]"
  by (auto simp: wr_def)

text \<open>The results a \<^verbatim>\<open>WORD32\<close> can hold; an operation with another one overflows.\<close>

definition in_w32 :: "int \<Rightarrow> bool" where
  "in_w32 i \<longleftrightarrow> - 2147483648 \<le> i \<and> i \<le> 2147483647"

text \<open>Shifts of a 32-bit value: undefined for a count of 32 or more.\<close>

definition shl32 :: "u32 \<Rightarrow> u32 \<Rightarrow> u32 option" where
  "shl32 x n = (if n < 32 then Some (push_bit (unat n) x) else None)"

definition shr32 :: "u32 \<Rightarrow> u32 \<Rightarrow> u32 option" where
  "shr32 x n = (if n < 32 then Some (drop_bit (unat n) x) else None)"

lemma shl32_in [simp, exec_simps]: "n < 32 \<Longrightarrow> shl32 x n = Some (push_bit (unat n) x)"
  by (simp add: shl32_def)

lemma shr32_in [simp, exec_simps]: "n < 32 \<Longrightarrow> shr32 x n = Some (drop_bit (unat n) x)"
  by (simp add: shr32_def)

section \<open>Word facts\<close>

lemma unat_u32_small [simp]: "n < 2 ^ 32 \<Longrightarrow> unat (word_of_nat n :: u32) = n"
  by (simp add: unat_of_nat take_bit_nat_eq_self)

lemma u32_less_iff: "(a :: u32) < b \<longleftrightarrow> unat a < unat b"
  by (simp add: word_less_nat_alt)

lemma u32_le_iff: "(a :: u32) \<le> b \<longleftrightarrow> unat a \<le> unat b"
  by (simp add: word_le_nat_alt)

lemma u32_eq_iff: "(a :: u32) = b \<longleftrightarrow> unat a = unat b"
  by (simp add: word_unat_eq_iff)

lemma unat_u32_lt: "unat (w :: u32) < 2 ^ 32"
  using unsigned_less [of w] by simp

lemma unat_u8_lt: "unat (b :: u8) < 256"
  using unsigned_less [of b] by simp

lemma unat_add_u32: "unat a + unat b < 2 ^ 32 \<Longrightarrow> unat (a + b :: u32) = unat a + unat b"
  by (simp add: unat_word_ariths)

lemma unat_sub_u32: "unat b \<le> unat a \<Longrightarrow> unat (a - b :: u32) = unat a - unat b"
  by (simp add: unat_sub word_le_nat_alt)

lemma unat_push_u32: "unat x * 2 ^ k < 2 ^ 32 \<Longrightarrow> unat (push_bit k x :: u32) = unat x * 2 ^ k"
  unfolding unsigned_push_bit_eq by (simp add: push_bit_eq_mult take_bit_nat_eq_self)

lemma unat_drop_u32: "unat (drop_bit k x :: u32) = unat x div 2 ^ k"
  unfolding unat_drop_bit_eq by (simp add: drop_bit_eq_div)

text \<open>Words are equal when their bits are; \<open>bit\<close> of an unsigned reading is \<open>bit\<close> of the word.\<close>

lemma bit_unat_iff: "bit (unat (w :: 'a::len word)) i \<longleftrightarrow> bit w i"
  by (simp add: bit_unsigned_iff)

text \<open>Small values read as signed.\<close>

lemma not_bit_u32 [simp]: "32 \<le> n \<Longrightarrow> \<not> bit (w :: u32) n"
  using bit_imp_le_length by fastforce

lemma and_1_u32: "(v :: u32) AND 1 \<noteq> 0 \<longleftrightarrow> odd (unat v)"
  using bit_unat_iff [of v 0] by (simp add: and_one_eq mod_2_eq_odd bit_0)

lemma and_1_unat_u32: "unat ((w :: u32) AND 1) = unat w mod 2"
proof -
  have "w AND 1 = take_bit 1 w" by (simp add: take_bit_eq_mask mask_eq_exp_minus_1)
  then show ?thesis by (simp only: unsigned_take_bit_eq) (simp add: take_bit_eq_mod)
qed

lemma and_3_u32: "unat ((w :: u32) AND 3) = unat w mod 4"
proof -
  have "w AND 3 = take_bit 2 w" by (simp add: take_bit_eq_mask mask_eq_exp_minus_1)
  then show ?thesis by (simp only: unsigned_take_bit_eq) (simp add: take_bit_eq_mod)
qed

lemma shl32_unat:
  assumes "unat n < 32" "unat x * 2 ^ unat n < 2 ^ 32"
  shows "\<exists>y. shl32 x n = Some y \<and> unat y = unat x * 2 ^ unat n"
  using assms by (simp add: word_less_nat_alt unat_push_u32)

lemma take_bit_u32_eq: "take_bit n (w :: u32) = w \<longleftrightarrow> unat w < 2 ^ n"
  by (metis take_bit_nat_eq_self_iff unsigned_take_bit_eq word_unat_eq_iff)

lemma unat_ucast_u8: "unat (ucast (b :: u8) :: u32) = unat b"
  unfolding unsigned_ucast_eq using unat_u8_lt [of b] by (simp add: take_bit_nat_eq_self)

lemma sint_small_nat: "n < 2 ^ 31 \<Longrightarrow> sint (word_of_nat n :: u32) = int n"
  by (simp add: signed_of_nat signed_take_bit_int_eq_self)

lemma sint_small_neg: "n < 2 ^ 31 \<Longrightarrow> sint (- word_of_nat n :: u32) = - int n"
proof -
  assume n: "n < 2 ^ 31"
  have "sint (word_of_int (- int n) :: u32) = - int n"
    using n by (simp only: sint_sbintrunc') (simp add: signed_take_bit_int_eq_self)
  then show ?thesis by simp
qed

section \<open>Bit macros of the platform\<close>

text \<open>\<^verbatim>\<open>SHR(x,y)\<close>: a right shift that yields 0 for a count of 32 or more.\<close>

definition SHR :: "u32 \<Rightarrow> u32 \<Rightarrow> u32" where
  "SHR x y = (if y < 32 then drop_bit (unat y) x else 0)"

definition ITT_BIG_ENDIAN :: "u32 \<Rightarrow> u32" where
  "ITT_BIG_ENDIAN x =
     push_bit 24 x OR push_bit 8 (x AND 0x0000ff00) OR drop_bit 8 (x AND 0x00ff0000) OR
     drop_bit 24 x"

text \<open>
  \<^verbatim>\<open>__builtin_clz\<close> of a non-zero word: the number of zero bits above the highest one.
  \<^verbatim>\<open>CLZ\<close> and \<^verbatim>\<open>GETRANGE\<close> wrap it with a value for 0.
\<close>

definition builtin_clz :: "u32 \<Rightarrow> nat" where
  "builtin_clz w = length (takeWhile (\<lambda>i. \<not> bit w i) (rev [0..<32]))"

definition CLZ :: "u32 \<Rightarrow> u32" where
  "CLZ w = (if w \<noteq> 0 then word_of_nat (builtin_clz w) else 31)"

definition GETRANGE :: "u32 \<Rightarrow> u32" where
  "GETRANGE w = (if w \<noteq> 0 then 32 - word_of_nat (builtin_clz w) else 1)"

lemma SHR_big: "\<not> y < 32 \<Longrightarrow> SHR x y = 0"
  by (simp add: SHR_def)

lemma SHR_small: "y < 32 \<Longrightarrow> SHR x y = drop_bit (unat y) x"
  by (simp add: SHR_def)

section \<open>Leading zeros\<close>

lemma builtin_clz_props:
  assumes "w \<noteq> 0"
  shows "builtin_clz w < 32" and "bit w (31 - builtin_clz w)"
    and "\<And>i. 31 - builtin_clz w < i \<Longrightarrow> \<not> bit w i"
proof -
  let ?xs = "rev [0..<32] :: nat list" and ?k = "builtin_clz w"
  obtain i where i: "bit w i" using assms by (auto simp: bit_eq_iff)
  then have "i < 32" using bit_imp_le_length by fastforce
  then have "i \<in> set ?xs" by simp
  with i have "takeWhile (\<lambda>i. \<not> bit w i) ?xs \<noteq> ?xs"
    by (auto simp: takeWhile_eq_all_conv)
  then have less: "?k < length ?xs"
    unfolding builtin_clz_def
    by (metis length_takeWhile_le nat_less_le takeWhile_eq_take take_all_iff linorder_not_less)
  then show k32: "?k < 32" by simp
  have nth: "?xs ! j = 31 - j" if "j < 32" for j
    using that by (simp add: rev_nth)
  show "bit w (31 - ?k)"
    using nth_length_takeWhile [of "\<lambda>i. \<not> bit w i" ?xs] less nth [OF k32]
    by (simp add: builtin_clz_def)
  show "\<not> bit w i" if "31 - ?k < i" for i
  proof (cases "i < 32")
    case True
    define j where "j = 31 - i"
    from True that k32 have j: "j < ?k" "j < 32" "31 - j = i" by (auto simp: j_def)
    then have "\<not> bit w (?xs ! j)"
      by (metis (no_types, lifting) builtin_clz_def nth_mem set_takeWhileD takeWhile_nth)
    with nth j show ?thesis by simp
  next
    case False
    then show ?thesis using bit_imp_le_length by fastforce
  qed
qed

lemma builtin_clz_bounds:
  assumes "w \<noteq> 0"
  shows "2 ^ (31 - builtin_clz w) \<le> unat w" and "unat w < 2 ^ (32 - builtin_clz w)"
proof -
  note p = builtin_clz_props [OF assms]
  show "2 ^ (31 - builtin_clz w) \<le> unat w"
    using p(2) by (metis bit_unat_iff bit_nat_iff linorder_not_less div_less even_zero bit_iff_odd)
  have "take_bit (32 - builtin_clz w) (unat w) = unat w"
  proof (rule bit_eqI)
    fix i show "bit (take_bit (32 - builtin_clz w) (unat w)) i \<longleftrightarrow> bit (unat w) i"
      using p(1) p(3)[of i] by (fastforce simp: bit_take_bit_iff bit_unat_iff)
  qed
  then show "unat w < 2 ^ (32 - builtin_clz w)"
    by (metis take_bit_nat_less_exp)
qed

lemma builtin_clz_eq:
  assumes "2 ^ k \<le> unat w" "unat w < 2 ^ Suc k"
  shows "builtin_clz w = 31 - k"
proof -
  have w: "w \<noteq> 0" using assms(1) by (metis not_less power_eq_0_iff unat_0 zero_neq_numeral zero_less_power zero_less_numeral)
  note b = builtin_clz_bounds [OF w] builtin_clz_props(1) [OF w]
  have "31 - builtin_clz w < Suc k"
    using b(1) assms(2) by (meson le_less_trans power_less_imp_less_exp one_less_numeral_iff semiring_norm(76))
  moreover have "k < 32 - builtin_clz w"
    using b(2) assms(1) by (meson le_less_trans power_less_imp_less_exp one_less_numeral_iff semiring_norm(76))
  ultimately show ?thesis using b(3) by simp
qed

section \<open>Byte memory and bit sequences\<close>

text \<open>
  A \<^verbatim>\<open>UWORD32\<close> read through a pointer into a byte buffer, on a little-endian machine
  (\<^verbatim>\<open>ITT_BIG_ENDIAN\<close> of this platform swaps the bytes).
\<close>

definition load_u32 :: "u8 list \<Rightarrow> nat \<Rightarrow> u32 option" where
  "load_u32 m a = do {
     b0 \<leftarrow> rd m a;
     b1 \<leftarrow> rd m (a + 1);
     b2 \<leftarrow> rd m (a + 2);
     b3 \<leftarrow> rd m (a + 3);
     Some (ucast b0 OR push_bit 8 (ucast b1) OR push_bit 16 (ucast b2) OR push_bit 24 (ucast b3))
   }"

text \<open>Bit \<open>p\<close> of a byte buffer read most significant bit first.\<close>

definition sbit :: "u8 list \<Rightarrow> nat \<Rightarrow> bool" where
  "sbit bs p \<longleftrightarrow> bit (bs ! (p div 8)) (7 - p mod 8)"

text \<open>The value of the \<open>n\<close> bits that start at position \<open>p\<close> of a bit sequence.\<close>

primrec bits_at :: "(nat \<Rightarrow> bool) \<Rightarrow> nat \<Rightarrow> nat \<Rightarrow> nat" where
  "bits_at f p 0 = 0"
| "bits_at f p (Suc n) = 2 * bits_at f p n + of_bool (f (p + n))"

lemma bits_at_less: "bits_at f p n < 2 ^ n"
  by (induction n) (auto split: if_splits)

lemma bits_at_add: "bits_at f p (m + n) = bits_at f p m * 2 ^ n + bits_at f (p + m) n"
  by (induction n) (auto simp: algebra_simps)

lemma bits_at_cong: "(\<And>i. i < n \<Longrightarrow> f (p + i) = g (q + i)) \<Longrightarrow> bits_at f p n = bits_at g q n"
  by (induction n) auto

lemma bit_bits_at: "bit (bits_at f p n) i \<longleftrightarrow> i < n \<and> f (p + n - 1 - i)"
proof (induction n arbitrary: i)
  case (Suc n)
  have e: "bits_at f p (Suc n) = of_bool (f (p + n)) + 2 * bits_at f p n" by simp
  show ?case
  proof (cases i)
    case 0
    then show ?thesis by (simp add: bit_0)
  next
    case (Suc j)
    then show ?thesis unfolding e
      by (simp add: bit_Suc Suc.IH)
  qed
qed simp

lemma bits_at_unat:
  assumes "\<And>i. i < n \<Longrightarrow> bit w (n - 1 - i) = f (p + i)"
    and "\<And>i. n \<le> i \<Longrightarrow> \<not> bit w i"
  shows "unat w = bits_at f p n"
proof (rule bit_eqI)
  fix i
  show "bit (unat w) i \<longleftrightarrow> bit (bits_at f p n) i"
  proof (cases "i < n")
    case True
    then show ?thesis using assms(1)[of "n - 1 - i"] by (simp add: bit_unat_iff bit_bits_at)
  next
    case False
    then show ?thesis using assms(2) by (simp add: bit_unat_iff bit_bits_at)
  qed
qed

text \<open>The 32-bit word whose bits are the four bytes at \<open>a\<close> in stream order.\<close>

definition be32 :: "u8 list \<Rightarrow> nat \<Rightarrow> u32" where
  "be32 m a = push_bit 24 (ucast (m ! a)) OR push_bit 16 (ucast (m ! (a + 1))) OR
     push_bit 8 (ucast (m ! (a + 2))) OR ucast (m ! (a + 3))"

lemma not_bit_u8 [simp]: "8 \<le> n \<Longrightarrow> \<not> bit (b :: u8) n"
  using bit_imp_le_length by fastforce

lemma ITT_BIG_ENDIAN_load:
  fixes b0 b1 b2 b3 :: u8
  shows "ITT_BIG_ENDIAN (ucast b0 OR push_bit 8 (ucast b1) OR push_bit 16 (ucast b2) OR push_bit 24 (ucast b3)) =
     push_bit 24 (ucast b0) OR push_bit 16 (ucast b1) OR push_bit 8 (ucast b2) OR ucast (b3 :: u8)"
proof (rule bit_word_eqI)
  fix n assume "n < LENGTH(32)"
  then have "n \<in> set [0..<32]" by simp
  then show "bit (ITT_BIG_ENDIAN (ucast b0 OR push_bit 8 (ucast b1) OR push_bit 16 (ucast b2) OR push_bit 24 (ucast b3))) n =
     bit (push_bit 24 (ucast b0) OR push_bit 16 (ucast b1) OR push_bit 8 (ucast b2) OR ucast (b3 :: u8) :: u32) n"
    unfolding ITT_BIG_ENDIAN_def bit_or_iff bit_and_iff bit_push_bit_iff bit_drop_bit_eq o_def bit_ucast_iff
    by (simp add: upt_rec del: push_bit_numeral_minus_1) (elim disjE; simp add: bit_ucast_iff bit_push_bit_iff bit_or_iff)
qed

lemma load_u32_ok:
  assumes "a + 4 \<le> length m"
  shows "\<exists>w. load_u32 m a = Some w \<and> ITT_BIG_ENDIAN w = be32 m a"
proof -
  have "load_u32 m a = Some (ucast (m ! a) OR push_bit 8 (ucast (m ! (a + 1))) OR push_bit 16 (ucast (m ! (a + 2))) OR push_bit 24 (ucast (m ! (a + 3))))"
    using assms by (simp add: load_u32_def)
  then show ?thesis by (simp add: be32_def ITT_BIG_ENDIAN_load)
qed

lemma bit_be32:
  assumes "i < 32"
  shows "bit (be32 m a) (31 - i) = sbit m (8 * a + i)"
proof -
  have "i \<in> set [0..<32]" using assms by simp
  then show ?thesis unfolding be32_def sbit_def
    by (simp add: upt_rec bit_simps) (elim disjE; simp)
qed

lemma bits_at_zero: "(\<And>i. i < n \<Longrightarrow> \<not> f (p + i)) \<Longrightarrow> bits_at f p n = 0"
  by (induction n) auto

lemma bits_at_one:
  "(\<And>i. i < z \<Longrightarrow> \<not> f (p + i)) \<Longrightarrow> f (p + z) \<Longrightarrow> bits_at f p (Suc z) = 1"
  by (simp add: bits_at_zero)

end
