(* ===== verification/Bit_Reader.thy ===== *)
theory Bit_Reader
  imports Hevc_Prelude
begin

text \<open>
  The decoder's bitstream reader, \<^verbatim>\<open>decoder/ihevcd_bitstream.c\<close> and the macros of
  \<^verbatim>\<open>decoder/ihevcd_bitstream.h\<close>. The state is \<^verbatim>\<open>bitstrm_t\<close>: a prefetched current and
  next 32-bit word, the bit offset in the current word and the pointer to the word after the
  next. Pointers into the stream are byte offsets from \<^verbatim>\<open>pu1_buf_base\<close>, and that field
  holds the bytes of the object it points to; a load outside it is undefined.

  \<open>rd_inv\<close> says that the two words are the big-endian words at the position the pointer
  implies, and \<open>rd_pos\<close> is that position in bits. The lemmas give every operation as a function
  of the bit sequence \<open>sbit\<close> of the buffer and of the position.
\<close>

unbundle bit_operations_syntax

record bitstrm =
  pu1_buf_base :: "u8 list"
  u4_bit_ofst :: u32
  pu4_buf :: nat
  u4_cur_word :: u32
  u4_nxt_word :: u32
  pu1_buf_max :: nat

section \<open>Operations\<close>

definition ihevcd_bits_init :: "u8 list \<Rightarrow> u32 \<Rightarrow> bitstrm option" where
  "ihevcd_bits_init pu1_buf u4_numbytes = do {
     u4_temp \<leftarrow> load_u32 pu1_buf 0;
     let u4_cur_word = ITT_BIG_ENDIAN u4_temp;
     u4_temp \<leftarrow> load_u32 pu1_buf 4;
     let u4_nxt_word = ITT_BIG_ENDIAN u4_temp;
     Some \<lparr> pu1_buf_base = pu1_buf, u4_bit_ofst = 0, pu4_buf = 8,
            u4_cur_word = u4_cur_word, u4_nxt_word = u4_nxt_word,
            pu1_buf_max = unat u4_numbytes + 8 \<rparr>
   }"

definition BITS_FLUSH :: "u32 \<Rightarrow> bitstrm \<Rightarrow> bitstrm option" where
  "BITS_FLUSH m_cnt s = (
     let m_u4_bit_ofst = u4_bit_ofst s + m_cnt in
     if m_u4_bit_ofst \<ge> 32 then do {
       temp \<leftarrow> load_u32 (pu1_buf_base s) (pu4_buf s);
       Some (s \<lparr> u4_cur_word := u4_nxt_word s, pu4_buf := pu4_buf s + 4,
                 u4_bit_ofst := m_u4_bit_ofst - 32, u4_nxt_word := ITT_BIG_ENDIAN temp \<rparr>)
     }
     else Some (s \<lparr> u4_bit_ofst := m_u4_bit_ofst \<rparr>))"

definition BITS_NXT :: "u32 \<Rightarrow> bitstrm \<Rightarrow> u32 option" where
  "BITS_NXT m_cnt s = do {
     t \<leftarrow> shl32 (u4_cur_word s) (u4_bit_ofst s);
     m_u4_bits \<leftarrow> shr32 t (32 - m_cnt);
     Some (if u4_bit_ofst s > 32 - m_cnt
           then m_u4_bits OR SHR (u4_nxt_word s) (32 + 32 - m_cnt - u4_bit_ofst s)
           else m_u4_bits)
   }"

definition BITS_NXT32 :: "bitstrm \<Rightarrow> u32 option" where
  "BITS_NXT32 s = do {
     m_u4_bits \<leftarrow> shl32 (u4_cur_word s) (u4_bit_ofst s);
     Some (m_u4_bits OR SHR (u4_nxt_word s) (32 - u4_bit_ofst s))
   }"

definition BITS_GET :: "u32 \<Rightarrow> bitstrm \<Rightarrow> (u32 \<times> bitstrm) option" where
  "BITS_GET m_cnt s = do {
     t \<leftarrow> shl32 (u4_cur_word s) (u4_bit_ofst s);
     m_u4_bits \<leftarrow> shr32 t (32 - m_cnt);
     let m_u4_bit_ofst = u4_bit_ofst s + m_cnt;
     let m_u4_bits = (if m_u4_bit_ofst > 32
                      then m_u4_bits OR SHR (u4_nxt_word s) (64 - m_u4_bit_ofst)
                      else m_u4_bits);
     if m_u4_bit_ofst \<ge> 32 then do {
       pu4_word_tmp \<leftarrow> load_u32 (pu1_buf_base s) (pu4_buf s);
       Some (m_u4_bits,
             s \<lparr> u4_cur_word := u4_nxt_word s, pu4_buf := pu4_buf s + 4,
                 u4_bit_ofst := m_u4_bit_ofst - 32,
                 u4_nxt_word := ITT_BIG_ENDIAN pu4_word_tmp \<rparr>)
     }
     else Some (m_u4_bits, s \<lparr> u4_bit_ofst := m_u4_bit_ofst \<rparr>)
   }"

definition BIT_GET :: "bitstrm \<Rightarrow> (u32 \<times> bitstrm) option" where
  "BIT_GET s = do {
     t \<leftarrow> shl32 (u4_cur_word s) (u4_bit_ofst s);
     let m_u4_bits = drop_bit 31 t;
     let m_u4_bit_ofst = u4_bit_ofst s + 1;
     if m_u4_bit_ofst = 32 then do {
       pu4_word_tmp \<leftarrow> load_u32 (pu1_buf_base s) (pu4_buf s);
       Some (m_u4_bits,
             s \<lparr> u4_cur_word := u4_nxt_word s, pu4_buf := pu4_buf s + 4, u4_bit_ofst := 0,
                 u4_nxt_word := ITT_BIG_ENDIAN pu4_word_tmp \<rparr>)
     }
     else Some (m_u4_bits, s \<lparr> u4_bit_ofst := m_u4_bit_ofst \<rparr>)
   }"

definition ihevcd_bits_flush :: "bitstrm \<Rightarrow> u32 \<Rightarrow> bitstrm option" where
  "ihevcd_bits_flush s u4_numbits = BITS_FLUSH u4_numbits s"

definition ihevcd_bits_flush_to_byte_boundary :: "bitstrm \<Rightarrow> bitstrm option" where
  "ihevcd_bits_flush_to_byte_boundary s = (
     let u4_numbits = u4_bit_ofst s AND 7;
         u4_numbits = 8 - u4_numbits
     in BITS_FLUSH u4_numbits s)"

definition ihevcd_bits_seek :: "bitstrm \<Rightarrow> int \<Rightarrow> bitstrm option" where
  "ihevcd_bits_seek s numbits = do {
     require (numbits \<ge> -32);
     require (numbits \<le> 32);
     if numbits < 0 then (
       let abs_numbits = word_of_int (- numbits) in
       if u4_bit_ofst s \<ge> abs_numbits then
         Some (s \<lparr> u4_bit_ofst := u4_bit_ofst s - abs_numbits \<rparr>)
       else do {
         let ofst = u4_bit_ofst s + 32 - abs_numbits;
         require (4 + 8 \<le> pu4_buf s);
         let buf = pu4_buf s - 4;
         val \<leftarrow> load_u32 (pu1_buf_base s) (buf - 8);
         Some (s \<lparr> u4_bit_ofst := ofst, pu4_buf := buf, u4_nxt_word := u4_cur_word s,
                   u4_cur_word := ITT_BIG_ENDIAN val \<rparr>)
       })
     else BITS_FLUSH (word_of_int numbits) s
   }"

definition ihevcd_bits_nxt :: "bitstrm \<Rightarrow> u32 \<Rightarrow> u32 option" where
  "ihevcd_bits_nxt s u4_numbits = BITS_NXT u4_numbits s"

definition ihevcd_bits_nxt32 :: "bitstrm \<Rightarrow> u32 \<Rightarrow> u32 option" where
  "ihevcd_bits_nxt32 s u4_numbits = BITS_NXT32 s"

definition ihevcd_bits_get :: "bitstrm \<Rightarrow> u32 \<Rightarrow> (u32 \<times> bitstrm) option" where
  "ihevcd_bits_get s u4_numbits = BITS_GET u4_numbits s"

definition ihevcd_bits_num_bits_consumed :: "bitstrm \<Rightarrow> u32" where
  "ihevcd_bits_num_bits_consumed s =
     word_of_int ((int (pu4_buf s) - 8) * 8) + u4_bit_ofst s"

definition ihevcd_bits_num_bits_remaining :: "bitstrm \<Rightarrow> u32" where
  "ihevcd_bits_num_bits_remaining s = (
     let u4_bits_consumed = word_of_int ((int (pu4_buf s) - 8) * 8) + u4_bit_ofst s;
         u4_size_in_bits = word_of_nat (pu1_buf_max s) - 8;
         u4_size_in_bits = push_bit 3 u4_size_in_bits
     in if u4_size_in_bits > u4_bits_consumed then u4_size_in_bits - u4_bits_consumed else 0)"

definition ihevcd_uev :: "bitstrm \<Rightarrow> (u32 \<times> bitstrm) option" where
  "ihevcd_uev s = do {
     u4_bits_read \<leftarrow> BITS_NXT32 s;
     let u4_clz = CLZ u4_bits_read;
     s \<leftarrow> BITS_FLUSH (u4_clz + 1) s;
     (u4_bits_read, s) \<leftarrow> (if u4_clz \<noteq> 0 then BITS_GET u4_clz s else Some (0, s));
     t \<leftarrow> shl32 1 u4_clz;
     Some (t + u4_bits_read - 1, s)
   }"

definition ihevcd_sev :: "bitstrm \<Rightarrow> (int \<times> bitstrm) option" where
  "ihevcd_sev s = do {
     u4_bits_read \<leftarrow> BITS_NXT32 s;
     let u4_clz = CLZ u4_bits_read;
     s \<leftarrow> BITS_FLUSH (u4_clz + 1) s;
     (u4_bits_read, s) \<leftarrow> (if u4_clz \<noteq> 0 then BITS_GET u4_clz s else Some (0, s));
     t \<leftarrow> shl32 1 u4_clz;
     let u4_abs_val = drop_bit 1 (t + u4_bits_read);
     if u4_bits_read AND 1 \<noteq> 0 then Some (sint (- u4_abs_val), s)
     else Some (sint u4_abs_val, s)
   }"

section \<open>Invariant and position\<close>

definition rd_inv :: "bitstrm \<Rightarrow> bool" where
  "rd_inv s \<longleftrightarrow> u4_bit_ofst s < 32 \<and> 8 \<le> pu4_buf s \<and> 4 dvd pu4_buf s \<and> pu4_buf s \<le> length (pu1_buf_base s) \<and>
     u4_cur_word s = be32 (pu1_buf_base s) (pu4_buf s - 8) \<and>
     u4_nxt_word s = be32 (pu1_buf_base s) (pu4_buf s - 4)"

definition rd_pos :: "bitstrm \<Rightarrow> nat" where
  "rd_pos s = 8 * (pu4_buf s - 8) + unat (u4_bit_ofst s)"

abbreviation rd_bits :: "bitstrm \<Rightarrow> nat \<Rightarrow> bool" where
  "rd_bits s \<equiv> sbit (pu1_buf_base s)"

text \<open>The \<open>n\<close> bits after the position lie in the buffer with the two prefetched words behind them.\<close>

definition rd_room :: "bitstrm \<Rightarrow> nat \<Rightarrow> bool" where
  "rd_room s n \<longleftrightarrow> rd_pos s + n + 64 \<le> 8 * length (pu1_buf_base s)"

text \<open>State \<open>t\<close> is state \<open>s\<close> moved to position \<open>p\<close>.\<close>

definition rd_at :: "bitstrm \<Rightarrow> nat \<Rightarrow> bitstrm \<Rightarrow> bool" where
  "rd_at s p t \<longleftrightarrow> rd_inv t \<and> rd_pos t = p \<and> pu1_buf_base t = pu1_buf_base s \<and>
     pu1_buf_max t = pu1_buf_max s"

lemma rd_invD [dest]:
  assumes "rd_inv s"
  shows "unat (u4_bit_ofst s) < 32" "8 \<le> pu4_buf s" "pu4_buf s \<le> length (pu1_buf_base s)"
  using assms by (simp_all add: rd_inv_def word_less_nat_alt)

lemma rd_inv_words:
  assumes "rd_inv s" "i < 32"
  shows "bit (u4_cur_word s) (31 - i) = rd_bits s (8 * (pu4_buf s - 8) + i)"
    and "bit (u4_nxt_word s) (31 - i) = rd_bits s (8 * (pu4_buf s - 8) + 32 + i)"
proof -
  have "8 * (pu4_buf s - 4) + i = 8 * (pu4_buf s - 8) + 32 + i"
    using rd_invD(2) [OF assms(1)] by (simp add: algebra_simps)
  then show "bit (u4_cur_word s) (31 - i) = rd_bits s (8 * (pu4_buf s - 8) + i)"
    and "bit (u4_nxt_word s) (31 - i) = rd_bits s (8 * (pu4_buf s - 8) + 32 + i)"
    using assms by (simp_all add: rd_inv_def bit_be32)
qed

text \<open>The two expressions the macros use to assemble \<open>n\<close> bits.\<close>

lemma peek_bits:
  assumes inv: "rd_inv s" and n: "0 < n" "n \<le> 32" and o: "o' = unat (u4_bit_ofst s)"
  shows "unat (drop_bit (32 - n) (push_bit o' (u4_cur_word s)) OR
           (if 32 < o' + n then drop_bit (64 - (o' + n)) (u4_nxt_word s) else 0)) =
         bits_at (rd_bits s) (rd_pos s) n" (is "unat ?w = _")
proof (rule bits_at_unat)
  note O = rd_invD(1) [OF inv]
  show "bit ?w (n - 1 - i) = rd_bits s (rd_pos s + i)" if "i < n" for i
  proof (cases "i + o' < 32")
    case True
    have cur: "bit (drop_bit (32 - n) (push_bit o' (u4_cur_word s))) (n - 1 - i) =
        bit (u4_cur_word s) (31 - (i + o'))"
      using True that n by (auto simp: bit_drop_bit_eq bit_push_bit_iff)
    have nxt: "\<not> bit (drop_bit (64 - (o' + n)) (u4_nxt_word s)) (n - 1 - i)" if "32 < o' + n"
      using True that \<open>i < n\<close> n O o by (simp add: bit_drop_bit_eq)
    show ?thesis
      using cur nxt rd_inv_words(1) [OF inv True]
      by (auto simp: bit_or_iff rd_pos_def o algebra_simps)
  next
    case False
    have cur: "\<not> bit (drop_bit (32 - n) (push_bit o' (u4_cur_word s))) (n - 1 - i)"
      using False that n by (auto simp: bit_drop_bit_eq bit_push_bit_iff)
    have "64 - (o' + n) + (n - 1 - i) = 31 - (i + o' - 32)" "i + o' - 32 < 32" "32 < o' + n"
      using False that n O o by simp_all
    then show ?thesis
      using cur False rd_inv_words(2) [OF inv, of "i + o' - 32"]
      by (simp add: bit_or_iff bit_drop_bit_eq rd_pos_def o algebra_simps)
  qed
  show "\<not> bit ?w i" if "n \<le> i" for i
    using that n O o by (auto simp: bit_or_iff bit_drop_bit_eq)
qed

text \<open>Moving forward by \<open>n \<le> 32\<close> bits, as \<^verbatim>\<open>BITS_FLUSH\<close> and \<^verbatim>\<open>BITS_GET\<close> do.\<close>

lemma BITS_FLUSH_spec:
  assumes inv: "rd_inv s" and n: "unat n \<le> 32" and room: "rd_room s (unat n)"
  shows "\<exists>t. BITS_FLUSH n s = Some t \<and> rd_at s (rd_pos s + unat n) t"
proof -
  note I = rd_invD [OF inv]
  have sum: "unat (u4_bit_ofst s + n) = unat (u4_bit_ofst s) + unat n"
    using I(1) n by (intro unat_add_u32) simp
  show ?thesis
  proof (cases "32 \<le> u4_bit_ofst s + n")
    case True
    then have ge: "32 \<le> unat (u4_bit_ofst s) + unat n"
      using sum by (simp add: word_le_nat_alt)
    then have "pu4_buf s + 4 \<le> length (pu1_buf_base s)"
      using room I by (simp add: rd_room_def rd_pos_def)
    then obtain w where w: "load_u32 (pu1_buf_base s) (pu4_buf s) = Some w"
        "ITT_BIG_ENDIAN w = be32 (pu1_buf_base s) (pu4_buf s)"
      using load_u32_ok by blast
    have "unat (u4_bit_ofst s + n - 32) = unat (u4_bit_ofst s) + unat n - 32"
      using ge sum by (simp add: unat_sub_u32)
    then show ?thesis
      using True w inv ge I n \<open>pu4_buf s + 4 \<le> length (pu1_buf_base s)\<close>
      by (simp add: BITS_FLUSH_def Let_def rd_at_def rd_inv_def rd_pos_def word_less_nat_alt) arith
  next
    case False
    then show ?thesis
      using sum inv by (simp add: BITS_FLUSH_def Let_def rd_at_def rd_inv_def rd_pos_def)
  qed
qed

lemma BITS_GET_spec:
  assumes inv: "rd_inv s" and n: "0 < unat n" "unat n \<le> 32" and room: "rd_room s (unat n)"
  shows "\<exists>v t. BITS_GET n s = Some (v, t) \<and> rd_at s (rd_pos s + unat n) t \<and>
    unat v = bits_at (rd_bits s) (rd_pos s) (unat n)"
proof -
  note I = rd_invD [OF inv]
  let ?o = "u4_bit_ofst s"
  have sum: "unat (?o + n) = unat ?o + unat n"
    using I(1) n by (intro unat_add_u32) simp
  have un: "unat (32 - n) = 32 - unat n" using n by (simp add: unat_sub_u32)
  then have lt: "32 - n < 32" using n by (simp add: word_less_nat_alt)
  have gt: "32 < ?o + n \<longleftrightarrow> 32 < unat ?o + unat n" using sum by (simp add: word_less_nat_alt)
  have u64: "unat (64 - (?o + n)) = 64 - (unat ?o + unat n)"
    using sum I(1) n by (simp add: unat_sub_u32)
  have shr: "SHR (u4_nxt_word s) (64 - (?o + n)) = drop_bit (64 - (unat ?o + unat n)) (u4_nxt_word s)"
    if "32 < unat ?o + unat n"
  proof -
    have "64 - (unat ?o + unat n) < 32" using that by arith
    then show ?thesis using u64 by (simp add: SHR_def word_less_nat_alt)
  qed
  let ?v = "drop_bit (32 - unat n) (push_bit (unat ?o) (u4_cur_word s)) OR
           (if 32 < unat ?o + unat n then drop_bit (64 - (unat ?o + unat n)) (u4_nxt_word s) else 0)"
  obtain t where t: "BITS_FLUSH n s = Some t" "rd_at s (rd_pos s + unat n) t"
    using BITS_FLUSH_spec [OF inv n(2) room] by blast
  have "BITS_GET n s = map_option (Pair ?v) (BITS_FLUSH n s)"
    using inv lt un gt shr
    by (cases "load_u32 (pu1_buf_base s) (pu4_buf s)")
       (simp_all add: BITS_GET_def BITS_FLUSH_def Let_def rd_inv_def)
  then show ?thesis
    using t peek_bits [OF inv n refl] by simp
qed

lemma BIT_GET_eq_BITS_GET: "u4_bit_ofst s < 32 \<Longrightarrow> BIT_GET s = BITS_GET 1 s"
proof -
  assume a: "u4_bit_ofst s < 32"
  then have o: "unat (u4_bit_ofst s) < 32" by (simp add: word_less_nat_alt)
  have sum: "unat (u4_bit_ofst s + 1) = unat (u4_bit_ofst s) + 1"
    using o by (simp add: unat_add_u32)
  then have "\<not> 32 < u4_bit_ofst s + 1" "32 \<le> u4_bit_ofst s + 1 \<longleftrightarrow> u4_bit_ofst s + 1 = 32"
    using o by (auto simp: word_less_nat_alt word_le_nat_alt word_unat_eq_iff)
  then show ?thesis
    using a by (simp add: BIT_GET_def BITS_GET_def Let_def)
qed

lemma BIT_GET_spec:
  assumes inv: "rd_inv s" and room: "rd_room s 1"
  shows "\<exists>v t. BIT_GET s = Some (v, t) \<and> rd_at s (rd_pos s + 1) t \<and>
    v = of_bool (rd_bits s (rd_pos s))"
proof -
  have "u4_bit_ofst s < 32" using inv by (simp add: rd_inv_def)
  then obtain v t where "BIT_GET s = Some (v, t)" "rd_at s (rd_pos s + 1) t"
      "unat v = bits_at (rd_bits s) (rd_pos s) 1"
    using BITS_GET_spec [OF inv, of 1] room by (auto simp: BIT_GET_eq_BITS_GET)
  moreover from this(3) have "v = of_bool (rd_bits s (rd_pos s))"
    by (cases "rd_bits s (rd_pos s)") (simp_all add: word_unat_eq_iff)
  ultimately show ?thesis by blast
qed

lemma BITS_NXT_spec:
  assumes inv: "rd_inv s" and n: "0 < unat n" "unat n \<le> 32"
  shows "\<exists>v. BITS_NXT n s = Some v \<and> unat v = bits_at (rd_bits s) (rd_pos s) (unat n)"
proof -
  note I = rd_invD [OF inv]
  let ?o = "u4_bit_ofst s"
  have un: "unat (32 - n) = 32 - unat n" using n by (simp add: unat_sub_u32)
  have u64: "unat (64 - n) = 64 - unat n" using n by (simp add: unat_sub_u32)
  then have u: "unat (64 - n - ?o) = 64 - (unat ?o + unat n)"
    using I(1) n by (simp add: unat_sub_u32)
  have "32 - n < ?o \<longleftrightarrow> 32 < unat ?o + unat n" "32 - n < 32"
    using un n by (auto simp: word_less_nat_alt)
  then show ?thesis
    using peek_bits [OF inv n refl] inv un u n
    by (auto simp: BITS_NXT_def SHR_def word_less_nat_alt rd_inv_def)
qed

lemma BITS_NXT32_spec:
  assumes inv: "rd_inv s"
  shows "\<exists>v. BITS_NXT32 s = Some v \<and> unat v = bits_at (rd_bits s) (rd_pos s) 32"
proof -
  let ?o = "u4_bit_ofst s"
  have o: "unat ?o < 32" using rd_invD(1) [OF inv] .
  have "unat (32 - ?o) = 32 - unat ?o" using o by (simp add: unat_sub_u32)
  then have "SHR (u4_nxt_word s) (32 - ?o) =
      (if 32 < unat ?o + 32 then drop_bit (64 - (unat ?o + 32)) (u4_nxt_word s) else 0)"
    using o by (auto simp: SHR_def word_less_nat_alt)
  then show ?thesis
    using peek_bits [OF inv, of 32, OF _ _ refl] inv o
    by (simp add: BITS_NXT32_def rd_inv_def word_less_nat_alt)
qed

lemma rd_atD:
  assumes "rd_at s p t"
  shows "rd_inv t" "rd_pos t = p" "pu1_buf_base t = pu1_buf_base s" "pu1_buf_max t = pu1_buf_max s"
  using assms by (simp_all add: rd_at_def)

lemma rd_at_refl: "rd_inv s \<Longrightarrow> rd_at s (rd_pos s) s"
  by (simp add: rd_at_def)

lemma rd_at_trans: "rd_at s p t \<Longrightarrow> rd_at t q u \<Longrightarrow> rd_at s q u"
  by (simp add: rd_at_def)

lemma rd_room_at: "rd_at s p t \<Longrightarrow> rd_room t n \<longleftrightarrow> p + n + 64 \<le> 8 * length (pu1_buf_base s)"
  by (simp add: rd_at_def rd_room_def)

lemma rd_room_mono: "rd_room s n \<Longrightarrow> m \<le> n \<Longrightarrow> rd_room s m"
  by (simp add: rd_room_def)

lemma bits_init_spec:
  assumes "8 \<le> length buf"
  shows "\<exists>s. ihevcd_bits_init buf n = Some s \<and> rd_inv s \<and> rd_pos s = 0 \<and>
    pu1_buf_base s = buf \<and> pu1_buf_max s = unat n + 8"
proof -
  obtain w0 w1 where "load_u32 buf 0 = Some w0" "ITT_BIG_ENDIAN w0 = be32 buf 0"
      "load_u32 buf 4 = Some w1" "ITT_BIG_ENDIAN w1 = be32 buf 4"
    using load_u32_ok [of 0 buf] load_u32_ok [of 4 buf] assms by auto
  then show ?thesis
    using assms by (simp add: ihevcd_bits_init_def rd_inv_def rd_pos_def)
qed

text \<open>Seeking back inside what has been read restores the earlier state of the reader.\<close>

lemma bits_seek_back_spec:
  assumes inv: "rd_inv s" and k: "k \<le> 32" "k \<le> rd_pos s"
  shows "\<exists>t. ihevcd_bits_seek s (- int k) = Some t \<and> rd_at s (rd_pos s - k) t"
proof (cases "k = 0")
  case True
  have "BITS_FLUSH 0 s = Some s"
    using inv by (auto simp: BITS_FLUSH_def rd_inv_def word_le_nat_alt word_less_nat_alt)
  with True inv show ?thesis by (simp add: ihevcd_bits_seek_def rd_at_def)
next
  case k0: False
  let ?a = "word_of_nat k :: u32" and ?o = "u4_bit_ofst s"
  note I = rd_invD [OF inv]
  have a: "unat ?a = k" using k by simp
  have neg: "- int k < 0" using k0 by simp
  show ?thesis
  proof (cases "?a \<le> ?o")
    case True
    then have "k \<le> unat ?o" using a by (simp add: word_le_nat_alt)
    moreover have "unat (?o - ?a) = unat ?o - k"
      using True a by (simp add: unat_sub_u32 word_le_nat_alt)
    ultimately show ?thesis
      using neg k inv True I
      by (simp add: ihevcd_bits_seek_def Let_def rd_at_def rd_inv_def rd_pos_def word_less_nat_alt)
  next
    case False
    then have lt: "unat ?o < k" using a by (simp add: word_le_nat_alt)
    have o: "unat (?o + 32 - ?a) = unat ?o + 32 - k"
      using a k I(1) by (simp add: unat_sub_u32 unat_add_u32)
    have buf: "12 \<le> pu4_buf s"
    proof -
      have "8 < pu4_buf s" "4 dvd pu4_buf s"
        using lt k inv by (auto simp: rd_pos_def rd_inv_def)
      then show ?thesis by (auto elim!: dvdE)
    qed
    then obtain w where w: "load_u32 (pu1_buf_base s) (pu4_buf s - 12) = Some w"
        "ITT_BIG_ENDIAN w = be32 (pu1_buf_base s) (pu4_buf s - 12)"
      using load_u32_ok [of "pu4_buf s - 12" "pu1_buf_base s"] le_trans [OF diff_le_self I(3), of 8]
      by auto
    have "4 dvd pu4_buf s - 4" using inv by (simp add: rd_inv_def dvd_diff_nat)
    moreover have "8 * (pu4_buf s - 12) + (unat ?o + 32 - k) = 8 * (pu4_buf s - 8) + unat ?o - k"
      using buf lt k by arith
    ultimately show ?thesis
      using neg k inv False I buf w o lt
      by (simp add: ihevcd_bits_seek_def Let_def rd_at_def rd_inv_def rd_pos_def word_less_nat_alt) arith
  qed
qed

section \<open>Exp-Golomb reading\<close>

lemma CLZ_bits_at:
  assumes w: "unat w = bits_at f p 32" and z: "z \<le> 31"
    and zeros: "\<And>i. i < z \<Longrightarrow> \<not> f (p + i)" and one: "f (p + z)"
  shows "CLZ w = word_of_nat z"
proof -
  have "bits_at f p (Suc z) = 1" using zeros one by (simp add: bits_at_zero)
  then have "bits_at f p (Suc z + (31 - z)) =
      2 ^ (31 - z) + bits_at f (p + Suc z) (31 - z)"
    by (simp only: bits_at_add)
  then have "unat w = 2 ^ (31 - z) + bits_at f (p + Suc z) (31 - z)"
    using w z by simp
  moreover have "bits_at f (p + Suc z) (31 - z) < 2 ^ (31 - z)" by (rule bits_at_less)
  ultimately have b: "2 ^ (31 - z) \<le> unat w" "unat w < 2 ^ Suc (31 - z)" by simp_all
  then have "builtin_clz w = 31 - (31 - z)" by (rule builtin_clz_eq)
  moreover have "w \<noteq> 0"
  proof
    assume "w = 0"
    with b(1) show False by simp
  qed
  ultimately show ?thesis using z by (simp add: CLZ_def)
qed

text \<open>
  What the two Exp-Golomb readers share: \<open>z\<close> zero bits, a one bit and \<open>z\<close> suffix bits are
  consumed, and the value \<open>2 ^ z + suffix\<close> is assembled.
\<close>

lemma exp_golomb_step:
  assumes inv: "rd_inv s" and room: "rd_room s (2 * z + 1)" and z: "z \<le> 31"
    and zeros: "\<And>i. i < z \<Longrightarrow> \<not> rd_bits s (rd_pos s + i)" and one: "rd_bits s (rd_pos s + z)"
  obtains w t v u where
    "BITS_NXT32 s = Some w" "CLZ w = word_of_nat z" "BITS_FLUSH (word_of_nat z + 1) s = Some t"
    "(if word_of_nat z \<noteq> (0 :: u32) then BITS_GET (word_of_nat z) t else Some (0, t)) = Some (v, u)"
    "rd_at s (rd_pos s + (2 * z + 1)) u" "unat v = bits_at (rd_bits s) (rd_pos s + z + 1) z"
    "shl32 1 (word_of_nat z) = Some (word_of_nat (2 ^ z))"
    "unat (word_of_nat (2 ^ z) + v) = 2 ^ z + bits_at (rd_bits s) (rd_pos s + z + 1) z"
proof -
  obtain w where w: "BITS_NXT32 s = Some w" "unat w = bits_at (rd_bits s) (rd_pos s) 32"
    using BITS_NXT32_spec [OF inv] by blast
  have clz: "CLZ w = word_of_nat z" using CLZ_bits_at [OF w(2) z zeros one] .
  have z32: "unat (word_of_nat z :: u32) = z" using z by simp
  have z1: "unat (word_of_nat z + 1 :: u32) = z + 1" using z z32 by (simp add: unat_add_u32)
  obtain t where t: "BITS_FLUSH (word_of_nat z + 1) s = Some t" "rd_at s (rd_pos s + (z + 1)) t"
    using BITS_FLUSH_spec [OF inv, of "word_of_nat z + 1"] z z1 rd_room_mono [OF room, of "z + 1"]
    by auto
  have "\<exists>v u. (if word_of_nat z \<noteq> (0 :: u32) then BITS_GET (word_of_nat z) t else Some (0, t)) =
      Some (v, u) \<and> rd_at s (rd_pos s + (2 * z + 1)) u \<and>
      unat v = bits_at (rd_bits s) (rd_pos s + z + 1) z"
  proof (cases "z = 0")
    case True
    then show ?thesis using t by simp
  next
    case False
    have nz: "word_of_nat z \<noteq> (0 :: u32)" using False z32 by (auto simp: word_unat_eq_iff)
    have "rd_room t z" using rd_atD [OF t(2)] room by (simp add: rd_room_def)
    then obtain v u where vu: "BITS_GET (word_of_nat z) t = Some (v, u)" "rd_at t (rd_pos t + z) u"
        "unat v = bits_at (rd_bits t) (rd_pos t) z"
      using BITS_GET_spec [of t "word_of_nat z"] z z32 False rd_atD(1) [OF t(2)] by auto
    have "rd_pos t + z = rd_pos s + (2 * z + 1)" using rd_atD(2) [OF t(2)] by simp
    then have "rd_at s (rd_pos s + (2 * z + 1)) u"
      using rd_at_trans [OF t(2) vu(2)] by (simp only:)
    then show ?thesis
      using nz vu rd_atD [OF t(2)] by (simp add: ac_simps)
  qed
  then obtain v u where vu: "(if word_of_nat z \<noteq> (0 :: u32) then BITS_GET (word_of_nat z) t else Some (0, t)) =
      Some (v, u)" "rd_at s (rd_pos s + (2 * z + 1)) u"
      "unat v = bits_at (rd_bits s) (rd_pos s + z + 1) z" by blast
  have shl: "shl32 1 (word_of_nat z) = Some (word_of_nat (2 ^ z))"
    using z z32 by (simp add: shl32_def word_less_nat_alt push_bit_eq_mult)
  have p: "(2::nat) ^ z \<le> 2 ^ 31" using z by (rule power_increasing) simp
  have "unat v < 2 ^ z" using vu(3) bits_at_less by simp
  moreover have "unat (word_of_nat (2 ^ z) :: u32) = 2 ^ z" using p by (intro unat_u32_small) simp
  ultimately have "unat (word_of_nat (2 ^ z) + v) = 2 ^ z + unat v"
    using p by (simp add: unat_add_u32 del: of_nat_power)
  with that w(1) clz t(1) vu shl show thesis by simp
qed

lemma uev_spec:
  assumes "rd_inv s" "rd_room s (2 * z + 1)" "z \<le> 31"
    and "\<And>i. i < z \<Longrightarrow> \<not> rd_bits s (rd_pos s + i)" "rd_bits s (rd_pos s + z)"
  shows "\<exists>v t. ihevcd_uev s = Some (v, t) \<and> rd_at s (rd_pos s + (2 * z + 1)) t \<and>
    unat v = 2 ^ z + bits_at (rd_bits s) (rd_pos s + z + 1) z - 1"
proof (rule exp_golomb_step [OF assms])
  fix w t v u
  assume a: "BITS_NXT32 s = Some w" "CLZ w = word_of_nat z" "BITS_FLUSH (word_of_nat z + 1) s = Some t"
    "(if word_of_nat z \<noteq> (0 :: u32) then BITS_GET (word_of_nat z) t else Some (0, t)) = Some (v, u)"
    "rd_at s (rd_pos s + (2 * z + 1)) u"
    "shl32 1 (word_of_nat z) = Some (word_of_nat (2 ^ z))"
    and n: "unat (word_of_nat (2 ^ z) + v) = 2 ^ z + bits_at (rd_bits s) (rd_pos s + z + 1) z"
  from a(1-4,6) have "ihevcd_uev s = Some (word_of_nat (2 ^ z) + v - 1, u)"
    by (simp add: ihevcd_uev_def)
  moreover have "1 \<le> 2 ^ z + bits_at (rd_bits s) (rd_pos s + z + 1) z"
    by (meson one_le_numeral one_le_power trans_le_add1)
  with n have "unat (word_of_nat (2 ^ z) + v - 1) =
      2 ^ z + bits_at (rd_bits s) (rd_pos s + z + 1) z - 1"
    using unat_sub_u32 [of 1 "word_of_nat (2 ^ z) + v"] by (simp only: unat_1)
  ultimately show ?thesis using a(5) by blast
qed

lemma sev_spec:
  assumes "rd_inv s" "rd_room s (2 * z + 1)" "z \<le> 30"
    and "\<And>i. i < z \<Longrightarrow> \<not> rd_bits s (rd_pos s + i)" "rd_bits s (rd_pos s + z)"
  shows "\<exists>t. ihevcd_sev s =
      Some (let k = 2 ^ z + bits_at (rd_bits s) (rd_pos s + z + 1) z
            in if even k then int (k div 2) else - int (k div 2), t) \<and>
    rd_at s (rd_pos s + (2 * z + 1)) t"
proof (rule exp_golomb_step [OF assms(1,2) _ assms(4,5)])
  show "z \<le> 31" using assms(3) by simp
next
  fix w t v u
  let ?b = "bits_at (rd_bits s) (rd_pos s + z + 1) z"
  assume a: "BITS_NXT32 s = Some w" "CLZ w = word_of_nat z" "BITS_FLUSH (word_of_nat z + 1) s = Some t"
    "(if word_of_nat z \<noteq> (0 :: u32) then BITS_GET (word_of_nat z) t else Some (0, t)) = Some (v, u)"
    "rd_at s (rd_pos s + (2 * z + 1)) u" "unat v = ?b"
    "shl32 1 (word_of_nat z) = Some (word_of_nat (2 ^ z))"
    and n: "unat (word_of_nat (2 ^ z) + v) = 2 ^ z + ?b"
  define k where "k = 2 ^ z + ?b"
  let ?abs = "drop_bit 1 (word_of_nat (2 ^ z) + v)"
  have "?b < 2 ^ z" by (rule bits_at_less)
  moreover have "(2::nat) ^ z \<le> 2 ^ 30" using assms(3) by (rule power_increasing) simp
  ultimately have k: "k < 2 ^ 31" by (simp add: k_def)
  have abs: "unat ?abs = k div 2" using n unat_drop_u32 [of 1] by (simp add: k_def)
  have odd: "v AND 1 \<noteq> 0 \<longleftrightarrow> odd ?b"
    unfolding and_1_u32 a(6) ..
  have par: "odd ?b \<longleftrightarrow> odd k \<and> z \<noteq> 0"
    by (cases z) (auto simp: k_def)
  have "?abs = word_of_nat (k div 2)" using abs k by (simp add: word_unat_eq_iff)
  then have pos: "sint ?abs = int (k div 2)" and neg: "sint (- ?abs) = - int (k div 2)"
    using k by (simp_all add: sint_small_nat sint_small_neg)
  have "ihevcd_sev s = Some (if v AND 1 \<noteq> 0 then sint (- ?abs) else sint ?abs, u)"
    using a(1-4,7) by (simp add: ihevcd_sev_def)
  moreover have "(if v AND 1 \<noteq> 0 then sint (- ?abs) else sint ?abs) =
      (if even k then int (k div 2) else - int (k div 2))"
    using odd par pos neg by (cases "z = 0") (auto simp: k_def)
  ultimately show ?thesis using a(5) by (simp add: k_def Let_def)
qed

section \<open>Position accounting\<close>

lemma bits_num_bits_consumed_eq:
  assumes "rd_inv s" "rd_pos s < 2 ^ 32"
  shows "unat (ihevcd_bits_num_bits_consumed s) = rd_pos s"
proof -
  have "word_of_int ((int (pu4_buf s) - 8) * 8) = (word_of_nat (8 * (pu4_buf s - 8)) :: u32)"
  proof -
    have "(int (pu4_buf s) - 8) * 8 = int (8 * (pu4_buf s - 8))"
      using rd_invD(2) [OF assms(1)] by simp
    then show ?thesis by (simp only: of_int_of_nat_eq)
  qed
  then have "ihevcd_bits_num_bits_consumed s = word_of_nat (rd_pos s)"
    by (simp add: ihevcd_bits_num_bits_consumed_def rd_pos_def)
  then show ?thesis using assms(2) by (simp del: of_nat_add of_nat_mult)
qed

lemma bits_num_bits_remaining_eq:
  assumes inv: "rd_inv s" and p: "rd_pos s < 2 ^ 32" and max: "pu1_buf_max s = n + 8" "8 * n < 2 ^ 32"
  shows "unat (ihevcd_bits_num_bits_remaining s) = 8 * n - rd_pos s"
proof -
  have "word_of_nat (pu1_buf_max s) - 8 = (word_of_nat n :: u32)" using max(1) by simp
  moreover have "unat (push_bit 3 (word_of_nat n :: u32)) = 8 * n"
    using max(2) by (subst unat_push_u32) simp_all
  ultimately show ?thesis
    using bits_num_bits_consumed_eq [OF inv p]
    by (simp add: ihevcd_bits_num_bits_remaining_def ihevcd_bits_num_bits_consumed_def Let_def
        word_less_nat_alt unat_sub_u32)
qed

lemma bits_flush_to_byte_boundary_spec:
  assumes inv: "rd_inv s" and room: "rd_room s 8"
  shows "\<exists>t. ihevcd_bits_flush_to_byte_boundary s = Some t \<and>
    rd_at s (8 * (rd_pos s div 8 + 1)) t"
proof -
  let ?k = "u4_bit_ofst s AND 7"
  have "u4_bit_ofst s AND 7 = take_bit 3 (u4_bit_ofst s)"
    by (simp add: take_bit_eq_mask mask_eq_exp_minus_1)
  then have k: "unat ?k = unat (u4_bit_ofst s) mod 8"
    by (simp only: unsigned_take_bit_eq) (simp add: take_bit_eq_mod)
  then have m: "unat ?k = rd_pos s mod 8" by (simp add: rd_pos_def)
  then have "unat (8 - ?k) = 8 - rd_pos s mod 8" by (simp add: unat_sub_u32)
  moreover have "rd_pos s + (8 - rd_pos s mod 8) = 8 * (rd_pos s div 8 + 1)" by presburger
  ultimately show ?thesis
    using BITS_FLUSH_spec [OF inv, of "8 - ?k"] rd_room_mono [OF room, of "8 - rd_pos s mod 8"]
    by (simp add: ihevcd_bits_flush_to_byte_boundary_def Let_def)
qed

end
