(* ===== verification/Bit_Sequence.thy ===== *)
theory Bit_Sequence
  imports Hevc_Prelude
begin

text \<open>
  The abstract objects the stream components are specified by: the bits of words and of byte
  strings as lists, and emulation prevention as a function on byte strings. The encoder's
  writer and its CABAC engine both produce \<open>epb\<close> of a payload, and the decoder's NAL layer
  undoes it.
\<close>

unbundle bit_operations_syntax

section \<open>Bits of words and bytes\<close>

definition word_bits :: "nat \<Rightarrow> 'a::len word \<Rightarrow> bool list" where
  "word_bits n w = map (\<lambda>i. bit w (n - 1 - i)) [0..<n]"

definition bytes_bits :: "u8 list \<Rightarrow> bool list" where
  "bytes_bits bs = concat (map (word_bits 8) bs)"

lemma length_word_bits [simp]: "length (word_bits n w) = n"
  by (simp add: word_bits_def)

lemma nth_word_bits: "i < n \<Longrightarrow> word_bits n w ! i = bit w (n - 1 - i)"
  by (simp add: word_bits_def)

lemma word_bits_eq_iff:
  "word_bits n v = word_bits n w \<longleftrightarrow> (\<forall>i < n. bit v i = bit w i)"
proof
  assume eq: "word_bits n v = word_bits n w"
  show "\<forall>i < n. bit v i = bit w i"
  proof (intro allI impI)
    fix i assume "i < n"
    then have "word_bits n v ! (n - 1 - i) = word_bits n w ! (n - 1 - i)" using eq by simp
    with \<open>i < n\<close> show "bit v i = bit w i" by (simp add: nth_word_bits)
  qed
qed (simp add: word_bits_def)

lemma word_bits_append:
  "word_bits (m + n) w = word_bits m (drop_bit n w) @ word_bits n w"
proof (rule nth_equalityI)
  fix i assume "i < length (word_bits (m + n) w)"
  then show "word_bits (m + n) w ! i = (word_bits m (drop_bit n w) @ word_bits n w) ! i"
    by (auto simp: nth_append nth_word_bits bit_drop_bit_eq intro!: arg_cong [of _ _ "bit w"])
qed simp

lemma bytes_bits_simps [simp]:
  "bytes_bits [] = []"
  "bytes_bits (b # bs) = word_bits 8 b @ bytes_bits bs"
  "bytes_bits (xs @ ys) = bytes_bits xs @ bytes_bits ys"
  by (simp_all add: bytes_bits_def)

lemma length_bytes_bits [simp]: "length (bytes_bits bs) = 8 * length bs"
  by (induction bs) simp_all

lemma nth_bytes_bits: "p < 8 * length bs \<Longrightarrow> bytes_bits bs ! p = sbit bs p"
proof (induction bs arbitrary: p)
  case (Cons b bs)
  show ?case
  proof (cases "p < 8")
    case True
    then show ?thesis by (simp add: nth_append nth_word_bits sbit_def)
  next
    case False
    then have "p div 8 = Suc ((p - 8) div 8)" "p mod 8 = (p - 8) mod 8" by (simp_all add: le_mod_geq le_div_geq)
    with False Cons show ?thesis by (simp add: nth_append sbit_def)
  qed
qed simp

text \<open>The value of a list of bits, and the value of a window of a bit sequence.\<close>

definition bits_val :: "bool list \<Rightarrow> nat" where
  "bits_val xs = foldl (\<lambda>a b. 2 * a + of_bool b) 0 xs"

lemma bits_val_snoc [simp]: "bits_val [] = 0" "bits_val (xs @ [b]) = 2 * bits_val xs + of_bool b"
  by (simp_all add: bits_val_def)

lemma bits_val_append: "bits_val (xs @ ys) = bits_val xs * 2 ^ length ys + bits_val ys"
proof (induction ys rule: rev_induct)
  case (snoc y ys)
  then show ?case by (simp add: algebra_simps flip: append_assoc)
qed simp

lemma bits_val_less: "bits_val xs < 2 ^ length xs"
  by (induction xs rule: rev_induct) (auto split: if_splits)

lemma bits_at_window:
  "(\<And>i. i < length xs \<Longrightarrow> f (p + i) = xs ! i) \<Longrightarrow> bits_at f p (length xs) = bits_val xs"
proof (induction xs rule: rev_induct)
  case (snoc x xs)
  have "bits_at f p (length xs) = bits_val xs"
    by (rule snoc.IH) (use snoc.prems in \<open>auto simp: nth_append less_Suc_eq\<close>)
  moreover have "f (p + length xs) = x" using snoc.prems [of "length xs"] by simp
  ultimately show ?case by simp
qed simp

lemma not_bit_of_less:
  assumes "unat (w :: 'a::len word) < 2 ^ n" "n \<le> i"
  shows "\<not> bit w i"
proof
  assume "bit w i"
  then have "2 ^ i \<le> unat w"
    by (metis bit_unat_iff bit_iff_odd div_less even_zero linorder_not_less)
  moreover have "(2::nat) ^ n \<le> 2 ^ i" using assms(2) by (rule power_increasing) simp
  ultimately show False using assms(1) by simp
qed

lemma push_or_unat:
  assumes "unat (b :: u32) < 2 ^ k" "unat x * 2 ^ k < 2 ^ 32"
  shows "unat (push_bit k x OR b) = unat x * 2 ^ k + unat b"
proof -
  have z: "push_bit k x AND b = 0"
    by (rule bit_word_eqI) (use not_bit_of_less [OF assms(1)] in \<open>auto simp: bit_and_iff bit_push_bit_iff not_le\<close>)
  have "push_bit k x OR b = push_bit k x + b"
    using disjunctive_add_eq_or [OF z] by simp
  moreover have "unat (push_bit k x) = unat x * 2 ^ k" using assms(2) by (rule unat_push_u32)
  moreover have "unat x * 2 ^ k + unat b < 2 ^ 32"
  proof -
    have "(unat x * 2 ^ k + unat b) div 2 ^ k = unat x" using assms(1) by simp
    show ?thesis
    proof (cases "k \<le> 32")
      case True
      then obtain j where j: "32 = k + j" using le_Suc_ex by blast
      have "(2::nat) ^ 32 = 2 ^ k * 2 ^ j" unfolding j by (rule power_add)
      then have "unat x * 2 ^ k < 2 ^ j * 2 ^ k" using assms(2) by (simp only: mult.commute)
      then have "unat x < 2 ^ j" by simp
      then have "(unat x + 1) * 2 ^ k \<le> 2 ^ j * 2 ^ k" by (intro mult_le_mono1) simp
      then show ?thesis using assms(1) \<open>(2::nat) ^ 32 = 2 ^ k * 2 ^ j\<close> by (simp add: algebra_simps)
    next
      case False
      then have "(2::nat) ^ 32 < 2 ^ k" by (intro power_strict_increasing) simp_all
      then have "unat x = 0" using assms(2) by (cases "unat x") auto
      then show ?thesis using unat_u32_lt [of b] by simp
    qed
  qed
  ultimately show ?thesis by (simp add: unat_add_u32)
qed

lemma bits_val_word_bits:
  assumes "unat w < 2 ^ n"
  shows "bits_val (word_bits n w) = unat w"
proof -
  have "unat w = bits_at (\<lambda>i. word_bits n w ! i) 0 n"
  proof (rule bits_at_unat)
    show "\<not> bit w i" if "n \<le> i" for i using assms that by (rule not_bit_of_less)
  qed (simp add: nth_word_bits)
  also have "\<dots> = bits_val (word_bits n w)"
    using bits_at_window [of "word_bits n w" "\<lambda>i. word_bits n w ! i" 0] by simp
  finally show ?thesis by simp
qed

text \<open>The four bytes of a 32-bit word.\<close>

definition word_byte :: "u32 \<Rightarrow> nat \<Rightarrow> u8" where
  "word_byte w j = ucast (drop_bit (8 * j) w AND 0xFF)"

lemma bit_word_byte: "i < 8 \<Longrightarrow> bit (word_byte w j) i = bit w (8 * j + i)"
proof -
  assume i: "i < 8"
  have "bit (0xFF :: u32) i"
    using i by (simp add: numeral_eq_Suc less_Suc_eq) (elim disjE; simp)
  then show ?thesis
    using i by (auto simp: word_byte_def bit_ucast_iff bit_and_iff bit_drop_bit_eq)
qed

lemma word_bits_word_byte: "word_bits 8 (word_byte w j) = word_bits 8 (drop_bit (8 * j) w)"
  by (rule nth_equalityI) (simp_all add: nth_word_bits bit_word_byte bit_drop_bit_eq)

lemma bytes_bits_word_bytes:
  "bytes_bits (map (word_byte w) (rev [l..<l + k])) = word_bits (8 * k) (drop_bit (8 * l) w)"
proof (induction k)
  case (Suc k)
  have "word_bits (8 + 8 * k) (drop_bit (8 * l) w) =
      word_bits 8 (drop_bit (8 * (l + k)) w) @ word_bits (8 * k) (drop_bit (8 * l) w)"
    by (simp add: word_bits_append drop_bit_drop_bit algebra_simps)
  then show ?case
    using Suc by (simp add: word_bits_word_byte del: drop_bit_drop_bit)
qed (simp add: word_bits_def)

section \<open>Emulation prevention\<close>

text \<open>
  The zero run after a byte, the bytes one payload byte codes to, and the code of a payload
  from a given zero run.
\<close>

definition zrun :: "nat \<Rightarrow> u8 \<Rightarrow> nat" where
  "zrun z b = (if b \<noteq> 0 then 0 else if z = 2 then 1 else z + 1)"

definition epb1 :: "nat \<Rightarrow> u8 \<Rightarrow> u8 list" where
  "epb1 z b = (if z = 2 \<and> unat b \<le> 3 then [3, b] else [b])"

fun epb :: "nat \<Rightarrow> u8 list \<Rightarrow> u8 list" where
  "epb z [] = []"
| "epb z (b # bs) = epb1 z b @ epb (zrun z b) bs"

fun epb_run :: "nat \<Rightarrow> u8 list \<Rightarrow> nat" where
  "epb_run z [] = z"
| "epb_run z (b # bs) = epb_run (zrun z b) bs"

lemma epb_append [simp]: "epb z (xs @ ys) = epb z xs @ epb (epb_run z xs) ys"
  by (induction xs arbitrary: z) simp_all

lemma epb_run_append [simp]: "epb_run z (xs @ ys) = epb_run (epb_run z xs) ys"
  by (induction xs arbitrary: z) simp_all

lemma zrun_le: "z \<le> 2 \<Longrightarrow> zrun z b \<le> 2"
  by (simp add: zrun_def)

lemma epb_run_le: "z \<le> 2 \<Longrightarrow> epb_run z bs \<le> 2"
  by (induction bs arbitrary: z) (simp_all add: zrun_le)

lemma length_epb1: "length (epb1 z b) \<le> 2"
  by (simp add: epb1_def)

lemma length_epb: "length bs \<le> length (epb z bs) \<and> length (epb z bs) \<le> 2 * length bs"
proof (induction bs arbitrary: z)
  case (Cons b bs)
  have "1 \<le> length (epb1 z b)" by (simp add: epb1_def)
  then show ?case using Cons [of "zrun z b"] length_epb1 [of z b] by simp
qed simp

section \<open>Exp-Golomb codes\<close>

text \<open>
  The number of bits of a value, and the 0-th order Exp-Golomb code of \<open>v\<close>: as many zeros as
  \<open>v + 1\<close> has bits after its first, then \<open>v + 1\<close>. A signed value codes as the codeword of
  its rank.
\<close>

fun nbits :: "nat \<Rightarrow> nat" where
  "nbits n = (if n = 0 then 0 else Suc (nbits (n div 2)))"

declare nbits.simps [simp del]

definition ue_bits :: "nat \<Rightarrow> bool list" where
  "ue_bits v = (let r = nbits (v + 1)
     in replicate (r - 1) False @ word_bits r (word_of_nat (v + 1) :: u32))"

definition se_rank :: "int \<Rightarrow> nat" where
  "se_rank x = (if x \<le> 0 then nat (- 2 * x) else nat (2 * x - 1))"

definition se_bits :: "int \<Rightarrow> bool list" where
  "se_bits x = ue_bits (se_rank x)"

lemma nbits_bounds: "0 < n \<Longrightarrow> 2 ^ (nbits n - 1) \<le> n \<and> n < 2 ^ nbits n \<and> 0 < nbits n"
proof (induction n rule: nbits.induct)
  case (1 n)
  show ?case
  proof (cases "n div 2 = 0")
    case True
    then have "n = 1" using 1 by simp
    then show ?thesis by (simp add: nbits.simps)
  next
    case False
    then have IH: "2 ^ (nbits (n div 2) - 1) \<le> n div 2" "n div 2 < 2 ^ nbits (n div 2)"
        "0 < nbits (n div 2)"
      using 1 by auto
    obtain k where k: "nbits (n div 2) = Suc k" using IH(3) by (cases "nbits (n div 2)") auto
    have "nbits n = Suc (Suc k)" using 1 k by (simp add: nbits.simps [of n])
    moreover have "2 ^ k \<le> n div 2" "n div 2 < 2 * 2 ^ k" using IH(1,2) k by simp_all
    then have "2 * 2 ^ k \<le> n" "n < 2 * (2 * 2 ^ k)" by linarith+
    ultimately show ?thesis by simp
  qed
qed

lemma nbits_unique: "2 ^ k \<le> n \<Longrightarrow> n < 2 ^ Suc k \<Longrightarrow> nbits n = Suc k"
proof -
  assume a: "2 ^ k \<le> n" "n < 2 ^ Suc k"
  then have n: "0 < n" by (meson le_less_trans not_le zero_less_numeral zero_less_power)
  then have b: "2 ^ (nbits n - 1) \<le> n" "n < 2 ^ nbits n" "0 < nbits n"
    using nbits_bounds by auto
  have "k < nbits n" using a(1) b(2) by (meson le_less_trans power_less_imp_less_exp one_less_numeral_iff semiring_norm(76))
  moreover have "nbits n - 1 < Suc k" using b(1) a(2) by (meson le_less_trans power_less_imp_less_exp one_less_numeral_iff semiring_norm(76))
  ultimately show ?thesis by simp
qed

lemma nbits_le: "0 < n \<Longrightarrow> n < 2 ^ k \<Longrightarrow> nbits n \<le> k"
proof -
  assume "0 < n" "n < 2 ^ k"
  then have "2 ^ (nbits n - 1) < (2::nat) ^ k" using nbits_bounds [of n] by (meson le_less_trans)
  then have "nbits n - 1 < k" by (meson power_less_imp_less_exp one_less_numeral_iff semiring_norm(76))
  then show ?thesis by simp
qed

lemma builtin_clz_nbits: "w \<noteq> 0 \<Longrightarrow> builtin_clz w = 32 - nbits (unat w) \<and> 1 \<le> nbits (unat w) \<and> nbits (unat w) \<le> 32"
proof -
  assume "w \<noteq> 0"
  then have "0 < unat w" by (simp add: unat_gt_0)
  moreover from this have n: "2 ^ (nbits (unat w) - 1) \<le> unat w" "unat w < 2 ^ nbits (unat w)" "0 < nbits (unat w)"
    using nbits_bounds by auto
  moreover have "nbits (unat w) \<le> 32" using calculation(1) unat_u32_lt by (rule nbits_le)
  ultimately show ?thesis
    using builtin_clz_eq [of "nbits (unat w) - 1" w] by simp
qed

lemma GETRANGE_nbits: "w \<noteq> 0 \<Longrightarrow> unat (GETRANGE w) = nbits (unat w)"
  using builtin_clz_nbits [of w] by (simp add: GETRANGE_def unat_sub_u32)

lemma CLZ_nbits: "w \<noteq> 0 \<Longrightarrow> unat (CLZ w) = 32 - nbits (unat w)"
  using builtin_clz_nbits [of w] unat_u32_small [of "32 - nbits (unat w)"]
  by (simp add: CLZ_def del: of_nat_diff)

text \<open>The codeword of \<open>v\<close> is the \<open>2 r - 1\<close> low bits of \<open>v + 1\<close>.\<close>

lemma ue_bits_word_bits:
  assumes "v + 1 < 2 ^ 16"
  shows "ue_bits v = word_bits (2 * nbits (v + 1) - 1) (word_of_nat (v + 1) :: u32)"
proof -
  let ?r = "nbits (v + 1)" and ?w = "word_of_nat (v + 1) :: u32"
  have b: "v + 1 < 2 ^ ?r" "0 < ?r" using nbits_bounds [of "v + 1"] by auto
  have w: "unat ?w = v + 1" using assms by (intro unat_u32_small) simp
  have e: "2 * ?r - 1 = (?r - 1) + ?r" using b(2) by simp
  have "\<not> bit ?w i" if "?r \<le> i" for i
    by (rule not_bit_of_less [OF _ that]) (use b(1) w in simp)
  then have "word_bits (?r - 1) (drop_bit ?r ?w) = replicate (?r - 1) False"
    by (intro nth_equalityI) (auto simp: nth_word_bits bit_drop_bit_eq)
  then show ?thesis unfolding ue_bits_def e by (simp only: word_bits_append Let_def)
qed

lemma length_ue_bits: "length (ue_bits v) = 2 * nbits (v + 1) - 1"
  using nbits_bounds [of "v + 1"] by (simp add: ue_bits_def Let_def)

text \<open>The shape a reader sees: \<open>z\<close> zeros, a one, and a suffix of \<open>z\<close> bits.\<close>

lemma ue_bits_shape:
  assumes "v + 1 < 2 ^ 32"
  shows "\<exists>z suf. ue_bits v = replicate z False @ True # suf \<and> length suf = z \<and>
    z + 1 = nbits (v + 1) \<and> v + 1 = 2 ^ z + bits_val suf"
proof -
  let ?r = "nbits (v + 1)" and ?w = "word_of_nat (v + 1) :: u32"
  have b: "2 ^ (?r - 1) \<le> v + 1" "v + 1 < 2 ^ ?r" "0 < ?r" using nbits_bounds [of "v + 1"] by auto
  have w: "unat ?w = v + 1" using assms by (intro unat_u32_small) simp
  have val: "bits_val (word_bits ?r ?w) = v + 1" using bits_val_word_bits [of ?w ?r] w b(2) by simp
  obtain x suf where x: "word_bits ?r ?w = x # suf" using b(3) by (cases "word_bits ?r ?w") (auto dest: arg_cong [of _ _ length])
  then have len: "length suf = ?r - 1" by (metis length_word_bits length_Cons diff_Suc_1)
  have "bits_val ([x] @ suf) = of_bool x * 2 ^ (?r - 1) + bits_val suf"
    using bits_val_snoc(2) [of "[]" x] by (simp only: bits_val_append len) simp
  then have v: "v + 1 = of_bool x * 2 ^ (?r - 1) + bits_val suf" using val x by simp
  then have "x" using bits_val_less [of suf] len b(1) by (cases x) auto
  then show ?thesis
    using x len v b(3) by (intro exI [of _ "?r - 1"] exI [of _ suf]) (simp add: ue_bits_def Let_def)
qed

end
