(* ===== verification/Nal.thy ===== *)
theory Nal
  imports Bit_Reader Bit_Sequence
begin

text \<open>
  The decoder's NAL layer, \<^verbatim>\<open>decoder/ihevcd_nal.c\<close>: the search for a start code, the removal
  of emulation prevention bytes, the NAL unit header and the dispatch on its type.

  \<^verbatim>\<open>WORD32\<close> positions in a buffer are integers; a position is at least 0 wherever the code
  uses it as an index, which \<open>rdi\<close> checks. The first group of lemmas shows that the search
  returns the end of the first start code. The second shows that the removal inverts \<open>epb\<close>,
  the specification the encoder's writer meets, and that it is safe on any input.
\<close>

unbundle bit_operations_syntax

section \<open>Operations\<close>

abbreviation (input) START_CODE_PREFIX_BYTE :: u8 where "START_CODE_PREFIX_BYTE \<equiv> 1"
abbreviation (input) EMULATION_PREVENT_BYTE :: u8 where "EMULATION_PREVENT_BYTE \<equiv> 3"
abbreviation (input) NUM_ZEROS_BEFORE_START_CODE :: nat where "NUM_ZEROS_BEFORE_START_CODE \<equiv> 2"

text \<open>The \<^verbatim>\<open>while\<close> loop: it ends with the offset, the zero count and whether a start code
  was found.\<close>

function search_loop :: "u8 list \<Rightarrow> int \<Rightarrow> int \<Rightarrow> nat \<Rightarrow> (int \<times> nat \<times> bool) option" where
  "search_loop pu1_buf bytes_remaining ofst zero_byte_cnt =
     (if ofst < bytes_remaining - 1 then do {
        let ofst = ofst + 1;
        b \<leftarrow> rdi pu1_buf ofst;
        if b \<noteq> 0 then search_loop pu1_buf bytes_remaining ofst 0
        else do {
          let zero_byte_cnt = zero_byte_cnt + 1;
          found \<leftarrow> (if ofst < bytes_remaining - 1 then do {
              next_b \<leftarrow> rdi pu1_buf (ofst + 1);
              Some (next_b = START_CODE_PREFIX_BYTE \<and>
                    zero_byte_cnt \<ge> NUM_ZEROS_BEFORE_START_CODE)
            } else Some False);
          if found then Some (ofst + 1, zero_byte_cnt, True)
          else search_loop pu1_buf bytes_remaining ofst zero_byte_cnt
        }
      } else Some (ofst, zero_byte_cnt, False))"
  by pat_completeness auto
termination by (relation "measure (\<lambda>(_, n, i, _). nat (n - i))") auto

declare search_loop.simps [simp del]

definition ihevcd_nal_search_start_code :: "u8 list \<Rightarrow> int \<Rightarrow> int option" where
  "ihevcd_nal_search_start_code pu1_buf bytes_remaining = do {
     (ofst, zero_byte_cnt, start_code_found) \<leftarrow> search_loop pu1_buf bytes_remaining (- 1) 0;
     ofst \<leftarrow> (if \<not> start_code_found \<and> ofst < bytes_remaining then do {
         b \<leftarrow> rdi pu1_buf ofst;
         Some (if START_CODE_PREFIX_BYTE = b \<and> zero_byte_cnt \<ge> NUM_ZEROS_BEFORE_START_CODE
               then ofst + 1 else ofst)
       } else Some ofst);
     Some (ofst + 1)
   }"

text \<open>The removal writes to \<^verbatim>\<open>pu1_dst\<close>, a buffer of its own; its loop carries the two
  counters, the zero count and the destination.\<close>

function remv_loop ::
  "u8 list \<Rightarrow> int \<Rightarrow> u8 list \<Rightarrow> nat \<Rightarrow> nat \<Rightarrow> nat \<Rightarrow> (u8 list \<times> nat \<times> nat \<times> nat \<times> bool) option" where
  "remv_loop pu1_src bytes_remaining pu1_dst src_cnt dst_cnt zero_byte_cnt =
     (if int src_cnt < bytes_remaining - 1 then do {
        u1_src \<leftarrow> rd pu1_src src_cnt;
        let src_cnt = src_cnt + 1;
        pu1_dst \<leftarrow> wr pu1_dst dst_cnt u1_src;
        let dst_cnt = dst_cnt + 1;
        if u1_src \<noteq> 0 then remv_loop pu1_src bytes_remaining pu1_dst src_cnt dst_cnt 0
        else do {
          let zero_byte_cnt = zero_byte_cnt + 1;
          if zero_byte_cnt \<ge> NUM_ZEROS_BEFORE_START_CODE then do {
            u1_src \<leftarrow> rd pu1_src src_cnt;
            if START_CODE_PREFIX_BYTE = u1_src then do {
              require (zero_byte_cnt \<le> src_cnt \<and> zero_byte_cnt \<le> dst_cnt);
              Some (pu1_dst, src_cnt - zero_byte_cnt, dst_cnt - zero_byte_cnt, zero_byte_cnt, True)
            }
            else if EMULATION_PREVENT_BYTE = u1_src then
              remv_loop pu1_src bytes_remaining pu1_dst (src_cnt + 1) dst_cnt 0
            else remv_loop pu1_src bytes_remaining pu1_dst src_cnt dst_cnt zero_byte_cnt
          }
          else remv_loop pu1_src bytes_remaining pu1_dst src_cnt dst_cnt zero_byte_cnt
        }
      } else Some (pu1_dst, src_cnt, dst_cnt, zero_byte_cnt, False))"
  by pat_completeness auto
termination by (relation "measure (\<lambda>(_, n, _, i, _). nat (n - int i))") auto

declare remv_loop.simps [simp del]

text \<open>The result is the destination with \<^verbatim>\<open>*pi4_nal_len\<close> and \<^verbatim>\<open>*pi4_dst_len\<close>.\<close>

definition ihevcd_nal_remv_emuln_bytes ::
  "u8 list \<Rightarrow> u8 list \<Rightarrow> int \<Rightarrow> (u8 list \<times> int \<times> int) option" where
  "ihevcd_nal_remv_emuln_bytes pu1_src pu1_dst bytes_remaining = do {
     (pu1_dst, src_cnt, dst_cnt, zero_byte_cnt, start_code_found)
       \<leftarrow> remv_loop pu1_src bytes_remaining pu1_dst 0 0 0;
     if \<not> start_code_found \<and> int src_cnt < bytes_remaining then do {
       u1_src \<leftarrow> rd pu1_src src_cnt;
       let src_cnt = int src_cnt + 1;
       if zero_byte_cnt \<ge> NUM_ZEROS_BEFORE_START_CODE then
         (if START_CODE_PREFIX_BYTE = u1_src then
            Some (pu1_dst, src_cnt - int zero_byte_cnt, int dst_cnt)
          else if EMULATION_PREVENT_BYTE = u1_src then
            Some (pu1_dst, src_cnt + 1, int dst_cnt - 1)
          else Some (pu1_dst, src_cnt, int dst_cnt))
       else do {
         pu1_dst \<leftarrow> wr pu1_dst dst_cnt u1_src;
         Some (pu1_dst, src_cnt, int dst_cnt + 1)
       }
     } else Some (pu1_dst, int src_cnt, int dst_cnt)
   }"

record nal_header =
  i1_nal_unit_type :: "8 word"
  i1_nuh_temporal_id :: "8 word"

definition ihevcd_nal_unit_header :: "bitstrm \<Rightarrow> (nal_header \<times> bitstrm) option" where
  "ihevcd_nal_unit_header ps_bitstrm = do {
     (unused, ps_bitstrm) \<leftarrow> ihevcd_bits_get ps_bitstrm 1;
     (nal_unit_type, ps_bitstrm) \<leftarrow> ihevcd_bits_get ps_bitstrm 6;
     (unused, ps_bitstrm) \<leftarrow> ihevcd_bits_get ps_bitstrm 6;
     (temporal_id, ps_bitstrm) \<leftarrow> ihevcd_bits_get ps_bitstrm 3;
     Some (\<lparr> i1_nal_unit_type = ucast nal_unit_type,
             i1_nuh_temporal_id = ucast (temporal_id - 1) \<rparr>, ps_bitstrm)
   }"
section \<open>Start codes\<close>

text \<open>The byte at \<open>k\<close> is the last of a start code \<open>00 00 01\<close>.\<close>

definition start_code_at :: "u8 list \<Rightarrow> nat \<Rightarrow> bool" where
  "start_code_at bs k \<longleftrightarrow> 2 \<le> k \<and> bs ! (k - 2) = 0 \<and> bs ! (k - 1) = 0 \<and> bs ! k = 1"

lemma search_loop_spec:
  assumes "n \<le> int (length bs)" "- 1 \<le> ofst" "ofst < n"
    and "z \<ge> 1 \<longleftrightarrow> 0 \<le> ofst \<and> bs ! nat ofst = 0"
    and "\<forall>k. int k \<le> ofst + 1 \<and> int k < n \<longrightarrow> \<not> start_code_at bs k"
  shows "\<exists>p z' f. search_loop bs n ofst z = Some (p, z', f) \<and>
    (if f then 0 \<le> p \<and> p < n \<and> start_code_at bs (nat p) \<and> (\<forall>k < nat p. \<not> start_code_at bs k)
     else p = n - 1 \<and> (z' \<ge> 1 \<longrightarrow> 0 \<le> p \<and> bs ! nat p = 0) \<and>
       (\<forall>k. int k < n \<longrightarrow> \<not> start_code_at bs k))"
  using assms
proof (induction bs n ofst z rule: search_loop.induct)
  case (1 bs n ofst z)
  note prems = 1(3-)
  show ?case
  proof (cases "ofst < n - 1")
    case False
    then show ?thesis using prems by (auto simp: search_loop.simps [of bs n ofst z])
  next
    case True
    let ?o = "ofst + 1"
    have rd: "rdi bs ?o = Some (bs ! nat ?o)" using True prems by (simp add: rdi_def)
    have idx: "nat ?o - 1 = nat ofst" if "0 \<le> ofst" using that by simp
    show ?thesis
    proof (cases "bs ! nat ?o = 0")
      case False
      have "\<not> start_code_at bs k" if "int k \<le> ?o + 1" "int k < n" for k
      proof (cases "int k = ?o + 1")
        case True
        then have "k - 1 = nat ?o" by simp
        then show ?thesis using False by (simp add: start_code_at_def)
      qed (use that prems in auto)
      then have "\<exists>p z' f. search_loop bs n ?o 0 = Some (p, z', f) \<and>
        (if f then 0 \<le> p \<and> p < n \<and> start_code_at bs (nat p) \<and> (\<forall>k < nat p. \<not> start_code_at bs k)
         else p = n - 1 \<and> (z' \<ge> 1 \<longrightarrow> 0 \<le> p \<and> bs ! nat p = 0) \<and>
           (\<forall>k. int k < n \<longrightarrow> \<not> start_code_at bs k))"
        using 1(1) [OF True refl] rd False True prems by (simp add: rdi_def)
      then show ?thesis
        using True rd False by (simp add: search_loop.simps [of bs n ofst z] Let_def)
    next
      case zero: True
      have sc: "start_code_at bs (nat (?o + 1)) \<longleftrightarrow> bs ! nat (?o + 1) = 1 \<and> z + 1 \<ge> 2"
        using prems zero by (auto simp: start_code_at_def nat_add_distrib numeral_2_eq_2)
      let ?f = "?o < n - 1 \<and> start_code_at bs (nat (?o + 1))"
      have found: "(if ?o < n - 1 then do {
              next_b \<leftarrow> rdi bs (?o + 1);
              Some (next_b = START_CODE_PREFIX_BYTE \<and>
                    z + 1 \<ge> NUM_ZEROS_BEFORE_START_CODE)
            } else Some False) = Some ?f"
        using prems True sc by (auto simp: rdi_def)
      have unfolded: "search_loop bs n ofst z =
          (if ?f then Some (?o + 1, z + 1, True) else search_loop bs n ?o (z + 1))"
        by (subst search_loop.simps)
          (simp only: Let_def True if_True rd zero found bind.bind_lunit simp_thms if_False)
      show ?thesis
      proof (cases ?f)
        case True
        have "\<not> start_code_at bs k" if "k < nat (?o + 1)" for k
        proof -
          have "int k \<le> ofst + 1" "int k < n" using that True by linarith+
          then show ?thesis using prems(5) by blast
        qed
        then show ?thesis
          unfolding unfolded if_P [OF True] using True prems by auto
      next
        case False
        have "\<not> start_code_at bs k" if "int k \<le> ?o + 1" "int k < n" for k
        proof (cases "int k = ?o + 1")
          case True
          then have "k = nat (?o + 1)" "?o < n - 1" using that by auto
          then show ?thesis using False by blast
        qed (use that prems in auto)
        then have "\<exists>p z' f. search_loop bs n ?o (z + 1) = Some (p, z', f) \<and>
          (if f then 0 \<le> p \<and> p < n \<and> start_code_at bs (nat p) \<and> (\<forall>k < nat p. \<not> start_code_at bs k)
           else p = n - 1 \<and> (z' \<ge> 1 \<longrightarrow> 0 \<le> p \<and> bs ! nat p = 0) \<and>
             (\<forall>k. int k < n \<longrightarrow> \<not> start_code_at bs k))"
          using 1(2) [OF \<open>ofst < n - 1\<close> refl _ _ refl, of "bs ! nat ?o" ?f] rd zero found False
            \<open>ofst < n - 1\<close> prems by simp
        then show ?thesis using False by (simp only: unfolded if_False)
      qed
    qed
  qed
qed

lemma search_start_code_spec:
  assumes "0 < n" "n \<le> int (length bs)"
  shows "\<exists>r. ihevcd_nal_search_start_code bs n = Some r \<and> 0 < r \<and> r \<le> n \<and>
    (\<forall>k < nat (r - 1). \<not> start_code_at bs k) \<and>
    (r < n \<longrightarrow> start_code_at bs (nat (r - 1)))"
proof -
  obtain p z f where s: "search_loop bs n (- 1) 0 = Some (p, z, f)"
      "if f then 0 \<le> p \<and> p < n \<and> start_code_at bs (nat p) \<and> (\<forall>k < nat p. \<not> start_code_at bs k)
       else p = n - 1 \<and> (z \<ge> 1 \<longrightarrow> 0 \<le> p \<and> bs ! nat p = 0) \<and> (\<forall>k. int k < n \<longrightarrow> \<not> start_code_at bs k)"
    using search_loop_spec [of n bs "- 1" 0] assms by (auto simp: start_code_at_def)
  show ?thesis
  proof (cases f)
    case True
    then show ?thesis using s by (simp add: ihevcd_nal_search_start_code_def)
  next
    case False
    then have p: "p = n - 1" "z \<ge> 2 \<longrightarrow> bs ! nat (n - 1) = 0" "\<forall>k. int k < n \<longrightarrow> \<not> start_code_at bs k"
      using s(2) by auto
    then have "rdi bs p = Some (bs ! nat (n - 1))" using assms by (simp add: rdi_def)
    then show ?thesis using False s(1) p assms by (auto simp: ihevcd_nal_search_start_code_def)
  qed
qed

section \<open>Removing emulation prevention bytes\<close>

text \<open>
  After the payload bytes \<open>xs\<close>, the loop has consumed their code, and also the emulation
  prevention byte that follows it when the next payload byte needs one: the code \<open>rest\<close> that is
  left and the zero count are those of \<open>pending\<close>.
\<close>

definition pending :: "nat \<Rightarrow> u8 list \<Rightarrow> bool" where
  "pending z bs \<longleftrightarrow> z = 2 \<and> bs \<noteq> [] \<and> unat (hd bs) \<le> 3"

definition left_code :: "nat \<Rightarrow> u8 list \<Rightarrow> u8 list" where
  "left_code z bs = (if pending z bs then tl (epb z bs) else epb z bs)"

definition left_zeros :: "nat \<Rightarrow> u8 list \<Rightarrow> nat" where
  "left_zeros z bs = (if pending z bs then 0 else z)"

lemma left_code_Cons: "left_code z (b # bs) = b # epb (zrun z b) bs"
  by (simp add: left_code_def pending_def epb1_def)

lemma left_zeros_Cons: "z \<le> 2 \<Longrightarrow> (if b \<noteq> 0 then 0 else left_zeros z (b # bs) + 1) = zrun z b"
  by (auto simp: left_zeros_def pending_def zrun_def)

lemma left_zeros_2: "z \<le> 2 \<Longrightarrow> left_zeros z (b # bs) \<noteq> 2 \<longleftrightarrow> \<not> (z = 2 \<and> unat b > 3)"
  by (auto simp: left_zeros_def pending_def)

text \<open>One iteration of the loop consumes one payload byte.\<close>

lemma remv_loop_step:
  assumes z: "z \<le> 2" and at: "drop i src = b # epb (zrun z b) bs @ tail"
    and more: "int (i + 1 + length (epb (zrun z b) bs)) < n \<or> (bs \<noteq> [] \<and> int (i + 1 + length (epb (zrun z b) bs)) = n)"
    and len: "n \<le> int (length src)"
    and room: "d < length dst"
    and tail: "bs = [] \<Longrightarrow> zrun z b = 2 \<Longrightarrow> hd tail = 0 \<or> unat (hd tail) > 3"
  shows "\<exists>i'. remv_loop src n dst i d (left_zeros z (b # bs)) =
      remv_loop src n (dst[d := b]) i' (d + 1) (left_zeros (zrun z b) bs) \<and>
    drop i' src = left_code (zrun z b) bs @ tail \<and>
    i' + length (left_code (zrun z b) bs) = i + 1 + length (epb (zrun z b) bs)"
proof -
  let ?z = "zrun z b"
  have i: "i < length src" "src ! i = b" "drop (i + 1) src = epb ?z bs @ tail"
    using at by (metis drop_eq_Nil list.simps(3) not_less, metis hd_drop_conv_nth drop_eq_Nil list.sel(1) list.simps(3) not_less,
      metis drop_Suc list.sel(3) tl_drop Suc_eq_plus1 append_Cons)
  have n: "int i < n - 1"
    using more length_epb [of bs ?z] by (cases bs) auto
  have nxt: "i + 1 < length src" using n len by simp
  then have peek: "src ! (i + 1) = hd (epb ?z bs @ tail)"
    using i(3) by (metis hd_drop_conv_nth)
  note step = remv_loop.simps [of src n dst i d "left_zeros z (b # bs)"]
  have zc: "b = 0 \<Longrightarrow> left_zeros z (b # bs) + 1 = ?z" "b \<noteq> 0 \<Longrightarrow> ?z = 0"
    using left_zeros_Cons [OF z, of b bs] by (auto simp: zrun_def)
  show ?thesis
  proof (cases "b = 0 \<and> ?z = 2")
    case False
    then have "b = 0 \<Longrightarrow> \<not> 2 \<le> left_zeros z (b # bs) + 1" using zc zrun_le [OF z, of b] by auto
    then have "remv_loop src n dst i d (left_zeros z (b # bs)) = remv_loop src n (dst[d := b]) (i + 1) (d + 1) ?z"
      unfolding step using n i(1,2) room zc by (cases "b = 0") (simp_all add: Let_def)
    moreover have "\<not> pending ?z bs" using False zc by (cases "b = 0") (auto simp: pending_def)
    ultimately show ?thesis
      using i(3) by (intro exI [of _ "i + 1"]) (simp add: left_code_def left_zeros_def)
  next
    case True
    have t: "b = 0" "zrun z 0 = 2" using True by auto
    have pk: "hd (epb 2 bs @ tail) = (if bs = [] then hd tail else if pending 2 bs then 3 else hd bs)"
      by (cases bs) (simp_all add: epb1_def pending_def)
    have peek2: "src ! (i + 1) = hd (epb 2 bs @ tail)" using peek True by metis
    have no1: "src ! (i + 1) \<noteq> 1"
      using peek pk True tail by (cases "bs = []") (auto simp: pending_def split: if_splits)
    show ?thesis
    proof (cases "pending 2 bs")
      case p: True
      then have "src ! (i + 1) = 3" using pk peek2 by (simp add: pending_def)
      then have "remv_loop src n dst i d (left_zeros z (b # bs)) = remv_loop src n (dst[d := b]) (i + 2) (d + 1) 0"
        unfolding step using n i(1,2) room zc t nxt by (simp add: Let_def)
      moreover have "epb 2 bs \<noteq> []" using p by (cases bs) (simp_all add: pending_def epb1_def)
      moreover have "drop (i + 2) src = tl (epb 2 bs) @ tail"
        using i(3) True calculation(2) by (metis Suc_1 add_Suc_right drop_Suc tl_append2 tl_drop Suc_eq_plus1)
      ultimately show ?thesis
        using t p by (intro exI [of _ "i + 2"]) (simp add: left_code_def left_zeros_def)
    next
      case np: False
      have "src ! (i + 1) \<noteq> 3"
        using peek pk True tail np by (cases bs) (auto simp: pending_def)
      then have "remv_loop src n dst i d (left_zeros z (b # bs)) = remv_loop src n (dst[d := b]) (i + 1) (d + 1) 2"
        unfolding step using n i(1,2) room zc t nxt no1 by (simp add: Let_def numeral_2_eq_2)
      then show ?thesis
        using i(3) t np by (intro exI [of _ "i + 1"]) (simp add: left_code_def left_zeros_def)
    qed
  qed
qed

text \<open>The whole payload, up to its last byte or up to the end.\<close>

lemma left_code_length: "length (left_code z (b # bs)) = 1 + length (epb (zrun z b) bs)"
  by (simp add: left_code_Cons)

lemma remv_loop_payload:
  assumes "z \<le> 2" "drop i src = left_code z (xs @ ys) @ tail"
    and "int (i + length (left_code z (xs @ ys))) \<le> n" "n \<le> int (length src)"
    and "ys \<noteq> [] \<or> int (i + length (left_code z (xs @ ys))) < n"
    and "d + length xs \<le> length dst"
    and "ys = [] \<Longrightarrow> tail \<noteq> [] \<and> (hd tail = 0 \<or> unat (hd tail) > 3)"
  shows "\<exists>i' dst'. remv_loop src n dst i d (left_zeros z (xs @ ys)) =
      remv_loop src n dst' i' (d + length xs) (left_zeros (epb_run z xs) ys) \<and>
    drop i' src = left_code (epb_run z xs) ys @ tail \<and>
    i' + length (left_code (epb_run z xs) ys) = i + length (left_code z (xs @ ys)) \<and>
    take (d + length xs) dst' = take d dst @ xs \<and> length dst' = length dst"
  using assms
proof (induction xs arbitrary: z i d dst)
  case Nil
  then show ?case by (intro exI [of _ i] exI [of _ dst]) simp
next
  case (Cons b xs)
  let ?bs = "xs @ ys" and ?z = "zrun z b"
  have lc: "left_code z ((b # xs) @ ys) = b # epb ?z ?bs" by (simp add: left_code_Cons)
  have "\<exists>i'. remv_loop src n dst i d (left_zeros z (b # ?bs)) =
      remv_loop src n (dst[d := b]) i' (d + 1) (left_zeros ?z ?bs) \<and>
    drop i' src = left_code ?z ?bs @ tail \<and>
    i' + length (left_code ?z ?bs) = i + 1 + length (epb ?z ?bs)"
    by (rule remv_loop_step [OF Cons.prems(1)])
      (use Cons.prems lc in \<open>auto simp del: epb_append epb.simps\<close>)
  then obtain i1 where i1: "remv_loop src n dst i d (left_zeros z (b # ?bs)) =
      remv_loop src n (dst[d := b]) i1 (d + 1) (left_zeros ?z ?bs)"
    "drop i1 src = left_code ?z ?bs @ tail"
    "i1 + length (left_code ?z ?bs) = i + 1 + length (epb ?z ?bs)"
    by blast
  have len: "i + length (left_code z ((b # xs) @ ys)) = i + 1 + length (epb ?z ?bs)"
    unfolding lc by simp
  have "\<exists>i' dst'. remv_loop src n (dst[d := b]) i1 (d + 1) (left_zeros ?z (xs @ ys)) =
      remv_loop src n dst' i' (d + 1 + length xs) (left_zeros (epb_run ?z xs) ys) \<and>
    drop i' src = left_code (epb_run ?z xs) ys @ tail \<and>
    i' + length (left_code (epb_run ?z xs) ys) = i1 + length (left_code ?z (xs @ ys)) \<and>
    take (d + 1 + length xs) dst' = take (d + 1) (dst[d := b]) @ xs \<and> length dst' = length (dst[d := b])"
    using Cons.prems len i1 zrun_le [OF Cons.prems(1)] by (intro Cons.IH) auto
  moreover have "take (d + 1) (dst[d := b]) = take d dst @ [b]"
    using Cons.prems(6) by (simp add: take_Suc_conv_app_nth)
  ultimately show ?case using i1(1,3) len by auto
qed

text \<open>A payload followed by a start code, and a payload that ends the buffer.\<close>

lemma left_start [simp]: "left_code 0 bs = epb 0 bs" "left_zeros 0 bs = 0"
  by (simp_all add: left_code_def left_zeros_def pending_def)

lemma remv_at_start_code:
  assumes src: "src = epb 0 raw @ replicate k 0 @ 1 # rest" and k: "2 \<le> k" and last: "epb_run 0 raw = 0"
    and n: "int (length (epb 0 raw) + k) < n" "n \<le> int (length src)"
    and room: "length raw + k \<le> length dst"
  shows "\<exists>dst'. ihevcd_nal_remv_emuln_bytes src dst n =
      Some (dst', int (length (epb 0 raw)), int (length raw)) \<and>
    take (length raw) dst' = raw \<and> length dst' = length dst"
proof -
  let ?E = "length (epb 0 raw)" and ?R = "length raw"
  let ?tail = "replicate k 0 @ 1 # rest"
  have "\<exists>i' dst'. remv_loop src n dst 0 0 (left_zeros 0 (raw @ [])) =
      remv_loop src n dst' i' (0 + ?R) (left_zeros (epb_run 0 raw) []) \<and>
    drop i' src = left_code (epb_run 0 raw) [] @ ?tail \<and>
    i' + length (left_code (epb_run 0 raw) []) = 0 + length (left_code 0 (raw @ [])) \<and>
    take (0 + ?R) dst' = take 0 dst @ raw \<and> length dst' = length dst"
    using src k n room by (intro remv_loop_payload) auto
  then obtain dst1 where 1: "remv_loop src n dst 0 0 0 = remv_loop src n dst1 ?E ?R 0"
      "take ?R dst1 = raw" "length dst1 = length dst"
    using last by auto
  have at: "src ! (?E + j) = 0" if "j < k" for j
    using that src by (simp add: nth_append)
  have at1: "src ! (?E + k) = 1" using src by (simp add: nth_append)
  have "\<exists>dst'. remv_loop src n d (?E + j) (?R + j) j = Some (dst', ?E, ?R, k, True) \<and>
      take ?R dst' = take ?R d \<and> length dst' = length d"
    if "j < k" "length d = length dst" for j d
    using that
  proof (induction "k - j" arbitrary: j d)
    case (Suc m)
    have i: "int (?E + j) < n - 1" "?E + j < length src" "?R + j < length d" "Suc (?E + j) < length src"
      using Suc.prems n room by linarith+
    note step = remv_loop.simps [of src n d "?E + j" "?R + j" j]
    show ?case
    proof (cases "Suc j = k")
      case True
      then show ?thesis
        using i at [of j] at1 k by (intro exI [of _ "d[?R + j := 0]"]) (auto simp: step Let_def)
    next
      case False
      then have "src ! Suc (?E + j) = 0" using at [of "Suc j"] Suc.prems by simp
      then have e: "remv_loop src n d (?E + j) (?R + j) j =
          remv_loop src n (d[?R + j := 0]) (?E + Suc j) (?R + Suc j) (Suc j)"
        using i at [of j] Suc.prems by (simp add: step Let_def)
      have "take ?R (d[?R + j := 0]) = take ?R d" by simp
      then show ?thesis
        using e Suc.hyps(1) [of "Suc j" "d[?R + j := 0]"] Suc.hyps(2) Suc.prems False by simp
    qed
  qed simp
  from this [of 0 dst1] obtain dst' where "remv_loop src n dst1 ?E ?R 0 = Some (dst', ?E, ?R, k, True)"
      "take ?R dst' = take ?R dst1" "length dst' = length dst1"
    using k 1(3) by auto
  then show ?thesis using 1 by (simp add: ihevcd_nal_remv_emuln_bytes_def)
qed

lemma remv_at_end:
  assumes src: "src = epb 0 (raw @ [b]) @ rest" and n: "n = int (length (epb 0 (raw @ [b])))"
    and last: "\<not> (epb_run 0 raw = 2 \<and> unat b > 3)"
    and room: "length raw < length dst"
  shows "\<exists>dst'. ihevcd_nal_remv_emuln_bytes src dst n = Some (dst', n, int (length raw) + 1) \<and>
    take (length raw + 1) dst' = raw @ [b] \<and> length dst' = length dst"
proof -
  let ?R = "length raw"
  let ?z = "epb_run 0 raw"
  have z: "?z \<le> 2" by (simp add: epb_run_le)
  have "\<exists>i' dst'. remv_loop src n dst 0 0 (left_zeros 0 (raw @ [b])) =
      remv_loop src n dst' i' (0 + ?R) (left_zeros ?z [b]) \<and>
    drop i' src = left_code ?z [b] @ rest \<and>
    i' + length (left_code ?z [b]) = 0 + length (left_code 0 (raw @ [b])) \<and>
    take (0 + ?R) dst' = take 0 dst @ raw \<and> length dst' = length dst"
    using src n room by (intro remv_loop_payload) auto
  then obtain dst1 i where 1: "remv_loop src n dst 0 0 0 = remv_loop src n dst1 i ?R (left_zeros ?z [b])"
      "drop i src = b # rest" "int i + 1 = n" "take ?R dst1 = raw" "length dst1 = length dst"
    by (auto simp: left_code_Cons n)
  have i: "i < length src" "src ! i = b"
    using 1(2) by (metis drop_eq_Nil list.simps(3) not_less, metis hd_drop_conv_nth drop_eq_Nil list.sel(1) list.simps(3) not_less)
  have "left_zeros ?z [b] < 2"
    using left_zeros_2 [OF z, of b "[]"] last z by (auto simp: left_zeros_def split: if_splits)
  then have "ihevcd_nal_remv_emuln_bytes src dst n = Some (dst1[?R := b], n, int ?R + 1)"
    using 1 i room by (simp add: ihevcd_nal_remv_emuln_bytes_def remv_loop.simps [of src n dst1 i ?R])
  moreover have "take (?R + 1) (dst1[?R := b]) = raw @ [b]"
    using 1 room by (simp add: take_Suc_conv_app_nth)
  ultimately show ?thesis using 1(5) by simp
qed

text \<open>On any input the removal stays inside both buffers and shrinks.\<close>

definition scanned :: "u8 list \<Rightarrow> int \<Rightarrow> nat \<Rightarrow> nat \<Rightarrow> bool" where
  "scanned src n i z \<longleftrightarrow> (2 \<le> z \<and> int i < n \<longrightarrow> src ! i \<noteq> 1 \<and> src ! i \<noteq> 3)"

lemma remv_loop_safe:
  assumes "n \<le> int (length src)" "n \<le> int (length dst)" "int i \<le> n" "d \<le> i" "z \<le> d"
    and "scanned src n i z"
  shows "\<exists>dst' i' d' z' f. remv_loop src n dst i d z = Some (dst', i', d', z', f) \<and>
    length dst' = length dst \<and> int i' \<le> n \<and> d' \<le> i' \<and> (\<not> f \<longrightarrow> scanned src n i' z')"
  using assms
proof (induction src n dst i d z rule: remv_loop.induct)
  case (1 src n dst i d z)
  note IH = 1(1-4) and prems = 1(5-)
  note step = remv_loop.simps [of src n dst i d z]
  show ?case
  proof (cases "int i < n - 1")
    case False
    then show ?thesis using prems by (auto simp: step)
  next
    case True
    let ?dst = "dst[d := src ! i]"
    have b: "rd src i = Some (src ! i)" "wr dst d (src ! i) = Some ?dst"
        "rd src (i + 1) = Some (src ! (i + 1))"
      using True prems by simp_all
    have sc0: "scanned src n j 0" for j by (simp add: scanned_def)
    consider (nz) "src ! i \<noteq> 0" | (one) "src ! i = 0" "\<not> 2 \<le> z + 1"
      | (start) "src ! i = 0" "2 \<le> z + 1" "src ! (i + 1) = 1"
      | (epb) "src ! i = 0" "2 \<le> z + 1" "src ! (i + 1) = 3"
      | (other) "src ! i = 0" "2 \<le> z + 1" "src ! (i + 1) \<noteq> 1" "src ! (i + 1) \<noteq> 3"
      by blast
    then show ?thesis
    proof cases
      case nz
      then have "remv_loop src n dst i d z = remv_loop src n ?dst (i + 1) (d + 1) 0"
        using True b by (simp add: step)
      then show ?thesis using IH(1) [OF True b(1) refl b(2) refl nz] True prems sc0 by simp
    next
      case one
      then have "remv_loop src n dst i d z = remv_loop src n ?dst (i + 1) (d + 1) (z + 1)"
        using True b by (simp add: step Let_def)
      moreover have "scanned src n (i + 1) (z + 1)" using one(2) by (simp add: scanned_def)
      ultimately show ?thesis
        using IH(4) [OF True b(1) refl b(2) refl _ refl one(2)] one(1) True prems by simp
    next
      case start
      then have "remv_loop src n dst i d z =
          Some (?dst, i + 1 - (z + 1), d + 1 - (z + 1), z + 1, True)"
        using True b prems by (simp add: step Let_def)
      moreover have "i + 1 - (z + 1) = i - z" "d + 1 - (z + 1) = d - z" by simp_all
      ultimately show ?thesis using True prems
        by (intro exI [of _ ?dst] exI [of _ "i - z"] exI [of _ "d - z"] exI [of _ "z + 1"] exI [of _ True]) simp
    next
      case epb
      then have "remv_loop src n dst i d z = remv_loop src n ?dst (i + 1 + 1) (d + 1) 0"
        using True b by (simp add: step Let_def)
      then show ?thesis
        using IH(2) [OF True b(1) refl b(2) refl _ refl epb(2) b(3)] epb True prems sc0 by simp
    next
      case other
      then have "remv_loop src n dst i d z = remv_loop src n ?dst (i + 1) (d + 1) (z + 1)"
        using True b by (simp add: step Let_def)
      moreover have "scanned src n (i + 1) (z + 1)" using other by (simp add: scanned_def)
      ultimately show ?thesis
        using IH(3) [OF True b(1) refl b(2) refl _ refl other(2) b(3)] other True prems by simp
    qed
  qed
qed

lemma remv_safe:
  assumes "n \<le> int (length src)" "n \<le> int (length dst)" "0 \<le> n"
  shows "\<exists>dst' nal_len dst_len. ihevcd_nal_remv_emuln_bytes src dst n = Some (dst', nal_len, dst_len) \<and>
    length dst' = length dst \<and> 0 \<le> dst_len \<and> dst_len \<le> nal_len \<and> nal_len \<le> n"
proof -
  obtain dst' i d z f where 1: "remv_loop src n dst 0 0 0 = Some (dst', i, d, z, f)"
      "length dst' = length dst" "int i \<le> n" "d \<le> i" "\<not> f \<longrightarrow> scanned src n i z"
    using remv_loop_safe [of n src dst 0 0 0] assms scanned_def [of src n 0 0] by auto
  show ?thesis
  proof (cases "\<not> f \<and> int i < n")
    case True
    then have "i < length src" "i < length dst" "2 \<le> z \<longrightarrow> src ! i \<noteq> 1 \<and> src ! i \<noteq> 3"
      using 1 assms by (auto simp: scanned_def)
    then show ?thesis using True 1 by (auto simp: ihevcd_nal_remv_emuln_bytes_def Let_def)
  qed (use 1 in \<open>auto simp: ihevcd_nal_remv_emuln_bytes_def\<close>)
qed

section \<open>The NAL unit header\<close>

lemma unsigned_diff_u8: "(ucast (a - b :: u32) :: u8) = ucast a - ucast b"
proof -
  have "take_bit 8 (x - y) = take_bit 8 (take_bit 32 x - take_bit 32 y)" for x y :: int
    by (subst (1 2) take_bit_diff [symmetric]) (simp add: take_bit_take_bit)
  then show ?thesis by transfer simp
qed

lemma nal_unit_header_spec:
  assumes "rd_inv s" "rd_room s 16"
  shows "\<exists>t. ihevcd_nal_unit_header s =
      Some (\<lparr> i1_nal_unit_type = word_of_nat (bits_at (rd_bits s) (rd_pos s + 1) 6),
              i1_nuh_temporal_id = word_of_nat (bits_at (rd_bits s) (rd_pos s + 13) 3) - 1 \<rparr>, t) \<and>
    rd_at s (rd_pos s + 16) t"
proof -
  note [simp] = ihevcd_bits_get_def
  let ?f = "rd_bits s" and ?p = "rd_pos s"
  obtain v1 t1 where 1: "BITS_GET 1 s = Some (v1, t1)" "rd_at s (?p + 1) t1"
    using BITS_GET_spec [of s 1] assms rd_room_mono [of s 16 1] by auto
  obtain v2 t2 where 2: "BITS_GET 6 t1 = Some (v2, t2)" "rd_at s (?p + 7) t2" "unat v2 = bits_at ?f (?p + 1) 6"
    using BITS_GET_spec [of t1 6] rd_atD [OF 1(2)] assms(2) by (auto simp: rd_room_def rd_at_def)
  obtain v3 t3 where 3: "BITS_GET 6 t2 = Some (v3, t3)" "rd_at s (?p + 13) t3"
    using BITS_GET_spec [of t2 6] rd_atD [OF 2(2)] assms(2) by (auto simp: rd_room_def rd_at_def)
  obtain v4 t4 where 4: "BITS_GET 3 t3 = Some (v4, t4)" "rd_at s (?p + 16) t4" "unat v4 = bits_at ?f (?p + 13) 3"
    using BITS_GET_spec [of t3 3] rd_atD [OF 3(2)] assms(2) by (auto simp: rd_room_def rd_at_def)
  have "ucast v2 = (word_of_nat (bits_at ?f (?p + 1) 6) :: u8)" using 2(3) by (metis of_nat_unat)
  moreover have "ucast (v4 - 1) = (word_of_nat (bits_at ?f (?p + 13) 3) - 1 :: u8)"
  proof -
    have "ucast (v4 - 1) = (ucast v4 - 1 :: u8)"
      by (simp only: unsigned_diff_u8) simp
    then show ?thesis using 4(3) by (metis of_nat_unat)
  qed
  ultimately show ?thesis using 1 2 3 4 by (simp add: ihevcd_nal_unit_header_def)
qed

section \<open>Dispatch\<close>

text \<open>
  The members of \<^verbatim>\<open>codec_t\<close> the dispatch uses, and the parsers it calls, which stay
  parameters here: each takes and returns the whole codec state, and \<open>None\<close> is undefined
  behaviour in it. A parser's error codes other than the two this function produces itself are
  \<open>IHEVCD_PARSER_ERROR\<close>.
\<close>

datatype ihevcd_error = IHEVCD_SUCCESS | IHEVCD_SLICE_IN_HEADER_MODE | IHEVCD_INVALID_HEADER
  | IHEVCD_PARSER_ERROR nat

record codec =
  s_bitstrm :: bitstrm
  slice_hdr_nal_unit_type :: "8 word"
  i4_slice_error :: int
  i4_rasl_output_flag :: int
  i4_cra_as_first_pic :: int
  i4_header_mode :: int
  i4_header_in_slice_mode :: int
  i4_sps_done :: int
  i4_pps_done :: int
  i4_pic_present :: int
  i4_error_code :: ihevcd_error

record 'c nal_parsers =
  parse_slice_header :: "nal_header \<Rightarrow> 'c \<Rightarrow> (ihevcd_error \<times> 'c) option"
  parse_slice_data :: "'c \<Rightarrow> (ihevcd_error \<times> 'c) option"
  parse_sps :: "'c \<Rightarrow> (ihevcd_error \<times> 'c) option"
  copy_sps :: "'c \<Rightarrow> 'c option"
  parse_pps :: "'c \<Rightarrow> (ihevcd_error \<times> 'c) option"
  copy_pps :: "'c \<Rightarrow> 'c option"
  parse_sei :: "nal_header \<Rightarrow> 'c \<Rightarrow> (ihevcd_error \<times> 'c) option"

abbreviation (input) NAL_RASL_N :: u8 where "NAL_RASL_N \<equiv> 8"
abbreviation (input) NAL_RASL_R :: u8 where "NAL_RASL_R \<equiv> 9"
abbreviation (input) NAL_BLA_W_LP :: u8 where "NAL_BLA_W_LP \<equiv> 16"
abbreviation (input) NAL_BLA_N_LP :: u8 where "NAL_BLA_N_LP \<equiv> 18"
abbreviation (input) NAL_IDR_W_LP :: u8 where "NAL_IDR_W_LP \<equiv> 19"
abbreviation (input) NAL_IDR_N_LP :: u8 where "NAL_IDR_N_LP \<equiv> 20"
abbreviation (input) NAL_CRA :: u8 where "NAL_CRA \<equiv> 21"
abbreviation (input) NAL_VPS :: u8 where "NAL_VPS \<equiv> 32"
abbreviation (input) NAL_SPS :: u8 where "NAL_SPS \<equiv> 33"
abbreviation (input) NAL_PPS :: u8 where "NAL_PPS \<equiv> 34"
abbreviation (input) NAL_EOS :: u8 where "NAL_EOS \<equiv> 36"
abbreviation (input) NAL_PREFIX_SEI :: u8 where "NAL_PREFIX_SEI \<equiv> 39"
abbreviation (input) NAL_SUFFIX_SEI :: u8 where "NAL_SUFFIX_SEI \<equiv> 40"
abbreviation (input) IVD_DECODE_HEADER :: int where "IVD_DECODE_HEADER \<equiv> 1"

text \<open>The first \<^verbatim>\<open>switch\<close>: the flag that says whether leading pictures that depend on
  pictures before the random access point are decoded.\<close>

definition set_rasl_output_flag :: "u8 \<Rightarrow> 'a codec_scheme \<Rightarrow> 'a codec_scheme" where
  "set_rasl_output_flag ty c =
     (if NAL_BLA_W_LP \<le> ty \<and> ty \<le> NAL_BLA_N_LP then c \<lparr> i4_rasl_output_flag := 0 \<rparr>
      else if ty = NAL_IDR_W_LP \<or> ty = NAL_IDR_N_LP then c \<lparr> i4_rasl_output_flag := 1 \<rparr>
      else if ty = NAL_CRA then
        c \<lparr> i4_rasl_output_flag := (if 0 \<noteq> i4_cra_as_first_pic c then 0 else 1) \<rparr>
      else c)"

text \<open>The slice types of the second \<^verbatim>\<open>switch\<close>: \<^verbatim>\<open>NAL_TRAIL_N\<close> to \<^verbatim>\<open>NAL_RASL_R\<close> and
  \<^verbatim>\<open>NAL_BLA_W_LP\<close> to \<^verbatim>\<open>NAL_CRA\<close>.\<close>

definition is_slice_nal :: "u8 \<Rightarrow> bool" where
  "is_slice_nal ty \<longleftrightarrow> ty \<le> NAL_RASL_R \<or> NAL_BLA_W_LP \<le> ty \<and> ty \<le> NAL_CRA"

definition ihevcd_nal_unit ::
  "'a codec_scheme nal_parsers \<Rightarrow> 'a codec_scheme \<Rightarrow> (ihevcd_error \<times> 'a codec_scheme) option" where
  "ihevcd_nal_unit ps c = do {
     (s_nal, bs) \<leftarrow> ihevcd_nal_unit_header (s_bitstrm c);
     let c = c \<lparr> s_bitstrm := bs \<rparr>;
     let s_nal = (if i4_slice_error c \<noteq> 0
                  then s_nal \<lparr> i1_nal_unit_type := slice_hdr_nal_unit_type c \<rparr> else s_nal);
     let ty = i1_nal_unit_type s_nal;
     let c = set_rasl_output_flag ty c;
     if is_slice_nal ty then
       (if i4_header_mode c \<noteq> 0 then Some (IHEVCD_SLICE_IN_HEADER_MODE, c)
        else if 0 = i4_sps_done c \<or> 0 = i4_pps_done c then Some (IHEVCD_INVALID_HEADER, c)
        else do {
          let c = c \<lparr> i4_header_in_slice_mode := 0, i4_cra_as_first_pic := 0 \<rparr>;
          (ret, c) \<leftarrow> parse_slice_header ps s_nal c;
          if ret = IHEVCD_SUCCESS \<and>
             ((ty \<noteq> NAL_RASL_N \<and> ty \<noteq> NAL_RASL_R) \<or> i4_rasl_output_flag c \<noteq> 0 \<or>
              i4_slice_error c \<noteq> 0)
          then parse_slice_data ps c
          else Some (ret, c)
        })
     else if ty = NAL_SPS then do {
       let c = (if 0 = i4_header_mode c then c \<lparr> i4_header_in_slice_mode := 1 \<rparr> else c);
       if 0 = i4_header_mode c \<and> i4_sps_done c \<noteq> 0 \<and> i4_pic_present c \<noteq> 0
       then Some (IHEVCD_SUCCESS, c)
       else do {
         (ret, c) \<leftarrow> parse_sps ps c;
         c \<leftarrow> (if ret = IHEVCD_SUCCESS then copy_sps ps c else Some c);
         Some (ret, c \<lparr> i4_error_code := ret \<rparr>)
       }
     }
     else if ty = NAL_PPS then do {
       let c = (if 0 = i4_header_mode c then c \<lparr> i4_header_in_slice_mode := 1 \<rparr> else c);
       if 0 = i4_header_mode c \<and> i4_pps_done c \<noteq> 0 \<and> i4_pic_present c \<noteq> 0
       then Some (IHEVCD_SUCCESS, c)
       else do {
         (ret, c) \<leftarrow> parse_pps ps c;
         c \<leftarrow> (if ret = IHEVCD_SUCCESS then copy_pps ps c else Some c);
         Some (ret, c \<lparr> i4_error_code := ret \<rparr>)
       }
     }
     else if ty = NAL_PREFIX_SEI \<or> ty = NAL_SUFFIX_SEI then
       (if IVD_DECODE_HEADER = i4_header_mode c then Some (IHEVCD_SLICE_IN_HEADER_MODE, c)
        else parse_sei ps s_nal c)
     else if ty = NAL_EOS then Some (IHEVCD_SUCCESS, c \<lparr> i4_cra_as_first_pic := 1 \<rparr>)
     else Some (IHEVCD_SUCCESS, c)
   }"

text \<open>
  The parsers leave the two flags of the random access state alone: no function of the decoder
  but the dispatch and the reset and flush calls of the interface writes them.
\<close>

definition parsers_keep_ra :: "'a codec_scheme nal_parsers \<Rightarrow> bool" where
  "parsers_keep_ra ps \<longleftrightarrow>
     (\<forall>h c r c'. parse_slice_header ps h c = Some (r, c') \<longrightarrow>
        i4_rasl_output_flag c' = i4_rasl_output_flag c \<and> i4_cra_as_first_pic c' = i4_cra_as_first_pic c) \<and>
     (\<forall>c r c'. parse_slice_data ps c = Some (r, c') \<longrightarrow>
        i4_rasl_output_flag c' = i4_rasl_output_flag c \<and> i4_cra_as_first_pic c' = i4_cra_as_first_pic c)"

lemma set_rasl_output_flag_keeps [simp]:
  "i4_slice_error (set_rasl_output_flag ty c) = i4_slice_error c"
  "i4_header_mode (set_rasl_output_flag ty c) = i4_header_mode c"
  "i4_sps_done (set_rasl_output_flag ty c) = i4_sps_done c"
  "i4_pps_done (set_rasl_output_flag ty c) = i4_pps_done c"
  "i4_cra_as_first_pic (set_rasl_output_flag ty c) = i4_cra_as_first_pic c"
  "s_bitstrm (set_rasl_output_flag ty c) = s_bitstrm c"
  by (simp_all add: set_rasl_output_flag_def)

text \<open>A slice that reaches its parser: the state it starts from, and what is called.\<close>

definition slice_entry :: "u8 \<Rightarrow> bitstrm \<Rightarrow> 'a codec_scheme \<Rightarrow> 'a codec_scheme" where
  "slice_entry ty bs c = (set_rasl_output_flag ty (c \<lparr> s_bitstrm := bs \<rparr>))
     \<lparr> i4_header_in_slice_mode := 0, i4_cra_as_first_pic := 0 \<rparr>"

lemma nal_unit_slice:
  assumes "ihevcd_nal_unit_header (s_bitstrm c) = Some (h, bs)" "i4_slice_error c = 0"
    and "is_slice_nal (i1_nal_unit_type h)" "i4_header_mode c = 0" "i4_sps_done c \<noteq> 0" "i4_pps_done c \<noteq> 0"
  shows "ihevcd_nal_unit ps c = do {
     (ret, c) \<leftarrow> parse_slice_header ps h (slice_entry (i1_nal_unit_type h) bs c);
     if ret = IHEVCD_SUCCESS \<and>
        ((i1_nal_unit_type h \<noteq> NAL_RASL_N \<and> i1_nal_unit_type h \<noteq> NAL_RASL_R) \<or>
         i4_rasl_output_flag c \<noteq> 0 \<or> i4_slice_error c \<noteq> 0)
     then parse_slice_data ps c else Some (ret, c) }"
  using assms by (simp add: ihevcd_nal_unit_def slice_entry_def Let_def cong: if_cong)

lemma nal_unit_slice_ra:
  assumes "ihevcd_nal_unit_header (s_bitstrm c) = Some (h, bs)" "i4_slice_error c = 0"
    and "is_slice_nal (i1_nal_unit_type h)" "i4_header_mode c = 0" "i4_sps_done c \<noteq> 0" "i4_pps_done c \<noteq> 0"
    and keep: "parsers_keep_ra ps" and run: "ihevcd_nal_unit ps c = Some (r, c')"
  shows "i4_cra_as_first_pic c' = 0 \<and>
    i4_rasl_output_flag c' = i4_rasl_output_flag (set_rasl_output_flag (i1_nal_unit_type h) c)"
proof -
  let ?e = "slice_entry (i1_nal_unit_type h) bs c"
  have e: "i4_cra_as_first_pic ?e = 0"
      "i4_rasl_output_flag ?e = i4_rasl_output_flag (set_rasl_output_flag (i1_nal_unit_type h) c)"
    by (simp_all add: slice_entry_def set_rasl_output_flag_def)
  show ?thesis
    using run keep e unfolding nal_unit_slice [OF assms(1-6)] parsers_keep_ra_def
    by (auto simp: bind_Some_iff split: if_splits)
qed

section \<open>Properties\<close>

text \<open>
  C18: The start-code search returns the position just past the first start code, or the end
  of the data when there is none: for any data of positive length it stays inside the buffer,
  no \<^verbatim>\<open>00 00 01\<close> ends before the position it returns, and one ends there unless it is the end.
\<close>

theorem nal_search_start_code_first:
  assumes "0 < n" "n \<le> int (length bs)"
  shows "\<exists>r. ihevcd_nal_search_start_code bs n = Some r \<and> 0 < r \<and> r \<le> n \<and>
    (\<forall>k < nat (r - 1). \<not> start_code_at bs k) \<and> (r < n \<longrightarrow> start_code_at bs (nat (r - 1)))"
  by (rule search_start_code_spec [OF assms])

lemma nal_search_start_code_first_witness:
  "\<exists>r. ihevcd_nal_search_start_code [7, 0, 0, 1, 64, 1] 6 = Some r \<and> 0 < r \<and> r \<le> 6 \<and>
    (\<forall>k < nat (r - 1). \<not> start_code_at [7, 0, 0, 1, 64, 1] k) \<and>
    (r < 6 \<longrightarrow> start_code_at [7, 0, 0, 1, 64, 1] (nat (r - 1)))"
  by (rule nal_search_start_code_first) simp_all

text \<open>
  C19: The decoder's removal of emulation prevention inverts its insertion: in front of the
  next start code, with at least two zero bytes, it gives back exactly the payload bytes, and
  the reported NAL length is that of the coded bytes.
\<close>

theorem nal_remv_emuln_inverts:
  assumes "src = epb 0 raw @ replicate k 0 @ 1 # rest" "2 \<le> k" "epb_run 0 raw = 0"
    and "int (length (epb 0 raw) + k) < n" "n \<le> int (length src)" "length raw + k \<le> length dst"
  shows "\<exists>dst'. ihevcd_nal_remv_emuln_bytes src dst n =
      Some (dst', int (length (epb 0 raw)), int (length raw)) \<and>
    take (length raw) dst' = raw \<and> length dst' = length dst"
  by (rule remv_at_start_code [OF assms])

lemma nal_remv_emuln_inverts_witness:
  "\<exists>dst'. ihevcd_nal_remv_emuln_bytes [5, 0, 0, 3, 1, 9, 0, 0, 0, 1, 64] (replicate 9 0) 11 =
      Some (dst', int (length (epb 0 [5, 0, 0, 1, 9])), int (length [5, 0, 0, 1, 9 :: u8])) \<and>
    take (length [5, 0, 0, 1, 9 :: u8]) dst' = [5, 0, 0, 1, 9] \<and> length dst' = length (replicate 9 (0 :: u8))"
proof (rule nal_remv_emuln_inverts [where k = 3 and rest = "[64]"])
  show "[5, 0, 0, 3, 1, 9, 0, 0, 0, 1, 64] = epb 0 [5, 0, 0, 1, 9] @ replicate 3 0 @ 1 # [64]"
    by (simp add: epb1_def zrun_def numeral_3_eq_3)
qed (simp_all add: epb1_def zrun_def)

text \<open>
  C20: The removal is safe on any input: it never reads past the source, never writes past a
  destination as long as the source, and the lengths it reports are ordered.
\<close>

theorem nal_remv_emuln_safe:
  assumes "n \<le> int (length src)" "n \<le> int (length dst)" "0 \<le> n"
  shows "\<exists>dst' nal_len dst_len. ihevcd_nal_remv_emuln_bytes src dst n = Some (dst', nal_len, dst_len) \<and>
    length dst' = length dst \<and> 0 \<le> dst_len \<and> dst_len \<le> nal_len \<and> nal_len \<le> n"
  by (rule remv_safe [OF assms])

lemma nal_remv_emuln_safe_witness:
  "\<exists>dst' nal_len dst_len. ihevcd_nal_remv_emuln_bytes [0, 0, 3] [9, 9, 9] 3 = Some (dst', nal_len, dst_len) \<and>
    length dst' = length [9, 9, 9 :: u8] \<and> 0 \<le> dst_len \<and> dst_len \<le> nal_len \<and> nal_len \<le> 3"
  by (rule nal_remv_emuln_safe) simp_all

text \<open>
  C21: A slice NAL unit that comes before the parameter sets is refused with the invalid
  header code, and no parser runs: the outcome is the same whatever the parsers are.
\<close>

theorem nal_slice_needs_headers:
  assumes "ihevcd_nal_unit_header (s_bitstrm c) = Some (h, bs)" "i4_slice_error c = 0"
    and "is_slice_nal (i1_nal_unit_type h)" "i4_header_mode c = 0"
    and "i4_sps_done c = 0 \<or> i4_pps_done c = 0"
  shows "\<exists>c'. \<forall>ps. ihevcd_nal_unit ps c = Some (IHEVCD_INVALID_HEADER, c')"
  using assms by (auto simp: ihevcd_nal_unit_def Let_def cong: if_cong)

text \<open>
  A RASL slice is skipped while its associated random access point is the first picture:
  its header is parsed, its data never is, and the result is the header parser's.
\<close>

theorem nal_rasl_slice_skipped:
  assumes "ihevcd_nal_unit_header (s_bitstrm c) = Some (h, bs)" "i4_slice_error c = 0"
    and "i1_nal_unit_type h = NAL_RASL_N \<or> i1_nal_unit_type h = NAL_RASL_R"
    and "i4_header_mode c = 0" "i4_sps_done c \<noteq> 0" "i4_pps_done c \<noteq> 0" "i4_rasl_output_flag c = 0"
    and "parsers_keep_ra ps"
    and "parse_slice_header ps h (slice_entry (i1_nal_unit_type h) bs c) = Some (ret, c1)" "i4_slice_error c1 = 0"
  shows "ihevcd_nal_unit ps c = Some (ret, c1)"
proof -
  have sl: "is_slice_nal (i1_nal_unit_type h)" using assms(3) by (auto simp: is_slice_nal_def)
  have "i4_rasl_output_flag (slice_entry (i1_nal_unit_type h) bs c) = 0"
    using assms(3,7) by (auto simp: slice_entry_def set_rasl_output_flag_def)
  then have "i4_rasl_output_flag c1 = 0" using assms(8,9) unfolding parsers_keep_ra_def by metis
  then show ?thesis
    using assms(3,9,10) unfolding nal_unit_slice [OF assms(1,2) sl assms(4-6)] by auto
qed

text \<open>A header of two bytes in front of a reader, and parsers that do nothing.\<close>

definition nal_reader :: "u8 \<Rightarrow> bitstrm" where
  "nal_reader ty = the (ihevcd_bits_init ([push_bit 1 ty, 1] @ replicate 14 0) 16)"

definition idle_parsers :: "'c nal_parsers" where
  "idle_parsers = \<lparr> parse_slice_header = (\<lambda>h c. Some (IHEVCD_SUCCESS, c)),
     parse_slice_data = (\<lambda>c. Some (IHEVCD_SUCCESS, c)), parse_sps = (\<lambda>c. Some (IHEVCD_SUCCESS, c)),
     copy_sps = Some, parse_pps = (\<lambda>c. Some (IHEVCD_SUCCESS, c)), copy_pps = Some,
     parse_sei = (\<lambda>h c. Some (IHEVCD_SUCCESS, c)) \<rparr>"

definition idle_codec :: "u8 \<Rightarrow> codec" where
  "idle_codec ty = \<lparr> s_bitstrm = nal_reader ty, slice_hdr_nal_unit_type = 0, i4_slice_error = 0,
     i4_rasl_output_flag = 0, i4_cra_as_first_pic = 1, i4_header_mode = 0, i4_header_in_slice_mode = 0,
     i4_sps_done = 1, i4_pps_done = 1, i4_pic_present = 0, i4_error_code = IHEVCD_SUCCESS \<rparr>"

lemma idle_headers:
  "map_option fst (ihevcd_nal_unit_header (nal_reader 21)) = Some \<lparr> i1_nal_unit_type = 21, i1_nuh_temporal_id = 0 \<rparr>"
  "map_option fst (ihevcd_nal_unit_header (nal_reader 8)) = Some \<lparr> i1_nal_unit_type = 8, i1_nuh_temporal_id = 0 \<rparr>"
  by code_simp+

lemma idle_parsers_keep: "parsers_keep_ra idle_parsers"
  by (simp add: parsers_keep_ra_def idle_parsers_def)

lemma nal_slice_needs_headers_witness:
  "\<exists>c'. \<forall>ps. ihevcd_nal_unit ps (idle_codec 21 \<lparr> i4_pps_done := 0 \<rparr>) = Some (IHEVCD_INVALID_HEADER, c')"
proof -
  obtain bs where "ihevcd_nal_unit_header (nal_reader 21) = Some (\<lparr> i1_nal_unit_type = 21, i1_nuh_temporal_id = 0 \<rparr>, bs)"
    using idle_headers(1) by (auto simp: map_option_eq_Some)
  then show ?thesis
    using nal_slice_needs_headers [of "idle_codec 21 \<lparr> i4_pps_done := 0 \<rparr>"]
    by (simp add: idle_codec_def is_slice_nal_def)
qed

lemma nal_rasl_slice_skipped_witness:
  "\<exists>bs. ihevcd_nal_unit idle_parsers (idle_codec 8) = Some (IHEVCD_SUCCESS, slice_entry 8 bs (idle_codec 8))"
proof -
  obtain bs where "ihevcd_nal_unit_header (nal_reader 8) = Some (\<lparr> i1_nal_unit_type = 8, i1_nuh_temporal_id = 0 \<rparr>, bs)"
    using idle_headers(2) by (auto simp: map_option_eq_Some)
  then have h: "ihevcd_nal_unit_header (s_bitstrm (idle_codec 8)) = Some (\<lparr> i1_nal_unit_type = 8, i1_nuh_temporal_id = 0 \<rparr>, bs)"
    by (simp add: idle_codec_def)
  have p: "parse_slice_header idle_parsers \<lparr> i1_nal_unit_type = 8, i1_nuh_temporal_id = 0 \<rparr>
      (slice_entry (i1_nal_unit_type \<lparr> i1_nal_unit_type = 8, i1_nuh_temporal_id = 0 \<rparr>) bs (idle_codec 8)) =
      Some (IHEVCD_SUCCESS, slice_entry 8 bs (idle_codec 8))" by (simp add: idle_parsers_def)
  have "i4_slice_error (slice_entry 8 bs (idle_codec 8)) = 0"
    by (simp add: slice_entry_def idle_codec_def)
  from nal_rasl_slice_skipped [OF h _ _ _ _ _ _ idle_parsers_keep p this]
  have "ihevcd_nal_unit idle_parsers (idle_codec 8) = Some (IHEVCD_SUCCESS, slice_entry 8 bs (idle_codec 8))"
    by (simp add: idle_codec_def)
  then show ?thesis by blast
qed

text \<open>
  C22: The first slice of a CRA picture that starts the stream turns the output of its RASL
  pictures off, and the second slice of the same picture turns it on again: the flag that says
  the picture is the first is cleared with the first slice, not with the picture.
\<close>

theorem nal_cra_second_slice:
  assumes "ihevcd_nal_unit_header (s_bitstrm c) = Some (h, bs)" "i1_nal_unit_type h = NAL_CRA"
    and "i4_slice_error c = 0" "i4_header_mode c = 0" "i4_sps_done c \<noteq> 0" "i4_pps_done c \<noteq> 0"
    and "parsers_keep_ra ps" "i4_cra_as_first_pic c \<noteq> 0"
    and "ihevcd_nal_unit ps c = Some (r, c1)"
    and "ihevcd_nal_unit_header b = Some (h', bs')" "i1_nal_unit_type h' = NAL_CRA"
    and "i4_slice_error c1 = 0" "i4_header_mode c1 = 0" "i4_sps_done c1 \<noteq> 0" "i4_pps_done c1 \<noteq> 0"
    and "ihevcd_nal_unit ps (c1 \<lparr> s_bitstrm := b \<rparr>) = Some (r', c2)"
  shows "i4_rasl_output_flag c1 = 0 \<and> i4_rasl_output_flag c2 = 1"
proof -
  have sl: "is_slice_nal (i1_nal_unit_type h)" "is_slice_nal (i1_nal_unit_type h')"
    using assms(2,11) by (simp_all add: is_slice_nal_def)
  have 1: "i4_cra_as_first_pic c1 = 0" "i4_rasl_output_flag c1 = 0"
    using nal_unit_slice_ra [OF assms(1,3) sl(1) assms(4-7,9)] assms(2,8)
    by (simp_all add: set_rasl_output_flag_def)
  have "i4_rasl_output_flag c2 = 1"
    using nal_unit_slice_ra [of "c1 \<lparr> s_bitstrm := b \<rparr>", OF _ _ sl(2) _ _ _ assms(7,16)] assms(10-15) 1(1)
    by (simp add: set_rasl_output_flag_def)
  then show ?thesis using 1(2) by simp
qed

lemma idle_slice:
  assumes "ihevcd_nal_unit_header (s_bitstrm c) = Some (h, bs)" "i1_nal_unit_type h = NAL_CRA" "i4_slice_error c = 0"
    and "i4_header_mode c = 0" "i4_sps_done c \<noteq> 0" "i4_pps_done c \<noteq> 0"
  shows "ihevcd_nal_unit idle_parsers c = Some (IHEVCD_SUCCESS, slice_entry NAL_CRA bs c)"
proof -
  have "is_slice_nal (i1_nal_unit_type h)" using assms(2) by (simp add: is_slice_nal_def)
  from nal_unit_slice [OF assms(1,3) this assms(4-6)] show ?thesis using assms(2) by (simp add: idle_parsers_def)
qed

lemma nal_cra_second_slice_witness:
  "\<exists>c1 c2 r r'. ihevcd_nal_unit idle_parsers (idle_codec 21) = Some (r, c1) \<and>
     ihevcd_nal_unit idle_parsers (c1 \<lparr> s_bitstrm := nal_reader 21 \<rparr>) = Some (r', c2) \<and>
     i4_rasl_output_flag c1 = 0 \<and> i4_rasl_output_flag c2 = 1"
proof -
  obtain bs where h: "ihevcd_nal_unit_header (nal_reader 21) = Some (\<lparr> i1_nal_unit_type = 21, i1_nuh_temporal_id = 0 \<rparr>, bs)"
    using idle_headers(1) by (auto simp: map_option_eq_Some)
  define c1 where "c1 = slice_entry 21 bs (idle_codec 21)"
  have f: "i4_slice_error c1 = 0" "i4_header_mode c1 = 0" "i4_sps_done c1 \<noteq> 0" "i4_pps_done c1 \<noteq> 0"
    by (simp_all add: c1_def slice_entry_def set_rasl_output_flag_def idle_codec_def)
  have 1: "ihevcd_nal_unit idle_parsers (idle_codec 21) = Some (IHEVCD_SUCCESS, c1)"
    unfolding c1_def by (rule idle_slice [where h = "\<lparr> i1_nal_unit_type = 21, i1_nuh_temporal_id = 0 \<rparr>"])
      (simp_all add: idle_codec_def h)
  obtain r' c2 where 2: "ihevcd_nal_unit idle_parsers (c1 \<lparr> s_bitstrm := nal_reader 21 \<rparr>) = Some (r', c2)"
    using idle_slice [of "c1 \<lparr> s_bitstrm := nal_reader 21 \<rparr>" "\<lparr> i1_nal_unit_type = 21, i1_nuh_temporal_id = 0 \<rparr>" bs] h f by simp
  show ?thesis
    using nal_cra_second_slice [of "idle_codec 21" "\<lparr> i1_nal_unit_type = 21, i1_nuh_temporal_id = 0 \<rparr>" bs idle_parsers
        IHEVCD_SUCCESS c1 "nal_reader 21" "\<lparr> i1_nal_unit_type = 21, i1_nuh_temporal_id = 0 \<rparr>" bs r' c2]
      1 2 h f idle_parsers_keep by (simp add: idle_codec_def)
qed

text \<open>
  The NAL unit header decodes to the six type bits and the temporal id behind the layer
  id, and the reader moves past its sixteen bits.
\<close>

theorem nal_header_decodes:
  assumes "rd_inv s" "rd_room s 16"
  shows "\<exists>t. ihevcd_nal_unit_header s =
      Some (\<lparr> i1_nal_unit_type = word_of_nat (bits_at (rd_bits s) (rd_pos s + 1) 6),
              i1_nuh_temporal_id = word_of_nat (bits_at (rd_bits s) (rd_pos s + 13) 3) - 1 \<rparr>, t) \<and>
    rd_at s (rd_pos s + 16) t"
  by (rule nal_unit_header_spec [OF assms])

lemma nal_header_decodes_witness:
  "\<exists>s t. ihevcd_bits_init ([66, 1] @ replicate 14 0) 16 = Some s \<and> ihevcd_nal_unit_header s =
      Some (\<lparr> i1_nal_unit_type = word_of_nat (bits_at (rd_bits s) (rd_pos s + 1) 6),
              i1_nuh_temporal_id = word_of_nat (bits_at (rd_bits s) (rd_pos s + 13) 3) - 1 \<rparr>, t)"
proof -
  define buf :: "u8 list" where "buf = [66, 1] @ replicate 14 0"
  have len: "length buf = 16" by (simp add: buf_def)
  obtain s where s: "ihevcd_bits_init buf 16 = Some s" "rd_inv s" "rd_pos s = 0" "pu1_buf_base s = buf"
    using bits_init_spec [of buf 16] len by auto
  then have "rd_room s 16" using len by (simp add: rd_room_def)
  then show ?thesis using nal_header_decodes [of s] s unfolding buf_def by blast
qed

end
