(* ===== verification/Arith_Coder.thy ===== *)
theory Arith_Coder
  imports Bit_Sequence
begin

text \<open>
  What a CABAC encoder and decoder agree on, with unbounded numbers: the state of the
  arithmetic coder, the interval each coded bin selects, and when a bit stream lies in it. The
  encoder's registers, outstanding bytes and carries, and the decoder's 31-bit window, are two
  implementations of it.

  The locale \<open>cabac_tables\<close> is the interface to the probability tables: it promises that both
  parts of a split interval are wide enough to renormalise.
\<close>

section \<open>Bins and states\<close>

text \<open>A bin coded with a context, a bypass bin, and a terminating bin that is 0.\<close>

datatype bin_op = Ctx nat bool | Byp bool | Trm

fun op_ok :: "nat \<Rightarrow> bin_op \<Rightarrow> bool" where
  "op_ok k (Ctx c b) \<longleftrightarrow> c < k"
| "op_ok k _ \<longleftrightarrow> True"

text \<open>
  After \<open>ac_n\<close> renormalisation shifts, the interval is from \<open>ac_low\<close>, \<open>ac_range\<close> wide, as a
  number of \<open>9 + ac_n\<close> bits.
\<close>

record ac =
  ac_n :: nat
  ac_low :: nat
  ac_range :: nat
  ac_ctx :: "nat list"

definition ac_init :: "nat list \<Rightarrow> ac" where
  "ac_init cs = \<lparr> ac_n = 0, ac_low = 0, ac_range = 510, ac_ctx = cs \<rparr>"

text \<open>Part \<open>a\<close> up of the interval, \<open>r\<close> wide, renormalised to 9 bits.\<close>

definition norm_shift :: "nat \<Rightarrow> nat" where
  "norm_shift r = 9 - nbits r"

definition ac_select :: "nat \<Rightarrow> nat \<Rightarrow> ac \<Rightarrow> ac" where
  "ac_select a r st = (let sh = norm_shift r in
     st \<lparr> ac_n := ac_n st + sh, ac_low := (ac_low st + a) * 2 ^ sh, ac_range := r * 2 ^ sh \<rparr>)"

lemma norm_shift:
  assumes "0 < r" "r < 512"
  shows "256 \<le> r * 2 ^ norm_shift r" "r * 2 ^ norm_shift r < 512"
proof -
  have b: "2 ^ (nbits r - 1) \<le> r" "r < 2 ^ nbits r" "0 < nbits r" using nbits_bounds assms by auto
  have "nbits r \<le> 9" using nbits_le [OF assms(1), of 9] assms(2) by simp
  then have s: "nbits r + norm_shift r = 9" by (simp add: norm_shift_def)
  have "(2::nat) ^ (nbits r - 1) * 2 ^ norm_shift r = 2 ^ 8"
    using s b(3) by (simp flip: power_add)
  then show "256 \<le> r * 2 ^ norm_shift r"
    using mult_le_mono1 [OF b(1), of "2 ^ norm_shift r"] by simp
  have "(2::nat) ^ nbits r * 2 ^ norm_shift r = 2 ^ 9" using s by (simp flip: power_add)
  moreover have "r * 2 ^ norm_shift r < 2 ^ nbits r * 2 ^ norm_shift r" using b(2) by simp
  ultimately show "r * 2 ^ norm_shift r < 512" by simp
qed

lemma norm_shift_le: "2 ^ k \<le> r \<Longrightarrow> k \<le> 8 \<Longrightarrow> norm_shift r \<le> 8 - k"
proof -
  assume k: "2 ^ k \<le> r"
  then have "0 < r" by (metis gr0I not_numeral_le_zero power_eq_0_iff zero_neq_numeral le_zero_eq)
  then have "r < 2 ^ nbits r" using nbits_bounds by blast
  then have "(2::nat) ^ k < 2 ^ nbits r" using k by (rule le_less_trans [rotated])
  then have "k < nbits r" by simp
  then show ?thesis by (simp add: norm_shift_def)
qed

section \<open>Bit streams in an interval\<close>

text \<open>\<open>T k\<close> is the value of the first \<open>k\<close> bits of a stream.\<close>

definition prefixes :: "(nat \<Rightarrow> nat) \<Rightarrow> bool" where
  "prefixes T \<longleftrightarrow> (\<forall>k j. T (k + j) div 2 ^ j = T k)"

definition inside :: "(nat \<Rightarrow> nat) \<Rightarrow> ac \<Rightarrow> bool" where
  "inside T st \<longleftrightarrow> ac_low st \<le> T (9 + ac_n st) \<and> T (9 + ac_n st) < ac_low st + ac_range st"

lemma prefixes_bits_at: "prefixes (bits_at f p)"
  by (simp add: prefixes_def bits_at_add bits_at_less)

lemma prefixes_le:
  assumes "prefixes T"
  shows "a * 2 ^ j \<le> T (k + j) \<longleftrightarrow> a \<le> T k"
proof -
  have "T k = T (k + j) div 2 ^ j" using assms by (simp add: prefixes_def)
  then show ?thesis by (simp add: less_eq_div_iff_mult_less_eq)
qed

lemma prefixes_less: "prefixes T \<Longrightarrow> T (k + j) < a * 2 ^ j \<longleftrightarrow> T k < a"
  using prefixes_le [of T a j k] by (meson not_le)

lemma inside_select:
  assumes "prefixes T"
  shows "inside T (ac_select a r st) \<longleftrightarrow>
    ac_low st + a \<le> T (9 + ac_n st) \<and> T (9 + ac_n st) < ac_low st + a + r"
  using prefixes_le [OF assms, of "ac_low st + a" "norm_shift r" "9 + ac_n st"]
    prefixes_less [OF assms, of "9 + ac_n st" "norm_shift r" "ac_low st + a + r"]
  by (simp add: inside_def ac_select_def Let_def add.assoc flip: add_mult_distrib)

section \<open>The coder over the tables\<close>

locale cabac_tables =
  fixes rlps :: "nat \<Rightarrow> nat \<Rightarrow> nat" and nxt :: "nat \<Rightarrow> nat"
  assumes rlps_bounds: "s < 64 \<Longrightarrow> q < 4 \<Longrightarrow> 2 \<le> rlps s q \<and> rlps s q + 128 \<le> 256 + 64 * q"
    and nxt_bound: "i < 256 \<Longrightarrow> nxt i < 128"
begin

definition lps_range :: "nat \<Rightarrow> nat \<Rightarrow> nat" where
  "lps_range m R = rlps (m div 2) (R div 64 mod 4)"

fun ac_step :: "bin_op \<Rightarrow> ac \<Rightarrow> ac" where
  "ac_step (Ctx c b) st = (let m = ac_ctx st ! c; R = ac_range st; l = lps_range m R in
     (if odd m = b then ac_select 0 (R - l) st else ac_select (R - l) l st)
       \<lparr> ac_ctx := (ac_ctx st)[c := nxt (2 * m + of_bool b)] \<rparr>)"
| "ac_step (Byp b) st = st \<lparr> ac_n := ac_n st + 1,
     ac_low := 2 * ac_low st + (if b then ac_range st else 0) \<rparr>"
| "ac_step Trm st = ac_select 0 (ac_range st - 2) st"

abbreviation ac_run :: "bin_op list \<Rightarrow> ac \<Rightarrow> ac" where
  "ac_run ops \<equiv> fold ac_step ops"

text \<open>The terminating bin 1.\<close>

definition ac_end :: "ac \<Rightarrow> ac" where
  "ac_end st = ac_select (ac_range st - 2) 2 st"

lemma ac_select_ctx [simp]: "ac_ctx (ac_select a r st) = ac_ctx st"
  by (simp add: ac_select_def Let_def)

definition ac_ok :: "ac \<Rightarrow> bool" where
  "ac_ok st \<longleftrightarrow> 256 \<le> ac_range st \<and> ac_range st < 512 \<and> (\<forall>m \<in> set (ac_ctx st). m < 128) \<and>
     ac_low st + ac_range st \<le> 510 * 2 ^ ac_n st"

lemma lps_range_bounds:
  assumes "m < 128" "256 \<le> R" "R < 512"
  shows "2 \<le> lps_range m R" "lps_range m R + 128 \<le> R"
proof -
  have b: "4 \<le> R div 64" "R div 64 < 8" using assms by simp_all
  define k where "k = R div 64 - 4"
  have k: "R div 64 = 4 + k" "k < 4" using b by (auto simp: k_def)
  then have q: "R div 64 mod 4 = k" by simp
  have "64 * (4 + k) \<le> R" unfolding k(1) [symmetric] by simp
  then have "256 + 64 * k \<le> R" by simp
  moreover have "m div 2 < 64" using assms(1) by simp
  then have "2 \<le> rlps (m div 2) k" "rlps (m div 2) k + 128 \<le> 256 + 64 * k"
    using rlps_bounds k(2) by auto
  ultimately show "2 \<le> lps_range m R" "lps_range m R + 128 \<le> R"
    unfolding lps_range_def q by simp_all
qed

lemma ac_okD:
  assumes "ac_ok st"
  shows "256 \<le> ac_range st" "ac_range st < 512" "c < length (ac_ctx st) \<Longrightarrow> ac_ctx st ! c < 128"
    "ac_low st + ac_range st \<le> 510 * 2 ^ ac_n st"
  using assms by (auto simp: ac_ok_def)

lemma ac_ok_ctx: "ac_ok st \<Longrightarrow> v < 128 \<Longrightarrow> ac_ok (st \<lparr> ac_ctx := (ac_ctx st)[c := v] \<rparr>)"
  by (auto simp: ac_ok_def dest!: set_update_subset_insert [THEN subsetD])

lemma ac_select_ok:
  assumes "ac_ok st" "0 < r" "a + r \<le> ac_range st"
  shows "ac_ok (ac_select a r st)"
proof -
  have r: "r < 512" using assms by (simp add: ac_ok_def)
  have "ac_low st + a + r \<le> 510 * 2 ^ ac_n st" using assms by (simp add: ac_ok_def)
  then have "(ac_low st + a + r) * 2 ^ norm_shift r \<le> (510 * 2 ^ ac_n st) * 2 ^ norm_shift r"
    by (rule mult_le_mono1)
  then show ?thesis
    using assms norm_shift [OF assms(2) r]
    by (simp add: ac_ok_def ac_select_def Let_def power_add algebra_simps)
qed

lemma ac_step_ok:
  assumes ok: "ac_ok st" and op: "op_ok (length (ac_ctx st)) op"
  shows "ac_ok (ac_step op st) \<and> length (ac_ctx (ac_step op st)) = length (ac_ctx st)"
proof (cases op)
  case (Ctx c b)
  let ?m = "ac_ctx st ! c" and ?R = "ac_range st"
  have m: "?m < 128" using ac_okD(3) [OF ok] op Ctx by simp
  note l = lps_range_bounds [OF m ac_okD(1,2) [OF ok]]
  have v: "nxt (2 * ?m + of_bool b) < 128" using m by (intro nxt_bound) (auto split: if_splits)
  have s: "ac_ok (ac_select 0 (?R - lps_range ?m ?R) st)"
      "ac_ok (ac_select (?R - lps_range ?m ?R) (lps_range ?m ?R) st)"
    using l by (auto intro!: ac_select_ok [OF ok])
  show ?thesis
    using ac_ok_ctx [OF s(1) v, of c] ac_ok_ctx [OF s(2) v, of c] Ctx by (simp add: Let_def)
next
  case (Byp b)
  then show ?thesis using ok by (auto simp: ac_ok_def)
next
  case Trm
  have "ac_ok (ac_select 0 (ac_range st - 2) st)"
    using ac_okD [OF ok] by (intro ac_select_ok [OF ok]) auto
  then show ?thesis using Trm by simp
qed

lemma inside_step:
  assumes "prefixes T" "ac_ok st" "op_ok (length (ac_ctx st)) op" "inside T (ac_step op st)"
  shows "inside T st"
proof (cases op)
  case (Ctx c b)
  let ?l = "lps_range (ac_ctx st ! c) (ac_range st)"
  have "ac_ctx st ! c < 128" using assms Ctx by (simp add: ac_ok_def)
  then have l: "?l \<le> ac_range st" using lps_range_bounds [of "ac_ctx st ! c" "ac_range st"] assms(2) by (simp add: ac_ok_def)
  have upd: "inside T (x \<lparr> ac_ctx := cs \<rparr>) = inside T x" for x cs by (simp add: inside_def)
  show ?thesis using assms(4) Ctx l
    by (auto simp: Let_def upd inside_select [OF assms(1)] split: if_splits) (auto simp: inside_def)
next
  case (Byp b)
  have "inside T st" if "2 * ac_low st \<le> T (9 + ac_n st + 1)" "T (9 + ac_n st + 1) < 2 * (ac_low st + ac_range st)"
    using prefixes_le [OF assms(1), of "ac_low st" 1 "9 + ac_n st"]
      prefixes_less [OF assms(1), of "9 + ac_n st" 1 "ac_low st + ac_range st"] that
    by (simp add: inside_def)
  then show ?thesis using assms(4) Byp by (auto simp: inside_def split: if_splits)
next
  case Trm
  then have "inside T (ac_select 0 (ac_range st - 2) st)" using assms(4) by simp
  then show ?thesis unfolding inside_select [OF assms(1)] by (simp add: inside_def) linarith
qed

lemma inside_end: "prefixes T \<Longrightarrow> 2 \<le> ac_range st \<Longrightarrow> inside T (ac_end st) \<Longrightarrow> inside T st"
  by (auto simp: ac_end_def inside_select) (auto simp: inside_def)

lemma ac_run_ok:
  "ac_ok st \<Longrightarrow> list_all (op_ok (length (ac_ctx st))) ops \<Longrightarrow>
   ac_ok (ac_run ops st) \<and> length (ac_ctx (ac_run ops st)) = length (ac_ctx st)"
  by (induction ops arbitrary: st) (use ac_step_ok in auto)

lemma inside_run:
  assumes "prefixes T"
  shows "ac_ok st \<Longrightarrow> list_all (op_ok (length (ac_ctx st))) ops \<Longrightarrow> inside T (ac_run ops st) \<Longrightarrow>
    inside T st"
proof (induction ops arbitrary: st)
  case (Cons op ops)
  then have "op_ok (length (ac_ctx st)) op" by simp
  then show ?case
    using Cons.IH [of "ac_step op st"] Cons.prems ac_step_ok [OF Cons.prems(1), of op]
      inside_step [OF assms Cons.prems(1), of op] by simp
qed simp

text \<open>A stream in the interval that coded a bin tells the bin.\<close>

lemma inside_bin:
  assumes "prefixes T" "ac_ok st" "c < length (ac_ctx st)" "inside T (ac_step (Ctx c b) st)"
  shows "ac_low st + (ac_range st - lps_range (ac_ctx st ! c) (ac_range st)) \<le> T (9 + ac_n st)
    \<longleftrightarrow> b \<noteq> odd (ac_ctx st ! c)"
proof -
  let ?l = "lps_range (ac_ctx st ! c) (ac_range st)"
  have upd: "inside T (x \<lparr> ac_ctx := cs \<rparr>) = inside T x" for x cs by (simp add: inside_def)
  show ?thesis using assms(4)
    by (auto simp: Let_def upd inside_select [OF assms(1)] split: if_splits)
qed

end

end
