(* ===== verification/Cabac_Tables.thy ===== *)
theory Cabac_Tables
  imports Arith_Coder
begin

text \<open>
  The CABAC tables of \<^verbatim>\<open>common/ihevc_cabac_tables.c\<close> that decoder and encoder share, and the
  encoder's table of fractional bits, \<^verbatim>\<open>encoder/ihevce_global_tables.c\<close>. They satisfy the
  interface \<open>cabac_tables\<close> of the arithmetic coder.
\<close>

unbundle bit_operations_syntax

section \<open>Tables\<close>

definition gau1_ihevc_cabac_rlps :: "u8 list list" where
  "gau1_ihevc_cabac_rlps = [
    [128, 176, 208, 240], [128, 167, 197, 227], [128, 158, 187, 216], [123, 150, 178, 205],
    [116, 142, 169, 195], [111, 135, 160, 185], [105, 128, 152, 175], [100, 122, 144, 166],
    [95, 116, 137, 158], [90, 110, 130, 150], [85, 104, 123, 142], [81, 99, 117, 135],
    [77, 94, 111, 128], [73, 89, 105, 122], [69, 85, 100, 116], [66, 80, 95, 110],
    [62, 76, 90, 104], [59, 72, 86, 99], [56, 69, 81, 94], [53, 65, 77, 89],
    [51, 62, 73, 85], [48, 59, 69, 80], [46, 56, 66, 76], [43, 53, 63, 72],
    [41, 50, 59, 69], [39, 48, 56, 65], [37, 45, 54, 62], [35, 43, 51, 59],
    [33, 41, 48, 56], [32, 39, 46, 53], [30, 37, 43, 50], [29, 35, 41, 48],
    [27, 33, 39, 45], [26, 31, 37, 43], [24, 30, 35, 41], [23, 28, 33, 39],
    [22, 27, 32, 37], [21, 26, 30, 35], [20, 24, 29, 33], [19, 23, 27, 31],
    [18, 22, 26, 30], [17, 21, 25, 28], [16, 20, 23, 27], [15, 19, 22, 25],
    [14, 18, 21, 24], [14, 17, 20, 23], [13, 16, 19, 22], [12, 15, 18, 21],
    [12, 14, 17, 20], [11, 14, 16, 19], [11, 13, 15, 18], [10, 12, 15, 17],
    [10, 12, 14, 16], [9, 11, 13, 15], [9, 11, 12, 14], [8, 10, 12, 14],
    [8, 9, 11, 13], [7, 9, 11, 12], [7, 9, 10, 12], [7, 8, 10, 11],
    [6, 8, 9, 11], [6, 7, 9, 10], [6, 7, 8, 9], [2, 2, 2, 2]]"

definition gau1_ihevc_next_state :: "u8 list" where
  "gau1_ihevc_next_state = [
    2, 1, 0, 3, 4, 0, 1, 5, 6, 2, 3, 7, 8, 4, 5, 9,
    10, 4, 5, 11, 12, 8, 9, 13, 14, 8, 9, 15, 16, 10, 11, 17,
    18, 12, 13, 19, 20, 14, 15, 21, 22, 16, 17, 23, 24, 18, 19, 25,
    26, 18, 19, 27, 28, 22, 23, 29, 30, 22, 23, 31, 32, 24, 25, 33,
    34, 26, 27, 35, 36, 26, 27, 37, 38, 30, 31, 39, 40, 30, 31, 41,
    42, 32, 33, 43, 44, 32, 33, 45, 46, 36, 37, 47, 48, 36, 37, 49,
    50, 38, 39, 51, 52, 38, 39, 53, 54, 42, 43, 55, 56, 42, 43, 57,
    58, 44, 45, 59, 60, 44, 45, 61, 62, 46, 47, 63, 64, 48, 49, 65,
    66, 48, 49, 67, 68, 50, 51, 69, 70, 52, 53, 71, 72, 52, 53, 73,
    74, 54, 55, 75, 76, 54, 55, 77, 78, 56, 57, 79, 80, 58, 59, 81,
    82, 58, 59, 83, 84, 60, 61, 85, 86, 60, 61, 87, 88, 60, 61, 89,
    90, 62, 63, 91, 92, 64, 65, 93, 94, 64, 65, 95, 96, 66, 67, 97,
    98, 66, 67, 99, 100, 66, 67, 101, 102, 68, 69, 103, 104, 68, 69, 105,
    106, 70, 71, 107, 108, 70, 71, 109, 110, 70, 71, 111, 112, 72, 73, 113,
    114, 72, 73, 115, 116, 72, 73, 117, 118, 74, 75, 119, 120, 74, 75, 121,
    122, 74, 75, 123, 124, 76, 77, 125, 124, 76, 77, 125, 126, 126, 127, 127]"

text \<open>\<^verbatim>\<open>ROUND_Q12\<close> is applied to the fractional bits of the source's initialiser: the
  entries are the rounded values in 1/4096 bit.\<close>

definition gau2_ihevce_cabac_bin_to_bits :: "16 word list" where
  "gau2_ihevce_cabac_bin_to_bits = [
    4096, 4096, 3803, 4404, 3538, 4712, 3297, 5020, 3077, 5328, 2876, 5636,
    2690, 5944, 2520, 6252, 2362, 6560, 2217, 6868, 2082, 7176, 1956, 7484,
    1840, 7792, 1731, 8100, 1630, 8408, 1535, 8716, 1447, 9024, 1364, 9332,
    1287, 9640, 1214, 9948, 1146, 10256, 1082, 10564, 1022, 10872, 966, 11179,
    913, 11487, 863, 11795, 816, 12103, 772, 12411, 730, 12719, 691, 13027,
    654, 13335, 619, 13643, 586, 13951, 554, 14259, 525, 14567, 497, 14875,
    471, 15183, 446, 15491, 423, 15799, 400, 16107, 379, 16415, 359, 16723,
    341, 17031, 323, 17339, 306, 17647, 290, 17955, 275, 18263, 261, 18571,
    247, 18879, 234, 19187, 222, 19495, 211, 19803, 200, 20111, 190, 20419,
    180, 20727, 171, 21035, 162, 21343, 153, 21651, 146, 21959, 138, 22267,
    131, 22575, 124, 22883, 118, 23191, 112, 23499]"

text \<open>The number of context models, the last of the offsets of the enumeration.\<close>

definition IHEVC_CAB_CTXT_END :: nat where
  "IHEVC_CAB_CTXT_END = 173"

section \<open>The tables as functions\<close>

definition rlps_table :: "nat \<Rightarrow> nat \<Rightarrow> nat" where
  "rlps_table s q = unat (gau1_ihevc_cabac_rlps ! s ! q)"

definition next_table :: "nat \<Rightarrow> nat" where
  "next_table i = unat (gau1_ihevc_next_state ! i)"

lemma rlps_dims:
  "length gau1_ihevc_cabac_rlps = 64" "s < 64 \<Longrightarrow> length (gau1_ihevc_cabac_rlps ! s) = 4"
proof -
  have "list_all (\<lambda>r. length r = 4) gau1_ihevc_cabac_rlps"
    by (simp add: gau1_ihevc_cabac_rlps_def)
  moreover show *: "length gau1_ihevc_cabac_rlps = 64" by (simp add: gau1_ihevc_cabac_rlps_def)
  ultimately show "length (gau1_ihevc_cabac_rlps ! s) = 4" if "s < 64"
    using that by (simp add: list_all_length)
qed

lemma next_dims: "length gau1_ihevc_next_state = 256"
  by (simp add: gau1_ihevc_next_state_def)

lemma rlps_table_bounds:
  assumes "s < 64" "q < 4"
  shows "2 \<le> rlps_table s q \<and> rlps_table s q + 128 \<le> 256 + 64 * q"
proof -
  have "list_all (\<lambda>r. list_all2 (\<lambda>q v. 2 \<le> unat v \<and> unat v + 128 \<le> 256 + 64 * q) [0, 1, 2, 3] r)
      gau1_ihevc_cabac_rlps"
    by (simp add: gau1_ihevc_cabac_rlps_def)
  then have r: "list_all2 (\<lambda>q v. 2 \<le> unat v \<and> unat v + 128 \<le> 256 + 64 * q) [0, 1, 2, 3]
      (gau1_ihevc_cabac_rlps ! s)"
    using assms(1) by (simp add: list_all_length rlps_dims)
  moreover have "[0, 1, 2, 3] ! q = q" using assms(2) by (auto simp: less_Suc_eq numeral_eq_Suc)
  ultimately show ?thesis
    using list_all2_nthD [OF r, of q] assms(2) by (simp add: rlps_table_def)
qed

lemma next_table_bound: "i < 256 \<Longrightarrow> next_table i < 128"
proof -
  assume i: "i < 256"
  have "list_all (\<lambda>v. unat v < 128) gau1_ihevc_next_state"
    by (simp add: gau1_ihevc_next_state_def)
  then show ?thesis using i by (simp add: list_all_length next_dims next_table_def)
qed

interpretation tabs: cabac_tables rlps_table next_table
  by unfold_locales (auto simp: rlps_table_bounds next_table_bound)

text \<open>The context model, its state and its successor, as the code indexes the tables.\<close>

lemma model_tables:
  assumes m: "unat (m :: u8) < 128" and q: "unat q < 4"
  shows "unat (drop_bit 1 (ucast m :: u32)) = unat m div 2" and "(ucast m :: u32) AND 1 = of_bool (odd (unat m))"
    and "rd gau1_ihevc_cabac_rlps (unat m div 2) = Some (gau1_ihevc_cabac_rlps ! (unat m div 2))"
    and "rd (gau1_ihevc_cabac_rlps ! (unat m div 2)) (unat q) =
      Some (gau1_ihevc_cabac_rlps ! (unat m div 2) ! unat q)"
    and "b \<in> {0, 1 :: u32} \<Longrightarrow> \<exists>v. rd gau1_ihevc_next_state (unat (push_bit 1 (ucast m :: u32) OR b)) = Some v \<and>
      unat v = next_table (2 * unat m + unat b)"
    and "(ucast m :: u32) < 128"
proof -
  show "unat (drop_bit 1 (ucast m :: u32)) = unat m div 2"
    unfolding unat_drop_u32 unat_ucast_u8 by simp
  have "unat ((ucast m :: u32) AND 1) = unat (of_bool (odd (unat m)) :: u32)"
    unfolding and_1_unat_u32 unat_ucast_u8 by (simp add: mod_2_eq_odd)
  then show "(ucast m :: u32) AND 1 = of_bool (odd (unat m))" by (simp only: word_unat_eq_iff)
  show "(ucast m :: u32) < 128" using m by (simp add: word_less_nat_alt unat_ucast_u8)
  have s: "unat m div 2 < 64" using m by simp
  then show "rd gau1_ihevc_cabac_rlps (unat m div 2) = Some (gau1_ihevc_cabac_rlps ! (unat m div 2))"
    "rd (gau1_ihevc_cabac_rlps ! (unat m div 2)) (unat q) =
      Some (gau1_ihevc_cabac_rlps ! (unat m div 2) ! unat q)"
    using q by (simp_all add: rlps_dims)
  assume b: "b \<in> {0, 1 :: u32}"
  have "unat b < 2 ^ 1" using b by auto
  then have i: "unat (push_bit 1 (ucast m :: u32) OR b) = 2 * unat m + unat b"
    using push_or_unat [of b 1 "ucast m"] m by (simp add: unat_ucast_u8)
  moreover have "2 * unat m + unat b < 256" using m b by auto
  ultimately show "\<exists>v. rd gau1_ihevc_next_state (unat (push_bit 1 (ucast m :: u32) OR b)) = Some v \<and>
      unat v = next_table (2 * unat m + unat b)"
    by (simp add: next_dims next_table_def)
qed

end
