(* ===== verification/Binarisation.thy ===== *)
theory Binarisation
  imports Arith_Coder
begin

text \<open>
  The binarisations of CABAC symbols as lists of bins: truncated unary with contexts, truncated
  unary, k-th order Exp-Golomb and truncated Rice with bypass bins. Encoder and decoder are
  each specified against these lists.
\<close>

section \<open>Bits of naturals\<close>

definition nat_bits :: "nat \<Rightarrow> nat \<Rightarrow> bool list" where
  "nat_bits n v = map (\<lambda>i. bit v (n - 1 - i)) [0..<n]"

lemma length_nat_bits [simp]: "length (nat_bits n v) = n"
  by (simp add: nat_bits_def)

lemma word_bits_nat_bits: "word_bits n w = nat_bits n (unat w)"
  by (simp add: word_bits_def nat_bits_def bit_unat_iff)

lemma nat_bits_0 [simp]: "nat_bits 0 v = []"
  by (simp add: nat_bits_def)

lemma nat_bits_append: "nat_bits (m + n) v = nat_bits m (v div 2 ^ n) @ nat_bits n v"
proof (rule nth_equalityI)
  fix i assume "i < length (nat_bits (m + n) v)"
  then show "nat_bits (m + n) v ! i = (nat_bits m (v div 2 ^ n) @ nat_bits n v) ! i"
    by (auto simp: nat_bits_def nth_append bit_drop_bit_eq simp flip: drop_bit_eq_div intro!: arg_cong [of _ _ "bit v"])
qed simp

lemma nat_bits_mod: "nat_bits n (v mod 2 ^ n) = nat_bits n v"
  by (auto simp: nat_bits_def bit_take_bit_iff simp flip: take_bit_eq_mod)

lemma bits_val_nat_bits: "bits_val (nat_bits n v) = v mod 2 ^ n"
proof (induction n arbitrary: v)
  case 0
  then show ?case by simp
next
  case (Suc n)
  have "nat_bits (n + 1) v = nat_bits n (v div 2) @ nat_bits 1 v"
    using nat_bits_append [of n 1 v] by simp
  moreover have "nat_bits 1 v = [odd v]" by (simp add: nat_bits_def bit_0)
  ultimately have "bits_val (nat_bits (Suc n) v) = 2 * (v div 2 mod 2 ^ n) + of_bool (odd v)"
    using Suc [of "v div 2"] by simp
  also have "\<dots> = v mod 2 ^ Suc n"
    using mod_mult2_eq [of v 2 "2 ^ n"] by (simp add: mod_2_eq_odd)
  finally show ?case .
qed

section \<open>Binarisations\<close>

definition byp :: "bool list \<Rightarrow> bin_op list" where
  "byp bs = map Byp bs"

lemma byp_simps [simp]: "byp [] = []" "byp (b # bs) = Byp b # byp bs" "byp (xs @ ys) = byp xs @ byp ys"
  "length (byp bs) = length bs"
  by (simp_all add: byp_def)

definition tu_ctx :: "nat \<Rightarrow> nat \<Rightarrow> nat \<Rightarrow> nat \<Rightarrow> nat" where
  "tu_ctx idx shift inc_max i = idx + min (i div 2 ^ shift) inc_max"

text \<open>Truncated unary: \<open>v\<close> ones, and a zero unless \<open>v\<close> is the maximum. \<open>tu_from\<close> starts at
  bin \<open>i\<close>.\<close>

definition tu_from :: "nat \<Rightarrow> nat \<Rightarrow> nat \<Rightarrow> nat \<Rightarrow> nat \<Rightarrow> nat \<Rightarrow> bin_op list" where
  "tu_from c_max idx shift inc_max v i =
     map (\<lambda>j. Ctx (tu_ctx idx shift inc_max j) True) [i..<v] @
     (if v < c_max then [Ctx (tu_ctx idx shift inc_max v) False] else [])"

abbreviation tu_ops :: "nat \<Rightarrow> nat \<Rightarrow> nat \<Rightarrow> nat \<Rightarrow> nat \<Rightarrow> bin_op list" where
  "tu_ops c_max idx shift inc_max v \<equiv> tu_from c_max idx shift inc_max v 0"

definition tu_bits :: "nat \<Rightarrow> nat \<Rightarrow> bool list" where
  "tu_bits c_max v = replicate v True @ (if v < c_max then [False] else [])"

text \<open>Exp-Golomb of order \<open>k\<close>: with \<open>v div 2 ^ k + 1\<close> of \<open>j + 1\<close> bits, \<open>j\<close> ones, a zero, and
  \<open>j + k\<close> suffix bits.\<close>

definition egk_len :: "nat \<Rightarrow> nat \<Rightarrow> nat" where
  "egk_len k v = nbits (v div 2 ^ k + 1) - 1"

definition egk_suffix :: "nat \<Rightarrow> nat \<Rightarrow> nat" where
  "egk_suffix k v = v + 2 ^ k - 2 ^ (egk_len k v + k)"

definition egk_bits :: "nat \<Rightarrow> nat \<Rightarrow> bool list" where
  "egk_bits k v = replicate (egk_len k v) True @ False # nat_bits (egk_len k v + k) (egk_suffix k v)"

lemma egk_suffix:
  "2 ^ (egk_len k v + k) \<le> v + 2 ^ k" "egk_suffix k v < 2 ^ (egk_len k v + k)"
  "v = (2 ^ egk_len k v - 1) * 2 ^ k + egk_suffix k v"
proof -
  let ?q = "v div 2 ^ k + 1" and ?j = "egk_len k v"
  have b: "2 ^ ?j \<le> ?q" "?q < 2 ^ Suc ?j"
    using nbits_bounds [of ?q] by (auto simp: egk_len_def)
  have "2 ^ ?j * 2 ^ k \<le> ?q * 2 ^ k" using b(1) by (rule mult_le_mono1)
  also have "?q * 2 ^ k = v div 2 ^ k * 2 ^ k + 2 ^ k" by (simp add: add_mult_distrib)
  also have "\<dots> \<le> v + 2 ^ k" by simp
  finally show le: "2 ^ (?j + k) \<le> v + 2 ^ k" by (simp add: power_add)
  have "?q * 2 ^ k + 2 ^ k \<le> 2 ^ Suc ?j * 2 ^ k"
    using mult_le_mono1 [of "?q + 1" "2 ^ Suc ?j" "2 ^ k"] b(2) by (simp add: add_mult_distrib)
  moreover have "v < ?q * 2 ^ k" by (simp add: add_mult_distrib) (metis add.commute dividend_less_div_times zero_less_numeral zero_less_power)
  ultimately have "v + 2 ^ k < 2 * (2 ^ ?j * 2 ^ k)" by simp
  then show "egk_suffix k v < 2 ^ (?j + k)" using le by (simp add: egk_suffix_def power_add)
  show "v = (2 ^ ?j - 1) * 2 ^ k + egk_suffix k v"
    using le by (simp add: egk_suffix_def power_add diff_mult_distrib)
qed

text \<open>Truncated Rice, for symbols below the maximum: the high part in unary, the low bits.\<close>

definition tr_bits :: "nat \<Rightarrow> nat \<Rightarrow> bool list" where
  "tr_bits k v = replicate (v div 2 ^ k) True @ False # nat_bits k v"

end
