(* ===== verification/Cabac_Dec.thy ===== *)
theory Cabac_Dec
  imports Bit_Reader Cabac_Tables Binarisation
begin

text \<open>
  The decoder's CABAC engine, \<^verbatim>\<open>decoder/ihevcd_cabac.c\<close>, with \<^verbatim>\<open>FULLRANGE\<close>: the range
  register holds the 9-bit range shifted up by \<open>s\<close>, up to 22, and the offset register the bits
  of the stream that are \<open>s\<close> ahead. The engine refills when the range falls below 256.

  The macros \<^verbatim>\<open>IHEVCD_CABAC_DECODE_BIN\<close>, \<^verbatim>\<open>_BYPASS_BIN\<close> and \<^verbatim>\<open>_BYPASS_BINS\<close> of the header
  have the body of the functions of the same name, which stand for them. Context indices, bin
  counts and the symbol counters of the unary loops are naturals; registers and decoded values
  are words.

  \<open>dec_rel\<close> relates the registers and the bitstream to the state of the arithmetic coder; the
  lemmas show that a stream that lies in the interval a sequence of bins selects decodes to these
  bins, and that each binarisation is read back.
\<close>

unbundle bit_operations_syntax

record cab_ctxt =
  u4_range :: u32
  u4_ofst :: u32
  au1_ctxt_models :: "u8 list"
  au1_ctxt_models_sync :: "u8 list"
  ai4_rice_stat_coeff :: "int list"
  ai4_rice_stat_coeff_sync :: "int list"

datatype cabac_status = CABAC_SUCCESS | CABAC_FAIL

abbreviation (input) RANGE_NUMBITS :: u32 where "RANGE_NUMBITS \<equiv> 31"
abbreviation (input) RANGE_SHIFT :: u32 where "RANGE_SHIFT \<equiv> 22"

section \<open>Operations\<close>

text \<open>\<^verbatim>\<open>memcpy\<close> of the initial contexts and, when given, of the Rice statistics.\<close>

definition ihevcd_cabac_init ::
  "cab_ctxt \<Rightarrow> bitstrm \<Rightarrow> int \<Rightarrow> int \<Rightarrow> u8 list \<Rightarrow> int list option \<Rightarrow>
   (cabac_status \<times> cab_ctxt \<times> bitstrm) option" where
  "ihevcd_cabac_init c s qp cabac_init_idc pu1_init_ctxt pi4_rice_stat_coeff = do {
     require (0 \<le> qp \<and> qp < 52);
     require (0 \<le> cabac_init_idc \<and> cabac_init_idc < 3);
     let c = c \<lparr> u4_range := push_bit 22 510 \<rparr>;
     (ofst, s) \<leftarrow> BITS_GET (9 + RANGE_SHIFT) s;
     let c = c \<lparr> u4_ofst := ofst \<rparr>;
     require (IHEVC_CAB_CTXT_END \<le> length pu1_init_ctxt);
     let c = c \<lparr> au1_ctxt_models := take IHEVC_CAB_CTXT_END pu1_init_ctxt \<rparr>;
     c \<leftarrow> (case pi4_rice_stat_coeff of None \<Rightarrow> Some c
            | Some coeff \<Rightarrow> do {
                require (4 \<le> length coeff);
                Some (c \<lparr> ai4_rice_stat_coeff := take 4 coeff \<rparr>)
              });
     if u4_ofst c \<ge> u4_range c then Some (CABAC_FAIL, c, s) else Some (CABAC_SUCCESS, c, s)
   }"

definition ihevcd_cabac_reset :: "cab_ctxt \<Rightarrow> bitstrm \<Rightarrow> (cabac_status \<times> cab_ctxt \<times> bitstrm) option" where
  "ihevcd_cabac_reset c s = do {
     (ofst, s) \<leftarrow> BITS_GET (9 + RANGE_SHIFT) s;
     Some (CABAC_SUCCESS, c \<lparr> u4_range := push_bit 22 510, u4_ofst := ofst \<rparr>, s)
   }"

text \<open>Renormalisation to 31 bits: the body of the \<^verbatim>\<open>if\<close> at the end of the decoding functions.\<close>

definition dec_renorm :: "u32 \<Rightarrow> u32 \<Rightarrow> u32 \<Rightarrow> bitstrm \<Rightarrow> (u32 \<times> u32 \<times> bitstrm) option" where
  "dec_renorm numbits rng ofst s = do {
     (u4_bits, s) \<leftarrow> BITS_GET numbits s;
     ofst \<leftarrow> shl32 ofst numbits;
     let ofst = ofst OR u4_bits;
     rng \<leftarrow> shl32 rng numbits;
     Some (rng, ofst, s)
   }"

definition ihevcd_cabac_decode_bin ::
  "cab_ctxt \<Rightarrow> bitstrm \<Rightarrow> nat \<Rightarrow> (u32 \<times> cab_ctxt \<times> bitstrm) option" where
  "ihevcd_cabac_decode_bin c s ctxt_index = do {
     let rng = u4_range c;
     let ofst = u4_ofst c;
     model \<leftarrow> rd (au1_ctxt_models c) ctxt_index;
     let state_mps = (ucast model :: u32);
     require (rng \<ge> 256);
     require (ctxt_index < IHEVC_CAB_CTXT_END);
     require (state_mps < 128);
     let clz = CLZ rng;
     let clz = clz - (32 - RANGE_NUMBITS);
     u4_qnt_range \<leftarrow> shl32 rng clz;
     u4_qnt_range \<leftarrow> shr32 u4_qnt_range (RANGE_SHIFT + 6);
     let u4_qnt_range = u4_qnt_range AND 0x3;
     rlps_row \<leftarrow> rd gau1_ihevc_cabac_rlps (unat (drop_bit 1 state_mps));
     rlps \<leftarrow> rd rlps_row (unat u4_qnt_range);
     u4_rlps \<leftarrow> shl32 (ucast rlps) (RANGE_SHIFT - clz);
     let rng = rng - u4_rlps;
     let u4_bin = state_mps AND 1;
     let (u4_bin, ofst, rng) =
       (if ofst \<ge> rng then (1 - u4_bin, ofst - rng, u4_rlps) else (u4_bin, ofst, rng));
     nxt \<leftarrow> rd gau1_ihevc_next_state (unat (push_bit 1 state_mps OR u4_bin));
     let c = c \<lparr> au1_ctxt_models := (au1_ctxt_models c)[ctxt_index := nxt] \<rparr>;
     (rng, ofst, s) \<leftarrow>
       (if rng < 256 then dec_renorm (CLZ rng - (32 - RANGE_NUMBITS)) rng ofst s
        else Some (rng, ofst, s));
     Some (u4_bin, c \<lparr> u4_range := rng, u4_ofst := ofst \<rparr>, s)
   }"

definition ihevcd_cabac_decode_bypass_bin ::
  "cab_ctxt \<Rightarrow> bitstrm \<Rightarrow> (u32 \<times> cab_ctxt \<times> bitstrm) option" where
  "ihevcd_cabac_decode_bypass_bin c s = do {
     let rng = u4_range c;
     let ofst = u4_ofst c;
     require (rng \<ge> 256);
     (u4_bits, s) \<leftarrow> BIT_GET s;
     let ofst = push_bit 1 ofst;
     let ofst = ofst OR u4_bits;
     let (u4_bin, ofst) = (if ofst \<ge> rng then (1, ofst - rng) else (0, ofst));
     Some (u4_bin, c \<lparr> u4_ofst := ofst \<rparr>, s)
   }"

definition ihevcd_cabac_decode_terminate ::
  "cab_ctxt \<Rightarrow> bitstrm \<Rightarrow> (u32 \<times> cab_ctxt \<times> bitstrm) option" where
  "ihevcd_cabac_decode_terminate c s = do {
     let rng = u4_range c;
     let ofst = u4_ofst c;
     require (rng \<ge> 256);
     let clz = CLZ rng;
     let clz = clz - (32 - RANGE_NUMBITS);
     two \<leftarrow> shl32 2 (RANGE_SHIFT - clz);
     let rng = rng - two;
     if ofst \<ge> rng then do {
       let clz = CLZ (u4_range c);
       let numbits = 32 - clz;
       let numbits = numbits - 9;
       s \<leftarrow> ihevcd_bits_seek s (- sint numbits);
       Some (1, c \<lparr> u4_range := rng, u4_ofst := ofst \<rparr>, s)
     }
     else do {
       let numbits = CLZ rng;
       let numbits = numbits - (32 - RANGE_NUMBITS);
       (rng, ofst, s) \<leftarrow>
         (if numbits \<noteq> 0 then dec_renorm numbits rng ofst s else Some (rng, ofst, s));
       Some (0, c \<lparr> u4_range := rng, u4_ofst := ofst \<rparr>, s)
     }
   }"

text \<open>The \<^verbatim>\<open>do ... while(numbins)\<close> loop over the bits read.\<close>

fun bypass_bins_loop :: "nat \<Rightarrow> u32 \<Rightarrow> u32 \<Rightarrow> u32 \<Rightarrow> u32 \<Rightarrow> u32 \<times> u32" where
  "bypass_bins_loop 0 u4_bits rng ofst u4_bins = (ofst, u4_bins)"
| "bypass_bins_loop (Suc numbins) u4_bits rng ofst u4_bins = (
     let u4_bit = drop_bit numbins u4_bits AND 1;
         ofst = push_bit 1 ofst;
         ofst = ofst OR u4_bit;
         u4_bins = push_bit 1 u4_bins;
         (u4_bins, ofst) = (if ofst \<ge> rng then (u4_bins + 1, ofst - rng) else (u4_bins, ofst))
     in bypass_bins_loop numbins u4_bits rng ofst u4_bins)"

definition ihevcd_cabac_decode_bypass_bins ::
  "cab_ctxt \<Rightarrow> bitstrm \<Rightarrow> nat \<Rightarrow> (u32 \<times> cab_ctxt \<times> bitstrm) option" where
  "ihevcd_cabac_decode_bypass_bins c s numbins = do {
     let rng = u4_range c;
     let ofst = u4_ofst c;
     require (rng \<ge> 256);
     require (numbins > 0);
     require (numbins < 17);
     (u4_bits, s) \<leftarrow> BITS_GET (word_of_nat numbins) s;
     let (ofst, u4_bins) = bypass_bins_loop numbins u4_bits rng ofst 0;
     Some (u4_bins, c \<lparr> u4_ofst := ofst \<rparr>, s)
   }"

function tunary_loop ::
  "cab_ctxt \<Rightarrow> bitstrm \<Rightarrow> nat \<Rightarrow> nat \<Rightarrow> nat \<Rightarrow> nat \<Rightarrow> nat \<Rightarrow> (u32 \<times> cab_ctxt \<times> bitstrm) option" where
  "tunary_loop c s c_max ctxt_index ctxt_shift ctxt_inc_max u4_sym = do {
     let bin_index = ctxt_index + min (u4_sym div 2 ^ ctxt_shift) ctxt_inc_max;
     (bin, c, s) \<leftarrow> ihevcd_cabac_decode_bin c s bin_index;
     let u4_sym = u4_sym + 1;
     if u4_sym < c_max \<and> bin \<noteq> 0
     then tunary_loop c s c_max ctxt_index ctxt_shift ctxt_inc_max u4_sym
     else Some (word_of_nat u4_sym - 1 + bin, c, s)
   }"
  by pat_completeness auto
termination by (relation "measure (\<lambda>(_, _, m, _, _, _, i). m - i)") auto

declare tunary_loop.simps [simp del]

definition ihevcd_cabac_decode_bins_tunary ::
  "cab_ctxt \<Rightarrow> bitstrm \<Rightarrow> nat \<Rightarrow> nat \<Rightarrow> nat \<Rightarrow> nat \<Rightarrow> (u32 \<times> cab_ctxt \<times> bitstrm) option" where
  "ihevcd_cabac_decode_bins_tunary c s c_max ctxt_index ctxt_shift ctxt_inc_max = do {
     require (c_max > 0);
     require (ctxt_index < IHEVC_CAB_CTXT_END);
     require (ctxt_index + c_max div 2 ^ ctxt_shift < IHEVC_CAB_CTXT_END);
     tunary_loop c s c_max ctxt_index ctxt_shift ctxt_inc_max 0
   }"

text \<open>The loop of the bypass variant works on bits peeked from the stream.\<close>

function tunary_bypass_loop ::
  "u32 \<Rightarrow> u32 \<Rightarrow> u32 \<Rightarrow> nat \<Rightarrow> nat \<Rightarrow> u32 \<times> nat \<times> u32" where
  "tunary_bypass_loop u4_bits rng ofst c_max u4_sym = (
     let ofst = push_bit 1 ofst;
         ofst = ofst OR drop_bit 31 u4_bits;
         u4_bits = push_bit 1 u4_bits;
         (bin, ofst) = (if ofst \<ge> rng then (1, ofst - rng) else (0, ofst));
         u4_sym = u4_sym + 1
     in if u4_sym < c_max \<and> bin \<noteq> 0 then tunary_bypass_loop u4_bits rng ofst c_max u4_sym
        else (ofst, u4_sym, bin))"
  by pat_completeness auto
termination by (relation "measure (\<lambda>(_, _, _, m, i). m - i)") auto

declare tunary_bypass_loop.simps [simp del]

definition ihevcd_cabac_decode_bypass_bins_tunary ::
  "cab_ctxt \<Rightarrow> bitstrm \<Rightarrow> nat \<Rightarrow> (u32 \<times> cab_ctxt \<times> bitstrm) option" where
  "ihevcd_cabac_decode_bypass_bins_tunary c s c_max = do {
     let ofst = u4_ofst c;
     let rng = u4_range c;
     require (c_max > 0);
     require (rng \<ge> 256);
     u4_bits \<leftarrow> BITS_NXT (word_of_nat c_max) s;
     u4_bits \<leftarrow> shl32 u4_bits (32 - word_of_nat c_max);
     let (ofst, u4_sym, bin) = tunary_bypass_loop u4_bits rng ofst c_max 0;
     s \<leftarrow> BITS_FLUSH (word_of_nat u4_sym) s;
     Some (word_of_nat u4_sym - 1 + bin, c \<lparr> u4_ofst := ofst \<rparr>, s)
   }"

text \<open>The prefix loop of the k-th order Exp-Golomb code: \<^verbatim>\<open>while(bin && (numones <= 16))\<close>.\<close>

function egk_loop ::
  "cab_ctxt \<Rightarrow> bitstrm \<Rightarrow> u32 \<Rightarrow> nat \<Rightarrow> u32 \<Rightarrow> (u32 \<times> nat \<times> cab_ctxt \<times> bitstrm) option" where
  "egk_loop c s bin numones u4_sym =
     (if bin \<noteq> 0 \<and> numones \<le> 16 then do {
        (bin, c, s) \<leftarrow> ihevcd_cabac_decode_bypass_bin c s;
        let u4_sym = u4_sym + push_bit numones bin;
        egk_loop c s bin (numones + 1) u4_sym
      } else Some (u4_sym, numones, c, s))"
  by pat_completeness auto
termination by (relation "measure (\<lambda>(_, _, _, i, _). 17 - i)") auto

declare egk_loop.simps [simp del]

definition ihevcd_cabac_decode_bypass_bins_egk ::
  "cab_ctxt \<Rightarrow> bitstrm \<Rightarrow> nat \<Rightarrow> (u32 \<times> cab_ctxt \<times> bitstrm) option" where
  "ihevcd_cabac_decode_bypass_bins_egk c s k = do {
     (u4_sym, numones, c, s) \<leftarrow> egk_loop c s 1 k 0;
     let numones = int numones - 1;
     if numones \<noteq> 0 then do {
       (u4_suffix, c, s) \<leftarrow> ihevcd_cabac_decode_bypass_bins c s (nat numones);
       Some (u4_sym + u4_suffix, c, s)
     } else Some (u4_sym, c, s)
   }"

function trunc_rice_loop ::
  "cab_ctxt \<Rightarrow> bitstrm \<Rightarrow> nat \<Rightarrow> nat \<Rightarrow> (u32 \<times> cab_ctxt \<times> bitstrm) option" where
  "trunc_rice_loop c s c_max u4_sym = do {
     (bin, c, s) \<leftarrow> ihevcd_cabac_decode_bypass_bin c s;
     let u4_sym = u4_sym + 1;
     if u4_sym < c_max \<and> bin \<noteq> 0 then trunc_rice_loop c s c_max u4_sym
     else Some (word_of_nat u4_sym - 1 + bin, c, s)
   }"
  by pat_completeness auto
termination by (relation "measure (\<lambda>(_, _, m, i). m - i)") auto

declare trunc_rice_loop.simps [simp del]

definition ihevcd_cabac_decode_bypass_bins_trunc_rice ::
  "cab_ctxt \<Rightarrow> bitstrm \<Rightarrow> nat \<Rightarrow> nat \<Rightarrow> (u32 \<times> cab_ctxt \<times> bitstrm) option" where
  "ihevcd_cabac_decode_bypass_bins_trunc_rice c s c_rice_param c_rice_max = do {
     let c_max = c_rice_max div 2 ^ c_rice_param;
     (u4_sym, c, s) \<leftarrow> trunc_rice_loop c s c_max 0;
     if c_rice_param \<noteq> 0 then do {
       (u4_suffix, c, s) \<leftarrow> ihevcd_cabac_decode_bypass_bins c s c_rice_param;
       Some (push_bit c_rice_param u4_sym OR u4_suffix, c, s)
     } else Some (u4_sym, c, s)
   }"

section \<open>Registers and the arithmetic coder\<close>

text \<open>
  A decoder over the buffer \<open>buf\<close>, its arithmetic code starting at bit \<open>p\<close>: \<open>stream buf p k\<close> is
  the value of the first \<open>k\<close> bits. \<open>win\<close> says that registers of an interval \<open>lo\<close> up, \<open>r\<close> wide,
  at scale \<open>n\<close>, are \<open>s\<close> bits ahead in the stream.
\<close>

definition stream :: "u8 list \<Rightarrow> nat \<Rightarrow> nat \<Rightarrow> nat" where
  "stream buf p = bits_at (sbit buf) p"

lemma prefixes_stream: "prefixes (stream buf p)"
  unfolding stream_def by (rule prefixes_bits_at)

lemma stream_add: "stream buf p (k + j) = stream buf p k * 2 ^ j + bits_at (sbit buf) (p + k) j"
  by (simp add: stream_def bits_at_add)

definition win :: "u8 list \<Rightarrow> nat \<Rightarrow> nat \<Rightarrow> nat \<Rightarrow> nat \<Rightarrow> nat \<Rightarrow> u32 \<Rightarrow> u32 \<Rightarrow> bitstrm \<Rightarrow> bool" where
  "win buf p s n lo r rng ofst bs \<longleftrightarrow> rd_inv bs \<and> pu1_buf_base bs = buf \<and> s \<le> 22 \<and> r < 512 \<and> 0 < r \<and>
     rd_pos bs = p + (9 + n + s) \<and> unat rng = r * 2 ^ s \<and>
     lo * 2 ^ s + unat ofst = stream buf p (9 + n + s)"

definition fits :: "u8 list \<Rightarrow> nat \<Rightarrow> nat \<Rightarrow> bool" where
  "fits buf p n \<longleftrightarrow> p + n + 95 \<le> 8 * length buf"

definition dec_rel :: "u8 list \<Rightarrow> nat \<Rightarrow> ac \<Rightarrow> cab_ctxt \<Rightarrow> bitstrm \<Rightarrow> bool" where
  "dec_rel buf p st d bs \<longleftrightarrow>
     (\<exists>s. win buf p s (ac_n st) (ac_low st) (ac_range st) (u4_range d) (u4_ofst d) bs) \<and>
     map unat (au1_ctxt_models d) = ac_ctx st \<and> length (ac_ctx st) = IHEVC_CAB_CTXT_END \<and>
     tabs.ac_ok st"

lemma nbits_shift: "0 < r \<Longrightarrow> nbits (r * 2 ^ s) = nbits r + s"
proof -
  assume r: "0 < r"
  then have b: "2 ^ (nbits r - 1) \<le> r" "r < 2 ^ nbits r" "0 < nbits r" using nbits_bounds by auto
  obtain k where k: "nbits r = Suc k" using b(3) by (cases "nbits r") auto
  have "2 ^ k * 2 ^ s \<le> r * 2 ^ s" "r * 2 ^ s < 2 ^ Suc k * 2 ^ s" using b(1,2) k by simp_all
  then have "nbits (r * 2 ^ s) = Suc (k + s)"
    by (intro nbits_unique) (simp_all add: power_add)
  then show ?thesis using k by simp
qed

text \<open>The bits of the offset register keep below the range.\<close>

lemma win_ofst:
  assumes "win buf p s n lo r rng ofst bs"
  shows "unat ofst < r * 2 ^ s \<longleftrightarrow> stream buf p (9 + n) < lo + r"
    and "unat x = a * 2 ^ s \<Longrightarrow> x \<le> ofst \<longleftrightarrow> lo + a \<le> stream buf p (9 + n)"
    and "r * 2 ^ s < 2 ^ 31" and "unat rng = r * 2 ^ s"
proof -
  have e: "lo * 2 ^ s + unat ofst = stream buf p (9 + n + s)" "s \<le> 22" "r < 512" "unat rng = r * 2 ^ s"
    using assms by (auto simp: win_def)
  note T = prefixes_less [OF prefixes_stream, of buf p "9 + n" s] prefixes_le [OF prefixes_stream, of _ s buf p "9 + n"]
  show "unat ofst < r * 2 ^ s \<longleftrightarrow> stream buf p (9 + n) < lo + r"
    unfolding T(1) [symmetric] e(1) [symmetric] by (simp add: algebra_simps)
  show "x \<le> ofst \<longleftrightarrow> lo + a \<le> stream buf p (9 + n)" if "unat x = a * 2 ^ s"
    unfolding T(2) [symmetric] e(1) [symmetric] by (simp add: algebra_simps word_le_nat_alt that)
  have "(2::nat) ^ s \<le> 2 ^ 22" using e(2) by (intro power_increasing) simp_all
  then have "r * 2 ^ s < 512 * 2 ^ 22" using e(3) by (intro mult_less_le_imp_less) simp_all
  then show "r * 2 ^ s < 2 ^ 31" by simp
  show "unat rng = r * 2 ^ s" by (rule e(4))
qed

lemma win_clz:
  assumes "win buf p s n lo r rng ofst bs"
  shows "unat (CLZ rng) = 23 + norm_shift r - s" "s \<le> 22" "norm_shift r \<le> 8" "norm_shift r = 9 - nbits r"
    "1 \<le> nbits r" "nbits r \<le> 9"
proof -
  have w: "s \<le> 22" "r < 512" "0 < r" "unat rng = r * 2 ^ s" using assms by (auto simp: win_def)
  have b: "1 \<le> nbits r" "nbits r \<le> 9" using nbits_bounds [OF w(3)] nbits_le [OF w(3), of 9] w(2) by auto
  have "rng \<noteq> 0" using w(3,4) by (metis mult_eq_0_iff power_not_zero unat_0 zero_neq_numeral less_irrefl)
  then have "unat (CLZ rng) = 32 - (nbits r + s)" using CLZ_nbits [of rng] w nbits_shift by simp
  then show "unat (CLZ rng) = 23 + norm_shift r - s" using b by (simp add: norm_shift_def)
  show "s \<le> 22" "norm_shift r \<le> 8" "norm_shift r = 9 - nbits r" "1 \<le> nbits r" "nbits r \<le> 9"
    using w b by (auto simp: norm_shift_def)
qed

lemma pow_shift: "s + k = a + b \<Longrightarrow> x * 2 ^ s * 2 ^ k = (x :: nat) * 2 ^ a * 2 ^ b"
  by (metis mult.assoc power_add)

text \<open>Renormalising, by doing nothing or by refilling.\<close>

lemma win_keep:
  assumes w: "win buf p s n lo r rng ofst bs" and big: "256 \<le> unat rng"
  shows "win buf p (s - norm_shift r) (n + norm_shift r) (lo * 2 ^ norm_shift r) (r * 2 ^ norm_shift r) rng ofst bs"
    and "norm_shift r \<le> s"
proof -
  have W: "s \<le> 22" "r < 512" "0 < r" "unat rng = r * 2 ^ s" using w by (auto simp: win_def)
  note c = win_clz [OF w]
  have "r * 2 ^ s < 2 ^ (nbits r) * 2 ^ s" using nbits_bounds [OF W(3)] by simp
  then have "256 < (2::nat) ^ (nbits r) * 2 ^ s" using big W(4) by linarith
  then have "2 ^ 8 < (2::nat) ^ (nbits r + s)" by (simp add: power_add)
  then have "8 < nbits r + s" by (metis power_less_imp_less_exp one_less_numeral_iff semiring_norm(76))
  then show sh: "norm_shift r \<le> s" using c(4) by simp
  then obtain t where t: "s = norm_shift r + t" using le_Suc_ex by blast
  show "win buf p (s - norm_shift r) (n + norm_shift r) (lo * 2 ^ norm_shift r) (r * 2 ^ norm_shift r) rng ofst bs"
    using w norm_shift [OF W(3,2)] t by (auto simp: win_def power_add algebra_simps)
qed

lemma win_renorm:
  assumes w: "win buf p s n lo r rng ofst bs" and lt: "ofst < rng" and nb: "unat nb = 22 + norm_shift r - s" "nb \<noteq> 0"
    and fits: "fits buf p (n + norm_shift r)"
  shows "\<exists>rng' ofst' bs'. dec_renorm nb rng ofst bs = Some (rng', ofst', bs') \<and>
    win buf p 22 (n + norm_shift r) (lo * 2 ^ norm_shift r) (r * 2 ^ norm_shift r) rng' ofst' bs'"
proof -
  have W: "rd_inv bs" "pu1_buf_base bs = buf" "s \<le> 22" "r < 512" "0 < r" "unat rng = r * 2 ^ s"
      "rd_pos bs = p + (9 + n + s)" "lo * 2 ^ s + unat ofst = stream buf p (9 + n + s)"
    using w by (auto simp: win_def)
  define k where "k = 22 + norm_shift r - s"
  note c = win_clz [OF w]
  have k: "s + k = 22 + norm_shift r" "k \<le> 30" "0 < k" "unat nb = k"
  proof -
    have "0 < unat nb" using nb(2) by (simp add: unat_gt_0)
    then show "s + k = 22 + norm_shift r" "k \<le> 30" "0 < k" "unat nb = k"
      using c(2,3) nb(1) by (simp_all add: k_def)
  qed
  have room: "rd_room bs k" using fits W(2,7) k(1) by (simp add: rd_room_def fits_def)
  obtain v bs' where g: "BITS_GET nb bs = Some (v, bs')" "rd_at bs (rd_pos bs + k) bs'"
      "unat v = bits_at (rd_bits bs) (rd_pos bs) k"
    using BITS_GET_spec [OF W(1), of nb] room k by auto
  have R: "r * 2 ^ s * 2 ^ k = r * 2 ^ norm_shift r * 2 ^ 22"
    by (rule pow_shift) (use k(1) in simp)
  have R31: "r * 2 ^ norm_shift r * 2 ^ 22 < 2 ^ 31" using norm_shift [OF W(5,4)] by simp
  then have rb: "unat rng * 2 ^ k < 2 ^ 31" unfolding W(6) R .
  have "unat ofst * 2 ^ k < 2 ^ 31"
  proof -
    have "unat ofst * 2 ^ k < unat rng * 2 ^ k" using lt by (simp add: word_less_nat_alt)
    then show ?thesis using rb by linarith
  qed
  then have o: "unat ofst * 2 ^ k < 2 ^ 32" "unat rng * 2 ^ k < 2 ^ 32" using rb by simp_all
  have n32: "nb < 32" using k by (simp add: word_less_nat_alt)
  have v: "unat v < 2 ^ k" unfolding g(3) by (rule bits_at_less)
  have "dec_renorm nb rng ofst bs = Some (push_bit k rng, push_bit k ofst OR v, bs')"
    using g(1) n32 k(4) by (simp add: dec_renorm_def)
  moreover have "unat (push_bit k rng) = r * 2 ^ norm_shift r * 2 ^ 22"
    using unat_push_u32 [OF o(2)] W(6) R by simp
  moreover have "unat (push_bit k ofst OR v) = unat ofst * 2 ^ k + unat v"
    using push_or_unat [OF v o(1)] .
  moreover have "lo * 2 ^ norm_shift r * 2 ^ 22 + (unat ofst * 2 ^ k + unat v) =
      stream buf p (9 + (n + norm_shift r) + 22)"
  proof -
    have e: "9 + (n + norm_shift r) + 22 = 9 + n + s + k" using k(1) by simp
    have l: "lo * 2 ^ norm_shift r * 2 ^ 22 = lo * 2 ^ s * 2 ^ k"
      by (rule pow_shift) (use k(1) in simp)
    have "bits_at (sbit buf) (p + (9 + n + s)) k = unat v" using g(3) W(2,7) by simp
    then show ?thesis unfolding e l stream_add [of buf p "9 + n + s" k] W(8) [symmetric]
      by (simp add: add_mult_distrib)
  qed
  ultimately show ?thesis
    using g(2) W(2,5,7) k(1) norm_shift [OF W(5,4)] by (auto simp: win_def rd_at_def)
qed

section \<open>Decoding one bin\<close>

lemma dec_relE:
  assumes "dec_rel buf p st d bs"
  obtains s where "win buf p s (ac_n st) (ac_low st) (ac_range st) (u4_range d) (u4_ofst d) bs"
    "map unat (au1_ctxt_models d) = ac_ctx st" "length (ac_ctx st) = IHEVC_CAB_CTXT_END"
    "tabs.ac_ok st"
  using assms by (auto simp: dec_rel_def)

lemma win_sub:
  assumes w: "win buf p s n lo r rng ofst bs" and lr: "a + r' \<le> r" "0 < r'"
    and l: "unat rng' = r' * 2 ^ s" and o: "unat ofst = a * 2 ^ s + unat ofst'"
  shows "win buf p s n (lo + a) r' rng' ofst' bs"
  using assms by (auto simp: win_def algebra_simps)

text \<open>Registers of a selected part, refilled when the range is short.\<close>

lemma win_select:
  assumes w: "win buf p s (ac_n st) (ac_low st + a) r rng ofst bs" and lt: "ofst < rng"
    and fits: "fits buf p (ac_n (ac_select a r st))"
  shows "\<exists>rng' ofst' bs' s'.
    (if rng < 256 then dec_renorm (CLZ rng - (32 - RANGE_NUMBITS)) rng ofst bs
     else Some (rng, ofst, bs)) = Some (rng', ofst', bs') \<and>
    win buf p s' (ac_n (ac_select a r st)) (ac_low (ac_select a r st)) (ac_range (ac_select a r st))
      rng' ofst' bs'"
proof -
  have sel: "ac_n (ac_select a r st) = ac_n st + norm_shift r"
      "ac_low (ac_select a r st) = (ac_low st + a) * 2 ^ norm_shift r"
      "ac_range (ac_select a r st) = r * 2 ^ norm_shift r"
    by (simp_all add: ac_select_def Let_def)
  show ?thesis
  proof (cases "rng < 256")
    case False
    then have "256 \<le> unat rng" by (simp add: not_less word_le_nat_alt)
    then show ?thesis using win_keep(1) [OF w] False by (auto simp: sel)
  next
    case True
    note c = win_clz [OF w]
    have W: "0 < r" "unat rng = r * 2 ^ s" using w by (auto simp: win_def)
    have "unat (CLZ rng - 1) = 22 + norm_shift r - s"
      using c(1,2) by (simp add: unat_sub_u32)
    moreover have "nbits r + s \<le> 8"
    proof -
      have "2 ^ (nbits r - 1) * 2 ^ s \<le> unat rng" using W nbits_bounds [OF W(1)] by simp
      also have "\<dots> < 2 ^ 8" using True by (simp add: word_less_nat_alt)
      finally have "2 ^ (nbits r - 1 + s) < (2::nat) ^ 8" by (simp add: power_add)
      then have "nbits r - 1 + s < 8" by (metis power_less_imp_less_exp one_less_numeral_iff semiring_norm(76))
      then show ?thesis using c(5) by simp
    qed
    moreover from this have "22 + norm_shift r - s \<noteq> 0" using c(4) by simp
    ultimately have "unat (CLZ rng - 1) = 22 + norm_shift r - s" "CLZ rng - 1 \<noteq> 0"
      by (simp, metis unat_0)
    from win_renorm [OF w lt this] fits True show ?thesis by (auto simp: sel)
  qed
qed

lemma qnt_range:
  assumes w: "win buf p s n lo r rng ofst bs" and r: "256 \<le> r"
  shows "\<exists>q. shl32 rng (CLZ rng - 1) = Some q \<and>
    unat (drop_bit 28 q AND 3) = r div 64 mod 4 \<and>
    (RANGE_SHIFT - (CLZ rng - 1)) = word_of_nat s"
proof -
  note c = win_clz [OF w]
  have W: "r < 512" "unat rng = r * 2 ^ s" using w by (auto simp: win_def)
  have "nbits r = 9" using nbits_unique [of 8 r] r W(1) by simp
  then have n: "norm_shift r = 0" by (simp add: norm_shift_def)
  have u: "unat (CLZ rng - 1) = 22 - s" using c(1,2) n by (simp add: unat_sub_u32)
  have m: "r * 2 ^ s * 2 ^ (22 - s) = r * 2 ^ 22"
    using c(2) by (simp add: mult.assoc flip: power_add)
  obtain q where q: "shl32 rng (CLZ rng - 1) = Some q" "unat q = r * 2 ^ 22"
  proof -
    have "22 - s < 32" by arith
    then show thesis using shl32_unat [of "CLZ rng - 1" rng] u W m that by auto
  qed
  have "unat (drop_bit 28 q AND 3) = r * 2 ^ 22 div 2 ^ 28 mod 4"
    by (simp only: and_3_u32 unat_drop_u32 q(2))
  also have "r * 2 ^ 22 div 2 ^ 28 = r div 64"
    using div_mult_mult2 [of "2 ^ 22 :: nat" r 64] by simp
  finally have "unat (drop_bit 28 q AND 3) = r div 64 mod 4" .
  moreover have "22 - (CLZ rng - 1) = word_of_nat s"
  proof -
    have "22 - x = word_of_nat s" if "unat x = 22 - s" for x :: u32
      using that c(2) by (simp add: word_unat_eq_iff unat_sub_u32)
    then show ?thesis using u .
  qed
  ultimately show ?thesis using q(1) by simp
qed

lemma decode_bin_spec:
  assumes rel: "dec_rel buf p st d bs" and c: "c < IHEVC_CAB_CTXT_END"
    and ins: "inside (stream buf p) (tabs.ac_step (Ctx c b) st)"
    and fits: "fits buf p (ac_n (tabs.ac_step (Ctx c b) st))"
  shows "\<exists>d' bs'. ihevcd_cabac_decode_bin d bs c = Some (of_bool b, d', bs') \<and>
    dec_rel buf p (tabs.ac_step (Ctx c b) st) d' bs'"
proof (rule dec_relE [OF rel])
  fix s assume w: "win buf p s (ac_n st) (ac_low st) (ac_range st) (u4_range d) (u4_ofst d) bs"
    and ctx: "map unat (au1_ctxt_models d) = ac_ctx st" "length (ac_ctx st) = IHEVC_CAB_CTXT_END"
    and ok: "tabs.ac_ok st"
  let ?m = "au1_ctxt_models d ! c" and ?R = "ac_range st"
  let ?l = "tabs.lps_range (unat ?m) ?R"
  have len: "c < length (au1_ctxt_models d)" using c ctx by (metis length_map)
  have m: "ac_ctx st ! c = unat ?m" using len ctx(1) by (metis nth_map)
  have m128: "unat ?m < 128" using tabs.ac_okD(3) [OF ok, of c] c ctx(2) m by simp
  note R = tabs.ac_okD(1,2) [OF ok]
  note l = tabs.lps_range_bounds [OF m128 R]
  obtain q where q: "shl32 (u4_range d) (CLZ (u4_range d) - 1) = Some q"
      "unat (drop_bit 28 q AND 3) = ?R div 64 mod 4" "22 - (CLZ (u4_range d) - 1) = word_of_nat s"
    using qnt_range [OF w R(1)] by auto
  have q4: "unat (drop_bit 28 q AND 3) < 4" unfolding q(2) by simp
  note mt = model_tables [OF m128 q4]
  have num: "(32 :: u32) - 31 = 1" "(22 :: u32) + 6 = 28" by simp_all
  have sh: "shr32 q 28 = Some (drop_bit 28 q)" by (simp add: word_less_nat_alt)
  let ?t = "gau1_ihevc_cabac_rlps ! (unat ?m div 2) ! unat (drop_bit 28 q AND 3)"
  have t: "unat (ucast ?t :: u32) = ?l"
    by (simp only: unat_ucast_u8 tabs.lps_range_def rlps_table_def q(2))
  have ws: "s \<le> 22" "unat (u4_range d) = ?R * 2 ^ s" "?R * 2 ^ s < 2 ^ 31"
    using w win_ofst(3) [OF w] by (auto simp: win_def)
  have "?l * 2 ^ s \<le> ?R * 2 ^ s" using l by (intro mult_le_mono1) simp
  then have "?l * 2 ^ s < 2 ^ 31" using ws(3) by (rule le_less_trans)
  then have "?l * 2 ^ s < 2 ^ 32" by simp
  then obtain rl where rl: "shl32 (ucast ?t) (word_of_nat s) = Some rl" "unat rl = ?l * 2 ^ s"
    using shl32_unat [of "word_of_nat s" "ucast ?t"] ws t by auto
  have "unat (u4_range d - rl) = (?R - ?l) * 2 ^ s"
    using l ws(2) rl(2) by (simp add: unat_sub_u32 diff_mult_distrib)
  moreover define mps where "mps = u4_range d - rl"
  ultimately have mps: "unat mps = (?R - ?l) * 2 ^ s" by simp
  have dec: "mps \<le> u4_ofst d \<longleftrightarrow> b \<noteq> odd (unat ?m)"
    using win_ofst(2) [OF w mps] tabs.inside_bin [OF prefixes_stream ok _ ins] c ctx(2) m by simp
  define a r where "a = (if odd (unat ?m) = b then 0 else ?R - ?l)" and "r = (if odd (unat ?m) = b then ?R - ?l else ?l)"
  define rng ofst where "rng = (if odd (unat ?m) = b then mps else rl)"
    and "ofst = (if odd (unat ?m) = b then u4_ofst d else u4_ofst d - mps)"
  have step: "tabs.ac_step (Ctx c b) st =
      (ac_select a r st) \<lparr> ac_ctx := (ac_ctx st)[c := next_table (2 * unat ?m + of_bool b)] \<rparr>"
    by (simp add: a_def r_def m Let_def)
  have w2: "win buf p s (ac_n st) (ac_low st + a) r rng ofst bs"
  proof (rule win_sub [OF w])
    show "a + r \<le> ?R" "0 < r" "unat rng = r * 2 ^ s"
      using l mps rl(2) by (auto simp: a_def r_def rng_def)
    show "unat (u4_ofst d) = a * 2 ^ s + unat ofst"
      using dec mps by (auto simp: a_def ofst_def word_le_nat_alt unat_sub_u32)
  qed
  have ins2: "inside (stream buf p) (ac_select a r st)" using ins step by (simp add: inside_def)
  then have "stream buf p (9 + ac_n st) < ac_low st + a + r"
    by (simp add: inside_select [OF prefixes_stream])
  then have lt: "ofst < rng"
    using win_ofst(1,4) [OF w2] by (simp add: word_less_nat_alt)
  have fits2: "fits buf p (ac_n (ac_select a r st))" using fits step by simp
  obtain rng' ofst' bs' s' where fin: "(if rng < 256 then dec_renorm (CLZ rng - (32 - RANGE_NUMBITS)) rng ofst bs
      else Some (rng, ofst, bs)) = Some (rng', ofst', bs')"
    "win buf p s' (ac_n (ac_select a r st)) (ac_low (ac_select a r st)) (ac_range (ac_select a r st)) rng' ofst' bs'"
    using win_select [OF w2 lt fits2] by blast
  obtain v where v: "rd gau1_ihevc_next_state (unat (push_bit 1 (ucast ?m :: u32) OR of_bool b)) = Some v"
      "unat v = next_table (2 * unat ?m + of_bool b)"
    using mt(5) [of "of_bool b"] by auto
  let ?d = "d \<lparr> au1_ctxt_models := (au1_ctxt_models d)[c := v], u4_range := rng', u4_ofst := ofst' \<rparr>"
  have big: "256 \<le> u4_range d"
  proof -
    have "256 * 1 \<le> ?R * 2 ^ s" using R(1) by (intro mult_le_mono) simp_all
    then show ?thesis using ws(2) by (simp add: word_le_nat_alt)
  qed
  have bin: "(if mps \<le> u4_ofst d then (1 - ((ucast ?m :: u32) AND 1), u4_ofst d - mps, rl) else ((ucast ?m :: u32) AND 1, u4_ofst d, mps))
      = (of_bool b, ofst, rng)"
    using dec mt(2) by (auto simp: ofst_def rng_def)
  have "ihevcd_cabac_decode_bin d bs c = Some (of_bool b, ?d, bs')"
    unfolding ihevcd_cabac_decode_bin_def
    by (simp only: Let_def num rd_in [OF len] bind.bind_lunit bind_require(1) [OF big] bind_require(1) [OF c]
      bind_require(1) [OF mt(6)] q(1,3) sh mt(1) mt(3) mt(4) rl(1) bin [unfolded mps_def] prod.case v(1) fin(1) [unfolded num])
  moreover have "dec_rel buf p (tabs.ac_step (Ctx c b) st) ?d bs'"
    unfolding dec_rel_def using fin(2) tabs.ac_step_ok [OF ok, of "Ctx c b"] c ctx v(2)
    by (auto simp: step map_update simp del: tabs.ac_step.simps)
  ultimately show ?thesis by blast
qed

section \<open>Bypass bins, the terminating bin, and the start\<close>

lemma dec_rel_big:
  assumes "win buf p s n lo r rng ofst bs" "256 \<le> r"
  shows "rng \<ge> 256"
proof -
  have "256 * 1 \<le> r * 2 ^ s" using assms(2) by (intro mult_le_mono) simp_all
  then show ?thesis using assms(1) by (simp add: win_def word_le_nat_alt)
qed

text \<open>The offset register alone, \<open>s\<close> bits ahead, and what one more bit does to it.\<close>

definition ofs :: "u8 list \<Rightarrow> nat \<Rightarrow> nat \<Rightarrow> ac \<Rightarrow> u32 \<Rightarrow> u32 \<Rightarrow> bool" where
  "ofs buf p s st rng ofst \<longleftrightarrow> s \<le> 22 \<and> tabs.ac_ok st \<and> unat rng = ac_range st * 2 ^ s \<and>
     ac_low st * 2 ^ s + unat ofst = stream buf p (9 + ac_n st + s)"

lemma ofs_win:
  assumes "tabs.ac_ok st"
  shows "win buf p s (ac_n st) (ac_low st) (ac_range st) rng ofst bs \<longleftrightarrow>
    ofs buf p s st rng ofst \<and> rd_inv bs \<and> pu1_buf_base bs = buf \<and> rd_pos bs = p + (9 + ac_n st + s)"
  using assms tabs.ac_okD(1,2) [OF assms] by (auto simp: win_def ofs_def)

lemma ofs_bypass:
  assumes o: "ofs buf p s st rng ofst" and x: "x = of_bool (sbit buf (p + (9 + ac_n st + s)))"
    and ins: "inside (stream buf p) (tabs.ac_step (Byp b) st)"
  shows "rng \<le> push_bit 1 ofst OR x \<longleftrightarrow> b"
    and "ofs buf p s (tabs.ac_step (Byp b) st) rng
      (if b then (push_bit 1 ofst OR x) - rng else push_bit 1 ofst OR x)"
proof -
  let ?R = "ac_range st" and ?n = "ac_n st" and ?o = "push_bit 1 ofst OR x"
  have W: "s \<le> 22" "unat rng = ?R * 2 ^ s" "ac_low st * 2 ^ s + unat ofst = stream buf p (9 + ?n + s)"
    and ok: "tabs.ac_ok st"
    using o by (auto simp: ofs_def)
  note T = prefixes_less [OF prefixes_stream, of buf p _ s] prefixes_le [OF prefixes_stream, of _ s buf p]
  have "inside (stream buf p) st"
    by (rule tabs.inside_step [OF prefixes_stream ok _ ins]) simp
  then have "unat ofst < ?R * 2 ^ s"
    using T(1) [of "9 + ?n" "ac_low st + ?R"] W(3) by (simp add: inside_def add_mult_distrib)
  moreover have "?R * 2 ^ s < 512 * 2 ^ 22"
    using tabs.ac_okD(2) [OF ok] W(1) by (intro mult_less_le_imp_less power_increasing) simp_all
  ultimately have "unat ofst < 2 ^ 31" by simp
  moreover have "unat x < 2 ^ 1" by (simp add: x)
  ultimately have uo: "unat ?o = unat ofst * 2 + unat x"
    using push_or_unat [of x 1 ofst] by simp
  have e: "9 + (?n + 1) + s = 9 + ?n + s + 1" by simp
  have S: "2 * ac_low st * 2 ^ s + unat ?o = stream buf p (9 + (?n + 1) + s)"
    unfolding e stream_add [of buf p "9 + ?n + s" 1] W(3) [symmetric] uo by (simp add: x algebra_simps)
  have "2 * ac_low st + ?R \<le> stream buf p (9 + (?n + 1)) \<longleftrightarrow> rng \<le> ?o"
    using T(2) [of "2 * ac_low st + ?R" "9 + (?n + 1)"] unfolding S [symmetric] add_mult_distrib
    by (simp add: word_le_nat_alt W(2))
  then show dec: "rng \<le> ?o \<longleftrightarrow> b"
    using ins tabs.ac_okD(1) [OF ok] by (auto simp: inside_def split: if_splits)
  have "unat (?o - rng) = unat ?o - unat rng" "unat rng \<le> unat ?o" if b
    using dec that by (auto simp: word_le_nat_alt unat_sub_u32)
  then show "ofs buf p s (tabs.ac_step (Byp b) st) rng (if b then ?o - rng else ?o)"
    using S W tabs.ac_step_ok [OF ok, of "Byp b"] by (auto simp: ofs_def algebra_simps)
qed

lemma decode_bypass_bin_spec:
  assumes rel: "dec_rel buf p st d bs"
    and ins: "inside (stream buf p) (tabs.ac_step (Byp b) st)"
    and fits: "fits buf p (ac_n (tabs.ac_step (Byp b) st))"
  shows "\<exists>d' bs'. ihevcd_cabac_decode_bypass_bin d bs = Some (of_bool b, d', bs') \<and>
    dec_rel buf p (tabs.ac_step (Byp b) st) d' bs'"
proof (rule dec_relE [OF rel])
  fix s assume w: "win buf p s (ac_n st) (ac_low st) (ac_range st) (u4_range d) (u4_ofst d) bs"
    and ctx: "map unat (au1_ctxt_models d) = ac_ctx st" "length (ac_ctx st) = IHEVC_CAB_CTXT_END"
    and ok: "tabs.ac_ok st"
  have W: "ofs buf p s st (u4_range d) (u4_ofst d)" "rd_inv bs" "pu1_buf_base bs = buf"
      "rd_pos bs = p + (9 + ac_n st + s)" "s \<le> 22"
    using w unfolding ofs_win [OF ok] by (auto simp: ofs_def)
  have room: "rd_room bs 1" using fits W(3-5) by (simp add: rd_room_def fits_def)
  obtain x bs' where g: "BIT_GET bs = Some (x, bs')" "rd_at bs (rd_pos bs + 1) bs'"
      "x = of_bool (sbit buf (p + (9 + ac_n st + s)))"
    using BIT_GET_spec [OF W(2) room] W(3,4) by auto
  note b = ofs_bypass [OF W(1) g(3) ins]
  let ?o = "push_bit 1 (u4_ofst d) OR x"
  let ?d = "d \<lparr> u4_ofst := (if b then ?o - u4_range d else ?o) \<rparr>"
  have "(if u4_range d \<le> ?o then (1 :: u32, ?o - u4_range d) else (0, ?o)) =
      (of_bool b, if b then ?o - u4_range d else ?o)"
    using b(1) by auto
  then have "ihevcd_cabac_decode_bypass_bin d bs = Some (of_bool b, ?d, bs')"
    unfolding ihevcd_cabac_decode_bypass_bin_def
    by (simp only: Let_def bind_require(1) [OF dec_rel_big [OF w tabs.ac_okD(1) [OF ok]]] g(1)
      bind.bind_lunit prod.case)
  moreover have ok': "tabs.ac_ok (tabs.ac_step (Byp b) st)"
    using tabs.ac_step_ok [OF ok, of "Byp b"] by simp
  have "win buf p s (ac_n (tabs.ac_step (Byp b) st)) (ac_low (tabs.ac_step (Byp b) st))
      (ac_range (tabs.ac_step (Byp b) st)) (u4_range ?d) (u4_ofst ?d) bs'"
    unfolding ofs_win [OF ok'] using b(2) g(2) W(3,4) by (simp add: rd_at_def)
  then have "dec_rel buf p (tabs.ac_step (Byp b) st) ?d bs'"
    unfolding dec_rel_def using ok' ctx by auto
  ultimately show ?thesis by auto
qed

lemma terminate_range:
  assumes w: "win buf p s n lo r rng ofst bs" and r: "256 \<le> r" "r < 512"
  shows "\<exists>two. shl32 2 (22 - (CLZ rng - 1)) = Some two \<and> unat (rng - two) = (r - 2) * 2 ^ s"
proof -
  obtain q where q: "22 - (CLZ rng - 1) = word_of_nat s" using qnt_range [OF w r(1)] by auto
  have s: "s \<le> 22" "unat rng = r * 2 ^ s" using w by (auto simp: win_def)
  have "(2::nat) ^ s \<le> 2 ^ 22" using s(1) by (intro power_increasing) simp_all
  then have "2 * (2::nat) ^ s < 2 ^ 32" by simp
  then obtain two where two: "shl32 2 (word_of_nat s) = Some two" "unat two = 2 * 2 ^ s"
    using shl32_unat [of "word_of_nat s" 2] s(1) by auto
  have "2 * 2 ^ s \<le> r * 2 ^ s" using r by (intro mult_le_mono1) simp
  then have "unat (rng - two) = (r - 2) * 2 ^ s"
    using s(2) two(2) by (simp add: unat_sub_u32 diff_mult_distrib)
  then show ?thesis using q two(1) by simp
qed

lemma decode_terminate_0_spec:
  assumes rel: "dec_rel buf p st d bs"
    and ins: "inside (stream buf p) (tabs.ac_step Trm st)"
    and fits: "fits buf p (ac_n (tabs.ac_step Trm st))"
  shows "\<exists>d' bs'. ihevcd_cabac_decode_terminate d bs = Some (0, d', bs') \<and>
    dec_rel buf p (tabs.ac_step Trm st) d' bs'"
proof (rule dec_relE [OF rel])
  fix s assume w: "win buf p s (ac_n st) (ac_low st) (ac_range st) (u4_range d) (u4_ofst d) bs"
    and ctx: "map unat (au1_ctxt_models d) = ac_ctx st" "length (ac_ctx st) = IHEVC_CAB_CTXT_END"
    and ok: "tabs.ac_ok st"
  let ?r = "ac_range st - 2"
  note R = tabs.ac_okD(1,2) [OF ok]
  obtain two where two: "shl32 2 (22 - (CLZ (u4_range d) - 1)) = Some two" "unat (u4_range d - two) = ?r * 2 ^ s"
    using terminate_range [OF w R] by blast
  define rng where "rng = u4_range d - two"
  have w2: "win buf p s (ac_n st) (ac_low st) ?r rng (u4_ofst d) bs"
    using win_sub [OF w, of 0 ?r rng "u4_ofst d"] R two(2) by (simp add: rng_def)
  have "stream buf p (9 + ac_n st) < ac_low st + ?r"
    using ins by (simp add: inside_select [OF prefixes_stream])
  then have lt: "u4_ofst d < rng"
    using win_ofst(1,4) [OF w2] by (simp add: word_less_nat_alt)
  note c = win_clz [OF w2]
  have nb: "unat (CLZ rng - 1) = 22 + norm_shift ?r - s" using c(1,2) by (simp add: unat_sub_u32)
  have sel: "tabs.ac_step Trm st = ac_select 0 ?r st" by simp
  obtain rng' ofst' bs' s' where fin: "(if CLZ rng - 1 \<noteq> 0 then dec_renorm (CLZ rng - 1) rng (u4_ofst d) bs
      else Some (rng, u4_ofst d, bs)) = Some (rng', ofst', bs')"
    "win buf p s' (ac_n (ac_select 0 ?r st)) (ac_low (ac_select 0 ?r st)) (ac_range (ac_select 0 ?r st)) rng' ofst' bs'"
  proof (cases "CLZ rng - 1 = 0")
    case True
    then have "s = 22" "norm_shift ?r = 0" using nb c(2,3) by auto
    then show ?thesis using w2 True that by (auto simp: ac_select_def Let_def)
  next
    case False
    have "fits buf p (ac_n st + norm_shift ?r)" using fits by (simp add: ac_select_def Let_def)
    from win_renorm [OF w2 lt nb False this] show ?thesis using False that
      by (auto simp: ac_select_def Let_def)
  qed
  have num: "(32 :: u32) - 31 = 1" by simp
  have nle: "(rng \<le> u4_ofst d) = False" using lt by simp
  have "ihevcd_cabac_decode_terminate d bs = Some (0, d \<lparr> u4_range := rng', u4_ofst := ofst' \<rparr>, bs')"
    unfolding ihevcd_cabac_decode_terminate_def
    by (simp only: Let_def num bind_require(1) [OF dec_rel_big [OF w R(1)]] two(1) bind.bind_lunit rng_def [symmetric] nle if_False fin(1) prod.case)
  moreover have "dec_rel buf p (tabs.ac_step Trm st) (d \<lparr> u4_range := rng', u4_ofst := ofst' \<rparr>) bs'"
    unfolding dec_rel_def using fin(2) ctx tabs.ac_step_ok [OF ok, of Trm] by auto
  ultimately show ?thesis by auto
qed

lemma decode_terminate_1_spec:
  assumes rel: "dec_rel buf p st d bs" and ins: "inside (stream buf p) (tabs.ac_end st)"
  shows "\<exists>d' bs'. ihevcd_cabac_decode_terminate d bs = Some (1, d', bs') \<and>
    rd_at bs (p + 9 + ac_n st) bs'"
proof (rule dec_relE [OF rel])
  fix s assume w: "win buf p s (ac_n st) (ac_low st) (ac_range st) (u4_range d) (u4_ofst d) bs"
    and ok: "tabs.ac_ok st"
  let ?r = "ac_range st - 2"
  note R = tabs.ac_okD(1,2) [OF ok]
  obtain two where two: "shl32 2 (22 - (CLZ (u4_range d) - 1)) = Some two" "unat (u4_range d - two) = ?r * 2 ^ s"
    using terminate_range [OF w R] by blast
  have "ac_low st + ?r \<le> stream buf p (9 + ac_n st)"
    using ins by (simp add: tabs.ac_end_def inside_select [OF prefixes_stream])
  then have le: "(u4_range d - two \<le> u4_ofst d) = True"
    using win_ofst(2) [OF w two(2)] by simp
  note c = win_clz [OF w]
  have "nbits (ac_range st) = 9" using nbits_unique [of 8 "ac_range st"] R by simp
  then have "unat (CLZ (u4_range d)) = 23 - s" using c(1,4) by simp
  then have "unat (32 - CLZ (u4_range d)) = 9 + s"
    using c(2) by (subst unat_sub_u32) simp_all
  then have "unat (32 - CLZ (u4_range d) - 9) = s" by (subst unat_sub_u32) simp_all
  then have "32 - CLZ (u4_range d) - 9 = word_of_nat s" using c(2) by (simp add: word_unat_eq_iff)
  moreover have "sint (word_of_nat s :: u32) = int s" using c(2) by (intro sint_small_nat) simp
  ultimately have nb: "sint (32 - CLZ (u4_range d) - 9) = int s" by simp
  have W: "rd_inv bs" "rd_pos bs = p + (9 + ac_n st + s)" using w by (auto simp: win_def)
  obtain bs' where sk: "ihevcd_bits_seek bs (- int s) = Some bs'" "rd_at bs (rd_pos bs - s) bs'"
    using bits_seek_back_spec [OF W(1), of s] c(2) W(2) by auto
  have num: "(32 :: u32) - 31 = 1" by simp
  have "ihevcd_cabac_decode_terminate d bs =
      Some (1, d \<lparr> u4_range := u4_range d - two, u4_ofst := u4_ofst d \<rparr>, bs')"
    unfolding ihevcd_cabac_decode_terminate_def
    by (simp only: Let_def num bind_require(1) [OF dec_rel_big [OF w R(1)]] two(1) bind.bind_lunit le if_True nb sk(1))
  then show ?thesis using sk(2) W(2) by (auto simp: add.assoc)
qed

lemma cabac_start:
  assumes inv: "rd_inv bs" and base: "pu1_buf_base bs = buf" and fits: "fits buf (rd_pos bs) 0"
    and ctx: "length cs = IHEVC_CAB_CTXT_END" "\<forall>m \<in> set cs. unat m < 128"
    and ins: "inside (stream buf (rd_pos bs)) (ac_init (map unat cs))"
  obtains v bs' where "BITS_GET 31 bs = Some (v, bs')" "\<not> push_bit 22 510 \<le> v"
    "dec_rel buf (rd_pos bs) (ac_init (map unat cs))
      (d \<lparr> u4_range := push_bit 22 510, u4_ofst := v, au1_ctxt_models := cs \<rparr>) bs'"
proof -
  let ?p = "rd_pos bs" and ?st = "ac_init (map unat cs)"
  obtain v bs' where g: "BITS_GET 31 bs = Some (v, bs')" "rd_at bs (?p + 31) bs'"
      "unat v = bits_at (rd_bits bs) ?p 31"
    using BITS_GET_spec [OF inv, of 31] fits base by (auto simp: rd_room_def fits_def)
  have R: "unat (push_bit 22 510 :: u32) = 510 * 2 ^ 22" by (subst unat_push_u32) simp_all
  have ok: "tabs.ac_ok ?st" using ctx by (auto simp: ac_init_def tabs.ac_ok_def)
  have w: "win buf ?p 22 0 0 510 (push_bit 22 510) v bs'"
    using g(2,3) base R by (simp add: win_def rd_at_def stream_def)
  have "stream buf ?p 9 < 510" using ins by (simp add: inside_def ac_init_def)
  then have "\<not> push_bit 22 510 \<le> v" using win_ofst(1,4) [OF w] by (simp add: word_le_nat_alt)
  moreover have "dec_rel buf ?p ?st
      (d \<lparr> u4_range := push_bit 22 510, u4_ofst := v, au1_ctxt_models := cs \<rparr>) bs'"
    unfolding dec_rel_def using w ok ctx by (auto simp: ac_init_def)
  ultimately show thesis using that g(1) by blast
qed

lemma cabac_init_spec:
  assumes "rd_inv bs" "pu1_buf_base bs = buf" "fits buf (rd_pos bs) 0"
    and ctx: "length cs = IHEVC_CAB_CTXT_END" "\<forall>m \<in> set cs. unat m < 128"
    and "inside (stream buf (rd_pos bs)) (ac_init (map unat cs))"
    and qp: "0 \<le> qp" "qp < 52" "0 \<le> idc" "idc < 3"
  shows "\<exists>d' bs'. ihevcd_cabac_init d bs qp idc cs None = Some (CABAC_SUCCESS, d', bs') \<and>
    dec_rel buf (rd_pos bs) (ac_init (map unat cs)) d' bs'"
proof (rule cabac_start [OF assms(1-6), of d])
  fix v bs' assume "BITS_GET 31 bs = Some (v, bs')" "\<not> push_bit 22 510 \<le> v"
    "dec_rel buf (rd_pos bs) (ac_init (map unat cs))
      (d \<lparr> u4_range := push_bit 22 510, u4_ofst := v, au1_ctxt_models := cs \<rparr>) bs'"
  then show ?thesis using qp ctx by (simp add: ihevcd_cabac_init_def Let_def del: push_bit_numeral)
qed

section \<open>Decoding sequences of bins\<close>

text \<open>\<open>ahead\<close>: the stream goes on with these bins and then the terminating bin 1.\<close>

definition ahead :: "u8 list \<Rightarrow> nat \<Rightarrow> cab_ctxt \<times> bitstrm \<Rightarrow> bin_op list \<Rightarrow> bool" where
  "ahead buf p = (\<lambda>(d, bs) ops. \<exists>st. dec_rel buf p st d bs \<and>
     list_all (op_ok IHEVC_CAB_CTXT_END) ops \<and>
     inside (stream buf p) (tabs.ac_end (tabs.ac_run ops st)) \<and>
     fits buf p (ac_n (tabs.ac_run ops st)))"

lemma ac_n_step: "ac_n st \<le> ac_n (tabs.ac_step op st)"
  by (cases op) (auto simp: ac_select_def Let_def)

lemma ac_n_run: "ac_n st \<le> ac_n (tabs.ac_run ops st)"
  by (induction ops arbitrary: st) (auto intro: order_trans [OF ac_n_step])

lemma fits_mono: "fits buf p n \<Longrightarrow> m \<le> n \<Longrightarrow> fits buf p m"
  by (simp add: fits_def)

lemma dec_relD:
  assumes "dec_rel buf p st d bs"
  shows "tabs.ac_ok st" "length (ac_ctx st) = IHEVC_CAB_CTXT_END"
  using assms by (auto simp: dec_rel_def)

text \<open>What the code ahead says about a run of the next bins.\<close>

lemma aheadE:
  assumes "ahead buf p (d, bs) (xs @ ys)"
  obtains st where "dec_rel buf p st d bs" "inside (stream buf p) (tabs.ac_run xs st)"
    "fits buf p (ac_n (tabs.ac_run xs st))" "list_all (op_ok IHEVC_CAB_CTXT_END) xs"
    "\<And>d' bs'. dec_rel buf p (tabs.ac_run xs st) d' bs' \<Longrightarrow> ahead buf p (d', bs') ys"
proof -
  obtain st where st: "dec_rel buf p st d bs" "list_all (op_ok IHEVC_CAB_CTXT_END) (xs @ ys)"
      "inside (stream buf p) (tabs.ac_end (tabs.ac_run (xs @ ys) st))"
      "fits buf p (ac_n (tabs.ac_run (xs @ ys) st))"
    using assms unfolding ahead_def by auto
  note ok = dec_relD [OF st(1)]
  have okx: "tabs.ac_ok (tabs.ac_run xs st)" "length (ac_ctx (tabs.ac_run xs st)) = IHEVC_CAB_CTXT_END"
    using tabs.ac_run_ok [OF ok(1), of xs] ok(2) st(2) by auto
  have oky: "tabs.ac_ok (tabs.ac_run ys (tabs.ac_run xs st))"
    using tabs.ac_run_ok [OF okx(1), of ys] okx(2) st(2) by auto
  have "inside (stream buf p) (tabs.ac_run ys (tabs.ac_run xs st))"
  proof (rule tabs.inside_end [OF prefixes_stream])
    show "2 \<le> ac_range (tabs.ac_run ys (tabs.ac_run xs st))" using tabs.ac_okD(1) [OF oky] by linarith
    show "inside (stream buf p) (tabs.ac_end (tabs.ac_run ys (tabs.ac_run xs st)))" using st(3) by simp
  qed
  then have "inside (stream buf p) (tabs.ac_run xs st)"
    using tabs.inside_run [OF prefixes_stream okx(1), of ys] okx(2) st(2) by simp
  moreover have "fits buf p (ac_n (tabs.ac_run xs st))"
    using ac_n_run [of "tabs.ac_run xs st" ys] st(4) by (simp add: fits_def)
  moreover have "ahead buf p (d', bs') ys" if "dec_rel buf p (tabs.ac_run xs st) d' bs'" for d' bs'
    unfolding ahead_def prod.case using that st(2-4) by (intro exI [of _ "tabs.ac_run xs st"]) simp
  moreover have "list_all (op_ok IHEVC_CAB_CTXT_END) xs" using st(2) by simp
  ultimately show thesis using st(1) by (intro that)
qed

lemma ahead1E:
  assumes "ahead buf p (d, bs) (x # ys)"
  obtains st where "dec_rel buf p st d bs" "inside (stream buf p) (tabs.ac_step x st)"
    "fits buf p (ac_n (tabs.ac_step x st))" "op_ok IHEVC_CAB_CTXT_END x"
    "\<And>d' bs'. dec_rel buf p (tabs.ac_step x st) d' bs' \<Longrightarrow> ahead buf p (d', bs') ys"
proof -
  have "ahead buf p (d, bs) ([x] @ ys)" using assms by (simp only: append.simps)
  then show thesis
  proof (rule aheadE)
    fix st assume "dec_rel buf p st d bs" "inside (stream buf p) (tabs.ac_run [x] st)"
      "fits buf p (ac_n (tabs.ac_run [x] st))" "list_all (op_ok IHEVC_CAB_CTXT_END) [x]"
      "\<And>d' bs'. dec_rel buf p (tabs.ac_run [x] st) d' bs' \<Longrightarrow> ahead buf p (d', bs') ys"
    then show thesis
      by (intro that [of st]) (simp_all del: tabs.ac_step.simps)
  qed
qed

lemma ahead_ctx:
  assumes "ahead buf p (d, bs) (Ctx c b # ops)"
  shows "\<exists>d' bs'. ihevcd_cabac_decode_bin d bs c = Some (of_bool b, d', bs') \<and> ahead buf p (d', bs') ops"
proof (rule ahead1E [OF assms])
  fix st assume st: "dec_rel buf p st d bs" "inside (stream buf p) (tabs.ac_step (Ctx c b) st)"
    "fits buf p (ac_n (tabs.ac_step (Ctx c b) st))" "op_ok IHEVC_CAB_CTXT_END (Ctx c b)"
    "\<And>d' bs'. dec_rel buf p (tabs.ac_step (Ctx c b) st) d' bs' \<Longrightarrow> ahead buf p (d', bs') ops"
  have "c < IHEVC_CAB_CTXT_END" using st(4) by simp
  from decode_bin_spec [OF st(1) this st(2,3)] st(5) show ?thesis by blast
qed

lemma ahead_byp:
  assumes "ahead buf p (d, bs) (Byp b # ops)"
  shows "\<exists>d' bs'. ihevcd_cabac_decode_bypass_bin d bs = Some (of_bool b, d', bs') \<and>
    ahead buf p (d', bs') ops"
by (rule ahead1E [OF assms]) (meson decode_bypass_bin_spec)

lemma ahead_trm:
  assumes "ahead buf p (d, bs) (Trm # ops)"
  shows "\<exists>d' bs'. ihevcd_cabac_decode_terminate d bs = Some (0, d', bs') \<and> ahead buf p (d', bs') ops"
by (rule ahead1E [OF assms]) (meson decode_terminate_0_spec)

lemma ahead_end:
  assumes "ahead buf p (d, bs) []"
  shows "\<exists>d' bs' n. ihevcd_cabac_decode_terminate d bs = Some (1, d', bs') \<and> rd_at bs (p + 9 + n) bs'"
  using assms decode_terminate_1_spec by (fastforce simp: ahead_def)

section \<open>Several bypass bins\<close>

lemma run_byp_ctx [simp]: "ac_ctx (tabs.ac_run (byp ws) st) = ac_ctx st"
  by (induction ws arbitrary: st) auto

lemma run_byp_n [simp]: "ac_n (tabs.ac_run (byp ws) st) = ac_n st + length ws"
  by (induction ws arbitrary: st) auto

lemma run_byp_range [simp]: "ac_range (tabs.ac_run (byp ws) st) = ac_range st"
  by (induction ws arbitrary: st) auto

lemma op_ok_byp [simp]: "list_all (op_ok k) (byp ws)"
  by (simp add: byp_def list_all_iff)

lemma run_byp_ok: "tabs.ac_ok st \<Longrightarrow> tabs.ac_ok (tabs.ac_run (byp ws) st)"
  using tabs.ac_run_ok by simp

lemma and_1_bit: "(w :: u32) AND 1 = of_bool (bit w 0)"
  by (rule bit_word_eqI) (auto simp: bit_and_iff bit_1_iff bit_of_bool_iff)

lemma bypass_bins_loop_spec:
  assumes "ofs buf p s st rng ofst" "inside (stream buf p) (tabs.ac_run (byp ws) st)"
    and "\<And>i. i < length ws \<Longrightarrow> bit bits (length ws - 1 - i) = sbit buf (p + (9 + ac_n st + s) + i)"
    and "unat bins * 2 ^ length ws + 2 ^ length ws \<le> 2 ^ 32"
  shows "\<exists>ofst' bins'. bypass_bins_loop (length ws) bits rng ofst bins = (ofst', bins') \<and>
    ofs buf p s (tabs.ac_run (byp ws) st) rng ofst' \<and>
    unat bins' = unat bins * 2 ^ length ws + bits_val ws"
  using assms
proof (induction ws arbitrary: st ofst bins)
  case (Cons b ws)
  let ?st = "tabs.ac_step (Byp b) st"
  have ok: "tabs.ac_ok st" using Cons.prems(1) by (simp add: ofs_def)
  have ok1: "tabs.ac_ok ?st" using tabs.ac_step_ok [OF ok, of "Byp b"] by simp
  have "inside (stream buf p) (tabs.ac_run (byp ws) ?st)" using Cons.prems(2) by simp
  then have ins: "inside (stream buf p) ?st"
    by (rule tabs.inside_run [OF prefixes_stream ok1, rotated]) simp
  have x: "drop_bit (length ws) bits AND 1 = of_bool (sbit buf (p + (9 + ac_n st + s)))"
    using Cons.prems(3) [of 0] by (simp add: and_1_bit bit_drop_bit_eq)
  note o = ofs_bypass [OF Cons.prems(1) x ins]
  let ?o = "push_bit 1 ofst OR (drop_bit (length ws) bits AND 1)"
  let ?ofst = "if b then ?o - rng else ?o"
  define bins1 where "bins1 = push_bit 1 bins + of_bool b"
  have small: "unat bins * 2 + 2 \<le> 2 ^ 32"
  proof -
    have "(unat bins * 2 + 2) * 1 \<le> (unat bins * 2 + 2) * 2 ^ length ws" by (intro mult_le_mono) simp_all
    then show ?thesis using Cons.prems(4) by (simp add: algebra_simps)
  qed
  then have "unat (push_bit 1 bins) = unat bins * 2" using unat_push_u32 [of bins 1] by simp
  then have b1: "unat bins1 = unat bins * 2 + of_bool b"
    unfolding bins1_def using small by (subst unat_add_u32) auto
  have step: "bypass_bins_loop (length (b # ws)) bits rng ofst bins =
      bypass_bins_loop (length ws) bits rng ?ofst bins1"
    using o(1) by (auto simp: bins1_def Let_def simp del: push_bit_numeral)
  have "\<exists>ofst' bins'. bypass_bins_loop (length ws) bits rng ?ofst bins1 = (ofst', bins') \<and>
    ofs buf p s (tabs.ac_run (byp ws) ?st) rng ofst' \<and>
    unat bins' = unat bins1 * 2 ^ length ws + bits_val ws"
  proof (rule Cons.IH [OF o(2)])
    show "inside (stream buf p) (tabs.ac_run (byp ws) ?st)" using Cons.prems(2) by simp
    show "bit bits (length ws - 1 - i) = sbit buf (p + (9 + ac_n ?st + s) + i)" if "i < length ws" for i
      using Cons.prems(3) [of "Suc i"] that by (simp add: ac_simps)
    have "unat bins1 * 2 ^ length ws + 2 ^ length ws \<le> (unat bins * 2 + 2) * 2 ^ length ws"
      using b1 by (simp add: add_mult_distrib)
    then show "unat bins1 * 2 ^ length ws + 2 ^ length ws \<le> 2 ^ 32"
      using Cons.prems(4) by (simp add: algebra_simps)
  qed
  moreover have "bits_val (b # ws) = of_bool b * 2 ^ length ws + bits_val ws"
    using bits_val_append [of "[b]" ws] bits_val_snoc(2) [of "[]" b] by simp
  ultimately show ?case unfolding step using b1 by (auto simp: algebra_simps)
qed simp

lemma ahead_bypass_bins:
  assumes a: "ahead buf p (d, bs) (byp ws @ ops)" and n: "0 < length ws" "length ws < 17"
  shows "\<exists>v d' bs'. ihevcd_cabac_decode_bypass_bins d bs (length ws) = Some (v, d', bs') \<and>
    unat v = bits_val ws \<and> ahead buf p (d', bs') ops"
proof (rule aheadE [OF a])
  fix st assume rel: "dec_rel buf p st d bs" and ins: "inside (stream buf p) (tabs.ac_run (byp ws) st)"
    and fits: "fits buf p (ac_n (tabs.ac_run (byp ws) st))"
    and rest: "\<And>d' bs'. dec_rel buf p (tabs.ac_run (byp ws) st) d' bs' \<Longrightarrow> ahead buf p (d', bs') ops"
  note ok = dec_relD [OF rel]
  obtain s where w: "win buf p s (ac_n st) (ac_low st) (ac_range st) (u4_range d) (u4_ofst d) bs"
    "map unat (au1_ctxt_models d) = ac_ctx st" using rel by (auto simp: dec_rel_def)
  have W: "ofs buf p s st (u4_range d) (u4_ofst d)" "rd_inv bs" "pu1_buf_base bs = buf"
      "rd_pos bs = p + (9 + ac_n st + s)" "s \<le> 22"
    using w(1) unfolding ofs_win [OF ok(1)] by (auto simp: ofs_def)
  have un: "unat (word_of_nat (length ws) :: u32) = length ws" using n by simp
  have room: "rd_room bs (length ws)" using fits W(3-5) n by (simp add: rd_room_def fits_def)
  obtain x bs' where g: "BITS_GET (word_of_nat (length ws)) bs = Some (x, bs')"
      "rd_at bs (rd_pos bs + length ws) bs'" "unat x = bits_at (sbit buf) (p + (9 + ac_n st + s)) (length ws)"
    using BITS_GET_spec [OF W(2), of "word_of_nat (length ws)"] room W(3,4) un n by auto
  have bit: "bit x (length ws - 1 - i) = sbit buf (p + (9 + ac_n st + s) + i)" if "i < length ws" for i
  proof -
    have "length ws - Suc i < length ws" using that by arith
    then show ?thesis using that by (simp add: bit_unat_iff [symmetric] g(3) bit_bits_at ac_simps)
  qed
  have "(2::nat) ^ length ws \<le> 2 ^ 32" using n by (intro power_increasing) simp_all
  then obtain ofst' bins' where l: "bypass_bins_loop (length ws) x (u4_range d) (u4_ofst d) 0 = (ofst', bins')"
      "ofs buf p s (tabs.ac_run (byp ws) st) (u4_range d) ofst'" "unat bins' = bits_val ws"
    using bypass_bins_loop_spec [OF W(1) ins bit, of 0] by auto
  have big: "u4_range d \<ge> 256" using dec_rel_big [OF w(1) tabs.ac_okD(1) [OF ok(1)]] .
  let ?d = "d \<lparr> u4_ofst := ofst' \<rparr>"
  have "ihevcd_cabac_decode_bypass_bins d bs (length ws) = Some (bins', ?d, bs')"
    using big n g(1) l(1) by (simp add: ihevcd_cabac_decode_bypass_bins_def)
  moreover have "win buf p s (ac_n (tabs.ac_run (byp ws) st)) (ac_low (tabs.ac_run (byp ws) st))
      (ac_range (tabs.ac_run (byp ws) st)) (u4_range ?d) (u4_ofst ?d) bs'"
    unfolding ofs_win [OF run_byp_ok [OF ok(1)]] using l(2) g(2) W(3,4) by (simp add: rd_at_def)
  then have "dec_rel buf p (tabs.ac_run (byp ws) st) ?d bs'"
    unfolding dec_rel_def using w(2) run_byp_ok ok by auto
  ultimately show ?thesis using rest l(3) by blast
qed


section \<open>Binarised symbols\<close>

lemma tu_from_step:
  "i < v \<Longrightarrow> tu_from c_max idx sh inc v i = Ctx (tu_ctx idx sh inc i) True # tu_from c_max idx sh inc v (i + 1)"
  by (simp add: tu_from_def upt_conv_Cons)

lemma tu_from_stop:
  "tu_from c_max idx sh inc v v = (if v < c_max then [Ctx (tu_ctx idx sh inc v) False] else [])"
  by (simp add: tu_from_def)

lemma tunary_loop_spec:
  assumes "ahead buf p (d, bs) (tu_from c_max idx sh inc v i @ ops)" "i \<le> v" "v \<le> c_max" "i < c_max"
    "v < 2 ^ 32"
  shows "\<exists>d' bs'. tunary_loop d bs c_max idx sh inc i = Some (word_of_nat v, d', bs') \<and>
    ahead buf p (d', bs') ops"
  using assms
proof (induction "v - i" arbitrary: d bs i)
  case 0
  then have i: "i = v" "v < c_max" by auto
  then obtain d' bs' where "ihevcd_cabac_decode_bin d bs (tu_ctx idx sh inc v) = Some (0, d', bs')"
      "ahead buf p (d', bs') ops"
    using ahead_ctx [of buf p d bs "tu_ctx idx sh inc v" False ops] 0(2) by (auto simp: tu_from_stop)
  then show ?case using i by (simp add: tunary_loop.simps [of d] tu_ctx_def Let_def)
next
  case (Suc k)
  then have i: "i < v" by simp
  obtain d1 bs1 where 1: "ihevcd_cabac_decode_bin d bs (tu_ctx idx sh inc i) = Some (1, d1, bs1)"
      "ahead buf p (d1, bs1) (tu_from c_max idx sh inc v (i + 1) @ ops)"
    using ahead_ctx [of buf p d bs "tu_ctx idx sh inc i" True "tu_from c_max idx sh inc v (i + 1) @ ops"]
      Suc.prems(1) i by (auto simp: tu_from_step)
  show ?case
  proof (cases "i + 1 < c_max")
    case True
    then have "tunary_loop d bs c_max idx sh inc i = tunary_loop d1 bs1 c_max idx sh inc (i + 1)"
      using 1(1) by (simp add: tunary_loop.simps [of d] tu_ctx_def Let_def)
    then show ?thesis
      using Suc.hyps(1) [of "i + 1" d1 bs1] Suc.hyps(2) Suc.prems 1(2) True i by simp
  next
    case False
    then have "i + 1 = v" "v = c_max" using Suc.prems i by auto
    then show ?thesis
      using 1 by (auto simp: tunary_loop.simps [of d] tu_ctx_def Let_def tu_from_stop)
  qed
qed

lemma decode_bins_tunary_spec:
  assumes "ahead buf p (d, bs) (tu_ops c_max idx sh inc v @ ops)" "v \<le> c_max" "0 < c_max" "v < 2 ^ 32"
    "idx + c_max div 2 ^ sh < IHEVC_CAB_CTXT_END"
  shows "\<exists>d' bs'. ihevcd_cabac_decode_bins_tunary d bs c_max idx sh inc = Some (word_of_nat v, d', bs') \<and>
    ahead buf p (d', bs') ops"
  using tunary_loop_spec [OF assms(1)] assms(2-) by (simp add: ihevcd_cabac_decode_bins_tunary_def)

lemma egk_loop_spec:
  assumes "ahead buf p (d, bs) (byp (replicate j True @ [False]) @ ops)" "i + j \<le> 16"
    "unat acc + (2 ^ j - 1) * 2 ^ i < 2 ^ 32"
  shows "\<exists>t d' bs'. egk_loop d bs 1 i acc = Some (t, i + j + 1, d', bs') \<and>
    unat t = unat acc + (2 ^ j - 1) * 2 ^ i \<and> ahead buf p (d', bs') ops"
  using assms
proof (induction j arbitrary: d bs i acc)
  case 0
  then obtain d' bs' where "ihevcd_cabac_decode_bypass_bin d bs = Some (0, d', bs')" "ahead buf p (d', bs') ops"
    using ahead_byp [of buf p d bs False ops] by auto
  then show ?case using 0(2) by (simp add: egk_loop.simps)
next
  case (Suc j)
  then obtain d1 bs1 where 1: "ihevcd_cabac_decode_bypass_bin d bs = Some (1, d1, bs1)"
      "ahead buf p (d1, bs1) (byp (replicate j True @ [False]) @ ops)"
    using ahead_byp [of buf p d bs True "byp (replicate j True @ [False]) @ ops"] by auto
  have e: "(2 ^ Suc j - 1) * 2 ^ i = 2 ^ i + (2 ^ j - 1) * (2 ^ Suc i :: nat)"
  proof -
    have "(1::nat) \<le> 2 ^ j" by simp
    then obtain a where "(2::nat) ^ j = a + 1" by (metis le_add_diff_inverse2)
    then show ?thesis by (simp add: algebra_simps)
  qed
  have "(2::nat) ^ i < 2 ^ 32" using Suc.prems(2) by (intro power_strict_increasing) simp_all
  then have "unat (push_bit i 1 :: u32) = 2 ^ i" using unat_push_u32 [of 1 i] by simp
  moreover have "unat acc + 2 ^ i < 2 ^ 32" using Suc.prems(3) unfolding e by linarith
  ultimately have acc: "unat (acc + push_bit i 1) = unat acc + 2 ^ i" by (subst unat_add_u32) simp_all
  have "egk_loop d bs 1 i acc = egk_loop d1 bs1 1 (i + 1) (acc + push_bit i 1)"
    using 1(1) Suc.prems(2) by (subst egk_loop.simps) (simp add: Let_def)
  moreover have "unat (acc + push_bit i 1) + (2 ^ j - 1) * 2 ^ (i + 1) < 2 ^ 32"
    using Suc.prems(3) unfolding e acc by simp
  moreover have "i + 1 + j \<le> 16" using Suc.prems(2) by simp
  ultimately show ?case
    using Suc.IH [OF 1(2), of "i + 1" "acc + push_bit i 1"] acc e by (auto simp: add.assoc)
qed

lemma decode_egk_spec:
  assumes a: "ahead buf p (d, bs) (byp (egk_bits k v) @ ops)" and len: "egk_len k v + k \<le> 16"
    and v: "v < 2 ^ 32"
  shows "\<exists>d' bs'. ihevcd_cabac_decode_bypass_bins_egk d bs k = Some (word_of_nat v, d', bs') \<and>
    ahead buf p (d', bs') ops"
proof -
  let ?j = "egk_len k v" and ?s = "egk_suffix k v"
  let ?suf = "nat_bits (?j + k) ?s"
  note s = egk_suffix [where k = k and v = v]
  have "egk_bits k v = (replicate ?j True @ [False]) @ ?suf" by (simp add: egk_bits_def)
  then have a': "ahead buf p (d, bs) (byp (replicate ?j True @ [False]) @ byp ?suf @ ops)"
    using a by simp
  have "unat (0 :: u32) + (2 ^ ?j - 1) * 2 ^ k < 2 ^ 32" using s(3) v by simp
  then obtain t d1 bs1 where 1: "egk_loop d bs 1 k 0 = Some (t, k + ?j + 1, d1, bs1)"
      "unat t = (2 ^ ?j - 1) * 2 ^ k" "ahead buf p (d1, bs1) (byp ?suf @ ops)"
    using egk_loop_spec [OF a', of k 0] len by auto
  show ?thesis
  proof (cases "?j + k = 0")
    case True
    have "?s = 0" using s(2) unfolding True by simp
    moreover have j0: "?j = 0" using True by (metis add_is_0)
    have "(2 :: nat) ^ ?j - 1 = 0" unfolding j0 by simp
    ultimately have "v = 0" using s(3) by simp
    moreover have "unat t = 0" unfolding 1(2) j0 by simp
    ultimately have "t = word_of_nat v" by (simp add: word_unat_eq_iff)
    then show ?thesis using 1(1,3) True by (auto simp: ihevcd_cabac_decode_bypass_bins_egk_def)
  next
    case False
    obtain x d2 bs2 where 2: "ihevcd_cabac_decode_bypass_bins d1 bs1 (?j + k) = Some (x, d2, bs2)"
        "unat x = bits_val ?suf" "ahead buf p (d2, bs2) ops"
      using ahead_bypass_bins [OF 1(3)] False len by auto
    have "unat x = ?s" using 2(2) s(2) by (simp add: bits_val_nat_bits)
    then have "unat (t + x) = v" using 1(2) s(3) v by (subst unat_add_u32) simp_all
    then have "t + x = word_of_nat v" using v by (simp add: word_unat_eq_iff)
    moreover have "nat (int (k + ?j + 1) - 1) = ?j + k" "int (k + ?j + 1) - 1 \<noteq> 0" "\<not> (k = 0 \<and> ?j = 0)" using False by auto
    ultimately show ?thesis
      using 1(1) 2(1,3) by (simp add: ihevcd_cabac_decode_bypass_bins_egk_def Let_def)
  qed
qed

lemma trunc_rice_loop_spec:
  assumes "ahead buf p (d, bs) (byp (replicate (q - i) True @ [False]) @ ops)" "i \<le> q" "q < c_max"
    "q < 2 ^ 32"
  shows "\<exists>d' bs'. trunc_rice_loop d bs c_max i = Some (word_of_nat q, d', bs') \<and> ahead buf p (d', bs') ops"
  using assms
proof (induction "q - i" arbitrary: d bs i)
  case 0
  then have i: "i = q" by simp
  then obtain d' bs' where "ihevcd_cabac_decode_bypass_bin d bs = Some (0, d', bs')" "ahead buf p (d', bs') ops"
    using ahead_byp [of buf p d bs False ops] 0(2) by auto
  then show ?case using i by (simp add: trunc_rice_loop.simps [of d])
next
  case (Suc k)
  then have i: "i < q" "q - i = Suc (q - (i + 1))" by simp_all
  obtain d1 bs1 where 1: "ihevcd_cabac_decode_bypass_bin d bs = Some (1, d1, bs1)"
      "ahead buf p (d1, bs1) (byp (replicate (q - (i + 1)) True @ [False]) @ ops)"
    using ahead_byp [of buf p d bs True "byp (replicate (q - (i + 1)) True @ [False]) @ ops"]
      Suc.prems(1) unfolding i(2) by auto
  then have "trunc_rice_loop d bs c_max i = trunc_rice_loop d1 bs1 c_max (i + 1)"
    using Suc.prems i by (simp add: trunc_rice_loop.simps [of d])
  then show ?case using Suc.hyps(1) [of "i + 1" d1 bs1] Suc.hyps(2) Suc.prems 1(2) i by simp
qed

lemma decode_trunc_rice_spec:
  assumes a: "ahead buf p (d, bs) (byp (tr_bits k v) @ ops)" and k: "k < 17"
    and v: "v div 2 ^ k < c_rice_max div 2 ^ k" "v < 2 ^ 32"
  shows "\<exists>d' bs'. ihevcd_cabac_decode_bypass_bins_trunc_rice d bs k c_rice_max =
      Some (word_of_nat v, d', bs') \<and> ahead buf p (d', bs') ops"
proof -
  let ?q = "v div 2 ^ k"
  have "byp (tr_bits k v) @ ops = byp (replicate (?q - 0) True @ [False]) @ byp (nat_bits k v) @ ops"
    by (simp add: tr_bits_def)
  then have "ahead buf p (d, bs) (byp (replicate (?q - 0) True @ [False]) @ byp (nat_bits k v) @ ops)"
    using a by simp
  moreover have q: "?q < 2 ^ 32" using v(2) by (metis div_le_dividend le_less_trans)
  ultimately obtain d1 bs1 where 1: "trunc_rice_loop d bs (c_rice_max div 2 ^ k) 0 = Some (word_of_nat ?q, d1, bs1)"
      "ahead buf p (d1, bs1) (byp (nat_bits k v) @ ops)"
    using trunc_rice_loop_spec [of buf p d bs ?q 0] v(1) by blast
  show ?thesis
  proof (cases "k = 0")
    case True
    then show ?thesis using 1 by (auto simp: ihevcd_cabac_decode_bypass_bins_trunc_rice_def)
  next
    case False
    obtain x d2 bs2 where 2: "ihevcd_cabac_decode_bypass_bins d1 bs1 k = Some (x, d2, bs2)"
        "unat x = bits_val (nat_bits k v)" "ahead buf p (d2, bs2) ops"
      using ahead_bypass_bins [OF 1(2)] False k by auto
    have x: "unat x = v mod 2 ^ k" using 2(2) by (simp add: bits_val_nat_bits)
    have "unat (push_bit k (word_of_nat ?q :: u32) OR x) = ?q * 2 ^ k + v mod 2 ^ k"
    proof -
      have "?q * 2 ^ k \<le> v" by simp
      then have "?q * 2 ^ k < 2 ^ 32" using v(2) by (rule le_less_trans)
      then have "unat (word_of_nat ?q :: u32) * 2 ^ k < 2 ^ 32" unfolding unat_u32_small [OF q] .
      then show ?thesis using push_or_unat [of x k "word_of_nat ?q"] x unat_u32_small [OF q] by simp
    qed
    then have "unat (push_bit k (word_of_nat ?q :: u32) OR x) = v" by (simp only: div_mult_mod_eq)
    then have "push_bit k (word_of_nat ?q) OR x = (word_of_nat v :: u32)"
      using v(2) by (simp add: word_unat_eq_iff)
    then show ?thesis using 1(1) 2(1,3) False
      by (simp add: ihevcd_cabac_decode_bypass_bins_trunc_rice_def)
  qed
qed

text \<open>The bypass variant of truncated unary peeks \<open>c_max\<close> bits and flushes what it used.\<close>

lemma tu_bits_Suc: "v \<noteq> 0 \<Longrightarrow> tu_bits (Suc m) v = True # tu_bits m (v - 1)"
  by (cases v) (auto simp: tu_bits_def)

lemma tunary_bypass_loop_spec:
  assumes "ofs buf p s st rng ofst" "inside (stream buf p) (tabs.ac_run (byp (tu_bits (c_max - i) v)) st)"
    and "i < c_max" "v \<le> c_max - i"
    and "\<And>j. j < c_max - i \<Longrightarrow> bit bits (31 - j) = sbit buf (p + (9 + ac_n st + s) + j)"
    and "c_max \<le> 32"
  shows "\<exists>ofst' bin. tunary_bypass_loop bits rng ofst c_max i =
      (ofst', i + length (tu_bits (c_max - i) v), bin) \<and>
    i + length (tu_bits (c_max - i) v) - 1 + unat bin = i + v \<and> bin \<in> {0, 1} \<and>
    ofs buf p s (tabs.ac_run (byp (tu_bits (c_max - i) v)) st) rng ofst'"
  using assms
proof (induction "c_max - i" arbitrary: st ofst bits i v)
  case (Suc m)
  define b where "b = (v \<noteq> 0)"
  have m: "c_max - i = Suc m" "c_max - (i + 1) = m" using Suc.hyps(2) by simp_all
  have ops: "byp (tu_bits (Suc m) v) = Byp b # (if b then byp (tu_bits m (v - 1)) else [])"
    using tu_bits_Suc [of v m] by (auto simp: b_def tu_bits_def)
  let ?st = "tabs.ac_step (Byp b) st"
  have ok: "tabs.ac_ok st" using Suc.prems(1) by (simp add: ofs_def)
  have ok1: "tabs.ac_ok ?st" using tabs.ac_step_ok [OF ok, of "Byp b"] by simp
  have run: "tabs.ac_run (byp (tu_bits (c_max - i) v)) st =
      tabs.ac_run (if b then byp (tu_bits m (v - 1)) else []) ?st"
    unfolding m(1) ops by simp
  have ins: "inside (stream buf p) ?st"
    using Suc.prems(2) unfolding run
    by (rule tabs.inside_run [OF prefixes_stream ok1, rotated]) simp
  have "drop_bit 31 bits = of_bool (sbit buf (p + (9 + ac_n st + s)))"
  proof (rule bit_word_eqI)
    fix n assume "n < LENGTH(32)"
    show "bit (drop_bit 31 bits) n = bit (of_bool (sbit buf (p + (9 + ac_n st + s))) :: u32) n"
      using Suc.prems(5) [of 0] m(1) by (cases n) (auto simp: bit_drop_bit_eq bit_of_bool_iff)
  qed
  note o = ofs_bypass [OF Suc.prems(1) this ins]
  let ?o = "push_bit 1 ofst OR drop_bit 31 bits"
  let ?ofst = "if b then ?o - rng else ?o"
  have step: "tunary_bypass_loop bits rng ofst c_max i =
      (if i + 1 < c_max \<and> b then tunary_bypass_loop (push_bit 1 bits) rng ?ofst c_max (i + 1)
       else (?ofst, i + 1, of_bool b))"
    using o(1) by (subst tunary_bypass_loop.simps) (auto simp: Let_def simp del: push_bit_numeral)
  show ?case
  proof (cases "i + 1 < c_max \<and> b")
    case False
    then consider "\<not> b" | "b" "m = 0" using m(1) Suc.prems(3) by fastforce
    then show ?thesis
    proof cases
      case 1
      then have "v = 0" by (simp add: b_def)
      then have len: "length (tu_bits (c_max - i) v) = 1" unfolding m(1) by (simp add: tu_bits_def)
      show ?thesis using step False o(2) 1 len \<open>v = 0\<close> unfolding run by auto
    next
      case 2
      then have "v = 1" using Suc.prems(4) m(1) by (simp add: b_def)
      then have len: "length (tu_bits (c_max - i) v) = 1" unfolding m(1) 2 by (simp add: tu_bits_def)
      have "byp (tu_bits m (v - 1)) = []" using 2 \<open>v = 1\<close> by (simp add: tu_bits_def)
      then show ?thesis using step False o(2) 2 len \<open>v = 1\<close> unfolding run by auto
    qed
  next
    case True
    have len: "length (tu_bits (c_max - i) v) = length (tu_bits m (v - 1)) + 1"
      unfolding m(1) using tu_bits_Suc [of v m] True by (simp add: b_def)
    have pos: "0 < length (tu_bits m (v - 1))" using True m by (auto simp: tu_bits_def b_def)
    have "\<exists>ofst' bin. tunary_bypass_loop (push_bit 1 bits) rng ?ofst c_max (i + 1) =
        (ofst', i + 1 + length (tu_bits (c_max - (i + 1)) (v - 1)), bin) \<and>
      i + 1 + length (tu_bits (c_max - (i + 1)) (v - 1)) - 1 + unat bin = i + 1 + (v - 1) \<and> bin \<in> {0, 1} \<and>
      ofs buf p s (tabs.ac_run (byp (tu_bits (c_max - (i + 1)) (v - 1))) ?st) rng ofst'"
    proof (rule Suc.hyps(1) [OF _ o(2)])
      show "m = c_max - (i + 1)" "i + 1 < c_max" "v - 1 \<le> c_max - (i + 1)" "c_max \<le> 32"
        using m True Suc.prems by auto
      show "inside (stream buf p) (tabs.ac_run (byp (tu_bits (c_max - (i + 1)) (v - 1))) ?st)"
        using Suc.prems(2) True unfolding run m(2) by simp
      show "bit (push_bit 1 bits) (31 - j) = sbit buf (p + (9 + ac_n ?st + s) + j)"
        if "j < c_max - (i + 1)" for j
      proof -
        have "1 \<le> 31 - j" "31 - j - 1 = 31 - Suc j" "31 - j < 32" using that Suc.prems(6) by arith+
        then have "bit (push_bit 1 bits) (31 - j) = bit bits (31 - Suc j)"
          unfolding bit_push_bit_iff by auto
        then show ?thesis using Suc.prems(5) [of "Suc j"] that m by (simp add: ac_simps)
      qed
    qed
    then show ?thesis using step True len pos unfolding run m(2) by (auto simp: b_def)
  qed
qed simp

lemma length_tu_bits: "0 < c_max \<Longrightarrow> v \<le> c_max \<Longrightarrow> 0 < length (tu_bits c_max v) \<and> length (tu_bits c_max v) \<le> c_max"
  by (auto simp: tu_bits_def)

lemma ahead_bypass_tunary:
  assumes a: "ahead buf p (d, bs) (byp (tu_bits c_max v) @ ops)" and n: "0 < c_max" "c_max \<le> 32" "v \<le> c_max"
  shows "\<exists>d' bs'. ihevcd_cabac_decode_bypass_bins_tunary d bs c_max = Some (word_of_nat v, d', bs') \<and>
    ahead buf p (d', bs') ops"
proof (rule aheadE [OF a])
  let ?ws = "tu_bits c_max v"
  fix st assume rel: "dec_rel buf p st d bs" and ins: "inside (stream buf p) (tabs.ac_run (byp ?ws) st)"
    and fits: "fits buf p (ac_n (tabs.ac_run (byp ?ws) st))"
    and rest: "\<And>d' bs'. dec_rel buf p (tabs.ac_run (byp ?ws) st) d' bs' \<Longrightarrow> ahead buf p (d', bs') ops"
  note ok = dec_relD [OF rel] and len = length_tu_bits [OF n(1,3)]
  obtain s where w: "win buf p s (ac_n st) (ac_low st) (ac_range st) (u4_range d) (u4_ofst d) bs"
    "map unat (au1_ctxt_models d) = ac_ctx st" using rel by (auto simp: dec_rel_def)
  have W: "ofs buf p s st (u4_range d) (u4_ofst d)" "rd_inv bs" "pu1_buf_base bs = buf"
      "rd_pos bs = p + (9 + ac_n st + s)" "s \<le> 22"
    using w(1) unfolding ofs_win [OF ok(1)] by (auto simp: ofs_def)
  have un: "unat (word_of_nat c_max :: u32) = c_max" using n by simp
  obtain x where x: "BITS_NXT (word_of_nat c_max) bs = Some x"
      "unat x = bits_at (sbit buf) (p + (9 + ac_n st + s)) c_max"
    using BITS_NXT_spec [OF W(2), of "word_of_nat c_max"] W(3,4) un n by auto
  have u32: "unat (32 - word_of_nat c_max :: u32) = 32 - c_max"
    using n un by (subst unat_sub_u32) simp_all
  define y where "y = push_bit (32 - c_max) x"
  have sh: "shl32 x (32 - word_of_nat c_max) = Some y"
    using u32 n by (simp add: word_less_nat_alt y_def)
  have bit: "bit y (31 - j) = sbit buf (p + (9 + ac_n st + s) + j)" if "j < c_max - 0" for j
  proof -
    have e: "31 - j < 32" "32 - c_max \<le> 31 - j" "31 - j - (32 - c_max) = c_max - 1 - j" "c_max - 1 - j < c_max"
        "c_max - 1 - (c_max - 1 - j) = j"
      using that n by arith+
    have "bit y (31 - j) = bit x (c_max - 1 - j)" using e(1-3) by (auto simp: y_def bit_push_bit_iff)
    then show ?thesis
      using e(4,5) that by (simp add: bit_unat_iff [symmetric] x(2) bit_bits_at ac_simps)
  qed
  obtain ofst' bin where l: "tunary_bypass_loop y (u4_range d) (u4_ofst d) c_max 0 = (ofst', length ?ws, bin)"
      "length ?ws - 1 + unat bin = v" "bin \<in> {0, 1}"
      "ofs buf p s (tabs.ac_run (byp ?ws) st) (u4_range d) ofst'"
    using tunary_bypass_loop_spec [OF W(1), of c_max 0 v y] ins n bit by auto
  have room: "rd_room bs (length ?ws)" using fits W(3-5) len n by (simp add: rd_room_def fits_def)
  have unl: "unat (word_of_nat (length ?ws) :: u32) = length ?ws" using len n by simp
  obtain bs' where f: "BITS_FLUSH (word_of_nat (length ?ws)) bs = Some bs'" "rd_at bs (rd_pos bs + length ?ws) bs'"
    using BITS_FLUSH_spec [OF W(2), of "word_of_nat (length ?ws)"] room unl len n by auto
  have v: "word_of_nat (length ?ws) - 1 + bin = (word_of_nat v :: u32)"
  proof -
    have "unat (word_of_nat (length ?ws) - 1 :: u32) = length ?ws - 1"
    proof -
      have "1 \<le> length ?ws" using len by linarith
      then show ?thesis using unl by (subst unat_sub_u32) simp_all
    qed
    moreover have "length ?ws - 1 + unat bin = v" by (rule l(2))
    ultimately have "unat (word_of_nat (length ?ws) - 1 + bin) = v"
      using n by (subst unat_add_u32) (simp_all only:, simp)
    then show ?thesis using n by (simp add: word_unat_eq_iff)
  qed
  have big: "u4_range d \<ge> 256" using dec_rel_big [OF w(1) tabs.ac_okD(1) [OF ok(1)]] .
  let ?d = "d \<lparr> u4_ofst := ofst' \<rparr>"
  have "ihevcd_cabac_decode_bypass_bins_tunary d bs c_max = Some (word_of_nat v, ?d, bs')"
    unfolding ihevcd_cabac_decode_bypass_bins_tunary_def
    using n(1) big by (simp add: Let_def x(1) sh l(1) f(1) v)
  moreover have "win buf p s (ac_n (tabs.ac_run (byp ?ws) st)) (ac_low (tabs.ac_run (byp ?ws) st))
      (ac_range (tabs.ac_run (byp ?ws) st)) (u4_range ?d) (u4_ofst ?d) bs'"
    unfolding ofs_win [OF run_byp_ok [OF ok(1)]] using l(4) f(2) W(3,4) by (simp add: rd_at_def)
  then have "dec_rel buf p (tabs.ac_run (byp ?ws) st) ?d bs'"
    unfolding dec_rel_def using w(2) run_byp_ok ok by auto
  ultimately show ?thesis using rest by blast
qed

end
