(* ===== verification/Bit_Writer.thy ===== *)
theory Bit_Writer
  imports Bit_Sequence
begin

text \<open>
  The encoder's bitstream writer, \<^verbatim>\<open>encoder/ihevce_bitstream.c\<close> and the macros of
  \<^verbatim>\<open>encoder/ihevce_bitstream.h\<close>. The state is the encoder's \<^verbatim>\<open>bitstrm_t\<close>; the field
  for the stream buffer holds the bytes of the object it points to, and a NAL start is an
  offset into it. \<open>WORD32\<close> members are integers.

  \<open>epb\<close> is the specification of emulation prevention: the bytes that code a raw payload.
  \<open>wr_rel\<close> relates a writer state to the raw payload bytes flushed so far, and \<open>wr_bits\<close> is
  the sequence of bits written since the payload began.
\<close>

unbundle bit_operations_syntax

datatype ihevce_error = IHEVCE_SUCCESS | IHEVCE_BITSTREAM_BUFFER_OVERFLOW

record bitstrm_e =
  pu1_strm_buffer :: "u8 list"
  u4_max_strm_size :: u32
  u4_strm_buf_offset :: u32
  u4_cur_word_e :: u32
  i4_bits_left_in_cw :: int
  i4_zero_bytes_run :: int
  i4_num_nal :: int
  apu1_nal_start :: "nat list"

abbreviation (input) MAX_NALS_IN_AU :: int where "MAX_NALS_IN_AU \<equiv> 256"

section \<open>Operations\<close>

definition ihevce_bitstrm_init ::
  "bitstrm_e \<Rightarrow> u8 list \<Rightarrow> u32 \<Rightarrow> ihevce_error \<times> bitstrm_e" where
  "ihevce_bitstrm_init s pu1_bitstrm_buf u4_max_bitstrm_size =
     (IHEVCE_SUCCESS,
      s \<lparr> pu1_strm_buffer := pu1_bitstrm_buf, u4_max_strm_size := u4_max_bitstrm_size,
          u4_strm_buf_offset := 0, u4_cur_word_e := 0, i4_bits_left_in_cw := 32,
          i4_zero_bytes_run := 0 \<rparr>)"

definition INSERT_EPB :: "int \<Rightarrow> u8 \<Rightarrow> bool" where
  "INSERT_EPB zero_run next_byte \<longleftrightarrow> zero_run = 2 \<and> 0 = (next_byte AND 0xFC)"

type_synonym out_pos = "u8 list \<times> u32 \<times> int"

definition PUTBYTE_EPB :: "u8 \<Rightarrow> out_pos \<Rightarrow> out_pos option" where
  "PUTBYTE_EPB byte = (\<lambda>(ptr, off, zero_run). do {
     (ptr, off, zero_run) \<leftarrow> (if INSERT_EPB zero_run byte then do {
         ptr \<leftarrow> wr ptr (unat off) 0x03;
         Some (ptr, off + 1, 0)
       } else Some (ptr, off, zero_run));
     ptr \<leftarrow> wr ptr (unat off) byte;
     Some (ptr, off + 1, if byte \<noteq> 0 then 0 else zero_run + 1)
   })"

text \<open>
  The loop \<^verbatim>\<open>for(i = WORD_SIZE; i > lim; i -= 8)\<close> that flushes the bytes of the current
  word, most significant first.
\<close>

fun put_word_bytes :: "nat \<Rightarrow> nat \<Rightarrow> u32 \<Rightarrow> out_pos \<Rightarrow> out_pos option" where
  "put_word_bytes i lim cur_word st =
     (if i > lim then do {
        let u1_next_byte = ucast (drop_bit (i - 8) cur_word AND 0xFF);
        st \<leftarrow> PUTBYTE_EPB u1_next_byte st;
        put_word_bytes (i - 8) lim cur_word st
      } else Some st)"

declare put_word_bytes.simps [simp del]

definition ihevce_put_bits ::
  "bitstrm_e \<Rightarrow> u32 \<Rightarrow> int \<Rightarrow> (ihevce_error \<times> bitstrm_e) option" where
  "ihevce_put_bits s u4_code_val code_len = do {
     let u4_cur_word = u4_cur_word_e s;
     let bits_left_in_cw = i4_bits_left_in_cw s;
     require (code_len > 0 \<and> code_len \<le> 32);
     require (code_len < 32 \<longrightarrow> drop_bit (nat code_len) u4_code_val = 0);
     require (bits_left_in_cw > 0 \<and> bits_left_in_cw \<le> 32);
     require (i4_zero_bytes_run s \<le> 2);
     if bits_left_in_cw > code_len then (
       let bits_left_in_cw = bits_left_in_cw - code_len;
           u4_cur_word = u4_cur_word OR push_bit (nat bits_left_in_cw) u4_code_val
       in Some (IHEVCE_SUCCESS,
            s \<lparr> u4_cur_word_e := u4_cur_word, i4_bits_left_in_cw := bits_left_in_cw \<rparr>))
     else (
       let rem_bits = code_len - bits_left_in_cw in
       if u4_strm_buf_offset s + 4 \<ge> u4_max_strm_size s then
         Some (IHEVCE_BITSTREAM_BUFFER_OVERFLOW, s)
       else do {
         let u4_cur_word = u4_cur_word OR drop_bit (nat rem_bits) u4_code_val;
         (buf, off, zero_run) \<leftarrow> put_word_bytes 32 0 u4_cur_word
           (pu1_strm_buffer s, u4_strm_buf_offset s, i4_zero_bytes_run s);
         let u4_cur_word =
           (if rem_bits \<noteq> 0 then push_bit (nat (32 - rem_bits)) u4_code_val else 0);
         Some (IHEVCE_SUCCESS,
           s \<lparr> pu1_strm_buffer := buf, u4_cur_word_e := u4_cur_word,
               i4_bits_left_in_cw := 32 - rem_bits, i4_zero_bytes_run := zero_run,
               u4_strm_buf_offset := off \<rparr>)
       })
   }"

definition ihevce_put_bit :: "bitstrm_e \<Rightarrow> u32 \<Rightarrow> (ihevce_error \<times> bitstrm_e) option" where
  "ihevce_put_bit s u4_code_val = ihevce_put_bits s u4_code_val 1"

definition ihevce_put_rbsp_trailing_bits :: "bitstrm_e \<Rightarrow> (ihevce_error \<times> bitstrm_e) option" where
  "ihevce_put_rbsp_trailing_bits s = (
     let u4_cur_word = u4_cur_word_e s;
         bits_left_in_cw = i4_bits_left_in_cw s;
         bytes_left_in_cw = (bits_left_in_cw - 1) div 8 in
     if u4_strm_buf_offset s + 4 - word_of_int bytes_left_in_cw \<ge> u4_max_strm_size s then
       Some (IHEVCE_BITSTREAM_BUFFER_OVERFLOW, s)
     else do {
       require (1 \<le> bits_left_in_cw \<and> bits_left_in_cw \<le> 32);
       let u4_cur_word = u4_cur_word OR push_bit (nat (bits_left_in_cw - 1)) 1;
       (buf, off, zero_run) \<leftarrow> put_word_bytes 32 (nat (bytes_left_in_cw * 8)) u4_cur_word
         (pu1_strm_buffer s, u4_strm_buf_offset s, i4_zero_bytes_run s);
       Some (IHEVCE_SUCCESS,
         s \<lparr> pu1_strm_buffer := buf, u4_strm_buf_offset := off, u4_cur_word_e := 0,
             i4_bits_left_in_cw := 32, i4_zero_bytes_run := 0 \<rparr>)
     })"

definition ihevce_put_uev :: "bitstrm_e \<Rightarrow> u32 \<Rightarrow> (ihevce_error \<times> bitstrm_e) option" where
  "ihevce_put_uev s u4_code_num = (
     let u4_bit_str = u4_code_num + 1;
         u4_range = GETRANGE u4_bit_str
     in ihevce_put_bits s u4_bit_str (sint (2 * u4_range - 1)))"

definition ihevce_put_sev :: "bitstrm_e \<Rightarrow> int \<Rightarrow> (ihevce_error \<times> bitstrm_e) option" where
  "ihevce_put_sev s syntax_elem = (
     let u4_code_num = (if syntax_elem \<le> 0 then word_of_int ((- syntax_elem) * 2)
                        else word_of_int (syntax_elem * 2 - 1));
         u4_bit_str = u4_code_num + 1;
         u4_range = GETRANGE u4_bit_str
     in ihevce_put_bits s u4_bit_str (sint (2 * u4_range - 1)))"

definition ihevce_put_nal_start_code_prefix ::
  "bitstrm_e \<Rightarrow> int \<Rightarrow> (ihevce_error \<times> bitstrm_e) option" where
  "ihevce_put_nal_start_code_prefix s insert_leading_zero_8bits = (
     let off = u4_strm_buf_offset s; buf = pu1_strm_buffer s; num_nals = i4_num_nal s in
     if off + 4 > u4_max_strm_size s then Some (IHEVCE_BITSTREAM_BUFFER_OVERFLOW, s)
     else do {
       require (num_nals \<ge> 0);
       require (num_nals < MAX_NALS_IN_AU);
       s \<leftarrow> (if num_nals < MAX_NALS_IN_AU then do {
           starts \<leftarrow> wr (apu1_nal_start s) (nat num_nals) (unat off);
           Some (s \<lparr> apu1_nal_start := starts, i4_num_nal := num_nals + 1 \<rparr>)
         } else Some s);
       (buf, off) \<leftarrow> (if insert_leading_zero_8bits \<noteq> 0 then do {
           buf \<leftarrow> wr buf (unat off) 0x00;
           Some (buf, off + 1)
         } else Some (buf, off));
       buf \<leftarrow> wr buf (unat off) 0x00;
       let off = off + 1;
       buf \<leftarrow> wr buf (unat off) 0x00;
       let off = off + 1;
       buf \<leftarrow> wr buf (unat off) 0x01;
       let off = off + 1;
       Some (IHEVCE_SUCCESS, s \<lparr> pu1_strm_buffer := buf, u4_strm_buf_offset := off \<rparr>)
     })"


section \<open>Relation to the payload\<close>

definition out_rel :: "u8 list \<Rightarrow> u8 list \<Rightarrow> out_pos \<Rightarrow> bool" where
  "out_rel pre raw = (\<lambda>(buf, off, zero_run). unat off \<le> length buf \<and>
     take (unat off) buf = pre @ epb 0 raw \<and> zero_run = int (epb_run 0 raw))"

lemma take_wr: "n \<le> length xs \<Longrightarrow> n < length xs \<Longrightarrow> take (Suc n) (xs[n := v]) = take n xs @ [v]"
  by (simp add: take_Suc_conv_app_nth)

lemma and_FC_eq: "0 = (b :: u8) AND 0xFC \<longleftrightarrow> unat b \<le> 3"
proof -
  have "b AND 0xFC = push_bit 2 (drop_bit 2 b)"
  proof (rule bit_word_eqI)
    fix n assume "n < LENGTH(8)"
    then have "n \<in> set [0..<8]" by simp
    then show "bit (b AND 0xFC) n = bit (push_bit 2 (drop_bit 2 b)) n"
      by (simp add: upt_rec bit_and_iff bit_push_bit_iff bit_drop_bit_eq) (elim disjE; simp)
  qed
  moreover have "push_bit 2 (drop_bit 2 b) = 0 \<longleftrightarrow> drop_bit 2 b = 0"
  proof
    assume a: "push_bit 2 (drop_bit 2 b) = 0"
    show "drop_bit 2 b = 0"
    proof (rule bit_word_eqI)
      fix n assume "n < LENGTH(8)"
      have "bit (push_bit 2 (drop_bit 2 b)) (n + 2) = bit (0 :: u8) (n + 2)" using a by simp
      then show "bit (drop_bit 2 b) n = bit 0 n"
        by (cases "n + 2 < 8") (auto simp: bit_push_bit_iff bit_drop_bit_eq)
    qed
  qed simp
  moreover have "drop_bit 2 b = 0 \<longleftrightarrow> unat b \<le> 3"
  proof -
    have "unat (drop_bit 2 b) = unat b div 4"
      by (simp only: unat_drop_bit_eq) (simp add: drop_bit_eq_div)
    moreover have "unat b div 4 = 0 \<longleftrightarrow> unat b \<le> 3" by (auto simp: div_eq_0_iff)
    ultimately show ?thesis by (metis unat_eq_zero)
  qed
  ultimately show ?thesis by auto
qed

lemma INSERT_EPB_iff: "INSERT_EPB (int z) b \<longleftrightarrow> z = 2 \<and> unat b \<le> 3"
  by (auto simp: INSERT_EPB_def and_FC_eq)

lemma PUTBYTE_EPB_spec:
  assumes rel: "out_rel pre raw (buf, off, zr)"
    and room: "unat off + 2 \<le> length buf" "unat off + 2 < 2 ^ 32"
  shows "\<exists>buf' off' zr'. PUTBYTE_EPB b (buf, off, zr) = Some (buf', off', zr') \<and>
    out_rel pre (raw @ [b]) (buf', off', zr') \<and> length buf' = length buf \<and>
    unat off' = unat off + length (epb1 (epb_run 0 raw) b)"
proof -
  let ?z = "epb_run 0 raw"
  have z: "zr = int ?z" "?z \<le> 2" "take (unat off) buf = pre @ epb 0 raw"
    using rel by (auto simp: out_rel_def epb_run_le)
  have o1: "unat (off + 1) = unat off + 1" using room by (simp add: unat_add_u32)
  have o2: "unat (off + 1 + 1) = unat off + 2" using room o1 by (simp add: unat_add_u32)
  show ?thesis
  proof (cases "?z = 2 \<and> unat b \<le> 3")
    case True
    let ?buf' = "(buf[unat off := 3])[unat off + 1 := b]"
    have "take (unat off + 2) ?buf' = take (unat off) buf @ [3, b]"
      using room take_wr [of "Suc (unat off)" "buf[unat off := 3]" b] take_wr [of "unat off" buf 3]
      by simp
    then have "out_rel pre (raw @ [b]) (?buf', off + 1 + 1, if b \<noteq> 0 then 0 else 1)"
      using True z room o2 by (simp add: out_rel_def epb1_def zrun_def)
    moreover have "INSERT_EPB zr b" using True z INSERT_EPB_iff [of ?z b] by simp
    then have "PUTBYTE_EPB b (buf, off, zr) = Some (?buf', off + 1 + 1, if b \<noteq> 0 then 0 else 1)"
      using room o1 by (simp add: PUTBYTE_EPB_def)
    ultimately show ?thesis using True o2 by (simp add: epb1_def)
  next
    case False
    let ?buf' = "buf[unat off := b]"
    have "take (unat off + 1) ?buf' = take (unat off) buf @ [b]"
      using room take_wr [of "unat off" buf b] by simp
    moreover have "unat b \<le> 3" if "b = 0" using that by simp
    ultimately have "out_rel pre (raw @ [b]) (?buf', off + 1, if b \<noteq> 0 then 0 else zr + 1)"
      using False z room o1 by (auto simp: out_rel_def epb1_def zrun_def)
    moreover have "\<not> INSERT_EPB zr b" using False z INSERT_EPB_iff [of ?z b] by simp
    then have "PUTBYTE_EPB b (buf, off, zr) = Some (?buf', off + 1, if b \<noteq> 0 then 0 else zr + 1)"
      using room by (simp add: PUTBYTE_EPB_def)
    ultimately show ?thesis using False o1 by (simp add: epb1_def)
  qed
qed

text \<open>Flushing the top \<open>k\<close> bytes of a word, down to byte \<open>l\<close>.\<close>

lemma put_word_bytes_spec:
  assumes "out_rel pre raw (buf, off, zr)" "unat off + 2 * k \<le> length buf" "unat off + 2 * k < 2 ^ 32"
  shows "\<exists>buf' off' zr'. put_word_bytes (8 * (l + k)) (8 * l) w (buf, off, zr) = Some (buf', off', zr') \<and>
    out_rel pre (raw @ map (word_byte w) (rev [l..<l + k])) (buf', off', zr') \<and>
    length buf' = length buf \<and> unat off' \<le> unat off + 2 * k"
  using assms
proof (induction k arbitrary: raw buf off zr)
  case 0
  then show ?case by (simp add: put_word_bytes.simps)
next
  case (Suc k)
  let ?b = "word_byte w (l + k)"
  obtain buf1 off1 zr1 where 1: "PUTBYTE_EPB ?b (buf, off, zr) = Some (buf1, off1, zr1)"
      "out_rel pre (raw @ [?b]) (buf1, off1, zr1)" "length buf1 = length buf"
      "unat off1 = unat off + length (epb1 (epb_run 0 raw) ?b)"
    using PUTBYTE_EPB_spec [OF Suc.prems(1), of ?b] Suc.prems(2,3) by auto
  have "unat off1 \<le> unat off + 2" using 1(4) length_epb1 [of "epb_run 0 raw" ?b] by simp
  then obtain buf' off' zr' where
      "put_word_bytes (8 * (l + k)) (8 * l) w (buf1, off1, zr1) = Some (buf', off', zr')"
      "out_rel pre ((raw @ [?b]) @ map (word_byte w) (rev [l..<l + k])) (buf', off', zr')"
      "length buf' = length buf" "unat off' \<le> unat off + 2 * Suc k"
    using Suc.IH [OF 1(2)] Suc.prems(2,3) 1(3) by fastforce
  moreover have "8 * (l + Suc k) - 8 = 8 * (l + k)" by simp
  ultimately show ?case
    using 1(1) put_word_bytes.simps [of "8 * (l + Suc k)" "8 * l" w "(buf, off, zr)"]
    by (simp add: word_byte_def [abs_def] Let_def)
qed

section \<open>The writer appends bits\<close>

definition wr_rel :: "u8 list \<Rightarrow> u8 list \<Rightarrow> bitstrm_e \<Rightarrow> bool" where
  "wr_rel pre raw s \<longleftrightarrow>
     out_rel pre raw (pu1_strm_buffer s, u4_strm_buf_offset s, i4_zero_bytes_run s) \<and>
     1 \<le> i4_bits_left_in_cw s \<and> i4_bits_left_in_cw s \<le> 32 \<and>
     (\<forall>i. int i < i4_bits_left_in_cw s \<longrightarrow> \<not> bit (u4_cur_word_e s) i)"

definition wr_bits :: "u8 list \<Rightarrow> bitstrm_e \<Rightarrow> bool list" where
  "wr_bits raw s = bytes_bits raw @
     take (nat (32 - i4_bits_left_in_cw s)) (word_bits 32 (u4_cur_word_e s))"

text \<open>Room for one flushed word with its emulation prevention bytes.\<close>

definition wr_room :: "bitstrm_e \<Rightarrow> nat \<Rightarrow> bool" where
  "wr_room s n \<longleftrightarrow> unat (u4_strm_buf_offset s) + n < unat (u4_max_strm_size s) \<and>
     unat (u4_max_strm_size s) \<le> length (pu1_strm_buffer s)"

text \<open>The operation wrote into the same buffer and moved the offset by at most \<open>n\<close>.\<close>

definition wr_grow :: "bitstrm_e \<Rightarrow> nat \<Rightarrow> bitstrm_e \<Rightarrow> bool" where
  "wr_grow s n t \<longleftrightarrow> length (pu1_strm_buffer t) = length (pu1_strm_buffer s) \<and>
     u4_max_strm_size t = u4_max_strm_size s \<and>
     unat (u4_strm_buf_offset t) \<le> unat (u4_strm_buf_offset s) + n"

text \<open>It also left the record of NAL starts alone.\<close>

definition wr_step :: "bitstrm_e \<Rightarrow> nat \<Rightarrow> bitstrm_e \<Rightarrow> bool" where
  "wr_step s n t \<longleftrightarrow> wr_grow s n t \<and> i4_num_nal t = i4_num_nal s \<and>
     apu1_nal_start t = apu1_nal_start s"

lemma take_word_bits:
  "k \<le> n \<Longrightarrow> take k (word_bits n w) = word_bits k (drop_bit (n - k) w)"
  by (rule nth_equalityI) (auto simp: nth_word_bits bit_drop_bit_eq intro!: arg_cong [of _ _ "bit w"])

lemma put_bits_spec:
  assumes rel: "wr_rel pre raw s" and n: "1 \<le> n" "n \<le> 32" and code: "unat code < 2 ^ n"
    and room: "wr_room s 8"
  shows "\<exists>t raw'. ihevce_put_bits s code (int n) = Some (IHEVCE_SUCCESS, t) \<and>
    wr_rel pre (raw @ raw') t \<and> wr_bits (raw @ raw') t = wr_bits raw s @ word_bits n code \<and>
    wr_step s 8 t"
proof -
  let ?cw = "u4_cur_word_e s" and ?zr = "i4_zero_bytes_run s"
  define L where "L = nat (i4_bits_left_in_cw s)"
  have L: "i4_bits_left_in_cw s = int L" "1 \<le> L" "L \<le> 32" and low: "\<And>i. i < L \<Longrightarrow> \<not> bit ?cw i"
    using rel by (auto simp: wr_rel_def L_def)
  have out: "out_rel pre raw (pu1_strm_buffer s, u4_strm_buf_offset s, ?zr)"
    using rel by (simp add: wr_rel_def)
  have zr: "?zr \<le> 2" using out by (simp add: out_rel_def epb_run_le)
  have top: "\<And>i. n \<le> i \<Longrightarrow> \<not> bit code i" using code by (rule not_bit_of_less)
  have "drop_bit n code = 0"
    by (rule bit_word_eqI) (simp add: bit_drop_bit_eq top)
  then have asserts: "int n > 0 \<and> int n \<le> 32" "int n < 32 \<longrightarrow> drop_bit (nat (int n)) code = 0"
      "int L > 0 \<and> int L \<le> 32"
    using n L by auto
  note defs = ihevce_put_bits_def Let_def L(1)
  show ?thesis
  proof (cases "n < L")
    case True
    let ?cw' = "?cw OR push_bit (L - n) code"
    let ?t = "s\<lparr>u4_cur_word_e := ?cw', i4_bits_left_in_cw := int (L - n)\<rparr>"
    have "ihevce_put_bits s code (int n) = Some (IHEVCE_SUCCESS, ?t)"
      using True asserts zr by (simp add: defs of_nat_diff nat_diff_distrib')
    moreover have "wr_rel pre (raw @ []) ?t"
      using out True L low by (auto simp: wr_rel_def bit_or_iff bit_push_bit_iff)
    moreover have "take (nat (32 - int (L - n))) (word_bits 32 ?cw') =
        take (nat (32 - int L)) (word_bits 32 ?cw) @ word_bits n code"
    proof -
      have e: "nat (32 - int (L - n)) = (32 - L) + n" "nat (32 - int L) = 32 - L"
          "32 - ((32 - L) + n) = L - n" "32 - (32 - L) = L" "n + (L - n) = L"
        using True L by auto
      have "take ((32 - L) + n) (word_bits 32 ?cw') = word_bits ((32 - L) + n) (drop_bit (L - n) ?cw')"
        using True L e by (simp add: take_word_bits)
      also have "\<dots> = word_bits (32 - L) (drop_bit L ?cw') @ word_bits n (drop_bit (L - n) ?cw')"
        using e(5) by (simp add: word_bits_append drop_bit_drop_bit)
      also have "word_bits (32 - L) (drop_bit L ?cw') = word_bits (32 - L) (drop_bit L ?cw)"
        using True top by (auto simp: word_bits_eq_iff bit_drop_bit_eq bit_or_iff bit_push_bit_iff)
      also have "word_bits n (drop_bit (L - n) ?cw') = word_bits n code"
        using True L low by (auto simp: word_bits_eq_iff bit_drop_bit_eq bit_or_iff bit_push_bit_iff)
      also have "word_bits (32 - L) (drop_bit L ?cw) = take (32 - L) (word_bits 32 ?cw)"
        using L e by (simp add: take_word_bits)
      finally show ?thesis using e by simp
    qed
    then have "wr_bits (raw @ []) ?t = wr_bits raw s @ word_bits n code"
      by (simp add: wr_bits_def L(1))
    moreover have "wr_step s 8 ?t" by (simp add: wr_step_def wr_grow_def)
    ultimately show ?thesis by blast
  next
    case False
    define r where "r = n - L"
    have r: "n = L + r" "r < 32" using False n L by (auto simp: r_def)
    let ?cw' = "?cw OR drop_bit r code"
    let ?cw'' = "if r \<noteq> 0 then push_bit (32 - r) code else 0"
    have ov: "\<not> u4_max_strm_size s \<le> u4_strm_buf_offset s + 4"
      using room unat_u32_lt [of "u4_max_strm_size s"]
      by (simp add: wr_room_def word_le_nat_alt unat_add_u32)
    obtain buf off zr' where f: "put_word_bytes (8 * (0 + 4)) (8 * 0) ?cw'
          (pu1_strm_buffer s, u4_strm_buf_offset s, ?zr) = Some (buf, off, zr')"
        "out_rel pre (raw @ map (word_byte ?cw') (rev [0..<0 + 4])) (buf, off, zr')"
        "length buf = length (pu1_strm_buffer s)" "unat off \<le> unat (u4_strm_buf_offset s) + 2 * 4"
      using put_word_bytes_spec [OF out, of 4 0 ?cw'] room unat_u32_lt [of "u4_max_strm_size s"]
      by (auto simp: wr_room_def)
    let ?raw' = "map (word_byte ?cw') (rev [0..<0 + 4])"
    let ?t = "s\<lparr>pu1_strm_buffer := buf, u4_cur_word_e := ?cw'', i4_bits_left_in_cw := 32 - int r,
        i4_zero_bytes_run := zr', u4_strm_buf_offset := off\<rparr>"
    have ir: "int n - int L = int r" "nat (32 - int r) = 32 - r" using r by auto
    have "ihevce_put_bits s code (int n) = Some (IHEVCE_SUCCESS, ?t)"
      using False asserts zr ov f(1) ir by (simp add: defs)
    moreover have "wr_rel pre (raw @ ?raw') ?t"
      using f(2) r by (auto simp: wr_rel_def bit_push_bit_iff)
    moreover have "wr_bits (raw @ ?raw') ?t = wr_bits raw s @ word_bits n code"
    proof -
      have "bytes_bits ?raw' = word_bits ((32 - L) + L) ?cw'"
        using bytes_bits_word_bytes [of ?cw' 0 4] L by simp
      also have "\<dots> = word_bits (32 - L) (drop_bit L ?cw') @ word_bits L ?cw'"
        by (rule word_bits_append)
      also have "word_bits (32 - L) (drop_bit L ?cw') = take (32 - L) (word_bits 32 ?cw)"
        using L top r by (auto simp: take_word_bits word_bits_eq_iff bit_drop_bit_eq bit_or_iff)
      also have "word_bits L ?cw' = word_bits L (drop_bit r code)"
        using low by (auto simp: word_bits_eq_iff bit_drop_bit_eq bit_or_iff)
      finally have 1: "bytes_bits ?raw' = take (32 - L) (word_bits 32 ?cw) @ word_bits L (drop_bit r code)" .
      have 2: "take r (word_bits 32 ?cw'') = word_bits r code"
        using r by (auto simp: take_word_bits word_bits_eq_iff bit_drop_bit_eq bit_push_bit_iff)
      have 3: "nat (32 - int L) = 32 - L" using L by simp
      show ?thesis
        using 1 2 3 r(1) by (simp add: wr_bits_def L(1) word_bits_append)
    qed
    moreover have "wr_step s 8 ?t" using f(3,4) by (simp add: wr_step_def wr_grow_def)
    ultimately show ?thesis by blast
  qed
qed


lemma put_rbsp_trailing_bits_spec:
  assumes rel: "wr_rel pre raw s" and room: "wr_room s 8"
  shows "\<exists>t raw' k. ihevce_put_rbsp_trailing_bits s = Some (IHEVCE_SUCCESS, t) \<and>
    wr_rel pre (raw @ raw') t \<and> wr_step s 8 t \<and>
    i4_bits_left_in_cw t = 32 \<and> epb_run 0 (raw @ raw') = 0 \<and>
    raw' \<noteq> [] \<and> last raw' \<noteq> 0 \<and> k < 8 \<and>
    bytes_bits (raw @ raw') = wr_bits raw s @ True # replicate k False"
proof -
  let ?cw = "u4_cur_word_e s" and ?zr = "i4_zero_bytes_run s"
  define L where "L = nat (i4_bits_left_in_cw s)"
  define B where "B = (L - 1) div 8"
  define m where "m = (L - 1) mod 8"
  have L: "i4_bits_left_in_cw s = int L" "1 \<le> L" "L \<le> 32" and low: "\<And>i. i < L \<Longrightarrow> \<not> bit ?cw i"
    using rel by (auto simp: wr_rel_def L_def)
  have B: "(int L - 1) div 8 = int B" "B \<le> 3" "L = 8 * B + m + 1" "m < 8"
    using L by (auto simp: B_def m_def zdiv_int of_nat_diff)
  have out: "out_rel pre raw (pu1_strm_buffer s, u4_strm_buf_offset s, ?zr)"
    using rel by (simp add: wr_rel_def)
  let ?off = "u4_strm_buf_offset s"
  let ?cw' = "?cw OR push_bit (L - 1) 1"
  have "unat (?off + 4) = unat ?off + 4"
    using room unat_u32_lt [of "u4_max_strm_size s"] by (simp add: wr_room_def unat_add_u32)
  moreover have "unat (word_of_nat B :: u32) = B" using B(2) by simp
  ultimately have ov: "\<not> u4_max_strm_size s \<le> ?off + 4 - word_of_nat B"
    using room B(2) by (simp add: wr_room_def word_le_nat_alt unat_sub_u32) arith
  have r: "unat ?off + 2 * (4 - B) \<le> length (pu1_strm_buffer s)" "unat ?off + 2 * (4 - B) < 2 ^ 32"
    using room unat_u32_lt [of "u4_max_strm_size s"] unfolding wr_room_def by linarith+
  obtain buf off zr' where f: "put_word_bytes (8 * (B + (4 - B))) (8 * B) ?cw'
        (pu1_strm_buffer s, ?off, ?zr) = Some (buf, off, zr')"
      "out_rel pre (raw @ map (word_byte ?cw') (rev [B..<B + (4 - B)])) (buf, off, zr')"
      "length buf = length (pu1_strm_buffer s)" "unat off \<le> unat ?off + 2 * (4 - B)"
    using put_word_bytes_spec [OF out r, of B ?cw'] by blast
  have e4: "B + (4 - B) = 4" using B(2) by simp
  let ?raw' = "map (word_byte ?cw') (rev [B..<4])"
  let ?t = "s\<lparr>pu1_strm_buffer := buf, u4_strm_buf_offset := off, u4_cur_word_e := 0,
      i4_bits_left_in_cw := 32, i4_zero_bytes_run := 0\<rparr>"
  have snoc: "?raw' = map (word_byte ?cw') (rev [Suc B..<4]) @ [word_byte ?cw' B]"
    using B(2) by (simp add: upt_rec [of B])
  have "bit (word_byte ?cw' B) m"
    using B by (simp add: bit_word_byte bit_or_iff bit_push_bit_iff bit_exp_iff bit_0 add.commute)
  then have nz: "word_byte ?cw' B \<noteq> 0" by auto
  have run0: "epb_run 0 (raw @ ?raw') = 0"
    unfolding snoc using nz by (simp add: zrun_def)
  have "nat (int B * 8) = 8 * B" by simp
  then have run: "ihevce_put_rbsp_trailing_bits s = Some (IHEVCE_SUCCESS, ?t)"
    using ov L B(1) f(1) e4
    by (simp add: ihevce_put_rbsp_trailing_bits_def Let_def nat_diff_distrib')
  have "out_rel pre (raw @ ?raw') (buf, off, 0)"
    using f(2) run0 e4 by (simp add: out_rel_def)
  then have rel': "wr_rel pre (raw @ ?raw') ?t" by (simp add: wr_rel_def)
  have bits: "bytes_bits ?raw' = take (32 - L) (word_bits 32 ?cw) @ True # replicate m False"
  proof -
    have "bytes_bits ?raw' = word_bits ((32 - L) + (1 + m)) (drop_bit (8 * B) ?cw')"
    proof -
      have "8 * (4 - B) = (32 - L) + (1 + m)" using B L by arith
      then show ?thesis using bytes_bits_word_bytes [of ?cw' B "4 - B"] by (simp only: e4)
    qed
    also have "\<dots> = word_bits (32 - L) (drop_bit L ?cw') @
        word_bits 1 (drop_bit (L - 1) ?cw') @ word_bits m (drop_bit (8 * B) ?cw')"
      using B(3) by (simp only: word_bits_append drop_bit_drop_bit) (simp add: algebra_simps)
    also have "word_bits (32 - L) (drop_bit L ?cw') = take (32 - L) (word_bits 32 ?cw)"
      using L by (auto simp: take_word_bits word_bits_eq_iff bit_drop_bit_eq bit_or_iff bit_push_bit_iff bit_1_iff bit_exp_iff)
    also have "word_bits 1 (drop_bit (L - 1) ?cw') = [True]"
    proof -
      have "L - 1 < 32" using L by arith
      then show ?thesis by (simp add: word_bits_def bit_drop_bit_eq bit_or_iff bit_exp_iff)
    qed
    also have "word_bits m (drop_bit (8 * B) ?cw') = replicate m False"
      using B low by (intro nth_equalityI)
        (auto simp: nth_word_bits bit_drop_bit_eq bit_or_iff bit_push_bit_iff bit_1_iff bit_exp_iff)
    finally show ?thesis by simp
  qed
  have "nat (32 - int L) = 32 - L" using L by simp
  then have "bytes_bits (raw @ ?raw') = wr_bits raw s @ True # replicate m False"
    using bits by (simp add: wr_bits_def L(1))
  moreover have "wr_step s 8 ?t" using f(3,4) by (simp add: wr_step_def wr_grow_def)
  moreover have "?raw' \<noteq> []" "last ?raw' \<noteq> 0" unfolding snoc using nz by simp_all
  ultimately show ?thesis using run rel' run0 B(4) 
    by (intro exI [of _ ?t] exI [of _ ?raw'] exI [of _ m]) simp
qed

text \<open>Between NAL units the start code is written past the emulation prevention.\<close>

lemma put_nal_start_code_prefix_spec:
  assumes rel: "wr_rel pre raw s" and flushed: "i4_bits_left_in_cw s = 32" "epb_run 0 raw = 0"
    and room: "wr_room s 8"
    and nals: "0 \<le> i4_num_nal s" "i4_num_nal s < MAX_NALS_IN_AU"
      "length (apu1_nal_start s) = nat MAX_NALS_IN_AU"
  shows "\<exists>t. ihevce_put_nal_start_code_prefix s z = Some (IHEVCE_SUCCESS, t) \<and>
    wr_rel (pre @ epb 0 raw @ (if z \<noteq> 0 then [0, 0, 0, 1] else [0, 0, 1])) [] t \<and>
    wr_bits [] t = [] \<and> wr_grow s 4 t \<and> i4_num_nal t = i4_num_nal s + 1 \<and>
    apu1_nal_start t = (apu1_nal_start s)[nat (i4_num_nal s) := unat (u4_strm_buf_offset s)]"
proof -
  let ?off = "u4_strm_buf_offset s" and ?buf = "pu1_strm_buffer s"
  have max: "unat ?off + 8 < unat (u4_max_strm_size s)" "unat (u4_max_strm_size s) \<le> length ?buf"
    using room by (auto simp: wr_room_def)
  have o: "unat (?off + 1) = unat ?off + 1" "unat (?off + 2) = unat ?off + 2"
      "unat (?off + 3) = unat ?off + 3" "unat (?off + 4) = unat ?off + 4"
    using max(1) unat_u32_lt [of "u4_max_strm_size s"] by (simp_all add: unat_add_u32)
  have o': "unat (2 + ?off) = unat ?off + 2" "unat (3 + ?off) = unat ?off + 3"
      "unat (4 + ?off) = unat ?off + 4"
    using o by (simp_all add: add.commute)
  have s: "?off + 1 + 1 = ?off + 2" "?off + 1 + 1 + 1 = ?off + 3" "?off + 2 + 1 = ?off + 3"
      "?off + 3 + 1 = ?off + 4"
    by (simp_all add: add.assoc)
  have ov: "\<not> u4_max_strm_size s < ?off + 4"
    using max(1) o by (simp add: word_less_nat_alt)
  have tk: "take (unat ?off) ?buf = pre @ epb 0 raw" "i4_zero_bytes_run s = 0"
      "\<forall>i < 32. \<not> bit (u4_cur_word_e s) i"
    using rel flushed by (simp_all add: wr_rel_def out_rel_def)
  have i: "nat (i4_num_nal s) < length (apu1_nal_start s)" using nals by simp
  show ?thesis
  proof (cases "z = 0")
    case True
    let ?b = "((?buf[unat ?off := 0])[unat ?off + 1 := 0])[unat ?off + 2 := 1]"
    have "take (unat ?off + 3) ?b = (pre @ epb 0 raw) @ [0, 0, 1]"
      using max tk(1) take_wr [of "unat ?off" ?buf 0]
        take_wr [of "unat ?off + 1" "?buf[unat ?off := 0]" 0]
        take_wr [of "unat ?off + 2" "(?buf[unat ?off := 0])[unat ?off + 1 := 0]" 1]
      by (simp add: numeral_eq_Suc)
    then show ?thesis
      using True ov nals i max o o' s tk flushed
      by (simp add: ihevce_put_nal_start_code_prefix_def Let_def wr_rel_def out_rel_def wr_bits_def wr_grow_def)
  next
    case False
    let ?b = "(((?buf[unat ?off := 0])[unat ?off + 1 := 0])[unat ?off + 2 := 0])[unat ?off + 3 := 1]"
    have "take (unat ?off + 4) ?b = (pre @ epb 0 raw) @ [0, 0, 0, 1]"
      using max tk(1) take_wr [of "unat ?off" ?buf 0]
        take_wr [of "unat ?off + 1" "?buf[unat ?off := 0]" 0]
        take_wr [of "unat ?off + 2" "(?buf[unat ?off := 0])[unat ?off + 1 := 0]" 0]
        take_wr [of "unat ?off + 3" "((?buf[unat ?off := 0])[unat ?off + 1 := 0])[unat ?off + 2 := 0]" 1]
      by (simp add: numeral_eq_Suc)
    then show ?thesis
      using False ov nals i max o o' s tk flushed
      by (simp add: ihevce_put_nal_start_code_prefix_def Let_def wr_rel_def out_rel_def wr_bits_def wr_grow_def)
  qed
qed

text \<open>Exp-Golomb codewords reach the stream whole when the value fits in 16 bits.\<close>

lemma put_uev_spec:
  assumes rel: "wr_rel pre raw s" and v: "unat v + 1 < 2 ^ 16" and room: "wr_room s 8"
  shows "\<exists>t raw'. ihevce_put_uev s v = Some (IHEVCE_SUCCESS, t) \<and>
    wr_rel pre (raw @ raw') t \<and> wr_bits (raw @ raw') t = wr_bits raw s @ ue_bits (unat v) \<and>
    wr_step s 8 t"
proof -
  let ?r = "nbits (unat v + 1)"
  have u: "unat (v + 1) = unat v + 1" using v by (simp add: unat_add_u32)
  then have nz: "v + 1 \<noteq> 0" by (auto simp: word_unat_eq_iff)
  have w: "v + 1 = word_of_nat (unat v + 1)" using u by simp
  have r: "1 \<le> ?r" "?r \<le> 16" "unat v + 1 < 2 ^ ?r"
    using nbits_le [of "unat v + 1" 16] nbits_bounds [of "unat v + 1"] v by auto
  have "unat (GETRANGE (v + 1)) = ?r" using GETRANGE_nbits [OF nz] u by simp
  then have "2 * GETRANGE (v + 1) - 1 = word_of_nat (2 * ?r - 1)"
    using r by (simp add: word_unat_eq_iff unat_sub_u32 unat_word_ariths)
  then have len: "sint (2 * GETRANGE (v + 1) - 1) = int (2 * ?r - 1)"
    using r sint_small_nat [of "2 * ?r - 1"] by simp
  have le: "(2::nat) ^ ?r \<le> 2 ^ (2 * ?r - 1)" using r by (intro power_increasing) simp_all
  have code: "unat (v + 1) < 2 ^ (2 * ?r - 1)" unfolding u using r(3) le by (rule less_le_trans)
  have bits: "word_bits (2 * ?r - 1) (v + 1) = ue_bits (unat v)"
    unfolding w by (rule ue_bits_word_bits [OF v, symmetric])
  have "1 \<le> 2 * ?r - 1" "2 * ?r - 1 \<le> 32" using r by auto
  from put_bits_spec [OF rel this code room]
  show ?thesis by (simp only: ihevce_put_uev_def Let_def len bits)
qed

lemma put_sev_eq_put_uev:
  assumes "\<bar>x\<bar> < 2 ^ 31"
  shows "ihevce_put_sev s x = ihevce_put_uev s (word_of_nat (se_rank x))"
proof -
  have "(if x \<le> 0 then word_of_int ((- x) * 2) else word_of_int (x * 2 - 1)) =
      (word_of_nat (se_rank x) :: u32)"
  proof (cases "x \<le> 0")
    case True
    then have "int (se_rank x) = (- x) * 2" by (simp add: se_rank_def)
    then show ?thesis using True by (metis of_int_of_nat_eq)
  next
    case False
    then have "int (se_rank x) = x * 2 - 1" by (simp add: se_rank_def)
    then show ?thesis using False by (metis of_int_of_nat_eq)
  qed
  then show ?thesis by (simp add: ihevce_put_sev_def ihevce_put_uev_def)
qed

lemma put_sev_spec:
  assumes rel: "wr_rel pre raw s" and x: "\<bar>x\<bar> < 2 ^ 15" and room: "wr_room s 8"
  shows "\<exists>t raw'. ihevce_put_sev s x = Some (IHEVCE_SUCCESS, t) \<and>
    wr_rel pre (raw @ raw') t \<and> wr_bits (raw @ raw') t = wr_bits raw s @ se_bits x \<and>
    wr_step s 8 t"
proof -
  have r: "se_rank x + 1 < 2 ^ 16" using x by (auto simp: se_rank_def)
  then have "unat (word_of_nat (se_rank x) :: u32) = se_rank x" by simp
  then show ?thesis
    using put_uev_spec [OF rel _ room, of "word_of_nat (se_rank x)"] r x
    by (simp add: put_sev_eq_put_uev se_bits_def)
qed

end
