(* ===== verification/Cabac_Enc.thy ===== *)
theory Cabac_Enc
  imports Bit_Writer Cabac_Tables Binarisation
begin

text \<open>
  The encoder's CABAC engine, \<^verbatim>\<open>encoder/ihevce_cabac.c\<close> and the inline functions of
  \<^verbatim>\<open>encoder/ihevce_cabac.h\<close>. The low register holds the bits of the interval's start that are
  not in the stream yet, with a carry on top; bytes of ones are counted as outstanding until a
  carry passes through them or cannot any more.

  The functions' \<^verbatim>\<open>WORD32\<close> result is an error code; \<open>err_or\<close> is the bitwise or of the two codes
  that occur. The initial contexts per quantiser, a generated table, are an argument. Context
  indices, bin counts and the symbols of the unary codes are naturals.

  \<open>enc_rel\<close> relates the registers and the bytes written to the state of the arithmetic coder; the
  lemmas show that every operation refines the coder's step, that a carry reaches the bytes
  already written through their emulation prevention, and that the flushed stream lies in the
  final interval.
\<close>

unbundle bit_operations_syntax

datatype CABAC_OP_MODE = CABAC_MODE_ENCODE_BITS | CABAC_MODE_COMPUTE_BITS

record cab_ctxt_e =
  e_cabac_op_mode :: CABAC_OP_MODE
  u4_bits_estimated_q12 :: u32
  u4_texture_bits_estimated_q12 :: u32
  u4_range_e :: u32
  u4_low :: u32
  u4_bits_gen :: u32
  u4_out_standing_bytes :: u32
  pu1_strm_buffer_c :: "u8 list"
  u4_max_strm_size_c :: u32
  u4_strm_buf_offset_c :: u32
  i4_zero_bytes_run_c :: int
  au1_ctxt_models_e :: "u8 list"
  au1_ctxt_models_top_right :: "u8 list"
  i1_entropy_coding_sync_enabled_flag :: int
  u4_first_slice_start_offset :: u32

abbreviation (input) CABAC_BITS :: u32 where "CABAC_BITS \<equiv> 9"

definition err_or :: "ihevce_error \<Rightarrow> ihevce_error \<Rightarrow> ihevce_error" where
  "err_or a b = (if a = IHEVCE_SUCCESS then b else a)"

section \<open>Operations\<close>

text \<open>The members taken from the bitstream, and the engine's registers, when bits are written.\<close>

definition enc_attach :: "bitstrm_e \<Rightarrow> cab_ctxt_e \<Rightarrow> cab_ctxt_e" where
  "enc_attach bs e = e \<lparr> pu1_strm_buffer_c := pu1_strm_buffer bs, u4_max_strm_size_c := u4_max_strm_size bs,
     u4_strm_buf_offset_c :=
       (if i1_entropy_coding_sync_enabled_flag e = 1 then u4_first_slice_start_offset e
        else u4_strm_buf_offset bs),
     i4_zero_bytes_run_c := i4_zero_bytes_run bs,
     u4_low := 0, u4_range_e := 510, u4_bits_gen := 0, u4_out_standing_bytes := 0 \<rparr>"

definition ihevce_cabac_reset ::
  "cab_ctxt_e \<Rightarrow> bitstrm_e \<Rightarrow> CABAC_OP_MODE \<Rightarrow> ihevce_error \<times> cab_ctxt_e" where
  "ihevce_cabac_reset e bs mode = (
     let e = e \<lparr> e_cabac_op_mode := mode \<rparr> in
     (IHEVCE_SUCCESS,
      if mode = CABAC_MODE_ENCODE_BITS then enc_attach bs e
      else e \<lparr> u4_bits_estimated_q12 := 0, u4_texture_bits_estimated_q12 := 0, u4_range_e := 0 \<rparr>))"

definition ihevce_cabac_init ::
  "u8 list list list \<Rightarrow> cab_ctxt_e \<Rightarrow> bitstrm_e \<Rightarrow> nat \<Rightarrow> nat \<Rightarrow> CABAC_OP_MODE \<Rightarrow>
   (ihevce_error \<times> cab_ctxt_e) option" where
  "ihevce_cabac_init gau1_ihevc_cab_ctxts e bs slice_qp cabac_init_idc mode = do {
     require (slice_qp < 52);
     require (cabac_init_idc < 3);
     let e = e \<lparr> e_cabac_op_mode := mode \<rparr>;
     let e = (if mode = CABAC_MODE_ENCODE_BITS
              then (enc_attach bs e) \<lparr> u4_bits_estimated_q12 := 0, u4_texture_bits_estimated_q12 := 0 \<rparr>
              else e \<lparr> u4_bits_estimated_q12 := 0, u4_texture_bits_estimated_q12 := 0, u4_range_e := 0 \<rparr>);
     tables \<leftarrow> rd gau1_ihevc_cab_ctxts cabac_init_idc;
     states \<leftarrow> rd tables slice_qp;
     require (IHEVC_CAB_CTXT_END \<le> length states);
     Some (IHEVCE_SUCCESS, e \<lparr> au1_ctxt_models_e := take IHEVC_CAB_CTXT_END states \<rparr>)
   }"

text \<open>
  Inserting the carry: when the four bytes before the offset are \<^verbatim>\<open>00 00 03 03\<close> the first
  \<^verbatim>\<open>03\<close> is an emulation prevention byte the carry makes superfluous, and the offset steps back.
\<close>

definition check_epb :: "u8 list \<Rightarrow> u32 \<Rightarrow> bool option" where
  "check_epb buf off = do {
     b1 \<leftarrow> rd buf (unat (off - 1));
     if b1 = 0x03 then do {
       b2 \<leftarrow> rd buf (unat (off - 2));
       if b2 = 0x03 then do {
         b3 \<leftarrow> rd buf (unat (off - 3));
         if b3 = 0x00 then do {
           b4 \<leftarrow> rd buf (unat (off - 4));
           Some (b4 = 0x00)
         } else Some False
       } else Some False
     } else Some False
   }"

definition insert_carry :: "bool \<Rightarrow> out_pos \<Rightarrow> out_pos option" where
  "insert_carry carry = (\<lambda>(buf, off, zero_run).
     if carry then do {
       superfluous \<leftarrow> check_epb buf off;
       let off = (if superfluous then off - 1 else off);
       b \<leftarrow> rd buf (unat (off - 1));
       buf \<leftarrow> wr buf (unat (off - 1)) (b + 1);
       Some (buf, off, 0)
     } else Some (buf, off, zero_run))"

text \<open>The loop \<^verbatim>\<open>while(u4_out_standing_bytes)\<close>.\<close>

primrec put_outstanding :: "nat \<Rightarrow> bool \<Rightarrow> out_pos \<Rightarrow> out_pos option" where
  "put_outstanding 0 carry st = Some st"
| "put_outstanding (Suc n) carry st = do {
     st \<leftarrow> PUTBYTE_EPB (if carry then 0 else 0xFF) st;
     put_outstanding n carry st
   }"

definition ihevce_cabac_put_byte :: "cab_ctxt_e \<Rightarrow> (ihevce_error \<times> cab_ctxt_e) option" where
  "ihevce_cabac_put_byte e = do {
     let low = u4_low e;
     let bits_gen = u4_bits_gen e;
     lead_byte \<leftarrow> shr32 low (bits_gen + CABAC_BITS - 8);
     require (u4_range_e e \<ge> 256 \<and> u4_range_e e < 512);
     require (bits_gen \<ge> 8);
     let bits_gen = bits_gen - 8;
     top \<leftarrow> shl32 1 (CABAC_BITS + bits_gen);
     let e = e \<lparr> u4_low := low AND (top - 1), u4_bits_gen := bits_gen \<rparr>;
     if lead_byte = 0xff then
       Some (IHEVCE_SUCCESS, e \<lparr> u4_out_standing_bytes := u4_out_standing_bytes e + 1 \<rparr>)
     else (
       let carry = (drop_bit 8 lead_byte AND 0x1 \<noteq> 0) in
       if u4_strm_buf_offset_c e + u4_out_standing_bytes e + 1 \<ge> u4_max_strm_size_c e then
         Some (IHEVCE_BITSTREAM_BUFFER_OVERFLOW, e)
       else do {
         st \<leftarrow> insert_carry carry (pu1_strm_buffer_c e, u4_strm_buf_offset_c e, i4_zero_bytes_run_c e);
         st \<leftarrow> put_outstanding (unat (u4_out_standing_bytes e)) carry st;
         (buf, off, zero_run) \<leftarrow> PUTBYTE_EPB (ucast (lead_byte AND 0xFF)) st;
         Some (IHEVCE_SUCCESS,
           e \<lparr> u4_out_standing_bytes := 0, pu1_strm_buffer_c := buf, u4_strm_buf_offset_c := off,
               i4_zero_bytes_run_c := zero_run \<rparr>)
       })
   }"

text \<open>The end of the encoding functions: a byte is put when more than 9 bits are generated.\<close>

definition put_if_ready :: "cab_ctxt_e \<Rightarrow> (ihevce_error \<times> cab_ctxt_e) option" where
  "put_if_ready e =
     (if u4_bits_gen e > CABAC_BITS then ihevce_cabac_put_byte e else Some (IHEVCE_SUCCESS, e))"

definition ihevce_cabac_encode_bin ::
  "cab_ctxt_e \<Rightarrow> u32 \<Rightarrow> nat \<Rightarrow> (ihevce_error \<times> cab_ctxt_e) option" where
  "ihevce_cabac_encode_bin e bin ctxt_index = do {
     let rng = u4_range_e e;
     let low = u4_low e;
     model \<leftarrow> rd (au1_ctxt_models_e e) ctxt_index;
     let state_mps = (ucast model :: u32);
     require (bin = 0 \<or> bin = 1);
     require (ctxt_index < IHEVC_CAB_CTXT_END);
     require (state_mps < 128);
     bits \<leftarrow> rd gau2_ihevce_cabac_bin_to_bits (unat (state_mps XOR bin));
     nxt \<leftarrow> rd gau1_ihevc_next_state (unat (push_bit 1 state_mps OR bin));
     if e_cabac_op_mode e = CABAC_MODE_ENCODE_BITS then do {
       require (rng \<ge> 256 \<and> rng < 512);
       rlps_row \<leftarrow> rd gau1_ihevc_cabac_rlps (unat (drop_bit 1 state_mps));
       rlps \<leftarrow> rd rlps_row (unat (drop_bit 6 rng AND 0x3));
       let u4_rlps = (ucast rlps :: u32);
       let rng = rng - u4_rlps;
       let (low, rng) = (if (state_mps AND 0x1) XOR bin \<noteq> 0 then (low + rng, u4_rlps) else (low, rng));
       let e = e \<lparr> u4_bits_estimated_q12 := u4_bits_estimated_q12 e + ucast bits,
                   au1_ctxt_models_e := (au1_ctxt_models_e e)[ctxt_index := nxt] \<rparr>;
       let shift = 9 - GETRANGE rng;
       low \<leftarrow> shl32 low shift;
       rng \<leftarrow> shl32 rng shift;
       put_if_ready (e \<lparr> u4_bits_gen := u4_bits_gen e + shift, u4_range_e := rng, u4_low := low \<rparr>)
     }
     else Some (IHEVCE_SUCCESS,
       e \<lparr> u4_bits_estimated_q12 := u4_bits_estimated_q12 e + ucast bits,
           au1_ctxt_models_e := (au1_ctxt_models_e e)[ctxt_index := nxt] \<rparr>)
   }"

definition ihevce_cabac_encode_bypass_bin ::
  "cab_ctxt_e \<Rightarrow> u32 \<Rightarrow> (ihevce_error \<times> cab_ctxt_e) option" where
  "ihevce_cabac_encode_bypass_bin e bin = (
     let rng = u4_range_e e; low = u4_low e in
     if e_cabac_op_mode e = CABAC_MODE_ENCODE_BITS then do {
       require (rng \<ge> 256 \<and> rng < 512);
       require (bin = 0 \<or> bin = 1);
       let e = e \<lparr> u4_bits_estimated_q12 := u4_bits_estimated_q12 e + push_bit 12 1 \<rparr>;
       let low = push_bit 1 low;
       let low = (if bin \<noteq> 0 then low + rng else low);
       put_if_ready (e \<lparr> u4_bits_gen := u4_bits_gen e + 1, u4_low := low \<rparr>)
     }
     else Some (IHEVCE_SUCCESS,
       e \<lparr> u4_bits_estimated_q12 := u4_bits_estimated_q12 e + push_bit 12 1 \<rparr>))"

text \<open>The loop that takes 8 bins at a time, then the remaining bins.\<close>

function bypass_bytes_loop ::
  "u32 \<Rightarrow> nat \<Rightarrow> u32 \<Rightarrow> ihevce_error \<Rightarrow> cab_ctxt_e \<Rightarrow> (ihevce_error \<times> cab_ctxt_e) option" where
  "bypass_bytes_loop u4_bins num_bins rng error e =
     (if num_bins > 8 then do {
        let num_bins = num_bins - 8;
        let next_byte = drop_bit num_bins u4_bins AND 0xff;
        let e = e \<lparr> u4_low := push_bit 8 (u4_low e) + next_byte * rng,
                    u4_bits_gen := u4_bits_gen e + 8 \<rparr>;
        (err, e) \<leftarrow> put_if_ready e;
        bypass_bytes_loop u4_bins num_bins rng (err_or error err) e
      } else do {
        mask \<leftarrow> shl32 1 (word_of_nat num_bins);
        let next_byte = u4_bins AND (mask - 1);
        let e = e \<lparr> u4_low := push_bit num_bins (u4_low e) + next_byte * rng,
                    u4_bits_gen := u4_bits_gen e + word_of_nat num_bins \<rparr>;
        (err, e) \<leftarrow> put_if_ready e;
        Some (err_or error err, e)
      })"
  by pat_completeness auto
termination by (relation "measure (\<lambda>(_, n, _, _, _). n)") auto

declare bypass_bytes_loop.simps [simp del]

definition ihevce_cabac_encode_bypass_bins ::
  "cab_ctxt_e \<Rightarrow> u32 \<Rightarrow> nat \<Rightarrow> (ihevce_error \<times> cab_ctxt_e) option" where
  "ihevce_cabac_encode_bypass_bins e u4_bins num_bins = (
     let rng = u4_range_e e in
     if e_cabac_op_mode e = CABAC_MODE_ENCODE_BITS then do {
       require (num_bins < 33 \<and> num_bins > 0);
       require (rng \<ge> 256 \<and> rng < 512);
       let e = e \<lparr> u4_bits_estimated_q12 := u4_bits_estimated_q12 e + push_bit 12 (word_of_nat num_bins) \<rparr>;
       bypass_bytes_loop u4_bins num_bins rng IHEVCE_SUCCESS e
     }
     else Some (IHEVCE_SUCCESS,
       e \<lparr> u4_bits_estimated_q12 := u4_bits_estimated_q12 e + push_bit 12 (word_of_nat num_bins) \<rparr>))"

definition ihevce_cabac_flush :: "cab_ctxt_e \<Rightarrow> (ihevce_error \<times> cab_ctxt_e) option" where
  "ihevce_cabac_flush e = do {
     let low = u4_low e;
     let bits_gen = u4_bits_gen e;
     c \<leftarrow> shr32 low (bits_gen + CABAC_BITS);
     let carry = (c AND 0x1 \<noteq> 0);
     if u4_strm_buf_offset_c e + u4_out_standing_bytes e + 1 \<ge> u4_max_strm_size_c e then
       Some (IHEVCE_BITSTREAM_BUFFER_OVERFLOW, e)
     else do {
       st \<leftarrow> insert_carry carry (pu1_strm_buffer_c e, u4_strm_buf_offset_c e, i4_zero_bytes_run_c e);
       st \<leftarrow> put_outstanding (unat (u4_out_standing_bytes e)) carry st;
       top \<leftarrow> shl32 1 (bits_gen + CABAC_BITS);
       let low = low AND (top - 1);
       let bits_left = bits_gen + 1;
       rem_bits \<leftarrow> shr32 low (bits_gen + CABAC_BITS - bits_left);
       (st, bits_left) \<leftarrow> (if bits_left \<ge> 8 then do {
           last_byte \<leftarrow> shr32 rem_bits (bits_left - 8);
           st \<leftarrow> PUTBYTE_EPB (ucast (last_byte AND 0xFF)) st;
           Some (st, bits_left - 8)
         } else Some (st, bits_left));
       body \<leftarrow> shl32 rem_bits (8 - bits_left);
       stop \<leftarrow> shl32 1 (7 - bits_left);
       let last_byte = (body OR stop) AND 0xFF;
       (buf, off, zero_run) \<leftarrow> PUTBYTE_EPB (ucast last_byte) st;
       Some (IHEVCE_SUCCESS,
         e \<lparr> pu1_strm_buffer_c := buf, u4_strm_buf_offset_c := off, i4_zero_bytes_run_c := 0 \<rparr>)
     }
   }"

definition ihevce_cabac_encode_terminate ::
  "cab_ctxt_e \<Rightarrow> u32 \<Rightarrow> (ihevce_error \<times> cab_ctxt_e) option" where
  "ihevce_cabac_encode_terminate e term_bin = do {
     let rng = u4_range_e e;
     let low = u4_low e;
     require (rng \<ge> 256 \<and> rng < 512);
     require (term_bin = 0 \<or> term_bin = 1);
     let u4_rlps = 2;
     let rng = rng - u4_rlps;
     let (low, rng) = (if term_bin \<noteq> 0 then (low + rng, u4_rlps) else (low, rng));
     let shift = 9 - GETRANGE rng;
     low \<leftarrow> shl32 low shift;
     rng \<leftarrow> shl32 rng shift;
     let e = e \<lparr> u4_bits_gen := u4_bits_gen e + shift, u4_range_e := rng, u4_low := low \<rparr>;
     (error, e) \<leftarrow> put_if_ready e;
     (flushed, e) \<leftarrow> (if term_bin \<noteq> 0 then ihevce_cabac_flush e else Some (IHEVCE_SUCCESS, e));
     bits \<leftarrow> rd gau2_ihevce_cabac_bin_to_bits (unat (push_bit 1 62 OR term_bin));
     Some (error, e \<lparr> u4_bits_estimated_q12 := u4_bits_estimated_q12 e + ucast bits \<rparr>)
   }"

text \<open>The loop over the bins that are 1.\<close>

primrec encode_ones ::
  "nat \<Rightarrow> nat \<Rightarrow> nat \<Rightarrow> nat \<Rightarrow> nat \<Rightarrow> ihevce_error \<Rightarrow> cab_ctxt_e \<Rightarrow> (ihevce_error \<times> cab_ctxt_e) option" where
  "encode_ones 0 i ctxt_index ctxt_shift ctxt_inc_max error e = Some (error, e)"
| "encode_ones (Suc n) i ctxt_index ctxt_shift ctxt_inc_max error e = do {
     let bin_ctxt = ctxt_index + min (i div 2 ^ ctxt_shift) ctxt_inc_max;
     (err, e) \<leftarrow> ihevce_cabac_encode_bin e 1 bin_ctxt;
     encode_ones n (i + 1) ctxt_index ctxt_shift ctxt_inc_max (err_or error err) e
   }"

definition ihevce_cabac_encode_tunary ::
  "cab_ctxt_e \<Rightarrow> nat \<Rightarrow> nat \<Rightarrow> nat \<Rightarrow> nat \<Rightarrow> nat \<Rightarrow> (ihevce_error \<times> cab_ctxt_e) option" where
  "ihevce_cabac_encode_tunary e v c_max ctxt_index ctxt_shift ctxt_inc_max = do {
     require (c_max > 0);
     require (v \<le> c_max);
     require (ctxt_index < IHEVC_CAB_CTXT_END);
     require (ctxt_index + c_max div 2 ^ ctxt_shift < IHEVC_CAB_CTXT_END);
     if 0 = v then ihevce_cabac_encode_bin e 0 ctxt_index
     else do {
       (error, e) \<leftarrow> encode_ones v 0 ctxt_index ctxt_shift ctxt_inc_max IHEVCE_SUCCESS e;
       if v < c_max then do {
         let bin_ctxt = ctxt_index + min (v div 2 ^ ctxt_shift) ctxt_inc_max;
         (err, e) \<leftarrow> ihevce_cabac_encode_bin e 0 bin_ctxt;
         Some (err_or error err, e)
       } else Some (error, e)
     }
   }"

definition ihevce_cabac_encode_tunary_bypass ::
  "cab_ctxt_e \<Rightarrow> nat \<Rightarrow> nat \<Rightarrow> (ihevce_error \<times> cab_ctxt_e) option" where
  "ihevce_cabac_encode_tunary_bypass e v c_max = do {
     require (c_max > 0);
     require (v \<le> c_max);
     let (len, minus) = (if v < c_max then (v + 1, 2) else (v, 1));
     ones \<leftarrow> shl32 1 (word_of_nat len);
     let u4_bins = ones - minus;
     ihevce_cabac_encode_bypass_bins e u4_bins len
   }"

definition ihevce_cabac_encode_egk ::
  "cab_ctxt_e \<Rightarrow> u32 \<Rightarrow> u32 \<Rightarrow> (ihevce_error \<times> cab_ctxt_e) option" where
  "ihevce_cabac_encode_egk e u4_sym k = do {
     q \<leftarrow> shr32 u4_sym k;
     let u4_sym_shiftk_plus1 = q + 1;
     let unary_length = GETRANGE u4_sym_shiftk_plus1;
     ones \<leftarrow> shl32 1 unary_length;
     let u4_unary_bins = ones - 2;
     hi \<leftarrow> shl32 u4_unary_bins (unary_length - 1);
     m \<leftarrow> shl32 1 (unary_length - 1);
     let u4_egk = hi OR (u4_sym_shiftk_plus1 AND (m - 1));
     u4_egk \<leftarrow> shl32 u4_egk k;
     m \<leftarrow> shl32 1 k;
     let u4_egk = u4_egk OR (u4_sym AND (m - 1));
     let num_bins = 2 * unary_length - 1 + k;
     ihevce_cabac_encode_bypass_bins e u4_egk (unat num_bins)
   }"

definition ihevce_cabac_encode_trunc_rice ::
  "cab_ctxt_e \<Rightarrow> u32 \<Rightarrow> u32 \<Rightarrow> u32 \<Rightarrow> (ihevce_error \<times> cab_ctxt_e) option" where
  "ihevce_cabac_encode_trunc_rice e u4_sym c_rice_param c_rice_max = do {
     require (c_rice_max > u4_sym);
     q \<leftarrow> shr32 u4_sym c_rice_param;
     let unary_length = q + 1;
     ones \<leftarrow> shl32 1 unary_length;
     let u4_unary_bins = ones - 2;
     hi \<leftarrow> shl32 u4_unary_bins c_rice_param;
     m \<leftarrow> shl32 1 c_rice_param;
     let u4_tr = hi OR (u4_sym AND (m - 1));
     let num_bins = unary_length + c_rice_param;
     ihevce_cabac_encode_bypass_bins e u4_tr (unat num_bins)
   }"

definition ihevce_cabac_ctxt_backup :: "cab_ctxt_e \<Rightarrow> ihevce_error \<times> cab_ctxt_e" where
  "ihevce_cabac_ctxt_backup e =
     (IHEVCE_SUCCESS, e \<lparr> au1_ctxt_models_top_right := au1_ctxt_models_e e \<rparr>)"

definition ihevce_cabac_ctxt_row_init :: "cab_ctxt_e \<Rightarrow> ihevce_error \<times> cab_ctxt_e" where
  "ihevce_cabac_ctxt_row_init e =
     (IHEVCE_SUCCESS,
      e \<lparr> u4_low := 0, u4_range_e := 510, u4_bits_gen := 0, u4_out_standing_bytes := 0,
          i4_zero_bytes_run_c := 0, au1_ctxt_models_e := au1_ctxt_models_top_right e \<rparr>)"

section \<open>Carries and emulation prevention\<close>

text \<open>
  The bytes written after the last start code never end in \<^verbatim>\<open>00 00 03\<close>, and they end in zeros
  as the zero run says. So \<^verbatim>\<open>00 00 03 03\<close> is always a payload byte 3 behind its emulation
  prevention byte, which is what the carry has to recognise.
\<close>

definition clean :: "u8 list \<Rightarrow> bool" where
  "clean pre \<longleftrightarrow> pre \<noteq> [] \<and> last pre \<noteq> 0 \<and> last pre \<noteq> 3"

lemma last_append_epb1: "last (xs @ epb1 z b) = b" "epb1 z b \<noteq> []"
  by (auto simp: epb1_def)

lemma coded_last_zero:
  assumes "clean pre"
  shows "last (pre @ epb 0 raw) = 0 \<longleftrightarrow> 1 \<le> epb_run 0 raw"
proof (cases raw rule: rev_cases)
  case Nil
  then show ?thesis using assms by (simp add: clean_def)
next
  case (snoc ys b)
  then show ?thesis using last_append_epb1(1) [of "pre @ epb 0 ys" "epb_run 0 ys" b]
    by (simp add: zrun_def)
qed

lemma snoc2_eq: "ys @ [a, b] = xs @ [c] \<longleftrightarrow> b = c \<and> xs = ys @ [a]"
  by (metis append.assoc append1_eq_conv append_Cons append_Nil)

lemma coded_two_zeros:
  assumes "clean pre" "pre @ epb 0 raw = ys @ [0, 0]"
  shows "epb_run 0 raw = 2"
proof (cases raw rule: rev_cases)
  case Nil
  then show ?thesis using assms by (auto simp: clean_def)
next
  case (snoc ws b)
  let ?z = "epb_run 0 ws"
  have z: "?z \<le> 2" by (simp add: epb_run_le)
  have c: "pre @ epb 0 ws @ epb1 ?z b = ys @ [0, 0]" using assms(2) snoc by simp
  show ?thesis
  proof (cases "?z = 2 \<and> unat b \<le> 3")
    case True
    then show ?thesis using c snoc2_eq [of ys 0 0 "pre @ epb 0 ws @ [3]" b] by (simp add: epb1_def)
  next
    case False
    then have "b = 0" "pre @ epb 0 ws = ys @ [0]"
      using c snoc2_eq [of ys 0 0 "pre @ epb 0 ws" b] by (auto simp: epb1_def)
    moreover from this have "1 \<le> ?z" using coded_last_zero [OF assms(1), of ws] by simp
    ultimately show ?thesis using False z snoc by (auto simp: zrun_def)
  qed
qed

lemma coded_no_003:
  assumes "clean pre"
  shows "pre @ epb 0 raw \<noteq> ys @ [0, 0, 3]"
proof
  assume eq: "pre @ epb 0 raw = ys @ [0, 0, 3]"
  show False
  proof (cases raw rule: rev_cases)
    case Nil
    then show ?thesis using assms eq by (simp add: clean_def)
  next
    case (snoc ws b)
    let ?z = "epb_run 0 ws"
    have c: "pre @ epb 0 ws @ epb1 ?z b = (ys @ [0]) @ [0, 3]" using eq snoc by simp
    show ?thesis
    proof (cases "?z = 2 \<and> unat b \<le> 3")
      case True
      then show ?thesis using c snoc2_eq [of "ys @ [0]" 0 3 "pre @ epb 0 ws @ [3]" b] by (simp add: epb1_def)
    next
      case False
      then have "b = 3" "pre @ epb 0 ws = ys @ [0, 0]"
        using c snoc2_eq [of "ys @ [0]" 0 3 "pre @ epb 0 ws" b] by (auto simp: epb1_def)
      then show ?thesis using coded_two_zeros [OF assms] False by force
    qed
  qed
qed

text \<open>The end of the code of a payload whose last byte is \<open>b\<close>, as the carry looks at it.\<close>

definition ends_0033 :: "u8 list \<Rightarrow> bool" where
  "ends_0033 xs \<longleftrightarrow> (\<exists>ys. xs = ys @ [0, 0, 3, 3])"

lemma coded_two_zerosI:
  assumes "clean pre" "epb_run 0 raw = 2"
  shows "\<exists>ys. pre @ epb 0 raw = ys @ [0, 0]"
proof (cases raw rule: rev_cases)
  case Nil
  then show ?thesis using assms by simp
next
  case (snoc ws b)
  then have b: "b = 0" "epb_run 0 ws = 1"
    using assms(2) epb_run_le [of 0 ws] by (auto simp: zrun_def split: if_splits)
  then have l: "last (pre @ epb 0 ws) = 0" using coded_last_zero [OF assms(1), of ws] by simp
  have "pre @ epb 0 ws \<noteq> []" using assms(1) by (simp add: clean_def)
  then have "pre @ epb 0 ws = butlast (pre @ epb 0 ws) @ [0]" using l by (metis append_butlast_last_id)
  then have "pre @ epb 0 raw = butlast (pre @ epb 0 ws) @ [0, 0]" using snoc b by (simp add: epb1_def)
  then show ?thesis by blast
qed

lemma coded_ends_0033:
  assumes "clean pre"
  shows "ends_0033 (pre @ epb 0 (raw @ [b])) \<longleftrightarrow> epb_run 0 raw = 2 \<and> b = 3"
proof
  let ?z = "epb_run 0 raw"
  assume "ends_0033 (pre @ epb 0 (raw @ [b]))"
  then obtain ys where c: "pre @ epb 0 raw @ epb1 ?z b = (ys @ [0, 0]) @ [3, 3]"
    by (auto simp: ends_0033_def)
  show "?z = 2 \<and> b = 3"
  proof (cases "?z = 2 \<and> unat b \<le> 3")
    case True
    then show ?thesis
      using c snoc2_eq [of "ys @ [0, 0]" 3 3 "pre @ epb 0 raw @ [3]" b] by (simp add: epb1_def)
  next
    case False
    then have "pre @ epb 0 raw = ys @ [0, 0, 3]"
      using c snoc2_eq [of "ys @ [0, 0]" 3 3 "pre @ epb 0 raw" b] by (auto simp: epb1_def)
    then show ?thesis using coded_no_003 [OF assms] by blast
  qed
next
  assume a: "epb_run 0 raw = 2 \<and> b = 3"
  then obtain ys where "pre @ epb 0 raw = ys @ [0, 0]" using coded_two_zerosI [OF assms] by blast
  then have "pre @ epb 0 (raw @ [b]) = ys @ [0, 0, 3, 3]" using a by (simp add: epb1_def)
  then show "ends_0033 (pre @ epb 0 (raw @ [b]))" unfolding ends_0033_def by blast
qed

text \<open>The check of the four bytes before the offset, on the bytes written.\<close>

lemma check_0033:
  assumes w: "take n buf = xs" "n \<le> length buf" and c: "xs = pre @ ys @ [b]" "clean pre"
    and off: "unat (off :: u32) = n"
  shows "check_epb buf off = Some (ends_0033 xs)"
proof -
  have n: "length xs = n" using w by auto
  have nth: "buf ! (n - Suc k) = rev xs ! k" "n - Suc k < length buf" if "k < n" for k
  proof -
    have "rev xs ! k = xs ! (n - Suc k)" using that n by (simp add: rev_nth)
    then show "buf ! (n - Suc k) = rev xs ! k" using w(1) that by (metis diff_Suc_less gr_zeroI nth_take not_less_zero)
    show "n - Suc k < length buf" using that w(2) by simp
  qed
  have rd: "rd buf (unat (off - word_of_nat (Suc k))) = Some (rev xs ! k)" if "k < n" "k < 4" for k
  proof -
    have "unat (word_of_nat (Suc k) :: u32) = Suc k"
      by (rule unat_u32_small) (use that(2) in simp)
    then have "unat (off - word_of_nat (Suc k)) = n - Suc k" using off that by (subst unat_sub_u32) simp_all
    then show ?thesis using nth [OF that(1)] by simp
  qed
  obtain b1 b2 rest where r2: "rev xs = b1 # b2 # rest"
    using c by (cases "rev ys @ rev pre") (auto simp: clean_def)
  obtain y t where y: "rev pre = y # t" "y \<noteq> 0" "y \<noteq> 3"
    using c(2) by (cases pre rule: rev_cases) (auto simp: clean_def)
  have pre: "b # rev ys @ y # t = b1 # b2 # rest" using c(1) r2 y(1) by simp
  have long: "4 \<le> n" if "b1 = 3" "b2 = 3" "\<exists>r. rest = 0 # r"
  proof -
    from pre that y(2,3) have "2 \<le> length (rev ys)"
      by (cases "rev ys"; cases "tl (rev ys)") auto
    then have "4 \<le> length (rev xs)" using c(1) y(1) by simp
    then show ?thesis using n by simp
  qed
  have n2: "2 \<le> n" using r2 n by (metis length_rev length_Cons Suc_le_mono le0 numeral_2_eq_2)
  have n3: "3 \<le> n" if "b2 = 3"
  proof -
    have "rest \<noteq> []" using pre that y(3) by (cases "rev ys") auto
    then have "3 \<le> length (rev xs)" using r2 by (cases rest) auto
    then show ?thesis using n by simp
  qed
  have e: "ends_0033 xs \<longleftrightarrow> (\<exists>r. rev xs = [3, 3, 0, 0] @ r)"
  proof -
    have "xs = ys @ [0, 0, 3, 3] \<longleftrightarrow> rev xs = [3, 3, 0, 0] @ rev ys" for ys
      by (subst rev_is_rev_conv [symmetric]) simp
    then show ?thesis unfolding ends_0033_def by (metis rev_rev_ident)
  qed
  have g1: "rd buf (unat (off - 1)) = Some b1" using rd [of 0] n2 r2 by simp
  have g2: "rd buf (unat (off - 2)) = Some b2" using rd [of 1] n2 r2 by simp
  show ?thesis
  proof (cases "b1 = 3 \<and> b2 = 3")
    case False
    then show ?thesis using g1 g2 r2 unfolding e check_epb_def by auto
  next
    case True
    then obtain b3 r where r: "rest = b3 # r" using n3 r2 n by (cases rest) auto
    have g3: "rd buf (unat (off - 3)) = Some b3" using rd [of 2] n3 True r2 r by simp
    show ?thesis
    proof (cases "b3 = 0")
      case False
      then show ?thesis using g1 g2 g3 r2 r True unfolding e check_epb_def by auto
    next
      case b3: True
      then have n4: "4 \<le> n" using long True r by simp
      then obtain b4 r' where r4: "r = b4 # r'" using r2 r n by (cases r) auto
      have "rd buf (unat (off - 4)) = Some b4" using rd [of 3] n4 r2 r r4 by simp
      then show ?thesis using g1 g2 g3 r2 r r4 True b3 unfolding e check_epb_def by auto
    qed
  qed
qed

section \<open>Writing payload bytes\<close>

lemma out_rel_snoc_nonempty: "clean pre \<Longrightarrow> pre @ epb 0 raw \<noteq> []"
  by (simp add: clean_def)

text \<open>The carry turns the last payload byte \<open>b\<close> into \<open>b + 1\<close>.\<close>

lemma insert_carry_spec:
  assumes rel: "out_rel pre (raw @ [b]) (buf, off, zr)" and pre: "clean pre" and b: "b \<noteq> 0xFF"
  shows "\<exists>buf' off'. insert_carry True (buf, off, zr) = Some (buf', off', 0) \<and>
    out_rel pre (raw @ [b + 1]) (buf', off', 0) \<and> length buf' = length buf \<and> unat off' \<le> unat off"
proof -
  let ?z = "epb_run 0 raw" and ?xs = "pre @ epb 0 (raw @ [b])"
  have z: "?z \<le> 2" by (simp add: epb_run_le)
  have w: "take (unat off) buf = ?xs" "unat off \<le> length buf" using rel by (auto simp: out_rel_def)
  have len: "length ?xs = unat off" using w by (metis length_take min.absorb2)
  have ub: "unat (b + 1) = unat b + 1"
  proof -
    have "unat b \<noteq> 255" using b by (simp add: word_unat_eq_iff)
    then have "unat b + 1 < 256" using unat_u8_lt [of b] by simp
    then show ?thesis by (simp add: unat_word_ariths)
  qed
  then have nz: "b + 1 \<noteq> 0" by (metis add_is_0 unat_0 zero_neq_one)
  define ys where "ys = (if ?z = 2 \<and> unat b \<le> 3 then [3] else [] :: u8 list)"
  have c: "?xs = pre @ (epb 0 raw @ ys) @ [b]" "epb1 ?z b = ys @ [b]"
    by (simp_all add: epb1_def ys_def)
  note chk = check_0033 [OF w(1,2) c(1) pre refl]
  have e: "ends_0033 ?xs \<longleftrightarrow> ?z = 2 \<and> b = 3" by (rule coded_ends_0033 [OF pre])
  let ?off = "if ends_0033 ?xs then off - 1 else off"
  have "1 \<le> unat off" using len c(1) by simp
  then have o1: "unat (off - 1) = unat off - 1" by (simp add: unat_sub_u32)
  have run: "epb_run 0 (raw @ [b + 1]) = 0" using nz by (simp add: zrun_def)
  have buf: "insert_carry True (buf, off, zr) =
      Some (buf[unat (?off - 1) := buf ! unat (?off - 1) + 1], ?off, 0)"
    if "unat (?off - 1) < length buf"
    using chk that by (simp add: insert_carry_def Let_def)
  show ?thesis
  proof (cases "ends_0033 ?xs")
    case True
    then have z2: "?z = 2" "b = 3" using e by auto
    then have xs: "?xs = pre @ epb 0 raw @ [3, 3]" by (simp add: epb1_def)
    then have off2: "unat off = length (pre @ epb 0 raw) + 2" using len by simp
    have o2: "unat (off - 1 - 1) = unat off - 2" using o1 off2 by (simp add: unat_sub_u32)
    let ?buf = "buf[unat off - 2 := buf ! (unat off - 2) + 1]"
    have t: "take (unat off - 2) buf = pre @ epb 0 raw"
    proof -
      have "take (unat off - 2) buf = take (unat off - 2) (take (unat off) buf)" by simp
      also have "\<dots> = take (unat off - 2) (pre @ epb 0 raw @ [3, 3])" by (simp only: w(1) xs)
      also have "\<dots> = pre @ epb 0 raw" using off2 by simp
      finally show ?thesis .
    qed
    have v: "buf ! (unat off - 2) = 3"
    proof -
      have "buf ! (unat off - 2) = take (unat off) buf ! (unat off - 2)" using off2 by simp
      also have "\<dots> = (pre @ epb 0 raw @ [3, 3]) ! (unat off - 2)" by (simp only: w(1) xs)
      also have "\<dots> = 3" using off2 by (simp add: nth_append)
      finally show ?thesis .
    qed
    have "take (unat (off - 1)) ?buf = pre @ epb 0 (raw @ [b + 1])"
    proof -
      have "unat (off - 1) = Suc (unat off - 2)" using o1 off2 by simp
      then have "take (unat (off - 1)) ?buf = take (unat off - 2) buf @ [buf ! (unat off - 2) + 1]"
        using w(2) off2 by (simp add: take_Suc_conv_app_nth)
      then show ?thesis using t v z2 by (simp add: epb1_def)
    qed
    then have "out_rel pre (raw @ [b + 1]) (?buf, off - 1, 0)"
      using run w(2) o1 by (simp add: out_rel_def)
    then show ?thesis using buf True o1 o2 w(2) off2 by auto
  next
    case False
    let ?buf = "buf[unat off - 1 := buf ! (unat off - 1) + 1]"
    define ws where "ws = pre @ epb 0 raw @ ys"
    have ws: "take (unat off) buf = ws @ [b]" "unat off - 1 = length ws"
      using w(1) c(1) len by (simp_all add: ws_def)
    have "take (unat off - 1) buf = take (unat off - 1) (take (unat off) buf)" by simp
    then have t: "take (unat off - 1) buf = pre @ epb 0 raw @ ys" unfolding ws by (simp add: ws_def)
    have "buf ! (unat off - 1) = take (unat off) buf ! (unat off - 1)" using \<open>1 \<le> unat off\<close> by simp
    then have v: "buf ! (unat off - 1) = b" unfolding ws by simp
    have ys: "epb1 ?z (b + 1) = ys @ [b + 1]"
    proof (cases "?z = 2 \<and> unat b \<le> 3")
      case True
      then have "unat b \<noteq> 3" using e False by (simp add: word_unat_eq_iff)
      then have "unat b < 3" using True by simp
      then show ?thesis using True c(2) ub by (simp add: epb1_def)
    next
      case False
      then have "ys = []" by (simp add: ys_def)
      moreover have "\<not> (?z = 2 \<and> unat (b + 1) \<le> 3)" using ub False by auto
      then have "epb1 ?z (b + 1) = [b + 1]" unfolding epb1_def by (simp only: if_False)
      ultimately show ?thesis by simp
    qed
    have "take (unat off) ?buf = pre @ epb 0 (raw @ [b + 1])"
    proof -
      obtain m where m: "unat off = Suc m" using \<open>1 \<le> unat off\<close> by (cases "unat off") auto
      have "take (Suc m) (buf[m := buf ! m + 1]) = take m buf @ [buf ! m + 1]"
        by (rule take_wr) (use w(2) m in simp_all)
      then have "take (unat off) ?buf = take (unat off - 1) buf @ [buf ! (unat off - 1) + 1]"
        by (simp add: m)
      then show ?thesis using t v ys by simp
    qed
    then have "out_rel pre (raw @ [b + 1]) (?buf, off, 0)"
      using run w(2) by (simp add: out_rel_def)
    then show ?thesis using buf False o1 w(2) \<open>1 \<le> unat off\<close> by auto
  qed
qed

lemma put_outstanding_spec:
  assumes "out_rel pre raw (buf, off, zr)" "unat off + 2 * n \<le> length buf" "unat off + 2 * n < 2 ^ 32"
  shows "\<exists>buf' off' zr'. put_outstanding n carry (buf, off, zr) = Some (buf', off', zr') \<and>
    out_rel pre (raw @ replicate n (if carry then 0 else 0xFF)) (buf', off', zr') \<and>
    length buf' = length buf \<and> unat off' \<le> unat off + 2 * n"
  using assms
proof (induction n arbitrary: raw buf off zr)
  case (Suc n)
  let ?b = "if carry then 0 else 0xFF :: u8"
  obtain buf1 off1 zr1 where 1: "PUTBYTE_EPB ?b (buf, off, zr) = Some (buf1, off1, zr1)"
      "out_rel pre (raw @ [?b]) (buf1, off1, zr1)" "length buf1 = length buf"
      "unat off1 = unat off + length (epb1 (epb_run 0 raw) ?b)"
    using PUTBYTE_EPB_spec [OF Suc.prems(1), of ?b] Suc.prems(2,3) by auto
  have "unat off1 \<le> unat off + 2" using 1(4) length_epb1 [of "epb_run 0 raw" ?b] by simp
  then obtain buf' off' zr' where "put_outstanding n carry (buf1, off1, zr1) = Some (buf', off', zr')"
      "out_rel pre ((raw @ [?b]) @ replicate n ?b) (buf', off', zr')"
      "length buf' = length buf" "unat off' \<le> unat off + 2 * Suc n"
    using Suc.IH [OF 1(2)] Suc.prems(2,3) 1(3) by fastforce
  then show ?case using 1(1) by simp
qed simp


section \<open>The registers and the coder\<close>

text \<open>The value of the bytes the engine has written.\<close>

definition bytes_val :: "u8 list \<Rightarrow> nat" where
  "bytes_val bs = bits_val (bytes_bits bs)"

lemma bytes_val_snoc: "bytes_val (bs @ [b]) = bytes_val bs * 256 + unat b"
proof -
  have "unat b < 2 ^ 8" using unat_u8_lt [of b] by simp
  then show ?thesis by (simp add: bytes_val_def bits_val_append bits_val_word_bits)
qed

lemma bytes_val_Nil [simp]: "bytes_val [] = 0"
  by (simp add: bytes_val_def)

lemma bytes_val_ones: "bytes_val (bs @ replicate n 0xFF) = bytes_val bs * 256 ^ n + (256 ^ n - 1)"
proof (induction n)
  case (Suc n)
  have "bytes_val (bs @ replicate (Suc n) 0xFF) = bytes_val ((bs @ replicate n 0xFF) @ [0xFF])"
    by (simp add: replicate_append_same)
  also have "\<dots> = (bytes_val bs * 256 ^ n + (256 ^ n - 1)) * 256 + 255"
    by (simp only: bytes_val_snoc Suc) simp
  also have "\<dots> = bytes_val bs * 256 ^ Suc n + (256 ^ Suc n - 1)"
  proof -
    obtain a where "(256::nat) ^ n = a + 1" by (metis le_add_diff_inverse2 one_le_power one_le_numeral)
    then show ?thesis by (simp add: algebra_simps)
  qed
  finally show ?case .
qed simp

lemma bytes_val_zeros: "bytes_val (bs @ replicate n 0) = bytes_val bs * 256 ^ n"
proof (induction n)
  case (Suc n)
  have "bytes_val (bs @ replicate (Suc n) 0) = bytes_val ((bs @ replicate n 0) @ [0])"
    by (simp add: replicate_append_same)
  then show ?case by (simp add: bytes_val_snoc Suc del: append_assoc)
qed simp

text \<open>
  The registers stand for the number \<open>A\<close> of \<open>9 + n\<close> bits, with the outstanding bytes as ones; an
  interval of \<open>R\<close> from there does not carry out of the byte before the outstanding ones.
\<close>

definition enc_num :: "u8 list \<Rightarrow> u8 list \<Rightarrow> nat \<Rightarrow> nat \<Rightarrow> nat \<Rightarrow> cab_ctxt_e \<Rightarrow> bool" where
  "enc_num pre hdr n A R e \<longleftrightarrow> (\<exists>out. let N = unat (u4_out_standing_bytes e); g = unat (u4_bits_gen e);
       low = unat (u4_low e) in
     out_rel pre (hdr @ out) (pu1_strm_buffer_c e, u4_strm_buf_offset_c e, i4_zero_bytes_run_c e) \<and>
     n = 8 * (length out + N) + g \<and>
     A = (bytes_val out * 256 ^ N + (256 ^ N - 1)) * 2 ^ (9 + g) + low \<and>
     unat (u4_range_e e) = R \<and> 256 \<le> R \<and> R < 512 \<and> g \<le> 17 \<and>
     low + R \<le> 2 ^ (10 + g) \<and>
     (low + R \<le> 2 ^ (9 + g) \<or> out \<noteq> [] \<and> last out \<noteq> 0xFF))"

text \<open>Room in the buffer for the bits generated so far, \<open>k\<close> more, and the flush.\<close>

definition enc_room :: "cab_ctxt_e \<Rightarrow> nat \<Rightarrow> bool" where
  "enc_room e k \<longleftrightarrow> 4 * unat (u4_strm_buf_offset_c e) + 8 * unat (u4_out_standing_bytes e) +
       unat (u4_bits_gen e) + k + 64 \<le> 4 * unat (u4_max_strm_size_c e) \<and>
     unat (u4_max_strm_size_c e) \<le> length (pu1_strm_buffer_c e)"

text \<open>What writing bytes leaves alone.\<close>

definition enc_same :: "cab_ctxt_e \<Rightarrow> cab_ctxt_e \<Rightarrow> bool" where
  "enc_same e e' \<longleftrightarrow> e_cabac_op_mode e' = e_cabac_op_mode e \<and> au1_ctxt_models_e e' = au1_ctxt_models_e e"

lemma insert_bytes_spec:
  assumes rel: "out_rel pre (hdr @ out) (buf, off, zr)" and pre: "clean pre"
    and c: "carry \<Longrightarrow> out \<noteq> [] \<and> last out \<noteq> 0xFF"
    and room: "unat off + 2 * N \<le> length buf" "unat off + 2 * N < 2 ^ 32"
  shows "\<exists>buf1 off1 zr1 buf2 off2 zr2 out'. insert_carry carry (buf, off, zr) = Some (buf1, off1, zr1) \<and>
    put_outstanding N carry (buf1, off1, zr1) = Some (buf2, off2, zr2) \<and>
    out_rel pre (hdr @ out') (buf2, off2, zr2) \<and> length out' = length out + N \<and>
    bytes_val out' = bytes_val out * 256 ^ N + (if carry then 256 ^ N else 256 ^ N - 1) \<and>
    length buf2 = length buf \<and> unat off2 \<le> unat off + 2 * N"
proof (cases carry)
  case False
  then have "insert_carry carry (buf, off, zr) = Some (buf, off, zr)" by (simp add: insert_carry_def)
  moreover obtain buf2 off2 zr2 where "put_outstanding N carry (buf, off, zr) = Some (buf2, off2, zr2)"
      "out_rel pre ((hdr @ out) @ replicate N 0xFF) (buf2, off2, zr2)"
      "length buf2 = length buf" "unat off2 \<le> unat off + 2 * N"
    using put_outstanding_spec [OF rel room, of carry] False by auto
  ultimately show ?thesis using False
    by (intro exI [of _ buf] exI [of _ off] exI [of _ zr] exI [of _ buf2] exI [of _ off2] exI [of _ zr2]
      exI [of _ "out @ replicate N 0xFF"]) (simp add: bytes_val_ones)
next
  case True
  then obtain xs b where out: "out = xs @ [b]" "b \<noteq> 0xFF" using c by (metis append_butlast_last_id)
  then have rel': "out_rel pre ((hdr @ xs) @ [b]) (buf, off, zr)" using rel by simp
  obtain buf1 off1 where 1: "insert_carry True (buf, off, zr) = Some (buf1, off1, 0)"
      "out_rel pre ((hdr @ xs) @ [b + 1]) (buf1, off1, 0)" "length buf1 = length buf" "unat off1 \<le> unat off"
    using insert_carry_spec [OF rel' pre out(2)] by blast
  obtain buf2 off2 zr2 where 2: "put_outstanding N True (buf1, off1, 0) = Some (buf2, off2, zr2)"
      "out_rel pre (((hdr @ xs) @ [b + 1]) @ replicate N 0) (buf2, off2, zr2)"
      "length buf2 = length buf" "unat off2 \<le> unat off1 + 2 * N"
    using put_outstanding_spec [OF 1(2), of N True] room 1(3,4) by auto
  have "unat b \<noteq> 255" using out(2) by (simp add: word_unat_eq_iff)
  then have "unat (b + 1) = unat b + 1" using unat_u8_lt [of b] by (simp add: unat_word_ariths)
  then have "bytes_val ((xs @ [b + 1]) @ replicate N 0) = (bytes_val out + 1) * 256 ^ N"
    unfolding bytes_val_zeros out(1) bytes_val_snoc by simp
  then show ?thesis using True 1(1) 2 1(4) out(1)
    by (intro exI [of _ buf1] exI [of _ off1] exI [of _ 0] exI [of _ buf2] exI [of _ off2] exI [of _ zr2]
      exI [of _ "(xs @ [b + 1]) @ replicate N 0"]) (simp add: add_mult_distrib)
qed

lemma unat_and_mask: "unat ((w :: u32) AND (push_bit k 1 - 1)) = unat w mod 2 ^ k"
proof -
  have "w AND (push_bit k 1 - 1) = take_bit k w"
    by (simp add: take_bit_eq_mask mask_eq_exp_minus_1 push_bit_eq_mult)
  then show ?thesis by (simp only: unsigned_take_bit_eq) (simp add: take_bit_eq_mod)
qed

text \<open>Splitting the low register into its leading byte and the rest.\<close>

lemma low_split:
  assumes "8 \<le> g" "g \<le> 17"
  shows "shr32 low (word_of_nat g + 9 - 8) = Some (drop_bit (g + 1) low)"
    and "shl32 1 (9 + (word_of_nat g - 8)) = Some (push_bit (g + 1) 1)"
    and "unat (drop_bit (g + 1) low :: u32) = unat low div 2 ^ (g + 1)"
    and "unat (low AND (push_bit (g + 1) 1 - 1)) = unat low mod 2 ^ (g + 1)"
proof -
  have w: "word_of_nat g + 9 - 8 = (word_of_nat (g + 1) :: u32)" by simp
  have w2: "9 + (word_of_nat g - 8) = (word_of_nat (g + 1) :: u32)" by simp
  have u: "unat (word_of_nat (g + 1) :: u32) = g + 1" by (rule unat_u32_small) (use assms in simp)
  have lt: "word_of_nat (g + 1) < (32 :: u32)" using u assms by (simp only: word_less_nat_alt) simp
  show "shr32 low (word_of_nat g + 9 - 8) = Some (drop_bit (g + 1) low)"
    unfolding w using lt u by (simp only: shr32_in)
  show "shl32 1 (9 + (word_of_nat g - 8)) = Some (push_bit (g + 1) 1)"
    unfolding w2 using lt u by (simp only: shl32_in)
  show "unat (drop_bit (g + 1) low :: u32) = unat low div 2 ^ (g + 1)" by (rule unat_drop_u32)
  show "unat (low AND (push_bit (g + 1) 1 - 1)) = unat low mod 2 ^ (g + 1)" by (rule unat_and_mask)
qed

text \<open>The arithmetic of putting a byte: the number stands, the interval stays in its bound.\<close>

lemma lead_bounds:
  assumes "(low :: nat) + R \<le> 2 ^ (10 + g)" "8 \<le> g" "0 < R"
  shows "low div 2 ^ (g + 1) < 512"
proof -
  have "(2::nat) ^ (10 + g) = 512 * 2 ^ (g + 1)" by (simp add: power_add)
  then have "low < 512 * 2 ^ (g + 1)" using assms by simp
  then show ?thesis by (simp add: less_mult_imp_div_less)
qed

lemma put_byte_num:
  assumes n: "n = 8 * (k + N) + g" and A: "A = (V * 256 ^ N + (256 ^ N - 1)) * 2 ^ (9 + g) + low"
    and g: "8 \<le> (g::nat)" and lead: "lead = low div 2 ^ (g + 1)" and rest: "rest = low mod 2 ^ (g + 1)"
  shows "A = ((V * 256 ^ N + (256 ^ N - 1)) * 256 + lead) * 2 ^ (9 + (g - 8)) + (rest :: nat)"
    and "n = 8 * (k + N + 1) + (g - 8)"
proof -
  obtain h where h: "g = h + 8" using g le_Suc_ex by (metis add.commute)
  have low: "low = lead * 2 ^ (9 + h) + rest" using lead rest h by (simp add: add.commute mult.commute)
  have p: "(2::nat) ^ (9 + g) = 256 * 2 ^ (9 + h)" unfolding h by (simp add: power_add)
  show "A = ((V * 256 ^ N + (256 ^ N - 1)) * 256 + lead) * 2 ^ (9 + (g - 8)) + rest"
    unfolding A low p by (simp add: h add_mult_distrib)
  show "n = 8 * (k + N + 1) + (g - 8)" using n h by simp
qed

lemma put_byte_bound:
  assumes g: "8 \<le> (g::nat)" "g \<le> 17" and R: "R < 512" and b: "(low :: nat) + R \<le> 2 ^ (10 + g)"
    and lead: "lead = low div 2 ^ (g + 1)" and rest: "rest = low mod 2 ^ (g + 1)"
  shows "rest + R \<le> 2 ^ (10 + (g - 8))"
    and "lead = 511 \<Longrightarrow> rest + R \<le> 2 ^ (9 + (g - 8))"
    and "low + R \<le> 2 ^ (9 + g) \<Longrightarrow> lead = 255 \<Longrightarrow> rest + R \<le> 2 ^ (9 + (g - 8))"
    and "low + R \<le> 2 ^ (9 + g) \<Longrightarrow> 0 < R \<Longrightarrow> lead < 256"
proof -
  obtain h where h: "g = h + 8" using g le_Suc_ex by (metis add.commute)
  have low: "low = lead * 2 ^ (9 + h) + rest" using lead rest h by (simp add: add.commute mult.commute)
  have r: "rest < 2 ^ (9 + h)" using rest h by (simp add: add.commute)
  have p: "(2::nat) ^ (9 + g) = 256 * 2 ^ (9 + h)" "(2::nat) ^ (10 + g) = 512 * 2 ^ (9 + h)"
      "(2::nat) ^ (10 + h) = 2 * 2 ^ (9 + h)" "(2::nat) ^ 9 \<le> 2 ^ (9 + h)"
    unfolding h by (simp_all add: power_add)
  show "rest + R \<le> 2 ^ (10 + (g - 8))" using r R p(3,4) by (simp add: h)
  show "rest + R \<le> 2 ^ (9 + (g - 8))" if "lead = 511"
    using b that unfolding low p by (simp add: h)
  show "rest + R \<le> 2 ^ (9 + (g - 8))" if "low + R \<le> 2 ^ (9 + g)" "lead = 255"
    using that unfolding low p by (simp add: h)
  show "lead < 256" if "low + R \<le> 2 ^ (9 + g)" "0 < R"
  proof (rule ccontr)
    assume "\<not> lead < 256"
    then have "256 * 2 ^ (9 + h) \<le> lead * 2 ^ (9 + h)" by simp
    then show False using that unfolding low p by linarith
  qed
qed

lemma put_byte_spec:
  assumes num: "enc_num pre hdr n A R e" and pre: "clean pre" and g: "8 \<le> unat (u4_bits_gen e)"
    and room: "enc_room e k"
  shows "\<exists>e'. ihevce_cabac_put_byte e = Some (IHEVCE_SUCCESS, e') \<and> enc_num pre hdr n A R e' \<and>
    unat (u4_bits_gen e') = unat (u4_bits_gen e) - 8 \<and> enc_room e' k \<and> enc_same e e' \<and>
    unat (u4_low e') = unat (u4_low e) mod 2 ^ (unat (u4_bits_gen e) + 1)"
proof -
  define N where "N = unat (u4_out_standing_bytes e)"
  define G where "G = unat (u4_bits_gen e)"
  define low where "low = unat (u4_low e)"
  define lead where "lead = low div 2 ^ (G + 1)"
  define rest where "rest = low mod 2 ^ (G + 1)"
  obtain out where o: "out_rel pre (hdr @ out) (pu1_strm_buffer_c e, u4_strm_buf_offset_c e, i4_zero_bytes_run_c e)"
    "n = 8 * (length out + N) + G"
    "A = (bytes_val out * 256 ^ N + (256 ^ N - 1)) * 2 ^ (9 + G) + low"
    "unat (u4_range_e e) = R" "256 \<le> R" "R < 512" "G \<le> 17" "low + R \<le> 2 ^ (10 + G)"
    "low + R \<le> 2 ^ (9 + G) \<or> out \<noteq> [] \<and> last out \<noteq> 0xFF"
    using num unfolding enc_num_def Let_def N_def G_def low_def by blast
  have G8: "8 \<le> G" using g by (simp add: G_def)
  have Gw: "u4_bits_gen e = word_of_nat G" by (simp add: G_def)
  note sp = low_split [OF G8 o(7)] and pn = put_byte_num [OF o(2,3) G8 lead_def rest_def]
    and pb = put_byte_bound [OF G8 o(7,6,8) lead_def rest_def]
  let ?lead = "drop_bit (G + 1) (u4_low e)" and ?low = "u4_low e AND (push_bit (G + 1) 1 - 1)"
  have ul: "unat ?lead = lead" "unat ?low = rest" unfolding lead_def rest_def low_def by (rule sp(3), rule sp(4))
  have l512: "lead < 512" unfolding lead_def using lead_bounds [OF o(8) G8] o(5) by simp
  have req: "u4_range_e e \<ge> 256 \<and> u4_range_e e < 512" using o(4-6) by (simp add: word_le_nat_alt word_less_nat_alt)
  have g8: "u4_bits_gen e \<ge> 8" using G8 by (simp add: word_le_nat_alt G_def)
  have g': "unat (u4_bits_gen e - 8) = G - 8" using G8 by (simp add: unat_sub_u32 G_def)
  let ?e1 = "e \<lparr> u4_low := ?low, u4_bits_gen := u4_bits_gen e - 8 \<rparr>"
  have off32: "unat (u4_strm_buf_offset_c e) + 2 * N + 16 \<le> unat (u4_max_strm_size_c e)"
      "unat (u4_max_strm_size_c e) \<le> length (pu1_strm_buffer_c e)" "unat (u4_max_strm_size_c e) < 2 ^ 32"
    using room unat_u32_lt [of "u4_max_strm_size_c e"] by (auto simp: enc_room_def N_def)
  have lead255: "?lead = 0xff \<longleftrightarrow> lead = 255" using ul(1) by (simp add: word_unat_eq_iff)
  have start: "ihevce_cabac_put_byte e = (if ?lead = 0xff then
       Some (IHEVCE_SUCCESS, ?e1 \<lparr> u4_out_standing_bytes := u4_out_standing_bytes e + 1 \<rparr>)
     else (
       let carry = (drop_bit 8 ?lead AND 0x1 \<noteq> 0) in
       if u4_strm_buf_offset_c e + u4_out_standing_bytes e + 1 \<ge> u4_max_strm_size_c e then
         Some (IHEVCE_BITSTREAM_BUFFER_OVERFLOW, ?e1)
       else do {
         st \<leftarrow> insert_carry carry (pu1_strm_buffer_c e, u4_strm_buf_offset_c e, i4_zero_bytes_run_c e);
         st \<leftarrow> put_outstanding (unat (u4_out_standing_bytes e)) carry st;
         (buf, off, zero_run) \<leftarrow> PUTBYTE_EPB (ucast (?lead AND 0xFF)) st;
         Some (IHEVCE_SUCCESS,
           ?e1 \<lparr> u4_out_standing_bytes := 0, pu1_strm_buffer_c := buf, u4_strm_buf_offset_c := off,
               i4_zero_bytes_run_c := zero_run \<rparr>)
       }))"
    unfolding ihevce_cabac_put_byte_def
    by (simp only: Let_def sp(1,2) [folded Gw] bind.bind_lunit bind_require(1) [OF req] bind_require(1) [OF g8]) simp
  show ?thesis
  proof (cases "lead = 255")
    case True
    let ?e2 = "?e1 \<lparr> u4_out_standing_bytes := u4_out_standing_bytes e + 1 \<rparr>"
    have N1: "unat (u4_out_standing_bytes e + 1) = N + 1"
      using off32 by (simp add: unat_add_u32 N_def)
    have "enc_num pre hdr n A R ?e2"
      unfolding enc_num_def Let_def
    proof (intro exI [of _ out] conjI)
      show "n = 8 * (length out + unat (u4_out_standing_bytes ?e2)) + unat (u4_bits_gen ?e2)"
        using pn(2) N1 g' by simp
      have "(bytes_val out * 256 ^ N + (256 ^ N - 1)) * 256 + 255 = bytes_val out * 256 ^ (N + 1) + (256 ^ (N + 1) - 1)"
      proof -
        obtain a where "(256::nat) ^ N = a + 1" by (metis le_add_diff_inverse2 one_le_power one_le_numeral)
        then show ?thesis by (simp add: algebra_simps)
      qed
      then show "A = (bytes_val out * 256 ^ unat (u4_out_standing_bytes ?e2) + (256 ^ unat (u4_out_standing_bytes ?e2) - 1)) *
          2 ^ (9 + unat (u4_bits_gen ?e2)) + unat (u4_low ?e2)"
        using pn(1) True N1 g' ul(2) by simp
      show "unat (u4_low ?e2) + R \<le> 2 ^ (9 + unat (u4_bits_gen ?e2)) \<or> out \<noteq> [] \<and> last out \<noteq> 0xFF"
        using o(9) pb(3) True g' ul(2) by auto
    qed (use o(1,4-7) g' ul(2) pb(1) in simp_all)
    moreover have "enc_room ?e2 k" using room N1 g' G8 by (simp add: enc_room_def N_def G_def)
    ultimately show ?thesis
      using True lead255 start g' ul(2) by (simp add: enc_same_def G_def rest_def low_def)
  next
    case False
    define carry where "carry = (256 \<le> lead)"
    have cw: "(drop_bit 8 ?lead AND 0x1 \<noteq> 0) = carry"
    proof -
      have "unat (drop_bit 8 ?lead) = lead div 2 ^ 8" by (simp only: unat_drop_u32 lead_def low_def)
      then have "odd (unat (drop_bit 8 ?lead)) = (256 \<le> lead)"
      proof (cases "256 \<le> lead")
        case True
        then have "lead div 2 ^ 8 = 1" using l512 by simp
        then show ?thesis using True \<open>unat (drop_bit 8 ?lead) = lead div 2 ^ 8\<close> by simp
      qed simp
      then show ?thesis unfolding and_1_u32 carry_def .
    qed
    have "\<not> u4_max_strm_size_c e \<le> u4_strm_buf_offset_c e + u4_out_standing_bytes e + 1"
    proof -
      have "unat (u4_strm_buf_offset_c e + u4_out_standing_bytes e) = unat (u4_strm_buf_offset_c e) + N"
        using off32 by (subst unat_add_u32) (simp_all add: N_def)
      then have "unat (u4_strm_buf_offset_c e + u4_out_standing_bytes e + 1) = unat (u4_strm_buf_offset_c e) + N + 1"
        using off32 by (subst unat_add_u32) simp_all
      then show ?thesis using off32 by (simp add: word_le_nat_alt)
    qed
    then have ov: "(u4_max_strm_size_c e \<le> u4_strm_buf_offset_c e + u4_out_standing_bytes e + 1) = False" by simp
    have cin: "carry \<Longrightarrow> out \<noteq> [] \<and> last out \<noteq> 0xFF" using o(5,9) pb(4) by (auto simp: carry_def)
    obtain buf1 off1 zr1 buf2 off2 zr2 out' where b: "insert_carry carry (pu1_strm_buffer_c e, u4_strm_buf_offset_c e, i4_zero_bytes_run_c e) = Some (buf1, off1, zr1)"
      "put_outstanding N carry (buf1, off1, zr1) = Some (buf2, off2, zr2)"
      "out_rel pre (hdr @ out') (buf2, off2, zr2)" "length out' = length out + N"
      "bytes_val out' = bytes_val out * 256 ^ N + (if carry then 256 ^ N else 256 ^ N - 1)"
      "length buf2 = length (pu1_strm_buffer_c e)" "unat off2 \<le> unat (u4_strm_buf_offset_c e) + 2 * N"
      using insert_bytes_spec [where carry = carry and N = N, OF o(1) pre cin] off32 by auto
    let ?b = "ucast (?lead AND 0xFF) :: u8"
    have ub: "unat ?b = lead mod 256"
    proof -
      have "?lead AND 0xFF = ?lead AND (push_bit 8 1 - 1)" by simp
      then have "unat (?lead AND 0xFF) = lead mod 2 ^ 8" by (simp only: unat_and_mask ul(1))
      then show ?thesis by (simp add: unsigned_ucast_eq take_bit_eq_mod)
    qed
    obtain buf3 off3 zr3 where p: "PUTBYTE_EPB ?b (buf2, off2, zr2) = Some (buf3, off3, zr3)"
      "out_rel pre ((hdr @ out') @ [?b]) (buf3, off3, zr3)" "length buf3 = length buf2"
      "unat off3 \<le> unat off2 + 2"
      using PUTBYTE_EPB_spec [OF b(3), of ?b] length_epb1 [of "epb_run 0 (hdr @ out')" ?b] off32 b(6,7) by fastforce
    let ?e2 = "?e1 \<lparr> u4_out_standing_bytes := 0, pu1_strm_buffer_c := buf3, u4_strm_buf_offset_c := off3,
               i4_zero_bytes_run_c := zr3 \<rparr>"
    have run: "ihevce_cabac_put_byte e = Some (IHEVCE_SUCCESS, ?e2)"
      using False lead255 unfolding start Let_def cw ov
      by (simp only: b(1) b(2) [unfolded N_def] p(1) bind.bind_lunit prod.case if_False simp_thms)
    have "enc_num pre hdr n A R ?e2"
      unfolding enc_num_def Let_def
    proof (intro exI [of _ "out' @ [?b]"] conjI)
      show "out_rel pre (hdr @ out' @ [?b]) (pu1_strm_buffer_c ?e2, u4_strm_buf_offset_c ?e2, i4_zero_bytes_run_c ?e2)"
        using p(2) by simp
      show "n = 8 * (length (out' @ [?b]) + unat (u4_out_standing_bytes ?e2)) + unat (u4_bits_gen ?e2)"
        using pn(2) b(4) g' by simp
      have "bytes_val (out' @ [?b]) = (bytes_val out * 256 ^ N + (256 ^ N - 1)) * 256 + lead"
      proof -
        obtain a where a: "(256::nat) ^ N = a + 1" by (metis le_add_diff_inverse2 one_le_power one_le_numeral)
        have "lead = (if carry then 256 else 0) + lead mod 256"
          using l512 by (auto simp: carry_def mod_nat_eqI le_mod_geq)
        then show ?thesis unfolding bytes_val_snoc b(5) ub a by (auto simp: algebra_simps split: if_splits)
      qed
      then show "A = (bytes_val (out' @ [?b]) * 256 ^ unat (u4_out_standing_bytes ?e2) + (256 ^ unat (u4_out_standing_bytes ?e2) - 1)) *
          2 ^ (9 + unat (u4_bits_gen ?e2)) + unat (u4_low ?e2)"
        using pn(1) g' ul(2) by simp
      show "unat (u4_low ?e2) + R \<le> 2 ^ (9 + unat (u4_bits_gen ?e2)) \<or> out' @ [?b] \<noteq> [] \<and> last (out' @ [?b]) \<noteq> 0xFF"
      proof (cases "?b = 0xFF")
        case True
        then have "lead mod 256 = 255" using ub by simp
        then have l: "lead = 256 * (lead div 256) + 255" using mult_div_mod_eq [of 256 lead] by simp
        have "lead div 256 < 2" using l512 by (simp add: less_mult_imp_div_less)
        moreover have "lead div 256 \<noteq> 0" using l False by auto
        ultimately have "lead div 256 = 1" by linarith
        then have "lead = 511" using l by simp
        then show ?thesis using pb(2) g' ul(2) by simp
      qed simp
    qed (use o(4-7) g' ul(2) pb(1) in simp_all)
    moreover have "enc_room ?e2 k"
      using room b(6,7) p(3,4) g' G8 by (simp add: enc_room_def N_def G_def)
    ultimately show ?thesis
      using run g' ul(2) by (simp add: enc_same_def G_def rest_def low_def)
  qed
qed

section \<open>Encoding one bin\<close>

definition enc_rel :: "u8 list \<Rightarrow> u8 list \<Rightarrow> ac \<Rightarrow> cab_ctxt_e \<Rightarrow> bool" where
  "enc_rel pre hdr st e \<longleftrightarrow> clean pre \<and> enc_num pre hdr (ac_n st) (ac_low st) (ac_range st) e \<and>
     unat (u4_bits_gen e) \<le> 9 \<and> e_cabac_op_mode e = CABAC_MODE_ENCODE_BITS \<and>
     map unat (au1_ctxt_models_e e) = ac_ctx st \<and> length (ac_ctx st) = IHEVC_CAB_CTXT_END \<and>
     tabs.ac_ok st"

text \<open>A byte is put when it is ready.\<close>

lemma put_if_ready_spec:
  assumes num: "enc_num pre hdr n A R e" and pre: "clean pre" and room: "enc_room e k"
  shows "\<exists>e'. put_if_ready e = Some (IHEVCE_SUCCESS, e') \<and> enc_num pre hdr n A R e' \<and>
    unat (u4_bits_gen e') \<le> 9 \<and> enc_room e' k \<and> enc_same e e' \<and>
    (\<forall>j \<le> 7. 2 ^ j dvd unat (u4_low e) \<longrightarrow> 2 ^ j dvd unat (u4_low e'))"
proof (cases "u4_bits_gen e > 9")
  case False
  then show ?thesis using assms
    by (auto simp: put_if_ready_def enc_same_def word_less_nat_alt)
next
  case True
  then have g: "9 < unat (u4_bits_gen e)" by (simp add: word_less_nat_alt)
  have g17: "unat (u4_bits_gen e) \<le> 17" using num by (auto simp: enc_num_def Let_def)
  obtain e' where e': "ihevce_cabac_put_byte e = Some (IHEVCE_SUCCESS, e')" "enc_num pre hdr n A R e'"
      "unat (u4_bits_gen e') = unat (u4_bits_gen e) - 8" "enc_room e' k" "enc_same e e'"
      "unat (u4_low e') = unat (u4_low e) mod 2 ^ (unat (u4_bits_gen e) + 1)"
    using put_byte_spec [OF num pre _ room] g by auto
  have "2 ^ j dvd unat (u4_low e')" if "j \<le> 7" "2 ^ j dvd unat (u4_low e)" for j
    unfolding e'(6) using that g by (intro dvd_mod le_imp_power_dvd) simp_all
  then show ?thesis using e' g17 True by (auto simp: put_if_ready_def)
qed

text \<open>Shifting a part of the interval up, with \<open>k\<close> more bits generated.\<close>

lemma enc_num_shift:
  assumes num: "enc_num pre hdr n A R e" and g: "unat (u4_bits_gen e) \<le> 9"
    and k: "k \<le> 8" and low: "unat low' = unat (u4_low e) * 2 ^ k + a" and fit: "a + r \<le> R * 2 ^ k"
    and r: "unat rng' = r" "256 \<le> r" "r < 512" and gen: "unat gen' = unat (u4_bits_gen e) + k"
    and same: "u4_out_standing_bytes e' = u4_out_standing_bytes e" "pu1_strm_buffer_c e' = pu1_strm_buffer_c e"
      "u4_strm_buf_offset_c e' = u4_strm_buf_offset_c e" "i4_zero_bytes_run_c e' = i4_zero_bytes_run_c e"
      "u4_low e' = low'" "u4_range_e e' = rng'" "u4_bits_gen e' = gen'"
  shows "enc_num pre hdr (n + k) (A * 2 ^ k + a) r e'"
proof -
  let ?N = "unat (u4_out_standing_bytes e)" and ?g = "unat (u4_bits_gen e)" and ?low = "unat (u4_low e)"
  obtain out where o: "out_rel pre (hdr @ out) (pu1_strm_buffer_c e, u4_strm_buf_offset_c e, i4_zero_bytes_run_c e)"
    "n = 8 * (length out + ?N) + ?g" "A = (bytes_val out * 256 ^ ?N + (256 ^ ?N - 1)) * 2 ^ (9 + ?g) + ?low"
    "?low + R \<le> 2 ^ (10 + ?g)" "?low + R \<le> 2 ^ (9 + ?g) \<or> out \<noteq> [] \<and> last out \<noteq> 0xFF"
    using num unfolding enc_num_def Let_def by blast
  have up: "?low * 2 ^ k + a + r \<le> 2 ^ (j + (?g + k))" if "?low + R \<le> 2 ^ (j + ?g)" for j
  proof -
    have "(?low + R) * 2 ^ k \<le> 2 ^ (j + ?g) * 2 ^ k" using that by (rule mult_le_mono1)
    then show ?thesis using fit by (simp add: add_mult_distrib power_add algebra_simps)
  qed
  show ?thesis unfolding enc_num_def Let_def same gen low r(1)
  proof (intro exI [of _ out] conjI)
    show "n + k = 8 * (length out + ?N) + (?g + k)" using o(2) by simp
    show "A * 2 ^ k + a = (bytes_val out * 256 ^ ?N + (256 ^ ?N - 1)) * 2 ^ (9 + (?g + k)) + (?low * 2 ^ k + a)"
      using o(3) by (simp add: power_add add_mult_distrib mult.assoc)
    show "?low * 2 ^ k + a + r \<le> 2 ^ (9 + (?g + k)) \<or> out \<noteq> [] \<and> last out \<noteq> 255"
      using o(5) up [of 9] by auto
    show "?low * 2 ^ k + a + r \<le> 2 ^ (10 + (?g + k))" using up [OF o(4)] .
  qed (use o(1) g k r in simp_all)
qed

lemma enc_room_shift:
  assumes "enc_room e (j + k)" "unat gen' = unat (u4_bits_gen e) + k"
    and "u4_out_standing_bytes e' = u4_out_standing_bytes e" "pu1_strm_buffer_c e' = pu1_strm_buffer_c e"
      "u4_strm_buf_offset_c e' = u4_strm_buf_offset_c e" "u4_max_strm_size_c e' = u4_max_strm_size_c e"
      "u4_bits_gen e' = gen'"
  shows "enc_room e' j"
  using assms by (simp add: enc_room_def)

lemma enc_room_mono: "enc_room e k \<Longrightarrow> j \<le> k \<Longrightarrow> enc_room e j"
  by (simp add: enc_room_def)

text \<open>The bounds that keep the registers within 32 bits.\<close>

lemma enc_num_low:
  assumes "enc_num pre hdr n A R e" "unat (u4_bits_gen e) \<le> 9"
  shows "unat (u4_low e) + R \<le> 2 ^ 19"
proof -
  have "unat (u4_low e) + R \<le> 2 ^ (10 + unat (u4_bits_gen e))"
    using assms(1) by (auto simp: enc_num_def Let_def)
  also have "\<dots> \<le> 2 ^ 19" using assms(2) by (intro power_increasing) simp_all
  finally show ?thesis .
qed

text \<open>Renormalising a selected part: the shift the code computes is the coder's.\<close>

lemma enc_renorm:
  assumes num: "enc_num pre hdr n A R e" and g: "unat (u4_bits_gen e) \<le> 9"
    and low: "unat low = unat (u4_low e) + a" and rng: "unat rng = r" and r: "2 \<le> r" "a + r \<le> R"
    and same: "u4_out_standing_bytes e1 = u4_out_standing_bytes e" "pu1_strm_buffer_c e1 = pu1_strm_buffer_c e"
      "u4_strm_buf_offset_c e1 = u4_strm_buf_offset_c e" "i4_zero_bytes_run_c e1 = i4_zero_bytes_run_c e"
      "u4_max_strm_size_c e1 = u4_max_strm_size_c e" "u4_bits_gen e1 = u4_bits_gen e"
  shows "\<exists>low' rng'. shl32 low (9 - GETRANGE rng) = Some low' \<and> shl32 rng (9 - GETRANGE rng) = Some rng' \<and>
    unat (9 - GETRANGE rng) = norm_shift r \<and> norm_shift r \<le> 7 \<and> unat low' = unat low * 2 ^ norm_shift r \<and>
    enc_num pre hdr (n + norm_shift r) ((A + a) * 2 ^ norm_shift r) (r * 2 ^ norm_shift r)
      (e1 \<lparr> u4_bits_gen := u4_bits_gen e1 + (9 - GETRANGE rng), u4_range_e := rng', u4_low := low' \<rparr>) \<and>
    (\<forall>k. enc_room e (k + 8) \<longrightarrow> enc_room
      (e1 \<lparr> u4_bits_gen := u4_bits_gen e1 + (9 - GETRANGE rng), u4_range_e := rng', u4_low := low' \<rparr>) k)"
proof -
  have R: "R < 512" using num by (auto simp: enc_num_def Let_def)
  have r0: "0 < r" "r < 512" using r R by simp_all
  have nb: "nbits r \<le> 9" "1 \<le> nbits r" using nbits_le [OF r0(1), of 9] nbits_bounds [OF r0(1)] r0(2) by auto
  have "rng \<noteq> 0" using rng r by auto
  then have gr: "unat (GETRANGE rng) = nbits r" using GETRANGE_nbits rng by simp
  then have sh: "unat (9 - GETRANGE rng) = norm_shift r" using nb by (simp add: unat_sub_u32 norm_shift_def)
  have s7: "norm_shift r \<le> 7" using norm_shift_le [of 1 r] r(1) by simp
  note ns = norm_shift [OF r0]
  have l19: "unat low + r \<le> 2 ^ 19" using enc_num_low [OF num g] low r(2) by simp
  have p7: "(2::nat) ^ norm_shift r \<le> 2 ^ 7" using s7 by (intro power_increasing) simp_all
  have "unat low * 2 ^ norm_shift r \<le> 2 ^ 19 * 2 ^ 7" using l19 p7 by (intro mult_le_mono) simp_all
  then obtain low' where l: "shl32 low (9 - GETRANGE rng) = Some low'" "unat low' = unat low * 2 ^ norm_shift r"
    using shl32_unat [of "9 - GETRANGE rng" low] sh s7 by auto
  obtain rng' where r': "shl32 rng (9 - GETRANGE rng) = Some rng'" "unat rng' = r * 2 ^ norm_shift r"
    using shl32_unat [of "9 - GETRANGE rng" rng] sh s7 ns rng by auto
  let ?gen = "u4_bits_gen e1 + (9 - GETRANGE rng)"
  have gen: "unat ?gen = unat (u4_bits_gen e) + norm_shift r"
    using g sh s7 same(6) by (subst unat_add_u32) simp_all
  let ?e = "e1 \<lparr> u4_bits_gen := ?gen, u4_range_e := rng', u4_low := low' \<rparr>"
  have "enc_num pre hdr (n + norm_shift r) (A * 2 ^ norm_shift r + a * 2 ^ norm_shift r) (r * 2 ^ norm_shift r) ?e"
  proof (rule enc_num_shift [OF num g])
    have "(a + r) * 2 ^ norm_shift r \<le> R * 2 ^ norm_shift r" using r(2) by (rule mult_le_mono1)
    then show "a * 2 ^ norm_shift r + r * 2 ^ norm_shift r \<le> R * 2 ^ norm_shift r" by (simp add: add_mult_distrib)
    show "unat low' = unat (u4_low e) * 2 ^ norm_shift r + a * 2 ^ norm_shift r"
      unfolding l(2) low by (simp add: add_mult_distrib)
  qed (use s7 r'(2) ns gen same in simp_all)
  then have "enc_num pre hdr (n + norm_shift r) ((A + a) * 2 ^ norm_shift r) (r * 2 ^ norm_shift r) ?e"
    by (simp add: add_mult_distrib)
  moreover have "enc_room ?e k" if "enc_room e (k + 8)" for k
    using that s7 gen same by (intro enc_room_shift [of e k "norm_shift r" ?gen] enc_room_mono [OF that]) simp_all
  ultimately show ?thesis using l r'(1) sh s7 by blast
qed

end
