(* ===== verification/Cabac_Enc_Ops.thy ===== *)
theory Cabac_Enc_Ops
  imports Cabac_Enc
begin

text \<open>
  Every encoding operation of \<^verbatim>\<open>encoder/ihevce_cabac.c\<close> refines the arithmetic coder over the
  bins of its binarisation, as long as the buffer has room, and the termination flushes bytes
  that end the stream inside the final interval.
\<close>

unbundle bit_operations_syntax

section \<open>The encoding operations refine the coder's step\<close>

lemma bin_to_bits_in:
  assumes "unat (m :: u8) < 128"
  shows "\<exists>v. rd gau2_ihevce_cabac_bin_to_bits (unat ((ucast m :: u32) XOR of_bool b)) = Some v"
proof -
  have "take_bit 7 (ucast m :: u32) = ucast m" "take_bit 7 (of_bool b :: u32) = of_bool b"
    using assms unat_ucast_u8 [of m] by (simp_all add: take_bit_u32_eq)
  then have "take_bit 7 ((ucast m :: u32) XOR of_bool b) = (ucast m :: u32) XOR of_bool b"
    by (simp only: take_bit_xor)
  then have "unat ((ucast m :: u32) XOR of_bool b) < 2 ^ 7" by (simp only: take_bit_u32_eq)
  moreover have "length gau2_ihevce_cabac_bin_to_bits = 128" by (simp add: gau2_ihevce_cabac_bin_to_bits_def)
  ultimately show ?thesis by simp
qed

lemma enc_relE:
  assumes "enc_rel pre hdr st e"
  obtains "clean pre" "enc_num pre hdr (ac_n st) (ac_low st) (ac_range st) e" "unat (u4_bits_gen e) \<le> 9"
    "e_cabac_op_mode e = CABAC_MODE_ENCODE_BITS" "map unat (au1_ctxt_models_e e) = ac_ctx st"
    "length (ac_ctx st) = IHEVC_CAB_CTXT_END" "tabs.ac_ok st"
    "unat (u4_range_e e) = ac_range st" "u4_range_e e \<ge> 256 \<and> u4_range_e e < 512"
proof -
  have "unat (u4_range_e e) = ac_range st" "256 \<le> ac_range st" "ac_range st < 512"
    using assms by (auto simp: enc_rel_def enc_num_def Let_def)
  then show thesis using that assms by (simp add: enc_rel_def word_le_nat_alt word_less_nat_alt)
qed

text \<open>What follows every selection: the byte put when it is ready keeps the relation.\<close>

lemma enc_finish:
  assumes num: "enc_num pre hdr (ac_n st) (ac_low st) (ac_range st) e" and pre: "clean pre"
    and room: "enc_room e k" and ok: "tabs.ac_ok st" "length (ac_ctx st) = IHEVC_CAB_CTXT_END"
    and ctx: "map unat (au1_ctxt_models_e e) = ac_ctx st" and mode: "e_cabac_op_mode e = CABAC_MODE_ENCODE_BITS"
  shows "\<exists>e'. put_if_ready e = Some (IHEVCE_SUCCESS, e') \<and> enc_rel pre hdr st e' \<and> enc_room e' k"
  using put_if_ready_spec [OF num pre room] assms by (auto simp: enc_rel_def enc_same_def)

lemma encode_bin_spec:
  assumes rel: "enc_rel pre hdr st e" and c: "c < IHEVC_CAB_CTXT_END" and room: "enc_room e (k + 8)"
  shows "\<exists>e'. ihevce_cabac_encode_bin e (of_bool b) c = Some (IHEVCE_SUCCESS, e') \<and>
    enc_rel pre hdr (tabs.ac_step (Ctx c b) st) e' \<and> enc_room e' k"
proof (rule enc_relE [OF rel])
  assume pre: "clean pre" and num: "enc_num pre hdr (ac_n st) (ac_low st) (ac_range st) e"
    and g: "unat (u4_bits_gen e) \<le> 9" and mode: "e_cabac_op_mode e = CABAC_MODE_ENCODE_BITS"
    and ctx: "map unat (au1_ctxt_models_e e) = ac_ctx st" "length (ac_ctx st) = IHEVC_CAB_CTXT_END"
    and ok: "tabs.ac_ok st" and ur: "unat (u4_range_e e) = ac_range st"
    and req: "u4_range_e e \<ge> 256 \<and> u4_range_e e < 512"
  let ?m = "au1_ctxt_models_e e ! c" and ?R = "ac_range st"
  let ?l = "tabs.lps_range (unat ?m) ?R" and ?q = "drop_bit 6 (u4_range_e e) AND 0x3 :: u32"
  have len: "c < length (au1_ctxt_models_e e)" using c ctx by (metis length_map)
  have m: "ac_ctx st ! c = unat ?m" using len ctx(1) by (metis nth_map)
  have m128: "unat ?m < 128" using tabs.ac_okD(3) [OF ok, of c] c ctx(2) m by simp
  note l = tabs.lps_range_bounds [OF m128 tabs.ac_okD(1,2) [OF ok]]
  have q: "unat ?q = ?R div 64 mod 4"
    using unat_and_mask [of "drop_bit 6 (u4_range_e e)" 2] by (simp add: unat_drop_u32 ur)
  then have "unat ?q < 4" by simp
  note mt = model_tables [OF m128 this]
  let ?t = "gau1_ihevc_cabac_rlps ! (unat ?m div 2) ! unat ?q"
  have t: "unat (ucast ?t :: u32) = ?l"
    by (simp only: unat_ucast_u8 tabs.lps_range_def rlps_table_def q)
  obtain bits where bits: "rd gau2_ihevce_cabac_bin_to_bits (unat ((ucast ?m :: u32) XOR of_bool b)) = Some bits"
    using bin_to_bits_in [OF m128] by blast
  obtain v where v: "rd gau1_ihevc_next_state (unat (push_bit 1 (ucast ?m :: u32) OR of_bool b)) = Some v"
      "unat v = next_table (2 * unat ?m + of_bool b)"
    using mt(5) [of "of_bool b"] by auto
  have um: "unat (u4_range_e e - ucast ?t) = ?R - ?l"
    using t ur l by (simp add: unat_sub_u32)
  define a r where "a = (if odd (unat ?m) = b then 0 else ?R - ?l)" and "r = (if odd (unat ?m) = b then ?R - ?l else ?l)"
  define rng low where "rng = (if odd (unat ?m) = b then u4_range_e e - ucast ?t else ucast ?t)"
    and "low = (if odd (unat ?m) = b then u4_low e else u4_low e + (u4_range_e e - ucast ?t))"
  have step: "tabs.ac_step (Ctx c b) st =
      (ac_select a r st) \<lparr> ac_ctx := (ac_ctx st)[c := next_table (2 * unat ?m + of_bool b)] \<rparr>"
    by (simp add: a_def r_def m Let_def)
  let ?e1 = "e \<lparr> u4_bits_estimated_q12 := u4_bits_estimated_q12 e + ucast bits,
                 au1_ctxt_models_e := (au1_ctxt_models_e e)[c := v] \<rparr>"
  have sel: "((if ((ucast ?m :: u32) AND 1) XOR of_bool b \<noteq> 0
      then (u4_low e + (u4_range_e e - ucast ?t), ucast ?t) else (u4_low e, u4_range_e e - ucast ?t))) = (low, rng)"
    unfolding mt(2) by (cases b; cases "odd (unat ?m)") (simp_all add: low_def rng_def)
  have low: "unat low = unat (u4_low e) + a"
  proof -
    have "unat (u4_low e) + (?R - ?l) < 2 ^ 32" using enc_num_low [OF num g] by simp
    then show ?thesis using um by (simp add: low_def a_def unat_add_u32)
  qed
  have ar: "unat rng = r" "2 \<le> r" "a + r \<le> ?R" using um t l by (auto simp: rng_def r_def a_def)
  obtain low' rng' where n: "shl32 low (9 - GETRANGE rng) = Some low'" "shl32 rng (9 - GETRANGE rng) = Some rng'"
      "enc_num pre hdr (ac_n st + norm_shift r) ((ac_low st + a) * 2 ^ norm_shift r) (r * 2 ^ norm_shift r)
        (?e1 \<lparr> u4_bits_gen := u4_bits_gen ?e1 + (9 - GETRANGE rng), u4_range_e := rng', u4_low := low' \<rparr>)"
      "enc_room (?e1 \<lparr> u4_bits_gen := u4_bits_gen ?e1 + (9 - GETRANGE rng), u4_range_e := rng', u4_low := low' \<rparr>) k"
    using enc_renorm [OF num g low ar, of ?e1] room by auto
  let ?e2 = "?e1 \<lparr> u4_bits_gen := u4_bits_gen ?e1 + (9 - GETRANGE rng), u4_range_e := rng', u4_low := low' \<rparr>"
  have op: "op_ok (length (ac_ctx st)) (Ctx c b)" using c ctx(2) by simp
  note ok' = tabs.ac_step_ok [OF ok op]
  have "\<exists>e'. put_if_ready ?e2 = Some (IHEVCE_SUCCESS, e') \<and>
      enc_rel pre hdr (tabs.ac_step (Ctx c b) st) e' \<and> enc_room e' k"
  proof (rule enc_finish)
    show "enc_num pre hdr (ac_n (tabs.ac_step (Ctx c b) st)) (ac_low (tabs.ac_step (Ctx c b) st))
        (ac_range (tabs.ac_step (Ctx c b) st)) ?e2"
      using n(3) unfolding step by (simp add: ac_select_def Let_def)
    show "map unat (au1_ctxt_models_e ?e2) = ac_ctx (tabs.ac_step (Ctx c b) st)"
      using ctx(1) v(2) unfolding step by (simp add: map_update)
  qed (use pre n(4) ok' ctx(2) mode in \<open>simp_all del: tabs.ac_step.simps\<close>)
  moreover have "ihevce_cabac_encode_bin e (of_bool b) c = put_if_ready ?e2"
  proof -
    have r1: "(of_bool b :: u32) = 0 \<or> (of_bool b :: u32) = 1" by (cases b) simp_all
    show ?thesis
      unfolding ihevce_cabac_encode_bin_def
      by (simp only: Let_def rd_in [OF len] bind.bind_lunit bind_require(1) [OF r1] bind_require(1) [OF c]
        bind_require(1) [OF mt(6)] bits v(1) mode if_True simp_thms bind_require(1) [OF req] mt(1,3,4) sel
        prod.case n(1,2))
  qed
  ultimately show ?thesis by simp
qed

lemma encode_bypass_bin_spec:
  assumes rel: "enc_rel pre hdr st e" and room: "enc_room e (k + 1)"
  shows "\<exists>e'. ihevce_cabac_encode_bypass_bin e (of_bool b) = Some (IHEVCE_SUCCESS, e') \<and>
    enc_rel pre hdr (tabs.ac_step (Byp b) st) e' \<and> enc_room e' k"
proof (rule enc_relE [OF rel])
  assume pre: "clean pre" and num: "enc_num pre hdr (ac_n st) (ac_low st) (ac_range st) e"
    and g: "unat (u4_bits_gen e) \<le> 9" and mode: "e_cabac_op_mode e = CABAC_MODE_ENCODE_BITS"
    and ctx: "map unat (au1_ctxt_models_e e) = ac_ctx st" "length (ac_ctx st) = IHEVC_CAB_CTXT_END"
    and ok: "tabs.ac_ok st" and ur: "unat (u4_range_e e) = ac_range st"
    and req: "u4_range_e e \<ge> 256 \<and> u4_range_e e < 512"
  define low where "low = (if b then push_bit 1 (u4_low e) + u4_range_e e else push_bit 1 (u4_low e))"
  let ?a = "if b then ac_range st else 0"
  note l19 = enc_num_low [OF num g] and R = tabs.ac_okD(1,2) [OF ok]
  have p: "unat (push_bit 1 (u4_low e)) = unat (u4_low e) * 2 ^ 1"
    by (rule unat_push_u32) (use l19 in simp)
  have low: "unat low = unat (u4_low e) * 2 ^ 1 + ?a"
    using l19 R p ur by (auto simp: low_def unat_add_u32)
  let ?e2 = "e \<lparr> u4_bits_estimated_q12 := u4_bits_estimated_q12 e + push_bit 12 1,
      u4_bits_gen := u4_bits_gen e + 1, u4_low := low \<rparr>"
  have gen: "unat (u4_bits_gen e + 1) = unat (u4_bits_gen e) + 1" using g by (subst unat_add_u32) simp_all
  have "enc_num pre hdr (ac_n st + 1) (ac_low st * 2 ^ 1 + ?a) (ac_range st) ?e2"
    by (rule enc_num_shift [OF num g, where low' = low and rng' = "u4_range_e e" and gen' = "u4_bits_gen e + 1"])
      (use low gen R ur in simp_all)
  then have num': "enc_num pre hdr (ac_n (tabs.ac_step (Byp b) st)) (ac_low (tabs.ac_step (Byp b) st))
      (ac_range (tabs.ac_step (Byp b) st)) ?e2" by (simp add: mult.commute)
  have room': "enc_room ?e2 k" by (rule enc_room_shift [OF room gen]) simp_all
  have ok': "tabs.ac_ok (tabs.ac_step (Byp b) st)" using tabs.ac_step_ok [OF ok, of "Byp b"] by simp
  have "\<exists>e'. put_if_ready ?e2 = Some (IHEVCE_SUCCESS, e') \<and>
      enc_rel pre hdr (tabs.ac_step (Byp b) st) e' \<and> enc_room e' k"
    by (rule enc_finish [OF num' pre room' ok']) (use ctx mode in simp_all)
  moreover have "ihevce_cabac_encode_bypass_bin e (of_bool b) = put_if_ready ?e2"
    using mode req by (cases b) (simp_all add: ihevce_cabac_encode_bypass_bin_def low_def)
  ultimately show ?thesis by simp
qed

text \<open>A run of bypass bins, up to 8 of them at once.\<close>

lemma ac_run_byp: "tabs.ac_run (byp bs) st = st \<lparr> ac_n := ac_n st + length bs,
    ac_low := ac_low st * 2 ^ length bs + ac_range st * bits_val bs \<rparr>"
proof (induction bs arbitrary: st)
  case (Cons b bs)
  have "bits_val (b # bs) = of_bool b * 2 ^ length bs + bits_val bs"
    using bits_val_append [of "[b]" bs] by (simp add: bits_val_def)
  then show ?case using Cons by (simp add: algebra_simps)
qed simp

lemma ac_run_byp_ok:
  "tabs.ac_ok st \<Longrightarrow> tabs.ac_ok (tabs.ac_run (byp bs) st) \<and>
   ac_ctx (tabs.ac_run (byp bs) st) = ac_ctx st"
  using tabs.ac_run_ok [of st "byp bs"] ac_run_byp [of bs st] by (simp add: byp_def list_all_iff)

lemma bypass_chunk:
  assumes rel: "enc_rel pre hdr st e" and k: "k \<le> 8" and x: "unat x < 2 ^ k" and room: "enc_room e (j + k)"
  shows "\<exists>e'. put_if_ready (e \<lparr> u4_low := push_bit k (u4_low e) + x * u4_range_e e,
      u4_bits_gen := u4_bits_gen e + word_of_nat k \<rparr>) = Some (IHEVCE_SUCCESS, e') \<and>
    enc_rel pre hdr (tabs.ac_run (byp (nat_bits k (unat x))) st) e' \<and> enc_room e' j \<and>
    u4_range_e e' = u4_range_e e"
proof (rule enc_relE [OF rel])
  assume pre: "clean pre" and num: "enc_num pre hdr (ac_n st) (ac_low st) (ac_range st) e"
    and g: "unat (u4_bits_gen e) \<le> 9" and mode: "e_cabac_op_mode e = CABAC_MODE_ENCODE_BITS"
    and ctx: "map unat (au1_ctxt_models_e e) = ac_ctx st" "length (ac_ctx st) = IHEVC_CAB_CTXT_END"
    and ok: "tabs.ac_ok st" and ur: "unat (u4_range_e e) = ac_range st"
  let ?st = "tabs.ac_run (byp (nat_bits k (unat x))) st" and ?R = "ac_range st"
  note l19 = enc_num_low [OF num g] and R = tabs.ac_okD(1,2) [OF ok]
  have p8: "(2::nat) ^ k \<le> 2 ^ 8" using k by (intro power_increasing) simp_all
  have xR: "unat x * ?R + ?R \<le> ?R * 2 ^ k"
  proof -
    have "(unat x + 1) * ?R \<le> 2 ^ k * ?R" using x by (intro mult_le_mono1) simp
    then show ?thesis by (simp add: mult.commute)
  qed
  have "?R * 2 ^ k \<le> 512 * 2 ^ 8" "unat (u4_low e) * 2 ^ k \<le> 2 ^ 19 * 2 ^ 8"
    using R(2) l19 p8 by (intro mult_le_mono; linarith)+
  note small = this [simplified]
  have p: "unat (push_bit k (u4_low e)) = unat (u4_low e) * 2 ^ k"
    by (rule unat_push_u32) (use small in simp)
  have m: "unat (x * u4_range_e e) = unat x * ?R"
    using xR small(1) ur by (simp add: unat_word_ariths)
  let ?low = "push_bit k (u4_low e) + x * u4_range_e e" and ?gen = "u4_bits_gen e + word_of_nat k"
  have low: "unat ?low = unat (u4_low e) * 2 ^ k + unat x * ?R"
    using p m xR small by (simp add: unat_add_u32)
  have uk: "unat (word_of_nat k :: u32) = k" by (rule unat_u32_small) (use k in simp)
  have gen: "unat ?gen = unat (u4_bits_gen e) + k" using g uk k by (simp add: unat_add_u32)
  let ?e2 = "e \<lparr> u4_low := ?low, u4_bits_gen := ?gen \<rparr>"
  have "enc_num pre hdr (ac_n st + k) (ac_low st * 2 ^ k + unat x * ?R) ?R ?e2"
    by (rule enc_num_shift [OF num g k low xR ur, where gen' = ?gen]) (use gen R in simp_all)
  then have num': "enc_num pre hdr (ac_n ?st) (ac_low ?st) (ac_range ?st) ?e2"
    using x by (simp add: ac_run_byp bits_val_nat_bits mult.commute)
  have room': "enc_room ?e2 j" by (rule enc_room_shift [OF room gen]) simp_all
  obtain e' where e': "put_if_ready ?e2 = Some (IHEVCE_SUCCESS, e')" "enc_rel pre hdr ?st e'" "enc_room e' j"
    using enc_finish [OF num' pre room'] ac_run_byp_ok [OF ok, of "nat_bits k (unat x)"] ctx mode by auto
  moreover have "u4_range_e e' = u4_range_e e"
    using enc_relE [OF e'(2)] ur by (simp add: word_unat_eq_iff ac_run_byp)
  ultimately show ?thesis by blast
qed

lemma shl32_nat: "n < 32 \<Longrightarrow> shl32 x (word_of_nat n) = Some (push_bit n x)"
proof -
  assume n: "n < 32"
  have u: "unat (word_of_nat n :: u32) = n" by (rule unat_u32_small) (use n in simp)
  then have "word_of_nat n < (32 :: u32)" using n by (simp only: word_less_nat_alt) simp
  then show ?thesis using u by (simp only: shl32_in)
qed

lemma bypass_bytes_loop_spec:
  assumes "enc_rel pre hdr st e" "enc_room e (j + n)" "n \<le> 32"
  shows "\<exists>e'. bypass_bytes_loop w n (u4_range_e e) IHEVCE_SUCCESS e = Some (IHEVCE_SUCCESS, e') \<and>
    enc_rel pre hdr (tabs.ac_run (byp (nat_bits n (unat w))) st) e' \<and> enc_room e' j"
  using assms
proof (induction n arbitrary: st e rule: less_induct)
  case (less n)
  show ?case
  proof (cases "n > 8")
    case True
    define m where "m = n - 8"
    have n: "n = 8 + m" using True by (simp add: m_def)
    let ?b = "drop_bit m w AND 0xff :: u32"
    have ub: "unat ?b = unat w div 2 ^ m mod 2 ^ 8"
      using unat_and_mask [of "drop_bit m w" 8] by (simp add: unat_drop_u32)
    have room: "enc_room e ((j + m) + 8)" using less.prems(2) n by (simp add: ac_simps)
    obtain e1 where e1: "put_if_ready (e \<lparr> u4_low := push_bit 8 (u4_low e) + ?b * u4_range_e e,
          u4_bits_gen := u4_bits_gen e + word_of_nat 8 \<rparr>) = Some (IHEVCE_SUCCESS, e1)"
        "enc_rel pre hdr (tabs.ac_run (byp (nat_bits 8 (unat ?b))) st) e1" "enc_room e1 (j + m)"
        "u4_range_e e1 = u4_range_e e"
      using bypass_chunk [OF less.prems(1) _ _ room, of ?b] ub by auto
    obtain e' where e': "bypass_bytes_loop w m (u4_range_e e) IHEVCE_SUCCESS e1 = Some (IHEVCE_SUCCESS, e')"
        "enc_rel pre hdr (tabs.ac_run (byp (nat_bits m (unat w))) (tabs.ac_run (byp (nat_bits 8 (unat ?b))) st)) e'"
        "enc_room e' j"
    proof -
      have "m < n" "m \<le> 32" using True less.prems(3) by (simp_all add: m_def)
      from less.IH [OF this(1) e1(2,3) this(2)] show ?thesis using that unfolding e1(4) by blast
    qed
    have "nat_bits n (unat w) = nat_bits 8 (unat ?b) @ nat_bits m (unat w)"
      unfolding n nat_bits_append ub nat_bits_mod ..
    then show ?thesis using e' e1(1) True
      by (subst bypass_bytes_loop.simps) (simp add: m_def [symmetric] err_or_def)
  next
    case False
    let ?k = "push_bit n 1 :: u32" and ?b = "w AND (push_bit n 1 - 1) :: u32"
    have s: "shl32 1 (word_of_nat n) = Some ?k" by (rule shl32_nat) (use False in simp)
    have ub: "unat ?b = unat w mod 2 ^ n" by (rule unat_and_mask)
    obtain e' where e': "put_if_ready (e \<lparr> u4_low := push_bit n (u4_low e) + ?b * u4_range_e e,
          u4_bits_gen := u4_bits_gen e + word_of_nat n \<rparr>) = Some (IHEVCE_SUCCESS, e')"
        "enc_rel pre hdr (tabs.ac_run (byp (nat_bits n (unat ?b))) st) e'" "enc_room e' j"
      using bypass_chunk [OF less.prems(1) _ _ less.prems(2), of ?b] ub False by auto
    then have "bypass_bytes_loop w n (u4_range_e e) IHEVCE_SUCCESS e = Some (IHEVCE_SUCCESS, e')"
      using False by (subst bypass_bytes_loop.simps) (simp only: if_False s bind.bind_lunit Let_def prod.case err_or_def if_True simp_thms)
    then show ?thesis using e' unfolding ub nat_bits_mod by blast
  qed
qed

lemma enc_estimate:
  "enc_rel pre hdr st (e \<lparr> u4_bits_estimated_q12 := x \<rparr>) = enc_rel pre hdr st e"
  "enc_room (e \<lparr> u4_bits_estimated_q12 := x \<rparr>) k = enc_room e k"
  by (simp_all add: enc_rel_def enc_num_def enc_room_def)

lemma encode_bypass_bins_spec:
  assumes rel: "enc_rel pre hdr st e" and room: "enc_room e (j + n)" and n: "0 < n" "n \<le> 32"
  shows "\<exists>e'. ihevce_cabac_encode_bypass_bins e w n = Some (IHEVCE_SUCCESS, e') \<and>
    enc_rel pre hdr (tabs.ac_run (byp (nat_bits n (unat w))) st) e' \<and> enc_room e' j"
proof (rule enc_relE [OF rel])
  assume mode: "e_cabac_op_mode e = CABAC_MODE_ENCODE_BITS"
    and req: "u4_range_e e \<ge> 256 \<and> u4_range_e e < 512"
  let ?e = "e \<lparr> u4_bits_estimated_q12 := u4_bits_estimated_q12 e + push_bit 12 (word_of_nat n) \<rparr>"
  have "enc_rel pre hdr st ?e" "enc_room ?e (j + n)"
    using rel room by (simp_all add: enc_estimate)
  from bypass_bytes_loop_spec [OF this n(2), of w]
  show ?thesis using n mode req by (simp add: ihevce_cabac_encode_bypass_bins_def Let_def)
qed

section \<open>Binarised symbols\<close>

lemma encode_ones_spec:
  assumes "enc_rel pre hdr st e" "enc_room e (k + 8 * n)"
    and "\<And>j. i \<le> j \<Longrightarrow> j < i + n \<Longrightarrow> tu_ctx idx shift inc j < IHEVC_CAB_CTXT_END"
  shows "\<exists>e'. encode_ones n i idx shift inc IHEVCE_SUCCESS e = Some (IHEVCE_SUCCESS, e') \<and>
    enc_rel pre hdr (tabs.ac_run (map (\<lambda>j. Ctx (tu_ctx idx shift inc j) True) [i..<i + n]) st) e' \<and>
    enc_room e' k"
  using assms
proof (induction n arbitrary: i st e)
  case (Suc n)
  let ?c = "tu_ctx idx shift inc i"
  obtain e1 where e1: "ihevce_cabac_encode_bin e 1 ?c = Some (IHEVCE_SUCCESS, e1)"
      "enc_rel pre hdr (tabs.ac_step (Ctx ?c True) st) e1" "enc_room e1 (k + 8 * n)"
    using encode_bin_spec [OF Suc.prems(1), of ?c "k + 8 * n" True] Suc.prems(2,3)
    by (auto simp: ac_simps simp del: tabs.ac_step.simps)
  have up: "[i..<i + Suc n] = i # [Suc i..<Suc i + n]" by (simp add: upt_conv_Cons)
  show ?case
    using Suc.IH [OF e1(2,3), of "Suc i"] Suc.prems(3) e1(1) unfolding up
    by (auto simp: tu_ctx_def err_or_def simp del: tabs.ac_step.simps upt_Suc)
qed simp

lemma encode_tunary_spec:
  assumes rel: "enc_rel pre hdr st e" and room: "enc_room e (k + 8 * (v + 1))"
    and v: "v \<le> c_max" "0 < c_max" and idx: "idx + c_max div 2 ^ shift < IHEVC_CAB_CTXT_END"
  shows "\<exists>e'. ihevce_cabac_encode_tunary e v c_max idx shift inc = Some (IHEVCE_SUCCESS, e') \<and>
    enc_rel pre hdr (tabs.ac_run (tu_ops c_max idx shift inc v) st) e' \<and> enc_room e' k"
proof -
  have c: "tu_ctx idx shift inc j < IHEVC_CAB_CTXT_END" if "j \<le> c_max" for j
    using idx div_le_mono [OF that, of "2 ^ shift"] by (simp add: tu_ctx_def min_def)
  have room1: "enc_room e ((k + 8) + 8 * v)" using room by (simp add: algebra_simps)
  obtain e1 where e1: "encode_ones v 0 idx shift inc IHEVCE_SUCCESS e = Some (IHEVCE_SUCCESS, e1)"
      "enc_rel pre hdr (tabs.ac_run (map (\<lambda>j. Ctx (tu_ctx idx shift inc j) True) [0..<v]) st) e1"
      "enc_room e1 (k + 8)"
    using encode_ones_spec [OF rel room1, of 0 idx shift inc] c v(1) by auto
  show ?thesis
  proof (cases "v < c_max")
    case True
    let ?c = "tu_ctx idx shift inc v"
    obtain e' where e': "ihevce_cabac_encode_bin e1 0 ?c = Some (IHEVCE_SUCCESS, e')"
        "enc_rel pre hdr (tabs.ac_run (tu_ops c_max idx shift inc v) st) e'" "enc_room e' k"
      using encode_bin_spec [OF e1(2) c [OF v(1)] e1(3), of False] True
      by (auto simp: tu_from_def simp del: tabs.ac_step.simps)
    show ?thesis
    proof (cases "v = 0")
      case True
      then have "e1 = e" using e1(1) by simp
      then show ?thesis using e' True v idx by (simp add: ihevce_cabac_encode_tunary_def tu_ctx_def)
    next
      case False
      then show ?thesis using e' e1(1) v idx \<open>v < c_max\<close>
        by (simp add: ihevce_cabac_encode_tunary_def tu_ctx_def err_or_def)
    qed
  next
    case False
    then show ?thesis using e1 v idx enc_room_mono [OF e1(3), of k]
      by (simp add: ihevce_cabac_encode_tunary_def tu_from_def)
  qed
qed

lemma nat_bits_join:
  assumes "b < 2 ^ n"
  shows "nat_bits (m + n) (a * 2 ^ n + b) = nat_bits m a @ nat_bits n b"
proof -
  have "nat_bits n (a * 2 ^ n + b) = nat_bits n ((a * 2 ^ n + b) mod 2 ^ n)" by (simp only: nat_bits_mod)
  then show ?thesis using assms by (simp add: nat_bits_append)
qed

lemma nat_bits_snoc: "nat_bits (Suc n) (2 * a + of_bool b) = nat_bits n a @ [b]"
proof -
  have "nat_bits 1 (of_bool b) = [b]" by (simp add: nat_bits_def bit_0)
  then show ?thesis using nat_bits_join [of "of_bool b" 1 n a] by (simp add: mult.commute)
qed

lemma nat_bits_ones: "nat_bits n (2 ^ n - 1) = replicate n True"
proof (induction n)
  case (Suc n)
  obtain a where a: "(2::nat) ^ n = a + 1" by (metis le_add_diff_inverse2 one_le_numeral one_le_power)
  have "2 ^ Suc n - 1 = 2 * (2 ^ n - 1) + (of_bool True :: nat)" by (simp add: a)
  then show ?case by (simp only: nat_bits_snoc Suc) (simp add: replicate_append_same)
qed simp

lemma nat_bits_unary: "nat_bits (Suc n) (2 ^ Suc n - 2) = replicate n True @ [False]"
proof -
  have "(2::nat) ^ Suc n - 2 = 2 * (2 ^ n - 1) + of_bool False" by (simp add: diff_mult_distrib2)
  then show ?thesis by (simp only: nat_bits_snoc nat_bits_ones)
qed

text \<open>The word with a unary prefix that the code builds.\<close>

lemma unary_word:
  assumes "n < 31"
  shows "shl32 1 (word_of_nat (Suc n)) = Some (push_bit (Suc n) 1)"
    and "unat (push_bit (Suc n) 1 - 2 :: u32) = 2 ^ Suc n - 2"
proof -
  show "shl32 1 (word_of_nat (Suc n)) = Some (push_bit (Suc n) 1)"
    by (rule shl32_nat) (use assms in simp)
  have "(2::nat) ^ Suc n < 2 ^ 32" by (rule power_strict_increasing) (use assms in simp_all)
  then have "unat (push_bit (Suc n) 1 :: u32) = 2 ^ Suc n"
    using unat_push_u32 [of 1 "Suc n"] by simp
  then show "unat (push_bit (Suc n) 1 - 2 :: u32) = 2 ^ Suc n - 2" by (simp add: unat_sub_u32)
qed

lemma encode_tunary_bypass_spec:
  assumes rel: "enc_rel pre hdr st e" and room: "enc_room e (j + length (tu_bits c_max v))"
    and v: "v \<le> c_max" "0 < c_max" "length (tu_bits c_max v) < 32"
  shows "\<exists>e'. ihevce_cabac_encode_tunary_bypass e v c_max = Some (IHEVCE_SUCCESS, e') \<and>
    enc_rel pre hdr (tabs.ac_run (byp (tu_bits c_max v)) st) e' \<and> enc_room e' j"
proof (cases "v < c_max")
  case True
  then have len: "length (tu_bits c_max v) = Suc v" "v < 31" using v by (simp_all add: tu_bits_def)
  note u = unary_word [OF len(2)]
  have "nat_bits (Suc v) (unat (push_bit (Suc v) 1 - 2 :: u32)) = tu_bits c_max v"
    unfolding u(2) nat_bits_unary using True by (simp add: tu_bits_def)
  then obtain e' where e': "ihevce_cabac_encode_bypass_bins e (push_bit (Suc v) 1 - 2) (Suc v) = Some (IHEVCE_SUCCESS, e')"
      "enc_rel pre hdr (tabs.ac_run (byp (tu_bits c_max v)) st) e'" "enc_room e' j"
    using encode_bypass_bins_spec [OF rel room [unfolded len(1)], of "push_bit (Suc v) 1 - 2"] len(2) by auto
  have t: "v \<le> c_max \<longleftrightarrow> True" "0 < c_max \<longleftrightarrow> True" "v < c_max \<longleftrightarrow> True" using v True by auto
  have "ihevce_cabac_encode_tunary_bypass e v c_max = Some (IHEVCE_SUCCESS, e')"
    unfolding ihevce_cabac_encode_tunary_bypass_def
    by (simp only: t require_simps bind.bind_lunit if_True prod.case Let_def Suc_eq_plus1 [symmetric] u(1) e'(1))
  then show ?thesis using e' by blast
next
  case False
  then have len: "length (tu_bits c_max v) = v" "0 < v" "v < 32" using v by (simp_all add: tu_bits_def)
  have "(2::nat) ^ v < 2 ^ 32" by (rule power_strict_increasing) (use len in simp_all)
  then have "unat (push_bit v 1 :: u32) = 2 ^ v" using unat_push_u32 [of 1 v] by simp
  then have u: "unat (push_bit v 1 - 1 :: u32) = 2 ^ v - 1" by (simp add: unat_sub_u32)
  have "nat_bits v (unat (push_bit v 1 - 1 :: u32)) = tu_bits c_max v"
    unfolding u nat_bits_ones using False by (simp add: tu_bits_def)
  then obtain e' where e': "ihevce_cabac_encode_bypass_bins e (push_bit v 1 - 1) v = Some (IHEVCE_SUCCESS, e')"
      "enc_rel pre hdr (tabs.ac_run (byp (tu_bits c_max v)) st) e'" "enc_room e' j"
    using encode_bypass_bins_spec [OF rel room [unfolded len(1)], of "push_bit v 1 - 1"] len by auto
  have t: "v \<le> c_max \<longleftrightarrow> True" "0 < c_max \<longleftrightarrow> True" "v < c_max \<longleftrightarrow> False" using v False by auto
  have "ihevce_cabac_encode_tunary_bypass e v c_max = Some (IHEVCE_SUCCESS, e')"
    unfolding ihevce_cabac_encode_tunary_bypass_def
    by (simp only: t require_simps bind.bind_lunit if_False prod.case Let_def shl32_nat [OF len(3)] e'(1))
  then show ?thesis using e' by blast
qed

lemma nat_bits_add: "nat_bits k (w + 2 ^ k) = nat_bits k w"
  by (metis mod_add_self2 nat_bits_mod)

lemma egk_bits_word:
  defines "L k v \<equiv> egk_len k v"
  shows "nat_bits (2 * L k v + 1 + k)
      (((2 ^ Suc (L k v) - 2) * 2 ^ L k v + (v div 2 ^ k + 1) mod 2 ^ L k v) * 2 ^ k + v mod 2 ^ k) = egk_bits k v"
proof -
  let ?L = "L k v" and ?q = "v div 2 ^ k + 1"
  have n: "2 * ?L + 1 + k = (Suc ?L + ?L) + k" by simp
  have suf: "nat_bits (?L + k) (egk_suffix k v) = nat_bits ?L ?q @ nat_bits k v"
  proof -
    have "egk_suffix k v + 2 ^ (?L + k) = v + 2 ^ k"
      using egk_suffix(1) [of k v] by (simp add: egk_suffix_def L_def)
    then have "nat_bits (?L + k) (egk_suffix k v) = nat_bits (?L + k) (v + 2 ^ k)"
      by (metis nat_bits_add)
    moreover have "(v + 2 ^ k) div 2 ^ k = ?q" by (subst div_add_self2) simp_all
    ultimately show ?thesis by (simp only: nat_bits_append nat_bits_add)
  qed
  show ?thesis
    unfolding n egk_bits_def L_def [symmetric] suf
    by (simp only: nat_bits_join [OF mod_less_divisor] zero_less_numeral zero_less_power nat_bits_unary
        nat_bits_mod append_assoc append_Cons append_Nil)
qed

text \<open>The code \<open>x 2\<^sup>k\<close> joined with the low \<open>k\<close> bits of \<open>y\<close>.\<close>

lemma join_word:
  assumes "unat x * 2 ^ k < 2 ^ 32"
  shows "unat (push_bit k x OR (y AND (push_bit k 1 - 1)) :: u32) = unat x * 2 ^ k + unat y mod 2 ^ k"
  using push_or_unat [of "y AND (push_bit k 1 - 1)" k x, OF _ assms] unfolding unat_and_mask by simp

lemma word_of_nat_unat_u32: "word_of_nat (unat (w :: u32)) = w"
  by simp

lemma nat_small_u32: "n \<le> 32 \<Longrightarrow> unat (word_of_nat n :: u32) = n"
  by (rule unat_u32_small) simp

lemma encode_egk_spec:
  assumes rel: "enc_rel pre hdr st e" and room: "enc_room e (j + length (egk_bits (unat k) (unat v)))"
    and len: "length (egk_bits (unat k) (unat v)) \<le> 32"
  shows "\<exists>e'. ihevce_cabac_encode_egk e v k = Some (IHEVCE_SUCCESS, e') \<and>
    enc_rel pre hdr (tabs.ac_run (byp (egk_bits (unat k) (unat v))) st) e' \<and> enc_room e' j"
proof -
  define K where "K = unat k"
  define L where "L = egk_len K (unat v)"
  define q where "q = unat v div 2 ^ K + 1"
  have n: "length (egk_bits K (unat v)) = 2 * L + 1 + K" by (simp add: egk_bits_def L_def)
  have small: "2 * L + 1 + K \<le> 32" "2 * L + 1 < 32" using len n unfolding K_def by (simp, presburger)
  have k: "k = word_of_nat K" by (simp add: K_def)
  have nb: "nbits q = Suc L" "q < 2 ^ Suc L" using nbits_bounds [of q] by (auto simp: L_def egk_len_def q_def)
  have pw: "(2::nat) ^ m < 2 ^ 32" if "m < 32" for m by (rule power_strict_increasing) (use that in simp_all)
  let ?u1 = "drop_bit K v + 1 :: u32"
  have u1: "unat ?u1 = q"
  proof -
    have "q < 2 ^ 32" using nb(2) pw [of "Suc L"] small by linarith
    then show ?thesis by (simp add: unat_add_u32 unat_drop_u32 q_def)
  qed
  then have "?u1 \<noteq> 0" by (auto simp: q_def)
  then have "unat (GETRANGE ?u1) = Suc L" using GETRANGE_nbits nb(1) u1 by simp
  then have gr: "GETRANGE ?u1 = word_of_nat (Suc L)" by (metis word_of_nat_unat_u32)
  have gm: "word_of_nat (Suc L) - (1 :: u32) = word_of_nat L" by simp
  have L31: "L < 31" "L < 32" "K < 32" using small by simp_all
  note un = unary_word [OF L31(1)]
  let ?bins = "push_bit (Suc L) 1 - 2 :: u32"
  let ?hi = "push_bit L ?bins OR (?u1 AND (push_bit L 1 - 1)) :: u32"
  let ?w = "push_bit K ?hi OR (v AND (push_bit K 1 - 1)) :: u32"
  have b1: "(2 ^ Suc L - 2) * 2 ^ L + q mod 2 ^ L < (2::nat) ^ (2 * L + 1)"
  proof -
    have "q mod 2 ^ L < 2 ^ L" by simp
    moreover have "(2 ^ Suc L - 2) * 2 ^ L + 2 * 2 ^ L = (2::nat) ^ (2 * L + 1)"
      by (simp add: power_add mult_2 [of L] diff_mult_distrib mult.assoc)
    ultimately show ?thesis by linarith
  qed
  have hi: "unat ?hi = (2 ^ Suc L - 2) * 2 ^ L + q mod 2 ^ L"
  proof -
    have "(2 ^ Suc L - 2) * 2 ^ L < (2::nat) ^ 32"
      using b1 pw [of "2 * L + 1"] small by linarith
    then show ?thesis using join_word [of ?bins L ?u1] un(2) u1 by simp
  qed
  have "(2 ^ Suc L - 2) * 2 ^ L + q mod 2 ^ L < (2::nat) ^ (2 * L + 1)" by (rule b1)
  then have "unat ?hi * 2 ^ K < 2 ^ (2 * L + 1) * 2 ^ K" unfolding hi by (rule mult_strict_right_mono) simp
  also have "\<dots> = (2::nat) ^ (2 * L + 1 + K)" by (simp add: power_add)
  also have "\<dots> \<le> 2 ^ 32" using small by (intro power_increasing) simp_all
  finally have w: "unat ?w = unat ?hi * 2 ^ K + unat v mod 2 ^ K" by (rule join_word)
  have bits: "nat_bits (2 * L + 1 + K) (unat ?w) = egk_bits K (unat v)"
    using egk_bits_word [of K "unat v"] unfolding w hi unfolding q_def L_def .
  have nw: "unat (2 * word_of_nat (Suc L) - 1 + k) = 2 * L + 1 + K"
  proof -
    have "2 * word_of_nat (Suc L) - 1 + k = (word_of_nat (2 * L + 1 + K) :: u32)" unfolding k by simp
    then show ?thesis using small by (simp only: nat_small_u32 less_imp_le)
  qed
  obtain e' where e': "ihevce_cabac_encode_bypass_bins e ?w (2 * L + 1 + K) = Some (IHEVCE_SUCCESS, e')"
      "enc_rel pre hdr (tabs.ac_run (byp (egk_bits K (unat v))) st) e'" "enc_room e' j"
    using encode_bypass_bins_spec [OF rel, of j "2 * L + 1 + K" ?w] room small n bits by (auto simp: K_def)
  have "shr32 v k = Some (drop_bit K v)"
  proof -
    have "k < 32" using L31(3) by (simp add: word_less_nat_alt K_def)
    then show ?thesis by (simp only: shr32_in K_def)
  qed
  then have "ihevce_cabac_encode_egk e v k = Some (IHEVCE_SUCCESS, e')"
    unfolding ihevce_cabac_encode_egk_def
    by (simp only: bind.bind_lunit Let_def gr gm un(1) nw shl32_nat [OF L31(2)] shl32_nat [OF L31(3), folded k] e'(1))
  then show ?thesis using e'(2,3) by (auto simp: K_def)
qed

lemma encode_trunc_rice_spec:
  assumes rel: "enc_rel pre hdr st e" and room: "enc_room e (j + length (tr_bits (unat k) (unat v)))"
    and len: "length (tr_bits (unat k) (unat v)) < 32" and m: "v < c_max"
  shows "\<exists>e'. ihevce_cabac_encode_trunc_rice e v k c_max = Some (IHEVCE_SUCCESS, e') \<and>
    enc_rel pre hdr (tabs.ac_run (byp (tr_bits (unat k) (unat v))) st) e' \<and> enc_room e' j"
proof -
  define K where "K = unat k"
  define L where "L = unat v div 2 ^ K"
  have n: "length (tr_bits K (unat v)) = Suc L + K" by (simp add: tr_bits_def L_def)
  have small: "Suc L + K < 32" using len n by (simp add: K_def)
  have k: "k = word_of_nat K" by (simp add: K_def)
  have L31: "L < 31" "K < 32" using small by simp_all
  note un = unary_word [OF L31(1)]
  have "k < 32" using L31(2) by (simp add: word_less_nat_alt K_def)
  then have sh: "shr32 v k = Some (drop_bit K v)" by (simp only: shr32_in K_def)
  have q: "drop_bit K v + 1 = (word_of_nat (Suc L) :: u32)"
  proof -
    have "drop_bit K v = (word_of_nat L :: u32)" by (metis L_def unat_drop_u32 word_of_nat_unat_u32)
    then show ?thesis by simp
  qed
  let ?bins = "push_bit (Suc L) 1 - 2 :: u32"
  let ?w = "push_bit K ?bins OR (v AND (push_bit K 1 - 1)) :: u32"
  have "(2 ^ Suc L - 2) * 2 ^ K < 2 ^ Suc L * (2::nat) ^ K" by (intro mult_strict_right_mono) simp_all
  also have "\<dots> = 2 ^ (Suc L + K)" by (simp add: power_add)
  also have "\<dots> \<le> 2 ^ 32" using small by (intro power_increasing) simp_all
  finally have w: "unat ?w = (2 ^ Suc L - 2) * 2 ^ K + unat v mod 2 ^ K"
    using join_word [of ?bins K v] un(2) by simp
  have bits: "nat_bits (Suc L + K) (unat ?w) = tr_bits K (unat v)"
    unfolding w tr_bits_def L_def [symmetric]
    by (simp only: nat_bits_join [OF mod_less_divisor] zero_less_numeral zero_less_power nat_bits_unary
        nat_bits_mod append_assoc append_Cons append_Nil)
  have nw: "unat (word_of_nat (Suc L) + k) = Suc L + K"
  proof -
    have "word_of_nat (Suc L) + k = (word_of_nat (Suc L + K) :: u32)" unfolding k by simp
    then show ?thesis using small by (simp only: nat_small_u32 less_imp_le)
  qed
  obtain e' where e': "ihevce_cabac_encode_bypass_bins e ?w (Suc L + K) = Some (IHEVCE_SUCCESS, e')"
      "enc_rel pre hdr (tabs.ac_run (byp (tr_bits K (unat v))) st) e'" "enc_room e' j"
    using encode_bypass_bins_spec [OF rel, of j "Suc L + K" ?w] room small n bits by (auto simp: K_def)
  have "ihevce_cabac_encode_trunc_rice e v k c_max = Some (IHEVCE_SUCCESS, e')"
    unfolding ihevce_cabac_encode_trunc_rice_def
    by (simp only: m require_simps bind.bind_lunit Let_def sh q un(1) nw shl32_nat [OF L31(2), folded k] e'(1))
  then show ?thesis using e'(2,3) by (auto simp: K_def)
qed

section \<open>Termination and the flush\<close>

lemma terminate_select:
  assumes rel: "enc_rel pre hdr st e" and room: "enc_room e (k + 8)" and ar: "2 \<le> r" "a + r \<le> ac_range st"
    and low: "unat low = unat (u4_low e) + a" and rng: "unat rng = r"
  shows "\<exists>low' rng' e'. shl32 low (9 - GETRANGE rng) = Some low' \<and> shl32 rng (9 - GETRANGE rng) = Some rng' \<and>
    put_if_ready (e \<lparr> u4_bits_gen := u4_bits_gen e + (9 - GETRANGE rng), u4_range_e := rng', u4_low := low' \<rparr>) =
      Some (IHEVCE_SUCCESS, e') \<and>
    enc_rel pre hdr (ac_select a r st) e' \<and> enc_room e' k \<and> (r = 2 \<longrightarrow> 2 ^ 7 dvd unat (u4_low e'))"
proof (rule enc_relE [OF rel])
  assume pre: "clean pre" and num: "enc_num pre hdr (ac_n st) (ac_low st) (ac_range st) e"
    and g: "unat (u4_bits_gen e) \<le> 9" and mode: "e_cabac_op_mode e = CABAC_MODE_ENCODE_BITS"
    and ctx: "map unat (au1_ctxt_models_e e) = ac_ctx st" "length (ac_ctx st) = IHEVC_CAB_CTXT_END"
    and ok: "tabs.ac_ok st"
  let ?e = "\<lambda>low' rng'. e \<lparr> u4_bits_gen := u4_bits_gen e + (9 - GETRANGE rng), u4_range_e := rng', u4_low := low' \<rparr>"
  obtain low' rng' where n: "shl32 low (9 - GETRANGE rng) = Some low'" "shl32 rng (9 - GETRANGE rng) = Some rng'"
      "unat low' = unat low * 2 ^ norm_shift r"
      "enc_num pre hdr (ac_n st + norm_shift r) ((ac_low st + a) * 2 ^ norm_shift r) (r * 2 ^ norm_shift r) (?e low' rng')"
      "enc_room (?e low' rng') k"
    using enc_renorm [OF num g low rng ar, of e] room by auto
  have ok': "tabs.ac_ok (ac_select a r st)" using tabs.ac_select_ok [OF ok] ar by simp
  have num': "enc_num pre hdr (ac_n (ac_select a r st)) (ac_low (ac_select a r st)) (ac_range (ac_select a r st)) (?e low' rng')"
    using n(4) by (simp add: ac_select_def Let_def)
  obtain e' where e': "put_if_ready (?e low' rng') = Some (IHEVCE_SUCCESS, e')" "enc_rel pre hdr (ac_select a r st) e'"
      "enc_room e' k" "\<forall>j \<le> 7. 2 ^ j dvd unat (u4_low (?e low' rng')) \<longrightarrow> 2 ^ j dvd unat (u4_low e')"
    using put_if_ready_spec [OF num' pre n(5)] enc_finish [OF num' pre n(5) ok'] ctx mode by auto
  have "r = 2 \<longrightarrow> 2 ^ 7 dvd unat (u4_low e')"
  proof
    assume "r = 2"
    moreover have "nbits 2 = 2" using nbits_unique [of 1 2] by simp
    ultimately have "unat low' = unat low * 2 ^ 7" using n(3) by (simp add: norm_shift_def)
    then have "2 ^ 7 dvd unat low'" by simp
    then show "2 ^ 7 dvd unat (u4_low e')" using e'(4) [THEN spec, of 7] by simp
  qed
  then show ?thesis using n e' by blast
qed

lemma encode_terminate_0_spec:
  assumes rel: "enc_rel pre hdr st e" and room: "enc_room e (k + 8)"
  shows "\<exists>e'. ihevce_cabac_encode_terminate e 0 = Some (IHEVCE_SUCCESS, e') \<and>
    enc_rel pre hdr (tabs.ac_step Trm st) e' \<and> enc_room e' k"
proof (rule enc_relE [OF rel])
  assume ur: "unat (u4_range_e e) = ac_range st" and req: "u4_range_e e \<ge> 256 \<and> u4_range_e e < 512"
    and ok: "tabs.ac_ok st"
  have u: "unat (u4_range_e e - 2) = ac_range st - 2" using req ur by (simp add: unat_sub_u32 word_le_nat_alt)
  have ar: "2 \<le> ac_range st - 2" "0 + (ac_range st - 2) \<le> ac_range st" using tabs.ac_okD [OF ok] by simp_all
  obtain low' rng' e' where n: "shl32 (u4_low e) (9 - GETRANGE (u4_range_e e - 2)) = Some low'"
      "shl32 (u4_range_e e - 2) (9 - GETRANGE (u4_range_e e - 2)) = Some rng'"
      "put_if_ready (e \<lparr> u4_bits_gen := u4_bits_gen e + (9 - GETRANGE (u4_range_e e - 2)), u4_range_e := rng', u4_low := low' \<rparr>) =
      Some (IHEVCE_SUCCESS, e')" "enc_rel pre hdr (ac_select 0 (ac_range st - 2) st) e'" "enc_room e' k"
    using terminate_select [OF rel room ar _ u, of "u4_low e"] by auto
  obtain b where b: "rd gau2_ihevce_cabac_bin_to_bits (unat (push_bit 1 62 OR (0 :: u32))) = Some b"
    by (simp add: gau2_ihevce_cabac_bin_to_bits_def)
  have "ihevce_cabac_encode_terminate e 0 =
      Some (IHEVCE_SUCCESS, e' \<lparr> u4_bits_estimated_q12 := u4_bits_estimated_q12 e' + ucast b \<rparr>)"
    unfolding ihevce_cabac_encode_terminate_def
    by (simp only: Let_def bind_require(1) [OF req] simp_thms if_False prod.case n(1-3) bind.bind_lunit
      bind_require(1) [OF TrueI] b)
  then show ?thesis using n(4,5) by (simp add: enc_estimate)
qed

text \<open>The last byte: the remaining bits, the stop bit, zeros.\<close>

lemma nat_bits_val: "nat_bits (length xs) (bits_val xs) = xs"
proof (induction xs rule: rev_induct)
  case (snoc x xs)
  then show ?case by (simp add: nat_bits_snoc)
qed simp

lemma bytes_bits_val: "nat_bits (8 * length bs) (bytes_val bs) = bytes_bits bs"
  using nat_bits_val [of "bytes_bits bs"] by (simp add: bytes_val_def)

lemma nat_bits_stop: "nat_bits (Suc m) (2 ^ m) = True # replicate m False"
proof -
  have z: "nat_bits m (2 ^ m) = nat_bits m 0" using nat_bits_add [of m 0] by simp
  have "nat_bits m 0 = replicate m False" by (simp add: nat_bits_def map_replicate_const)
  moreover have "nat_bits 1 1 = [True]" using nat_bits_snoc [of 0 0 True] by simp
  ultimately show ?thesis using nat_bits_append [of 1 m "2 ^ m"] z by simp
qed

lemma last_byte_bits:
  assumes "l \<le> 7" "unat (w :: u32) < 2 ^ 16"
  shows "word_bits 8 (ucast ((push_bit (8 - l) w OR push_bit (7 - l) 1) AND 0xFF) :: u8) =
    nat_bits l (unat w) @ True # replicate (7 - l) False"
proof -
  define m where "m = 7 - l"
  have m: "8 - l = Suc m" "8 = l + Suc m" "m \<le> 7" using assms(1) by (auto simp: m_def)
  have pm: "(2::nat) ^ Suc m \<le> 2 ^ 8" using m(3) by (intro power_increasing) simp_all
  have "unat w * 2 ^ Suc m \<le> unat w * 2 ^ 8" using pm by (rule mult_le_mono2)
  moreover have "unat w * 2 ^ 8 < 2 ^ 32" using assms(2) by simp
  ultimately have small: "unat w * 2 ^ Suc m < 2 ^ 32" by (rule le_less_trans)
  have one: "unat (push_bit m 1 :: u32) = 2 ^ m" using unat_push_u32 [of 1 m] pm by simp
  let ?x = "push_bit (Suc m) w OR push_bit m 1 :: u32"
  have x: "unat ?x = unat w * 2 ^ Suc m + 2 ^ m"
    using push_or_unat [OF _ small, of "push_bit m 1"] one by simp
  have ff: "unat (?x AND 0xFF) = unat ?x mod 2 ^ 8" using unat_and_mask [of ?x 8] by simp
  then have "unat (ucast (?x AND 0xFF) :: u8) = unat ?x mod 2 ^ 8"
    by (simp only: unsigned_ucast_eq take_bit_eq_mod) simp
  then have "word_bits 8 (ucast (?x AND 0xFF) :: u8) = nat_bits 8 (unat ?x)"
    by (simp only: word_bits_nat_bits nat_bits_mod)
  also have "\<dots> = nat_bits (l + Suc m) (unat w * 2 ^ Suc m + 2 ^ m)" using x m(2) by simp
  also have "\<dots> = nat_bits l (unat w) @ True # replicate m False"
    using nat_bits_join [of "2 ^ m" "Suc m" l "unat w"] by (simp add: nat_bits_stop)
  finally show ?thesis by (simp add: m(1) m_def)
qed

text \<open>The remaining bits: a byte when there are 8, and up to 7 more.\<close>

lemma flush_rest:
  assumes rel: "out_rel pre raw (buf, off, zr)" and room: "unat off + 4 \<le> length buf" "unat off + 4 < 2 ^ 32"
    and g: "g \<le> 9" and w: "unat (w :: u32) < 2 ^ (g + 1)"
  shows "\<exists>buf1 off1 zr1 xs l. (if word_of_nat (g + 1) \<ge> (8 :: u32) then do {
       last_byte \<leftarrow> shr32 w (word_of_nat (g + 1) - 8);
       st \<leftarrow> PUTBYTE_EPB (ucast (last_byte AND 0xFF)) (buf, off, zr);
       Some (st, word_of_nat (g + 1) - 8)
     } else Some ((buf, off, zr), word_of_nat (g + 1))) = Some ((buf1, off1, zr1), word_of_nat l :: u32) \<and>
    out_rel pre (raw @ xs) (buf1, off1, zr1) \<and> l \<le> 7 \<and> length buf1 = length buf \<and> unat off1 \<le> unat off + 2 \<and>
    bytes_bits xs @ nat_bits l (unat w) = nat_bits (g + 1) (unat w)"
proof (cases "8 \<le> g + 1")
  case True
  define l where "l = g + 1 - 8"
  have l: "g + 1 = 8 + l" "l \<le> 2" using True g by (auto simp: l_def)
  have c: "word_of_nat (g + 1) \<ge> (8 :: u32)" unfolding word_le_nat_alt using True g by (subst nat_small_u32) simp_all
  have d: "word_of_nat (g + 1) - 8 = (word_of_nat l :: u32)" unfolding l by simp
  have lw: "word_of_nat l < (32 :: u32)" unfolding word_less_nat_alt using l by (subst nat_small_u32) simp_all
  have ul: "unat (word_of_nat l :: u32) = l" using l by (intro nat_small_u32) simp
  let ?b = "ucast (drop_bit l w AND 0xFF) :: u8"
  have ff: "unat (drop_bit l w AND 0xFF) = unat w div 2 ^ l mod 2 ^ 8"
    using unat_and_mask [of "drop_bit l w" 8] by (simp add: unat_drop_u32)
  then have "unat ?b = unat w div 2 ^ l mod 2 ^ 8" by (simp only: unsigned_ucast_eq take_bit_eq_mod) simp
  then have "word_bits 8 ?b = nat_bits 8 (unat w div 2 ^ l)" by (simp only: word_bits_nat_bits nat_bits_mod)
  then have "bytes_bits [?b] = nat_bits 8 (unat w div 2 ^ l)" by (simp add: bytes_bits_def)
  then have bits: "bytes_bits [?b] @ nat_bits l (unat w) = nat_bits (g + 1) (unat w)"
    unfolding l by (simp only: nat_bits_append)
  obtain buf1 off1 zr1 where p: "PUTBYTE_EPB ?b (buf, off, zr) = Some (buf1, off1, zr1)"
      "out_rel pre (raw @ [?b]) (buf1, off1, zr1)" "length buf1 = length buf" "unat off1 \<le> unat off + 2"
    using PUTBYTE_EPB_spec [OF rel, of ?b] length_epb1 [of "epb_run 0 raw" ?b] room by fastforce
  have "(if word_of_nat (g + 1) \<ge> (8 :: u32) then do {
       last_byte \<leftarrow> shr32 w (word_of_nat (g + 1) - 8);
       st \<leftarrow> PUTBYTE_EPB (ucast (last_byte AND 0xFF)) (buf, off, zr);
       Some (st, word_of_nat (g + 1) - 8)
     } else Some ((buf, off, zr), word_of_nat (g + 1))) = Some ((buf1, off1, zr1), word_of_nat l :: u32)"
    by (simp only: c if_True d shr32_in [OF lw] ul bind.bind_lunit p(1))
  then show ?thesis using p(2-4) bits l(2) by fastforce
next
  case False
  then have c: "\<not> word_of_nat (g + 1) \<ge> (8 :: u32)" unfolding word_le_nat_alt using g by (subst nat_small_u32) simp_all
  show ?thesis
    by (rule exI [of _ buf], rule exI [of _ off], rule exI [of _ zr], rule exI [of _ "[]"], rule exI [of _ "g + 1"])
      (use rel False in \<open>simp only: c if_False simp_thms, simp add: bytes_bits_def\<close>)
qed

lemma flush_num:
  assumes n: "n = 8 * (k + N) + g" and len: "k + N = length out" and A: "A = (V * 256 ^ N + (256 ^ N - 1)) * 2 ^ (9 + g) + low"
    and low: "low < 2 ^ (10 + g)"
    and val: "bytes_val out = V * 256 ^ N + (if odd (low div 2 ^ (9 + g)) then 256 ^ N else 256 ^ N - 1)"
  shows "nat_bits (n + 1) (A div 256) = bytes_bits out @ nat_bits (g + 1) (low mod 2 ^ (9 + g) div 2 ^ 8)"
proof -
  let ?c = "low div 2 ^ (9 + g)" and ?r = "low mod 2 ^ (9 + g)"
  have "(2::nat) ^ (10 + g) = 2 * 2 ^ (9 + g)" by (simp add: power_add)
  then have c: "?c < 2" using low by (simp add: less_mult_imp_div_less)
  obtain a where a: "(256::nat) ^ N = a + 1" by (metis le_add_diff_inverse2 one_le_power one_le_numeral)
  have "low = ?c * 2 ^ (9 + g) + ?r" by (rule div_mult_mod_eq [symmetric])
  moreover have "?c = 0 \<or> ?c = 1" using c by auto
  ultimately have "A = bytes_val out * 2 ^ (9 + g) + ?r"
    unfolding A val a by (auto simp: add_mult_distrib)
  moreover have "(2::nat) ^ (9 + g) = 2 ^ (g + 1) * 256" by (simp add: power_add)
  ultimately have d: "A div 256 = bytes_val out * 2 ^ (g + 1) + ?r div 2 ^ 8" by simp
  have "?r < 2 ^ (g + 1) * 256" using \<open>2 ^ (9 + g) = 2 ^ (g + 1) * 256\<close> by (metis mod_less_divisor zero_less_numeral zero_less_power)
  then have r: "?r div 2 ^ 8 < 2 ^ (g + 1)" by (simp add: less_mult_imp_div_less)
  have "n + 1 = 8 * length out + (g + 1)" using n len by simp
  then show ?thesis unfolding d by (simp only: nat_bits_join [OF r] bytes_bits_val)
qed

lemma flush_spec:
  assumes num: "enc_num pre hdr n A R e" and pre: "clean pre" and g9: "unat (u4_bits_gen e) \<le> 9"
    and room: "enc_room e 0"
  shows "\<exists>e' out t. ihevce_cabac_flush e = Some (IHEVCE_SUCCESS, e') \<and>
    out_rel pre (hdr @ out) (pu1_strm_buffer_c e', u4_strm_buf_offset_c e', i4_zero_bytes_run_c e') \<and>
    bytes_bits out = nat_bits (n + 1) (A div 256) @ True # replicate t False \<and> t < 8 \<and> enc_same e e'"
proof -
  define N where "N = unat (u4_out_standing_bytes e)"
  define g where "g = unat (u4_bits_gen e)"
  define low where "low = unat (u4_low e)"
  obtain out where o: "out_rel pre (hdr @ out) (pu1_strm_buffer_c e, u4_strm_buf_offset_c e, i4_zero_bytes_run_c e)"
    "n = 8 * (length out + N) + g"
    "A = (bytes_val out * 256 ^ N + (256 ^ N - 1)) * 2 ^ (9 + g) + low"
    "256 \<le> R" "low + R \<le> 2 ^ (10 + g)" "low + R \<le> 2 ^ (9 + g) \<or> out \<noteq> [] \<and> last out \<noteq> 0xFF"
    using num unfolding enc_num_def Let_def N_def g_def low_def by blast
  have g: "g \<le> 9" using g9 by (simp add: g_def)
  have gw: "u4_bits_gen e = word_of_nat g" by (simp add: g_def)
  have lt: "low < 2 ^ (10 + g)" using o(4,5) by simp
  let ?c = "drop_bit (9 + g) (u4_low e)"
  have ws: "u4_bits_gen e + 9 = word_of_nat (9 + g)" "u4_bits_gen e + 1 = word_of_nat (g + 1)"
      "word_of_nat (9 + g) - word_of_nat (g + 1) = (word_of_nat 8 :: u32)"
    unfolding gw by simp_all
  have s9: "word_of_nat (9 + g) < (32 :: u32)" "unat (word_of_nat (9 + g) :: u32) = 9 + g"
    unfolding word_less_nat_alt using g by (subst nat_small_u32; simp)+
  have s8: "word_of_nat 8 < (32 :: u32)" "unat (word_of_nat 8 :: u32) = 8" by simp_all
  define carry where "carry = odd (low div 2 ^ (9 + g))"
  have cw: "(?c AND 0x1 \<noteq> 0) = carry" unfolding and_1_u32 unat_drop_u32 carry_def low_def ..
  have off32: "unat (u4_strm_buf_offset_c e) + 2 * N + 16 \<le> unat (u4_max_strm_size_c e)"
      "unat (u4_max_strm_size_c e) \<le> length (pu1_strm_buffer_c e)" "unat (u4_max_strm_size_c e) < 2 ^ 32"
    using room unat_u32_lt [of "u4_max_strm_size_c e"] by (auto simp: enc_room_def N_def)
  have ov: "(u4_max_strm_size_c e \<le> u4_strm_buf_offset_c e + u4_out_standing_bytes e + 1) = False"
    using off32 by (simp add: word_le_nat_alt unat_add_u32 N_def)
  have cin: "carry \<Longrightarrow> out \<noteq> [] \<and> last out \<noteq> 0xFF"
  proof -
    assume carry
    then have "low div 2 ^ (9 + g) \<noteq> 0" by (metis carry_def even_zero)
    then have "2 ^ (9 + g) \<le> low" by (simp add: div_eq_0_iff)
    then show "out \<noteq> [] \<and> last out \<noteq> 0xFF" using o(4,6) by auto
  qed
  obtain buf1 off1 zr1 buf2 off2 zr2 out' where b: "insert_carry carry (pu1_strm_buffer_c e, u4_strm_buf_offset_c e, i4_zero_bytes_run_c e) = Some (buf1, off1, zr1)"
      "put_outstanding N carry (buf1, off1, zr1) = Some (buf2, off2, zr2)"
      "out_rel pre (hdr @ out') (buf2, off2, zr2)" "length out' = length out + N"
      "bytes_val out' = bytes_val out * 256 ^ N + (if carry then 256 ^ N else 256 ^ N - 1)"
      "length buf2 = length (pu1_strm_buffer_c e)" "unat off2 \<le> unat (u4_strm_buf_offset_c e) + 2 * N"
    using insert_bytes_spec [where carry = carry and N = N, OF o(1) pre cin] off32 by auto
  let ?low = "u4_low e AND (push_bit (9 + g) 1 - 1)"
  let ?rem = "drop_bit 8 ?low"
  have ur: "unat ?rem = low mod 2 ^ (9 + g) div 2 ^ 8" unfolding unat_drop_u32 unat_and_mask low_def ..
  have rlt: "unat ?rem < 2 ^ (g + 1)"
  proof -
    have e: "(2::nat) ^ (9 + g) = 2 ^ (g + 1) * 2 ^ 8" by (simp add: power_add)
    have "low mod 2 ^ (9 + g) < 2 ^ (g + 1) * 2 ^ 8" unfolding e [symmetric] by simp
    then show ?thesis unfolding ur by (rule less_mult_imp_div_less)
  qed
  obtain buf3 off3 zr3 xs l where r: "(if word_of_nat (g + 1) \<ge> (8 :: u32) then do {
       last_byte \<leftarrow> shr32 ?rem (word_of_nat (g + 1) - 8);
       st \<leftarrow> PUTBYTE_EPB (ucast (last_byte AND 0xFF)) (buf2, off2, zr2);
       Some (st, word_of_nat (g + 1) - 8)
     } else Some ((buf2, off2, zr2), word_of_nat (g + 1))) = Some ((buf3, off3, zr3), word_of_nat l :: u32)"
      "out_rel pre ((hdr @ out') @ xs) (buf3, off3, zr3)" "l \<le> 7" "length buf3 = length buf2" "unat off3 \<le> unat off2 + 2"
      "bytes_bits xs @ nat_bits l (unat ?rem) = nat_bits (g + 1) (unat ?rem)"
    using flush_rest [OF b(3) _ _ g rlt] off32 b(6,7) by auto
  have bw: "8 - word_of_nat l = (word_of_nat (8 - l) :: u32)" "7 - word_of_nat l = (word_of_nat (7 - l) :: u32)"
    using r(3) by (simp_all add: of_nat_diff)
  have bs: "shl32 ?rem (8 - word_of_nat l) = Some (push_bit (8 - l) ?rem)" "shl32 1 (7 - word_of_nat l) = Some (push_bit (7 - l) 1)"
    unfolding bw by (rule shl32_nat, simp)+
  let ?b = "ucast ((push_bit (8 - l) ?rem OR push_bit (7 - l) 1) AND 0xFF) :: u8"
  have "(2::nat) ^ (g + 1) \<le> 2 ^ 16" using g by (intro power_increasing) simp_all
  then have lb: "word_bits 8 ?b = nat_bits l (unat ?rem) @ True # replicate (7 - l) False"
    using rlt by (intro last_byte_bits [OF r(3)]) simp
  obtain buf4 off4 zr4 where p: "PUTBYTE_EPB ?b (buf3, off3, zr3) = Some (buf4, off4, zr4)"
      "out_rel pre (((hdr @ out') @ xs) @ [?b]) (buf4, off4, zr4)"
    using PUTBYTE_EPB_spec [OF r(2), of ?b] off32 b(6,7) r(4,5) by fastforce
  have nz: "zr4 = 0"
  proof -
    have "?b \<noteq> 0"
    proof
      assume "?b = 0"
      then have "word_bits 8 ?b = replicate 8 False" by (simp only:) (simp add: word_bits_def map_replicate_const)
      then have "True \<in> set (replicate 8 False)" using lb by (metis in_set_conv_decomp)
      then show False by simp
    qed
    then show ?thesis using p(2) by (simp add: out_rel_def zrun_def)
  qed
  let ?e' = "e \<lparr> pu1_strm_buffer_c := buf4, u4_strm_buf_offset_c := off4, i4_zero_bytes_run_c := 0 \<rparr>"
  have sh9: "shr32 (u4_low e) (word_of_nat (9 + g)) = Some ?c" "shr32 ?low (word_of_nat 8) = Some ?rem"
    by (simp_all only: shr32_in [OF s9(1)] s9(2) shr32_in [OF s8(1)] s8(2))
  have one9: "shl32 1 (word_of_nat (9 + g)) = Some (push_bit (9 + g) 1)" by (rule shl32_nat) (use g in simp)
  have run: "ihevce_cabac_flush e = Some (IHEVCE_SUCCESS, ?e')"
    unfolding ihevce_cabac_flush_def
    by (simp only: Let_def ws sh9 one9 bind.bind_lunit cw ov if_False b(1) N_def [symmetric] b(2) r(1) prod.case bs p(1))
  have "bytes_bits (out' @ xs @ [?b]) = nat_bits (n + 1) (A div 256) @ True # replicate (7 - l) False"
  proof -
    have "nat_bits (n + 1) (A div 256) = bytes_bits out' @ nat_bits (g + 1) (unat ?rem)"
      unfolding ur by (rule flush_num [OF o(2) b(4) [symmetric] o(3) lt]) (use b(5) in \<open>simp add: carry_def\<close>)
    moreover have "bytes_bits (out' @ xs @ [?b]) = bytes_bits out' @ bytes_bits xs @ word_bits 8 ?b"
      by (simp add: bytes_bits_def)
    ultimately show ?thesis using lb r(6) [symmetric] by simp
  qed
  moreover have "out_rel pre (hdr @ out' @ xs @ [?b]) (buf4, off4, 0)" using p(2) nz by simp
  ultimately show ?thesis using run
    by (intro exI [of _ ?e'] exI [of _ "out' @ xs @ [?b]"] exI [of _ "7 - l"]) (simp add: enc_same_def)
qed

lemma encode_terminate_1_spec:
  assumes rel: "enc_rel pre hdr st e" and room: "enc_room e 8"
  shows "\<exists>e' out t. ihevce_cabac_encode_terminate e 1 = Some (IHEVCE_SUCCESS, e') \<and>
    out_rel pre (hdr @ out) (pu1_strm_buffer_c e', u4_strm_buf_offset_c e', i4_zero_bytes_run_c e') \<and>
    bytes_bits out = nat_bits (ac_n (tabs.ac_end st) + 1) (ac_low (tabs.ac_end st) div 256) @ True # replicate t False \<and>
    t < 8 \<and> 2 ^ 7 dvd ac_low (tabs.ac_end st) \<and> tabs.ac_ok (tabs.ac_end st)"
proof (rule enc_relE [OF rel])
  assume ur: "unat (u4_range_e e) = ac_range st" and req: "u4_range_e e \<ge> 256 \<and> u4_range_e e < 512"
    and ok: "tabs.ac_ok st" and g: "unat (u4_bits_gen e) \<le> 9"
    and num: "enc_num pre hdr (ac_n st) (ac_low st) (ac_range st) e"
  let ?E = "tabs.ac_end st" and ?low = "u4_low e + (u4_range_e e - 2)"
  have u: "unat (u4_range_e e - 2) = ac_range st - 2" using req ur by (simp add: unat_sub_u32 word_le_nat_alt)
  have low: "unat ?low = unat (u4_low e) + (ac_range st - 2)"
  proof -
    have "unat (u4_low e) + (ac_range st - 2) < 2 ^ 32" using enc_num_low [OF num g] by simp
    then show ?thesis using u by (simp add: unat_add_u32)
  qed
  have ar: "(2::nat) \<le> 2" "ac_range st - 2 + 2 \<le> ac_range st" using tabs.ac_okD [OF ok] by simp_all
  have room': "enc_room e (0 + 8)" using room by simp
  obtain low' rng' e1 where n: "shl32 ?low (9 - GETRANGE 2) = Some low'"
      "shl32 2 (9 - GETRANGE 2) = Some rng'"
      "put_if_ready (e \<lparr> u4_bits_gen := u4_bits_gen e + (9 - GETRANGE 2), u4_range_e := rng', u4_low := low' \<rparr>) =
      Some (IHEVCE_SUCCESS, e1)" "enc_rel pre hdr ?E e1" "enc_room e1 0" "2 ^ 7 dvd unat (u4_low e1)"
    using terminate_select [OF rel room' ar low, of 2] unfolding tabs.ac_end_def by auto
  show ?thesis
  proof (rule enc_relE [OF n(4)])
    assume pre: "clean pre" and num1: "enc_num pre hdr (ac_n ?E) (ac_low ?E) (ac_range ?E) e1"
      and g1: "unat (u4_bits_gen e1) \<le> 9" and ok1: "tabs.ac_ok ?E"
    obtain e' out t where f: "ihevce_cabac_flush e1 = Some (IHEVCE_SUCCESS, e')"
        "out_rel pre (hdr @ out) (pu1_strm_buffer_c e', u4_strm_buf_offset_c e', i4_zero_bytes_run_c e')"
        "bytes_bits out = nat_bits (ac_n ?E + 1) (ac_low ?E div 256) @ True # replicate t False" "t < 8"
      using flush_spec [OF num1 pre g1 n(5)] by blast
    have dv: "2 ^ 7 dvd ac_low ?E"
    proof -
      have "nbits 2 = 2" using nbits_unique [of 1 2] by simp
      then show ?thesis by (simp add: tabs.ac_end_def ac_select_def Let_def norm_shift_def)
    qed
    obtain b where b: "rd gau2_ihevce_cabac_bin_to_bits (unat (push_bit 1 62 OR (1 :: u32))) = Some b"
      by (simp add: gau2_ihevce_cabac_bin_to_bits_def)
    have one: "(1 :: u32) = 0 \<or> (1 :: u32) = 1" "(1 :: u32) \<noteq> 0" by simp_all
    have "ihevce_cabac_encode_terminate e 1 =
        Some (IHEVCE_SUCCESS, e' \<lparr> u4_bits_estimated_q12 := u4_bits_estimated_q12 e' + ucast b \<rparr>)"
      unfolding ihevce_cabac_encode_terminate_def
      by (simp only: Let_def bind_require(1) [OF req] one(2) simp_thms bind_require(1) [OF TrueI] if_True prod.case n(1-3)
        bind.bind_lunit f(1) b)
    then show ?thesis using f(2-4) dv ok1 by auto
  qed
qed

text \<open>The bytes the termination writes end the stream inside the final interval.\<close>

lemma flushed_inside:
  assumes T: "prefixes T" and ok: "tabs.ac_ok st" and dv: "2 ^ 7 dvd ac_low st"
    and bits: "T (ac_n st + 2) = bits_val (nat_bits (ac_n st + 1) (ac_low st div 256) @ [True])"
  shows "inside T st"
proof -
  let ?n = "ac_n st" and ?A = "ac_low st"
  have R: "256 \<le> ac_range st" "?A + ac_range st \<le> 510 * 2 ^ ?n" using tabs.ac_okD [OF ok] by simp_all
  have "?A < 2 ^ (?n + 1) * 256" using R by simp
  then have "?A div 256 < 2 ^ (?n + 1)" by (simp only: less_mult_imp_div_less)
  then have t: "T (?n + 2) = 2 * (?A div 256) + 1" using bits by (simp add: bits_val_nat_bits)
  have d: "T (9 + ?n) div 2 ^ 7 = T (?n + 2)" 
    using T [unfolded prefixes_def, rule_format, of "?n + 2" 7] by (simp add: add.commute)
  obtain k where k: "?A = 128 * k" using dv by (auto elim: dvdE)
  have "T (9 + ?n) div 128 = 2 * (k div 2) + 1" using d t k by simp
  then have "128 * (2 * (k div 2) + 1) \<le> T (9 + ?n)" "T (9 + ?n) < 128 * (2 * (k div 2) + 1) + 128"
    by (metis div_times_less_eq_dividend mult.commute) (metis dividend_less_times_div mult.commute add.commute zero_less_numeral \<open>T (9 + ?n) div 128 = 2 * (k div 2) + 1\<close>)
  moreover have "128 * k \<le> 128 * (2 * (k div 2) + 1)" "128 * (2 * (k div 2) + 1) + 128 \<le> 128 * k + 256" by simp_all
  ultimately show ?thesis using R(1) k by (simp add: inside_def)
qed

end
