(* ===== verification/Symbol_Channel.thy ===== *)
theory Symbol_Channel
  imports Main "HOL-Library.Monad_Syntax"
begin

text \<open>
  The interface between a writer and a reader of coded elements. An element codes to a list of
  symbols: bits for the bitstream, bins for CABAC.

  \<open>symbol_sink\<close> is what a client asks of a writer: a put appends the code of an element, as long
  as there is room for it. \<open>symbol_source\<close> is what it asks of a reader: a get in front of a code
  returns its element and moves past it, knowing only the kind of the element.
  \<open>symbol_channel\<close> puts the two together: every list of elements arrives as it was put.
\<close>

locale symbol_sink =
  fixes put :: "'s \<Rightarrow> 'e \<Rightarrow> 's option"
    and code :: "'e \<Rightarrow> 'b list"
    and ok :: "'e \<Rightarrow> bool"
    and sees :: "'s \<Rightarrow> 'b list \<Rightarrow> nat \<Rightarrow> bool"
  assumes put_code: "sees s bs (Suc n) \<Longrightarrow> ok e \<Longrightarrow> \<exists>t. put s e = Some t \<and> sees t (bs @ code e) n"
begin

fun put_all :: "'s \<Rightarrow> 'e list \<Rightarrow> 's option" where
  "put_all s [] = Some s"
| "put_all s (e # es) = do { s \<leftarrow> put s e; put_all s es }"

lemma put_all_code:
  "sees s bs (length es + n) \<Longrightarrow> list_all ok es \<Longrightarrow>
   \<exists>t. put_all s es = Some t \<and> sees t (bs @ concat (map code es)) n"
proof (induction es arbitrary: s bs)
  case (Cons e es)
  then obtain t where t: "put s e = Some t" "sees t (bs @ code e) (length es + n)"
    using put_code [of s bs "length es + n" e] by auto
  show ?case using t(1) Cons.IH [OF t(2)] Cons.prems(2) by auto
qed simp

end

locale symbol_source =
  fixes get :: "'k \<Rightarrow> 'r \<Rightarrow> ('e \<times> 'r) option"
    and kind :: "'e \<Rightarrow> 'k"
    and code :: "'e \<Rightarrow> 'b list"
    and ok :: "'e \<Rightarrow> bool"
    and ahead :: "'r \<Rightarrow> 'b list \<Rightarrow> bool"
  assumes get_code:
    "ahead r (code e @ bs) \<Longrightarrow> ok e \<Longrightarrow> \<exists>t. get (kind e) r = Some (e, t) \<and> ahead t bs"
begin

fun get_all :: "'k list \<Rightarrow> 'r \<Rightarrow> ('e list \<times> 'r) option" where
  "get_all [] r = Some ([], r)"
| "get_all (k # ks) r = do { (v, r) \<leftarrow> get k r; (vs, r) \<leftarrow> get_all ks r; Some (v # vs, r) }"

lemma get_all_code:
  "ahead r (concat (map code es) @ bs) \<Longrightarrow> list_all ok es \<Longrightarrow>
   \<exists>t. get_all (map kind es) r = Some (es, t) \<and> ahead t bs"
proof (induction es arbitrary: r)
  case (Cons e es)
  then obtain t where t: "get (kind e) r = Some (e, t)" "ahead t (concat (map code es) @ bs)"
    using get_code [of r e "concat (map code es) @ bs"] by auto
  show ?case using t(1) Cons.IH [OF t(2)] Cons.prems(2) by auto
qed simp

end

text \<open>\<open>carry\<close> takes the writer's state to the reader: whatever it does, elements arrive as
  they were put when it leaves the reader in front of the bits that were written.\<close>

locale symbol_channel = sink: symbol_sink put code ok sees + source: symbol_source get kind code ok ahead
  for put :: "'s \<Rightarrow> 'e \<Rightarrow> 's option" and code :: "'e \<Rightarrow> 'b list" and ok sees
    and get :: "'k \<Rightarrow> 'r \<Rightarrow> ('e \<times> 'r) option" and kind ahead
begin

lemma channel:
  assumes "sees s [] (length es + n)" "list_all ok es"
    and carry: "\<And>t. sees t (concat (map code es)) n \<Longrightarrow>
      \<exists>r bs. carry t = Some r \<and> ahead r (concat (map code es) @ bs)"
  shows "do { t \<leftarrow> sink.put_all s es; r \<leftarrow> carry t;
              (vs, r) \<leftarrow> source.get_all (map kind es) r; Some vs } = Some es"
proof -
  obtain t where t: "sink.put_all s es = Some t" "sees t (concat (map code es)) n"
    using sink.put_all_code [OF assms(1,2)] by auto
  moreover obtain r bs where r: "carry t = Some r" "ahead r (concat (map code es) @ bs)"
    using carry t(2) by blast
  moreover obtain r' where "source.get_all (map kind es) r = Some (es, r')"
    using source.get_all_code [OF r(2) assms(2)] by blast
  ultimately show ?thesis by simp
qed

end

end
