(* ===== verification/Syntax_Stream.thy ===== *)
theory Syntax_Stream
  imports Symbol_Channel Bit_Reader Bit_Writer Nal
begin

text \<open>
  Writer and reader of syntax elements together. A sequence of elements, each a fixed length
  code \<open>u(n)\<close> or an Exp-Golomb code, is written with the encoder's \<^verbatim>\<open>ihevce_put_bits\<close>,
  \<^verbatim>\<open>ihevce_put_uev\<close> and \<^verbatim>\<open>ihevce_put_sev\<close> and read with the decoder's
  \<^verbatim>\<open>ihevcd_bits_get\<close>, \<^verbatim>\<open>ihevcd_uev\<close> and \<^verbatim>\<open>ihevcd_sev\<close>.

  The two bitstream components are interpreted as a channel of \<open>Symbol_Channel\<close> with bits as
  symbols.
\<close>

unbundle bit_operations_syntax

section \<open>The syntax elements of a header\<close>

datatype elem = U nat nat | UE nat | SE int

primrec elem_code :: "elem \<Rightarrow> bool list" where
  "elem_code (U n v) = word_bits n (word_of_nat v :: u32)"
| "elem_code (UE v) = ue_bits v"
| "elem_code (SE x) = se_bits x"

text \<open>The values the writer supports: Exp-Golomb codewords of at most 31 bits.\<close>

primrec elem_ok :: "elem \<Rightarrow> bool" where
  "elem_ok (U n v) \<longleftrightarrow> 1 \<le> n \<and> n \<le> 32 \<and> v < 2 ^ n"
| "elem_ok (UE v) \<longleftrightarrow> v + 1 < 2 ^ 16"
| "elem_ok (SE x) \<longleftrightarrow> \<bar>x\<bar> < 2 ^ 15"

definition put_elem :: "bitstrm_e \<Rightarrow> elem \<Rightarrow> bitstrm_e option" where
  "put_elem s e = do {
     (ret, s) \<leftarrow> (case e of U n v \<Rightarrow> ihevce_put_bits s (word_of_nat v) (int n)
                       | UE v \<Rightarrow> ihevce_put_uev s (word_of_nat v)
                       | SE x \<Rightarrow> ihevce_put_sev s x);
     if ret = IHEVCE_SUCCESS then Some s else None
   }"

text \<open>What a reader knows before it reads: the kind of an element, and the length of a fixed
  length code.\<close>

datatype elem_kind = KU nat | KUE | KSE

primrec kind_of :: "elem \<Rightarrow> elem_kind" where
  "kind_of (U n v) = KU n"
| "kind_of (UE v) = KUE"
| "kind_of (SE x) = KSE"

primrec get_elem :: "elem_kind \<Rightarrow> bitstrm \<Rightarrow> (elem \<times> bitstrm) option" where
  "get_elem (KU n) s = do { (v, s) \<leftarrow> ihevcd_bits_get s (word_of_nat n); Some (U n (unat v), s) }"
| "get_elem KUE s = do { (v, s) \<leftarrow> ihevcd_uev s; Some (UE (unat v), s) }"
| "get_elem KSE s = do { (x, s) \<leftarrow> ihevcd_sev s; Some (SE x, s) }"

definition nals_room :: "bitstrm_e \<Rightarrow> bool" where
  "nals_room s \<longleftrightarrow> 0 \<le> i4_num_nal s \<and> i4_num_nal s < MAX_NALS_IN_AU \<and>
     length (apu1_nal_start s) = nat MAX_NALS_IN_AU"

definition wr_sees :: "u8 list \<Rightarrow> bitstrm_e \<Rightarrow> bool list \<Rightarrow> nat \<Rightarrow> bool" where
  "wr_sees pre s bs n \<longleftrightarrow>
     (\<exists>raw. wr_rel pre raw s \<and> wr_bits raw s = bs \<and> length raw \<le> length bs) \<and> wr_room s (8 * n) \<and>
     nals_room s"

definition rd_ahead :: "bitstrm \<Rightarrow> bool list \<Rightarrow> bool" where
  "rd_ahead s bs \<longleftrightarrow> rd_inv s \<and> rd_room s (length bs) \<and>
     (\<forall>i < length bs. rd_bits s (rd_pos s + i) = bs ! i)"

lemma wr_sees_step:
  assumes "wr_room s (8 * Suc n)" "nals_room s" "wr_step s 8 t" "wr_rel pre raw t" "wr_bits raw t = bs"
  shows "wr_sees pre t bs n"
proof -
  have "length raw \<le> length (wr_bits raw t)" by (simp add: wr_bits_def)
  then show ?thesis using assms by (auto simp: wr_sees_def wr_room_def wr_step_def wr_grow_def nals_room_def)
qed

lemma wr_sees_put:
  assumes "wr_sees pre s bs (Suc n)" "elem_ok e"
  shows "\<exists>t. put_elem s e = Some t \<and> wr_sees pre t (bs @ elem_code e) n"
proof -
  obtain raw where raw: "wr_rel pre raw s" "wr_bits raw s = bs" and room: "wr_room s (8 * Suc n)" "nals_room s"
    using assms(1) by (auto simp: wr_sees_def)
  have room8: "wr_room s 8" using room(1) by (simp add: wr_room_def)
  have "\<exists>t raw'. put_elem s e = Some t \<and> wr_rel pre (raw @ raw') t \<and>
      wr_bits (raw @ raw') t = wr_bits raw s @ elem_code e \<and> wr_step s 8 t"
  proof (cases e)
    case (U n v)
    moreover have "(2::nat) ^ n \<le> 2 ^ 32" using U assms(2) by (intro power_increasing) auto
    ultimately have "unat (word_of_nat v :: u32) = v" using assms(2) by (intro unat_u32_small) auto
    then show ?thesis
      using put_bits_spec [OF raw(1) _ _ _ room8, of n "word_of_nat v"] U assms(2)
      by (auto simp: put_elem_def)
  next
    case (UE v)
    then have "unat (word_of_nat v :: u32) = v" using assms(2) by (intro unat_u32_small) simp
    then show ?thesis
      using put_uev_spec [OF raw(1) _ room8, of "word_of_nat v"] UE assms(2) by (auto simp: put_elem_def)
  next
    case (SE x)
    then show ?thesis
      using put_sev_spec [OF raw(1) _ room8, of x] assms(2) by (auto simp: put_elem_def)
  qed
  then show ?thesis using wr_sees_step [OF room] raw(2) by blast
qed

lemma rd_ahead_window:
  assumes "rd_ahead s (xs @ ys)"
  shows "\<And>k ws zs. xs = ws @ zs \<Longrightarrow> length ws = k \<Longrightarrow>
      bits_at (rd_bits s) (rd_pos s + k) (length zs) = bits_val zs"
    and "\<And>i. i < length xs \<Longrightarrow> rd_bits s (rd_pos s + i) = xs ! i"
    and "rd_inv s" "rd_room s (length xs)"
    and "\<And>t. rd_at s (rd_pos s + length xs) t \<Longrightarrow> rd_ahead t ys"
proof -
  have *: "rd_bits s (rd_pos s + i) = (xs @ ys) ! i" if "i < length xs + length ys" for i
    using that assms by (simp add: rd_ahead_def)
  show "bits_at (rd_bits s) (rd_pos s + k) (length zs) = bits_val zs"
    if "xs = ws @ zs" "length ws = k" for k ws zs
  proof (rule bits_at_window)
    fix i assume "i < length zs"
    then show "rd_bits s (rd_pos s + k + i) = zs ! i"
      using * [of "k + i"] that by (simp add: nth_append add.assoc)
  qed
  show "rd_bits s (rd_pos s + i) = xs ! i" if "i < length xs" for i
    using * [of i] that by (simp add: nth_append)
  show "rd_inv s" "rd_room s (length xs)"
    using assms rd_room_mono by (auto simp: rd_ahead_def)
  show "rd_ahead t ys" if "rd_at s (rd_pos s + length xs) t" for t
    using that assms * [of "length xs + _"] rd_room_at [OF that]
    by (auto simp: rd_ahead_def rd_at_def rd_room_def nth_append add.assoc)
qed

text \<open>The shape of a codeword in front of the reader.\<close>

lemma rd_ahead_ue:
  assumes "rd_ahead s (ue_bits v @ bs)" "v + 1 < 2 ^ 32"
  obtains z where "rd_inv s" "rd_room s (2 * z + 1)" "z + 1 = nbits (v + 1)"
    "\<And>i. i < z \<Longrightarrow> \<not> rd_bits s (rd_pos s + i)" "rd_bits s (rd_pos s + z)"
    "v + 1 = 2 ^ z + bits_at (rd_bits s) (rd_pos s + z + 1) z"
    "\<And>t. rd_at s (rd_pos s + (2 * z + 1)) t \<Longrightarrow> rd_ahead t bs" "length (ue_bits v) = 2 * z + 1"
proof -
  obtain z suf where sh: "ue_bits v = replicate z False @ True # suf" "length suf = z"
      "z + 1 = nbits (v + 1)" "v + 1 = 2 ^ z + bits_val suf"
    using ue_bits_shape [OF assms(2)] by auto
  note w = rd_ahead_window [OF assms(1)]
  have len: "length (ue_bits v) = 2 * z + 1" using sh by simp
  have "bits_at (rd_bits s) (rd_pos s + z + 1) z = bits_val suf"
    using w(1) [of "replicate z False @ [True]" suf "z + 1"] sh by (simp add: add.assoc)
  moreover have "\<not> rd_bits s (rd_pos s + i)" if "i < z" for i
    using w(2) [of i] that len sh(1) by (simp add: nth_append)
  moreover have "rd_bits s (rd_pos s + z)"
    using w(2) [of z] len sh(1) by (simp add: nth_append)
  ultimately show thesis
    using w(3,4,5) len sh(3,4) by (intro that [of z]) (simp_all del: nbits.simps)
qed

lemma rd_ahead_get:
  assumes "rd_ahead s (elem_code e @ bs)" "elem_ok e"
  shows "\<exists>t. get_elem (kind_of e) s = Some (e, t) \<and> rd_ahead t bs \<and>
    rd_at s (rd_pos s + length (elem_code e)) t"
proof (cases e)
  case (U n v)
  note w = rd_ahead_window [OF assms(1)]
  have n: "1 \<le> n" "n \<le> 32" "v < 2 ^ n" using U assms(2) by auto
  then have "(2::nat) ^ n \<le> 2 ^ 32" by (intro power_increasing) auto
  then have v: "unat (word_of_nat v :: u32) = v" using n by (intro unat_u32_small) auto
  have un: "unat (word_of_nat n :: u32) = n" using n by simp
  have "bits_val (elem_code e) = v"
    using bits_val_word_bits [of "word_of_nat v :: u32" n] v n U by simp
  then have "bits_at (rd_bits s) (rd_pos s) n = v"
    using w(1) [of "[]" "elem_code e" 0] U by simp
  then show ?thesis
    using BITS_GET_spec [OF w(3), of "word_of_nat n"] w(4,5) un n U
    by (auto simp: ihevcd_bits_get_def)
next
  case (UE v)
  have v: "v + 1 < 2 ^ 16" using UE assms(2) by simp
  show ?thesis
  proof (rule rd_ahead_ue)
    show "rd_ahead s (ue_bits v @ bs)" using assms(1) UE by simp
    show "v + 1 < 2 ^ 32" using v by simp
    fix z assume z: "rd_inv s" "rd_room s (2 * z + 1)" "z + 1 = nbits (v + 1)"
      "\<And>i. i < z \<Longrightarrow> \<not> rd_bits s (rd_pos s + i)" "rd_bits s (rd_pos s + z)"
      "v + 1 = 2 ^ z + bits_at (rd_bits s) (rd_pos s + z + 1) z"
      "\<And>t. rd_at s (rd_pos s + (2 * z + 1)) t \<Longrightarrow> rd_ahead t bs" "length (ue_bits v) = 2 * z + 1"
    have "z \<le> 31" using nbits_le [OF _ v] z(3) by simp
    from uev_spec [OF z(1,2) this z(4,5)] z(6,7,8) UE
    show ?thesis by (auto simp del: nbits.simps)
  qed
next
  case (SE x)
  have v: "se_rank x + 1 < 2 ^ 16" using SE assms(2) by (auto simp: se_rank_def)
  show ?thesis
  proof (rule rd_ahead_ue)
    show "rd_ahead s (ue_bits (se_rank x) @ bs)" using assms(1) SE by (simp add: se_bits_def)
    show "se_rank x + 1 < 2 ^ 32" using v by simp
    fix z assume z: "rd_inv s" "rd_room s (2 * z + 1)" "z + 1 = nbits (se_rank x + 1)"
      "\<And>i. i < z \<Longrightarrow> \<not> rd_bits s (rd_pos s + i)" "rd_bits s (rd_pos s + z)"
      "se_rank x + 1 = 2 ^ z + bits_at (rd_bits s) (rd_pos s + z + 1) z"
      "\<And>t. rd_at s (rd_pos s + (2 * z + 1)) t \<Longrightarrow> rd_ahead t bs" "length (ue_bits (se_rank x)) = 2 * z + 1"
    have z30: "z \<le> 30" using nbits_le [OF _ v] z(3) by simp
    have k: "(let k = se_rank x + 1 in if even k then int (k div 2) else - int (k div 2)) = x"
    proof (cases "x \<le> 0")
      case True
      then obtain m where "x = - int m" by (metis nonpos_int_cases)
      then show ?thesis by (simp add: se_rank_def nat_mult_distrib)
    next
      case False
      then obtain m where "x = int m" "0 < m" by (metis pos_int_cases linorder_not_le)
      then have "se_rank x + 1 = 2 * m" by (simp add: se_rank_def nat_diff_distrib nat_mult_distrib)
      then show ?thesis using \<open>x = int m\<close> by simp
    qed
    from sev_spec [OF z(1,2) z30 z(4,5)] z(6,7,8) k SE
    show ?thesis by (auto simp: se_bits_def)
  qed
qed

interpretation channel: symbol_channel put_elem elem_code elem_ok "wr_sees pre" get_elem kind_of rd_ahead for pre
  by unfold_locales (auto intro: wr_sees_put dest: rd_ahead_get)

text \<open>The same reader, with the end of the code fixed: where it stands tells what is left.\<close>

definition rd_framed :: "u8 list \<Rightarrow> nat \<Rightarrow> bitstrm \<Rightarrow> bool list \<Rightarrow> bool" where
  "rd_framed buf fin s bs \<longleftrightarrow> rd_ahead s bs \<and> pu1_buf_base s = buf \<and> rd_pos s + length bs = fin"

lemma rd_framed_get:
  assumes "rd_framed buf fin s (elem_code e @ bs)" "elem_ok e"
  shows "\<exists>t. get_elem (kind_of e) s = Some (e, t) \<and> rd_framed buf fin t bs"
  using rd_ahead_get [of s e bs] assms by (auto simp: rd_framed_def rd_at_def)

interpretation framed: symbol_source get_elem kind_of elem_code elem_ok "rd_framed buf fin" for buf fin
  by unfold_locales (rule rd_framed_get)

section \<open>Through a NAL unit\<close>

text \<open>
  The encoder ends the payload with its trailing bits and starts the next NAL unit; the decoder
  gets the bytes from the start of this one, with whatever \<open>rest\<close> follows in the stream,
  removes the emulation prevention into \<open>dst\<close> and sets its reader up there.
\<close>

definition carry_nal ::
  "nat \<Rightarrow> int \<Rightarrow> u8 list \<Rightarrow> u8 list \<Rightarrow> bitstrm_e \<Rightarrow> bitstrm option" where
  "carry_nal start leading_zero rest dst s = do {
     (ret, s) \<leftarrow> ihevce_put_rbsp_trailing_bits s;
     require (ret = IHEVCE_SUCCESS);
     (ret, s) \<leftarrow> ihevce_put_nal_start_code_prefix s leading_zero;
     require (ret = IHEVCE_SUCCESS);
     let src = drop start (take (unat (u4_strm_buf_offset s)) (pu1_strm_buffer s)) @ rest;
     (dst, nal_len, dst_len) \<leftarrow> ihevcd_nal_remv_emuln_bytes src dst (int (length src));
     ihevcd_bits_init dst (word_of_int dst_len)
   }"

lemma bytes_bits_rd:
  assumes "take (length raw) buf = raw" "i < 8 * length raw"
  shows "sbit buf i = bytes_bits raw ! i"
proof -
  have "sbit buf i = sbit (take (length raw) buf) i"
    using assms(2) by (simp add: sbit_def)
  then show ?thesis using assms nth_bytes_bits [of i raw] by simp
qed

lemma carry_nal_spec:
  assumes sees: "wr_sees pre s bs 2" and dst: "length bs + 128 \<le> 8 * length dst"
  shows "\<exists>r bs'. carry_nal (length pre) z rest dst s = Some r \<and> rd_ahead r (bs @ bs')"
proof -
  obtain raw where raw: "wr_rel pre raw s" "wr_bits raw s = bs" and room: "wr_room s 16"
      and nals: "nals_room s"
    using sees by (auto simp: wr_sees_def)
  have room8: "wr_room s 8" using room by (simp add: wr_room_def)
  obtain t raw' k where t: "ihevce_put_rbsp_trailing_bits s = Some (IHEVCE_SUCCESS, t)"
      "wr_rel pre (raw @ raw') t" "wr_step s 8 t" "i4_bits_left_in_cw t = 32"
      "epb_run 0 (raw @ raw') = 0" "k < 8"
      "bytes_bits (raw @ raw') = bs @ True # replicate k False"
    using put_rbsp_trailing_bits_spec [OF raw(1) room8] raw(2) by blast
  let ?raw = "raw @ raw'" and ?sc = "if z \<noteq> 0 then [0, 0, 0, 1] else [0, 0, 1 :: u8]"
  have "wr_room t 8" using room t(3) by (auto simp: wr_room_def wr_step_def wr_grow_def)
  then obtain u where u: "ihevce_put_nal_start_code_prefix t z = Some (IHEVCE_SUCCESS, u)"
      "wr_rel (pre @ epb 0 ?raw @ ?sc) [] u"
    using put_nal_start_code_prefix_spec [OF t(2,4,5), of z] nals t(3)
    by (auto simp: nals_room_def wr_step_def)
  have "take (unat (u4_strm_buf_offset u)) (pu1_strm_buffer u) = pre @ epb 0 ?raw @ ?sc"
    using u(2) by (simp add: wr_rel_def out_rel_def)
  moreover define zn :: nat where "zn = (if z \<noteq> 0 then 3 else 2)"
  moreover have "?sc = replicate zn 0 @ [1]" by (simp add: zn_def numeral_eq_Suc)
  ultimately have src: "drop (length pre) (take (unat (u4_strm_buf_offset u)) (pu1_strm_buffer u)) @ rest =
      epb 0 ?raw @ replicate zn 0 @ 1 # rest" (is "?src = ?epb")
    by simp
  have len: "8 * length ?raw = length bs + 1 + k"
    using arg_cong [OF t(7), of length] by simp
  have zn: "2 \<le> zn" "zn \<le> 3" by (simp_all add: zn_def)
  have room_dst: "length ?raw + zn \<le> length dst" using len dst t(6) zn by linarith
  obtain dst' where d: "ihevcd_nal_remv_emuln_bytes ?src dst (int (length ?src)) =
        Some (dst', int (length (epb 0 ?raw)), int (length ?raw))"
      "take (length ?raw) dst' = ?raw" "length dst' = length dst"
    using remv_at_start_code [OF src zn(1) t(5) _ order_refl room_dst] src by (auto simp del: epb_append)
  obtain r where r: "ihevcd_bits_init dst' (word_of_int (int (length ?raw))) = Some r"
      "rd_inv r" "rd_pos r = 0" "pu1_buf_base r = dst'"
    using bits_init_spec [of dst' "word_of_int (int (length ?raw))"] d(3) dst by auto
  have "rd_ahead r (bs @ True # replicate k False)"
    unfolding rd_ahead_def t(7) [symmetric]
    using r len dst d(3) t(6) bytes_bits_rd [OF d(2)] by (auto simp: rd_room_def)
  moreover have "carry_nal (length pre) z rest dst s = Some r"
    using t(1) u(1) d(1) r(1) by (simp add: carry_nal_def)
  ultimately show ?thesis by blast
qed

abbreviation put_elems :: "bitstrm_e \<Rightarrow> elem list \<Rightarrow> bitstrm_e option" where
  "put_elems \<equiv> symbol_sink.put_all put_elem"

abbreviation get_elems :: "elem_kind list \<Rightarrow> bitstrm \<Rightarrow> (elem list \<times> bitstrm) option" where
  "get_elems \<equiv> symbol_source.get_all get_elem"

text \<open>
  C2: What the encoder's bitstream writer writes, the decoder reads. For every list of syntax
  elements (fixed length and Exp-Golomb, signed and unsigned), writing them into a NAL unit,
  ending the payload and starting the next NAL unit, then, on the decoder's side, removing the
  emulation prevention bytes and reading elements of the same kinds gives back exactly the
  values written, whatever follows in the stream; no operation on the way leaves its buffer,
  shifts by too much or reports an error.
\<close>

theorem syntax_elements_roundtrip:
  assumes "wr_rel pre [] s" "i4_bits_left_in_cw s = 32" "nals_room s"
    and "wr_room s (8 * (length es + 2))" "list_all elem_ok es"
    and "length (concat (map elem_code es)) + 128 \<le> 8 * length dst"
  shows "do { t \<leftarrow> put_elems s es; r \<leftarrow> carry_nal (length pre) z rest dst t;
              (vs, r) \<leftarrow> get_elems (map kind_of es) r; Some vs } = Some es"
proof (rule channel.channel)
  show "wr_sees pre s [] (length es + 2)" using assms by (auto simp: wr_sees_def wr_bits_def)
qed (use assms carry_nal_spec in auto)

definition fresh_writer :: bitstrm_e where
  "fresh_writer = \<lparr> pu1_strm_buffer = replicate 100 0xAA, u4_max_strm_size = 100,
     u4_strm_buf_offset = 0, u4_cur_word_e = 0, i4_bits_left_in_cw = 32, i4_zero_bytes_run = 0,
     i4_num_nal = 0, apu1_nal_start = replicate 256 0 \<rparr>"

lemma syntax_elements_roundtrip_witness:
  "do { t \<leftarrow> put_elems fresh_writer [U 32 0, SE (- 3), UE 6, U 1 1];
        r \<leftarrow> carry_nal 0 1 [7, 7] (replicate 60 0) t;
        (vs, r) \<leftarrow> get_elems [KU 32, KSE, KUE, KU 1] r; Some vs } =
   Some [U 32 0, SE (- 3), UE 6, U 1 1]"
proof -
  have "length (concat (map elem_code [U 32 0, SE (- 3), UE 6, U 1 1])) + 128 \<le> 480"
    by (simp add: se_bits_def se_rank_def length_ue_bits nbits.simps)
  then show ?thesis
    using syntax_elements_roundtrip
      [of "[]" fresh_writer "[U 32 0, SE (- 3), UE 6, U 1 1]" "replicate 60 0" 1 "[7, 7]"]
    by (simp add: fresh_writer_def wr_rel_def out_rel_def wr_room_def nals_room_def)
qed

end
