(* ===== verification/Cabac_Stream.thy ===== *)
theory Cabac_Stream
  imports Cabac_Dec Cabac_Enc_Ops Syntax_Stream
begin

text \<open>
  The two CABAC engines put together. Every coding function the engines share is an element;
  putting it with the encoder and getting it with the decoder is a \<open>symbol_channel\<close> over the
  bins of its binarisation. On top of it, a whole slice NAL unit goes from the encoder to the
  decoder.
\<close>

unbundle bit_operations_syntax

section \<open>Elements and their bins\<close>

text \<open>
  One constructor per coding function the two engines share: a bin with its context, a bypass
  bin, a run of bypass bins, truncated unary with contexts (maximum, first context, shift,
  maximal increment), truncated unary in bypass (maximum), Exp-Golomb (order), truncated Rice
  (parameter, maximum) and the terminating bin that is 0.
\<close>

datatype celem =
    CBin nat bool
  | CByp bool
  | CByps nat nat
  | CTu nat nat nat nat nat
  | CTuByp nat nat
  | CEgk nat nat
  | CRice nat nat nat
  | CEnd0

fun celem_code :: "celem \<Rightarrow> bin_op list" where
  "celem_code (CBin c b) = [Ctx c b]"
| "celem_code (CByp b) = [Byp b]"
| "celem_code (CByps n v) = byp (nat_bits n v)"
| "celem_code (CTu c_max idx shift inc v) = tu_ops c_max idx shift inc v"
| "celem_code (CTuByp c_max v) = byp (tu_bits c_max v)"
| "celem_code (CEgk k v) = byp (egk_bits k v)"
| "celem_code (CRice k c_max v) = byp (tr_bits k v)"
| "celem_code CEnd0 = [Trm]"

fun celem_ok :: "celem \<Rightarrow> bool" where
  "celem_ok (CBin c b) \<longleftrightarrow> c < IHEVC_CAB_CTXT_END"
| "celem_ok (CByp b) \<longleftrightarrow> True"
| "celem_ok (CByps n v) \<longleftrightarrow> 0 < n \<and> n < 17 \<and> v < 2 ^ n"
| "celem_ok (CTu c_max idx shift inc v) \<longleftrightarrow>
     0 < c_max \<and> c_max < 174 \<and> v \<le> c_max \<and> idx + c_max div 2 ^ shift < IHEVC_CAB_CTXT_END"
| "celem_ok (CTuByp c_max v) \<longleftrightarrow> 0 < c_max \<and> c_max < 32 \<and> v \<le> c_max"
| "celem_ok (CEgk k v) \<longleftrightarrow> egk_len k v + k \<le> 16 \<and> 2 * egk_len k v + 1 + k \<le> 32 \<and> v < 2 ^ 32"
| "celem_ok (CRice k c_max v) \<longleftrightarrow>
     k < 17 \<and> v div 2 ^ k + 1 + k < 32 \<and> v div 2 ^ k < c_max div 2 ^ k \<and> c_max < 2 ^ 32"
| "celem_ok CEnd0 \<longleftrightarrow> True"

fun put_celem :: "cab_ctxt_e \<Rightarrow> celem \<Rightarrow> cab_ctxt_e option" where
  "put_celem e el = do {
     (ret, e) \<leftarrow> (case el of
         CBin c b \<Rightarrow> ihevce_cabac_encode_bin e (of_bool b) c
       | CByp b \<Rightarrow> ihevce_cabac_encode_bypass_bin e (of_bool b)
       | CByps n v \<Rightarrow> ihevce_cabac_encode_bypass_bins e (word_of_nat v) n
       | CTu c_max idx shift inc v \<Rightarrow> ihevce_cabac_encode_tunary e v c_max idx shift inc
       | CTuByp c_max v \<Rightarrow> ihevce_cabac_encode_tunary_bypass e v c_max
       | CEgk k v \<Rightarrow> ihevce_cabac_encode_egk e (word_of_nat v) (word_of_nat k)
       | CRice k c_max v \<Rightarrow> ihevce_cabac_encode_trunc_rice e (word_of_nat v) (word_of_nat k) (word_of_nat c_max)
       | CEnd0 \<Rightarrow> ihevce_cabac_encode_terminate e 0);
     require (ret = IHEVCE_SUCCESS);
     Some e
   }"

text \<open>What the decoder knows of an element before reading it.\<close>

datatype celem_kind =
    KBin nat
  | KByp
  | KByps nat
  | KTu nat nat nat nat
  | KTuByp nat
  | KEgk nat
  | KRice nat nat
  | KEnd0

fun ckind_of :: "celem \<Rightarrow> celem_kind" where
  "ckind_of (CBin c b) = KBin c"
| "ckind_of (CByp b) = KByp"
| "ckind_of (CByps n v) = KByps n"
| "ckind_of (CTu c_max idx shift inc v) = KTu c_max idx shift inc"
| "ckind_of (CTuByp c_max v) = KTuByp c_max"
| "ckind_of (CEgk k v) = KEgk k"
| "ckind_of (CRice k c_max v) = KRice k c_max"
| "ckind_of CEnd0 = KEnd0"

fun get_celem :: "celem_kind \<Rightarrow> cab_ctxt \<times> bitstrm \<Rightarrow> (celem \<times> cab_ctxt \<times> bitstrm) option" where
  "get_celem (KBin c) (d, s) = do { (v, r) \<leftarrow> ihevcd_cabac_decode_bin d s c; Some (CBin c (v \<noteq> 0), r) }"
| "get_celem KByp (d, s) = do { (v, r) \<leftarrow> ihevcd_cabac_decode_bypass_bin d s; Some (CByp (v \<noteq> 0), r) }"
| "get_celem (KByps n) (d, s) = do { (v, r) \<leftarrow> ihevcd_cabac_decode_bypass_bins d s n; Some (CByps n (unat v), r) }"
| "get_celem (KTu c_max idx shift inc) (d, s) = do {
     (v, r) \<leftarrow> ihevcd_cabac_decode_bins_tunary d s c_max idx shift inc;
     Some (CTu c_max idx shift inc (unat v), r) }"
| "get_celem (KTuByp c_max) (d, s) = do {
     (v, r) \<leftarrow> ihevcd_cabac_decode_bypass_bins_tunary d s c_max; Some (CTuByp c_max (unat v), r) }"
| "get_celem (KEgk k) (d, s) = do {
     (v, r) \<leftarrow> ihevcd_cabac_decode_bypass_bins_egk d s k; Some (CEgk k (unat v), r) }"
| "get_celem (KRice k c_max) (d, s) = do {
     (v, r) \<leftarrow> ihevcd_cabac_decode_bypass_bins_trunc_rice d s k c_max; Some (CRice k c_max (unat v), r) }"
| "get_celem KEnd0 (d, s) = do {
     (v, r) \<leftarrow> ihevcd_cabac_decode_terminate d s; require (v = 0); Some (CEnd0, r) }"

section \<open>The channel\<close>

text \<open>Every element has at most 174 bins, each of at most 8 bits.\<close>

definition enc_sees :: "u8 list \<Rightarrow> u8 list \<Rightarrow> nat list \<Rightarrow> cab_ctxt_e \<Rightarrow> bin_op list \<Rightarrow> nat \<Rightarrow> bool" where
  "enc_sees pre hdr cs e ops n \<longleftrightarrow> enc_rel pre hdr (tabs.ac_run ops (ac_init cs)) e \<and>
     list_all (op_ok IHEVC_CAB_CTXT_END) ops \<and> enc_room e (1392 * n + 8)"

lemma celem_code_length:
  assumes "celem_ok el"
  shows "length (celem_code el) \<le> 174"
  using assms by (cases el) (auto simp: tu_from_def tu_bits_def egk_bits_def tr_bits_def)

lemma celem_code_ok:
  assumes "celem_ok el"
  shows "list_all (op_ok IHEVC_CAB_CTXT_END) (celem_code el)"
proof -
  have b: "list_all (op_ok IHEVC_CAB_CTXT_END) (byp bs)" for bs by (simp add: byp_def list_all_iff)
  show ?thesis
  proof (cases el)
    case (CTu c_max idx shift inc v)
    have c: "tu_ctx idx shift inc j < IHEVC_CAB_CTXT_END" if "j \<le> v" for j
    proof -
      have "j div 2 ^ shift \<le> c_max div 2 ^ shift" using that CTu assms by (intro div_le_mono) simp
      then show ?thesis using CTu assms by (simp add: tu_ctx_def min_def)
    qed
    then show ?thesis using CTu by (auto simp: tu_from_def list_all_iff)
  qed (use assms b in simp_all)
qed

lemma enc_room_le: "enc_room e k \<Longrightarrow> j \<le> k \<Longrightarrow> enc_room e j"
  by (rule enc_room_mono)

lemma put_celem_spec:
  assumes rel: "enc_rel pre hdr st e" and room: "enc_room e (k + 1392)" and ok: "celem_ok el"
  shows "\<exists>e'. put_celem e el = Some e' \<and> enc_rel pre hdr (tabs.ac_run (celem_code el) st) e' \<and> enc_room e' k"
proof -
  have w: "unat (word_of_nat v :: u32) = v" if "v < 2 ^ 32" for v by (rule unat_u32_small [OF that])
  have room8: "enc_room e (k + 8)" using enc_room_mono [OF room, of "k + 8"] by simp
  have roomn: "enc_room e (k + n)" if "n \<le> 1392" for n using enc_room_mono [OF room, of "k + n"] that by simp
  show ?thesis
  proof (cases el)
    case (CBin c b)
    then show ?thesis using encode_bin_spec [OF rel _ room8, of c b] ok by (auto simp del: tabs.ac_step.simps)
  next
    case (CByp b)
    then show ?thesis using encode_bypass_bin_spec [OF rel, of k b] roomn [of 1]
      by (auto simp del: tabs.ac_step.simps)
  next
    case (CByps n v)
    have "(2::nat) ^ n \<le> 2 ^ 32" using CByps ok by (intro power_increasing) simp_all
    then have "v < 2 ^ 32" using CByps ok by simp
    then show ?thesis using CByps encode_bypass_bins_spec [OF rel, of k n "word_of_nat v"] roomn [of n] ok w [of v] by auto
  next
    case (CTu c_max idx shift inc v)
    have "enc_room e (k + 8 * (v + 1))" by (rule roomn) (use CTu ok in simp)
    then show ?thesis using CTu encode_tunary_spec [OF rel, of k v c_max idx shift inc] ok by auto
  next
    case (CTuByp c_max v)
    have l: "length (tu_bits c_max v) < 32" using CTuByp ok by (auto simp: tu_bits_def)
    show ?thesis using CTuByp encode_tunary_bypass_spec [OF rel roomn _ _ l] l ok by auto
  next
    case (CEgk k' v)
    have u: "unat (word_of_nat v :: u32) = v" "unat (word_of_nat k' :: u32) = k'"
      using CEgk ok by (simp_all add: w nat_small_u32)
    have l: "length (egk_bits (unat (word_of_nat k' :: u32)) (unat (word_of_nat v :: u32))) \<le> 32"
      unfolding u using CEgk ok by (simp add: egk_bits_def)
    show ?thesis using CEgk encode_egk_spec [OF rel roomn l] l unfolding u by auto
  next
    case (CRice k' c_max v)
    have "v < c_max" using CRice ok div_le_mono [of c_max v "2 ^ k'"] by (meson celem_ok.simps(7) leD leI)
    then have v: "v < 2 ^ 32" "c_max < 2 ^ 32" "v < c_max" using CRice ok by auto
    have u: "unat (word_of_nat v :: u32) = v" "unat (word_of_nat k' :: u32) = k'" "unat (word_of_nat c_max :: u32) = c_max"
      using CRice ok v by (simp_all add: w nat_small_u32)
    have l: "length (tr_bits (unat (word_of_nat k' :: u32)) (unat (word_of_nat v :: u32))) < 32"
      unfolding u using CRice ok by (simp add: tr_bits_def)
    have m: "(word_of_nat v :: u32) < word_of_nat c_max" unfolding word_less_nat_alt u by (rule v(3))
    show ?thesis using CRice encode_trunc_rice_spec [OF rel roomn l m] l unfolding u by auto
  next
    case CEnd0
    then show ?thesis using encode_terminate_0_spec [OF rel room8] by (auto simp del: tabs.ac_step.simps)
  qed
qed

lemma get_celem_spec:
  assumes a: "ahead buf p r (celem_code el @ ops)" and ok: "celem_ok el"
  shows "\<exists>t. get_celem (ckind_of el) r = Some (el, t) \<and> ahead buf p t ops"
proof -
  obtain d s where r: "r = (d, s)" by (cases r)
  have w: "unat (word_of_nat v :: u32) = v" if "v < 2 ^ 32" for v by (rule unat_u32_small [OF that])
  note a' = a [unfolded r]
  show ?thesis
  proof (cases el)
    case (CBin c b)
    then show ?thesis using ahead_ctx [of buf p d s c b ops] a' r by auto
  next
    case (CByp b)
    then show ?thesis using ahead_byp [of buf p d s b ops] a' r by auto
  next
    case (CByps n v)
    then show ?thesis using ahead_bypass_bins [of buf p d s "nat_bits n v" ops] a' r ok
      by (auto simp: bits_val_nat_bits)
  next
    case (CTu c_max idx shift inc v)
    then have "v < 2 ^ 32" using ok by simp
    then show ?thesis using decode_bins_tunary_spec [of buf p d s c_max idx shift inc v ops] CTu a' r ok w [of v] by auto
  next
    case (CTuByp c_max v)
    then have "v < 2 ^ 32" using ok by simp
    then show ?thesis using ahead_bypass_tunary [of buf p d s c_max v ops] CTuByp a' r ok w [of v] by auto
  next
    case (CEgk k v)
    then show ?thesis using decode_egk_spec [of buf p d s k v ops] a' r ok w [of v] by auto
  next
    case (CRice k c_max v)
    have "v < c_max" using CRice ok div_le_mono [of c_max v "2 ^ k"] by (meson celem_ok.simps(7) leD leI)
    then have "v < 2 ^ 32" using CRice ok by auto
    then show ?thesis using decode_trunc_rice_spec [of buf p d s k v ops c_max] CRice a' r ok w [of v] by auto
  next
    case CEnd0
    then show ?thesis using ahead_trm [of buf p d s ops] a' r by auto
  qed
qed

interpretation cabac: symbol_channel put_celem celem_code celem_ok "enc_sees pre hdr cs" get_celem ckind_of "ahead buf p"
  for pre hdr cs buf p
proof unfold_locales
  fix s bs n and e :: celem
  assume s: "enc_sees pre hdr cs s bs (Suc n)" and ok: "celem_ok e"
  have "enc_room s ((1392 * n + 8) + 1392)" using s by (simp add: enc_sees_def algebra_simps)
  then show "\<exists>t. put_celem s e = Some t \<and> enc_sees pre hdr cs t (bs @ celem_code e) n"
    using put_celem_spec [of pre hdr "tabs.ac_run bs (ac_init cs)" s "1392 * n + 8" e] s ok celem_code_ok [OF ok]
    by (auto simp: enc_sees_def)
qed (rule get_celem_spec)

abbreviation put_celems :: "cab_ctxt_e \<Rightarrow> celem list \<Rightarrow> cab_ctxt_e option" where
  "put_celems \<equiv> symbol_sink.put_all put_celem"

abbreviation get_celems ::
  "celem_kind list \<Rightarrow> cab_ctxt \<times> bitstrm \<Rightarrow> (celem list \<times> cab_ctxt \<times> bitstrm) option" where
  "get_celems \<equiv> symbol_source.get_all get_celem"

section \<open>A slice NAL unit\<close>

text \<open>
  The calls a slice makes on either side: the header's syntax elements, the byte alignment, the
  CABAC engine from the initial contexts, the elements of the slice data and the terminating
  bin 1. \<open>rest\<close> is what follows the next start code in the stream.
\<close>

definition encode_slice_nal ::
  "u8 list list list \<Rightarrow> nat \<Rightarrow> nat \<Rightarrow> elem list \<Rightarrow> celem list \<Rightarrow> bitstrm_e \<Rightarrow> cab_ctxt_e \<Rightarrow> cab_ctxt_e option" where
  "encode_slice_nal tables qp idc hs es s e = do {
     s \<leftarrow> put_elems s hs;
     (ret, s) \<leftarrow> ihevce_put_rbsp_trailing_bits s;
     require (ret = IHEVCE_SUCCESS);
     (ret, e) \<leftarrow> ihevce_cabac_init tables e s qp idc CABAC_MODE_ENCODE_BITS;
     require (ret = IHEVCE_SUCCESS);
     e \<leftarrow> put_celems e es;
     (ret, e) \<leftarrow> ihevce_cabac_encode_terminate e 1;
     require (ret = IHEVCE_SUCCESS);
     Some e
   }"

definition decode_slice_nal ::
  "u8 list list list \<Rightarrow> nat \<Rightarrow> nat \<Rightarrow> elem_kind list \<Rightarrow> celem_kind list \<Rightarrow> u8 list \<Rightarrow> u8 list \<Rightarrow> cab_ctxt \<Rightarrow>
   (elem list \<times> celem list \<times> u32) option" where
  "decode_slice_nal tables qp idc hks eks src dst d = do {
     (dst, nal_len, dst_len) \<leftarrow> ihevcd_nal_remv_emuln_bytes src dst (int (length src));
     s \<leftarrow> ihevcd_bits_init dst (word_of_int dst_len);
     (hs, s) \<leftarrow> get_elems hks s;
     s \<leftarrow> ihevcd_bits_flush_to_byte_boundary s;
     row \<leftarrow> rd tables idc;
     cs \<leftarrow> rd row qp;
     (ret, d, s) \<leftarrow> ihevcd_cabac_init d s (int qp) (int idc) cs None;
     require (ret = CABAC_SUCCESS);
     (es, d, s) \<leftarrow> get_celems eks (d, s);
     (last, d, s) \<leftarrow> ihevcd_cabac_decode_terminate d s;
     Some (hs, es, last)
   }"

definition written :: "nat \<Rightarrow> cab_ctxt_e \<Rightarrow> u8 list" where
  "written start e = drop start (take (unat (u4_strm_buf_offset_c e)) (pu1_strm_buffer_c e))"

text \<open>The initial contexts, as the generated table has them.\<close>

definition ctx_tables_ok :: "u8 list list list \<Rightarrow> bool" where
  "ctx_tables_ok tables \<longleftrightarrow> length tables = 3 \<and> (\<forall>t \<in> set tables. length t = 52 \<and>
     (\<forall>cs \<in> set t. length cs = IHEVC_CAB_CTXT_END \<and> (\<forall>m \<in> set cs. unat m < 128)))"

lemma ac_init_ok:
  assumes "\<forall>m \<in> set cs. unat (m :: u8) < 128"
  shows "tabs.ac_ok (ac_init (map unat cs))"
  using assms by (simp add: tabs.ac_ok_def ac_init_def)

lemma cabac_init_enc_spec:
  assumes rel: "wr_rel pre hdr s" and pre: "clean pre" and sync: "i1_entropy_coding_sync_enabled_flag e \<noteq> 1"
    and t: "rd tables idc = Some row" "rd row qp = Some cs" "length cs = IHEVC_CAB_CTXT_END" "\<forall>m \<in> set cs. unat m < 128"
    and qp: "qp < 52" "idc < 3"
    and room: "4 * unat (u4_strm_buf_offset s) + n + 64 \<le> 4 * unat (u4_max_strm_size s)"
      "unat (u4_max_strm_size s) \<le> length (pu1_strm_buffer s)"
  shows "\<exists>e'. ihevce_cabac_init tables e s qp idc CABAC_MODE_ENCODE_BITS = Some (IHEVCE_SUCCESS, e') \<and>
    enc_rel pre hdr (ac_init (map unat cs)) e' \<and> enc_room e' n"
proof -
  let ?e = "(enc_attach s (e \<lparr> e_cabac_op_mode := CABAC_MODE_ENCODE_BITS \<rparr>))
     \<lparr> u4_bits_estimated_q12 := 0, u4_texture_bits_estimated_q12 := 0, au1_ctxt_models_e := cs \<rparr>"
  have run: "ihevce_cabac_init tables e s qp idc CABAC_MODE_ENCODE_BITS = Some (IHEVCE_SUCCESS, ?e)"
    using t qp by (simp add: ihevce_cabac_init_def Let_def)
  have "enc_num pre hdr 0 0 510 ?e"
    using rel sync unfolding enc_num_def Let_def
    by (intro exI [of _ "[]"]) (simp add: enc_attach_def wr_rel_def)
  then have "enc_rel pre hdr (ac_init (map unat cs)) ?e"
    using pre t(3) ac_init_ok [OF t(4)]
    by (simp add: enc_rel_def ac_init_def enc_attach_def)
  moreover have "enc_room ?e n" using room sync by (simp add: enc_room_def enc_attach_def)
  ultimately show ?thesis using run by blast
qed

lemma ac_n_step_le: "ac_n (tabs.ac_step op st) \<le> ac_n st + 9"
  by (cases op) (auto simp: ac_select_def Let_def norm_shift_def)

lemma ac_n_run_le: "ac_n (tabs.ac_run ops st) \<le> ac_n st + 9 * length ops"
proof (induction ops arbitrary: st)
  case (Cons op ops)
  have "ac_n (tabs.ac_run ops (tabs.ac_step op st)) \<le> ac_n (tabs.ac_step op st) + 9 * length ops" by (rule Cons)
  then show ?case using ac_n_step_le [of op st] by simp
qed simp

lemma celem_codes:
  "list_all celem_ok es \<Longrightarrow> list_all (op_ok IHEVC_CAB_CTXT_END) (concat (map celem_code es)) \<and>
   length (concat (map celem_code es)) \<le> 174 * length es"
proof (induction es)
  case (Cons el es)
  then show ?case using celem_code_ok [of el] celem_code_length [of el] by simp
qed simp

lemma elem_code_length: "elem_ok e \<Longrightarrow> length (elem_code e) \<le> 32"
proof (cases e)
  case (UE v)
  assume "elem_ok e"
  then have "nbits (v + 1) \<le> 16" using UE by (intro nbits_le) simp_all
  then show ?thesis using UE by (simp add: length_ue_bits)
next
  case (SE x)
  assume "elem_ok e"
  then have "nbits (se_rank x + 1) \<le> 16" using SE by (intro nbits_le) (auto simp: se_rank_def)
  then show ?thesis using SE by (simp add: length_ue_bits se_bits_def)
qed simp

lemma elem_codes: "list_all elem_ok hs \<Longrightarrow> length (concat (map elem_code hs)) \<le> 32 * length hs"
proof (induction hs)
  case (Cons h hs)
  then show ?case using elem_code_length [of h] by simp
qed simp

text \<open>The bits a reader sees in a buffer that starts with the bytes.\<close>

lemma rd_framed_start:
  assumes "rd_inv r" "rd_pos r = 0" "pu1_buf_base r = buf" "take (length raw) buf = raw"
    and "bytes_bits raw = bs @ tail" "8 * length raw + 64 \<le> 8 * length buf"
  shows "rd_framed buf (length bs) r bs"
proof -
  have len: "8 * length raw = length bs + length tail" using arg_cong [OF assms(5), of length] by simp
  have "rd_bits r (rd_pos r + i) = bs ! i" if "i < length bs" for i
    using bytes_bits_rd [OF assms(4), of i] that len assms(2,3,5) by (simp add: nth_append)
  then show ?thesis using assms len by (simp add: rd_framed_def rd_ahead_def rd_room_def)
qed

lemma stream_bits:
  assumes "take (length raw) buf = raw" "bytes_bits raw = xs @ ys @ zs" "length xs = p"
  shows "stream buf p (length ys) = bits_val ys"
  unfolding stream_def
proof (rule bits_at_window)
  fix i assume "i < length ys"
  moreover have "8 * length raw = length xs + length ys + length zs"
    using arg_cong [OF assms(2), of length] by simp
  ultimately show "sbit buf (p + i) = ys ! i"
    using bytes_bits_rd [OF assms(1), of "p + i"] assms(2,3) by (simp add: nth_append)
qed

lemma bits_end_nonzero:
  assumes "bytes_bits out = xs @ True # replicate u False" "u < 8"
  shows "epb_run 0 (hdr @ out) = 0"
proof -
  have len: "8 * length out = length xs + 1 + u" using arg_cong [OF assms(1), of length] by simp
  then have "out \<noteq> []" by auto
  then obtain ys b where out: "out = ys @ [b]" by (metis rev_exhaust)
  have "bytes_bits ys @ word_bits 8 b = xs @ True # replicate u False"
    using assms(1) out by (simp add: bytes_bits_def)
  then have "word_bits 8 b = drop (length (bytes_bits ys)) (xs @ True # replicate u False)"
    by (metis append_eq_conv_conj)
  moreover have "length (bytes_bits ys) \<le> length xs" using len out assms(2) by simp
  ultimately have "True \<in> set (word_bits 8 b)" by simp
  then have "b \<noteq> 0" by (auto simp: word_bits_def)
  then have "epb_run 0 ((hdr @ ys) @ [b]) = 0" by (simp add: zrun_def)
  then show ?thesis using out by simp
qed

text \<open>The payload of a slice: header bits, alignment, the coded bins, the stop bit, zeros.\<close>

definition slice_payload :: "u8 list \<Rightarrow> bool list \<Rightarrow> bin_op list \<Rightarrow> nat list \<Rightarrow> bool" where
  "slice_payload raw hbits ops cs \<longleftrightarrow> (\<exists>hdr k t. let E = tabs.ac_end (tabs.ac_run ops (ac_init cs)) in
     bytes_bits raw = bytes_bits hdr @ (nat_bits (ac_n E + 1) (ac_low E div 256) @ [True]) @ replicate t False \<and>
     bytes_bits hdr = hbits @ True # replicate k False \<and> k < 8 \<and> t < 8 \<and>
     2 ^ 7 dvd ac_low E \<and> tabs.ac_ok E)"

lemma encode_slice_nal_spec:
  assumes rel: "wr_rel pre [] s" "i4_bits_left_in_cw s = 32" "nals_room s" and pre: "clean pre"
    and sync: "i1_entropy_coding_sync_enabled_flag e \<noteq> 1"
    and t: "rd tables idc = Some row" "rd row qp = Some cs" "length cs = IHEVC_CAB_CTXT_END" "\<forall>m \<in> set cs. unat m < 128"
    and qp: "qp < 52" "idc < 3" and ok: "list_all elem_ok hs" "list_all celem_ok es"
    and room: "wr_room s (8 * (length hs + 44 * (length es + 1) + 5))"
  shows "\<exists>e' raw. encode_slice_nal tables qp idc hs es s e = Some e' \<and>
    out_rel pre raw (pu1_strm_buffer_c e', u4_strm_buf_offset_c e', i4_zero_bytes_run_c e') \<and> epb_run 0 raw = 0 \<and>
    slice_payload raw (concat (map elem_code hs)) (concat (map celem_code es)) (map unat cs)"
proof -
  let ?ops = "concat (map celem_code es)" and ?hb = "concat (map elem_code hs)"
  let ?st = "tabs.ac_run ?ops (ac_init (map unat cs))"
  let ?N = "44 * (length es + 1) + 5"
  have "wr_sees pre s [] (length hs + ?N)"
    using rel room by (auto simp: wr_sees_def wr_bits_def ac_simps)
  then obtain s1 where s1: "put_elems s hs = Some s1" "wr_sees pre s1 ([] @ ?hb) ?N"
    using channel.sink.put_all_code [OF _ ok(1)] by blast
  obtain raw1 where w1: "wr_rel pre raw1 s1" "wr_bits raw1 s1 = ?hb" "wr_room s1 (8 * ?N)"
    using s1(2) by (auto simp: wr_sees_def)
  have "wr_room s1 8" using w1(3) by (simp add: wr_room_def)
  then obtain s2 raw' k where s2: "ihevce_put_rbsp_trailing_bits s1 = Some (IHEVCE_SUCCESS, s2)"
      "wr_rel pre (raw1 @ raw') s2" "wr_step s1 8 s2" "k < 8"
      "bytes_bits (raw1 @ raw') = ?hb @ True # replicate k False"
    using put_rbsp_trailing_bits_spec [OF w1(1)] w1(2) by metis
  let ?hdr = "raw1 @ raw'" and ?n = "1392 * (length es + 0) + (8 + 0)"
  have "4 * unat (u4_strm_buf_offset s2) + ?n + 64 \<le> 4 * unat (u4_max_strm_size s2)"
      "unat (u4_max_strm_size s2) \<le> length (pu1_strm_buffer s2)"
    using s2(3) w1(3) by (auto simp: wr_step_def wr_grow_def wr_room_def)
  then obtain e1 where e1: "ihevce_cabac_init tables e s2 qp idc CABAC_MODE_ENCODE_BITS = Some (IHEVCE_SUCCESS, e1)"
      "enc_rel pre ?hdr (ac_init (map unat cs)) e1" "enc_room e1 ?n"
    using cabac_init_enc_spec [OF s2(2) pre sync t qp, of ?n] by blast
  have "enc_sees pre ?hdr (map unat cs) e1 [] (length es + 0)" using e1(2,3) by (simp add: enc_sees_def)
  then obtain e2 where e2: "put_celems e1 es = Some e2" "enc_sees pre ?hdr (map unat cs) e2 ([] @ ?ops) 0"
    using cabac.sink.put_all_code [OF _ ok(2)] by blast
  then have r2: "enc_rel pre ?hdr ?st e2" "enc_room e2 8" by (auto simp: enc_sees_def)
  obtain e3 out u where e3: "ihevce_cabac_encode_terminate e2 1 = Some (IHEVCE_SUCCESS, e3)"
      "out_rel pre (?hdr @ out) (pu1_strm_buffer_c e3, u4_strm_buf_offset_c e3, i4_zero_bytes_run_c e3)"
      "bytes_bits out = nat_bits (ac_n (tabs.ac_end ?st) + 1) (ac_low (tabs.ac_end ?st) div 256) @ True # replicate u False"
      "u < 8" "2 ^ 7 dvd ac_low (tabs.ac_end ?st)" "tabs.ac_ok (tabs.ac_end ?st)"
    using encode_terminate_1_spec [OF r2] by blast
  have "slice_payload (?hdr @ out) ?hb ?ops (map unat cs)"
    unfolding slice_payload_def Let_def
    by (intro exI [of _ ?hdr] exI [of _ k] exI [of _ u]) (use e3 s2(4,5) in simp_all)
  moreover have "epb_run 0 (?hdr @ out) = 0" by (rule bits_end_nonzero [OF e3(3,4)])
  moreover have "encode_slice_nal tables qp idc hs es s e = Some e3"
    using s1(1) s2(1) e1(1) e2(1) e3(1) by (simp add: encode_slice_nal_def)
  ultimately show ?thesis using e3(2) by blast
qed

lemma decode_slice_nal_spec:
  assumes pay: "slice_payload raw (concat (map elem_code hs)) (concat (map celem_code es)) (map unat cs)"
    and z: "epb_run 0 raw = 0" and src: "src = epb 0 raw @ [0, 0, 1] @ rest"
    and t: "rd tables idc = Some row" "rd row qp = Some cs" "length cs = IHEVC_CAB_CTXT_END" "\<forall>m \<in> set cs. unat m < 128"
    and qp: "qp < 52" "idc < 3" and ok: "list_all elem_ok hs" "list_all celem_ok es"
    and dst: "32 * length hs + 1566 * length es + 300 \<le> 8 * length dst"
  shows "decode_slice_nal tables qp idc (map kind_of hs) (map ckind_of es) src dst d = Some (hs, es, 1)"
proof -
  let ?ops = "concat (map celem_code es)" and ?hb = "concat (map elem_code hs)" and ?i = "ac_init (map unat cs)"
  let ?st = "tabs.ac_run ?ops ?i"
  define E where "E = tabs.ac_end ?st"
  obtain hdr k u where p: "bytes_bits raw = bytes_bits hdr @ (nat_bits (ac_n E + 1) (ac_low E div 256) @ [True]) @ replicate u False"
      "bytes_bits hdr = ?hb @ True # replicate k False" "k < 8" "u < 8" "2 ^ 7 dvd ac_low E" "tabs.ac_ok E"
    using pay unfolding slice_payload_def Let_def E_def by blast
  have iok: "tabs.ac_ok ?i" "length (ac_ctx ?i) = IHEVC_CAB_CTXT_END"
    using ac_init_ok [OF t(4)] t(3) by (simp_all add: ac_init_def)
  note ops = celem_codes [OF ok(2)]
  have stok: "tabs.ac_ok ?st" using tabs.ac_run_ok [OF iok(1), of ?ops] iok(2) ops by simp
  have nE: "ac_n E \<le> 9 * (174 * length es) + 9"
  proof -
    have "ac_n E \<le> ac_n ?st + 9" by (simp add: E_def tabs.ac_end_def ac_select_def Let_def norm_shift_def)
    moreover have "ac_n ?st \<le> 9 * length ?ops" using ac_n_run_le [of ?ops ?i] by (simp add: ac_init_def)
    moreover have "9 * length ?ops \<le> 9 * (174 * length es)" using ops by simp
    ultimately show ?thesis by linarith
  qed
  have nst: "ac_n ?st \<le> ac_n E" by (simp add: E_def tabs.ac_end_def ac_select_def Let_def)
  have lh: "8 * length hdr = length ?hb + 1 + k" using arg_cong [OF p(2), of length] by simp
  have lr: "8 * length raw = 8 * length hdr + ac_n E + 2 + u" using arg_cong [OF p(1), of length] by simp
  have hb: "length ?hb \<le> 32 * length hs" by (rule elem_codes [OF ok(1)])
  have room: "8 * length raw + 120 \<le> 8 * length dst" "8 * length hdr + ac_n E + 95 \<le> 8 * length dst"
    using lh lr hb p(3,4) nE dst by linarith+
  have src2: "src = epb 0 raw @ replicate 2 0 @ 1 # rest" using src by (simp add: numeral_eq_Suc)
  obtain dst' where rm: "ihevcd_nal_remv_emuln_bytes src dst (int (length src)) =
        Some (dst', int (length (epb 0 raw)), int (length raw))"
      "take (length raw) dst' = raw" "length dst' = length dst"
    using remv_at_start_code [OF src2 order_refl z, of "int (length src)" dst] src room(1) by auto
  obtain r where r: "ihevcd_bits_init dst' (word_of_int (int (length raw))) = Some r"
      "rd_inv r" "rd_pos r = 0" "pu1_buf_base r = dst'"
    using bits_init_spec [of dst' "word_of_int (int (length raw))"] rm(3) room by auto
  have "rd_framed dst' (length ?hb) r ?hb"
    by (rule rd_framed_start [OF r(2-4) rm(2)]) (use p(1,2) room rm(3) in simp_all)
  then obtain r1 where r1: "get_elems (map kind_of hs) r = Some (hs, r1)" "rd_framed dst' (length ?hb) r1 []"
    using framed.get_all_code [of dst' "length ?hb" r hs "[]"] ok(1) by auto
  have r1i: "rd_inv r1" "pu1_buf_base r1 = dst'" "rd_pos r1 = length ?hb"
    using r1(2) by (auto simp: rd_framed_def rd_ahead_def)
  have "rd_room r1 8" using r1i lh room rm(3) by (simp add: rd_room_def)
  then obtain r2 where r2: "ihevcd_bits_flush_to_byte_boundary r1 = Some r2" "rd_at r1 (8 * (rd_pos r1 div 8 + 1)) r2"
    using bits_flush_to_byte_boundary_spec [OF r1i(1)] by blast
  let ?p = "8 * length hdr"
  have pos: "8 * (rd_pos r1 div 8 + 1) = ?p"
  proof -
    have "length ?hb = 8 * (length hdr - 1) + (7 - k)" using lh p(3) by linarith
    then have "length ?hb div 8 = length hdr - 1" using p(3) by simp
    then show ?thesis using r1i(3) lh by simp
  qed
  have r2i: "rd_inv r2" "pu1_buf_base r2 = dst'" "rd_pos r2 = ?p" using r2(2) pos r1i(2) by (auto simp: rd_at_def)
  have strm: "stream dst' ?p (ac_n E + 2) = bits_val (nat_bits (ac_n E + 1) (ac_low E div 256) @ [True])"
    using stream_bits [OF rm(2) p(1), of ?p] by simp
  have ins: "inside (stream dst' ?p) E" by (rule flushed_inside [OF prefixes_stream p(6,5) strm])
  have insst: "inside (stream dst' ?p) ?st"
    using tabs.inside_end [OF prefixes_stream, of ?st] ins tabs.ac_okD(1) [OF stok] by (simp add: E_def)
  have ins0: "inside (stream dst' ?p) ?i"
    by (rule tabs.inside_run [OF prefixes_stream iok(1) _ insst]) (use ops iok(2) in simp)
  have fits: "fits dst' ?p (ac_n E)" "fits dst' ?p 0" using room rm(3) by (simp_all add: fits_def)
  obtain d1 r3 where d1: "ihevcd_cabac_init d r2 (int qp) (int idc) cs None = Some (CABAC_SUCCESS, d1, r3)"
      "dec_rel dst' ?p ?i d1 r3"
    using cabac_init_spec [OF r2i(1,2) _ t(3,4), of "int qp" "int idc" d] fits(2) ins0 r2i(3) qp by auto
  have "ahead dst' ?p (d1, r3) (?ops @ [])"
    unfolding ahead_def prod.case using d1(2) ops ins fits_mono [OF fits(1) nst] by (auto simp: E_def)
  then obtain r4 where r4: "get_celems (map ckind_of es) (d1, r3) = Some (es, r4)" "ahead dst' ?p r4 []"
    using cabac.source.get_all_code [OF _ ok(2)] by blast
  obtain d4 s4 where r4p: "r4 = (d4, s4)" by (cases r4)
  obtain d5 s5 where fin: "ihevcd_cabac_decode_terminate d4 s4 = Some (1, d5, s5)"
    using ahead_end [of dst' ?p d4 s4] r4(2) r4p by blast
  show ?thesis
    using rm(1) r(1) r1(1) r2(1) t(1,2) d1(1) r4(1) r4p fin by (simp add: decode_slice_nal_def)
qed

text \<open>
  C1: A whole slice NAL unit survives. The encoder writes the header's syntax elements, aligns,
  sets its CABAC engine up from the initial contexts, codes the elements of the slice data and
  terminates, with carries rippling back through bytes already written and their emulation
  prevention. The decoder gets the bytes with the next start code and anything behind it,
  removes the emulation prevention, reads the header, aligns, sets its engine up from the same
  contexts and reads elements of the same kinds: it gets exactly the header values and the
  slice data that were coded, then the terminating bin 1. No operation on either side leaves
  a buffer or fails.
\<close>

theorem slice_roundtrip:
  assumes "wr_rel pre [] s" "i4_bits_left_in_cw s = 32" "nals_room s" "clean pre"
    and "i1_entropy_coding_sync_enabled_flag e \<noteq> 1"
    and "ctx_tables_ok tables" "qp < 52" "idc < 3"
    and "list_all elem_ok hs" "list_all celem_ok es"
    and "wr_room s (8 * (length hs + 44 * (length es + 1) + 5))"
    and "32 * length hs + 1566 * length es + 300 \<le> 8 * length dst"
  shows "do { e' \<leftarrow> encode_slice_nal tables qp idc hs es s e;
              decode_slice_nal tables qp idc (map kind_of hs) (map ckind_of es)
                (written (length pre) e' @ [0, 0, 1] @ rest) dst d } = Some (hs, es, 1)"
proof -
  let ?row = "tables ! idc" let ?cs = "?row ! qp"
  have row: "?row \<in> set tables" "idc < length tables" using assms(6,8) by (simp_all add: ctx_tables_ok_def)
  then have len: "length ?row = 52" using assms(6) by (simp add: ctx_tables_ok_def)
  then have "?cs \<in> set ?row" using assms(7) by simp
  then have cs: "length ?cs = IHEVC_CAB_CTXT_END" "\<forall>m \<in> set ?cs. unat m < 128"
    using row(1) assms(6) unfolding ctx_tables_ok_def by blast+
  have t: "rd tables idc = Some ?row" "rd ?row qp = Some ?cs" using row(2) len assms(7) by simp_all
  note t = t cs
  obtain e' raw where e: "encode_slice_nal tables qp idc hs es s e = Some e'"
      "out_rel pre raw (pu1_strm_buffer_c e', u4_strm_buf_offset_c e', i4_zero_bytes_run_c e')" "epb_run 0 raw = 0"
      "slice_payload raw (concat (map elem_code hs)) (concat (map celem_code es)) (map unat ?cs)"
    using encode_slice_nal_spec [OF assms(1-5) t assms(7-11)] by blast
  have "written (length pre) e' = epb 0 raw" using e(2) by (simp add: written_def out_rel_def)
  then have "written (length pre) e' @ [0, 0, 1] @ rest = epb 0 raw @ [0, 0, 1] @ rest" by simp
  from decode_slice_nal_spec [OF e(4,3) this t assms(7-10,12)] e(1) show ?thesis by simp
qed

definition slice_writer :: bitstrm_e where
  "slice_writer = fresh_writer \<lparr> pu1_strm_buffer := [0, 0, 0, 1] @ replicate 1400 0xAA,
     u4_max_strm_size := 1404, u4_strm_buf_offset := 4 \<rparr>"

definition fresh_cab_e :: cab_ctxt_e where
  "fresh_cab_e = \<lparr> e_cabac_op_mode = CABAC_MODE_COMPUTE_BITS, u4_bits_estimated_q12 = 0,
     u4_texture_bits_estimated_q12 = 0, u4_range_e = 0, u4_low = 0, u4_bits_gen = 0,
     u4_out_standing_bytes = 0, pu1_strm_buffer_c = [], u4_max_strm_size_c = 0,
     u4_strm_buf_offset_c = 0, i4_zero_bytes_run_c = 0, au1_ctxt_models_e = [],
     au1_ctxt_models_top_right = [], i1_entropy_coding_sync_enabled_flag = 0,
     u4_first_slice_start_offset = 0 \<rparr>"

definition fresh_cab_d :: cab_ctxt where
  "fresh_cab_d = \<lparr> u4_range = 0, u4_ofst = 0, au1_ctxt_models = [], au1_ctxt_models_sync = [],
     ai4_rice_stat_coeff = [], ai4_rice_stat_coeff_sync = [] \<rparr>"

definition flat_tables :: "u8 list list list" where
  "flat_tables = replicate 3 (replicate 52 (replicate 173 17))"

lemma slice_roundtrip_witness:
  "do { e' \<leftarrow> encode_slice_nal flat_tables 26 2 [U 8 2, UE 5, SE (- 7)] [CBin 4 True, CEgk 1 9] slice_writer fresh_cab_e;
        decode_slice_nal flat_tables 26 2 (map kind_of [U 8 2, UE 5, SE (- 7)]) (map ckind_of [CBin 4 True, CEgk 1 9])
          (written (length [0, 0, 0, 1 :: u8]) e' @ [0, 0, 1] @ [66]) (replicate 900 0) fresh_cab_d } =
   Some ([U 8 2, UE 5, SE (- 7)], [CBin 4 True, CEgk 1 9], 1)"
proof (rule slice_roundtrip)
  show "wr_rel [0, 0, 0, 1] [] slice_writer"
    by (simp add: slice_writer_def fresh_writer_def wr_rel_def out_rel_def)
  show "clean [0, 0, 0, 1]" by (simp add: clean_def)
  show "ctx_tables_ok flat_tables" by (simp add: ctx_tables_ok_def flat_tables_def IHEVC_CAB_CTXT_END_def)
  show "list_all celem_ok [CBin 4 True, CEgk 1 9]"
    by (simp add: IHEVC_CAB_CTXT_END_def egk_len_def nbits.simps)
  show "wr_room slice_writer (8 * (length [U 8 2, UE 5, SE (- 7)] + 44 * (length [CBin 4 True, CEgk 1 9] + 1) + 5))"
    by (simp add: wr_room_def slice_writer_def fresh_writer_def)
qed (simp_all add: slice_writer_def fresh_writer_def nals_room_def fresh_cab_e_def)

end
