(* ===== verification/Exclusive_Pool.thy ===== *)
theory Exclusive_Pool
  imports Main
begin

text \<open>
  The contract of a pool of buffers: a buffer it grants was not in use, is in use afterwards, and
  stays in use until an operation that can free it. \<open>run\<close> is a step of the pool, undefined or
  not; \<open>grants\<close> the buffer a step gives out; \<open>frees\<close> the buffers it may free. What every client
  relies on is proved once: between two grants of the same buffer it was freed.
\<close>

locale exclusive_pool =
  fixes valid :: "'s \<Rightarrow> bool" and busy :: "'s \<Rightarrow> nat set"
    and run :: "'o \<Rightarrow> 's \<Rightarrow> 's option" and grants :: "'o \<Rightarrow> 's \<Rightarrow> nat option" and frees :: "'o \<Rightarrow> nat set"
  assumes run_valid: "valid s \<Longrightarrow> run op s = Some t \<Longrightarrow> valid t"
    and grant_free: "valid s \<Longrightarrow> grants op s = Some i \<Longrightarrow> i \<notin> busy s"
    and grant_busy: "valid s \<Longrightarrow> grants op s = Some i \<Longrightarrow> run op s = Some t \<Longrightarrow> i \<in> busy t"
    and kept: "valid s \<Longrightarrow> run op s = Some t \<Longrightarrow> i \<in> busy s \<Longrightarrow> i \<notin> frees op \<Longrightarrow> i \<in> busy t"
begin

fun runs :: "'o list \<Rightarrow> 's \<Rightarrow> 's option" where
  "runs [] s = Some s"
| "runs (op # ops) s = Option.bind (run op s) (runs ops)"

lemma runs_valid: "valid s \<Longrightarrow> runs ops s = Some t \<Longrightarrow> valid t"
proof (induction ops arbitrary: s)
  case (Cons op ops)
  then obtain u where "run op s = Some u" "runs ops u = Some t" by (cases "run op s") auto
  then show ?case using Cons run_valid by blast
qed simp

lemma runs_busy:
  "valid s \<Longrightarrow> runs ops s = Some t \<Longrightarrow> i \<in> busy s \<Longrightarrow> \<forall>op \<in> set ops. i \<notin> frees op \<Longrightarrow> i \<in> busy t"
proof (induction ops arbitrary: s)
  case (Cons op ops)
  then obtain u where "run op s = Some u" "runs ops u = Some t" by (cases "run op s") auto
  then show ?case using Cons run_valid kept by simp blast
qed simp

lemma no_second_grant:
  assumes "valid s" "grants op s = Some i" "run op s = Some t" "runs ops t = Some u"
    and "\<forall>op \<in> set ops. i \<notin> frees op"
  shows "grants op' u \<noteq> Some i"
  using assms run_valid grant_busy runs_busy runs_valid grant_free by metis

end

end
