(* ===== verification/Buf_Mgr.thy ===== *)
theory Buf_Mgr
  imports Hevc_Prelude Exclusive_Pool
begin

text \<open>
  The decoder's buffer manager, \<^verbatim>\<open>common/ihevc_buf_mgr.c\<close>: up to 64 buffers, each with a
  status word whose bits say who holds it (decoding, reference, display). A buffer pointer is an
  address, \<open>None\<close> the null pointer; \<^verbatim>\<open>WORD32\<close> arguments and results are integers; an index the
  code does not check is checked by \<open>rdi\<close>.

  The status words refine sets of holders; the manager is an \<open>exclusive_pool\<close>: a buffer it gives
  out is not given out again before somebody releases it.
\<close>

unbundle bit_operations_syntax

section \<open>Operations\<close>

record buf_mgr =
  u4_max_buf_cnt :: u32
  u4_active_buf_cnt :: u32
  au4_status :: "u32 list"
  apv_ptr :: "nat option list"

abbreviation (input) BUF_MGR_MAX_CNT :: nat where "BUF_MGR_MAX_CNT \<equiv> 64"
abbreviation (input) BUF_MGR_DEC :: u32 where "BUF_MGR_DEC \<equiv> 1"
abbreviation (input) BUF_MGR_REF :: u32 where "BUF_MGR_REF \<equiv> 2"
abbreviation (input) BUF_MGR_DISP :: u32 where "BUF_MGR_DISP \<equiv> 4"

definition ihevc_buf_mgr_init :: "buf_mgr \<Rightarrow> buf_mgr" where
  "ihevc_buf_mgr_init b = b \<lparr> u4_max_buf_cnt := word_of_nat BUF_MGR_MAX_CNT, u4_active_buf_cnt := 0,
     au4_status := replicate BUF_MGR_MAX_CNT 0, apv_ptr := replicate BUF_MGR_MAX_CNT None \<rparr>"

definition ihevc_buf_mgr_add :: "buf_mgr \<Rightarrow> nat option \<Rightarrow> int \<Rightarrow> (int \<times> buf_mgr) option" where
  "ihevc_buf_mgr_add b pv_ptr buf_id = (
     if buf_id \<ge> sint (u4_max_buf_cnt b) then Some (- 1, b)
     else do {
       p \<leftarrow> rdi (apv_ptr b) buf_id;
       if p \<noteq> None \<and> p \<noteq> pv_ptr then Some (- 1, b)
       else do {
         ptrs \<leftarrow> wri (apv_ptr b) buf_id pv_ptr;
         Some (0, b \<lparr> apv_ptr := ptrs \<rparr>)
       }
     })"

text \<open>The loop over the ids below \<open>n\<close>: the first free buffer from \<open>i\<close> on.\<close>

function free_scan :: "buf_mgr \<Rightarrow> nat \<Rightarrow> nat \<Rightarrow> nat option option" where
  "free_scan b n i =
     (if i < n then do {
        st \<leftarrow> rd (au4_status b) i;
        require (st \<noteq> 2);
        p \<leftarrow> rd (apv_ptr b) i;
        if st = 0 \<and> p \<noteq> None then Some (Some i) else free_scan b n (i + 1)
      } else Some None)"
  by pat_completeness auto
termination by (relation "measure (\<lambda>(_, n, i). n - i)") auto

declare free_scan.simps [simp del]

text \<open>The result is the pointer, \<^verbatim>\<open>*pi4_buf_id\<close> when it is written, and the new state.\<close>

definition ihevc_buf_mgr_get_next_free :: "buf_mgr \<Rightarrow> (nat option \<times> nat option \<times> buf_mgr) option" where
  "ihevc_buf_mgr_get_next_free b = do {
     found \<leftarrow> free_scan b (nat (sint (u4_max_buf_cnt b))) 0;
     case found of
       None \<Rightarrow> Some (None, None, b)
     | Some i \<Rightarrow> do {
         sts \<leftarrow> wr (au4_status b) i 1;
         p \<leftarrow> rd (apv_ptr b) i;
         Some (p, Some i, b \<lparr> au4_status := sts \<rparr>)
       }
   }"

definition ihevc_buf_mgr_check_free :: "buf_mgr \<Rightarrow> int option" where
  "ihevc_buf_mgr_check_free b = do {
     found \<leftarrow> free_scan b (unat (u4_max_buf_cnt b)) 0;
     Some (if found = None then 0 else 1)
   }"

definition ihevc_buf_mgr_release :: "buf_mgr \<Rightarrow> int \<Rightarrow> u32 \<Rightarrow> (int \<times> buf_mgr) option" where
  "ihevc_buf_mgr_release b buf_id msk = (
     if buf_id \<ge> sint (u4_max_buf_cnt b) then Some (- 1, b)
     else do {
       st \<leftarrow> rdi (au4_status b) buf_id;
       let st = st AND NOT msk;
       require (st \<noteq> 2);
       let st = (if st = 1 then 0 else st);
       sts \<leftarrow> wri (au4_status b) buf_id st;
       Some (0, b \<lparr> au4_status := sts \<rparr>)
     })"

definition ihevc_buf_mgr_set_status :: "buf_mgr \<Rightarrow> int \<Rightarrow> u32 \<Rightarrow> (int \<times> buf_mgr) option" where
  "ihevc_buf_mgr_set_status b buf_id msk = (
     if buf_id \<ge> sint (u4_max_buf_cnt b) then Some (- 1, b)
     else do {
       st \<leftarrow> rdi (au4_status b) buf_id;
       if st AND msk \<noteq> 0 then Some (- 1, b)
       else do {
         let st = st OR msk;
         require (st \<noteq> 2);
         sts \<leftarrow> wri (au4_status b) buf_id st;
         Some (0, b \<lparr> au4_status := sts \<rparr>)
       }
     })"

definition ihevc_buf_mgr_get_status :: "buf_mgr \<Rightarrow> int \<Rightarrow> u32 option" where
  "ihevc_buf_mgr_get_status b buf_id = rdi (au4_status b) buf_id"

definition ihevc_buf_mgr_get_buf :: "buf_mgr \<Rightarrow> int \<Rightarrow> nat option option" where
  "ihevc_buf_mgr_get_buf b buf_id = rdi (apv_ptr b) buf_id"

definition ihevc_buf_mgr_get_num_active_buf :: "buf_mgr \<Rightarrow> u32" where
  "ihevc_buf_mgr_get_num_active_buf b = u4_max_buf_cnt b"

section \<open>Holders\<close>

datatype holder = DEC | REF | DISP

primrec holder_bit :: "holder \<Rightarrow> nat" where
  "holder_bit DEC = 0"
| "holder_bit REF = 1"
| "holder_bit DISP = 2"

instantiation holder :: linorder
begin

definition "h \<le> k \<longleftrightarrow> holder_bit h \<le> holder_bit k"
definition "h < k \<longleftrightarrow> holder_bit h < holder_bit k"

instance
proof
  fix x y z :: holder
  show "x < y \<longleftrightarrow> x \<le> y \<and> \<not> y \<le> x" "x \<le> x" "x \<le> y \<or> y \<le> x"
    by (auto simp: less_eq_holder_def less_holder_def)
  show "x \<le> y \<Longrightarrow> y \<le> z \<Longrightarrow> x \<le> z" by (simp add: less_eq_holder_def)
  show "x \<le> y \<Longrightarrow> y \<le> x \<Longrightarrow> x = y" by (cases x; cases y) (simp_all add: less_eq_holder_def)
qed

end

definition holders :: "u32 \<Rightarrow> holder set" where
  "holders w = {h. bit w (holder_bit h)}"

definition bm_ok :: "buf_mgr \<Rightarrow> bool" where
  "bm_ok b \<longleftrightarrow> u4_max_buf_cnt b = 64 \<and> length (au4_status b) = 64 \<and> length (apv_ptr b) = 64 \<and>
     (\<forall>st \<in> set (au4_status b). st < 8 \<and> st \<noteq> 2)"

lemma bit_small:
  assumes "(w :: u32) < 8"
  shows "bit w n \<longleftrightarrow> n < 3 \<and> bit w n"
proof -
  have "take_bit 3 w = w" using assms by (simp add: take_bit_u32_eq word_less_nat_alt)
  then show ?thesis by (metis bit_take_bit_iff)
qed

lemma holder_bits: "n < 3 \<Longrightarrow> \<exists>h. holder_bit h = n"
proof -
  assume "n < 3"
  then consider "n = 0" | "n = 1" | "n = 2" by linarith
  then show ?thesis by cases (metis holder_bit.simps)+
qed

lemma holders_eq:
  assumes "v < 8" "w < 8"
  shows "holders v = holders w \<longleftrightarrow> v = w"
proof
  assume eq: "holders v = holders w"
  show "v = w"
  proof (rule bit_word_eqI)
    fix n
    show "bit v n \<longleftrightarrow> bit w n"
    proof (cases "n < 3")
      case True
      then obtain h where "holder_bit h = n" using holder_bits by blast
      then show ?thesis using eq by (auto simp: holders_def)
    next
      case False
      then show ?thesis using bit_small [OF assms(1), of n] bit_small [OF assms(2), of n] by blast
    qed
  qed
qed simp

lemma holders_simps [simp]:
  "holders 0 = {}" "holders 1 = {DEC}" "holders 2 = {REF}" "holders 4 = {DISP}"
proof -
  show "holders 0 = {}" by (simp add: holders_def)
  have "bit (1 :: u32) (holder_bit h) \<longleftrightarrow> h = DEC" for h by (cases h) (simp_all add: bit_1_iff)
  then show "holders 1 = {DEC}" by (auto simp: holders_def)
  have "bit (2 :: u32) (holder_bit h) \<longleftrightarrow> h = REF" for h
    by (cases h) (simp_all add: bit_numeral_rec bit_0 numeral_2_eq_2)
  then show "holders 2 = {REF}" by (auto simp: holders_def)
  have "bit (4 :: u32) (holder_bit h) \<longleftrightarrow> h = DISP" for h
    by (cases h) (simp_all add: bit_numeral_rec bit_0 numeral_2_eq_2)
  then show "holders 4 = {DISP}" by (auto simp: holders_def)
qed

lemma holders_ops:
  "holders (v AND NOT w) = holders v - holders w"
  "holders (v OR w) = holders v \<union> holders w"
  "holders (v AND w) = holders v \<inter> holders w"
proof -
  have l: "holder_bit h < 32" for h by (cases h) simp_all
  show "holders (v AND NOT w) = holders v - holders w"
    using l by (auto simp: holders_def bit_and_iff bit_not_iff)
  show "holders (v OR w) = holders v \<union> holders w" "holders (v AND w) = holders v \<inter> holders w"
    by (auto simp: holders_def bit_and_iff bit_or_iff)
qed

lemma and_or_small:
  assumes "(v :: u32) < 8"
  shows "v AND w < 8" "w < 8 \<Longrightarrow> v OR w < 8"
proof -
  have t: "x < 8 \<longleftrightarrow> take_bit 3 x = x" for x :: u32 by (simp add: take_bit_u32_eq word_less_nat_alt)
  show "v AND w < 8" using assms unfolding t by (metis and.right_idem and.assoc and.commute take_bit_eq_mask)
  show "v OR w < 8" if "w < 8" using assms that unfolding t by (simp add: take_bit_or)
qed

section \<open>The status words refine sets of holders\<close>

lemma bm_okD:
  assumes "bm_ok b"
  shows "sint (u4_max_buf_cnt b) = 64" "unat (u4_max_buf_cnt b) = 64" "length (au4_status b) = 64" "length (apv_ptr b) = 64"
    and "i < 64 \<Longrightarrow> au4_status b ! i < 8 \<and> au4_status b ! i \<noteq> 2"
  using assms by (auto simp: bm_ok_def)

lemma bm_ok_update:
  assumes "bm_ok b" "v < 8" "v \<noteq> 2"
  shows "bm_ok (b \<lparr> au4_status := (au4_status b)[i := v] \<rparr>)"
  using assms by (auto simp: bm_ok_def dest!: set_update_subset_insert [THEN subsetD])

definition held :: "buf_mgr \<Rightarrow> nat \<Rightarrow> holder set" where
  "held b i = (if i < 64 then holders (au4_status b ! i) else {})"

definition is_free :: "buf_mgr \<Rightarrow> nat \<Rightarrow> bool" where
  "is_free b i \<longleftrightarrow> i < 64 \<and> held b i = {} \<and> apv_ptr b ! i \<noteq> None"

lemma held_empty: "bm_ok b \<Longrightarrow> i < 64 \<Longrightarrow> held b i = {} \<longleftrightarrow> au4_status b ! i = 0"
  using holders_eq [of "au4_status b ! i" 0] bm_okD(5) [of b i] by (simp add: held_def)

lemma free_scan_spec:
  assumes ok: "bm_ok b" and n: "n \<le> 64"
  shows "\<exists>r. free_scan b n i = Some r \<and>
    (case r of None \<Rightarrow> \<forall>j. i \<le> j \<and> j < n \<longrightarrow> \<not> is_free b j
             | Some k \<Rightarrow> i \<le> k \<and> k < n \<and> is_free b k \<and> (\<forall>j. i \<le> j \<and> j < k \<longrightarrow> \<not> is_free b j))"
  using ok n
proof (induction b n i rule: free_scan.induct)
  case (1 b n i)
  note ok = "1.prems"(1)
  show ?case
  proof (cases "i < n")
    case False
    then show ?thesis by (subst free_scan.simps) auto
  next
    case True
    then have i: "i < 64" using "1.prems" by simp
    note d = bm_okD [OF ok]
    have f: "is_free b i \<longleftrightarrow> au4_status b ! i = 0 \<and> apv_ptr b ! i \<noteq> None"
      by (simp only: is_free_def i held_empty [OF ok i] simp_thms)
    show ?thesis
    proof (cases "is_free b i")
      case True
      then have "free_scan b n i = Some (Some i)"
        using \<open>i < n\<close> i d(3-5) f by (subst free_scan.simps) simp
      then show ?thesis using True \<open>i < n\<close> by auto
    next
      case False
      then have step: "free_scan b n i = free_scan b n (i + 1)"
        using \<open>i < n\<close> i d(3-5) f by (subst free_scan.simps) auto
      obtain r where r: "free_scan b n (i + 1) = Some r"
          "case r of None \<Rightarrow> \<forall>j. i + 1 \<le> j \<and> j < n \<longrightarrow> \<not> is_free b j
             | Some k \<Rightarrow> i + 1 \<le> k \<and> k < n \<and> is_free b k \<and> (\<forall>j. i + 1 \<le> j \<and> j < k \<longrightarrow> \<not> is_free b j)"
        using "1.IH" [OF \<open>i < n\<close>] "1.prems" \<open>i < n\<close> i d(3-5) f False by fastforce
      have all: "\<forall>j. i \<le> j \<and> j < m \<longrightarrow> \<not> is_free b j"
        if "\<forall>j. i + 1 \<le> j \<and> j < m \<longrightarrow> \<not> is_free b j" for m
        using that False by (metis Suc_eq_plus1 Suc_leI le_neq_implies_less)
      show ?thesis
      proof (cases r)
        case None
        then show ?thesis using r all [of n] unfolding step by simp
      next
        case (Some k)
        then show ?thesis using r all [of k] unfolding step by simp
      qed
    qed
  qed
qed


lemma bm_get_next_free_spec:
  assumes ok: "bm_ok b"
  shows "(\<exists>i. ihevc_buf_mgr_get_next_free b = Some (apv_ptr b ! i, Some i, b \<lparr> au4_status := (au4_status b)[i := 1] \<rparr>) \<and>
      is_free b i \<and> (\<forall>j < i. \<not> is_free b j)) \<or>
    ihevc_buf_mgr_get_next_free b = Some (None, None, b) \<and> (\<forall>j. \<not> is_free b j)"
proof -
  note d = bm_okD [OF ok]
  obtain r where r: "free_scan b 64 0 = Some r" "case r of None \<Rightarrow> \<forall>j. 0 \<le> j \<and> j < 64 \<longrightarrow> \<not> is_free b j
             | Some k \<Rightarrow> 0 \<le> k \<and> k < 64 \<and> is_free b k \<and> (\<forall>j. 0 \<le> j \<and> j < k \<longrightarrow> \<not> is_free b j)"
    using free_scan_spec [OF ok order_refl, of 0] by blast
  show ?thesis
  proof (cases r)
    case None
    then show ?thesis using r d by (auto simp: ihevc_buf_mgr_get_next_free_def is_free_def)
  next
    case (Some k)
    then show ?thesis using r d by (auto simp: ihevc_buf_mgr_get_next_free_def)
  qed
qed

lemma bm_check_free_spec:
  assumes ok: "bm_ok b"
  shows "ihevc_buf_mgr_check_free b = Some (if \<exists>i. is_free b i then 1 else 0)"
proof -
  note d = bm_okD [OF ok]
  obtain r where r: "free_scan b 64 0 = Some r" "case r of None \<Rightarrow> \<forall>j. 0 \<le> j \<and> j < 64 \<longrightarrow> \<not> is_free b j
             | Some k \<Rightarrow> 0 \<le> k \<and> k < 64 \<and> is_free b k \<and> (\<forall>j. 0 \<le> j \<and> j < k \<longrightarrow> \<not> is_free b j)"
    using free_scan_spec [OF ok order_refl, of 0] by blast
  then show ?thesis using d
    by (cases r) (auto simp: ihevc_buf_mgr_check_free_def is_free_def)
qed

lemma held_update:
  "length (au4_status b) = 64 \<Longrightarrow> i < 64 \<Longrightarrow>
   held (b \<lparr> au4_status := (au4_status b)[i := v] \<rparr>) j = (if j = i then holders v else held b j)"
  by (auto simp: held_def)

text \<open>Releasing takes the holders away, and the decoder with the last other one.\<close>

definition released :: "holder set \<Rightarrow> holder set \<Rightarrow> holder set" where
  "released H M = (if H - M = {DEC} then {} else H - M)"

lemma bm_release_spec:
  assumes ok: "bm_ok b" and i: "0 \<le> i" "i < 64"
  shows "if held b (nat i) - holders msk = {REF} then ihevc_buf_mgr_release b i msk = None
    else \<exists>b'. ihevc_buf_mgr_release b i msk = Some (0, b') \<and> bm_ok b' \<and> apv_ptr b' = apv_ptr b \<and>
      held b' = (held b)(nat i := released (held b (nat i)) (holders msk))"
proof -
  note d = bm_okD [OF ok]
  let ?st = "au4_status b ! nat i"
  let ?v = "?st AND NOT msk"
  have n: "nat i < 64" using i by simp
  have v8: "?v < 8" using and_or_small(1) d(5) [OF n] by blast
  have h: "holders ?v = held b (nat i) - holders msk" using n holders_ops(1) [of ?st msk] by (simp add: held_def)
  have two: "?v = 2 \<longleftrightarrow> held b (nat i) - holders msk = {REF}"
    using holders_eq [OF v8, of 2] h by simp
  have one: "?v = 1 \<longleftrightarrow> held b (nat i) - holders msk = {DEC}"
    using holders_eq [OF v8, of 1] h by simp
  have rd: "rdi (au4_status b) i = Some ?st" "wri (au4_status b) i x = Some ((au4_status b)[nat i := x])" for x
    using i n d(3) by (simp_all add: rdi_def wri_def)
  show ?thesis
  proof (cases "?v = 2")
    case True
    then show ?thesis using two i d(1) rd by (simp add: ihevc_buf_mgr_release_def Let_def)
  next
    case False
    let ?w = "if ?v = 1 then 0 else ?v"
    let ?b = "b \<lparr> au4_status := (au4_status b)[nat i := ?w] \<rparr>"
    have run: "ihevc_buf_mgr_release b i msk = Some (0, ?b)"
      using False i d(1) rd by (simp add: ihevc_buf_mgr_release_def Let_def)
    have "bm_ok ?b" by (rule bm_ok_update [OF ok]) (use False v8 in auto)
    moreover have "holders ?w = released (held b (nat i)) (holders msk)"
      using one h by (auto simp: released_def)
    then have "held ?b = (held b)(nat i := released (held b (nat i)) (holders msk))"
      using held_update [OF d(3) n, of ?w] by (auto simp: fun_eq_iff)
    ultimately show ?thesis using run two False by auto
  qed
qed

lemma bm_set_status_spec:
  assumes ok: "bm_ok b" and i: "0 \<le> i" "i < 64" and m: "msk < 8"
  shows "if held b (nat i) \<inter> holders msk \<noteq> {} then ihevc_buf_mgr_set_status b i msk = Some (- 1, b)
    else if held b (nat i) \<union> holders msk = {REF} then ihevc_buf_mgr_set_status b i msk = None
    else \<exists>b'. ihevc_buf_mgr_set_status b i msk = Some (0, b') \<and> bm_ok b' \<and> apv_ptr b' = apv_ptr b \<and>
      held b' = (held b)(nat i := held b (nat i) \<union> holders msk)"
proof -
  note d = bm_okD [OF ok]
  let ?st = "au4_status b ! nat i"
  let ?v = "?st OR msk"
  have n: "nat i < 64" using i by simp
  have st8: "?st < 8" using d(5) [OF n] by blast
  have v8: "?v < 8" by (rule and_or_small(2) [OF st8 m])
  have h: "holders ?v = held b (nat i) \<union> holders msk" using n by (simp add: held_def holders_ops)
  have two: "?v = 2 \<longleftrightarrow> held b (nat i) \<union> holders msk = {REF}"
    using holders_eq [OF v8, of 2] h by simp
  have a: "?st AND msk \<noteq> 0 \<longleftrightarrow> held b (nat i) \<inter> holders msk \<noteq> {}"
    using holders_eq [OF and_or_small(1) [OF st8, of msk], of 0] n by (simp add: held_def holders_ops)
  have rd: "rdi (au4_status b) i = Some ?st" "wri (au4_status b) i x = Some ((au4_status b)[nat i := x])" for x
    using i n d(3) by (simp_all add: rdi_def wri_def)
  consider "?st AND msk \<noteq> 0" | "?st AND msk = 0" "?v = 2" | "?st AND msk = 0" "?v \<noteq> 2" by blast
  then show ?thesis
  proof cases
    case 1
    then show ?thesis using a i d(1) rd by (simp add: ihevc_buf_mgr_set_status_def)
  next
    case 2
    then show ?thesis using a two i d(1) rd by (simp add: ihevc_buf_mgr_set_status_def Let_def)
  next
    case 3
    let ?b = "b \<lparr> au4_status := (au4_status b)[nat i := ?v] \<rparr>"
    have "ihevc_buf_mgr_set_status b i msk = Some (0, ?b)"
      using 3 i d(1) rd by (simp add: ihevc_buf_mgr_set_status_def Let_def)
    moreover have "bm_ok ?b" by (rule bm_ok_update [OF ok v8]) (use 3 in simp)
    moreover have "held ?b = (held b)(nat i := held b (nat i) \<union> holders msk)"
      using held_update [OF d(3) n, of ?v] h by (auto simp: fun_eq_iff)
    ultimately show ?thesis using a two 3 by auto
  qed
qed

lemma bm_add_spec:
  assumes ok: "bm_ok b" and i: "0 \<le> i" "i < 64"
  shows "if apv_ptr b ! nat i \<in> {None, p}
    then ihevc_buf_mgr_add b p i = Some (0, b \<lparr> apv_ptr := (apv_ptr b)[nat i := p] \<rparr>)
    else ihevc_buf_mgr_add b p i = Some (- 1, b)"
  using bm_okD [OF ok] i by (auto simp: ihevc_buf_mgr_add_def rdi_def wri_def)

lemma bm_init_spec:
  "bm_ok (ihevc_buf_mgr_init b)" "held (ihevc_buf_mgr_init b) i = {}" "\<not> is_free (ihevc_buf_mgr_init b) i"
  by (auto simp: bm_ok_def ihevc_buf_mgr_init_def held_def is_free_def)

section \<open>Sequences of operations\<close>

text \<open>A status update takes a mask of the three holder bits. The code does not check it; the decoder passes
  nothing else, and a sequence that does has no run here. Neither has one that trips an assertion.\<close>

datatype bm_op = Add "nat option" int | GetFree | Release int u32 | SetStatus int u32

definition bm_run :: "bm_op \<Rightarrow> buf_mgr \<Rightarrow> buf_mgr option" where
  "bm_run op b = (case op of
       Add p i \<Rightarrow> map_option snd (ihevc_buf_mgr_add b p i)
     | GetFree \<Rightarrow> map_option (\<lambda>(_, _, b). b) (ihevc_buf_mgr_get_next_free b)
     | Release i msk \<Rightarrow> map_option snd (ihevc_buf_mgr_release b i msk)
     | SetStatus i msk \<Rightarrow> do { require (msk < 8); map_option snd (ihevc_buf_mgr_set_status b i msk) })"

inductive bm_reach :: "buf_mgr \<Rightarrow> bool" where
  bm_start: "bm_reach (ihevc_buf_mgr_init b)"
| bm_step: "bm_reach b \<Longrightarrow> bm_run op b = Some b' \<Longrightarrow> bm_reach b'"

inductive_cases bm_reachE: "bm_reach b"

definition bm_grants :: "bm_op \<Rightarrow> buf_mgr \<Rightarrow> nat option" where
  "bm_grants op b = (case op of
       GetFree \<Rightarrow> (case ihevc_buf_mgr_get_next_free b of Some (_, r, _) \<Rightarrow> r | None \<Rightarrow> None)
     | _ \<Rightarrow> None)"

primrec bm_frees :: "bm_op \<Rightarrow> nat set" where
  "bm_frees (Add p i) = {}"
| "bm_frees GetFree = {}"
| "bm_frees (Release i msk) = {nat i}"
| "bm_frees (SetStatus i msk) = {}"

definition bm_busy :: "buf_mgr \<Rightarrow> nat set" where
  "bm_busy b = {i. held b i \<noteq> {}}"

lemma bm_out_of_range:
  assumes "bm_ok b" "\<not> (0 \<le> i \<and> i < 64)"
  shows "ihevc_buf_mgr_add b p i \<in> {None, Some (- 1, b)}" "ihevc_buf_mgr_release b i msk \<in> {None, Some (- 1, b)}"
    "ihevc_buf_mgr_set_status b i msk \<in> {None, Some (- 1, b)}"
  using bm_okD(1) [OF assms(1)] assms(2)
  by (auto simp: ihevc_buf_mgr_add_def ihevc_buf_mgr_release_def ihevc_buf_mgr_set_status_def rdi_def)

text \<open>What a step does to the holders and the invariant.\<close>

lemma bm_run_held:
  assumes ok: "bm_ok b" and run: "bm_run op b = Some b'"
  shows "bm_ok b' \<and> (\<forall>i. i \<notin> bm_frees op \<longrightarrow> held b i \<subseteq> held b' i)"
proof (cases op)
  case (Add p i)
  show ?thesis
  proof (cases "0 \<le> i \<and> i < 64")
    case True
    then have "b' = b \<lparr> apv_ptr := (apv_ptr b)[nat i := p] \<rparr> \<or> b' = b"
      using run bm_add_spec [OF ok, of i p] Add by (auto simp: bm_run_def split: if_splits)
    then show ?thesis using ok by (auto simp: bm_ok_def held_def)
  next
    case False
    then show ?thesis using run Add ok bm_out_of_range(1) [OF ok False, of p] by (auto simp: bm_run_def)
  qed
next
  case GetFree
  from bm_get_next_free_spec [OF ok] show ?thesis
  proof
    assume "\<exists>i. ihevc_buf_mgr_get_next_free b = Some (apv_ptr b ! i, Some i, b \<lparr> au4_status := (au4_status b)[i := 1] \<rparr>) \<and>
      is_free b i \<and> (\<forall>j < i. \<not> is_free b j)"
    then obtain i where i: "b' = b \<lparr> au4_status := (au4_status b)[i := 1] \<rparr>" "is_free b i"
      using run GetFree by (auto simp: bm_run_def)
    then show ?thesis using bm_ok_update [OF ok, of 1 i] held_update [OF bm_okD(3) [OF ok], of i 1]
      by (auto simp: is_free_def)
  qed (use run GetFree ok in \<open>auto simp: bm_run_def\<close>)
next
  case (Release i msk)
  show ?thesis
  proof (cases "0 \<le> i \<and> i < 64")
    case True
    then show ?thesis using run Release bm_release_spec [OF ok, of i msk]
      by (auto simp: bm_run_def split: if_splits)
  next
    case False
    then show ?thesis using run Release ok bm_out_of_range(2) [OF ok False, of msk] by (auto simp: bm_run_def)
  qed
next
  case (SetStatus i msk)
  then have m: "msk < 8" using run by (auto simp: bm_run_def bind_Some_iff)
  show ?thesis
  proof (cases "0 \<le> i \<and> i < 64")
    case True
    then show ?thesis using run SetStatus bm_set_status_spec [OF ok _ _ m, of i] m ok
      by (auto simp: bm_run_def split: if_splits)
  next
    case False
    then show ?thesis using run SetStatus m ok bm_out_of_range(3) [OF ok False, of msk] by (auto simp: bm_run_def)
  qed
qed

lemma bm_grant:
  assumes ok: "bm_ok b" and g: "bm_grants op b = Some i"
  shows "op = GetFree" "is_free b i" "bm_run op b = Some b' \<Longrightarrow> held b' i = {DEC}"
proof -
  show op: "op = GetFree" using g by (cases op) (simp_all add: bm_grants_def)
  have r: "ihevc_buf_mgr_get_next_free b = Some (apv_ptr b ! i, Some i, b \<lparr> au4_status := (au4_status b)[i := 1] \<rparr>)"
      "is_free b i"
    using bm_get_next_free_spec [OF ok] g op by (auto simp: bm_grants_def)
  then show "is_free b i" by simp
  show "held b' i = {DEC}" if "bm_run op b = Some b'"
    using that r op held_update [OF bm_okD(3) [OF ok], of i 1] by (auto simp: bm_run_def is_free_def)
qed

interpretation bm: exclusive_pool bm_ok bm_busy bm_run bm_grants bm_frees
proof
  fix s t :: buf_mgr and op i
  assume ok: "bm_ok s"
  show "bm_run op s = Some t \<Longrightarrow> bm_ok t" using bm_run_held [OF ok] by blast
  show "bm_grants op s = Some i \<Longrightarrow> i \<notin> bm_busy s"
    using bm_grant(2) [OF ok] by (auto simp: bm_busy_def is_free_def)
  show "bm_grants op s = Some i \<Longrightarrow> bm_run op s = Some t \<Longrightarrow> i \<in> bm_busy t"
    using bm_grant(3) [OF ok] by (auto simp: bm_busy_def)
  show "bm_run op s = Some t \<Longrightarrow> i \<in> bm_busy s \<Longrightarrow> i \<notin> bm_frees op \<Longrightarrow> i \<in> bm_busy t"
    using bm_run_held [OF ok] by (fastforce simp: bm_busy_def)
qed

lemma bm_reach_ok: "bm_reach b \<Longrightarrow> bm_ok b"
  by (induction rule: bm_reach.induct) (use bm_init_spec bm_run_held in auto)

abbreviation bm_runs :: "bm_op list \<Rightarrow> buf_mgr \<Rightarrow> buf_mgr option" where
  "bm_runs \<equiv> exclusive_pool.runs bm_run"

section \<open>Properties\<close>

text \<open>
  The history of the manager as its callers see it: a buffer given out, a release and an update that
  succeeded. \<open>replay_step\<close> says when an event is allowed and what it makes of the holders: a buffer is
  given to the decoder when nobody holds it, holders are added when none of them is there, and a release
  that leaves at most the decoder frees the buffer.
\<close>

datatype bm_event = Given nat | Taken nat "holder set" | Dropped nat "holder set"

definition bm_event_of :: "bm_op \<Rightarrow> buf_mgr \<Rightarrow> bm_event list" where
  "bm_event_of op b = (case op of
       Add p i \<Rightarrow> []
     | GetFree \<Rightarrow> (case ihevc_buf_mgr_get_next_free b of Some (_, Some i, _) \<Rightarrow> [Given i] | _ \<Rightarrow> [])
     | Release i msk \<Rightarrow> (case ihevc_buf_mgr_release b i msk of
         Some (r, _) \<Rightarrow> if r = 0 then [Dropped (nat i) (holders msk)] else [] | None \<Rightarrow> [])
     | SetStatus i msk \<Rightarrow> (case ihevc_buf_mgr_set_status b i msk of
         Some (r, _) \<Rightarrow> if r = 0 then [Taken (nat i) (holders msk)] else [] | None \<Rightarrow> []))"

fun bm_history :: "bm_op list \<Rightarrow> buf_mgr \<Rightarrow> (bm_event list \<times> buf_mgr) option" where
  "bm_history [] b = Some ([], b)"
| "bm_history (op # ops) b = do {
     b' \<leftarrow> bm_run op b;
     (evs, b'') \<leftarrow> bm_history ops b';
     Some (bm_event_of op b @ evs, b'')
   }"

fun replay_step :: "bm_event \<Rightarrow> (nat \<Rightarrow> holder set) \<Rightarrow> (nat \<Rightarrow> holder set) option" where
  "replay_step (Given i) H = (if H i = {} then Some (H(i := {DEC})) else None)"
| "replay_step (Taken i M) H = (if H i \<inter> M = {} then Some (H(i := H i \<union> M)) else None)"
| "replay_step (Dropped i M) H = Some (H(i := if H i - M \<subseteq> {DEC} then {} else H i - M))"

primrec replay :: "bm_event list \<Rightarrow> (nat \<Rightarrow> holder set) \<Rightarrow> (nat \<Rightarrow> holder set) option" where
  "replay [] H = Some H"
| "replay (e # es) H = Option.bind (replay_step e H) (replay es)"

lemma replay_append: "replay (es @ fs) H = Option.bind (replay es H) (replay fs)"
  by (induction es arbitrary: H) (auto simp: fun_eq_iff intro!: arg_cong [where f = "Option.bind _"])

lemma bm_event_replay:
  assumes ok: "bm_ok b" and run: "bm_run op b = Some b'"
  shows "replay (bm_event_of op b) (held b) = Some (held b')"
proof (cases op)
  case (Add p i)
  show ?thesis
  proof (cases "0 \<le> i \<and> i < 64")
    case True
    then have "b' = b \<lparr> apv_ptr := (apv_ptr b)[nat i := p] \<rparr> \<or> b' = b"
      using run bm_add_spec [OF ok, of i p] Add by (auto simp: bm_run_def split: if_splits)
    moreover have "held (b \<lparr> apv_ptr := ps \<rparr>) = held b" for ps by (simp add: held_def fun_eq_iff)
    ultimately show ?thesis using Add by (auto simp: bm_event_of_def)
  next
    case False
    then show ?thesis using run Add bm_out_of_range(1) [OF ok False, of p] by (auto simp: bm_run_def bm_event_of_def)
  qed
next
  case GetFree
  from bm_get_next_free_spec [OF ok] show ?thesis
  proof
    assume "\<exists>i. ihevc_buf_mgr_get_next_free b = Some (apv_ptr b ! i, Some i, b \<lparr> au4_status := (au4_status b)[i := 1] \<rparr>) \<and>
      is_free b i \<and> (\<forall>j < i. \<not> is_free b j)"
    then obtain i where i: "bm_event_of op b = [Given i]" "b' = b \<lparr> au4_status := (au4_status b)[i := 1] \<rparr>" "is_free b i"
      using run GetFree by (auto simp: bm_run_def bm_event_of_def)
    then have "held b' = (held b)(i := {DEC})" "held b i = {}"
      using held_update [OF bm_okD(3) [OF ok], of i 1] by (auto simp: is_free_def fun_eq_iff)
    then show ?thesis using i(1) by simp
  qed (use run GetFree in \<open>auto simp: bm_run_def bm_event_of_def\<close>)
next
  case (Release i msk)
  show ?thesis
  proof (cases "0 \<le> i \<and> i < 64")
    case True
    then have "bm_event_of op b = [Dropped (nat i) (holders msk)]"
        "held b' = (held b)(nat i := released (held b (nat i)) (holders msk))"
      using run Release bm_release_spec [OF ok, of i msk] by (auto simp: bm_run_def bm_event_of_def split: if_splits)
    moreover have "released H M = (if H - M \<subseteq> {DEC} then {} else H - M)" for H M
      by (simp only: released_def subset_singleton_iff) simp
    ultimately show ?thesis by simp
  next
    case False
    then show ?thesis using run Release bm_out_of_range(2) [OF ok False, of msk] by (auto simp: bm_run_def bm_event_of_def)
  qed
next
  case (SetStatus i msk)
  then have m: "msk < 8" using run by (auto simp: bm_run_def bind_Some_iff)
  show ?thesis
  proof (cases "0 \<le> i \<and> i < 64")
    case True
    then show ?thesis using run SetStatus bm_set_status_spec [OF ok _ _ m, of i] m
      by (auto simp: bm_run_def bm_event_of_def split: if_splits)
  next
    case False
    then show ?thesis using run SetStatus m bm_out_of_range(3) [OF ok False, of msk] by (auto simp: bm_run_def bm_event_of_def)
  qed
qed

text \<open>
  C34: Whatever sequence of additions, requests, releases and status updates runs from initialisation on,
  the status words are the replay of its history: every event of it was allowed when it happened, so no
  buffer was given out while somebody held it and no holder was added twice, and at the end the bits of
  each word are the holders the history leaves, the decoder gone with the last other one.
\<close>

theorem buf_mgr_history:
  assumes "bm_history ops (ihevc_buf_mgr_init b) = Some (evs, b')"
  shows "replay evs (\<lambda>_. {}) = Some (held b')"
proof -
  have "bm_ok b \<Longrightarrow> bm_history ops b = Some (evs, b') \<Longrightarrow> replay evs (held b) = Some (held b')" for b
  proof (induction ops arbitrary: b evs)
    case (Cons op ops)
    then obtain b1 es where b1: "bm_run op b = Some b1" "bm_history ops b1 = Some (es, b')" "evs = bm_event_of op b @ es"
      by (auto simp: bind_Some_iff)
    then show ?case using Cons bm_run_held [OF Cons.prems(1) b1(1)] bm_event_replay [OF Cons.prems(1) b1(1)]
      by (simp add: replay_append)
  qed simp
  from this [OF bm_init_spec(1) assms] show ?thesis by (simp add: bm_init_spec(2) [abs_def])
qed

definition bm_example :: buf_mgr where
  "bm_example = \<lparr> u4_max_buf_cnt = 64, u4_active_buf_cnt = 0, au4_status = replicate 64 0,
     apv_ptr = [None, Some 7, Some 9] @ replicate 61 None \<rparr>"

lemma bm_example_reach: "bm_reach bm_example"
proof -
  let ?i = "ihevc_buf_mgr_init bm_example"
  let ?a = "?i \<lparr> apv_ptr := (apv_ptr ?i)[1 := Some 7] \<rparr>"
  have a: "bm_run (Add (Some 7) 1) ?i = Some ?a"
    by (simp add: bm_run_def ihevc_buf_mgr_add_def ihevc_buf_mgr_init_def rdi_def wri_def)
  have b: "bm_run (Add (Some 9) 2) ?a = Some bm_example"
    by (simp add: bm_run_def ihevc_buf_mgr_add_def ihevc_buf_mgr_init_def rdi_def wri_def bm_example_def
      numeral_eq_Suc)
  show ?thesis by (rule bm_step [OF bm_step [OF bm_start a] b])
qed

lemma bm_history_example:
  "\<exists>b'. bm_history [Add (Some 7) 1, GetFree, SetStatus 1 2, Release 1 2] (ihevc_buf_mgr_init bm_example) =
    Some ([Given 1, Taken 1 {REF}, Dropped 1 {REF}], b') \<and> held b' 1 = {}"
proof -
  define b0 where "b0 = ihevc_buf_mgr_init bm_example"
  define b1 where "b1 = b0 \<lparr> apv_ptr := (apv_ptr b0)[1 := Some 7] \<rparr>"
  define b2 where "b2 = b1 \<lparr> au4_status := (au4_status b1)[1 := 1] \<rparr>"
  define b3 where "b3 = b1 \<lparr> au4_status := (au4_status b1)[1 := 3] \<rparr>"
  define b4 where "b4 = b1 \<lparr> au4_status := (au4_status b1)[1 := 0] \<rparr>"
  note init = b0_def b1_def b2_def b3_def b4_def ihevc_buf_mgr_init_def rdi_def wri_def
  have 1: "bm_run (Add (Some 7) 1) b0 = Some b1" "bm_event_of (Add (Some 7) 1) b0 = []"
    by (simp_all add: bm_run_def bm_event_of_def ihevc_buf_mgr_add_def init)
  have l: "free_scan b1 64 0 = Some (Some 1)"
    by (subst free_scan.simps, subst free_scan.simps) (simp add: init)
  have get: "ihevc_buf_mgr_get_next_free b1 = Some (Some 7, Some 1, b2)"
  proof -
    have "sint (u4_max_buf_cnt b1) = 64" by (simp add: init)
    then show ?thesis using l by (simp add: ihevc_buf_mgr_get_next_free_def) (simp add: init)
  qed
  then have 2: "bm_run GetFree b1 = Some b2" "bm_event_of GetFree b1 = [Given 1]"
    by (simp_all add: bm_run_def bm_event_of_def)
  have set: "ihevc_buf_mgr_set_status b2 1 2 = Some (0, b3)"
    by (simp add: ihevc_buf_mgr_set_status_def init)
  then have 3: "bm_run (SetStatus 1 2) b2 = Some b3" "bm_event_of (SetStatus 1 2) b2 = [Taken 1 {REF}]"
    by (simp_all add: bm_run_def bm_event_of_def)
  have rel: "ihevc_buf_mgr_release b3 1 2 = Some (0, b4)"
    by (simp add: ihevc_buf_mgr_release_def init)
  then have 4: "bm_run (Release 1 2) b3 = Some b4" "bm_event_of (Release 1 2) b3 = [Dropped 1 {REF}]"
    by (simp_all add: bm_run_def bm_event_of_def)
  have "held b4 1 = {}" by (simp add: held_def init)
  then show ?thesis by (simp add: 1 2 3 4 b0_def [symmetric])
qed

lemma buf_mgr_history_witness:
  "\<exists>b'. replay [Given 1, Taken 1 {REF}, Dropped 1 {REF}] (\<lambda>_. {}) = Some (held b') \<and> held b' 1 = {}"
  using bm_history_example buf_mgr_history by blast

text \<open>
  C32: No picture buffer is handed out twice: after a request returned buffer \<open>i\<close>, and any
  further sequence of operations that does not release \<open>i\<close>, no request returns \<open>i\<close> again.
\<close>

theorem buf_mgr_no_double_grant:
  assumes "bm_reach b" "ihevc_buf_mgr_get_next_free b = Some (p, Some i, b')"
    and "bm_runs ops b' = Some b''" "\<forall>op \<in> set ops. i \<notin> bm_frees op"
  shows "ihevc_buf_mgr_get_next_free b'' \<noteq> Some (q, Some i, b3)"
proof -
  have g: "bm_grants GetFree b = Some i" "bm_run GetFree b = Some b'"
    using assms(2) by (simp_all add: bm_grants_def bm_run_def)
  from bm.no_second_grant [OF bm_reach_ok [OF assms(1)] g assms(3,4), of GetFree]
  show ?thesis by (auto simp: bm_grants_def)
qed

lemma buf_mgr_no_double_grant_witness:
  "\<exists>p i b'. ihevc_buf_mgr_get_next_free bm_example = Some (p, Some i, b') \<and> i = 1 \<and>
    ihevc_buf_mgr_get_next_free b' \<noteq> Some (Some 7, Some i, bm_example)"
proof -
  have l: "free_scan bm_example 64 0 = Some (Some 1)"
    by (subst free_scan.simps, subst free_scan.simps) (simp add: bm_example_def)
  then have 1: "ihevc_buf_mgr_get_next_free bm_example =
      Some (Some 7, Some 1, bm_example \<lparr> au4_status := (au4_status bm_example)[1 := 1] \<rparr>)"
    by (simp add: ihevc_buf_mgr_get_next_free_def) (simp add: bm_example_def)
  show ?thesis
    using buf_mgr_no_double_grant [OF bm_example_reach 1, of "[]"] 1 by (simp add: bm.runs.simps)
qed

text \<open>
  A request returns the lowest numbered buffer that nobody holds, marks it as held by the
  decoder alone and changes nothing else; it fails exactly when the check for a free buffer
  says there is none.
\<close>

theorem buf_mgr_get_next_free_lowest:
  assumes "bm_reach b"
  shows "case ihevc_buf_mgr_get_next_free b of
      None \<Rightarrow> False
    | Some (p, None, b') \<Rightarrow> p = None \<and> b' = b \<and> ihevc_buf_mgr_check_free b = Some 0
    | Some (p, Some i, b') \<Rightarrow> i < 64 \<and> au4_status b ! i = 0 \<and> p = apv_ptr b ! i \<and> p \<noteq> None \<and>
        (\<forall>j < i. au4_status b ! j \<noteq> 0 \<or> apv_ptr b ! j = None) \<and>
        b' = b \<lparr> au4_status := (au4_status b)[i := 1] \<rparr> \<and> ihevc_buf_mgr_check_free b = Some 1"
proof -
  have ok: "bm_ok b" by (rule bm_reach_ok [OF assms])
  have f: "is_free b i \<longleftrightarrow> i < 64 \<and> au4_status b ! i = 0 \<and> apv_ptr b ! i \<noteq> None" for i
    using held_empty [OF ok, of i] by (auto simp: is_free_def)
  show ?thesis using bm_get_next_free_spec [OF ok] bm_check_free_spec [OF ok] unfolding f
    by (auto split: if_splits)
qed

lemma buf_mgr_get_next_free_lowest_witness:
  "case ihevc_buf_mgr_get_next_free bm_example of
      None \<Rightarrow> False
    | Some (p, None, b') \<Rightarrow> p = None \<and> b' = bm_example \<and> ihevc_buf_mgr_check_free bm_example = Some 0
    | Some (p, Some i, b') \<Rightarrow> i < 64 \<and> au4_status bm_example ! i = 0 \<and> p = apv_ptr bm_example ! i \<and> p \<noteq> None \<and>
        (\<forall>j < i. au4_status bm_example ! j \<noteq> 0 \<or> apv_ptr bm_example ! j = None) \<and>
        b' = bm_example \<lparr> au4_status := (au4_status bm_example)[i := 1] \<rparr> \<and>
        ihevc_buf_mgr_check_free bm_example = Some 1"
  by (rule buf_mgr_get_next_free_lowest [OF bm_example_reach])

text \<open>
  C33: Status words refine sets of holders: a release takes the given holders away, and the
  decoder with the last other one; an update adds holders that were not there and fails when
  one was; both leave every other buffer alone, and trip the assertion only where the
  reference would be left alone.
\<close>

theorem buf_mgr_status_refines_holders:
  assumes "bm_reach b" "i < 64" "msk < 8"
  shows "(case ihevc_buf_mgr_release b (int i) msk of
      None \<Rightarrow> held b i - holders msk = {REF}
    | Some (r, b') \<Rightarrow> r = 0 \<and> held b i - holders msk \<noteq> {REF} \<and>
        held b' = (held b)(i := (let H = held b i - holders msk in if H = {DEC} then {} else H))) \<and>
    (case ihevc_buf_mgr_set_status b (int i) msk of
      None \<Rightarrow> held b i \<inter> holders msk = {} \<and> held b i \<union> holders msk = {REF}
    | Some (r, b') \<Rightarrow> if held b i \<inter> holders msk \<noteq> {} then r = - 1 \<and> b' = b
        else r = 0 \<and> held b' = (held b)(i := held b i \<union> holders msk))"
proof -
  have ok: "bm_ok b" by (rule bm_reach_ok [OF assms(1)])
  have i: "0 \<le> int i" "int i < 64" using assms(2) by simp_all
  have "case ihevc_buf_mgr_release b (int i) msk of
      None \<Rightarrow> held b i - holders msk = {REF}
    | Some (r, b') \<Rightarrow> r = 0 \<and> held b i - holders msk \<noteq> {REF} \<and>
        held b' = (held b)(i := (let H = held b i - holders msk in if H = {DEC} then {} else H))"
    using bm_release_spec [OF ok i, of msk]
    by (cases "held b i - holders msk = {REF}") (auto simp: released_def Let_def)
  moreover have "case ihevc_buf_mgr_set_status b (int i) msk of
      None \<Rightarrow> held b i \<inter> holders msk = {} \<and> held b i \<union> holders msk = {REF}
    | Some (r, b') \<Rightarrow> if held b i \<inter> holders msk \<noteq> {} then r = - 1 \<and> b' = b
        else r = 0 \<and> held b' = (held b)(i := held b i \<union> holders msk)"
    using bm_set_status_spec [OF ok i assms(3)]
    by (cases "held b i \<inter> holders msk \<noteq> {}"; cases "held b i \<union> holders msk = {REF}") auto
  ultimately show ?thesis by blast
qed

lemma buf_mgr_status_refines_holders_witness:
  "(case ihevc_buf_mgr_release bm_example (int 1) 4 of
      None \<Rightarrow> held bm_example 1 - holders 4 = {REF}
    | Some (r, b') \<Rightarrow> r = 0 \<and> held bm_example 1 - holders 4 \<noteq> {REF} \<and>
        held b' = (held bm_example)(1 := (let H = held bm_example 1 - holders 4 in if H = {DEC} then {} else H))) \<and>
    (case ihevc_buf_mgr_set_status bm_example (int 1) 4 of
      None \<Rightarrow> held bm_example 1 \<inter> holders 4 = {} \<and> held bm_example 1 \<union> holders 4 = {REF}
    | Some (r, b') \<Rightarrow> if held bm_example 1 \<inter> holders 4 \<noteq> {} then r = - 1 \<and> b' = bm_example
        else r = 0 \<and> held b' = (held bm_example)(1 := held bm_example 1 \<union> holders 4))"
  by (rule buf_mgr_status_refines_holders [OF bm_example_reach]) simp_all

end
