(* ===== verification/Disp_Mgr.thy ===== *)
theory Disp_Mgr
  imports Hevc_Prelude "HOL-Library.Multiset"
begin

text \<open>
  The display manager of the decoder, \<^verbatim>\<open>common/ihevc_disp_mgr.c\<close>: 64 slots, each empty or holding
  a picture that waits for output with its picture order count. A slot is empty when its count is
  \<^verbatim>\<open>DEFAULT_POC\<close>; \<open>None\<close> is the null pointer.

  The manager is a priority queue: what is proved is that a request takes a pending picture of the
  least count, and that draining the manager puts the pictures out in display order.
\<close>

section \<open>Operations\<close>

record disp_mgr =
  u4_last_abs_poc :: u32
  ai4_abs_poc :: "int list"
  disp_ptr :: "nat option list"

abbreviation (input) DISP_MGR_MAX_CNT :: nat where "DISP_MGR_MAX_CNT \<equiv> 64"
abbreviation (input) DEFAULT_POC :: int where "DEFAULT_POC \<equiv> 2147483647"

definition ihevc_disp_mgr_init :: "disp_mgr \<Rightarrow> disp_mgr" where
  "ihevc_disp_mgr_init d = d \<lparr> u4_last_abs_poc := 2147483647,
     ai4_abs_poc := replicate DISP_MGR_MAX_CNT DEFAULT_POC, disp_ptr := replicate DISP_MGR_MAX_CNT None \<rparr>"

definition ihevc_disp_mgr_add :: "disp_mgr \<Rightarrow> int \<Rightarrow> int \<Rightarrow> nat option \<Rightarrow> (int \<times> disp_mgr) option" where
  "ihevc_disp_mgr_add d buf_id abs_poc pv_ptr = (
     if buf_id \<ge> int DISP_MGR_MAX_CNT then Some (- 1, d)
     else do {
       p \<leftarrow> rdi (disp_ptr d) buf_id;
       if p \<noteq> None then Some (- 1, d)
       else do {
         ptrs \<leftarrow> wri (disp_ptr d) buf_id pv_ptr;
         pocs \<leftarrow> wri (ai4_abs_poc d) buf_id abs_poc;
         Some (0, d \<lparr> disp_ptr := ptrs, ai4_abs_poc := pocs \<rparr>)
       }
     })"

text \<open>The scan for the least count: the rest of the array from slot \<open>i\<close> on, the least count so far
  and its slot. Among equal counts the last slot wins.\<close>

fun min_scan :: "int list \<Rightarrow> int \<Rightarrow> int \<Rightarrow> int \<Rightarrow> int" where
  "min_scan [] i i4_min_poc min_poc_id = min_poc_id"
| "min_scan (poc # pocs) i i4_min_poc min_poc_id =
     (if DEFAULT_POC \<noteq> poc \<and> poc \<le> i4_min_poc then min_scan pocs (i + 1) poc i
      else min_scan pocs (i + 1) i4_min_poc min_poc_id)"

text \<open>The result is the pointer, \<^verbatim>\<open>*pi4_buf_id\<close> and the new state.\<close>

definition ihevc_disp_mgr_get :: "disp_mgr \<Rightarrow> (nat option \<times> int \<times> disp_mgr) option" where
  "ihevc_disp_mgr_get d = (
     let min_poc_id = min_scan (ai4_abs_poc d) 0 2147483647 (- 1) in
     if min_poc_id = - 1 then Some (None, min_poc_id, d)
     else do {
       p \<leftarrow> rdi (disp_ptr d) min_poc_id;
       ptrs \<leftarrow> wri (disp_ptr d) min_poc_id None;
       pocs \<leftarrow> wri (ai4_abs_poc d) min_poc_id DEFAULT_POC;
       Some (p, min_poc_id, d \<lparr> disp_ptr := ptrs, ai4_abs_poc := pocs \<rparr>)
     })"

section \<open>Pending pictures\<close>

definition pending :: "disp_mgr \<Rightarrow> nat set" where
  "pending d = {i. i < 64 \<and> ai4_abs_poc d ! i \<noteq> DEFAULT_POC}"

text \<open>The invariant: the array sizes, counts that fit \<^verbatim>\<open>WORD32\<close>, and empty slots without a pointer.\<close>

definition dm_ok :: "disp_mgr \<Rightarrow> bool" where
  "dm_ok d \<longleftrightarrow> length (ai4_abs_poc d) = 64 \<and> length (disp_ptr d) = 64 \<and>
     (\<forall>p \<in> set (ai4_abs_poc d). p \<le> DEFAULT_POC) \<and>
     (\<forall>i < 64. ai4_abs_poc d ! i = DEFAULT_POC \<longleftrightarrow> disp_ptr d ! i = None)"

lemma dm_okD:
  assumes "dm_ok d"
  shows "length (ai4_abs_poc d) = 64" "length (disp_ptr d) = 64"
    and "i < 64 \<Longrightarrow> ai4_abs_poc d ! i \<le> DEFAULT_POC"
    and "i < 64 \<Longrightarrow> ai4_abs_poc d ! i = DEFAULT_POC \<longleftrightarrow> disp_ptr d ! i = None"
  using assms by (auto simp: dm_ok_def)

lemma finite_pending [simp]: "finite (pending d)"
  by (rule finite_subset [of _ "{..<64}"]) (auto simp: pending_def)

text \<open>The scan keeps the last of the least counts seen.\<close>

definition least_at :: "int list \<Rightarrow> nat \<Rightarrow> nat \<Rightarrow> bool" where
  "least_at ps n k \<longleftrightarrow> k < n \<and> ps ! k \<noteq> DEFAULT_POC \<and>
     (\<forall>j < n. ps ! j \<noteq> DEFAULT_POC \<longrightarrow> ps ! k < ps ! j \<or> ps ! k = ps ! j \<and> j \<le> k)"

lemma min_scan_spec:
  assumes "\<forall>p \<in> set ps. p \<le> DEFAULT_POC" "n \<le> length ps"
    and "(mid = - 1 \<and> mn = DEFAULT_POC \<and> (\<forall>j < n. ps ! j = DEFAULT_POC)) \<or>
         (\<exists>k. mid = int k \<and> mn = ps ! k \<and> least_at ps n k)"
  shows "(let r = min_scan (drop n ps) (int n) mn mid in
      (r = - 1 \<and> (\<forall>j < length ps. ps ! j = DEFAULT_POC)) \<or> (\<exists>k. r = int k \<and> least_at ps (length ps) k))"
  using assms
proof (induction "length ps - n" arbitrary: n mn mid)
  case 0
  then show ?case by auto
next
  case (Suc m)
  then have n: "n < length ps" by simp
  let ?p = "ps ! n"
  have d: "drop n ps = ?p # drop (Suc n) ps" using n by (simp add: Cons_nth_drop_Suc)
  have le: "?p \<le> DEFAULT_POC" using Suc.prems(1) n by simp
  let ?mn = "if DEFAULT_POC \<noteq> ?p \<and> ?p \<le> mn then ?p else mn"
  let ?mid = "if DEFAULT_POC \<noteq> ?p \<and> ?p \<le> mn then int n else mid"
  have "(?mid = - 1 \<and> ?mn = DEFAULT_POC \<and> (\<forall>j < Suc n. ps ! j = DEFAULT_POC)) \<or>
         (\<exists>k. ?mid = int k \<and> ?mn = ps ! k \<and> least_at ps (Suc n) k)"
    using Suc.prems(3)
  proof
    assume "mid = - 1 \<and> mn = DEFAULT_POC \<and> (\<forall>j < n. ps ! j = DEFAULT_POC)"
    then show ?thesis using le by (auto simp: less_Suc_eq least_at_def)
  next
    assume "\<exists>k. mid = int k \<and> mn = ps ! k \<and> least_at ps n k"
    then obtain k where k: "mid = int k" "mn = ps ! k" "least_at ps n k" by blast
    show ?thesis
    proof (cases "DEFAULT_POC \<noteq> ?p \<and> ?p \<le> mn")
      case True
      then have "least_at ps (Suc n) n" using k by (fastforce simp: least_at_def less_Suc_eq)
      then show ?thesis using True by auto
    next
      case False
      then have "least_at ps (Suc n) k" using k by (auto simp: least_at_def less_Suc_eq)
      then show ?thesis using k False by auto
    qed
  qed
  from Suc.hyps(1) [OF _ Suc.prems(1) _ this] n Suc.hyps(2)
  show ?case unfolding d by (auto simp: Let_def ac_simps split: if_splits)
qed

lemma dm_get_spec:
  assumes ok: "dm_ok d"
  shows "ihevc_disp_mgr_get d = Some (None, - 1, d) \<and> pending d = {} \<or>
    (\<exists>k. least_at (ai4_abs_poc d) 64 k \<and> ihevc_disp_mgr_get d = Some (disp_ptr d ! k, int k,
       d \<lparr> disp_ptr := (disp_ptr d)[k := None], ai4_abs_poc := (ai4_abs_poc d)[k := DEFAULT_POC] \<rparr>))"
proof -
  note D = dm_okD [OF ok]
  have "(let r = min_scan (ai4_abs_poc d) 0 DEFAULT_POC (- 1) in
      (r = - 1 \<and> (\<forall>j < 64. ai4_abs_poc d ! j = DEFAULT_POC)) \<or> (\<exists>k. r = int k \<and> least_at (ai4_abs_poc d) 64 k))"
    using min_scan_spec [of "ai4_abs_poc d" 0 "- 1" DEFAULT_POC] ok D(1) by (simp add: dm_ok_def)
  then consider "min_scan (ai4_abs_poc d) 0 DEFAULT_POC (- 1) = - 1" "\<forall>j < 64. ai4_abs_poc d ! j = DEFAULT_POC"
    | k where "min_scan (ai4_abs_poc d) 0 DEFAULT_POC (- 1) = int k" "least_at (ai4_abs_poc d) 64 k"
    by (auto simp: Let_def)
  then show ?thesis
  proof cases
    case 1
    then show ?thesis by (simp add: ihevc_disp_mgr_get_def pending_def)
  next
    case 2
    then have "k < 64" by (simp add: least_at_def)
    then show ?thesis using 2 D(1,2) by (auto simp: ihevc_disp_mgr_get_def)
  qed
qed

lemma dm_ok_clear:
  assumes "dm_ok d"
  shows "dm_ok (d \<lparr> disp_ptr := (disp_ptr d)[k := None], ai4_abs_poc := (ai4_abs_poc d)[k := DEFAULT_POC] \<rparr>)"
  using assms by (auto simp: dm_ok_def nth_update dest!: set_update_subset_insert [THEN subsetD])

lemma pending_clear:
  assumes "dm_ok d"
  shows "pending (d \<lparr> disp_ptr := ps, ai4_abs_poc := (ai4_abs_poc d)[k := DEFAULT_POC] \<rparr>) = pending d - {k}"
  using dm_okD(1) [OF assms] by (auto simp: pending_def nth_update split: if_splits)

lemma dm_add_spec:
  assumes ok: "dm_ok d" and i: "i < 64" and poc: "poc < DEFAULT_POC"
  shows "if i \<in> pending d then ihevc_disp_mgr_add d (int i) poc (Some p) = Some (- 1, d)
    else \<exists>d'. ihevc_disp_mgr_add d (int i) poc (Some p) = Some (0, d') \<and> dm_ok d' \<and> pending d' = insert i (pending d) \<and>
      ai4_abs_poc d' = (ai4_abs_poc d)[i := poc] \<and> disp_ptr d' = (disp_ptr d)[i := Some p]"
proof -
  note D = dm_okD [OF ok]
  let ?d = "d \<lparr> disp_ptr := (disp_ptr d)[i := Some p], ai4_abs_poc := (ai4_abs_poc d)[i := poc] \<rparr>"
  have "dm_ok ?d"
    using ok poc by (auto simp: dm_ok_def nth_update dest!: set_update_subset_insert [THEN subsetD])
  moreover have "pending ?d = insert i (pending d)"
    using D(1) i poc by (auto simp: pending_def nth_update split: if_splits)
  ultimately show ?thesis using D i by (auto simp: ihevc_disp_mgr_add_def pending_def)
qed

lemma dm_init_ok: "dm_ok (ihevc_disp_mgr_init d)" "pending (ihevc_disp_mgr_init d) = {}"
  by (auto simp: dm_ok_def ihevc_disp_mgr_init_def pending_def)

section \<open>Draining\<close>

text \<open>Requests until one finds nothing: the slots and counts put out. There are at most 64.\<close>

fun drain :: "nat \<Rightarrow> disp_mgr \<Rightarrow> ((nat \<times> int) list \<times> disp_mgr) option" where
  "drain 0 d = None"
| "drain (Suc n) d = do {
     (p, i, d') \<leftarrow> ihevc_disp_mgr_get d;
     if i = - 1 then Some ([], d')
     else do {
       (out, e) \<leftarrow> drain n d';
       Some ((nat i, ai4_abs_poc d ! nat i) # out, e)
     }
   }"

lemma drain_spec:
  assumes "dm_ok d" "card (pending d) < n"
  shows "\<exists>out e. drain n d = Some (out, e) \<and> dm_ok e \<and> pending e = {} \<and>
    sorted (map snd out) \<and> distinct (map fst out) \<and>
    set out = (\<lambda>i. (i, ai4_abs_poc d ! i)) ` pending d"
  using assms
proof (induction n arbitrary: d)
  case (Suc n)
  from dm_get_spec [OF Suc.prems(1)] show ?case
  proof (elim disjE exE conjE)
    assume "ihevc_disp_mgr_get d = Some (None, - 1, d)" "pending d = {}"
    then show ?thesis using Suc.prems(1) by simp
  next
    fix k
    let ?d = "d \<lparr> disp_ptr := (disp_ptr d)[k := None], ai4_abs_poc := (ai4_abs_poc d)[k := DEFAULT_POC] \<rparr>"
    assume k: "least_at (ai4_abs_poc d) 64 k" and get: "ihevc_disp_mgr_get d = Some (disp_ptr d ! k, int k, ?d)"
    have mem: "k \<in> pending d" using k by (auto simp: least_at_def pending_def)
    have p: "pending ?d = pending d - {k}" by (rule pending_clear [OF Suc.prems(1)])
    have "card (pending ?d) < n" using Suc.prems(2) mem unfolding p by (metis card_Diff1_less finite_pending less_Suc_eq_le order_less_le_trans)
    then obtain out e where IH: "drain n ?d = Some (out, e)" "dm_ok e" "pending e = {}" "sorted (map snd out)"
        "distinct (map fst out)" "set out = (\<lambda>i. (i, ai4_abs_poc ?d ! i)) ` pending ?d"
      using Suc.IH [OF dm_ok_clear [OF Suc.prems(1)]] by blast
    have set: "set out = (\<lambda>i. (i, ai4_abs_poc d ! i)) ` (pending d - {k})"
      unfolding IH(6) p using dm_okD(1) [OF Suc.prems(1)] by (intro image_cong) (auto simp: nth_update)
    have "\<forall>x \<in> set (map snd out). ai4_abs_poc d ! k \<le> x"
      using k unfolding set_map set by (force simp: least_at_def pending_def)
    moreover have "k \<notin> set (map fst out)" unfolding set_map set by (auto simp: image_image)
    moreover have "set ((k, ai4_abs_poc d ! k) # out) = (\<lambda>i. (i, ai4_abs_poc d ! i)) ` pending d"
      using mem unfolding list.set(2) set by auto
    ultimately show ?thesis using IH get by simp
  qed
qed simp


section \<open>Properties\<close>

text \<open>The managers the decoder can reach: it adds pictures with a count below \<^verbatim>\<open>DEFAULT_POC\<close> and a
  buffer pointer that is not null.\<close>

inductive dm_reach :: "disp_mgr \<Rightarrow> bool" where
  dm_init: "dm_reach (ihevc_disp_mgr_init d)"
| dm_add: "dm_reach d \<Longrightarrow> poc < DEFAULT_POC \<Longrightarrow> ihevc_disp_mgr_add d i poc (Some p) = Some (r, d') \<Longrightarrow> dm_reach d'"
| dm_get: "dm_reach d \<Longrightarrow> ihevc_disp_mgr_get d = Some (p, i, d') \<Longrightarrow> dm_reach d'"

lemma dm_reach_ok: "dm_reach d \<Longrightarrow> dm_ok d"
proof (induction rule: dm_reach.induct)
  case (dm_init d)
  show ?case by (rule dm_init_ok)
next
  case (dm_add d poc i p r d')
  show ?case
  proof (cases "0 \<le> i \<and> i < 64")
    case True
    then have i: "nat i < 64" "int (nat i) = i" by (auto simp: nat_less_iff)
    show ?thesis using dm_add_spec [OF dm_add.IH i(1) dm_add.hyps(2), of p] dm_add unfolding i(2)
      by (auto split: if_splits)
  next
    case False
    then show ?thesis using dm_add by (auto simp: ihevc_disp_mgr_add_def rdi_def)
  qed
next
  case (dm_get d p i d')
  then show ?case using dm_get_spec [OF dm_get.IH] dm_ok_clear [OF dm_get.IH] by auto
qed

definition dm_example :: disp_mgr where
  "dm_example = \<lparr> u4_last_abs_poc = 2147483647, ai4_abs_poc = [4, 2] @ replicate 62 DEFAULT_POC,
     disp_ptr = [Some 70, Some 80] @ replicate 62 None \<rparr>"

lemma dm_example_reach: "dm_reach dm_example"
proof -
  let ?i = "ihevc_disp_mgr_init dm_example"
  let ?a = "?i \<lparr> disp_ptr := (disp_ptr ?i)[0 := Some 70], ai4_abs_poc := (ai4_abs_poc ?i)[0 := 4] \<rparr>"
  have 1: "ihevc_disp_mgr_add ?i 0 4 (Some 70) = Some (0, ?a)"
    by (simp add: ihevc_disp_mgr_add_def ihevc_disp_mgr_init_def rdi_def wri_def)
  have 2: "ihevc_disp_mgr_add ?a 1 2 (Some 80) = Some (0, dm_example)"
    by (simp add: ihevc_disp_mgr_add_def ihevc_disp_mgr_init_def rdi_def wri_def dm_example_def numeral_eq_Suc)
  show ?thesis by (rule dm_add [OF dm_add [OF dm_init _ 1] _ 2]) simp_all
qed

text \<open>
  A request for a picture to display takes the pending picture of the least picture order count
  (the highest slot when several share it), returns its buffer and empties its slot and no other;
  it returns the null pointer and id \<open>- 1\<close> exactly when nothing is pending.
\<close>

theorem disp_mgr_get_least:
  assumes "dm_reach d"
  shows "case ihevc_disp_mgr_get d of
      None \<Rightarrow> False
    | Some (p, i, d') \<Rightarrow>
        (if i = - 1 then p = None \<and> d' = d \<and> pending d = {}
         else nat i \<in> pending d \<and> p = disp_ptr d ! nat i \<and> p \<noteq> None \<and> pending d' = pending d - {nat i} \<and>
           (\<forall>j \<in> pending d. ai4_abs_poc d ! nat i < ai4_abs_poc d ! j \<or>
              ai4_abs_poc d ! nat i = ai4_abs_poc d ! j \<and> j \<le> nat i))"
proof -
  have ok: "dm_ok d" by (rule dm_reach_ok [OF assms])
  from dm_get_spec [OF ok] show ?thesis
  proof (elim disjE exE conjE)
    fix k
    assume k: "least_at (ai4_abs_poc d) 64 k" and get: "ihevc_disp_mgr_get d = Some (disp_ptr d ! k, int k,
       d \<lparr> disp_ptr := (disp_ptr d)[k := None], ai4_abs_poc := (ai4_abs_poc d)[k := DEFAULT_POC] \<rparr>)"
    have "k \<in> pending d" "disp_ptr d ! k \<noteq> None" "\<forall>j \<in> pending d. ai4_abs_poc d ! k < ai4_abs_poc d ! j \<or>
        ai4_abs_poc d ! k = ai4_abs_poc d ! j \<and> j \<le> k"
      using k dm_okD(4) [OF ok, of k] unfolding least_at_def pending_def by blast+
    then show ?thesis unfolding get using pending_clear [OF ok] by simp
  qed simp
qed

lemma disp_mgr_get_least_witness:
  "case ihevc_disp_mgr_get dm_example of
      None \<Rightarrow> False
    | Some (p, i, d') \<Rightarrow>
        (if i = - 1 then p = None \<and> d' = dm_example \<and> pending dm_example = {}
         else nat i \<in> pending dm_example \<and> p = disp_ptr dm_example ! nat i \<and> p \<noteq> None \<and>
           pending d' = pending dm_example - {nat i} \<and>
           (\<forall>j \<in> pending dm_example. ai4_abs_poc dm_example ! nat i < ai4_abs_poc dm_example ! j \<or>
              ai4_abs_poc dm_example ! nat i = ai4_abs_poc dm_example ! j \<and> j \<le> nat i))"
  by (rule disp_mgr_get_least [OF dm_example_reach])

text \<open>
  C35: Pictures leave in display order: requests until nothing is pending put out every pending
  picture once, in nondecreasing order of their picture order counts, and 65 requests are enough.
\<close>

theorem disp_mgr_drain_sorted:
  assumes "dm_reach d"
  shows "\<exists>out e. drain 65 d = Some (out, e) \<and> pending e = {} \<and> sorted (map snd out) \<and> distinct (map fst out) \<and>
    set out = {(i, ai4_abs_poc d ! i) | i. i \<in> pending d}"
proof -
  have "card (pending d) \<le> card {..<64 :: nat}" by (rule card_mono) (auto simp: pending_def)
  then obtain out e where "drain 65 d = Some (out, e)" "pending e = {}" "sorted (map snd out)" "distinct (map fst out)"
      "set out = (\<lambda>i. (i, ai4_abs_poc d ! i)) ` pending d"
    using drain_spec [OF dm_reach_ok [OF assms], of 65] by auto
  then show ?thesis by blast
qed

lemma disp_mgr_drain_sorted_witness:
  "\<exists>out e. drain 65 dm_example = Some (out, e) \<and> pending e = {} \<and> sorted (map snd out) \<and> distinct (map fst out) \<and>
    set out = {(i, ai4_abs_poc dm_example ! i) | i. i \<in> pending dm_example}"
  by (rule disp_mgr_drain_sorted [OF dm_example_reach])

text \<open>
  Adding a picture to a slot that is taken is refused and changes nothing; on an empty slot the
  picture becomes pending with its count and buffer and every other slot is kept.
\<close>

theorem disp_mgr_add_cases:
  assumes "dm_reach d" "i < 64" "poc < DEFAULT_POC"
  shows "if i \<in> pending d then ihevc_disp_mgr_add d (int i) poc (Some p) = Some (- 1, d)
    else \<exists>d'. ihevc_disp_mgr_add d (int i) poc (Some p) = Some (0, d') \<and> pending d' = insert i (pending d) \<and>
      ai4_abs_poc d' = (ai4_abs_poc d)[i := poc] \<and> disp_ptr d' = (disp_ptr d)[i := Some p]"
  using dm_add_spec [OF dm_reach_ok [OF assms(1)] assms(2,3), of p] by auto

lemma disp_mgr_add_cases_witness:
  "if 2 \<in> pending dm_example then ihevc_disp_mgr_add dm_example (int 2) 3 (Some 90) = Some (- 1, dm_example)
    else \<exists>d'. ihevc_disp_mgr_add dm_example (int 2) 3 (Some 90) = Some (0, d') \<and>
      pending d' = insert 2 (pending dm_example) \<and>
      ai4_abs_poc d' = (ai4_abs_poc dm_example)[2 := 3] \<and> disp_ptr d' = (disp_ptr dm_example)[2 := Some 90]"
  by (rule disp_mgr_add_cases [OF dm_example_reach]) simp_all

end
