(* ===== verification/Dpb_Mgr.thy ===== *)
theory Dpb_Mgr
  imports Buf_Mgr
begin

text \<open>
  The decoded picture buffer of the decoder, \<^verbatim>\<open>common/ihevc_dpb_mgr.c\<close>: 64 slots, the used ones
  linked from the most recently inserted picture back. A pointer to a slot is its index, a pointer
  to a picture an address into the heap of pictures \<open>pics\<close>; binding a null pointer (\<open>None\<close>) is a
  null dereference. The buffer manager the operations call is that of \<open>Buf_Mgr\<close>.

  The linked slots refine a list of pictures: insertion is \<open>(#)\<close>, deletion takes the first picture
  with the given count out, a search is \<open>find\<close>. Composed with the buffer manager the way the
  decoder composes them, a picture in the buffer keeps the reference hold on its memory.
\<close>

section \<open>State\<close>

record pic_buf =
  i4_abs_poc :: int
  i4_poc_lsb :: int
  u1_used_as_ref :: u8
  u1_buf_id :: u8

type_synonym pics = "nat \<Rightarrow> pic_buf option"

record dpb_info =
  ps_pic_buf :: "nat option"
  ps_prev_dpb :: "nat option"

record dpb_mgr =
  ps_dpb_head :: "nat option"
  as_dpb_info :: "dpb_info list"
  u1_num_ref_bufs :: u8

abbreviation (input) MAX_DPB_BUFS :: nat where "MAX_DPB_BUFS \<equiv> 64"
abbreviation (input) UNUSED_FOR_REF :: u8 where "UNUSED_FOR_REF \<equiv> 0"
abbreviation (input) SHORT_TERM_REF :: u8 where "SHORT_TERM_REF \<equiv> 2"

section \<open>Operations\<close>

definition ihevc_dpb_mgr_init :: "dpb_mgr \<Rightarrow> dpb_mgr" where
  "ihevc_dpb_mgr_init d = d \<lparr> as_dpb_info := replicate MAX_DPB_BUFS \<lparr> ps_pic_buf = None, ps_prev_dpb = None \<rparr>,
     u1_num_ref_bufs := 0, ps_dpb_head := None \<rparr>"

text \<open>Is the picture already in a slot and a reference?\<close>

fun present_scan :: "pics \<Rightarrow> nat option \<Rightarrow> dpb_info list \<Rightarrow> bool option" where
  "present_scan h p [] = Some False"
| "present_scan h p (nd # nds) =
     (if ps_pic_buf nd = p then do {
        a \<leftarrow> p;
        pic \<leftarrow> h a;
        if u1_used_as_ref pic \<noteq> 0 then Some True else present_scan h p nds
      } else present_scan h p nds)"

text \<open>The first empty slot, or the number of slots.\<close>

fun unused_scan :: "dpb_info list \<Rightarrow> nat" where
  "unused_scan [] = 0"
| "unused_scan (nd # nds) = (if ps_pic_buf nd = None then 0 else Suc (unused_scan nds))"

definition ihevc_dpb_mgr_insert_ref :: "dpb_mgr \<Rightarrow> pics \<Rightarrow> nat option \<Rightarrow> int \<Rightarrow> (int \<times> dpb_mgr \<times> pics) option" where
  "ihevc_dpb_mgr_insert_ref d h p buf_id = do {
     present \<leftarrow> present_scan h p (as_dpb_info d);
     if present then Some (- 1, d, h)
     else
       let i = unused_scan (as_dpb_info d) in
       if i = MAX_DPB_BUFS then Some (- 1, d, h)
       else do {
         nds \<leftarrow> wr (as_dpb_info d) i \<lparr> ps_pic_buf = p, ps_prev_dpb = ps_dpb_head d \<rparr>;
         a \<leftarrow> p;
         pic \<leftarrow> h a;
         Some (0, d \<lparr> as_dpb_info := nds, ps_dpb_head := Some i, u1_num_ref_bufs := u1_num_ref_bufs d + 1 \<rparr>,
           h(a \<mapsto> pic \<lparr> u1_buf_id := word_of_int buf_id, u1_used_as_ref := SHORT_TERM_REF \<rparr>))
       }
   }"

text \<open>The search of the deletion: \<open>n\<close> more nodes after \<open>node\<close>; it stops before the node it wants.\<close>

fun del_walk :: "dpb_info list \<Rightarrow> pics \<Rightarrow> int \<Rightarrow> nat \<Rightarrow> nat \<Rightarrow> (nat \<times> bool) option" where
  "del_walk nds h poc 0 node = Some (node, False)"
| "del_walk nds h poc (Suc n) node = do {
     nd \<leftarrow> rd nds node;
     prev \<leftarrow> ps_prev_dpb nd;
     pd \<leftarrow> rd nds prev;
     a \<leftarrow> ps_pic_buf pd;
     pic \<leftarrow> h a;
     if i4_abs_poc pic = poc then Some (node, True) else del_walk nds h poc n prev
   }"

text \<open>The node to unmark and the one before it, \<open>None\<close> for the early return.\<close>

definition del_target :: "dpb_mgr \<Rightarrow> pics \<Rightarrow> int \<Rightarrow> (nat \<times> nat) option option" where
  "del_target d h poc = do {
     hd \<leftarrow> ps_dpb_head d;
     nd \<leftarrow> rd (as_dpb_info d) hd;
     a \<leftarrow> ps_pic_buf nd;
     pic \<leftarrow> h a;
     if i4_abs_poc pic = poc then Some (Some (hd, hd))
     else do {
       (node, found) \<leftarrow> del_walk (as_dpb_info d) h poc (unat (u1_num_ref_bufs d) - 1) hd;
       if \<not> found \<and> u1_num_ref_bufs d \<noteq> 0 then Some None
       else do {
         nd \<leftarrow> rd (as_dpb_info d) node;
         unmark \<leftarrow> ps_prev_dpb nd;
         Some (Some (node, unmark))
       }
     }
   }"

definition ihevc_dpb_mgr_del_ref :: "dpb_mgr \<Rightarrow> buf_mgr \<Rightarrow> pics \<Rightarrow> int \<Rightarrow> (dpb_mgr \<times> buf_mgr) option" where
  "ihevc_dpb_mgr_del_ref d bm h poc = do {
     tg \<leftarrow> del_target d h poc;
     case tg of
       None \<Rightarrow> Some (d, bm)
     | Some (next, unmark) \<Rightarrow> do {
         un \<leftarrow> rd (as_dpb_info d) unmark;
         (hd, nds) \<leftarrow>
           (if Some unmark = ps_dpb_head d then Some (ps_prev_dpb un, as_dpb_info d)
            else do {
              nd \<leftarrow> rd (as_dpb_info d) next;
              nds \<leftarrow> wr (as_dpb_info d) next (nd \<lparr> ps_prev_dpb := ps_prev_dpb un \<rparr>);
              Some (ps_dpb_head d, nds)
            });
         a \<leftarrow> ps_pic_buf un;
         pic \<leftarrow> h a;
         (_, bm) \<leftarrow> ihevc_buf_mgr_release bm (uint (u1_buf_id pic)) 2;
         nds \<leftarrow> wr nds unmark \<lparr> ps_pic_buf = None, ps_prev_dpb = None \<rparr>;
         Some (d \<lparr> ps_dpb_head := hd, as_dpb_info := nds, u1_num_ref_bufs := u1_num_ref_bufs d - 1 \<rparr>, bm)
       }
   }"

text \<open>The two scans of the search for the nearest count: the rest of the slots, the least difference
  so far and its picture. A difference outside \<^verbatim>\<open>WORD32\<close> overflows.\<close>

fun nearest_before :: "pics \<Rightarrow> int \<Rightarrow> dpb_info list \<Rightarrow> int \<Rightarrow> nat option \<Rightarrow> nat option option" where
  "nearest_before h cur [] min_diff best = Some best"
| "nearest_before h cur (nd # nds) min_diff best =
     (case ps_pic_buf nd of
        None \<Rightarrow> nearest_before h cur nds min_diff best
      | Some a \<Rightarrow> do {
          pic \<leftarrow> h a;
          if u1_used_as_ref pic \<noteq> UNUSED_FOR_REF then do {
            require (in_w32 (cur - i4_abs_poc pic));
            let poc_diff = cur - i4_abs_poc pic;
            if poc_diff > 0 \<and> poc_diff < min_diff then nearest_before h cur nds poc_diff (Some a)
            else nearest_before h cur nds min_diff best
          } else nearest_before h cur nds min_diff best
        })"

fun nearest_abs :: "pics \<Rightarrow> int \<Rightarrow> dpb_info list \<Rightarrow> int \<Rightarrow> nat option \<Rightarrow> nat option option" where
  "nearest_abs h cur [] min_diff best = Some best"
| "nearest_abs h cur (nd # nds) min_diff best =
     (case ps_pic_buf nd of
        None \<Rightarrow> nearest_abs h cur nds min_diff best
      | Some a \<Rightarrow> do {
          pic \<leftarrow> h a;
          if u1_used_as_ref pic \<noteq> UNUSED_FOR_REF then do {
            require (in_w32 (cur - i4_abs_poc pic) \<and> in_w32 \<bar>cur - i4_abs_poc pic\<bar>);
            let poc_diff = cur - i4_abs_poc pic;
            if \<bar>poc_diff\<bar> < min_diff then nearest_abs h cur nds \<bar>poc_diff\<bar> (Some a)
            else nearest_abs h cur nds min_diff best
          } else nearest_abs h cur nds min_diff best
        })"

definition ihevc_dpb_mgr_get_ref_by_nearest_poc :: "dpb_mgr \<Rightarrow> pics \<Rightarrow> int \<Rightarrow> nat option option" where
  "ihevc_dpb_mgr_get_ref_by_nearest_poc d h cur = do {
     best \<leftarrow> nearest_before h cur (as_dpb_info d) 2147483647 None;
     if best = None then nearest_abs h cur (as_dpb_info d) 2147483647 None else Some best
   }"

text \<open>The search along the links, with \<open>n\<close> pictures to go.\<close>

fun find_ref :: "dpb_info list \<Rightarrow> pics \<Rightarrow> (pic_buf \<Rightarrow> bool) \<Rightarrow> nat \<Rightarrow> nat option \<Rightarrow> nat option option" where
  "find_ref nds h want 0 next = Some None"
| "find_ref nds h want (Suc n) next = do {
     i \<leftarrow> next;
     nd \<leftarrow> rd nds i;
     a \<leftarrow> ps_pic_buf nd;
     pic \<leftarrow> h a;
     if want pic then Some (Some a) else find_ref nds h want n (ps_prev_dpb nd)
   }"

definition ihevc_dpb_mgr_get_ref_by_poc :: "dpb_mgr \<Rightarrow> pics \<Rightarrow> int \<Rightarrow> nat option option" where
  "ihevc_dpb_mgr_get_ref_by_poc d h abs_poc =
     find_ref (as_dpb_info d) h (\<lambda>pic. i4_abs_poc pic = abs_poc) (unat (u1_num_ref_bufs d)) (ps_dpb_head d)"

definition ihevc_dpb_mgr_get_ref_by_poc_lsb :: "dpb_mgr \<Rightarrow> pics \<Rightarrow> int \<Rightarrow> nat option option" where
  "ihevc_dpb_mgr_get_ref_by_poc_lsb d h poc_lsb =
     find_ref (as_dpb_info d) h (\<lambda>pic. i4_poc_lsb pic = poc_lsb) (unat (u1_num_ref_bufs d)) (ps_dpb_head d)"

text \<open>The loop of the reset; it dereferences the picture of every slot.\<close>

fun reset_loop :: "pics \<Rightarrow> buf_mgr \<Rightarrow> dpb_info list \<Rightarrow> (pics \<times> buf_mgr \<times> dpb_info list) option" where
  "reset_loop h bm [] = Some (h, bm, [])"
| "reset_loop h bm (nd # nds) = do {
     a \<leftarrow> ps_pic_buf nd;
     pic \<leftarrow> h a;
     if u1_used_as_ref pic \<noteq> 0 then do {
       (_, bm) \<leftarrow> ihevc_buf_mgr_release bm (uint (u1_buf_id pic)) 2;
       (h, bm, nds) \<leftarrow> reset_loop (h(a \<mapsto> pic \<lparr> u1_used_as_ref := UNUSED_FOR_REF \<rparr>)) bm nds;
       Some (h, bm, \<lparr> ps_pic_buf = None, ps_prev_dpb = None \<rparr> # nds)
     } else do {
       (h, bm, nds) \<leftarrow> reset_loop h bm nds;
       Some (h, bm, nd # nds)
     }
   }"

definition ihevc_dpb_mgr_reset :: "dpb_mgr \<Rightarrow> buf_mgr \<Rightarrow> pics \<Rightarrow> (dpb_mgr \<times> buf_mgr \<times> pics) option" where
  "ihevc_dpb_mgr_reset d bm h = do {
     (h, bm, nds) \<leftarrow> reset_loop h bm (as_dpb_info d);
     Some (d \<lparr> as_dpb_info := nds, u1_num_ref_bufs := 0, ps_dpb_head := None \<rparr>, bm, h)
   }"

text \<open>The counter is a \<^verbatim>\<open>WORD8\<close>: from 128 on it would be negative, outside the status array.\<close>

fun release_loop :: "nat \<Rightarrow> int \<Rightarrow> buf_mgr \<Rightarrow> buf_mgr option" where
  "release_loop 0 i bm = Some bm"
| "release_loop (Suc n) i bm = do {
     st \<leftarrow> ihevc_buf_mgr_get_status bm i;
     bm \<leftarrow> (if st \<noteq> 0 then map_option snd (ihevc_buf_mgr_release bm i 2) else Some bm);
     release_loop n (i + 1) bm
   }"

definition ihevc_dpb_mgr_release_pics :: "buf_mgr \<Rightarrow> u8 \<Rightarrow> buf_mgr option" where
  "ihevc_dpb_mgr_release_pics bm u1_disp_bufs = release_loop (unat u1_disp_bufs) 0 bm"

section \<open>The links as a list of slots\<close>

fun chain :: "dpb_info list \<Rightarrow> nat option \<Rightarrow> nat list \<Rightarrow> bool" where
  "chain nds p [] \<longleftrightarrow> p = None"
| "chain nds p (i # is) \<longleftrightarrow> p = Some i \<and> i < length nds \<and> ps_pic_buf (nds ! i) \<noteq> None \<and>
     chain nds (ps_prev_dpb (nds ! i)) is"

fun follow :: "nat \<Rightarrow> dpb_info list \<Rightarrow> nat option \<Rightarrow> nat list" where
  "follow (Suc n) nds (Some i) = i # follow n nds (ps_prev_dpb (nds ! i))"
| "follow n nds p = []"

text \<open>The used slots and the pictures in them, the most recent first.\<close>

definition dpb_slots :: "dpb_mgr \<Rightarrow> nat list" where
  "dpb_slots d = follow (unat (u1_num_ref_bufs d)) (as_dpb_info d) (ps_dpb_head d)"

definition slot_pic :: "dpb_mgr \<Rightarrow> nat \<Rightarrow> nat" where
  "slot_pic d i = the (ps_pic_buf (as_dpb_info d ! i))"

definition dpb_refs :: "dpb_mgr \<Rightarrow> nat list" where
  "dpb_refs d = map (slot_pic d) (dpb_slots d)"

text \<open>The invariant, over the slots \<open>is\<close>: the links are a chain through exactly the slots with a
  picture, each once, and the count is right; no picture is in two slots.\<close>

definition dpb_links :: "dpb_mgr \<Rightarrow> nat list \<Rightarrow> bool" where
  "dpb_links d is \<longleftrightarrow> length (as_dpb_info d) = 64 \<and> chain (as_dpb_info d) (ps_dpb_head d) is \<and> distinct is \<and>
     unat (u1_num_ref_bufs d) = length is \<and> set is = {i. i < 64 \<and> ps_pic_buf (as_dpb_info d ! i) \<noteq> None} \<and>
     distinct (map (slot_pic d) is)"

definition dpb_ok :: "dpb_mgr \<Rightarrow> bool" where
  "dpb_ok d \<longleftrightarrow> dpb_links d (dpb_slots d)"

lemma chain_follow: "chain nds p is \<Longrightarrow> follow (length is) nds p = is"
  by (induction "is" arbitrary: p) auto

lemma dpb_links_ok: "dpb_links d is \<Longrightarrow> dpb_ok d \<and> dpb_slots d = is"
  using chain_follow by (auto simp: dpb_ok_def dpb_links_def dpb_slots_def)

lemma dpb_okD:
  assumes "dpb_ok d"
  shows "length (as_dpb_info d) = 64" "chain (as_dpb_info d) (ps_dpb_head d) (dpb_slots d)" "distinct (dpb_slots d)"
    "unat (u1_num_ref_bufs d) = length (dpb_slots d)"
    "set (dpb_slots d) = {i. i < 64 \<and> ps_pic_buf (as_dpb_info d ! i) \<noteq> None}" "distinct (dpb_refs d)"
  using assms by (auto simp: dpb_ok_def dpb_links_def dpb_refs_def)

lemma refs_iff: "dpb_ok d \<Longrightarrow> a \<in> set (dpb_refs d) \<longleftrightarrow> (\<exists>i < 64. ps_pic_buf (as_dpb_info d ! i) = Some a)"
  using dpb_okD(5) [of d] by (force simp: dpb_refs_def slot_pic_def)

lemma num_refs_le: "dpb_ok d \<Longrightarrow> length (dpb_refs d) \<le> 64"
  using dpb_okD [of d] distinct_card [of "dpb_slots d"] card_mono [of "{..<64 :: nat}" "set (dpb_slots d)"]
  by (auto simp: dpb_refs_def)

lemma chain_update: "i \<notin> set is \<Longrightarrow> chain (nds[i := v]) p is \<longleftrightarrow> chain nds p is"
  by (induction "is" arbitrary: p) auto

text \<open>Taking slot \<open>u\<close>, the one after \<open>m\<close>, out of the chain and then clearing it.\<close>

lemma chain_unlink:
  assumes "chain nds p (ys @ m # u # zs)" "distinct (ys @ m # u # zs)"
  shows "chain (nds[m := (nds ! m) \<lparr> ps_prev_dpb := ps_prev_dpb (nds ! u) \<rparr>, u := v]) p (ys @ m # zs)"
  using assms
proof (induction ys arbitrary: p)
  case Nil
  then show ?case by (auto simp: chain_update nth_list_update)
next
  case (Cons y ys)
  then have "y \<noteq> m" "y \<noteq> u" by auto
  then show ?case using Cons by auto
qed

lemma chain_link: "chain nds p (ys @ m # u # zs) \<Longrightarrow> ps_prev_dpb (nds ! m) = Some u"
  by (induction ys arbitrary: p) auto

section \<open>Searches\<close>

text \<open>Every picture of the buffer is in the heap.\<close>

definition pics_in :: "pics \<Rightarrow> dpb_mgr \<Rightarrow> bool" where
  "pics_in h d \<longleftrightarrow> (\<forall>a \<in> set (dpb_refs d). h a \<noteq> None)"

lemma find_ref_spec:
  assumes "chain nds p is" "\<forall>i \<in> set is. h (the (ps_pic_buf (nds ! i))) \<noteq> None"
  shows "find_ref nds h want (length is) p =
    Some (find (\<lambda>a. want (the (h a))) (map (\<lambda>i. the (ps_pic_buf (nds ! i))) is))"
  using assms by (induction "is" arbitrary: p) auto

lemma get_ref_spec:
  assumes "dpb_ok d" "pics_in h d"
  shows "find_ref (as_dpb_info d) h want (unat (u1_num_ref_bufs d)) (ps_dpb_head d) =
    Some (find (\<lambda>a. want (the (h a))) (dpb_refs d))"
  using find_ref_spec [OF dpb_okD(2) [OF assms(1)], of h want] assms(2) dpb_okD(4) [OF assms(1)]
  by (auto simp: dpb_refs_def slot_pic_def [abs_def] pics_in_def)

section \<open>Insertion\<close>

lemma present_scan_spec:
  assumes "\<forall>nd \<in> set nds. ps_pic_buf nd = Some a \<longrightarrow> h a = Some pic"
  shows "present_scan h (Some a) nds = Some ((\<exists>nd \<in> set nds. ps_pic_buf nd = Some a) \<and> u1_used_as_ref pic \<noteq> 0)"
  using assms by (induction nds) auto

lemma unused_scan_spec:
  "unused_scan nds \<le> length nds" "j < unused_scan nds \<Longrightarrow> ps_pic_buf (nds ! j) \<noteq> None"
  "unused_scan nds < length nds \<Longrightarrow> ps_pic_buf (nds ! unused_scan nds) = None"
  by (induction nds arbitrary: j) (auto split: if_splits simp: nth_Cons split: nat.splits)

lemma insert_spec:
  assumes ok: "dpb_ok d" and a: "h a = Some pic"
  shows "if a \<in> set (dpb_refs d) \<and> u1_used_as_ref pic \<noteq> 0 \<or> length (dpb_refs d) = 64
    then ihevc_dpb_mgr_insert_ref d h (Some a) buf_id = Some (- 1, d, h)
    else \<exists>d'. ihevc_dpb_mgr_insert_ref d h (Some a) buf_id =
        Some (0, d', h(a \<mapsto> pic \<lparr> u1_buf_id := word_of_int buf_id, u1_used_as_ref := 2 \<rparr>)) \<and>
      (a \<notin> set (dpb_refs d) \<longrightarrow> dpb_ok d' \<and> dpb_refs d' = a # dpb_refs d)"
proof -
  note D = dpb_okD [OF ok]
  let ?nds = "as_dpb_info d" and ?i = "unused_scan (as_dpb_info d)"
  have present: "present_scan h (Some a) ?nds = Some (a \<in> set (dpb_refs d) \<and> u1_used_as_ref pic \<noteq> 0)"
  proof -
    have "(\<exists>nd \<in> set ?nds. ps_pic_buf nd = Some a) \<longleftrightarrow> a \<in> set (dpb_refs d)"
      unfolding refs_iff [OF ok] using D(1) by (metis in_set_conv_nth)
    then show ?thesis using present_scan_spec [of ?nds a h pic] a by simp
  qed
  have full: "length (dpb_refs d) = 64 \<longleftrightarrow> ?i = 64"
  proof
    assume "length (dpb_refs d) = 64"
    then have "card (set (dpb_slots d)) = card {..<64 :: nat}" using distinct_card [OF D(3)] by (simp add: dpb_refs_def)
    then have "set (dpb_slots d) = {..<64}" using D(5) by (intro card_subset_eq) auto
    then have "ps_pic_buf (?nds ! j) \<noteq> None" if "j < 64" for j using D(5) that by blast
    then show "?i = 64" using unused_scan_spec(1,3) [of ?nds] D(1) by (metis le_neq_implies_less)
  next
    assume "?i = 64"
    then have "set (dpb_slots d) = {..<64}" using unused_scan_spec(2) [of _ ?nds] D(5) by auto
    then show "length (dpb_refs d) = 64" using distinct_card [OF D(3)] by (simp add: dpb_refs_def)
  qed
  show ?thesis
  proof (cases "a \<in> set (dpb_refs d) \<and> u1_used_as_ref pic \<noteq> 0 \<or> ?i = 64")
    case True
    then show ?thesis using full present by (auto simp: ihevc_dpb_mgr_insert_ref_def Let_def)
  next
    case False
    then have i: "?i < 64" using unused_scan_spec(1) [of ?nds] D(1) by simp
    let ?d = "d \<lparr> as_dpb_info := ?nds[?i := \<lparr> ps_pic_buf = Some a, ps_prev_dpb = ps_dpb_head d \<rparr>], ps_dpb_head := Some ?i,
        u1_num_ref_bufs := u1_num_ref_bufs d + 1 \<rparr>"
    have run: "ihevc_dpb_mgr_insert_ref d h (Some a) buf_id =
        Some (0, ?d, h(a \<mapsto> pic \<lparr> u1_buf_id := word_of_int buf_id, u1_used_as_ref := 2 \<rparr>))"
      using False i D(1) present a by (auto simp: ihevc_dpb_mgr_insert_ref_def Let_def)
    have fresh: "?i \<notin> set (dpb_slots d)" using unused_scan_spec(3) [of ?nds] i D(1,5) by simp
    have pics: "map (slot_pic ?d) (dpb_slots d) = dpb_refs d" "slot_pic ?d ?i = a"
    proof -
      have "slot_pic ?d j = slot_pic d j" if "j \<in> set (dpb_slots d)" for j
      proof -
        have "?i \<noteq> j" using fresh that by auto
        then show ?thesis by (simp add: slot_pic_def)
      qed
      then show "map (slot_pic ?d) (dpb_slots d) = dpb_refs d" by (simp add: dpb_refs_def)
      show "slot_pic ?d ?i = a" using i D(1) by (simp add: slot_pic_def)
    qed
    have "dpb_links ?d (?i # dpb_slots d)" if new: "a \<notin> set (dpb_refs d)"
      unfolding dpb_links_def
    proof (intro conjI)
      show "chain (as_dpb_info ?d) (ps_dpb_head ?d) (?i # dpb_slots d)"
        using D(1,2) i fresh by (simp add: chain_update)
      have "length (dpb_slots d) < 64" using False full num_refs_le [OF ok] by (auto simp: dpb_refs_def)
      then show "unat (u1_num_ref_bufs ?d) = length (?i # dpb_slots d)"
        using D(4) by (simp add: unat_word_ariths)
      show "set (?i # dpb_slots d) = {i. i < 64 \<and> ps_pic_buf (as_dpb_info ?d ! i) \<noteq> None}"
        using D(1,5) i by (auto simp: nth_update split: if_splits)
      show "distinct (map (slot_pic ?d) (?i # dpb_slots d))" using pics D(6) new by simp
    qed (use D(1,3) fresh in auto)
    from dpb_links_ok [OF this] pics
    have "a \<notin> set (dpb_refs d) \<longrightarrow> dpb_ok ?d \<and> dpb_refs ?d = a # dpb_refs d"
      by (simp add: dpb_refs_def)
    then show ?thesis using run False full by auto
  qed
qed

section \<open>Deletion\<close>

fun del_first :: "('a \<Rightarrow> bool) \<Rightarrow> 'a list \<Rightarrow> 'a list" where
  "del_first P [] = []"
| "del_first P (x # xs) = (if P x then xs else x # del_first P xs)"

lemma del_first_append: "\<forall>x \<in> set xs. \<not> P x \<Longrightarrow> P y \<Longrightarrow> del_first P (xs @ y # ys) = xs @ ys"
  by (induction xs) auto

lemma del_first_none: "\<forall>x \<in> set xs. \<not> P x \<Longrightarrow> del_first P xs = xs"
  by (induction xs) auto

lemma set_del_first: "set (del_first P xs) \<subseteq> set xs"
  by (induction xs) auto

lemma find_append: "\<forall>x \<in> set xs. \<not> P x \<Longrightarrow> P y \<Longrightarrow> find P (xs @ y # ys) = Some y"
  by (induction xs) auto

definition slot_poc :: "dpb_info list \<Rightarrow> pics \<Rightarrow> nat \<Rightarrow> int" where
  "slot_poc nds h i = i4_abs_poc (the (h (the (ps_pic_buf (nds ! i)))))"

lemma del_walk_none:
  assumes "chain nds (Some n) (n # is)" "\<forall>i \<in> set is. h (the (ps_pic_buf (nds ! i))) \<noteq> None"
    "\<forall>i \<in> set is. slot_poc nds h i \<noteq> p"
  shows "\<exists>m. del_walk nds h p (length is) n = Some (m, False)"
  using assms by (induction "is" arbitrary: n) (auto simp: slot_poc_def)

lemma del_walk_found:
  assumes "chain nds (Some n) (n # ys @ u # zs)" "\<forall>i \<in> set (ys @ [u]). h (the (ps_pic_buf (nds ! i))) \<noteq> None"
    "\<forall>i \<in> set ys. slot_poc nds h i \<noteq> p" "slot_poc nds h u = p"
  shows "del_walk nds h p (length (ys @ u # zs)) n = Some (last (n # ys), True)"
  using assms
proof (induction ys arbitrary: n)
  case Nil
  then show ?case by (auto simp: slot_poc_def)
next
  case (Cons y ys)
  then have "del_walk nds h p (length (ys @ u # zs)) y = Some (last (y # ys), True)" by simp
  moreover have "n < length nds" "ps_prev_dpb (nds ! n) = Some y" "y < length nds"
    using Cons.prems(1) by auto
  moreover obtain b pc where "ps_pic_buf (nds ! y) = Some b" "h b = Some pc" "i4_abs_poc pc \<noteq> p"
    using Cons.prems by (auto simp: slot_poc_def)
  moreover have "length ((y # ys) @ u # zs) = Suc (length (ys @ u # zs))" by simp
  ultimately show ?case by (simp only: del_walk.simps) simp
qed

lemma removed_links:
  assumes ok: "dpb_ok d" and slots: "dpb_slots d = xs @ u # zs" and len: "length nds = 64"
    and pics: "\<And>i. i < 64 \<Longrightarrow> ps_pic_buf (nds ! i) = (if i = u then None else ps_pic_buf (as_dpb_info d ! i))"
    and ch: "chain nds hp (xs @ zs)"
  defines "e \<equiv> d \<lparr> ps_dpb_head := hp, as_dpb_info := nds, u1_num_ref_bufs := u1_num_ref_bufs d - 1 \<rparr>"
  shows "dpb_ok e \<and> dpb_refs e = map (slot_pic d) (xs @ zs)"
proof -
  note D = dpb_okD [OF ok]
  have used: "i < 64" "i \<noteq> u" if "i \<in> set (xs @ zs)" for i
    using that D(3,5) slots by auto
  have same: "map (slot_pic e) (xs @ zs) = map (slot_pic d) (xs @ zs)"
    using used pics unfolding map_eq_conv by (simp add: slot_pic_def e_def)
  have "dpb_links e (xs @ zs)"
    unfolding dpb_links_def
  proof (intro conjI)
    have "u1_num_ref_bufs d \<noteq> 0" using D(4) slots by (metis length_0_conv append_is_Nil_conv list.distinct(1) unat_0)
    then show "unat (u1_num_ref_bufs e) = length (xs @ zs)"
      using D(4) slots by (simp add: e_def unat_minus_one)
    show "set (xs @ zs) = {i. i < 64 \<and> ps_pic_buf (as_dpb_info e ! i) \<noteq> None}"
    proof -
      have "{i. i < 64 \<and> ps_pic_buf (as_dpb_info e ! i) \<noteq> None} =
          {i. i < 64 \<and> ps_pic_buf (as_dpb_info d ! i) \<noteq> None} - {u}"
        using pics by (auto simp: e_def split: if_splits)
      also have "\<dots> = set (xs @ u # zs) - {u}" unfolding D(5) [symmetric] slots ..
      also have "\<dots> = set (xs @ zs)" using D(3) unfolding slots by auto
      finally show ?thesis by simp
    qed
    show "distinct (map (slot_pic e) (xs @ zs))" using D(6) slots unfolding same dpb_refs_def by auto
  qed (use D(3) slots len ch in \<open>auto simp: e_def\<close>)
  then show ?thesis using dpb_links_ok same by (auto simp: dpb_refs_def)
qed

text \<open>What the deletion of the picture in slot \<open>u\<close> leaves.\<close>

definition ref_id :: "pics \<Rightarrow> nat \<Rightarrow> nat" where
  "ref_id h a = unat (u1_buf_id (the (h a)))"

lemma dpb_del_spec:
  fixes poc :: int
  assumes ok: "dpb_ok d" and h: "pics_in h d" and bm: "bm_ok bm" and ne: "dpb_refs d \<noteq> []"
    and ids: "\<forall>a \<in> set (dpb_refs d). ref_id h a < 64"
  defines "P \<equiv> \<lambda>a. i4_abs_poc (the (h a)) = poc"
  shows "case find P (dpb_refs d) of
      None \<Rightarrow> ihevc_dpb_mgr_del_ref d bm h poc = Some (d, bm)
    | Some a \<Rightarrow> \<exists>d' bm'. ihevc_dpb_mgr_del_ref d bm h poc = Some (d', bm') \<and> dpb_ok d' \<and>
        dpb_refs d' = del_first P (dpb_refs d) \<and> bm_ok bm' \<and> apv_ptr bm' = apv_ptr bm \<and>
        held bm' = (held bm)(ref_id h a := released (held bm (ref_id h a)) {REF}) \<and>
        (\<forall>j < 64. ps_pic_buf (as_dpb_info d' ! j) \<in> {None, ps_pic_buf (as_dpb_info d ! j)})"
proof -
  note D = dpb_okD [OF ok]
  let ?nds = "as_dpb_info d"
  obtain n "is" where slots: "dpb_slots d = n # is" using ne by (auto simp: dpb_refs_def neq_Nil_conv)
  have refs: "dpb_refs d = map (slot_pic d) (n # is)" by (simp add: dpb_refs_def slots)
  have hd: "ps_dpb_head d = Some n" "n < 64" "chain ?nds (Some n) (n # is)" using D(1,2) slots by auto
  have num: "unat (u1_num_ref_bufs d) - 1 = length is" "u1_num_ref_bufs d \<noteq> 0"
    using D(4) slots by (simp, metis length_Cons nat.distinct(1) unat_0)
  have pic: "ps_pic_buf (?nds ! i) = Some (slot_pic d i)" "h (slot_pic d i) \<noteq> None" "ref_id h (slot_pic d i) < 64" "i < 64"
    if "i \<in> set (n # is)" for i
  proof -
    show "ps_pic_buf (?nds ! i) = Some (slot_pic d i)" "i < 64"
      using that unfolding slots [symmetric] D(5) by (auto simp: slot_pic_def)
    show "h (slot_pic d i) \<noteq> None" "ref_id h (slot_pic d i) < 64"
      using that h ids unfolding pics_in_def refs by auto
  qed
  have alloc: "\<forall>i \<in> set is. h (the (ps_pic_buf (?nds ! i))) \<noteq> None" using pic(1,2) by simp
  have poc: "slot_poc ?nds h i = i4_abs_poc (the (h (slot_pic d i)))" for i by (simp add: slot_poc_def slot_pic_def)
  have rel: "\<exists>bm'. ihevc_buf_mgr_release bm (uint (u1_buf_id (the (h (slot_pic d i))))) 2 = Some (0, bm') \<and> bm_ok bm' \<and>
      apv_ptr bm' = apv_ptr bm \<and>
      held bm' = (held bm)(ref_id h (slot_pic d i) := released (held bm (ref_id h (slot_pic d i))) {REF})"
    if i: "i \<in> set (n # is)" for i
  proof -
    have u: "uint (u1_buf_id (the (h (slot_pic d i)))) = int (ref_id h (slot_pic d i))" by (simp add: ref_id_def)
    have "held bm (ref_id h (slot_pic d i)) - {REF} \<noteq> {REF}" by auto
    then show ?thesis
      unfolding u using bm_release_spec [OF bm, of "int (ref_id h (slot_pic d i))" 2] pic(3) [OF i] by simp
  qed
  show ?thesis
  proof (cases "P (slot_pic d n)")
    case True
    have run: "del_target d h poc = Some (Some (n, n))"
      using hd D(1) pic(1,2) [of n] True by (auto simp: del_target_def P_def)
    obtain bm' where r: "ihevc_buf_mgr_release bm (uint (u1_buf_id (the (h (slot_pic d n))))) 2 = Some (0, bm')" "bm_ok bm'"
        "apv_ptr bm' = apv_ptr bm" "held bm' = (held bm)(ref_id h (slot_pic d n) := released (held bm (ref_id h (slot_pic d n))) {REF})"
      using rel [of n] by auto
    let ?c = "?nds[n := \<lparr> ps_pic_buf = None, ps_prev_dpb = None \<rparr>]"
    let ?d = "d \<lparr> ps_dpb_head := ps_prev_dpb (?nds ! n), as_dpb_info := ?c, u1_num_ref_bufs := u1_num_ref_bufs d - 1 \<rparr>"
    have "ihevc_dpb_mgr_del_ref d bm h poc = Some (?d, bm')"
      using run hd D(1) pic(1,2) [of n] r(1) by (auto simp: ihevc_dpb_mgr_del_ref_def)
    moreover have "dpb_ok ?d \<and> dpb_refs ?d = map (slot_pic d) ([] @ is)"
    proof (rule removed_links [OF ok])
      show "dpb_slots d = [] @ n # is" by (simp add: slots)
      show "chain ?c (ps_prev_dpb (?nds ! n)) ([] @ is)" using hd(3) D(3) slots by (simp add: chain_update)
    qed (use D(1) in \<open>simp_all add: nth_update\<close>)
    ultimately show ?thesis using True r(2-) refs D(1) by (simp add: find.simps nth_update)
  next
    case False
    show ?thesis
    proof (cases "\<exists>i \<in> set is. P (slot_pic d i)")
      case no: False
      obtain m where "del_walk ?nds h poc (length is) n = Some (m, False)"
        using del_walk_none [OF hd(3) alloc, of poc] no by (auto simp: poc P_def)
      then have "ihevc_dpb_mgr_del_ref d bm h poc = Some (d, bm)"
        using hd D(1) pic(1,2) [of n] False num by (auto simp: ihevc_dpb_mgr_del_ref_def del_target_def P_def)
      moreover have "find P (dpb_refs d) = None" using False no by (auto simp: refs find_None_iff)
      ultimately show ?thesis by simp
    next
      case True
      then obtain ys u zs where split: "is = ys @ u # zs" "P (slot_pic d u)" "\<forall>i \<in> set ys. \<not> P (slot_pic d i)"
        using split_list_first_prop [of "is" "\<lambda>i. P (slot_pic d i)"] by blast
      define m where "m = last (n # ys)"
      obtain xs where xs: "n # ys = xs @ [m]" unfolding m_def by (metis append_butlast_last_id list.distinct(1))
      have all: "n # is = xs @ m # u # zs" using split(1) xs by (metis append_Cons append_assoc append_Nil)
      have mem: "u \<in> set (n # is)" "m \<in> set (n # is)" unfolding all by simp_all
      have dist: "distinct (xs @ m # u # zs)" using D(3) slots all by simp
      have walk: "del_walk ?nds h poc (length is) n = Some (m, True)"
        unfolding m_def split(1)
        by (rule del_walk_found) (use hd(3) split alloc in \<open>auto simp: poc P_def\<close>)
      have link: "ps_prev_dpb (?nds ! m) = Some u"
        using hd(3) unfolding all by (rule chain_link)
      have run: "del_target d h poc = Some (Some (m, u))"
        using hd D(1) pic(1,2) [of n] pic(4) [OF mem(2)] False num walk link by (auto simp: del_target_def P_def)
      obtain bm' where r: "ihevc_buf_mgr_release bm (uint (u1_buf_id (the (h (slot_pic d u))))) 2 = Some (0, bm')" "bm_ok bm'"
          "apv_ptr bm' = apv_ptr bm" "held bm' = (held bm)(ref_id h (slot_pic d u) := released (held bm (ref_id h (slot_pic d u))) {REF})"
        using rel [OF mem(1)] by auto
      let ?c = "?nds[m := (?nds ! m) \<lparr> ps_prev_dpb := ps_prev_dpb (?nds ! u) \<rparr>, u := \<lparr> ps_pic_buf = None, ps_prev_dpb = None \<rparr>]"
      let ?d = "d \<lparr> ps_dpb_head := Some n, as_dpb_info := ?c, u1_num_ref_bufs := u1_num_ref_bufs d - 1 \<rparr>"
      have "u \<noteq> n" using D(3) slots split(1) by auto
      then have go: "ihevc_dpb_mgr_del_ref d bm h poc = Some (?d, bm')"
        using run hd D(1) pic(1,2) [OF mem(1)] pic(4) [OF mem(1)] pic(4) [OF mem(2)] r(1)
        by (auto simp: ihevc_dpb_mgr_del_ref_def)
      have rest: "dpb_ok ?d \<and> dpb_refs ?d = map (slot_pic d) ((xs @ [m]) @ zs)"
      proof (rule removed_links [OF ok])
        show "dpb_slots d = (xs @ [m]) @ u # zs" using slots all by simp
        show "chain ?c (Some n) ((xs @ [m]) @ zs)"
          using chain_unlink [of ?nds "Some n" xs m u zs] hd(3) dist unfolding all by simp
        show "ps_pic_buf (?c ! i) = (if i = u then None else ps_pic_buf (?nds ! i))" if "i < 64" for i
          using that D(1) by (simp add: nth_update)
      qed (use D(1) in simp)
      have nP: "\<forall>a \<in> set (map (slot_pic d) (xs @ [m])). \<not> P a" using xs [symmetric] False split(3) by simp
      have refs': "dpb_refs d = map (slot_pic d) (xs @ [m]) @ slot_pic d u # map (slot_pic d) zs"
        unfolding refs all by simp
      have "find P (dpb_refs d) = Some (slot_pic d u)" unfolding refs' by (rule find_append [OF nP split(2)])
      moreover have "del_first P (dpb_refs d) = map (slot_pic d) ((xs @ [m]) @ zs)"
        unfolding refs' map_append [of _ "xs @ [m]" zs] by (rule del_first_append [OF nP split(2)])
      ultimately show ?thesis using go rest r(2-) D(1) by (simp add: nth_update)
    qed
  qed
qed

section \<open>The decoder's use of the two managers\<close>

text \<open>The end of a picture in \<^verbatim>\<open>ihevcd_decode\<close>: its buffer is marked as needed for reference and for
  display, and the picture enters the decoded picture buffer.\<close>

definition mark_cur_pic :: "dpb_mgr \<Rightarrow> buf_mgr \<Rightarrow> pics \<Rightarrow> nat option \<Rightarrow> int \<Rightarrow> (dpb_mgr \<times> buf_mgr \<times> pics) option" where
  "mark_cur_pic d b h ps_cur_pic i4_cur_pic_buf_id = do {
     (_, b) \<leftarrow> ihevc_buf_mgr_set_status b i4_cur_pic_buf_id 2;
     (_, b) \<leftarrow> ihevc_buf_mgr_set_status b i4_cur_pic_buf_id 4;
     (_, d, h) \<leftarrow> ihevc_dpb_mgr_insert_ref d h ps_cur_pic i4_cur_pic_buf_id;
     Some (d, b, h)
   }"

text \<open>What the decoder does with the managers: it starts with buffers nobody holds, each picture
  structure added once; it requests a buffer and sets up its picture; it ends the picture it
  decodes, whose buffer only the decoder holds; it deletes a reference; it changes the reference
  marking of a picture; it gives up holds other than the reference. The hold for display that the
  decoder takes besides when the application shares its display buffers (\<^verbatim>\<open>ihevcd_api.c\<close>) is not a step.\<close>

definition fresh_bufs :: "buf_mgr \<Rightarrow> bool" where
  "fresh_bufs b \<longleftrightarrow> bm_ok b \<and> (\<forall>i. held b i = {}) \<and>
     (\<forall>i < 64. \<forall>j < 64. apv_ptr b ! i = apv_ptr b ! j \<longrightarrow> apv_ptr b ! i \<noteq> None \<longrightarrow> i = j)"

inductive dec_reach :: "dpb_mgr \<Rightarrow> buf_mgr \<Rightarrow> pics \<Rightarrow> bool" where
  dec_start: "fresh_bufs b \<Longrightarrow> dec_reach (ihevc_dpb_mgr_init d) b h"
| dec_alloc: "dec_reach d b h \<Longrightarrow> ihevc_buf_mgr_get_next_free b = Some (Some p, Some i, b') \<Longrightarrow> dec_reach d b' (h(p \<mapsto> pic))"
| dec_finish: "dec_reach d b h \<Longrightarrow> i < 64 \<Longrightarrow> held b i = {DEC} \<Longrightarrow>
    mark_cur_pic d b h (apv_ptr b ! i) (int i) = Some (d', b', h') \<Longrightarrow> dec_reach d' b' h'"
| dec_delete: "dec_reach d b h \<Longrightarrow> ihevc_dpb_mgr_del_ref d b h poc = Some (d', b') \<Longrightarrow> dec_reach d' b' h"
| dec_mark: "dec_reach d b h \<Longrightarrow> h a = Some pic \<Longrightarrow> dec_reach d b (h(a \<mapsto> pic \<lparr> u1_used_as_ref := v \<rparr>))"
| dec_release: "dec_reach d b h \<Longrightarrow> REF \<notin> holders msk \<Longrightarrow> ihevc_buf_mgr_release b i msk = Some (r, b') \<Longrightarrow>
    dec_reach d b' h"

text \<open>The invariant of the two managers together: a buffer has the reference hold exactly when its
  picture is in the decoded picture buffer, under the id the picture carries.\<close>

definition dec_inv :: "dpb_mgr \<Rightarrow> buf_mgr \<Rightarrow> pics \<Rightarrow> bool" where
  "dec_inv d b h \<longleftrightarrow> dpb_ok d \<and> bm_ok b \<and>
     (\<forall>a \<in> set (dpb_refs d). h a \<noteq> None \<and> ref_id h a < 64 \<and> apv_ptr b ! ref_id h a = Some a) \<and>
     (\<forall>i < 64. REF \<in> held b i \<longleftrightarrow> (\<exists>a \<in> set (dpb_refs d). ref_id h a = i)) \<and>
     (\<forall>i < 64. held b i \<noteq> {} \<longrightarrow> (\<exists>p. apv_ptr b ! i = Some p \<and> h p \<noteq> None)) \<and>
     (\<forall>i < 64. \<forall>j < 64. apv_ptr b ! i = apv_ptr b ! j \<longrightarrow> apv_ptr b ! i \<noteq> None \<longrightarrow> i = j)"

lemma dec_invD:
  assumes "dec_inv d b h"
  shows "dpb_ok d" "bm_ok b"
    "a \<in> set (dpb_refs d) \<Longrightarrow> h a \<noteq> None \<and> ref_id h a < 64 \<and> apv_ptr b ! ref_id h a = Some a"
    "i < 64 \<Longrightarrow> REF \<in> held b i \<longleftrightarrow> (\<exists>a \<in> set (dpb_refs d). ref_id h a = i)"
    "i < 64 \<Longrightarrow> held b i \<noteq> {} \<Longrightarrow> \<exists>p. apv_ptr b ! i = Some p \<and> h p \<noteq> None"
    "i < 64 \<Longrightarrow> j < 64 \<Longrightarrow> apv_ptr b ! i = apv_ptr b ! j \<Longrightarrow> apv_ptr b ! i \<noteq> None \<Longrightarrow> i = j"
    "pics_in h d"
  using assms unfolding dec_inv_def pics_in_def by blast+

lemma ref_id_inj:
  assumes "dec_inv d b h" "a \<in> set (dpb_refs d)" "x \<in> set (dpb_refs d)" and eq: "ref_id h a = ref_id h x"
  shows "a = x"
proof -
  have "apv_ptr b ! ref_id h a = Some a" "apv_ptr b ! ref_id h x = Some x"
    using dec_invD(3) [OF assms(1)] assms(2,3) by blast+
  then show ?thesis unfolding eq by (metis option.inject)
qed

lemma init_dpb: "dpb_ok (ihevc_dpb_mgr_init d)" "dpb_refs (ihevc_dpb_mgr_init d) = []"
proof -
  have "dpb_links (ihevc_dpb_mgr_init d) []" by (auto simp: dpb_links_def ihevc_dpb_mgr_init_def)
  from dpb_links_ok [OF this] show "dpb_ok (ihevc_dpb_mgr_init d)" "dpb_refs (ihevc_dpb_mgr_init d) = []"
    by (auto simp: dpb_refs_def)
qed

text \<open>An empty buffer has a null head.\<close>

lemma del_empty: "dpb_ok d \<Longrightarrow> dpb_refs d = [] \<Longrightarrow> ihevc_dpb_mgr_del_ref d b h poc = None"
  using dpb_okD(2) [of d] by (auto simp: dpb_refs_def ihevc_dpb_mgr_del_ref_def del_target_def)

lemma inv_start: "fresh_bufs b \<Longrightarrow> dec_inv (ihevc_dpb_mgr_init d) b h"
  using init_dpb by (auto simp: dec_inv_def fresh_bufs_def)

lemma inv_alloc:
  assumes inv: "dec_inv d b h" and get: "ihevc_buf_mgr_get_next_free b = Some (Some p, Some i, b')"
  shows "dec_inv d b' (h(p \<mapsto> pic))"
proof -
  note I = dec_invD [OF inv]
  from bm_get_next_free_spec [OF I(2)] get
  have i: "is_free b i" "apv_ptr b ! i = Some p" "b' = b \<lparr> au4_status := (au4_status b)[i := 1] \<rparr>" by auto
  have i64: "i < 64" "held b i = {}" using i(1) by (auto simp: is_free_def)
  have b': "bm_ok b'" "apv_ptr b' = apv_ptr b" "held b' = (held b)(i := {DEC})"
    using bm_ok_update [OF I(2), of 1 i] held_update [OF bm_okD(3) [OF I(2)] i64(1), of 1] i(3)
    by (auto simp: fun_eq_iff)
  have other: "a \<noteq> p" if a: "a \<in> set (dpb_refs d)" for a
  proof
    assume "a = p"
    then have "ref_id h a = i" using I(6) [of "ref_id h a" i] I(3) [OF a] i(2) i64(1) by simp
    then have "REF \<in> held b i" using I(4) [OF i64(1)] a by blast
    then show False using i64(2) by simp
  qed
  have same: "ref_id (h(p \<mapsto> pic)) a = ref_id h a" if "a \<in> set (dpb_refs d)" for a
    using other [OF that] by (simp add: ref_id_def)
  show ?thesis unfolding dec_inv_def b'(2,3)
  proof (intro conjI ballI allI impI)
    fix k :: nat assume k: "k < 64"
    show "REF \<in> ((held b)(i := {DEC})) k \<longleftrightarrow> (\<exists>a \<in> set (dpb_refs d). ref_id (h(p \<mapsto> pic)) a = k)"
      using I(4) [OF k] same i64(2) by auto
    assume "((held b)(i := {DEC})) k \<noteq> {}"
    then show "\<exists>pa. apv_ptr b ! k = Some pa \<and> (h(p \<mapsto> pic)) pa \<noteq> None"
      using I(5) [OF k] i(2) by (cases "k = i") auto
  qed (use I b' same other in auto)
qed

lemma inv_heap:
  assumes inv: "dec_inv d b h" and "\<And>a. h a \<noteq> None \<Longrightarrow> h' a \<noteq> None" "\<And>a. a \<in> set (dpb_refs d) \<Longrightarrow> ref_id h' a = ref_id h a"
  shows "dec_inv d b h'"
  unfolding dec_inv_def
proof (intro conjI ballI allI impI)
  note I = dec_invD [OF inv]
  show "dpb_ok d" "bm_ok b" by (rule I)+
  fix a assume a: "a \<in> set (dpb_refs d)"
  show "h' a \<noteq> None" "ref_id h' a < 64" "apv_ptr b ! ref_id h' a = Some a"
    using I(3) [OF a] assms(2) [of a] assms(3) [OF a] by simp_all
next
  note I = dec_invD [OF inv]
  fix i :: nat assume i: "i < 64"
  show "REF \<in> held b i \<longleftrightarrow> (\<exists>a \<in> set (dpb_refs d). ref_id h' a = i)" using I(4) [OF i] assms(3) by auto
  show "\<exists>p. apv_ptr b ! i = Some p \<and> h' p \<noteq> None" if "held b i \<noteq> {}" using I(5) [OF i that] assms(2) by blast
  show "i = j" if "j < 64" "apv_ptr b ! i = apv_ptr b ! j" "apv_ptr b ! i \<noteq> None" for j
    by (rule I(6) [OF i that])
qed

lemma inv_release:
  assumes inv: "dec_inv d b h" and m: "REF \<notin> holders msk" and run: "ihevc_buf_mgr_release b i msk = Some (r, b')"
  shows "dec_inv d b' h"
proof (cases "0 \<le> i \<and> i < 64")
  case False
  then show ?thesis using bm_out_of_range(2) [OF dec_invD(2) [OF inv] False, of msk] run inv by auto
next
  case True
  note I = dec_invD [OF inv]
  have b': "bm_ok b'" "apv_ptr b' = apv_ptr b" "held b' = (held b)(nat i := released (held b (nat i)) (holders msk))"
    using bm_release_spec [OF I(2), of i msk] True run by (auto split: if_splits)
  have r: "REF \<in> held b' k \<longleftrightarrow> REF \<in> held b k" "held b' k \<noteq> {} \<Longrightarrow> held b k \<noteq> {}" for k
    using m unfolding b'(3) by (auto simp: released_def split: if_splits)
  show ?thesis
    unfolding dec_inv_def b'(2) r(1)
  proof (intro conjI ballI allI impI)
    show "\<exists>p. apv_ptr b ! k = Some p \<and> h p \<noteq> None" if "k < 64" "held b' k \<noteq> {}" for k
      by (rule I(5) [OF that(1) r(2) [OF that(2)]])
  qed (use I(1-4,6) b'(1) in blast)+
qed

lemma inv_delete:
  assumes inv: "dec_inv d b h" and del: "ihevc_dpb_mgr_del_ref d b h poc = Some (d', b')"
  shows "dec_inv d' b' h"
proof -
  note I = dec_invD [OF inv]
  let ?P = "\<lambda>a. i4_abs_poc (the (h a)) = poc"
  have ne: "dpb_refs d \<noteq> []" using del_empty [OF I(1)] del by auto
  have spec: "case find ?P (dpb_refs d) of
      None \<Rightarrow> ihevc_dpb_mgr_del_ref d b h poc = Some (d, b)
    | Some a \<Rightarrow> \<exists>d' bm'. ihevc_dpb_mgr_del_ref d b h poc = Some (d', bm') \<and> dpb_ok d' \<and>
        dpb_refs d' = del_first ?P (dpb_refs d) \<and> bm_ok bm' \<and> apv_ptr bm' = apv_ptr b \<and>
        held bm' = (held b)(ref_id h a := released (held b (ref_id h a)) {REF}) \<and>
        (\<forall>j < 64. ps_pic_buf (as_dpb_info d' ! j) \<in> {None, ps_pic_buf (as_dpb_info d ! j)})"
    by (rule dpb_del_spec [OF I(1,7,2) ne]) (use I(3) in blast)
  show ?thesis
  proof (cases "find ?P (dpb_refs d)")
    case None
    then show ?thesis using spec del inv by simp
  next
    case (Some a)
    obtain e c where e: "ihevc_dpb_mgr_del_ref d b h poc = Some (e, c)" "dpb_ok e"
        "dpb_refs e = del_first ?P (dpb_refs d)" "bm_ok c" "apv_ptr c = apv_ptr b"
        "held c = (held b)(ref_id h a := released (held b (ref_id h a)) {REF})"
      using spec [unfolded Some option.case] by blast
    have "e = d'" "c = b'" using e(1) del by simp_all
    note d' = e(2-) [unfolded this]
    have nP: "\<exists>x \<in> set (dpb_refs d). ?P x" using Some find_None_iff [of ?P "dpb_refs d"] by auto
    then obtain xs y ys where split: "dpb_refs d = xs @ y # ys" "?P y" "\<forall>x \<in> set xs. \<not> ?P x"
      using split_list_first_prop [of "dpb_refs d" ?P] by blast
    then have ay: "a = y" using Some find_append [OF split(3,2)] by simp
    have refs': "dpb_refs d' = xs @ ys" unfolding d'(2) split(1) by (rule del_first_append [OF split(3,2)])
    have dist: "a \<notin> set (xs @ ys)" using dpb_okD(6) [OF I(1)] unfolding split(1) ay by simp
    have set: "set (dpb_refs d) = insert a (set (dpb_refs d'))" unfolding refs' split(1) ay by auto
    have ids: "ref_id h x \<noteq> ref_id h a" if "x \<in> set (dpb_refs d')" for x
    proof
      assume eq: "ref_id h x = ref_id h a"
      have "x \<in> set (dpb_refs d)" "a \<in> set (dpb_refs d)" using that unfolding set by simp_all
      then have "x = a" using ref_id_inj [OF inv _ _ eq] by blast
      then show False using that dist unfolding refs' by simp
    qed
    have r: "REF \<in> held b' k \<longleftrightarrow> REF \<in> held b k \<and> k \<noteq> ref_id h a" "held b' k \<noteq> {} \<Longrightarrow> held b k \<noteq> {}" for k
      unfolding d'(5) by (auto simp: released_def split: if_splits)
    show ?thesis
      unfolding dec_inv_def d'(4) r(1)
    proof (intro conjI ballI allI impI)
      fix k :: nat assume k: "k < 64"
      show "(REF \<in> held b k \<and> k \<noteq> ref_id h a) \<longleftrightarrow> (\<exists>x \<in> set (dpb_refs d'). ref_id h x = k)"
      proof -
        have "(\<exists>x \<in> set (dpb_refs d). ref_id h x = k) \<longleftrightarrow> k = ref_id h a \<or> (\<exists>x \<in> set (dpb_refs d'). ref_id h x = k)"
          unfolding set by auto
        then show ?thesis unfolding I(4) [OF k] using ids by blast
      qed
      show "\<exists>p. apv_ptr b ! k = Some p \<and> h p \<noteq> None" if "held b' k \<noteq> {}"
        by (rule I(5) [OF k r(2) [OF that]])
      show "k = j" if "j < 64" "apv_ptr b ! k = apv_ptr b ! j" "apv_ptr b ! k \<noteq> None" for j
        by (rule I(6) [OF k that])
    next
      fix x assume "x \<in> set (dpb_refs d')"
      then have x: "x \<in> set (dpb_refs d)" unfolding set by blast
      show "h x \<noteq> None" "ref_id h x < 64" "apv_ptr b ! ref_id h x = Some x" using I(3) [OF x] by blast+
    qed (rule d')+
  qed
qed

lemma mark_cur_pic_spec:
  assumes inv: "dec_inv d b h" and i: "i < 64" and held: "held b i = {DEC}"
  shows "\<exists>p d' b' h'. apv_ptr b ! i = Some p \<and> mark_cur_pic d b h (apv_ptr b ! i) (int i) = Some (d', b', h') \<and>
    dpb_refs d' = p # dpb_refs d \<and> held b' = (held b)(i := {DEC, REF, DISP}) \<and> dec_inv d' b' h' \<and>
    i4_abs_poc (the (h' p)) = i4_abs_poc (the (h p)) \<and> u1_used_as_ref (the (h' p)) = SHORT_TERM_REF"
proof -
  note I = dec_invD [OF inv]
  obtain p pic where p: "apv_ptr b ! i = Some p" "h p = Some pic" using I(5) [OF i] held by auto
  have ii: "0 \<le> int i" "int i < 64" using i by simp_all
  obtain b1 where b1: "ihevc_buf_mgr_set_status b (int i) 2 = Some (0, b1)" "bm_ok b1" "apv_ptr b1 = apv_ptr b"
      "held b1 = (held b)(i := {DEC, REF})"
    using bm_set_status_spec [OF I(2) ii, of 2] held by (auto simp: insert_commute)
  have "held b1 i \<union> {DISP} \<noteq> {REF}" unfolding b1(4) by auto
  then obtain b2 where b2: "ihevc_buf_mgr_set_status b1 (int i) 4 = Some (0, b2)" "bm_ok b2" "apv_ptr b2 = apv_ptr b"
      "held b2 = (held b)(i := {DEC, REF, DISP})"
    using bm_set_status_spec [OF b1(2) ii, of 4] b1(3,4) by (auto simp: insert_commute)
  have new: "p \<notin> set (dpb_refs d)"
  proof
    assume a: "p \<in> set (dpb_refs d)"
    have "ref_id h p = i" using I(6) [of "ref_id h p" i] I(3) [OF a] p(1) i by simp
    then show False using I(4) [OF i] a held by auto
  qed
  have used: "ref_id h a \<noteq> i" if "a \<in> set (dpb_refs d)" for a using I(4) [OF i] that held by auto
  have "length (dpb_refs d) \<noteq> 64"
  proof
    assume full: "length (dpb_refs d) = 64"
    have inj: "inj_on (ref_id h) (set (dpb_refs d))" 
      by (rule inj_onI) (rule ref_id_inj [OF inv])
    have "card (ref_id h ` set (dpb_refs d)) = 64"
      using card_image [OF inj] distinct_card [OF dpb_okD(6) [OF I(1)]] full by simp
    moreover have "ref_id h ` set (dpb_refs d) \<subseteq> {..<64} - {i}" using I(3) used by auto
    then have "card (ref_id h ` set (dpb_refs d)) \<le> card ({..<64 :: nat} - {i})" by (intro card_mono) auto
    ultimately show False using i by simp
  qed
  then obtain d' where d': "ihevc_dpb_mgr_insert_ref d h (Some p) (int i) =
      Some (0, d', h(p \<mapsto> pic \<lparr> u1_buf_id := word_of_int (int i), u1_used_as_ref := 2 \<rparr>))" "dpb_ok d'"
      "dpb_refs d' = p # dpb_refs d"
    using insert_spec [where a = p and h = h and pic = pic and buf_id = "int i", OF I(1) p(2)] new by auto
  let ?h = "h(p \<mapsto> pic \<lparr> u1_buf_id := word_of_int (int i), u1_used_as_ref := 2 \<rparr>)"
  have "mark_cur_pic d b h (apv_ptr b ! i) (int i) = Some (d', b2, ?h)"
    using b1(1) b2(1) d'(1) p(1) by (simp add: mark_cur_pic_def)
  moreover have ids: "ref_id ?h p = i" "\<And>a. a \<in> set (dpb_refs d) \<Longrightarrow> ref_id ?h a = ref_id h a"
    using new i by (auto simp: ref_id_def unat_of_nat)
  have "dec_inv d' b2 ?h"
    unfolding dec_inv_def b2(3,4) d'(3)
  proof (intro conjI ballI allI impI)
    fix k :: nat assume k: "k < 64"
    show "REF \<in> ((held b)(i := {DEC, REF, DISP})) k \<longleftrightarrow> (\<exists>a \<in> set (p # dpb_refs d). ref_id ?h a = k)"
      using I(4) [OF k] ids used by auto
    show "\<exists>q. apv_ptr b ! k = Some q \<and> ?h q \<noteq> None" if "((held b)(i := {DEC, REF, DISP})) k \<noteq> {}"
      using I(5) [OF k] p(1) that by (cases "k = i") auto
    show "k = j" if "j < 64" "apv_ptr b ! k = apv_ptr b ! j" "apv_ptr b ! k \<noteq> None" for j
      by (rule I(6) [OF k that])
  next
    fix a assume "a \<in> set (p # dpb_refs d)"
    then consider "a = p" | "a \<in> set (dpb_refs d)" by auto
    then show "?h a \<noteq> None" "ref_id ?h a < 64" "apv_ptr b ! ref_id ?h a = Some a"
      by (cases; use ids i p(1) I(3) [of a] in simp)+
  qed (rule d' b2)+
  moreover have "i4_abs_poc (the (?h p)) = i4_abs_poc (the (h p))" "u1_used_as_ref (the (?h p)) = SHORT_TERM_REF"
    using p(2) by simp_all
  ultimately show ?thesis using p(1) d'(3) b2(4) by blast
qed

lemma dec_reach_inv: "dec_reach d b h \<Longrightarrow> dec_inv d b h"
proof (induction rule: dec_reach.induct)
  case (dec_start b d h)
  then show ?case by (rule inv_start)
next
  case (dec_alloc d b h p i b' pic)
  show ?case by (rule inv_alloc [OF dec_alloc.IH dec_alloc.hyps(2)])
next
  case (dec_finish d b h i d' b' h')
  then show ?case using mark_cur_pic_spec [OF dec_finish.IH dec_finish.hyps(2,3)] by auto
next
  case (dec_delete d b h poc d' b')
  show ?case by (rule inv_delete [OF dec_delete.IH dec_delete.hyps(2)])
next
  case (dec_mark d b h a pic v)
  show ?case by (rule inv_heap [OF dec_mark.IH]) (use dec_mark.hyps(2) in \<open>auto simp: ref_id_def\<close>)
next
  case (dec_release d b h msk i r b')
  show ?case by (rule inv_release [OF dec_release.IH dec_release.hyps(2,3)])
qed

section \<open>The nearest count\<close>

text \<open>The pictures marked as reference, in slot order.\<close>

definition marked :: "pics \<Rightarrow> dpb_info list \<Rightarrow> nat set" where
  "marked h nds = {a. \<exists>nd \<in> set nds. ps_pic_buf nd = Some a \<and> u1_used_as_ref (the (h a)) \<noteq> 0}"

definition poc_gap :: "pics \<Rightarrow> int \<Rightarrow> nat \<Rightarrow> int" where
  "poc_gap h cur a = cur - i4_abs_poc (the (h a))"

definition gaps_ok :: "pics \<Rightarrow> int \<Rightarrow> dpb_info list \<Rightarrow> bool" where
  "gaps_ok h cur nds \<longleftrightarrow> (\<forall>nd \<in> set nds. \<forall>a. ps_pic_buf nd = Some a \<longrightarrow> h a \<noteq> None \<and>
     \<bar>cur - i4_abs_poc (the (h a))\<bar> \<le> 2147483647)"

lemma in_w32_gap [simp]: "\<bar>x\<bar> \<le> 2147483647 \<Longrightarrow> in_w32 x" "\<bar>x\<bar> \<le> 2147483647 \<Longrightarrow> in_w32 \<bar>x\<bar>"
  by (auto simp: in_w32_def)

lemma nearest_before_spec:
  assumes "gaps_ok h cur nds"
  shows "\<exists>r. nearest_before h cur nds m best = Some r \<and>
    (r = best \<and> (\<forall>x \<in> marked h nds. 0 < poc_gap h cur x \<longrightarrow> m \<le> poc_gap h cur x) \<or>
     (\<exists>a \<in> marked h nds. r = Some a \<and> 0 < poc_gap h cur a \<and> poc_gap h cur a < m \<and>
       (\<forall>x \<in> marked h nds. 0 < poc_gap h cur x \<longrightarrow> poc_gap h cur a \<le> poc_gap h cur x)))"
  using assms
proof (induction nds arbitrary: m best)
  case Nil
  then show ?case by (simp add: marked_def)
next
  case (Cons nd nds)
  have ok: "gaps_ok h cur nds" using Cons.prems by (simp add: gaps_ok_def)
  show ?case
  proof (cases "\<exists>a. ps_pic_buf nd = Some a \<and> u1_used_as_ref (the (h a)) \<noteq> 0")
    case False
    then have m: "marked h (nd # nds) = marked h nds" by (auto simp: marked_def)
    have "nearest_before h cur (nd # nds) m best = nearest_before h cur nds m best"
      using False Cons.prems by (auto simp: gaps_ok_def split: option.splits)
    then show ?thesis unfolding m using Cons.IH [OF ok, of m best] by simp
  next
    case True
    then obtain a where a: "ps_pic_buf nd = Some a" "u1_used_as_ref (the (h a)) \<noteq> 0" by blast
    have m: "marked h (nd # nds) = insert a (marked h nds)" using a by (auto simp: marked_def)
    have n: "nearest_before h cur (nd # nds) m best =
        (if poc_gap h cur a > 0 \<and> poc_gap h cur a < m then nearest_before h cur nds (poc_gap h cur a) (Some a)
         else nearest_before h cur nds m best)"
      using a Cons.prems by (auto simp: gaps_ok_def poc_gap_def Let_def)
    show ?thesis
    proof (cases "poc_gap h cur a > 0 \<and> poc_gap h cur a < m")
      case True
      obtain r where r: "nearest_before h cur nds (poc_gap h cur a) (Some a) = Some r"
          "r = Some a \<and> (\<forall>x \<in> marked h nds. 0 < poc_gap h cur x \<longrightarrow> poc_gap h cur a \<le> poc_gap h cur x) \<or>
           (\<exists>b \<in> marked h nds. r = Some b \<and> 0 < poc_gap h cur b \<and> poc_gap h cur b < poc_gap h cur a \<and>
             (\<forall>x \<in> marked h nds. 0 < poc_gap h cur x \<longrightarrow> poc_gap h cur b \<le> poc_gap h cur x))"
        using Cons.IH [OF ok, of "poc_gap h cur a" "Some a"] by blast
      then have "\<exists>b \<in> insert a (marked h nds). r = Some b \<and> 0 < poc_gap h cur b \<and> poc_gap h cur b < m \<and>
             (\<forall>x \<in> insert a (marked h nds). 0 < poc_gap h cur x \<longrightarrow> poc_gap h cur b \<le> poc_gap h cur x)"
        using True by fastforce
      then show ?thesis unfolding n m using r(1) True by simp
    next
      case False
      have "\<exists>r. nearest_before h cur nds m best = Some r \<and>
          (r = best \<and> (\<forall>x \<in> marked h nds. 0 < poc_gap h cur x \<longrightarrow> m \<le> poc_gap h cur x) \<or>
           (\<exists>a \<in> marked h nds. r = Some a \<and> 0 < poc_gap h cur a \<and> poc_gap h cur a < m \<and>
             (\<forall>x \<in> marked h nds. 0 < poc_gap h cur x \<longrightarrow> poc_gap h cur a \<le> poc_gap h cur x)))"
        by (rule Cons.IH [OF ok])
      then show ?thesis unfolding n m if_not_P [OF False] using False by (simp add: not_less) force
    qed
  qed
qed

lemma nearest_abs_spec:
  assumes "gaps_ok h cur nds"
  shows "\<exists>r. nearest_abs h cur nds m best = Some r \<and>
    (r = best \<and> (\<forall>x \<in> marked h nds. m \<le> \<bar>poc_gap h cur x\<bar>) \<or>
     (\<exists>a \<in> marked h nds. r = Some a \<and> \<bar>poc_gap h cur a\<bar> < m \<and>
       (\<forall>x \<in> marked h nds. \<bar>poc_gap h cur a\<bar> \<le> \<bar>poc_gap h cur x\<bar>)))"
  using assms
proof (induction nds arbitrary: m best)
  case Nil
  then show ?case by (simp add: marked_def)
next
  case (Cons nd nds)
  have ok: "gaps_ok h cur nds" using Cons.prems by (simp add: gaps_ok_def)
  show ?case
  proof (cases "\<exists>a. ps_pic_buf nd = Some a \<and> u1_used_as_ref (the (h a)) \<noteq> 0")
    case False
    then have m: "marked h (nd # nds) = marked h nds" by (auto simp: marked_def)
    have "nearest_abs h cur (nd # nds) m best = nearest_abs h cur nds m best"
      using False Cons.prems by (auto simp: gaps_ok_def split: option.splits)
    then show ?thesis unfolding m using Cons.IH [OF ok, of m best] by simp
  next
    case True
    then obtain a where a: "ps_pic_buf nd = Some a" "u1_used_as_ref (the (h a)) \<noteq> 0" by blast
    have m: "marked h (nd # nds) = insert a (marked h nds)" using a by (auto simp: marked_def)
    have n: "nearest_abs h cur (nd # nds) m best =
        (if \<bar>poc_gap h cur a\<bar> < m then nearest_abs h cur nds \<bar>poc_gap h cur a\<bar> (Some a)
         else nearest_abs h cur nds m best)"
      using a Cons.prems by (auto simp: gaps_ok_def poc_gap_def Let_def)
    show ?thesis
    proof (cases "\<bar>poc_gap h cur a\<bar> < m")
      case True
      obtain r where r: "nearest_abs h cur nds \<bar>poc_gap h cur a\<bar> (Some a) = Some r"
          "r = Some a \<and> (\<forall>x \<in> marked h nds. \<bar>poc_gap h cur a\<bar> \<le> \<bar>poc_gap h cur x\<bar>) \<or>
           (\<exists>b \<in> marked h nds. r = Some b \<and> \<bar>poc_gap h cur b\<bar> < \<bar>poc_gap h cur a\<bar> \<and>
             (\<forall>x \<in> marked h nds. \<bar>poc_gap h cur b\<bar> \<le> \<bar>poc_gap h cur x\<bar>))"
        using Cons.IH [OF ok, of "\<bar>poc_gap h cur a\<bar>" "Some a"] by blast
      then have "\<exists>b \<in> insert a (marked h nds). r = Some b \<and> \<bar>poc_gap h cur b\<bar> < m \<and>
             (\<forall>x \<in> insert a (marked h nds). \<bar>poc_gap h cur b\<bar> \<le> \<bar>poc_gap h cur x\<bar>)"
        using True by fastforce
      then show ?thesis unfolding n m using r(1) True by simp
    next
      case False
      have "\<exists>r. nearest_abs h cur nds m best = Some r \<and>
          (r = best \<and> (\<forall>x \<in> marked h nds. m \<le> \<bar>poc_gap h cur x\<bar>) \<or>
           (\<exists>a \<in> marked h nds. r = Some a \<and> \<bar>poc_gap h cur a\<bar> < m \<and>
             (\<forall>x \<in> marked h nds. \<bar>poc_gap h cur a\<bar> \<le> \<bar>poc_gap h cur x\<bar>)))"
        by (rule Cons.IH [OF ok])
      then show ?thesis unfolding n m if_not_P [OF False] using False by (simp add: not_less) force
    qed
  qed
qed

text \<open>The two scans together.\<close>

lemma nearest_spec:
  assumes "dec_inv d b h" "\<forall>a \<in> set (dpb_refs d). \<bar>cur - i4_abs_poc (the (h a))\<bar> < 2147483647"
  defines "refs \<equiv> {a \<in> set (dpb_refs d). u1_used_as_ref (the (h a)) \<noteq> 0}"
  shows "case ihevc_dpb_mgr_get_ref_by_nearest_poc d h cur of
      None \<Rightarrow> False
    | Some None \<Rightarrow> refs = {}
    | Some (Some a) \<Rightarrow> a \<in> refs \<and>
        (if \<exists>x \<in> refs. 0 < poc_gap h cur x
         then 0 < poc_gap h cur a \<and> (\<forall>x \<in> refs. 0 < poc_gap h cur x \<longrightarrow> poc_gap h cur a \<le> poc_gap h cur x)
         else \<forall>x \<in> refs. \<bar>poc_gap h cur a\<bar> \<le> \<bar>poc_gap h cur x\<bar>)"
proof -
  note I = dec_invD [OF assms(1)]
  have len: "length (as_dpb_info d) = 64" by (rule dpb_okD(1) [OF I(1)])
  have slot: "(\<exists>nd \<in> set (as_dpb_info d). ps_pic_buf nd = Some a) \<longleftrightarrow> a \<in> set (dpb_refs d)" for a
    unfolding refs_iff [OF I(1)] using len by (metis in_set_conv_nth)
  have m: "marked h (as_dpb_info d) = refs" using slot by (auto simp: marked_def refs_def)
  have ok: "gaps_ok h cur (as_dpb_info d)" using slot I(3) assms(2) unfolding gaps_ok_def by (metis less_imp_le)
  have gap: "\<bar>poc_gap h cur x\<bar> < 2147483647" if "x \<in> refs" for x
    using that assms(2) by (auto simp: refs_def poc_gap_def)
  from nearest_before_spec [OF ok, of 2147483647 None] obtain r where
    r: "nearest_before h cur (as_dpb_info d) 2147483647 None = Some r"
      "r = None \<and> (\<forall>x \<in> refs. 0 < poc_gap h cur x \<longrightarrow> 2147483647 \<le> poc_gap h cur x) \<or>
       (\<exists>a \<in> refs. r = Some a \<and> 0 < poc_gap h cur a \<and> poc_gap h cur a < 2147483647 \<and>
         (\<forall>x \<in> refs. 0 < poc_gap h cur x \<longrightarrow> poc_gap h cur a \<le> poc_gap h cur x))"
    unfolding m by blast
  show ?thesis
  proof (cases r)
    case (Some a)
    then show ?thesis using r by (auto simp: ihevc_dpb_mgr_get_ref_by_nearest_poc_def)
  next
    case None
    then have none: "\<not> (\<exists>x \<in> refs. 0 < poc_gap h cur x)" using r(2) gap by fastforce
    from nearest_abs_spec [OF ok, of 2147483647 None] obtain q where
      q: "nearest_abs h cur (as_dpb_info d) 2147483647 None = Some q"
        "q = None \<and> (\<forall>x \<in> refs. 2147483647 \<le> \<bar>poc_gap h cur x\<bar>) \<or>
         (\<exists>a \<in> refs. q = Some a \<and> \<bar>poc_gap h cur a\<bar> < 2147483647 \<and> (\<forall>x \<in> refs. \<bar>poc_gap h cur a\<bar> \<le> \<bar>poc_gap h cur x\<bar>))"
      unfolding m by blast
    have run: "ihevc_dpb_mgr_get_ref_by_nearest_poc d h cur = Some q"
      using r(1) None q(1) by (simp add: ihevc_dpb_mgr_get_ref_by_nearest_poc_def)
    show ?thesis
    proof (cases q)
      case None
      then have "refs = {}" using q(2) gap by fastforce
      then show ?thesis using run None by simp
    next
      case (Some a)
      then show ?thesis using run q(2) none by auto
    qed
  qed
qed

section \<open>Dropping references\<close>

text \<open>The loops over the slots that delete references, with the motion vector buffer of each: every
  picture at the start of a coded video sequence, the pictures no longer marked after the reference
  picture set. \<open>mvs\<close> are the counts of the motion vector buffers, \<open>mb\<close> their buffer manager.\<close>

fun mv_release :: "int list \<Rightarrow> int \<Rightarrow> int \<Rightarrow> buf_mgr \<Rightarrow> buf_mgr option" where
  "mv_release [] poc j mb = Some mb"
| "mv_release (p # ps) poc j mb =
     (if p = poc then map_option snd (ihevc_buf_mgr_release mb j 2) else mv_release ps poc (j + 1) mb)"

function drop_refs :: "(pic_buf \<Rightarrow> bool) \<Rightarrow> pics \<Rightarrow> int list \<Rightarrow> nat \<Rightarrow> dpb_mgr \<Rightarrow> buf_mgr \<Rightarrow> buf_mgr \<Rightarrow>
    (dpb_mgr \<times> buf_mgr \<times> buf_mgr) option" where
  "drop_refs want h mvs i d b mb =
     (if i < MAX_DPB_BUFS then do {
        nd \<leftarrow> rd (as_dpb_info d) i;
        case ps_pic_buf nd of
          None \<Rightarrow> drop_refs want h mvs (i + 1) d b mb
        | Some a \<Rightarrow> do {
            pic \<leftarrow> h a;
            if want pic then do {
              (d, b) \<leftarrow> ihevc_dpb_mgr_del_ref d b h (i4_abs_poc pic);
              mb \<leftarrow> mv_release mvs (i4_abs_poc pic) 0 mb;
              drop_refs want h mvs (i + 1) d b mb
            } else drop_refs want h mvs (i + 1) d b mb
          }
      } else Some (d, b, mb))"
  by pat_completeness auto
termination by (relation "measure (\<lambda>(_, _, _, i, _). 64 - i)") auto

declare drop_refs.simps [simp del]

definition flush_refs :: "pics \<Rightarrow> int list \<Rightarrow> dpb_mgr \<Rightarrow> buf_mgr \<Rightarrow> buf_mgr \<Rightarrow> (dpb_mgr \<times> buf_mgr \<times> buf_mgr) option" where
  "flush_refs h mvs d b mb = drop_refs (\<lambda>_. True) h mvs 0 d b mb"

definition drop_unused :: "pics \<Rightarrow> int list \<Rightarrow> dpb_mgr \<Rightarrow> buf_mgr \<Rightarrow> buf_mgr \<Rightarrow> (dpb_mgr \<times> buf_mgr \<times> buf_mgr) option" where
  "drop_unused h mvs d b mb = drop_refs (\<lambda>pic. UNUSED_FOR_REF = u1_used_as_ref pic) h mvs 0 d b mb"

lemma mv_release_spec:
  assumes "bm_ok mb" "0 \<le> j" "j + int (length ps) \<le> 64"
  shows "\<exists>mb'. mv_release ps poc j mb = Some mb' \<and> bm_ok mb'"
  using assms
proof (induction ps arbitrary: j)
  case (Cons p ps)
  show ?case
  proof (cases "p = poc")
    case True
    have j: "0 \<le> j" "j < 64" using Cons.prems by simp_all
    have "held mb (nat j) - {REF} \<noteq> {REF}" by auto
    then show ?thesis using True bm_release_spec [OF Cons.prems(1) j, of 2] by auto
  next
    case False
    then show ?thesis using Cons by simp
  qed
qed simp

lemma del_first_filter:
  assumes "distinct (map f xs)" "a \<in> set xs"
  shows "del_first (\<lambda>x. f x = f a) xs = filter (\<lambda>x. x \<noteq> a) xs"
  using assms
proof (induction xs)
  case (Cons y xs)
  show ?case
  proof (cases "f y = f a")
    case True
    then have "a = y" "a \<notin> set xs" using Cons.prems by (auto simp: image_iff)
    then have "filter (\<lambda>x. x \<noteq> a) xs = xs" by (auto simp: filter_id_conv)
    then show ?thesis using \<open>a = y\<close> by simp
  next
    case False
    then show ?thesis using Cons by auto
  qed
qed simp

lemma drop_refs_spec:
  assumes "dec_inv d b h" "bm_ok mb" "length mvs \<le> 64" "distinct (map (\<lambda>a. i4_abs_poc (the (h a))) (dpb_refs d))"
    and "\<forall>j < i. j < 64 \<longrightarrow> (\<forall>a. ps_pic_buf (as_dpb_info d ! j) = Some a \<longrightarrow> \<not> want (the (h a)))"
  shows "\<exists>d' b' mb'. drop_refs want h mvs i d b mb = Some (d', b', mb') \<and> dec_inv d' b' h \<and> bm_ok mb' \<and>
    dpb_refs d' = filter (\<lambda>a. \<not> want (the (h a))) (dpb_refs d)"
  using assms
proof (induction "64 - i" arbitrary: i d b mb)
  case 0
  note I = dec_invD [OF "0.prems"(1)]
  have "filter (\<lambda>a. \<not> want (the (h a))) (dpb_refs d) = dpb_refs d"
    unfolding filter_id_conv
  proof
    fix a assume "a \<in> set (dpb_refs d)"
    then obtain k where "k < 64" "ps_pic_buf (as_dpb_info d ! k) = Some a" using refs_iff [OF I(1)] by blast
    moreover have "k < i" using "0.hyps" \<open>k < 64\<close> by simp
    ultimately show "\<not> want (the (h a))" using "0.prems"(5) by blast
  qed
  then show ?case using 0 by (subst drop_refs.simps) simp
next
  case (Suc m)
  note I = dec_invD [OF Suc.prems(1)] and D = dpb_okD [OF dec_invD(1) [OF Suc.prems(1)]]
  have i: "i < 64" "m = 64 - (i + 1)" using Suc.hyps(2) by simp_all
  note IH = Suc.hyps(1) [OF i(2)]
  show ?case
  proof (cases "ps_pic_buf (as_dpb_info d ! i)")
    case None
    then have "drop_refs want h mvs i d b mb = drop_refs want h mvs (i + 1) d b mb"
      using i D(1) by (subst drop_refs.simps) simp
    moreover have "\<forall>j < i + 1. j < 64 \<longrightarrow> (\<forall>a. ps_pic_buf (as_dpb_info d ! j) = Some a \<longrightarrow> \<not> want (the (h a)))"
      using Suc.prems(5) None by (auto simp: less_Suc_eq)
    ultimately show ?thesis using IH [OF Suc.prems(1-4)] by simp
  next
    case (Some a)
    have a: "a \<in> set (dpb_refs d)" using Some i(1) refs_iff [OF I(1)] by auto
    obtain pic where pic: "h a = Some pic" using I(3) [OF a] by auto
    show ?thesis
    proof (cases "want pic")
      case False
      then have "drop_refs want h mvs i d b mb = drop_refs want h mvs (i + 1) d b mb"
        using i D(1) Some pic by (subst drop_refs.simps) simp
      moreover have "\<forall>j < i + 1. j < 64 \<longrightarrow> (\<forall>a. ps_pic_buf (as_dpb_info d ! j) = Some a \<longrightarrow> \<not> want (the (h a)))"
        using Suc.prems(5) Some pic False by (auto simp: less_Suc_eq)
      ultimately show ?thesis using IH [OF Suc.prems(1-4)] by simp
    next
      case True
      let ?P = "\<lambda>x. i4_abs_poc (the (h x)) = i4_abs_poc pic"
      have ne: "dpb_refs d \<noteq> []" using a by auto
      have "find ?P (dpb_refs d) \<noteq> None" using a pic by (auto simp: find_None_iff)
      then obtain x where x: "find ?P (dpb_refs d) = Some x" by blast
      obtain d1 b1 where d1: "ihevc_dpb_mgr_del_ref d b h (i4_abs_poc pic) = Some (d1, b1)"
          "dpb_refs d1 = del_first ?P (dpb_refs d)"
          "\<forall>j < 64. ps_pic_buf (as_dpb_info d1 ! j) \<in> {None, ps_pic_buf (as_dpb_info d ! j)}"
        using dpb_del_spec [OF I(1,7,2) ne, of "i4_abs_poc pic"] I(3) x by auto
      have inv1: "dec_inv d1 b1 h" by (rule inv_delete [OF Suc.prems(1) d1(1)])
      have refs1: "dpb_refs d1 = filter (\<lambda>x. x \<noteq> a) (dpb_refs d)"
        unfolding d1(2) using del_first_filter [OF Suc.prems(4) a] pic by simp
      obtain mb1 where mb1: "mv_release mvs (i4_abs_poc pic) 0 mb = Some mb1" "bm_ok mb1"
        using mv_release_spec [OF Suc.prems(2), of 0 mvs] Suc.prems(3) by auto
      have run: "drop_refs want h mvs i d b mb = drop_refs want h mvs (i + 1) d1 b1 mb1"
        using i D(1) Some pic True d1(1) mb1(1) by (subst drop_refs.simps) simp
      have dist: "distinct (map (\<lambda>a. i4_abs_poc (the (h a))) (dpb_refs d1))"
        unfolding refs1 using Suc.prems(4) by (auto simp: distinct_map intro: inj_on_subset)
      have past: "\<forall>j < i + 1. j < 64 \<longrightarrow> (\<forall>x. ps_pic_buf (as_dpb_info d1 ! j) = Some x \<longrightarrow> \<not> want (the (h x)))"
      proof (intro allI impI)
        fix j x assume j: "j < i + 1" "j < 64" and x: "ps_pic_buf (as_dpb_info d1 ! j) = Some x"
        then have "x \<in> set (dpb_refs d1)" using refs_iff [OF dec_invD(1) [OF inv1]] by blast
        then have "x \<noteq> a" unfolding refs1 by simp
        moreover have "ps_pic_buf (as_dpb_info d ! j) = Some x" using d1(3) j(2) x by fastforce
        moreover have "j < i" if "j \<noteq> i" using that j(1) by simp
        ultimately show "\<not> want (the (h x))" using Suc.prems(5) j(2) Some by (cases "j = i") (simp, blast)
      qed
      have "filter (\<lambda>x. \<not> want (the (h x))) (dpb_refs d1) = filter (\<lambda>x. \<not> want (the (h x))) (dpb_refs d)"
        unfolding refs1 filter_filter using True pic by (intro filter_cong) auto
      then show ?thesis unfolding run using IH [OF inv1 mb1(2) Suc.prems(3) dist past] by simp
    qed
  qed
qed

section \<open>Properties\<close>

text \<open>A decode that has requested buffer 1, and one that has ended its picture.\<close>

lemma dec_example_alloc:
  "\<exists>d b h. dec_reach d b h \<and> held b 1 = {DEC} \<and> apv_ptr b ! 1 = Some 7 \<and> dpb_refs d = [] \<and> i4_abs_poc (the (h 7)) = 3"
proof -
  let ?d = "ihevc_dpb_mgr_init \<lparr> ps_dpb_head = None, as_dpb_info = [], u1_num_ref_bufs = 0 \<rparr>"
  have p: "apv_ptr bm_example ! i = (if i = 1 then Some 7 else if i = 2 then Some 9 else None)" if "i < 64" for i
    using that by (auto simp: bm_example_def nth_append nth_Cons' less_Suc_eq_0_disj numeral_eq_Suc)
  have "fresh_bufs bm_example"
    unfolding fresh_bufs_def
  proof (intro conjI allI impI)
    show "bm_ok bm_example" by (simp add: bm_ok_def bm_example_def)
    show "held bm_example i = {}" for i by (simp add: held_def bm_example_def)
    show "i = j" if "i < 64" "j < 64" "apv_ptr bm_example ! i = apv_ptr bm_example ! j" "apv_ptr bm_example ! i \<noteq> None" for i j
      using that p [OF that(1)] p [OF that(2)] by (auto split: if_splits)
  qed
  then have s: "dec_reach ?d bm_example (\<lambda>_. None)" by (rule dec_start)
  have l: "free_scan bm_example 64 0 = Some (Some 1)"
    by (subst free_scan.simps, subst free_scan.simps) (simp add: bm_example_def)
  let ?b = "bm_example \<lparr> au4_status := (au4_status bm_example)[1 := 1] \<rparr>"
  have g: "ihevc_buf_mgr_get_next_free bm_example = Some (Some 7, Some 1, ?b)"
    using l by (simp add: ihevc_buf_mgr_get_next_free_def) (simp add: bm_example_def)
  note a = dec_alloc [OF s g, of "\<lparr> i4_abs_poc = 3, i4_poc_lsb = 3, u1_used_as_ref = 0, u1_buf_id = 0 \<rparr>"]
  have "held ?b 1 = {DEC}" "apv_ptr ?b ! 1 = Some 7" by (simp_all add: held_def bm_example_def)
  moreover have "i4_abs_poc (the (((\<lambda>_. None)(7 \<mapsto> \<lparr> i4_abs_poc = 3, i4_poc_lsb = 3, u1_used_as_ref = 0, u1_buf_id = 0 \<rparr>)) (7 :: nat))) = 3"
    by simp
  ultimately show ?thesis using a init_dpb(2) by blast
qed

lemma dec_example_poc:
  "\<exists>d b h. dec_reach d b h \<and> dpb_refs d = [7] \<and> i4_abs_poc (the (h 7)) = 3 \<and> u1_used_as_ref (the (h 7)) = SHORT_TERM_REF"
proof -
  obtain d b h where e: "dec_reach d b h" "held b 1 = {DEC}" "apv_ptr b ! 1 = Some 7" "dpb_refs d = []"
      "i4_abs_poc (the (h 7)) = 3"
    using dec_example_alloc by blast
  obtain p d' b' h' where f: "apv_ptr b ! 1 = Some p" "mark_cur_pic d b h (apv_ptr b ! 1) (int 1) = Some (d', b', h')"
      "dpb_refs d' = p # dpb_refs d" "i4_abs_poc (the (h' p)) = i4_abs_poc (the (h p))"
      "u1_used_as_ref (the (h' p)) = SHORT_TERM_REF"
    using mark_cur_pic_spec [OF dec_reach_inv [OF e(1)] _ e(2)] by auto
  have "dec_reach d' b' h'" by (rule dec_finish [OF e(1) _ e(2) f(2)]) simp
  then show ?thesis using f(1,3-5) e(3-5) by auto
qed

lemma dec_example: "\<exists>d b h. dec_reach d b h \<and> dpb_refs d = [7]"
  using dec_example_poc by blast

text \<open>
  C28: A reference picture keeps its memory: at every point of a decode, a buffer has the reference
  hold exactly when its picture is in the decoded picture buffer, and a request for a free buffer
  never returns the buffer of a picture that is still in it.
\<close>

theorem dpb_protects_references:
  assumes "dec_reach d b h"
  shows "(\<forall>i < 64. REF \<in> held b i \<longleftrightarrow> (\<exists>a \<in> set (dpb_refs d). ref_id h a = i)) \<and>
    (\<forall>p i b'. ihevc_buf_mgr_get_next_free b = Some (p, Some i, b') \<longrightarrow>
       (\<forall>a \<in> set (dpb_refs d). ref_id h a \<noteq> i \<and> p \<noteq> Some a))"
proof -
  note I = dec_invD [OF dec_reach_inv [OF assms]]
  have "ref_id h a \<noteq> i \<and> p \<noteq> Some a"
    if get: "ihevc_buf_mgr_get_next_free b = Some (p, Some i, b')" and a: "a \<in> set (dpb_refs d)" for p i b' a
  proof -
    have i: "i < 64" "held b i = {}" "p = apv_ptr b ! i" "p \<noteq> None"
      using bm_get_next_free_spec [OF I(2)] get by (auto simp: is_free_def)
    have ne: "ref_id h a \<noteq> i" using I(4) [OF i(1)] i(2) a by auto
    then show ?thesis using I(6) [OF i(1), of "ref_id h a"] I(3) [OF a] i(3,4) by auto
  qed
  then show ?thesis using I(4) by blast
qed

lemma dpb_protects_references_witness:
  "\<exists>d b h. dpb_refs d = [7] \<and> (\<forall>i < 64. REF \<in> held b i \<longleftrightarrow> (\<exists>a \<in> set (dpb_refs d). ref_id h a = i)) \<and>
    (\<forall>p i b'. ihevc_buf_mgr_get_next_free b = Some (p, Some i, b') \<longrightarrow>
       (\<forall>a \<in> set (dpb_refs d). ref_id h a \<noteq> i \<and> p \<noteq> Some a))"
proof -
  obtain d b h where e: "dec_reach d b h" "dpb_refs d = [7]" using dec_example by blast
  show ?thesis using e(2) dpb_protects_references [OF e(1)] by blast
qed

text \<open>
  Ending a picture never fails: the two marks are taken, the picture becomes the most recent
  reference, its buffer is held by the decoder, as a reference and for display, and no other
  buffer changes hands.
\<close>

theorem dpb_end_of_picture:
  assumes "dec_reach d b h" "i < 64" "held b i = {DEC}"
  shows "\<exists>p d' b' h'. apv_ptr b ! i = Some p \<and> mark_cur_pic d b h (apv_ptr b ! i) (int i) = Some (d', b', h') \<and>
    dpb_refs d' = p # dpb_refs d \<and> held b' = (held b)(i := {DEC, REF, DISP})"
  using mark_cur_pic_spec [OF dec_reach_inv [OF assms(1)] assms(2,3)] by blast

lemma dpb_end_of_picture_witness:
  "\<exists>d b h. dpb_refs d = [] \<and> apv_ptr b ! 1 = Some 7 \<and> (\<exists>p d' b' h'. apv_ptr b ! 1 = Some p \<and>
    mark_cur_pic d b h (apv_ptr b ! 1) (int 1) = Some (d', b', h') \<and>
    dpb_refs d' = p # dpb_refs d \<and> held b' = (held b)(1 := {DEC, REF, DISP}))"
proof -
  obtain d b h where e: "dec_reach d b h" "held b 1 = {DEC}" "apv_ptr b ! 1 = Some 7" "dpb_refs d = []"
    using dec_example_alloc by blast
  have "(1 :: nat) < 64" by simp
  then show ?thesis using e(3,4) dpb_end_of_picture [OF e(1) _ e(2)] by blast
qed

text \<open>
  C29: Deleting a reference takes the most recent picture with the given count out of the list of
  references and gives up the reference hold on its buffer; without such a picture nothing
  changes. On an empty buffer the null head is dereferenced.
\<close>

theorem dpb_del_ref_refines:
  assumes "dec_reach d b h"
  shows "case find (\<lambda>a. i4_abs_poc (the (h a)) = poc) (dpb_refs d) of
      None \<Rightarrow> ihevc_dpb_mgr_del_ref d b h poc = (if dpb_refs d = [] then None else Some (d, b))
    | Some a \<Rightarrow> \<exists>d' b'. ihevc_dpb_mgr_del_ref d b h poc = Some (d', b') \<and>
        dpb_refs d' = del_first (\<lambda>a. i4_abs_poc (the (h a)) = poc) (dpb_refs d) \<and>
        held b' = (held b)(ref_id h a := released (held b (ref_id h a)) {REF})"
proof (cases "dpb_refs d = []")
  case True
  then show ?thesis using del_empty [OF dec_invD(1) [OF dec_reach_inv [OF assms]]] by simp
next
  case False
  note I = dec_invD [OF dec_reach_inv [OF assms]]
  have "\<forall>a \<in> set (dpb_refs d). ref_id h a < 64" using I(3) by blast
  note spec = dpb_del_spec [OF I(1,7,2) False this, of poc]
  show ?thesis
  proof (cases "find (\<lambda>a. i4_abs_poc (the (h a)) = poc) (dpb_refs d)")
    case None
    then show ?thesis using spec False by simp
  next
    case (Some a)
    show ?thesis unfolding Some option.case using spec [unfolded Some option.case] by blast
  qed
qed

lemma dpb_del_ref_refines_witness:
  "\<exists>d b h. dpb_refs d = [7] \<and> (case find (\<lambda>a. i4_abs_poc (the (h a)) = 3) (dpb_refs d) of
      None \<Rightarrow> ihevc_dpb_mgr_del_ref d b h 3 = (if dpb_refs d = [] then None else Some (d, b))
    | Some a \<Rightarrow> \<exists>d' b'. ihevc_dpb_mgr_del_ref d b h 3 = Some (d', b') \<and>
        dpb_refs d' = del_first (\<lambda>a. i4_abs_poc (the (h a)) = 3) (dpb_refs d) \<and>
        held b' = (held b)(ref_id h a := released (held b (ref_id h a)) {REF}))"
proof -
  obtain d b h where e: "dec_reach d b h" "dpb_refs d = [7]" using dec_example by blast
  show ?thesis using e(2) dpb_del_ref_refines [OF e(1)] by blast
qed

text \<open>
  The searches by count and by low bits of the count return the most recent reference that
  matches, and the null pointer exactly when none does.
\<close>

theorem dpb_get_ref_finds:
  assumes "dec_reach d b h"
  shows "ihevc_dpb_mgr_get_ref_by_poc d h poc = Some (find (\<lambda>a. i4_abs_poc (the (h a)) = poc) (dpb_refs d)) \<and>
    ihevc_dpb_mgr_get_ref_by_poc_lsb d h lsb = Some (find (\<lambda>a. i4_poc_lsb (the (h a)) = lsb) (dpb_refs d))"
proof -
  note I = dec_invD [OF dec_reach_inv [OF assms]]
  show ?thesis
    unfolding ihevc_dpb_mgr_get_ref_by_poc_def ihevc_dpb_mgr_get_ref_by_poc_lsb_def
    by (intro conjI get_ref_spec [OF I(1,7)])
qed

lemma dpb_get_ref_finds_witness:
  "\<exists>d b h. dpb_refs d = [7] \<and>
    ihevc_dpb_mgr_get_ref_by_poc d h 3 = Some (find (\<lambda>a. i4_abs_poc (the (h a)) = 3) (dpb_refs d)) \<and>
    ihevc_dpb_mgr_get_ref_by_poc_lsb d h 4 = Some (find (\<lambda>a. i4_poc_lsb (the (h a)) = 4) (dpb_refs d))"
proof -
  obtain d b h where e: "dec_reach d b h" "dpb_refs d = [7]" using dec_example by blast
  show ?thesis using e(2) dpb_get_ref_finds [OF e(1)] by blast
qed

text \<open>The search prefers a picture that precedes the current one to a closer one that follows it.\<close>

lemma nearest_poc_preceding:
  "let pic = (\<lambda>poc. \<lparr> i4_abs_poc = poc, i4_poc_lsb = poc, u1_used_as_ref = SHORT_TERM_REF, u1_buf_id = 0 \<rparr>);
     slot = (\<lambda>a. \<lparr> ps_pic_buf = Some a, ps_prev_dpb = None \<rparr>)
   in ihevc_dpb_mgr_get_ref_by_nearest_poc \<lparr> ps_dpb_head = Some 0, as_dpb_info = [slot 1, slot 2], u1_num_ref_bufs = 2 \<rparr>
     [1 \<mapsto> pic 8, 2 \<mapsto> pic 11] 10 = Some (Some 1)"
  by (simp add: ihevc_dpb_mgr_get_ref_by_nearest_poc_def in_w32_def Let_def)

text \<open>
  C30: The search for the nearest count, made for missing references, returns a picture marked as
  reference: of those that precede the current picture the closest one; only when none precedes
  it, the closest of all; the null pointer only when no picture is marked. It needs counts whose
  difference to the current one fits 32 bits. The comment of the routine promises the closest picture;
  the code prefers a preceding one, even a farther one (\<open>nearest_poc_preceding\<close>).
\<close>

theorem dpb_nearest_poc:
  assumes "dec_reach d b h" "\<forall>a \<in> set (dpb_refs d). \<bar>cur - i4_abs_poc (the (h a))\<bar> < 2147483647"
  defines "refs \<equiv> {a \<in> set (dpb_refs d). u1_used_as_ref (the (h a)) \<noteq> 0}"
  shows "case ihevc_dpb_mgr_get_ref_by_nearest_poc d h cur of
      None \<Rightarrow> False
    | Some None \<Rightarrow> refs = {}
    | Some (Some a) \<Rightarrow> a \<in> refs \<and>
        (if \<exists>x \<in> refs. 0 < poc_gap h cur x
         then 0 < poc_gap h cur a \<and> (\<forall>x \<in> refs. 0 < poc_gap h cur x \<longrightarrow> poc_gap h cur a \<le> poc_gap h cur x)
         else \<forall>x \<in> refs. \<bar>poc_gap h cur a\<bar> \<le> \<bar>poc_gap h cur x\<bar>)"
  unfolding refs_def by (rule nearest_spec [OF dec_reach_inv [OF assms(1)] assms(2)])

lemma dpb_nearest_poc_witness:
  "\<exists>d b h cur. dpb_refs d = [7] \<and> (case ihevc_dpb_mgr_get_ref_by_nearest_poc d h cur of
      None \<Rightarrow> False
    | Some None \<Rightarrow> {a \<in> set (dpb_refs d). u1_used_as_ref (the (h a)) \<noteq> 0} = {}
    | Some (Some a) \<Rightarrow> a \<in> {a \<in> set (dpb_refs d). u1_used_as_ref (the (h a)) \<noteq> 0} \<and>
        (if \<exists>x \<in> {a \<in> set (dpb_refs d). u1_used_as_ref (the (h a)) \<noteq> 0}. 0 < poc_gap h cur x
         then 0 < poc_gap h cur a \<and> (\<forall>x \<in> {a \<in> set (dpb_refs d). u1_used_as_ref (the (h a)) \<noteq> 0}.
            0 < poc_gap h cur x \<longrightarrow> poc_gap h cur a \<le> poc_gap h cur x)
         else \<forall>x \<in> {a \<in> set (dpb_refs d). u1_used_as_ref (the (h a)) \<noteq> 0}. \<bar>poc_gap h cur a\<bar> \<le> \<bar>poc_gap h cur x\<bar>))"
proof -
  obtain d b h where e: "dec_reach d b h" "dpb_refs d = [7]" using dec_example by blast
  let ?cur = "i4_abs_poc (the (h 7)) + 2"
  have "\<forall>a \<in> set (dpb_refs d). \<bar>?cur - i4_abs_poc (the (h a))\<bar> < 2147483647" by (simp add: e(2))
  from dpb_nearest_poc [OF e(1) this] show ?thesis using e(2) by blast
qed

text \<open>
  Dropping references: at the start of a coded video sequence every picture is deleted, and
  after the reference picture set exactly the pictures no longer marked are; neither loop can
  fail, when the counts of the pictures are distinct.
\<close>

theorem dpb_drop_refs:
  assumes "dec_reach d b h" "bm_ok mb" "length mvs \<le> 64" "distinct (map (\<lambda>a. i4_abs_poc (the (h a))) (dpb_refs d))"
  shows "(\<exists>d' b' mb'. flush_refs h mvs d b mb = Some (d', b', mb') \<and> dpb_refs d' = []) \<and>
    (\<exists>d' b' mb'. drop_unused h mvs d b mb = Some (d', b', mb') \<and>
       dpb_refs d' = filter (\<lambda>a. u1_used_as_ref (the (h a)) \<noteq> 0) (dpb_refs d))"
proof -
  note s = drop_refs_spec [OF dec_reach_inv [OF assms(1)] assms(2,3,4), of 0]
  have "\<exists>d' b' mb'. flush_refs h mvs d b mb = Some (d', b', mb') \<and> dpb_refs d' = []"
    using s [of "\<lambda>_. True"] by (auto simp: flush_refs_def)
  moreover have "\<exists>d' b' mb'. drop_unused h mvs d b mb = Some (d', b', mb') \<and>
       dpb_refs d' = filter (\<lambda>a. u1_used_as_ref (the (h a)) \<noteq> 0) (dpb_refs d)"
  proof -
    have "(\<lambda>a. \<not> (0 = u1_used_as_ref (the (h a)))) = (\<lambda>a. u1_used_as_ref (the (h a)) \<noteq> 0)" by auto
    then show ?thesis using s [of "\<lambda>pic. 0 = u1_used_as_ref pic"] unfolding drop_unused_def by auto
  qed
  ultimately show ?thesis by blast
qed

lemma dpb_drop_refs_witness:
  "\<exists>d b h. dpb_refs d = [7] \<and> (\<exists>d' b' mb'. flush_refs h [] d b bm_example = Some (d', b', mb') \<and> dpb_refs d' = []) \<and>
    (\<exists>d' b' mb'. drop_unused h [] d b bm_example = Some (d', b', mb') \<and>
       dpb_refs d' = filter (\<lambda>a. u1_used_as_ref (the (h a)) \<noteq> 0) (dpb_refs d))"
proof -
  obtain d b h where e: "dec_reach d b h" "dpb_refs d = [7]" using dec_example by blast
  have "length ([] :: int list) \<le> 64" "distinct (map (\<lambda>a. i4_abs_poc (the (h a))) (dpb_refs d))" by (simp_all add: e(2))
  from dpb_drop_refs [OF e(1) bm_reach_ok [OF bm_example_reach] this] e(2) show ?thesis by blast
qed

text \<open>
  C31: The reset of the decoded picture buffer dereferences the picture of every slot: unless all
  64 slots hold a picture, it dereferences a null pointer.
\<close>

theorem dpb_reset_null_deref:
  assumes "i < length (as_dpb_info d)" "ps_pic_buf (as_dpb_info d ! i) = None"
  shows "ihevc_dpb_mgr_reset d b h = None"
proof -
  have "reset_loop h b nds = None" if "j < length nds" "ps_pic_buf (nds ! j) = None" for nds j h b
    using that
  proof (induction nds arbitrary: j h b)
    case (Cons nd nds)
    show ?case
    proof (cases j)
      case (Suc k)
      then have IH: "reset_loop h b nds = None" for h b using Cons by auto
      show ?thesis by (auto simp: IH split: Option.bind_splits)
    qed (use Cons.prems in simp)
  qed simp
  from this [OF assms] show ?thesis by (simp add: ihevc_dpb_mgr_reset_def)
qed

lemma dpb_reset_null_deref_witness:
  "ihevc_dpb_mgr_reset (ihevc_dpb_mgr_init \<lparr> ps_dpb_head = None, as_dpb_info = [], u1_num_ref_bufs = 0 \<rparr>) bm_example
     (\<lambda>_. None) = None"
  by (rule dpb_reset_null_deref [of 0]) (simp_all add: ihevc_dpb_mgr_init_def)

end
