(* ===== verification/Samples.thy ===== *)
theory Samples
  imports Hevc_Prelude
begin

text \<open>
  What the sample processing routines share. An array of \<^verbatim>\<open>UWORD8\<close> or \<^verbatim>\<open>WORD16\<close> is a memory from
  addresses to words, a pointer an address; so samples have their range by type, and a store keeps
  the low bits. A routine has one memory for each array the code keeps apart (a source and a
  destination do not overlap); locals and sums are integers, a \<^verbatim>\<open>WORD16\<close> local is cut by \<open>s16\<close>.

  The loops over rows and columns, block updates in place, masks of zero columns; clipping; sums with
  a 16-bit accumulator and when they are exact.
\<close>

unbundle bit_operations_syntax

type_synonym mem8 = "int \<Rightarrow> 8 word"
type_synonym mem16 = "int \<Rightarrow> 16 word"

section \<open>Loops\<close>

text \<open>\<^verbatim>\<open>for(k = 0; k < n; k++)\<close>.\<close>

definition for_to :: "int \<Rightarrow> (int \<Rightarrow> 's \<Rightarrow> 's) \<Rightarrow> 's \<Rightarrow> 's" where
  "for_to n body s = fold (\<lambda>k. body (int k)) [0 ..< nat n] s"

text \<open>The loops over a block that store one value at an address of each position.\<close>

definition store_block :: "int \<Rightarrow> int \<Rightarrow> (int \<Rightarrow> int \<Rightarrow> int) \<Rightarrow> (int \<Rightarrow> int \<Rightarrow> 'v) \<Rightarrow> (int \<Rightarrow> 'v) \<Rightarrow> (int \<Rightarrow> 'v)" where
  "store_block ht wd addr val m = for_to ht (\<lambda>row. for_to wd (\<lambda>col m. m(addr row col := val row col))) m"

lemma for_to_0 [simp]: "n \<le> 0 \<Longrightarrow> for_to n body s = s"
  by (simp add: for_to_def)

lemma for_to_Suc: "0 \<le> n \<Longrightarrow> for_to (n + 1) body s = body n (for_to n body s)"
  by (simp add: for_to_def nat_add_distrib)

lemma for_to_inv:
  assumes "0 \<le> n" "P 0 s" "\<And>k t. 0 \<le> k \<Longrightarrow> k < n \<Longrightarrow> P k t \<Longrightarrow> P (k + 1) (body k t)"
  shows "P n (for_to n body s)"
proof -
  have "int m \<le> n \<Longrightarrow> P (int m) (for_to (int m) body s)" for m
  proof (induction m)
    case 0
    then show ?case using assms(2) by simp
  next
    case (Suc m)
    then have "P (int m + 1) (body (int m) (for_to (int m) body s))" using assms(3) by simp
    then show ?case using for_to_Suc [of "int m" body s] by (simp add: add.commute)
  qed
  from this [of "nat n"] assms(1) show ?thesis by simp
qed

lemma for_to_cong: "(\<And>k t. 0 \<le> k \<Longrightarrow> k < n \<Longrightarrow> body k t = body' k t) \<Longrightarrow> for_to n body s = for_to n body' s"
  unfolding for_to_def by (rule fold_cong) auto

text \<open>A loop of stores to different addresses.\<close>

lemma fold_stores_in:
  assumes "\<And>i j. i < n \<Longrightarrow> j < n \<Longrightarrow> a i = a j \<Longrightarrow> i = j" "k < n"
  shows "fold (\<lambda>k m. m(a k := v k)) [0 ..< n] m (a k) = v (k :: nat)"
  using assms
proof (induction n)
  case (Suc n)
  show ?case
  proof (cases "k = n")
    case False
    then have "a n \<noteq> a k" using Suc.prems(1) [of n k] Suc.prems(2) by auto
    then show ?thesis using Suc False by simp
  qed simp
qed simp

lemma fold_stores_out:
  "(\<And>k. k < n \<Longrightarrow> a k \<noteq> x) \<Longrightarrow> fold (\<lambda>k m. m(a k := v k)) [0 ..< n] m x = m x"
proof (induction n)
  case (Suc n)
  have "fold (\<lambda>k m. m(a k := v k)) [0 ..< n] m x = m x" by (rule Suc.IH) (use Suc.prems in simp)
  moreover have "x \<noteq> a n" using Suc.prems [of n] by auto
  moreover have "fold (\<lambda>k m. m(a k := v k)) [0 ..< Suc n] m = (fold (\<lambda>k m. m(a k := v k)) [0 ..< n] m)(a n := v n)"
    by simp
  ultimately show ?case by (simp only: fun_upd_other not_False_eq_True)
qed simp

lemma for_to_stores_in:
  assumes "\<And>i j. 0 \<le> i \<Longrightarrow> i < n \<Longrightarrow> 0 \<le> j \<Longrightarrow> j < n \<Longrightarrow> a i = a j \<Longrightarrow> i = j" "0 \<le> k" "k < n"
  shows "for_to n (\<lambda>k m. m(a k := v k)) m (a k) = v k"
proof -
  have "fold (\<lambda>k m. m((a \<circ> int) k := (v \<circ> int) k)) [0 ..< nat n] m ((a \<circ> int) (nat k)) = (v \<circ> int) (nat k)"
  proof (rule fold_stores_in)
    fix i j assume "i < nat n" "j < nat n" "(a \<circ> int) i = (a \<circ> int) j"
    then show "i = j" using assms(1) [of "int i" "int j"] by simp
  qed (use assms in simp)
  then show ?thesis using assms(2) by (simp add: for_to_def)
qed

lemma for_to_stores_out:
  assumes "\<And>k. 0 \<le> k \<Longrightarrow> k < n \<Longrightarrow> a k \<noteq> x"
  shows "for_to n (\<lambda>k m. m(a k := v k)) m x = m x"
  using fold_stores_out [of "nat n" "a \<circ> int" x "v \<circ> int" m] assms by (simp add: for_to_def)

lemma store_block_out:
  assumes "\<And>r c. 0 \<le> r \<Longrightarrow> r < ht \<Longrightarrow> 0 \<le> c \<Longrightarrow> c < wd \<Longrightarrow> addr r c \<noteq> x"
  shows "store_block ht wd addr val m x = m x"
proof (cases "0 \<le> ht")
  case True
  have "for_to ht (\<lambda>row. for_to wd (\<lambda>col m. m(addr row col := val row col))) m x = m x"
  proof (rule for_to_inv [where P = "\<lambda>_ t. t x = m x", OF True])
    fix k t assume k: "0 \<le> k" "k < ht" and t: "t x = m x"
    have "for_to wd (\<lambda>col m. m(addr k col := val k col)) t x = t x"
      by (rule for_to_stores_out) (rule assms [OF k])
    then show "for_to wd (\<lambda>col m. m(addr k col := val k col)) t x = m x" using t by simp
  qed simp
  then show ?thesis by (simp add: store_block_def)
qed (simp add: store_block_def)

lemma store_block_in:
  assumes inj: "\<And>r c r' c'. 0 \<le> r \<Longrightarrow> r < ht \<Longrightarrow> 0 \<le> c \<Longrightarrow> c < wd \<Longrightarrow> 0 \<le> r' \<Longrightarrow> r' < ht \<Longrightarrow> 0 \<le> c' \<Longrightarrow> c' < wd \<Longrightarrow>
      addr r c = addr r' c' \<Longrightarrow> r = r' \<and> c = c'"
    and rc: "0 \<le> r" "r < ht" "0 \<le> c" "c < wd"
  shows "store_block ht wd addr val m (addr r c) = val r c"
proof -
  let ?row = "\<lambda>row. for_to wd (\<lambda>col m. m(addr row col := val row col))"
  have "r < n \<longrightarrow> for_to n ?row m (addr r c) = val r c" if "0 \<le> n" "n \<le> ht" for n
  proof (rule for_to_inv [where P = "\<lambda>n t. r < n \<longrightarrow> t (addr r c) = val r c", OF that(1)])
    fix k t assume k: "0 \<le> k" "k < n" and IH: "r < k \<longrightarrow> t (addr r c) = val r c"
    show "r < k + 1 \<longrightarrow> ?row k t (addr r c) = val r c"
    proof (cases "r = k")
      case True
      have "?row r t (addr r c) = val r c"
      proof (rule for_to_stores_in)
        fix i j assume "0 \<le> i" "i < wd" "0 \<le> j" "j < wd" "addr r i = addr r j"
        then show "i = j" using inj [of r i r j] rc by simp
      qed (use rc in simp_all)
      then show ?thesis using True by simp
    next
      case False
      have "?row k t (addr r c) = t (addr r c)"
      proof (rule for_to_stores_out)
        fix i assume "0 \<le> i" "i < wd"
        then show "addr k i \<noteq> addr r c" using inj [of k i r c] rc k that(2) False by auto
      qed
      then show ?thesis using IH False by simp
    qed
  qed (use rc in simp)
  from this [of ht] rc show ?thesis by (simp add: store_block_def)
qed

text \<open>Addresses of a block with a stride at least its width are different.\<close>

lemma block_inj:
  assumes "wd \<le> strd" "0 \<le> c" "c < wd" "0 \<le> c'" "c' < wd" "base + r * strd + c = base + r' * strd + (c' :: int)"
  shows "r = r' \<and> c = c'"
proof -
  have s: "0 \<le> c" "c < strd" "0 \<le> c'" "c' < strd" using assms by simp_all
  have "c = (r * strd + c) mod strd" "c' = (r' * strd + c') mod strd" using s by simp_all
  then have "c = c'" using assms(6) by (metis add.assoc add_left_cancel)
  then show ?thesis using assms(6) s by simp
qed

lemma store_block_strd:
  assumes "wd \<le> strd" "0 \<le> r" "r < ht" "0 \<le> c" "c < wd"
  shows "store_block ht wd (\<lambda>row col. base + row * strd + col) val m (base + r * strd + c) = val r c"
  by (rule store_block_in [where addr = "\<lambda>row col. base + row * strd + col"]) (use assms block_inj in blast)+

text \<open>
  A routine that stores at each address of a set the value the address is to have, whatever the
  order of the stores, and nowhere else.
\<close>

definition writes :: "(int \<Rightarrow> 'v) \<Rightarrow> int set \<Rightarrow> ((int \<Rightarrow> 'v) \<Rightarrow> (int \<Rightarrow> 'v)) \<Rightarrow> bool" where
  "writes w A F \<longleftrightarrow> (\<forall>m a. F m a = (if a \<in> A then w a else m a))"

lemma writes_upd: "v = w x \<Longrightarrow> writes w {x} (\<lambda>m. m(x := v))"
  by (simp add: writes_def)

lemma writes_comp: "writes w A F \<Longrightarrow> writes w B G \<Longrightarrow> writes w (A \<union> B) (\<lambda>m. G (F m))"
  by (simp add: writes_def)

lemma writes_for:
  assumes "\<And>k. 0 \<le> k \<Longrightarrow> k < n \<Longrightarrow> writes w (A k) (body k)"
  shows "writes w (\<Union>k\<in>{0..<n}. A k) (for_to n body)"
proof (cases "0 \<le> n")
  case True
  show ?thesis unfolding writes_def
  proof (intro allI)
    fix m a
    have "for_to n body m a = (if \<exists>j. 0 \<le> j \<and> j < n \<and> a \<in> A j then w a else m a)"
    proof (rule for_to_inv [where P = "\<lambda>k t. t a = (if \<exists>j. 0 \<le> j \<and> j < k \<and> a \<in> A j then w a else m a)", OF True])
      fix k t assume k: "0 \<le> k" "k < n" and t: "t a = (if \<exists>j. 0 \<le> j \<and> j < k \<and> a \<in> A j then w a else m a)"
      have "body k t a = (if a \<in> A k then w a else t a)" using assms [OF k] by (simp add: writes_def)
      moreover have "(\<exists>j. 0 \<le> j \<and> j < k + 1 \<and> a \<in> A j) \<longleftrightarrow> a \<in> A k \<or> (\<exists>j. 0 \<le> j \<and> j < k \<and> a \<in> A j)"
        using k by (metis order_le_less zle_add1_eq_le zless_add1_eq)
      ultimately show "body k t a = (if \<exists>j. 0 \<le> j \<and> j < k + 1 \<and> a \<in> A j then w a else m a)" using t by auto
    qed auto
    moreover have "a \<in> (\<Union>k\<in>{0..<n}. A k) \<longleftrightarrow> (\<exists>j. 0 \<le> j \<and> j < n \<and> a \<in> A j)" by auto
    ultimately show "for_to n body m a = (if a \<in> (\<Union>k\<in>{0..<n}. A k) then w a else m a)" by simp
  qed
qed (simp add: writes_def)

text \<open>
  A block is often reconstructed in place: each value is computed from a value of the same memory.
  The addresses written are different, and one that is read is written only for the same position.
\<close>

definition update_block ::
  "int \<Rightarrow> int \<Rightarrow> (int \<Rightarrow> int \<Rightarrow> int) \<Rightarrow> (int \<Rightarrow> int \<Rightarrow> int) \<Rightarrow> (int \<Rightarrow> int \<Rightarrow> 'v \<Rightarrow> 'v) \<Rightarrow> (int \<Rightarrow> 'v) \<Rightarrow> (int \<Rightarrow> 'v)" where
  "update_block ht wd a b f m = for_to ht (\<lambda>r. for_to wd (\<lambda>c m. m(a r c := f r c (m (b r c))))) m"

definition in_place :: "int \<Rightarrow> int \<Rightarrow> (int \<Rightarrow> int \<Rightarrow> int) \<Rightarrow> (int \<Rightarrow> int \<Rightarrow> int) \<Rightarrow> bool" where
  "in_place ht wd a b \<longleftrightarrow> (\<forall>r c r' c'. 0 \<le> r \<and> r < ht \<and> 0 \<le> c \<and> c < wd \<and> 0 \<le> r' \<and> r' < ht \<and> 0 \<le> c' \<and> c' < wd \<and>
     (a r c = a r' c' \<or> a r c = b r' c') \<longrightarrow> r = r' \<and> c = c')"

text \<open>What holds when the positions of a set have been updated.\<close>

definition updated :: "(int \<times> int) set \<Rightarrow> (int \<Rightarrow> int \<Rightarrow> int) \<Rightarrow> (int \<Rightarrow> int \<Rightarrow> int) \<Rightarrow> (int \<Rightarrow> int \<Rightarrow> 'v \<Rightarrow> 'v) \<Rightarrow> (int \<Rightarrow> 'v) \<Rightarrow> (int \<Rightarrow> 'v) \<Rightarrow> bool" where
  "updated S a b f m t \<longleftrightarrow> (\<forall>r c. (r, c) \<in> S \<longrightarrow> t (a r c) = f r c (m (b r c))) \<and> (\<forall>x. (\<forall>r c. (r, c) \<in> S \<longrightarrow> x \<noteq> a r c) \<longrightarrow> t x = m x)"

lemma updated_step:
  assumes "updated S a b f m t" "S \<subseteq> {0..<ht} \<times> {0..<wd}" "in_place ht wd a b" "0 \<le> r" "r < ht" "0 \<le> c" "c < wd" "(r, c) \<notin> S"
  shows "updated (insert (r, c) S) a b f m (t(a r c := f r c (t (b r c))))"
proof -
  have ne: "a r' c' \<noteq> a r c" "a r' c' \<noteq> b r c" if "(r', c') \<in> S" for r' c'
  proof -
    have "0 \<le> r' \<and> r' < ht \<and> 0 \<le> c' \<and> c' < wd" using that assms(2) by auto
    moreover have "\<not> (r' = r \<and> c' = c)" using that assms(8) by auto
    ultimately show "a r' c' \<noteq> a r c" "a r' c' \<noteq> b r c" using assms(3-7) unfolding in_place_def by blast+
  qed
  have "t (b r c) = m (b r c)" using assms(1) ne(2) by (metis updated_def)
  then show ?thesis using assms(1) ne(1) by (auto simp: updated_def)
qed

lemma update_block_updated:
  assumes "in_place ht wd a b" "0 \<le> ht" "0 \<le> wd"
  shows "updated ({0..<ht} \<times> {0..<wd}) a b f m (update_block ht wd a b f m)"
  unfolding update_block_def
proof (rule for_to_inv [where P = "\<lambda>k. updated ({0..<k} \<times> {0..<wd}) a b f m", OF assms(2)])
  show "updated ({0..<0} \<times> {0..<wd}) a b f m m" by (simp add: updated_def)
  fix k t assume k: "0 \<le> k" "k < ht" and t: "updated ({0..<k} \<times> {0..<wd}) a b f m t"
  have "updated ({0..<k} \<times> {0..<wd} \<union> {k} \<times> {0..<wd}) a b f m (for_to wd (\<lambda>c m. m(a k c := f k c (m (b k c)))) t)"
  proof (rule for_to_inv [where P = "\<lambda>j. updated ({0..<k} \<times> {0..<wd} \<union> {k} \<times> {0..<j}) a b f m", OF assms(3)])
    show "updated ({0..<k} \<times> {0..<wd} \<union> {k} \<times> {0..<0}) a b f m t" using t by simp
    fix j u assume j: "0 \<le> j" "j < wd" and u: "updated ({0..<k} \<times> {0..<wd} \<union> {k} \<times> {0..<j}) a b f m u"
    have "insert (k, j) ({0..<k} \<times> {0..<wd} \<union> {k} \<times> {0..<j}) = {0..<k} \<times> {0..<wd} \<union> {k} \<times> {0..<j + 1}"
      using j by auto
    moreover have "updated (insert (k, j) ({0..<k} \<times> {0..<wd} \<union> {k} \<times> {0..<j})) a b f m (u(a k j := f k j (u (b k j))))"
      by (rule updated_step [OF u _ assms(1) k j]) (use k j in auto)
    ultimately show "updated ({0..<k} \<times> {0..<wd} \<union> {k} \<times> {0..<j + 1}) a b f m (u(a k j := f k j (u (b k j))))" by simp
  qed
  moreover have "{0..<k} \<times> {0..<wd} \<union> {k} \<times> {0..<wd} = {0..<k + 1} \<times> {0..<wd}" using k by auto
  ultimately show "updated ({0..<k + 1} \<times> {0..<wd}) a b f m (for_to wd (\<lambda>c m. m(a k c := f k c (m (b k c)))) t)" by simp
qed

lemma update_block_in:
  assumes "in_place ht wd a b" "0 \<le> r" "r < ht" "0 \<le> c" "c < wd"
  shows "update_block ht wd a b f m (a r c) = f r c (m (b r c))"
  using update_block_updated [OF assms(1), of f m] assms(2-) by (simp add: updated_def)

lemma update_block_out:
  assumes "in_place ht wd a b" "\<And>r c. 0 \<le> r \<Longrightarrow> r < ht \<Longrightarrow> 0 \<le> c \<Longrightarrow> c < wd \<Longrightarrow> x \<noteq> a r c"
  shows "update_block ht wd a b f m x = m x"
proof (cases "0 \<le> ht \<and> 0 \<le> wd")
  case True
  then show ?thesis using update_block_updated [OF assms(1), of f m] assms(2) by (simp add: updated_def)
next
  case False
  have "for_to wd (\<lambda>c m. m(a r c := f r c (m (b r c)))) = (\<lambda>m. m)" if "wd < 0" for r by (rule ext) (use that in simp)
  moreover have "for_to ht (\<lambda>_ m. m) m = m" for m :: "int \<Rightarrow> 'a" by (simp add: for_to_def fold_invariant [where Q = "\<lambda>_. True" and P = "\<lambda>t. t = m"])
  ultimately show ?thesis using False by (auto simp: update_block_def)
qed

lemma update_block_cong:
  assumes "\<And>r c v. 0 \<le> r \<Longrightarrow> r < ht \<Longrightarrow> 0 \<le> c \<Longrightarrow> c < wd \<Longrightarrow> f r c v = g r c v"
  shows "update_block ht wd a b f m = update_block ht wd a b g m"
  unfolding update_block_def
proof (rule for_to_cong)
  fix k t assume "0 \<le> k" "k < ht"
  then show "for_to wd (\<lambda>c m. m(a k c := f k c (m (b k c)))) t = for_to wd (\<lambda>c m. m(a k c := g k c (m (b k c)))) t"
    by (intro for_to_cong) (simp add: assms)
qed

text \<open>The order of the loops does not matter.\<close>

lemma in_place_transpose: "in_place ht wd a b \<Longrightarrow> in_place wd ht (\<lambda>r c. a c r) (\<lambda>r c. b c r)"
  unfolding in_place_def by blast

lemma update_block_transpose:
  assumes "in_place ht wd a b"
  shows "update_block wd ht (\<lambda>r c. a c r) (\<lambda>r c. b c r) (\<lambda>r c. f c r) m = update_block ht wd a b f m"
proof (rule ext)
  fix x
  show "update_block wd ht (\<lambda>r c. a c r) (\<lambda>r c. b c r) (\<lambda>r c. f c r) m x = update_block ht wd a b f m x"
  proof (cases "\<exists>r c. 0 \<le> r \<and> r < ht \<and> 0 \<le> c \<and> c < wd \<and> x = a r c")
    case True
    then obtain r c where rc: "0 \<le> r" "r < ht" "0 \<le> c" "c < wd" "x = a r c" by blast
    show ?thesis
      using update_block_in [OF assms rc(1-4), of f m] rc(5)
        update_block_in [OF in_place_transpose [OF assms] rc(3,4,1,2), of "\<lambda>r c. f c r" m] by simp
  next
    case False
    then have ne: "x \<noteq> a r c" if "0 \<le> r" "r < ht" "0 \<le> c" "c < wd" for r c using that by blast
    have "update_block ht wd a b f m x = m x" by (rule update_block_out [OF assms ne])
    moreover have "update_block wd ht (\<lambda>r c. a c r) (\<lambda>r c. b c r) (\<lambda>r c. f c r) m x = m x"
      by (rule update_block_out [OF in_place_transpose [OF assms]]) (rule ne)
    ultimately show ?thesis by simp
  qed
qed

lemma in_place_step:
  assumes "0 < step" "wd * step \<le> strd"
  shows "in_place ht wd (\<lambda>r c. base + r * strd + c * step) (\<lambda>r c. base + r * strd + c * step)"
  unfolding in_place_def
proof (intro allI impI)
  fix r c r' c' assume a: "0 \<le> r \<and> r < ht \<and> 0 \<le> c \<and> c < wd \<and> 0 \<le> r' \<and> r' < ht \<and> 0 \<le> c' \<and> c' < wd \<and>
    (base + r * strd + c * step = base + r' * strd + c' * step \<or> base + r * strd + c * step = base + r' * strd + c' * step)"
  have "c * step < wd * step" "c' * step < wd * step" "0 \<le> c * step" "0 \<le> c' * step" using a assms(1) by simp_all
  then have "r = r' \<and> c * step = c' * step"
    using block_inj [OF assms(2), of "c * step" "c' * step" base r r'] a by blast
  then show "r = r' \<and> c = c'" using assms(1) by simp
qed

lemma in_place_block: "wd \<le> strd \<Longrightarrow> in_place ht wd (\<lambda>r c. base + r * strd + c) (\<lambda>r c. base + r * strd + c)"
  using in_place_step [of 1 wd strd ht base] by simp

text \<open>The loops over columns that shift a mask of zero columns, the lowest bit being the current column.\<close>

definition for_cols :: "int \<Rightarrow> (int \<Rightarrow> bool \<Rightarrow> 's \<Rightarrow> 's) \<Rightarrow> 32 word \<Rightarrow> 's \<Rightarrow> 's" where
  "for_cols n body zero_cols s =
     fst (for_to n (\<lambda>j (s, zc). (body j (zc AND 1 = 1) s, signed_drop_bit 1 zc)) (s, zero_cols))"

lemma and_one_bit: "(w :: 32 word) AND 1 = 1 \<longleftrightarrow> bit w 0"
  by (simp add: and_one_eq bit_0 odd_iff_mod_2_eq_one)

lemma for_cols_bit:
  assumes "n \<le> 32"
  shows "for_cols n body zc s = for_to n (\<lambda>j. body j (bit zc (nat j))) s"
proof (cases "0 \<le> n")
  case True
  have "n \<le> 32 \<longrightarrow> for_to n (\<lambda>j (s, zc). (body j (zc AND 1 = 1) s, signed_drop_bit 1 zc)) (s, zc) =
    (for_to n (\<lambda>j. body j (bit zc (nat j))) s, signed_drop_bit (nat n) zc)"
    using True
  proof (induction n rule: int_ge_induct)
    case (step i)
    have "bit (signed_drop_bit (nat i) zc) 0 = bit zc (nat i)" if "i < 32"
      using step.hyps that by (simp add: bit_signed_drop_bit_iff)
    then show ?case using step by (simp add: for_to_Suc and_one_bit nat_add_distrib)
  qed simp
  then show ?thesis using assms by (simp add: for_cols_def)
qed (simp add: for_cols_def)

section \<open>Arithmetic\<close>

definition CLIP3 :: "int \<Rightarrow> int \<Rightarrow> int \<Rightarrow> int" where
  "CLIP3 x mn mx = (if x > mx then mx else if x < mn then mn else x)"

definition CLIP_U8 :: "int \<Rightarrow> int" where
  "CLIP_U8 x = CLIP3 x 0 255"

definition CLIP_S16 :: "int \<Rightarrow> int" where
  "CLIP_S16 x = CLIP3 x (- 32768) 32767"

text \<open>A value kept in a \<^verbatim>\<open>WORD16\<close>.\<close>

definition s16 :: "int \<Rightarrow> int" where
  "s16 x = signed_take_bit 15 x"

lemma s16_id: "- 32768 \<le> x \<Longrightarrow> x < 32768 \<Longrightarrow> s16 x = x"
  unfolding s16_def by (rule signed_take_bit_int_eq_self) simp_all

lemma clip_u8_bounds [simp]: "0 \<le> CLIP_U8 x" "CLIP_U8 x \<le> 255"
  by (auto simp: CLIP_U8_def CLIP3_def)

lemma clip_u8_id: "0 \<le> x \<Longrightarrow> x \<le> 255 \<Longrightarrow> CLIP_U8 x = x"
  by (auto simp: CLIP_U8_def CLIP3_def)

lemma uint_u8: "0 \<le> x \<Longrightarrow> x \<le> 255 \<Longrightarrow> uint (word_of_int x :: 8 word) = x"
  by (simp add: uint_word_of_int take_bit_int_eq_self)

lemma uint_clip_u8 [simp]: "uint (word_of_int (CLIP_U8 x) :: 8 word) = CLIP_U8 x"
  by (rule uint_u8) simp_all

lemma sint_s16: "- 32768 \<le> x \<Longrightarrow> x < 32768 \<Longrightarrow> sint (word_of_int x :: 16 word) = x"
  by (simp add: sint_sbintrunc' signed_take_bit_int_eq_self)

lemma uint8_bounds: "0 \<le> uint (w :: 8 word)" "uint (w :: 8 word) \<le> 255"
  using uint_bounded [of w] by simp_all

lemma sint16_bounds: "- 32768 \<le> sint (w :: 16 word)" "sint (w :: 16 word) \<le> 32767"
  using sint_ge [of w] sint_lt [of w] by simp_all

text \<open>A value of the bit depth is stored without loss.\<close>

lemma word_samples:
  assumes "0 \<le> x" "x \<le> 2 ^ depth - 1" "depth \<le> LENGTH('l::len)"
  shows "uint (word_of_int x :: 'l word) = x"
proof -
  have "(2::int) ^ depth \<le> 2 ^ LENGTH('l)" using assms(3) by (intro power_increasing) auto
  then have "x < 2 ^ LENGTH('l)" using assms(2) by linarith
  then show ?thesis using assms(1) by (simp add: uint_word_of_int take_bit_int_eq_self)
qed

text \<open>\<^verbatim>\<open>for(i = 0; i < n; i++) acc += f(i)\<close> in a \<^verbatim>\<open>WORD32\<close> and in a \<^verbatim>\<open>WORD16\<close> accumulator.\<close>

definition mac32 :: "int \<Rightarrow> (int \<Rightarrow> int) \<Rightarrow> int" where
  "mac32 n f = for_to n (\<lambda>i acc. acc + f i) 0"

definition mac16 :: "int \<Rightarrow> (int \<Rightarrow> int) \<Rightarrow> int" where
  "mac16 n f = for_to n (\<lambda>i acc. s16 (acc + f i)) 0"

lemma mac32_Suc: "0 \<le> n \<Longrightarrow> mac32 (n + 1) f = mac32 n f + f n"
  by (simp add: mac32_def for_to_Suc)

lemma mac16_exact:
  assumes "0 \<le> n" "\<And>k. 0 \<le> k \<Longrightarrow> k \<le> n \<Longrightarrow> - 32768 \<le> mac32 k f \<and> mac32 k f < 32768"
  shows "mac16 n f = mac32 n f"
  unfolding mac16_def
proof (rule for_to_inv [where P = "\<lambda>k acc. acc = mac32 k f", OF assms(1)])
  show "0 = mac32 0 f" by (simp add: mac32_def)
  fix k t assume "0 \<le> k" "k < n" "t = mac32 k f"
  then show "s16 (t + f k) = mac32 (k + 1) f" using assms(2) [of "k + 1"] by (simp add: mac32_Suc s16_id)
qed

lemma mac32_unfold:
  "mac32 4 f = f 0 + f 1 + f 2 + f 3"
  "mac32 8 f = f 0 + f 1 + f 2 + f 3 + f 4 + f 5 + f 6 + f 7"
proof -
  have n: "[0 ..< 4] = [0, 1, 2, 3]" "[0 ..< 8] = [0, 1, 2, 3, 4, 5, 6, 7]" by (simp_all add: upt_rec)
  show "mac32 4 f = f 0 + f 1 + f 2 + f 3" "mac32 8 f = f 0 + f 1 + f 2 + f 3 + f 4 + f 5 + f 6 + f 7"
    by (simp_all add: mac32_def for_to_def n)
qed

end
