(* ===== verification/Ref_List.thy ===== *)
theory Ref_List
  imports Dpb_Mgr Bit_Reader Samples
begin

text \<open>
  The reference picture set and the reference picture lists of a slice, \<^verbatim>\<open>decoder/ihevcd_ref_list.c\<close>.
  From the counts the slice header signals, the pictures of the decoded picture buffer are marked as
  long-term or short-term references, the lists are filled by running through the pictures of the set
  cyclically, and the pictures outside the set leave the buffer.

  The arrays of \<^verbatim>\<open>MAX_DPB_SIZE\<close> entries that the function fills from the front are lists; a push
  beyond that size is undefined, and so is reading an entry not yet written. A loop that does not end is
  \<open>None\<close> as well.
\<close>

section \<open>State\<close>

record stref_picset =
  i1_num_neg_pics :: int
  i1_num_pos_pics :: int
  ai1_used :: "int list"
  ai2_delta_poc :: "int list"

record sps =
  i1_log2_max_pic_order_cnt_lsb :: int
  as_stref_picset :: "stref_picset list"

record rplm =
  i1_ref_pic_list_modification_flag_l0 :: int
  i1_list_entry_l0 :: "int list"
  i1_ref_pic_list_modification_flag_l1 :: int
  i1_list_entry_l1 :: "int list"

text \<open>A motion vector buffer is an index into the array the codec allocates them in.\<close>

record ref_list =
  pv_pic_buf :: "nat option"
  pv_mv_buf :: "nat option"

record slice_header =
  i1_slice_type :: int
  i4_abs_pic_order_cnt :: int
  i4_pic_order_cnt_lsb :: int
  i1_short_term_ref_pic_set_sps_flag :: int
  i1_short_term_ref_pic_set_idx :: int
  s_stref_picset :: stref_picset
  i1_num_long_term_sps :: int
  i1_num_long_term_pics :: int
  ai4_poc_lsb_lt :: "int list"
  ai1_used_by_curr_pic_lt_flag :: "int list"
  ai1_delta_poc_msb_present_flag :: "int list"
  ai1_delta_poc_msb_cycle_lt :: "int list"
  i1_num_ref_idx_l0_active :: int
  i1_num_ref_idx_l1_active :: int
  s_rplm :: rplm
  as_ref_pic_list0 :: "ref_list list"
  as_ref_pic_list1 :: "ref_list list"

abbreviation (input) MAX_DPB_SIZE :: nat where "MAX_DPB_SIZE \<equiv> 16"
abbreviation (input) BSLICE :: int where "BSLICE \<equiv> 0"
abbreviation (input) PSLICE :: int where "PSLICE \<equiv> 1"
abbreviation (input) LONG_TERM_REF :: u8 where "LONG_TERM_REF \<equiv> 1"

datatype ref_list_error = IHEVCD_SUCCESS | IHEVCD_REF_PIC_NOT_FOUND

text \<open>The result is an \<open>int\<close> of type \<^verbatim>\<open>WORD32\<close> or overflows.\<close>

definition w32 :: "int \<Rightarrow> int option" where
  "w32 x = do { require (in_w32 x); Some x }"

definition push :: "'a list \<Rightarrow> 'a \<Rightarrow> 'a list option" where
  "push xs x = do { require (length xs < MAX_DPB_SIZE); Some (xs @ [x]) }"

section \<open>The reference picture set\<close>

text \<open>A short-term loop, \<open>n\<close> entries from \<open>i\<close> on: counts used by the picture, counts of later ones.\<close>

fun st_loop :: "int \<Rightarrow> int list \<Rightarrow> int list \<Rightarrow> nat \<Rightarrow> int \<Rightarrow> int list \<Rightarrow> int list \<Rightarrow> (int list \<times> int list) option" where
  "st_loop poc pi1_used pi2_delta_poc 0 i cur foll = Some (cur, foll)"
| "st_loop poc pi1_used pi2_delta_poc (Suc n) i cur foll = do {
     used \<leftarrow> rdi pi1_used i;
     delta \<leftarrow> rdi pi2_delta_poc i;
     p \<leftarrow> w32 (poc + delta);
     if used \<noteq> 0 then do {
       cur \<leftarrow> push cur p;
       st_loop poc pi1_used pi2_delta_poc n (i + 1) cur foll
     } else do {
       foll \<leftarrow> push foll p;
       st_loop poc pi1_used pi2_delta_poc n (i + 1) cur foll
     }
   }"

text \<open>The count of long-term entry \<open>i\<close>: low bits, or the whole count when the high bits are present.\<close>

definition lt_poc :: "slice_header \<Rightarrow> int \<Rightarrow> int \<Rightarrow> int option" where
  "lt_poc sh u4_max_poc_lsb i = do {
     p \<leftarrow> rdi (ai4_poc_lsb_lt sh) i;
     msb \<leftarrow> rdi (ai1_delta_poc_msb_present_flag sh) i;
     if msb \<noteq> 0 then do {
       cycle \<leftarrow> rdi (ai1_delta_poc_msb_cycle_lt sh) i;
       t \<leftarrow> w32 (cycle * u4_max_poc_lsb);
       t \<leftarrow> w32 (i4_abs_pic_order_cnt sh - t);
       t \<leftarrow> w32 (t - i4_pic_order_cnt_lsb sh);
       w32 (p + t)
     } else Some p
   }"

text \<open>The long-term loop; a count carries its \<^verbatim>\<open>delta_poc_msb_present_flag\<close>.\<close>

fun lt_loop :: "slice_header \<Rightarrow> int \<Rightarrow> nat \<Rightarrow> int \<Rightarrow> (int \<times> int) list \<Rightarrow> (int \<times> int) list \<Rightarrow>
    ((int \<times> int) list \<times> (int \<times> int) list) option" where
  "lt_loop sh u4_max_poc_lsb 0 i cur foll = Some (cur, foll)"
| "lt_loop sh u4_max_poc_lsb (Suc n) i cur foll = do {
     p \<leftarrow> lt_poc sh u4_max_poc_lsb i;
     msb \<leftarrow> rdi (ai1_delta_poc_msb_present_flag sh) i;
     used \<leftarrow> rdi (ai1_used_by_curr_pic_lt_flag sh) i;
     if used \<noteq> 0 then do {
       cur \<leftarrow> push cur (p, msb);
       lt_loop sh u4_max_poc_lsb n (i + 1) cur foll
     } else do {
       foll \<leftarrow> push foll (p, msb);
       lt_loop sh u4_max_poc_lsb n (i + 1) cur foll
     }
   }"

record ref_pic_set =
  ai4_poc_st_curr_before :: "int list"
  ai4_poc_st_curr_after :: "int list"
  ai4_poc_st_foll :: "int list"
  ai4_poc_lt_curr :: "(int \<times> int) list"
  ai4_poc_lt_foll :: "(int \<times> int) list"

definition derive_rps :: "sps \<Rightarrow> slice_header \<Rightarrow> ref_pic_set option" where
  "derive_rps ps_sps sh = do {
     require (0 \<le> i1_log2_max_pic_order_cnt_lsb ps_sps \<and> i1_log2_max_pic_order_cnt_lsb ps_sps < 31);
     let u4_max_poc_lsb = 2 ^ nat (i1_log2_max_pic_order_cnt_lsb ps_sps);
     rps \<leftarrow> (if 1 = i1_short_term_ref_pic_set_sps_flag sh
            then rdi (as_stref_picset ps_sps) (i1_short_term_ref_pic_set_idx sh) else Some (s_stref_picset sh));
     let poc = i4_abs_pic_order_cnt sh;
     (before, foll) \<leftarrow> st_loop poc (ai1_used rps) (ai2_delta_poc rps) (nat (i1_num_neg_pics rps)) 0 [] [];
     (after, foll) \<leftarrow> st_loop poc (ai1_used rps) (ai2_delta_poc rps) (nat (i1_num_pos_pics rps))
       (i1_num_neg_pics rps) [] foll;
     (lt_curr, lt_foll) \<leftarrow> lt_loop sh u4_max_poc_lsb (nat (i1_num_long_term_sps sh + i1_num_long_term_pics sh)) 0 [] [];
     Some \<lparr> ai4_poc_st_curr_before = before, ai4_poc_st_curr_after = after, ai4_poc_st_foll = foll,
       ai4_poc_lt_curr = lt_curr, ai4_poc_lt_foll = lt_foll \<rparr>
   }"

section \<open>Marking\<close>

fun clear_marks :: "pics \<Rightarrow> dpb_info list \<Rightarrow> pics option" where
  "clear_marks h [] = Some h"
| "clear_marks h (nd # nds) =
     (case ps_pic_buf nd of
        None \<Rightarrow> clear_marks h nds
      | Some a \<Rightarrow> do { pic \<leftarrow> h a; clear_marks (h(a \<mapsto> pic \<lparr> u1_used_as_ref := UNUSED_FOR_REF \<rparr>)) nds })"

text \<open>A search and the mark on what it finds.\<close>

definition mark_found :: "pics \<Rightarrow> u8 \<Rightarrow> nat option \<Rightarrow> pics option" where
  "mark_found h v r = (case r of
     None \<Rightarrow> Some h
   | Some a \<Rightarrow> do { pic \<leftarrow> h a; Some (h(a \<mapsto> pic \<lparr> u1_used_as_ref := v \<rparr>)) })"

fun mark_lt :: "dpb_mgr \<Rightarrow> pics \<Rightarrow> (int \<times> int) list \<Rightarrow> (nat option list \<times> pics) option" where
  "mark_lt d h [] = Some ([], h)"
| "mark_lt d h ((poc, msb) # ps) = do {
     r \<leftarrow> (if 0 = msb then ihevc_dpb_mgr_get_ref_by_poc_lsb d h poc else ihevc_dpb_mgr_get_ref_by_poc d h poc);
     h \<leftarrow> mark_found h LONG_TERM_REF r;
     (rs, h) \<leftarrow> mark_lt d h ps;
     Some (r # rs, h)
   }"

fun mark_st :: "dpb_mgr \<Rightarrow> pics \<Rightarrow> int list \<Rightarrow> (nat option list \<times> pics) option" where
  "mark_st d h [] = Some ([], h)"
| "mark_st d h (poc # ps) = do {
     r \<leftarrow> ihevc_dpb_mgr_get_ref_by_poc d h poc;
     h \<leftarrow> mark_found h SHORT_TERM_REF r;
     (rs, h) \<leftarrow> mark_st d h ps;
     Some (r # rs, h)
   }"

text \<open>The five marking loops: the pictures used by the current one, before, after and long-term.\<close>

definition mark_rps :: "dpb_mgr \<Rightarrow> pics \<Rightarrow> int \<Rightarrow> ref_pic_set \<Rightarrow>
    (nat option list \<times> nat option list \<times> nat option list \<times> pics) option" where
  "mark_rps d h i4_pic_present s = do {
     h \<leftarrow> (if 0 = i4_pic_present then clear_marks h (as_dpb_info d) else Some h);
     (lt_curr, h) \<leftarrow> mark_lt d h (ai4_poc_lt_curr s);
     (_, h) \<leftarrow> mark_lt d h (ai4_poc_lt_foll s);
     (before, h) \<leftarrow> mark_st d h (ai4_poc_st_curr_before s);
     (after, h) \<leftarrow> mark_st d h (ai4_poc_st_curr_after s);
     (_, h) \<leftarrow> mark_st d h (ai4_poc_st_foll s);
     Some (before, after, lt_curr, h)
   }"

section \<open>The lists\<close>

text \<open>One loop over the pictures of a part of the set, each with its count, until \<open>n\<close> entries are
  there. A missing picture is replaced by the nearest one, also for the next round.\<close>

fun fill_part :: "dpb_mgr \<Rightarrow> pics \<Rightarrow> nat \<Rightarrow> (int \<times> nat option) list \<Rightarrow> nat option list \<Rightarrow>
    ((int \<times> nat option) list \<times> nat option list) option" where
  "fill_part d h n [] tmp = Some ([], tmp)"
| "fill_part d h n ((poc, r) # rs) tmp =
     (if length tmp < n then do {
        r \<leftarrow> (if r = None then ihevc_dpb_mgr_get_ref_by_nearest_poc d h poc else Some r);
        tmp \<leftarrow> push tmp r;
        (rs, tmp) \<leftarrow> fill_part d h n rs tmp;
        Some ((poc, r) # rs, tmp)
      } else Some ((poc, r) # rs, tmp))"

fun fill_parts :: "dpb_mgr \<Rightarrow> pics \<Rightarrow> nat \<Rightarrow> (int \<times> nat option) list list \<Rightarrow> nat option list \<Rightarrow>
    ((int \<times> nat option) list list \<times> nat option list) option" where
  "fill_parts d h n [] tmp = Some ([], tmp)"
| "fill_parts d h n (p # ps) tmp = do {
     (p, tmp) \<leftarrow> fill_part d h n p tmp;
     (ps, tmp) \<leftarrow> fill_parts d h n ps tmp;
     Some (p # ps, tmp)
   }"

partial_function (option) fill_while :: "dpb_mgr \<Rightarrow> pics \<Rightarrow> nat \<Rightarrow> (int \<times> nat option) list list \<Rightarrow> nat option list \<Rightarrow>
    ((int \<times> nat option) list list \<times> nat option list) option" where
  "fill_while d h n ps tmp =
     (if length tmp < n then
        Option.bind (fill_parts d h n ps tmp) (\<lambda>(ps, tmp). fill_while d h n ps tmp)
      else Some (ps, tmp))"

declare fill_while.simps [code]

text \<open>The motion vector buffer of a picture: the last one looked at when none has the count.\<close>

fun mv_scan :: "int list \<Rightarrow> int \<Rightarrow> nat option list \<Rightarrow> nat option \<Rightarrow> nat option option" where
  "mv_scan mvs abs_poc [] ps_mv_buf = Some ps_mv_buf"
| "mv_scan mvs abs_poc (p # ps) ps_mv_buf =
     (case p of
        None \<Rightarrow> mv_scan mvs abs_poc ps p
      | Some j \<Rightarrow> do { i4_poc \<leftarrow> rd mvs j; if i4_poc = abs_poc then Some p else mv_scan mvs abs_poc ps p })"

definition ihevcd_mv_mgr_get_poc :: "int list \<Rightarrow> buf_mgr \<Rightarrow> int \<Rightarrow> nat option option" where
  "ihevcd_mv_mgr_get_poc mvs mb abs_poc = do {
     require (unat (u4_max_buf_cnt mb) \<le> length (apv_ptr mb));
     mv_scan mvs abs_poc (take (unat (u4_max_buf_cnt mb)) (apv_ptr mb)) None
   }"

text \<open>The loop over the active entries, \<open>n\<close> more from \<open>r_idx\<close> on.\<close>

fun entry_loop :: "int list \<Rightarrow> buf_mgr \<Rightarrow> pics \<Rightarrow> int \<Rightarrow> int list \<Rightarrow> nat option list \<Rightarrow> nat \<Rightarrow> nat \<Rightarrow> ref_list list \<Rightarrow>
    (ref_list_error \<times> ref_list list) option" where
  "entry_loop mvs mb h flag entry tmp 0 r_idx xs = Some (IHEVCD_SUCCESS, xs)"
| "entry_loop mvs mb h flag entry tmp (Suc n) r_idx xs = do {
     k \<leftarrow> (if flag \<noteq> 0 then rd entry r_idx else Some (int r_idx));
     p \<leftarrow> rdi tmp k;
     x \<leftarrow> rd xs r_idx;
     xs \<leftarrow> wr xs r_idx (x \<lparr> pv_pic_buf := p \<rparr>);
     case p of
       None \<Rightarrow> Some (IHEVCD_REF_PIC_NOT_FOUND, xs)
     | Some a \<Rightarrow> do {
         pic \<leftarrow> h a;
         mv \<leftarrow> ihevcd_mv_mgr_get_poc mvs mb (i4_abs_poc pic);
         xs \<leftarrow> wr xs r_idx (x \<lparr> pv_pic_buf := p, pv_mv_buf := mv \<rparr>);
         entry_loop mvs mb h flag entry tmp n (r_idx + 1) xs
       }
   }"

text \<open>The number of entries to fill: all pictures of the set, or more when more are active.\<close>

definition temp_entries :: "nat \<Rightarrow> int \<Rightarrow> nat" where
  "temp_entries u4_num_total_curr num_active =
     nat (if int u4_num_total_curr > num_active then int u4_num_total_curr else num_active)"

definition build_lists :: "dpb_mgr \<Rightarrow> pics \<Rightarrow> int list \<Rightarrow> buf_mgr \<Rightarrow>
    (int \<times> nat option) list \<Rightarrow> (int \<times> nat option) list \<Rightarrow> (int \<times> nat option) list \<Rightarrow> slice_header \<Rightarrow>
    (ref_list_error \<times> slice_header) option" where
  "build_lists d h mvs mb before after lt sh =
     (let num_total = length lt + length after + length before in
      if PSLICE = i1_slice_type sh \<or> BSLICE = i1_slice_type sh then do {
        (cs, tmp) \<leftarrow> fill_while d h (temp_entries num_total (i1_num_ref_idx_l0_active sh)) [before, after, lt] [];
        (ret, xs) \<leftarrow> entry_loop mvs mb h (i1_ref_pic_list_modification_flag_l0 (s_rplm sh)) (i1_list_entry_l0 (s_rplm sh))
          tmp (nat (i1_num_ref_idx_l0_active sh)) 0 (as_ref_pic_list0 sh);
        let sh = sh \<lparr> as_ref_pic_list0 := xs \<rparr>;
        if ret \<noteq> IHEVCD_SUCCESS then Some (ret, sh)
        else if i1_slice_type sh = BSLICE then do {
          (cs, tmp) \<leftarrow> fill_while d h (temp_entries num_total (i1_num_ref_idx_l1_active sh)) [cs ! 1, cs ! 0, cs ! 2] [];
          (ret, xs) \<leftarrow> entry_loop mvs mb h (i1_ref_pic_list_modification_flag_l1 (s_rplm sh)) (i1_list_entry_l1 (s_rplm sh))
            tmp (nat (i1_num_ref_idx_l1_active sh)) 0 (as_ref_pic_list1 sh);
          Some (ret, sh \<lparr> as_ref_pic_list1 := xs \<rparr>)
        } else Some (IHEVCD_SUCCESS, sh)
      } else Some (IHEVCD_SUCCESS, sh))"

definition ihevcd_ref_list :: "dpb_mgr \<Rightarrow> buf_mgr \<Rightarrow> pics \<Rightarrow> int list \<Rightarrow> buf_mgr \<Rightarrow> int \<Rightarrow> sps \<Rightarrow> slice_header \<Rightarrow>
    (ref_list_error \<times> dpb_mgr \<times> buf_mgr \<times> pics \<times> buf_mgr \<times> slice_header) option" where
  "ihevcd_ref_list d b h mvs mb i4_pic_present ps_sps sh = do {
     s \<leftarrow> derive_rps ps_sps sh;
     (before, after, lt, h) \<leftarrow> mark_rps d h i4_pic_present s;
     (ret, sh) \<leftarrow> build_lists d h mvs mb (zip (ai4_poc_st_curr_before s) before) (zip (ai4_poc_st_curr_after s) after)
       (zip (map fst (ai4_poc_lt_curr s)) lt) sh;
     if ret \<noteq> IHEVCD_SUCCESS then Some (ret, d, b, h, mb, sh)
     else do {
       (d, b, mb) \<leftarrow> drop_unused h mvs d b mb;
       Some (IHEVCD_SUCCESS, d, b, h, mb, sh)
     }
   }"


section \<open>The modification of the lists\<close>

text \<open>\<^verbatim>\<open>ihevcd_ref_pic_list_modification\<close> of \<^verbatim>\<open>decoder/ihevcd_parse_slice_header.c\<close>: the entries are
  read with just enough bits for the number of pictures and clipped to it; \<open>s8\<close> is the value stored in
  a \<^verbatim>\<open>WORD8\<close>.\<close>

definition s8 :: "u32 \<Rightarrow> int" where
  "s8 v = sint (ucast v :: 8 word)"

fun entry_parse :: "int \<Rightarrow> u32 \<Rightarrow> nat \<Rightarrow> nat \<Rightarrow> int list \<Rightarrow> bitstrm \<Rightarrow> (int list \<times> bitstrm) option" where
  "entry_parse num_poc_total_curr num_bits 0 i entry bs = Some (entry, bs)"
| "entry_parse num_poc_total_curr num_bits (Suc n) i entry bs = do {
     (v, bs) \<leftarrow> ihevcd_bits_get bs num_bits;
     entry \<leftarrow> wr entry i (CLIP3 (s8 v) 0 (num_poc_total_curr - 1));
     entry_parse num_poc_total_curr num_bits n (i + 1) entry bs
   }"

definition num_bits_list_entry :: "int \<Rightarrow> u32" where
  "num_bits_list_entry num_poc_total_curr = (let t = word_of_int num_poc_total_curr :: u32; n = 32 - CLZ t in
     (if 0 = t AND (t - 1) then n - 1 else n))"

text \<open>The flag of one list and its entries.\<close>

definition list_parse :: "int \<Rightarrow> int \<Rightarrow> int list \<Rightarrow> bitstrm \<Rightarrow> (int \<times> int list \<times> bitstrm) option" where
  "list_parse num_poc_total_curr num_active entry bs = do {
     (v, bs) \<leftarrow> ihevcd_bits_get bs 1;
     if s8 v \<noteq> 0 then do {
       (entry, bs) \<leftarrow> entry_parse num_poc_total_curr (num_bits_list_entry num_poc_total_curr) (nat num_active) 0 entry bs;
       Some (s8 v, entry, bs)
     } else Some (s8 v, entry, bs)
   }"

definition ihevcd_ref_pic_list_modification :: "bitstrm \<Rightarrow> slice_header \<Rightarrow> int \<Rightarrow> (slice_header \<times> bitstrm) option" where
  "ihevcd_ref_pic_list_modification bs sh num_poc_total_curr = do {
     (sh, bs) \<leftarrow> (if i1_slice_type sh = PSLICE \<or> i1_slice_type sh = BSLICE then do {
         (flag, es, bs) \<leftarrow> list_parse num_poc_total_curr (i1_num_ref_idx_l0_active sh) (i1_list_entry_l0 (s_rplm sh)) bs;
         Some (sh \<lparr> s_rplm := (s_rplm sh) \<lparr> i1_ref_pic_list_modification_flag_l0 := flag, i1_list_entry_l0 := es \<rparr> \<rparr>, bs)
       } else Some (sh, bs));
     if i1_slice_type sh = BSLICE then do {
       (flag, es, bs) \<leftarrow> list_parse num_poc_total_curr (i1_num_ref_idx_l1_active sh) (i1_list_entry_l1 (s_rplm sh)) bs;
       Some (sh \<lparr> s_rplm := (s_rplm sh) \<lparr> i1_ref_pic_list_modification_flag_l1 := flag, i1_list_entry_l1 := es \<rparr> \<rparr>, bs)
     } else Some (sh, bs)
   }"

section \<open>The marked pictures\<close>

text \<open>Two heaps that differ in the reference marks only.\<close>

definition same_pics :: "pics \<Rightarrow> pics \<Rightarrow> bool" where
  "same_pics h h' \<longleftrightarrow> (\<forall>a. map_option (\<lambda>pic. pic \<lparr> u1_used_as_ref := 0 \<rparr>) (h a) =
     map_option (\<lambda>pic. pic \<lparr> u1_used_as_ref := 0 \<rparr>) (h' a))"

definition used :: "pics \<Rightarrow> nat \<Rightarrow> u8" where
  "used h a = u1_used_as_ref (the (h a))"

lemma same_pics_refl [simp]: "same_pics h h"
  by (simp add: same_pics_def)

lemma same_pics_trans: "same_pics h h' \<Longrightarrow> same_pics h' h'' \<Longrightarrow> same_pics h h''"
  by (simp add: same_pics_def)

lemma same_pics_mark: "h a = Some pic \<Longrightarrow> same_pics h (h(a \<mapsto> pic \<lparr> u1_used_as_ref := v \<rparr>))"
  by (simp add: same_pics_def)

lemma same_picsD:
  assumes "same_pics h h'"
  shows "h' a = None \<longleftrightarrow> h a = None"
    "h a \<noteq> None \<Longrightarrow> i4_abs_poc (the (h' a)) = i4_abs_poc (the (h a))"
    "h a \<noteq> None \<Longrightarrow> i4_poc_lsb (the (h' a)) = i4_poc_lsb (the (h a))"
    "h a \<noteq> None \<Longrightarrow> u1_buf_id (the (h' a)) = u1_buf_id (the (h a))"
proof -
  have eq: "map_option (\<lambda>pic. pic \<lparr> u1_used_as_ref := 0 \<rparr>) (h a) = map_option (\<lambda>pic. pic \<lparr> u1_used_as_ref := 0 \<rparr>) (h' a)"
    using assms by (simp add: same_pics_def)
  then show "h' a = None \<longleftrightarrow> h a = None" by (cases "h a"; cases "h' a") simp_all
  show "h a \<noteq> None \<Longrightarrow> i4_abs_poc (the (h' a)) = i4_abs_poc (the (h a))"
    "h a \<noteq> None \<Longrightarrow> i4_poc_lsb (the (h' a)) = i4_poc_lsb (the (h a))"
    "h a \<noteq> None \<Longrightarrow> u1_buf_id (the (h' a)) = u1_buf_id (the (h a))"
    using eq by (cases "h a"; cases "h' a"; cases "the (h a)"; cases "the (h' a)"; simp)+
qed

text \<open>What the searches find, and the mark a picture ends up with.\<close>

definition lookup :: "dpb_mgr \<Rightarrow> pics \<Rightarrow> int \<Rightarrow> nat option" where
  "lookup d h poc = find (\<lambda>a. i4_abs_poc (the (h a)) = poc) (dpb_refs d)"

definition lookup_lt :: "dpb_mgr \<Rightarrow> pics \<Rightarrow> int \<times> int \<Rightarrow> nat option" where
  "lookup_lt d h p = (if snd p = 0 then find (\<lambda>a. i4_poc_lsb (the (h a)) = fst p) (dpb_refs d) else lookup d h (fst p))"

definition st_pics :: "dpb_mgr \<Rightarrow> pics \<Rightarrow> ref_pic_set \<Rightarrow> nat set" where
  "st_pics d h s = {a. Some a \<in> lookup d h ` (set (ai4_poc_st_curr_before s) \<union> set (ai4_poc_st_curr_after s) \<union> set (ai4_poc_st_foll s))}"

definition lt_pics :: "dpb_mgr \<Rightarrow> pics \<Rightarrow> ref_pic_set \<Rightarrow> nat set" where
  "lt_pics d h s = {a. Some a \<in> lookup_lt d h ` (set (ai4_poc_lt_curr s) \<union> set (ai4_poc_lt_foll s))}"

definition rps_mark :: "dpb_mgr \<Rightarrow> pics \<Rightarrow> int \<Rightarrow> ref_pic_set \<Rightarrow> nat \<Rightarrow> u8" where
  "rps_mark d h i4_pic_present s a = (if a \<in> st_pics d h s then SHORT_TERM_REF
     else if a \<in> lt_pics d h s then LONG_TERM_REF
     else if i4_pic_present = 0 then UNUSED_FOR_REF else used h a)"

lemma find_cong_set: "(\<And>x. x \<in> set xs \<Longrightarrow> P x = Q x) \<Longrightarrow> find P xs = find Q xs"
  by (induction xs) auto

lemma lookup_same:
  assumes "same_pics h h'" "pics_in h d"
  shows "lookup d h' = lookup d h" "lookup_lt d h' = lookup_lt d h"
proof -
  have a: "h a \<noteq> None" if "a \<in> set (dpb_refs d)" for a using assms(2) that by (auto simp: pics_in_def)
  show *: "lookup d h' = lookup d h"
    unfolding lookup_def using same_picsD(2) [OF assms(1) a] by (intro ext find_cong_set) auto
  show "lookup_lt d h' = lookup_lt d h"
    unfolding lookup_lt_def * using same_picsD(3) [OF assms(1) a] by (intro ext if_cong refl find_cong_set) auto
qed

lemma pics_in_same: "same_pics h h' \<Longrightarrow> pics_in h d \<Longrightarrow> pics_in h' d"
  using same_picsD(1) by (fastforce simp: pics_in_def)

lemma find_Some_in: "find P xs = Some x \<Longrightarrow> x \<in> set xs \<and> P x"
  by (induction xs) (auto split: if_splits)

lemma lookup_in: "lookup d h p = Some a \<Longrightarrow> a \<in> set (dpb_refs d)" "lookup_lt d h q = Some a \<Longrightarrow> a \<in> set (dpb_refs d)"
  by (auto simp: lookup_def lookup_lt_def dest!: find_Some_in split: if_splits)

lemma get_ref_lookup:
  assumes "dpb_ok d" "pics_in h d"
  shows "ihevc_dpb_mgr_get_ref_by_poc d h poc = Some (lookup d h poc)"
    "(if 0 = snd p then ihevc_dpb_mgr_get_ref_by_poc_lsb d h (fst p) else ihevc_dpb_mgr_get_ref_by_poc d h (fst p)) =
       Some (lookup_lt d h p)"
  using get_ref_spec [OF assms]
  by (simp_all add: ihevc_dpb_mgr_get_ref_by_poc_def ihevc_dpb_mgr_get_ref_by_poc_lsb_def lookup_def lookup_lt_def)

lemma mark_found_spec:
  assumes "pics_in h d" "\<forall>a. r = Some a \<longrightarrow> a \<in> set (dpb_refs d)"
  shows "\<exists>h'. mark_found h v r = Some h' \<and> same_pics h h' \<and> (\<forall>a. used h' a = (if r = Some a then v else used h a))"
proof (cases r)
  case (Some a)
  then obtain pic where "h a = Some pic" using assms by (auto simp: pics_in_def)
  then show ?thesis using Some same_pics_mark by (auto simp: mark_found_def used_def)
qed (simp add: mark_found_def)

lemma mark_st_spec:
  assumes "dpb_ok d" "pics_in h d"
  shows "\<exists>h'. mark_st d h ps = Some (map (lookup d h) ps, h') \<and> same_pics h h' \<and>
    (\<forall>a. used h' a = (if Some a \<in> lookup d h ` set ps then SHORT_TERM_REF else used h a))"
  using assms(2)
proof (induction ps arbitrary: h)
  case (Cons p ps)
  obtain h1 where h1: "mark_found h SHORT_TERM_REF (lookup d h p) = Some h1" "same_pics h h1"
      "\<forall>a. used h1 a = (if lookup d h p = Some a then SHORT_TERM_REF else used h a)"
    using mark_found_spec [OF Cons.prems, of "lookup d h p"] lookup_in by blast
  note s = lookup_same [OF h1(2) Cons.prems]
  from Cons.IH [OF pics_in_same [OF h1(2) Cons.prems]] obtain h2 where
    "mark_st d h1 ps = Some (map (lookup d h) ps, h2)" "same_pics h1 h2"
    "\<forall>a. used h2 a = (if Some a \<in> lookup d h ` set ps then SHORT_TERM_REF else used h1 a)"
    unfolding s by blast
  then show ?case
    using get_ref_lookup(1) [OF assms(1) Cons.prems] h1 same_pics_trans by (auto simp: image_iff)
qed simp

lemma mark_lt_spec:
  assumes "dpb_ok d" "pics_in h d"
  shows "\<exists>h'. mark_lt d h ps = Some (map (lookup_lt d h) ps, h') \<and> same_pics h h' \<and>
    (\<forall>a. used h' a = (if Some a \<in> lookup_lt d h ` set ps then LONG_TERM_REF else used h a))"
  using assms(2)
proof (induction ps arbitrary: h)
  case (Cons p ps)
  obtain h1 where h1: "mark_found h LONG_TERM_REF (lookup_lt d h p) = Some h1" "same_pics h h1"
      "\<forall>a. used h1 a = (if lookup_lt d h p = Some a then LONG_TERM_REF else used h a)"
    using mark_found_spec [OF Cons.prems, of "lookup_lt d h p"] lookup_in by blast
  note s = lookup_same [OF h1(2) Cons.prems]
  from Cons.IH [OF pics_in_same [OF h1(2) Cons.prems]] obtain h2 where
    "mark_lt d h1 ps = Some (map (lookup_lt d h) ps, h2)" "same_pics h1 h2"
    "\<forall>a. used h2 a = (if Some a \<in> lookup_lt d h ` set ps then LONG_TERM_REF else used h1 a)"
    unfolding s by blast
  moreover have "(if 0 = snd p then ihevc_dpb_mgr_get_ref_by_poc_lsb d h (fst p) else ihevc_dpb_mgr_get_ref_by_poc d h (fst p)) =
       Some (lookup_lt d h p)" by (rule get_ref_lookup(2) [OF assms(1) Cons.prems])
  ultimately show ?case
    using h1 same_pics_trans by (cases p) (auto simp: image_iff)
qed simp

lemma clear_marks_spec:
  assumes "\<forall>nd \<in> set nds. \<forall>a. ps_pic_buf nd = Some a \<longrightarrow> h a \<noteq> None"
  shows "\<exists>h'. clear_marks h nds = Some h' \<and> same_pics h h' \<and>
    (\<forall>a. used h' a = (if \<exists>nd \<in> set nds. ps_pic_buf nd = Some a then UNUSED_FOR_REF else used h a))"
  using assms
proof (induction nds arbitrary: h)
  case (Cons nd nds)
  show ?case
  proof (cases "ps_pic_buf nd")
    case None
    then show ?thesis using Cons by simp
  next
    case (Some a)
    then obtain pic where pic: "h a = Some pic" using Cons.prems by auto
    let ?h = "h(a \<mapsto> pic \<lparr> u1_used_as_ref := UNUSED_FOR_REF \<rparr>)"
    have s: "same_pics h ?h" by (rule same_pics_mark [of h, OF pic])
    have "\<forall>nd \<in> set nds. \<forall>a. ps_pic_buf nd = Some a \<longrightarrow> ?h a \<noteq> None" using Cons.prems by auto
    from Cons.IH [OF this] obtain h' where "clear_marks ?h nds = Some h'" "same_pics ?h h'"
      "\<forall>a. used h' a = (if \<exists>nd \<in> set nds. ps_pic_buf nd = Some a then UNUSED_FOR_REF else used ?h a)" by blast
    moreover from this(3) have
      "\<forall>x. used h' x = (if \<exists>n \<in> set (nd # nds). ps_pic_buf n = Some x then UNUSED_FOR_REF else used h x)"
      using Some by (simp add: used_def)
    ultimately show ?thesis using Some pic same_pics_trans [OF s] by auto
  qed
qed simp

lemma mark_rps_spec:
  assumes ok: "dpb_ok d" and pics: "pics_in h d"
  shows "\<exists>h'. mark_rps d h i4_pic_present s =
      Some (map (lookup d h) (ai4_poc_st_curr_before s), map (lookup d h) (ai4_poc_st_curr_after s),
        map (lookup_lt d h) (ai4_poc_lt_curr s), h') \<and> same_pics h h' \<and>
    (\<forall>a \<in> set (dpb_refs d). used h' a = rps_mark d h i4_pic_present s a)"
proof -
  have len: "length (as_dpb_info d) = 64" by (rule dpb_okD(1) [OF ok])
  have slot: "(\<exists>nd \<in> set (as_dpb_info d). ps_pic_buf nd = Some a) \<longleftrightarrow> a \<in> set (dpb_refs d)" for a
    unfolding refs_iff [OF ok] using len by (metis in_set_conv_nth)
  have "\<forall>nd \<in> set (as_dpb_info d). \<forall>a. ps_pic_buf nd = Some a \<longrightarrow> h a \<noteq> None"
    using slot pics by (auto simp: pics_in_def)
  from clear_marks_spec [OF this] obtain h0 where h0:
    "(if 0 = i4_pic_present then clear_marks h (as_dpb_info d) else Some h) = Some h0" "same_pics h h0"
    "\<forall>a \<in> set (dpb_refs d). used h0 a = (if i4_pic_present = 0 then UNUSED_FOR_REF else used h a)"
    unfolding slot by (cases "i4_pic_present = 0") auto
  note L0 = lookup_same [OF h0(2) pics] and p0 = pics_in_same [OF h0(2) pics]
  obtain h1 where h1: "mark_lt d h0 (ai4_poc_lt_curr s) = Some (map (lookup_lt d h) (ai4_poc_lt_curr s), h1)"
    "same_pics h0 h1" "\<forall>a. used h1 a = (if Some a \<in> lookup_lt d h ` set (ai4_poc_lt_curr s) then LONG_TERM_REF else used h0 a)"
    using mark_lt_spec [OF ok p0] unfolding L0 by blast
  note L1 = lookup_same [OF h1(2) p0, unfolded L0] and p1 = pics_in_same [OF h1(2) p0]
  obtain h2 where h2: "mark_lt d h1 (ai4_poc_lt_foll s) = Some (map (lookup_lt d h) (ai4_poc_lt_foll s), h2)"
    "same_pics h1 h2" "\<forall>a. used h2 a = (if Some a \<in> lookup_lt d h ` set (ai4_poc_lt_foll s) then LONG_TERM_REF else used h1 a)"
    using mark_lt_spec [OF ok p1] unfolding L1 by blast
  note L2 = lookup_same [OF h2(2) p1, unfolded L1] and p2 = pics_in_same [OF h2(2) p1]
  obtain h3 where h3: "mark_st d h2 (ai4_poc_st_curr_before s) = Some (map (lookup d h) (ai4_poc_st_curr_before s), h3)"
    "same_pics h2 h3" "\<forall>a. used h3 a = (if Some a \<in> lookup d h ` set (ai4_poc_st_curr_before s) then SHORT_TERM_REF else used h2 a)"
    using mark_st_spec [OF ok p2] unfolding L2 by blast
  note L3 = lookup_same [OF h3(2) p2, unfolded L2] and p3 = pics_in_same [OF h3(2) p2]
  obtain h4 where h4: "mark_st d h3 (ai4_poc_st_curr_after s) = Some (map (lookup d h) (ai4_poc_st_curr_after s), h4)"
    "same_pics h3 h4" "\<forall>a. used h4 a = (if Some a \<in> lookup d h ` set (ai4_poc_st_curr_after s) then SHORT_TERM_REF else used h3 a)"
    using mark_st_spec [OF ok p3] unfolding L3 by blast
  note L4 = lookup_same [OF h4(2) p3, unfolded L3] and p4 = pics_in_same [OF h4(2) p3]
  obtain h5 where h5: "mark_st d h4 (ai4_poc_st_foll s) = Some (map (lookup d h) (ai4_poc_st_foll s), h5)"
    "same_pics h4 h5" "\<forall>a. used h5 a = (if Some a \<in> lookup d h ` set (ai4_poc_st_foll s) then SHORT_TERM_REF else used h4 a)"
    using mark_st_spec [OF ok p4] unfolding L4 by blast
  have run: "mark_rps d h i4_pic_present s =
      Some (map (lookup d h) (ai4_poc_st_curr_before s), map (lookup d h) (ai4_poc_st_curr_after s),
        map (lookup_lt d h) (ai4_poc_lt_curr s), h5)"
    unfolding mark_rps_def h0(1) by (simp add: h1(1) h2(1) h3(1) h4(1) h5(1))
  have "same_pics h h5" using h0(2) h1(2) h2(2) h3(2) h4(2) h5(2) same_pics_trans by blast
  moreover have "used h5 a = rps_mark d h i4_pic_present s a" if "a \<in> set (dpb_refs d)" for a
    using that h0(3) h1(3) h2(3) h3(3) h4(3) h5(3)
    by (simp add: rps_mark_def st_pics_def lt_pics_def image_Un)
  ultimately show ?thesis using run by blast
qed

section \<open>Filling a list\<close>

text \<open>The entries cycle through the pictures.\<close>

definition cyc :: "'a list \<Rightarrow> nat \<Rightarrow> 'a list" where
  "cyc cs n = map (\<lambda>i. cs ! (i mod length cs)) [0..<n]"

lemma cyc_simps [simp]: "length (cyc cs n) = n" "i < n \<Longrightarrow> cyc cs n ! i = cs ! (i mod length cs)" "cyc cs 0 = []"
  by (simp_all add: cyc_def)

lemma cyc_append:
  assumes "length cs dvd m" "m \<le> n"
  shows "cyc cs m @ take (n - m) cs = cyc cs (min n (m + length cs))"
proof (rule nth_equalityI)
  show len: "length (cyc cs m @ take (n - m) cs) = length (cyc cs (min n (m + length cs)))" using assms(2) by auto
  fix i assume "i < length (cyc cs m @ take (n - m) cs)"
  then have i: "i < min n (m + length cs)" using len by simp
  show "(cyc cs m @ take (n - m) cs) ! i = cyc cs (min n (m + length cs)) ! i"
  proof (cases "i < m")
    case False
    then obtain j where j: "i = m + j" "j < length cs" using i by (metis le_Suc_ex not_less min_less_iff_conj nat_add_left_cancel_less)
    obtain k where "m = length cs * k" using assms(1) by (rule dvdE)
    then have "i mod length cs = j" using j by simp
    then show ?thesis using i j by (simp add: nth_append)
  qed (use i in \<open>simp add: nth_append\<close>)
qed

text \<open>The picture that stands for a missing one.\<close>

definition substitute :: "dpb_mgr \<Rightarrow> pics \<Rightarrow> int \<times> nat option \<Rightarrow> nat option" where
  "substitute d h c = (if snd c = None then the (ihevc_dpb_mgr_get_ref_by_nearest_poc d h (fst c)) else snd c)"

definition nearest_ok :: "dpb_mgr \<Rightarrow> pics \<Rightarrow> int set \<Rightarrow> bool" where
  "nearest_ok d h P \<longleftrightarrow> (\<forall>p \<in> P. ihevc_dpb_mgr_get_ref_by_nearest_poc d h p \<noteq> None)"

lemma fill_part_spec:
  assumes "nearest_ok d h (fst ` set rs)" "n \<le> 16"
  shows "\<exists>rs'. fill_part d h n rs tmp = Some (rs', tmp @ take (n - length tmp) (map (substitute d h) rs)) \<and>
    map (substitute d h) rs' = map (substitute d h) rs \<and> map fst rs' = map fst rs"
  using assms(1)
proof (induction rs arbitrary: tmp)
  case (Cons c rs)
  obtain poc r where c: "c = (poc, r)" by (cases c)
  show ?case
  proof (cases "length tmp < n")
    case True
    let ?r = "substitute d h c"
    have r: "(if r = None then ihevc_dpb_mgr_get_ref_by_nearest_poc d h poc else Some r) = Some ?r"
      using Cons.prems by (auto simp: c substitute_def nearest_ok_def)
    have s: "substitute d h (poc, ?r) = ?r" by (auto simp: c substitute_def)
    have p: "push tmp ?r = Some (tmp @ [?r])" using True assms(2) by (simp add: push_def)
    have "nearest_ok d h (fst ` set rs)" using Cons.prems by (simp add: nearest_ok_def)
    from Cons.IH [OF this, of "tmp @ [?r]"] obtain rs' where rs':
      "fill_part d h n rs (tmp @ [?r]) = Some (rs', (tmp @ [?r]) @ take (n - length (tmp @ [?r])) (map (substitute d h) rs))"
      "map (substitute d h) rs' = map (substitute d h) rs" "map fst rs' = map fst rs" by blast
    have "n - length tmp = Suc (n - length (tmp @ [?r]))" using True by simp
    then show ?thesis using r p rs' s True by (simp add: c)
  qed (simp add: c)
qed simp

lemma fill_parts_spec:
  assumes "nearest_ok d h (fst ` set (concat ps))" "n \<le> 16"
  shows "\<exists>ps'. fill_parts d h n ps tmp =
      Some (ps', tmp @ take (n - length tmp) (map (substitute d h) (concat ps))) \<and>
    map (map (substitute d h)) ps' = map (map (substitute d h)) ps \<and> map (map fst) ps' = map (map fst) ps"
  using assms(1)
proof (induction ps arbitrary: tmp)
  case (Cons p ps)
  have ok: "nearest_ok d h (fst ` set p)" "nearest_ok d h (fst ` set (concat ps))"
    using Cons.prems by (auto simp: nearest_ok_def)
  let ?tmp = "tmp @ take (n - length tmp) (map (substitute d h) p)"
  obtain p' where p': "fill_part d h n p tmp = Some (p', ?tmp)"
      "map (substitute d h) p' = map (substitute d h) p" "map fst p' = map fst p"
    using fill_part_spec [OF ok(1) assms(2)] by blast
  obtain ps' where ps': "fill_parts d h n ps ?tmp = Some (ps', ?tmp @ take (n - length ?tmp) (map (substitute d h) (concat ps)))"
      "map (map (substitute d h)) ps' = map (map (substitute d h)) ps" "map (map fst) ps' = map (map fst) ps"
    using Cons.IH [OF ok(2)] by blast
  have "n - length ?tmp = n - length tmp - length p" by auto
  then show ?case using p' ps' by (simp add: take_map [symmetric])
qed simp

lemma concat_mapI: "map (map f) ps = map (map f) qs \<Longrightarrow> map f (concat ps) = map f (concat qs)"
  by (metis map_concat)

lemma fill_while_spec:
  assumes "nearest_ok d h (fst ` set (concat ps))" "n \<le> 16" "concat ps \<noteq> []"
    and "m = n \<or> m < n \<and> length (concat ps) dvd m"
  defines "cs \<equiv> map (substitute d h) (concat ps)"
  shows "\<exists>ps'. fill_while d h n ps (cyc cs m) = Some (ps', cyc cs n) \<and>
    map (map (substitute d h)) ps' = map (map (substitute d h)) ps \<and> map (map fst) ps' = map (map fst) ps"
  using assms(1,3,4) unfolding cs_def
proof (induction "n - m" arbitrary: m ps rule: less_induct)
  case less
  let ?cs = "map (substitute d h) (concat ps)"
  show ?case
  proof (cases "m = n")
    case True
    then show ?thesis by (simp add: fill_while.simps)
  next
    case False
    then have m: "m < n" "length ?cs dvd m" using less.prems(3) by simp_all
    let ?m = "min n (m + length ?cs)"
    have c: "cyc ?cs m @ take (n - m) ?cs = cyc ?cs ?m" by (rule cyc_append [OF m(2) less_imp_le [OF m(1)]])
    obtain ps' where ps': "fill_parts d h n ps (cyc ?cs m) = Some (ps', cyc ?cs ?m)"
        "map (map (substitute d h)) ps' = map (map (substitute d h)) ps" "map (map fst) ps' = map (map fst) ps"
      using fill_parts_spec [OF less.prems(1) assms(2), of "cyc ?cs m"] c by auto
    have cs': "map (substitute d h) (concat ps') = ?cs" "map fst (concat ps') = map fst (concat ps)"
      using concat_mapI ps'(2,3) by blast+
    then have ne: "concat ps' \<noteq> []" using less.prems(2) by (metis map_is_Nil_conv)
    have len: "length (concat ps') = length ?cs" using cs'(1) by (metis length_map)
    have pos: "0 < length ?cs" using less.prems(2) by simp
    have "n - ?m < n - m" using m(1) pos by linarith
    moreover have "nearest_ok d h (fst ` set (concat ps'))" using less.prems(1) cs'(2) by (metis set_map)
    moreover have "?m = n \<or> ?m < n \<and> length (concat ps') dvd ?m" using m(2) unfolding len by (auto simp: min_def)
    ultimately obtain ps'' where "fill_while d h n ps' (cyc (map (substitute d h) (concat ps')) ?m) =
        Some (ps'', cyc (map (substitute d h) (concat ps')) n)"
        "map (map (substitute d h)) ps'' = map (map (substitute d h)) ps'" "map (map fst) ps'' = map (map fst) ps'"
      using less.hyps [of ?m ps'] ne by blast
    then show ?thesis using m(1) ps' unfolding cs'(1) by (simp add: fill_while.simps [of d h n ps])
  qed
qed

text \<open>Without a picture the loop does not end.\<close>

lemma fill_parts_empty: "concat ps = [] \<Longrightarrow> fill_parts d h n ps tmp = Some (ps, tmp)"
  by (induction ps) auto

lemma fill_while_empty:
  assumes "concat ps = []" "length tmp < n"
  shows "fill_while d h n ps tmp = None"
proof (rule ccontr)
  assume "fill_while d h n ps tmp \<noteq> None"
  then obtain r where r: "fill_while d h n ps tmp = Some r" by blast
  have "\<not> (concat ps = [] \<and> length tmp < n)"
  proof (rule fill_while.raw_induct [where P = "\<lambda>d h n ps tmp r. \<not> (concat ps = [] \<and> length tmp < n)", OF _ r])
    fix f d h n ps tmp r
    assume IH: "\<And>d h n ps tmp r. f d h n ps tmp = Some r \<Longrightarrow> \<not> (concat ps = [] \<and> length tmp < n)"
      and eq: "(if length tmp < n then Option.bind (fill_parts d h n ps tmp) (\<lambda>(ps, tmp). f d h n ps tmp)
        else Some (ps, tmp)) = Some r"
    show "\<not> (concat ps = [] \<and> length tmp < n)"
    proof
      assume e: "concat ps = [] \<and> length tmp < n"
      then have "f d h n ps tmp = Some r" using eq fill_parts_empty [of ps d h n tmp] by simp
      then show False using IH e by blast
    qed
  qed
  then show False using assms by blast
qed

section \<open>The entries\<close>

definition mvs_ok :: "int list \<Rightarrow> buf_mgr \<Rightarrow> bool" where
  "mvs_ok mvs mb \<longleftrightarrow> bm_ok mb \<and> length mvs \<le> 64 \<and> unat (u4_max_buf_cnt mb) \<le> length (apv_ptr mb) \<and>
     (\<forall>j. Some j \<in> set (apv_ptr mb) \<longrightarrow> j < length mvs)"

lemma mv_scan_spec:
  assumes "\<forall>j. Some j \<in> set ps \<longrightarrow> j < length mvs"
  shows "mv_scan mvs poc ps q = Some (case find (\<lambda>p. p \<noteq> None \<and> mvs ! the p = poc) ps of
    None \<Rightarrow> if ps = [] then q else last ps | Some p \<Rightarrow> p)"
  using assms
proof (induction ps arbitrary: q)
  case (Cons p ps)
  then show ?case by (cases p) (auto split: option.splits)
qed simp

lemma mv_get_poc_spec:
  assumes "mvs_ok mvs mb"
  shows "ihevcd_mv_mgr_get_poc mvs mb poc = Some (let ps = take (unat (u4_max_buf_cnt mb)) (apv_ptr mb) in
    case find (\<lambda>p. p \<noteq> None \<and> mvs ! the p = poc) ps of
      None \<Rightarrow> if ps = [] then None else last ps | Some p \<Rightarrow> p)"
proof -
  have "\<forall>j. Some j \<in> set (take (unat (u4_max_buf_cnt mb)) (apv_ptr mb)) \<longrightarrow> j < length mvs"
    using assms in_set_takeD unfolding mvs_ok_def by fast
  from mv_scan_spec [OF this] assms show ?thesis by (simp add: ihevcd_mv_mgr_get_poc_def mvs_ok_def Let_def)
qed

text \<open>The index of entry \<open>i\<close>.\<close>

definition entry_idx :: "int \<Rightarrow> int list \<Rightarrow> nat \<Rightarrow> nat" where
  "entry_idx flag entry i = (if flag \<noteq> 0 then nat (entry ! i) else i)"

definition entries_ok :: "int \<Rightarrow> int list \<Rightarrow> int \<Rightarrow> nat \<Rightarrow> bool" where
  "entries_ok flag entry num_active num_total \<longleftrightarrow> 0 \<le> num_active \<and> num_active \<le> 16 \<and> length entry = 16 \<and>
     (flag \<noteq> 0 \<longrightarrow> (\<forall>i < nat num_active. 0 \<le> entry ! i \<and> entry ! i < int num_total))"

lemma entry_loop_spec:
  assumes mv: "mvs_ok mvs mb" and n: "r + n \<le> length xs" "r + n \<le> length entry"
    and k: "\<And>i. i < r + n \<Longrightarrow> flag \<noteq> 0 \<Longrightarrow> 0 \<le> entry ! i"
      "\<And>i. i < r + n \<Longrightarrow> entry_idx flag entry i < length tmp"
    and pics: "\<And>p. p \<in> set tmp \<Longrightarrow> p \<noteq> None \<and> h (the p) \<noteq> None"
  shows "\<exists>ys. entry_loop mvs mb h flag entry tmp n r xs = Some (IHEVCD_SUCCESS, ys) \<and> length ys = length xs \<and>
    (\<forall>i < length xs. ys ! i = (if r \<le> i \<and> i < r + n
       then \<lparr> pv_pic_buf = tmp ! entry_idx flag entry i, pv_mv_buf =
         the (ihevcd_mv_mgr_get_poc mvs mb (i4_abs_poc (the (h (the (tmp ! entry_idx flag entry i)))))) \<rparr>
       else xs ! i))"
  using n k
proof (induction n arbitrary: r xs)
  case 0
  then show ?case by auto
next
  case (Suc n)
  let ?k = "entry_idx flag entry r"
  have kr: "?k < length tmp" using Suc.prems(4) [of r] by simp
  have idx: "(if flag \<noteq> 0 then rd entry r else Some (int r)) = Some (int ?k)"
    using Suc.prems(2) Suc.prems(3) [of r] by (auto simp: entry_idx_def)
  obtain a pic where a: "tmp ! ?k = Some a" "h a = Some pic" using pics [OF nth_mem [OF kr]] by auto
  obtain q where q: "ihevcd_mv_mgr_get_poc mvs mb (i4_abs_poc pic) = Some q" using mv_get_poc_spec [OF mv] by simp
  let ?x = "(xs ! r) \<lparr> pv_pic_buf := Some a, pv_mv_buf := q \<rparr>"
  have r: "r < length xs" using Suc.prems(1) by simp
  have step: "entry_loop mvs mb h flag entry tmp (Suc n) r xs = entry_loop mvs mb h flag entry tmp n (r + 1) (xs[r := ?x])"
    unfolding entry_loop.simps idx using kr r a q by simp
  have "r + 1 + n \<le> length (xs[r := ?x])" "r + 1 + n \<le> length entry" using Suc.prems(1,2) by simp_all
  from Suc.IH [OF this Suc.prems(3,4)] obtain ys where ys:
    "entry_loop mvs mb h flag entry tmp n (r + 1) (xs[r := ?x]) = Some (IHEVCD_SUCCESS, ys)" "length ys = length xs"
    "\<forall>i < length xs. ys ! i = (if r + 1 \<le> i \<and> i < r + 1 + n
       then \<lparr> pv_pic_buf = tmp ! entry_idx flag entry i, pv_mv_buf =
         the (ihevcd_mv_mgr_get_poc mvs mb (i4_abs_poc (the (h (the (tmp ! entry_idx flag entry i)))))) \<rparr>
       else xs[r := ?x] ! i)" by auto
  have x: "?x = \<lparr> pv_pic_buf = tmp ! ?k, pv_mv_buf =
      the (ihevcd_mv_mgr_get_poc mvs mb (i4_abs_poc (the (h (the (tmp ! ?k)))))) \<rparr>"
    using a q by (cases "xs ! r") simp
  show ?case unfolding step
  proof (intro exI [of _ ys] conjI allI impI)
    fix i assume i: "i < length xs"
    show "ys ! i = (if r \<le> i \<and> i < r + Suc n
       then \<lparr> pv_pic_buf = tmp ! entry_idx flag entry i, pv_mv_buf =
         the (ihevcd_mv_mgr_get_poc mvs mb (i4_abs_poc (the (h (the (tmp ! entry_idx flag entry i)))))) \<rparr>
       else xs ! i)"
    proof (cases "i = r")
      case True
      then show ?thesis using ys(3) i x by simp
    next
      case False
      then have "r \<le> i \<and> i < r + Suc n \<longleftrightarrow> r + 1 \<le> i \<and> i < r + 1 + n" by auto
      then show ?thesis using ys(3) i False by simp
    qed
  qed (use ys in simp_all)
qed

text \<open>A null entry ends the call.\<close>

lemma entry_loop_null:
  assumes "0 < n" "r < length xs" "r < length entry" "flag \<noteq> 0 \<longrightarrow> 0 \<le> entry ! r"
    "entry_idx flag entry r < length tmp" "tmp ! entry_idx flag entry r = None"
  shows "\<exists>ys. entry_loop mvs mb h flag entry tmp n r xs = Some (IHEVCD_REF_PIC_NOT_FOUND, ys)"
proof -
  have idx: "(if flag \<noteq> 0 then rd entry r else Some (int r)) = Some (int (entry_idx flag entry r))"
    using assms(3,4) by (auto simp: entry_idx_def)
  obtain k where n: "n = Suc k" using assms(1) by (cases n) auto
  show ?thesis unfolding n entry_loop.simps idx using assms(2,5,6) by simp
qed


section \<open>The lists of a slice\<close>

text \<open>List \<open>ys\<close>, built over \<open>xs\<close>: the active entries run through the pictures \<open>cs\<close> cyclically, or pick
  from that sequence when the slice modifies the list.\<close>

definition list_built :: "int list \<Rightarrow> buf_mgr \<Rightarrow> pics \<Rightarrow> nat option list \<Rightarrow> int \<Rightarrow> int list \<Rightarrow> int \<Rightarrow>
    ref_list list \<Rightarrow> ref_list list \<Rightarrow> bool" where
  "list_built mvs mb h cs flag entry num_active xs ys \<longleftrightarrow> length ys = length xs \<and>
     (\<forall>i < length xs. ys ! i = (if i < nat num_active
       then (let p = cs ! (entry_idx flag entry i mod length cs) in
         \<lparr> pv_pic_buf = p, pv_mv_buf = the (ihevcd_mv_mgr_get_poc mvs mb (i4_abs_poc (the (h (the p))))) \<rparr>)
       else xs ! i))"

lemma temp_entries_bounds:
  assumes "entries_ok flag entry num_active n" "n \<le> 16"
  shows "temp_entries n num_active \<le> 16" "n \<le> temp_entries n num_active" "nat num_active \<le> temp_entries n num_active"
  using assms by (auto simp: temp_entries_def entries_ok_def)

lemma entry_idx_bound:
  assumes "entries_ok flag entry num_active n" "n \<le> 16" "i < nat num_active"
  shows "entry_idx flag entry i < temp_entries n num_active" "flag \<noteq> 0 \<Longrightarrow> 0 \<le> entry ! i"
  using assms temp_entries_bounds [OF assms(1,2)]
  by (auto simp: entries_ok_def entry_idx_def nat_less_iff)

lemma one_list:
  assumes ok: "nearest_ok d h (fst ` set (concat ps))" and mv: "mvs_ok mvs mb"
    and e: "entries_ok flag entry num_active (length (concat ps))" and n: "length (concat ps) \<le> 16" "concat ps \<noteq> []"
    and x: "length xs = 16"
    and pics: "\<forall>p \<in> set (map (substitute d h) (concat ps)). p \<noteq> None \<and> h (the p) \<noteq> None"
  shows "\<exists>ps' tmp ys. fill_while d h (temp_entries (length (concat ps)) num_active) ps [] = Some (ps', tmp) \<and>
    map (map (substitute d h)) ps' = map (map (substitute d h)) ps \<and> map (map fst) ps' = map (map fst) ps \<and>
    entry_loop mvs mb h flag entry tmp (nat num_active) 0 xs = Some (IHEVCD_SUCCESS, ys) \<and>
    list_built mvs mb h (map (substitute d h) (concat ps)) flag entry num_active xs ys"
proof -
  let ?cs = "map (substitute d h) (concat ps)" and ?n = "temp_entries (length (concat ps)) num_active"
  note b = temp_entries_bounds [OF e n(1)]
  have z: "0 = ?n \<or> 0 < ?n \<and> length (concat ps) dvd 0" by auto
  obtain ps' where ps': "fill_while d h ?n ps [] = Some (ps', cyc ?cs ?n)"
      "map (map (substitute d h)) ps' = map (map (substitute d h)) ps" "map (map fst) ps' = map (map fst) ps"
    using fill_while_spec [OF ok b(1) n(2) z] unfolding cyc_simps(3) by blast
  have pos: "0 < length ?cs" using n(2) by simp
  have t: "p \<noteq> None \<and> h (the p) \<noteq> None" if p: "p \<in> set (cyc ?cs ?n)" for p
  proof -
    obtain i where "i < ?n" "p = cyc ?cs ?n ! i" using p unfolding in_set_conv_nth cyc_simps(1) by metis
    then have "p = ?cs ! (i mod length ?cs)" by (simp only: cyc_simps(2))
    then have "p \<in> set ?cs" using pos by (metis mod_less_divisor nth_mem)
    then show ?thesis using pics by blast
  qed
  have act: "nat num_active \<le> 16" "length entry = 16" using e by (auto simp: entries_ok_def)
  have "\<exists>ys. entry_loop mvs mb h flag entry (cyc ?cs ?n) (nat num_active) 0 xs = Some (IHEVCD_SUCCESS, ys) \<and>
      length ys = length xs \<and>
    (\<forall>i < length xs. ys ! i = (if 0 \<le> i \<and> i < 0 + nat num_active
       then \<lparr> pv_pic_buf = cyc ?cs ?n ! entry_idx flag entry i, pv_mv_buf =
         the (ihevcd_mv_mgr_get_poc mvs mb (i4_abs_poc (the (h (the (cyc ?cs ?n ! entry_idx flag entry i)))))) \<rparr>
       else xs ! i))"
    using entry_idx_bound [OF e n(1)] act x by (intro entry_loop_spec [OF mv _ _ _ _ t]) simp_all
  then obtain ys where ys: "entry_loop mvs mb h flag entry (cyc ?cs ?n) (nat num_active) 0 xs = Some (IHEVCD_SUCCESS, ys)"
      "length ys = length xs"
      "\<forall>i < length xs. ys ! i = (if 0 \<le> i \<and> i < 0 + nat num_active
       then \<lparr> pv_pic_buf = cyc ?cs ?n ! entry_idx flag entry i, pv_mv_buf =
         the (ihevcd_mv_mgr_get_poc mvs mb (i4_abs_poc (the (h (the (cyc ?cs ?n ! entry_idx flag entry i)))))) \<rparr>
       else xs ! i)" by blast
  have "list_built mvs mb h ?cs flag entry num_active xs ys"
    unfolding list_built_def Let_def
  proof (intro conjI allI impI)
    fix i assume i: "i < length xs"
    show "ys ! i = (if i < nat num_active
       then \<lparr> pv_pic_buf = ?cs ! (entry_idx flag entry i mod length ?cs), pv_mv_buf =
         the (ihevcd_mv_mgr_get_poc mvs mb (i4_abs_poc (the (h (the (?cs ! (entry_idx flag entry i mod length ?cs))))))) \<rparr>
       else xs ! i)"
      using ys(3) [rule_format, OF i] entry_idx_bound(1) [OF e n(1), of i] by (simp only: cyc_simps(2) if_True split: if_split) simp
  qed (rule ys(2))
  then show ?thesis using ps' ys(1) by blast
qed

text \<open>What a slice may be: two lists of entries, each in order.\<close>

definition lists_built :: "int list \<Rightarrow> buf_mgr \<Rightarrow> pics \<Rightarrow> nat option list \<Rightarrow> nat option list \<Rightarrow> nat option list \<Rightarrow>
    slice_header \<Rightarrow> slice_header \<Rightarrow> bool" where
  "lists_built mvs mb h before after lt sh sh' \<longleftrightarrow>
     list_built mvs mb h (before @ after @ lt) (i1_ref_pic_list_modification_flag_l0 (s_rplm sh)) (i1_list_entry_l0 (s_rplm sh))
       (i1_num_ref_idx_l0_active sh) (as_ref_pic_list0 sh) (as_ref_pic_list0 sh') \<and>
     (if i1_slice_type sh = BSLICE
      then list_built mvs mb h (after @ before @ lt) (i1_ref_pic_list_modification_flag_l1 (s_rplm sh))
        (i1_list_entry_l1 (s_rplm sh)) (i1_num_ref_idx_l1_active sh) (as_ref_pic_list1 sh) (as_ref_pic_list1 sh')
      else as_ref_pic_list1 sh' = as_ref_pic_list1 sh)"

text \<open>The list modification of a slice is in range, as its parser ensures.\<close>

definition slice_ok :: "slice_header \<Rightarrow> nat \<Rightarrow> bool" where
  "slice_ok sh num_total \<longleftrightarrow> (i1_slice_type sh = PSLICE \<or> i1_slice_type sh = BSLICE) \<and>
     length (as_ref_pic_list0 sh) = 16 \<and> length (as_ref_pic_list1 sh) = 16 \<and>
     entries_ok (i1_ref_pic_list_modification_flag_l0 (s_rplm sh)) (i1_list_entry_l0 (s_rplm sh))
       (i1_num_ref_idx_l0_active sh) num_total \<and>
     (i1_slice_type sh = BSLICE \<longrightarrow> entries_ok (i1_ref_pic_list_modification_flag_l1 (s_rplm sh))
       (i1_list_entry_l1 (s_rplm sh)) (i1_num_ref_idx_l1_active sh) num_total)"

lemma build_lists_spec:
  assumes ok: "nearest_ok d h (fst ` set (before @ after @ lt))" and mv: "mvs_ok mvs mb"
    and sh: "slice_ok sh (length (before @ after @ lt))" and n: "length (before @ after @ lt) \<le> 16" "before @ after @ lt \<noteq> []"
    and pics: "\<forall>p \<in> set (map (substitute d h) (before @ after @ lt)). p \<noteq> None \<and> h (the p) \<noteq> None"
  shows "\<exists>sh'. build_lists d h mvs mb before after lt sh = Some (IHEVCD_SUCCESS, sh') \<and>
    lists_built mvs mb h (map (substitute d h) before) (map (substitute d h) after) (map (substitute d h) lt) sh sh'"
proof -
  let ?s = "substitute d h"
  have c: "before @ after @ lt = concat [before, after, lt]" by simp
  have tot: "length lt + length after + length before = length (concat [before, after, lt])" by simp
  note S = sh [unfolded slice_ok_def c]
  note L0 = one_list [OF ok [unfolded c] mv, where num_active = "i1_num_ref_idx_l0_active sh" and xs = "as_ref_pic_list0 sh"]
  obtain ps' tmp ys where l0:
    "fill_while d h (temp_entries (length (concat [before, after, lt])) (i1_num_ref_idx_l0_active sh)) [before, after, lt] [] = Some (ps', tmp)"
    "map (map ?s) ps' = map (map ?s) [before, after, lt]" "map (map fst) ps' = map (map fst) [before, after, lt]"
    "entry_loop mvs mb h (i1_ref_pic_list_modification_flag_l0 (s_rplm sh)) (i1_list_entry_l0 (s_rplm sh)) tmp
       (nat (i1_num_ref_idx_l0_active sh)) 0 (as_ref_pic_list0 sh) = Some (IHEVCD_SUCCESS, ys)"
    "list_built mvs mb h (map ?s (concat [before, after, lt])) (i1_ref_pic_list_modification_flag_l0 (s_rplm sh))
       (i1_list_entry_l0 (s_rplm sh)) (i1_num_ref_idx_l0_active sh) (as_ref_pic_list0 sh) ys"
    using L0 S n [unfolded c] pics [unfolded c] by blast
  obtain b a l where ps': "ps' = [b, a, l]"
    using arg_cong [OF l0(3), of length] by (auto simp: length_Suc_conv numeral_3_eq_3)
  then have e: "map ?s b = map ?s before" "map ?s a = map ?s after" "map ?s l = map ?s lt"
      "map fst b = map fst before" "map fst a = map fst after" "map fst l = map fst lt"
    using l0(2,3) by simp_all
  have len: "length b = length before" "length a = length after" "length l = length lt" using e(1-3) by (metis length_map)+
  show ?thesis
  proof (cases "i1_slice_type sh = BSLICE")
    case False
    then have "build_lists d h mvs mb before after lt sh = Some (IHEVCD_SUCCESS, sh \<lparr> as_ref_pic_list0 := ys \<rparr>)"
      using S l0(1,4) unfolding build_lists_def tot Let_def by simp
    then show ?thesis using False l0(5) by (simp add: lists_built_def)
  next
    case True
    have f: "fst ` set (concat [a, b, l]) = fst ` set (before @ after @ lt)"
      using arg_cong [OF e(4), of set] arg_cong [OF e(5), of set] arg_cong [OF e(6), of set] by (auto simp: image_Un)
    have m: "map ?s (concat [a, b, l]) = map ?s after @ map ?s before @ map ?s lt" using e by simp
    have n1: "length (concat [a, b, l]) = length (concat [before, after, lt])" using len by simp
    have ne: "concat [a, b, l] \<noteq> []" using n(2) len by (metis c length_0_conv n1)
    have p1: "\<forall>p \<in> set (map ?s (concat [a, b, l])). p \<noteq> None \<and> h (the p) \<noteq> None" unfolding m using pics by auto
    have e1: "entries_ok (i1_ref_pic_list_modification_flag_l1 (s_rplm sh)) (i1_list_entry_l1 (s_rplm sh))
        (i1_num_ref_idx_l1_active sh) (length (concat [a, b, l]))" "length (as_ref_pic_list1 sh) = 16"
      unfolding n1 using S True by blast+
    have n2: "length (concat [a, b, l]) \<le> 16" unfolding n1 using n(1) [unfolded c] .
    obtain ps2 tmp2 zs where l1:
      "fill_while d h (temp_entries (length (concat [a, b, l])) (i1_num_ref_idx_l1_active sh)) [a, b, l] [] = Some (ps2, tmp2)"
      "entry_loop mvs mb h (i1_ref_pic_list_modification_flag_l1 (s_rplm sh)) (i1_list_entry_l1 (s_rplm sh)) tmp2
         (nat (i1_num_ref_idx_l1_active sh)) 0 (as_ref_pic_list1 sh) = Some (IHEVCD_SUCCESS, zs)"
      "list_built mvs mb h (map ?s (concat [a, b, l])) (i1_ref_pic_list_modification_flag_l1 (s_rplm sh))
         (i1_list_entry_l1 (s_rplm sh)) (i1_num_ref_idx_l1_active sh) (as_ref_pic_list1 sh) zs"
      using one_list [OF ok [folded f] mv e1(1) n2 ne e1(2) p1] by blast
    have "build_lists d h mvs mb before after lt sh =
        Some (IHEVCD_SUCCESS, sh \<lparr> as_ref_pic_list0 := ys, as_ref_pic_list1 := zs \<rparr>)"
      using True l0(1,4) l1(1,2) unfolding build_lists_def tot n1 Let_def ps' by simp
    then show ?thesis using True l0(5) l1(3) m by (simp add: lists_built_def)
  qed
qed


section \<open>The set derived\<close>

definition slice_rps :: "sps \<Rightarrow> slice_header \<Rightarrow> stref_picset" where
  "slice_rps ps_sps sh = (if 1 = i1_short_term_ref_pic_set_sps_flag sh
     then as_stref_picset ps_sps ! nat (i1_short_term_ref_pic_set_idx sh) else s_stref_picset sh)"

text \<open>The ranges of the parsed fields, and counts far from the ends of their type.\<close>

definition rps_fields_ok :: "sps \<Rightarrow> slice_header \<Rightarrow> bool" where
  "rps_fields_ok ps_sps sh \<longleftrightarrow> (let r = slice_rps ps_sps sh; n = i1_num_long_term_sps sh + i1_num_long_term_pics sh in
     0 \<le> i1_log2_max_pic_order_cnt_lsb ps_sps \<and> i1_log2_max_pic_order_cnt_lsb ps_sps \<le> 16 \<and>
     (i1_short_term_ref_pic_set_sps_flag sh = 1 \<longrightarrow> 0 \<le> i1_short_term_ref_pic_set_idx sh \<and>
        nat (i1_short_term_ref_pic_set_idx sh) < length (as_stref_picset ps_sps)) \<and>
     0 \<le> i1_num_neg_pics r \<and> 0 \<le> i1_num_pos_pics r \<and> i1_num_neg_pics r + i1_num_pos_pics r \<le> 16 \<and>
     length (ai1_used r) = 16 \<and> length (ai2_delta_poc r) = 16 \<and> (\<forall>x \<in> set (ai2_delta_poc r). \<bar>x\<bar> \<le> 32768) \<and>
     0 \<le> n \<and> n \<le> 16 \<and> length (ai4_poc_lsb_lt sh) = 16 \<and> length (ai1_used_by_curr_pic_lt_flag sh) = 16 \<and>
     length (ai1_delta_poc_msb_present_flag sh) = 16 \<and> length (ai1_delta_poc_msb_cycle_lt sh) = 16 \<and>
     (\<forall>x \<in> set (ai4_poc_lsb_lt sh). 0 \<le> x \<and> x < 65536) \<and> (\<forall>x \<in> set (ai1_delta_poc_msb_cycle_lt sh). \<bar>x\<bar> \<le> 128) \<and>
     \<bar>i4_abs_pic_order_cnt sh\<bar> \<le> 1073741824 \<and> 0 \<le> i4_pic_order_cnt_lsb sh \<and> i4_pic_order_cnt_lsb sh < 65536)"

text \<open>The counts of the short-term entries from \<open>lo\<close> to \<open>hi\<close> with the wanted use, and of the long-term ones.\<close>

definition st_counts :: "stref_picset \<Rightarrow> int \<Rightarrow> (int \<Rightarrow> bool) \<Rightarrow> nat \<Rightarrow> nat \<Rightarrow> int list" where
  "st_counts r poc P lo hi = map (\<lambda>i. poc + ai2_delta_poc r ! i) (filter (\<lambda>i. P (ai1_used r ! i)) [lo..<hi])"

definition lt_count :: "sps \<Rightarrow> slice_header \<Rightarrow> nat \<Rightarrow> int" where
  "lt_count ps_sps sh i = (if ai1_delta_poc_msb_present_flag sh ! i \<noteq> 0
     then i4_abs_pic_order_cnt sh - i4_pic_order_cnt_lsb sh
       - ai1_delta_poc_msb_cycle_lt sh ! i * 2 ^ nat (i1_log2_max_pic_order_cnt_lsb ps_sps) + ai4_poc_lsb_lt sh ! i
     else ai4_poc_lsb_lt sh ! i)"

definition lt_counts :: "sps \<Rightarrow> slice_header \<Rightarrow> (int \<Rightarrow> bool) \<Rightarrow> nat \<Rightarrow> (int \<times> int) list" where
  "lt_counts ps_sps sh P n = map (\<lambda>i. (lt_count ps_sps sh i, ai1_delta_poc_msb_present_flag sh ! i))
     (filter (\<lambda>i. P (ai1_used_by_curr_pic_lt_flag sh ! i)) [0..<n])"

definition rps_spec :: "sps \<Rightarrow> slice_header \<Rightarrow> ref_pic_set" where
  "rps_spec ps_sps sh = (let r = slice_rps ps_sps sh; poc = i4_abs_pic_order_cnt sh;
       neg = nat (i1_num_neg_pics r); all = nat (i1_num_neg_pics r + i1_num_pos_pics r);
       n = nat (i1_num_long_term_sps sh + i1_num_long_term_pics sh) in
     \<lparr> ai4_poc_st_curr_before = st_counts r poc (\<lambda>u. u \<noteq> 0) 0 neg,
       ai4_poc_st_curr_after = st_counts r poc (\<lambda>u. u \<noteq> 0) neg all,
       ai4_poc_st_foll = st_counts r poc (\<lambda>u. u = 0) 0 all,
       ai4_poc_lt_curr = lt_counts ps_sps sh (\<lambda>u. u \<noteq> 0) n,
       ai4_poc_lt_foll = lt_counts ps_sps sh (\<lambda>u. u = 0) n \<rparr>)"

lemma w32_ok: "\<bar>x\<bar> \<le> 2000000000 \<Longrightarrow> w32 x = Some x"
  by (auto simp: w32_def in_w32_def require_def)

lemma st_loop_spec:
  assumes "length (ai1_used r) = 16" "length (ai2_delta_poc r) = 16" "\<forall>x \<in> set (ai2_delta_poc r). \<bar>x\<bar> \<le> 32768"
    and "\<bar>poc\<bar> \<le> 1073741824" "i + n \<le> 16" "length cur + n \<le> 16" "length foll + n \<le> 16"
  shows "st_loop poc (ai1_used r) (ai2_delta_poc r) n (int i) cur foll =
    Some (cur @ st_counts r poc (\<lambda>u. u \<noteq> 0) i (i + n), foll @ st_counts r poc (\<lambda>u. u = 0) i (i + n))"
  using assms(5-7)
proof (induction n arbitrary: i cur foll)
  case 0
  then show ?case by (simp add: st_counts_def)
next
  case (Suc n)
  have i: "i < 16" using Suc.prems by simp
  have "ai2_delta_poc r ! i \<in> set (ai2_delta_poc r)" using i assms(2) by simp
  then have w: "w32 (poc + ai2_delta_poc r ! i) = Some (poc + ai2_delta_poc r ! i)"
    using assms(3,4) by (intro w32_ok) fastforce
  have up: "[i..<Suc (i + n)] = i # [Suc i..<Suc (i + n)]" by (simp add: upt_conv_Cons del: upt.simps)
  have IH: "st_loop poc (ai1_used r) (ai2_delta_poc r) n (int (Suc i)) cur foll =
    Some (cur @ st_counts r poc (\<lambda>u. u \<noteq> 0) (Suc i) (Suc i + n), foll @ st_counts r poc (\<lambda>u. u = 0) (Suc i) (Suc i + n))"
    if "length cur + n \<le> 16" "length foll + n \<le> 16" for cur foll using Suc.IH [OF _ that, of "Suc i"] Suc.prems(1) by simp
  have s: "int i + 1 = int (Suc i)" by simp
  show ?case
    using Suc.prems i assms(1,2) w
    by (cases "ai1_used r ! i = 0") (simp_all add: s IH push_def st_counts_def up del: of_nat_Suc upt.simps)
qed

lemma lt_poc_spec:
  assumes ok: "rps_fields_ok ps_sps sh" and i: "i < 16"
  shows "lt_poc sh (2 ^ nat (i1_log2_max_pic_order_cnt_lsb ps_sps)) (int i) = Some (lt_count ps_sps sh i)"
proof -
  let ?m = "2 ^ nat (i1_log2_max_pic_order_cnt_lsb ps_sps) :: int"
  note F = ok [unfolded rps_fields_ok_def Let_def]
  have n: "nat (i1_log2_max_pic_order_cnt_lsb ps_sps) \<le> 16" using F by linarith
  have m: "0 < ?m" "?m \<le> 2 ^ 16" using power_increasing [OF n, of "2 :: int"] by simp_all
  have "ai1_delta_poc_msb_cycle_lt sh ! i \<in> set (ai1_delta_poc_msb_cycle_lt sh)" "ai4_poc_lsb_lt sh ! i \<in> set (ai4_poc_lsb_lt sh)"
    using F i by simp_all
  then have c: "\<bar>ai1_delta_poc_msb_cycle_lt sh ! i\<bar> \<le> 128" and p: "0 \<le> ai4_poc_lsb_lt sh ! i" "ai4_poc_lsb_lt sh ! i < 65536"
    using F by blast+
  have "\<bar>ai1_delta_poc_msb_cycle_lt sh ! i * ?m\<bar> \<le> 128 * 2 ^ 16"
    using mult_mono [OF c m(2)] m(1) by (simp add: abs_mult)
  then have t: "\<bar>ai1_delta_poc_msb_cycle_lt sh ! i * ?m\<bar> \<le> 8388608" by simp
  have b: "\<bar>i4_abs_pic_order_cnt sh\<bar> \<le> 1073741824" "0 \<le> i4_pic_order_cnt_lsb sh" "i4_pic_order_cnt_lsb sh < 65536"
    using F by blast+
  have "w32 (ai1_delta_poc_msb_cycle_lt sh ! i * ?m) = Some (ai1_delta_poc_msb_cycle_lt sh ! i * ?m)"
    "w32 (i4_abs_pic_order_cnt sh - ai1_delta_poc_msb_cycle_lt sh ! i * ?m) =
      Some (i4_abs_pic_order_cnt sh - ai1_delta_poc_msb_cycle_lt sh ! i * ?m)"
    "w32 (i4_abs_pic_order_cnt sh - ai1_delta_poc_msb_cycle_lt sh ! i * ?m - i4_pic_order_cnt_lsb sh) =
      Some (i4_abs_pic_order_cnt sh - ai1_delta_poc_msb_cycle_lt sh ! i * ?m - i4_pic_order_cnt_lsb sh)"
    "w32 (ai4_poc_lsb_lt sh ! i + (i4_abs_pic_order_cnt sh - ai1_delta_poc_msb_cycle_lt sh ! i * ?m - i4_pic_order_cnt_lsb sh)) =
      Some (ai4_poc_lsb_lt sh ! i + (i4_abs_pic_order_cnt sh - ai1_delta_poc_msb_cycle_lt sh ! i * ?m - i4_pic_order_cnt_lsb sh))"
    using t b p by (intro w32_ok; linarith)+
  then show ?thesis using F i by (simp add: lt_poc_def lt_count_def)
qed

lemma lt_loop_spec:
  assumes ok: "rps_fields_ok ps_sps sh" and n: "i + n \<le> 16" "length cur + n \<le> 16" "length foll + n \<le> 16"
  shows "lt_loop sh (2 ^ nat (i1_log2_max_pic_order_cnt_lsb ps_sps)) n (int i) cur foll =
    Some (cur @ map (\<lambda>i. (lt_count ps_sps sh i, ai1_delta_poc_msb_present_flag sh ! i))
        (filter (\<lambda>i. ai1_used_by_curr_pic_lt_flag sh ! i \<noteq> 0) [i..<i + n]),
      foll @ map (\<lambda>i. (lt_count ps_sps sh i, ai1_delta_poc_msb_present_flag sh ! i))
        (filter (\<lambda>i. ai1_used_by_curr_pic_lt_flag sh ! i = 0) [i..<i + n]))"
  using n
proof (induction n arbitrary: i cur foll)
  case 0
  then show ?case by simp
next
  case (Suc n)
  have i: "i < 16" using Suc.prems by simp
  have len: "length (ai1_used_by_curr_pic_lt_flag sh) = 16" "length (ai1_delta_poc_msb_present_flag sh) = 16"
    using ok by (simp_all add: rps_fields_ok_def Let_def)
  have up: "[i..<Suc (i + n)] = i # [Suc i..<Suc (i + n)]" by (simp add: upt_conv_Cons del: upt.simps)
  have s: "int i + 1 = int (Suc i)" by simp
  note IH = Suc.IH [of "Suc i"]
  show ?case
    using Suc.prems i len
    by (cases "ai1_used_by_curr_pic_lt_flag sh ! i = 0")
      (simp_all add: s IH push_def up lt_poc_spec [OF ok i] del: of_nat_Suc upt.simps)
qed

text \<open>
  C24: The derivation of the reference picture set never fails on parsed fields and computes the
  counts of the standard: those before and after the current picture it refers to, those only later
  pictures refer to, and the long-term ones by low bits or whole count.
\<close>

theorem rps_derivation:
  assumes "rps_fields_ok ps_sps sh"
  shows "derive_rps ps_sps sh = Some (rps_spec ps_sps sh)"
proof -
  let ?r = "slice_rps ps_sps sh" and ?poc = "i4_abs_pic_order_cnt sh"
  let ?neg = "nat (i1_num_neg_pics ?r)" and ?pos = "nat (i1_num_pos_pics ?r)"
    and ?n = "nat (i1_num_long_term_sps sh + i1_num_long_term_pics sh)"
  note F = assms [unfolded rps_fields_ok_def Let_def]
  have r: "(if 1 = i1_short_term_ref_pic_set_sps_flag sh
      then rdi (as_stref_picset ps_sps) (i1_short_term_ref_pic_set_idx sh) else Some (s_stref_picset sh)) = Some ?r"
    using F by (auto simp: slice_rps_def rdi_def)
  have n: "?neg + ?pos \<le> 16" "?n \<le> 16" "int ?neg = i1_num_neg_pics ?r"
      "nat (i1_num_neg_pics ?r + i1_num_pos_pics ?r) = ?neg + ?pos" using F by linarith+
  have S: "length (ai1_used ?r) = 16" "length (ai2_delta_poc ?r) = 16" "\<forall>x \<in> set (ai2_delta_poc ?r). \<bar>x\<bar> \<le> 32768"
      "\<bar>?poc\<bar> \<le> 1073741824" using F by blast+
  have c: "length (st_counts ?r ?poc P lo hi) \<le> hi - lo" for P lo hi
    unfolding st_counts_def using length_filter_le [of _ "[lo..<hi]"] by simp
  have "st_loop ?poc (ai1_used ?r) (ai2_delta_poc ?r) ?neg (int 0) [] [] =
      Some ([] @ st_counts ?r ?poc (\<lambda>u. u \<noteq> 0) 0 (0 + ?neg), [] @ st_counts ?r ?poc (\<lambda>u. u = 0) 0 (0 + ?neg))"
    using n by (intro st_loop_spec [OF S]) simp_all
  moreover have "st_loop ?poc (ai1_used ?r) (ai2_delta_poc ?r) ?pos (int ?neg) [] (st_counts ?r ?poc (\<lambda>u. u = 0) 0 ?neg) =
      Some ([] @ st_counts ?r ?poc (\<lambda>u. u \<noteq> 0) ?neg (?neg + ?pos),
        st_counts ?r ?poc (\<lambda>u. u = 0) 0 ?neg @ st_counts ?r ?poc (\<lambda>u. u = 0) ?neg (?neg + ?pos))"
    using n c [of "\<lambda>u. u = 0" 0 ?neg] by (intro st_loop_spec [OF S]) simp_all
  moreover have "lt_loop sh (2 ^ nat (i1_log2_max_pic_order_cnt_lsb ps_sps)) ?n (int 0) [] [] =
      Some ([] @ lt_counts ps_sps sh (\<lambda>u. u \<noteq> 0) ?n, [] @ lt_counts ps_sps sh (\<lambda>u. u = 0) ?n)"
    using lt_loop_spec [OF assms, of 0 ?n "[]" "[]"] n(2) by (simp add: lt_counts_def)
  moreover have "st_counts ?r ?poc P 0 ?neg @ st_counts ?r ?poc P ?neg (?neg + ?pos) = st_counts ?r ?poc P 0 (?neg + ?pos)" for P
    by (simp add: st_counts_def upt_add_eq_append [of 0])
  ultimately show ?thesis
    using F n(3,4) unfolding derive_rps_def r rps_spec_def by (simp add: Let_def)
qed


section \<open>The whole call\<close>

lemma nearest_some:
  assumes inv: "dec_inv d b h" and gap: "\<forall>a \<in> set (dpb_refs d). \<bar>poc - i4_abs_poc (the (h a))\<bar> < 2147483647"
  shows "\<exists>r. ihevc_dpb_mgr_get_ref_by_nearest_poc d h poc = Some r \<and>
    (case r of None \<Rightarrow> \<forall>a \<in> set (dpb_refs d). used h a = 0 | Some a \<Rightarrow> a \<in> set (dpb_refs d) \<and> used h a \<noteq> 0)"
  using nearest_spec [OF inv gap] by (auto simp: used_def split: option.splits)

lemma same_pics_inv:
  assumes "dec_inv d b h" "same_pics h h'"
  shows "dec_inv d b h'"
proof (rule inv_heap [OF assms(1)])
  show "h' a \<noteq> None" if "h a \<noteq> None" for a using that same_picsD(1) [OF assms(2)] by simp
  show "ref_id h' a = ref_id h a" if "a \<in> set (dpb_refs d)" for a
    using dec_invD(3) [OF assms(1) that] same_picsD(4) [OF assms(2)] by (simp add: ref_id_def)
qed

text \<open>The pictures of the set with their counts, in the three parts the lists are built from.\<close>

definition before_refs :: "dpb_mgr \<Rightarrow> pics \<Rightarrow> ref_pic_set \<Rightarrow> (int \<times> nat option) list" where
  "before_refs d h s = map (\<lambda>p. (p, lookup d h p)) (ai4_poc_st_curr_before s)"

definition after_refs :: "dpb_mgr \<Rightarrow> pics \<Rightarrow> ref_pic_set \<Rightarrow> (int \<times> nat option) list" where
  "after_refs d h s = map (\<lambda>p. (p, lookup d h p)) (ai4_poc_st_curr_after s)"

definition lt_refs :: "dpb_mgr \<Rightarrow> pics \<Rightarrow> ref_pic_set \<Rightarrow> (int \<times> nat option) list" where
  "lt_refs d h s = map (\<lambda>p. (fst p, lookup_lt d h p)) (ai4_poc_lt_curr s)"

definition curr_refs :: "dpb_mgr \<Rightarrow> pics \<Rightarrow> ref_pic_set \<Rightarrow> (int \<times> nat option) list" where
  "curr_refs d h s = before_refs d h s @ after_refs d h s @ lt_refs d h s"

definition gaps_within :: "dpb_mgr \<Rightarrow> pics \<Rightarrow> ref_pic_set \<Rightarrow> bool" where
  "gaps_within d h s \<longleftrightarrow> (\<forall>p \<in> fst ` set (curr_refs d h s). \<forall>a \<in> set (dpb_refs d). \<bar>p - i4_abs_poc (the (h a))\<bar> < 2147483647)"

lemma zip_refs:
  "zip (ai4_poc_st_curr_before s) (map (lookup d h) (ai4_poc_st_curr_before s)) = before_refs d h s"
  "zip (ai4_poc_st_curr_after s) (map (lookup d h) (ai4_poc_st_curr_after s)) = after_refs d h s"
  "zip (map fst (ai4_poc_lt_curr s)) (map (lookup_lt d h) (ai4_poc_lt_curr s)) = lt_refs d h s"
  unfolding before_refs_def after_refs_def lt_refs_def by (rule nth_equalityI; simp)+

lemma curr_refs_in: "(p, Some a) \<in> set (curr_refs d h s) \<Longrightarrow> a \<in> set (dpb_refs d) \<and> (a \<in> st_pics d h s \<or> a \<in> lt_pics d h s)"
  by (auto simp: curr_refs_def before_refs_def after_refs_def lt_refs_def st_pics_def lt_pics_def image_iff
      dest: sym [of _ "lookup d h _"] sym [of _ "lookup_lt d h _"] lookup_in)

text \<open>After the marking every picture of the set stands for itself or for a marked neighbour.\<close>

lemma marked_refs:
  assumes inv: "dec_inv d b h" and gap: "gaps_within d h s" and same: "same_pics h h'"
    and mark: "\<forall>a \<in> set (dpb_refs d). used h' a = rps_mark d h pres s a"
  shows "nearest_ok d h' (fst ` set (curr_refs d h s))"
    "\<exists>a \<in> set (dpb_refs d). rps_mark d h pres s a \<noteq> 0 \<Longrightarrow>
       \<forall>p \<in> set (map (substitute d h') (curr_refs d h s)). p \<noteq> None \<and> h' (the p) \<noteq> None"
    "\<forall>a \<in> set (dpb_refs d). rps_mark d h pres s a = 0 \<Longrightarrow>
       \<forall>p \<in> set (map (substitute d h') (curr_refs d h s)). p = None"
proof -
  note inv' = same_pics_inv [OF inv same]
  have N: "\<exists>r. ihevc_dpb_mgr_get_ref_by_nearest_poc d h' p = Some r \<and>
    (case r of None \<Rightarrow> \<forall>a \<in> set (dpb_refs d). rps_mark d h pres s a = 0
     | Some a \<Rightarrow> a \<in> set (dpb_refs d) \<and> rps_mark d h pres s a \<noteq> 0)"
    if p: "p \<in> fst ` set (curr_refs d h s)" for p
  proof -
    have "\<bar>p - i4_abs_poc (the (h' a))\<bar> < 2147483647" if "a \<in> set (dpb_refs d)" for a
      using gap p that same_picsD(2) [OF same, of a] dec_invD(3) [OF inv that] unfolding gaps_within_def by metis
    then obtain r where "ihevc_dpb_mgr_get_ref_by_nearest_poc d h' p = Some r"
      "case r of None \<Rightarrow> \<forall>a \<in> set (dpb_refs d). used h' a = 0 | Some a \<Rightarrow> a \<in> set (dpb_refs d) \<and> used h' a \<noteq> 0"
      using nearest_some [OF inv'] by blast
    then show ?thesis using mark by (cases r) auto
  qed
  show "nearest_ok d h' (fst ` set (curr_refs d h s))" using N unfolding nearest_ok_def by fastforce
  have c: "(snd c = None \<and> substitute d h' c = the (ihevc_dpb_mgr_get_ref_by_nearest_poc d h' (fst c))) \<or>
      (\<exists>a \<in> set (dpb_refs d). snd c = Some a \<and> substitute d h' c = Some a \<and> rps_mark d h pres s a \<noteq> 0)"
    if "c \<in> set (curr_refs d h s)" for c
    using curr_refs_in [of "fst c" _ d h s] that by (cases c; cases "snd c") (auto simp: substitute_def rps_mark_def)
  have S: "case substitute d h' c of None \<Rightarrow> \<forall>a \<in> set (dpb_refs d). rps_mark d h pres s a = 0
      | Some a \<Rightarrow> a \<in> set (dpb_refs d) \<and> rps_mark d h pres s a \<noteq> 0"
    if "c \<in> set (curr_refs d h s)" for c
  proof -
    from N [OF imageI [OF that]] obtain r where r: "ihevc_dpb_mgr_get_ref_by_nearest_poc d h' (fst c) = Some r"
      "case r of None \<Rightarrow> \<forall>a \<in> set (dpb_refs d). rps_mark d h pres s a = 0
       | Some a \<Rightarrow> a \<in> set (dpb_refs d) \<and> rps_mark d h pres s a \<noteq> 0" by blast
    from c [OF that] show ?thesis
    proof
      assume "snd c = None \<and> substitute d h' c = the (ihevc_dpb_mgr_get_ref_by_nearest_poc d h' (fst c))"
      then show ?thesis using r by simp
    qed auto
  qed
  show "\<forall>p \<in> set (map (substitute d h') (curr_refs d h s)). p \<noteq> None \<and> h' (the p) \<noteq> None"
    if "\<exists>a \<in> set (dpb_refs d). rps_mark d h pres s a \<noteq> 0"
  proof -
    have "substitute d h' c \<noteq> None \<and> h' (the (substitute d h' c)) \<noteq> None" if "c \<in> set (curr_refs d h s)" for c
      using S [OF that] \<open>\<exists>a \<in> set (dpb_refs d). rps_mark d h pres s a \<noteq> 0\<close> dec_invD(3) [OF inv']
      by (cases "substitute d h' c") auto
    then show ?thesis by simp
  qed
  show "\<forall>p \<in> set (map (substitute d h') (curr_refs d h s)). p = None"
    if "\<forall>a \<in> set (dpb_refs d). rps_mark d h pres s a = 0"
  proof -
    have "substitute d h' c = None" if "c \<in> set (curr_refs d h s)" for c
      using S [OF that] \<open>\<forall>a \<in> set (dpb_refs d). rps_mark d h pres s a = 0\<close>
      by (cases "substitute d h' c") auto
    then show ?thesis by simp
  qed
qed

lemma ref_list_run:
  assumes "dec_inv d b h" "derive_rps ps_sps sh = Some s"
  shows "\<exists>h'. same_pics h h' \<and> (\<forall>a \<in> set (dpb_refs d). used h' a = rps_mark d h pres s a) \<and>
    ihevcd_ref_list d b h mvs mb pres ps_sps sh = (do {
     (ret, sh) \<leftarrow> build_lists d h' mvs mb (before_refs d h s) (after_refs d h s) (lt_refs d h s) sh;
     if ret \<noteq> IHEVCD_SUCCESS then Some (ret, d, b, h', mb, sh)
     else do {
       (d, b, mb) \<leftarrow> drop_unused h' mvs d b mb;
       Some (IHEVCD_SUCCESS, d, b, h', mb, sh)
     }
   })"
proof -
  note I = dec_invD [OF assms(1)]
  obtain h' where "mark_rps d h pres s =
      Some (map (lookup d h) (ai4_poc_st_curr_before s), map (lookup d h) (ai4_poc_st_curr_after s),
        map (lookup_lt d h) (ai4_poc_lt_curr s), h')" "same_pics h h'"
    "\<forall>a \<in> set (dpb_refs d). used h' a = rps_mark d h pres s a"
    using mark_rps_spec [OF I(1,7)] by blast
  then show ?thesis using assms(2) unfolding ihevcd_ref_list_def by (auto simp: zip_refs)
qed

text \<open>
  C23: Building the reference lists of a P or B slice from a reachable state, when some picture of
  the buffer is marked: the call succeeds; the pictures are marked as the set says, the short-term
  mark last; the active entries of the lists run cyclically through the pictures before, after and
  the long-term ones, for list 1 after before before, a missing one replaced by the marked picture
  \<open>ihevc_dpb_mgr_get_ref_by_nearest_poc\<close> returns for its count; and exactly the marked pictures stay in the buffer.
\<close>

theorem ref_list_result:
  assumes "dec_reach d b h" "mvs_ok mvs mb" "distinct (map (\<lambda>a. i4_abs_poc (the (h a))) (dpb_refs d))"
    and "derive_rps ps_sps sh = Some s" "slice_ok sh (length (curr_refs d h s))"
    and "curr_refs d h s \<noteq> []" "length (curr_refs d h s) \<le> 16" "gaps_within d h s"
    and "\<exists>a \<in> set (dpb_refs d). rps_mark d h i4_pic_present s a \<noteq> 0"
  shows "\<exists>d' b' h' mb' sh'. ihevcd_ref_list d b h mvs mb i4_pic_present ps_sps sh =
      Some (IHEVCD_SUCCESS, d', b', h', mb', sh') \<and>
    same_pics h h' \<and> (\<forall>a \<in> set (dpb_refs d). used h' a = rps_mark d h i4_pic_present s a) \<and>
    lists_built mvs mb h' (map (substitute d h') (before_refs d h s)) (map (substitute d h') (after_refs d h s))
      (map (substitute d h') (lt_refs d h s)) sh sh' \<and>
    dpb_refs d' = filter (\<lambda>a. rps_mark d h i4_pic_present s a \<noteq> 0) (dpb_refs d) \<and> dec_inv d' b' h'"
proof -
  note inv = dec_reach_inv [OF assms(1)]
  obtain h' where h': "same_pics h h'" "\<forall>a \<in> set (dpb_refs d). used h' a = rps_mark d h i4_pic_present s a"
    and run: "ihevcd_ref_list d b h mvs mb i4_pic_present ps_sps sh = (do {
     (ret, sh) \<leftarrow> build_lists d h' mvs mb (before_refs d h s) (after_refs d h s) (lt_refs d h s) sh;
     if ret \<noteq> IHEVCD_SUCCESS then Some (ret, d, b, h', mb, sh)
     else do {
       (d, b, mb) \<leftarrow> drop_unused h' mvs d b mb;
       Some (IHEVCD_SUCCESS, d, b, h', mb, sh)
     }
   })" using ref_list_run [OF inv assms(4)] by blast
  note M = marked_refs [OF inv assms(8) h']
  obtain sh' where sh': "build_lists d h' mvs mb (before_refs d h s) (after_refs d h s) (lt_refs d h s) sh = Some (IHEVCD_SUCCESS, sh')"
    "lists_built mvs mb h' (map (substitute d h') (before_refs d h s)) (map (substitute d h') (after_refs d h s))
      (map (substitute d h') (lt_refs d h s)) sh sh'"
    using build_lists_spec [OF M(1) [unfolded curr_refs_def] assms(2) assms(5) [unfolded curr_refs_def]
        assms(7) [unfolded curr_refs_def] assms(6) [unfolded curr_refs_def] M(2) [OF assms(9), unfolded curr_refs_def]] by blast
  note inv' = same_pics_inv [OF inv h'(1)]
  have eq: "map (\<lambda>a. i4_abs_poc (the (h' a))) (dpb_refs d) = map (\<lambda>a. i4_abs_poc (the (h a))) (dpb_refs d)"
    using dec_invD(3) [OF inv] same_picsD(2) [OF h'(1)] by simp
  have dist: "distinct (map (\<lambda>a. i4_abs_poc (the (h' a))) (dpb_refs d))" unfolding eq by (rule assms(3))
  obtain d' b' mb' where dr: "drop_unused h' mvs d b mb = Some (d', b', mb')" "dec_inv d' b' h'"
    "dpb_refs d' = filter (\<lambda>a. \<not> 0 = u1_used_as_ref (the (h' a))) (dpb_refs d)"
    using drop_refs_spec [OF inv' _ _ dist, of mb mvs 0 "\<lambda>pic. 0 = u1_used_as_ref pic"] assms(2)
    unfolding drop_unused_def mvs_ok_def by auto
  have "dpb_refs d' = filter (\<lambda>a. rps_mark d h i4_pic_present s a \<noteq> 0) (dpb_refs d)"
    unfolding dr(3) using h'(2) by (intro filter_cong) (auto simp: used_def)
  then show ?thesis using h' run sh' dr(1,2) by simp
qed


section \<open>Parsed entries\<close>

text \<open>Reading at most \<open>m\<close> bits keeps the reader at a position it can read from.\<close>

definition reads :: "bitstrm \<Rightarrow> nat \<Rightarrow> bitstrm \<Rightarrow> bool" where
  "reads bs m t \<longleftrightarrow> (\<exists>p \<le> rd_pos bs + m. rd_at bs p t)"

lemma reads_mono: "reads bs k t \<Longrightarrow> k \<le> m \<Longrightarrow> reads bs m t"
  unfolding reads_def by (meson add_left_mono le_trans)

lemma reads_get:
  assumes bs: "reads bs k t" and n: "0 < unat n" "unat n \<le> 32" "k + unat n \<le> m" and room: "rd_room bs m"
  shows "\<exists>v u. ihevcd_bits_get t n = Some (v, u) \<and> reads bs (k + unat n) u"
proof -
  obtain p where p: "p \<le> rd_pos bs + k" "rd_at bs p t" using bs by (auto simp: reads_def)
  have "rd_room t (unat n)" using room n(3) p unfolding rd_room_at [OF p(2)] by (simp add: rd_room_def)
  then obtain v u where "BITS_GET n t = Some (v, u)" "rd_at t (p + unat n) u"
    using BITS_GET_spec [OF rd_atD(1) [OF p(2)] n(1,2)] rd_atD(2) [OF p(2)] by auto
  moreover have "p + unat n \<le> rd_pos bs + (k + unat n)" using p(1) by simp
  ultimately show ?thesis using rd_at_trans [OF p(2)] unfolding reads_def ihevcd_bits_get_def by blast
qed

lemma num_bits_bounds:
  assumes "1 < num_total" "num_total \<le> 16"
  shows "0 < unat (num_bits_list_entry (int num_total))" "unat (num_bits_list_entry (int num_total)) \<le> 4"
proof -
  have "num_total = 2 \<or> num_total = 3 \<or> num_total = 4 \<or> num_total = 5 \<or> num_total = 6 \<or> num_total = 7 \<or>
    num_total = 8 \<or> num_total = 9 \<or> num_total = 10 \<or> num_total = 11 \<or> num_total = 12 \<or> num_total = 13 \<or>
    num_total = 14 \<or> num_total = 15 \<or> num_total = 16" using assms by presburger
  then show "0 < unat (num_bits_list_entry (int num_total))" "unat (num_bits_list_entry (int num_total)) \<le> 4"
    by (auto simp: num_bits_list_entry_def CLZ_def builtin_clz_def upt_rec)
qed

lemma clip_entry: "1 < num_total \<Longrightarrow> 0 \<le> CLIP3 x 0 (int num_total - 1) \<and> CLIP3 x 0 (int num_total - 1) < int num_total"
  by (auto simp: CLIP3_def)

lemma entry_parse_spec:
  assumes nb: "0 < unat nb" "unat nb \<le> 4" and t: "1 < num_total" and room: "rd_room bs m"
    and "reads bs k t" "k + 4 * n \<le> m" "i + n \<le> length entry" "\<forall>j < i. 0 \<le> entry ! j \<and> entry ! j < int num_total"
  shows "\<exists>es u. entry_parse (int num_total) nb n i entry t = Some (es, u) \<and> reads bs (k + 4 * n) u \<and>
    length es = length entry \<and> (\<forall>j < i + n. 0 \<le> es ! j \<and> es ! j < int num_total)"
  using assms(5-8)
proof (induction n arbitrary: k i entry t)
  case (Suc n)
  obtain v u where u: "ihevcd_bits_get t nb = Some (v, u)" "reads bs (k + unat nb) u"
    using reads_get [OF Suc.prems(1) nb(1) _ _ room] nb(2) Suc.prems(2) by auto
  have r: "reads bs (k + 4) u" using reads_mono [OF u(2)] nb(2) by simp
  let ?e = "entry[i := CLIP3 (s8 v) 0 (int num_total - 1)]"
  have "\<forall>j < i + 1. 0 \<le> ?e ! j \<and> ?e ! j < int num_total"
    using Suc.prems(3,4) clip_entry [OF t] by (auto simp: nth_list_update less_Suc_eq)
  with Suc.IH [of "k + 4" u "i + 1" ?e] r Suc.prems(2,3) u(1) show ?case by (auto simp: algebra_simps)
qed simp

lemma list_parse_spec:
  assumes t: "1 < num_total" "num_total \<le> 16" and room: "rd_room bs m"
    and bs: "reads bs k t" "k + 1 + 4 * n \<le> m" and n: "n \<le> 16" "length entry = 16"
  shows "\<exists>f es u. list_parse (int num_total) (int n) entry t = Some (f, es, u) \<and> reads bs (k + (1 + 4 * n)) u \<and>
    entries_ok f es (int n) num_total"
proof -
  obtain v q where q: "ihevcd_bits_get t 1 = Some (v, q)" "reads bs (k + 1) q"
    using reads_get [OF bs(1), of 1, OF _ _ _ room] bs(2) by auto
  show ?thesis
  proof (cases "s8 v = 0")
    case True
    have "reads bs (k + (1 + 4 * n)) q" using reads_mono [OF q(2)] by simp
    then show ?thesis using True q(1) n by (auto simp: list_parse_def entries_ok_def)
  next
    case False
    obtain es u where "entry_parse (int num_total) (num_bits_list_entry (int num_total)) n 0 entry q = Some (es, u)"
        "reads bs (k + 1 + 4 * n) u" "length es = 16" "\<forall>j < n. 0 \<le> es ! j \<and> es ! j < int num_total"
      using entry_parse_spec [OF num_bits_bounds [OF t] t(1) room q(2), of n 0 entry] bs(2) n by auto
    then show ?thesis using False q(1) n by (auto simp: list_parse_def entries_ok_def add.assoc)
  qed
qed

text \<open>
  C27: The modification of the reference lists read from the stream is well formed: with room for
  its bits the reads succeed, and every entry for an active index refers to one of the pictures.
\<close>

theorem list_modification_in_range:
  assumes "rd_inv bs" "1 < num_total" "num_total \<le> 16" "rd_room bs (2 + 4 * (l0 + l1))"
    and "i1_slice_type sh = PSLICE \<or> i1_slice_type sh = BSLICE" "i1_num_ref_idx_l0_active sh = int l0" "l0 \<le> 16"
      "i1_num_ref_idx_l1_active sh = int l1" "l1 \<le> 16"
    and "length (i1_list_entry_l0 (s_rplm sh)) = 16" "length (i1_list_entry_l1 (s_rplm sh)) = 16"
  shows "\<exists>sh' t. ihevcd_ref_pic_list_modification bs sh (int num_total) = Some (sh', t) \<and> rd_inv t \<and>
    entries_ok (i1_ref_pic_list_modification_flag_l0 (s_rplm sh')) (i1_list_entry_l0 (s_rplm sh')) (int l0) num_total \<and>
    (i1_slice_type sh' = BSLICE \<longrightarrow>
      entries_ok (i1_ref_pic_list_modification_flag_l1 (s_rplm sh')) (i1_list_entry_l1 (s_rplm sh')) (int l1) num_total)"
proof -
  have bs: "reads bs 0 bs" using rd_at_refl [OF assms(1)] by (auto simp: reads_def)
  have inv: "rd_inv t" if "reads bs k t" for k t using that rd_atD(1) by (auto simp: reads_def)
  obtain f es t where t: "list_parse (int num_total) (int l0) (i1_list_entry_l0 (s_rplm sh)) bs = Some (f, es, t)"
      "reads bs (1 + 4 * l0) t" "entries_ok f es (int l0) num_total"
    using list_parse_spec [OF assms(2,3,4) bs _ assms(7,10)] by auto
  obtain g fs u where u: "list_parse (int num_total) (int l1) (i1_list_entry_l1 (s_rplm sh)) t = Some (g, fs, u)"
      "reads bs (1 + 4 * l0 + (1 + 4 * l1)) u" "entries_ok g fs (int l1) num_total"
    using list_parse_spec [OF assms(2,3,4) t(2) _ assms(9,11)] by auto
  show ?thesis
    using assms(5,6,8) t u inv by (cases "i1_slice_type sh = BSLICE") (auto simp: ihevcd_ref_pic_list_modification_def)
qed


text \<open>
  C25: A slice whose set leaves no picture of the buffer marked is refused: the call returns
  \<^verbatim>\<open>IHEVCD_REF_PIC_NOT_FOUND\<close>, with the buffer and its holds as they were.
\<close>

theorem ref_list_no_reference:
  assumes "dec_reach d b h" "derive_rps ps_sps sh = Some s" "slice_ok sh (length (curr_refs d h s))"
    and "curr_refs d h s \<noteq> []" "length (curr_refs d h s) \<le> 16" "gaps_within d h s" "0 < i1_num_ref_idx_l0_active sh"
    and "\<forall>a \<in> set (dpb_refs d). rps_mark d h i4_pic_present s a = 0"
  shows "\<exists>h' sh'. ihevcd_ref_list d b h mvs mb i4_pic_present ps_sps sh =
    Some (IHEVCD_REF_PIC_NOT_FOUND, d, b, h', mb, sh') \<and> same_pics h h'"
proof -
  note inv = dec_reach_inv [OF assms(1)]
  obtain h' where h': "same_pics h h'" "\<forall>a \<in> set (dpb_refs d). used h' a = rps_mark d h i4_pic_present s a"
    and run: "ihevcd_ref_list d b h mvs mb i4_pic_present ps_sps sh = (do {
     (ret, sh) \<leftarrow> build_lists d h' mvs mb (before_refs d h s) (after_refs d h s) (lt_refs d h s) sh;
     if ret \<noteq> IHEVCD_SUCCESS then Some (ret, d, b, h', mb, sh)
     else do {
       (d, b, mb) \<leftarrow> drop_unused h' mvs d b mb;
       Some (IHEVCD_SUCCESS, d, b, h', mb, sh)
     }
   })" using ref_list_run [OF inv assms(2)] by blast
  note M = marked_refs [OF inv assms(6) h']
  let ?ps = "[before_refs d h s, after_refs d h s, lt_refs d h s]"
  have c: "concat ?ps = curr_refs d h s" by (simp add: curr_refs_def)
  let ?cs = "map (substitute d h') (concat ?ps)" and ?n = "temp_entries (length (concat ?ps)) (i1_num_ref_idx_l0_active sh)"
  have tot: "length (lt_refs d h s) + length (after_refs d h s) + length (before_refs d h s) = length (concat ?ps)" by simp
  have e: "entries_ok (i1_ref_pic_list_modification_flag_l0 (s_rplm sh)) (i1_list_entry_l0 (s_rplm sh))
      (i1_num_ref_idx_l0_active sh) (length (concat ?ps))"
    and S: "i1_slice_type sh = PSLICE \<or> i1_slice_type sh = BSLICE" "length (as_ref_pic_list0 sh) = 16"
    using assms(3) unfolding slice_ok_def c by blast+
  have len: "length (concat ?ps) \<le> 16" "concat ?ps \<noteq> []" using assms(4,5) unfolding c by blast+
  have z: "0 = ?n \<or> 0 < ?n \<and> length (concat ?ps) dvd 0" by auto
  obtain qs where fill: "fill_while d h' ?n ?ps [] = Some (qs, cyc ?cs ?n)"
    using fill_while_spec [OF M(1) [folded c] temp_entries_bounds(1) [OF e len(1)] len(2) z] unfolding cyc_simps(3) by blast
  let ?k = "entry_idx (i1_ref_pic_list_modification_flag_l0 (s_rplm sh)) (i1_list_entry_l0 (s_rplm sh)) 0"
  have act: "0 < nat (i1_num_ref_idx_l0_active sh)" using assms(7) by simp
  have k: "?k < ?n" by (rule entry_idx_bound(1) [OF e len(1) act])
  have pos: "0 < length ?cs" using len(2) by simp
  have "?cs ! (?k mod length ?cs) \<in> set ?cs" using pos by (intro nth_mem mod_less_divisor)
  then have "?cs ! (?k mod length ?cs) = None" using M(3) [OF assms(8)] unfolding c by blast
  then have null: "cyc ?cs ?n ! ?k = None" unfolding cyc_simps(2) [OF k] .
  have x: "0 < length (as_ref_pic_list0 sh)" "0 < length (i1_list_entry_l0 (s_rplm sh))"
    using S(2) e by (simp_all add: entries_ok_def)
  have z0: "i1_ref_pic_list_modification_flag_l0 (s_rplm sh) \<noteq> 0 \<longrightarrow> 0 \<le> i1_list_entry_l0 (s_rplm sh) ! 0"
    using entry_idx_bound(2) [OF e len(1) act] by blast
  have kt: "?k < length (cyc ?cs ?n)" using k by (simp only: cyc_simps(1))
  obtain ys where "entry_loop mvs mb h' (i1_ref_pic_list_modification_flag_l0 (s_rplm sh)) (i1_list_entry_l0 (s_rplm sh))
      (cyc ?cs ?n) (nat (i1_num_ref_idx_l0_active sh)) 0 (as_ref_pic_list0 sh) = Some (IHEVCD_REF_PIC_NOT_FOUND, ys)"
    using entry_loop_null [OF act x z0 kt null] by blast
  then have "build_lists d h' mvs mb (before_refs d h s) (after_refs d h s) (lt_refs d h s) sh =
      Some (IHEVCD_REF_PIC_NOT_FOUND, sh \<lparr> as_ref_pic_list0 := ys \<rparr>)"
    using S(1) fill unfolding build_lists_def tot Let_def by simp
  then show ?thesis using run h'(1) by simp
qed

text \<open>
  C26: The loop that fills a list ends exactly when there is a picture to fill it with, or nothing
  to fill; the slice header parser refuses a slice without one.
\<close>

theorem ref_list_loop_ends:
  assumes "nearest_ok d h (fst ` set (concat ps))" "n \<le> 16"
  shows "(\<exists>r. fill_while d h n ps [] = Some r) \<longleftrightarrow> n = 0 \<or> concat ps \<noteq> []"
proof (cases "concat ps = []")
  case True
  then show ?thesis using fill_while_empty [OF True, of "[]" n] by (cases "n = 0") (auto simp: fill_while.simps)
next
  case False
  have z: "0 = n \<or> 0 < n \<and> length (concat ps) dvd 0" by auto
  from fill_while_spec [OF assms False z] False show ?thesis unfolding cyc_simps(3) by blast
qed

section \<open>A decode with one reference\<close>

text \<open>A P slice that refers to the pictures with counts \<open>3\<close> and \<open>4\<close>, or to the one with count \<open>4\<close> only.\<close>

definition slice_example :: "int list \<Rightarrow> slice_header" where
  "slice_example deltas = \<lparr> i1_slice_type = 1, i4_abs_pic_order_cnt = 5, i4_pic_order_cnt_lsb = 5,
     i1_short_term_ref_pic_set_sps_flag = 0, i1_short_term_ref_pic_set_idx = 0,
     s_stref_picset = \<lparr> i1_num_neg_pics = int (length deltas), i1_num_pos_pics = 0,
       ai1_used = replicate 16 1, ai2_delta_poc = deltas @ replicate (16 - length deltas) 0 \<rparr>,
     i1_num_long_term_sps = 0, i1_num_long_term_pics = 0, ai4_poc_lsb_lt = replicate 16 0,
     ai1_used_by_curr_pic_lt_flag = replicate 16 0, ai1_delta_poc_msb_present_flag = replicate 16 0,
     ai1_delta_poc_msb_cycle_lt = replicate 16 0, i1_num_ref_idx_l0_active = 3, i1_num_ref_idx_l1_active = 0,
     s_rplm = \<lparr> i1_ref_pic_list_modification_flag_l0 = 0, i1_list_entry_l0 = replicate 16 0,
       i1_ref_pic_list_modification_flag_l1 = 0, i1_list_entry_l1 = replicate 16 0 \<rparr>,
     as_ref_pic_list0 = replicate 16 \<lparr> pv_pic_buf = None, pv_mv_buf = None \<rparr>,
     as_ref_pic_list1 = replicate 16 \<lparr> pv_pic_buf = None, pv_mv_buf = None \<rparr> \<rparr>"

definition sps_example :: sps where
  "sps_example = \<lparr> i1_log2_max_pic_order_cnt_lsb = 8, as_stref_picset = [] \<rparr>"

definition rps_example :: "int list \<Rightarrow> ref_pic_set" where
  "rps_example pocs = \<lparr> ai4_poc_st_curr_before = pocs, ai4_poc_st_curr_after = [], ai4_poc_st_foll = [],
     ai4_poc_lt_curr = [], ai4_poc_lt_foll = [] \<rparr>"

lemma rps_derivation_witness:
  "derive_rps sps_example (slice_example [-2, -1]) = Some (rps_spec sps_example (slice_example [-2, -1]))"
  by (rule rps_derivation) (simp add: rps_fields_ok_def slice_rps_def slice_example_def sps_example_def)

lemma derive_example:
  "derive_rps sps_example (slice_example [-2, -1]) = Some (rps_example [3, 4])"
  "derive_rps sps_example (slice_example [-1]) = Some (rps_example [4])"
  by (simp_all add: derive_rps_def slice_example_def sps_example_def rps_example_def numeral_2_eq_2 rdi_def w32_def in_w32_def
      require_def push_def)

lemma mvs_example: "mvs_ok (replicate 10 0) bm_example"
  using bm_reach_ok [OF bm_example_reach] by (simp add: mvs_ok_def) (auto simp: bm_example_def)

lemma slice_example_ok: "slice_ok (slice_example xs) n"
  by (simp add: slice_ok_def slice_example_def entries_ok_def)

lemma ref_list_result_witness:
  "\<exists>d b h. dpb_refs d = [7] \<and> (\<exists>d' b' h' mb' sh'.
    ihevcd_ref_list d b h (replicate 10 0) bm_example 0 sps_example (slice_example [-2, -1]) =
      Some (IHEVCD_SUCCESS, d', b', h', mb', sh') \<and>
    same_pics h h' \<and> (\<forall>a \<in> set (dpb_refs d). used h' a = rps_mark d h 0 (rps_example [3, 4]) a) \<and>
    lists_built (replicate 10 0) bm_example h' (map (substitute d h') (before_refs d h (rps_example [3, 4])))
      (map (substitute d h') (after_refs d h (rps_example [3, 4])))
      (map (substitute d h') (lt_refs d h (rps_example [3, 4]))) (slice_example [-2, -1]) sh' \<and>
    dpb_refs d' = filter (\<lambda>a. rps_mark d h 0 (rps_example [3, 4]) a \<noteq> 0) (dpb_refs d) \<and> dec_inv d' b' h')"
proof -
  obtain d b h where e: "dec_reach d b h" "dpb_refs d = [7]" "i4_abs_poc (the (h 7)) = 3"
    using dec_example_poc by blast
  let ?s = "rps_example [3, 4]"
  have "curr_refs d h ?s = [(3, Some 7), (4, None)]"
    by (simp add: curr_refs_def before_refs_def after_refs_def lt_refs_def rps_example_def lookup_def e(2,3))
  moreover from this have "gaps_within d h ?s" by (simp add: gaps_within_def e(2,3))
  moreover have "rps_mark d h 0 ?s 7 \<noteq> 0" by (simp add: rps_mark_def st_pics_def rps_example_def lookup_def e(2,3))
  then have "\<exists>a \<in> set (dpb_refs d). rps_mark d h 0 ?s a \<noteq> 0" by (simp add: e(2))
  moreover have "distinct (map (\<lambda>a. i4_abs_poc (the (h a))) (dpb_refs d))" by (simp add: e(2))
  ultimately show ?thesis
    using ref_list_result [OF e(1) mvs_example _ derive_example(1) slice_example_ok] e(2) by fastforce
qed

lemma ref_list_no_reference_witness:
  "\<exists>d b h. dpb_refs d = [7] \<and> (\<exists>h' sh'.
    ihevcd_ref_list d b h (replicate 10 0) bm_example 0 sps_example (slice_example [-1]) =
      Some (IHEVCD_REF_PIC_NOT_FOUND, d, b, h', bm_example, sh') \<and> same_pics h h')"
proof -
  obtain d b h where e: "dec_reach d b h" "dpb_refs d = [7]" "i4_abs_poc (the (h 7)) = 3"
    using dec_example_poc by blast
  let ?s = "rps_example [4]"
  have c: "curr_refs d h ?s = [(4, None)]"
    by (simp add: curr_refs_def before_refs_def after_refs_def lt_refs_def rps_example_def lookup_def e(2,3))
  then have g: "gaps_within d h ?s" by (simp add: gaps_within_def e(2,3))
  have "rps_mark d h 0 ?s 7 = 0" by (simp add: rps_mark_def st_pics_def lt_pics_def rps_example_def lookup_def e(2,3))
  then have m: "\<forall>a \<in> set (dpb_refs d). rps_mark d h 0 ?s a = 0" by (simp add: e(2))
  have a: "0 < i1_num_ref_idx_l0_active (slice_example [-1])" by (simp add: slice_example_def)
  have l: "curr_refs d h ?s \<noteq> []" "length (curr_refs d h ?s) \<le> 16" by (simp_all add: c)
  show ?thesis
    using ref_list_no_reference [OF e(1) derive_example(2) slice_example_ok l g a m] e(2) by blast
qed

lemma ref_list_loop_ends_witness:
  "\<not> (\<exists>r. fill_while \<lparr> ps_dpb_head = None, as_dpb_info = [], u1_num_ref_bufs = 0 \<rparr> (\<lambda>_. None) 1 [[], [], []] [] = Some r)"
  using ref_list_loop_ends [of "\<lparr> ps_dpb_head = None, as_dpb_info = [], u1_num_ref_bufs = 0 \<rparr>" "\<lambda>_. None" "[[], [], []]" 1]
  by (simp add: nearest_ok_def)

lemma list_modification_in_range_witness:
  "\<exists>bs sh' t. ihevcd_ref_pic_list_modification bs (slice_example [-2, -1]) 2 = Some (sh', t) \<and> rd_inv t \<and>
    entries_ok (i1_ref_pic_list_modification_flag_l0 (s_rplm sh')) (i1_list_entry_l0 (s_rplm sh')) 3 2"
proof -
  obtain bs where bs: "rd_inv bs" "rd_pos bs = 0" "pu1_buf_base bs = replicate 20 170"
    using bits_init_spec [of "replicate 20 170" 20] by auto
  then have "rd_room bs (2 + 4 * (3 + 0))" by (simp add: rd_room_def)
  from list_modification_in_range [OF bs(1) _ _ this, of 2 "slice_example [-2, -1]"] show ?thesis
    by (auto simp: slice_example_def)
qed

end
