(* ===== verification/Fifo.thy ===== *)
theory Fifo
  imports Main "HOL-Library.Sublist"
begin

text \<open>
  The contract of a queue several threads share: every step, whoever makes it, appends one item at
  the end, takes the first one, or leaves the items alone. \<open>put\<close> and \<open>got\<close> say which item a step
  appends or takes. What the clients rely on is proved once: over any interleaving the items come
  out in the order they went in, each at most once, and none is made up.
\<close>

locale fifo_queue =
  fixes valid :: "'s \<Rightarrow> bool" and content :: "'s \<Rightarrow> 'a list"
    and act :: "'o \<Rightarrow> 's \<Rightarrow> 's option" and put :: "'o \<Rightarrow> 's \<Rightarrow> 'a list" and got :: "'o \<Rightarrow> 's \<Rightarrow> 'a list"
  assumes act_valid: "valid s \<Longrightarrow> act op s = Some t \<Longrightarrow> valid t"
    and act_content: "valid s \<Longrightarrow> act op s = Some t \<Longrightarrow> content s @ put op s = got op s @ content t"
begin

text \<open>A history: the items put and got by a list of steps, and the state they lead to.\<close>

fun history :: "'o list \<Rightarrow> 's \<Rightarrow> ('a list \<times> 'a list \<times> 's) option" where
  "history [] s = Some ([], [], s)"
| "history (op # ops) s = Option.bind (act op s) (\<lambda>t.
     map_option (\<lambda>(ps, gs, u). (put op s @ ps, got op s @ gs, u)) (history ops t))"

lemma history_order:
  "valid s \<Longrightarrow> history ops s = Some (ps, gs, t) \<Longrightarrow> valid t \<and> content s @ ps = gs @ content t"
proof (induction ops arbitrary: s ps gs)
  case (Cons op ops)
  then obtain u where u: "act op s = Some u" by (cases "act op s") auto
  then obtain ps' gs' where h: "history ops u = Some (ps', gs', t)" "ps = put op s @ ps'" "gs = got op s @ gs'"
    using Cons.prems(2) by (cases "history ops u") auto
  have "valid t" "content u @ ps' = gs' @ content t" using Cons.IH [OF act_valid [OF Cons.prems(1) u] h(1)] by simp_all
  then show ?case using act_content [OF Cons.prems(1) u] h(2,3) by (metis append.assoc)
qed simp

lemma got_prefix: "valid s \<Longrightarrow> content s = [] \<Longrightarrow> history ops s = Some (ps, gs, t) \<Longrightarrow> prefix gs ps"
  using history_order by (metis append_Nil prefixI)

end

end
