(* ===== verification/Job_Queue.thy ===== *)
theory Job_Queue
  imports Hevc_Prelude Fifo
begin

text \<open>
  The queue that hands jobs from the parsing thread to the processing threads,
  \<^verbatim>\<open>decoder/ihevcd_job_queue.c\<close>. The job buffer is a byte list, the pointers offsets into it.

  The thread library is not modelled: its mutex calls are an argument \<open>T\<close> of the operations, the
  mutex a state of arbitrary type. What happens between a lock and the matching unlock is one
  step. \<^verbatim>\<open>ihevcd_jobq_dequeue\<close> releases the lock while it waits: what the other threads do in its
  \<open>k\<close>-th wait is the \<open>k\<close>-th entry of an argument. The loop has fuel; \<open>None\<close> also stands for a call
  that has not returned.

  The queue is a \<open>fifo_queue\<close>: over every interleaving of the threads' steps the jobs come out in
  the order they went in.
\<close>

section \<open>Operations\<close>

datatype ihevcd_error = IHEVCD_SUCCESS | IHEVCD_FAIL

record 'm ithread =
  mutex_lock :: "'m \<Rightarrow> int \<times> 'm"
  mutex_unlock :: "'m \<Rightarrow> int \<times> 'm"
  mutex_init :: "'m \<Rightarrow> 'm"
  mutex_destroy :: "'m \<Rightarrow> int \<times> 'm"
  mutex_size :: int

record 'm jobq =
  pv_buf :: "u8 list"
  pv_buf_wr :: nat
  pv_buf_rd :: nat
  pv_buf_end :: nat
  pv_mutex :: 'm
  i4_terminate :: int

definition ihevcd_jobq_lock :: "'m ithread \<Rightarrow> 'm jobq \<Rightarrow> ihevcd_error \<times> 'm jobq" where
  "ihevcd_jobq_lock T q = (let (r, m) = mutex_lock T (pv_mutex q) in
     (if r \<noteq> 0 then IHEVCD_FAIL else IHEVCD_SUCCESS, q \<lparr> pv_mutex := m \<rparr>))"

definition ihevcd_jobq_unlock :: "'m ithread \<Rightarrow> 'm jobq \<Rightarrow> ihevcd_error \<times> 'm jobq" where
  "ihevcd_jobq_unlock T q = (let (r, m) = mutex_unlock T (pv_mutex q) in
     (if r \<noteq> 0 then IHEVCD_FAIL else IHEVCD_SUCCESS, q \<lparr> pv_mutex := m \<rparr>))"

text \<open>The part of an operation under the lock, between \<^verbatim>\<open>ihevcd_jobq_lock\<close> and
  \<^verbatim>\<open>ihevcd_jobq_unlock\<close> and the early returns when one of them fails.\<close>

definition locked :: "'m ithread \<Rightarrow> ('m jobq \<Rightarrow> (ihevcd_error \<times> 'm jobq) option) \<Rightarrow> 'm jobq \<Rightarrow>
    (ihevcd_error \<times> 'm jobq) option" where
  "locked T body q = (
     let (r, q) = ihevcd_jobq_lock T q in
     if r \<noteq> IHEVCD_SUCCESS then Some (r, q)
     else do {
       (ret, q) \<leftarrow> body q;
       let (r, q) = ihevcd_jobq_unlock T q;
       Some (if r \<noteq> IHEVCD_SUCCESS then r else ret, q)
     })"

text \<open>\<open>other\<close> is what the other threads do while the lock is free.\<close>

definition ihevcd_jobq_yield :: "'m ithread \<Rightarrow> ('m jobq \<Rightarrow> 'm jobq) \<Rightarrow> 'm jobq \<Rightarrow> ihevcd_error \<times> 'm jobq" where
  "ihevcd_jobq_yield T other q = (
     let (r, q) = ihevcd_jobq_unlock T q in
     if r \<noteq> IHEVCD_SUCCESS then (r, q)
     else
       let (r, q) = ihevcd_jobq_lock T (other q) in
       if r \<noteq> IHEVCD_SUCCESS then (r, q) else (IHEVCD_SUCCESS, q))"

definition ihevcd_jobq_free :: "'m ithread \<Rightarrow> 'm jobq \<Rightarrow> ihevcd_error \<times> 'm jobq" where
  "ihevcd_jobq_free T q = (let (r, m) = mutex_destroy T (pv_mutex q) in
     (if 0 = r then IHEVCD_SUCCESS else IHEVCD_FAIL, q \<lparr> pv_mutex := m \<rparr>))"

text \<open>\<open>hdr\<close> is the size of \<^verbatim>\<open>jobq_t\<close>, \<open>m\<close> the memory of the mutex, \<open>mem\<close> the rest of the buffer.\<close>

definition ihevcd_jobq_ctxt_size :: "'m ithread \<Rightarrow> int \<Rightarrow> int" where
  "ihevcd_jobq_ctxt_size T hdr = hdr + mutex_size T"

definition ihevcd_jobq_init :: "'m ithread \<Rightarrow> int \<Rightarrow> 'm \<Rightarrow> u8 list \<Rightarrow> int \<Rightarrow> 'm jobq option" where
  "ihevcd_jobq_init T hdr m mem buf_size = (
     let buf_size = buf_size - hdr; buf_size = buf_size - mutex_size T in
     if buf_size \<le> 0 then None
     else Some \<lparr> pv_buf = mem, pv_buf_wr = 0, pv_buf_rd = 0, pv_buf_end = nat buf_size,
       pv_mutex = mutex_init T m, i4_terminate = 0 \<rparr>)"

definition ihevcd_jobq_reset :: "'m ithread \<Rightarrow> 'm jobq \<Rightarrow> (ihevcd_error \<times> 'm jobq) option" where
  "ihevcd_jobq_reset T = locked T (\<lambda>q. Some (IHEVCD_SUCCESS, q \<lparr> pv_buf_wr := 0, pv_buf_rd := 0, i4_terminate := 0 \<rparr>))"

definition ihevcd_jobq_deinit :: "'m ithread \<Rightarrow> 'm jobq \<Rightarrow> (ihevcd_error \<times> 'm jobq) option" where
  "ihevcd_jobq_deinit T q = do {
     (r, q) \<leftarrow> ihevcd_jobq_reset T q;
     if r \<noteq> IHEVCD_SUCCESS then Some (r, q) else Some (ihevcd_jobq_free T q)
   }"

definition ihevcd_jobq_terminate :: "'m ithread \<Rightarrow> 'm jobq \<Rightarrow> (ihevcd_error \<times> 'm jobq) option" where
  "ihevcd_jobq_terminate T = locked T (\<lambda>q. Some (IHEVCD_SUCCESS, q \<lparr> i4_terminate := 1 \<rparr>))"

text \<open>\<^verbatim>\<open>memcpy\<close> into and out of the buffer: undefined outside it.\<close>

definition copy_in :: "u8 list \<Rightarrow> nat \<Rightarrow> u8 list \<Rightarrow> u8 list option" where
  "copy_in mem at bs = (if at + length bs \<le> length mem then Some (take at mem @ bs @ drop (at + length bs) mem) else None)"

definition copy_out :: "u8 list \<Rightarrow> nat \<Rightarrow> nat \<Rightarrow> u8 list option" where
  "copy_out mem at n = (if at + n \<le> length mem then Some (take n (drop at mem)) else None)"

definition jobq_queue_body :: "u8 list \<Rightarrow> 'm jobq \<Rightarrow> (ihevcd_error \<times> 'm jobq) option" where
  "jobq_queue_body job q = do {
     (ret, q) \<leftarrow>
       (if pv_buf_end q \<ge> pv_buf_wr q + length job then do {
          mem \<leftarrow> copy_in (pv_buf q) (pv_buf_wr q) job;
          Some (IHEVCD_SUCCESS, q \<lparr> pv_buf := mem, pv_buf_wr := pv_buf_wr q + length job \<rparr>)
        } else Some (IHEVCD_FAIL, q));
     Some (ret, q \<lparr> i4_terminate := 0 \<rparr>)
   }"

definition ihevcd_jobq_queue :: "'m ithread \<Rightarrow> 'm jobq \<Rightarrow> u8 list \<Rightarrow> int \<Rightarrow> (ihevcd_error \<times> 'm jobq) option" where
  "ihevcd_jobq_queue T q job blocking = locked T (jobq_queue_body job) q"

text \<open>One turn of the loop of the dequeue: a job, the end, or another turn.\<close>

datatype 'm turn = Job "u8 list" "'m jobq" | Ended | Again

definition dequeue_turn :: "nat \<Rightarrow> 'm jobq \<Rightarrow> 'm turn option" where
  "dequeue_turn job_size q = (
     if pv_buf_wr q \<ge> pv_buf_rd q + job_size then do {
       job \<leftarrow> copy_out (pv_buf q) (pv_buf_rd q) job_size;
       Some (Job job (q \<lparr> pv_buf_rd := pv_buf_rd q + job_size \<rparr>))
     } else Some (if i4_terminate q = 1 then Ended else Again))"

fun dequeue_loop :: "nat \<Rightarrow> 'm ithread \<Rightarrow> ('m jobq \<Rightarrow> 'm jobq) list \<Rightarrow> nat \<Rightarrow> int \<Rightarrow> 'm jobq \<Rightarrow>
    (ihevcd_error \<times> u8 list \<times> 'm jobq) option" where
  "dequeue_loop 0 T others job_size blocking q = None"
| "dequeue_loop (Suc fuel) T others job_size blocking q = do {
     t \<leftarrow> dequeue_turn job_size q;
     case t of
       Job job q \<Rightarrow> Some (IHEVCD_SUCCESS, job, q)
     | Ended \<Rightarrow> Some (IHEVCD_FAIL, [], q)
     | Again \<Rightarrow>
         if 1 = blocking then
           (case others of
              [] \<Rightarrow> None
            | f # fs \<Rightarrow> dequeue_loop fuel T fs job_size blocking (snd (ihevcd_jobq_yield T f q)))
         else dequeue_loop fuel T others job_size blocking q
   }"

definition ihevcd_jobq_dequeue :: "nat \<Rightarrow> 'm ithread \<Rightarrow> ('m jobq \<Rightarrow> 'm jobq) list \<Rightarrow> 'm jobq \<Rightarrow> nat \<Rightarrow> int \<Rightarrow>
    (ihevcd_error \<times> u8 list \<times> 'm jobq) option" where
  "ihevcd_jobq_dequeue fuel T others q job_size blocking = (
     let (r, q) = ihevcd_jobq_lock T q in
     if r \<noteq> IHEVCD_SUCCESS then Some (r, [], q)
     else do {
       (ret, job, q) \<leftarrow>
         (if pv_buf_end q \<ge> pv_buf_rd q + job_size then dequeue_loop fuel T others job_size blocking q
          else Some (IHEVCD_FAIL, [], q));
       let (r, q) = ihevcd_jobq_unlock T q;
       Some (if r \<noteq> IHEVCD_SUCCESS then r else ret, job, q)
     })"


section \<open>The threads' steps\<close>

text \<open>What one thread does under the lock: queue a job of the queue's job size \<open>n\<close>, one turn of a
  dequeue, terminate.\<close>

datatype jq_step = Put "u8 list" | Take | Stop

definition jq_act :: "nat \<Rightarrow> jq_step \<Rightarrow> 'm jobq \<Rightarrow> 'm jobq option" where
  "jq_act n op q = (case op of
       Put job \<Rightarrow> do { require (length job = n); map_option snd (jobq_queue_body job q) }
     | Take \<Rightarrow> map_option (\<lambda>t. case t of Job j q \<Rightarrow> q | _ \<Rightarrow> q) (dequeue_turn n q)
     | Stop \<Rightarrow> Some (q \<lparr> i4_terminate := 1 \<rparr>))"

definition jq_put :: "jq_step \<Rightarrow> 'm jobq \<Rightarrow> u8 list list" where
  "jq_put op q = (case op of
       Put job \<Rightarrow> (case jobq_queue_body job q of Some (IHEVCD_SUCCESS, _) \<Rightarrow> [job] | _ \<Rightarrow> [])
     | _ \<Rightarrow> [])"

definition jq_got :: "nat \<Rightarrow> jq_step \<Rightarrow> 'm jobq \<Rightarrow> u8 list list" where
  "jq_got n op q = (case op of
       Take \<Rightarrow> (case dequeue_turn n q of Some (Job j _) \<Rightarrow> [j] | _ \<Rightarrow> [])
     | _ \<Rightarrow> [])"

text \<open>The invariant: the pointers are in order and inside the buffer, whole jobs apart.\<close>

definition jq_valid :: "nat \<Rightarrow> 'm jobq \<Rightarrow> bool" where
  "jq_valid n q \<longleftrightarrow> 0 < n \<and> pv_buf_wr q \<le> pv_buf_end q \<and> pv_buf_end q \<le> length (pv_buf q) \<and>
     pv_buf_rd q \<le> pv_buf_wr q \<and> n dvd pv_buf_wr q - pv_buf_rd q"

definition job_at :: "nat \<Rightarrow> u8 list \<Rightarrow> nat \<Rightarrow> u8 list" where
  "job_at n mem i = take n (drop i mem)"

definition jq_content :: "nat \<Rightarrow> 'm jobq \<Rightarrow> u8 list list" where
  "jq_content n q = map (\<lambda>k. job_at n (pv_buf q) (pv_buf_rd q + k * n)) [0 ..< (pv_buf_wr q - pv_buf_rd q) div n]"

lemma jq_validE:
  assumes "jq_valid n q"
  obtains c where "pv_buf_wr q = pv_buf_rd q + c * n" "(pv_buf_wr q - pv_buf_rd q) div n = c"
    "pv_buf_wr q \<le> pv_buf_end q" "pv_buf_end q \<le> length (pv_buf q)" "0 < n"
proof -
  obtain c where "pv_buf_wr q - pv_buf_rd q = n * c" using assms by (auto simp: jq_valid_def)
  moreover have "pv_buf_rd q \<le> pv_buf_wr q" using assms by (simp add: jq_valid_def)
  ultimately have "pv_buf_wr q = pv_buf_rd q + c * n" by (simp add: mult.commute)
  then show ?thesis using that [of c] assms by (simp add: jq_valid_def)
qed

lemma jq_validI:
  "pv_buf_wr q = pv_buf_rd q + c * n \<Longrightarrow> pv_buf_wr q \<le> pv_buf_end q \<Longrightarrow> pv_buf_end q \<le> length (pv_buf q) \<Longrightarrow> 0 < n \<Longrightarrow>
   jq_valid n q"
  by (simp add: jq_valid_def)

lemma job_at_copy:
  assumes "at + length bs \<le> length mem"
  shows "i + n \<le> at \<Longrightarrow> job_at n (take at mem @ bs @ drop (at + length bs) mem) i = job_at n mem i"
    "n = length bs \<Longrightarrow> job_at n (take at mem @ bs @ drop (at + length bs) mem) at = bs"
  using assms by (auto simp: job_at_def min_def drop_take)

text \<open>A put appends the job, or fails when it does not fit; nothing else changes.\<close>

lemma put_spec:
  assumes ok: "jq_valid n q" and n: "length job = n"
  shows "if pv_buf_wr q + n \<le> pv_buf_end q
    then \<exists>t. jobq_queue_body job q = Some (IHEVCD_SUCCESS, t) \<and> jq_valid n t \<and> jq_content n t = jq_content n q @ [job] \<and>
      i4_terminate t = 0
    else jobq_queue_body job q = Some (IHEVCD_FAIL, q \<lparr> i4_terminate := 0 \<rparr>)"
proof (cases "pv_buf_wr q + n \<le> pv_buf_end q")
  case True
  obtain c where c: "pv_buf_wr q = pv_buf_rd q + c * n" "(pv_buf_wr q - pv_buf_rd q) div n = c"
    "pv_buf_wr q \<le> pv_buf_end q" "pv_buf_end q \<le> length (pv_buf q)" "0 < n" by (rule jq_validE [OF ok])
  let ?mem = "take (pv_buf_wr q) (pv_buf q) @ job @ drop (pv_buf_wr q + length job) (pv_buf q)"
  let ?t = "q \<lparr> pv_buf := ?mem, pv_buf_wr := pv_buf_wr q + length job, i4_terminate := 0 \<rparr>"
  have fits: "pv_buf_wr q + length job \<le> length (pv_buf q)" using True n c(4) by simp
  have run: "jobq_queue_body job q = Some (IHEVCD_SUCCESS, ?t)"
    using True n fits by (simp add: jobq_queue_body_def copy_in_def)
  have "jq_valid n ?t" by (rule jq_validI [of _ "Suc c"]) (use True n c in auto)
  moreover have "jq_content n ?t = jq_content n q @ [job]"
  proof -
    have div: "(pv_buf_wr ?t - pv_buf_rd ?t) div n = Suc c" using c(1,5) n by simp
    have old: "job_at n ?mem (pv_buf_rd q + k * n) = job_at n (pv_buf q) (pv_buf_rd q + k * n)" if "k < c" for k
    proof (rule job_at_copy(1) [OF fits])
      have "Suc k * n \<le> c * n" using that by (intro mult_le_mono1) simp
      then show "pv_buf_rd q + k * n + n \<le> pv_buf_wr q" unfolding c(1) by simp
    qed
    have new: "job_at n ?mem (pv_buf_rd q + c * n) = job" using job_at_copy(2) [OF fits, of n] n c(1) by simp
    show ?thesis unfolding jq_content_def div c(2) using old new by simp
  qed
  ultimately show ?thesis using True run by auto
next
  case False
  then show ?thesis using n by (simp add: jobq_queue_body_def)
qed

text \<open>A turn of a dequeue takes the first job, and finds none exactly when there is none.\<close>

lemma turn_spec:
  assumes ok: "jq_valid n q"
  shows "case jq_content n q of
      [] \<Rightarrow> dequeue_turn n q = Some (if i4_terminate q = 1 then Ended else Again)
    | j # js \<Rightarrow> \<exists>t. dequeue_turn n q = Some (Job j t) \<and> jq_valid n t \<and> jq_content n t = js \<and> pv_buf_end t = pv_buf_end q"
proof -
  obtain c where c: "pv_buf_wr q = pv_buf_rd q + c * n" "(pv_buf_wr q - pv_buf_rd q) div n = c"
    "pv_buf_wr q \<le> pv_buf_end q" "pv_buf_end q \<le> length (pv_buf q)" "0 < n" by (rule jq_validE [OF ok])
  show ?thesis
  proof (cases c)
    case 0
    then show ?thesis using c by (simp add: jq_content_def dequeue_turn_def)
  next
    case (Suc k)
    let ?t = "q \<lparr> pv_buf_rd := pv_buf_rd q + n \<rparr>"
    have le: "pv_buf_rd q + n \<le> pv_buf_wr q" unfolding c(1) Suc by simp
    have run: "dequeue_turn n q = Some (Job (job_at n (pv_buf q) (pv_buf_rd q)) ?t)"
      using le c(3,4) by (simp add: dequeue_turn_def copy_out_def job_at_def)
    have "jq_valid n ?t" by (rule jq_validI [of _ k]) (use c Suc in auto)
    moreover have "(pv_buf_wr ?t - pv_buf_rd ?t) div n = k" using c(1,5) Suc by simp
    moreover have "jq_content n q = job_at n (pv_buf q) (pv_buf_rd q) #
        map (\<lambda>i. job_at n (pv_buf q) (pv_buf_rd q + n + i * n)) [0 ..< k]"
      unfolding jq_content_def c(2) Suc upt_conv_Cons [OF zero_less_Suc]
      by (simp add: map_Suc_upt [symmetric] ac_simps del: upt_Suc)
    ultimately show ?thesis using run by (simp add: jq_content_def)
  qed
qed

lemma jq_act_spec:
  assumes ok: "jq_valid n q" and act: "jq_act n op q = Some t"
  shows "jq_valid n t" "jq_content n q @ jq_put op q = jq_got n op q @ jq_content n t"
proof -
  have "jq_valid n t \<and> jq_content n q @ jq_put op q = jq_got n op q @ jq_content n t"
  proof (cases op)
    case (Put job)
    then have n: "length job = n" using act by (auto simp: jq_act_def bind_Some_iff)
    have t: "jq_valid n (q \<lparr> i4_terminate := 0 \<rparr>)" "jq_content n (q \<lparr> i4_terminate := 0 \<rparr>) = jq_content n q"
      using ok by (simp_all add: jq_valid_def jq_content_def)
    show ?thesis using put_spec [OF ok n] act n t Put
      by (cases "pv_buf_wr q + n \<le> pv_buf_end q") (auto simp: jq_act_def jq_put_def jq_got_def)
  next
    case Take
    then show ?thesis using turn_spec [OF ok] act ok
      by (cases "jq_content n q") (auto simp: jq_act_def jq_put_def jq_got_def split: if_splits)
  next
    case Stop
    then show ?thesis using act ok by (auto simp: jq_act_def jq_put_def jq_got_def jq_valid_def jq_content_def)
  qed
  then show "jq_valid n t" "jq_content n q @ jq_put op q = jq_got n op q @ jq_content n t" by simp_all
qed

lemma jq_act_defined:
  assumes ok: "jq_valid n q" and size: "\<forall>job. op = Put job \<longrightarrow> length job = n"
  shows "jq_act n op q \<noteq> None"
proof (cases op)
  case (Put job)
  then have "length job = n" using size by simp
  with put_spec [OF ok this] show ?thesis using Put by (auto simp: jq_act_def split: if_splits)
next
  case Take
  then show ?thesis using turn_spec [OF ok] by (cases "jq_content n q") (auto simp: jq_act_def)
next
  case Stop
  then show ?thesis by (simp add: jq_act_def)
qed

interpretation jq: fifo_queue "jq_valid n" "jq_content n" "jq_act n" jq_put "jq_got n"
  for n :: nat
  by unfold_locales (rule jq_act_spec, assumption+)+

abbreviation jq_history :: "nat \<Rightarrow> jq_step list \<Rightarrow> 'm jobq \<Rightarrow> (u8 list list \<times> u8 list list \<times> 'm jobq) option" where
  "jq_history n \<equiv> fifo_queue.history (jq_act n) jq_put (jq_got n)"

lemma history_defined:
  assumes "jq_valid n q" "\<forall>job. Put job \<in> set ops \<longrightarrow> length job = n"
  shows "jq_history n ops q \<noteq> None"
  using assms
proof (induction ops arbitrary: q)
  case (Cons op ops)
  then obtain t where t: "jq_act n op q = Some t" using jq_act_defined [OF Cons.prems(1), of op] by auto
  have "jq_history n ops t \<noteq> None" using Cons.IH [OF jq_act_spec(1) [OF Cons.prems(1) t]] Cons.prems(2) by simp
  then show ?case using t by (simp add: jq.history.simps)
qed (simp add: jq.history.simps)

section \<open>Waiting\<close>

text \<open>The queue a waiting thread sees after the given activities of the others.\<close>

definition after_waits :: "'m ithread \<Rightarrow> ('m jobq \<Rightarrow> 'm jobq) list \<Rightarrow> 'm jobq \<Rightarrow> 'm jobq" where
  "after_waits T fs q = fold (\<lambda>f q. snd (ihevcd_jobq_yield T f q)) fs q"

lemma dequeue_loop_returns:
  assumes "k \<le> length fs" "\<forall>i \<le> k. dequeue_turn n (after_waits T (take i fs) q) \<noteq> None"
    and "dequeue_turn n (after_waits T (take k fs) q) \<noteq> Some Again"
  shows "\<exists>i \<le> k. dequeue_loop (Suc k) T fs n 1 q =
    (case dequeue_turn n (after_waits T (take i fs) q) of
       Some (Job j t) \<Rightarrow> Some (IHEVCD_SUCCESS, j, t)
     | _ \<Rightarrow> Some (IHEVCD_FAIL, [], after_waits T (take i fs) q)) \<and>
    dequeue_turn n (after_waits T (take i fs) q) \<noteq> Some Again"
  using assms
proof (induction k arbitrary: fs q)
  case 0
  then show ?case by (auto simp: after_waits_def split: turn.splits)
next
  case (Suc k)
  obtain t where t: "dequeue_turn n q = Some t" using Suc.prems(2) by (auto simp: after_waits_def)
  show ?case
  proof (cases "t = Again")
    case False
    then have "dequeue_loop (Suc (Suc k)) T fs n 1 q =
      (case dequeue_turn n (after_waits T (take 0 fs) q) of
         Some (Job j t) \<Rightarrow> Some (IHEVCD_SUCCESS, j, t) | _ \<Rightarrow> Some (IHEVCD_FAIL, [], after_waits T (take 0 fs) q)) \<and>
      dequeue_turn n (after_waits T (take 0 fs) q) \<noteq> Some Again"
      using t by (cases t) (simp_all add: after_waits_def)
    then show ?thesis by blast
  next
    case True
    obtain f gs where fs: "fs = f # gs" using Suc.prems(1) by (cases fs) auto
    let ?q = "snd (ihevcd_jobq_yield T f q)"
    have shift: "after_waits T (take (Suc i) fs) q = after_waits T (take i gs) ?q" for i
      by (simp add: fs after_waits_def)
    have "\<exists>i \<le> k. dequeue_loop (Suc k) T gs n 1 ?q =
      (case dequeue_turn n (after_waits T (take i gs) ?q) of
         Some (Job j t) \<Rightarrow> Some (IHEVCD_SUCCESS, j, t) | _ \<Rightarrow> Some (IHEVCD_FAIL, [], after_waits T (take i gs) ?q)) \<and>
      dequeue_turn n (after_waits T (take i gs) ?q) \<noteq> Some Again"
    proof (rule Suc.IH)
      show "k \<le> length gs" using Suc.prems(1) fs by simp
      show "\<forall>i \<le> k. dequeue_turn n (after_waits T (take i gs) ?q) \<noteq> None"
        using Suc.prems(2) unfolding shift [symmetric] by simp
      show "dequeue_turn n (after_waits T (take k gs) ?q) \<noteq> Some Again"
        using Suc.prems(3) unfolding shift [symmetric] by simp
    qed
    moreover have "dequeue_loop (Suc (Suc k)) T fs n 1 q = dequeue_loop (Suc k) T gs n 1 ?q"
      using t True by (subst dequeue_loop.simps) (simp add: fs)
    ultimately show ?thesis unfolding shift [symmetric] by (metis Suc_le_mono)
  qed
qed

section \<open>Properties\<close>

text \<open>
  C36: Jobs are handed out in order: over any interleaving of the threads' steps from an empty
  queue, no access leaves the buffer, and the jobs taken are a prefix of the jobs put: each job is
  handed out at most once, in the order of queueing, and what is left is the rest.
\<close>

theorem jobq_fifo:
  assumes "jq_valid n q" "jq_content n q = []" "\<forall>job. Put job \<in> set ops \<longrightarrow> length job = n"
  shows "\<exists>ps gs t. jq_history n ops q = Some (ps, gs, t) \<and> prefix gs ps \<and> ps = gs @ jq_content n t"
proof -
  obtain ps gs t where h: "jq_history n ops q = Some (ps, gs, t)" using history_defined [OF assms(1,3)] by auto
  then show ?thesis using jq.got_prefix [OF assms(1,2) h] jq.history_order [OF assms(1) h] assms(2) by auto
qed

definition jq_example :: "unit jobq" where
  "jq_example = \<lparr> pv_buf = [0, 0, 0, 0], pv_buf_wr = 0, pv_buf_rd = 0, pv_buf_end = 4, pv_mutex = (), i4_terminate = 0 \<rparr>"

definition no_fail :: "unit ithread" where
  "no_fail = \<lparr> mutex_lock = (\<lambda>m. (0, m)), mutex_unlock = (\<lambda>m. (0, m)), mutex_init = (\<lambda>m. m), mutex_destroy = (\<lambda>m. (0, m)),
     mutex_size = 8 \<rparr>"

lemma jobq_fifo_witness:
  "\<exists>ps gs t. jq_history 2 [Put [1, 2], Put [3, 4], Take] jq_example = Some (ps, gs, t) \<and> prefix gs ps \<and>
    ps = gs @ jq_content 2 t"
  by (rule jobq_fifo) (auto simp: jq_valid_def jq_content_def jq_example_def)

text \<open>
  Queueing reports whether the job fitted: it succeeds exactly when the job fits in what is left
  of the buffer, appends it then, and otherwise changes nothing but the termination flag.
\<close>

theorem jobq_queue_result:
  assumes "jq_valid n q" "length job = n" "\<And>m. mutex_lock T m = (0, l m)" "\<And>m. mutex_unlock T m = (0, u m)"
  shows "\<exists>r t. ihevcd_jobq_queue T q job b = Some (r, t) \<and> i4_terminate t = 0 \<and>
    (if pv_buf_wr q + n \<le> pv_buf_end q then r = IHEVCD_SUCCESS \<and> jq_content n t = jq_content n q @ [job]
     else r = IHEVCD_FAIL \<and> jq_content n t = jq_content n q)"
proof -
  let ?q = "q \<lparr> pv_mutex := l (pv_mutex q) \<rparr>"
  have ok: "jq_valid n ?q" and c: "jq_content n ?q = jq_content n q" using assms(1) by (simp_all add: jq_valid_def jq_content_def)
  have lock: "ihevcd_jobq_lock T q = (IHEVCD_SUCCESS, ?q)" by (simp add: ihevcd_jobq_lock_def assms(3))
  have unlock: "ihevcd_jobq_unlock T p = (IHEVCD_SUCCESS, p \<lparr> pv_mutex := u (pv_mutex p) \<rparr>)" for p :: "'a jobq"
    by (simp add: ihevcd_jobq_unlock_def assms(4))
  have same: "jq_content n (p \<lparr> pv_mutex := m \<rparr>) = jq_content n p" "jq_content n (p \<lparr> i4_terminate := i \<rparr>) = jq_content n p"
    for p :: "'a jobq" and m i by (simp_all add: jq_content_def)
  show ?thesis using put_spec [OF ok assms(2)] same c
    by (cases "pv_buf_wr q + n \<le> pv_buf_end q") (auto simp: ihevcd_jobq_queue_def locked_def lock unlock)
qed

lemma jobq_queue_result_witness:
  "\<exists>r t. ihevcd_jobq_queue no_fail jq_example [1, 2] 1 = Some (r, t) \<and> i4_terminate t = 0 \<and>
    (if pv_buf_wr jq_example + 2 \<le> pv_buf_end jq_example
     then r = IHEVCD_SUCCESS \<and> jq_content 2 t = jq_content 2 jq_example @ [[1, 2]]
     else r = IHEVCD_FAIL \<and> jq_content 2 t = jq_content 2 jq_example)"
  by (rule jobq_queue_result [where l = id and u = id]) (simp_all add: jq_valid_def jq_example_def no_fail_def)

text \<open>
  C37: A waiting dequeue does return: as soon as the other threads, in one of its waits, leave a job
  in the queue or terminate it, the call ends with success and the first job, or with failure when
  the queue is empty and terminated; one turn per wait is enough.
\<close>

theorem jobq_dequeue_returns:
  assumes "k \<le> length fs" "\<forall>i \<le> k. jq_valid n (after_waits T (take i fs) q)"
    and "jq_content n (after_waits T (take k fs) q) \<noteq> [] \<or> i4_terminate (after_waits T (take k fs) q) = 1"
  shows "\<exists>i \<le> k. \<exists>t. (let s = after_waits T (take i fs) q in
    if jq_content n s \<noteq> [] then dequeue_loop (Suc k) T fs n 1 q = Some (IHEVCD_SUCCESS, hd (jq_content n s), t) \<and>
      jq_content n t = tl (jq_content n s)
    else i4_terminate s = 1 \<and> dequeue_loop (Suc k) T fs n 1 q = Some (IHEVCD_FAIL, [], s))"
proof -
  let ?s = "\<lambda>i. after_waits T (take i fs) q"
  have turn: "case jq_content n (?s i) of
      [] \<Rightarrow> dequeue_turn n (?s i) = Some (if i4_terminate (?s i) = 1 then Ended else Again)
    | j # js \<Rightarrow> \<exists>t. dequeue_turn n (?s i) = Some (Job j t) \<and> jq_valid n t \<and> jq_content n t = js \<and>
        pv_buf_end t = pv_buf_end (?s i)" if "i \<le> k" for i
    using turn_spec assms(2) that by blast
  have "dequeue_turn n (?s i) \<noteq> None" if "i \<le> k" for i using turn [OF that] by (cases "jq_content n (?s i)") auto
  moreover have "dequeue_turn n (?s k) \<noteq> Some Again"
    using turn [of k] assms(3) by (cases "jq_content n (?s k)") auto
  ultimately obtain i where i: "i \<le> k" "dequeue_turn n (?s i) \<noteq> Some Again"
      "dequeue_loop (Suc k) T fs n 1 q = (case dequeue_turn n (?s i) of
        Some (Job j t) \<Rightarrow> Some (IHEVCD_SUCCESS, j, t) | _ \<Rightarrow> Some (IHEVCD_FAIL, [], ?s i))"
    using dequeue_loop_returns [OF assms(1), of n T q] by blast
  show ?thesis
  proof (cases "jq_content n (?s i)")
    case Nil
    then have "i4_terminate (?s i) = 1" using turn [OF i(1)] i(2) by (auto split: if_splits)
    then show ?thesis using Nil turn [OF i(1)] i by (intro exI [of _ i]) (simp add: Let_def)
  next
    case (Cons j js)
    then obtain t where t: "dequeue_turn n (?s i) = Some (Job j t)" "jq_content n t = js" using turn [OF i(1)] by auto
    have "i \<le> k \<and> (let s = ?s i in
      if jq_content n s \<noteq> [] then dequeue_loop (Suc k) T fs n 1 q = Some (IHEVCD_SUCCESS, hd (jq_content n s), t) \<and>
        jq_content n t = tl (jq_content n s)
      else i4_terminate s = 1 \<and> dequeue_loop (Suc k) T fs n 1 q = Some (IHEVCD_FAIL, [], s))"
      using i t Cons by (simp add: Let_def)
    then show ?thesis by blast
  qed
qed

lemma jobq_dequeue_returns_witness:
  "\<exists>i \<le> 1. \<exists>t. (let s = after_waits no_fail (take i [i4_terminate_update (\<lambda>_. 1)]) jq_example in
    if jq_content 2 s \<noteq> []
    then dequeue_loop (Suc 1) no_fail [i4_terminate_update (\<lambda>_. 1)] 2 1 jq_example =
        Some (IHEVCD_SUCCESS, hd (jq_content 2 s), t) \<and> jq_content 2 t = tl (jq_content 2 s)
    else i4_terminate s = 1 \<and>
      dequeue_loop (Suc 1) no_fail [i4_terminate_update (\<lambda>_. 1)] 2 1 jq_example = Some (IHEVCD_FAIL, [], s))"
proof (rule jobq_dequeue_returns)
  let ?q = "after_waits no_fail (take 1 [i4_terminate_update (\<lambda>_. 1)]) jq_example"
  have 1: "?q = jq_example \<lparr> i4_terminate := 1 \<rparr>"
    by (simp add: after_waits_def ihevcd_jobq_yield_def ihevcd_jobq_unlock_def ihevcd_jobq_lock_def no_fail_def jq_example_def)
  have "jq_valid 2 (after_waits no_fail (take i [i4_terminate_update (\<lambda>_. 1)]) jq_example)" if "i \<le> 1" for i
    using that 1 by (cases i) (simp_all add: jq_valid_def jq_example_def after_waits_def)
  then show "\<forall>i \<le> 1. jq_valid 2 (after_waits no_fail (take i [i4_terminate_update (\<lambda>_. 1)]) jq_example)" by blast
  show "jq_content 2 ?q \<noteq> [] \<or> i4_terminate ?q = 1" unfolding 1 by simp
qed simp

text \<open>
  C38: A dequeue that may not wait does not report an empty queue: on a queue that is empty and not
  terminated it never leaves its loop, whatever the number of turns, and it holds the lock.
\<close>

theorem jobq_dequeue_nonblocking_hangs:
  assumes "jq_valid n q" "jq_content n q = []" "i4_terminate q \<noteq> 1" "blocking \<noteq> 1"
    and "pv_buf_rd q + n \<le> pv_buf_end q" "\<And>m. mutex_lock T m = (0, l m)"
  shows "ihevcd_jobq_dequeue fuel T fs q n blocking = None"
proof -
  have loop: "dequeue_loop fuel T fs n blocking p = None"
    if "jq_valid n p" "jq_content n p = []" "i4_terminate p \<noteq> 1" for p
    using turn_spec [OF that(1)] that(2,3) assms(4) by (induction fuel) simp_all
  let ?q = "q \<lparr> pv_mutex := l (pv_mutex q) \<rparr>"
  have "dequeue_loop fuel T fs n blocking ?q = None"
    by (rule loop) (use assms in \<open>simp_all add: jq_valid_def jq_content_def\<close>)
  then show ?thesis using assms(5) by (simp add: ihevcd_jobq_dequeue_def ihevcd_jobq_lock_def assms(6))
qed

lemma jobq_dequeue_nonblocking_hangs_witness:
  "\<forall>fuel. ihevcd_jobq_dequeue fuel no_fail [] jq_example 2 0 = None"
proof
  fix fuel
  show "ihevcd_jobq_dequeue fuel no_fail [] jq_example 2 0 = None"
    by (rule jobq_dequeue_nonblocking_hangs [where l = id])
      (simp_all add: jq_valid_def jq_content_def jq_example_def no_fail_def)
qed

end
