(* ===== verification/Buffer_Que.thy ===== *)
theory Buffer_Que
  imports Hevc_Prelude Exclusive_Pool Fifo
begin

text \<open>
  The encoder's buffer queue, \<^verbatim>\<open>encoder/ihevce_buffer_que.c\<close>: a fixed number of buffers that a
  producer requests and fills and consumers take in the order of the requests, each with a count
  of users; and a second, reordered, sequence. Indices, counts and ids are the code's signed
  integers, sequence numbers 32-bit words; the buffer pointers are addresses.

  The queue satisfies two contracts: it is an \<open>exclusive_pool\<close> (a buffer is given out again only
  after its last user released it) and, for clients that release a buffer only after it was
  taken, a \<open>fifo_queue\<close> of the buffers requested and not yet taken.
\<close>

section \<open>Operations\<close>

record buf_que =
  u4_next_disp_seq :: u32
  u4_last_disp_seq :: u32
  u4_last_cons :: u32
  u4_last_prod :: u32
  i4_num_bufs :: int
  i4_num_active_bufs :: int
  pu4_enc_seq :: "u32 list"
  pu4_que_seq :: "u32 list"
  ppv_buff_ptrs :: "nat option list"
  pi4_num_users :: "int list"
  pi4_produced_sts :: "int list"

abbreviation (input) NUM_BUFFER_QUE_MEM_RECS :: int where "NUM_BUFFER_QUE_MEM_RECS \<equiv> 5"

definition ihevce_buff_que_get_num_mem_recs :: int where
  "ihevce_buff_que_get_num_mem_recs = NUM_BUFFER_QUE_MEM_RECS"

text \<open>Size and alignment of each memory record; \<open>ctxt_size\<close> is the size of \<^verbatim>\<open>buf_que_t\<close>.\<close>

definition ihevce_buff_que_get_mem_recs :: "int \<Rightarrow> int \<Rightarrow> (int \<times> int) list \<times> int" where
  "ihevce_buff_que_get_mem_recs ctxt_size max_num_bufs_in_que =
     ([(ctxt_size, 8), (4 * max_num_bufs_in_que, 8), (4 * max_num_bufs_in_que, 8), (4 * max_num_bufs_in_que, 8),
       (4 * max_num_bufs_in_que, 8)], NUM_BUFFER_QUE_MEM_RECS)"

definition ihevce_buff_que_init :: "int \<Rightarrow> nat option list \<Rightarrow> buf_que" where
  "ihevce_buff_que_init num_bufs_in_que ptrs = (let n = nat num_bufs_in_que in
     \<lparr> u4_next_disp_seq = 0, u4_last_disp_seq = 0, u4_last_cons = 0, u4_last_prod = 0,
       i4_num_bufs = num_bufs_in_que, i4_num_active_bufs = 0,
       pu4_enc_seq = replicate n 0xFFFFFFFF, pu4_que_seq = replicate n 0xFFFFFFFF, ppv_buff_ptrs = ptrs,
       pi4_num_users = replicate n 0, pi4_produced_sts = replicate n 0 \<rparr>)"

text \<open>The loops over the buffers: the first index from \<open>i\<close> on that passes the test.\<close>

function scan :: "(nat \<Rightarrow> bool option) \<Rightarrow> int \<Rightarrow> nat \<Rightarrow> nat option option" where
  "scan test num_bufs i =
     (if int i < num_bufs then do {
        b \<leftarrow> test i;
        if b then Some (Some i) else scan test num_bufs (i + 1)
      } else Some None)"
  by pat_completeness auto
termination by (relation "measure (\<lambda>(_, n, i). nat (n - int i))") auto

declare scan.simps [simp del]

text \<open>The results: the pointer, the id when it is written, the new state.\<close>

definition ihevce_buff_que_get_free_buf :: "buf_que \<Rightarrow> (nat option \<times> nat option \<times> buf_que) option" where
  "ihevce_buff_que_get_free_buf b = do {
     found \<leftarrow> scan (\<lambda>i. do {
       u \<leftarrow> rd (pi4_num_users b) i;
       if u = 0 then do { p \<leftarrow> rd (pi4_produced_sts b) i; Some (p = 0) } else Some False
     }) (i4_num_bufs b) 0;
     case found of
       None \<Rightarrow> Some (None, None, b)
     | Some i \<Rightarrow> do {
         users \<leftarrow> wr (pi4_num_users b) i 1;
         seqs \<leftarrow> wr (pu4_que_seq b) i (u4_last_prod b);
         p \<leftarrow> rd (ppv_buff_ptrs b) i;
         Some (p, Some i, b \<lparr> pi4_num_users := users, pu4_que_seq := seqs, u4_last_prod := u4_last_prod b + 1 \<rparr>)
       }
   }"

definition ihevce_buff_que_get_next_buf :: "buf_que \<Rightarrow> (nat option \<times> nat option \<times> buf_que) option" where
  "ihevce_buff_que_get_next_buf b = do {
     found \<leftarrow> scan (\<lambda>i. do { s \<leftarrow> rd (pu4_que_seq b) i; Some (u4_last_cons b = s) }) (i4_num_bufs b) 0;
     case found of
       None \<Rightarrow> Some (None, None, b)
     | Some i \<Rightarrow> do {
         p \<leftarrow> rd (pi4_produced_sts b) i;
         if 1 = p then do {
           ptr \<leftarrow> rd (ppv_buff_ptrs b) i;
           Some (ptr, Some i, b \<lparr> u4_last_cons := u4_last_cons b + 1 \<rparr>)
         } else Some (None, None, b)
       }
   }"

definition ihevce_buff_que_get_buf :: "buf_que \<Rightarrow> int \<Rightarrow> nat option option" where
  "ihevce_buff_que_get_buf b i4_id = (if i4_id \<ge> i4_num_bufs b then Some None else rdi (ppv_buff_ptrs b) i4_id)"

definition ihevce_buff_que_get_next_reorder_buf :: "buf_que \<Rightarrow> (nat option \<times> nat option \<times> buf_que) option" where
  "ihevce_buff_que_get_next_reorder_buf b = do {
     found \<leftarrow> scan (\<lambda>i. do { s \<leftarrow> rd (pu4_enc_seq b) i; Some (u4_last_disp_seq b = s) }) (i4_num_bufs b) 0;
     case found of
       None \<Rightarrow> Some (None, None, b)
     | Some i \<Rightarrow> do {
         ptr \<leftarrow> rd (ppv_buff_ptrs b) i;
         Some (ptr, Some i, b \<lparr> u4_last_disp_seq := u4_last_disp_seq b + 1 \<rparr>)
       }
   }"

definition ihevce_buff_que_set_buf_prod :: "buf_que \<Rightarrow> int \<Rightarrow> int \<Rightarrow> (int \<times> buf_que) option" where
  "ihevce_buff_que_set_buf_prod b buf_id num_users = (
     if buf_id < i4_num_bufs b then do {
       p \<leftarrow> rdi (pi4_produced_sts b) buf_id;
       if p = 0 then do {
         u \<leftarrow> rdi (pi4_num_users b) buf_id;
         require (in_w32 (u + num_users) \<and> in_w32 (i4_num_active_bufs b + 1));
         users \<leftarrow> wri (pi4_num_users b) buf_id (u + num_users);
         sts \<leftarrow> wri (pi4_produced_sts b) buf_id 1;
         Some (0, b \<lparr> pi4_num_users := users, i4_num_active_bufs := i4_num_active_bufs b + 1, pi4_produced_sts := sts \<rparr>)
       } else Some (- 1, b)
     } else Some (- 1, b))"

definition ihevce_buff_que_rel_buf :: "buf_que \<Rightarrow> int \<Rightarrow> (int \<times> buf_que) option" where
  "ihevce_buff_que_rel_buf b buf_id = (
     if buf_id < i4_num_bufs b then do {
       p \<leftarrow> rdi (pi4_produced_sts b) buf_id;
       if p > 0 then do {
         u \<leftarrow> rdi (pi4_num_users b) buf_id;
         require (in_w32 (u - 1));
         users \<leftarrow> wri (pi4_num_users b) buf_id (u - 1);
         let b = b \<lparr> pi4_num_users := users \<rparr>;
         if u - 1 = 0 then
           if 0 = i4_num_active_bufs b then Some (- 1, b)
           else do {
             sts \<leftarrow> wri (pi4_produced_sts b) buf_id 0;
             Some (0, b \<lparr> i4_num_active_bufs := i4_num_active_bufs b - 1, pi4_produced_sts := sts \<rparr>)
           }
         else Some (0, b)
       } else Some (- 1, b)
     } else Some (- 1, b))"

definition ihevce_buff_que_get_active_bufs :: "buf_que \<Rightarrow> int" where
  "ihevce_buff_que_get_active_bufs b = i4_num_active_bufs b"

definition ihevce_buff_que_set_reorder_buf :: "buf_que \<Rightarrow> int \<Rightarrow> (int \<times> buf_que) option" where
  "ihevce_buff_que_set_reorder_buf b buf_id = (
     if buf_id < i4_num_bufs b then do {
       seqs \<leftarrow> wri (pu4_enc_seq b) buf_id (u4_next_disp_seq b);
       Some (0, b \<lparr> u4_next_disp_seq := u4_next_disp_seq b + 1, pu4_enc_seq := seqs \<rparr>)
     } else Some (- 1, b))"

section \<open>The invariant\<close>

lemma scan_find:
  assumes "\<And>j. j < n \<Longrightarrow> test j = Some (Q j)"
  shows "scan test (int n) i = Some (find Q [i ..< n])"
  using assms
proof (induction test "int n" i rule: scan.induct)
  case (1 test i)
  show ?case
  proof (cases "i < n")
    case True
    then show ?thesis using 1 by (subst scan.simps) (simp add: upt_conv_Cons)
  next
    case False
    then show ?thesis by (subst scan.simps) simp
  qed
qed

abbreviation bq_len :: "buf_que \<Rightarrow> nat" where
  "bq_len b \<equiv> length (ppv_buff_ptrs b)"

definition bq_busy :: "buf_que \<Rightarrow> nat set" where
  "bq_busy b = {i. i < bq_len b \<and> (pi4_num_users b ! i \<noteq> 0 \<or> pi4_produced_sts b ! i \<noteq> 0)}"

text \<open>The array sizes, produced marks of 0 or 1 with their count, and user counts of a client that
  does not take away users it does not have.\<close>

definition bq_ok :: "buf_que \<Rightarrow> bool" where
  "bq_ok b \<longleftrightarrow> i4_num_bufs b = int (bq_len b) \<and> length (pi4_num_users b) = bq_len b \<and>
     length (pi4_produced_sts b) = bq_len b \<and> length (pu4_que_seq b) = bq_len b \<and> length (pu4_enc_seq b) = bq_len b \<and>
     bq_len b < 2147483648 \<and>
     (\<forall>i < bq_len b. pi4_produced_sts b ! i \<in> {0, 1}) \<and>
     i4_num_active_bufs b = int (card {i. i < bq_len b \<and> pi4_produced_sts b ! i = 1})"

lemma bq_okD:
  assumes "bq_ok b"
  shows "i4_num_bufs b = int (bq_len b)" "length (pi4_num_users b) = bq_len b" "length (pi4_produced_sts b) = bq_len b"
    "length (pu4_que_seq b) = bq_len b" "length (pu4_enc_seq b) = bq_len b" "bq_len b < 2147483648"
    "i < bq_len b \<Longrightarrow> pi4_produced_sts b ! i \<in> {0, 1}"
    "i4_num_active_bufs b = int (card {i. i < bq_len b \<and> pi4_produced_sts b ! i = 1})"
  using assms unfolding bq_ok_def by blast+

lemma find_upt:
  "find Q [0 ..< n] = Some i \<longleftrightarrow> i < n \<and> Q i \<and> (\<forall>j < i. \<not> Q j)"
  "find Q [0 ..< n] = None \<longleftrightarrow> (\<forall>j < n. \<not> Q j)"
  by (auto simp: find_Some_iff find_None_iff)

lemma bq_get_free_spec:
  assumes ok: "bq_ok b"
  shows "(\<exists>i. ihevce_buff_que_get_free_buf b = Some (ppv_buff_ptrs b ! i, Some i, b \<lparr> pi4_num_users := (pi4_num_users b)[i := 1],
        pu4_que_seq := (pu4_que_seq b)[i := u4_last_prod b], u4_last_prod := u4_last_prod b + 1 \<rparr>) \<and>
      i < bq_len b \<and> i \<notin> bq_busy b \<and> (\<forall>j < i. j \<in> bq_busy b)) \<or>
    ihevce_buff_que_get_free_buf b = Some (None, None, b) \<and> (\<forall>j < bq_len b. j \<in> bq_busy b)"
proof -
  note B = bq_okD [OF ok]
  let ?Q = "\<lambda>i. pi4_num_users b ! i = 0 \<and> pi4_produced_sts b ! i = 0"
  have s: "scan (\<lambda>i. rd (pi4_num_users b) i \<bind> (\<lambda>u. if u = 0 then rd (pi4_produced_sts b) i \<bind> (\<lambda>p. Some (p = 0)) else Some False))
      (i4_num_bufs b) 0 = Some (find ?Q [0 ..< bq_len b])"
    unfolding B(1) by (rule scan_find) (use B in simp)
  show ?thesis
  proof (cases "find ?Q [0 ..< bq_len b]")
    case None
    then have "ihevce_buff_que_get_free_buf b = Some (None, None, b)" by (simp add: ihevce_buff_que_get_free_buf_def s)
    then show ?thesis using None unfolding find_upt by (auto simp: bq_busy_def)
  next
    case (Some i)
    then have i: "i < bq_len b" "?Q i" "\<forall>j < i. \<not> ?Q j" unfolding find_upt by simp_all
    have "ihevce_buff_que_get_free_buf b = Some (ppv_buff_ptrs b ! i, Some i, b \<lparr> pi4_num_users := (pi4_num_users b)[i := 1],
        pu4_que_seq := (pu4_que_seq b)[i := u4_last_prod b], u4_last_prod := u4_last_prod b + 1 \<rparr>)"
      using i(1) B(2-5) by (simp add: ihevce_buff_que_get_free_buf_def s Some)
    then show ?thesis using i by (auto simp: bq_busy_def)
  qed
qed

lemma bq_get_next_spec:
  assumes ok: "bq_ok b"
  defines "f \<equiv> find (\<lambda>i. u4_last_cons b = pu4_que_seq b ! i) [0 ..< bq_len b]"
  shows "ihevce_buff_que_get_next_buf b = (case f of
      Some i \<Rightarrow> if pi4_produced_sts b ! i = 1
        then Some (ppv_buff_ptrs b ! i, Some i, b \<lparr> u4_last_cons := u4_last_cons b + 1 \<rparr>) else Some (None, None, b)
    | None \<Rightarrow> Some (None, None, b))"
proof -
  note B = bq_okD [OF ok]
  have s: "scan (\<lambda>i. rd (pu4_que_seq b) i \<bind> (\<lambda>s. Some (u4_last_cons b = s))) (i4_num_bufs b) 0 = Some f"
    unfolding B(1) f_def by (rule scan_find) (use B in simp)
  show ?thesis
  proof (cases f)
    case (Some i)
    then have "i < bq_len b" unfolding f_def find_upt by simp
    then show ?thesis using Some B(2-5) by (simp add: ihevce_buff_que_get_next_buf_def s eq_commute [of 1])
  qed (simp add: ihevce_buff_que_get_next_buf_def s)
qed

lemma bq_next_reorder_spec:
  assumes ok: "bq_ok b"
  defines "f \<equiv> find (\<lambda>i. u4_last_disp_seq b = pu4_enc_seq b ! i) [0 ..< bq_len b]"
  shows "ihevce_buff_que_get_next_reorder_buf b = (case f of
      Some i \<Rightarrow> Some (ppv_buff_ptrs b ! i, Some i, b \<lparr> u4_last_disp_seq := u4_last_disp_seq b + 1 \<rparr>)
    | None \<Rightarrow> Some (None, None, b))"
proof -
  note B = bq_okD [OF ok]
  have s: "scan (\<lambda>i. rd (pu4_enc_seq b) i \<bind> (\<lambda>s. Some (u4_last_disp_seq b = s))) (i4_num_bufs b) 0 = Some f"
    unfolding B(1) f_def by (rule scan_find) (use B in simp)
  show ?thesis
  proof (cases f)
    case (Some i)
    then have "i < bq_len b" unfolding f_def find_upt by simp
    then show ?thesis using Some B(2-5) by (simp add: ihevce_buff_que_get_next_reorder_buf_def s)
  qed (simp add: ihevce_buff_que_get_next_reorder_buf_def s)
qed

lemma bq_set_prod_spec:
  assumes ok: "bq_ok b" and i: "i < bq_len b" and n: "in_w32 (pi4_num_users b ! i + n)"
  shows "if pi4_produced_sts b ! i = 0
    then \<exists>t. ihevce_buff_que_set_buf_prod b (int i) n = Some (0, t) \<and> bq_ok t \<and>
      t = b \<lparr> pi4_num_users := (pi4_num_users b)[i := pi4_num_users b ! i + n], i4_num_active_bufs := i4_num_active_bufs b + 1,
        pi4_produced_sts := (pi4_produced_sts b)[i := 1] \<rparr>
    else ihevce_buff_que_set_buf_prod b (int i) n = Some (- 1, b)"
proof (cases "pi4_produced_sts b ! i = 0")
  case True
  note B = bq_okD [OF ok]
  let ?P = "{j. j < bq_len b \<and> pi4_produced_sts b ! j = 1}"
  let ?t = "b \<lparr> pi4_num_users := (pi4_num_users b)[i := pi4_num_users b ! i + n], i4_num_active_bufs := i4_num_active_bufs b + 1,
    pi4_produced_sts := (pi4_produced_sts b)[i := 1] \<rparr>"
  have P: "{j. j < bq_len b \<and> pi4_produced_sts ?t ! j = 1} = insert i ?P" "i \<notin> ?P" "finite ?P"
    using i True B(3) by (auto simp: nth_update split: if_splits)
  have "card (insert i ?P) \<le> card {..<bq_len b}" using i by (intro card_mono) auto
  then have act: "i4_num_active_bufs b + 1 = int (card (insert i ?P))" "card (insert i ?P) \<le> bq_len b"
    using P(2,3) B(8) by simp_all
  then have "in_w32 (i4_num_active_bufs b + 1)" using B(6) by (simp add: in_w32_def)
  then have "ihevce_buff_que_set_buf_prod b (int i) n = Some (0, ?t)"
    using i n True B(1-3) by (simp add: ihevce_buff_que_set_buf_prod_def)
  moreover have "bq_ok ?t"
    unfolding bq_ok_def P(1) [simplified] using B act(1) i by (auto simp: nth_update P(1) [simplified])
  ultimately show ?thesis using True by simp
next
  case False
  then show ?thesis using i bq_okD [OF ok] by (simp add: ihevce_buff_que_set_buf_prod_def)
qed

lemma bq_rel_spec:
  assumes ok: "bq_ok b" and i: "i < bq_len b" and n: "in_w32 (pi4_num_users b ! i - 1)"
  shows "if pi4_produced_sts b ! i = 0 then ihevce_buff_que_rel_buf b (int i) = Some (- 1, b)
    else \<exists>t. ihevce_buff_que_rel_buf b (int i) = Some (0, t) \<and> bq_ok t \<and>
      t = (if pi4_num_users b ! i = 1
        then b \<lparr> pi4_num_users := (pi4_num_users b)[i := 0], i4_num_active_bufs := i4_num_active_bufs b - 1,
          pi4_produced_sts := (pi4_produced_sts b)[i := 0] \<rparr>
        else b \<lparr> pi4_num_users := (pi4_num_users b)[i := pi4_num_users b ! i - 1] \<rparr>)"
proof (cases "pi4_produced_sts b ! i = 0")
  case True
  then show ?thesis using i bq_okD [OF ok] by (simp add: ihevce_buff_que_rel_buf_def)
next
  case False
  note B = bq_okD [OF ok]
  have one: "pi4_produced_sts b ! i = 1" using False B(7) [OF i] by simp
  let ?P = "{j. j < bq_len b \<and> pi4_produced_sts b ! j = 1}"
  have iP: "i \<in> ?P" "finite ?P" using i one by auto
  then have pos: "i4_num_active_bufs b \<noteq> 0" unfolding B(8) by auto
  show ?thesis
  proof (cases "pi4_num_users b ! i = 1")
    case True
    let ?t = "b \<lparr> pi4_num_users := (pi4_num_users b)[i := 0], i4_num_active_bufs := i4_num_active_bufs b - 1,
          pi4_produced_sts := (pi4_produced_sts b)[i := 0] \<rparr>"
    have run: "ihevce_buff_que_rel_buf b (int i) = Some (0, ?t)"
      using i n one True pos B(1-3) by (simp add: ihevce_buff_que_rel_buf_def Let_def)
    have P: "{j. j < bq_len b \<and> pi4_produced_sts ?t ! j = 1} = ?P - {i}"
      using i B(3) by (auto simp: nth_update split: if_splits)
    have "i4_num_active_bufs b - 1 = int (card (?P - {i}))"
    proof -
      have "0 < card ?P" using iP by (metis card_gt_0_iff empty_iff)
      then show ?thesis using B(8) card_Diff_singleton [OF iP(1)] by simp
    qed
    then have "bq_ok ?t" unfolding bq_ok_def P [simplified] using B i by (auto simp: nth_update P [simplified])
    then show ?thesis using run True False by simp
  next
    case False
    then have run: "ihevce_buff_que_rel_buf b (int i) = Some (0, b \<lparr> pi4_num_users := (pi4_num_users b)[i := pi4_num_users b ! i - 1] \<rparr>)"
      using i n one B(1-3) by (simp add: ihevce_buff_que_rel_buf_def Let_def)
    moreover have "bq_ok (b \<lparr> pi4_num_users := (pi4_num_users b)[i := pi4_num_users b ! i - 1] \<rparr>)"
      using ok by (auto simp: bq_ok_def)
    ultimately show ?thesis using one False by simp
  qed
qed

lemma bq_init_ok:
  assumes "n = int (length ptrs)" "length ptrs < 2147483648"
  shows "bq_ok (ihevce_buff_que_init n ptrs)" "bq_busy (ihevce_buff_que_init n ptrs) = {}"
  using assms by (auto simp: bq_ok_def ihevce_buff_que_init_def bq_busy_def Let_def)

section \<open>The pool\<close>

datatype bq_op = BqFree | BqNext | BqProd int int | BqRel int | BqReorder int | BqNextReorder

definition bq_run :: "bq_op \<Rightarrow> buf_que \<Rightarrow> buf_que option" where
  "bq_run op b = (case op of
       BqFree \<Rightarrow> map_option (\<lambda>(_, _, b). b) (ihevce_buff_que_get_free_buf b)
     | BqNext \<Rightarrow> map_option (\<lambda>(_, _, b). b) (ihevce_buff_que_get_next_buf b)
     | BqProd i n \<Rightarrow> map_option snd (ihevce_buff_que_set_buf_prod b i n)
     | BqRel i \<Rightarrow> map_option snd (ihevce_buff_que_rel_buf b i)
     | BqReorder i \<Rightarrow> map_option snd (ihevce_buff_que_set_reorder_buf b i)
     | BqNextReorder \<Rightarrow> map_option (\<lambda>(_, _, b). b) (ihevce_buff_que_get_next_reorder_buf b))"

definition bq_grants :: "bq_op \<Rightarrow> buf_que \<Rightarrow> nat option" where
  "bq_grants op b = (case op of
       BqFree \<Rightarrow> (case ihevce_buff_que_get_free_buf b of Some (_, r, _) \<Rightarrow> r | None \<Rightarrow> None)
     | _ \<Rightarrow> None)"

primrec bq_frees :: "bq_op \<Rightarrow> nat set" where
  "bq_frees BqFree = {}"
| "bq_frees BqNext = {}"
| "bq_frees (BqProd i n) = {}"
| "bq_frees (BqRel i) = {nat i}"
| "bq_frees (BqReorder i) = {}"
| "bq_frees BqNextReorder = {}"

text \<open>What each step leaves: the cases of its specification with the parts other proofs use.\<close>

lemma bq_run_free:
  assumes ok: "bq_ok b" and run: "bq_run BqFree b = Some t"
  obtains (none) "t = b" "bq_grants BqFree b = None"
  | (one) i where "i < bq_len b" "i \<notin> bq_busy b" "bq_grants BqFree b = Some i" "bq_ok t"
      "t = b \<lparr> pi4_num_users := (pi4_num_users b)[i := 1],
        pu4_que_seq := (pu4_que_seq b)[i := u4_last_prod b], u4_last_prod := u4_last_prod b + 1 \<rparr>"
  using bq_get_free_spec [OF ok]
proof
  assume "\<exists>i. ihevce_buff_que_get_free_buf b = Some (ppv_buff_ptrs b ! i, Some i, b \<lparr> pi4_num_users := (pi4_num_users b)[i := 1],
        pu4_que_seq := (pu4_que_seq b)[i := u4_last_prod b], u4_last_prod := u4_last_prod b + 1 \<rparr>) \<and>
      i < bq_len b \<and> i \<notin> bq_busy b \<and> (\<forall>j < i. j \<in> bq_busy b)"
  then obtain i where i: "ihevce_buff_que_get_free_buf b = Some (ppv_buff_ptrs b ! i, Some i, b \<lparr> pi4_num_users := (pi4_num_users b)[i := 1],
        pu4_que_seq := (pu4_que_seq b)[i := u4_last_prod b], u4_last_prod := u4_last_prod b + 1 \<rparr>)" "i < bq_len b" "i \<notin> bq_busy b"
    by blast
  have "bq_ok (b \<lparr> pi4_num_users := (pi4_num_users b)[i := 1],
        pu4_que_seq := (pu4_que_seq b)[i := u4_last_prod b], u4_last_prod := u4_last_prod b + 1 \<rparr>)"
    using ok by (simp add: bq_ok_def)
  then show thesis using one i run by (simp add: bq_run_def bq_grants_def)
next
  assume "ihevce_buff_que_get_free_buf b = Some (None, None, b) \<and> (\<forall>j < bq_len b. j \<in> bq_busy b)"
  then show thesis using none run by (simp add: bq_run_def bq_grants_def)
qed

lemma bq_run_prod:
  assumes ok: "bq_ok b" and run: "bq_run (BqProd i n) b = Some t"
  shows "bq_ok t \<and> ppv_buff_ptrs t = ppv_buff_ptrs b \<and> pu4_que_seq t = pu4_que_seq b \<and> u4_last_cons t = u4_last_cons b \<and>
    u4_last_prod t = u4_last_prod b \<and> bq_busy b \<subseteq> bq_busy t"
proof (cases "0 \<le> i \<and> nat i < bq_len b")
  case True
  then obtain k where k: "i = int k" and i: "k < bq_len b" by (metis nat_0_le)
  have run': "map_option snd (ihevce_buff_que_set_buf_prod b (int k) n) = Some t" using run k by (simp add: bq_run_def)
  show ?thesis
  proof (cases "pi4_produced_sts b ! k = 0")
    case p: True
    have n: "in_w32 (pi4_num_users b ! k + n)"
      using run' i p bq_okD [OF ok] by (auto simp: ihevce_buff_que_set_buf_prod_def bind_Some_iff)
    have t: "bq_ok t" "t = b \<lparr> pi4_num_users := (pi4_num_users b)[k := pi4_num_users b ! k + n],
        i4_num_active_bufs := i4_num_active_bufs b + 1, pi4_produced_sts := (pi4_produced_sts b)[k := 1] \<rparr>"
      using bq_set_prod_spec [OF ok i n] p run' by auto
    show ?thesis using t bq_okD(2,3) [OF ok] by (auto simp: bq_busy_def nth_update split: if_splits)
  next
    case p: False
    then have "t = b" using run' i bq_okD [OF ok] by (simp add: ihevce_buff_que_set_buf_prod_def)
    then show ?thesis using ok by simp
  qed
next
  case False
  then have "t = b" using run bq_okD [OF ok] by (auto simp: bq_run_def ihevce_buff_que_set_buf_prod_def rdi_def split: if_splits)
  then show ?thesis using ok by simp
qed

lemma bq_run_rel:
  assumes ok: "bq_ok b" and run: "bq_run (BqRel i) b = Some t"
  shows "bq_ok t \<and> ppv_buff_ptrs t = ppv_buff_ptrs b \<and> pu4_que_seq t = pu4_que_seq b \<and> u4_last_cons t = u4_last_cons b \<and>
    u4_last_prod t = u4_last_prod b \<and> (\<forall>k \<in> bq_busy b. k \<noteq> nat i \<longrightarrow> k \<in> bq_busy t)"
proof (cases "0 \<le> i \<and> nat i < bq_len b")
  case True
  then obtain k where k: "i = int k" and i: "k < bq_len b" by (metis nat_0_le)
  have run': "map_option snd (ihevce_buff_que_rel_buf b (int k)) = Some t" using run k by (simp add: bq_run_def)
  show ?thesis
  proof (cases "pi4_produced_sts b ! k = 0")
    case True
    then have "t = b" using run' i bq_okD [OF ok] by (simp add: ihevce_buff_que_rel_buf_def)
    then show ?thesis using ok by simp
  next
    case p: False
    have n: "in_w32 (pi4_num_users b ! k - 1)"
    proof -
      have "pi4_produced_sts b ! k > 0" using p bq_okD(7) [OF ok i] by auto
      then show ?thesis using run' i bq_okD(1-3) [OF ok] by (auto simp: ihevce_buff_que_rel_buf_def bind_Some_iff)
    qed
    obtain t' where t': "ihevce_buff_que_rel_buf b (int k) = Some (0, t')" "bq_ok t'" "t' = (if pi4_num_users b ! k = 1
        then b \<lparr> pi4_num_users := (pi4_num_users b)[k := 0], i4_num_active_bufs := i4_num_active_bufs b - 1,
          pi4_produced_sts := (pi4_produced_sts b)[k := 0] \<rparr>
        else b \<lparr> pi4_num_users := (pi4_num_users b)[k := pi4_num_users b ! k - 1] \<rparr>)"
      using bq_rel_spec [OF ok i n] unfolding if_not_P [OF p] by blast
    have "t = t'" using run' t'(1) by simp
    then show ?thesis using t'(2,3) k by (auto simp: bq_busy_def)
  qed
next
  case False
  then have "t = b" using run bq_okD [OF ok] by (auto simp: bq_run_def ihevce_buff_que_rel_buf_def rdi_def split: if_splits)
  then show ?thesis using ok by simp
qed

lemma bq_run_other:
  assumes ok: "bq_ok b" and run: "bq_run op b = Some t" and op: "op = BqReorder i \<or> op = BqNextReorder"
  shows "bq_ok t \<and> ppv_buff_ptrs t = ppv_buff_ptrs b \<and> pu4_que_seq t = pu4_que_seq b \<and> u4_last_cons t = u4_last_cons b \<and>
    u4_last_prod t = u4_last_prod b \<and> bq_busy t = bq_busy b"
  using op
proof
  assume "op = BqReorder i"
  then have "map_option snd (ihevce_buff_que_set_reorder_buf b i) = Some t" using run by (simp add: bq_run_def)
  then show ?thesis using ok
    by (auto simp: ihevce_buff_que_set_reorder_buf_def bind_Some_iff wri_Some_iff bq_ok_def bq_busy_def split: if_splits)
next
  assume "op = BqNextReorder"
  then have "map_option (\<lambda>(_, _, b). b) (ihevce_buff_que_get_next_reorder_buf b) = Some t" using run by (simp add: bq_run_def)
  then show ?thesis using ok unfolding bq_next_reorder_spec [OF ok]
    by (auto simp: bq_ok_def bq_busy_def split: option.splits)
qed

lemma bq_run_next:
  assumes ok: "bq_ok b" and run: "bq_run BqNext b = Some t"
  shows "bq_ok t \<and> ppv_buff_ptrs t = ppv_buff_ptrs b \<and> pu4_que_seq t = pu4_que_seq b \<and> u4_last_prod t = u4_last_prod b \<and>
    bq_busy t = bq_busy b"
proof -
  have "map_option (\<lambda>(_, _, b). b) (ihevce_buff_que_get_next_buf b) = Some t" using run by (simp add: bq_run_def)
  then show ?thesis using ok unfolding bq_get_next_spec [OF ok]
    by (auto simp: bq_ok_def bq_busy_def split: option.splits if_splits)
qed

lemma bq_step:
  assumes ok: "bq_ok b" and run: "bq_run op b = Some t"
  shows "bq_ok t \<and> (\<forall>k \<in> bq_busy b. k \<notin> bq_frees op \<longrightarrow> k \<in> bq_busy t)"
proof (cases op)
  case BqFree
  have "bq_run BqFree b = Some t" using run BqFree by simp
  from ok this show ?thesis
  proof (cases rule: bq_run_free)
    case none
    then show ?thesis using ok by simp
  next
    case (one i)
    then show ?thesis using bq_okD(2) [OF ok] by (auto simp: bq_busy_def nth_update)
  qed
next
  case BqNext
  then show ?thesis using bq_run_next [OF ok] run by blast
next
  case (BqProd i n)
  then show ?thesis using bq_run_prod [OF ok] run by blast
next
  case (BqRel i)
  then show ?thesis using bq_run_rel [OF ok] run by auto
next
  case (BqReorder i)
  then show ?thesis using bq_run_other [OF ok run] by blast
next
  case BqNextReorder
  then show ?thesis using bq_run_other [OF ok run] by blast
qed

lemma bq_grant_free:
  assumes ok: "bq_ok b" and g: "bq_grants op b = Some i"
  shows "op = BqFree" "i \<notin> bq_busy b" "bq_run op b = Some t \<Longrightarrow> i \<in> bq_busy t"
proof -
  show op: "op = BqFree" using g by (cases op) (simp_all add: bq_grants_def)
  show "i \<notin> bq_busy b" using bq_get_free_spec [OF ok] g op by (auto simp: bq_grants_def)
  assume "bq_run op b = Some t"
  then have "bq_run BqFree b = Some t" using op by simp
  from ok this show "i \<in> bq_busy t"
    by (cases rule: bq_run_free) (use g op bq_okD(2) [OF ok] in \<open>auto simp: bq_busy_def\<close>)
qed

interpretation bq: exclusive_pool bq_ok bq_busy bq_run bq_grants bq_frees
  by unfold_locales (use bq_step bq_grant_free in blast)+

abbreviation bq_runs :: "bq_op list \<Rightarrow> buf_que \<Rightarrow> buf_que option" where
  "bq_runs \<equiv> exclusive_pool.runs bq_run"

section \<open>The order of consumption\<close>

text \<open>The buffers requested and not yet taken carry the sequence numbers between the two counters,
  one each, and are in use. The counters do not reach the initial mark \<^verbatim>\<open>UINT32_MAX\<close>.\<close>

definition seq_of :: "buf_que \<Rightarrow> nat \<Rightarrow> nat" where
  "seq_of b i = unat (pu4_que_seq b ! i)"

definition fq_valid :: "buf_que \<Rightarrow> bool" where
  "fq_valid b \<longleftrightarrow> bq_ok b \<and> unat (u4_last_cons b) \<le> unat (u4_last_prod b) \<and> unat (u4_last_prod b) < 4294967295 \<and>
     (\<forall>i < bq_len b. seq_of b i = 4294967295 \<or> seq_of b i < unat (u4_last_prod b)) \<and>
     (\<forall>i < bq_len b. \<forall>j < bq_len b. seq_of b i = seq_of b j \<longrightarrow> seq_of b i < 4294967295 \<longrightarrow> i = j) \<and>
     (\<forall>s. unat (u4_last_cons b) \<le> s \<longrightarrow> s < unat (u4_last_prod b) \<longrightarrow> (\<exists>i. i < bq_len b \<and> i \<in> bq_busy b \<and> seq_of b i = s))"

definition slot_of :: "buf_que \<Rightarrow> nat \<Rightarrow> nat" where
  "slot_of b s = the (find (\<lambda>i. seq_of b i = s) [0 ..< bq_len b])"

definition fq_content :: "buf_que \<Rightarrow> nat list" where
  "fq_content b = map (slot_of b) [unat (u4_last_cons b) ..< unat (u4_last_prod b)]"

text \<open>The steps of a client that releases a buffer for the last time only after it was taken.\<close>

definition taken :: "buf_que \<Rightarrow> int \<Rightarrow> bool" where
  "taken b i \<longleftrightarrow> 0 \<le> i \<and> nat i < bq_len b \<and> seq_of b (nat i) < unat (u4_last_cons b)"

definition fq_act :: "bq_op \<Rightarrow> buf_que \<Rightarrow> buf_que option" where
  "fq_act op b = do {
     require (case op of BqFree \<Rightarrow> unat (u4_last_prod b) < 4294967294 | BqRel i \<Rightarrow> taken b i | _ \<Rightarrow> True);
     bq_run op b
   }"

definition fq_put :: "bq_op \<Rightarrow> buf_que \<Rightarrow> nat list" where
  "fq_put op b = (case bq_grants op b of Some i \<Rightarrow> [i] | None \<Rightarrow> [])"

definition fq_got :: "bq_op \<Rightarrow> buf_que \<Rightarrow> nat list" where
  "fq_got op b = (case op of
       BqNext \<Rightarrow> (case ihevce_buff_que_get_next_buf b of Some (_, Some i, _) \<Rightarrow> [i] | _ \<Rightarrow> [])
     | _ \<Rightarrow> [])"

lemma fq_validD:
  assumes "fq_valid b"
  shows "bq_ok b" "unat (u4_last_cons b) \<le> unat (u4_last_prod b)" "unat (u4_last_prod b) < 4294967295"
    "i < bq_len b \<Longrightarrow> seq_of b i = 4294967295 \<or> seq_of b i < unat (u4_last_prod b)"
    "i < bq_len b \<Longrightarrow> j < bq_len b \<Longrightarrow> seq_of b i = seq_of b j \<Longrightarrow> seq_of b i < 4294967295 \<Longrightarrow> i = j"
    "unat (u4_last_cons b) \<le> s \<Longrightarrow> s < unat (u4_last_prod b) \<Longrightarrow> \<exists>i. i < bq_len b \<and> i \<in> bq_busy b \<and> seq_of b i = s"
  using assms unfolding fq_valid_def by blast+

lemma slot_of_eq:
  assumes "i < bq_len b" "seq_of b i = s" "\<And>j. j < bq_len b \<Longrightarrow> seq_of b j = s \<Longrightarrow> j = i"
  shows "find (\<lambda>i. seq_of b i = s) [0 ..< bq_len b] = Some i" "slot_of b s = i"
proof -
  show "find (\<lambda>i. seq_of b i = s) [0 ..< bq_len b] = Some i"
    unfolding find_upt using assms by (metis less_trans nat_neq_iff)
  then show "slot_of b s = i" by (simp add: slot_of_def)
qed

lemma fq_same:
  assumes ok: "fq_valid b" and t: "bq_ok t" "ppv_buff_ptrs t = ppv_buff_ptrs b" "pu4_que_seq t = pu4_que_seq b"
    "u4_last_cons t = u4_last_cons b" "u4_last_prod t = u4_last_prod b"
    and busy: "\<And>i. i \<in> bq_busy b \<Longrightarrow> unat (u4_last_cons b) \<le> seq_of b i \<Longrightarrow> i \<in> bq_busy t"
  shows "fq_valid t" "fq_content t = fq_content b"
proof -
  have seq: "seq_of t = seq_of b" by (simp add: seq_of_def fun_eq_iff t)
  have "slot_of t = slot_of b" by (simp add: slot_of_def fun_eq_iff t seq)
  then show "fq_content t = fq_content b" by (simp add: fq_content_def t)
  show "fq_valid t"
    unfolding fq_valid_def seq t(2,4,5) using t(1) fq_validD [OF ok] busy by metis
qed

lemma fq_free:
  assumes ok: "fq_valid b" and run: "bq_run BqFree b = Some t" and lim: "unat (u4_last_prod b) < 4294967294"
  shows "fq_valid t \<and> fq_content t = fq_content b @ fq_put BqFree b"
proof -
  note F = fq_validD [OF ok]
  from F(1) run show ?thesis
  proof (cases rule: bq_run_free)
    case none
    then show ?thesis using ok by (simp add: fq_put_def)
  next
    case (one i)
    have len: "bq_len t = bq_len b" and prod: "unat (u4_last_prod t) = Suc (unat (u4_last_prod b))"
        and cons: "u4_last_cons t = u4_last_cons b"
      using one(5) lim by (simp_all add: unat_word_ariths)
    have seq: "seq_of t j = (if j = i then unat (u4_last_prod b) else seq_of b j)" if "j < bq_len b" for j
      using one(1,5) that bq_okD(4) [OF F(1)] by (auto simp: seq_of_def nth_update)
    have new: "seq_of b i = 4294967295 \<or> seq_of b i < unat (u4_last_cons b)"
    proof (rule ccontr)
      assume "\<not> ?thesis"
      then have s: "unat (u4_last_cons b) \<le> seq_of b i" "seq_of b i < unat (u4_last_prod b)" "seq_of b i < 4294967295"
        using F(3) F(4) [OF one(1)] by auto
      then obtain j where j: "j < bq_len b" "j \<in> bq_busy b" "seq_of b j = seq_of b i" using F(6) by blast
      then have "j = i" using F(5) [OF j(1) one(1)] s(3) by simp
      then show False using j(2) one(2) by simp
    qed
    have slot: "\<exists>j. j < bq_len b \<and> j \<noteq> i \<and> j \<in> bq_busy b \<and> seq_of b j = s"
      if s: "unat (u4_last_cons b) \<le> s" "s < unat (u4_last_prod b)" for s
    proof -
      obtain j where j: "j < bq_len b" "j \<in> bq_busy b" "seq_of b j = s" using F(6) [OF s] by blast
      moreover have "j \<noteq> i" using j one(2) by blast
      ultimately show ?thesis by blast
    qed
    have busy: "j \<in> bq_busy t" if "j \<in> bq_busy b \<or> j = i" for j
      using that one(1,5) bq_okD(2) [OF F(1)] by (auto simp: bq_busy_def nth_update split: if_splits)
    have uniq: "j = k" if "j < bq_len b" "k < bq_len b" "seq_of t j = seq_of t k" "seq_of t j < 4294967295" for j k
      using that seq [OF that(1)] seq [OF that(2)] F(4) [OF that(1)] F(4) [OF that(2)] F(5) [OF that(1,2)] F(3)
      by (auto split: if_splits)
    have valid: "fq_valid t"
      unfolding fq_valid_def len prod cons
    proof (intro conjI allI impI)
      show "bq_ok t" by (rule one(4))
      show "unat (u4_last_cons b) \<le> Suc (unat (u4_last_prod b))" "Suc (unat (u4_last_prod b)) < 4294967295"
        using F(2) lim by simp_all
      show "seq_of t j = 4294967295 \<or> seq_of t j < Suc (unat (u4_last_prod b))" if "j < bq_len b" for j
        using seq [OF that] F(4) [OF that] by auto
      show "j = k" if "j < bq_len b" "k < bq_len b" "seq_of t j = seq_of t k" "seq_of t j < 4294967295" for j k
        by (rule uniq [OF that])
      fix s assume s: "unat (u4_last_cons b) \<le> s" "s < Suc (unat (u4_last_prod b))"
      show "\<exists>j. j < bq_len b \<and> j \<in> bq_busy t \<and> seq_of t j = s"
      proof (cases "s = unat (u4_last_prod b)")
        case True
        then show ?thesis using one(1) busy [of i] seq [OF one(1)] by (intro exI [of _ i]) simp
      next
        case False
        then obtain j where "j < bq_len b" "j \<noteq> i" "j \<in> bq_busy b" "seq_of b j = s" using slot [OF s(1)] s(2) by auto
        then show ?thesis using busy seq by (intro exI [of _ j]) simp
      qed
    qed
    have found: "slot_of t s = j" if "j < bq_len b" "seq_of t j = s" "s < 4294967295" for j s
      by (rule slot_of_eq(2)) (use that len uniq in auto)
    have "slot_of t (unat (u4_last_prod b)) = i"
      by (rule found [OF one(1)]) (use seq [OF one(1)] F(3) in auto)
    moreover have "slot_of t s = slot_of b s" if s: "s \<in> set [unat (u4_last_cons b) ..< unat (u4_last_prod b)]" for s
    proof -
      obtain j where j: "j < bq_len b" "j \<noteq> i" "seq_of b j = s" using slot s by auto
      have small: "s < 4294967295" using s F(3) by simp
      have "slot_of b s = j" by (rule slot_of_eq(2) [OF j(1,3)]) (use F(5) [OF _ j(1)] j(3) small in auto)
      moreover have "slot_of t s = j"
        by (rule found [OF j(1) _ small]) (use j seq [OF j(1)] in simp)
      ultimately show ?thesis by simp
    qed
    ultimately have "fq_content t = fq_content b @ [i]"
      using F(2) unfolding fq_content_def cons prod by simp
    then show ?thesis using valid one(3) by (simp add: fq_put_def)
  qed
qed

lemma fq_next:
  assumes ok: "fq_valid b" and run: "bq_run BqNext b = Some t"
  shows "fq_valid t \<and> fq_content b = fq_got BqNext b @ fq_content t"
proof -
  note F = fq_validD [OF ok]
  let ?f = "find (\<lambda>i. u4_last_cons b = pu4_que_seq b ! i) [0 ..< bq_len b]"
  have f: "?f = find (\<lambda>i. seq_of b i = unat (u4_last_cons b)) [0 ..< bq_len b]"
  proof -
    have "(\<lambda>i. u4_last_cons b = pu4_que_seq b ! i) = (\<lambda>i. seq_of b i = unat (u4_last_cons b))"
      by (auto simp: fun_eq_iff seq_of_def word_unat_eq_iff)
    then show ?thesis by simp
  qed
  have get: "map_option (\<lambda>(_, _, b). b) (ihevce_buff_que_get_next_buf b) = Some t" using run by (simp add: bq_run_def)
  show ?thesis
  proof (cases "\<exists>i. ?f = Some i \<and> pi4_produced_sts b ! i = 1")
    case False
    then have "ihevce_buff_que_get_next_buf b = Some (None, None, b)"
      unfolding bq_get_next_spec [OF F(1)] by (auto split: option.splits)
    then show ?thesis using get ok by (simp add: fq_got_def)
  next
    case True
    then obtain i where i: "?f = Some i" "pi4_produced_sts b ! i = 1" by blast
    have t: "t = b \<lparr> u4_last_cons := u4_last_cons b + 1 \<rparr>" and got: "fq_got BqNext b = [i]"
      using get i unfolding fq_got_def bq_get_next_spec [OF F(1)] by simp_all
    have seq: "seq_of t = seq_of b" "bq_len t = bq_len b" "bq_busy t = bq_busy b" "u4_last_prod t = u4_last_prod b"
      by (simp_all add: t seq_of_def fun_eq_iff bq_busy_def)
    then have slot: "slot_of t = slot_of b" by (simp add: slot_of_def fun_eq_iff)
    have fi: "i < bq_len b" "seq_of b i = unat (u4_last_cons b)" using i(1) unfolding f find_upt by simp_all
    have lt: "unat (u4_last_cons b) < unat (u4_last_prod b)" using F(2,3) F(4) [OF fi(1)] fi(2) by auto
    then have cons: "unat (u4_last_cons t) = Suc (unat (u4_last_cons b))" using F(3) by (simp add: t unat_word_ariths)
    have "fq_valid t"
      unfolding fq_valid_def seq cons
    proof (intro conjI allI impI)
      show "bq_ok t" using F(1) by (simp add: t bq_ok_def)
      show "\<exists>j. j < bq_len b \<and> j \<in> bq_busy b \<and> seq_of b j = s" if "Suc (unat (u4_last_cons b)) \<le> s" "s < unat (u4_last_prod b)" for s
        using F(6) [of s] that by simp
    qed (use F lt in auto)
    moreover have "slot_of b (unat (u4_last_cons b)) = i" using i(1) unfolding f slot_of_def by simp
    then have "fq_content b = i # fq_content t"
      unfolding fq_content_def slot seq(4) cons by (simp add: upt_conv_Cons [OF lt])
    ultimately show ?thesis using got by simp
  qed
qed

lemma fq_act_spec:
  assumes ok: "fq_valid b" and act: "fq_act op b = Some t"
  shows "fq_valid t" "fq_content b @ fq_put op b = fq_got op b @ fq_content t"
proof -
  note F = fq_validD [OF ok]
  have run: "bq_run op b = Some t" using act by (auto simp: fq_act_def bind_Some_iff)
  have none: "fq_put op b = []" if "op \<noteq> BqFree" using that by (cases op) (simp_all add: fq_put_def bq_grants_def)
  have "fq_valid t \<and> fq_content b @ fq_put op b = fq_got op b @ fq_content t"
  proof (cases op)
    case BqFree
    then have "unat (u4_last_prod b) < 4294967294" using act by (auto simp: fq_act_def bind_Some_iff)
    then show ?thesis using fq_free [OF ok run [unfolded BqFree]] BqFree by (simp add: fq_got_def)
  next
    case BqNext
    then show ?thesis using fq_next [OF ok run [unfolded BqNext]] none by simp
  next
    case (BqProd i n)
    note p = bq_run_prod [OF F(1) run [unfolded BqProd]]
    have "fq_valid t \<and> fq_content t = fq_content b" using fq_same [OF ok] p by blast
    then show ?thesis using none BqProd by (simp add: fq_got_def)
  next
    case (BqRel i)
    note p = bq_run_rel [OF F(1) run [unfolded BqRel]]
    have "taken b i" using act BqRel by (auto simp: fq_act_def bind_Some_iff)
    then have "k \<in> bq_busy t" if "k \<in> bq_busy b" "unat (u4_last_cons b) \<le> seq_of b k" for k
      using p that by (cases "k = nat i") (auto simp: taken_def)
    then have "fq_valid t \<and> fq_content t = fq_content b" using fq_same [OF ok] p by blast
    then show ?thesis using none BqRel by (simp add: fq_got_def)
  next
    case (BqReorder i)
    note p = bq_run_other [OF F(1) run disjI1 [OF BqReorder]]
    have "fq_valid t \<and> fq_content t = fq_content b" using fq_same [OF ok] p by blast
    then show ?thesis using none BqReorder by (simp add: fq_got_def)
  next
    case BqNextReorder
    note p = bq_run_other [OF F(1) run disjI2 [OF BqNextReorder]]
    have "fq_valid t \<and> fq_content t = fq_content b" using fq_same [OF ok] p by blast
    then show ?thesis using none BqNextReorder by (simp add: fq_got_def)
  qed
  then show "fq_valid t" "fq_content b @ fq_put op b = fq_got op b @ fq_content t" by simp_all
qed

interpretation fq: fifo_queue fq_valid fq_content fq_act fq_put fq_got
  by unfold_locales (rule fq_act_spec, assumption+)+

abbreviation fq_history :: "bq_op list \<Rightarrow> buf_que \<Rightarrow> (nat list \<times> nat list \<times> buf_que) option" where
  "fq_history \<equiv> fifo_queue.history fq_act fq_put fq_got"

section \<open>Properties\<close>

lemma fq_init:
  assumes "length ptrs < 2147483648"
  shows "fq_valid (ihevce_buff_que_init (int (length ptrs)) ptrs)"
    "fq_content (ihevce_buff_que_init (int (length ptrs)) ptrs) = []"
  using bq_init_ok(1) [OF refl assms]
  by (simp_all add: fq_valid_def fq_content_def ihevce_buff_que_init_def Let_def seq_of_def)

lemma bq_runs_ok:
  "length ptrs < 2147483648 \<Longrightarrow> bq_runs ops (ihevce_buff_que_init (int (length ptrs)) ptrs) = Some b \<Longrightarrow> bq_ok b"
  using bq.runs_valid bq_init_ok(1) by blast

text \<open>
  C39: Buffers reach the consumers in the order the producer requested them: over every sequence of
  requests, marks, releases, reorderings and takings from a new queue, in which a buffer is
  released only after it was taken, the buffers taken are a prefix of the buffers requested.
\<close>

theorem buffer_que_fifo:
  assumes "length ptrs < 2147483648"
    and "fq_history ops (ihevce_buff_que_init (int (length ptrs)) ptrs) = Some (requested, got, b)"
  shows "prefix got requested \<and> requested = got @ fq_content b"
  using fq.got_prefix [OF fq_init [OF assms(1)] assms(2)] fq.history_order [OF fq_init(1) [OF assms(1)] assms(2)]
    fq_init(2) [OF assms(1)] by simp

definition bq_example :: buf_que where
  "bq_example = ihevce_buff_que_init (int 2) [Some 7, Some 9]"

lemma bq_example_runs:
  "fq_act BqFree bq_example = Some (bq_example \<lparr> pi4_num_users := [1, 0], pu4_que_seq := [0, 0xFFFFFFFF], u4_last_prod := 1 \<rparr>)"
  "bq_grants BqFree bq_example = Some 0"
proof -
  have s: "scan (\<lambda>i. rd (pi4_num_users bq_example) i \<bind> (\<lambda>u. if u = 0 then rd (pi4_produced_sts bq_example) i \<bind> (\<lambda>p. Some (p = 0))
      else Some False)) (i4_num_bufs bq_example) 0 = Some (Some 0)"
    by (subst scan.simps) (simp add: bq_example_def ihevce_buff_que_init_def Let_def)
  have f: "ihevce_buff_que_get_free_buf bq_example = Some (Some 7, Some 0,
      bq_example \<lparr> pi4_num_users := [1, 0], pu4_que_seq := [0, 0xFFFFFFFF], u4_last_prod := 1 \<rparr>)"
    unfolding ihevce_buff_que_get_free_buf_def s
    by (simp add: bq_example_def ihevce_buff_que_init_def Let_def numeral_2_eq_2)
  then show "bq_grants BqFree bq_example = Some 0" by (simp add: bq_grants_def)
  show "fq_act BqFree bq_example = Some (bq_example \<lparr> pi4_num_users := [1, 0], pu4_que_seq := [0, 0xFFFFFFFF], u4_last_prod := 1 \<rparr>)"
    using f by (simp add: fq_act_def bq_run_def) (simp add: bq_example_def ihevce_buff_que_init_def Let_def)
qed

lemma buffer_que_fifo_witness:
  "\<exists>b. fq_history [BqFree] (ihevce_buff_que_init (int (length [Some 7, Some 9])) [Some 7, Some 9]) = Some ([0], [], b) \<and>
    prefix [] [0] \<and> [0] = [] @ fq_content b"
proof -
  have e: "ihevce_buff_que_init (int (length [Some 7, Some 9])) [Some 7, Some 9] = bq_example" by (simp add: bq_example_def)
  have h: "fq_history [BqFree] bq_example =
      Some ([0], [], bq_example \<lparr> pi4_num_users := [1, 0], pu4_que_seq := [0, 0xFFFFFFFF], u4_last_prod := 1 \<rparr>)"
    using bq_example_runs by (simp add: fq.history.simps fq_put_def fq_got_def)
  show ?thesis
    using buffer_que_fifo [of "[Some 7, Some 9]" "[BqFree]" "[0]" "[]"] h unfolding e by auto
qed

text \<open>
  C40: A buffer is not given out twice: between two requests that return the same buffer it is
  released.
\<close>

theorem buffer_que_no_double_grant:
  assumes "length ptrs < 2147483648" "bq_runs ops (ihevce_buff_que_init (int (length ptrs)) ptrs) = Some b"
    and "ihevce_buff_que_get_free_buf b = Some (p, Some i, c)" "bq_runs ops' c = Some d"
    and "\<forall>op \<in> set ops'. i \<notin> bq_frees op"
  shows "ihevce_buff_que_get_free_buf d \<noteq> Some (q, Some i, e)"
proof -
  have g: "bq_grants BqFree b = Some i" "bq_run BqFree b = Some c"
    using assms(3) by (simp_all add: bq_grants_def bq_run_def)
  from bq.no_second_grant [OF bq_runs_ok [OF assms(1,2)] g assms(4,5), of BqFree]
  show ?thesis by (auto simp: bq_grants_def)
qed

lemma buffer_que_no_double_grant_witness:
  "\<exists>p c. ihevce_buff_que_get_free_buf bq_example = Some (p, Some 0, c) \<and>
    ihevce_buff_que_get_free_buf c \<noteq> Some (Some 7, Some 0, c)"
proof -
  obtain p c where c: "ihevce_buff_que_get_free_buf bq_example = Some (p, Some 0, c)"
    using bq_example_runs(2) by (auto simp: bq_grants_def split: option.splits)
  have "bq_runs [] (ihevce_buff_que_init (int (length [Some 7, Some 9])) [Some 7, Some 9]) = Some bq_example"
    by (simp add: bq_example_def bq.runs.simps)
  then show ?thesis
    using buffer_que_no_double_grant [of "[Some 7, Some 9]" "[]" bq_example p 0 c "[]" c "Some 7" c] c
    by (auto simp: bq.runs.simps)
qed

text \<open>
  The count of active buffers is the number of buffers marked as produced, whatever the
  sequence of operations; so the release of a produced buffer never takes its error return on an
  active count of zero.
\<close>

theorem buffer_que_active_count:
  assumes "length ptrs < 2147483648" "bq_runs ops (ihevce_buff_que_init (int (length ptrs)) ptrs) = Some b"
  shows "ihevce_buff_que_get_active_bufs b = int (card {i. i < length (ppv_buff_ptrs b) \<and> pi4_produced_sts b ! i = 1}) \<and>
    (\<forall>i < length (ppv_buff_ptrs b). pi4_produced_sts b ! i \<noteq> 0 \<longrightarrow>
      (case ihevce_buff_que_rel_buf b (int i) of Some (r, t) \<Rightarrow> r = 0 | None \<Rightarrow> \<not> in_w32 (pi4_num_users b ! i - 1)))"
proof -
  have ok: "bq_ok b" by (rule bq_runs_ok [OF assms])
  have "case ihevce_buff_que_rel_buf b (int i) of Some (r, t) \<Rightarrow> r = 0 | None \<Rightarrow> \<not> in_w32 (pi4_num_users b ! i - 1)"
    if i: "i < length (ppv_buff_ptrs b)" and p: "pi4_produced_sts b ! i \<noteq> 0" for i
  proof (cases "in_w32 (pi4_num_users b ! i - 1)")
    case True
    obtain t where "ihevce_buff_que_rel_buf b (int i) = Some (0, t)"
      using bq_rel_spec [OF ok i True] unfolding if_not_P [OF p] by blast
    then show ?thesis by simp
  next
    case False
    have "pi4_produced_sts b ! i > 0" using p bq_okD(7) [OF ok i] by auto
    then show ?thesis using False i bq_okD(1-3) [OF ok] by (simp add: ihevce_buff_que_rel_buf_def)
  qed
  then show ?thesis using bq_okD(8) [OF ok] by (simp add: ihevce_buff_que_get_active_bufs_def)
qed

lemma buffer_que_active_count_witness:
  "ihevce_buff_que_get_active_bufs bq_example =
    int (card {i. i < length (ppv_buff_ptrs bq_example) \<and> pi4_produced_sts bq_example ! i = 1})"
  by (rule buffer_que_active_count [of "[Some 7, Some 9]" "[]", THEN conjunct1]) (simp_all add: bq_example_def bq.runs.simps)

end
