(* ===== verification/Inter_Pred.thy ===== *)
theory Inter_Pred
  imports Samples
begin

text \<open>
  The interpolation filters of \<^verbatim>\<open>common/ihevc_inter_pred_filters.c\<close>: copies, and 8-tap (luma) and
  4-tap (chroma) filters along rows or columns, from samples or from the 16-bit result of a first
  pass, to samples or to 16-bit intermediate values. Chroma is interleaved, two samples a position.

  What is proved: with the filter tables no 16-bit accumulator or intermediate value wraps, so the
  two-pass filter is the exact separable filter; a constant area stays constant.
\<close>

section \<open>Filters\<close>

definition gai1_ihevc_luma_filter :: "int list list" where
  "gai1_ihevc_luma_filter =
    [[0, 0, 0, 64, 0, 0, 0, 0],
     [-1, 4, -10, 58, 17, -5, 1, 0],
     [-1, 4, -11, 40, 40, -11, 4, -1],
     [0, 1, -5, 17, 58, -10, 4, -1]]"


abbreviation (input) NTAPS_LUMA :: int where "NTAPS_LUMA \<equiv> 8"
abbreviation (input) NTAPS_CHROMA :: int where "NTAPS_CHROMA \<equiv> 4"
abbreviation (input) OFFSET14 :: int where "OFFSET14 \<equiv> 8192"

text \<open>The rounding and shift by \<^verbatim>\<open>SHIFT_14_MINUS_BIT_DEPTH\<close> = 6 of a \<^verbatim>\<open>WORD16\<close> and a \<^verbatim>\<open>WORD32\<close> value.\<close>

definition round6_s16 :: "int \<Rightarrow> int" where
  "round6_s16 x = CLIP_U8 (s16 ((x + 32) div 64))"

definition round6_w16inp :: "int \<Rightarrow> int" where
  "round6_w16inp x = CLIP_U8 ((x div 64 + 32) div 64)"

section \<open>Luma\<close>

definition ihevc_inter_pred_luma_copy ::
  "mem8 \<Rightarrow> int \<Rightarrow> mem8 \<Rightarrow> int \<Rightarrow> int \<Rightarrow> int \<Rightarrow> int list \<Rightarrow> int \<Rightarrow> int \<Rightarrow> mem8" where
  "ihevc_inter_pred_luma_copy src s dst d src_strd dst_strd coeff ht wd =
     store_block ht wd (\<lambda>row col. d + row * dst_strd + col) (\<lambda>row col. src (s + row * src_strd + col)) dst"

definition ihevc_inter_pred_luma_horz ::
  "mem8 \<Rightarrow> int \<Rightarrow> mem8 \<Rightarrow> int \<Rightarrow> int \<Rightarrow> int \<Rightarrow> int list \<Rightarrow> int \<Rightarrow> int \<Rightarrow> mem8" where
  "ihevc_inter_pred_luma_horz src s dst d src_strd dst_strd coeff ht wd =
     store_block ht wd (\<lambda>row col. d + row * dst_strd + col)
       (\<lambda>row col. word_of_int (round6_s16 (mac16 NTAPS_LUMA (\<lambda>i.
          coeff ! nat i * uint (src (s + row * src_strd + col + (i - 3))))))) dst"

definition ihevc_inter_pred_luma_vert ::
  "mem8 \<Rightarrow> int \<Rightarrow> mem8 \<Rightarrow> int \<Rightarrow> int \<Rightarrow> int \<Rightarrow> int list \<Rightarrow> int \<Rightarrow> int \<Rightarrow> mem8" where
  "ihevc_inter_pred_luma_vert src s dst d src_strd dst_strd coeff ht wd =
     store_block ht wd (\<lambda>row col. d + row * dst_strd + col)
       (\<lambda>row col. word_of_int (round6_s16 (mac16 NTAPS_LUMA (\<lambda>i.
          coeff ! nat i * uint (src (s + row * src_strd + col + (i - 3) * src_strd)))))) dst"

definition ihevc_inter_pred_luma_copy_w16out ::
  "mem8 \<Rightarrow> int \<Rightarrow> mem16 \<Rightarrow> int \<Rightarrow> int \<Rightarrow> int \<Rightarrow> int list \<Rightarrow> int \<Rightarrow> int \<Rightarrow> mem16" where
  "ihevc_inter_pred_luma_copy_w16out src s dst d src_strd dst_strd coeff ht wd =
     store_block ht wd (\<lambda>row col. d + row * dst_strd + col)
       (\<lambda>row col. word_of_int (uint (src (s + row * src_strd + col)) * 64)) dst"

definition ihevc_inter_pred_luma_horz_w16out ::
  "mem8 \<Rightarrow> int \<Rightarrow> mem16 \<Rightarrow> int \<Rightarrow> int \<Rightarrow> int \<Rightarrow> int list \<Rightarrow> int \<Rightarrow> int \<Rightarrow> mem16" where
  "ihevc_inter_pred_luma_horz_w16out src s dst d src_strd dst_strd coeff ht wd =
     store_block ht wd (\<lambda>row col. d + row * dst_strd + col)
       (\<lambda>row col. word_of_int (mac16 NTAPS_LUMA (\<lambda>i.
          coeff ! nat i * uint (src (s + row * src_strd + col + (i - 3)))))) dst"

definition ihevc_inter_pred_luma_vert_w16out ::
  "mem8 \<Rightarrow> int \<Rightarrow> mem16 \<Rightarrow> int \<Rightarrow> int \<Rightarrow> int \<Rightarrow> int list \<Rightarrow> int \<Rightarrow> int \<Rightarrow> mem16" where
  "ihevc_inter_pred_luma_vert_w16out src s dst d src_strd dst_strd coeff ht wd =
     store_block ht wd (\<lambda>row col. d + row * dst_strd + col)
       (\<lambda>row col. word_of_int (mac16 NTAPS_LUMA (\<lambda>i.
          coeff ! nat i * uint (src (s + row * src_strd + col + (i - 3) * src_strd))))) dst"

definition ihevc_inter_pred_luma_vert_w16inp ::
  "mem16 \<Rightarrow> int \<Rightarrow> mem8 \<Rightarrow> int \<Rightarrow> int \<Rightarrow> int \<Rightarrow> int list \<Rightarrow> int \<Rightarrow> int \<Rightarrow> mem8" where
  "ihevc_inter_pred_luma_vert_w16inp src s dst d src_strd dst_strd coeff ht wd =
     store_block ht wd (\<lambda>row col. d + row * dst_strd + col)
       (\<lambda>row col. word_of_int (round6_w16inp (mac32 NTAPS_LUMA (\<lambda>i.
          coeff ! nat i * sint (src (s + row * src_strd + col + (i - 3) * src_strd)))))) dst"

definition ihevc_inter_pred_luma_vert_w16inp_w16out ::
  "mem16 \<Rightarrow> int \<Rightarrow> mem16 \<Rightarrow> int \<Rightarrow> int \<Rightarrow> int \<Rightarrow> int list \<Rightarrow> int \<Rightarrow> int \<Rightarrow> mem16" where
  "ihevc_inter_pred_luma_vert_w16inp_w16out src s dst d src_strd dst_strd coeff ht wd =
     store_block ht wd (\<lambda>row col. d + row * dst_strd + col)
       (\<lambda>row col. word_of_int (mac32 NTAPS_LUMA (\<lambda>i.
          coeff ! nat i * sint (src (s + row * src_strd + col + (i - 3) * src_strd))) div 64 - OFFSET14)) dst"

section \<open>Chroma\<close>

text \<open>The two samples of a position, for the loops in steps of two columns.\<close>

definition store_pairs :: "int \<Rightarrow> int \<Rightarrow> int \<Rightarrow> int \<Rightarrow> (int \<Rightarrow> int \<Rightarrow> 'v) \<Rightarrow> (int \<Rightarrow> 'v) \<Rightarrow> (int \<Rightarrow> 'v)" where
  "store_pairs ht wd d dst_strd val m = for_to ht (\<lambda>row. for_to wd (\<lambda>k m.
     let col = 2 * k in
     m(d + row * dst_strd + col := val row col, d + row * dst_strd + (col + 1) := val row (col + 1)))) m"

definition ihevc_inter_pred_chroma_copy ::
  "mem8 \<Rightarrow> int \<Rightarrow> mem8 \<Rightarrow> int \<Rightarrow> int \<Rightarrow> int \<Rightarrow> int list \<Rightarrow> int \<Rightarrow> int \<Rightarrow> mem8" where
  "ihevc_inter_pred_chroma_copy src s dst d src_strd dst_strd coeff ht wd =
     store_block ht (2 * wd) (\<lambda>row col. d + row * dst_strd + col) (\<lambda>row col. src (s + row * src_strd + col)) dst"

definition ihevc_inter_pred_chroma_horz ::
  "mem8 \<Rightarrow> int \<Rightarrow> mem8 \<Rightarrow> int \<Rightarrow> int \<Rightarrow> int \<Rightarrow> int list \<Rightarrow> int \<Rightarrow> int \<Rightarrow> mem8" where
  "ihevc_inter_pred_chroma_horz src s dst d src_strd dst_strd coeff ht wd =
     store_pairs ht wd d dst_strd
       (\<lambda>row col. word_of_int (round6_s16 (mac16 NTAPS_CHROMA (\<lambda>i.
          coeff ! nat i * uint (src (s + row * src_strd + col + (i - 1) * 2)))))) dst"

definition ihevc_inter_pred_chroma_vert ::
  "mem8 \<Rightarrow> int \<Rightarrow> mem8 \<Rightarrow> int \<Rightarrow> int \<Rightarrow> int \<Rightarrow> int list \<Rightarrow> int \<Rightarrow> int \<Rightarrow> mem8" where
  "ihevc_inter_pred_chroma_vert src s dst d src_strd dst_strd coeff ht wd =
     store_block ht (2 * wd) (\<lambda>row col. d + row * dst_strd + col)
       (\<lambda>row col. word_of_int (round6_s16 (mac16 NTAPS_CHROMA (\<lambda>i.
          coeff ! nat i * uint (src (s + row * src_strd + col + (i - 1) * src_strd)))))) dst"

definition ihevc_inter_pred_chroma_copy_w16out ::
  "mem8 \<Rightarrow> int \<Rightarrow> mem16 \<Rightarrow> int \<Rightarrow> int \<Rightarrow> int \<Rightarrow> int list \<Rightarrow> int \<Rightarrow> int \<Rightarrow> mem16" where
  "ihevc_inter_pred_chroma_copy_w16out src s dst d src_strd dst_strd coeff ht wd =
     store_block ht (2 * wd) (\<lambda>row col. d + row * dst_strd + col)
       (\<lambda>row col. word_of_int (uint (src (s + row * src_strd + col)) * 64)) dst"


definition ihevc_inter_pred_chroma_vert_w16out ::
  "mem8 \<Rightarrow> int \<Rightarrow> mem16 \<Rightarrow> int \<Rightarrow> int \<Rightarrow> int \<Rightarrow> int list \<Rightarrow> int \<Rightarrow> int \<Rightarrow> mem16" where
  "ihevc_inter_pred_chroma_vert_w16out src s dst d src_strd dst_strd coeff ht wd =
     store_block ht (2 * wd) (\<lambda>row col. d + row * dst_strd + col)
       (\<lambda>row col. word_of_int (mac16 NTAPS_CHROMA (\<lambda>i.
          coeff ! nat i * uint (src (s + row * src_strd + col + (i - 1) * src_strd))))) dst"




section \<open>Ranges of filtered values\<close>

text \<open>The filter as a sum, and the sums of its positive and of its negative taps.\<close>

definition fir :: "nat \<Rightarrow> int list \<Rightarrow> (int \<Rightarrow> int) \<Rightarrow> int" where
  "fir n f x = (\<Sum>i < n. f ! i * x (int i))"

definition taps_pos :: "nat \<Rightarrow> int list \<Rightarrow> int" where
  "taps_pos n f = (\<Sum>i < n. max (f ! i) 0)"

definition taps_neg :: "nat \<Rightarrow> int list \<Rightarrow> int" where
  "taps_neg n f = (\<Sum>i < n. max (- (f ! i)) 0)"

lemma mac32_fir: "mac32 (int n) (\<lambda>i. f ! nat i * x i) = fir n f x"
proof (induction n)
  case 0
  then show ?case by (simp add: mac32_def fir_def)
next
  case (Suc n)
  then show ?case using mac32_Suc [of "int n" "\<lambda>i. f ! nat i * x i"] by (simp add: fir_def add.commute)
qed

lemma tap_bounds:
  assumes "lo \<le> x" "x \<le> (hi :: int)"
  shows "max c 0 * lo - max (- c) 0 * hi \<le> c * x" "c * x \<le> max c 0 * hi - max (- c) 0 * lo"
  using assms by (cases "0 \<le> c"; simp add: max_def mult_left_mono mult_left_mono_neg)+

lemma fir_bounds:
  assumes "\<And>i. i < n \<Longrightarrow> lo \<le> x (int i) \<and> x (int i) \<le> hi"
  shows "taps_pos n f * lo - taps_neg n f * hi \<le> fir n f x" "fir n f x \<le> taps_pos n f * hi - taps_neg n f * lo"
proof -
  have "(\<Sum>i < n. max (f ! i) 0 * lo - max (- (f ! i)) 0 * hi) \<le> fir n f x"
    unfolding fir_def by (rule sum_mono) (use tap_bounds(1) assms in auto)
  then show "taps_pos n f * lo - taps_neg n f * hi \<le> fir n f x"
    by (simp add: taps_pos_def taps_neg_def sum_distrib_right sum_subtractf)
  have "fir n f x \<le> (\<Sum>i < n. max (f ! i) 0 * hi - max (- (f ! i)) 0 * lo)"
    unfolding fir_def by (rule sum_mono) (use tap_bounds(2) assms in auto)
  then show "fir n f x \<le> taps_pos n f * hi - taps_neg n f * lo"
    by (simp add: taps_pos_def taps_neg_def sum_distrib_right sum_subtractf)
qed

lemma taps_mono: "k \<le> n \<Longrightarrow> 0 \<le> taps_pos k f \<and> taps_pos k f \<le> taps_pos n f" "k \<le> n \<Longrightarrow> 0 \<le> taps_neg k f \<and> taps_neg k f \<le> taps_neg n f"
  unfolding taps_pos_def taps_neg_def by (auto intro!: sum_nonneg sum_mono2)

text \<open>The tap sums of the tables: the taps add up to 64 and the negative ones to at most 24.\<close>

definition good_filter :: "nat \<Rightarrow> int list \<Rightarrow> bool" where
  "good_filter n f \<longleftrightarrow> taps_pos n f = 64 + taps_neg n f \<and> taps_neg n f \<le> 24"

lemma luma_filter_good: "f \<in> set gai1_ihevc_luma_filter \<Longrightarrow> good_filter 8 f"
  by (auto simp: gai1_ihevc_luma_filter_def good_filter_def taps_pos_def taps_neg_def numeral_eq_Suc)


lemma good_filterD:
  assumes "good_filter n f"
  shows "0 \<le> taps_neg n f" "taps_neg n f \<le> 24" "taps_pos n f = 64 + taps_neg n f"
  using assms taps_mono(2) [of n n f] by (auto simp: good_filter_def)

text \<open>On 8-bit samples the 16-bit accumulator is exact.\<close>

lemma fir8_range:
  assumes f: "good_filter n f" and x: "\<And>i. 0 \<le> x i \<and> x i \<le> 255"
  shows "k \<le> n \<Longrightarrow> - 6120 \<le> fir k f x \<and> fir k f x \<le> 22440"
proof -
  assume k: "k \<le> n"
  note b = fir_bounds [where x = x and lo = 0 and hi = 255, of k f]
  show ?thesis using b x taps_mono(1) [OF k, of f] taps_mono(2) [OF k, of f] good_filterD [OF f] by fastforce
qed

lemma mac16_fir:
  assumes f: "good_filter n f" and x: "\<And>i. 0 \<le> x i \<and> x i \<le> 255"
  shows "mac16 (int n) (\<lambda>i. f ! nat i * x i) = fir n f x"
proof -
  have "- 32768 \<le> mac32 k (\<lambda>i. f ! nat i * x i) \<and> mac32 k (\<lambda>i. f ! nat i * x i) < 32768" if k: "0 \<le> k" "k \<le> int n" for k
  proof -
    have "nat k \<le> n" using k by simp
    then show ?thesis using fir8_range [OF f, where x = x, OF x] mac32_fir [of "nat k" f x] k by fastforce
  qed
  then show ?thesis using mac16_exact [of "int n" "\<lambda>i. f ! nat i * x i"] mac32_fir [of n f x] by simp
qed

text \<open>A second pass over first-pass values; its result needs the offset to fit 16 bits for luma.\<close>

lemma fir16_range:
  assumes f: "good_filter n f" and x: "\<And>i. - 6120 \<le> x i \<and> x i \<le> 22440"
  shows "- 1077120 \<le> fir n f x \<and> fir n f x \<le> 2121600"
  using fir_bounds [where x = x and lo = "- 6120" and hi = 22440, of n f] x good_filterD [OF f] by fastforce

lemma fir_const:
  assumes "good_filter n f"
  shows "fir n f (\<lambda>_. c) = 64 * c"
proof -
  have "(\<Sum>i < n. f ! i) = (\<Sum>i < n. max (f ! i) 0 - max (- (f ! i)) 0)" by (rule sum.cong) (auto simp: max_def)
  also have "\<dots> = 64" using good_filterD(3) [OF assms] by (simp add: sum_subtractf taps_pos_def taps_neg_def)
  finally show ?thesis by (simp add: fir_def sum_distrib_right [symmetric])
qed

text \<open>Rounding of an exact first-pass sum.\<close>

lemma round6_exact:
  assumes "good_filter n f" "\<And>i. 0 \<le> x i \<and> x i \<le> 255"
  shows "round6_s16 (mac16 (int n) (\<lambda>i. f ! nat i * x i)) = CLIP_U8 ((fir n f x + 32) div 64)"
proof -
  have "- 6120 \<le> fir n f x" "fir n f x \<le> 22440" using fir8_range [OF assms(1), where x = x, OF assms(2) order_refl] by simp_all
  then have "- 32768 \<le> (fir n f x + 32) div 64" "(fir n f x + 32) div 64 < 32768" by linarith+
  then show ?thesis using mac16_fir [OF assms(1), where x = x, OF assms(2)] by (simp add: round6_s16_def s16_id)
qed

lemma sint_mac16:
  assumes "good_filter n f" "\<And>i. 0 \<le> x i \<and> x i \<le> 255"
  shows "sint (word_of_int (mac16 (int n) (\<lambda>i. f ! nat i * x i)) :: 16 word) = fir n f x"
  using fir8_range [OF assms(1), where x = x, OF assms(2) order_refl] mac16_fir [OF assms(1), where x = x, OF assms(2)]
  by (simp add: sint_s16)




text \<open>The first pass of the two-pass luma filter over seven more rows, and the range of the second.\<close>

lemma luma_first_pass:
  fixes src :: mem8 and tmp :: mem16 and s src_strd t :: int
  assumes "fx \<in> set gai1_ihevc_luma_filter" "wd \<le> tmp_strd" "0 \<le> row" "row < ht" "0 \<le> col" "col < wd" "0 \<le> j" "j < 8"
  shows "sint (ihevc_inter_pred_luma_horz_w16out src (s - 3 * src_strd) tmp t src_strd tmp_strd fx (ht + 7) wd
      (t + 3 * tmp_strd + row * tmp_strd + col + (j - 3) * tmp_strd)) =
    fir 8 fx (\<lambda>i. uint (src (s + (row + j - 3) * src_strd + col + (i - 3))))"
proof -
  have a: "t + 3 * tmp_strd + row * tmp_strd + col + (j - 3) * tmp_strd = t + (row + j) * tmp_strd + col"
    by (simp add: algebra_simps)
  have r: "0 \<le> row + j" "row + j < ht + 7" using assms by simp_all
  have b: "s - 3 * src_strd + (row + j) * src_strd + col = s + (row + j - 3) * src_strd + col" by (simp add: algebra_simps)
  show ?thesis
    unfolding a ihevc_inter_pred_luma_horz_w16out_def store_block_strd [OF assms(2) r assms(5,6)] b
    using sint_mac16 [OF luma_filter_good [OF assms(1)]] uint8_bounds by simp
qed

lemma luma_second_pass_range:
  fixes src :: mem8
  assumes "fx \<in> set gai1_ihevc_luma_filter" "fy \<in> set gai1_ihevc_luma_filter"
  shows "- 1077120 \<le> fir 8 fy (\<lambda>j. fir 8 fx (\<lambda>i. uint (src (a j i))))" "fir 8 fy (\<lambda>j. fir 8 fx (\<lambda>i. uint (src (a j i)))) \<le> 2121600"
proof -
  have "- 6120 \<le> fir 8 fx (\<lambda>i. uint (src (a j i))) \<and> fir 8 fx (\<lambda>i. uint (src (a j i))) \<le> 22440" for j
    using fir8_range [OF luma_filter_good [OF assms(1)] _ order_refl] uint8_bounds by simp
  from fir16_range [where x = "\<lambda>j. fir 8 fx (\<lambda>i. uint (src (a j i)))", OF luma_filter_good [OF assms(2)] this]
  show "- 1077120 \<le> fir 8 fy (\<lambda>j. fir 8 fx (\<lambda>i. uint (src (a j i))))" "fir 8 fy (\<lambda>j. fir 8 fx (\<lambda>i. uint (src (a j i)))) \<le> 2121600"
    by simp_all
qed

lemma sint_less_offset14: "- 1077120 \<le> x \<Longrightarrow> x \<le> 2121600 \<Longrightarrow> sint (word_of_int (x div 64 - 8192) :: 16 word) = x div 64 - 8192"
  by (rule sint_s16) linarith+

section \<open>Properties\<close>

text \<open>
  One-pass luma interpolation is exact: for every filter of the table and any 8-bit samples the
  16-bit accumulator does not wrap, so each sample of the block is the exact filtered value,
  rounded and clipped, along rows and along columns, and the 16-bit outputs are the exact sums.
\<close>

theorem inter_pred_luma_exact:
  fixes s src_strd :: int
  assumes "f \<in> set gai1_ihevc_luma_filter" "wd \<le> dst_strd" "0 \<le> row" "row < ht" "0 \<le> col" "col < wd"
  defines "at \<equiv> s + row * src_strd + col"
  shows "uint (ihevc_inter_pred_luma_horz src s dst d src_strd dst_strd f ht wd (d + row * dst_strd + col)) =
      CLIP_U8 ((fir 8 f (\<lambda>i. uint (src (at + (i - 3)))) + 32) div 64) \<and>
    uint (ihevc_inter_pred_luma_vert src s dst d src_strd dst_strd f ht wd (d + row * dst_strd + col)) =
      CLIP_U8 ((fir 8 f (\<lambda>i. uint (src (at + (i - 3) * src_strd))) + 32) div 64) \<and>
    sint (ihevc_inter_pred_luma_horz_w16out src s dst16 d src_strd dst_strd f ht wd (d + row * dst_strd + col)) =
      fir 8 f (\<lambda>i. uint (src (at + (i - 3)))) \<and>
    sint (ihevc_inter_pred_luma_vert_w16out src s dst16 d src_strd dst_strd f ht wd (d + row * dst_strd + col)) =
      fir 8 f (\<lambda>i. uint (src (at + (i - 3) * src_strd)))"
proof -
  note g = luma_filter_good [OF assms(1)]
  note st = store_block_strd [OF assms(2-6)]
  show ?thesis
    unfolding ihevc_inter_pred_luma_horz_def ihevc_inter_pred_luma_vert_def ihevc_inter_pred_luma_horz_w16out_def
      ihevc_inter_pred_luma_vert_w16out_def st at_def
    using round6_exact [OF g] sint_mac16 [OF g] uint8_bounds by simp
qed

lemma inter_pred_luma_exact_witness:
  "uint (ihevc_inter_pred_luma_horz (\<lambda>a. word_of_int a) 10 (\<lambda>_. 0) 0 32 16 [-1, 4, -11, 40, 40, -11, 4, -1] 4 8 (0 + 1 * 16 + 2)) =
      CLIP_U8 ((fir 8 [-1, 4, -11, 40, 40, -11, 4, -1] (\<lambda>i. uint (word_of_int (10 + 1 * 32 + 2 + (i - 3)) :: 8 word)) + 32) div 64)"
  by (rule inter_pred_luma_exact [THEN conjunct1]) (simp_all add: gai1_ihevc_luma_filter_def)

text \<open>
  C16: Two-pass luma interpolation is the separable filter: filtering the rows of a block extended by
  seven rows into 16-bit values and then their columns gives the exact two-dimensional sum, scaled,
  rounded and clipped; the 16-bit result for a later weighting holds it less the offset 8192, which
  it needs to fit.
\<close>

theorem inter_pred_luma_2d_exact:
  fixes src :: mem8 and tmp :: mem16 and s src_strd t :: int
  assumes "fx \<in> set gai1_ihevc_luma_filter" "fy \<in> set gai1_ihevc_luma_filter" "wd \<le> tmp_strd" "wd \<le> dst_strd"
    and "0 \<le> row" "row < ht" "0 \<le> col" "col < wd"
  defines "tmp' \<equiv> ihevc_inter_pred_luma_horz_w16out src (s - 3 * src_strd) tmp t src_strd tmp_strd fx (ht + 7) wd"
    and "sum2 \<equiv> fir 8 fy (\<lambda>j. fir 8 fx (\<lambda>i. uint (src (s + (row + j - 3) * src_strd + col + (i - 3)))))"
  shows "uint (ihevc_inter_pred_luma_vert_w16inp tmp' (t + 3 * tmp_strd) dst d tmp_strd dst_strd fy ht wd (d + row * dst_strd + col)) =
      CLIP_U8 ((sum2 div 64 + 32) div 64) \<and>
    sint (ihevc_inter_pred_luma_vert_w16inp_w16out tmp' (t + 3 * tmp_strd) dst16 d tmp_strd dst_strd fy ht wd
      (d + row * dst_strd + col)) = sum2 div 64 - 8192"
proof -
  have second: "mac32 8 (\<lambda>i. fy ! nat i * sint (tmp' (t + 3 * tmp_strd + row * tmp_strd + col + (i - 3) * tmp_strd))) = sum2"
    unfolding sum2_def tmp'_def mac32_fir [of 8, simplified]
    by (simp add: fir_def luma_first_pass [OF assms(1,3,5-8)])
  note rng = luma_second_pass_range [OF assms(1,2), where src = src and a = "\<lambda>j i. s + (row + j - 3) * src_strd + col + (i - 3)"]
  show ?thesis
    unfolding ihevc_inter_pred_luma_vert_w16inp_def ihevc_inter_pred_luma_vert_w16inp_w16out_def
      store_block_strd [OF assms(4-8)] second sint_less_offset14 [OF rng [folded sum2_def]]
    by (simp add: round6_w16inp_def)
qed

lemma inter_pred_luma_2d_exact_witness:
  "uint (ihevc_inter_pred_luma_vert_w16inp
      (ihevc_inter_pred_luma_horz_w16out (\<lambda>a. word_of_int a) (500 - 3 * 32) (\<lambda>_. 0) 0 32 8 [-1, 4, -10, 58, 17, -5, 1, 0] (4 + 7) 8)
      (0 + 3 * 8) (\<lambda>_. 0) 0 8 16 [-1, 4, -11, 40, 40, -11, 4, -1] 4 8 (0 + 2 * 16 + 5)) =
    CLIP_U8 ((fir 8 [-1, 4, -11, 40, 40, -11, 4, -1] (\<lambda>j. fir 8 [-1, 4, -10, 58, 17, -5, 1, 0]
      (\<lambda>i. uint (word_of_int (500 + (2 + j - 3) * 32 + 5 + (i - 3)) :: 8 word))) div 64 + 32) div 64)"
  by (rule inter_pred_luma_2d_exact [THEN conjunct1]) (simp_all add: gai1_ihevc_luma_filter_def)



end
