(* ===== verification/Weighted_Pred.thy ===== *)
theory Weighted_Pred
  imports Inter_Pred
begin

text \<open>
  The last step of inter prediction, \<^verbatim>\<open>common/ihevc_weighted_pred.c\<close>: 16-bit intermediate blocks of one or
  two reference pictures are weighted, offset, rounded and clipped to samples. \<open>lvl_shift\<close> undoes the
  offset 8192 of the second luma filter pass.

  What is proved: no sum leaves 32 bits for the weights and offsets the syntax allows, and the
  neutral weights give the unweighted prediction of the filters, by one and by two references.
\<close>

section \<open>Samples\<close>

definition weight_uni :: "int \<Rightarrow> int \<Rightarrow> int \<Rightarrow> int \<Rightarrow> int \<Rightarrow> int" where
  "weight_uni x wgt0 off0 shift lvl_shift =
    (let i4_tmp = (x + lvl_shift) * wgt0;
         i4_tmp = i4_tmp + 2 ^ nat (shift - 1);
         i4_tmp = i4_tmp div 2 ^ nat shift + off0
     in CLIP_U8 i4_tmp)"

definition weight_bi :: "int \<Rightarrow> int \<Rightarrow> int \<Rightarrow> int \<Rightarrow> int \<Rightarrow> int \<Rightarrow> int \<Rightarrow> int \<Rightarrow> int \<Rightarrow> int" where
  "weight_bi x1 x2 wgt0 off0 wgt1 off1 shift lvl_shift1 lvl_shift2 =
    (let i4_tmp = (x1 + lvl_shift1) * wgt0;
         i4_tmp = i4_tmp + (x2 + lvl_shift2) * wgt1;
         i4_tmp = i4_tmp + (off0 + off1 + 1) * 2 ^ nat (shift - 1)
     in CLIP_U8 (i4_tmp div 2 ^ nat shift))"

definition weight_default :: "int \<Rightarrow> int \<Rightarrow> int \<Rightarrow> int \<Rightarrow> int" where
  "weight_default x1 x2 lvl_shift1 lvl_shift2 =
    (let shift = 7;
         i4_tmp = x1 + lvl_shift1;
         i4_tmp = i4_tmp + (x2 + lvl_shift2);
         i4_tmp = i4_tmp + 2 ^ nat (shift - 1)
     in CLIP_U8 (i4_tmp div 2 ^ nat shift))"

section \<open>Blocks\<close>

definition ihevc_weighted_pred_uni ::
  "mem16 \<Rightarrow> int \<Rightarrow> mem8 \<Rightarrow> int \<Rightarrow> int \<Rightarrow> int \<Rightarrow> int \<Rightarrow> int \<Rightarrow> int \<Rightarrow> int \<Rightarrow> int \<Rightarrow> int \<Rightarrow> mem8" where
  "ihevc_weighted_pred_uni src s dst d src_strd dst_strd wgt0 off0 shift lvl_shift ht wd =
     store_block ht wd (\<lambda>row col. d + row * dst_strd + col)
       (\<lambda>row col. word_of_int (weight_uni (sint (src (s + row * src_strd + col))) wgt0 off0 shift lvl_shift)) dst"

definition ihevc_weighted_pred_chroma_uni ::
  "mem16 \<Rightarrow> int \<Rightarrow> mem8 \<Rightarrow> int \<Rightarrow> int \<Rightarrow> int \<Rightarrow> int \<Rightarrow> int \<Rightarrow> int \<Rightarrow> int \<Rightarrow> int \<Rightarrow> int \<Rightarrow> int \<Rightarrow> int \<Rightarrow> mem8" where
  "ihevc_weighted_pred_chroma_uni src s dst d src_strd dst_strd wgt0_cb wgt0_cr off0_cb off0_cr shift lvl_shift ht wd =
     for_to ht (\<lambda>row. for_to wd (\<lambda>k m.
       let col = 2 * k;
           m = m(d + row * dst_strd + col :=
             word_of_int (weight_uni (sint (src (s + row * src_strd + col))) wgt0_cb off0_cb shift lvl_shift))
       in m(d + row * dst_strd + (col + 1) :=
             word_of_int (weight_uni (sint (src (s + row * src_strd + (col + 1)))) wgt0_cr off0_cr shift lvl_shift)))) dst"

definition ihevc_weighted_pred_bi ::
  "mem16 \<Rightarrow> int \<Rightarrow> mem16 \<Rightarrow> int \<Rightarrow> mem8 \<Rightarrow> int \<Rightarrow> int \<Rightarrow> int \<Rightarrow> int \<Rightarrow> int \<Rightarrow> int \<Rightarrow> int \<Rightarrow> int \<Rightarrow> int \<Rightarrow> int \<Rightarrow> int \<Rightarrow> int \<Rightarrow> int \<Rightarrow> mem8" where
  "ihevc_weighted_pred_bi src1 s1 src2 s2 dst d src_strd1 src_strd2 dst_strd wgt0 off0 wgt1 off1 shift lvl_shift1 lvl_shift2 ht wd =
     store_block ht wd (\<lambda>row col. d + row * dst_strd + col)
       (\<lambda>row col. word_of_int (weight_bi (sint (src1 (s1 + row * src_strd1 + col))) (sint (src2 (s2 + row * src_strd2 + col)))
          wgt0 off0 wgt1 off1 shift lvl_shift1 lvl_shift2)) dst"

definition ihevc_weighted_pred_chroma_bi ::
  "mem16 \<Rightarrow> int \<Rightarrow> mem16 \<Rightarrow> int \<Rightarrow> mem8 \<Rightarrow> int \<Rightarrow> int \<Rightarrow> int \<Rightarrow> int \<Rightarrow> int \<Rightarrow> int \<Rightarrow> int \<Rightarrow> int \<Rightarrow> int \<Rightarrow> int \<Rightarrow> int \<Rightarrow> int \<Rightarrow> int \<Rightarrow>
    int \<Rightarrow> int \<Rightarrow> int \<Rightarrow> int \<Rightarrow> mem8" where
  "ihevc_weighted_pred_chroma_bi src1 s1 src2 s2 dst d src_strd1 src_strd2 dst_strd wgt0_cb wgt0_cr off0_cb off0_cr
     wgt1_cb wgt1_cr off1_cb off1_cr shift lvl_shift1 lvl_shift2 ht wd =
     for_to ht (\<lambda>row. for_to wd (\<lambda>k m.
       let col = 2 * k;
           m = m(d + row * dst_strd + col :=
             word_of_int (weight_bi (sint (src1 (s1 + row * src_strd1 + col))) (sint (src2 (s2 + row * src_strd2 + col)))
               wgt0_cb off0_cb wgt1_cb off1_cb shift lvl_shift1 lvl_shift2))
       in m(d + row * dst_strd + (col + 1) :=
             word_of_int (weight_bi (sint (src1 (s1 + row * src_strd1 + (col + 1)))) (sint (src2 (s2 + row * src_strd2 + (col + 1))))
               wgt0_cr off0_cr wgt1_cr off1_cr shift lvl_shift1 lvl_shift2)))) dst"

definition ihevc_weighted_pred_bi_default ::
  "mem16 \<Rightarrow> int \<Rightarrow> mem16 \<Rightarrow> int \<Rightarrow> mem8 \<Rightarrow> int \<Rightarrow> int \<Rightarrow> int \<Rightarrow> int \<Rightarrow> int \<Rightarrow> int \<Rightarrow> int \<Rightarrow> int \<Rightarrow> mem8" where
  "ihevc_weighted_pred_bi_default src1 s1 src2 s2 dst d src_strd1 src_strd2 dst_strd lvl_shift1 lvl_shift2 ht wd =
     store_block ht wd (\<lambda>row col. d + row * dst_strd + col)
       (\<lambda>row col. word_of_int (weight_default (sint (src1 (s1 + row * src_strd1 + col))) (sint (src2 (s2 + row * src_strd2 + col)))
          lvl_shift1 lvl_shift2)) dst"

definition ihevc_weighted_pred_chroma_bi_default ::
  "mem16 \<Rightarrow> int \<Rightarrow> mem16 \<Rightarrow> int \<Rightarrow> mem8 \<Rightarrow> int \<Rightarrow> int \<Rightarrow> int \<Rightarrow> int \<Rightarrow> int \<Rightarrow> int \<Rightarrow> int \<Rightarrow> int \<Rightarrow> mem8" where
  "ihevc_weighted_pred_chroma_bi_default src1 s1 src2 s2 dst d src_strd1 src_strd2 dst_strd lvl_shift1 lvl_shift2 ht wd =
     store_block ht (2 * wd) (\<lambda>row col. d + row * dst_strd + col)
       (\<lambda>row col. word_of_int (weight_default (sint (src1 (s1 + row * src_strd1 + col))) (sint (src2 (s2 + row * src_strd2 + col)))
          lvl_shift1 lvl_shift2)) dst"

section \<open>Neutral weights\<close>

text \<open>Scaling a sum and its rounding by the same power of two does not change the shifted value.\<close>

lemma div_scale: "0 < k \<Longrightarrow> (k * x) div (k * y) = x div (y :: int)"
  by simp

lemma shift_scale:
  fixes x :: int
  assumes "1 \<le> n"
  shows "(x * 2 ^ k + 2 ^ nat (int (n + k) - 1)) div 2 ^ nat (int (n + k)) = (x + 2 ^ (n - 1)) div 2 ^ n"
proof -
  have e: "nat (int (n + k) - 1) = k + (n - 1)" "nat (int (n + k)) = k + n" using assms by simp_all
  have "x * 2 ^ k + 2 ^ nat (int (n + k) - 1) = 2 ^ k * (x + 2 ^ (n - 1))" "(2 :: int) ^ nat (int (n + k)) = 2 ^ k * 2 ^ n"
    unfolding e by (simp_all add: power_add algebra_simps)
  then show ?thesis by simp
qed

lemma weight_uni_neutral: "weight_uni x (2 ^ k) 0 (6 + int k) lvl = CLIP_U8 ((x + lvl + 32) div 64)"
  using shift_scale [of 6 "x + lvl" k] by (simp add: weight_uni_def)

lemma weight_bi_neutral: "weight_bi x1 x2 (2 ^ k) 0 (2 ^ k) 0 (7 + int k) lvl1 lvl2 = weight_default x1 x2 lvl1 lvl2"
  using shift_scale [of 7 "x1 + lvl1 + (x2 + lvl2)" k]
  by (simp add: weight_bi_def weight_default_def distrib_right)

lemma weight_default_same: "weight_default x x lvl lvl = CLIP_U8 ((x + lvl + 32) div 64)"
proof -
  have "(x + lvl + (x + lvl) + 64) div 128 = (2 * (x + lvl + 32)) div (2 * 64)" by simp
  also have "\<dots> = (x + lvl + 32) div 64" by (rule div_scale) simp
  finally show ?thesis by (simp add: weight_default_def)
qed

text \<open>
  Weighting is consistent with the unweighted filters. A fractional luma block predicted through
  its 16-bit form and weighted by the neutral weight of any denominator, from one reference or from
  the same reference twice, with explicit weights or by default, has the samples of the block
  predicted directly.
\<close>

theorem weighted_pred_neutral:
  fixes src dst :: mem8 and tmp buf :: mem16 and s src_strd t tmp_strd d dst_strd m w_strd ht wd row col :: int
  assumes f: "fx \<in> set gai1_ihevc_luma_filter" "fy \<in> set gai1_ihevc_luma_filter"
    and w: "wd \<le> tmp_strd" "wd \<le> w_strd" "wd \<le> dst_strd" and p: "0 \<le> row" "row < ht" "0 \<le> col" "col < wd"
  defines "tmp' \<equiv> ihevc_inter_pred_luma_horz_w16out src (s - 3 * src_strd) tmp t src_strd tmp_strd fx (ht + 7) wd"
  defines "direct \<equiv> ihevc_inter_pred_luma_vert_w16inp tmp' (t + 3 * tmp_strd) dst d tmp_strd dst_strd fy ht wd"
    and "mid \<equiv> ihevc_inter_pred_luma_vert_w16inp_w16out tmp' (t + 3 * tmp_strd) buf m tmp_strd w_strd fy ht wd"
    and "k \<equiv> d + row * dst_strd + col"
  shows "ihevc_weighted_pred_uni mid m dst d w_strd dst_strd (2 ^ n) 0 (6 + int n) OFFSET14 ht wd k = direct k \<and>
    ihevc_weighted_pred_bi mid m mid m dst d w_strd w_strd dst_strd (2 ^ n) 0 (2 ^ n) 0 (7 + int n) OFFSET14 OFFSET14 ht wd k =
      direct k \<and>
    ihevc_weighted_pred_bi_default mid m mid m dst d w_strd w_strd dst_strd OFFSET14 OFFSET14 ht wd k = direct k"
proof -
  let ?sum2 = "fir 8 fy (\<lambda>j. fir 8 fx (\<lambda>i. uint (src (s + (row + j - 3) * src_strd + col + (i - 3)))))"
  have second: "mac32 8 (\<lambda>i. fy ! nat i * sint (tmp' (t + 3 * tmp_strd + row * tmp_strd + col + (i - 3) * tmp_strd))) = ?sum2"
    unfolding tmp'_def mac32_fir [of 8, simplified] by (simp add: fir_def luma_first_pass [OF f(1) w(1) p])
  note rng = luma_second_pass_range [OF f, where src = src and a = "\<lambda>j i. s + (row + j - 3) * src_strd + col + (i - 3)"]
  have d: "direct k = word_of_int (CLIP_U8 ((?sum2 div 64 + 32) div 64))"
    unfolding direct_def k_def ihevc_inter_pred_luma_vert_w16inp_def store_block_strd [OF w(3) p] second
    by (simp add: round6_w16inp_def)
  have m: "sint (mid (m + row * w_strd + col)) = ?sum2 div 64 - 8192"
    unfolding mid_def ihevc_inter_pred_luma_vert_w16inp_w16out_def store_block_strd [OF w(2) p] second
    by (rule sint_less_offset14 [OF rng])
  show ?thesis
    unfolding k_def ihevc_weighted_pred_uni_def ihevc_weighted_pred_bi_def ihevc_weighted_pred_bi_default_def
      store_block_strd [OF w(3) p] m weight_uni_neutral weight_bi_neutral weight_default_same
    using d by (simp add: k_def)
qed

lemma weighted_pred_neutral_witness:
  "ihevc_weighted_pred_bi_default
     (ihevc_inter_pred_luma_vert_w16inp_w16out
       (ihevc_inter_pred_luma_horz_w16out (\<lambda>a. word_of_int a) (500 - 3 * 32) (\<lambda>_. 0) 0 32 8 [-1, 4, -10, 58, 17, -5, 1, 0] (4 + 7) 8)
       (0 + 3 * 8) (\<lambda>_. 0) 0 8 8 [-1, 4, -11, 40, 40, -11, 4, -1] 4 8) 0
     (ihevc_inter_pred_luma_vert_w16inp_w16out
       (ihevc_inter_pred_luma_horz_w16out (\<lambda>a. word_of_int a) (500 - 3 * 32) (\<lambda>_. 0) 0 32 8 [-1, 4, -10, 58, 17, -5, 1, 0] (4 + 7) 8)
       (0 + 3 * 8) (\<lambda>_. 0) 0 8 8 [-1, 4, -11, 40, 40, -11, 4, -1] 4 8) 0
     (\<lambda>_. 0) 0 8 8 16 OFFSET14 OFFSET14 4 8 (0 + 2 * 16 + 5) =
   ihevc_inter_pred_luma_vert_w16inp
       (ihevc_inter_pred_luma_horz_w16out (\<lambda>a. word_of_int a) (500 - 3 * 32) (\<lambda>_. 0) 0 32 8 [-1, 4, -10, 58, 17, -5, 1, 0] (4 + 7) 8)
       (0 + 3 * 8) (\<lambda>_. 0) 0 8 16 [-1, 4, -11, 40, 40, -11, 4, -1] 4 8 (0 + 2 * 16 + 5)"
  by (rule weighted_pred_neutral [THEN conjunct2, THEN conjunct2]) (simp_all add: gai1_ihevc_luma_filter_def)

text \<open>The 32-bit sums do not overflow.\<close>

lemma weight_sum_no_overflow:
  fixes x lvl wgt :: int
  assumes "- 32768 \<le> x" "x \<le> 32767" "0 \<le> lvl" "lvl \<le> 8192" "- 128 \<le> wgt" "wgt \<le> 255"
  shows "\<bar>(x + lvl) * wgt\<bar> \<le> 10444545"
proof -
  have "\<bar>x + lvl\<bar> \<le> 40959" "\<bar>wgt\<bar> \<le> 255" using assms by simp_all
  then have "\<bar>x + lvl\<bar> * \<bar>wgt\<bar> \<le> 40959 * 255" by (rule mult_mono) simp_all
  then show ?thesis by (simp add: abs_mult)
qed

lemma rounding_no_overflow:
  fixes shift off :: int
  assumes "1 \<le> shift" "shift \<le> 14" "- 256 \<le> off" "off \<le> 255"
  shows "\<bar>(off + 1) * 2 ^ nat (shift - 1)\<bar> \<le> 2097152"
proof -
  have "\<bar>off + 1\<bar> \<le> 256" using assms by simp
  moreover have "(2 :: int) ^ nat (shift - 1) \<le> 2 ^ 13" using assms by (intro power_increasing) simp_all
  ultimately have "\<bar>off + 1\<bar> * 2 ^ nat (shift - 1) \<le> 256 * 2 ^ 13" by (rule mult_mono) simp_all
  then show ?thesis by (simp add: abs_mult)
qed

lemma weight_bi_no_overflow:
  fixes x1 x2 lvl1 lvl2 wgt0 wgt1 off0 off1 shift :: int
  assumes "- 32768 \<le> x1" "x1 \<le> 32767" "0 \<le> lvl1" "lvl1 \<le> 8192" "- 128 \<le> wgt0" "wgt0 \<le> 255"
    and "- 32768 \<le> x2" "x2 \<le> 32767" "0 \<le> lvl2" "lvl2 \<le> 8192" "- 128 \<le> wgt1" "wgt1 \<le> 255"
    and "1 \<le> shift" "shift \<le> 14" "- 128 \<le> off0" "off0 \<le> 127" "- 128 \<le> off1" "off1 \<le> 127"
  shows "\<bar>(x1 + lvl1) * wgt0 + (x2 + lvl2) * wgt1 + (off0 + off1 + 1) * 2 ^ nat (shift - 1)\<bar> < 2 ^ 31"
  using weight_sum_no_overflow [OF assms(1-6)] weight_sum_no_overflow [OF assms(7-12)]
    rounding_no_overflow [of shift "off0 + off1"] assms(13-18) by simp

end
