(* ===== verification/Transform.thy ===== *)
theory Transform
  imports Samples
begin

text \<open>
  The one-dimensional inverse transforms shared by the reconstruction routines of
  \<^verbatim>\<open>common/ihevc_*itrans*.c\<close>: the matrices of \<^verbatim>\<open>ihevc_trans_tables.c\<close> and the partial butterflies,
  which use the symmetry of the matrices and read only the first 4 or 8 coefficients when a mask
  says that the others are zero.

  What is proved: a butterfly computes the product with the matrix, and no sum leaves 32 bits.
\<close>

section \<open>Matrices\<close>

definition g_ai2_ihevc_trans_dst_4 :: "int list list" where
  "g_ai2_ihevc_trans_dst_4 =
    [[29, 55, 74, 84],
     [74, 74, 0, -74],
     [84, -29, -74, 55],
     [55, -84, 74, -29]]"

definition g_ai2_ihevc_trans_4 :: "int list list" where
  "g_ai2_ihevc_trans_4 =
    [[64, 64, 64, 64],
     [83, 36, -36, -83],
     [64, -64, -64, 64],
     [36, -83, 83, -36]]"

definition g_ai2_ihevc_trans_8 :: "int list list" where
  "g_ai2_ihevc_trans_8 =
    [[64, 64, 64, 64, 64, 64, 64, 64],
     [89, 75, 50, 18, -18, -50, -75, -89],
     [83, 36, -36, -83, -83, -36, 36, 83],
     [75, -18, -89, -50, 50, 89, 18, -75],
     [64, -64, -64, 64, 64, -64, -64, 64],
     [50, -89, 18, 75, -75, -18, 89, -50],
     [36, -83, 83, -36, -36, 83, -83, 36],
     [18, -50, 75, -89, 89, -75, 50, -18]]"

definition g_ai2_ihevc_trans_16 :: "int list list" where
  "g_ai2_ihevc_trans_16 =
    [[64, 64, 64, 64, 64, 64, 64, 64, 64, 64, 64, 64, 64, 64, 64, 64],
     [90, 87, 80, 70, 57, 43, 25, 9, -9, -25, -43, -57, -70, -80, -87, -90],
     [89, 75, 50, 18, -18, -50, -75, -89, -89, -75, -50, -18, 18, 50, 75, 89],
     [87, 57, 9, -43, -80, -90, -70, -25, 25, 70, 90, 80, 43, -9, -57, -87],
     [83, 36, -36, -83, -83, -36, 36, 83, 83, 36, -36, -83, -83, -36, 36, 83],
     [80, 9, -70, -87, -25, 57, 90, 43, -43, -90, -57, 25, 87, 70, -9, -80],
     [75, -18, -89, -50, 50, 89, 18, -75, -75, 18, 89, 50, -50, -89, -18, 75],
     [70, -43, -87, 9, 90, 25, -80, -57, 57, 80, -25, -90, -9, 87, 43, -70],
     [64, -64, -64, 64, 64, -64, -64, 64, 64, -64, -64, 64, 64, -64, -64, 64],
     [57, -80, -25, 90, -9, -87, 43, 70, -70, -43, 87, 9, -90, 25, 80, -57],
     [50, -89, 18, 75, -75, -18, 89, -50, -50, 89, -18, -75, 75, 18, -89, 50],
     [43, -90, 57, 25, -87, 70, 9, -80, 80, -9, -70, 87, -25, -57, 90, -43],
     [36, -83, 83, -36, -36, 83, -83, 36, 36, -83, 83, -36, -36, 83, -83, 36],
     [25, -70, 90, -80, 43, 9, -57, 87, -87, 57, -9, -43, 80, -90, 70, -25],
     [18, -50, 75, -89, 89, -75, 50, -18, -18, 50, -75, 89, -89, 75, -50, 18],
     [9, -25, 43, -57, 70, -80, 87, -90, 90, -87, 80, -70, 57, -43, 25, -9]]"

definition g_ai2_ihevc_trans_32 :: "int list list" where
  "g_ai2_ihevc_trans_32 =
    [[64, 64, 64, 64, 64, 64, 64, 64, 64, 64, 64, 64, 64, 64, 64, 64, 64, 64, 64, 64, 64, 64, 64, 64, 64, 64, 64, 64, 64, 64, 64, 64],
     [90, 90, 88, 85, 82, 78, 73, 67, 61, 54, 46, 38, 31, 22, 13, 4, -4, -13, -22, -31, -38, -46, -54, -61, -67, -73, -78, -82, -85, -88, -90, -90],
     [90, 87, 80, 70, 57, 43, 25, 9, -9, -25, -43, -57, -70, -80, -87, -90, -90, -87, -80, -70, -57, -43, -25, -9, 9, 25, 43, 57, 70, 80, 87, 90],
     [90, 82, 67, 46, 22, -4, -31, -54, -73, -85, -90, -88, -78, -61, -38, -13, 13, 38, 61, 78, 88, 90, 85, 73, 54, 31, 4, -22, -46, -67, -82, -90],
     [89, 75, 50, 18, -18, -50, -75, -89, -89, -75, -50, -18, 18, 50, 75, 89, 89, 75, 50, 18, -18, -50, -75, -89, -89, -75, -50, -18, 18, 50, 75, 89],
     [88, 67, 31, -13, -54, -82, -90, -78, -46, -4, 38, 73, 90, 85, 61, 22, -22, -61, -85, -90, -73, -38, 4, 46, 78, 90, 82, 54, 13, -31, -67, -88],
     [87, 57, 9, -43, -80, -90, -70, -25, 25, 70, 90, 80, 43, -9, -57, -87, -87, -57, -9, 43, 80, 90, 70, 25, -25, -70, -90, -80, -43, 9, 57, 87],
     [85, 46, -13, -67, -90, -73, -22, 38, 82, 88, 54, -4, -61, -90, -78, -31, 31, 78, 90, 61, 4, -54, -88, -82, -38, 22, 73, 90, 67, 13, -46, -85],
     [83, 36, -36, -83, -83, -36, 36, 83, 83, 36, -36, -83, -83, -36, 36, 83, 83, 36, -36, -83, -83, -36, 36, 83, 83, 36, -36, -83, -83, -36, 36, 83],
     [82, 22, -54, -90, -61, 13, 78, 85, 31, -46, -90, -67, 4, 73, 88, 38, -38, -88, -73, -4, 67, 90, 46, -31, -85, -78, -13, 61, 90, 54, -22, -82],
     [80, 9, -70, -87, -25, 57, 90, 43, -43, -90, -57, 25, 87, 70, -9, -80, -80, -9, 70, 87, 25, -57, -90, -43, 43, 90, 57, -25, -87, -70, 9, 80],
     [78, -4, -82, -73, 13, 85, 67, -22, -88, -61, 31, 90, 54, -38, -90, -46, 46, 90, 38, -54, -90, -31, 61, 88, 22, -67, -85, -13, 73, 82, 4, -78],
     [75, -18, -89, -50, 50, 89, 18, -75, -75, 18, 89, 50, -50, -89, -18, 75, 75, -18, -89, -50, 50, 89, 18, -75, -75, 18, 89, 50, -50, -89, -18, 75],
     [73, -31, -90, -22, 78, 67, -38, -90, -13, 82, 61, -46, -88, -4, 85, 54, -54, -85, 4, 88, 46, -61, -82, 13, 90, 38, -67, -78, 22, 90, 31, -73],
     [70, -43, -87, 9, 90, 25, -80, -57, 57, 80, -25, -90, -9, 87, 43, -70, -70, 43, 87, -9, -90, -25, 80, 57, -57, -80, 25, 90, 9, -87, -43, 70],
     [67, -54, -78, 38, 85, -22, -90, 4, 90, 13, -88, -31, 82, 46, -73, -61, 61, 73, -46, -82, 31, 88, -13, -90, -4, 90, 22, -85, -38, 78, 54, -67],
     [64, -64, -64, 64, 64, -64, -64, 64, 64, -64, -64, 64, 64, -64, -64, 64, 64, -64, -64, 64, 64, -64, -64, 64, 64, -64, -64, 64, 64, -64, -64, 64],
     [61, -73, -46, 82, 31, -88, -13, 90, -4, -90, 22, 85, -38, -78, 54, 67, -67, -54, 78, 38, -85, -22, 90, 4, -90, 13, 88, -31, -82, 46, 73, -61],
     [57, -80, -25, 90, -9, -87, 43, 70, -70, -43, 87, 9, -90, 25, 80, -57, -57, 80, 25, -90, 9, 87, -43, -70, 70, 43, -87, -9, 90, -25, -80, 57],
     [54, -85, -4, 88, -46, -61, 82, 13, -90, 38, 67, -78, -22, 90, -31, -73, 73, 31, -90, 22, 78, -67, -38, 90, -13, -82, 61, 46, -88, 4, 85, -54],
     [50, -89, 18, 75, -75, -18, 89, -50, -50, 89, -18, -75, 75, 18, -89, 50, 50, -89, 18, 75, -75, -18, 89, -50, -50, 89, -18, -75, 75, 18, -89, 50],
     [46, -90, 38, 54, -90, 31, 61, -88, 22, 67, -85, 13, 73, -82, 4, 78, -78, -4, 82, -73, -13, 85, -67, -22, 88, -61, -31, 90, -54, -38, 90, -46],
     [43, -90, 57, 25, -87, 70, 9, -80, 80, -9, -70, 87, -25, -57, 90, -43, -43, 90, -57, -25, 87, -70, -9, 80, -80, 9, 70, -87, 25, 57, -90, 43],
     [38, -88, 73, -4, -67, 90, -46, -31, 85, -78, 13, 61, -90, 54, 22, -82, 82, -22, -54, 90, -61, -13, 78, -85, 31, 46, -90, 67, 4, -73, 88, -38],
     [36, -83, 83, -36, -36, 83, -83, 36, 36, -83, 83, -36, -36, 83, -83, 36, 36, -83, 83, -36, -36, 83, -83, 36, 36, -83, 83, -36, -36, 83, -83, 36],
     [31, -78, 90, -61, 4, 54, -88, 82, -38, -22, 73, -90, 67, -13, -46, 85, -85, 46, 13, -67, 90, -73, 22, 38, -82, 88, -54, -4, 61, -90, 78, -31],
     [25, -70, 90, -80, 43, 9, -57, 87, -87, 57, -9, -43, 80, -90, 70, -25, -25, 70, -90, 80, -43, -9, 57, -87, 87, -57, 9, 43, -80, 90, -70, 25],
     [22, -61, 85, -90, 73, -38, -4, 46, -78, 90, -82, 54, -13, -31, 67, -88, 88, -67, 31, 13, -54, 82, -90, 78, -46, 4, 38, -73, 90, -85, 61, -22],
     [18, -50, 75, -89, 89, -75, 50, -18, -18, 50, -75, 89, -89, 75, -50, 18, 18, -50, 75, -89, 89, -75, 50, -18, -18, 50, -75, 89, -89, 75, -50, 18],
     [13, -38, 61, -78, 88, -90, 85, -73, 54, -31, 4, 22, -46, 67, -82, 90, -90, 82, -67, 46, -22, -4, 31, -54, 73, -85, 90, -88, 78, -61, 38, -13],
     [9, -25, 43, -57, 70, -80, 87, -90, 90, -87, 80, -70, 57, -43, 25, -9, -9, 25, -43, 57, -70, 80, -87, 90, -90, 87, -80, 70, -57, 43, -25, 9],
     [4, -13, 22, -31, 38, -46, 54, -61, 67, -73, 78, -82, 85, -88, 90, -90, 90, -90, 88, -85, 82, -78, 73, -67, 61, -54, 46, -38, 31, -22, 13, -4]]"
section \<open>Butterflies\<close>

text \<open>A sum of the products the code writes out: \<open>is\<close> are the rows of the matrix, \<open>k\<close> the column.\<close>

definition dot :: "int list list \<Rightarrow> nat list \<Rightarrow> (int \<Rightarrow> int) \<Rightarrow> nat \<Rightarrow> int" where
  "dot M is x k = sum_list (map (\<lambda>i. M ! i ! k * x (int i)) is)"

text \<open>The sums and differences of a level: \<open>e[k] + o[k]\<close>, then \<open>e[n - 1 - k] - o[n - 1 - k]\<close>.\<close>

definition fly :: "nat \<Rightarrow> int list \<Rightarrow> int list \<Rightarrow> int list" where
  "fly n e od = map (\<lambda>k. e ! k + od ! k) [0 ..< n] @ map (\<lambda>k. e ! (n - 1 - k) - od ! (n - 1 - k)) [0 ..< n]"

text \<open>The terms of a level read only the first \<open>lim\<close> coefficients.\<close>

definition level :: "int list list \<Rightarrow> nat list \<Rightarrow> nat \<Rightarrow> (int \<Rightarrow> int) \<Rightarrow> nat \<Rightarrow> int list" where
  "level M is lim x n = map (dot M (filter (\<lambda>i. i < lim) is) x) [0 ..< n]"

definition itrans_1d_dst :: "nat \<Rightarrow> (int \<Rightarrow> int) \<Rightarrow> int list" where
  "itrans_1d_dst lim x =
    (let c0 = x 0 + x 2;
         c1 = x 2 + x 3;
         c2 = x 0 - x 3;
         c3 = 74 * x 1
     in [29 * c0 + 55 * c1 + c3, 55 * c2 - 29 * c1 + c3, 74 * (x 0 - x 2 + x 3), 55 * c0 + 29 * c2 - c3])"

definition itrans_1d_4 :: "nat \<Rightarrow> (int \<Rightarrow> int) \<Rightarrow> int list" where
  "itrans_1d_4 lim x =
    (let M = g_ai2_ihevc_trans_4;
         od = level M [1, 3] 4 x 2;
         e = level M [0, 2] 4 x 2
     in fly 2 e od)"

definition itrans_1d_8 :: "nat \<Rightarrow> (int \<Rightarrow> int) \<Rightarrow> int list" where
  "itrans_1d_8 lim x =
    (let M = g_ai2_ihevc_trans_8;
         od = level M [1, 3, 5, 7] lim x 4;
         eo = level M [2, 6] lim x 2;
         ee = level M [0, 4] lim x 2;
         e = fly 2 ee eo
     in fly 4 e od)"

definition itrans_1d_16 :: "nat \<Rightarrow> (int \<Rightarrow> int) \<Rightarrow> int list" where
  "itrans_1d_16 lim x =
    (let M = g_ai2_ihevc_trans_16;
         od = level M [1, 3, 5, 7, 9, 11, 13, 15] lim x 8;
         eo = level M [2, 6, 10, 14] lim x 4;
         eeo = level M [4, 12] lim x 2;
         eee = level M [0, 8] lim x 2;
         ee = fly 2 eee eeo;
         e = fly 4 ee eo
     in fly 8 e od)"

definition itrans_1d_32 :: "nat \<Rightarrow> (int \<Rightarrow> int) \<Rightarrow> int list" where
  "itrans_1d_32 lim x =
    (let M = g_ai2_ihevc_trans_32;
         od = level M [1, 3, 5, 7, 9, 11, 13, 15, 17, 19, 21, 23, 25, 27, 29, 31] lim x 16;
         eo = level M [2, 6, 10, 14, 18, 22, 26, 30] lim x 8;
         eeo = level M [4, 12, 20, 28] lim x 4;
         eeeo = level M [8, 24] lim x 2;
         eeee = level M [0, 16] lim x 2;
         eee = fly 2 eeee eeeo;
         ee = fly 4 eee eeo;
         e = fly 8 ee eo
     in fly 16 e od)"

section \<open>Matrix products\<close>

text \<open>The specification: the product of the coefficients with a column of the matrix.\<close>

definition mat_1d :: "nat \<Rightarrow> int list list \<Rightarrow> (int \<Rightarrow> int) \<Rightarrow> nat \<Rightarrow> int" where
  "mat_1d n M x k = (\<Sum>i < n. M ! i ! k * x (int i))"

text \<open>The symmetry a level needs: the first \<open>2 * n\<close> entries of a row read the same backwards, or negated.\<close>

definition symrow :: "nat \<Rightarrow> int list \<Rightarrow> bool" where
  "symrow n r \<longleftrightarrow> 2 * n \<le> length r \<and> rev (take (2 * n) r) = take (2 * n) r"

definition antirow :: "nat \<Rightarrow> int list \<Rightarrow> bool" where
  "antirow n r \<longleftrightarrow> 2 * n \<le> length r \<and> rev (take (2 * n) r) = map uminus (take (2 * n) r)"

lemma symrow_nth: "symrow n r \<Longrightarrow> k < 2 * n \<Longrightarrow> r ! (2 * n - 1 - k) = r ! k"
  using rev_nth [of k "take (2 * n) r"] by (auto simp: symrow_def)

lemma antirow_nth: "antirow n r \<Longrightarrow> k < 2 * n \<Longrightarrow> r ! (2 * n - 1 - k) = - (r ! k)"
  using rev_nth [of k "take (2 * n) r"] by (auto simp: antirow_def)

text \<open>That a list holds the products with the first columns, over some rows.\<close>

definition holds_dot :: "int list list \<Rightarrow> nat list \<Rightarrow> (int \<Rightarrow> int) \<Rightarrow> nat \<Rightarrow> int list \<Rightarrow> bool" where
  "holds_dot M is x n y \<longleftrightarrow> (\<forall>k < n. y ! k = dot M is x k)"

lemma dot_append: "dot M (is @ js) x k = dot M is x k + dot M js x k"
  by (simp add: dot_def)

lemma level_dot: "holds_dot M (filter (\<lambda>i. i < lim) is) x n (level M is lim x n)"
  by (simp add: holds_dot_def level_def)

lemma dot_sym:
  assumes "\<forall>i \<in> set is. symrow n (M ! i)" "k < 2 * n"
  shows "dot M is x (2 * n - 1 - k) = dot M is x k"
  unfolding dot_def
  by (rule arg_cong [where f = sum_list], rule map_cong) (use assms symrow_nth in auto)

lemma dot_anti:
  assumes "\<forall>i \<in> set is. antirow n (M ! i)" "k < 2 * n"
  shows "dot M is x (2 * n - 1 - k) = - dot M is x k"
proof -
  have "dot M is x (2 * n - 1 - k) = sum_list (map (\<lambda>i. - (M ! i ! k * x (int i))) is)"
    unfolding dot_def by (rule arg_cong [where f = sum_list], rule map_cong) (use assms antirow_nth in auto)
  then show ?thesis by (simp add: dot_def uminus_sum_list_map o_def)
qed

lemma fly_dot:
  assumes "holds_dot M ev x n e" "holds_dot M dd x n od"
    and "\<forall>i \<in> set ev. symrow n (M ! i)" "\<forall>i \<in> set dd. antirow n (M ! i)"
  shows "holds_dot M (ev @ dd) x (2 * n) (fly n e od)"
  unfolding holds_dot_def
proof (intro allI impI)
  fix k assume k: "k < 2 * n"
  show "fly n e od ! k = dot M (ev @ dd) x k"
  proof (cases "k < n")
    case True
    then show ?thesis using assms(1,2) by (simp add: holds_dot_def fly_def nth_append dot_append)
  next
    case False
    let ?k = "2 * n - 1 - k"
    have kk: "?k < n" "k - n < n" "n - 1 - (k - n) = ?k" using False k by auto
    have "fly n e od ! k = e ! ?k - od ! ?k"
      using False kk(2,3) by (simp add: fly_def nth_append)
    also have "\<dots> = dot M ev x ?k - dot M dd x ?k" using assms(1,2) kk(1) by (simp add: holds_dot_def)
    also have "\<dots> = dot M ev x k + dot M dd x k" using dot_sym [OF assms(3) k] dot_anti [OF assms(4) k] by simp
    finally show ?thesis by (simp add: dot_append)
  qed
qed

text \<open>Leaving out rows whose coefficient is zero does not change a product.\<close>

lemma dot_filter:
  assumes "\<And>i. i \<in> set is \<Longrightarrow> lim \<le> i \<Longrightarrow> x (int i) = 0"
  shows "dot M (filter (\<lambda>i. i < lim) is) x k = dot M is x k"
  using assms by (induction "is") (auto simp: dot_def)

lemma dot_mat_1d:
  assumes "distinct is" "set is = {..<n}"
  shows "dot M is x k = mat_1d n M x k"
  using sum_list_distinct_conv_sum_set [OF assms(1), of "\<lambda>i. M ! i ! k * x (int i)"] assms(2)
  by (simp add: dot_def mat_1d_def)

lemma holds_mat_1d:
  assumes "holds_dot M (filter (\<lambda>i. i < lim) is) x n y" "sort is = [0 ..< n]"
    and "\<And>i. lim \<le> i \<Longrightarrow> i < n \<Longrightarrow> x (int i) = 0" "k < n"
  shows "y ! k = mat_1d n M x k"
proof -
  have d: "distinct is" using arg_cong [OF assms(2), of distinct] by simp
  have set_is: "set is = {..<n}" using arg_cong [OF assms(2), of set] by (simp add: atLeast0LessThan)
  have "y ! k = dot M (filter (\<lambda>i. i < lim) is) x k" using assms(1,4) by (simp add: holds_dot_def)
  also have "\<dots> = dot M is x k" by (rule dot_filter) (use assms(3) set_is in auto)
  also have "\<dots> = mat_1d n M x k" by (rule dot_mat_1d [OF d set_is])
  finally show ?thesis .
qed

text \<open>The symmetries of the matrices, by evaluation.\<close>

lemma trans_4_sym:
  "\<forall>i \<in> set [0, 2]. symrow 2 (g_ai2_ihevc_trans_4 ! i)" "\<forall>i \<in> set [1, 3]. antirow 2 (g_ai2_ihevc_trans_4 ! i)"
  by code_simp+

lemma trans_8_sym:
  "\<forall>i \<in> set [0, 4]. symrow 2 (g_ai2_ihevc_trans_8 ! i)" "\<forall>i \<in> set [2, 6]. antirow 2 (g_ai2_ihevc_trans_8 ! i)"
  "\<forall>i \<in> set ([0, 4] @ [2, 6]). symrow 4 (g_ai2_ihevc_trans_8 ! i)"
  "\<forall>i \<in> set [1, 3, 5, 7]. antirow 4 (g_ai2_ihevc_trans_8 ! i)"
  by code_simp+

lemma trans_16_sym:
  "\<forall>i \<in> set [0, 8]. symrow 2 (g_ai2_ihevc_trans_16 ! i)" "\<forall>i \<in> set [4, 12]. antirow 2 (g_ai2_ihevc_trans_16 ! i)"
  "\<forall>i \<in> set ([0, 8] @ [4, 12]). symrow 4 (g_ai2_ihevc_trans_16 ! i)"
  "\<forall>i \<in> set [2, 6, 10, 14]. antirow 4 (g_ai2_ihevc_trans_16 ! i)"
  "\<forall>i \<in> set (([0, 8] @ [4, 12]) @ [2, 6, 10, 14]). symrow 8 (g_ai2_ihevc_trans_16 ! i)"
  "\<forall>i \<in> set [1, 3, 5, 7, 9, 11, 13, 15]. antirow 8 (g_ai2_ihevc_trans_16 ! i)"
  by code_simp+

lemma trans_32_sym:
  "\<forall>i \<in> set [0, 16]. symrow 2 (g_ai2_ihevc_trans_32 ! i)" "\<forall>i \<in> set [8, 24]. antirow 2 (g_ai2_ihevc_trans_32 ! i)"
  "\<forall>i \<in> set ([0, 16] @ [8, 24]). symrow 4 (g_ai2_ihevc_trans_32 ! i)"
  "\<forall>i \<in> set [4, 12, 20, 28]. antirow 4 (g_ai2_ihevc_trans_32 ! i)"
  "\<forall>i \<in> set (([0, 16] @ [8, 24]) @ [4, 12, 20, 28]). symrow 8 (g_ai2_ihevc_trans_32 ! i)"
  "\<forall>i \<in> set [2, 6, 10, 14, 18, 22, 26, 30]. antirow 8 (g_ai2_ihevc_trans_32 ! i)"
  "\<forall>i \<in> set ((([0, 16] @ [8, 24]) @ [4, 12, 20, 28]) @ [2, 6, 10, 14, 18, 22, 26, 30]). symrow 16 (g_ai2_ihevc_trans_32 ! i)"
  "\<forall>i \<in> set [1, 3, 5, 7, 9, 11, 13, 15, 17, 19, 21, 23, 25, 27, 29, 31]. antirow 16 (g_ai2_ihevc_trans_32 ! i)"
  by code_simp+

text \<open>A level over the first \<open>lim\<close> coefficients.\<close>

lemma fly_lim:
  assumes "holds_dot M (filter (\<lambda>i. i < lim) ev) x n e" "\<forall>i \<in> set ev. symrow n (M ! i)" "\<forall>i \<in> set dd. antirow n (M ! i)"
    and "m = 2 * n"
  shows "holds_dot M (filter (\<lambda>i. i < lim) (ev @ dd)) x m (fly n e (level M dd lim x n))"
  unfolding filter_append assms(4) by (rule fly_dot [OF assms(1) level_dot]) (use assms(2,3) in auto)

lemma itrans_1d_dst_mat:
  assumes "k < 4"
  shows "itrans_1d_dst lim x ! k = mat_1d 4 g_ai2_ihevc_trans_dst_4 x k"
proof -
  have "k \<in> {0, 1, 2, 3}" using assms by auto
  then show ?thesis
    by (auto simp: itrans_1d_dst_def mat_1d_def g_ai2_ihevc_trans_dst_4_def Let_def numeral_eq_Suc)
qed

lemma itrans_1d_4_mat:
  assumes "k < 4"
  shows "itrans_1d_4 lim x ! k = mat_1d 4 g_ai2_ihevc_trans_4 x k"
proof (rule holds_mat_1d)
  show "holds_dot g_ai2_ihevc_trans_4 (filter (\<lambda>i. i < 4) ([0, 2] @ [1, 3])) x 4 (itrans_1d_4 lim x)"
    unfolding itrans_1d_4_def Let_def by (intro fly_lim level_dot trans_4_sym) simp
qed (use assms in \<open>simp_all add: upt_rec\<close>)

lemma itrans_1d_8_mat:
  assumes "\<And>i. lim \<le> i \<Longrightarrow> i < 8 \<Longrightarrow> x (int i) = 0" "k < 8"
  shows "itrans_1d_8 lim x ! k = mat_1d 8 g_ai2_ihevc_trans_8 x k"
proof (rule holds_mat_1d)
  show "holds_dot g_ai2_ihevc_trans_8 (filter (\<lambda>i. i < lim) (([0, 4] @ [2, 6]) @ [1, 3, 5, 7])) x 8 (itrans_1d_8 lim x)"
    unfolding itrans_1d_8_def Let_def by (intro fly_lim level_dot trans_8_sym) simp_all
qed (use assms in \<open>simp_all add: upt_rec\<close>)

lemma itrans_1d_16_mat:
  assumes "\<And>i. lim \<le> i \<Longrightarrow> i < 16 \<Longrightarrow> x (int i) = 0" "k < 16"
  shows "itrans_1d_16 lim x ! k = mat_1d 16 g_ai2_ihevc_trans_16 x k"
proof (rule holds_mat_1d)
  show "holds_dot g_ai2_ihevc_trans_16 (filter (\<lambda>i. i < lim)
      ((([0, 8] @ [4, 12]) @ [2, 6, 10, 14]) @ [1, 3, 5, 7, 9, 11, 13, 15])) x 16 (itrans_1d_16 lim x)"
    unfolding itrans_1d_16_def Let_def by (intro fly_lim level_dot trans_16_sym) simp_all
qed (use assms in \<open>simp_all add: upt_rec\<close>)

lemma itrans_1d_32_mat:
  assumes "\<And>i. lim \<le> i \<Longrightarrow> i < 32 \<Longrightarrow> x (int i) = 0" "k < 32"
  shows "itrans_1d_32 lim x ! k = mat_1d 32 g_ai2_ihevc_trans_32 x k"
proof (rule holds_mat_1d)
  show "holds_dot g_ai2_ihevc_trans_32 (filter (\<lambda>i. i < lim)
      (((([0, 16] @ [8, 24]) @ [4, 12, 20, 28]) @ [2, 6, 10, 14, 18, 22, 26, 30]) @
        [1, 3, 5, 7, 9, 11, 13, 15, 17, 19, 21, 23, 25, 27, 29, 31])) x 32 (itrans_1d_32 lim x)"
    unfolding itrans_1d_32_def Let_def by (intro fly_lim level_dot trans_32_sym) simp_all
qed (use assms in \<open>simp_all add: upt_rec\<close>)

text \<open>The transforms by index, as the decoder's table of functions has them: the size, the matrix and
  the butterfly of each.\<close>

definition trans_n :: "nat \<Rightarrow> nat" where
  "trans_n idx = [4, 4, 8, 16, 32] ! idx"

definition trans_mat :: "nat \<Rightarrow> int list list" where
  "trans_mat idx = [g_ai2_ihevc_trans_dst_4, g_ai2_ihevc_trans_4, g_ai2_ihevc_trans_8, g_ai2_ihevc_trans_16, g_ai2_ihevc_trans_32] ! idx"

definition itrans_1d :: "nat \<Rightarrow> nat \<Rightarrow> (int \<Rightarrow> int) \<Rightarrow> int list" where
  "itrans_1d idx = [itrans_1d_dst, itrans_1d_4, itrans_1d_8, itrans_1d_16, itrans_1d_32] ! idx"

lemma lt5: "idx < 5 \<Longrightarrow> idx \<in> {0, 1, 2, 3, 4 :: nat}"
  by auto

lemma itrans_1d_mat:
  assumes "idx < 5" "\<And>i. lim \<le> i \<Longrightarrow> i < trans_n idx \<Longrightarrow> x (int i) = 0" "k < trans_n idx"
  shows "itrans_1d idx lim x ! k = mat_1d (trans_n idx) (trans_mat idx) x k"
  using lt5 [OF assms(1)] assms(2,3)
  by (auto simp: itrans_1d_def trans_n_def trans_mat_def itrans_1d_dst_mat itrans_1d_4_mat itrans_1d_8_mat
      itrans_1d_16_mat itrans_1d_32_mat)

text \<open>The entries of the matrices are below 91, so with 16-bit inputs every partial sum fits 32 bits.\<close>

lemma trans_entries: "idx < 5 \<Longrightarrow> \<forall>r \<in> set (trans_mat idx). length r = trans_n idx \<and> (\<forall>c \<in> set r. \<bar>c\<bar> \<le> 90)"
proof -
  have "\<forall>idx \<in> {0, 1, 2, 3, 4}. \<forall>r \<in> set (trans_mat idx). length r = trans_n idx \<and> (\<forall>c \<in> set r. \<bar>c\<bar> \<le> 90)"
    by code_simp
  then show "idx < 5 \<Longrightarrow> ?thesis" using lt5 by blast
qed

lemma dot_no_overflow:
  assumes "idx < 5" "\<And>i. i \<in> set is \<Longrightarrow> i < length (trans_mat idx)" "k < trans_n idx" "length is \<le> 32"
    and "\<And>i. - 32768 \<le> x i \<and> x i \<le> 32767"
  shows "\<bar>dot (trans_mat idx) is x k\<bar> \<le> 94371840"
proof -
  have t: "\<bar>trans_mat idx ! i ! k * x (int i)\<bar> \<le> 2949120" if "i \<in> set is" for i
  proof -
    have "trans_mat idx ! i \<in> set (trans_mat idx)" using assms(2) that by simp
    then have "\<bar>trans_mat idx ! i ! k\<bar> \<le> 90" using trans_entries [OF assms(1)] assms(3) by auto
    moreover have "\<bar>x (int i)\<bar> \<le> 32768" using assms(5) [of "int i"] by auto
    ultimately have "\<bar>trans_mat idx ! i ! k\<bar> * \<bar>x (int i)\<bar> \<le> 90 * 32768" by (rule mult_mono) simp_all
    then show ?thesis by (simp add: abs_mult)
  qed
  have "\<bar>dot (trans_mat idx) is x k\<bar> \<le> int (length is) * 2949120"
    unfolding dot_def using t
  proof (induction "is")
    case (Cons a js)
    then have "\<bar>trans_mat idx ! a ! k * x (int a)\<bar> \<le> 2949120"
      "\<bar>\<Sum>i\<leftarrow>js. trans_mat idx ! i ! k * x (int i)\<bar> \<le> int (length js) * 2949120" by simp_all
    then show ?case
      using abs_triangle_ineq [of "trans_mat idx ! a ! k * x (int a)" "\<Sum>i\<leftarrow>js. trans_mat idx ! i ! k * x (int i)"]
      by simp
  qed simp
  then show ?thesis using assms(4) by simp
qed

end
