(* ===== verification/Itrans_Recon.thy ===== *)
theory Itrans_Recon
  imports Transform
begin

text \<open>
  Reconstruction of a transform block: inverse transform, clipping, and addition to the prediction, for
  8-bit samples (\<^verbatim>\<open>common/ihevc_itrans_recon*.c\<close>, \<^verbatim>\<open>ihevc_chroma_itrans_recon*.c\<close>), for more bits
  (\<^verbatim>\<open>ihevc_hbd_*\<close>), to a buffer of residuals (\<^verbatim>\<open>ihevc_itrans_res.c\<close>) added by \<^verbatim>\<open>ihevc_recon.c\<close>, and the
  shortcut for a single coefficient (\<^verbatim>\<open>decoder/ihevcd_itrans_recon_dc.c\<close>). Prediction and destination
  are in one memory, as the decoder reconstructs in place. A routine returns that memory; the
  temporary buffer of the first stage is not returned.

  What is proved: with truthful masks of zero columns and rows every routine computes the exact
  two-stage matrix product; the one-step and the two-step paths and the shortcut agree.
\<close>

unbundle bit_operations_syntax

section \<open>The two stages\<close>

text \<open>
  First stage: column \<open>j\<close> of the coefficients is transformed into row \<open>j\<close> of the temporary buffer.
  \<open>rows\<close> is the number of coefficients read, \<open>row_limit\<close> the number of columns done.
\<close>

definition itrans_stage1 ::
  "nat \<Rightarrow> (nat \<Rightarrow> (int \<Rightarrow> int) \<Rightarrow> int list) \<Rightarrow> nat \<Rightarrow> nat \<Rightarrow> mem16 \<Rightarrow> int \<Rightarrow> int \<Rightarrow> 32 word \<Rightarrow> mem16 \<Rightarrow> int \<Rightarrow> mem16" where
  "itrans_stage1 n oned rows row_limit src s src_strd zero_cols tmp t =
     for_cols (int row_limit) (\<lambda>j zero_col tmp.
       if zero_col then for_to (int n) (\<lambda>k m. m(t + j * int n + k := 0)) tmp
       else let y = oned rows (\<lambda>i. sint (src (s + j + i * src_strd)))
         in for_to (int n) (\<lambda>k m. m(t + j * int n + k := word_of_int (CLIP_S16 ((y ! nat k + 64) div 128)))) tmp)
       zero_cols tmp"

text \<open>Second stage: column \<open>j\<close> of the temporary buffer is transformed into row \<open>j\<close> of the residual.\<close>

definition itrans_out :: "nat \<Rightarrow> int \<Rightarrow> int" where
  "itrans_out shift y = CLIP_S16 ((y + 2 ^ (shift - 1)) div 2 ^ shift)"

definition itrans_stage2 ::
  "nat \<Rightarrow> (nat \<Rightarrow> (int \<Rightarrow> int) \<Rightarrow> int list) \<Rightarrow> nat \<Rightarrow> nat \<Rightarrow> int \<Rightarrow> int \<Rightarrow> mem16 \<Rightarrow> int \<Rightarrow>
    (int \<Rightarrow> 'w::len word) \<Rightarrow> int \<Rightarrow> int \<Rightarrow> int \<Rightarrow> int \<Rightarrow> (int \<Rightarrow> 'w word)" where
  "itrans_stage2 n oned rows shift mx step tmp t m p d pred_strd dst_strd =
     for_to (int n) (\<lambda>j.
       let y = oned rows (\<lambda>i. sint (tmp (t + j + i * int n)))
       in for_to (int n) (\<lambda>k m. m(d + j * dst_strd + k * step :=
            word_of_int (CLIP3 (itrans_out shift (y ! nat k) + uint (m (p + j * pred_strd + k * step))) 0 mx)))) m"

definition itrans_res_stage2 ::
  "nat \<Rightarrow> (nat \<Rightarrow> (int \<Rightarrow> int) \<Rightarrow> int list) \<Rightarrow> nat \<Rightarrow> nat \<Rightarrow> mem16 \<Rightarrow> int \<Rightarrow> mem16 \<Rightarrow> int \<Rightarrow> int \<Rightarrow> mem16" where
  "itrans_res_stage2 n oned rows shift tmp t dst d dst_strd =
     for_to (int n) (\<lambda>j.
       let y = oned rows (\<lambda>i. sint (tmp (t + j + i * int n)))
       in for_to (int n) (\<lambda>k m. m(d + j * dst_strd + k := word_of_int (itrans_out shift (y ! nat k))))) dst"

text \<open>The number of rows or columns that may hold nonzero values, from a mask of zero ones.\<close>

definition limit_8 :: "32 word \<Rightarrow> nat" where
  "limit_8 z = (if z AND 0xF0 = 0xF0 then 4 else 8)"

definition limit_16 :: "32 word \<Rightarrow> nat" where
  "limit_16 z = (if z AND 0xFFF0 = 0xFFF0 then 4 else if z AND 0xFF00 = 0xFF00 then 8 else 16)"

definition limit_32 :: "32 word \<Rightarrow> nat" where
  "limit_32 z = (if z AND 0xFFFFFFF0 = 0xFFFFFFF0 then 4 else if z AND 0xFFFFFF00 = 0xFFFFFF00 then 8 else 32)"

definition itrans_2d ::
  "nat \<Rightarrow> (nat \<Rightarrow> (int \<Rightarrow> int) \<Rightarrow> int list) \<Rightarrow> nat \<Rightarrow> nat \<Rightarrow> nat \<Rightarrow> int \<Rightarrow> int \<Rightarrow> mem16 \<Rightarrow> int \<Rightarrow> mem16 \<Rightarrow> int \<Rightarrow>
    (int \<Rightarrow> 'w::len word) \<Rightarrow> int \<Rightarrow> int \<Rightarrow> int \<Rightarrow> int \<Rightarrow> int \<Rightarrow> 32 word \<Rightarrow> (int \<Rightarrow> 'w word)" where
  "itrans_2d n oned rows_1st rows_2nd shift mx step src s tmp t m p d src_strd pred_strd dst_strd zero_cols =
     itrans_stage2 n oned rows_2nd shift mx step (itrans_stage1 n oned rows_1st rows_2nd src s src_strd zero_cols tmp t) t
       m p d pred_strd dst_strd"

definition itrans_res_2d ::
  "nat \<Rightarrow> (nat \<Rightarrow> (int \<Rightarrow> int) \<Rightarrow> int list) \<Rightarrow> nat \<Rightarrow> nat \<Rightarrow> nat \<Rightarrow> mem16 \<Rightarrow> int \<Rightarrow> mem16 \<Rightarrow> int \<Rightarrow>
    mem16 \<Rightarrow> int \<Rightarrow> int \<Rightarrow> int \<Rightarrow> 32 word \<Rightarrow> mem16" where
  "itrans_res_2d n oned rows_1st rows_2nd shift src s tmp t dst d src_strd dst_strd zero_cols =
     itrans_res_stage2 n oned rows_2nd shift (itrans_stage1 n oned rows_1st rows_2nd src s src_strd zero_cols tmp t) t dst d dst_strd"

section \<open>The routines\<close>

type_synonym itrans8 = "mem16 \<Rightarrow> int \<Rightarrow> mem16 \<Rightarrow> int \<Rightarrow> mem8 \<Rightarrow> int \<Rightarrow> int \<Rightarrow> int \<Rightarrow> int \<Rightarrow> int \<Rightarrow> 32 word \<Rightarrow> 32 word \<Rightarrow> mem8"
type_synonym itrans16 =
  "mem16 \<Rightarrow> int \<Rightarrow> mem16 \<Rightarrow> int \<Rightarrow> mem16 \<Rightarrow> int \<Rightarrow> int \<Rightarrow> int \<Rightarrow> int \<Rightarrow> int \<Rightarrow> 32 word \<Rightarrow> 32 word \<Rightarrow> nat \<Rightarrow> mem16"
type_synonym itrans_res = "mem16 \<Rightarrow> int \<Rightarrow> mem16 \<Rightarrow> int \<Rightarrow> mem16 \<Rightarrow> int \<Rightarrow> int \<Rightarrow> int \<Rightarrow> 32 word \<Rightarrow> 32 word \<Rightarrow> nat \<Rightarrow> mem16"

definition ihevc_itrans_recon_4x4_ttype1 :: itrans8 where
  "ihevc_itrans_recon_4x4_ttype1 src s tmp t m p d src_strd pred_strd dst_strd zero_cols zero_rows =
     itrans_2d 4 itrans_1d_dst 4 4 12 255 1 src s tmp t m p d src_strd pred_strd dst_strd zero_cols"

definition ihevc_itrans_recon_4x4 :: itrans8 where
  "ihevc_itrans_recon_4x4 src s tmp t m p d src_strd pred_strd dst_strd zero_cols zero_rows =
     itrans_2d 4 itrans_1d_4 4 4 12 255 1 src s tmp t m p d src_strd pred_strd dst_strd zero_cols"

definition ihevc_itrans_recon_8x8 :: itrans8 where
  "ihevc_itrans_recon_8x8 src s tmp t m p d src_strd pred_strd dst_strd zero_cols zero_rows =
     itrans_2d 8 itrans_1d_8 (limit_8 zero_rows) (limit_8 zero_cols) 12 255 1 src s tmp t m p d src_strd pred_strd dst_strd zero_cols"

definition ihevc_itrans_recon_16x16 :: itrans8 where
  "ihevc_itrans_recon_16x16 src s tmp t m p d src_strd pred_strd dst_strd zero_cols zero_rows =
     itrans_2d 16 itrans_1d_16 (limit_16 zero_rows) (limit_16 zero_cols) 12 255 1 src s tmp t m p d src_strd pred_strd dst_strd zero_cols"

definition ihevc_itrans_recon_32x32 :: itrans8 where
  "ihevc_itrans_recon_32x32 src s tmp t m p d src_strd pred_strd dst_strd zero_cols zero_rows =
     itrans_2d 32 itrans_1d_32 (limit_32 zero_rows) (limit_32 zero_cols) 12 255 1 src s tmp t m p d src_strd pred_strd dst_strd zero_cols"

definition ihevc_chroma_itrans_recon_4x4 :: itrans8 where
  "ihevc_chroma_itrans_recon_4x4 src s tmp t m p d src_strd pred_strd dst_strd zero_cols zero_rows =
     itrans_2d 4 itrans_1d_4 4 4 12 255 2 src s tmp t m p d src_strd pred_strd dst_strd zero_cols"

definition ihevc_chroma_itrans_recon_8x8 :: itrans8 where
  "ihevc_chroma_itrans_recon_8x8 src s tmp t m p d src_strd pred_strd dst_strd zero_cols zero_rows =
     itrans_2d 8 itrans_1d_8 8 (limit_8 zero_cols) 12 255 2 src s tmp t m p d src_strd pred_strd dst_strd zero_cols"

definition ihevc_chroma_itrans_recon_16x16 :: itrans8 where
  "ihevc_chroma_itrans_recon_16x16 src s tmp t m p d src_strd pred_strd dst_strd zero_cols zero_rows =
     itrans_2d 16 itrans_1d_16 (limit_16 zero_rows) (limit_16 zero_cols) 12 255 2 src s tmp t m p d src_strd pred_strd dst_strd zero_cols"

definition ihevc_chroma_itrans_recon_32x32 :: itrans8 where
  "ihevc_chroma_itrans_recon_32x32 src s tmp t m p d src_strd pred_strd dst_strd zero_cols zero_rows =
     itrans_2d 32 itrans_1d_32 (limit_32 zero_rows) (limit_32 zero_cols) 12 255 2 src s tmp t m p d src_strd pred_strd dst_strd zero_cols"

definition ihevc_hbd_itrans_recon_4x4_ttype1 :: itrans16 where
  "ihevc_hbd_itrans_recon_4x4_ttype1 src s tmp t m p d src_strd pred_strd dst_strd zero_cols zero_rows bit_depth =
     itrans_2d 4 itrans_1d_dst 4 4 (20 - bit_depth) (s16 (2 ^ bit_depth - 1)) 1
       src s tmp t m p d src_strd pred_strd dst_strd zero_cols"

definition ihevc_hbd_itrans_recon_4x4 :: itrans16 where
  "ihevc_hbd_itrans_recon_4x4 src s tmp t m p d src_strd pred_strd dst_strd zero_cols zero_rows bit_depth =
     itrans_2d 4 itrans_1d_4 4 4 (20 - bit_depth) (s16 (2 ^ bit_depth - 1)) 1
       src s tmp t m p d src_strd pred_strd dst_strd zero_cols"

definition ihevc_hbd_itrans_recon_8x8 :: itrans16 where
  "ihevc_hbd_itrans_recon_8x8 src s tmp t m p d src_strd pred_strd dst_strd zero_cols zero_rows bit_depth =
     itrans_2d 8 itrans_1d_8 (limit_8 zero_rows) (limit_8 zero_cols) (20 - bit_depth) (s16 (2 ^ bit_depth - 1)) 1
       src s tmp t m p d src_strd pred_strd dst_strd zero_cols"

definition ihevc_hbd_itrans_recon_16x16 :: itrans16 where
  "ihevc_hbd_itrans_recon_16x16 src s tmp t m p d src_strd pred_strd dst_strd zero_cols zero_rows bit_depth =
     itrans_2d 16 itrans_1d_16 (limit_16 zero_rows) (limit_16 zero_cols) (20 - bit_depth) (s16 (2 ^ bit_depth - 1)) 1
       src s tmp t m p d src_strd pred_strd dst_strd zero_cols"

definition ihevc_hbd_itrans_recon_32x32 :: itrans16 where
  "ihevc_hbd_itrans_recon_32x32 src s tmp t m p d src_strd pred_strd dst_strd zero_cols zero_rows bit_depth =
     itrans_2d 32 itrans_1d_32 (limit_32 zero_rows) (limit_32 zero_cols) (20 - bit_depth) (s16 (2 ^ bit_depth - 1)) 1
       src s tmp t m p d src_strd pred_strd dst_strd zero_cols"

definition ihevc_hbd_chroma_itrans_recon_4x4 :: itrans16 where
  "ihevc_hbd_chroma_itrans_recon_4x4 src s tmp t m p d src_strd pred_strd dst_strd zero_cols zero_rows bit_depth =
     itrans_2d 4 itrans_1d_4 4 4 (20 - bit_depth) (s16 (2 ^ bit_depth - 1)) 2
       src s tmp t m p d src_strd pred_strd dst_strd zero_cols"

definition ihevc_hbd_chroma_itrans_recon_8x8 :: itrans16 where
  "ihevc_hbd_chroma_itrans_recon_8x8 src s tmp t m p d src_strd pred_strd dst_strd zero_cols zero_rows bit_depth =
     itrans_2d 8 itrans_1d_8 8 (limit_8 zero_cols) (20 - bit_depth) (s16 (2 ^ bit_depth - 1)) 2
       src s tmp t m p d src_strd pred_strd dst_strd zero_cols"

definition ihevc_hbd_chroma_itrans_recon_16x16 :: itrans16 where
  "ihevc_hbd_chroma_itrans_recon_16x16 src s tmp t m p d src_strd pred_strd dst_strd zero_cols zero_rows bit_depth =
     itrans_2d 16 itrans_1d_16 (limit_16 zero_rows) (limit_16 zero_cols) (20 - bit_depth) (s16 (2 ^ bit_depth - 1)) 2
       src s tmp t m p d src_strd pred_strd dst_strd zero_cols"

definition ihevc_hbd_chroma_itrans_recon_32x32 :: itrans16 where
  "ihevc_hbd_chroma_itrans_recon_32x32 src s tmp t m p d src_strd pred_strd dst_strd zero_cols zero_rows bit_depth =
     itrans_2d 32 itrans_1d_32 (limit_32 zero_rows) (limit_32 zero_cols) (20 - bit_depth) (s16 (2 ^ bit_depth - 1)) 2
       src s tmp t m p d src_strd pred_strd dst_strd zero_cols"

definition ihevc_itrans_res_4x4_ttype1 :: itrans_res where
  "ihevc_itrans_res_4x4_ttype1 src s tmp t dst d src_strd dst_strd zero_cols zero_rows bit_depth =
     itrans_res_2d 4 itrans_1d_dst 4 4 (20 - bit_depth) src s tmp t dst d src_strd dst_strd zero_cols"

definition ihevc_itrans_res_4x4 :: itrans_res where
  "ihevc_itrans_res_4x4 src s tmp t dst d src_strd dst_strd zero_cols zero_rows bit_depth =
     itrans_res_2d 4 itrans_1d_4 4 4 (20 - bit_depth) src s tmp t dst d src_strd dst_strd zero_cols"

definition ihevc_itrans_res_8x8 :: itrans_res where
  "ihevc_itrans_res_8x8 src s tmp t dst d src_strd dst_strd zero_cols zero_rows bit_depth =
     itrans_res_2d 8 itrans_1d_8 (limit_8 zero_rows) (limit_8 zero_cols) (20 - bit_depth) src s tmp t dst d src_strd dst_strd zero_cols"

definition ihevc_itrans_res_16x16 :: itrans_res where
  "ihevc_itrans_res_16x16 src s tmp t dst d src_strd dst_strd zero_cols zero_rows bit_depth =
     itrans_res_2d 16 itrans_1d_16 (limit_16 zero_rows) (limit_16 zero_cols) (20 - bit_depth) src s tmp t dst d src_strd dst_strd zero_cols"

definition ihevc_itrans_res_32x32 :: itrans_res where
  "ihevc_itrans_res_32x32 src s tmp t dst d src_strd dst_strd zero_cols zero_rows bit_depth =
     itrans_res_2d 32 itrans_1d_32 (limit_32 zero_rows) (limit_32 zero_cols) (20 - bit_depth) src s tmp t dst d src_strd dst_strd zero_cols"

section \<open>Adding a residual\<close>

text \<open>Column \<open>i\<close> of the block, row \<open>j\<close>; a zero column takes the prediction as it is.\<close>

definition recon_block ::
  "int \<Rightarrow> int \<Rightarrow> int \<Rightarrow> mem16 \<Rightarrow> int \<Rightarrow> (int \<Rightarrow> 'w::len word) \<Rightarrow> int \<Rightarrow> int \<Rightarrow> int \<Rightarrow> int \<Rightarrow> int \<Rightarrow> 32 word \<Rightarrow> (int \<Rightarrow> 'w word)" where
  "recon_block n mx step src s m p d src_strd pred_strd dst_strd zero_cols =
     for_cols n (\<lambda>i zero_col m.
       if zero_col then for_to n (\<lambda>j m. m(d + i * step + j * dst_strd := m (p + i * step + j * pred_strd))) m
       else for_to n (\<lambda>j m. m(d + i * step + j * dst_strd :=
         word_of_int (CLIP3 (sint (src (s + i + j * src_strd)) + uint (m (p + i * step + j * pred_strd))) 0 mx))) m)
       zero_cols m"

type_synonym recon8 = "mem16 \<Rightarrow> int \<Rightarrow> mem8 \<Rightarrow> int \<Rightarrow> int \<Rightarrow> int \<Rightarrow> int \<Rightarrow> int \<Rightarrow> 32 word \<Rightarrow> mem8"
type_synonym recon16 = "mem16 \<Rightarrow> int \<Rightarrow> mem16 \<Rightarrow> int \<Rightarrow> int \<Rightarrow> int \<Rightarrow> int \<Rightarrow> int \<Rightarrow> 32 word \<Rightarrow> nat \<Rightarrow> mem16"

definition ihevc_recon_4x4_ttype1 :: recon8 where
  "ihevc_recon_4x4_ttype1 src s m p d src_strd pred_strd dst_strd zero_cols = recon_block 4 255 1 src s m p d src_strd pred_strd dst_strd zero_cols"

definition ihevc_recon_4x4 :: recon8 where
  "ihevc_recon_4x4 src s m p d src_strd pred_strd dst_strd zero_cols = recon_block 4 255 1 src s m p d src_strd pred_strd dst_strd zero_cols"

definition ihevc_recon_8x8 :: recon8 where
  "ihevc_recon_8x8 src s m p d src_strd pred_strd dst_strd zero_cols = recon_block 8 255 1 src s m p d src_strd pred_strd dst_strd zero_cols"

definition ihevc_recon_16x16 :: recon8 where
  "ihevc_recon_16x16 src s m p d src_strd pred_strd dst_strd zero_cols = recon_block 16 255 1 src s m p d src_strd pred_strd dst_strd zero_cols"

definition ihevc_recon_32x32 :: recon8 where
  "ihevc_recon_32x32 src s m p d src_strd pred_strd dst_strd zero_cols = recon_block 32 255 1 src s m p d src_strd pred_strd dst_strd zero_cols"

definition ihevc_chroma_recon_4x4 :: recon8 where
  "ihevc_chroma_recon_4x4 src s m p d src_strd pred_strd dst_strd zero_cols = recon_block 4 255 2 src s m p d src_strd pred_strd dst_strd zero_cols"

definition ihevc_chroma_recon_8x8 :: recon8 where
  "ihevc_chroma_recon_8x8 src s m p d src_strd pred_strd dst_strd zero_cols = recon_block 8 255 2 src s m p d src_strd pred_strd dst_strd zero_cols"

definition ihevc_chroma_recon_16x16 :: recon8 where
  "ihevc_chroma_recon_16x16 src s m p d src_strd pred_strd dst_strd zero_cols = recon_block 16 255 2 src s m p d src_strd pred_strd dst_strd zero_cols"

definition ihevc_chroma_recon_32x32 :: recon8 where
  "ihevc_chroma_recon_32x32 src s m p d src_strd pred_strd dst_strd zero_cols = recon_block 32 255 2 src s m p d src_strd pred_strd dst_strd zero_cols"

definition ihevc_hbd_recon_4x4_ttype1 :: recon16 where
  "ihevc_hbd_recon_4x4_ttype1 src s m p d src_strd pred_strd dst_strd zero_cols bit_depth = recon_block 4 (s16 (2 ^ bit_depth - 1)) 1 src s m p d src_strd pred_strd dst_strd zero_cols"

definition ihevc_hbd_recon_4x4 :: recon16 where
  "ihevc_hbd_recon_4x4 src s m p d src_strd pred_strd dst_strd zero_cols bit_depth = recon_block 4 (s16 (2 ^ bit_depth - 1)) 1 src s m p d src_strd pred_strd dst_strd zero_cols"

definition ihevc_hbd_recon_8x8 :: recon16 where
  "ihevc_hbd_recon_8x8 src s m p d src_strd pred_strd dst_strd zero_cols bit_depth = recon_block 8 (s16 (2 ^ bit_depth - 1)) 1 src s m p d src_strd pred_strd dst_strd zero_cols"

definition ihevc_hbd_recon_16x16 :: recon16 where
  "ihevc_hbd_recon_16x16 src s m p d src_strd pred_strd dst_strd zero_cols bit_depth = recon_block 16 (s16 (2 ^ bit_depth - 1)) 1 src s m p d src_strd pred_strd dst_strd zero_cols"

definition ihevc_hbd_recon_32x32 :: recon16 where
  "ihevc_hbd_recon_32x32 src s m p d src_strd pred_strd dst_strd zero_cols bit_depth = recon_block 32 (s16 (2 ^ bit_depth - 1)) 1 src s m p d src_strd pred_strd dst_strd zero_cols"

definition ihevc_hbd_chroma_recon_4x4 :: recon16 where
  "ihevc_hbd_chroma_recon_4x4 src s m p d src_strd pred_strd dst_strd zero_cols bit_depth = recon_block 4 (s16 (2 ^ bit_depth - 1)) 2 src s m p d src_strd pred_strd dst_strd zero_cols"

definition ihevc_hbd_chroma_recon_8x8 :: recon16 where
  "ihevc_hbd_chroma_recon_8x8 src s m p d src_strd pred_strd dst_strd zero_cols bit_depth = recon_block 8 (s16 (2 ^ bit_depth - 1)) 2 src s m p d src_strd pred_strd dst_strd zero_cols"

definition ihevc_hbd_chroma_recon_16x16 :: recon16 where
  "ihevc_hbd_chroma_recon_16x16 src s m p d src_strd pred_strd dst_strd zero_cols bit_depth = recon_block 16 (s16 (2 ^ bit_depth - 1)) 2 src s m p d src_strd pred_strd dst_strd zero_cols"

definition ihevc_hbd_chroma_recon_32x32 :: recon16 where
  "ihevc_hbd_chroma_recon_32x32 src s m p d src_strd pred_strd dst_strd zero_cols bit_depth = recon_block 32 (s16 (2 ^ bit_depth - 1)) 2 src s m p d src_strd pred_strd dst_strd zero_cols"

text \<open>The cross component prediction adds a scaled luma residual to the chroma one.\<close>

definition recon_nxn_ccp ::
  "int \<Rightarrow> mem16 \<Rightarrow> int \<Rightarrow> mem16 \<Rightarrow> int \<Rightarrow> (int \<Rightarrow> 'w::len word) \<Rightarrow> int \<Rightarrow> int \<Rightarrow> int \<Rightarrow> int \<Rightarrow> int \<Rightarrow> int \<Rightarrow> int \<Rightarrow> int \<Rightarrow> (int \<Rightarrow> 'w word)" where
  "recon_nxn_ccp mx luma_res lr chroma_res cr m p d alpha trans_size luma_res_strd chroma_res_strd pred_strd dst_strd =
     update_block trans_size trans_size (\<lambda>i j. d + i * dst_strd + j * 2) (\<lambda>i j. p + i * pred_strd + j * 2)
       (\<lambda>i j v. let res = (alpha * sint (luma_res (lr + i * luma_res_strd + j))) div 8
         in word_of_int (CLIP3 (uint v + (sint (chroma_res (cr + i * chroma_res_strd + j)) + res)) 0 mx)) m"

definition ihevc_chroma_recon_nxn_ccp ::
  "mem16 \<Rightarrow> int \<Rightarrow> mem16 \<Rightarrow> int \<Rightarrow> mem8 \<Rightarrow> int \<Rightarrow> int \<Rightarrow> int \<Rightarrow> int \<Rightarrow> int \<Rightarrow> int \<Rightarrow> int \<Rightarrow> int \<Rightarrow> mem8" where
  "ihevc_chroma_recon_nxn_ccp = recon_nxn_ccp 255"

definition ihevc_hbd_chroma_recon_nxn_ccp ::
  "mem16 \<Rightarrow> int \<Rightarrow> mem16 \<Rightarrow> int \<Rightarrow> mem16 \<Rightarrow> int \<Rightarrow> int \<Rightarrow> int \<Rightarrow> int \<Rightarrow> int \<Rightarrow> int \<Rightarrow> int \<Rightarrow> int \<Rightarrow> nat \<Rightarrow> mem16" where
  "ihevc_hbd_chroma_recon_nxn_ccp luma_res lr chroma_res cr m p d alpha trans_size luma_res_strd chroma_res_strd pred_strd dst_strd bit_depth =
     recon_nxn_ccp (2 ^ bit_depth - 1) luma_res lr chroma_res cr m p d alpha trans_size luma_res_strd chroma_res_strd pred_strd dst_strd"

section \<open>Residuals without a transform\<close>

definition gau4_ihevcd_4_bit_reverse :: "32 word list" where
  "gau4_ihevcd_4_bit_reverse = [0, 8, 4, 12, 2, 10, 6, 14, 1, 9, 5, 13, 3, 11, 7, 15]"

definition ihevc_res_4x4_rotate :: "mem16 \<Rightarrow> int \<Rightarrow> mem16 \<Rightarrow> int \<Rightarrow> int \<Rightarrow> int \<Rightarrow> 32 word \<Rightarrow> mem16" where
  "ihevc_res_4x4_rotate src s dst d src_strd dst_strd zero_cols =
    (let offset = 4 * src_strd - 1;
         zero_cols = gau4_ihevcd_4_bit_reverse ! unat (zero_cols AND 0xF)
     in for_cols 4 (\<lambda>i zero_col.
          if zero_col then for_to 4 (\<lambda>j m. m(d + i + j * dst_strd := 0))
          else for_to 4 (\<lambda>j m. m(d + i + j * dst_strd := src (s + (offset - (j * src_strd + i)))))) zero_cols dst)"

definition ihevc_res_nxn_copy :: "mem16 \<Rightarrow> int \<Rightarrow> mem16 \<Rightarrow> int \<Rightarrow> int \<Rightarrow> int \<Rightarrow> int \<Rightarrow> 32 word \<Rightarrow> mem16" where
  "ihevc_res_nxn_copy src s dst d src_strd dst_strd trans_size zero_cols =
     for_cols trans_size (\<lambda>i zero_col.
       if zero_col then for_to trans_size (\<lambda>j m. m(d + i + j * dst_strd := 0))
       else for_to trans_size (\<lambda>j m. m(d + i + j * dst_strd := src (s + (j * src_strd + i))))) zero_cols dst"

text \<open>Horizontal differences are added up in the destination, vertical ones in a 16-bit accumulator.\<close>

definition ihevc_res_nxn_rdpcm_horz :: "mem16 \<Rightarrow> int \<Rightarrow> mem16 \<Rightarrow> int \<Rightarrow> int \<Rightarrow> int \<Rightarrow> int \<Rightarrow> 32 word \<Rightarrow> mem16" where
  "ihevc_res_nxn_rdpcm_horz src s dst d src_strd dst_strd trans_size zero_cols =
    (let dst = (if zero_cols AND 1 = 1 then for_to trans_size (\<lambda>j m. m(d + j * dst_strd := 0)) dst
                else for_to trans_size (\<lambda>j m. m(d + j * dst_strd := src (s + j * src_strd))) dst)
     in for_cols (trans_size - 1) (\<lambda>k zero_col.
          let i = k + 1
          in if zero_col then for_to trans_size (\<lambda>j m. m(d + i + j * dst_strd := m (d + i + j * dst_strd - 1)))
             else for_to trans_size (\<lambda>j m. m(d + i + j * dst_strd := src (s + (j * src_strd + i)) + m (d + i + j * dst_strd - 1))))
          (signed_drop_bit 1 zero_cols) dst)"

definition ihevc_res_nxn_rdpcm_vert :: "mem16 \<Rightarrow> int \<Rightarrow> mem16 \<Rightarrow> int \<Rightarrow> int \<Rightarrow> int \<Rightarrow> int \<Rightarrow> 32 word \<Rightarrow> mem16" where
  "ihevc_res_nxn_rdpcm_vert src s dst d src_strd dst_strd trans_size zero_cols =
     for_cols trans_size (\<lambda>i zero_col m.
       if zero_col then for_to trans_size (\<lambda>j m. m(d + i + j * dst_strd := 0)) m
       else let acc = src (s + i);
                m = m(d + i := acc)
            in fst (for_to (trans_size - 1) (\<lambda>k (m, acc).
                 let j = k + 1;
                     acc = acc + src (s + (j * src_strd + i))
                 in (m(d + i + j * dst_strd := acc), acc)) (m, acc))) zero_cols dst"

section \<open>A single coefficient\<close>

definition itrans_dc_value :: "int \<Rightarrow> nat \<Rightarrow> int" where
  "itrans_dc_value coeff shift =
    (let quant_out = coeff;
         dc_value = CLIP_S16 ((quant_out * 64 + 64) div 128)
     in CLIP_S16 ((dc_value * 64 + 2 ^ (shift - 1)) div 2 ^ shift))"

definition itrans_dc_block ::
  "nat \<Rightarrow> int \<Rightarrow> int \<Rightarrow> (int \<Rightarrow> 'w::len word) \<Rightarrow> int \<Rightarrow> int \<Rightarrow> int \<Rightarrow> int \<Rightarrow> nat \<Rightarrow> 16 word \<Rightarrow> (int \<Rightarrow> 'w word)" where
  "itrans_dc_block shift mx step m p d pred_strd dst_strd log2_trans_size coeff =
    (let trans_size = 2 ^ log2_trans_size;
         dc_value = itrans_dc_value (sint coeff) shift
     in update_block trans_size trans_size (\<lambda>row col. d + row * dst_strd + col * step) (\<lambda>row col. p + row * pred_strd + col * step)
          (\<lambda>row col v. word_of_int (CLIP3 (uint v + dc_value) 0 mx)) m)"

definition ihevcd_itrans_recon_dc_luma :: "mem8 \<Rightarrow> int \<Rightarrow> int \<Rightarrow> int \<Rightarrow> int \<Rightarrow> nat \<Rightarrow> 16 word \<Rightarrow> mem8" where
  "ihevcd_itrans_recon_dc_luma = itrans_dc_block 12 255 1"

definition ihevcd_itrans_recon_dc_chroma :: "mem8 \<Rightarrow> int \<Rightarrow> int \<Rightarrow> int \<Rightarrow> int \<Rightarrow> nat \<Rightarrow> 16 word \<Rightarrow> mem8" where
  "ihevcd_itrans_recon_dc_chroma = itrans_dc_block 12 255 2"

definition ihevcd_hbd_itrans_recon_dc_luma :: "mem16 \<Rightarrow> int \<Rightarrow> int \<Rightarrow> int \<Rightarrow> int \<Rightarrow> nat \<Rightarrow> 16 word \<Rightarrow> nat \<Rightarrow> mem16" where
  "ihevcd_hbd_itrans_recon_dc_luma m p d pred_strd dst_strd log2_trans_size coeff bit_depth =
     itrans_dc_block (20 - bit_depth) (2 ^ bit_depth - 1) 1 m p d pred_strd dst_strd log2_trans_size coeff"

definition ihevcd_hbd_itrans_recon_dc_chroma :: "mem16 \<Rightarrow> int \<Rightarrow> int \<Rightarrow> int \<Rightarrow> int \<Rightarrow> nat \<Rightarrow> 16 word \<Rightarrow> nat \<Rightarrow> mem16" where
  "ihevcd_hbd_itrans_recon_dc_chroma m p d pred_strd dst_strd log2_trans_size coeff bit_depth =
     itrans_dc_block (20 - bit_depth) (2 ^ bit_depth - 1) 2 m p d pred_strd dst_strd log2_trans_size coeff"

definition ihevc_itrans_res_dc :: "mem16 \<Rightarrow> int \<Rightarrow> int \<Rightarrow> nat \<Rightarrow> 16 word \<Rightarrow> nat \<Rightarrow> mem16" where
  "ihevc_itrans_res_dc dst d dst_strd log2_trans_size coeff bit_depth =
     store_block (2 ^ log2_trans_size) (2 ^ log2_trans_size) (\<lambda>row col. d + row * dst_strd + col)
       (\<lambda>row col. word_of_int (itrans_dc_value (sint coeff) (20 - bit_depth))) dst"

section \<open>The tables of routines\<close>

definition apf_itrans_recon :: "nat \<Rightarrow> itrans8" where
  "apf_itrans_recon idx =
    [ihevc_itrans_recon_4x4_ttype1, ihevc_itrans_recon_4x4, ihevc_itrans_recon_8x8, ihevc_itrans_recon_16x16,
     ihevc_itrans_recon_32x32, ihevc_chroma_itrans_recon_4x4, ihevc_chroma_itrans_recon_8x8,
     ihevc_chroma_itrans_recon_16x16, ihevc_chroma_itrans_recon_32x32] ! idx"

definition apf_itrans_res :: "nat \<Rightarrow> itrans_res" where
  "apf_itrans_res idx =
    [ihevc_itrans_res_4x4_ttype1, ihevc_itrans_res_4x4, ihevc_itrans_res_8x8, ihevc_itrans_res_16x16, ihevc_itrans_res_32x32] ! idx"

definition apf_recon :: "nat \<Rightarrow> recon8" where
  "apf_recon idx =
    [ihevc_recon_4x4_ttype1, ihevc_recon_4x4, ihevc_recon_8x8, ihevc_recon_16x16, ihevc_recon_32x32,
     ihevc_chroma_recon_4x4, ihevc_chroma_recon_8x8, ihevc_chroma_recon_16x16, ihevc_chroma_recon_32x32] ! idx"

definition apf_itrans_recon_dc :: "nat \<Rightarrow> mem8 \<Rightarrow> int \<Rightarrow> int \<Rightarrow> int \<Rightarrow> int \<Rightarrow> nat \<Rightarrow> 16 word \<Rightarrow> mem8" where
  "apf_itrans_recon_dc is_chroma = [ihevcd_itrans_recon_dc_luma, ihevcd_itrans_recon_dc_chroma] ! is_chroma"

section \<open>Masks\<close>

lemma and_mask_bit: "z AND w = w \<Longrightarrow> bit w i \<Longrightarrow> bit z i" for z w :: "32 word"
  by (metis bit_and_iff)

lemma upper_bits:
  "\<forall>i \<in> set [4 ..< 8]. bit (0xF0 :: 32 word) i" "\<forall>i \<in> set [4 ..< 16]. bit (0xFFF0 :: 32 word) i"
  "\<forall>i \<in> set [8 ..< 16]. bit (0xFF00 :: 32 word) i" "\<forall>i \<in> set [4 ..< 32]. bit (0xFFFFFFF0 :: 32 word) i"
  "\<forall>i \<in> set [8 ..< 32]. bit (0xFFFFFF00 :: 32 word) i"
  by (simp_all add: upt_rec)

lemmas upper_bit = upper_bits [unfolded set_upt, THEN bspec, OF atLeastLessThan_iff [THEN iffD2], OF conjI]

text \<open>The number of coefficients an index of the table reads.\<close>

definition limit :: "nat \<Rightarrow> 32 word \<Rightarrow> nat" where
  "limit idx z = [4, 4, limit_8 z, limit_16 z, limit_32 z] ! idx"

lemma limit_bounds: "idx < 5 \<Longrightarrow> limit idx z \<le> trans_n idx"
  using lt5 [of idx] by (auto simp: limit_def trans_n_def limit_8_def limit_16_def limit_32_def)

lemma trans_n_le: "idx < 5 \<Longrightarrow> trans_n idx \<le> 32"
  using lt5 [of idx] by (auto simp: trans_n_def)

lemma limit_zero:
  assumes "idx < 5" "limit idx z \<le> i" "i < trans_n idx"
  shows "bit z i"
proof -
  consider "idx = 0 \<or> idx = 1" | "idx = 2" | "idx = 3" | "idx = 4" using assms(1) by linarith
  then show ?thesis
  proof cases
    case 1
    then show ?thesis using assms(2,3) by (auto simp: limit_def trans_n_def)
  next
    case 2
    then have "4 \<le> i" "i < 8" "z AND 0xF0 = 0xF0"
      using assms(2,3) by (auto simp: limit_def trans_n_def limit_8_def split: if_splits)
    then show ?thesis using upper_bit(1) and_mask_bit by blast
  next
    case 3
    then have "4 \<le> i \<and> i < 16 \<and> z AND 0xFFF0 = 0xFFF0 \<or> 8 \<le> i \<and> i < 16 \<and> z AND 0xFF00 = 0xFF00"
      using assms(2,3) by (auto simp: limit_def trans_n_def limit_16_def split: if_splits)
    then show ?thesis using upper_bit(2,3) and_mask_bit by blast
  next
    case 4
    then have "4 \<le> i \<and> i < 32 \<and> z AND 0xFFFFFFF0 = 0xFFFFFFF0 \<or> 8 \<le> i \<and> i < 32 \<and> z AND 0xFFFFFF00 = 0xFFFFFF00"
      using assms(2,3) by (auto simp: limit_def trans_n_def limit_32_def split: if_splits)
    then show ?thesis using upper_bit(4,5) and_mask_bit by blast
  qed
qed

text \<open>Masks are truthful when a marked column or row of the block is zero.\<close>

definition masks_true :: "nat \<Rightarrow> 32 word \<Rightarrow> 32 word \<Rightarrow> (int \<Rightarrow> int \<Rightarrow> int) \<Rightarrow> bool" where
  "masks_true n zero_cols zero_rows x \<longleftrightarrow>
    (\<forall>i j. i < n \<and> j < n \<and> (bit zero_cols j \<or> bit zero_rows i) \<longrightarrow> x (int i) (int j) = 0)"

section \<open>The stages are matrix products\<close>

text \<open>A butterfly reads only the coefficients below its limit.\<close>

lemma level_cong:
  assumes "\<And>i. i < lim \<Longrightarrow> x (int i) = y (int i)"
  shows "level M is lim x n = level M is lim y n"
proof -
  have "dot M (filter (\<lambda>i. i < lim) is) x k = dot M (filter (\<lambda>i. i < lim) is) y k" for k
    unfolding dot_def by (rule arg_cong [where f = sum_list], rule map_cong) (use assms in auto)
  then show ?thesis by (simp add: level_def)
qed

lemma itrans_1d_cong:
  assumes "idx < 5" "idx < 2 \<Longrightarrow> lim = 4" "\<And>i. i < lim \<Longrightarrow> x (int i) = y (int i)"
  shows "itrans_1d idx lim x = itrans_1d idx lim y"
proof -
  note c = level_cong [where x = x and y = y and lim = lim, OF assms(3)]
  consider "idx = 0" | "idx = 1" | "idx = 2" | "idx = 3" | "idx = 4" using assms(1) by linarith
  then show ?thesis
  proof cases
    case 1
    then have "x 0 = y 0" "x 1 = y 1" "x 2 = y 2" "x 3 = y 3"
      using assms(2) assms(3) [of 0] assms(3) [of 1] assms(3) [of 2] assms(3) [of 3] by simp_all
    then show ?thesis using 1 by (simp add: itrans_1d_def itrans_1d_dst_def)
  next
    case 2
    then have "lim = 4" using assms(2) by simp
    then show ?thesis using 2 c by (simp add: itrans_1d_def itrans_1d_4_def)
  qed (simp_all add: itrans_1d_def itrans_1d_8_def itrans_1d_16_def itrans_1d_32_def c)
qed

lemma sint_clip_s16 [simp]: "sint (word_of_int (CLIP_S16 x) :: 16 word) = CLIP_S16 x"
  by (rule sint_s16) (auto simp: CLIP_S16_def CLIP3_def)

text \<open>Row \<open>j\<close> of the temporary buffer after the first stage.\<close>

definition stage1_ref :: "nat \<Rightarrow> (int \<Rightarrow> int \<Rightarrow> int) \<Rightarrow> int \<Rightarrow> int \<Rightarrow> int" where
  "stage1_ref idx x j r = CLIP_S16 ((mat_1d (trans_n idx) (trans_mat idx) (\<lambda>i. x i j) (nat r) + 64) div 128)"

lemma mat_1d_zero: "(\<And>i. i < n \<Longrightarrow> x (int i) = 0) \<Longrightarrow> mat_1d n M x k = 0"
  by (simp add: mat_1d_def)

lemma stage1_ref_zero: "(\<And>i. i < trans_n idx \<Longrightarrow> x (int i) j = 0) \<Longrightarrow> stage1_ref idx x j r = 0"
  by (simp add: stage1_ref_def mat_1d_zero CLIP_S16_def CLIP3_def)

lemma itrans_stage1_update:
  assumes "int row_limit \<le> 32"
  shows "itrans_stage1 n oned rows row_limit src s src_strd zc tmp t =
    update_block (int row_limit) (int n) (\<lambda>j k. t + j * int n + k) (\<lambda>j k. t + j * int n + k)
      (\<lambda>j k _. if bit zc (nat j) then 0
        else word_of_int (CLIP_S16 ((oned rows (\<lambda>i. sint (src (s + j + i * src_strd))) ! nat k + 64) div 128))) tmp"
  unfolding itrans_stage1_def update_block_def for_cols_bit [OF assms]
  by (rule for_to_cong) (simp add: Let_def)

lemma itrans_stage1_spec:
  fixes src :: mem16
  assumes "idx < 5" "row_limit \<le> trans_n idx" "0 \<le> j" "j < int row_limit" "0 \<le> r" "r < int (trans_n idx)"
    and zc: "\<And>i. bit zc (nat j) \<Longrightarrow> i < trans_n idx \<Longrightarrow> sint (src (s + j + int i * src_strd)) = 0"
    and zr: "\<And>i. rows \<le> i \<Longrightarrow> i < trans_n idx \<Longrightarrow> sint (src (s + j + int i * src_strd)) = 0"
  shows "sint (itrans_stage1 (trans_n idx) (itrans_1d idx) rows row_limit src s src_strd zc tmp t (t + j * int (trans_n idx) + r)) =
    stage1_ref idx (\<lambda>i j. sint (src (s + j + i * src_strd))) j r"
proof -
  let ?n = "int (trans_n idx)"
  have p: "in_place (int row_limit) ?n (\<lambda>j k. t + j * ?n + k) (\<lambda>j k. t + j * ?n + k)"
    by (rule in_place_block) simp
  have l: "int row_limit \<le> 32" using assms(2) trans_n_le [OF assms(1)] by simp
  show ?thesis
  proof (cases "bit zc (nat j)")
    case True
    then have "stage1_ref idx (\<lambda>i j. sint (src (s + j + i * src_strd))) j r = 0" by (intro stage1_ref_zero zc)
    then show ?thesis unfolding itrans_stage1_update [OF l] update_block_in [OF p assms(3-6)] using True by simp
  next
    case False
    have "nat r < trans_n idx" using assms(5,6) by simp
    note y = itrans_1d_mat [where x = "\<lambda>i. sint (src (s + j + i * src_strd))", OF assms(1) zr this]
    show ?thesis
      unfolding itrans_stage1_update [OF l] update_block_in [OF p assms(3-6)] if_not_P [OF False] sint_clip_s16 stage1_ref_def
      by (simp add: y)
  qed
qed

text \<open>The residual of a block of coefficients.\<close>

definition residual :: "nat \<Rightarrow> nat \<Rightarrow> (int \<Rightarrow> int \<Rightarrow> int) \<Rightarrow> int \<Rightarrow> int \<Rightarrow> int" where
  "residual idx shift x r c = itrans_out shift (mat_1d (trans_n idx) (trans_mat idx) (\<lambda>j. stage1_ref idx x j r) (nat c))"

text \<open>What the second stage reads, row by row, when the masks are truthful.\<close>

lemma itrans_second_input:
  fixes src tmp :: mem16 and s src_strd t r c :: int
  assumes idx: "idx < 5" and rows: "rows = limit idx zr \<or> rows = trans_n idx" and r: "0 \<le> r" "r < int (trans_n idx)"
    and m: "masks_true (trans_n idx) zc zr (\<lambda>i j. sint (src (s + j + i * src_strd)))" and c: "0 \<le> c" "c < int (trans_n idx)"
  defines "tmp' \<equiv> itrans_stage1 (trans_n idx) (itrans_1d idx) rows (limit idx zc) src s src_strd zc tmp t"
  shows "itrans_1d idx (limit idx zc) (\<lambda>i. sint (tmp' (t + r + i * int (trans_n idx)))) ! nat c =
    mat_1d (trans_n idx) (trans_mat idx) (\<lambda>j. stage1_ref idx (\<lambda>i j. sint (src (s + j + i * src_strd))) j r) (nat c)"
proof -
  let ?x = "\<lambda>i j. sint (src (s + j + i * src_strd))"
  let ?y = "\<lambda>j. stage1_ref idx ?x j r"
  have z: "?x (int i) (int j) = 0" if "i < trans_n idx" "j < trans_n idx" "bit zc j \<or> bit zr i" for i j
    using m that by (auto simp: masks_true_def)
  have "itrans_1d idx (limit idx zc) (\<lambda>i. sint (tmp' (t + r + i * int (trans_n idx)))) = itrans_1d idx (limit idx zc) ?y"
  proof (rule itrans_1d_cong [OF idx])
    show "limit idx zc = 4" if "idx < 2" using that by (cases idx) (auto simp: limit_def)
    fix j assume j: "j < limit idx zc"
    then have jn: "j < trans_n idx" using limit_bounds [OF idx, of zc] by simp
    have "sint (tmp' (t + int j * int (trans_n idx) + r)) = ?y (int j)"
      unfolding tmp'_def
    proof (rule itrans_stage1_spec [OF idx limit_bounds [OF idx] _ _ r])
      show "?x (int i) (int j) = 0" if "rows \<le> i" "i < trans_n idx" for i
        using z [OF that(2) jn] limit_zero [OF idx _ that(2), of zr] that rows by auto
    qed (use j z jn in auto)
    then show "sint (tmp' (t + r + int j * int (trans_n idx))) = ?y (int j)" by (simp add: algebra_simps)
  qed
  moreover have "itrans_1d idx (limit idx zc) ?y ! nat c = mat_1d (trans_n idx) (trans_mat idx) ?y (nat c)"
  proof (rule itrans_1d_mat [OF idx])
    show "?y (int j) = 0" if "limit idx zc \<le> j" "j < trans_n idx" for j
      by (rule stage1_ref_zero) (use z that limit_zero [OF idx that] in auto)
  qed (use c in simp)
  ultimately show ?thesis by simp
qed

lemma itrans_stage2_update:
  "itrans_stage2 n oned rows shift mx step tmp t m p d pred_strd dst_strd =
    update_block (int n) (int n) (\<lambda>j k. d + j * dst_strd + k * step) (\<lambda>j k. p + j * pred_strd + k * step)
      (\<lambda>j k v. word_of_int (CLIP3 (itrans_out shift (oned rows (\<lambda>i. sint (tmp (t + j + i * int n))) ! nat k) + uint v) 0 mx)) m"
  by (simp add: itrans_stage2_def update_block_def Let_def)

text \<open>A routine with truthful masks, at a position of the block and elsewhere.\<close>

lemma itrans_2d_spec:
  fixes src :: mem16
  assumes idx: "idx < 5" and rows: "rows = limit idx zr \<or> rows = trans_n idx"
    and m: "masks_true (trans_n idx) zc zr (\<lambda>i j. sint (src (s + j + i * src_strd)))"
  shows "itrans_2d (trans_n idx) (itrans_1d idx) rows (limit idx zc) shift mx step src s tmp t m p d src_strd pred_strd dst_strd zc =
    update_block (int (trans_n idx)) (int (trans_n idx)) (\<lambda>j k. d + j * dst_strd + k * step) (\<lambda>j k. p + j * pred_strd + k * step)
      (\<lambda>j k v. word_of_int (CLIP3 (residual idx shift (\<lambda>i j. sint (src (s + j + i * src_strd))) j k + uint v) 0 mx)) m"
  unfolding itrans_2d_def itrans_stage2_update
  by (rule update_block_cong) (simp add: itrans_second_input [OF idx rows _ _ m] residual_def)

lemma itrans_res_2d_spec:
  fixes src :: mem16
  assumes idx: "idx < 5" and rows: "rows = limit idx zr \<or> rows = trans_n idx"
    and m: "masks_true (trans_n idx) zc zr (\<lambda>i j. sint (src (s + j + i * src_strd)))"
  shows "itrans_res_2d (trans_n idx) (itrans_1d idx) rows (limit idx zc) shift src s tmp t dst d src_strd dst_strd zc =
    update_block (int (trans_n idx)) (int (trans_n idx)) (\<lambda>j k. d + j * dst_strd + k) (\<lambda>j k. d + j * dst_strd + k)
      (\<lambda>j k _. word_of_int (residual idx shift (\<lambda>i j. sint (src (s + j + i * src_strd))) j k)) dst"
proof -
  have "itrans_res_2d (trans_n idx) (itrans_1d idx) rows (limit idx zc) shift src s tmp t dst d src_strd dst_strd zc =
    update_block (int (trans_n idx)) (int (trans_n idx)) (\<lambda>j k. d + j * dst_strd + k) (\<lambda>j k. d + j * dst_strd + k)
      (\<lambda>j k _. word_of_int (itrans_out shift (itrans_1d idx (limit idx zc) (\<lambda>i. sint (itrans_stage1 (trans_n idx) (itrans_1d idx)
        rows (limit idx zc) src s src_strd zc tmp t (t + j + i * int (trans_n idx)))) ! nat k))) dst"
    by (simp add: itrans_res_2d_def itrans_res_stage2_def update_block_def Let_def)
  also have "\<dots> = update_block (int (trans_n idx)) (int (trans_n idx)) (\<lambda>j k. d + j * dst_strd + k) (\<lambda>j k. d + j * dst_strd + k)
      (\<lambda>j k _. word_of_int (residual idx shift (\<lambda>i j. sint (src (s + j + i * src_strd))) j k)) dst"
    by (rule update_block_cong) (simp add: itrans_second_input [OF idx rows _ _ m] residual_def)
  finally show ?thesis .
qed

section \<open>The tables of routines\<close>

text \<open>The index of a transform in the tables: the entries after the first five are for chroma.\<close>

definition luma_idx :: "nat \<Rightarrow> nat" where
  "luma_idx idx = (if idx < 5 then idx else idx - 4)"

definition pixel_step :: "nat \<Rightarrow> int" where
  "pixel_step idx = (if idx < 5 then 1 else 2)"

lemma luma_idx_lt: "idx < 9 \<Longrightarrow> luma_idx idx < 5"
  by (auto simp: luma_idx_def)

lemma lt9: "idx < 9 \<Longrightarrow> idx \<in> {0, 1, 2, 3, 4, 5, 6, 7, 8 :: nat}"
  by auto

lemma apf_itrans_recon_2d:
  assumes "idx < 9"
  obtains rows where "rows = limit (luma_idx idx) zr \<or> rows = trans_n (luma_idx idx)"
    "apf_itrans_recon idx src s tmp t m p d src_strd pred_strd dst_strd zc zr =
      itrans_2d (trans_n (luma_idx idx)) (itrans_1d (luma_idx idx)) rows (limit (luma_idx idx) zc) 12 255 (pixel_step idx)
        src s tmp t m p d src_strd pred_strd dst_strd zc"
proof -
  let ?rows = "if idx = 6 then 8 else limit (luma_idx idx) zr"
  have "?rows = limit (luma_idx idx) zr \<or> ?rows = trans_n (luma_idx idx)" by (auto simp: luma_idx_def trans_n_def)
  moreover have "apf_itrans_recon idx src s tmp t m p d src_strd pred_strd dst_strd zc zr =
      itrans_2d (trans_n (luma_idx idx)) (itrans_1d (luma_idx idx)) ?rows (limit (luma_idx idx) zc) 12 255 (pixel_step idx)
        src s tmp t m p d src_strd pred_strd dst_strd zc"
    using lt9 [OF assms]
    by (elim insertE) (simp_all add: apf_itrans_recon_def luma_idx_def pixel_step_def trans_n_def itrans_1d_def limit_def
        ihevc_itrans_recon_4x4_ttype1_def ihevc_itrans_recon_4x4_def ihevc_itrans_recon_8x8_def ihevc_itrans_recon_16x16_def
        ihevc_itrans_recon_32x32_def ihevc_chroma_itrans_recon_4x4_def ihevc_chroma_itrans_recon_8x8_def
        ihevc_chroma_itrans_recon_16x16_def ihevc_chroma_itrans_recon_32x32_def)
  ultimately show thesis by (rule that)
qed

lemma apf_itrans_res_2d:
  assumes "idx < 5"
  shows "apf_itrans_res idx src s tmp t dst d src_strd dst_strd zc zr bit_depth =
    itrans_res_2d (trans_n idx) (itrans_1d idx) (limit idx zr) (limit idx zc) (20 - bit_depth)
      src s tmp t dst d src_strd dst_strd zc"
  using lt5 [OF assms]
  by (elim insertE) (simp_all add: apf_itrans_res_def trans_n_def itrans_1d_def limit_def
      ihevc_itrans_res_4x4_ttype1_def ihevc_itrans_res_4x4_def ihevc_itrans_res_8x8_def ihevc_itrans_res_16x16_def
      ihevc_itrans_res_32x32_def)

lemma apf_recon_block:
  assumes "idx < 9"
  shows "apf_recon idx src s m p d src_strd pred_strd dst_strd zc =
    recon_block (int (trans_n (luma_idx idx))) 255 (pixel_step idx) src s m p d src_strd pred_strd dst_strd zc"
  using lt9 [OF assms]
  by (elim insertE) (simp_all add: apf_recon_def luma_idx_def pixel_step_def trans_n_def
      ihevc_recon_4x4_ttype1_def ihevc_recon_4x4_def ihevc_recon_8x8_def ihevc_recon_16x16_def ihevc_recon_32x32_def
      ihevc_chroma_recon_4x4_def ihevc_chroma_recon_8x8_def ihevc_chroma_recon_16x16_def ihevc_chroma_recon_32x32_def)

text \<open>What an entry of the table does to the memory.\<close>

lemma apf_itrans_recon_update:
  fixes src :: mem16
  assumes "idx < 9" "masks_true (trans_n (luma_idx idx)) zc zr (\<lambda>i j. sint (src (s + j + i * src_strd)))"
  shows "apf_itrans_recon idx src s tmp t m p d src_strd pred_strd dst_strd zc zr =
    update_block (int (trans_n (luma_idx idx))) (int (trans_n (luma_idx idx)))
      (\<lambda>j k. d + j * dst_strd + k * pixel_step idx) (\<lambda>j k. p + j * pred_strd + k * pixel_step idx)
      (\<lambda>j k v. word_of_int (CLIP_U8 (residual (luma_idx idx) 12 (\<lambda>i j. sint (src (s + j + i * src_strd))) j k + uint v))) m"
proof -
  obtain rows where r: "rows = limit (luma_idx idx) zr \<or> rows = trans_n (luma_idx idx)"
    "apf_itrans_recon idx src s tmp t m p d src_strd pred_strd dst_strd zc zr =
      itrans_2d (trans_n (luma_idx idx)) (itrans_1d (luma_idx idx)) rows (limit (luma_idx idx) zc) 12 255 (pixel_step idx)
        src s tmp t m p d src_strd pred_strd dst_strd zc"
    using apf_itrans_recon_2d [OF assms(1)] by metis
  show ?thesis unfolding r(2) itrans_2d_spec [OF luma_idx_lt [OF assms(1)] r(1) assms(2)] CLIP_U8_def ..
qed

lemma recon_block_update:
  assumes "n \<le> 32"
  shows "recon_block n mx step src s m p d src_strd pred_strd dst_strd zc =
    update_block n n (\<lambda>i j. d + i * step + j * dst_strd) (\<lambda>i j. p + i * step + j * pred_strd)
      (\<lambda>i j v. if bit zc (nat i) then v else word_of_int (CLIP3 (sint (src (s + i + j * src_strd)) + uint v) 0 mx)) m"
  unfolding recon_block_def update_block_def for_cols_bit [OF assms]
  by (rule for_to_cong) simp

section \<open>Properties\<close>

text \<open>
  C4: The inverse transforms with their butterflies and shortcuts are exact. For every routine of the
  decoder's table, luma and chroma, and any 16-bit coefficients, if the columns and rows marked as zero
  are zero, then each reconstructed sample is the clipped sum of its prediction and of the residual
  defined by the two clipped products with the transform matrix.
\<close>

theorem itrans_recon_exact:
  fixes src tmp :: mem16 and m :: mem8 and s t p d src_strd pred_strd dst_strd r c :: int
  assumes idx: "idx < 9"
  defines "n \<equiv> trans_n (luma_idx idx)" and "step \<equiv> pixel_step idx" and "x \<equiv> \<lambda>i j. sint (src (s + j + i * src_strd))"
  assumes masks: "masks_true n zero_cols zero_rows x"
    and place: "in_place (int n) (int n) (\<lambda>r c. d + r * dst_strd + c * step) (\<lambda>r c. p + r * pred_strd + c * step)"
    and rc: "0 \<le> r" "r < int n" "0 \<le> c" "c < int n"
  shows "uint (apf_itrans_recon idx src s tmp t m p d src_strd pred_strd dst_strd zero_cols zero_rows (d + r * dst_strd + c * step)) =
    CLIP_U8 (residual (luma_idx idx) 12 x r c + uint (m (p + r * pred_strd + c * step)))"
  unfolding step_def apf_itrans_recon_update [OF idx masks [unfolded n_def x_def]]
    update_block_in [OF place [unfolded n_def step_def] rc [unfolded n_def]]
  by (simp add: x_def)

text \<open>A block with one coefficient, in the second row and column.\<close>

lemma masks_true_example: "masks_true 8 0xFFFFFFFD 0xFFFFFFFD (\<lambda>i j. sint (if 0 + j + i * 8 = 9 then 100 else 0 :: 16 word))"
  unfolding masks_true_def
proof (intro allI impI)
  fix i j :: nat assume a: "i < 8 \<and> j < 8 \<and> (bit (0xFFFFFFFD :: 32 word) j \<or> bit (0xFFFFFFFD :: 32 word) i)"
  have "\<not> (i = 1 \<and> j = 1)" using a by auto
  moreover have "i < 8" "j < 8" using a by simp_all
  ultimately have "0 + int j + int i * 8 \<noteq> 9" by presburger
  then show "sint (if 0 + int j + int i * 8 = 9 then 100 else 0 :: 16 word) = 0" by simp
qed

lemma itrans_recon_exact_witness:
  "uint (apf_itrans_recon 6 (\<lambda>a. if a = 9 then 100 else 0) 0 (\<lambda>_. 0) 0 (\<lambda>a. word_of_int a) 0 0 8 16 16 0xFFFFFFFD 0xFFFFFFFD (0 + 3 * 16 + 2 * 2)) =
    CLIP_U8 (residual 2 12 (\<lambda>i j. sint (if 0 + j + i * 8 = 9 then 100 else 0 :: 16 word)) 3 2 + uint (word_of_int (0 + 3 * 16 + 2 * 2) :: 8 word))"
proof -
  have i: "luma_idx 6 = 2" "pixel_step 6 = 2" "trans_n 2 = 8" by (simp_all add: luma_idx_def pixel_step_def trans_n_def)
  have "in_place 8 8 (\<lambda>r c. 0 + r * 16 + c * 2) (\<lambda>r c. 0 + r * 16 + c * 2)" by (rule in_place_step) simp_all
  then show ?thesis
    using itrans_recon_exact [where idx = 6 and zero_cols = "0xFFFFFFFD" and zero_rows = "0xFFFFFFFD" and src = "\<lambda>a. if a = 9 then 100 else 0"
        and s = 0 and src_strd = 8 and d = 0 and dst_strd = 16 and p = 0 and pred_strd = 16 and r = 3 and c = 2
        and tmp = "\<lambda>_. 0" and t = 0 and m = "\<lambda>a. word_of_int a"]
      masks_true_example by (simp add: i)
qed

text \<open>
  C5: The one-step and the two-step reconstructions agree: inverse transform into a buffer of
  residuals at 8 bits, then addition to the prediction, leaves the same memory as the routine that does
  both, for every entry of the decoder's tables and truthful masks.
\<close>

theorem recon_of_residual:
  fixes src tmp res :: mem16 and m :: mem8 and s t q p d src_strd pred_strd dst_strd :: int
  assumes idx: "idx < 9"
  defines "n \<equiv> trans_n (luma_idx idx)" and "step \<equiv> pixel_step idx"
  assumes masks: "masks_true n zero_cols zero_rows (\<lambda>i j. sint (src (s + j + i * src_strd)))"
    and place: "in_place (int n) (int n) (\<lambda>r c. d + r * dst_strd + c * step) (\<lambda>r c. p + r * pred_strd + c * step)"
  shows "apf_recon idx (apf_itrans_res (luma_idx idx) src s tmp t res q src_strd (int n) zero_cols zero_rows 8)
      q m p d (int n) pred_strd dst_strd 0 =
    apf_itrans_recon idx src s tmp t m p d src_strd pred_strd dst_strd zero_cols zero_rows"
proof -
  let ?k = "luma_idx idx" and ?x = "\<lambda>i j. sint (src (s + j + i * src_strd))"
  let ?res = "apf_itrans_res ?k src s tmp t res q src_strd (int n) zero_cols zero_rows 8"
  note k = luma_idx_lt [OF idx]
  have n32: "int n \<le> 32" using trans_n_le [OF k] by (simp add: n_def)
  have res: "sint (?res (q + j * int n + i)) = residual ?k 12 ?x j i" if "0 \<le> i" "i < int n" "0 \<le> j" "j < int n" for i j
    unfolding apf_itrans_res_2d [OF k] n_def itrans_res_2d_spec [OF k disjI1 [OF refl] masks [unfolded n_def]]
      update_block_in [OF in_place_block [OF order_refl] that(3,4,1,2) [unfolded n_def]]
    by (simp add: residual_def itrans_out_def)
  have "apf_recon idx ?res q m p d (int n) pred_strd dst_strd 0 =
    update_block (int n) (int n) (\<lambda>i j. d + i * step + j * dst_strd) (\<lambda>i j. p + i * step + j * pred_strd)
      (\<lambda>i j v. word_of_int (CLIP_U8 (sint (?res (q + i + j * int n)) + uint v))) m"
    unfolding apf_recon_block [OF idx] n_def [symmetric] step_def [symmetric] recon_block_update [OF n32] CLIP_U8_def by simp
  also have "\<dots> = update_block (int n) (int n) (\<lambda>i j. d + j * dst_strd + i * step) (\<lambda>i j. p + j * pred_strd + i * step)
      (\<lambda>i j v. word_of_int (CLIP_U8 (sint (?res (q + j * int n + i)) + uint v))) m"
    by (simp only: add.assoc add.commute [of "_ * step"] add.commute [of _ "_ * int n"])
  also have "\<dots> = update_block (int n) (int n) (\<lambda>i j. d + j * dst_strd + i * step) (\<lambda>i j. p + j * pred_strd + i * step)
      (\<lambda>i j v. word_of_int (CLIP_U8 (residual ?k 12 ?x j i + uint v))) m"
    by (rule update_block_cong) (simp only: res)
  also have "\<dots> = update_block (int n) (int n) (\<lambda>j i. d + j * dst_strd + i * step) (\<lambda>j i. p + j * pred_strd + i * step)
      (\<lambda>j i v. word_of_int (CLIP_U8 (residual ?k 12 ?x j i + uint v))) m"
    by (rule update_block_transpose [OF place])
  also have "\<dots> = apf_itrans_recon idx src s tmp t m p d src_strd pred_strd dst_strd zero_cols zero_rows"
    using masks by (simp add: apf_itrans_recon_update [OF idx] n_def step_def)
  finally show ?thesis .
qed

lemma recon_of_residual_witness:
  "apf_recon 6 (apf_itrans_res 2 (\<lambda>a. if a = 9 then 100 else 0) 0 (\<lambda>_. 0) 0 (\<lambda>_. 0) 0 8 8 0xFFFFFFFD 0xFFFFFFFD 8)
      0 (\<lambda>a. word_of_int a) 0 0 8 16 16 0 =
    apf_itrans_recon 6 (\<lambda>a. if a = 9 then 100 else 0) 0 (\<lambda>_. 0) 0 (\<lambda>a. word_of_int a) 0 0 8 16 16 0xFFFFFFFD 0xFFFFFFFD"
proof -
  have i: "luma_idx 6 = 2" "pixel_step 6 = 2" "trans_n 2 = 8" by (simp_all add: luma_idx_def pixel_step_def trans_n_def)
  have "in_place 8 8 (\<lambda>r c. 0 + r * 16 + c * 2) (\<lambda>r c. 0 + r * 16 + c * 2)" by (rule in_place_step) simp_all
  then show ?thesis
    using recon_of_residual [where idx = 6 and zero_cols = "0xFFFFFFFD" and zero_rows = "0xFFFFFFFD" and src = "\<lambda>a. if a = 9 then 100 else 0"
        and s = 0 and src_strd = 8 and d = 0 and dst_strd = 16 and p = 0 and pred_strd = 16 and q = 0
        and tmp = "\<lambda>_. 0" and t = 0 and res = "\<lambda>_. 0" and m = "\<lambda>a. word_of_int a"]
      masks_true_example by (simp add: i)
qed

text \<open>The transform of a single coefficient: the first row of every cosine matrix is 64.\<close>

lemma trans_first_row: "1 \<le> idx \<Longrightarrow> idx < 5 \<Longrightarrow> k < trans_n idx \<Longrightarrow> trans_mat idx ! 0 ! k = 64"
proof -
  have "\<forall>idx \<in> {1, 2, 3, 4}. \<forall>k \<in> set [0 ..< trans_n idx]. trans_mat idx ! 0 ! k = 64" by code_simp
  moreover assume "1 \<le> idx" "idx < 5" "k < trans_n idx"
  moreover then have "idx \<in> {1, 2, 3, 4}" by auto
  ultimately show ?thesis by auto
qed

lemma mat_1d_dc:
  assumes "1 \<le> idx" "idx < 5" "\<And>i. 0 < i \<Longrightarrow> i < trans_n idx \<Longrightarrow> x (int i) = 0" "k < trans_n idx"
  shows "mat_1d (trans_n idx) (trans_mat idx) x k = 64 * x 0"
proof -
  have n: "0 < trans_n idx" using assms(4) by simp
  have "mat_1d (trans_n idx) (trans_mat idx) x k = (\<Sum>i \<in> {0}. trans_mat idx ! i ! k * x (int i))"
    unfolding mat_1d_def by (rule sum.mono_neutral_right) (use assms(3) n in auto)
  then show ?thesis using trans_first_row [OF assms(1,2,4)] by simp
qed

lemma residual_dc:
  assumes "1 \<le> idx" "idx < 5" "\<And>i j. i < trans_n idx \<Longrightarrow> j < trans_n idx \<Longrightarrow> 0 < i + j \<Longrightarrow> x (int i) (int j) = 0"
    and "0 \<le> r" "r < int (trans_n idx)" "0 \<le> c" "c < int (trans_n idx)"
  shows "residual idx shift x r c = itrans_dc_value (x 0 0) shift"
proof -
  have rc: "nat r < trans_n idx" "nat c < trans_n idx" using assms by simp_all
  have "stage1_ref idx x (int j) r = 0" if "0 < j" "j < trans_n idx" for j
    by (rule stage1_ref_zero) (use assms(3) that in simp)
  then have "residual idx shift x r c = itrans_out shift (64 * stage1_ref idx x 0 r)"
    unfolding residual_def by (subst mat_1d_dc [OF assms(1,2) _ rc(2)]) simp_all
  also have "stage1_ref idx x 0 r = CLIP_S16 ((64 * x 0 0 + 64) div 128)"
    unfolding stage1_ref_def
    by (subst mat_1d_dc [OF assms(1,2) _ rc(1)]) (use assms(3) [of _ 0] rc in simp_all)
  finally show ?thesis by (simp add: itrans_dc_value_def itrans_out_def mult.commute)
qed

text \<open>What the shortcut does to the memory; the size is given by its logarithm.\<close>

lemma apf_itrans_recon_dc_update:
  assumes "idx < 9" "(2 :: int) ^ lg = int (trans_n (luma_idx idx))"
  shows "apf_itrans_recon_dc (if idx < 5 then 0 else 1) m p d pred_strd dst_strd lg coeff =
    update_block (int (trans_n (luma_idx idx))) (int (trans_n (luma_idx idx)))
      (\<lambda>r c. d + r * dst_strd + c * pixel_step idx) (\<lambda>r c. p + r * pred_strd + c * pixel_step idx)
      (\<lambda>r c v. word_of_int (CLIP_U8 (itrans_dc_value (sint coeff) 12 + uint v))) m"
  by (simp add: apf_itrans_recon_dc_def ihevcd_itrans_recon_dc_luma_def ihevcd_itrans_recon_dc_chroma_def
      itrans_dc_block_def Let_def assms(2) pixel_step_def CLIP_U8_def add.commute)

text \<open>A residual depends only on the coefficients of the block.\<close>

lemma residual_cong:
  assumes "\<And>i j. i < trans_n idx \<Longrightarrow> j < trans_n idx \<Longrightarrow> x (int i) (int j) = y (int i) (int j)"
  shows "residual idx shift x r c = residual idx shift y r c"
  using assms by (simp add: residual_def stage1_ref_def mat_1d_def)

text \<open>
  C6: The shortcut for a block whose only coefficient is the first one leaves the same memory as the
  full inverse transform of that block, for every size, luma and chroma; only the 4x4 sine transform
  has none, and the decoder does not use it there.
\<close>

theorem itrans_dc_shortcut:
  fixes src tmp :: mem16 and m :: mem8 and s t p d src_strd pred_strd dst_strd :: int
  assumes idx: "1 \<le> idx" "idx < 9"
  defines "n \<equiv> trans_n (luma_idx idx)" and "step \<equiv> pixel_step idx"
  assumes dc: "\<And>i j. i < n \<Longrightarrow> j < n \<Longrightarrow> 0 < i + j \<Longrightarrow> src (s + int j + int i * src_strd) = 0"
    and masks: "\<not> bit zero_cols 0" "\<not> bit zero_rows 0"
  shows "apf_itrans_recon_dc (if idx < 5 then 0 else 1) m p d pred_strd dst_strd ([2, 2, 3, 4, 5] ! luma_idx idx) (src s) =
    apf_itrans_recon idx src s tmp t m p d src_strd pred_strd dst_strd zero_cols zero_rows"
proof -
  let ?k = "luma_idx idx" and ?x = "\<lambda>i j. sint (src (s + j + i * src_strd))"
  have k: "1 \<le> ?k" "?k < 5" using idx by (auto simp: luma_idx_def)
  have x: "?x (int i) (int j) = 0" if "i < n" "j < n" "0 < i + j" for i j using dc [OF that] by simp
  have masks: "masks_true n zero_cols zero_rows ?x"
    unfolding masks_true_def
  proof (intro allI impI)
    fix i j assume a: "i < n \<and> j < n \<and> (bit zero_cols j \<or> bit zero_rows i)"
    then have "0 < i + j" using masks by (cases i; cases j) auto
    then show "?x (int i) (int j) = 0" using a x by blast
  qed
  have size: "(2 :: int) ^ ([2, 2, 3, 4, 5] ! ?k) = int n"
    using lt5 [OF k(2)] by (auto simp: n_def trans_n_def)
  have "apf_itrans_recon_dc (if idx < 5 then 0 else 1) m p d pred_strd dst_strd ([2, 2, 3, 4, 5] ! ?k) (src s) =
    update_block (int n) (int n) (\<lambda>r c. d + r * dst_strd + c * step) (\<lambda>r c. p + r * pred_strd + c * step)
      (\<lambda>r c v. word_of_int (CLIP_U8 (itrans_dc_value (sint (src s)) 12 + uint v))) m"
    unfolding n_def step_def by (rule apf_itrans_recon_dc_update [OF idx(2) size [unfolded n_def]])
  also have "\<dots> = update_block (int n) (int n) (\<lambda>r c. d + r * dst_strd + c * step) (\<lambda>r c. p + r * pred_strd + c * step)
      (\<lambda>r c v. word_of_int (CLIP_U8 (residual ?k 12 ?x r c + uint v))) m"
    by (rule update_block_cong) (use residual_dc [OF k, where x = ?x] x in \<open>simp add: n_def\<close>)
  also have "\<dots> = apf_itrans_recon idx src s tmp t m p d src_strd pred_strd dst_strd zero_cols zero_rows"
    using masks by (simp add: apf_itrans_recon_update [OF idx(2)] n_def step_def)
  finally show ?thesis .
qed

lemma itrans_dc_shortcut_witness:
  "apf_itrans_recon_dc 0 (\<lambda>a. word_of_int a) 0 0 32 32 5 (if (0 :: int) = 0 then 517 else 0) =
    apf_itrans_recon 4 (\<lambda>a. if a = 0 then 517 else 0) 0 (\<lambda>_. 0) 0 (\<lambda>a. word_of_int a) 0 0 32 32 32 0xFFFFFFFE 0xFFFFFFFE"
proof -
  have i: "luma_idx 4 = 4" "trans_n 4 = 32" by (simp_all add: luma_idx_def trans_n_def)
  have z: "0 < i \<or> 0 < j \<Longrightarrow> int j + int i * 32 \<noteq> 0" for i j by presburger
  show ?thesis
    using itrans_dc_shortcut [where idx = 4 and src = "\<lambda>a. if a = 0 then 517 else 0" and s = 0 and src_strd = 32
        and zero_cols = "0xFFFFFFFE" and zero_rows = "0xFFFFFFFE" and m = "\<lambda>a. word_of_int a" and p = 0 and d = 0
        and pred_strd = 32 and dst_strd = 32 and tmp = "\<lambda>_. 0" and t = 0]
    by (simp add: i z)
qed

end
