(* ===== verification/Coeff_Unpack.thy ===== *)
theory Coeff_Unpack
  imports Itrans_Recon Bit_Sequence
begin

text \<open>
  From parsed levels to reconstructed samples, \<^verbatim>\<open>decoder/ihevcd_iquant_itrans_recon_ctb.c\<close>: inverse
  quantisation (\<^verbatim>\<open>IQUANT\<close> of \<^verbatim>\<open>ihevc_trans_macros.h\<close>), \<^verbatim>\<open>ihevcd_unpack_coeffs\<close>, which places the
  levels of the coded 4x4 blocks, records which columns and rows it touched and notices a block with
  only the first coefficient, and the choice of the reconstruction routine for a plane of a transform
  unit. The packed levels are a list of records; a memory of 16-bit words holds the coefficients.

  What is proved: the inverse quantisation does not overflow and its shortcut for 4x4 blocks loses
  nothing; unpacking places each level at its scan position; masks and shortcut are sound, so the
  reconstruction is that of the plain coefficient block.
\<close>

unbundle bit_operations_syntax

section \<open>Inverse quantisation\<close>

definition SHL_NEG :: "int \<Rightarrow> int \<Rightarrow> int" where
  "SHL_NEG val shift = (if shift < 0 then val div 2 ^ nat (- shift) else val * 2 ^ nat shift)"

definition SHR_NEG :: "int \<Rightarrow> int \<Rightarrow> int" where
  "SHR_NEG val shift = (if shift > 0 then val div 2 ^ nat shift else val * 2 ^ nat (- shift))"

definition iquant_tmp :: "int \<Rightarrow> int \<Rightarrow> int \<Rightarrow> int \<Rightarrow> int" where
  "iquant_tmp coeff dequant_coeff shift_iq qp_div =
    (let add_iq = SHL_NEG 1 (shift_iq - qp_div - 1);
         tmp = coeff * dequant_coeff;
         tmp = tmp + add_iq
     in SHR_NEG tmp (shift_iq - qp_div))"

definition IQUANT :: "int \<Rightarrow> int \<Rightarrow> int \<Rightarrow> int \<Rightarrow> int" where
  "IQUANT coeff dequant_coeff shift_iq qp_div = CLIP_S16 (iquant_tmp coeff dequant_coeff shift_iq qp_div)"

definition iquant_clip :: "int \<Rightarrow> int \<Rightarrow> int \<Rightarrow> int" where
  "iquant_clip coeff shift_iq qp_div =
    (let coeff_bit_range = (if qp_div > shift_iq then 10 else 16);
         coeff_min = - (2 ^ (coeff_bit_range - 1));
         coeff_max = 2 ^ (coeff_bit_range - 1) - 1
     in CLIP3 coeff coeff_min coeff_max)"

definition IQUANT_4x4 :: "int \<Rightarrow> int \<Rightarrow> int \<Rightarrow> int \<Rightarrow> int" where
  "IQUANT_4x4 coeff dequant_coeff shift_iq qp_div =
     CLIP_S16 (iquant_tmp (iquant_clip coeff shift_iq qp_div) dequant_coeff shift_iq qp_div)"

definition g_ihevc_iquant_scales :: "int list" where
  "g_ihevc_iquant_scales = [40, 45, 51, 57, 64, 72]"

section \<open>Unpacking\<close>

record tu_sblk_coeff_data =
  u2_subblk_pos :: "16 word"
  u2_sig_coeff_map :: "16 word"
  ai2_level :: "16 word list"

text \<open>The arguments of \<^verbatim>\<open>ihevcd_unpack_coeffs\<close> that do not change; \<open>is_dst\<close> stands for
  \<^verbatim>\<open>e_trans_type == DST_4x4\<close>, the scan byte is the second one of the packed data.\<close>

record unpack_args =
  log2_trans_size :: nat
  scan_byte :: nat
  pi2_dequant_matrix :: "nat \<Rightarrow> 16 word"
  qp_rem :: nat
  qp_div :: int
  is_dst :: bool
  trans_quant_bypass :: bool
  bit_depth :: nat

definition gau1_ihevc_invscan4x4 :: "nat list list" where
  "gau1_ihevc_invscan4x4 =
    [[0, 4, 1, 8, 5, 2, 12, 9, 6, 3, 13, 10, 7, 14, 11, 15],
     [0, 1, 2, 3, 4, 5, 6, 7, 8, 9, 10, 11, 12, 13, 14, 15],
     [0, 4, 8, 12, 1, 5, 9, 13, 2, 6, 10, 14, 3, 7, 11, 15]]"

abbreviation trans_size :: "unpack_args \<Rightarrow> nat" where "trans_size a \<equiv> 2 ^ log2_trans_size a"

definition trans_skip :: "unpack_args \<Rightarrow> bool" where
  "trans_skip a \<longleftrightarrow> odd (scan_byte a)"

definition scan_type :: "unpack_args \<Rightarrow> nat" where
  "scan_type a = (scan_byte a mod 16) div 2"

text \<open>The value of a level at a position of the block, given the row of the quantisation matrix.\<close>

definition level_value :: "unpack_args \<Rightarrow> 16 word \<Rightarrow> nat \<Rightarrow> int" where
  "level_value a lv pos =
    (if \<not> trans_quant_bypass a then
       let shift_iq = int (bit_depth a) + int (log2_trans_size a) - 5;
           dequant_coeff = (if trans_skip a \<and> trans_size a > 4 then 16 else sint (pi2_dequant_matrix a pos))
             * g_ihevc_iquant_scales ! qp_rem a;
           iquant_out = (if trans_size a = 4 then IQUANT_4x4 (sint lv) dequant_coeff shift_iq (qp_div a)
             else IQUANT (sint lv) dequant_coeff shift_iq (qp_div a))
       in if trans_skip a then
            let shift_ts = 15 - int (bit_depth a) - int (log2_trans_size a)
            in if shift_ts > 0 then (iquant_out + 2 ^ nat (shift_ts - 1)) div 2 ^ nat shift_ts
               else if shift_ts < 0 then s16 (iquant_out * 2 ^ nat (- shift_ts))
               else iquant_out
          else iquant_out
     else sint lv)"

text \<open>Coefficients, mask of zero columns, mask of zero rows.\<close>

type_synonym unpacked = "mem16 \<times> 32 word \<times> 32 word"

definition put_coeff :: "unpack_args \<Rightarrow> int \<Rightarrow> tu_sblk_coeff_data \<Rightarrow> nat \<Rightarrow> nat \<Rightarrow> unpacked \<Rightarrow> unpacked" where
  "put_coeff a c sb sblk_scan_idx sblk_non_zero_coeff_idx st =
    (case st of (coeffs, zero_cols, zero_rows) \<Rightarrow>
       let subblk_pos_x = unat (u2_subblk_pos sb AND 0x00FF) * 4;
           subblk_pos_y = unat (drop_bit 8 (u2_subblk_pos sb AND 0xFF00)) * 4;
           coeff_raster_idx = gau1_ihevc_invscan4x4 ! scan_type a ! sblk_scan_idx;
           xs = coeff_raster_idx mod 4;
           ys = coeff_raster_idx div 4;
           iquant_out = level_value a (ai2_level sb ! sblk_non_zero_coeff_idx)
             ((subblk_pos_x + xs) + (subblk_pos_y + ys) * trans_size a)
       in (coeffs(c + (int subblk_pos_y * int (trans_size a) + int subblk_pos_x) + int xs + int ys * int (trans_size a) :=
             word_of_int iquant_out),
           zero_cols AND NOT (push_bit (subblk_pos_x + xs) 1),
           zero_rows AND NOT (push_bit (subblk_pos_y + ys) 1)))"

text \<open>The highest set bit of a word, from its leading zeros.\<close>

lemma CLZ_top:
  fixes w :: "32 word"
  assumes "w \<noteq> 0"
  shows "unat (CLZ w) \<le> 31" "bit w (31 - unat (CLZ w))" "31 - unat (CLZ w) < n \<Longrightarrow> \<not> bit w n"
proof -
  have clz: "unat (CLZ w) = 32 - nbits (unat w)" "1 \<le> nbits (unat w)" "nbits (unat w) \<le> 32"
    using CLZ_nbits [OF assms] builtin_clz_nbits [OF assms] by simp_all
  show "unat (CLZ w) \<le> 31" using clz by simp
  let ?t = "nbits (unat w) - 1"
  have t: "31 - unat (CLZ w) = ?t" using clz by simp
  have "0 < unat w" using assms by (simp add: unat_gt_0)
  then have r: "2 ^ ?t \<le> unat w" "unat w < 2 ^ Suc ?t" using nbits_bounds [of "unat w"] clz(2) by simp_all
  have b: "bit w n \<longleftrightarrow> odd (unat w div 2 ^ n)" for n by (simp add: bit_unat_iff [symmetric] bit_iff_odd)
  have "unat w div 2 ^ ?t = 1" using r by (simp add: div_nat_eqI)
  then show "bit w (31 - unat (CLZ w))" unfolding t b by simp
  show "\<not> bit w n" if "31 - unat (CLZ w) < n"
  proof -
    have "(2 :: nat) ^ Suc ?t \<le> 2 ^ n" using that t by (intro power_increasing) simp_all
    then have "unat w div 2 ^ n = 0" using r(2) by simp
    then show ?thesis unfolding b by simp
  qed
qed

text \<open>Shifting out the highest set bit leaves fewer of them.\<close>

lemma shift_loses_bit:
  fixes w :: "32 word"
  assumes "push_bit 1 (push_bit (unat (CLZ w)) w) \<noteq> 0"
  shows "card {n. bit (push_bit 1 (push_bit (unat (CLZ w)) w)) n} < card {n. bit w n}"
proof -
  define k where "k = unat (CLZ w) + 1"
  have w: "w \<noteq> 0" using assms by auto
  have eq: "push_bit 1 (push_bit (unat (CLZ w)) w) = push_bit k w" by (simp add: k_def push_bit_push_bit)
  have k: "k - 1 = unat (CLZ w)" "1 \<le> k" "k \<le> 32" using CLZ_top(1) [OF w] by (simp_all add: k_def)
  have fin: "finite {n. bit w n}" by (rule finite_subset [of _ "{..<32}"]) (auto dest: bit_imp_le_length)
  have "{n. bit (push_bit k w) n} \<subseteq> (\<lambda>n. n + k) ` ({n. bit w n} - {32 - k})"
  proof
    fix n assume "n \<in> {n. bit (push_bit k w) n}"
    then have n: "k \<le> n" "n < 32" "bit w (n - k)" by (auto simp: bit_push_bit_iff)
    then have "n - k \<noteq> 32 - k" by auto
    then show "n \<in> (\<lambda>n. n + k) ` ({n. bit w n} - {32 - k})" using n by (intro image_eqI [of _ _ "n - k"]) auto
  qed
  then have "card {n. bit (push_bit k w) n} \<le> card ((\<lambda>n. n + k) ` ({n. bit w n} - {32 - k}))"
    by (rule card_mono [rotated]) (use fin in simp)
  also have "\<dots> \<le> card ({n. bit w n} - {32 - k})" by (rule card_image_le) (use fin in simp)
  also have "\<dots> < card {n. bit w n}"
  proof (rule card_Diff1_less [OF fin])
    have "32 - k = 31 - unat (CLZ w)" by (simp add: k_def)
    then show "32 - k \<in> {n. bit w n}" using CLZ_top(2) [OF w] by simp
  qed
  finally show ?thesis unfolding eq .
qed

text \<open>The loop over the set bits of the map, the highest first.\<close>

function sblk_loop :: "unpack_args \<Rightarrow> int \<Rightarrow> tu_sblk_coeff_data \<Rightarrow> 32 word \<Rightarrow> int \<Rightarrow> nat \<Rightarrow> unpacked \<Rightarrow> unpacked" where
  "sblk_loop a c sb u4_sig_coeff_map sblk_scan_idx sblk_non_zero_coeff_idx st =
    (let clz = CLZ u4_sig_coeff_map;
         sblk_scan_idx = sblk_scan_idx - int (unat clz);
         u4_sig_coeff_map = push_bit (unat clz) u4_sig_coeff_map;
         st = put_coeff a c sb (nat sblk_scan_idx) sblk_non_zero_coeff_idx st;
         sblk_non_zero_coeff_idx = sblk_non_zero_coeff_idx + 1;
         sblk_scan_idx = sblk_scan_idx - 1;
         u4_sig_coeff_map = push_bit 1 u4_sig_coeff_map
     in if u4_sig_coeff_map \<noteq> 0 then sblk_loop a c sb u4_sig_coeff_map sblk_scan_idx sblk_non_zero_coeff_idx st else st)"
  by pat_completeness auto

termination
  by (relation "measure (\<lambda>(a, c, sb, w, i, k, st). card {n. bit w n})") (use shift_loses_bit in auto)

declare sblk_loop.simps [simp del]

definition unpack_sblk :: "unpack_args \<Rightarrow> int \<Rightarrow> tu_sblk_coeff_data \<Rightarrow> unpacked \<Rightarrow> unpacked" where
  "unpack_sblk a c sb st = sblk_loop a c sb (ucast (u2_sig_coeff_map sb)) 31 0 st"

record unpack_result =
  r_coeffs :: mem16
  r_zero_cols :: "32 word"
  r_zero_rows :: "32 word"
  r_coeff_type :: nat
  r_coeff_value :: "16 word"
  r_rest :: "tu_sblk_coeff_data list"

definition ihevcd_unpack_coeffs ::
  "unpack_args \<Rightarrow> nat \<Rightarrow> tu_sblk_coeff_data list \<Rightarrow> mem16 \<Rightarrow> int \<Rightarrow> 16 word \<Rightarrow> unpack_result" where
  "ihevcd_unpack_coeffs a u1_num_coded_sblks sblks coeffs c coeff_value =
    (let n = int (trans_size a);
         cleared = (\<lambda>x. if c \<le> x \<and> x < c + n * n then 0 else coeffs x);
         coeffs = (if trans_skip a then cleared else coeffs)
     in if \<not> is_dst a \<and> u1_num_coded_sblks = 1 \<and> u2_subblk_pos (sblks ! 0) = 0 \<and> u2_sig_coeff_map (sblks ! 0) = 1 then
          let coeffs = (if trans_quant_bypass a then for_to n (\<lambda>i m. m(c + i * n := 0)) coeffs else coeffs);
              iquant_out = word_of_int (level_value a (ai2_level (sblks ! 0) ! 0) 0)
          in \<lparr>r_coeffs = coeffs(c := iquant_out), r_zero_cols = NOT 1, r_zero_rows = NOT 1, r_coeff_type = 1,
              r_coeff_value = iquant_out, r_rest = drop 1 sblks\<rparr>
        else
          let (coeffs, zero_cols, zero_rows) = fold (unpack_sblk a c) (take u1_num_coded_sblks sblks) (cleared, NOT 0, NOT 0)
          in \<lparr>r_coeffs = coeffs, r_zero_cols = zero_cols, r_zero_rows = zero_rows, r_coeff_type = 0,
              r_coeff_value = coeff_value, r_rest = drop u1_num_coded_sblks sblks\<rparr>)"

section \<open>The choice of the reconstruction\<close>

text \<open>The context of a plane; \<open>pl_coeffs\<close> is the memory \<open>pi2_tu_coeff\<close> points into.\<close>

record tu_plane_iq_it_recon_ctxt_t =
  pl_coeffs :: mem16
  pi2_tu_coeff :: int
  pu1_pred :: int
  pu1_dst :: int
  tu_coeff_stride :: int
  pl_pred_strd :: int
  pl_dst_strd :: int
  pl_zero_cols :: "32 word"
  pl_zero_rows :: "32 word"
  pl_coeff_type :: nat
  pl_coeff_value :: "16 word"
  pl_cbf :: bool
  transform_skip_flag :: bool

text \<open>The branch for samples of one byte.\<close>

definition ihevcd_iquant_itrans_recon_tu_plane ::
  "bool \<Rightarrow> tu_plane_iq_it_recon_ctxt_t \<Rightarrow> nat \<Rightarrow> nat \<Rightarrow> bool \<Rightarrow> mem16 \<Rightarrow> int \<Rightarrow> mem8 \<Rightarrow> mem8" where
  "ihevcd_iquant_itrans_recon_tu_plane transquant_bypass pl func_idx lg_size is_chroma tmp t m =
    (if pl_cbf pl then
       if transquant_bypass \<or> transform_skip_flag pl then
         apf_recon func_idx (pl_coeffs pl) (pi2_tu_coeff pl) m (pu1_pred pl) (pu1_dst pl) (tu_coeff_stride pl)
           (pl_pred_strd pl) (pl_dst_strd pl) (pl_zero_cols pl)
       else if pl_coeff_type pl = 0 then
         apf_itrans_recon func_idx (pl_coeffs pl) (pi2_tu_coeff pl) tmp t m (pu1_pred pl) (pu1_dst pl) (tu_coeff_stride pl)
           (pl_pred_strd pl) (pl_dst_strd pl) (pl_zero_cols pl) (pl_zero_rows pl)
       else
         apf_itrans_recon_dc (if is_chroma then 1 else 0) m (pu1_pred pl) (pu1_dst pl)
           (pl_pred_strd pl) (pl_dst_strd pl) lg_size (pl_coeff_value pl)
     else m)"

text \<open>Unpacking a plane of a transform unit into its context, and reconstructing it.\<close>

definition unpack_recon ::
  "unpack_args \<Rightarrow> nat \<Rightarrow> bool \<Rightarrow> bool \<Rightarrow> nat \<Rightarrow> tu_sblk_coeff_data list \<Rightarrow> mem16 \<Rightarrow> int \<Rightarrow> mem16 \<Rightarrow> int \<Rightarrow> int \<Rightarrow> int \<Rightarrow> mem8 \<Rightarrow> mem8" where
  "unpack_recon a func_idx is_chroma cbf num sblks coeffs c tmp t dst strd m =
    (let pl = \<lparr>pl_coeffs = coeffs, pi2_tu_coeff = c, pu1_pred = dst, pu1_dst = dst, tu_coeff_stride = int (trans_size a),
           pl_pred_strd = strd, pl_dst_strd = strd, pl_zero_cols = 0, pl_zero_rows = 0, pl_coeff_type = 0, pl_coeff_value = 0,
           pl_cbf = cbf, transform_skip_flag = trans_skip a\<rparr>;
         u = ihevcd_unpack_coeffs a num sblks coeffs c 0;
         pl = (if cbf then pl\<lparr>pl_coeffs := r_coeffs u, pl_zero_cols := r_zero_cols u, pl_zero_rows := r_zero_rows u,
           pl_coeff_type := r_coeff_type u, pl_coeff_value := r_coeff_value u\<rparr> else pl)
     in ihevcd_iquant_itrans_recon_tu_plane (trans_quant_bypass a) pl func_idx (log2_trans_size a) is_chroma tmp t m)"

text \<open>
  The luma plane of a transform unit: the fields of \<^verbatim>\<open>tu_t\<close> it reads, its arguments for unpacking (the sum
  of quantiser and offset is not negative), the index of its routine.
\<close>

record luma_tu =
  b3_size :: nat
  b7_qp :: int
  b1_y_cbf :: bool
  b1_transquant_bypass :: bool

definition luma_func_idx :: "luma_tu \<Rightarrow> bool \<Rightarrow> nat" where
  "luma_func_idx tu intra_flag = (if b3_size tu = 0 \<and> intra_flag then b3_size tu else b3_size tu + 1)"

definition luma_args :: "luma_tu \<Rightarrow> bool \<Rightarrow> int \<Rightarrow> nat \<Rightarrow> nat \<Rightarrow> (nat \<Rightarrow> 16 word) \<Rightarrow> unpack_args" where
  "luma_args tu intra_flag qp_bd_offset_y bit_depth_luma scan dequant_matrix =
    \<lparr>log2_trans_size = b3_size tu + 2, scan_byte = scan, pi2_dequant_matrix = dequant_matrix,
     qp_rem = nat ((b7_qp tu + qp_bd_offset_y) mod 6), qp_div = (b7_qp tu + qp_bd_offset_y) div 6,
     is_dst = (b3_size tu = 0 \<and> intra_flag), trans_quant_bypass = b1_transquant_bypass tu, bit_depth = bit_depth_luma\<rparr>"

definition luma_tu_recon ::
  "luma_tu \<Rightarrow> bool \<Rightarrow> int \<Rightarrow> nat \<Rightarrow> nat \<Rightarrow> (nat \<Rightarrow> 16 word) \<Rightarrow> nat \<Rightarrow> tu_sblk_coeff_data list \<Rightarrow> mem16 \<Rightarrow> int \<Rightarrow> mem16 \<Rightarrow> int \<Rightarrow>
    int \<Rightarrow> int \<Rightarrow> mem8 \<Rightarrow> mem8" where
  "luma_tu_recon tu intra_flag qp_bd_offset_y bit_depth_luma scan dequant_matrix num sblks coeffs c tmp t y_dst pic_strd m =
     unpack_recon (luma_args tu intra_flag qp_bd_offset_y bit_depth_luma scan dequant_matrix) (luma_func_idx tu intra_flag)
       False (b1_y_cbf tu) num sblks coeffs c tmp t y_dst pic_strd m"

section \<open>Inverse quantisation is exact\<close>

text \<open>The formula of the standard: scaling by the power of two of the quantiser, then one rounded shift.\<close>

definition iquant_ref :: "int \<Rightarrow> int \<Rightarrow> nat \<Rightarrow> nat \<Rightarrow> int" where
  "iquant_ref coeff dq sh q = CLIP_S16 ((coeff * dq * 2 ^ q + 2 ^ (sh - 1)) div 2 ^ sh)"

lemma iquant_shift:
  fixes x :: int
  assumes "1 \<le> sh"
  shows "SHR_NEG (x + SHL_NEG 1 (int sh - int q - 1)) (int sh - int q) = (x * 2 ^ q + 2 ^ (sh - 1)) div 2 ^ sh"
proof (cases "q < sh")
  case True
  have e: "nat (int sh - int q - 1) = sh - 1 - q" "nat (int sh - int q) = sh - q" using True by simp_all
  have "x * 2 ^ q + 2 ^ (sh - 1) = (x + 2 ^ (sh - 1 - q)) * 2 ^ q" "(2 :: int) ^ sh = 2 ^ (sh - q) * 2 ^ q"
    using True by (simp_all add: distrib_right flip: power_add)
  then have "(x * 2 ^ q + 2 ^ (sh - 1)) div 2 ^ sh = (x + 2 ^ (sh - 1 - q)) div 2 ^ (sh - q)" by simp
  then show ?thesis using True by (simp add: SHR_NEG_def SHL_NEG_def e)
next
  case False
  have e: "nat (int q - int sh) = q - sh" "nat (- (int sh - int q - 1)) = Suc (q - sh)" using False by simp_all
  have "(2 :: int) ^ (sh - 1) < 2 ^ sh" using assms by (intro power_strict_increasing) simp_all
  then have r: "(2 :: int) ^ (sh - 1) div 2 ^ sh = 0" by simp
  have "x * 2 ^ q = x * 2 ^ (q - sh) * 2 ^ sh" using False by (simp flip: power_add)
  then have "(x * 2 ^ q + 2 ^ (sh - 1)) div 2 ^ sh = (2 ^ (sh - 1) + x * 2 ^ (q - sh) * 2 ^ sh) div 2 ^ sh"
    by (simp only: add.commute)
  also have "\<dots> = x * 2 ^ (q - sh) + 2 ^ (sh - 1) div 2 ^ sh" by (rule div_mult_self1) simp
  also have "\<dots> = x * 2 ^ (q - sh)" unfolding r by simp
  finally have "(x * 2 ^ q + 2 ^ (sh - 1)) div 2 ^ sh = x * 2 ^ (q - sh)" .
  then show ?thesis using False by (simp add: SHR_NEG_def SHL_NEG_def e)
qed

lemma IQUANT_ref: "1 \<le> sh \<Longrightarrow> IQUANT coeff dq (int sh) (int q) = iquant_ref coeff dq sh q"
  by (simp add: IQUANT_def iquant_tmp_def Let_def iquant_ref_def iquant_shift)

lemma CLIP_S16_mono: "x \<le> y \<Longrightarrow> CLIP_S16 x \<le> CLIP_S16 y"
  by (simp add: CLIP_S16_def CLIP3_def)

lemma CLIP_S16_sat: "32767 \<le> x \<Longrightarrow> CLIP_S16 x = 32767" "x \<le> - 32768 \<Longrightarrow> CLIP_S16 x = - 32768"
  by (simp_all add: CLIP_S16_def CLIP3_def)

text \<open>Clipping the level to ten bits loses nothing: beyond them the result is saturated anyway.\<close>

lemma IQUANT_4x4_ref:
  assumes sh: "1 \<le> sh" and dq: "40 \<le> dq" and lv: "- 32768 \<le> coeff" "coeff \<le> 32767"
  shows "IQUANT_4x4 coeff dq (int sh) (int q) = iquant_ref coeff dq sh q"
proof (cases "sh < q")
  case False
  have "CLIP3 coeff (- 32768) 32767 = coeff" using lv by (simp add: CLIP3_def)
  then show ?thesis using False by (simp add: IQUANT_4x4_def iquant_clip_def iquant_tmp_def Let_def iquant_ref_def iquant_shift [OF sh])
next
  case True
  have e: "nat (int q - int sh) = q - sh" "SHL_NEG 1 (int sh - int q - 1) = 0"
    using True by (auto simp: SHL_NEG_def div_pos_pos_trivial power_strict_increasing)
  have val: "(x * dq * 2 ^ q + 2 ^ (sh - 1)) div 2 ^ sh = x * (dq * 2 ^ (q - sh))" for x
    using iquant_shift [OF sh, of "x * dq" q] True by (simp add: SHR_NEG_def e)
  have "(2 :: int) ^ 1 \<le> 2 ^ (q - sh)" using True by (intro power_increasing) simp_all
  then have big: "80 \<le> dq * 2 ^ (q - sh)" using mult_mono [of 40 dq 2 "2 ^ (q - sh)"] dq by simp
  have "IQUANT_4x4 coeff dq (int sh) (int q) = iquant_ref (CLIP3 coeff (- 512) 511) dq sh q"
    using True by (simp add: IQUANT_4x4_def iquant_clip_def iquant_tmp_def Let_def iquant_ref_def iquant_shift [OF sh])
  also have "\<dots> = iquant_ref coeff dq sh q"
  proof -
    have up: "32767 \<le> x * (dq * 2 ^ (q - sh))" if "511 \<le> x" for x
      using mult_mono [of 511 x 80 "dq * 2 ^ (q - sh)"] big that by simp
    have lo: "x * (dq * 2 ^ (q - sh)) \<le> - 32768" if "x \<le> - 512" for x
      using mult_mono [of 512 "- x" 80 "dq * 2 ^ (q - sh)"] big that by simp
    consider "511 < coeff" | "coeff < - 512" | "- 512 \<le> coeff" "coeff \<le> 511" by linarith
    then show ?thesis
    proof cases
      case 1
      then show ?thesis using up [of coeff] up [of 511] unfolding iquant_ref_def val by (simp add: CLIP3_def CLIP_S16_sat)
    next
      case 2
      then show ?thesis using lo [of coeff] lo [of "- 512"] unfolding iquant_ref_def val by (simp add: CLIP3_def CLIP_S16_sat)
    next
      case 3
      then show ?thesis by (simp add: CLIP3_def)
    qed
  qed
  finally show ?thesis .
qed

text \<open>The 32-bit product does not overflow before it is clipped.\<close>

lemma iquant_scale_bounds:
  "\<forall>r \<in> {0, 1, 2, 3, 4, 5}. 40 \<le> g_ihevc_iquant_scales ! r \<and> g_ihevc_iquant_scales ! r \<le> 72 \<and>
    (r \<le> 3 \<longrightarrow> g_ihevc_iquant_scales ! r \<le> 57)"
  by code_simp

lemma iquant_scale:
  assumes "r < 6"
  shows "40 \<le> g_ihevc_iquant_scales ! r" "g_ihevc_iquant_scales ! r \<le> 72" "r \<le> 3 \<Longrightarrow> g_ihevc_iquant_scales ! r \<le> 57"
proof -
  have "r \<in> {0, 1, 2, 3, 4, 5}" using assms by auto
  then show "40 \<le> g_ihevc_iquant_scales ! r" "g_ihevc_iquant_scales ! r \<le> 72" "r \<le> 3 \<Longrightarrow> g_ihevc_iquant_scales ! r \<le> 57"
    using iquant_scale_bounds by blast+
qed

lemma abs_mult_bound:
  assumes "\<bar>x\<bar> \<le> a" "\<bar>y\<bar> \<le> (b :: int)"
  shows "\<bar>x * y\<bar> \<le> a * b"
proof -
  have "0 \<le> a" using assms(1) by simp
  then show ?thesis using mult_mono [OF assms] by (simp add: abs_mult)
qed

lemma abs_div_le:
  assumes "1 \<le> (d :: int)"
  shows "\<bar>y div d\<bar> \<le> \<bar>y\<bar>"
proof (cases "0 \<le> y")
  case True
  then have "y div d \<le> y div 1" using assms by (intro zdiv_mono2) simp_all
  moreover have "0 \<le> y div d" using True assms by (simp add: pos_imp_zdiv_nonneg_iff)
  ultimately show ?thesis by simp
next
  case False
  then have "y div 1 \<le> y div d" using assms by (intro zdiv_mono2_neg) simp_all
  moreover have "y div d < 0" by (rule div_neg_pos_less0) (use False assms in simp_all)
  ultimately show ?thesis by simp
qed

lemma iquant_no_overflow:
  fixes lv m :: int
  assumes lv: "- 32768 \<le> lv" "lv \<le> 32767" and m: "1 \<le> m" "m \<le> 255" and lg: "2 \<le> lg" "lg \<le> 5"
    and bd: "8 \<le> bd" "bd \<le> 14" and qp: "qp \<le> 51 + 6 * (bd - 8)"
  defines "sh \<equiv> bd + lg - 5" and "q \<equiv> qp div 6" and "dq \<equiv> m * g_ihevc_iquant_scales ! (qp mod 6)"
  shows "\<bar>iquant_tmp (if lg = 2 then iquant_clip lv (int sh) (int q) else lv) dq (int sh) (int q)\<bar> < 2 ^ 31"
proof -
  let ?s = "g_ihevc_iquant_scales ! (qp mod 6)" and ?l = "if lg = 2 then iquant_clip lv (int sh) (int q) else lv"
  have s: "40 \<le> ?s" "?s \<le> 72" by (rule iquant_scale; simp)+
  have q: "q \<le> bd" using qp bd by (simp add: q_def)
  have l: "\<bar>?l\<bar> \<le> 32768" using lv by (auto simp: iquant_clip_def CLIP3_def)
  have ms: "\<bar>m\<bar> \<le> 255" "\<bar>?s\<bar> \<le> 72" using m s by simp_all
  have dq: "\<bar>dq\<bar> \<le> 18360" using abs_mult_bound [OF ms] by (simp add: dq_def)
  have x: "\<bar>?l * dq\<bar> \<le> 601620480" using abs_mult_bound [OF l dq] by simp
  show ?thesis
  proof (cases "q < sh")
    case True
    have "(2 :: int) ^ nat (int sh - int q - 1) \<le> 2 ^ 13" using bd lg True by (intro power_increasing) (simp_all add: sh_def)
    then have a: "0 \<le> SHL_NEG 1 (int sh - int q - 1)" "SHL_NEG 1 (int sh - int q - 1) \<le> 8192"
      using True by (simp_all add: SHL_NEG_def)
    let ?y = "?l * dq + SHL_NEG 1 (int sh - int q - 1)" and ?d = "(2 :: int) ^ nat (int sh - int q)"
    have y: "\<bar>?y\<bar> \<le> 601628672" using x a by linarith
    have "1 \<le> ?d" by simp
    then have "\<bar>?y div ?d\<bar> \<le> \<bar>?y\<bar>" by (rule abs_div_le)
    moreover have "iquant_tmp ?l dq (int sh) (int q) = ?y div ?d" using True by (simp add: iquant_tmp_def SHR_NEG_def Let_def)
    ultimately show ?thesis using y by simp
  next
    case False
    then have z: "SHL_NEG 1 (int sh - int q - 1) = 0" by (simp add: SHL_NEG_def div_pos_pos_trivial)
    have v: "iquant_tmp ?l dq (int sh) (int q) = ?l * dq * 2 ^ (q - sh)"
      using False unfolding iquant_tmp_def Let_def z by (simp add: SHR_NEG_def nat_diff_distrib')
    have "q - sh \<le> 3" "lg \<noteq> 2 \<Longrightarrow> q - sh \<le> 2" using q lg bd unfolding sh_def by linarith+
    then consider "q - sh \<le> 1" | "lg = 2" "sh < q" "q - sh \<le> 3" | "3 \<le> lg" "q - sh = 2"
      using lg by (cases "lg = 2"; cases "q - sh \<le> 1") (auto simp: not_le)
    then show ?thesis
    proof cases
      case 1
      then have "(2 :: int) ^ (q - sh) \<le> 2 ^ 1" by (intro power_increasing) simp_all
      then have "\<bar>(2 :: int) ^ (q - sh)\<bar> \<le> 2" by simp
      from abs_mult_bound [OF x this] show ?thesis unfolding v by simp
    next
      case 2
      then have "\<bar>?l\<bar> \<le> 512" by (auto simp: iquant_clip_def CLIP3_def)
      from abs_mult_bound [OF this dq] have x: "\<bar>?l * dq\<bar> \<le> 9400320" by simp
      have "(2 :: int) ^ (q - sh) \<le> 2 ^ 3" using 2(3) by (intro power_increasing) simp_all
      then have "\<bar>(2 :: int) ^ (q - sh)\<bar> \<le> 8" by simp
      from abs_mult_bound [OF x this] show ?thesis unfolding v by simp
    next
      case 3
      then have e: "q = bd" using q lg by (simp add: sh_def)
      have "qp = 6 * (qp div 6) + qp mod 6" by simp
      moreover have "qp \<le> 6 * bd + 3" using qp bd by simp
      ultimately have "qp mod 6 \<le> 3" using e unfolding q_def by linarith
      then have "\<bar>?s\<bar> \<le> 57" using iquant_scale(3) [of "qp mod 6"] s by simp
      from abs_mult_bound [OF ms(1) this] have "\<bar>dq\<bar> \<le> 14535" by (simp add: dq_def)
      from abs_mult_bound [OF l this] have "\<bar>?l * dq\<bar> \<le> 476282880" by simp
      from abs_mult_bound [OF this, of "2 ^ (q - sh)" 4] show ?thesis unfolding v using 3 by simp
    qed
  qed
qed

section \<open>Unpacking places the levels\<close>

text \<open>The set bits of a word below a bound, the highest first.\<close>

definition map_positions :: "'a::len word \<Rightarrow> nat \<Rightarrow> nat list" where
  "map_positions m n = filter (bit m) (rev [0 ..< n])"

lemma map_positions_split:
  assumes "q < n" "bit m q" "\<And>i. q < i \<Longrightarrow> i < n \<Longrightarrow> \<not> bit m i"
  shows "map_positions m n = q # map_positions m q"
proof -
  have "[0 ..< n] = [0 ..< q] @ q # [Suc q ..< n]"
    using assms(1) upt_add_eq_append [of 0 q "n - q"] by (simp add: upt_conv_Cons)
  moreover have "filter (bit m) (rev [Suc q ..< n]) = []" using assms(3) by (simp add: filter_empty_conv)
  ultimately show ?thesis using assms(2) by (simp add: map_positions_def)
qed

lemma map_positions_Nil: "(\<And>i. i < n \<Longrightarrow> \<not> bit m i) \<Longrightarrow> map_positions m n = []"
  by (simp add: map_positions_def filter_empty_conv)

lemma bit_widen: "bit (ucast m :: 32 word) i \<longleftrightarrow> bit (m :: 16 word) i"
  using bit_imp_le_length [of m i] by (auto simp: bit_ucast_iff)

lemma map_positions_ucast: "map_positions (ucast m :: 32 word) 32 = map_positions (m :: 16 word) 16"
proof -
  have "[0 ..< 16 + 16] = [0 ..< 16] @ [16 ..< 16 + (16 :: nat)]" by (rule upt_add_eq_append) simp
  then have u: "[0 ..< 32] = [0 ..< 16] @ [16 ..< (32 :: nat)]" by (simp only: numeral_plus_numeral arith_simps)
  have "\<not> bit m i" if "16 \<le> i" for i using bit_imp_le_length [of m i] that by auto
  then have e: "filter (bit m) (rev [16 ..< 32]) = []" by (intro filter_False) (simp only: set_rev set_upt, simp)
  have "bit (ucast m :: 32 word) = bit m" by (rule ext) (rule bit_widen)
  then show ?thesis unfolding map_positions_def u rev_append filter_append by (simp only: e append_Nil)
qed

text \<open>The loop over the leading zeros visits the set bits.\<close>

lemma sblk_loop_fold:
  assumes "s \<le> 31" "push_bit (31 - s) m \<noteq> 0"
  shows "sblk_loop a c sb (push_bit (31 - s) m) (int s) k st =
    fold (\<lambda>(k, i). put_coeff a c sb i k) (enumerate k (map_positions m (Suc s))) st"
  using assms
proof (induction s arbitrary: k st rule: less_induct)
  case (less s)
  define w where "w = push_bit (31 - s) m"
  define z where "z = unat (CLZ w)"
  have w: "w \<noteq> 0" using less.prems by (simp add: w_def)
  have z: "z \<le> 31" "bit w (31 - z)" "\<And>n. 31 - z < n \<Longrightarrow> \<not> bit w n" using CLZ_top [OF w] by (simp_all add: z_def)
  have zs: "31 - s \<le> 31 - z" using z(2) by (auto simp: w_def bit_push_bit_iff)
  define q where "q = s - z"
  have q: "q \<le> s" "31 - z - (31 - s) = q" "int s - int z = int q" using zs z(1) less.prems(1) by (auto simp: q_def)
  have bq: "bit m q" using z(2) zs q(2) by (simp add: w_def bit_push_bit_iff)
  have above: "\<not> bit m i" if "q < i" "i < Suc s" for i
  proof -
    have "31 - z < i + (31 - s)" using that q zs by (simp add: q_def)
    from z(3) [OF this] show ?thesis using that less.prems(1) by (simp add: w_def bit_push_bit_iff)
  qed
  have pos: "map_positions m (Suc s) = q # map_positions m q" by (rule map_positions_split) (use q(1) bq above in auto)
  let ?st = "put_coeff a c sb q k st"
  have next_w: "push_bit 1 (push_bit z w) = push_bit (32 - q) m"
  proof -
    have "1 + (z + (31 - s)) = 32 - q" using zs z(1) less.prems(1) q_def by arith
    then show ?thesis by (simp only: w_def push_bit_push_bit)
  qed
  have step: "sblk_loop a c sb w (int s) k st =
    (if push_bit (32 - q) m \<noteq> 0 then sblk_loop a c sb (push_bit (32 - q) m) (int q - 1) (k + 1) ?st else ?st)"
    unfolding sblk_loop.simps [of a c sb w] Let_def z_def [symmetric] next_w q(3) nat_int ..
  show ?case
  proof (cases "push_bit (32 - q) m = 0")
    case True
    have "\<not> bit m i" if "i < q" for i
    proof -
      have "i + (32 - q) < 32" using that less.prems(1) q(1) by arith
      then have "bit (push_bit (32 - q) m) (i + (32 - q)) \<longleftrightarrow> bit m i" by (simp add: bit_push_bit_iff del: add_diff_assoc)
      then show ?thesis using True by simp
    qed
    then have "map_positions m q = []" by (rule map_positions_Nil)
    then show ?thesis unfolding w_def [symmetric] step pos using True by simp
  next
    case False
    have q0: "0 < q"
    proof (rule ccontr)
      assume "\<not> 0 < q"
      then have "push_bit (32 - q) m = 0" by (intro bit_word_eqI) (simp add: bit_push_bit_iff)
      then show False using False by simp
    qed
    have e: "32 - q = 31 - (q - 1)" "int q - 1 = int (q - 1)" "Suc (q - 1) = q" using q0 less.prems(1) q(1) by linarith+
    have "sblk_loop a c sb (push_bit (31 - (q - 1)) m) (int (q - 1)) (k + 1) ?st =
      fold (\<lambda>(k, i). put_coeff a c sb i k) (enumerate (k + 1) (map_positions m (Suc (q - 1)))) ?st"
    proof (rule less.IH)
      show "q - 1 < s" "q - 1 \<le> 31" using q0 q(1) less.prems(1) by linarith+
      show "push_bit (31 - (q - 1)) m \<noteq> 0" using False unfolding e(1) .
    qed
    then have "sblk_loop a c sb (push_bit (32 - q) m) (int q - 1) (k + 1) ?st =
      fold (\<lambda>(k, i). put_coeff a c sb i k) (enumerate (k + 1) (map_positions m q)) ?st"
      by (simp only: e(1) [symmetric] e(2) [symmetric] e(3))
    then show ?thesis unfolding w_def [symmetric] step pos using False by simp
  qed
qed

lemma unpack_sblk_fold:
  assumes "u2_sig_coeff_map sb \<noteq> 0"
  shows "unpack_sblk a c sb st = fold (\<lambda>(k, i). put_coeff a c sb i k) (enumerate 0 (map_positions (u2_sig_coeff_map sb) 16)) st"
proof -
  obtain i where "bit (u2_sig_coeff_map sb) i" using assms by (auto simp: bit_eq_iff)
  then have "bit (ucast (u2_sig_coeff_map sb) :: 32 word) i" unfolding bit_widen .
  then have "(ucast (u2_sig_coeff_map sb) :: 32 word) \<noteq> 0" by auto
  then show ?thesis
    using sblk_loop_fold [of 31 "ucast (u2_sig_coeff_map sb)" a c sb 0 st] map_positions_ucast [of "u2_sig_coeff_map sb"]
    by (simp add: unpack_sblk_def)
qed

section \<open>The coefficient block\<close>

text \<open>Row, column and value of a level: the level with number \<open>k\<close> of a sub-block at scan index \<open>i\<close>.\<close>

definition entry_row :: "unpack_args \<Rightarrow> tu_sblk_coeff_data \<Rightarrow> nat \<Rightarrow> nat" where
  "entry_row a sb i = unat (drop_bit 8 (u2_subblk_pos sb AND 0xFF00)) * 4 + gau1_ihevc_invscan4x4 ! scan_type a ! i div 4"

definition entry_col :: "unpack_args \<Rightarrow> tu_sblk_coeff_data \<Rightarrow> nat \<Rightarrow> nat" where
  "entry_col a sb i = unat (u2_subblk_pos sb AND 0x00FF) * 4 + gau1_ihevc_invscan4x4 ! scan_type a ! i mod 4"

definition entry_value :: "unpack_args \<Rightarrow> tu_sblk_coeff_data \<Rightarrow> nat \<Rightarrow> nat \<Rightarrow> 16 word" where
  "entry_value a sb k i =
     word_of_int (level_value a (ai2_level sb ! k) (entry_col a sb i + entry_row a sb i * trans_size a))"

text \<open>The block the levels describe: zero but for the level of each set bit at its scan position.\<close>

definition put_entry :: "unpack_args \<Rightarrow> tu_sblk_coeff_data \<Rightarrow> nat \<times> nat \<Rightarrow> (nat \<times> nat \<Rightarrow> 16 word) \<Rightarrow> nat \<times> nat \<Rightarrow> 16 word" where
  "put_entry a sb p x = (case p of (k, i) \<Rightarrow> x((entry_row a sb i, entry_col a sb i) := entry_value a sb k i))"

definition put_entries :: "unpack_args \<Rightarrow> tu_sblk_coeff_data \<Rightarrow> (nat \<times> nat \<Rightarrow> 16 word) \<Rightarrow> nat \<times> nat \<Rightarrow> 16 word" where
  "put_entries a sb = fold (put_entry a sb) (enumerate 0 (map_positions (u2_sig_coeff_map sb) 16))"

definition coeff_block :: "unpack_args \<Rightarrow> tu_sblk_coeff_data list \<Rightarrow> nat \<times> nat \<Rightarrow> 16 word" where
  "coeff_block a sblks = fold (put_entries a) sblks (\<lambda>_. 0)"

text \<open>Sub-blocks inside the transform block, each with a level.\<close>

definition sblks_ok :: "unpack_args \<Rightarrow> tu_sblk_coeff_data list \<Rightarrow> bool" where
  "sblks_ok a sblks \<longleftrightarrow> scan_type a < 3 \<and> (\<forall>sb \<in> set sblks. u2_sig_coeff_map sb \<noteq> 0 \<and>
     unat (u2_subblk_pos sb AND 0x00FF) * 4 + 4 \<le> trans_size a \<and>
     unat (drop_bit 8 (u2_subblk_pos sb AND 0xFF00)) * 4 + 4 \<le> trans_size a)"

lemma invscan_lt: "scan < 3 \<Longrightarrow> i < 16 \<Longrightarrow> gau1_ihevc_invscan4x4 ! scan ! i < 16"
proof -
  have "\<forall>scan \<in> {0, 1, 2}. \<forall>i \<in> set [0 ..< 16]. gau1_ihevc_invscan4x4 ! scan ! i < 16" by code_simp
  moreover assume "scan < 3" "i < 16"
  moreover then have "scan \<in> {0, 1, 2}" "i \<in> set [0 ..< 16]" by auto
  ultimately show ?thesis by blast
qed

text \<open>The memory holds a block, and the masks mark only rows and columns that are zero in it.\<close>

definition holds_block :: "nat \<Rightarrow> int \<Rightarrow> (nat \<times> nat \<Rightarrow> 16 word) \<Rightarrow> unpacked \<Rightarrow> bool" where
  "holds_block n c x st \<longleftrightarrow> (case st of (coeffs, zero_cols, zero_rows) \<Rightarrow>
     (\<forall>i j. i < n \<longrightarrow> j < n \<longrightarrow> coeffs (c + int i * int n + int j) = x (i, j)) \<and>
     (\<forall>i j. i < n \<longrightarrow> j < n \<longrightarrow> x (i, j) \<noteq> 0 \<longrightarrow> \<not> bit zero_cols j \<and> \<not> bit zero_rows i))"

lemma bit_clear_one: "bit (w AND NOT (2 ^ q)) j \<longleftrightarrow> bit w j \<and> j \<noteq> q" for w :: "32 word"
  by (auto simp: bit_and_iff bit_not_iff bit_exp_iff dest: bit_imp_le_length)

lemma put_coeff_eq:
  "put_coeff a c sb i k (coeffs, zc, zr) =
    (coeffs(c + int (entry_row a sb i) * int (trans_size a) + int (entry_col a sb i) := entry_value a sb k i),
     zc AND NOT (2 ^ entry_col a sb i), zr AND NOT (2 ^ entry_row a sb i))"
  by (simp add: put_coeff_def entry_row_def entry_col_def entry_value_def Let_def algebra_simps)

lemma put_coeff_holds:
  assumes "holds_block (trans_size a) c x st" "entry_row a sb i < trans_size a" "entry_col a sb i < trans_size a"
  shows "holds_block (trans_size a) c (put_entry a sb (k, i) x) (put_coeff a c sb i k st)"
proof -
  let ?n = "trans_size a" and ?r = "entry_row a sb i" and ?c = "entry_col a sb i"
  obtain coeffs zc zr where st: "st = (coeffs, zc, zr)" by (cases st)
  have addr: "c + int r * int ?n + int j = c + int ?r * int ?n + int ?c \<longleftrightarrow> r = ?r \<and> j = ?c" if "j < ?n" for r j
    using block_inj [of "int ?n" "int ?n" "int j" "int ?c" c "int r" "int ?r"] that assms(3) by auto
  show ?thesis
    using assms(1) unfolding st put_coeff_eq put_entry_def holds_block_def prod.case
    by (auto simp: addr bit_clear_one simp del: of_nat_power of_nat_numeral)
qed

lemma unpack_sblk_holds:
  assumes "holds_block (trans_size a) c x st" "sblks_ok a [sb]"
  shows "holds_block (trans_size a) c (put_entries a sb x) (unpack_sblk a c sb st)"
proof -
  have m: "u2_sig_coeff_map sb \<noteq> 0" using assms(2) by (simp add: sblks_ok_def)
  have pos: "i < 16" if "(k, i) \<in> set (enumerate 0 (map_positions (u2_sig_coeff_map sb) 16))" for k i
  proof -
    have "i \<in> set (map_positions (u2_sig_coeff_map sb) 16)" using that by (metis enumerate_eq_zip set_zip_rightD)
    then show ?thesis by (simp add: map_positions_def del: upt_rec_numeral)
  qed
  have inside: "entry_row a sb i < trans_size a" "entry_col a sb i < trans_size a" if "i < 16" for i
  proof -
    have "gau1_ihevc_invscan4x4 ! scan_type a ! i < 16" using assms(2) that by (intro invscan_lt) (simp_all add: sblks_ok_def)
    moreover from this have "gau1_ihevc_invscan4x4 ! scan_type a ! i div 4 < 4" by simp
    ultimately show "entry_row a sb i < trans_size a" "entry_col a sb i < trans_size a"
      using assms(2) unfolding sblks_ok_def entry_row_def entry_col_def by simp_all linarith+
  qed
  have "holds_block (trans_size a) c (fold (put_entry a sb) ps x) (fold (\<lambda>(k, i). put_coeff a c sb i k) ps st)"
    if "\<And>k i. (k, i) \<in> set ps \<Longrightarrow> i < 16" for ps
    using that assms(1)
  proof (induction ps arbitrary: x st)
    case (Cons p ps)
    obtain k i where p: "p = (k, i)" by (cases p)
    have i: "i < 16" using Cons.prems(1) [of k i] p by simp
    have "holds_block (trans_size a) c (put_entry a sb p x) (put_coeff a c sb i k st)"
      unfolding p by (rule put_coeff_holds [OF Cons.prems(2) inside [OF i]])
    moreover have "i' < 16" if "(k', i') \<in> set ps" for k' i' by (rule Cons.prems(1) [of k']) (simp add: that)
    ultimately have "holds_block (trans_size a) c (fold (put_entry a sb) ps (put_entry a sb p x))
      (fold (\<lambda>(k, i). put_coeff a c sb i k) ps (put_coeff a c sb i k st))" by (intro Cons.IH)
    then show ?case by (simp add: p)
  qed simp
  from this [OF pos] show ?thesis unfolding put_entries_def unpack_sblk_fold [OF m] .
qed

lemma unpack_loop_holds:
  assumes "holds_block (trans_size a) c (\<lambda>_. 0) st" "sblks_ok a sblks"
  shows "holds_block (trans_size a) c (coeff_block a sblks) (fold (unpack_sblk a c) sblks st)"
proof -
  have "holds_block (trans_size a) c (fold (put_entries a) sblks x) (fold (unpack_sblk a c) sblks st)"
    if "holds_block (trans_size a) c x st" for x
    using that assms(2)
  proof (induction sblks arbitrary: x st)
    case (Cons sb sblks)
    have ok: "sblks_ok a [sb]" "sblks_ok a sblks" using Cons.prems(2) by (simp_all add: sblks_ok_def)
    show ?case using Cons.IH [OF unpack_sblk_holds [OF Cons.prems(1) ok(1)] ok(2)] by simp
  qed simp
  then show ?thesis using assms(1) by (simp add: coeff_block_def)
qed

text \<open>The first coefficient alone, as the shortcut recognises it.\<close>

lemma put_entries_dc:
  assumes "u2_subblk_pos sb = 0" "u2_sig_coeff_map sb = 1" "scan_type a < 3"
  shows "put_entries a sb x = x((0, 0) := word_of_int (level_value a (ai2_level sb ! 0) 0))"
proof -
  have "map_positions (1 :: 16 word) 16 = [0]" by (simp add: map_positions_def upt_rec bit_1_iff)
  moreover have "gau1_ihevc_invscan4x4 ! scan_type a ! 0 = 0"
  proof -
    have "\<forall>s \<in> {0, 1, 2}. gau1_ihevc_invscan4x4 ! s ! 0 = 0" by code_simp
    moreover have "scan_type a \<in> {0, 1, 2}" using assms(3) by auto
    ultimately show ?thesis by blast
  qed
  ultimately show ?thesis
    using assms(1,2) by (simp add: put_entries_def put_entry_def entry_row_def entry_col_def entry_value_def)
qed

definition dc_only :: "unpack_args \<Rightarrow> tu_sblk_coeff_data list \<Rightarrow> bool" where
  "dc_only a sblks \<longleftrightarrow> \<not> is_dst a \<and> length sblks = 1 \<and> u2_subblk_pos (sblks ! 0) = 0 \<and> u2_sig_coeff_map (sblks ! 0) = 1"

lemma coeff_block_dc:
  assumes "dc_only a sblks" "sblks_ok a sblks"
  shows "coeff_block a sblks = (\<lambda>_. 0)((0, 0) := word_of_int (level_value a (ai2_level (sblks ! 0) ! 0) 0))"
proof -
  obtain sb where sb: "sblks = [sb]" using assms(1) by (auto simp: dc_only_def length_Suc_conv)
  have "put_entries a sb (\<lambda>_. 0) = (\<lambda>_. 0)((0, 0) := word_of_int (level_value a (ai2_level sb ! 0) 0))"
    by (rule put_entries_dc) (use assms in \<open>simp_all add: dc_only_def sblks_ok_def sb\<close>)
  then show ?thesis by (simp add: coeff_block_def sb)
qed

text \<open>What unpacking returns: the block with truthful masks, or its only coefficient.\<close>

lemma cleared_holds: "holds_block n c (\<lambda>_. 0) (\<lambda>x. if c \<le> x \<and> x < c + int n * int n then 0 else coeffs x, NOT 0, NOT 0)"
  unfolding holds_block_def prod.case
proof (intro conjI allI impI)
  fix i j assume ij: "i < n" "j < n"
  have "i * n + j < n * n"
  proof -
    have "i * n + j < i * n + n" using ij by simp
    also have "\<dots> = (i + 1) * n" by simp
    also have "\<dots> \<le> n * n" by (rule mult_le_mono1) (use ij in simp)
    finally show ?thesis .
  qed
  then have "int i * int n + int j < int n * int n" by (metis of_nat_add of_nat_less_iff of_nat_mult)
  then show "(if c \<le> c + int i * int n + int j \<and> c + int i * int n + int j < c + int n * int n then 0
    else coeffs (c + int i * int n + int j)) = 0" by simp
qed simp_all

lemma unpack_general:
  fixes coeffs :: mem16 and c :: int and v :: "16 word" and rest :: "tu_sblk_coeff_data list"
  assumes "\<not> dc_only a sblks" "sblks_ok a sblks"
  defines "u \<equiv> ihevcd_unpack_coeffs a (length sblks) (sblks @ rest) coeffs c v"
  shows "r_coeff_type u = 0" "holds_block (trans_size a) c (coeff_block a sblks) (r_coeffs u, r_zero_cols u, r_zero_rows u)"
proof -
  let ?st = "fold (unpack_sblk a c) sblks
    (\<lambda>x. if c \<le> x \<and> x < c + int (trans_size a) * int (trans_size a) then 0 else coeffs x, NOT 0, NOT 0)"
  have nd: "\<not> (\<not> is_dst a \<and> length sblks = 1 \<and> u2_subblk_pos ((sblks @ rest) ! 0) = 0 \<and> u2_sig_coeff_map ((sblks @ rest) ! 0) = 1)"
    using assms(1) by (cases sblks) (auto simp: dc_only_def)
  have "u = (case ?st of (coeffs, zero_cols, zero_rows) \<Rightarrow>
    \<lparr>r_coeffs = coeffs, r_zero_cols = zero_cols, r_zero_rows = zero_rows, r_coeff_type = 0, r_coeff_value = v, r_rest = rest\<rparr>)"
    unfolding u_def ihevcd_unpack_coeffs_def Let_def if_not_P [OF nd] by simp
  then show "r_coeff_type u = 0" "holds_block (trans_size a) c (coeff_block a sblks) (r_coeffs u, r_zero_cols u, r_zero_rows u)"
    using unpack_loop_holds [OF cleared_holds [of "trans_size a" c coeffs] assms(2)] by (auto split: prod.splits)
qed

lemma unpack_dc:
  fixes coeffs :: mem16 and c :: int and v :: "16 word" and rest :: "tu_sblk_coeff_data list"
  assumes "dc_only a sblks" "sblks_ok a sblks"
  defines "u \<equiv> ihevcd_unpack_coeffs a (length sblks) (sblks @ rest) coeffs c v"
  shows "r_coeff_type u = 1" "r_coeff_value u = coeff_block a sblks (0, 0)" "r_coeffs u c = coeff_block a sblks (0, 0)"
    "r_zero_cols u = NOT 1" "r_zero_rows u = NOT 1"
    "trans_skip a \<or> trans_quant_bypass a \<Longrightarrow> 0 < i \<Longrightarrow> i < trans_size a \<Longrightarrow> r_coeffs u (c + int i * int (trans_size a)) = 0"
proof -
  obtain sb where sb: "sblks = [sb]" using assms(1) by (auto simp: dc_only_def length_Suc_conv)
  have d: "\<not> is_dst a \<and> length sblks = 1 \<and> u2_subblk_pos ((sblks @ rest) ! 0) = 0 \<and> u2_sig_coeff_map ((sblks @ rest) ! 0) = 1"
    using assms(1) by (simp add: dc_only_def sb)
  note u = u_def [unfolded ihevcd_unpack_coeffs_def Let_def if_P [OF d]]
  show "r_coeff_type u = 1" "r_coeff_value u = coeff_block a sblks (0, 0)" "r_coeffs u c = coeff_block a sblks (0, 0)"
    "r_zero_cols u = NOT 1" "r_zero_rows u = NOT 1"
    by (simp_all add: u coeff_block_dc [OF assms(1,2), unfolded sb] sb)
  assume skip: "trans_skip a \<or> trans_quant_bypass a" and i: "0 < i" "i < trans_size a"
  let ?n = "int (trans_size a)"
  have n: "0 < ?n" "int i < ?n" using i by simp_all
  then have a: "0 < int i * ?n" "int i * ?n < ?n * ?n" using i by (simp_all del: of_nat_power)
  have "for_to ?n (\<lambda>i m. m(c + i * ?n := 0)) m (c + int i * ?n) = 0" for m :: mem16
    by (rule for_to_stores_in [where a = "\<lambda>i. c + i * ?n" and v = "\<lambda>_. 0"]) (use n in auto)
  then show "r_coeffs u (c + int i * ?n) = 0"
    using a skip by (auto simp: u simp del: of_nat_power of_nat_numeral)
qed

text \<open>
  C15: Inverse quantisation is the formula of the standard, for every quantiser and scaling list entry
  the syntax allows: the 10-bit clipping of levels for 4x4 blocks loses nothing, and for larger blocks
  the unclipped 32-bit product does not overflow.
\<close>

theorem iquant_exact:
  fixes lv m :: int
  assumes "- 32768 \<le> lv" "lv \<le> 32767" "1 \<le> m" "m \<le> 255" "2 \<le> lg" "lg \<le> 5" "8 \<le> bd" "bd \<le> 14" "qp \<le> 51 + 6 * (bd - 8)"
  defines "sh \<equiv> bd + lg - 5" and "q \<equiv> qp div 6" and "dq \<equiv> m * g_ihevc_iquant_scales ! (qp mod 6)"
  shows "(if lg = 2 then IQUANT_4x4 lv dq (int sh) (int q) else IQUANT lv dq (int sh) (int q)) = iquant_ref lv dq sh q \<and>
    \<bar>iquant_tmp (if lg = 2 then iquant_clip lv (int sh) (int q) else lv) dq (int sh) (int q)\<bar> < 2 ^ 31"
proof (intro conjI)
  show "\<bar>iquant_tmp (if lg = 2 then iquant_clip lv (int sh) (int q) else lv) dq (int sh) (int q)\<bar> < 2 ^ 31"
    unfolding sh_def q_def dq_def by (rule iquant_no_overflow [OF assms(1-9)])
  have sh: "1 \<le> sh" using assms by (simp add: sh_def)
  have "1 * 40 \<le> dq" unfolding dq_def by (rule mult_mono) (use assms(3) iquant_scale(1) [of "qp mod 6"] in simp_all)
  then show "(if lg = 2 then IQUANT_4x4 lv dq (int sh) (int q) else IQUANT lv dq (int sh) (int q)) = iquant_ref lv dq sh q"
    using IQUANT_4x4_ref [OF sh _ assms(1,2)] IQUANT_ref [OF sh] by simp
qed

lemma iquant_exact_witness:
  "IQUANT_4x4 (- 600) (16 * 45) 5 6 = iquant_ref (- 600) (16 * 45) 5 6 \<and> \<bar>iquant_tmp (- 512) 720 5 6\<bar> < 2 ^ 31"
  using iquant_exact [where lv = "- 600" and m = 16 and lg = 2 and bd = 8 and qp = 37]
  by (simp add: g_ihevc_iquant_scales_def iquant_clip_def CLIP3_def)

text \<open>What a plane with coded coefficients becomes.\<close>

definition plane_residual :: "unpack_args \<Rightarrow> nat \<Rightarrow> tu_sblk_coeff_data list \<Rightarrow> int \<Rightarrow> int \<Rightarrow> int" where
  "plane_residual a idx sblks r c =
    (if trans_quant_bypass a \<or> trans_skip a then sint (coeff_block a sblks (nat r, nat c))
     else residual idx 12 (\<lambda>i j. sint (coeff_block a sblks (nat i, nat j))) r c)"

lemma unpack_recon_update:
  fixes coeffs :: mem16 and m :: mem8 and c dst strd :: int and rest :: "tu_sblk_coeff_data list"
  assumes idx: "func_idx < 9" and size: "trans_n (luma_idx func_idx) = trans_size a" and dst: "is_dst a \<longleftrightarrow> func_idx = 0"
    and chroma: "is_chroma \<longleftrightarrow> 5 \<le> func_idx" and ok: "sblks_ok a sblks"
  defines "n \<equiv> int (trans_size a)"
  assumes strd: "n * pixel_step func_idx \<le> strd"
  shows "unpack_recon a func_idx is_chroma True (length sblks) (sblks @ rest) coeffs c tmp t dst strd m =
    update_block n n (\<lambda>r c. dst + r * strd + c * pixel_step func_idx) (\<lambda>r c. dst + r * strd + c * pixel_step func_idx)
      (\<lambda>r c v. word_of_int (CLIP_U8 (plane_residual a (luma_idx func_idx) sblks r c + uint v))) m"
proof -
  let ?k = "luma_idx func_idx" and ?step = "pixel_step func_idx"
  define u where "u = ihevcd_unpack_coeffs a (length sblks) (sblks @ rest) coeffs c 0"
  let ?x = "\<lambda>i j. sint (r_coeffs u (c + j + i * n))" and ?b = "\<lambda>i j. sint (coeff_block a sblks (nat i, nat j))"
  note k = luma_idx_lt [OF idx]
  have n32: "n \<le> 32" using trans_n_le [OF k] unfolding n_def size [symmetric] by simp
  have place: "in_place n n (\<lambda>r c. dst + r * strd + c * ?step) (\<lambda>r c. dst + r * strd + c * ?step)"
    by (rule in_place_step) (use strd in \<open>simp_all add: pixel_step_def\<close>)
  have run: "unpack_recon a func_idx is_chroma True (length sblks) (sblks @ rest) coeffs c tmp t dst strd m =
    (if trans_quant_bypass a \<or> trans_skip a then apf_recon func_idx (r_coeffs u) c m dst dst n strd strd (r_zero_cols u)
     else if r_coeff_type u = 0 then apf_itrans_recon func_idx (r_coeffs u) c tmp t m dst dst n strd strd (r_zero_cols u) (r_zero_rows u)
     else apf_itrans_recon_dc (if is_chroma then 1 else 0) m dst dst strd strd (log2_trans_size a) (r_coeff_value u))"
    by (simp add: unpack_recon_def ihevcd_iquant_itrans_recon_tu_plane_def u_def n_def Let_def)
  have general: "?x (int i) (int j) = ?b (int i) (int j)" "?b (int i) (int j) \<noteq> 0 \<Longrightarrow> \<not> bit (r_zero_cols u) j \<and> \<not> bit (r_zero_rows u) i"
    if "\<not> dc_only a sblks" "int i < n" "int j < n" for i j
  proof -
    have "holds_block (trans_size a) c (coeff_block a sblks) (r_coeffs u, r_zero_cols u, r_zero_rows u)"
      unfolding u_def by (rule unpack_general(2) [OF that(1) ok])
    moreover have "i < trans_size a" "j < trans_size a" using that(2,3) unfolding n_def by simp_all
    moreover have "coeff_block a sblks (i, j) \<noteq> 0" if "?b (int i) (int j) \<noteq> 0" using that by auto
    ultimately show "?x (int i) (int j) = ?b (int i) (int j)" "?b (int i) (int j) \<noteq> 0 \<Longrightarrow> \<not> bit (r_zero_cols u) j \<and> \<not> bit (r_zero_rows u) i"
      unfolding holds_block_def n_def by (simp_all add: add.assoc add.commute [of "int j"] add.left_commute [of "int j"])
  qed
  note dc = unpack_dc [OF _ ok, where coeffs = coeffs and c = c and v = 0 and rest = rest, folded u_def]
  show ?thesis
  proof (cases "trans_quant_bypass a \<or> trans_skip a")
    case True
    have val: "(if bit (r_zero_cols u) (nat i) then v else word_of_int (CLIP_U8 (?x j i + uint v))) =
        word_of_int (CLIP_U8 (?b j i + uint v))"
      if ij: "0 \<le> i" "i < n" "0 \<le> j" "j < n" for i j :: int and v :: "8 word"
    proof (cases "dc_only a sblks")
      case False
      have "CLIP_U8 (uint v) = uint v" using uint_lt2p [of v] by (simp add: CLIP_U8_def CLIP3_def)
      then show ?thesis using general [OF False, of "nat j" "nat i"] ij by (cases "?b j i = 0") auto
    next
      case dc_case: True
      note block = coeff_block_dc [OF dc_case ok]
      have "CLIP_U8 (uint v) = uint v" using uint_lt2p [of v] by (simp add: CLIP_U8_def CLIP3_def)
      moreover have "r_coeffs u (c + j * n) = 0" if "0 < j"
        using dc(6) [OF dc_case _ _ , of "nat j"] True that ij by (auto simp: n_def)
      moreover have "r_coeffs u c = coeff_block a sblks (0, 0)" "r_zero_cols u = NOT 1" using dc(3,4) [OF dc_case] by simp_all
      ultimately show ?thesis
        using ij n32 by (cases "i = 0"; cases "j = 0") (auto simp: block bit_not_iff bit_1_iff nat_eq_iff)
    qed
    have "apf_recon func_idx (r_coeffs u) c m dst dst n strd strd (r_zero_cols u) =
      update_block n n (\<lambda>i j. dst + i * ?step + j * strd) (\<lambda>i j. dst + i * ?step + j * strd)
        (\<lambda>i j v. if bit (r_zero_cols u) (nat i) then v else word_of_int (CLIP_U8 (sint (r_coeffs u (c + i + j * n)) + uint v))) m"
      unfolding apf_recon_block [OF idx] size n_def [symmetric] recon_block_update [OF n32] CLIP_U8_def ..
    also have "\<dots> = update_block n n (\<lambda>i j. dst + i * ?step + j * strd) (\<lambda>i j. dst + i * ?step + j * strd)
        (\<lambda>i j v. word_of_int (CLIP_U8 (?b j i + uint v))) m"
      by (rule update_block_cong) (rule val)
    also have "\<dots> = update_block n n (\<lambda>i j. dst + j * strd + i * ?step) (\<lambda>i j. dst + j * strd + i * ?step)
        (\<lambda>i j v. word_of_int (CLIP_U8 (?b j i + uint v))) m"
      by (simp only: add.assoc add.commute [of "_ * ?step"])
    also have "\<dots> = update_block n n (\<lambda>r c. dst + r * strd + c * ?step) (\<lambda>r c. dst + r * strd + c * ?step)
        (\<lambda>r c v. word_of_int (CLIP_U8 (?b r c + uint v))) m"
      by (rule update_block_transpose [OF place])
    finally show ?thesis using True by (simp add: run plane_residual_def)
  next
    case False
    show ?thesis
    proof (cases "dc_only a sblks")
      case general_case: False
      have masks: "masks_true (trans_n ?k) (r_zero_cols u) (r_zero_rows u) ?x"
        unfolding masks_true_def size using general [OF general_case] unfolding n_def by (metis of_nat_less_iff)
      have "residual ?k 12 ?x r c = residual ?k 12 ?b r c" for r c
        by (rule residual_cong) (use general(1) [OF general_case] in \<open>simp add: size n_def\<close>)
      moreover have "r_coeff_type u = 0" unfolding u_def by (rule unpack_general(1) [OF general_case ok])
      ultimately show ?thesis
        using False by (simp add: run plane_residual_def apf_itrans_recon_update [OF idx masks [unfolded n_def]] size n_def del: of_nat_power of_nat_numeral)
    next
      case dc_case: True
      have k1: "1 \<le> ?k" using dc_case dst by (auto simp: dc_only_def luma_idx_def)
      have "?b (int i) (int j) = 0" if "0 < i + j" for i j using that by (auto simp: coeff_block_dc [OF dc_case ok])
      then have res: "residual ?k 12 ?b r c = itrans_dc_value (?b 0 0) 12" if "0 \<le> r" "r < n" "0 \<le> c" "c < n" for r c
        by (intro residual_dc [OF k1 k]) (use that in \<open>simp_all add: size n_def\<close>)
      have lg: "(2 :: int) ^ log2_trans_size a = int (trans_n ?k)" by (simp add: size)
      have ix: "(if is_chroma then 1 else 0) = (if func_idx < 5 then 0 else 1 :: nat)" using chroma by auto
      have "unpack_recon a func_idx is_chroma True (length sblks) (sblks @ rest) coeffs c tmp t dst strd m =
        apf_itrans_recon_dc (if is_chroma then 1 else 0) m dst dst strd strd (log2_trans_size a) (coeff_block a sblks (0, 0))"
        unfolding run using False dc(1,2) [OF dc_case] by simp
      also have "\<dots> = update_block n n (\<lambda>r c. dst + r * strd + c * ?step) (\<lambda>r c. dst + r * strd + c * ?step)
          (\<lambda>r c v. word_of_int (CLIP_U8 (itrans_dc_value (?b 0 0) 12 + uint v))) m"
        unfolding ix apf_itrans_recon_dc_update [OF idx lg] by (simp add: size n_def del: of_nat_power of_nat_numeral)
      also have "\<dots> = update_block n n (\<lambda>r c. dst + r * strd + c * ?step) (\<lambda>r c. dst + r * strd + c * ?step)
          (\<lambda>r c v. word_of_int (CLIP_U8 (plane_residual a ?k sblks r c + uint v))) m"
        by (rule update_block_cong) (use False res in \<open>simp add: plane_residual_def\<close>)
      finally show ?thesis .
    qed
  qed
qed

text \<open>
  C3: The luma plane of a coded transform unit is reconstructed from the coefficient block its levels
  describe: whatever the sub-blocks, size, prediction mode, bypass or skip flag, each sample becomes
  the clipped sum of its prediction and of the residual, with none of the masks and shortcuts visible;
  without coded coefficients the samples stay.
\<close>

theorem luma_tu_reference:
  fixes coeffs tmp :: mem16 and m :: mem8 and cbase t y_dst pic_strd r c qp_bd_offset_y :: int and rest :: "tu_sblk_coeff_data list"
    and tu :: luma_tu and intra_flag :: bool and bd scan :: nat and dequant_matrix :: "nat \<Rightarrow> 16 word"
  assumes size: "b3_size tu \<le> 3"
  defines "n \<equiv> 2 ^ (b3_size tu + 2)" and "a \<equiv> luma_args tu intra_flag qp_bd_offset_y bd scan dequant_matrix"
  assumes ok: "sblks_ok a sblks" and strd: "n \<le> pic_strd" and rc: "0 \<le> r" "r < n" "0 \<le> c" "c < n"
  shows "uint (luma_tu_recon tu intra_flag qp_bd_offset_y bd scan dequant_matrix (length sblks) (sblks @ rest) coeffs cbase tmp t
      y_dst pic_strd m (y_dst + r * pic_strd + c)) =
    (if b1_y_cbf tu then CLIP_U8 (plane_residual a (luma_func_idx tu intra_flag) sblks r c + uint (m (y_dst + r * pic_strd + c)))
     else uint (m (y_dst + r * pic_strd + c)))"
proof (cases "b1_y_cbf tu")
  case False
  then show ?thesis by (simp add: luma_tu_recon_def unpack_recon_def ihevcd_iquant_itrans_recon_tu_plane_def Let_def)
next
  case True
  let ?idx = "luma_func_idx tu intra_flag"
  have "b3_size tu \<in> {0, 1, 2, 3}" using size by auto
  then have "trans_n ?idx = trans_size a" "?idx < 5"
    by (auto simp: luma_func_idx_def a_def luma_args_def trans_n_def)
  then have idx: "?idx < 9" "trans_n (luma_idx ?idx) = trans_size a" "is_dst a \<longleftrightarrow> ?idx = 0" "False \<longleftrightarrow> 5 \<le> ?idx"
    "luma_idx ?idx = ?idx" "pixel_step ?idx = 1"
    by (auto simp: luma_idx_def pixel_step_def luma_func_idx_def a_def luma_args_def)
  have n: "int (trans_size a) = n" by (simp add: a_def luma_args_def n_def)
  note update = unpack_recon_update [OF idx(1-4) ok, unfolded n idx(5,6), simplified, OF strd]
  have "luma_tu_recon tu intra_flag qp_bd_offset_y bd scan dequant_matrix (length sblks) (sblks @ rest) coeffs cbase tmp t y_dst pic_strd m =
    update_block n n (\<lambda>r c. y_dst + r * pic_strd + c) (\<lambda>r c. y_dst + r * pic_strd + c)
      (\<lambda>r c v. word_of_int (CLIP_U8 (plane_residual a ?idx sblks r c + uint v))) m"
    using True by (simp add: luma_tu_recon_def a_def [symmetric] update)
  then show ?thesis using True by (simp only: update_block_in [OF in_place_block [OF strd] rc] uint_clip_u8 if_True)
qed

text \<open>A block of 8x8 samples with two levels in its second sub-block.\<close>

lemma luma_tu_reference_witness:
  "let tu = \<lparr>b3_size = 1, b7_qp = 30, b1_y_cbf = True, b1_transquant_bypass = False\<rparr>;
       sblks = [\<lparr>u2_subblk_pos = 0x0100, u2_sig_coeff_map = 0x0009, ai2_level = [3, - 7]\<rparr>];
       a = luma_args tu True 0 8 2 (\<lambda>_. 16)
   in uint (luma_tu_recon tu True 0 8 2 (\<lambda>_. 16) 1 (sblks @ []) (\<lambda>_. 77) 0 (\<lambda>_. 0) 0 0 16 (\<lambda>_. 100) (0 + 5 * 16 + 6)) =
     CLIP_U8 (plane_residual a (luma_func_idx tu True) sblks 5 6 + uint (100 :: 8 word))"
  unfolding Let_def
  using luma_tu_reference [where tu = "\<lparr>b3_size = 1, b7_qp = 30, b1_y_cbf = True, b1_transquant_bypass = False\<rparr>"
      and intra_flag = True and qp_bd_offset_y = 0 and bd = 8 and scan = 2 and dequant_matrix = "\<lambda>_. 16"
      and sblks = "[\<lparr>u2_subblk_pos = 0x0100, u2_sig_coeff_map = 0x0009, ai2_level = [3, - 7]\<rparr>]" and pic_strd = 16 and r = 5 and c = 6
      and rest = "[]" and coeffs = "\<lambda>_. 77" and cbase = 0 and tmp = "\<lambda>_. 0" and t = 0 and y_dst = 0 and m = "\<lambda>_. 100"]
  by (simp add: sblks_ok_def luma_args_def scan_type_def luma_func_idx_def)

end
