(* ===== verification/Sao.thy ===== *)
theory Sao
  imports Samples
begin

text \<open>
  Sample adaptive offset, \<^verbatim>\<open>common/ihevc_sao.c\<close> and \<^verbatim>\<open>common/ihevc_hbd_sao.c\<close>. The routines work in place
  on a block of the deblocked picture; the unmodified samples of the neighbouring blocks come from
  saved arrays (the column to the left, the row above, the corner), which each call refills for the
  blocks that follow. A chroma block holds U and V samples alternately, so that all routines are
  instances of a step of 1 or 2; \<open>off\<close> gives the offsets of a component.

  What is proved: every edge offset routine, for 8 bits and for more, luma and chroma, computes the
  offset of the standard from the samples before the call, and saves the right column, the bottom row
  and the corner unmodified.
\<close>

section \<open>Samples\<close>

definition SIGN :: "int \<Rightarrow> int" where
  "SIGN x = (if x \<ge> 0 then if x > 0 then 1 else 0 else - 1)"

definition gi4_ihevc_table_edge_idx :: "nat list" where
  "gi4_ihevc_table_edge_idx = [1, 2, 0, 3, 4]"

text \<open>A sample and its offset, the category 0 being without one.\<close>

definition edge_val :: "nat \<Rightarrow> (nat \<Rightarrow> 8 word) \<Rightarrow> nat \<Rightarrow> 'w::len word \<Rightarrow> 'w word" where
  "edge_val bd pi1_sao_offset edge_idx v =
    (if edge_idx \<noteq> 0 then word_of_int (CLIP3 (uint v + sint (pi1_sao_offset edge_idx)) 0 (2 ^ bd - 1)) else v)"

definition edge_store :: "nat \<Rightarrow> (nat \<Rightarrow> 8 word) \<Rightarrow> bool \<Rightarrow> int \<Rightarrow> (int \<Rightarrow> 'w::len word) \<Rightarrow> int \<Rightarrow> (int \<Rightarrow> 'w word)" where
  "edge_store bd pi1_sao_offset avl e m x =
    (let edge_idx = (if avl then gi4_ihevc_table_edge_idx ! nat e else 0)
     in if edge_idx \<noteq> 0 then m(x := word_of_int (CLIP3 (uint (m x) + sint (pi1_sao_offset edge_idx)) 0 (2 ^ bd - 1))) else m)"

text \<open>The block of the picture and the saved arrays.\<close>

record 'v sao_bufs =
  pu1_src :: "int \<Rightarrow> 'v"
  pu1_src_left :: "int \<Rightarrow> 'v"
  pu1_src_top :: "int \<Rightarrow> 'v"
  pu1_src_top_left :: "int \<Rightarrow> 'v"

text \<open>The loops over a block that carry a state \<open>s\<close> beside the memory.\<close>

definition sweep :: "int \<Rightarrow> int \<Rightarrow> (int \<Rightarrow> 'm \<Rightarrow> 's \<Rightarrow> 's) \<Rightarrow> (int \<Rightarrow> int \<Rightarrow> 'm \<times> 's \<Rightarrow> 'm \<times> 's) \<Rightarrow> ('s \<Rightarrow> 's) \<Rightarrow> 'm \<times> 's \<Rightarrow> 'm \<times> 's" where
  "sweep ht wd enter body leave =
     for_to ht (\<lambda>row (m, s). case for_to wd (body row) (m, enter row m s) of (m, s) \<Rightarrow> (m, leave s))"

text \<open>The right column, the bottom row, the corner; copying an array.\<close>

definition save_right :: "int \<Rightarrow> (int \<Rightarrow> 'v) \<Rightarrow> int \<Rightarrow> int \<Rightarrow> int \<Rightarrow> int \<Rightarrow> (int \<Rightarrow> 'v) \<Rightarrow> (int \<Rightarrow> 'v)" where
  "save_right step src p src_strd wd ht left =
     for_to ht (\<lambda>row. for_to step (\<lambda>k left. left(step * row + k := src (p + row * src_strd + (wd - step) + k)))) left"

definition save_bottom :: "(int \<Rightarrow> 'v) \<Rightarrow> int \<Rightarrow> int \<Rightarrow> int \<Rightarrow> int \<Rightarrow> (int \<Rightarrow> 'v) \<Rightarrow> (int \<Rightarrow> 'v)" where
  "save_bottom src p src_strd wd ht trow = for_to wd (\<lambda>col trow. trow(col := src (p + (ht - 1) * src_strd + col))) trow"

definition save_corner :: "int \<Rightarrow> int \<Rightarrow> (int \<Rightarrow> 'v) \<Rightarrow> (int \<Rightarrow> 'v) \<Rightarrow> (int \<Rightarrow> 'v)" where
  "save_corner step wd trow top_left = for_to step (\<lambda>k top_left. top_left(k := trow (wd - step + k))) top_left"

definition copy_to :: "int \<Rightarrow> (int \<Rightarrow> 'v) \<Rightarrow> (int \<Rightarrow> 'v) \<Rightarrow> (int \<Rightarrow> 'v)" where
  "copy_to n tmp dst = for_to n (\<lambda>i dst. dst(i := tmp i)) dst"

text \<open>The mask of the columns whose neighbours are missing, by pairs of samples for chroma.\<close>

definition au1_mask :: "int \<Rightarrow> bool list \<Rightarrow> int \<Rightarrow> int \<Rightarrow> bool" where
  "au1_mask step pu1_avail wd =
    (let avl = \<lambda>_. True;
         avl = (if \<not> pu1_avail ! 0 then avl(0 := False) else avl);
         avl = (if \<not> pu1_avail ! 1 then avl((wd - 1) div step := False) else avl)
     in avl)"

text \<open>The difference of two samples of a memory.\<close>

abbreviation sgn2 :: "'w::len word \<Rightarrow> 'w word \<Rightarrow> int" where
  "sgn2 v w \<equiv> SIGN (uint v - uint w)"

section \<open>Band offset\<close>

definition band_table :: "int \<Rightarrow> nat list" where
  "band_table sao_band_pos = fold (\<lambda>i t. t[nat ((int i + sao_band_pos) mod 32) := i + 1]) [0 ..< 4] (replicate 32 0)"

text \<open>The lookup for 8 bits, and the guarded one.\<close>

definition band_idx :: "nat list \<Rightarrow> int \<Rightarrow> nat" where
  "band_idx table idx = table ! nat idx"

definition hbd_band_idx :: "nat list \<Rightarrow> int \<Rightarrow> nat" where
  "hbd_band_idx table idx = (if idx < 32 then table ! nat idx else 0)"

definition sao_band :: "int \<Rightarrow> nat \<Rightarrow> (nat list \<Rightarrow> int \<Rightarrow> nat) \<Rightarrow> 'w::len word sao_bufs \<Rightarrow> int \<Rightarrow> int \<Rightarrow> (int \<Rightarrow> int) \<Rightarrow> (int \<Rightarrow> nat \<Rightarrow> 8 word) \<Rightarrow> int \<Rightarrow> int \<Rightarrow> 'w word sao_bufs" where
  "sao_band step bd lookup b p src_strd sao_band_pos off wd ht =
    (let left = save_right step (pu1_src b) p src_strd wd ht (pu1_src_left b);
         top_left = save_corner step wd (pu1_src_top b) (pu1_src_top_left b);
         trow = save_bottom (pu1_src b) p src_strd wd ht (pu1_src_top b);
         band_shift = bd - 5;
         table = (\<lambda>k. band_table (sao_band_pos k));
         src = for_to ht (\<lambda>row. for_to wd (\<lambda>col m.
           m(p + row * src_strd + col := word_of_int (CLIP3 (uint (m (p + row * src_strd + col)) +
             sint (off (col mod step) (lookup (table (col mod step)) (uint (m (p + row * src_strd + col)) div 2 ^ band_shift))))
             0 (2 ^ (band_shift + 5) - 1))))) (pu1_src b)
     in \<lparr>pu1_src = src, pu1_src_left = left, pu1_src_top = trow, pu1_src_top_left = top_left\<rparr>)"

section \<open>Edge offset\<close>

text \<open>Class 0: horizontal neighbours.\<close>

definition sao_class0 :: "int \<Rightarrow> nat \<Rightarrow> 'w::len word sao_bufs \<Rightarrow> int \<Rightarrow> int \<Rightarrow> bool list \<Rightarrow> (int \<Rightarrow> nat \<Rightarrow> 8 word) \<Rightarrow> int \<Rightarrow> int \<Rightarrow> 'w word sao_bufs" where
  "sao_class0 step bd b p src_strd pu1_avail off wd ht =
    (let top_left = save_corner step wd (pu1_src_top b) (pu1_src_top_left b);
         left_tmp = save_right step (pu1_src b) p src_strd wd ht (\<lambda>_. 0);
         trow = save_bottom (pu1_src b) p src_strd wd ht (pu1_src_top b);
         avl = au1_mask step pu1_avail wd;
         (src, _) = sweep ht wd
           (\<lambda>row m _ k. sgn2 (m (p + row * src_strd + k)) (pu1_src_left b (step * row + k)))
           (\<lambda>row col (m, sign_left).
              let sign_right = sgn2 (m (p + row * src_strd + col)) (m (p + row * src_strd + (col + step)));
                  e = 2 + sign_left (col mod step) + sign_right
              in (edge_store bd (off (col mod step)) (avl (col div step)) e m (p + row * src_strd + col),
                  sign_left(col mod step := - sign_right)))
           (\<lambda>s. s) (pu1_src b, \<lambda>_. 0)
     in \<lparr>pu1_src = src, pu1_src_left = copy_to (step * ht) left_tmp (pu1_src_left b), pu1_src_top = trow, pu1_src_top_left = top_left\<rparr>)"

text \<open>Class 1: vertical neighbours.\<close>

definition sao_class1 :: "int \<Rightarrow> nat \<Rightarrow> 'w::len word sao_bufs \<Rightarrow> int \<Rightarrow> int \<Rightarrow> bool list \<Rightarrow> (int \<Rightarrow> nat \<Rightarrow> 8 word) \<Rightarrow> int \<Rightarrow> int \<Rightarrow> 'w word sao_bufs" where
  "sao_class1 step bd b p src_strd pu1_avail off wd ht =
    (let top_left = save_corner step wd (pu1_src_top b) (pu1_src_top_left b);
         left = save_right step (pu1_src b) p src_strd wd ht (pu1_src_left b);
         top_tmp = save_bottom (pu1_src b) p src_strd wd ht (\<lambda>_. 0);
         (q, h) = (if \<not> pu1_avail ! 2 then (p + src_strd, ht - 1) else (p, ht));
         sign_up = for_to wd (\<lambda>col s. s(col := sgn2 (pu1_src b (q + col))
           (if \<not> pu1_avail ! 2 then pu1_src b (q + col - src_strd) else pu1_src_top b col))) (\<lambda>_. 0);
         h = (if \<not> pu1_avail ! 3 then h - 1 else h);
         (src, _) = sweep h wd (\<lambda>_ _ s. s)
           (\<lambda>row col (m, sign_up).
              let sign_down = sgn2 (m (q + row * src_strd + col)) (m (q + (row + 1) * src_strd + col));
                  e = 2 + sign_up col + sign_down
              in (edge_store bd (off (col mod step)) True e m (q + row * src_strd + col), sign_up(col := - sign_down)))
           (\<lambda>s. s) (pu1_src b, sign_up)
     in \<lparr>pu1_src = src, pu1_src_left = left, pu1_src_top = copy_to wd top_tmp (pu1_src_top b), pu1_src_top_left = top_left\<rparr>)"

text \<open>A corner sample with its two neighbours, computed before the block is overwritten.\<close>

definition corner_val :: "nat \<Rightarrow> bool \<Rightarrow> (nat \<Rightarrow> 8 word) \<Rightarrow> 'w::len word \<Rightarrow> 'w word \<Rightarrow> 'w word \<Rightarrow> 'w word" where
  "corner_val bd available pi1_sao_offset v a b =
    (if available then
       let edge_idx = gi4_ihevc_table_edge_idx ! nat (2 + sgn2 v a + sgn2 v b)
       in if edge_idx \<noteq> 0 then word_of_int (CLIP3 (uint v + sint (pi1_sao_offset edge_idx)) 0 (2 ^ bd - 1)) else v
     else v)"

text \<open>Class 2: neighbours at the top left and the bottom right.\<close>

definition sao_class2 :: "int \<Rightarrow> nat \<Rightarrow> 'w::len word sao_bufs \<Rightarrow> int \<Rightarrow> int \<Rightarrow> bool list \<Rightarrow> (int \<Rightarrow> nat \<Rightarrow> 8 word) \<Rightarrow> int \<Rightarrow> int \<Rightarrow> 'w word sao_bufs" where
  "sao_class2 step bd b p src_strd pu1_avail off wd ht =
    (let m = pu1_src b;
         top_left_tmp = save_corner step wd (pu1_src_top b) (\<lambda>_. 0);
         left_tmp = save_right step m p src_strd wd ht (\<lambda>_. 0);
         top_tmp = save_bottom m p src_strd wd ht (\<lambda>_. 0);
         pos_0_0 = (\<lambda>k. corner_val bd (pu1_avail ! 4) (off k) (m (p + k)) (pu1_src_top_left b k) (m (p + k + step + src_strd)));
         last = p + (wd - step) + (ht - 1) * src_strd;
         pos_wd_ht = (\<lambda>k. corner_val bd (pu1_avail ! 7) (off k) (m (last + k)) (m (last + k - step - src_strd)) (m (last + k + step + src_strd)));
         avl = au1_mask step pu1_avail wd;
         (q, h, left_cpy) = (if \<not> pu1_avail ! 2 then (p + src_strd, ht - 1, step) else (p, ht, 0));
         sign_up = for_to (wd - step) (\<lambda>i s. s(i + step := sgn2 (m (q + (i + step)))
           (if \<not> pu1_avail ! 2 then m (q + i - src_strd) else pu1_src_top b i))) (\<lambda>_. 0);
         h = (if \<not> pu1_avail ! 3 then h - 1 else h);
         (src, _) = sweep h wd
           (\<lambda>row m (sign_up, sign_up_tmp).
              (for_to step (\<lambda>k s. s(k := sgn2 (m (q + row * src_strd + k)) (pu1_src_left b (left_cpy + step * (row - 1) + k)))) sign_up, sign_up_tmp))
           (\<lambda>row col (m, sign_up, sign_up_tmp).
              let sign_down = sgn2 (m (q + row * src_strd + col)) (m (q + (row + 1) * src_strd + (col + step)));
                  e = 2 + sign_up col + sign_down
              in (edge_store bd (off (col mod step)) (avl (col div step)) e m (q + row * src_strd + col),
                  sign_up, sign_up_tmp(col + step := - sign_down)))
           (\<lambda>(sign_up, sign_up_tmp). (sign_up_tmp, sign_up)) (m, sign_up, \<lambda>_. 0);
         e = q + h * src_strd;
         src = for_to step (\<lambda>k src. src(e - (if pu1_avail ! 2 then h else h + 1) * src_strd + k := pos_0_0 k)) src;
         src = for_to step (\<lambda>k src. src(e + (if pu1_avail ! 3 then wd - step - src_strd else wd - step) + k := pos_wd_ht k)) src
     in \<lparr>pu1_src = src, pu1_src_left = copy_to (step * ht) left_tmp (pu1_src_left b),
         pu1_src_top = copy_to wd top_tmp (pu1_src_top b), pu1_src_top_left = copy_to step top_left_tmp (pu1_src_top_left b)\<rparr>)"

text \<open>Class 3: neighbours at the top right and the bottom left.\<close>

definition sao_class3 :: "int \<Rightarrow> nat \<Rightarrow> 'w::len word sao_bufs \<Rightarrow> int \<Rightarrow> int \<Rightarrow> (int \<Rightarrow> 'w word) \<Rightarrow> (int \<Rightarrow> 'w word) \<Rightarrow> bool list \<Rightarrow> (int \<Rightarrow> nat \<Rightarrow> 8 word) \<Rightarrow> int \<Rightarrow> int \<Rightarrow> 'w word sao_bufs" where
  "sao_class3 step bd b p src_strd pu1_src_top_right pu1_src_bot_left pu1_avail off wd ht =
    (let m = pu1_src b;
         top_left_tmp = save_corner step wd (pu1_src_top b) (\<lambda>_. 0);
         left_tmp = save_right step m p src_strd wd ht (\<lambda>_. 0);
         top_tmp = save_bottom m p src_strd wd ht (\<lambda>_. 0);
         right = p + (wd - step);
         pos_wd_0 = (\<lambda>k. corner_val bd (pu1_avail ! 5) (off k) (m (right + k)) (pu1_src_top_right k) (m (right + k - step + src_strd)));
         bot = p + (ht - 1) * src_strd;
         pos_0_ht = (\<lambda>k. corner_val bd (pu1_avail ! 6) (off k) (m (bot + k)) (m (bot + k + step - src_strd)) (pu1_src_bot_left k));
         avl = au1_mask step pu1_avail wd;
         (q, h, left_cpy) = (if \<not> pu1_avail ! 2 then (p + src_strd, ht - 1, step) else (p, ht, 0));
         sign_up = for_to (wd - step) (\<lambda>col s. s(col := sgn2 (m (q + col))
           (if \<not> pu1_avail ! 2 then m (q + (col + step) - src_strd) else pu1_src_top b (col + step)))) (\<lambda>_. 0);
         h = (if \<not> pu1_avail ! 3 then h - 1 else h);
         (src, _) = sweep h wd
           (\<lambda>row m. for_to step (\<lambda>k s. s(wd - step + k :=
              sgn2 (m (q + row * src_strd + (wd - step + k))) (m (q + (row - 1) * src_strd + (wd + k))))))
           (\<lambda>row col (m, sign_up).
              let sign_down = sgn2 (m (q + row * src_strd + col))
                    (if col < step then pu1_src_left b (left_cpy + step * (row + 1) + col) else m (q + (row + 1) * src_strd + (col - step)));
                  e = 2 + sign_up col + sign_down
              in (edge_store bd (off (col mod step)) (avl (col div step)) e m (q + row * src_strd + col),
                  if col \<ge> step then sign_up(col - step := - sign_down) else sign_up))
           (\<lambda>s. s) (m, sign_up);
         e = q + h * src_strd;
         src = for_to step (\<lambda>k src. src(e - (if pu1_avail ! 2 then h else h + 1) * src_strd + (wd - step) + k := pos_wd_0 k)) src;
         src = for_to step (\<lambda>k src. src(e + (if pu1_avail ! 3 then - src_strd else 0) + k := pos_0_ht k)) src
     in \<lparr>pu1_src = src, pu1_src_left = copy_to (step * ht) left_tmp (pu1_src_left b),
         pu1_src_top = copy_to wd top_tmp (pu1_src_top b), pu1_src_top_left = copy_to step top_left_tmp (pu1_src_top_left b)\<rparr>)"

section \<open>The routines\<close>

text \<open>Luma has one set of offsets; chroma takes the first one for U, the second one for V.\<close>

abbreviation luma_off :: "(nat \<Rightarrow> 8 word) \<Rightarrow> int \<Rightarrow> nat \<Rightarrow> 8 word" where
  "luma_off pi1_sao_offset \<equiv> \<lambda>_. pi1_sao_offset"

definition chroma_off :: "'a \<Rightarrow> 'a \<Rightarrow> int \<Rightarrow> 'a" where
  "chroma_off u v k = (if k = 0 then u else v)"

type_synonym 'v sao_luma = "'v sao_bufs \<Rightarrow> int \<Rightarrow> int \<Rightarrow> (int \<Rightarrow> 'v) \<Rightarrow> (int \<Rightarrow> 'v) \<Rightarrow> bool list \<Rightarrow> (nat \<Rightarrow> 8 word) \<Rightarrow> int \<Rightarrow> int \<Rightarrow> 'v sao_bufs"
type_synonym 'v sao_chroma = "'v sao_bufs \<Rightarrow> int \<Rightarrow> int \<Rightarrow> (int \<Rightarrow> 'v) \<Rightarrow> (int \<Rightarrow> 'v) \<Rightarrow> bool list \<Rightarrow> (nat \<Rightarrow> 8 word) \<Rightarrow> (nat \<Rightarrow> 8 word) \<Rightarrow> int \<Rightarrow> int \<Rightarrow> 'v sao_bufs"

definition ihevc_sao_band_offset_luma :: "8 word sao_bufs \<Rightarrow> int \<Rightarrow> int \<Rightarrow> int \<Rightarrow> (nat \<Rightarrow> 8 word) \<Rightarrow> int \<Rightarrow> int \<Rightarrow> 8 word sao_bufs" where
  "ihevc_sao_band_offset_luma b p src_strd sao_band_pos pi1_sao_offset wd ht =
     sao_band 1 8 band_idx b p src_strd (\<lambda>_. sao_band_pos) (luma_off pi1_sao_offset) wd ht"

definition ihevc_sao_band_offset_chroma :: "8 word sao_bufs \<Rightarrow> int \<Rightarrow> int \<Rightarrow> int \<Rightarrow> int \<Rightarrow> (nat \<Rightarrow> 8 word) \<Rightarrow> (nat \<Rightarrow> 8 word) \<Rightarrow> int \<Rightarrow> int \<Rightarrow> 8 word sao_bufs" where
  "ihevc_sao_band_offset_chroma b p src_strd sao_band_pos_u sao_band_pos_v offset_u offset_v wd ht =
     sao_band 2 8 band_idx b p src_strd (chroma_off sao_band_pos_u sao_band_pos_v) (chroma_off offset_u offset_v) wd ht"

definition ihevc_hbd_sao_band_offset_luma :: "16 word sao_bufs \<Rightarrow> int \<Rightarrow> int \<Rightarrow> int \<Rightarrow> (nat \<Rightarrow> 8 word) \<Rightarrow> int \<Rightarrow> int \<Rightarrow> nat \<Rightarrow> 16 word sao_bufs" where
  "ihevc_hbd_sao_band_offset_luma b p src_strd sao_band_pos pi1_sao_offset wd ht bd =
     sao_band 1 bd hbd_band_idx b p src_strd (\<lambda>_. sao_band_pos) (luma_off pi1_sao_offset) wd ht"

definition ihevc_hbd_sao_band_offset_chroma :: "16 word sao_bufs \<Rightarrow> int \<Rightarrow> int \<Rightarrow> int \<Rightarrow> int \<Rightarrow> (nat \<Rightarrow> 8 word) \<Rightarrow> (nat \<Rightarrow> 8 word) \<Rightarrow> int \<Rightarrow> int \<Rightarrow> nat \<Rightarrow> 16 word sao_bufs" where
  "ihevc_hbd_sao_band_offset_chroma b p src_strd sao_band_pos_u sao_band_pos_v offset_u offset_v wd ht bd =
     sao_band 2 bd hbd_band_idx b p src_strd (chroma_off sao_band_pos_u sao_band_pos_v) (chroma_off offset_u offset_v) wd ht"

definition ihevc_sao_edge_offset_class0 :: "8 word sao_luma" where
  "ihevc_sao_edge_offset_class0 b p src_strd top_right bot_left pu1_avail pi1_sao_offset wd ht =
     sao_class0 1 8 b p src_strd pu1_avail (luma_off pi1_sao_offset) wd ht"

definition ihevc_sao_edge_offset_class0_chroma :: "8 word sao_chroma" where
  "ihevc_sao_edge_offset_class0_chroma b p src_strd top_right bot_left pu1_avail offset_u offset_v wd ht =
     sao_class0 2 8 b p src_strd pu1_avail (chroma_off offset_u offset_v) wd ht"

definition ihevc_hbd_sao_edge_offset_class0 :: "nat \<Rightarrow> 16 word sao_luma" where
  "ihevc_hbd_sao_edge_offset_class0 bd b p src_strd top_right bot_left pu1_avail pi1_sao_offset wd ht =
     sao_class0 1 bd b p src_strd pu1_avail (luma_off pi1_sao_offset) wd ht"

definition ihevc_hbd_sao_edge_offset_class0_chroma :: "nat \<Rightarrow> 16 word sao_chroma" where
  "ihevc_hbd_sao_edge_offset_class0_chroma bd b p src_strd top_right bot_left pu1_avail offset_u offset_v wd ht =
     sao_class0 2 bd b p src_strd pu1_avail (chroma_off offset_u offset_v) wd ht"

definition ihevc_sao_edge_offset_class1 :: "8 word sao_luma" where
  "ihevc_sao_edge_offset_class1 b p src_strd top_right bot_left pu1_avail pi1_sao_offset wd ht =
     sao_class1 1 8 b p src_strd pu1_avail (luma_off pi1_sao_offset) wd ht"

definition ihevc_sao_edge_offset_class1_chroma :: "8 word sao_chroma" where
  "ihevc_sao_edge_offset_class1_chroma b p src_strd top_right bot_left pu1_avail offset_u offset_v wd ht =
     sao_class1 2 8 b p src_strd pu1_avail (chroma_off offset_u offset_v) wd ht"

definition ihevc_hbd_sao_edge_offset_class1 :: "nat \<Rightarrow> 16 word sao_luma" where
  "ihevc_hbd_sao_edge_offset_class1 bd b p src_strd top_right bot_left pu1_avail pi1_sao_offset wd ht =
     sao_class1 1 bd b p src_strd pu1_avail (luma_off pi1_sao_offset) wd ht"

definition ihevc_hbd_sao_edge_offset_class1_chroma :: "nat \<Rightarrow> 16 word sao_chroma" where
  "ihevc_hbd_sao_edge_offset_class1_chroma bd b p src_strd top_right bot_left pu1_avail offset_u offset_v wd ht =
     sao_class1 2 bd b p src_strd pu1_avail (chroma_off offset_u offset_v) wd ht"

definition ihevc_sao_edge_offset_class2 :: "8 word sao_luma" where
  "ihevc_sao_edge_offset_class2 b p src_strd top_right bot_left pu1_avail pi1_sao_offset wd ht =
     sao_class2 1 8 b p src_strd pu1_avail (luma_off pi1_sao_offset) wd ht"

definition ihevc_sao_edge_offset_class2_chroma :: "8 word sao_chroma" where
  "ihevc_sao_edge_offset_class2_chroma b p src_strd top_right bot_left pu1_avail offset_u offset_v wd ht =
     sao_class2 2 8 b p src_strd pu1_avail (chroma_off offset_u offset_v) wd ht"

definition ihevc_hbd_sao_edge_offset_class2 :: "nat \<Rightarrow> 16 word sao_luma" where
  "ihevc_hbd_sao_edge_offset_class2 bd b p src_strd top_right bot_left pu1_avail pi1_sao_offset wd ht =
     sao_class2 1 bd b p src_strd pu1_avail (luma_off pi1_sao_offset) wd ht"

definition ihevc_hbd_sao_edge_offset_class2_chroma :: "nat \<Rightarrow> 16 word sao_chroma" where
  "ihevc_hbd_sao_edge_offset_class2_chroma bd b p src_strd top_right bot_left pu1_avail offset_u offset_v wd ht =
     sao_class2 2 bd b p src_strd pu1_avail (chroma_off offset_u offset_v) wd ht"

definition ihevc_sao_edge_offset_class3 :: "8 word sao_luma" where
  "ihevc_sao_edge_offset_class3 b p src_strd top_right bot_left pu1_avail pi1_sao_offset wd ht =
     sao_class3 1 8 b p src_strd top_right bot_left pu1_avail (luma_off pi1_sao_offset) wd ht"

definition ihevc_sao_edge_offset_class3_chroma :: "8 word sao_chroma" where
  "ihevc_sao_edge_offset_class3_chroma b p src_strd top_right bot_left pu1_avail offset_u offset_v wd ht =
     sao_class3 2 8 b p src_strd top_right bot_left pu1_avail (chroma_off offset_u offset_v) wd ht"

definition ihevc_hbd_sao_edge_offset_class3 :: "nat \<Rightarrow> 16 word sao_luma" where
  "ihevc_hbd_sao_edge_offset_class3 bd b p src_strd top_right bot_left pu1_avail pi1_sao_offset wd ht =
     sao_class3 1 bd b p src_strd top_right bot_left pu1_avail (luma_off pi1_sao_offset) wd ht"

definition ihevc_hbd_sao_edge_offset_class3_chroma :: "nat \<Rightarrow> 16 word sao_chroma" where
  "ihevc_hbd_sao_edge_offset_class3_chroma bd b p src_strd top_right bot_left pu1_avail offset_u offset_v wd ht =
     sao_class3 2 bd b p src_strd top_right bot_left pu1_avail (chroma_off offset_u offset_v) wd ht"

text \<open>The tables the decoder calls them through; the bit depth is the first argument here.\<close>

definition apf_sao_luma :: "nat \<Rightarrow> 8 word sao_luma" where
  "apf_sao_luma idx =
    [ihevc_sao_edge_offset_class0, ihevc_sao_edge_offset_class1, ihevc_sao_edge_offset_class2, ihevc_sao_edge_offset_class3] ! idx"

definition apf_sao_chroma :: "nat \<Rightarrow> 8 word sao_chroma" where
  "apf_sao_chroma idx =
    [ihevc_sao_edge_offset_class0_chroma, ihevc_sao_edge_offset_class1_chroma, ihevc_sao_edge_offset_class2_chroma, ihevc_sao_edge_offset_class3_chroma] ! idx"

definition apf_hbd_sao_luma :: "nat \<Rightarrow> nat \<Rightarrow> 16 word sao_luma" where
  "apf_hbd_sao_luma bd idx =
    [ihevc_hbd_sao_edge_offset_class0 bd, ihevc_hbd_sao_edge_offset_class1 bd, ihevc_hbd_sao_edge_offset_class2 bd, ihevc_hbd_sao_edge_offset_class3 bd] ! idx"

definition apf_hbd_sao_chroma :: "nat \<Rightarrow> nat \<Rightarrow> 16 word sao_chroma" where
  "apf_hbd_sao_chroma bd idx =
    [ihevc_hbd_sao_edge_offset_class0_chroma bd, ihevc_hbd_sao_edge_offset_class1_chroma bd, ihevc_hbd_sao_edge_offset_class2_chroma bd, ihevc_hbd_sao_edge_offset_class3_chroma bd] ! idx"

section \<open>The standard's offset\<close>

text \<open>The block with its neighbours, from the picture and the saved arrays; the corners are arguments.\<close>

definition around :: "int \<Rightarrow> 'v sao_bufs \<Rightarrow> int \<Rightarrow> int \<Rightarrow> int \<Rightarrow> int \<Rightarrow> (int \<Rightarrow> 'v) \<Rightarrow> (int \<Rightarrow> 'v) \<Rightarrow> (int \<Rightarrow> 'v) \<Rightarrow> int \<Rightarrow> int \<Rightarrow> 'v" where
  "around step b p strd wd ht ctl ctr cbl r c =
    (if r < 0 then if c < 0 then ctl (c + step) else if c < wd then pu1_src_top b c else ctr (c - wd)
     else if c < 0 then if r < ht then pu1_src_left b (step * r + (c + step)) else cbl (c + step)
     else pu1_src b (p + r * strd + c))"

text \<open>Whether the block that holds a position is available.\<close>

definition nb_avail :: "bool list \<Rightarrow> int \<Rightarrow> int \<Rightarrow> int \<Rightarrow> int \<Rightarrow> bool" where
  "nb_avail avail wd ht r c =
    (if r < 0 then avail ! (if c < 0 then 4 else if c < wd then 2 else 5)
     else if ht \<le> r then avail ! (if c < 0 then 6 else if c < wd then 3 else 7)
     else if c < 0 then avail ! 0 else if c < wd then True else avail ! 1)"

text \<open>The direction of a class: rows and columns from a sample to its second neighbour.\<close>

definition sao_dir :: "nat \<Rightarrow> int \<times> int" where
  "sao_dir cls = [(0, 1), (1, 0), (1, 1), (1, - 1)] ! cls"

text \<open>The category of a sample between two neighbours.\<close>

definition edge_category :: "'w::len word \<Rightarrow> 'w word \<Rightarrow> 'w word \<Rightarrow> nat" where
  "edge_category v a b = gi4_ihevc_table_edge_idx ! nat (2 + sgn2 v a + sgn2 v b)"

definition sao_edge_ref ::
  "int \<Rightarrow> nat \<Rightarrow> (int \<Rightarrow> nat \<Rightarrow> 8 word) \<Rightarrow> bool list \<Rightarrow> int \<Rightarrow> int \<Rightarrow> nat \<Rightarrow> (int \<Rightarrow> int \<Rightarrow> 'w::len word) \<Rightarrow> int \<Rightarrow> int \<Rightarrow> 'w word" where
  "sao_edge_ref step bd off avail wd ht cls X r c =
    (case sao_dir cls of (dr, dc) \<Rightarrow>
       if nb_avail avail wd ht (r - dr) (c - dc * step) \<and> nb_avail avail wd ht (r + dr) (c + dc * step)
       then edge_val bd (off (c mod step)) (edge_category (X r c) (X (r - dr) (c - dc * step)) (X (r + dr) (c + dc * step))) (X r c)
       else X r c)"

section \<open>Sweeps in place\<close>

lemma edge_store_val:
  "edge_store bd off avl e m x = m(x := edge_val bd off (if avl then gi4_ihevc_table_edge_idx ! nat e else 0) (m x))"
  by (simp add: edge_store_def edge_val_def Let_def)

lemma corner_val_eq: "corner_val bd av off v a b = (if av then edge_val bd off (edge_category v a b) v else v)"
  by (simp add: corner_val_def edge_val_def edge_category_def Let_def)

lemma sgn2_swap: "- sgn2 v w = sgn2 w v"
  by (simp add: SIGN_def)

text \<open>The memory when the rows above \<open>r\<close> and the columns before \<open>c\<close> of row \<open>r\<close> have been overwritten.\<close>

definition swept :: "int \<Rightarrow> int \<Rightarrow> int \<Rightarrow> (int \<Rightarrow> int \<Rightarrow> 'v) \<Rightarrow> (int \<Rightarrow> 'v) \<Rightarrow> int \<Rightarrow> int \<Rightarrow> (int \<Rightarrow> 'v) \<Rightarrow> bool" where
  "swept q strd wd new m0 r c m \<longleftrightarrow>
     updated {(i, j). 0 \<le> i \<and> 0 \<le> j \<and> j < wd \<and> (i < r \<or> i = r \<and> j < c)} (\<lambda>i j. q + i * strd + j) (\<lambda>i j. q + i * strd + j)
       (\<lambda>i j _. new i j) m0 m"

lemma swept_start: "swept q strd wd new m0 0 0 m0"
  by (auto simp: swept_def updated_def)

lemma swept_row: "0 \<le> r \<Longrightarrow> swept q strd wd new m0 r wd m \<Longrightarrow> swept q strd wd new m0 (r + 1) 0 m"
proof -
  assume r: "0 \<le> r" and m: "swept q strd wd new m0 r wd m"
  have "{(i, j). 0 \<le> i \<and> 0 \<le> j \<and> j < wd \<and> (i < r \<or> i = r \<and> j < wd)} =
    {(i, j). 0 \<le> i \<and> 0 \<le> j \<and> j < wd \<and> (i < r + 1 \<or> i = r + 1 \<and> j < 0)}" using r by auto
  then show ?thesis using m unfolding swept_def by metis
qed

lemma swept_step:
  assumes "swept q strd wd new m0 r c m" "wd \<le> strd" "0 \<le> r" "0 \<le> c" "c < wd"
  shows "swept q strd wd new m0 r (c + 1) (m(q + r * strd + c := new r c))"
proof -
  let ?a = "\<lambda>i j. q + i * strd + j"
  have eq: "{(i, j). 0 \<le> i \<and> 0 \<le> j \<and> j < wd \<and> (i < r \<or> i = r \<and> j < c + 1)} =
    insert (r, c) {(i, j). 0 \<le> i \<and> 0 \<le> j \<and> j < wd \<and> (i < r \<or> i = r \<and> j < c)}"
    using assms(3-5) by auto
  show ?thesis
    unfolding swept_def eq
    by (rule updated_step [where f = "\<lambda>i j _. new i j" and a = ?a and b = ?a and r = r and c = c,
      OF assms(1) [unfolded swept_def] _ in_place_block [OF assms(2), of "r + 1"]]) (use assms in auto)
qed

lemma swept_ahead:
  assumes "swept q strd wd new m0 r c m" "wd + step \<le> strd" "0 \<le> step" "0 \<le> c'" "c' < wd + step"
    and "\<not> (0 \<le> r' \<and> c' < wd \<and> (r' < r \<or> r' = r \<and> c' < c))"
  shows "m (q + r' * strd + c') = m0 (q + r' * strd + c')"
proof -
  have "q + r' * strd + c' \<noteq> q + i * strd + j" if "0 \<le> i" "0 \<le> j" "j < wd" "i < r \<or> i = r \<and> j < c" for i j
  proof
    assume "q + r' * strd + c' = q + i * strd + j"
    then have "r' = i \<and> c' = j" by (rule block_inj [OF assms(2,4,5), rotated 2]) (use that assms(3) in simp_all)
    then show False using assms(6) that by auto
  qed
  then show ?thesis using assms(1) unfolding swept_def updated_def by blast
qed

lemma sweep_swept:
  fixes I :: "int \<Rightarrow> int \<Rightarrow> 's \<Rightarrow> bool" and J :: "int \<Rightarrow> 's \<Rightarrow> bool"
  assumes size: "0 \<le> ht" "0 \<le> wd" "wd \<le> strd" and J0: "J 0 s0"
    and enter: "\<And>r m s. 0 \<le> r \<Longrightarrow> r < ht \<Longrightarrow> J r s \<Longrightarrow> swept q strd wd new m0 r 0 m \<Longrightarrow> I r 0 (enter r m s)"
    and step: "\<And>r c m s. 0 \<le> r \<Longrightarrow> r < ht \<Longrightarrow> 0 \<le> c \<Longrightarrow> c < wd \<Longrightarrow> swept q strd wd new m0 r c m \<Longrightarrow> I r c s \<Longrightarrow>
      \<exists>s'. body r c (m, s) = (m(q + r * strd + c := new r c), s') \<and> I r (c + 1) s'"
    and leave: "\<And>r s. 0 \<le> r \<Longrightarrow> r < ht \<Longrightarrow> I r wd s \<Longrightarrow> J (r + 1) (leave s)"
  shows "swept q strd wd new m0 ht 0 (fst (sweep ht wd enter body leave (m0, s0)))"
proof -
  let ?P = "\<lambda>r (m, s). swept q strd wd new m0 r 0 m \<and> J r s"
  have "?P ht (sweep ht wd enter body leave (m0, s0))"
    unfolding sweep_def
  proof (rule for_to_inv [where P = ?P, OF size(1)])
    show "case (m0, s0) of (m, s) \<Rightarrow> swept q strd wd new m0 0 0 m \<and> J 0 s" using J0 by (simp add: swept_start)
    fix r t assume r: "0 \<le> r" "r < ht" and t: "?P r t"
    obtain m s where ms: "t = (m, s)" by (cases t)
    let ?Q = "\<lambda>c (m, s). swept q strd wd new m0 r c m \<and> I r c s"
    have "?Q wd (for_to wd (body r) (m, enter r m s))"
    proof (rule for_to_inv [where P = ?Q, OF size(2)])
      show "case (m, enter r m s) of (m, s) \<Rightarrow> swept q strd wd new m0 r 0 m \<and> I r 0 s" using t enter [OF r] by (simp add: ms)
      fix c u assume c: "0 \<le> c" "c < wd" and u: "?Q c u"
      obtain m' s' where u': "u = (m', s')" by (cases u)
      then have Q: "swept q strd wd new m0 r c m'" "I r c s'" using u by simp_all
      obtain s'' where "body r c (m', s') = (m'(q + r * strd + c := new r c), s'')" "I r (c + 1) s''"
        using step [OF r c Q] by blast
      then show "?Q (c + 1) (body r c u)" using swept_step [OF Q(1) size(3) r(1) c] by (simp add: u')
    qed
    then show "?P (r + 1) (case t of (m, s) \<Rightarrow> case for_to wd (body r) (m, enter r m s) of (m, s) \<Rightarrow> (m, leave s))"
      using swept_row [OF r(1)] leave [OF r] by (auto simp: ms split: prod.splits)
  qed
  then show ?thesis by (simp add: split_beta)
qed

text \<open>The value a sweep gives a sample.\<close>

definition edge_new :: "int \<Rightarrow> nat \<Rightarrow> (int \<Rightarrow> nat \<Rightarrow> 8 word) \<Rightarrow> (int \<Rightarrow> bool) \<Rightarrow> nat \<Rightarrow> (int \<Rightarrow> int \<Rightarrow> 'w::len word) \<Rightarrow> int \<Rightarrow> int \<Rightarrow> 'w word" where
  "edge_new step bd off avl cls X r c =
    (case sao_dir cls of (dr, dc) \<Rightarrow> edge_val bd (off (c mod step))
      (if avl (c div step) then edge_category (X r c) (X (r - dr) (c - dc * step)) (X (r + dr) (c + dc * step)) else 0) (X r c))"

lemma around_inside: "0 \<le> r \<Longrightarrow> 0 \<le> c \<Longrightarrow> around step b p strd wd ht ctl ctr cbl r c = pu1_src b (p + r * strd + c)"
  by (simp add: around_def)

lemma swept_inside:
  assumes "swept q strd wd new (pu1_src b) r c m" "wd + step \<le> strd" "0 \<le> step" "0 \<le> c'" "c' < wd + step" "q = p + r0 * strd"
    and "0 \<le> r' + r0" "\<not> (0 \<le> r' \<and> c' < wd \<and> (r' < r \<or> r' = r \<and> c' < c))"
  shows "m (q + r' * strd + c') = around step b p strd wd ht ctl ctr cbl (r' + r0) c'"
proof -
  have "q + r' * strd + c' = p + (r' + r0) * strd + c'" using assms(6) by (simp add: distrib_right)
  then show ?thesis using swept_ahead [OF assms(1-5,8)] around_inside [OF assms(7,4), of step b p strd wd ht ctl ctr cbl] by simp
qed

text \<open>Columns of the same component are congruent.\<close>

lemma mod_step_ne:
  fixes c c' step :: int
  assumes "c < c'" "c' < c + step"
  shows "c' mod step \<noteq> c mod step"
proof
  assume "c' mod step = c mod step"
  then have "(c' - c) mod step = 0" by (simp add: mod_diff_cong [of c' step c c, simplified] mod_eq_0_iff_dvd mod_eq_dvd_iff)
  moreover have "(c' - c) mod step = c' - c" using assms by (intro mod_pos_pos_trivial) simp_all
  ultimately show False using assms by simp
qed

lemma class0_swept:
  fixes b :: "'w::len word sao_bufs" and step p strd wd ht :: int and ctl ctr cbl :: "int \<Rightarrow> 'w word"
  assumes step: "0 < step" "0 \<le> wd" "0 \<le> ht" "wd + step \<le> strd"
  defines "X \<equiv> around step b p strd wd ht ctl ctr cbl"
  shows "swept p strd wd (edge_new step bd off (au1_mask step avail wd) 0 X) (pu1_src b) ht 0 (pu1_src (sao_class0 step bd b p strd avail off wd ht))"
proof -
  let ?new = "edge_new step bd off (au1_mask step avail wd) 0 X"
  let ?I = "\<lambda>r c s. \<forall>c'. c \<le> c' \<and> c' < c + step \<longrightarrow> s (c' mod step) = sgn2 (X r c') (X r (c' - step))"
  have "swept p strd wd ?new (pu1_src b) ht 0
    (fst (sweep ht wd (\<lambda>row m _ k. sgn2 (m (p + row * strd + k)) (pu1_src_left b (step * row + k)))
      (\<lambda>row col (m, sign_left).
         let sign_right = sgn2 (m (p + row * strd + col)) (m (p + row * strd + (col + step)));
             e = 2 + sign_left (col mod step) + sign_right
         in (edge_store bd (off (col mod step)) (au1_mask step avail wd (col div step)) e m (p + row * strd + col),
             sign_left(col mod step := - sign_right)))
      (\<lambda>s. s) (pu1_src b, \<lambda>_. 0)))"
  proof (rule sweep_swept [where I = ?I and J = "\<lambda>_ _. True"])
    fix r :: int and m :: "int \<Rightarrow> 'w word" and s :: "int \<Rightarrow> int"
    assume r: "0 \<le> r" "r < ht" and m: "swept p strd wd ?new (pu1_src b) r 0 m"
    show "?I r 0 (\<lambda>k. sgn2 (m (p + r * strd + k)) (pu1_src_left b (step * r + k)))"
    proof (intro allI impI)
      fix c' assume c': "0 \<le> c' \<and> c' < 0 + step"
      have "m (p + r * strd + c') = X r c'"
        unfolding X_def using swept_inside [OF m step(4) _ _ _ , of c' p 0 r] c' step r by simp
      moreover have "X r (c' - step) = pu1_src_left b (step * r + c')" using c' r by (simp add: X_def around_def)
      ultimately show "sgn2 (m (p + r * strd + c' mod step)) (pu1_src_left b (step * r + c' mod step)) = sgn2 (X r c') (X r (c' - step))"
        using c' by simp
    qed
  next
    fix r c :: int and m :: "int \<Rightarrow> 'w word" and s :: "int \<Rightarrow> int"
    assume r: "0 \<le> r" "r < ht" and c: "0 \<le> c" "c < wd" and m: "swept p strd wd ?new (pu1_src b) r c m" and I: "?I r c s"
    have v: "m (p + r * strd + c) = X r c" "m (p + r * strd + (c + step)) = X r (c + step)"
      unfolding X_def using swept_inside [OF m step(4), of _ p 0 r] c step r by simp_all
    have s: "s (c mod step) = sgn2 (X r c) (X r (c - step))" using I step by simp
    have "?I r (c + 1) (s(c mod step := - sgn2 (X r c) (X r (c + step))))"
    proof (intro allI impI)
      fix c' assume c': "c + 1 \<le> c' \<and> c' < c + 1 + step"
      show "(s(c mod step := - sgn2 (X r c) (X r (c + step)))) (c' mod step) = sgn2 (X r c') (X r (c' - step))"
      proof (cases "c' = c + step")
        case True
        then show ?thesis by (simp add: sgn2_swap)
      next
        case False
        then have "c' mod step \<noteq> c mod step" using c' by (intro mod_step_ne) simp_all
        then show ?thesis using I c' False by simp
      qed
    qed
    then show "\<exists>s'. (case (m, s) of (m, sign_left) \<Rightarrow>
         let sign_right = sgn2 (m (p + r * strd + c)) (m (p + r * strd + (c + step)));
             e = 2 + sign_left (c mod step) + sign_right
         in (edge_store bd (off (c mod step)) (au1_mask step avail wd (c div step)) e m (p + r * strd + c),
             sign_left(c mod step := - sign_right))) = (m(p + r * strd + c := ?new r c), s') \<and> ?I r (c + 1) s'"
      by (simp add: Let_def v s edge_store_val edge_new_def sao_dir_def edge_category_def)
  qed (use step in simp_all)
  then show ?thesis by (simp add: sao_class0_def Let_def split_beta)
qed

text \<open>The rows the other classes process: the first one is left out without a block above, the last one without a block below.\<close>

definition row_first :: "bool list \<Rightarrow> int" where
  "row_first avail = (if avail ! 2 then 0 else 1)"

definition row_count :: "bool list \<Rightarrow> int \<Rightarrow> int" where
  "row_count avail ht = ht - row_first avail - (if avail ! 3 then 0 else 1)"

lemma row_suc: "r + r0 + 1 = r + 1 + (r0 :: int)"
  by simp

lemma for_to_fill:
  "0 \<le> c \<Longrightarrow> c < n \<Longrightarrow> for_to n (\<lambda>i s. s(d + i := v i)) s (d + c) = v c" for c n d :: int
  by (rule for_to_stores_in) simp_all

lemma for_to_fill0: "0 \<le> c \<Longrightarrow> c < n \<Longrightarrow> for_to n (\<lambda>i s. s(i := v i)) s c = v c" for c n :: int
  by (rule for_to_stores_in) simp_all

lemma class1_swept:
  fixes b :: "'w::len word sao_bufs" and step p strd wd ht :: int and ctl ctr cbl :: "int \<Rightarrow> 'w word"
  assumes step: "0 < step" "0 \<le> wd" "0 \<le> row_count avail ht" "wd + step \<le> strd"
  defines "X \<equiv> around step b p strd wd ht ctl ctr cbl" and "r0 \<equiv> row_first avail"
  shows "swept (p + r0 * strd) strd wd (\<lambda>r. edge_new step bd off (\<lambda>_. True) 1 X (r + r0)) (pu1_src b) (row_count avail ht) 0
    (pu1_src (sao_class1 step bd b p strd avail off wd ht))"
proof -
  let ?new = "\<lambda>r. edge_new step bd off (\<lambda>_. True) 1 X (r + r0)" and ?q = "p + r0 * strd"
  let ?up = "for_to wd (\<lambda>col s. s(col := sgn2 (pu1_src b (?q + col))
      (if \<not> avail ! 2 then pu1_src b (?q + col - strd) else pu1_src_top b col))) (\<lambda>_. 0)"
  let ?I = "\<lambda>r c s. \<forall>c'. 0 \<le> c' \<and> c' < wd \<longrightarrow> s c' = (if c' < c then sgn2 (X (r + 1 + r0) c') (X (r + r0) c') else sgn2 (X (r + r0) c') (X (r + r0 - 1) c'))"
  have r0: "0 \<le> r0" by (simp add: r0_def row_first_def)
  have "swept ?q strd wd ?new (pu1_src b) (row_count avail ht) 0
    (fst (sweep (row_count avail ht) wd (\<lambda>_ _ s. s)
      (\<lambda>row col (m, sign_up).
         let sign_down = sgn2 (m (?q + row * strd + col)) (m (?q + (row + 1) * strd + col));
             e = 2 + sign_up col + sign_down
         in (edge_store bd (off (col mod step)) True e m (?q + row * strd + col), sign_up(col := - sign_down)))
      (\<lambda>s. s) (pu1_src b, ?up)))"
  proof (rule sweep_swept [where I = ?I and J = "\<lambda>r. ?I r 0"])
    show "?I 0 0 ?up"
    proof (intro allI impI)
      fix c' assume c': "0 \<le> c' \<and> c' < wd"
      have "?up c' = sgn2 (pu1_src b (?q + c')) (if \<not> avail ! 2 then pu1_src b (?q + c' - strd) else pu1_src_top b c')"
        by (rule for_to_fill0) (use c' in simp_all)
      then show "?up c' = (if c' < 0 then sgn2 (X (0 + 1 + r0) c') (X (0 + r0) c') else sgn2 (X (0 + r0) c') (X (0 + r0 - 1) c'))"
        using c' by (auto simp: X_def around_def r0_def row_first_def)
    qed
  next
    fix r c :: int and m :: "int \<Rightarrow> 'w word" and s :: "int \<Rightarrow> int"
    assume r: "0 \<le> r" "r < row_count avail ht" and c: "0 \<le> c" "c < wd" and m: "swept ?q strd wd ?new (pu1_src b) r c m" and I: "?I r c s"
    have v: "m (?q + r * strd + c) = X (r + r0) c" "m (?q + (r + 1) * strd + c) = X (r + 1 + r0) c"
      unfolding X_def by (rule swept_inside [OF m step(4) _ _ _ refl]; use c r r0 step in simp)+
    have s: "s c = sgn2 (X (r + r0) c) (X (r + r0 - 1) c)" using I c by simp
    have "?I r (c + 1) (s(c := - sgn2 (X (r + r0) c) (X (r + 1 + r0) c)))" using I by (auto simp: sgn2_swap)
    then show "\<exists>s'. (case (m, s) of (m, sign_up) \<Rightarrow>
         let sign_down = sgn2 (m (?q + r * strd + c)) (m (?q + (r + 1) * strd + c));
             e = 2 + sign_up c + sign_down
         in (edge_store bd (off (c mod step)) True e m (?q + r * strd + c), sign_up(c := - sign_down))) =
       (m(?q + r * strd + c := ?new r c), s') \<and> ?I r (c + 1) s'"
      by (simp add: Let_def v s edge_store_val edge_new_def sao_dir_def edge_category_def row_suc)
  next
    fix r :: int and s :: "int \<Rightarrow> int"
    assume "?I r wd s"
    then show "?I (r + 1) 0 s" by (auto simp: add.commute add.left_commute)
  qed (use step in simp_all)
  then show ?thesis
    by (cases "avail ! 2"; cases "avail ! 3") (simp_all add: sao_class1_def Let_def split_beta r0_def row_first_def row_count_def)
qed

text \<open>The loops of class 2.\<close>

definition class2_loop :: "int \<Rightarrow> nat \<Rightarrow> 'w::len word sao_bufs \<Rightarrow> int \<Rightarrow> int \<Rightarrow> bool list \<Rightarrow> (int \<Rightarrow> nat \<Rightarrow> 8 word) \<Rightarrow> int \<Rightarrow> int \<Rightarrow> int \<Rightarrow> 'w word" where
  "class2_loop step bd b p strd avail off wd ht = fst (sweep (row_count avail ht) wd
      (\<lambda>row m (sign_up, sign_up_tmp).
         (for_to step (\<lambda>k s. s(k := sgn2 (m ((p + row_first avail * strd) + row * strd + k)) (pu1_src_left b (step * row_first avail + step * (row - 1) + k)))) sign_up, sign_up_tmp))
      (\<lambda>row col (m, sign_up, sign_up_tmp).
         let sign_down = sgn2 (m ((p + row_first avail * strd) + row * strd + col)) (m ((p + row_first avail * strd) + (row + 1) * strd + (col + step)));
             e = 2 + sign_up col + sign_down
         in (edge_store bd (off (col mod step)) (au1_mask step avail wd (col div step)) e m ((p + row_first avail * strd) + row * strd + col),
             sign_up, sign_up_tmp(col + step := - sign_down)))
      (\<lambda>(sign_up, sign_up_tmp). (sign_up_tmp, sign_up)) (pu1_src b,
        for_to (wd - step) (\<lambda>i s. s(i + step := sgn2 (pu1_src b ((p + row_first avail * strd) + (i + step)))
          (if \<not> avail ! 2 then pu1_src b ((p + row_first avail * strd) + i - strd) else pu1_src_top b i))) (\<lambda>_. 0), \<lambda>_. 0))"

lemma class2_swept:
  fixes b :: "'w::len word sao_bufs" and step p strd wd ht :: int and ctr cbl :: "int \<Rightarrow> 'w word"
  assumes step: "0 < step" "step \<le> wd" "0 \<le> row_count avail ht" "wd + step \<le> strd"
  defines "X \<equiv> around step b p strd wd ht (\<lambda>k. pu1_src_left b (k - step)) ctr cbl" and "r0 \<equiv> row_first avail"
  defines "q \<equiv> p + r0 * strd"
  shows "swept q strd wd (\<lambda>r. edge_new step bd off (au1_mask step avail wd) 2 X (r + r0)) (pu1_src b) (row_count avail ht) 0
    (class2_loop step bd b p strd avail off wd ht)"
proof -
  let ?new = "\<lambda>r. edge_new step bd off (au1_mask step avail wd) 2 X (r + r0)"
  let ?U = "\<lambda>r c. sgn2 (X (r + r0) c) (X (r + r0 - 1) (c - step))"
  let ?I = "\<lambda>r c (s, t). (\<forall>c'. 0 \<le> c' \<and> c' < wd \<longrightarrow> s c' = ?U r c') \<and> (\<forall>c'. step \<le> c' \<and> c' < c + step \<longrightarrow> t c' = ?U (r + 1) c')"
  let ?J = "\<lambda>r (s, t). \<forall>c'. step \<le> c' \<and> c' < wd \<longrightarrow> s c' = ?U r c'"
  have r0: "0 \<le> r0" and rc: "row_count avail ht \<le> ht - r0" by (simp_all add: r0_def row_first_def row_count_def)
  let ?up0 = "for_to (wd - step) (\<lambda>i s. s(i + step := sgn2 (pu1_src b (q + (i + step)))
      (if \<not> avail ! 2 then pu1_src b (q + i - strd) else pu1_src_top b i))) (\<lambda>_. 0)"
  show ?thesis
    unfolding class2_loop_def r0_def [symmetric] q_def [symmetric]
  proof (rule sweep_swept [where I = ?I and J = ?J])
    show "?J 0 (?up0, \<lambda>_. 0)"
      unfolding prod.case
    proof (intro allI impI)
      fix c' assume c': "step \<le> c' \<and> c' < wd"
      have "?up0 (step + (c' - step)) = sgn2 (pu1_src b (q + ((c' - step) + step)))
          (if \<not> avail ! 2 then pu1_src b (q + (c' - step) - strd) else pu1_src_top b (c' - step))"
        unfolding add.commute [of _ step] by (rule for_to_fill) (use c' in simp_all)
      then show "?up0 c' = ?U 0 c'" using c' step by (auto simp: X_def around_def r0_def q_def row_first_def)
    qed
  next
    fix r :: int and m :: "int \<Rightarrow> 'w word" and s :: "(int \<Rightarrow> int) \<times> (int \<Rightarrow> int)"
    assume r: "0 \<le> r" "r < row_count avail ht" and m: "swept q strd wd ?new (pu1_src b) r 0 m" and J: "?J r s"
    obtain up tmp where s: "s = (up, tmp)" by (cases s)
    let ?s = "for_to step (\<lambda>k s. s(k := sgn2 (m (q + r * strd + k)) (pu1_src_left b (step * r0 + step * (r - 1) + k)))) up"
    have "?s c' = ?U r c'" if c': "0 \<le> c'" "c' < wd" for c'
    proof (cases "c' < step")
      case True
      have "m (q + r * strd + c') = X (r + r0) c'"
        unfolding X_def by (rule swept_inside [OF m step(4) _ _ _ q_def [THEN meta_eq_to_obj_eq]]) (use c' r r0 step in simp_all)
      moreover have "?s c' = sgn2 (m (q + r * strd + c')) (pu1_src_left b (step * r0 + step * (r - 1) + c'))"
        by (rule for_to_fill0) (use c' True in simp_all)
      moreover have "X (r + r0 - 1) (c' - step) = pu1_src_left b (step * r0 + step * (r - 1) + c')"
      proof (cases "r + r0 = 0")
        case z: True
        then have "r = 0" "r0 = 0" using r r0 by simp_all
        then show ?thesis using True by (simp add: X_def around_def)
      next
        case False
        have "step * (r + r0 - 1) + c' = step * r0 + step * (r - 1) + c'" by (simp add: algebra_simps)
        then show ?thesis using False True r rc r0 by (simp add: X_def around_def)
      qed
      ultimately show ?thesis by simp
    next
      case False
      have "?s c' = up c'" by (rule for_to_stores_out) (use False in simp)
      then show ?thesis using J False c' by (simp add: s)
    qed
    then show "?I r 0 (case s of (sign_up, sign_up_tmp) \<Rightarrow>
      (for_to step (\<lambda>k s. s(k := sgn2 (m (q + r * strd + k)) (pu1_src_left b (step * r0 + step * (r - 1) + k)))) sign_up, sign_up_tmp))"
      by (simp add: s)
  next
    fix r c :: int and m :: "int \<Rightarrow> 'w word" and s :: "(int \<Rightarrow> int) \<times> (int \<Rightarrow> int)"
    assume r: "0 \<le> r" "r < row_count avail ht" and c: "0 \<le> c" "c < wd" and m: "swept q strd wd ?new (pu1_src b) r c m" and I: "?I r c s"
    obtain up tmp where s: "s = (up, tmp)" by (cases s)
    have v: "m (q + r * strd + c) = X (r + r0) c" "m (q + (r + 1) * strd + (c + step)) = X (r + 1 + r0) (c + step)"
      unfolding X_def by (rule swept_inside [OF m step(4) _ _ _ q_def [THEN meta_eq_to_obj_eq]]; use c r r0 step in simp)+
    have u: "up c = ?U r c" using I c by (simp add: s)
    have "?I r (c + 1) (up, tmp(c + step := - sgn2 (X (r + r0) c) (X (r + 1 + r0) (c + step))))"
      using I by (auto simp: s sgn2_swap)
    then show "\<exists>s'. (case (m, s) of (m, sign_up, sign_up_tmp) \<Rightarrow>
         let sign_down = sgn2 (m (q + r * strd + c)) (m (q + (r + 1) * strd + (c + step)));
             e = 2 + sign_up c + sign_down
         in (edge_store bd (off (c mod step)) (au1_mask step avail wd (c div step)) e m (q + r * strd + c),
             sign_up, sign_up_tmp(c + step := - sign_down))) =
       (m(q + r * strd + c := ?new r c), s') \<and> ?I r (c + 1) s'"
      by (simp add: Let_def v s u edge_store_val edge_new_def sao_dir_def edge_category_def row_suc)
  next
    fix r :: int and s :: "(int \<Rightarrow> int) \<times> (int \<Rightarrow> int)"
    assume "?I r wd s"
    then show "?J (r + 1) (case s of (sign_up, sign_up_tmp) \<Rightarrow> (sign_up_tmp, sign_up))" using step by (cases s) auto
  qed (use step in simp_all)
qed

text \<open>The loops of class 3.\<close>

definition class3_loop :: "int \<Rightarrow> nat \<Rightarrow> 'w::len word sao_bufs \<Rightarrow> int \<Rightarrow> int \<Rightarrow> bool list \<Rightarrow> (int \<Rightarrow> nat \<Rightarrow> 8 word) \<Rightarrow> int \<Rightarrow> int \<Rightarrow> int \<Rightarrow> 'w word" where
  "class3_loop step bd b p strd avail off wd ht = fst (sweep (row_count avail ht) wd
      (\<lambda>row m. for_to step (\<lambda>k s. s(wd - step + k :=
         sgn2 (m ((p + row_first avail * strd) + row * strd + (wd - step + k))) (m ((p + row_first avail * strd) + (row - 1) * strd + (wd + k))))))
      (\<lambda>row col (m, sign_up).
         let sign_down = sgn2 (m ((p + row_first avail * strd) + row * strd + col))
               (if col < step then pu1_src_left b (step * row_first avail + step * (row + 1) + col) else m ((p + row_first avail * strd) + (row + 1) * strd + (col - step)));
             e = 2 + sign_up col + sign_down
         in (edge_store bd (off (col mod step)) (au1_mask step avail wd (col div step)) e m ((p + row_first avail * strd) + row * strd + col),
             if col \<ge> step then sign_up(col - step := - sign_down) else sign_up))
      (\<lambda>s. s) (pu1_src b, for_to (wd - step) (\<lambda>col s. s(col := sgn2 (pu1_src b ((p + row_first avail * strd) + col))
        (if \<not> avail ! 2 then pu1_src b ((p + row_first avail * strd) + (col + step) - strd) else pu1_src_top b (col + step)))) (\<lambda>_. 0)))"

lemma class3_swept:
  fixes b :: "'w::len word sao_bufs" and step p strd wd ht :: int and ctl :: "int \<Rightarrow> 'w word"
  assumes step: "0 < step" "step \<le> wd" "0 \<le> row_count avail ht" "wd + step \<le> strd"
  defines "X \<equiv> around step b p strd wd ht ctl (\<lambda>k. pu1_src b (p - strd + wd + k)) (\<lambda>k. pu1_src_left b (step * ht + k))"
    and "r0 \<equiv> row_first avail"
  defines "q \<equiv> p + r0 * strd"
  shows "swept q strd wd (\<lambda>r. edge_new step bd off (au1_mask step avail wd) 3 X (r + r0)) (pu1_src b) (row_count avail ht) 0
    (class3_loop step bd b p strd avail off wd ht)"
proof -
  let ?new = "\<lambda>r. edge_new step bd off (au1_mask step avail wd) 3 X (r + r0)"
  let ?U = "\<lambda>r c. sgn2 (X (r + r0) c) (X (r + r0 - 1) (c + step))"
  let ?I = "\<lambda>r c s. \<forall>c'. 0 \<le> c' \<and> c' < wd \<longrightarrow> s c' = (if c' + step < c then ?U (r + 1) c' else ?U r c')"
  let ?J = "\<lambda>r s. \<forall>c'. 0 \<le> c' \<and> c' < wd - step \<longrightarrow> s c' = ?U r c'"
  have r0: "0 \<le> r0" and rc: "row_count avail ht \<le> ht - r0" by (simp_all add: r0_def row_first_def row_count_def)
  let ?up0 = "for_to (wd - step) (\<lambda>col s. s(col := sgn2 (pu1_src b (q + col))
      (if \<not> avail ! 2 then pu1_src b (q + (col + step) - strd) else pu1_src_top b (col + step)))) (\<lambda>_. 0)"
  show ?thesis
    unfolding class3_loop_def r0_def [symmetric] q_def [symmetric]
  proof (rule sweep_swept [where I = ?I and J = ?J])
    show "?J 0 ?up0"
    proof (intro allI impI)
      fix c' assume c': "0 \<le> c' \<and> c' < wd - step"
      have "?up0 c' = sgn2 (pu1_src b (q + c')) (if \<not> avail ! 2 then pu1_src b (q + (c' + step) - strd) else pu1_src_top b (c' + step))"
        by (rule for_to_fill0) (use c' in simp_all)
      then show "?up0 c' = ?U 0 c'" using c' step by (auto simp: X_def around_def r0_def q_def row_first_def)
    qed
  next
    fix r :: int and m :: "int \<Rightarrow> 'w word" and s :: "int \<Rightarrow> int"
    assume r: "0 \<le> r" "r < row_count avail ht" and m: "swept q strd wd ?new (pu1_src b) r 0 m" and J: "?J r s"
    let ?s = "for_to step (\<lambda>k s. s(wd - step + k := sgn2 (m (q + r * strd + (wd - step + k))) (m (q + (r - 1) * strd + (wd + k))))) s"
    have "?s c' = ?U r c'" if c': "0 \<le> c'" "c' < wd" for c'
    proof (cases "wd - step \<le> c'")
      case True
      define k where "k = c' - (wd - step)"
      have k: "0 \<le> k" "k < step" "c' = wd - step + k" using True c' by (simp_all add: k_def)
      have "m (q + r * strd + c') = X (r + r0) c'"
        unfolding X_def by (rule swept_inside [OF m step(4) _ _ _ q_def [THEN meta_eq_to_obj_eq]]) (use c' r r0 step in simp_all)
      moreover have "m (q + (r - 1) * strd + (wd + k)) = X (r + r0 - 1) (wd + k)"
      proof (cases "r + r0 = 0")
        case z: True
        then have "r = 0" "r0 = 0" "q = p" using r r0 by (simp_all add: q_def)
        then show ?thesis using swept_ahead [OF m step(4), of "wd + k" "r - 1"] k step by (simp add: X_def around_def algebra_simps)
      next
        case False
        have "m (q + (r - 1) * strd + (wd + k)) = X (r - 1 + r0) (wd + k)"
          unfolding X_def by (rule swept_inside [OF m step(4) _ _ _ q_def [THEN meta_eq_to_obj_eq]]) (use k False r r0 step in simp_all)
        moreover have "r - 1 + r0 = r + r0 - 1" by simp
        ultimately show ?thesis by (simp only:)
      qed
      moreover have "?s c' = sgn2 (m (q + r * strd + (wd - step + k))) (m (q + (r - 1) * strd + (wd + k)))"
        unfolding k(3) by (rule for_to_fill) (use k in simp_all)
      moreover have "wd + k = c' + step" using k by simp
      ultimately show ?thesis by (simp only: k(3) [symmetric])
    next
      case False
      have "?s c' = s c'" by (rule for_to_stores_out) (use False in simp)
      then show ?thesis using J False c' by simp
    qed
    then show "?I r 0 ?s" using step by simp
  next
    fix r c :: int and m :: "int \<Rightarrow> 'w word" and s :: "int \<Rightarrow> int"
    assume r: "0 \<le> r" "r < row_count avail ht" and c: "0 \<le> c" "c < wd" and m: "swept q strd wd ?new (pu1_src b) r c m" and I: "?I r c s"
    have v: "m (q + r * strd + c) = X (r + r0) c"
      unfolding X_def by (rule swept_inside [OF m step(4) _ _ _ q_def [THEN meta_eq_to_obj_eq]]) (use c r r0 step in simp_all)
    have d: "(if c < step then pu1_src_left b (step * r0 + step * (r + 1) + c) else m (q + (r + 1) * strd + (c - step))) = X (r + 1 + r0) (c - step)"
    proof (cases "c < step")
      case True
      have "step * r0 + step * (r + 1) + c = step * (r + 1 + r0) + c" by (simp add: algebra_simps)
      moreover have "r + 1 + r0 = ht" if "\<not> r + 1 + r0 < ht" using that r rc by linarith
      ultimately show ?thesis using True c r r0 by (cases "r + 1 + r0 < ht") (simp_all add: X_def around_def)
    next
      case False
      have "m (q + (r + 1) * strd + (c - step)) = X (r + 1 + r0) (c - step)"
        unfolding X_def by (rule swept_inside [OF m step(4) _ _ _ q_def [THEN meta_eq_to_obj_eq]]) (use c r r0 step False in simp_all)
      then show ?thesis using False by simp
    qed
    have u: "s c = ?U r c" using I c step by simp
    have "?I r (c + 1) (if c \<ge> step then s(c - step := - sgn2 (X (r + r0) c) (X (r + 1 + r0) (c - step))) else s)"
      using I step by (auto simp: sgn2_swap)
    then show "\<exists>s'. (case (m, s) of (m, sign_up) \<Rightarrow>
         let sign_down = sgn2 (m (q + r * strd + c))
               (if c < step then pu1_src_left b (step * r0 + step * (r + 1) + c) else m (q + (r + 1) * strd + (c - step)));
             e = 2 + sign_up c + sign_down
         in (edge_store bd (off (c mod step)) (au1_mask step avail wd (c div step)) e m (q + r * strd + c),
             if c \<ge> step then sign_up(c - step := - sign_down) else sign_up)) =
       (m(q + r * strd + c := ?new r c), s') \<and> ?I r (c + 1) s'"
      unfolding prod.case Let_def d v u edge_store_val edge_new_def sao_dir_def edge_category_def by (simp add: row_suc numeral_3_eq_3)
  next
    fix r :: int and s :: "int \<Rightarrow> int"
    assume "?I r wd s"
    then show "?J (r + 1) s" using step by auto
  qed (use step in simp_all)
qed

section \<open>The routines compute the standard's offset\<close>

lemma for_to_at:
  fixes d n x :: int
  shows "for_to n (\<lambda>k s. s(d + k := v k)) s x = (if d \<le> x \<and> x < d + n then v (x - d) else s x)"
proof (cases "d \<le> x \<and> x < d + n")
  case True
  have "for_to n (\<lambda>k s. s(d + k := v k)) s (d + (x - d)) = v (x - d)" by (rule for_to_fill) (use True in simp_all)
  then show ?thesis using True by simp
next
  case False
  have "for_to n (\<lambda>k s. s(d + k := v k)) s x = s x" by (rule for_to_stores_out) (use False in auto)
  then show ?thesis using False by auto
qed

text \<open>Storing the samples of a corner.\<close>

lemma corner_store:
  fixes p strd wd step c c0 r r0 :: int
  assumes "wd \<le> strd" "0 \<le> c0" "c0 + step \<le> wd" "0 \<le> c" "c < wd"
  shows "for_to step (\<lambda>k s. s(p + r0 * strd + c0 + k := v k)) m (p + r * strd + c) =
    (if r = r0 \<and> c0 \<le> c \<and> c < c0 + step then v (c - c0) else m (p + r * strd + c))"
proof -
  let ?d = "p + r0 * strd + c0" and ?x = "p + r * strd + c"
  have "r = r0 \<and> c = c0 + (?x - ?d)" if "?d \<le> ?x" "?x < ?d + step"
    by (rule block_inj [OF assms(1,4,5)]) (use that assms in simp_all)
  then have "?d \<le> ?x \<and> ?x < ?d + step \<longleftrightarrow> r = r0 \<and> c0 \<le> c \<and> c < c0 + step" by auto
  then show ?thesis unfolding for_to_at by auto
qed

lemma swept_final:
  assumes "swept q strd wd new m0 h 0 m" "wd \<le> strd" "0 \<le> c" "c < wd"
  shows "m (q + i * strd + c) = (if 0 \<le> i \<and> i < h then new i c else m0 (q + i * strd + c))"
proof (cases "0 \<le> i \<and> i < h")
  case True
  then show ?thesis using assms unfolding swept_def updated_def by auto
next
  case False
  then show ?thesis using swept_ahead [OF assms(1), of 0 c i] assms by auto
qed

lemma au1_mask_sides:
  fixes step wd c :: int
  assumes "0 < step" "step dvd wd" "0 \<le> c" "c < wd"
  shows "au1_mask step avail wd (c div step) \<longleftrightarrow> (step \<le> c \<or> avail ! 0) \<and> (c < wd - step \<or> avail ! 1)"
proof -
  obtain n where n: "wd = step * n" using assms(2) by blast
  have "wd - 1 = step * (n - 1) + (step - 1)" by (simp add: n right_diff_distrib)
  then have last: "(wd - 1) div step = n - 1" by (rule int_div_pos_eq) (use assms in simp_all)
  have "c = step * (n - 1) + (c - (wd - step))" by (simp add: n right_diff_distrib)
  then have "c div step = n - 1" if "wd - step \<le> c" by (rule int_div_pos_eq) (use assms that in simp_all)
  moreover have "wd - step \<le> c" if "c div step = n - 1"
  proof -
    have "step * (c div step) \<le> c" using assms(1) by (metis minus_mod_eq_mult_div pos_mod_sign diff_le_eq le_add_same_cancel1)
    then show ?thesis by (simp add: that n right_diff_distrib)
  qed
  ultimately have 1: "c div step = (wd - 1) div step \<longleftrightarrow> wd - step \<le> c" unfolding last by blast
  have 0: "c div step = 0 \<longleftrightarrow> c < step" using assms by (auto simp: zdiv_eq_0_iff)
  show ?thesis using 0 1 by (auto simp: au1_mask_def Let_def)
qed

text \<open>Away from the corners the value of the sweep is that of the standard.\<close>

lemma edge_new_class0:
  assumes "0 < step" "step dvd wd" "0 \<le> c" "c < wd" "0 \<le> r" "r < ht"
  shows "edge_new step bd off (au1_mask step avail wd) 0 X r c = sao_edge_ref step bd off avail wd ht 0 X r c"
  using au1_mask_sides [OF assms(1-4), of avail] assms
  by (auto simp: edge_new_def sao_edge_ref_def sao_dir_def nb_avail_def edge_val_def)

lemma edge_new_class1:
  assumes "0 \<le> c" "c < wd" "row_first avail \<le> r" "r < row_first avail + row_count avail ht"
  shows "edge_new step bd off (\<lambda>_. True) 1 X r c = sao_edge_ref step bd off avail wd ht 1 X r c"
  using assms
  by (auto simp: edge_new_def sao_edge_ref_def sao_dir_def nb_avail_def edge_val_def row_first_def row_count_def split: if_splits)

lemma sao_edge_ref_cong:
  assumes "X r c = Y r c" "X (r - fst (sao_dir cls)) (c - snd (sao_dir cls) * step) = Y (r - fst (sao_dir cls)) (c - snd (sao_dir cls) * step)"
    "X (r + fst (sao_dir cls)) (c + snd (sao_dir cls) * step) = Y (r + fst (sao_dir cls)) (c + snd (sao_dir cls) * step)"
  shows "sao_edge_ref step bd off avail wd ht cls X r c = sao_edge_ref step bd off avail wd ht cls Y r c"
  using assms by (simp add: sao_edge_ref_def split_beta)

lemma edge_new_class2:
  assumes "0 < step" "step dvd wd" "0 \<le> c" "c < wd" "row_first avail \<le> r" "r < row_first avail + row_count avail ht"
    "\<not> (r = 0 \<and> c < step)" "\<not> (r = ht - 1 \<and> wd - step \<le> c)"
  shows "edge_new step bd off (au1_mask step avail wd) 2 X r c = sao_edge_ref step bd off avail wd ht 2 X r c"
  using au1_mask_sides [OF assms(1-4), of avail] assms
  by (auto simp: edge_new_def sao_edge_ref_def sao_dir_def nb_avail_def edge_val_def row_first_def row_count_def split: if_splits)

lemma edge_new_class3:
  assumes "0 < step" "step dvd wd" "0 \<le> c" "c < wd" "row_first avail \<le> r" "r < row_first avail + row_count avail ht"
    "\<not> (r = 0 \<and> wd - step \<le> c)" "\<not> (r = ht - 1 \<and> c < step)"
  shows "edge_new step bd off (au1_mask step avail wd) 3 X r c = sao_edge_ref step bd off avail wd ht 3 X r c"
  using au1_mask_sides [OF assms(1-4), of avail] assms
  by (auto simp: edge_new_def sao_edge_ref_def sao_dir_def nb_avail_def edge_val_def row_first_def row_count_def split: if_splits)

text \<open>A block the routines can work on: two rows and two columns of each component, and no overlap between rows.\<close>

definition sao_block :: "int \<Rightarrow> int \<Rightarrow> int \<Rightarrow> int \<Rightarrow> bool" where
  "sao_block step strd wd ht \<longleftrightarrow> 0 < step \<and> step dvd wd \<and> 2 * step \<le> wd \<and> wd + step \<le> strd \<and> 2 \<le> ht"

lemma sao_blockD:
  assumes "sao_block step strd wd ht"
  shows "0 < step" "step dvd wd" "2 * step \<le> wd" "wd + step \<le> strd" "2 \<le> ht" "0 \<le> row_count avail ht" "step \<le> wd" "0 \<le> wd" "wd \<le> strd"
    "0 \<le> ht"
  using assms by (auto simp: sao_block_def row_count_def row_first_def)

lemma class0_result:
  fixes b :: "'w::len word sao_bufs" and step p strd wd ht r c :: int
  assumes blk: "sao_block step strd wd ht" and rc: "0 \<le> r" "r < ht" "0 \<le> c" "c < wd"
  shows "pu1_src (sao_class0 step bd b p strd avail off wd ht) (p + r * strd + c) =
    sao_edge_ref step bd off avail wd ht 0 (around step b p strd wd ht ctl ctr cbl) r c"
  using swept_final [OF class0_swept [where b = b and p = p, OF sao_blockD(1,8,10,4) [OF blk]] sao_blockD(9) [OF blk] rc(3,4), where i = r]
    edge_new_class0 [OF sao_blockD(1,2) [OF blk] rc(3,4,1,2), where X = "around step b p strd wd ht ctl ctr cbl"] rc by simp

lemma class1_result:
  fixes b :: "'w::len word sao_bufs" and step p strd wd ht r c :: int
  assumes blk: "sao_block step strd wd ht" and rc: "0 \<le> r" "r < ht" "0 \<le> c" "c < wd"
  shows "pu1_src (sao_class1 step bd b p strd avail off wd ht) (p + r * strd + c) =
    sao_edge_ref step bd off avail wd ht 1 (around step b p strd wd ht ctl ctr cbl) r c"
proof -
  let ?X = "around step b p strd wd ht ctl ctr cbl" and ?i = "r - row_first avail"
  have addr: "p + row_first avail * strd + ?i * strd + c = p + r * strd + c" by (simp add: algebra_simps)
  have "pu1_src (sao_class1 step bd b p strd avail off wd ht) (p + r * strd + c) =
    (if 0 \<le> ?i \<and> ?i < row_count avail ht then edge_new step bd off (\<lambda>_. True) 1 ?X r c else pu1_src b (p + r * strd + c))"
    using swept_final [OF class1_swept [where b = b and p = p and avail = avail and bd = bd and off = off and ctl = ctl and ctr = ctr and cbl = cbl, OF sao_blockD(1,8,6,4) [OF blk]] sao_blockD(9) [OF blk] rc(3,4), where i = ?i] unfolding addr by simp
  also have "\<dots> = sao_edge_ref step bd off avail wd ht 1 ?X r c"
  proof (cases "0 \<le> ?i \<and> ?i < row_count avail ht")
    case True
    then show ?thesis using edge_new_class1 [OF rc(3,4), where X = ?X and avail = avail and r = r and ht = ht] by simp
  next
    case False
    then have "\<not> nb_avail avail wd ht (r - 1) c \<or> \<not> nb_avail avail wd ht (r + 1) c"
      using rc by (auto simp: nb_avail_def row_first_def row_count_def split: if_splits)
    then show ?thesis using False rc by (auto simp: sao_edge_ref_def sao_dir_def around_inside)
  qed
  finally show ?thesis .
qed

lemma last_mod:
  fixes c wd step :: int
  assumes "step dvd wd" "wd - step \<le> c" "c < wd"
  shows "c mod step = c - (wd - step)"
proof -
  obtain n where "wd = step * n" using assms(1) by blast
  then have "c = (c - (wd - step)) + step * (n - 1)" by (simp add: algebra_simps)
  then have "c mod step = (c - (wd - step)) mod step" by (metis mod_mult_self2)
  also have "\<dots> = c - (wd - step)" using assms by (intro mod_pos_pos_trivial) simp_all
  finally show ?thesis .
qed

text \<open>Classes 2 and 3: the swept rows, then the two corners.\<close>

lemma class2_run:
  fixes b :: "'w::len word sao_bufs" and p strd wd ht step :: int
  shows "pu1_src (sao_class2 step bd b p strd avail off wd ht) =
    for_to step (\<lambda>k src. src(p + (ht - 1) * strd + (wd - step) + k := corner_val bd (avail ! 7) (off k) (pu1_src b (p + (wd - step) + (ht - 1) * strd + k)) (pu1_src b (p + (wd - step) + (ht - 1) * strd + k - step - strd)) (pu1_src b (p + (wd - step) + (ht - 1) * strd + k + step + strd))))
      (for_to step (\<lambda>k src. src(p + 0 * strd + 0 + k := corner_val bd (avail ! 4) (off k) (pu1_src b (p + k)) (pu1_src_top_left b k) (pu1_src b (p + k + step + strd))))
        (class2_loop step bd b p strd avail off wd ht))"
proof -
  have corners: "(p + row_first avail * strd) + row_count avail ht * strd - (if avail ! 2 then row_count avail ht else row_count avail ht + 1) * strd = p + 0 * strd + 0"
    "(p + row_first avail * strd) + row_count avail ht * strd + (if avail ! 3 then wd - step - strd else wd - step) = p + (ht - 1) * strd + (wd - step)"
    by (simp_all add: row_first_def row_count_def algebra_simps)
  show ?thesis
    unfolding corners [symmetric]
    by (cases "avail ! 2"; cases "avail ! 3") (simp_all add: sao_class2_def class2_loop_def Let_def split_beta row_first_def row_count_def cong del: if_weak_cong)
qed

lemma class2_result:
  fixes b :: "'w::len word sao_bufs" and step p strd wd ht r c :: int
  assumes blk: "sao_block step strd wd ht" and rc: "0 \<le> r" "r < ht" "0 \<le> c" "c < wd"
  shows "pu1_src (sao_class2 step bd b p strd avail off wd ht) (p + r * strd + c) =
    sao_edge_ref step bd off avail wd ht 2 (around step b p strd wd ht (pu1_src_top_left b) ctr cbl) r c"
proof -
  let ?X = "around step b p strd wd ht (pu1_src_top_left b) ctr cbl" and ?X' = "around step b p strd wd ht (\<lambda>k. pu1_src_left b (k - step)) ctr cbl"
  let ?L = "class2_loop step bd b p strd avail off wd ht"
  let ?i = "r - row_first avail" and ?h = "row_count avail ht" and ?q = "p + row_first avail * strd"
  let ?last = "p + (wd - step) + (ht - 1) * strd" and ?m = "pu1_src b"
  let ?A = "\<lambda>k. corner_val bd (avail ! 4) (off k) (?m (p + k)) (pu1_src_top_left b k) (?m (p + k + step + strd))"
  let ?B = "\<lambda>k. corner_val bd (avail ! 7) (off k) (?m (?last + k)) (?m (?last + k - step - strd)) (?m (?last + k + step + strd))"
  note blkD = sao_blockD [OF blk]
  have addr: "?q + ?i * strd + c = p + r * strd + c" by (simp add: algebra_simps)
  have L: "?L (p + r * strd + c) = (if 0 \<le> ?i \<and> ?i < ?h then edge_new step bd off (au1_mask step avail wd) 2 ?X' r c else ?m (p + r * strd + c))"
    using swept_final [OF class2_swept [where b = b and p = p and avail = avail and bd = bd and off = off and ctr = ctr and cbl = cbl, OF blkD(1,7,6,4)] blkD(9) rc(3,4), where i = ?i] unfolding addr by simp
  have c0: "0 \<le> wd - step" "wd - step + step \<le> wd" "0 \<le> (0 :: int)" "0 + step \<le> wd" using blkD by simp_all
  have "pu1_src (sao_class2 step bd b p strd avail off wd ht) (p + r * strd + c) = (if r = ht - 1 \<and> wd - step \<le> c then ?B (c - (wd - step))
      else if r = 0 \<and> c < step then ?A c else ?L (p + r * strd + c))"
    unfolding class2_run corner_store [OF blkD(9) c0(1,2) rc(3,4)] corner_store [OF blkD(9) c0(3,4) rc(3,4)] using rc by auto
  also have "\<dots> = sao_edge_ref step bd off avail wd ht 2 ?X r c"
  proof -
    consider (B) "r = ht - 1" "wd - step \<le> c" | (A) "r = 0" "c < step"
      | (swept) "\<not> (r = ht - 1 \<and> wd - step \<le> c)" "\<not> (r = 0 \<and> c < step)" by blast
    then show ?thesis
    proof cases
      case B
      have ht: "ht = r + 1" using B by simp
      have m: "c - (wd - step) = c mod step" by (rule last_mod [OF blkD(2) B(2) rc(4), symmetric])
      have nb: "nb_avail avail wd ht (r - 1) (c - step)" "nb_avail avail wd ht (r + 1) (c + step) = avail ! 7"
        using B rc blkD by (simp_all add: nb_avail_def)
      have a: "?last + (c - (wd - step)) = p + r * strd + c" "p + r * strd + c - step - strd = p + (r - 1) * strd + (c - step)"
        "p + r * strd + c + step + strd = p + (r + 1) * strd + (c + step)"
        by (simp_all add: ht algebra_simps)
      have "?B (c - (wd - step)) = corner_val bd (avail ! 7) (off (c mod step)) (?X r c) (?X (r - 1) (c - step)) (?X (r + 1) (c + step))"
        unfolding a unfolding m using B rc blkD by (simp add: around_inside)
      then show ?thesis unfolding if_P [OF conjI [OF B]] by (simp add: nb sao_edge_ref_def sao_dir_def corner_val_eq)
    next
      case A
      then have "c mod step = c" "nb_avail avail wd ht (r - 1) (c - step) = avail ! 4" "nb_avail avail wd ht (r + 1) (c + step)"
        "\<not> (r = ht - 1 \<and> wd - step \<le> c)"
        using rc blkD by (simp_all add: nb_avail_def)
      then show ?thesis using A rc blkD by (simp add: sao_edge_ref_def sao_dir_def corner_val_eq around_def algebra_simps)
    next
      case swept
      have X: "sao_edge_ref step bd off avail wd ht 2 ?X' r c = sao_edge_ref step bd off avail wd ht 2 ?X r c"
        by (rule sao_edge_ref_cong) (use swept rc blkD in \<open>auto simp: sao_dir_def around_def\<close>)
      show ?thesis
      proof (cases "0 \<le> ?i \<and> ?i < ?h")
        case True
        then show ?thesis using swept edge_new_class2 [OF blkD(1,2) rc(3,4), where X = ?X' and avail = avail and r = r and ht = ht] unfolding L X [symmetric] by auto
      next
        case False
        then have "\<not> nb_avail avail wd ht (r - 1) (c - step) \<or> \<not> nb_avail avail wd ht (r + 1) (c + step)"
          using rc swept blkD by (auto simp: nb_avail_def row_first_def row_count_def split: if_splits)
        then show ?thesis using swept False rc unfolding L by (auto simp: sao_edge_ref_def sao_dir_def around_inside)
      qed
    qed
  qed
  finally show ?thesis .
qed

lemma class3_run:
  fixes b :: "'w::len word sao_bufs" and p strd wd ht step :: int
  shows "pu1_src (sao_class3 step bd b p strd top_right bot_left avail off wd ht) =
    for_to step (\<lambda>k src. src(p + (ht - 1) * strd + 0 + k := corner_val bd (avail ! 6) (off k) (pu1_src b (p + (ht - 1) * strd + k)) (pu1_src b (p + (ht - 1) * strd + k + step - strd)) (bot_left k)))
      (for_to step (\<lambda>k src. src(p + 0 * strd + (wd - step) + k := corner_val bd (avail ! 5) (off k) (pu1_src b (p + (wd - step) + k)) (top_right k) (pu1_src b (p + (wd - step) + k - step + strd))))
        (class3_loop step bd b p strd avail off wd ht))"
proof -
  have corners: "(p + row_first avail * strd) + row_count avail ht * strd - (if avail ! 2 then row_count avail ht else row_count avail ht + 1) * strd + (wd - step) = p + 0 * strd + (wd - step)"
    "(p + row_first avail * strd) + row_count avail ht * strd + (if avail ! 3 then - strd else 0) = p + (ht - 1) * strd + 0"
    by (simp_all add: row_first_def row_count_def algebra_simps)
  show ?thesis
    unfolding corners [symmetric]
    by (cases "avail ! 2"; cases "avail ! 3") (simp_all add: sao_class3_def class3_loop_def Let_def split_beta row_first_def row_count_def cong del: if_weak_cong)
qed

lemma class3_result:
  fixes b :: "'w::len word sao_bufs" and step p strd wd ht r c :: int
  assumes blk: "sao_block step strd wd ht" and rc: "0 \<le> r" "r < ht" "0 \<le> c" "c < wd"
  shows "pu1_src (sao_class3 step bd b p strd top_right bot_left avail off wd ht) (p + r * strd + c) =
    sao_edge_ref step bd off avail wd ht 3 (around step b p strd wd ht ctl top_right bot_left) r c"
proof -
  let ?X = "around step b p strd wd ht ctl top_right bot_left"
    and ?X' = "around step b p strd wd ht ctl (\<lambda>k. pu1_src b (p - strd + wd + k)) (\<lambda>k. pu1_src_left b (step * ht + k))"
  let ?L = "class3_loop step bd b p strd avail off wd ht"
  let ?i = "r - row_first avail" and ?h = "row_count avail ht" and ?q = "p + row_first avail * strd"
  let ?right = "p + (wd - step)" and ?bot = "p + (ht - 1) * strd" and ?m = "pu1_src b"
  let ?A = "\<lambda>k. corner_val bd (avail ! 5) (off k) (?m (?right + k)) (top_right k) (?m (?right + k - step + strd))"
  let ?B = "\<lambda>k. corner_val bd (avail ! 6) (off k) (?m (?bot + k)) (?m (?bot + k + step - strd)) (bot_left k)"
  note blkD = sao_blockD [OF blk]
  have addr: "?q + ?i * strd + c = p + r * strd + c" by (simp add: algebra_simps)
  have L: "?L (p + r * strd + c) = (if 0 \<le> ?i \<and> ?i < ?h then edge_new step bd off (au1_mask step avail wd) 3 ?X' r c else ?m (p + r * strd + c))"
    using swept_final [OF class3_swept [where b = b and p = p and avail = avail and bd = bd and off = off and ctl = ctl, OF blkD(1,7,6,4)]
      blkD(9) rc(3,4), where i = ?i] unfolding addr by simp
  have c0: "0 \<le> wd - step" "wd - step + step \<le> wd" "0 \<le> (0 :: int)" "0 + step \<le> wd" using blkD by simp_all
  have "pu1_src (sao_class3 step bd b p strd top_right bot_left avail off wd ht) (p + r * strd + c) =
    (if r = ht - 1 \<and> c < step then ?B c else if r = 0 \<and> wd - step \<le> c then ?A (c - (wd - step)) else ?L (p + r * strd + c))"
    unfolding class3_run corner_store [OF blkD(9) c0(1,2) rc(3,4)] corner_store [OF blkD(9) c0(3,4) rc(3,4)] using rc by auto
  also have "\<dots> = sao_edge_ref step bd off avail wd ht 3 ?X r c"
  proof -
    consider (B) "r = ht - 1" "c < step" | (A) "r = 0" "wd - step \<le> c"
      | (swept) "\<not> (r = ht - 1 \<and> c < step)" "\<not> (r = 0 \<and> wd - step \<le> c)" by blast
    then show ?thesis
    proof cases
      case B
      have ht: "ht = r + 1" using B by simp
      have m: "c = c mod step" using B rc by simp
      have nb: "nb_avail avail wd ht (r - 1) (c + step)" "nb_avail avail wd ht (r + 1) (c - step) = avail ! 6"
        using B rc blkD by (simp_all add: nb_avail_def)
      have a: "?bot + c = p + r * strd + c" "p + r * strd + c + step - strd = p + (r - 1) * strd + (c + step)" by (simp_all add: ht algebra_simps)
      have "?B c = corner_val bd (avail ! 6) (off (c mod step)) (?X r c) (?X (r - 1) (c + step)) (?X (r + 1) (c - step))"
        unfolding a unfolding m [symmetric] using B rc blkD by (simp add: around_def)
      then show ?thesis unfolding if_P [OF conjI [OF B]] by (simp add: nb sao_edge_ref_def sao_dir_def corner_val_eq numeral_3_eq_3)
    next
      case A
      have m: "c - (wd - step) = c mod step" by (rule last_mod [OF blkD(2) A(2) rc(4), symmetric])
      have nb: "nb_avail avail wd ht (r - 1) (c + step) = avail ! 5" "nb_avail avail wd ht (r + 1) (c - step)"
        using A rc blkD by (simp_all add: nb_avail_def)
      have notB: "\<not> (r = ht - 1 \<and> c < step)" using A blkD by simp
      have a: "?right + (c - (wd - step)) = p + r * strd + c" "p + r * strd + c - step + strd = p + (r + 1) * strd + (c - step)"
        using A by (simp_all add: algebra_simps)
      have "?X (r - 1) (c + step) = top_right (c - (wd - step))" using A rc blkD by (simp add: around_def algebra_simps)
      then have "?A (c - (wd - step)) = corner_val bd (avail ! 5) (off (c mod step)) (?X r c) (?X (r - 1) (c + step)) (?X (r + 1) (c - step))"
        unfolding a unfolding m using A rc blkD by (simp add: around_inside)
      then show ?thesis unfolding if_not_P [OF notB] if_P [OF conjI [OF A]] by (simp add: nb sao_edge_ref_def sao_dir_def corner_val_eq numeral_3_eq_3)
    next
      case swept
      have X: "sao_edge_ref step bd off avail wd ht 3 ?X' r c = sao_edge_ref step bd off avail wd ht 3 ?X r c"
        by (rule sao_edge_ref_cong) (use swept rc blkD in \<open>auto simp: sao_dir_def around_def numeral_3_eq_3\<close>)
      show ?thesis
      proof (cases "0 \<le> ?i \<and> ?i < ?h")
        case True
        then show ?thesis
          using swept edge_new_class3 [OF blkD(1,2) rc(3,4), where X = ?X' and avail = avail and r = r and ht = ht] unfolding L X [symmetric] by auto
      next
        case False
        then have "\<not> nb_avail avail wd ht (r - 1) (c + step) \<or> \<not> nb_avail avail wd ht (r + 1) (c - step)"
          using rc swept blkD by (auto simp: nb_avail_def row_first_def row_count_def split: if_splits)
        then show ?thesis using swept False rc unfolding L by (auto simp: sao_edge_ref_def sao_dir_def around_inside numeral_3_eq_3)
      qed
    qed
  qed
  finally show ?thesis .
qed

text \<open>The four classes together.\<close>

definition sao_edge ::
  "int \<Rightarrow> nat \<Rightarrow> nat \<Rightarrow> 'w::len word sao_bufs \<Rightarrow> int \<Rightarrow> int \<Rightarrow> (int \<Rightarrow> 'w word) \<Rightarrow> (int \<Rightarrow> 'w word) \<Rightarrow> bool list \<Rightarrow> (int \<Rightarrow> nat \<Rightarrow> 8 word) \<Rightarrow> int \<Rightarrow> int \<Rightarrow> 'w word sao_bufs" where
  "sao_edge step bd cls b p strd top_right bot_left avail off wd ht =
    [sao_class0 step bd b p strd avail off wd ht, sao_class1 step bd b p strd avail off wd ht,
     sao_class2 step bd b p strd avail off wd ht, sao_class3 step bd b p strd top_right bot_left avail off wd ht] ! cls"

lemma lt4: "cls < 4 \<Longrightarrow> cls \<in> {0, 1, 2, 3 :: nat}"
  by auto

lemma apf_sao_edge:
  assumes "cls < 4"
  shows "apf_sao_luma cls b p strd top_right bot_left avail off wd ht =
      sao_edge 1 8 cls b p strd top_right bot_left avail (luma_off off) wd ht"
    "apf_sao_chroma cls b p strd top_right bot_left avail off_u off_v wd ht =
      sao_edge 2 8 cls b p strd top_right bot_left avail (chroma_off off_u off_v) wd ht"
    "apf_hbd_sao_luma bd cls b' p strd top_right' bot_left' avail off wd ht =
      sao_edge 1 bd cls b' p strd top_right' bot_left' avail (luma_off off) wd ht"
    "apf_hbd_sao_chroma bd cls b' p strd top_right' bot_left' avail off_u off_v wd ht =
      sao_edge 2 bd cls b' p strd top_right' bot_left' avail (chroma_off off_u off_v) wd ht"
  using lt4 [OF assms]
  by (elim insertE; simp add: apf_sao_luma_def apf_sao_chroma_def apf_hbd_sao_luma_def apf_hbd_sao_chroma_def sao_edge_def
      ihevc_sao_edge_offset_class0_def ihevc_sao_edge_offset_class1_def ihevc_sao_edge_offset_class2_def ihevc_sao_edge_offset_class3_def
      ihevc_sao_edge_offset_class0_chroma_def ihevc_sao_edge_offset_class1_chroma_def
      ihevc_sao_edge_offset_class2_chroma_def ihevc_sao_edge_offset_class3_chroma_def
      ihevc_hbd_sao_edge_offset_class0_def ihevc_hbd_sao_edge_offset_class1_def ihevc_hbd_sao_edge_offset_class2_def
      ihevc_hbd_sao_edge_offset_class3_def ihevc_hbd_sao_edge_offset_class0_chroma_def ihevc_hbd_sao_edge_offset_class1_chroma_def
      ihevc_hbd_sao_edge_offset_class2_chroma_def ihevc_hbd_sao_edge_offset_class3_chroma_def)+

lemma sao_edge_result:
  fixes b :: "'w::len word sao_bufs" and step p strd wd ht r c :: int
  assumes cls: "cls < 4" and blk: "sao_block step strd wd ht" and rc: "0 \<le> r" "r < ht" "0 \<le> c" "c < wd"
  shows "pu1_src (sao_edge step bd cls b p strd top_right bot_left avail off wd ht) (p + r * strd + c) =
    sao_edge_ref step bd off avail wd ht cls (around step b p strd wd ht (pu1_src_top_left b) top_right bot_left) r c"
  using lt4 [OF cls] class0_result [OF blk rc] class1_result [OF blk rc] class2_result [OF blk rc] class3_result [OF blk rc]
  by (elim insertE) (simp_all add: sao_edge_def numeral_3_eq_3)

text \<open>
  C12: The in-place edge offsets are those of the standard. For each of the four classes and any
  availability of the eight neighbouring blocks, the 8-bit luma and chroma routines give each sample
  the offset computed from the samples before the call, although they overwrite the block row by row
  and keep only signs of differences; a sample with an unavailable neighbour stays.
\<close>

theorem sao_edge_exact:
  fixes b b' :: "8 word sao_bufs" and p strd wd ht r c p' strd' wd' ht' r' c' :: int
  assumes "cls < 4" and luma: "sao_block 1 strd wd ht" "0 \<le> r" "r < ht" "0 \<le> c" "c < wd"
    and chroma: "sao_block 2 strd' wd' ht'" "0 \<le> r'" "r' < ht'" "0 \<le> c'" "c' < wd'"
  shows "pu1_src (apf_sao_luma cls b p strd top_right bot_left avail off wd ht) (p + r * strd + c) =
      sao_edge_ref 1 8 (luma_off off) avail wd ht cls (around 1 b p strd wd ht (pu1_src_top_left b) top_right bot_left) r c \<and>
    pu1_src (apf_sao_chroma cls b' p' strd' top_right' bot_left' avail off_u off_v wd' ht') (p' + r' * strd' + c') =
      sao_edge_ref 2 8 (chroma_off off_u off_v) avail wd' ht' cls (around 2 b' p' strd' wd' ht' (pu1_src_top_left b') top_right' bot_left') r' c'"
  unfolding apf_sao_edge [OF assms(1)] using sao_edge_result [OF assms(1) luma] sao_edge_result [OF assms(1) chroma] by blast

lemma sao_edge_exact_witness:
  "let b = \<lparr>pu1_src = (\<lambda>a. word_of_int (a * a)), pu1_src_left = (\<lambda>a. word_of_int (7 * a)), pu1_src_top = (\<lambda>a. 9), pu1_src_top_left = (\<lambda>_. 200)\<rparr>;
       avail = [True, False, True, False, True, False, False, False]; off = (\<lambda>i. [0, 3, 1, - 1, - 3] ! i)
   in pu1_src (apf_sao_luma 2 b 0 20 (\<lambda>_. 0) (\<lambda>_. 0) avail off 8 8) (0 + 0 * 20 + 0) =
       sao_edge_ref 1 8 (luma_off off) avail 8 8 2 (around 1 b 0 20 8 8 (\<lambda>_. 200) (\<lambda>_. 0) (\<lambda>_. 0)) 0 0 \<and>
      pu1_src (apf_sao_chroma 2 b 0 20 (\<lambda>_. 0) (\<lambda>_. 0) avail off off 8 4) (0 + 3 * 20 + 7) =
       sao_edge_ref 2 8 (chroma_off off off) avail 8 4 2 (around 2 b 0 20 8 4 (\<lambda>_. 200) (\<lambda>_. 0) (\<lambda>_. 0)) 3 7"
  unfolding Let_def
  using sao_edge_exact [where cls = 2 and b = "\<lparr>pu1_src = (\<lambda>a. word_of_int (a * a)), pu1_src_left = (\<lambda>a. word_of_int (7 * a)), pu1_src_top = (\<lambda>a. 9), pu1_src_top_left = (\<lambda>_. 200)\<rparr>"
      and b' = "\<lparr>pu1_src = (\<lambda>a. word_of_int (a * a)), pu1_src_left = (\<lambda>a. word_of_int (7 * a)), pu1_src_top = (\<lambda>a. 9), pu1_src_top_left = (\<lambda>_. 200)\<rparr>"
      and p = 0 and strd = 20 and wd = 8 and ht = 8 and r = 0 and c = 0 and p' = 0 and strd' = 20 and wd' = 8 and ht' = 4 and r' = 3 and c' = 7
      and top_right = "\<lambda>_. 0" and bot_left = "\<lambda>_. 0" and top_right' = "\<lambda>_. 0" and bot_left' = "\<lambda>_. 0"
      and avail = "[True, False, True, False, True, False, False, False]" and off = "\<lambda>i. [0, 3, 1, - 1, - 3] ! i"
      and off_u = "\<lambda>i. [0, 3, 1, - 1, - 3] ! i" and off_v = "\<lambda>i. [0, 3, 1, - 1, - 3] ! i"]
  by (simp add: sao_block_def)

text \<open>The same for more bits.\<close>

theorem hbd_sao_edge_exact:
  fixes b b' :: "16 word sao_bufs" and p strd wd ht r c p' strd' wd' ht' r' c' :: int
  assumes "cls < 4" and luma: "sao_block 1 strd wd ht" "0 \<le> r" "r < ht" "0 \<le> c" "c < wd"
    and chroma: "sao_block 2 strd' wd' ht'" "0 \<le> r'" "r' < ht'" "0 \<le> c'" "c' < wd'"
  shows "pu1_src (apf_hbd_sao_luma bd cls b p strd top_right bot_left avail off wd ht) (p + r * strd + c) =
      sao_edge_ref 1 bd (luma_off off) avail wd ht cls (around 1 b p strd wd ht (pu1_src_top_left b) top_right bot_left) r c \<and>
    pu1_src (apf_hbd_sao_chroma bd cls b' p' strd' top_right' bot_left' avail off_u off_v wd' ht') (p' + r' * strd' + c') =
      sao_edge_ref 2 bd (chroma_off off_u off_v) avail wd' ht' cls (around 2 b' p' strd' wd' ht' (pu1_src_top_left b') top_right' bot_left') r' c'"
  unfolding apf_sao_edge [OF assms(1)] using sao_edge_result [OF assms(1) luma] sao_edge_result [OF assms(1) chroma] by blast

section \<open>Blocks one after the other\<close>

text \<open>What a call leaves for the next blocks: the samples outside, and its own border unmodified.\<close>

lemma swept_outside:
  assumes "swept q strd wd new m0 h 0 m" "\<And>i c. 0 \<le> i \<Longrightarrow> i < h \<Longrightarrow> 0 \<le> c \<Longrightarrow> c < wd \<Longrightarrow> x \<noteq> q + i * strd + c"
  shows "m x = m0 x"
proof -
  have "x \<noteq> q + i * strd + c" if "(i, c) \<in> {(i, j). 0 \<le> i \<and> 0 \<le> j \<and> j < wd \<and> (i < h \<or> i = h \<and> j < 0)}" for i c
    using assms(2) that by auto
  then show ?thesis using assms(1) unfolding swept_def updated_def by blast
qed

lemma corner_store_outside:
  fixes p strd wd step c0 r0 x :: int
  assumes "0 \<le> c0" "c0 + step \<le> wd" "0 \<le> r0" "r0 < ht" "\<forall>r c. 0 \<le> r \<and> r < ht \<and> 0 \<le> c \<and> c < wd \<longrightarrow> x \<noteq> p + r * strd + c"
  shows "for_to step (\<lambda>k s. s(p + r0 * strd + c0 + k := v k)) m x = m x"
proof (rule for_to_stores_out)
  fix k assume k: "0 \<le> k" "k < step"
  have "x \<noteq> p + r0 * strd + (c0 + k)" using assms k by simp
  then show "p + r0 * strd + c0 + k \<noteq> x" by simp
qed

lemma save_right_at:
  fixes step ht r k :: int
  assumes "0 \<le> r" "r < ht" "0 \<le> k" "k < step"
  shows "save_right step src p strd wd ht left (step * r + k) = src (p + r * strd + (wd - step) + k)"
proof -
  have "save_right step src p strd wd ht left = store_block ht step (\<lambda>r k. 0 + r * step + k) (\<lambda>r k. src (p + r * strd + (wd - step) + k)) left"
    by (simp add: save_right_def store_block_def mult.commute)
  then show ?thesis using store_block_strd [of step step r ht k 0] assms by (simp add: mult.commute)
qed

lemma copy_to_at: "0 \<le> i \<Longrightarrow> i < n \<Longrightarrow> copy_to n tmp dst i = tmp i"
  unfolding copy_to_def by (rule for_to_fill0)

lemma save_bottom_at: "0 \<le> c \<Longrightarrow> c < wd \<Longrightarrow> save_bottom src p strd wd ht trow c = src (p + (ht - 1) * strd + c)"
  unfolding save_bottom_def by (rule for_to_fill0)

lemma save_corner_at: "0 \<le> k \<Longrightarrow> k < step \<Longrightarrow> save_corner step wd trow top_left k = trow (wd - step + k)"
  unfolding save_corner_def by (rule for_to_fill0)

lemma left_index:
  fixes step ht r k :: int
  assumes "0 \<le> r" "r < ht" "0 \<le> k" "k < step"
  shows "0 \<le> step * r + k" "step * r + k < step * ht"
proof -
  show "0 \<le> step * r + k" using assms by simp
  have "step * r + k < step * (r + 1)" using assms by (simp add: distrib_left)
  also have "\<dots> \<le> step * ht" using assms by (intro mult_left_mono) simp_all
  finally show "step * r + k < step * ht" .
qed

lemma sao_edge_saves:
  assumes "cls < 4" "0 \<le> r" "r < ht" "0 \<le> k" "k < step" "0 \<le> c" "c < wd"
  shows "pu1_src_left (sao_edge step bd cls b p strd top_right bot_left avail off wd ht) (step * r + k) = pu1_src b (p + r * strd + (wd - step) + k)"
    "pu1_src_top (sao_edge step bd cls b p strd top_right bot_left avail off wd ht) c = pu1_src b (p + (ht - 1) * strd + c)"
    "pu1_src_top_left (sao_edge step bd cls b p strd top_right bot_left avail off wd ht) k = pu1_src_top b (wd - step + k)"
  using lt4 [OF assms(1)] left_index [OF assms(2-5)] assms(2-)
  by (elim insertE; simp add: sao_edge_def sao_class0_def sao_class1_def sao_class2_def sao_class3_def Let_def split_beta
      copy_to_at save_right_at save_bottom_at save_corner_at numeral_3_eq_3)+

lemma sao_edge_outside:
  fixes b :: "'w::len word sao_bufs" and step p strd wd ht x :: int
  assumes cls: "cls < 4" and blk: "sao_block step strd wd ht"
    and x: "\<And>r c. 0 \<le> r \<Longrightarrow> r < ht \<Longrightarrow> 0 \<le> c \<Longrightarrow> c < wd \<Longrightarrow> x \<noteq> p + r * strd + c"
  shows "pu1_src (sao_edge step bd cls b p strd top_right bot_left avail off wd ht) x = pu1_src b x"
proof -
  note D = sao_blockD [OF blk]
  have x': "\<forall>r c. 0 \<le> r \<and> r < ht \<and> 0 \<le> c \<and> c < wd \<longrightarrow> x \<noteq> p + r * strd + c" using x by blast
  have q: "x \<noteq> (p + row_first avail * strd) + i * strd + c" if "0 \<le> i" "i < row_count avail ht" "0 \<le> c" "c < wd" for i c
    using x [of "row_first avail + i" c] that by (simp add: row_first_def row_count_def algebra_simps split: if_splits)
  have c0: "0 \<le> wd - step" "wd - step + step \<le> wd" "0 \<le> (0 :: int)" "0 + step \<le> wd" "0 \<le> ht - 1" "ht - 1 < ht" "0 < ht" using D by simp_all
  have "pu1_src (sao_class0 step bd b p strd avail off wd ht) x = pu1_src b x"
    by (rule swept_outside [OF class0_swept [OF D(1,8,10,4)] x])
  moreover have "pu1_src (sao_class1 step bd b p strd avail off wd ht) x = pu1_src b x"
    by (rule swept_outside [OF class1_swept [OF D(1,8,6,4)] q])
  moreover have "pu1_src (sao_class2 step bd b p strd avail off wd ht) x = pu1_src b x"
    unfolding class2_run corner_store_outside [OF c0(1,2,5,6) x'] corner_store_outside [OF c0(3,4,3,7) x']
    by (rule swept_outside [OF class2_swept [OF D(1,7,6,4)] q])
  moreover have "pu1_src (sao_class3 step bd b p strd top_right bot_left avail off wd ht) x = pu1_src b x"
    unfolding class3_run corner_store_outside [OF c0(3,4,5,6) x'] corner_store_outside [OF c0(1,2,3,7) x']
    by (rule swept_outside [OF class3_swept [OF D(1,7,6,4)] q])
  ultimately show ?thesis using lt4 [OF cls] by (elim insertE) (simp_all add: sao_edge_def numeral_3_eq_3)
qed

text \<open>The second of two blocks side by side, called with what the first call left.\<close>

definition next_block :: "'v sao_bufs \<Rightarrow> (int \<Rightarrow> 'v) \<Rightarrow> 'v sao_bufs" where
  "next_block b1 trow2 = \<lparr>pu1_src = pu1_src b1, pu1_src_left = pu1_src_left b1, pu1_src_top = trow2, pu1_src_top_left = pu1_src_top_left b1\<rparr>"

text \<open>The second block with its neighbours before any call.\<close>

definition around_next :: "int \<Rightarrow> 'v sao_bufs \<Rightarrow> int \<Rightarrow> int \<Rightarrow> int \<Rightarrow> int \<Rightarrow> int \<Rightarrow> (int \<Rightarrow> 'v) \<Rightarrow> (int \<Rightarrow> 'v) \<Rightarrow> (int \<Rightarrow> 'v) \<Rightarrow> int \<Rightarrow> int \<Rightarrow> 'v" where
  "around_next step b p strd wd1 wd2 ht trow2 top_right bot_left r c =
    (if r < 0 then if c < 0 then pu1_src_top b (wd1 + c) else if c < wd2 then trow2 c else top_right (c - wd2)
     else if c < 0 \<and> ht \<le> r then bot_left (c + step)
     else pu1_src b (p + r * strd + (wd1 + c)))"

lemma sao_edge_next:
  fixes b :: "'w::len word sao_bufs" and step p strd wd1 wd2 ht r c :: int and bd :: nat and avail1 :: "bool list"
    and top_right1 bot_left1 :: "int \<Rightarrow> 'w word" and off1 :: "int \<Rightarrow> nat \<Rightarrow> 8 word"
  assumes cls: "cls1 < 4" "cls2 < 4" and blk: "sao_block step strd wd1 ht" "sao_block step strd wd2 ht" "wd1 + wd2 + step \<le> strd"
    and rc: "0 \<le> r" "r < ht" "0 \<le> c" "c < wd2"
  defines "b1 \<equiv> sao_edge step bd cls1 b p strd top_right1 bot_left1 avail1 off1 wd1 ht"
  shows "pu1_src (sao_edge step bd cls2 (next_block b1 trow2) (p + wd1) strd top_right bot_left avail off wd2 ht) (p + wd1 + r * strd + c) =
    sao_edge_ref step bd off avail wd2 ht cls2 (around_next step b p strd wd1 wd2 ht trow2 top_right bot_left) r c"
proof -
  let ?X = "around step (next_block b1 trow2) (p + wd1) strd wd2 ht (pu1_src_top_left (next_block b1 trow2)) top_right bot_left"
    and ?Y = "around_next step b p strd wd1 wd2 ht trow2 top_right bot_left"
  note D = sao_blockD [OF blk(1)]
  note E = sao_blockD [OF blk(2)]
  have XY: "?X i j = ?Y i j" if ij: "- step \<le> j" "j < wd2 + step" for i j
  proof -
    have outside: "pu1_src b1 (p + wd1 + i * strd + j) = pu1_src b (p + i * strd + (wd1 + j))" if "0 \<le> j"
    proof -
      have "p + i * strd + (wd1 + j) \<noteq> p + i' * strd + c'" if "0 \<le> c'" "c' < wd1" for i' c'
        using block_inj [of strd strd "wd1 + j" c' p i i'] that ij \<open>0 \<le> j\<close> D(8,9) blk(3) by auto
      then have "pu1_src b1 (p + i * strd + (wd1 + j)) = pu1_src b (p + i * strd + (wd1 + j))"
        unfolding b1_def by (intro sao_edge_outside [OF cls(1) blk(1)])
      then show ?thesis by (simp add: algebra_simps)
    qed
    have saved: "pu1_src_left b1 (step * i + (j + step)) = pu1_src b (p + i * strd + (wd1 + j))" if "0 \<le> i" "i < ht" "j < 0"
      unfolding b1_def using sao_edge_saves(1) [OF cls(1) that(1,2), of "j + step" step 0 wd1 bd b p strd] that ij D
      by (simp add: algebra_simps)
    have corner: "pu1_src_top_left b1 (j + step) = pu1_src_top b (wd1 + j)" if "j < 0"
      unfolding b1_def using sao_edge_saves(3) [OF cls(1), of 0 ht "j + step" step 0 wd1 bd b p strd] that ij D by (simp add: algebra_simps)
    show ?thesis using outside saved corner by (auto simp: around_def around_next_def next_block_def)
  qed
  have dir: "snd (sao_dir cls2) \<in> {- 1, 0, 1}" using lt4 [OF cls(2)] by (auto simp: sao_dir_def)
  have "sao_edge_ref step bd off avail wd2 ht cls2 ?X r c = sao_edge_ref step bd off avail wd2 ht cls2 ?Y r c"
    by (rule sao_edge_ref_cong; rule XY) (use dir rc E in auto)
  then show ?thesis using sao_edge_result [OF cls(2) blk(2) rc, of bd "next_block b1 trow2" "p + wd1" top_right bot_left avail off] by simp
qed

text \<open>
  C13: Filtering a block is invisible to the block on its right: when a luma block is filtered with any
  class and then its right neighbour is filtered with what the first call saved, every sample of the
  second block gets the offset computed from the picture before either call, and the first block keeps
  its result.
\<close>

theorem sao_blocks_independent:
  fixes b :: "8 word sao_bufs" and p strd wd1 wd2 ht r c r1 c1 :: int and avail1 avail2 :: "bool list" and off1 off2 :: "nat \<Rightarrow> 8 word"
    and top_right1 bot_left1 top_right2 bot_left2 trow2 :: "int \<Rightarrow> 8 word"
  assumes cls: "cls1 < 4" "cls2 < 4" and blk: "sao_block 1 strd wd1 ht" "sao_block 1 strd wd2 ht" "wd1 + wd2 + 1 \<le> strd"
    and rc: "0 \<le> r" "r < ht" "0 \<le> c" "c < wd2" and rc1: "0 \<le> r1" "r1 < ht" "0 \<le> c1" "c1 < wd1"
  defines "b1 \<equiv> apf_sao_luma cls1 b p strd top_right1 bot_left1 avail1 off1 wd1 ht"
  defines "b2 \<equiv> apf_sao_luma cls2 (next_block b1 trow2) (p + wd1) strd top_right2 bot_left2 avail2 off2 wd2 ht"
  shows "pu1_src b2 (p + wd1 + r * strd + c) =
      sao_edge_ref 1 8 (luma_off off2) avail2 wd2 ht cls2 (around_next 1 b p strd wd1 wd2 ht trow2 top_right2 bot_left2) r c \<and>
    pu1_src b2 (p + r1 * strd + c1) =
      sao_edge_ref 1 8 (luma_off off1) avail1 wd1 ht cls1 (around 1 b p strd wd1 ht (pu1_src_top_left b) top_right1 bot_left1) r1 c1"
proof
  note D = sao_blockD [OF blk(1)]
  show "pu1_src b2 (p + wd1 + r * strd + c) =
      sao_edge_ref 1 8 (luma_off off2) avail2 wd2 ht cls2 (around_next 1 b p strd wd1 wd2 ht trow2 top_right2 bot_left2) r c"
    unfolding b2_def b1_def apf_sao_edge(1) [OF cls(1)] apf_sao_edge(1) [OF cls(2)] by (rule sao_edge_next [OF cls blk rc])
  have "p + r1 * strd + c1 \<noteq> p + wd1 + i * strd + j" if "0 \<le> j" "j < wd2" for i j
    using block_inj [of strd strd c1 "wd1 + j" p r1 i] that rc1 D(8,9) blk(3) by (auto simp: algebra_simps)
  then have "pu1_src b2 (p + r1 * strd + c1) = pu1_src (next_block b1 trow2) (p + r1 * strd + c1)"
    unfolding b2_def apf_sao_edge(1) [OF cls(2)] by (intro sao_edge_outside [OF cls(2) blk(2)])
  then show "pu1_src b2 (p + r1 * strd + c1) =
      sao_edge_ref 1 8 (luma_off off1) avail1 wd1 ht cls1 (around 1 b p strd wd1 ht (pu1_src_top_left b) top_right1 bot_left1) r1 c1"
    unfolding b1_def apf_sao_edge(1) [OF cls(1)] using sao_edge_result [OF cls(1) blk(1) rc1] by (simp add: next_block_def)
qed

lemma sao_blocks_independent_witness:
  "let b = \<lparr>pu1_src = (\<lambda>a. word_of_int (a * a)), pu1_src_left = (\<lambda>a. word_of_int (7 * a)), pu1_src_top = (\<lambda>_. 9), pu1_src_top_left = (\<lambda>_. 200)\<rparr>;
       av1 = [False, True, True, False, False, False, False, False]; av2 = [True, False, True, False, True, False, False, False];
       off = (\<lambda>i. [0, 3, 1, - 1, - 3] ! i);
       b1 = apf_sao_luma 0 b 0 20 (\<lambda>_. 0) (\<lambda>_. 0) av1 off 8 4;
       b2 = apf_sao_luma 2 (next_block b1 (\<lambda>_. 5)) (0 + 8) 20 (\<lambda>_. 0) (\<lambda>_. 0) av2 off 8 4
   in pu1_src b2 (0 + 8 + 1 * 20 + 0) = sao_edge_ref 1 8 (luma_off off) av2 8 4 2 (around_next 1 b 0 20 8 8 4 (\<lambda>_. 5) (\<lambda>_. 0) (\<lambda>_. 0)) 1 0 \<and>
      pu1_src b2 (0 + 2 * 20 + 7) = sao_edge_ref 1 8 (luma_off off) av1 8 4 0 (around 1 b 0 20 8 4 (pu1_src_top_left b) (\<lambda>_. 0) (\<lambda>_. 0)) 2 7"
  unfolding Let_def
  by (rule sao_blocks_independent) (simp_all add: sao_block_def)

section \<open>Band offset\<close>

lemma band_table_nth:
  assumes "k < 32"
  shows "band_table pos ! k = (let d = (int k - pos) mod 32 in if d < 4 then nat d + 1 else 0)"
proof -
  have u: "[0 ..< 4] = [0, 1, 2, 3]" by (simp add: upt_rec)
  have n: "nat ((i + pos) mod 32) < 32" for i by simp
  have e: "nat ((i + pos) mod 32) = k \<longleftrightarrow> (int k - pos) mod 32 = i" if "0 \<le> i" "i < 4" for i
  proof -
    have "nat ((i + pos) mod 32) = k \<longleftrightarrow> (i + pos) mod 32 = int k" by (simp add: nat_eq_iff)
    moreover have "(i + pos) mod 32 = K \<longleftrightarrow> (K - pos) mod 32 = i" if "0 \<le> K" "K < 32" for K
    proof
      assume "(i + pos) mod 32 = K"
      then have "(K - pos) mod 32 = ((i + pos) mod 32 - pos) mod 32" by simp
      also have "\<dots> = i" unfolding mod_diff_left_eq using \<open>0 \<le> i\<close> \<open>i < 4\<close> by simp
      finally show "(K - pos) mod 32 = i" .
    next
      assume "(K - pos) mod 32 = i"
      then have "(i + pos) mod 32 = ((K - pos) mod 32 + pos) mod 32" by simp
      also have "\<dots> = K" unfolding mod_add_left_eq using that by simp
      finally show "(i + pos) mod 32 = K" .
    qed
    moreover have "0 \<le> int k" "int k < 32" using assms by simp_all
    ultimately show ?thesis by blast
  qed
  have "0 \<le> (int k - pos) mod 32" by simp
  then have d: "(int k - pos) mod 32 < 4 \<Longrightarrow> (int k - pos) mod 32 = 0 \<or> (int k - pos) mod 32 = 1 \<or> (int k - pos) mod 32 = 2 \<or> (int k - pos) mod 32 = 3"
    by linarith
  show ?thesis
    unfolding band_table_def u using assms e [of 0] e [of 1] e [of 2] e [of 3] d
    by (auto simp: nth_list_update n Let_def)
qed

lemma sao_band_result:
  fixes b :: "'w::len word sao_bufs" and step p strd wd ht r c :: int
  assumes "wd \<le> strd" "0 \<le> r" "r < ht" "0 \<le> c" "c < wd"
  shows "pu1_src (sao_band step bd lookup b p strd pos off wd ht) (p + r * strd + c) =
    (let v = uint (pu1_src b (p + r * strd + c))
     in word_of_int (CLIP3 (v + sint (off (c mod step) (lookup (band_table (pos (c mod step))) (v div 2 ^ (bd - 5))))) 0 (2 ^ (bd - 5 + 5) - 1)))"
proof -
  have "pu1_src (sao_band step bd lookup b p strd pos off wd ht) =
    update_block ht wd (\<lambda>r c. p + r * strd + c) (\<lambda>r c. p + r * strd + c)
      (\<lambda>r c v. word_of_int (CLIP3 (uint v + sint (off (c mod step) (lookup (band_table (pos (c mod step))) (uint v div 2 ^ (bd - 5))))) 0 (2 ^ (bd - 5 + 5) - 1)))
      (pu1_src b)"
    by (simp add: sao_band_def update_block_def Let_def)
  then show ?thesis by (simp only: update_block_in [OF in_place_block [OF assms(1)] assms(2-)] Let_def)
qed

end
