(* ===== verification/Padding.thy ===== *)
theory Padding
  imports Samples
begin

text \<open>
  The border of a reference picture, \<^verbatim>\<open>common/ihevc_padding.c\<close> and \<^verbatim>\<open>common/ihevc_hbd_padding.c\<close>. The samples at
  the edges of the picture are repeated around it, so that motion vectors may point outside. The
  routines for two interleaved chroma components move pairs of samples (\<^verbatim>\<open>UWORD16\<close> for 8-bit,
  \<^verbatim>\<open>UWORD32\<close> for more bits): \<open>step\<close> is the number of samples that move together.

  \<open>pad_extends\<close> says what the calls at the end of a picture achieve: a sample around the picture has the
  value of the nearest sample in it.
\<close>

section \<open>Routines\<close>

text \<open>\<^verbatim>\<open>memset\<close>, \<^verbatim>\<open>ihevc_memset_16bit\<close> and their loops: \<open>n\<close> copies of the element at \<open>src\<close>, read before.\<close>

definition fill :: "int \<Rightarrow> int \<Rightarrow> int \<Rightarrow> int \<Rightarrow> (int \<Rightarrow> 'v) \<Rightarrow> (int \<Rightarrow> 'v)" where
  "fill step dst src n m = store_block n step (\<lambda>col k. dst + step * col + k) (\<lambda>col k. m (src + k)) m"

definition copy :: "int \<Rightarrow> int \<Rightarrow> int \<Rightarrow> (int \<Rightarrow> 'v) \<Rightarrow> (int \<Rightarrow> 'v)" where
  "copy dst src n m = for_to n (\<lambda>k t. t(dst + k := m (src + k))) m"

text \<open>The element is read again in each round.\<close>

definition fill_live :: "int \<Rightarrow> int \<Rightarrow> int \<Rightarrow> (int \<Rightarrow> 'v) \<Rightarrow> (int \<Rightarrow> 'v)" where
  "fill_live dst src n m = for_to n (\<lambda>col t. t(dst + col := t src)) m"

definition pad_left :: "int \<Rightarrow> int \<Rightarrow> int \<Rightarrow> int \<Rightarrow> int \<Rightarrow> (int \<Rightarrow> 'v) \<Rightarrow> (int \<Rightarrow> 'v)" where
  "pad_left step src src_strd ht pad_size m = for_to ht (\<lambda>row m.
     fill step (src + step * (row * (src_strd div step)) - step * (pad_size div step))
       (src + step * (row * (src_strd div step))) (pad_size div step) m) m"

definition pad_right :: "int \<Rightarrow> int \<Rightarrow> int \<Rightarrow> int \<Rightarrow> int \<Rightarrow> (int \<Rightarrow> 'v) \<Rightarrow> (int \<Rightarrow> 'v)" where
  "pad_right step src src_strd ht pad_size m = for_to ht (\<lambda>row m.
     fill step (src + step * (row * (src_strd div step)))
       (src + step * (row * (src_strd div step)) - step) (pad_size div step) m) m"

definition pad_horz :: "int \<Rightarrow> int \<Rightarrow> int \<Rightarrow> int \<Rightarrow> int \<Rightarrow> int \<Rightarrow> (int \<Rightarrow> 'v) \<Rightarrow> (int \<Rightarrow> 'v)" where
  "pad_horz step src src_strd ht wd pad_size m = for_to ht (\<lambda>row m.
     let p = src + step * (row * (src_strd div step)); wd = step * (wd div step);
         m = fill step (p - step * (pad_size div step)) p (pad_size div step) m
     in fill step (p + wd) (p + wd - step) (pad_size div step) m) m"

definition pad_top :: "int \<Rightarrow> int \<Rightarrow> int \<Rightarrow> int \<Rightarrow> (int \<Rightarrow> 'v) \<Rightarrow> (int \<Rightarrow> 'v)" where
  "pad_top src src_strd wd pad_size m = for_to pad_size (\<lambda>k. copy (src - (k + 1) * src_strd) src wd) m"

definition pad_bottom :: "int \<Rightarrow> int \<Rightarrow> int \<Rightarrow> int \<Rightarrow> (int \<Rightarrow> 'v) \<Rightarrow> (int \<Rightarrow> 'v)" where
  "pad_bottom src src_strd wd pad_size m = for_to pad_size (\<lambda>k. copy (src + k * src_strd) (src - src_strd) wd) m"

definition pad_vert :: "int \<Rightarrow> int \<Rightarrow> int \<Rightarrow> int \<Rightarrow> int \<Rightarrow> (int \<Rightarrow> 'v) \<Rightarrow> (int \<Rightarrow> 'v)" where
  "pad_vert src src_strd ht wd pad_size m = for_to pad_size (\<lambda>k m.
     copy (src + (ht + k) * src_strd) (src + (ht - 1) * src_strd) wd (copy (src - (k + 1) * src_strd) src wd m)) m"

definition ihevc_pad_left_luma :: "int \<Rightarrow> int \<Rightarrow> int \<Rightarrow> int \<Rightarrow> mem8 \<Rightarrow> mem8" where
  "ihevc_pad_left_luma = pad_left 1"

definition ihevc_pad_left_chroma :: "int \<Rightarrow> int \<Rightarrow> int \<Rightarrow> int \<Rightarrow> mem8 \<Rightarrow> mem8" where
  "ihevc_pad_left_chroma = pad_left 2"

definition ihevc_pad_right_luma :: "int \<Rightarrow> int \<Rightarrow> int \<Rightarrow> int \<Rightarrow> mem8 \<Rightarrow> mem8" where
  "ihevc_pad_right_luma = pad_right 1"

definition ihevc_pad_right_chroma :: "int \<Rightarrow> int \<Rightarrow> int \<Rightarrow> int \<Rightarrow> mem8 \<Rightarrow> mem8" where
  "ihevc_pad_right_chroma = pad_right 2"

definition ihevc_pad_horz_luma :: "int \<Rightarrow> int \<Rightarrow> int \<Rightarrow> int \<Rightarrow> int \<Rightarrow> mem8 \<Rightarrow> mem8" where
  "ihevc_pad_horz_luma = pad_horz 1"

definition ihevc_pad_horz_chroma :: "int \<Rightarrow> int \<Rightarrow> int \<Rightarrow> int \<Rightarrow> int \<Rightarrow> mem8 \<Rightarrow> mem8" where
  "ihevc_pad_horz_chroma = pad_horz 2"

definition ihevc_pad_top :: "int \<Rightarrow> int \<Rightarrow> int \<Rightarrow> int \<Rightarrow> mem8 \<Rightarrow> mem8" where
  "ihevc_pad_top = pad_top"

definition ihevc_pad_bottom :: "int \<Rightarrow> int \<Rightarrow> int \<Rightarrow> int \<Rightarrow> mem8 \<Rightarrow> mem8" where
  "ihevc_pad_bottom = pad_bottom"

definition ihevc_pad_vert :: "int \<Rightarrow> int \<Rightarrow> int \<Rightarrow> int \<Rightarrow> int \<Rightarrow> mem8 \<Rightarrow> mem8" where
  "ihevc_pad_vert = pad_vert"

text \<open>The routines for more bits.\<close>

type_synonym umem16 = "int \<Rightarrow> 16 word"

definition ihevc_hbd_pad_left_luma :: "int \<Rightarrow> int \<Rightarrow> int \<Rightarrow> int \<Rightarrow> umem16 \<Rightarrow> umem16" where
  "ihevc_hbd_pad_left_luma src src_strd ht pad_size m =
     for_to ht (\<lambda>row. fill_live (src + row * src_strd - pad_size) (src + row * src_strd) pad_size) m"

definition ihevc_hbd_pad_left_chroma :: "int \<Rightarrow> int \<Rightarrow> int \<Rightarrow> int \<Rightarrow> umem16 \<Rightarrow> umem16" where
  "ihevc_hbd_pad_left_chroma = pad_left 2"

definition ihevc_hbd_pad_right_luma :: "int \<Rightarrow> int \<Rightarrow> int \<Rightarrow> int \<Rightarrow> umem16 \<Rightarrow> umem16" where
  "ihevc_hbd_pad_right_luma src src_strd ht pad_size m =
     for_to ht (\<lambda>row. fill_live (src + row * src_strd) (src + row * src_strd - 1) pad_size) m"

definition ihevc_hbd_pad_right_chroma :: "int \<Rightarrow> int \<Rightarrow> int \<Rightarrow> int \<Rightarrow> umem16 \<Rightarrow> umem16" where
  "ihevc_hbd_pad_right_chroma = pad_right 2"

definition ihevc_hbd_pad_horz_luma :: "int \<Rightarrow> int \<Rightarrow> int \<Rightarrow> int \<Rightarrow> int \<Rightarrow> umem16 \<Rightarrow> umem16" where
  "ihevc_hbd_pad_horz_luma src src_strd ht wd pad_size m = for_to ht (\<lambda>row.
     let p = src + row * src_strd in for_to pad_size (\<lambda>col m.
       let m = m(p + (col - pad_size) := m p) in m(p + (col + wd) := m (p + wd - 1)))) m"

definition ihevc_hbd_pad_horz_chroma :: "int \<Rightarrow> int \<Rightarrow> int \<Rightarrow> int \<Rightarrow> int \<Rightarrow> umem16 \<Rightarrow> umem16" where
  "ihevc_hbd_pad_horz_chroma = pad_horz 2"

definition ihevc_hbd_pad_top :: "int \<Rightarrow> int \<Rightarrow> int \<Rightarrow> int \<Rightarrow> umem16 \<Rightarrow> umem16" where
  "ihevc_hbd_pad_top = pad_top"

definition ihevc_hbd_pad_bottom :: "int \<Rightarrow> int \<Rightarrow> int \<Rightarrow> int \<Rightarrow> umem16 \<Rightarrow> umem16" where
  "ihevc_hbd_pad_bottom = pad_bottom"

definition ihevc_hbd_pad_vert :: "int \<Rightarrow> int \<Rightarrow> int \<Rightarrow> int \<Rightarrow> int \<Rightarrow> umem16 \<Rightarrow> umem16" where
  "ihevc_hbd_pad_vert = pad_vert"


section \<open>Rows\<close>

text \<open>Column \<open>x\<close> of a buffer whose rows start \<open>L\<close> samples before the picture.\<close>

definition col_in :: "int \<Rightarrow> int \<Rightarrow> int \<Rightarrow> bool" where
  "col_in L strd x \<longleftrightarrow> - L \<le> x \<and> x < strd - L"

lemma at_inj:
  assumes "col_in L strd x" "col_in L strd x'" "p + y * strd + x = p + y' * strd + x'"
  shows "y = y' \<and> x = x'"
  using block_inj [of strd strd "x + L" "x' + L" "p - L" y y'] assms by (auto simp: col_in_def)

lemma fill_at:
  assumes "0 < step" "0 \<le> n"
  shows "fill step dst src n m a = (if dst \<le> a \<and> a < dst + step * n then m (src + (a - dst) mod step) else m a)"
proof (cases "dst \<le> a \<and> a < dst + step * n")
  case True
  let ?c = "(a - dst) div step" and ?k = "(a - dst) mod step"
  have a: "dst + step * ?c + ?k = a" by (simp add: mult.commute)
  have k: "0 \<le> ?k" "?k < step" using assms(1) by simp_all
  have "step * ?c < step * n" using True k a by linarith
  then have c: "0 \<le> ?c" "?c < n" using True assms(1) by (simp_all add: pos_imp_zdiv_nonneg_iff)
  have "store_block n step (\<lambda>col k. dst + step * col + k) (\<lambda>col k. m (src + k)) m (dst + step * ?c + ?k) = m (src + ?k)"
  proof (rule store_block_in [where addr = "\<lambda>col k. dst + step * col + k"])
    fix r c r' c' assume "0 \<le> c" "c < step" "0 \<le> c'" "c' < step" "dst + step * r + c = dst + step * r' + c'"
    then show "r = r' \<and> c = c'" using block_inj [of step step c c' dst r r'] by (simp add: mult.commute)
  qed (use c k in auto)
  then show ?thesis using True by (simp only: a fill_def if_True simp_thms)
next
  case False
  have "store_block n step (\<lambda>col k. dst + step * col + k) (\<lambda>col k. m (src + k)) m a = m a"
  proof (rule store_block_out)
    fix r c assume r: "0 \<le> r" "r < n" "0 \<le> c" "c < step"
    then have "step * r + c < step * n" using mult_left_mono [of "r + 1" n step] assms(1) by (simp add: algebra_simps)
    moreover have "0 \<le> step * r" using r assms(1) by simp
    ultimately show "dst + step * r + c \<noteq> a" using False r by linarith
  qed
  then show ?thesis unfolding fill_def if_not_P [OF False] .
qed

lemma copy_at:
  assumes "0 \<le> n"
  shows "copy dst src n m a = (if dst \<le> a \<and> a < dst + n then m (src + (a - dst)) else m a)"
proof (cases "dst \<le> a \<and> a < dst + n")
  case True
  have "for_to n (\<lambda>k t. t(dst + k := m (src + k))) m (dst + (a - dst)) = m (src + (a - dst))"
    by (rule for_to_stores_in) (use True in auto)
  then show ?thesis using True by (simp add: copy_def)
next
  case False
  then show ?thesis unfolding copy_def by (subst for_to_stores_out) auto
qed


text \<open>A loop over rows that maps each row by \<open>G\<close>, which looks at the columns of the row only.\<close>

lemma rows_map:
  assumes cong: "\<And>r r' x. \<forall>x. col_in L strd x \<longrightarrow> r x = r' x \<Longrightarrow> col_in L strd x \<Longrightarrow> G r x = G r' x"
    and step: "\<And>k t y x. col_in L strd x \<Longrightarrow> 0 \<le> k \<Longrightarrow> k < ht \<Longrightarrow>
      body k t (p + y * strd + x) = (if y = k then G (\<lambda>x. t (p + k * strd + x)) x else t (p + y * strd + x))"
    and ht: "0 \<le> ht" and x: "col_in L strd x"
  shows "for_to ht body m (p + y * strd + x) =
    (if 0 \<le> y \<and> y < ht then G (\<lambda>x. m (p + y * strd + x)) x else m (p + y * strd + x))"
proof -
  have "\<forall>y x. col_in L strd x \<longrightarrow> for_to ht body m (p + y * strd + x) =
    (if 0 \<le> y \<and> y < ht then G (\<lambda>x. m (p + y * strd + x)) x else m (p + y * strd + x))"
  proof (rule for_to_inv [where P = "\<lambda>k t. \<forall>y x. col_in L strd x \<longrightarrow> t (p + y * strd + x) =
      (if 0 \<le> y \<and> y < k then G (\<lambda>x. m (p + y * strd + x)) x else m (p + y * strd + x))", OF ht])
    fix k t assume k: "0 \<le> k" "k < ht" and IH: "\<forall>y x. col_in L strd x \<longrightarrow> t (p + y * strd + x) =
      (if 0 \<le> y \<and> y < k then G (\<lambda>x. m (p + y * strd + x)) x else m (p + y * strd + x))"
    have "G (\<lambda>x. t (p + k * strd + x)) x = G (\<lambda>x. m (p + k * strd + x)) x" if "col_in L strd x" for x
      by (rule cong [OF _ that]) (simp add: IH)
    then show "\<forall>y x. col_in L strd x \<longrightarrow> body k t (p + y * strd + x) =
      (if 0 \<le> y \<and> y < k + 1 then G (\<lambda>x. m (p + y * strd + x)) x else m (p + y * strd + x))"
      using step [OF _ k] IH k(1) by auto
  qed auto
  then show ?thesis using x by blast
qed

lemma fill_row:
  assumes st: "0 < step" "0 \<le> n" and x: "col_in L strd x"
    and d: "- L \<le> d" "d + step * n \<le> strd - L"
  shows "fill step (p + k * strd + d) (p + k * strd + s) n t (p + y * strd + x) =
    (if y = k then (if d \<le> x \<and> x < d + step * n then t (p + k * strd + (s + (x - d) mod step)) else t (p + k * strd + x))
     else t (p + y * strd + x))"
proof -
  let ?a = "p + y * strd + x" and ?d = "p + k * strd + d"
  have iff: "?d \<le> ?a \<and> ?a < ?d + step * n \<longleftrightarrow> y = k \<and> d \<le> x \<and> x < d + step * n"
  proof
    assume a: "?d \<le> ?a \<and> ?a < ?d + step * n"
    let ?x = "?a - (p + k * strd)"
    have "col_in L strd ?x" using a d by (auto simp: col_in_def)
    then have "y = k \<and> x = ?x" using at_inj [OF x, of ?x p y k] by simp
    then show "y = k \<and> d \<le> x \<and> x < d + step * n" using a by simp
  qed auto
  show ?thesis unfolding fill_at [OF st] iff by (auto simp: add.assoc)
qed

lemma copy_row:
  assumes n: "0 \<le> n" and x: "col_in L strd x" and d: "- L \<le> d" "d + n \<le> strd - L"
  shows "copy (p + k * strd + d) (p + l * strd + d) n t (p + y * strd + x) =
    (if y = k \<and> d \<le> x \<and> x < d + n then t (p + l * strd + x) else t (p + y * strd + x))"
proof -
  let ?a = "p + y * strd + x" and ?d = "p + k * strd + d"
  have iff: "?d \<le> ?a \<and> ?a < ?d + n \<longleftrightarrow> y = k \<and> d \<le> x \<and> x < d + n"
  proof
    assume a: "?d \<le> ?a \<and> ?a < ?d + n"
    let ?x = "?a - (p + k * strd)"
    have "col_in L strd ?x" using a d by (auto simp: col_in_def)
    then have "y = k \<and> x = ?x" using at_inj [OF x, of ?x p y k] by simp
    then show "y = k \<and> d \<le> x \<and> x < d + n" using a by simp
  qed auto
  show ?thesis unfolding copy_at [OF n] iff by (auto simp: algebra_simps)
qed

text \<open>What the horizontal routines do to a row.\<close>

definition left_row :: "int \<Rightarrow> int \<Rightarrow> (int \<Rightarrow> 'v) \<Rightarrow> (int \<Rightarrow> 'v)" where
  "left_row step pad r x = (if - pad \<le> x \<and> x < 0 then r (x mod step) else r x)"

definition right_row :: "int \<Rightarrow> int \<Rightarrow> int \<Rightarrow> (int \<Rightarrow> 'v) \<Rightarrow> (int \<Rightarrow> 'v)" where
  "right_row step wd pad r x = (if wd \<le> x \<and> x < wd + pad then r (wd - step + (x - wd) mod step) else r x)"

text \<open>The geometry of a plane: room for the border, and elements of \<open>step\<close> samples.\<close>

definition plane_ok :: "int \<Rightarrow> int \<Rightarrow> int \<Rightarrow> int \<Rightarrow> int \<Rightarrow> int \<Rightarrow> bool" where
  "plane_ok step L strd wd padl padr \<longleftrightarrow> 0 < step \<and> step \<le> wd \<and> 0 \<le> padl \<and> padl \<le> L \<and> 0 \<le> padr \<and> wd + padr \<le> strd - L \<and>
     step dvd strd \<and> step dvd wd \<and> step dvd padl \<and> step dvd padr"

lemma plane_okD:
  assumes "plane_ok step L strd wd padl padr"
  shows "0 < step" "step \<le> wd" "0 \<le> padl" "padl \<le> L" "0 \<le> padr" "wd + padr \<le> strd - L"
    "step * (strd div step) = strd" "step * (wd div step) = wd" "step * (padl div step) = padl" "step * (padr div step) = padr"
    "0 \<le> padl div step" "0 \<le> padr div step" "step * (k * (strd div step)) = k * strd"
  using assms by (auto simp: plane_ok_def pos_imp_zdiv_nonneg_iff dvd_mult_div_cancel mult.left_commute [of step])

lemma row_cong:
  assumes "plane_ok step L strd wd padl padr" "\<forall>x. col_in L strd x \<longrightarrow> r x = r' x" "col_in L strd x"
  shows "left_row step padl r x = left_row step padl r' x" "right_row step wd padr r x = right_row step wd padr r' x"
proof -
  note P = plane_okD [OF assms(1)]
  have m: "0 \<le> z mod step" "z mod step < step" for z using P(1) by simp_all
  have "col_in L strd (z mod step)" for z using m [of z] P(2-6) by (simp add: col_in_def)
  moreover have "col_in L strd (wd - step + z mod step)" for z using m [of z] P(2-6) by (simp add: col_in_def)
  ultimately show "left_row step padl r x = left_row step padl r' x" "right_row step wd padr r x = right_row step wd padr r' x"
    using assms(2,3) by (simp_all add: left_row_def right_row_def)
qed

lemma fill_left_row:
  assumes "plane_ok step L strd wd padl padr" "col_in L strd x"
  shows "fill step (p + k * strd - padl) (p + k * strd) (padl div step) t (p + y * strd + x) =
    (if y = k then left_row step padl (\<lambda>x. t (p + k * strd + x)) x else t (p + y * strd + x))"
proof -
  note P = plane_okD [OF assms(1)]
  have d: "- L \<le> - padl" "- padl + step * (padl div step) \<le> strd - L" using P(1-6,9) by linarith+
  have "(x + padl) mod step = x mod step" using assms(1) by (simp add: plane_ok_def mod_add_right_eq dvd_imp_mod_0 mod_add_eq [symmetric])
  then show ?thesis
    using fill_row [OF P(1) P(11) assms(2) d, where k = k and t = t and y = y and p = p and s = 0] by (simp add: left_row_def P(9))
qed

lemma fill_right_row:
  assumes "plane_ok step L strd wd padl padr" "col_in L strd x"
  shows "fill step (p + k * strd + wd) (p + k * strd + wd - step) (padr div step) t (p + y * strd + x) =
    (if y = k then right_row step wd padr (\<lambda>x. t (p + k * strd + x)) x else t (p + y * strd + x))"
proof -
  note P = plane_okD [OF assms(1)]
  have d: "- L \<le> wd" "wd + step * (padr div step) \<le> strd - L" using P(1-6,10) by linarith+
  show ?thesis
    using fill_row [OF P(1) P(12) assms(2) d, where k = k and t = t and y = y and p = p and s = "wd - step"]
    by (simp add: right_row_def P(10) algebra_simps)
qed

lemma pad_left_rows:
  assumes ok: "plane_ok step L strd wd padl padr" and ht: "0 \<le> ht" and x: "col_in L strd x"
  shows "pad_left step p strd ht padl m (p + y * strd + x) =
    (if 0 \<le> y \<and> y < ht then left_row step padl (\<lambda>x. m (p + y * strd + x)) x else m (p + y * strd + x))"
  unfolding pad_left_def plane_okD(9,13) [OF ok]
  by (rule rows_map [OF _ fill_left_row [OF ok] ht x]) (rule row_cong(1) [OF ok])

lemma pad_right_rows:
  assumes ok: "plane_ok step L strd wd padl padr" and ht: "0 \<le> ht" and x: "col_in L strd x"
  shows "pad_right step (p + wd) strd ht padr m (p + y * strd + x) =
    (if 0 \<le> y \<and> y < ht then right_row step wd padr (\<lambda>x. m (p + y * strd + x)) x else m (p + y * strd + x))"
proof -
  have e: "p + wd + k * strd = p + k * strd + wd" for k by simp
  show ?thesis
    unfolding pad_right_def plane_okD(10,13) [OF ok] e
    by (rule rows_map [OF _ fill_right_row [OF ok] ht x]) (rule row_cong(2) [OF ok])
qed


lemma pad_horz_rows:
  assumes ok: "plane_ok step L strd wd padl padl" and ht: "0 \<le> ht" and x: "col_in L strd x"
  shows "pad_horz step p strd ht wd padl m (p + y * strd + x) =
    (if 0 \<le> y \<and> y < ht then right_row step wd padl (left_row step padl (\<lambda>x. m (p + y * strd + x))) x
     else m (p + y * strd + x))"
  unfolding pad_horz_def plane_okD(8,9,13) [OF ok] Let_def
proof (rule rows_map [OF _ _ ht x])
  fix r r' :: "int \<Rightarrow> 'a" and x assume r: "\<forall>x. col_in L strd x \<longrightarrow> r x = r' x" and x: "col_in L strd x"
  show "right_row step wd padl (left_row step padl r) x = right_row step wd padl (left_row step padl r') x"
    by (intro row_cong(2) [OF ok _ x] allI impI) (rule row_cong(1) [OF ok r])
next
  fix k t y x assume x: "col_in L strd x"
  let ?t = "fill step (p + k * strd - padl) (p + k * strd) (padl div step) t"
  have "right_row step wd padl (\<lambda>x. ?t (p + k * strd + x)) x = right_row step wd padl (left_row step padl (\<lambda>x. t (p + k * strd + x))) x"
    by (rule row_cong(2) [OF ok _ x]) (simp add: fill_left_row [OF ok])
  then show "fill step (p + k * strd + wd) (p + k * strd + wd - step) (padl div step) ?t (p + y * strd + x) =
    (if y = k then right_row step wd padl (left_row step padl (\<lambda>x. t (p + k * strd + x))) x else t (p + y * strd + x))"
    unfolding fill_right_row [OF ok x] fill_left_row [OF ok x, where k = k and y = y] by (cases "y = k") simp_all
qed

text \<open>The vertical routines copy the first and the last row.\<close>

lemma copy_rows:
  assumes n: "0 \<le> n" and x: "col_in L strd x" and d: "- L \<le> d" "d + n \<le> strd - L" and pad: "0 \<le> pad"
    and l: "\<And>k. 0 \<le> k \<Longrightarrow> k < pad \<Longrightarrow> f k \<noteq> l"
  shows "for_to pad (\<lambda>k. copy (p + f k * strd + d) (p + l * strd + d) n) m (p + y * strd + x) =
    (if (\<exists>k. 0 \<le> k \<and> k < pad \<and> y = f k) \<and> d \<le> x \<and> x < d + n then m (p + l * strd + x) else m (p + y * strd + x))"
proof -
  have "\<forall>y x. col_in L strd x \<longrightarrow> for_to pad (\<lambda>k. copy (p + f k * strd + d) (p + l * strd + d) n) m (p + y * strd + x) =
    (if (\<exists>k. 0 \<le> k \<and> k < pad \<and> y = f k) \<and> d \<le> x \<and> x < d + n then m (p + l * strd + x) else m (p + y * strd + x))"
  proof (rule for_to_inv [where P = "\<lambda>j t. \<forall>y x. col_in L strd x \<longrightarrow> t (p + y * strd + x) =
    (if (\<exists>k. 0 \<le> k \<and> k < j \<and> y = f k) \<and> d \<le> x \<and> x < d + n then m (p + l * strd + x) else m (p + y * strd + x))", OF pad])
    fix j t assume j: "0 \<le> j" "j < pad" and IH: "\<forall>y x. col_in L strd x \<longrightarrow> t (p + y * strd + x) =
      (if (\<exists>k. 0 \<le> k \<and> k < j \<and> y = f k) \<and> d \<le> x \<and> x < d + n then m (p + l * strd + x) else m (p + y * strd + x))"
    have "\<not> (\<exists>k. 0 \<le> k \<and> k < j \<and> l = f k)" using l j by fastforce
    then have lrow: "t (p + l * strd + x) = m (p + l * strd + x)" if "col_in L strd x" for x using IH that by simp
    have ex: "(\<exists>k. 0 \<le> k \<and> k < j + 1 \<and> y = f k) \<longleftrightarrow> y = f j \<or> (\<exists>k. 0 \<le> k \<and> k < j \<and> y = f k)" for y
      using j(1) by (metis add.commute zless_add1_eq add_strict_increasing zle_add1_eq_le zless_add1_eq)
    show "\<forall>y x. col_in L strd x \<longrightarrow> copy (p + f j * strd + d) (p + l * strd + d) n t (p + y * strd + x) =
      (if (\<exists>k. 0 \<le> k \<and> k < j + 1 \<and> y = f k) \<and> d \<le> x \<and> x < d + n then m (p + l * strd + x) else m (p + y * strd + x))"
    proof (intro allI impI)
      fix y x assume x: "col_in L strd x"
      show "copy (p + f j * strd + d) (p + l * strd + d) n t (p + y * strd + x) =
        (if (\<exists>k. 0 \<le> k \<and> k < j + 1 \<and> y = f k) \<and> d \<le> x \<and> x < d + n then m (p + l * strd + x) else m (p + y * strd + x))"
        unfolding ex copy_row [OF n x d] lrow [OF x] using IH x by auto
    qed
  qed auto
  then show ?thesis using x by blast
qed

lemma pad_top_rows:
  assumes n: "0 \<le> n" and x: "col_in L strd x" and d: "- L \<le> d" "d + n \<le> strd - L" and pad: "0 \<le> pad"
  shows "pad_top (p + d) strd n pad m (p + y * strd + x) =
    (if - pad \<le> y \<and> y < 0 \<and> d \<le> x \<and> x < d + n then m (p + x) else m (p + y * strd + x))"
proof -
  have e: "p + d - (k + 1) * strd = p + (- k - 1) * strd + d" for k by (simp add: algebra_simps)
  have ex: "(\<exists>k. 0 \<le> k \<and> k < pad \<and> y = - k - 1) \<longleftrightarrow> - pad \<le> y \<and> y < 0" by (auto intro: exI [of _ "- y - 1"])
  show ?thesis
    using copy_rows [OF n x d pad, of "\<lambda>k. - k - 1" 0 p m y] unfolding pad_top_def e ex by (auto simp: add.assoc)
qed

lemma pad_bottom_rows:
  assumes n: "0 \<le> n" and x: "col_in L strd x" and d: "- L \<le> d" "d + n \<le> strd - L" and pad: "0 \<le> pad"
  shows "pad_bottom (p + ht * strd + d) strd n pad m (p + y * strd + x) =
    (if ht \<le> y \<and> y < ht + pad \<and> d \<le> x \<and> x < d + n then m (p + (ht - 1) * strd + x) else m (p + y * strd + x))"
proof -
  have e: "p + ht * strd + d + k * strd = p + (ht + k) * strd + d" "p + ht * strd + d - strd = p + (ht - 1) * strd + d" for k
    by (simp_all add: algebra_simps)
  have ex: "(\<exists>k. 0 \<le> k \<and> k < pad \<and> y = ht + k) \<longleftrightarrow> ht \<le> y \<and> y < ht + pad" by (auto intro: exI [of _ "y - ht"])
  show ?thesis
    using copy_rows [OF n x d pad, of "\<lambda>k. ht + k" "ht - 1" p m y] unfolding pad_bottom_def e ex by auto
qed


text \<open>The routines that read the sample again in every round do the same, as they never write to it.\<close>

lemma fill_live_fill:
  assumes "0 \<le> n" "\<not> (dst \<le> src \<and> src < dst + n)"
  shows "fill_live dst src n = fill 1 dst src n"
proof
  fix m :: "int \<Rightarrow> 'a"
  have "fill_live dst src n m = (\<lambda>a. if dst \<le> a \<and> a < dst + n then m src else m a)"
    unfolding fill_live_def
  proof (rule for_to_inv [where P = "\<lambda>k t. t = (\<lambda>a. if dst \<le> a \<and> a < dst + k then m src else m a)", OF assms(1)])
    fix k t assume "0 \<le> k" "k < n" and t: "t = (\<lambda>a. if dst \<le> a \<and> a < dst + k then m src else m a)"
    then have "t src = m src" using assms(2) by auto
    then show "t(dst + k := t src) = (\<lambda>a. if dst \<le> a \<and> a < dst + (k + 1) then m src else m a)"
      using \<open>0 \<le> k\<close> unfolding t by (auto simp: fun_eq_iff)
  qed (auto simp: fun_eq_iff)
  then show "fill_live dst src n m = fill 1 dst src n m"
    using fill_at [of 1 n dst src m] assms(1) by (auto simp: fun_eq_iff)
qed

lemma hbd_pad_left: "0 \<le> pad \<Longrightarrow> ihevc_hbd_pad_left_luma src strd ht pad = pad_left 1 src strd ht pad"
  by (simp add: fun_eq_iff ihevc_hbd_pad_left_luma_def pad_left_def fill_live_fill)

lemma hbd_pad_right: "0 \<le> pad \<Longrightarrow> ihevc_hbd_pad_right_luma src strd ht pad = pad_right 1 src strd ht pad"
  by (simp add: fun_eq_iff ihevc_hbd_pad_right_luma_def pad_right_def fill_live_fill)

lemma hbd_pad_horz:
  assumes "0 \<le> pad" "0 < wd"
  shows "ihevc_hbd_pad_horz_luma src strd ht wd pad = pad_horz 1 src strd ht wd pad"
proof -
  have row: "for_to pad (\<lambda>col m. (m(p + (col - pad) := m p))(p + (col + wd) := (m(p + (col - pad) := m p)) (p + wd - 1))) m =
      fill 1 (p + wd) (p + wd - 1) pad (fill 1 (p - pad) p pad m)" for p and m :: umem16
  proof -
    have "for_to pad (\<lambda>col m. (m(p + (col - pad) := m p))(p + (col + wd) := (m(p + (col - pad) := m p)) (p + wd - 1))) m =
        (\<lambda>a. if p - pad \<le> a \<and> a < p - pad + pad then m p else if p + wd \<le> a \<and> a < p + wd + pad then m (p + wd - 1) else m a)"
    proof (rule for_to_inv [where P = "\<lambda>k t. t = (\<lambda>a. if p - pad \<le> a \<and> a < p - pad + k then m p
        else if p + wd \<le> a \<and> a < p + wd + k then m (p + wd - 1) else m a)", OF assms(1)])
      fix k t assume k: "0 \<le> k" "k < pad" and t: "t = (\<lambda>a. if p - pad \<le> a \<and> a < p - pad + k then m p
        else if p + wd \<le> a \<and> a < p + wd + k then m (p + wd - 1) else m a)"
      have "t p = m p" "(t(p + (k - pad) := m p)) (p + wd - 1) = m (p + wd - 1)" using k assms(2) unfolding t by auto
      then show "(t(p + (k - pad) := t p))(p + (k + wd) := (t(p + (k - pad) := t p)) (p + wd - 1)) =
        (\<lambda>a. if p - pad \<le> a \<and> a < p - pad + (k + 1) then m p
          else if p + wd \<le> a \<and> a < p + wd + (k + 1) then m (p + wd - 1) else m a)"
        using k assms(2) unfolding t by (auto simp: fun_eq_iff)
    qed (auto simp: fun_eq_iff)
    moreover have "fill 1 (p + wd) (p + wd - 1) pad (fill 1 (p - pad) p pad m) =
        (\<lambda>a. if p - pad \<le> a \<and> a < p - pad + pad then m p else if p + wd \<le> a \<and> a < p + wd + pad then m (p + wd - 1) else m a)"
      using assms(2) by (simp add: fun_eq_iff fill_at [OF zero_less_one assms(1)])
    ultimately show ?thesis by (rule trans [OF _ sym])
  qed
  show ?thesis
    unfolding ihevc_hbd_pad_horz_luma_def pad_horz_def Let_def div_by_1 mult_1
    by (intro ext for_to_cong) (simp only: ihevc_hbd_pad_horz_luma_def pad_horz_def Let_def div_by_1 mult_1 row)
qed

lemma pad_vert_rows:
  assumes n: "0 \<le> n" and x: "col_in L strd x" and d: "- L \<le> d" "d + n \<le> strd - L" and pad: "0 \<le> pad" and ht: "0 < ht"
  shows "pad_vert (p + d) strd ht n pad m (p + y * strd + x) =
    (if - pad \<le> y \<and> y < ht + pad \<and> d \<le> x \<and> x < d + n then m (p + CLIP3 y 0 (ht - 1) * strd + x) else m (p + y * strd + x))"
proof -
  let ?R = "\<lambda>k y x. if - k \<le> y \<and> y < ht + k \<and> d \<le> x \<and> x < d + n then m (p + CLIP3 y 0 (ht - 1) * strd + x) else m (p + y * strd + x)"
  have e: "p + d + (ht + k) * strd = p + (ht + k) * strd + d" "p + d + (ht - 1) * strd = p + (ht - 1) * strd + d"
    "p + d - (k + 1) * strd = p + (- k - 1) * strd + d" "p + d = p + 0 * strd + d" for k by (simp_all add: algebra_simps)
  have "\<forall>y x. col_in L strd x \<longrightarrow> pad_vert (p + d) strd ht n pad m (p + y * strd + x) = ?R pad y x"
    unfolding pad_vert_def e(1-3)
  proof (rule for_to_inv [where P = "\<lambda>k t. \<forall>y x. col_in L strd x \<longrightarrow> t (p + y * strd + x) = ?R k y x", OF pad])
    fix k t assume k: "0 \<le> k" "k < pad" and IH: "\<forall>y x. col_in L strd x \<longrightarrow> t (p + y * strd + x) = ?R k y x"
    show "\<forall>y x. col_in L strd x \<longrightarrow> copy (p + (ht + k) * strd + d) (p + (ht - 1) * strd + d) n
        (copy (p + (- k - 1) * strd + d) (p + d) n t) (p + y * strd + x) = ?R (k + 1) y x"
    proof (intro allI impI)
      fix y x assume x: "col_in L strd x"
      have C: "- k - 1 \<le> y \<and> y < ht + (k + 1) \<longleftrightarrow> y = - k - 1 \<or> y = ht + k \<or> - k \<le> y \<and> y < ht + k" using ht k(1) by auto
      have "CLIP3 (- k - 1) 0 (ht - 1) = 0" "CLIP3 (ht + k) 0 (ht - 1) = ht - 1" "CLIP3 0 0 (ht - 1) = 0" "CLIP3 (ht - 1) 0 (ht - 1) = ht - 1"
        using ht k(1) by (auto simp: CLIP3_def)
      then show "copy (p + (ht + k) * strd + d) (p + (ht - 1) * strd + d) n
        (copy (p + (- k - 1) * strd + d) (p + d) n t) (p + y * strd + x) = ?R (k + 1) y x"
        unfolding e(4) copy_row [OF n x d] minus_add_distrib using IH [rule_format, OF x] IH [rule_format, OF x, of 0] C ht k(1) by auto
    qed
  qed (auto simp: CLIP3_def)
  then show ?thesis using x by blast
qed

section \<open>The border of a picture\<close>

text \<open>The calls of \<^verbatim>\<open>ihevcd_process\<close>, with the rows of all coding tree blocks together: left and right of
  the picture, then above and below it over the whole padded width. \<open>chroma\<close> picks the routines.\<close>

definition pad_picture :: "bool \<Rightarrow> int \<Rightarrow> int \<Rightarrow> int \<Rightarrow> int \<Rightarrow> int \<Rightarrow> int \<Rightarrow> int \<Rightarrow> int \<Rightarrow> mem8 \<Rightarrow> mem8" where
  "pad_picture chroma p strd ht wd left right up down m = (
     let m = (if chroma then ihevc_pad_left_chroma else ihevc_pad_left_luma) p strd ht left m;
         m = (if chroma then ihevc_pad_right_chroma else ihevc_pad_right_luma) (p + wd) strd ht right m;
         m = ihevc_pad_top (p - left) strd (wd + left + right) up m
     in ihevc_pad_bottom (p + ht * strd - left) strd (wd + left + right) down m)"

definition hbd_pad_picture :: "bool \<Rightarrow> int \<Rightarrow> int \<Rightarrow> int \<Rightarrow> int \<Rightarrow> int \<Rightarrow> int \<Rightarrow> int \<Rightarrow> int \<Rightarrow> umem16 \<Rightarrow> umem16" where
  "hbd_pad_picture chroma p strd ht wd left right up down m = (
     let m = (if chroma then ihevc_hbd_pad_left_chroma else ihevc_hbd_pad_left_luma) p strd ht left m;
         m = (if chroma then ihevc_hbd_pad_right_chroma else ihevc_hbd_pad_right_luma) (p + wd) strd ht right m;
         m = ihevc_hbd_pad_top (p - left) strd (wd + left + right) up m
     in ihevc_hbd_pad_bottom (p + ht * strd - left) strd (wd + left + right) down m)"

text \<open>The nearest column of the picture, of the same component.\<close>

definition nearest_col :: "int \<Rightarrow> int \<Rightarrow> int \<Rightarrow> int" where
  "nearest_col step wd x = step * CLIP3 (x div step) 0 (wd div step - 1) + x mod step"

lemma nearest_col_eq:
  assumes "plane_ok step L strd wd padl padr"
  shows "nearest_col step wd x = (if x < 0 then x mod step else if wd \<le> x then wd - step + (x - wd) mod step else x)"
proof -
  note P = plane_okD [OF assms]
  have w: "wd = step * (wd div step)" using P(8) by simp
  have "x < 0 \<longleftrightarrow> x div step < 0" using P(1) by (simp add: pos_imp_zdiv_neg_iff)
  moreover have "wd \<le> x \<longleftrightarrow> wd div step \<le> x div step"
  proof
    assume "wd \<le> x"
    then show "wd div step \<le> x div step" using P(1) by (rule zdiv_mono1)
  next
    assume "wd div step \<le> x div step"
    then have "step * (wd div step) \<le> step * (x div step)" using P(1) by simp
    moreover have "step * (x div step) \<le> x" using P(1) by (simp add: mult.commute div_mult_mod_eq le_add_same_cancel1 minus_mod_eq_mult_div [symmetric])
    ultimately show "wd \<le> x" using w by linarith
  qed
  moreover have "0 < wd div step" using P(1,2) by (simp add: pos_imp_zdiv_pos_iff)
  moreover have "(x - wd) mod step = x mod step" using assms by (simp add: plane_ok_def mod_diff_eq [symmetric] dvd_imp_mod_0 mod_diff_right_eq)
  moreover have "step * (x div step) + x mod step = x" by simp
  moreover have "step * (wd div step - 1) = wd - step" using P(8) by (simp add: right_diff_distrib)
  ultimately show ?thesis unfolding nearest_col_def CLIP3_def by auto
qed

lemma pad_all_rows:
  assumes ok: "plane_ok step L strd wd L padr" and ht: "0 < ht" and pads: "0 \<le> up" "0 \<le> down"
    and x: "- L \<le> x" "x < wd + padr" and y: "- up \<le> y" "y < ht + down"
  shows "pad_bottom (p + ht * strd - L) strd (wd + L + padr) down (pad_top (p - L) strd (wd + L + padr) up
      (pad_right step (p + wd) strd ht padr (pad_left step p strd ht L m))) (p + y * strd + x) =
    m (p + CLIP3 y 0 (ht - 1) * strd + nearest_col step wd x)"
proof -
  note P = plane_okD [OF ok]
  have c: "col_in L strd x" using x P(6) by (simp add: col_in_def)
  have n: "0 \<le> wd + L + padr" "- L \<le> - L" "- L + (wd + L + padr) \<le> strd - L" using P by linarith+
  have ht0: "0 \<le> ht" using ht by simp
  let ?m = "pad_right step (p + wd) strd ht padr (pad_left step p strd ht L m)"
  have row: "?m (p + k * strd + x) = m (p + k * strd + nearest_col step wd x)" if k: "0 \<le> k" "k < ht" for k
  proof -
    have "?m (p + k * strd + x) = right_row step wd padr (\<lambda>x. pad_left step p strd ht L m (p + k * strd + x)) x"
      unfolding pad_right_rows [OF ok ht0 c] using k by simp
    also have "\<dots> = right_row step wd padr (left_row step L (\<lambda>x. m (p + k * strd + x))) x"
      by (rule row_cong(2) [OF ok _ c]) (use k in \<open>simp add: pad_left_rows [OF ok ht0]\<close>)
    also have "\<dots> = m (p + k * strd + nearest_col step wd x)"
    proof -
      have "0 \<le> wd - step + (x - wd) mod step" using P(1,2) by (simp add: add_nonneg_nonneg)
      then show ?thesis unfolding nearest_col_eq [OF ok] right_row_def left_row_def using x P(1,2) by auto
    qed
    finally show ?thesis .
  qed
  have e: "p + ht * strd - L = p + ht * strd + - L" "p - L = p + - L" by simp_all
  have "pad_bottom (p + ht * strd - L) strd (wd + L + padr) down (pad_top (p - L) strd (wd + L + padr) up ?m) (p + y * strd + x) =
      ?m (p + CLIP3 y 0 (ht - 1) * strd + x)"
    unfolding e pad_bottom_rows [OF n(1) c n(2,3) pads(2)] pad_top_rows [OF n(1) c n(2,3) pads(1)]
    using x y ht P by (auto simp: CLIP3_def)
  moreover have "0 \<le> CLIP3 y 0 (ht - 1)" "CLIP3 y 0 (ht - 1) < ht" using ht by (auto simp: CLIP3_def)
  ultimately show ?thesis using row by simp
qed

text \<open>
  C14: Padding a picture repeats its edge: every sample of the border has the value of the nearest
  sample of the picture (of the same component in a plane of interleaved chroma), and the picture
  itself is unchanged, for 8-bit samples and for more bits.
\<close>

theorem pad_extends:
  assumes "plane_ok (if chroma then 2 else 1) left strd wd left right" "0 < ht" "0 \<le> up" "0 \<le> down"
    and "- left \<le> x" "x < wd + right" "- up \<le> y" "y < ht + down"
  shows "pad_picture chroma p strd ht wd left right up down m (p + y * strd + x) =
      m (p + CLIP3 y 0 (ht - 1) * strd + nearest_col (if chroma then 2 else 1) wd x) \<and>
    hbd_pad_picture chroma p strd ht wd left right up down m' (p + y * strd + x) =
      m' (p + CLIP3 y 0 (ht - 1) * strd + nearest_col (if chroma then 2 else 1) wd x)"
proof -
  note A = pad_all_rows [OF assms]
  have pads: "0 \<le> left" "0 \<le> right" using plane_okD [OF assms(1)] by simp_all
  show ?thesis
    using A [where p = p and m = m] A [where p = p and m = m']
    by (cases chroma) (simp_all add: pad_picture_def hbd_pad_picture_def Let_def ihevc_pad_left_luma_def ihevc_pad_left_chroma_def
      ihevc_pad_right_luma_def ihevc_pad_right_chroma_def ihevc_pad_top_def ihevc_pad_bottom_def ihevc_hbd_pad_left_chroma_def
      ihevc_hbd_pad_right_chroma_def ihevc_hbd_pad_top_def ihevc_hbd_pad_bottom_def hbd_pad_left [OF pads(1)] hbd_pad_right [OF pads(2)])
qed


lemma pad_extends_witness:
  "pad_picture False 0 24 2 4 8 8 1 1 (\<lambda>a. word_of_int a) (- 27) = 0 \<and>
   hbd_pad_picture False 0 24 2 4 8 8 1 1 (\<lambda>a. word_of_int a) (- 27) = 0"
  using pad_extends [of False 8 24 4 8 2 1 1 "- 3" "- 1" 0 "\<lambda>a. word_of_int a" "\<lambda>a. word_of_int a"]
  by (simp add: plane_ok_def nearest_col_def CLIP3_def)

end
