(* ===== verification/Deblk.thy ===== *)
theory Deblk
  imports Samples
begin

text \<open>
  The deblocking filters of one edge segment, \<^verbatim>\<open>common/ihevc_deblk_edge_filter.c\<close> and
  \<^verbatim>\<open>common/ihevc_hbd_deblk_edge_filter.c\<close>, with the tables of \<^verbatim>\<open>common/ihevc_deblk_tables.c\<close>. The routines for
  vertical and horizontal edges differ in the steps across the edge and along it, those for 8-bit
  samples and for more bits in the scale of the thresholds and in the largest sample; each is an
  instance of one definition. The samples of a line are numbered across the edge, the first one after
  it 0, the last one before it -1.

  The filters work in place, return early when nothing can change and leave out the outer samples
  when the threshold is small. \<open>luma_edge_ref\<close> and \<open>chroma_ref\<close> are the same filters without these
  shortcuts, from the samples before the call; they are an intermediate step. The standard is the group of
  definitions whose names start with \<open>std\<close>, which share nothing with the model: \<open>deblk_luma_exact\<close> and
  \<open>deblk_chroma_exact\<close> say that each line is filtered as it states. The assertions of the code on the
  boundary strength and on the filter flags are not part of the model.
\<close>

section \<open>Tables\<close>

definition gai4_ihevc_beta_table :: "int list" where
  "gai4_ihevc_beta_table =
    [0, 0, 0, 0, 0, 0, 0, 0, 0, 0, 0, 0, 0,
     0, 0, 0, 6, 7, 8, 9, 10, 11, 12, 13, 14, 15,
     16, 17, 18, 20, 22, 24, 26, 28, 30, 32, 34, 36, 38,
     40, 42, 44, 46, 48, 50, 52, 54, 56, 58, 60, 62, 64]"

definition gai4_ihevc_tc_table :: "int list" where
  "gai4_ihevc_tc_table =
    [0, 0, 0, 0, 0, 0, 0, 0, 0,
     0, 0, 0, 0, 0, 0, 0, 0, 0,
     1, 1, 1, 1, 1, 1, 1, 1, 1,
     2, 2, 2, 2, 3, 3, 3, 3, 4,
     4, 4, 5, 5, 6, 6, 7, 8, 9,
     10, 11, 13, 14, 16, 18, 20, 22, 24]"

definition gai4_ihevc_qp_table :: "int list" where
  "gai4_ihevc_qp_table =
    [0, 1, 2, 3, 4, 5, 6, 7, 8, 9, 10, 11, 12, 13, 14, 15, 16,
     17, 18, 19, 20, 21, 22, 23, 24, 25, 26, 27, 28, 29, 29, 30, 31, 32,
     33, 33, 34, 34, 35, 35, 36, 36, 37, 37, 38, 39, 40, 41, 42, 43, 44,
     45, 46, 47, 48, 49, 50, 51]"

section \<open>Luma\<close>

definition luma_beta :: "nat \<Rightarrow> int \<Rightarrow> int \<Rightarrow> int \<Rightarrow> int" where
  "luma_beta depth quant_param_p quant_param_q beta_offset_div2 =
     (let qp_luma = (quant_param_p + quant_param_q + 1) div 2;
          beta_indx = CLIP3 (qp_luma + 2 * beta_offset_div2) 0 51
      in gai4_ihevc_beta_table ! nat beta_indx * 2 ^ (depth - 8))"

definition luma_tc :: "nat \<Rightarrow> int \<Rightarrow> int \<Rightarrow> int \<Rightarrow> int \<Rightarrow> int" where
  "luma_tc depth bs quant_param_p quant_param_q tc_offset_div2 =
     (let qp_luma = (quant_param_p + quant_param_q + 1) div 2;
          tc_indx = CLIP3 (qp_luma + 2 * (bs div 2) + 2 * tc_offset_div2) 0 53
      in gai4_ihevc_tc_table ! nat tc_indx * 2 ^ (depth - 8))"

text \<open>The test on the first and on the last line, \<open>s\<close> its samples and \<open>d\<close> its second differences.\<close>

definition d_sam :: "int \<Rightarrow> int \<Rightarrow> int \<Rightarrow> (int \<Rightarrow> int) \<Rightarrow> bool" where
  "d_sam beta tc d s \<longleftrightarrow> 2 * d < beta div 4 \<and> \<bar>s 3 - s 0\<bar> + \<bar>s (- 1) - s (- 4)\<bar> < beta div 8 \<and>
     \<bar>s 0 - s (- 1)\<bar> < (5 * tc + 1) div 2"

text \<open>The filters on the samples of a line: the strong one, and the weak one with its deltas.\<close>

definition strong :: "int \<Rightarrow> (int \<Rightarrow> int) \<Rightarrow> int \<Rightarrow> int" where
  "strong tc s i = (
     if i = 0 then CLIP3 ((s 2 + 2 * s 1 + 2 * s 0 + 2 * s (- 1) + s (- 2) + 4) div 8) (s 0 - 2 * tc) (s 0 + 2 * tc)
     else if i = 1 then CLIP3 ((s 2 + s 1 + s 0 + s (- 1) + 2) div 4) (s 1 - 2 * tc) (s 1 + 2 * tc)
     else if i = 2 then CLIP3 ((2 * s 3 + 3 * s 2 + s 1 + s 0 + s (- 1) + 4) div 8) (s 2 - 2 * tc) (s 2 + 2 * tc)
     else if i = - 1 then CLIP3 ((s 1 + 2 * s 0 + 2 * s (- 1) + 2 * s (- 2) + s (- 3) + 4) div 8)
       (s (- 1) - 2 * tc) (s (- 1) + 2 * tc)
     else if i = - 2 then CLIP3 ((s 0 + s (- 1) + s (- 2) + s (- 3) + 2) div 4) (s (- 2) - 2 * tc) (s (- 2) + 2 * tc)
     else if i = - 3 then CLIP3 ((s 0 + s (- 1) + s (- 2) + 3 * s (- 3) + 2 * s (- 4) + 4) div 8)
       (s (- 3) - 2 * tc) (s (- 3) + 2 * tc)
     else s i)"

definition weak_delta :: "(int \<Rightarrow> int) \<Rightarrow> int" where
  "weak_delta s = (9 * (s 0 - s (- 1)) - 3 * (s 1 - s (- 2)) + 8) div 16"

definition weak :: "int \<Rightarrow> int \<Rightarrow> bool \<Rightarrow> bool \<Rightarrow> (int \<Rightarrow> int) \<Rightarrow> int \<Rightarrow> int" where
  "weak top_val tc dep deq s i = (let delta = weak_delta s in
     if \<bar>delta\<bar> < 10 * tc then
       let delta = CLIP3 delta (- tc) tc in
       if i = - 1 then CLIP3 (s (- 1) + delta) 0 top_val
       else if i = 0 then CLIP3 (s 0 - delta) 0 top_val
       else if i = - 2 \<and> dep then
         CLIP3 (s (- 2) + CLIP3 (((s (- 3) + s (- 1) + 1) div 2 - s (- 2) + delta) div 2) (- (tc div 2)) (tc div 2)) 0 top_val
       else if i = 1 \<and> deq then
         CLIP3 (s 1 + CLIP3 (((s 2 + s 0 + 1) div 2 - s 1 - delta) div 2) (- (tc div 2)) (tc div 2)) 0 top_val
       else s i
     else s i)"

text \<open>One line in place: the new values are computed, then stored on the sides to be filtered.\<close>

definition luma_line :: "int \<Rightarrow> int \<Rightarrow> int \<Rightarrow> bool \<Rightarrow> bool \<Rightarrow> bool \<Rightarrow> int \<Rightarrow> int \<Rightarrow> int \<Rightarrow> (int \<Rightarrow> 'l::len word) \<Rightarrow> (int \<Rightarrow> 'l word)" where
  "luma_line across top_val tc de2 dep deq filter_flag_p filter_flag_q src m = (
     let s = (\<lambda>i. uint (m (src + i * across)));
         tmp = (\<lambda>i. word_of_int (if de2 then strong tc s i else weak top_val tc dep deq s i));
         m = (if filter_flag_p \<noteq> 0 then m(src + - 3 * across := tmp (- 3), src + - 2 * across := tmp (- 2),
                src + - 1 * across := tmp (- 1)) else m)
     in if filter_flag_q \<noteq> 0 then m(src + 0 * across := tmp 0, src + 1 * across := tmp 1, src + 2 * across := tmp 2) else m)"

definition deblk_luma :: "nat \<Rightarrow> int \<Rightarrow> int \<Rightarrow> int \<Rightarrow> int \<Rightarrow> int \<Rightarrow> int \<Rightarrow> int \<Rightarrow> int \<Rightarrow> int \<Rightarrow> int \<Rightarrow>
    (int \<Rightarrow> 'l::len word) \<Rightarrow> (int \<Rightarrow> 'l word)" where
  "deblk_luma depth across along src bs quant_param_p quant_param_q beta_offset_div2 tc_offset_div2
     filter_flag_p filter_flag_q m = (
     let beta = luma_beta depth quant_param_p quant_param_q beta_offset_div2;
         tc = luma_tc depth bs quant_param_p quant_param_q tc_offset_div2
     in if 0 = tc then m
        else let s = (\<lambda>l i. uint (m (src + l * along + i * across)));
          dq0 = \<bar>s 0 2 - 2 * s 0 1 + s 0 0\<bar>;
          dq3 = \<bar>s 3 2 - 2 * s 3 1 + s 3 0\<bar>;
          dp0 = \<bar>s 0 (- 3) - 2 * s 0 (- 2) + s 0 (- 1)\<bar>;
          dp3 = \<bar>s 3 (- 3) - 2 * s 3 (- 2) + s 3 (- 1)\<bar>;
          d0 = dp0 + dq0; d3 = dp3 + dq3; dp = dp0 + dp3; dq = dq0 + dq3; d = d0 + d3
        in if d < beta then
          let de2 = (d_sam beta tc d0 (s 0) \<and> d_sam beta tc d3 (s 3));
              dep = (dp < (beta + beta div 2) div 8 \<and> \<not> tc \<le> 1);
              deq = (dq < (beta + beta div 2) div 8 \<and> \<not> tc \<le> 1)
          in for_to 4 (\<lambda>row. luma_line across (2 ^ depth - 1) tc de2 dep deq filter_flag_p filter_flag_q (src + row * along)) m
        else m)"

definition ihevc_deblk_luma_vert :: "int \<Rightarrow> int \<Rightarrow> int \<Rightarrow> int \<Rightarrow> int \<Rightarrow> int \<Rightarrow> int \<Rightarrow> int \<Rightarrow> int \<Rightarrow> mem8 \<Rightarrow> mem8" where
  "ihevc_deblk_luma_vert src src_strd = deblk_luma 8 1 src_strd src"

definition ihevc_deblk_luma_horz :: "int \<Rightarrow> int \<Rightarrow> int \<Rightarrow> int \<Rightarrow> int \<Rightarrow> int \<Rightarrow> int \<Rightarrow> int \<Rightarrow> int \<Rightarrow> mem8 \<Rightarrow> mem8" where
  "ihevc_deblk_luma_horz src src_strd = deblk_luma 8 src_strd 1 src"

definition ihevc_hbd_deblk_luma_vert :: "nat \<Rightarrow> int \<Rightarrow> int \<Rightarrow> int \<Rightarrow> int \<Rightarrow> int \<Rightarrow> int \<Rightarrow> int \<Rightarrow> int \<Rightarrow> int \<Rightarrow> mem16 \<Rightarrow> mem16" where
  "ihevc_hbd_deblk_luma_vert depth src src_strd = deblk_luma depth 1 src_strd src"

definition ihevc_hbd_deblk_luma_horz :: "nat \<Rightarrow> int \<Rightarrow> int \<Rightarrow> int \<Rightarrow> int \<Rightarrow> int \<Rightarrow> int \<Rightarrow> int \<Rightarrow> int \<Rightarrow> int \<Rightarrow> mem16 \<Rightarrow> mem16" where
  "ihevc_hbd_deblk_luma_horz depth src src_strd = deblk_luma depth src_strd 1 src"

section \<open>Chroma\<close>

text \<open>The quantiser of a component: capped, or through the table for 4:2:0.\<close>

definition chroma_qp :: "bool \<Rightarrow> int \<Rightarrow> int" where
  "chroma_qp capped qp_indx = (if capped then min qp_indx 51
     else if qp_indx < 0 then qp_indx else if qp_indx > 57 then qp_indx - 6 else gai4_ihevc_qp_table ! nat qp_indx)"

definition chroma_tc :: "nat \<Rightarrow> bool \<Rightarrow> int \<Rightarrow> int \<Rightarrow> int \<Rightarrow> int \<Rightarrow> int" where
  "chroma_tc depth capped quant_param_p quant_param_q qp_offset tc_offset_div2 =
     (let qp_indx = qp_offset + (quant_param_p + quant_param_q + 1) div 2;
          tc_indx = CLIP3 (chroma_qp capped qp_indx + 2 + 2 * tc_offset_div2) 0 53
      in gai4_ihevc_tc_table ! nat tc_indx * 2 ^ (depth - 8))"

definition chroma_delta :: "int \<Rightarrow> (int \<Rightarrow> int) \<Rightarrow> int" where
  "chroma_delta tc s = CLIP3 (((s 0 - s (- 1)) * 4 + s (- 2) - s 1 + 4) div 8) (- tc) tc"

definition chroma_new :: "int \<Rightarrow> int \<Rightarrow> (int \<Rightarrow> int) \<Rightarrow> int \<Rightarrow> int" where
  "chroma_new top_val tc s i = (if i = - 1 then CLIP3 (s (- 1) + chroma_delta tc s) 0 top_val
     else if i = 0 then CLIP3 (s 0 - chroma_delta tc s) 0 top_val else s i)"

text \<open>A row of a vertical edge has both components, interleaved; a column of a horizontal one belongs to
  one component.\<close>

definition chroma_vert_row :: "int \<Rightarrow> int \<Rightarrow> int \<Rightarrow> int \<Rightarrow> int \<Rightarrow> int \<Rightarrow> (int \<Rightarrow> 'l::len word) \<Rightarrow> (int \<Rightarrow> 'l word)" where
  "chroma_vert_row top_val tc_u tc_v filter_flag_p filter_flag_q src m = (
     let u = (\<lambda>i. uint (m (src + i * 2))); v = (\<lambda>i. uint (m (src + 1 + i * 2)));
         tmp_p0_u = word_of_int (chroma_new top_val tc_u u (- 1)); tmp_q0_u = word_of_int (chroma_new top_val tc_u u 0);
         tmp_p0_v = word_of_int (chroma_new top_val tc_v v (- 1)); tmp_q0_v = word_of_int (chroma_new top_val tc_v v 0);
         m = (if filter_flag_p \<noteq> 0 then m(src + - 1 * 2 := tmp_p0_u, src + 1 + - 1 * 2 := tmp_p0_v) else m)
     in if filter_flag_q \<noteq> 0 then m(src + 0 * 2 := tmp_q0_u, src + 1 + 0 * 2 := tmp_q0_v) else m)"

definition chroma_line :: "int \<Rightarrow> int \<Rightarrow> int \<Rightarrow> int \<Rightarrow> int \<Rightarrow> int \<Rightarrow> (int \<Rightarrow> 'l::len word) \<Rightarrow> (int \<Rightarrow> 'l word)" where
  "chroma_line across top_val tc filter_flag_p filter_flag_q src m = (
     let s = (\<lambda>i. uint (m (src + i * across)));
         tmp_p0 = word_of_int (chroma_new top_val tc s (- 1)); tmp_q0 = word_of_int (chroma_new top_val tc s 0);
         m = (if filter_flag_p \<noteq> 0 then m(src + - 1 * across := tmp_p0) else m)
     in if filter_flag_q \<noteq> 0 then m(src + 0 * across := tmp_q0) else m)"

definition deblk_chroma_vert :: "nat \<Rightarrow> bool \<Rightarrow> int \<Rightarrow> int \<Rightarrow> int \<Rightarrow> int \<Rightarrow> int \<Rightarrow> int \<Rightarrow> int \<Rightarrow> int \<Rightarrow> int \<Rightarrow>
    (int \<Rightarrow> 'l::len word) \<Rightarrow> (int \<Rightarrow> 'l word)" where
  "deblk_chroma_vert depth capped src src_strd quant_param_p quant_param_q qp_offset_u qp_offset_v tc_offset_div2
     filter_flag_p filter_flag_q m = (
     let tc_u = chroma_tc depth capped quant_param_p quant_param_q qp_offset_u tc_offset_div2;
         tc_v = chroma_tc depth capped quant_param_p quant_param_q qp_offset_v tc_offset_div2
     in if 0 = tc_u \<and> 0 = tc_v then m
        else for_to 4 (\<lambda>row. chroma_vert_row (2 ^ depth - 1) tc_u tc_v filter_flag_p filter_flag_q (src + row * src_strd)) m)"

definition deblk_chroma_horz :: "nat \<Rightarrow> bool \<Rightarrow> int \<Rightarrow> int \<Rightarrow> int \<Rightarrow> int \<Rightarrow> int \<Rightarrow> int \<Rightarrow> int \<Rightarrow> int \<Rightarrow> int \<Rightarrow>
    (int \<Rightarrow> 'l::len word) \<Rightarrow> (int \<Rightarrow> 'l word)" where
  "deblk_chroma_horz depth capped src src_strd quant_param_p quant_param_q qp_offset_u qp_offset_v tc_offset_div2
     filter_flag_p filter_flag_q m = (
     let tc_u = chroma_tc depth capped quant_param_p quant_param_q qp_offset_u tc_offset_div2;
         tc_v = chroma_tc depth capped quant_param_p quant_param_q qp_offset_v tc_offset_div2
     in if 0 = tc_u \<and> 0 = tc_v then m
        else for_to 8 (\<lambda>col. chroma_line src_strd (2 ^ depth - 1) (if odd col then tc_v else tc_u)
          filter_flag_p filter_flag_q (src + col)) m)"

text \<open>\<^verbatim>\<open>chroma_fmt_idc\<close> is 2 for 4:2:2 and 3 for 4:4:4. The 4:2:2 routines always cap.\<close>

type_synonym 'm chroma_filter = "int \<Rightarrow> int \<Rightarrow> int \<Rightarrow> int \<Rightarrow> int \<Rightarrow> int \<Rightarrow> int \<Rightarrow> int \<Rightarrow> int \<Rightarrow> 'm \<Rightarrow> 'm"

definition ihevc_deblk_chroma_vert :: "int \<Rightarrow> mem8 chroma_filter" where
  "ihevc_deblk_chroma_vert chroma_fmt_idc = deblk_chroma_vert 8 (chroma_fmt_idc = 3)"

definition ihevc_deblk_chroma_horz :: "int \<Rightarrow> mem8 chroma_filter" where
  "ihevc_deblk_chroma_horz chroma_fmt_idc = deblk_chroma_horz 8 (chroma_fmt_idc = 3)"

definition ihevc_hbd_deblk_chroma_vert :: "nat \<Rightarrow> int \<Rightarrow> mem16 chroma_filter" where
  "ihevc_hbd_deblk_chroma_vert depth chroma_fmt_idc = deblk_chroma_vert depth (chroma_fmt_idc = 3 \<or> chroma_fmt_idc = 2)"

definition ihevc_hbd_deblk_chroma_horz :: "nat \<Rightarrow> int \<Rightarrow> mem16 chroma_filter" where
  "ihevc_hbd_deblk_chroma_horz depth chroma_fmt_idc = deblk_chroma_horz depth (chroma_fmt_idc = 3 \<or> chroma_fmt_idc = 2)"

definition ihevc_deblk_422chroma_vert :: "int \<Rightarrow> mem8 chroma_filter" where
  "ihevc_deblk_422chroma_vert chroma_fmt_idc = deblk_chroma_vert 8 True"

definition ihevc_deblk_422chroma_horz :: "int \<Rightarrow> mem8 chroma_filter" where
  "ihevc_deblk_422chroma_horz chroma_fmt_idc = deblk_chroma_horz 8 True"

definition ihevc_hbd_deblk_422chroma_vert :: "nat \<Rightarrow> int \<Rightarrow> mem16 chroma_filter" where
  "ihevc_hbd_deblk_422chroma_vert depth chroma_fmt_idc = deblk_chroma_vert depth True"

definition ihevc_hbd_deblk_422chroma_horz :: "nat \<Rightarrow> int \<Rightarrow> mem16 chroma_filter" where
  "ihevc_hbd_deblk_422chroma_horz depth chroma_fmt_idc = deblk_chroma_horz depth True"


section \<open>Loops over lines\<close>

text \<open>Each round of the loop maps its own line by \<open>G\<close>; the lines do not meet.\<close>

lemma lines_map:
  assumes inj: "\<And>l i l' i'. 0 \<le> l \<Longrightarrow> l < n \<Longrightarrow> V i \<Longrightarrow> 0 \<le> l' \<Longrightarrow> l' < n \<Longrightarrow> V i' \<Longrightarrow> addr l i = addr l' i' \<Longrightarrow> l = l'"
    and line: "\<And>k t i. 0 \<le> k \<Longrightarrow> k < n \<Longrightarrow> V i \<Longrightarrow> body k t (addr k i) = G k (\<lambda>i. t (addr k i)) i"
    and rest: "\<And>k t a. 0 \<le> k \<Longrightarrow> k < n \<Longrightarrow> (\<And>i. V i \<Longrightarrow> a \<noteq> addr k i) \<Longrightarrow> body k t a = t a"
    and cong: "\<And>k r r' i. (\<And>i. V i \<Longrightarrow> r i = r' i) \<Longrightarrow> V i \<Longrightarrow> G k r i = G k r' i"
    and n: "0 \<le> n"
  shows "0 \<le> l \<Longrightarrow> l < n \<Longrightarrow> V i \<Longrightarrow> for_to n body m (addr l i) = G l (\<lambda>i. m (addr l i)) i"
    and "(\<And>l i. 0 \<le> l \<Longrightarrow> l < n \<Longrightarrow> V i \<Longrightarrow> a \<noteq> addr l i) \<Longrightarrow> for_to n body m a = m a"
proof -
  have "\<forall>l i. 0 \<le> l \<and> l < n \<and> V i \<longrightarrow>
      for_to n body m (addr l i) = (if l < n then G l (\<lambda>i. m (addr l i)) i else m (addr l i))"
  proof (rule for_to_inv [where P = "\<lambda>k t. \<forall>l i. 0 \<le> l \<and> l < n \<and> V i \<longrightarrow>
      t (addr l i) = (if l < k then G l (\<lambda>i. m (addr l i)) i else m (addr l i))", OF n])
    fix k t assume k: "0 \<le> k" "k < n" and IH: "\<forall>l i. 0 \<le> l \<and> l < n \<and> V i \<longrightarrow>
      t (addr l i) = (if l < k then G l (\<lambda>i. m (addr l i)) i else m (addr l i))"
    show "\<forall>l i. 0 \<le> l \<and> l < n \<and> V i \<longrightarrow>
      body k t (addr l i) = (if l < k + 1 then G l (\<lambda>i. m (addr l i)) i else m (addr l i))"
    proof (intro allI impI)
      fix l i assume l: "0 \<le> l \<and> l < n \<and> V i"
      show "body k t (addr l i) = (if l < k + 1 then G l (\<lambda>i. m (addr l i)) i else m (addr l i))"
      proof (cases "l = k")
        case True
        have "G k (\<lambda>i. t (addr k i)) i = G k (\<lambda>i. m (addr k i)) i" using IH k l by (intro cong) auto
        then show ?thesis using True line [OF k, of i t] l by simp
      next
        case False
        have "body k t (addr l i) = t (addr l i)" using inj [of l i k] k l False by (intro rest) auto
        then show ?thesis using IH l False by auto
      qed
    qed
  qed auto
  then show "0 \<le> l \<Longrightarrow> l < n \<Longrightarrow> V i \<Longrightarrow> for_to n body m (addr l i) = G l (\<lambda>i. m (addr l i)) i" by simp
  show "for_to n body m a = m a" if a: "\<And>l i. 0 \<le> l \<Longrightarrow> l < n \<Longrightarrow> V i \<Longrightarrow> a \<noteq> addr l i"
  proof (rule for_to_inv [where P = "\<lambda>_ t. t a = m a", OF n])
    fix k t assume "0 \<le> k" "k < n" "t a = m a"
    then show "body k t a = m a" using rest [of k a t] a by simp
  qed simp
qed

text \<open>What a filter of an edge promises: the samples of its lines, and nothing else, get new values.\<close>

definition edge_result :: "int \<Rightarrow> (int \<Rightarrow> bool) \<Rightarrow> (int \<Rightarrow> int \<Rightarrow> int) \<Rightarrow> (int \<Rightarrow> int \<Rightarrow> int) \<Rightarrow> (int \<Rightarrow> 'l::len word) \<Rightarrow>
    (int \<Rightarrow> 'l word) \<Rightarrow> bool" where
  "edge_result n V addr new m m' \<longleftrightarrow> (\<forall>l i. 0 \<le> l \<and> l < n \<and> V i \<longrightarrow> uint (m' (addr l i)) = new l i) \<and>
     (\<forall>a. (\<forall>l i. 0 \<le> l \<and> l < n \<and> V i \<longrightarrow> a \<noteq> addr l i) \<longrightarrow> m' a = m a)"

definition edge_addr :: "int \<Rightarrow> int \<Rightarrow> int \<Rightarrow> int \<Rightarrow> int \<Rightarrow> int" where
  "edge_addr across along src l i = src + l * along + i * across"

abbreviation luma_i :: "int \<Rightarrow> bool" where "luma_i i \<equiv> - 4 \<le> i \<and> i < 4"
abbreviation chroma_i :: "int \<Rightarrow> bool" where "chroma_i i \<equiv> - 2 \<le> i \<and> i < 2"

lemma edge_inj:
  assumes "across = 1 \<and> 8 \<le> along \<or> along = 1 \<and> 8 \<le> across" "0 \<le> l" "l < 8" "luma_i i" "0 \<le> l'" "l' < 8" "luma_i i'"
    and "edge_addr across along src l i = edge_addr across along src l' i'"
  shows "l = l' \<and> i = i'"
  using assms(1)
proof
  assume a: "across = 1 \<and> 8 \<le> along"
  have "src - 4 + l * along + (i + 4) = src - 4 + l' * along + (i' + 4)" using assms(8) a by (simp add: edge_addr_def)
  then show ?thesis using block_inj [of 8 along "i + 4" "i' + 4" "src - 4" l l'] a assms(4,7) by simp
next
  assume a: "along = 1 \<and> 8 \<le> across"
  have "src + i * across + l = src + i' * across + l'" using assms(8) a by (simp add: edge_addr_def)
  then show ?thesis using block_inj [of 8 across l l' src i i'] a assms(2,3,5,6) by simp
qed

section \<open>Luma edges\<close>

text \<open>The samples of the lines, and an edge filtered from the samples before the call.\<close>

definition edge_samples :: "(int \<Rightarrow> int \<Rightarrow> int) \<Rightarrow> (int \<Rightarrow> 'l::len word) \<Rightarrow> int \<Rightarrow> int \<Rightarrow> int" where
  "edge_samples addr m l i = uint (m (addr l i))"

definition second_diff :: "(int \<Rightarrow> int) \<Rightarrow> int \<Rightarrow> int \<Rightarrow> int \<Rightarrow> int" where
  "second_diff s i j k = \<bar>s i - 2 * s j + s k\<bar>"

definition luma_edge_ref :: "int \<Rightarrow> int \<Rightarrow> int \<Rightarrow> bool \<Rightarrow> bool \<Rightarrow> (int \<Rightarrow> int \<Rightarrow> int) \<Rightarrow> int \<Rightarrow> int \<Rightarrow> int" where
  "luma_edge_ref top_val beta tc filter_p filter_q s l i = (
     let dp0 = second_diff (s 0) (- 3) (- 2) (- 1); dp3 = second_diff (s 3) (- 3) (- 2) (- 1);
         dq0 = second_diff (s 0) 2 1 0; dq3 = second_diff (s 3) 2 1 0; side = (beta + beta div 2) div 8
     in if (if i < 0 then filter_p else filter_q) \<and> dp0 + dq0 + dp3 + dq3 < beta
        then if d_sam beta tc (dp0 + dq0) (s 0) \<and> d_sam beta tc (dp3 + dq3) (s 3) then strong tc (s l) i
          else weak top_val tc (dp0 + dp3 < side) (dq0 + dq3 < side) (s l) i
        else s l i)"

text \<open>The filters stay in the range of the samples and near them, and do nothing when the threshold is 0.\<close>

lemma clip3_range: "lo \<le> hi \<Longrightarrow> lo \<le> CLIP3 x lo hi \<and> CLIP3 x lo hi \<le> hi"
  by (auto simp: CLIP3_def)

lemma clip3_near:
  assumes "0 \<le> x" "x \<le> M" "0 \<le> y" "y \<le> M" "0 \<le> t"
  shows "0 \<le> CLIP3 x (y - t) (y + t) \<and> CLIP3 x (y - t) (y + t) \<le> M \<and> \<bar>CLIP3 x (y - t) (y + t) - y\<bar> \<le> t"
  using assms by (auto simp: CLIP3_def)

definition line_ok :: "int \<Rightarrow> (int \<Rightarrow> int) \<Rightarrow> bool" where
  "line_ok M s \<longleftrightarrow> (\<forall>i. luma_i i \<longrightarrow> 0 \<le> s i \<and> s i \<le> M)"

lemma line_okD:
  assumes "line_ok M s"
  shows "0 \<le> s (- 4)" "0 \<le> s (- 3)" "0 \<le> s (- 2)" "0 \<le> s (- 1)" "0 \<le> s 0" "0 \<le> s 1" "0 \<le> s 2" "0 \<le> s 3"
    "s (- 4) \<le> M" "s (- 3) \<le> M" "s (- 2) \<le> M" "s (- 1) \<le> M" "s 0 \<le> M" "s 1 \<le> M" "s 2 \<le> M" "s 3 \<le> M"
  using assms by (simp_all add: line_ok_def)

lemma strong_near:
  assumes "line_ok M s" "0 \<le> tc" "luma_i i"
  shows "0 \<le> strong tc s i \<and> strong tc s i \<le> M \<and> \<bar>strong tc s i - s i\<bar> \<le> 2 * tc"
proof -
  note S = line_okD [OF assms(1)]
  have t: "0 \<le> 2 * tc" using assms(2) by simp
  note near = clip3_near [OF _ _ _ _ t, where M = M]
  consider "i = 0" | "i = 1" | "i = 2" | "i = - 1" | "i = - 2" | "i = - 3" | "i = 3 \<or> i = - 4" using assms(3) by linarith
  then show ?thesis
  proof cases
    case 1
    have "0 \<le> (s 2 + 2 * s 1 + 2 * s 0 + 2 * s (- 1) + s (- 2) + 4) div 8" "(s 2 + 2 * s 1 + 2 * s 0 + 2 * s (- 1) + s (- 2) + 4) div 8 \<le> M"
      using S by linarith+
    from near [OF this S(5,13)] show ?thesis by (simp add: strong_def 1)
  next
    case 2
    have "0 \<le> (s 2 + s 1 + s 0 + s (- 1) + 2) div 4" "(s 2 + s 1 + s 0 + s (- 1) + 2) div 4 \<le> M" using S by linarith+
    from near [OF this S(6,14)] show ?thesis by (simp add: strong_def 2)
  next
    case 3
    have "0 \<le> (2 * s 3 + 3 * s 2 + s 1 + s 0 + s (- 1) + 4) div 8" "(2 * s 3 + 3 * s 2 + s 1 + s 0 + s (- 1) + 4) div 8 \<le> M"
      using S by linarith+
    from near [OF this S(7,15)] show ?thesis by (simp add: strong_def 3)
  next
    case 4
    have "0 \<le> (s 1 + 2 * s 0 + 2 * s (- 1) + 2 * s (- 2) + s (- 3) + 4) div 8" "(s 1 + 2 * s 0 + 2 * s (- 1) + 2 * s (- 2) + s (- 3) + 4) div 8 \<le> M"
      using S by linarith+
    from near [OF this S(4,12)] show ?thesis by (simp add: strong_def 4)
  next
    case 5
    have "0 \<le> (s 0 + s (- 1) + s (- 2) + s (- 3) + 2) div 4" "(s 0 + s (- 1) + s (- 2) + s (- 3) + 2) div 4 \<le> M" using S by linarith+
    from near [OF this S(3,11)] show ?thesis by (simp add: strong_def 5)
  next
    case 6
    have "0 \<le> (s 0 + s (- 1) + s (- 2) + 3 * s (- 3) + 2 * s (- 4) + 4) div 8" "(s 0 + s (- 1) + s (- 2) + 3 * s (- 3) + 2 * s (- 4) + 4) div 8 \<le> M"
      using S by linarith+
    from near [OF this S(2,10)] show ?thesis by (simp add: strong_def 6)
  next
    case 7
    then show ?thesis using S t by (auto simp: strong_def)
  qed
qed

lemma weak_near:
  assumes "line_ok M s" "0 \<le> tc" "luma_i i"
  shows "0 \<le> weak M tc dep deq s i \<and> weak M tc dep deq s i \<le> M \<and> \<bar>weak M tc dep deq s i - s i\<bar> \<le> tc"
proof -
  note S = line_okD [OF assms(1)]
  have i: "0 \<le> s i \<and> s i \<le> M" using assms by (simp add: line_ok_def)
  have near: "0 \<le> CLIP3 (y + d) 0 M \<and> CLIP3 (y + d) 0 M \<le> M \<and> \<bar>CLIP3 (y + d) 0 M - y\<bar> \<le> tc"
    if "0 \<le> y" "y \<le> M" "\<bar>d\<bar> \<le> tc" for y d using that by (auto simp: CLIP3_def)
  have near': "0 \<le> CLIP3 (y - d) 0 M \<and> CLIP3 (y - d) 0 M \<le> M \<and> \<bar>CLIP3 (y - d) 0 M - y\<bar> \<le> tc"
    if "0 \<le> y" "y \<le> M" "\<bar>d\<bar> \<le> tc" for y d using near [of y "- d"] that by simp
  have d: "\<bar>CLIP3 x (- tc) tc\<bar> \<le> tc" "\<bar>CLIP3 x (- (tc div 2)) (tc div 2)\<bar> \<le> tc" for x
    using assms(2) by (auto simp: CLIP3_def)
  show ?thesis
  proof (cases "\<bar>weak_delta s\<bar> < 10 * tc")
    case False
    then show ?thesis using i assms(2) by (simp add: weak_def)
  next
    case True
    consider "i = - 1" | "i = 0" | "i = - 2 \<and> dep" | "i = 1 \<and> deq" | "i \<noteq> - 1 \<and> i \<noteq> 0 \<and> \<not> (i = - 2 \<and> dep) \<and> \<not> (i = 1 \<and> deq)"
      by blast
    then show ?thesis
    proof cases
      case 1
      then show ?thesis using True near [OF S(4,12) d(1)] by (simp add: weak_def Let_def)
    next
      case 2
      then show ?thesis using True near' [OF S(5,13) d(1)] by (simp add: weak_def Let_def)
    next
      case 3
      then show ?thesis using True near [OF S(3,11) d(2)] by (simp add: weak_def Let_def)
    next
      case 4
      then show ?thesis using True near [OF S(6,14) d(2)] by (simp add: weak_def Let_def)
    next
      case 5
      then have "weak M tc dep deq s i = s i" using True by (auto simp: weak_def Let_def)
      then show ?thesis using i assms(2) by simp
    qed
  qed
qed

lemma tc_zero:
  assumes "line_ok M s" "luma_i i"
  shows "strong 0 s i = s i" "weak M 0 dep deq s i = s i"
  using strong_near [OF assms(1) _ assms(2), of 0] weak_near [OF assms(1) _ assms(2), of 0] by simp_all

text \<open>With a threshold of at most 1 the outer samples keep their value.\<close>

lemma weak_small_tc:
  assumes "line_ok M s" "tc \<le> 1" "0 \<le> tc" "luma_i i"
  shows "weak M tc dep deq s i = weak M tc False False s i"
proof -
  have "tc div 2 = 0" using assms(2,3) by (simp add: div_pos_pos_trivial)
  moreover have "CLIP3 y 0 M = y" if "0 \<le> y" "y \<le> M" for y using that by (simp add: CLIP3_def)
  moreover have "CLIP3 x 0 0 = 0" for x by (simp add: CLIP3_def)
  ultimately show ?thesis using line_okD [OF assms(1)] by (simp add: weak_def Let_def)
qed

text \<open>One line in place.\<close>

lemma across_eq: "(0::int) < across \<Longrightarrow> src + i * across = src + j * across \<longleftrightarrow> i = j"
  by simp

lemma luma_line_at:
  assumes "0 < across" "luma_i i"
  shows "luma_line across top_val tc de2 dep deq fp fq src m (src + i * across) =
    word_of_int (if (if i < 0 then fp \<noteq> 0 else fq \<noteq> 0)
      then if de2 then strong tc (\<lambda>i. uint (m (src + i * across))) i
        else weak top_val tc dep deq (\<lambda>i. uint (m (src + i * across))) i
      else uint (m (src + i * across)))"
proof -
  let ?s = "\<lambda>i. uint (m (src + i * across))"
  have out: "strong tc ?s 3 = ?s 3" "strong tc ?s (- 4) = ?s (- 4)"
    "weak top_val tc dep deq ?s 3 = ?s 3" "weak top_val tc dep deq ?s (- 4) = ?s (- 4)"
    by (simp_all add: strong_def weak_def Let_def)
  have i: "i = - 4 \<or> i = - 3 \<or> i = - 2 \<or> i = - 1 \<or> i = 0 \<or> i = 1 \<or> i = 2 \<or> i = 3" using assms(2) by linarith
  note eq = across_eq [OF assms(1), of src]
  have ne: "across \<noteq> 0" using assms(1) by simp
  show ?thesis using i by (elim disjE)
    (hypsubst, simp only: luma_line_def Let_def fun_upd_apply eq, simp add: ne out [simplified])+
qed

lemma luma_line_rest:
  assumes "\<And>i. luma_i i \<Longrightarrow> a \<noteq> src + i * across"
  shows "luma_line across top_val tc de2 dep deq fp fq src m a = m a"
  using assms [of "- 3"] assms [of "- 2"] assms [of "- 1"] assms [of 0] assms [of 1] assms [of 2]
  by (simp add: luma_line_def Let_def)

lemma tc_table_nonneg: "0 \<le> i \<Longrightarrow> i \<le> 53 \<Longrightarrow> 0 \<le> gai4_ihevc_tc_table ! nat i"
proof -
  have "\<forall>t \<in> set gai4_ihevc_tc_table. 0 \<le> t" by (simp add: gai4_ihevc_tc_table_def)
  then show "0 \<le> i \<Longrightarrow> i \<le> 53 \<Longrightarrow> 0 \<le> gai4_ihevc_tc_table ! nat i"
    by (rule bspec) (rule nth_mem, simp add: gai4_ihevc_tc_table_def)
qed

lemma luma_tc_nonneg: "0 \<le> luma_tc depth bs qp qq tco"
  using tc_table_nonneg [of "CLIP3 x 0 53" for x] clip3_range [of 0 53]
  by (simp add: luma_tc_def Let_def)

text \<open>The shortcuts of the routine leave its result the one of the reference.\<close>

lemma luma_edge_ref_keeps:
  assumes "\<And>l. 0 \<le> l \<Longrightarrow> l < 4 \<Longrightarrow> line_ok M (s l)" "0 \<le> l" "l < 4" "luma_i i"
    and "tc = 0 \<or> \<not> second_diff (s 0) (- 3) (- 2) (- 1) + second_diff (s 0) 2 1 0 +
      second_diff (s 3) (- 3) (- 2) (- 1) + second_diff (s 3) 2 1 0 < beta"
  shows "luma_edge_ref M beta tc fp fq s l i = s l i"
  using assms(5)
proof
  assume "tc = 0"
  then show ?thesis using tc_zero [OF assms(1) [OF assms(2,3)] assms(4)] by (simp add: luma_edge_ref_def Let_def)
qed (simp add: luma_edge_ref_def Let_def)

lemma deblk_luma_lines:
  fixes m :: "int \<Rightarrow> 'l::len word" and src :: int
  assumes geo: "across = 1 \<and> 8 \<le> along \<or> along = 1 \<and> 8 \<le> across"
  defines "addr \<equiv> edge_addr across along src"
  shows "0 \<le> l \<Longrightarrow> l < 4 \<Longrightarrow> luma_i i \<Longrightarrow>
      for_to 4 (\<lambda>row. luma_line across top_val tc de2 dep deq fp fq (src + row * along)) m (addr l i) =
        word_of_int (if (if i < 0 then fp \<noteq> 0 else fq \<noteq> 0)
          then if de2 then strong tc (edge_samples addr m l) i else weak top_val tc dep deq (edge_samples addr m l) i
          else edge_samples addr m l i)"
    and "(\<And>l i. 0 \<le> l \<Longrightarrow> l < 4 \<Longrightarrow> luma_i i \<Longrightarrow> a \<noteq> addr l i) \<Longrightarrow>
      for_to 4 (\<lambda>row. luma_line across top_val tc de2 dep deq fp fq (src + row * along)) m a = m a"
proof -
  define G :: "int \<Rightarrow> (int \<Rightarrow> 'l word) \<Rightarrow> int \<Rightarrow> 'l word" where "G = (\<lambda>k r i. word_of_int (if (if i < 0 then fp \<noteq> 0 else fq \<noteq> 0)
      then if de2 then strong tc (\<lambda>i. uint (r i)) i else weak top_val tc dep deq (\<lambda>i. uint (r i)) i else uint (r i)))"
  have across: "0 < across" using geo by auto
  have inj: "\<And>l i l' i'. 0 \<le> l \<Longrightarrow> l < 4 \<Longrightarrow> luma_i i \<Longrightarrow> 0 \<le> l' \<Longrightarrow> l' < 4 \<Longrightarrow> luma_i i' \<Longrightarrow> addr l i = addr l' i' \<Longrightarrow> l = l'"
    unfolding addr_def by (rule edge_inj [OF geo, THEN conjunct1]) auto
  have line: "\<And>k t i. 0 \<le> k \<Longrightarrow> k < 4 \<Longrightarrow> luma_i i \<Longrightarrow>
      luma_line across top_val tc de2 dep deq fp fq (src + k * along) t (addr k i) = G k (\<lambda>i. t (addr k i)) i"
    unfolding addr_def edge_addr_def G_def by (rule luma_line_at [OF across])
  have rest: "\<And>k t a. 0 \<le> k \<Longrightarrow> k < 4 \<Longrightarrow> (\<And>i. luma_i i \<Longrightarrow> a \<noteq> addr k i) \<Longrightarrow>
      luma_line across top_val tc de2 dep deq fp fq (src + k * along) t a = t a"
    unfolding addr_def edge_addr_def by (rule luma_line_rest)
  have cong: "G k r i = G k r' i" if "\<And>i. luma_i i \<Longrightarrow> r i = r' i" "luma_i i" for k r r' i
  proof -
    have "i = - 4 \<or> i = - 3 \<or> i = - 2 \<or> i = - 1 \<or> i = 0 \<or> i = 1 \<or> i = 2 \<or> i = 3" using that(2) by linarith
    then show ?thesis using that(1) [of "- 4"] that(1) [of "- 3"] that(1) [of "- 2"] that(1) [of "- 1"]
        that(1) [of 0] that(1) [of 1] that(1) [of 2] that(1) [of 3]
      by (elim disjE) (hypsubst, simp add: G_def strong_def weak_def weak_delta_def Let_def)+
  qed
  note maps = lines_map [where V = luma_i and n = 4 and addr = addr and G = G, OF inj line rest cong]
  show "0 \<le> l \<Longrightarrow> l < 4 \<Longrightarrow> luma_i i \<Longrightarrow>
      for_to 4 (\<lambda>row. luma_line across top_val tc de2 dep deq fp fq (src + row * along)) m (addr l i) =
        word_of_int (if (if i < 0 then fp \<noteq> 0 else fq \<noteq> 0)
          then if de2 then strong tc (edge_samples addr m l) i else weak top_val tc dep deq (edge_samples addr m l) i
          else edge_samples addr m l i)"
    unfolding edge_samples_def [abs_def] by (rule maps(1) [unfolded G_def]) auto
  show "(\<And>l i. 0 \<le> l \<Longrightarrow> l < 4 \<Longrightarrow> luma_i i \<Longrightarrow> a \<noteq> addr l i) \<Longrightarrow>
      for_to 4 (\<lambda>row. luma_line across top_val tc de2 dep deq fp fq (src + row * along)) m a = m a"
    by (rule maps(2)) auto
qed

text \<open>An edge whose samples fit the bit depth.\<close>

definition edge_fits :: "nat \<Rightarrow> int \<Rightarrow> (int \<Rightarrow> bool) \<Rightarrow> (int \<Rightarrow> int \<Rightarrow> int) \<Rightarrow> (int \<Rightarrow> 'l::len word) \<Rightarrow> bool" where
  "edge_fits depth n V addr m \<longleftrightarrow> (\<forall>l i. 0 \<le> l \<and> l < n \<and> V i \<longrightarrow> uint (m (addr l i)) \<le> 2 ^ depth - 1)"

lemma edge_fits8 [simp]: "edge_fits 8 n V addr (m :: mem8)"
  using uint_lt2p [where 'a = 8] by (auto simp: edge_fits_def intro: order.trans zle_diff1_eq [THEN iffD2])

lemma edge_line_ok:
  "edge_fits depth 4 luma_i addr m \<Longrightarrow> 0 \<le> l \<Longrightarrow> l < 4 \<Longrightarrow> line_ok (2 ^ depth - 1) (edge_samples addr m l)"
  by (simp add: edge_fits_def line_ok_def edge_samples_def)

lemma deblk_luma_edge:
  fixes m :: "int \<Rightarrow> 'l::len word" and src :: int
  assumes geo: "across = 1 \<and> 8 \<le> along \<or> along = 1 \<and> 8 \<le> across" and depth: "depth \<le> LENGTH('l)"
    and fits: "edge_fits depth 4 luma_i (edge_addr across along src) m"
  defines "addr \<equiv> edge_addr across along src"
  shows "edge_result 4 luma_i addr (luma_edge_ref (2 ^ depth - 1) (luma_beta depth qp qq bo) (luma_tc depth bs qp qq tco)
      (fp \<noteq> 0) (fq \<noteq> 0) (edge_samples addr m)) m (deblk_luma depth across along src bs qp qq bo tco fp fq m)"
proof -
  let ?s = "edge_samples addr m" and ?M = "2 ^ depth - 1 :: int"
  define beta where "beta = luma_beta depth qp qq bo"
  define tc where "tc = luma_tc depth bs qp qq tco"
  have tc: "0 \<le> tc" by (simp add: tc_def luma_tc_nonneg)
  have ok: "\<And>l. 0 \<le> l \<Longrightarrow> l < 4 \<Longrightarrow> line_ok ?M (?s l)" using edge_line_ok [OF fits] by (simp add: addr_def)
  have s: "(\<lambda>l i. uint (m (src + l * along + i * across))) = ?s"
    by (simp add: edge_samples_def [abs_def] addr_def edge_addr_def)
  have sd: "\<bar>?s l 2 - 2 * ?s l 1 + ?s l 0\<bar> = second_diff (?s l) 2 1 0"
    "\<bar>?s l (- 3) - 2 * ?s l (- 2) + ?s l (- 1)\<bar> = second_diff (?s l) (- 3) (- 2) (- 1)" for l
    by (simp_all add: second_diff_def)
  let ?d = "second_diff (?s 0) (- 3) (- 2) (- 1) + second_diff (?s 0) 2 1 0 +
      second_diff (?s 3) (- 3) (- 2) (- 1) + second_diff (?s 3) 2 1 0"
  show ?thesis
  proof (cases "tc = 0 \<or> \<not> ?d < beta")
    case True
    have "luma_edge_ref ?M beta tc (fp \<noteq> 0) (fq \<noteq> 0) ?s l i = ?s l i" if "0 \<le> l" "l < 4" "luma_i i" for l i
      by (rule luma_edge_ref_keeps [OF ok that True])
    moreover have "deblk_luma depth across along src bs qp qq bo tco fp fq m = m"
      using True unfolding deblk_luma_def s beta_def [symmetric] tc_def [symmetric] Let_def sd by (auto simp: add.assoc)
    ultimately show ?thesis by (simp add: edge_result_def beta_def tc_def edge_samples_def)
  next
    case False
    define de2 where "de2 \<longleftrightarrow> d_sam beta tc (second_diff (?s 0) (- 3) (- 2) (- 1) + second_diff (?s 0) 2 1 0) (?s 0) \<and>
      d_sam beta tc (second_diff (?s 3) (- 3) (- 2) (- 1) + second_diff (?s 3) 2 1 0) (?s 3)"
    define dep where "dep \<longleftrightarrow> second_diff (?s 0) (- 3) (- 2) (- 1) + second_diff (?s 3) (- 3) (- 2) (- 1) < (beta + beta div 2) div 8"
    define deq where "deq \<longleftrightarrow> second_diff (?s 0) 2 1 0 + second_diff (?s 3) 2 1 0 < (beta + beta div 2) div 8"
    have m': "deblk_luma depth across along src bs qp qq bo tco fp fq m =
        for_to 4 (\<lambda>row. luma_line across ?M tc de2 (dep \<and> \<not> tc \<le> 1) (deq \<and> \<not> tc \<le> 1) fp fq (src + row * along)) m"
      using False unfolding deblk_luma_def s beta_def [symmetric] tc_def [symmetric] Let_def sd
      by (simp add: de2_def dep_def deq_def add.assoc)
    have small: "weak ?M tc (dep \<and> \<not> tc \<le> 1) (deq \<and> \<not> tc \<le> 1) (?s l) i = weak ?M tc dep deq (?s l) i"
      if "0 \<le> l" "l < 4" "luma_i i" for l i
      using weak_small_tc [OF ok [OF that(1,2)] _ tc that(3), of dep deq] by (cases "tc \<le> 1") simp_all
    have ref: "luma_edge_ref ?M beta tc (fp \<noteq> 0) (fq \<noteq> 0) ?s l i = (if (if i < 0 then fp \<noteq> 0 else fq \<noteq> 0)
        then if de2 then strong tc (?s l) i else weak ?M tc dep deq (?s l) i else ?s l i)" for l i
      using False by (simp add: luma_edge_ref_def Let_def de2_def dep_def deq_def)
    have fit: "uint (word_of_int (if (if i < 0 then fp \<noteq> 0 else fq \<noteq> 0)
        then if de2 then strong tc (?s l) i else weak ?M tc dep deq (?s l) i else ?s l i) :: 'l word) =
        luma_edge_ref ?M beta tc (fp \<noteq> 0) (fq \<noteq> 0) ?s l i" if l: "0 \<le> l" "l < 4" "luma_i i" for l i
      unfolding ref
      by (rule word_samples [OF _ _ depth])
        (use strong_near [OF ok [OF l(1,2)] tc l(3)] weak_near [OF ok [OF l(1,2)] tc l(3)] ok [OF l(1,2)] l(3) in \<open>auto simp: line_ok_def\<close>)
    show ?thesis unfolding edge_result_def m' beta_def [symmetric] tc_def [symmetric]
    proof (intro conjI allI impI)
      fix l i :: int assume l: "0 \<le> l \<and> l < 4 \<and> luma_i i"
      show "uint (for_to 4 (\<lambda>row. luma_line across ?M tc de2 (dep \<and> \<not> tc \<le> 1) (deq \<and> \<not> tc \<le> 1) fp fq (src + row * along)) m (addr l i)) =
        luma_edge_ref ?M beta tc (fp \<noteq> 0) (fq \<noteq> 0) ?s l i"
        using l deblk_luma_lines(1) [OF geo, of l i ?M tc de2 "dep \<and> \<not> tc \<le> 1" "deq \<and> \<not> tc \<le> 1" fp fq src m]
          small [of l i] fit [of l i] by (simp only: addr_def)
    next
      fix a :: int assume "\<forall>l i. 0 \<le> l \<and> l < 4 \<and> luma_i i \<longrightarrow> a \<noteq> addr l i"
      then show "for_to 4 (\<lambda>row. luma_line across ?M tc de2 (dep \<and> \<not> tc \<le> 1) (deq \<and> \<not> tc \<le> 1) fp fq (src + row * along)) m a = m a"
        unfolding addr_def by (intro deblk_luma_lines(2) [OF geo]) auto
    qed
  qed
qed

section \<open>Chroma edges\<close>

definition chroma_ref :: "int \<Rightarrow> int \<Rightarrow> bool \<Rightarrow> bool \<Rightarrow> (int \<Rightarrow> int) \<Rightarrow> int \<Rightarrow> int" where
  "chroma_ref top_val tc filter_p filter_q s i =
     (if (if i < 0 then filter_p else filter_q) then chroma_new top_val tc s i else s i)"

lemma chroma_ref_range:
  assumes "0 \<le> s i" "s i \<le> M" "0 \<le> M"
  shows "0 \<le> chroma_ref M tc fp fq s i \<and> chroma_ref M tc fp fq s i \<le> M"
  using assms clip3_range [of 0 M] by (simp add: chroma_ref_def chroma_new_def)

lemma chroma_ref_zero:
  assumes "0 \<le> s i" "s i \<le> M"
  shows "chroma_ref M 0 fp fq s i = s i"
proof -
  have "chroma_delta 0 s = 0" by (simp add: chroma_delta_def CLIP3_def)
  moreover have "CLIP3 (s i) 0 M = s i" using assms by (simp add: CLIP3_def)
  ultimately show ?thesis by (auto simp: chroma_ref_def chroma_new_def)
qed

lemma chroma_ref_cong:
  assumes "\<And>i. chroma_i i \<Longrightarrow> s i = s' i" "chroma_i i"
  shows "chroma_ref M tc fp fq s i = chroma_ref M tc fp fq s' i"
  using assms(1) [of "- 2"] assms(1) [of "- 1"] assms(1) [of 0] assms(1) [of 1] assms(1) [OF assms(2)]
  by (simp add: chroma_ref_def chroma_new_def chroma_delta_def)

lemma chroma_line_at:
  assumes "0 < across" "chroma_i i"
  shows "chroma_line across top_val tc fp fq src m (src + i * across) =
    word_of_int (chroma_ref top_val tc (fp \<noteq> 0) (fq \<noteq> 0) (\<lambda>i. uint (m (src + i * across))) i)"
proof -
  have ne: "across \<noteq> 0" using assms(1) by simp
  have i: "i = - 2 \<or> i = - 1 \<or> i = 0 \<or> i = 1" using assms(2) by linarith
  note eq = across_eq [OF assms(1), of src]
  show ?thesis using i by (elim disjE)
    (hypsubst, simp only: chroma_line_def Let_def fun_upd_apply eq, simp add: ne chroma_ref_def chroma_new_def)+
qed

lemma chroma_line_rest:
  assumes "\<And>i. chroma_i i \<Longrightarrow> a \<noteq> src + i * across"
  shows "chroma_line across top_val tc fp fq src m a = m a"
  using assms [of "- 1"] assms [of 0] by (simp add: chroma_line_def Let_def)

text \<open>A row of a vertical edge: the sample at distance \<open>j\<close> is sample \<open>j div 2\<close> of its component.\<close>

definition chroma_row_ref :: "int \<Rightarrow> int \<Rightarrow> int \<Rightarrow> bool \<Rightarrow> bool \<Rightarrow> (int \<Rightarrow> int) \<Rightarrow> int \<Rightarrow> int" where
  "chroma_row_ref top_val tc_u tc_v filter_p filter_q s j =
     chroma_ref top_val (if odd j then tc_v else tc_u) filter_p filter_q (\<lambda>i. s (2 * i + j mod 2)) (j div 2)"

lemma chroma_vert_row_at:
  assumes "luma_i j"
  shows "chroma_vert_row top_val tc_u tc_v fp fq src m (src + j) =
    word_of_int (chroma_row_ref top_val tc_u tc_v (fp \<noteq> 0) (fq \<noteq> 0) (\<lambda>j. uint (m (src + j))) j)"
proof -
  have j: "j = - 4 \<or> j = - 3 \<or> j = - 2 \<or> j = - 1 \<or> j = 0 \<or> j = 1 \<or> j = 2 \<or> j = 3" using assms by linarith
  have addr: "src + i * 2 = src + (2 * i)" "src + 1 + i * 2 = src + (2 * i + 1)" for i by simp_all
  show ?thesis using j by (elim disjE)
    (hypsubst, simp add: chroma_vert_row_def Let_def chroma_row_ref_def chroma_ref_def chroma_new_def chroma_delta_def addr)+
qed

lemma chroma_vert_row_rest:
  assumes "\<And>j. luma_i j \<Longrightarrow> a \<noteq> src + j"
  shows "chroma_vert_row top_val tc_u tc_v fp fq src m a = m a"
  using assms [of "- 2"] assms [of "- 1"] assms [of 0] assms [of 1] by (simp add: chroma_vert_row_def Let_def)

lemma chroma_row_ref_cong:
  assumes "\<And>j. luma_i j \<Longrightarrow> s j = s' j" "luma_i j"
  shows "chroma_row_ref M tc_u tc_v fp fq s j = chroma_row_ref M tc_u tc_v fp fq s' j"
  unfolding chroma_row_ref_def by (rule chroma_ref_cong) (use assms(2) in \<open>auto intro!: assms(1)\<close>)

text \<open>Both kinds of edges: the lines have their result, and skipping an edge with no threshold is one too.\<close>

lemma deblk_chroma_horz_edge:
  fixes m :: "int \<Rightarrow> 'l::len word" and src :: int
  assumes stride: "8 \<le> src_strd" and depth: "depth \<le> LENGTH('l)"
    and fits: "edge_fits depth 8 chroma_i (edge_addr src_strd 1 src) m"
  defines "addr \<equiv> edge_addr src_strd 1 src"
  shows "edge_result 8 chroma_i addr (\<lambda>l. chroma_ref (2 ^ depth - 1)
      (chroma_tc depth capped qp qq (if odd l then ov else ou) tco) (fp \<noteq> 0) (fq \<noteq> 0) (edge_samples addr m l)) m
      (deblk_chroma_horz depth capped src src_strd qp qq ou ov tco fp fq m)"
proof -
  let ?M = "2 ^ depth - 1 :: int"
  define tc where "tc l = chroma_tc depth capped qp qq (if odd l then ov else ou) tco" for l :: int
  define tc_u where "tc_u = chroma_tc depth capped qp qq ou tco"
  define tc_v where "tc_v = chroma_tc depth capped qp qq ov tco"
  have tc: "tc l = (if odd l then tc_v else tc_u)" for l by (simp add: tc_def tc_u_def tc_v_def)
  have s: "0 \<le> edge_samples addr m l i \<and> edge_samples addr m l i \<le> ?M" if "0 \<le> l" "l < 8" "chroma_i i" for l i
    using fits that by (simp add: edge_fits_def edge_samples_def addr_def)
  show ?thesis
  proof (cases "0 = tc_u \<and> 0 = tc_v")
    case True
    then have "deblk_chroma_horz depth capped src src_strd qp qq ou ov tco fp fq m = m"
      by (simp add: deblk_chroma_horz_def tc_u_def tc_v_def)
    moreover have "tc l = 0" for l using True tc by simp
    ultimately show ?thesis
      using chroma_ref_zero s by (simp add: edge_result_def tc_def [symmetric] edge_samples_def)
  next
    case False
    define G :: "int \<Rightarrow> (int \<Rightarrow> 'l word) \<Rightarrow> int \<Rightarrow> 'l word" where
      "G = (\<lambda>k r i. word_of_int (chroma_ref ?M (tc k) (fp \<noteq> 0) (fq \<noteq> 0) (\<lambda>i. uint (r i)) i))"
    have m': "deblk_chroma_horz depth capped src src_strd qp qq ou ov tco fp fq m =
        for_to 8 (\<lambda>col. chroma_line src_strd ?M (tc col) fp fq (src + col * 1)) m"
      using False unfolding deblk_chroma_horz_def Let_def tc_u_def [symmetric] tc_v_def [symmetric] tc by auto
    have inj: "\<And>l i l' i'. 0 \<le> l \<Longrightarrow> l < 8 \<Longrightarrow> chroma_i i \<Longrightarrow> 0 \<le> l' \<Longrightarrow> l' < 8 \<Longrightarrow> chroma_i i' \<Longrightarrow> addr l i = addr l' i' \<Longrightarrow> l = l'"
      unfolding addr_def by (rule edge_inj [of src_strd 1, THEN conjunct1]) (use stride in auto)
    have across: "0 < src_strd" using stride by simp
    have line: "\<And>k t i. 0 \<le> k \<Longrightarrow> k < 8 \<Longrightarrow> chroma_i i \<Longrightarrow>
        chroma_line src_strd ?M (tc k) fp fq (src + k * 1) t (addr k i) = G k (\<lambda>i. t (addr k i)) i"
      unfolding addr_def edge_addr_def G_def by (rule chroma_line_at [OF across])
    have rest: "\<And>k t a. 0 \<le> k \<Longrightarrow> k < 8 \<Longrightarrow> (\<And>i. chroma_i i \<Longrightarrow> a \<noteq> addr k i) \<Longrightarrow>
        chroma_line src_strd ?M (tc k) fp fq (src + k * 1) t a = t a"
      unfolding addr_def edge_addr_def by (rule chroma_line_rest)
    have cong: "\<And>k r r' i. (\<And>i. chroma_i i \<Longrightarrow> r i = r' i) \<Longrightarrow> chroma_i i \<Longrightarrow> G k r i = G k r' i"
      unfolding G_def by (intro arg_cong [where f = word_of_int] chroma_ref_cong) auto
    note maps = lines_map [where V = chroma_i and n = 8 and addr = addr and G = G, OF inj line rest cong]
    show ?thesis unfolding edge_result_def m' tc_def [symmetric]
    proof (intro conjI allI impI)
      fix l i :: int assume l: "0 \<le> l \<and> l < 8 \<and> chroma_i i"
      have "for_to 8 (\<lambda>col. chroma_line src_strd ?M (tc col) fp fq (src + col * 1)) m (addr l i) =
          word_of_int (chroma_ref ?M (tc l) (fp \<noteq> 0) (fq \<noteq> 0) (edge_samples addr m l) i)"
        unfolding edge_samples_def [abs_def] by (rule maps(1) [unfolded G_def]) (use l in auto)
      then show "uint (for_to 8 (\<lambda>col. chroma_line src_strd ?M (tc col) fp fq (src + col * 1)) m (addr l i)) =
          chroma_ref ?M (tc l) (fp \<noteq> 0) (fq \<noteq> 0) (edge_samples addr m l) i"
        using word_samples [OF _ _ depth] chroma_ref_range [of "edge_samples addr m l" i ?M "tc l" "fp \<noteq> 0" "fq \<noteq> 0"] s [of l i] l by simp
    next
      fix a :: int assume "\<forall>l i. 0 \<le> l \<and> l < 8 \<and> chroma_i i \<longrightarrow> a \<noteq> addr l i"
      then show "for_to 8 (\<lambda>col. chroma_line src_strd ?M (tc col) fp fq (src + col * 1)) m a = m a"
        by (intro maps(2)) auto
    qed
  qed
qed

lemma deblk_chroma_vert_edge:
  fixes m :: "int \<Rightarrow> 'l::len word" and src :: int
  assumes stride: "8 \<le> src_strd" and depth: "depth \<le> LENGTH('l)"
    and fits: "edge_fits depth 4 luma_i (edge_addr 1 src_strd src) m"
  defines "addr \<equiv> edge_addr 1 src_strd src"
  shows "edge_result 4 luma_i addr (\<lambda>l. chroma_row_ref (2 ^ depth - 1)
      (chroma_tc depth capped qp qq ou tco) (chroma_tc depth capped qp qq ov tco) (fp \<noteq> 0) (fq \<noteq> 0) (edge_samples addr m l)) m
      (deblk_chroma_vert depth capped src src_strd qp qq ou ov tco fp fq m)"
proof -
  let ?M = "2 ^ depth - 1 :: int"
  define tc_u where "tc_u = chroma_tc depth capped qp qq ou tco"
  define tc_v where "tc_v = chroma_tc depth capped qp qq ov tco"
  let ?ref = "chroma_row_ref ?M tc_u tc_v (fp \<noteq> 0) (fq \<noteq> 0)"
  have s: "0 \<le> edge_samples addr m l i \<and> edge_samples addr m l i \<le> ?M" if "0 \<le> l" "l < 4" "luma_i i" for l i
    using fits that by (simp add: edge_fits_def edge_samples_def addr_def)
  show ?thesis
  proof (cases "0 = tc_u \<and> 0 = tc_v")
    case True
    then have "deblk_chroma_vert depth capped src src_strd qp qq ou ov tco fp fq m = m"
      by (simp add: deblk_chroma_vert_def tc_u_def tc_v_def)
    moreover have "?ref (edge_samples addr m l) j = edge_samples addr m l j" if "0 \<le> l" "l < 4" "luma_i j" for l j
    proof -
      have j: "2 * (j div 2) + j mod 2 = j" by simp
      show ?thesis unfolding chroma_row_ref_def
        using True chroma_ref_zero [of "\<lambda>i. edge_samples addr m l (2 * i + j mod 2)" "j div 2" ?M] s [OF that] by (simp only: j) auto
    qed
    ultimately show ?thesis by (simp add: edge_result_def tc_u_def [symmetric] tc_v_def [symmetric] edge_samples_def)
  next
    case False
    define G :: "int \<Rightarrow> (int \<Rightarrow> 'l word) \<Rightarrow> int \<Rightarrow> 'l word" where "G = (\<lambda>k r i. word_of_int (?ref (\<lambda>i. uint (r i)) i))"
    have m': "deblk_chroma_vert depth capped src src_strd qp qq ou ov tco fp fq m =
        for_to 4 (\<lambda>row. chroma_vert_row ?M tc_u tc_v fp fq (src + row * src_strd)) m"
      using False unfolding deblk_chroma_vert_def Let_def tc_u_def [symmetric] tc_v_def [symmetric] by auto
    have inj: "\<And>l i l' i'. 0 \<le> l \<Longrightarrow> l < 4 \<Longrightarrow> luma_i i \<Longrightarrow> 0 \<le> l' \<Longrightarrow> l' < 4 \<Longrightarrow> luma_i i' \<Longrightarrow> addr l i = addr l' i' \<Longrightarrow> l = l'"
      unfolding addr_def by (rule edge_inj [of 1 src_strd, THEN conjunct1]) (use stride in auto)
    have addr: "addr k i = src + k * src_strd + i" for k i by (simp add: addr_def edge_addr_def)
    have line: "\<And>k t i. 0 \<le> k \<Longrightarrow> k < 4 \<Longrightarrow> luma_i i \<Longrightarrow>
        chroma_vert_row ?M tc_u tc_v fp fq (src + k * src_strd) t (addr k i) = G k (\<lambda>i. t (addr k i)) i"
      unfolding addr G_def by (rule chroma_vert_row_at)
    have rest: "\<And>k t a. 0 \<le> k \<Longrightarrow> k < 4 \<Longrightarrow> (\<And>i. luma_i i \<Longrightarrow> a \<noteq> addr k i) \<Longrightarrow>
        chroma_vert_row ?M tc_u tc_v fp fq (src + k * src_strd) t a = t a"
      unfolding addr by (rule chroma_vert_row_rest)
    have cong: "\<And>k r r' i. (\<And>i. luma_i i \<Longrightarrow> r i = r' i) \<Longrightarrow> luma_i i \<Longrightarrow> G k r i = G k r' i"
      unfolding G_def by (intro arg_cong [where f = word_of_int] chroma_row_ref_cong) auto
    note maps = lines_map [where V = luma_i and n = 4 and addr = addr and G = G, OF inj line rest cong]
    show ?thesis unfolding edge_result_def m' tc_u_def [symmetric] tc_v_def [symmetric]
    proof (intro conjI allI impI)
      fix l i :: int assume l: "0 \<le> l \<and> l < 4 \<and> luma_i i"
      have r: "0 \<le> ?ref (edge_samples addr m l) i \<and> ?ref (edge_samples addr m l) i \<le> ?M"
      proof -
        have j: "2 * (i div 2) + i mod 2 = i" by simp
        show ?thesis unfolding chroma_row_ref_def
          by (rule chroma_ref_range) (use s [of l i] l in \<open>simp_all only: j, auto\<close>)
      qed
      have "for_to 4 (\<lambda>row. chroma_vert_row ?M tc_u tc_v fp fq (src + row * src_strd)) m (addr l i) =
          word_of_int (?ref (edge_samples addr m l) i)"
        unfolding edge_samples_def [abs_def] by (rule maps(1) [unfolded G_def]) (use l in auto)
      then show "uint (for_to 4 (\<lambda>row. chroma_vert_row ?M tc_u tc_v fp fq (src + row * src_strd)) m (addr l i)) =
          ?ref (edge_samples addr m l) i"
        using word_samples [OF _ _ depth] r by simp
    next
      fix a :: int assume "\<forall>l i. 0 \<le> l \<and> l < 4 \<and> luma_i i \<longrightarrow> a \<noteq> addr l i"
      then show "for_to 4 (\<lambda>row. chroma_vert_row ?M tc_u tc_v fp fq (src + row * src_strd)) m a = m a"
        by (intro maps(2)) auto
    qed
  qed
qed

section \<open>The standard\<close>

text \<open>
  The filters of clause 8.7.2.5 of H.265, stated on their own: the thresholds by the steps of the tables
  of the standard, not by the arrays of the code, and each side of the edge by the same formulas, \<open>a\<close> the
  samples of the side counted from the edge, \<open>b\<close> those of the other side. \<open>std_limit lo hi\<close> is Clip3.
\<close>

definition std_limit :: "int \<Rightarrow> int \<Rightarrow> int \<Rightarrow> int" where
  "std_limit lo hi x = max lo (min hi x)"

definition std_beta' :: "int \<Rightarrow> int" where
  "std_beta' q = (if q < 16 then 0 else if q \<le> 28 then q - 10 else 2 * q - 38)"

definition std_tc' :: "int \<Rightarrow> int" where
  "std_tc' q = (if q < 18 then 0 else if q \<le> 26 then 1 else if q \<le> 30 then 2 else if q \<le> 34 then 3
     else if q \<le> 37 then 4 else if q \<le> 39 then 5 else if q \<le> 41 then 6 else if q \<le> 46 then q - 35
     else if q \<le> 48 then q - 34 else 2 * q - 82)"

definition std_luma_beta :: "nat \<Rightarrow> int \<Rightarrow> int \<Rightarrow> int \<Rightarrow> int" where
  "std_luma_beta depth qp qq beta_offset_div2 =
     std_beta' (std_limit 0 51 ((qp + qq + 1) div 2 + 2 * beta_offset_div2)) * 2 ^ (depth - 8)"

definition std_luma_tc :: "nat \<Rightarrow> int \<Rightarrow> int \<Rightarrow> int \<Rightarrow> int \<Rightarrow> int" where
  "std_luma_tc depth bs qp qq tc_offset_div2 =
     std_tc' (std_limit 0 53 ((qp + qq + 1) div 2 + 2 * (bs - 1) + 2 * tc_offset_div2)) * 2 ^ (depth - 8)"

definition std_strong :: "int \<Rightarrow> (int \<Rightarrow> int) \<Rightarrow> (int \<Rightarrow> int) \<Rightarrow> int \<Rightarrow> int" where
  "std_strong tc a b k =
     (let filtered = (if k = 0 then (a 2 + 2 * a 1 + 2 * a 0 + 2 * b 0 + b 1 + 4) div 8
        else if k = 1 then (a 2 + a 1 + a 0 + b 0 + 2) div 4
        else if k = 2 then (2 * a 3 + 3 * a 2 + a 1 + a 0 + b 0 + 4) div 8 else a k)
      in std_limit (a k - 2 * tc) (a k + 2 * tc) filtered)"

text \<open>The weak filter of one side; \<open>delta\<close> is counted towards the other side.\<close>

definition std_weak :: "int \<Rightarrow> int \<Rightarrow> bool \<Rightarrow> int \<Rightarrow> (int \<Rightarrow> int) \<Rightarrow> int \<Rightarrow> int" where
  "std_weak top_val tc second delta a k =
     (if \<bar>delta\<bar> < 10 * tc \<and> (k = 0 \<or> k = 1 \<and> second)
      then let delta = std_limit (- tc) tc delta in
        std_limit 0 top_val (a k + (if k = 0 then delta
          else std_limit (- (tc div 2)) (tc div 2) (((a 2 + a 0 + 1) div 2 - a 1 + delta) div 2)))
      else a k)"

text \<open>The samples of the lines before the edge and after it, and the decisions on the first and the last line.\<close>

definition std_luma :: "int \<Rightarrow> int \<Rightarrow> int \<Rightarrow> bool \<Rightarrow> bool \<Rightarrow> (int \<Rightarrow> int \<Rightarrow> int) \<Rightarrow> int \<Rightarrow> int \<Rightarrow> int" where
  "std_luma top_val beta tc filter_p filter_q s l i = (
     let p = (\<lambda>l k. s l (- 1 - k)); q = s;
         bend = (\<lambda>a. \<bar>a 2 - 2 * a 1 + a 0\<bar>);
         flat = (\<lambda>l. 2 * (bend (p l) + bend (q l)) < beta div 4 \<and> \<bar>p l 3 - p l 0\<bar> + \<bar>q l 0 - q l 3\<bar> < beta div 8 \<and>
           \<bar>p l 0 - q l 0\<bar> < (5 * tc + 1) div 2);
         delta = (9 * (q l 0 - p l 0) - 3 * (q l 1 - p l 1) + 8) div 16;
         side = (\<lambda>a b filtered delta k. if \<not> filtered \<or> beta \<le> bend (p 0) + bend (q 0) + bend (p 3) + bend (q 3) then a l k
           else if flat 0 \<and> flat 3 then std_strong tc (a l) (b l) k
           else std_weak top_val tc (bend (a 0) + bend (a 3) < (beta + beta div 2) div 8) delta (a l) k)
     in if i < 0 then side p q filter_p delta (- 1 - i) else side q p filter_q (- delta) i)"

text \<open>
  Chroma: the quantiser of a component by \<open>ChromaArrayType\<close>, 1 for 4:2:0, 2 for 4:2:2, 3 for 4:4:4, the
  threshold for the boundary strength 2, and the filter of a line.
\<close>

definition std_qp_c :: "int \<Rightarrow> int \<Rightarrow> int" where
  "std_qp_c chroma_array_type qp_i = (if chroma_array_type \<noteq> 1 then min qp_i 51
     else if qp_i < 30 then qp_i else if qp_i \<le> 33 then qp_i - 1 else if qp_i \<le> 43 then 33 + (qp_i - 34) div 2 else qp_i - 6)"

definition std_chroma_tc :: "nat \<Rightarrow> int \<Rightarrow> int \<Rightarrow> int \<Rightarrow> int \<Rightarrow> int \<Rightarrow> int" where
  "std_chroma_tc depth chroma_array_type qp qq qp_offset tc_offset_div2 =
     std_tc' (std_limit 0 53 (std_qp_c chroma_array_type ((qp + qq + 1) div 2 + qp_offset) + 2 * (2 - 1) + 2 * tc_offset_div2)) *
       2 ^ (depth - 8)"

definition std_chroma :: "int \<Rightarrow> int \<Rightarrow> bool \<Rightarrow> bool \<Rightarrow> (int \<Rightarrow> int) \<Rightarrow> int \<Rightarrow> int" where
  "std_chroma top_val tc filter_p filter_q s i = (
     let p = (\<lambda>k. s (- 1 - k)); q = s;
         delta = std_limit (- tc) tc (((q 0 - p 0) * 4 + p 1 - q 1 + 4) div 8)
     in if i = - 1 \<and> filter_p then std_limit 0 top_val (p 0 + delta)
        else if i = 0 \<and> filter_q then std_limit 0 top_val (q 0 - delta) else s i)"

text \<open>The tables of the code are those of the standard.\<close>

lemma CLIP3_std: "lo \<le> hi \<Longrightarrow> CLIP3 x lo hi = std_limit lo hi x"
  by (auto simp: CLIP3_def std_limit_def)

lemma std_limit_bounds: "lo \<le> hi \<Longrightarrow> lo \<le> std_limit lo hi x \<and> std_limit lo hi x \<le> hi"
  by (auto simp: std_limit_def)

lemma all_upto: "(\<forall>i \<in> {0..n}. Q i) \<longleftrightarrow> list_all Q [0..n]" for n :: int
  by (simp only: list_all_iff set_upto)

lemma beta_table_std: "0 \<le> q \<Longrightarrow> q \<le> 51 \<Longrightarrow> gai4_ihevc_beta_table ! nat q = std_beta' q"
proof -
  have "\<forall>q \<in> {0..51}. gai4_ihevc_beta_table ! nat q = std_beta' q"
    unfolding all_upto by (simp add: upto_rec1 gai4_ihevc_beta_table_def std_beta'_def)
  then show "0 \<le> q \<Longrightarrow> q \<le> 51 \<Longrightarrow> gai4_ihevc_beta_table ! nat q = std_beta' q" by simp
qed

lemma tc_table_std: "0 \<le> q \<Longrightarrow> q \<le> 53 \<Longrightarrow> gai4_ihevc_tc_table ! nat q = std_tc' q"
proof -
  have "\<forall>q \<in> {0..53}. gai4_ihevc_tc_table ! nat q = std_tc' q"
    unfolding all_upto by (simp add: upto_rec1 gai4_ihevc_tc_table_def std_tc'_def)
  then show "0 \<le> q \<Longrightarrow> q \<le> 53 \<Longrightarrow> gai4_ihevc_tc_table ! nat q = std_tc' q" by simp
qed

lemma qp_table_std: "0 \<le> q \<Longrightarrow> q \<le> 57 \<Longrightarrow> gai4_ihevc_qp_table ! nat q = std_qp_c 1 q"
proof -
  have "\<forall>q \<in> {0..57}. gai4_ihevc_qp_table ! nat q = std_qp_c 1 q"
    unfolding all_upto by (simp add: upto_rec1 gai4_ihevc_qp_table_def std_qp_c_def)
  then show "0 \<le> q \<Longrightarrow> q \<le> 57 \<Longrightarrow> gai4_ihevc_qp_table ! nat q = std_qp_c 1 q" by simp
qed

lemma luma_beta_std: "luma_beta depth qp qq bo = std_luma_beta depth qp qq bo"
  using std_limit_bounds [of 0 51] by (simp add: luma_beta_def std_luma_beta_def Let_def CLIP3_std beta_table_std)

text \<open>The code halves the strength, so that 3, which is no strength of the standard, counts as 2.\<close>

lemma luma_tc_std:
  assumes "1 \<le> bs" "bs \<le> 3"
  shows "luma_tc depth bs qp qq tco = std_luma_tc depth (min bs 2) qp qq tco"
proof -
  have "bs div 2 = min bs 2 - 1" using assms by (auto simp: min_def)
  then show ?thesis
    using std_limit_bounds [of 0 53] by (simp add: luma_tc_def std_luma_tc_def Let_def CLIP3_std tc_table_std)
qed

lemma chroma_tc_std:
  assumes "capped \<longleftrightarrow> chroma_array_type \<noteq> 1"
  shows "chroma_tc depth capped qp qq off tco = std_chroma_tc depth chroma_array_type qp qq off tco"
proof -
  have "chroma_qp capped x = std_qp_c chroma_array_type x" for x
  proof (cases "capped \<or> x < 0 \<or> 57 < x")
    case True
    then show ?thesis using assms by (auto simp: chroma_qp_def std_qp_c_def)
  next
    case False
    then show ?thesis using assms qp_table_std [of x] by (simp add: chroma_qp_def)
  qed
  then show ?thesis using std_limit_bounds [of 0 53]
    by (simp add: chroma_tc_def std_chroma_tc_def Let_def CLIP3_std tc_table_std add.commute [of off])
qed

text \<open>The filters of the code, written out for each side, are those of the standard.\<close>

abbreviation (input) near_side :: "(int \<Rightarrow> int) \<Rightarrow> int \<Rightarrow> int \<Rightarrow> int" where
  "near_side s i k \<equiv> if i < 0 then s (- 1 - k) else s k"

abbreviation (input) far_side :: "(int \<Rightarrow> int) \<Rightarrow> int \<Rightarrow> int \<Rightarrow> int" where
  "far_side s i k \<equiv> if i < 0 then s k else s (- 1 - k)"

lemma luma_i_cases: "luma_i i \<Longrightarrow> i = - 4 \<or> i = - 3 \<or> i = - 2 \<or> i = - 1 \<or> i = 0 \<or> i = 1 \<or> i = 2 \<or> i = 3"
  by linarith

lemma strong_std:
  assumes "0 \<le> tc" "luma_i i"
  shows "strong tc s i = std_strong tc (near_side s i) (far_side s i) (if i < 0 then - 1 - i else i)"
proof -
  have "std_limit (x - 2 * tc) (x + 2 * tc) x = x" for x using assms(1) by (simp add: std_limit_def)
  with luma_i_cases [OF assms(2)] show ?thesis using assms(1)
    by (elim disjE; hypsubst; simp add: strong_def std_strong_def CLIP3_std; simp add: ac_simps)
qed

lemma weak_std:
  assumes "0 \<le> tc" "luma_i i" "0 \<le> top_val"
  shows "weak top_val tc dep deq s i = std_weak top_val tc (if i < 0 then dep else deq)
    (if i < 0 then weak_delta s else - weak_delta s) (near_side s i) (if i < 0 then - 1 - i else i)"
proof -
  have "0 \<le> tc div 2" using assms(1) by simp
  moreover have "std_limit (- tc) tc (- x) = - std_limit (- tc) tc x" for x using assms(1) by (auto simp: std_limit_def)
  ultimately show ?thesis using luma_i_cases [OF assms(2)] assms(1,3)
    by (elim disjE) (hypsubst, simp add: weak_def std_weak_def CLIP3_std Let_def)+
qed

lemma luma_edge_std:
  assumes "0 \<le> tc" "luma_i i" "0 \<le> top_val"
  shows "luma_edge_ref top_val beta tc fp fq s l i = std_luma top_val beta tc fp fq s l i"
proof -
  define bp where "bp = (\<lambda>l. second_diff (s l) (- 3) (- 2) (- 1))"
  define bq where "bq = (\<lambda>l. second_diff (s l) 2 1 0)"
  have bend: "\<bar>s l (- 3) - 2 * s l (- 2) + s l (- 1)\<bar> = bp l" "\<bar>s l 2 - 2 * s l 1 + s l 0\<bar> = bq l"
    "second_diff (s l) (- 3) (- 2) (- 1) = bp l" "second_diff (s l) 2 1 0 = bq l" for l
    by (simp_all add: bp_def bq_def second_diff_def)
  define flat where "flat = (\<lambda>l. d_sam beta tc (bp l + bq l) (s l))"
  have fold: "d_sam beta tc (bp l + bq l) (s l) = flat l" for l by (simp add: flat_def)
  have flat: "(2 * (bp l + bq l) < beta div 4 \<and> \<bar>s l (- 4) - s l (- 1)\<bar> + \<bar>s l 0 - s l 3\<bar> < beta div 8 \<and>
      \<bar>s l (- 1) - s l 0\<bar> < (5 * tc + 1) div 2) = flat l" for l
    by (simp only: flat_def d_sam_def abs_minus_commute add.commute)
  have order: "bp 0 + bq 0 + bp 3 + bq 3 < beta \<longleftrightarrow> \<not> beta \<le> bp 0 + bq 0 + bp 3 + bq 3"
    "beta \<le> bq 0 + bp 0 + bq 3 + bp 3 \<longleftrightarrow> beta \<le> bp 0 + bq 0 + bp 3 + bq 3" by linarith+
  have k: "- 1 - (3::int) = - 4" "- 1 - (2::int) = - 3" "- 1 - (1::int) = - 2" "- 1 - (0::int) = - 1" by simp_all
  show ?thesis
    unfolding luma_edge_ref_def std_luma_def Let_def strong_std [OF assms(1,2)] weak_std [OF assms] k bend flat weak_delta_def
      fold order add.assoc [symmetric]
    by (cases "i < 0"; cases "beta \<le> bp 0 + bq 0 + bp 3 + bq 3"; cases "flat 0"; cases "flat 3") simp_all
qed

lemma chroma_ref_std:
  assumes "0 \<le> tc" "0 \<le> top_val"
  shows "chroma_ref top_val tc fp fq s i = std_chroma top_val tc fp fq s i"
  using assms by (auto simp: chroma_ref_def chroma_new_def chroma_delta_def std_chroma_def Let_def CLIP3_std)

section \<open>The filters\<close>

text \<open>How near the result is to the samples before.\<close>

lemma luma_edge_ref_near:
  assumes "line_ok M (s l)" "0 \<le> tc" "luma_i i"
  shows "0 \<le> luma_edge_ref M beta tc fp fq s l i \<and> luma_edge_ref M beta tc fp fq s l i \<le> M \<and>
    \<bar>luma_edge_ref M beta tc fp fq s l i - s l i\<bar> \<le> 2 * tc"
proof -
  define P where "P = (\<lambda>y. 0 \<le> y \<and> y \<le> M \<and> \<bar>y - s l i\<bar> \<le> 2 * tc)"
  have "P (strong tc (s l) i)" using strong_near [OF assms] by (simp add: P_def)
  moreover have "P (weak M tc dep deq (s l) i)" for dep deq
    using weak_near [OF assms, of dep deq] assms(2) by (auto simp: P_def)
  moreover have "P (s l i)" using assms by (simp add: P_def line_ok_def)
  ultimately have "P (luma_edge_ref M beta tc fp fq s l i)" by (simp add: luma_edge_ref_def Let_def)
  then show ?thesis by (simp add: P_def)
qed

text \<open>The result of a luma routine is the one of the standard. \<open>bs\<close> is the boundary strength, a
  strength of 3 counted as 2.\<close>

definition luma_exact :: "nat \<Rightarrow> int \<Rightarrow> int \<Rightarrow> int \<Rightarrow> int \<Rightarrow> int \<Rightarrow> int \<Rightarrow> int \<Rightarrow> int \<Rightarrow> int \<Rightarrow> int \<Rightarrow>
    (int \<Rightarrow> 'l::len word) \<Rightarrow> (int \<Rightarrow> 'l word) \<Rightarrow> bool" where
  "luma_exact depth across along src bs qp qq beta_offset_div2 tc_offset_div2 fp fq m m' \<longleftrightarrow> edge_result 4 luma_i (edge_addr across along src)
     (std_luma (2 ^ depth - 1) (std_luma_beta depth qp qq beta_offset_div2) (std_luma_tc depth (min bs 2) qp qq tc_offset_div2)
       (fp \<noteq> 0) (fq \<noteq> 0) (edge_samples (edge_addr across along src) m)) m m'"

lemma edge_result_cong:
  "(\<And>l i. 0 \<le> l \<Longrightarrow> l < n \<Longrightarrow> V i \<Longrightarrow> new l i = new' l i) \<Longrightarrow> edge_result n V addr new m m' \<Longrightarrow> edge_result n V addr new' m m'"
  by (auto simp: edge_result_def)

lemma deblk_luma_std:
  fixes m :: "int \<Rightarrow> 'l::len word"
  assumes "across = 1 \<and> 8 \<le> along \<or> along = 1 \<and> 8 \<le> across" "depth \<le> LENGTH('l)"
    and "edge_fits depth 4 luma_i (edge_addr across along src) m" "1 \<le> bs" "bs \<le> 3"
  shows "luma_exact depth across along src bs qp qq bo tco fp fq m (deblk_luma depth across along src bs qp qq bo tco fp fq m)"
  unfolding luma_exact_def
  by (rule edge_result_cong [OF _ deblk_luma_edge [OF assms(1-3)]])
    (simp add: luma_edge_std luma_beta_std luma_tc_std [OF assms(4,5), symmetric] luma_tc_nonneg)

lemma luma_exact_at:
  assumes "luma_exact depth across along src bs qp qq bo tco fp fq m m'" "0 \<le> l" "l < 4" "luma_i i"
  shows "uint (m' (src + l * along + i * across)) = std_luma (2 ^ depth - 1) (std_luma_beta depth qp qq bo)
    (std_luma_tc depth (min bs 2) qp qq tco) (fp \<noteq> 0) (fq \<noteq> 0) (\<lambda>l i. uint (m (src + l * along + i * across))) l i"
  using assms by (simp add: luma_exact_def edge_result_def edge_addr_def edge_samples_def [abs_def])

lemmas luma_eval = std_luma_def std_strong_def std_weak_def std_luma_beta_def std_luma_tc_def std_beta'_def std_tc'_def
  std_limit_def Let_def

text \<open>C7: The luma deblocking routines, for vertical and horizontal edges and for 8-bit samples and more
  bits, write to each sample of the four lines of the edge what the standard gives on the samples before
  the call, with the thresholds, the decisions and the filters of clause 8.7.2.5 stated independently of
  the code, and write to nothing else: the tables, filtering in place, the return on a zero threshold and
  the skipped outer samples for a small one make no difference. The strength is in the range the code
  asserts.\<close>
theorem deblk_luma_exact:
  assumes "8 \<le> src_strd" "8 \<le> depth" "depth \<le> 16" "1 \<le> bs" "bs \<le> 3"
    and "edge_fits depth 4 luma_i (edge_addr 1 src_strd src) m16" "edge_fits depth 4 luma_i (edge_addr src_strd 1 src) m16"
  shows "luma_exact 8 1 src_strd src bs qp qq bo tco fp fq m8 (ihevc_deblk_luma_vert src src_strd bs qp qq bo tco fp fq m8) \<and>
    luma_exact 8 src_strd 1 src bs qp qq bo tco fp fq m8 (ihevc_deblk_luma_horz src src_strd bs qp qq bo tco fp fq m8) \<and>
    luma_exact depth 1 src_strd src bs qp qq bo tco fp fq m16 (ihevc_hbd_deblk_luma_vert depth src src_strd bs qp qq bo tco fp fq m16) \<and>
    luma_exact depth src_strd 1 src bs qp qq bo tco fp fq m16 (ihevc_hbd_deblk_luma_horz depth src src_strd bs qp qq bo tco fp fq m16)"
  unfolding ihevc_deblk_luma_vert_def ihevc_deblk_luma_horz_def ihevc_hbd_deblk_luma_vert_def ihevc_hbd_deblk_luma_horz_def
  using assms by (intro conjI deblk_luma_std) auto

lemma deblk_luma_exact_witness:
  "uint (ihevc_deblk_luma_vert 0 16 2 32 32 0 0 1 1 (\<lambda>a. if a mod 16 < 8 then 60 else 56) (- 1)) = 58 \<and>
   uint (ihevc_hbd_deblk_luma_horz 10 0 16 2 32 32 0 0 1 1 (\<lambda>a. 700) 17) = 700"
proof -
  let ?m8 = "\<lambda>a :: int. if a mod 16 < 8 then 60 else 56 :: 8 word" and ?m16 = "\<lambda>a :: int. 700 :: 16 word"
  have "edge_fits 10 4 luma_i (edge_addr 1 16 0) ?m16" "edge_fits 10 4 luma_i (edge_addr 16 1 0) ?m16"
    by (simp_all add: edge_fits_def)
  from deblk_luma_exact [OF _ _ _ _ _ this, of 2 32 32 0 0 1 1 ?m8]
  have v: "luma_exact 8 1 16 0 2 32 32 0 0 1 1 ?m8 (ihevc_deblk_luma_vert 0 16 2 32 32 0 0 1 1 ?m8)"
    and h: "luma_exact 10 16 1 0 2 32 32 0 0 1 1 ?m16 (ihevc_hbd_deblk_luma_horz 10 0 16 2 32 32 0 0 1 1 ?m16)" by simp_all
  show ?thesis using luma_exact_at [OF v, of 0 "- 1"] luma_exact_at [OF h, of 1 1] by (simp add: luma_eval)
qed

text \<open>C9: A luma deblocking routine changes a sample by at most twice the clipping threshold of the edge,
  so no result of a filter wraps, and samples of a bit depth stay in its range.\<close>
theorem deblk_luma_near:
  assumes "across = 1 \<and> 8 \<le> along \<or> along = 1 \<and> 8 \<le> across" "depth \<le> LENGTH('l)"
    and "edge_fits depth 4 luma_i (edge_addr across along src) (m :: int \<Rightarrow> 'l::len word)" "0 \<le> l" "l < 4" "luma_i i"
  shows "let x = uint (m (edge_addr across along src l i));
      y = uint (deblk_luma depth across along src bs qp qq bo tco fp fq m (edge_addr across along src l i))
    in y \<le> 2 ^ depth - 1 \<and> \<bar>y - x\<bar> \<le> 2 * luma_tc depth bs qp qq tco"
  using deblk_luma_edge [OF assms(1-3), of qp qq bo bs tco fp fq] assms(4-6)
    luma_edge_ref_near [of _ "edge_samples (edge_addr across along src) m" l, OF edge_line_ok [OF assms(3-5)]
      luma_tc_nonneg [of depth bs qp qq tco] assms(6), of "luma_beta depth qp qq bo" "fp \<noteq> 0" "fq \<noteq> 0"]
  by (simp add: edge_result_def Let_def edge_samples_def)

lemma deblk_luma_near_witness:
  "\<bar>uint (deblk_luma 10 1 16 0 2 40 41 1 1 1 1 (\<lambda>a. if a < 32 then 500 else 530 :: 16 word) 33) - 530\<bar> \<le> 80"
proof -
  have "edge_fits 10 4 luma_i (edge_addr 1 16 0) (\<lambda>a. if a < 32 then 500 else 530 :: 16 word)"
    by (simp add: edge_fits_def)
  from deblk_luma_near [OF _ _ this, of 2 1 2 40 41 1 1 1 1] show ?thesis
    by (simp add: edge_addr_def Let_def luma_tc_def CLIP3_def gai4_ihevc_tc_table_def)
qed

text \<open>
  The result of a chroma routine is the one of the standard. In a row across a vertical edge the
  components alternate: the sample at distance \<open>j\<close> is sample \<open>j div 2\<close> of component \<open>j mod 2\<close>. Along a
  horizontal edge the columns alternate.
\<close>

definition chroma_vert_exact :: "nat \<Rightarrow> int \<Rightarrow> int \<Rightarrow> int \<Rightarrow> int \<Rightarrow> int \<Rightarrow> int \<Rightarrow> int \<Rightarrow> int \<Rightarrow> int \<Rightarrow> int \<Rightarrow>
    (int \<Rightarrow> 'l::len word) \<Rightarrow> (int \<Rightarrow> 'l word) \<Rightarrow> bool" where
  "chroma_vert_exact depth chroma_array_type src src_strd qp qq ou ov tco fp fq m m' \<longleftrightarrow>
     edge_result 4 luma_i (edge_addr 1 src_strd src)
     (\<lambda>l j. std_chroma (2 ^ depth - 1) (std_chroma_tc depth chroma_array_type qp qq (if odd j then ov else ou) tco)
       (fp \<noteq> 0) (fq \<noteq> 0) (\<lambda>i. edge_samples (edge_addr 1 src_strd src) m l (2 * i + j mod 2)) (j div 2)) m m'"

definition chroma_horz_exact :: "nat \<Rightarrow> int \<Rightarrow> int \<Rightarrow> int \<Rightarrow> int \<Rightarrow> int \<Rightarrow> int \<Rightarrow> int \<Rightarrow> int \<Rightarrow> int \<Rightarrow> int \<Rightarrow>
    (int \<Rightarrow> 'l::len word) \<Rightarrow> (int \<Rightarrow> 'l word) \<Rightarrow> bool" where
  "chroma_horz_exact depth chroma_array_type src src_strd qp qq ou ov tco fp fq m m' \<longleftrightarrow>
     edge_result 8 chroma_i (edge_addr src_strd 1 src)
     (\<lambda>l. std_chroma (2 ^ depth - 1) (std_chroma_tc depth chroma_array_type qp qq (if odd l then ov else ou) tco)
       (fp \<noteq> 0) (fq \<noteq> 0) (edge_samples (edge_addr src_strd 1 src) m l)) m m'"

lemma chroma_tc_nonneg: "0 \<le> chroma_tc depth capped qp qq off tco"
  using tc_table_nonneg [of "CLIP3 x 0 53" for x] clip3_range [of 0 53] by (simp add: chroma_tc_def Let_def)

lemma deblk_chroma_std:
  fixes m :: "int \<Rightarrow> 'l::len word"
  assumes "8 \<le> src_strd" "depth \<le> LENGTH('l)" "capped \<longleftrightarrow> typ \<noteq> 1"
  shows "edge_fits depth 4 luma_i (edge_addr 1 src_strd src) m \<Longrightarrow>
      chroma_vert_exact depth typ src src_strd qp qq ou ov tco fp fq m (deblk_chroma_vert depth capped src src_strd qp qq ou ov tco fp fq m)"
    and "edge_fits depth 8 chroma_i (edge_addr src_strd 1 src) m \<Longrightarrow>
      chroma_horz_exact depth typ src src_strd qp qq ou ov tco fp fq m (deblk_chroma_horz depth capped src src_strd qp qq ou ov tco fp fq m)"
proof -
  note tc = chroma_tc_std [OF assms(3), symmetric]
  assume fits: "edge_fits depth 4 luma_i (edge_addr 1 src_strd src) m"
  show "chroma_vert_exact depth typ src src_strd qp qq ou ov tco fp fq m (deblk_chroma_vert depth capped src src_strd qp qq ou ov tco fp fq m)"
    unfolding chroma_vert_exact_def tc
    by (rule edge_result_cong [OF _ deblk_chroma_vert_edge [OF assms(1,2) fits]])
      (simp add: chroma_row_ref_def chroma_ref_std chroma_tc_nonneg)
next
  note tc = chroma_tc_std [OF assms(3), symmetric]
  assume fits: "edge_fits depth 8 chroma_i (edge_addr src_strd 1 src) m"
  show "chroma_horz_exact depth typ src src_strd qp qq ou ov tco fp fq m (deblk_chroma_horz depth capped src src_strd qp qq ou ov tco fp fq m)"
    unfolding chroma_horz_exact_def tc
    by (rule edge_result_cong [OF _ deblk_chroma_horz_edge [OF assms(1,2) fits]])
      (simp add: chroma_ref_std chroma_tc_nonneg)
qed

text \<open>C8: The chroma deblocking routines write to the samples of the lines of the edge what the chroma
  filter of the standard, stated independently of the code, gives on the samples before the call with the
  threshold of the component the sample belongs to, and to nothing else. For 8-bit samples the general
  routines serve 4:2:0 and 4:4:4, and filter 4:2:2 like 4:2:0; the 4:2:2 routines, which the decoder
  selects there, filter it as the standard says. For more bits the general routines serve the three
  formats, the 4:2:2 ones 4:2:2.\<close>
theorem deblk_chroma_exact:
  assumes "8 \<le> src_strd" "8 \<le> depth" "depth \<le> 16" "fmt \<in> {1, 2, 3}"
    and "edge_fits depth 4 luma_i (edge_addr 1 src_strd src) m16" "edge_fits depth 8 chroma_i (edge_addr src_strd 1 src) m16"
  shows "chroma_vert_exact 8 (if fmt = 2 then 1 else fmt) src src_strd qp qq ou ov tco fp fq m8
      (ihevc_deblk_chroma_vert fmt src src_strd qp qq ou ov tco fp fq m8) \<and>
    chroma_horz_exact 8 (if fmt = 2 then 1 else fmt) src src_strd qp qq ou ov tco fp fq m8
      (ihevc_deblk_chroma_horz fmt src src_strd qp qq ou ov tco fp fq m8) \<and>
    chroma_vert_exact 8 2 src src_strd qp qq ou ov tco fp fq m8
      (ihevc_deblk_422chroma_vert 2 src src_strd qp qq ou ov tco fp fq m8) \<and>
    chroma_horz_exact 8 2 src src_strd qp qq ou ov tco fp fq m8
      (ihevc_deblk_422chroma_horz 2 src src_strd qp qq ou ov tco fp fq m8) \<and>
    chroma_vert_exact depth fmt src src_strd qp qq ou ov tco fp fq m16
      (ihevc_hbd_deblk_chroma_vert depth fmt src src_strd qp qq ou ov tco fp fq m16) \<and>
    chroma_horz_exact depth fmt src src_strd qp qq ou ov tco fp fq m16
      (ihevc_hbd_deblk_chroma_horz depth fmt src src_strd qp qq ou ov tco fp fq m16) \<and>
    chroma_vert_exact depth 2 src src_strd qp qq ou ov tco fp fq m16
      (ihevc_hbd_deblk_422chroma_vert depth 2 src src_strd qp qq ou ov tco fp fq m16) \<and>
    chroma_horz_exact depth 2 src src_strd qp qq ou ov tco fp fq m16
      (ihevc_hbd_deblk_422chroma_horz depth 2 src src_strd qp qq ou ov tco fp fq m16)"
  unfolding ihevc_deblk_chroma_vert_def ihevc_deblk_chroma_horz_def ihevc_deblk_422chroma_vert_def
    ihevc_deblk_422chroma_horz_def ihevc_hbd_deblk_chroma_vert_def ihevc_hbd_deblk_chroma_horz_def
    ihevc_hbd_deblk_422chroma_vert_def ihevc_hbd_deblk_422chroma_horz_def
  using assms by (intro conjI deblk_chroma_std) auto

lemma chroma_horz_exact_at:
  assumes "chroma_horz_exact depth typ src src_strd qp qq ou ov tco fp fq m m'" "0 \<le> l" "l < 8" "chroma_i i"
  shows "uint (m' (src + l + i * src_strd)) = std_chroma (2 ^ depth - 1)
    (std_chroma_tc depth typ qp qq (if odd l then ov else ou) tco) (fp \<noteq> 0) (fq \<noteq> 0) (\<lambda>i. uint (m (src + l + i * src_strd))) i"
  using assms by (simp add: chroma_horz_exact_def edge_result_def edge_addr_def edge_samples_def [abs_def])

lemmas chroma_eval = std_chroma_def std_chroma_tc_def std_qp_c_def std_tc'_def std_limit_def Let_def

lemma deblk_chroma_exact_witness:
  "uint (ihevc_deblk_chroma_horz 1 0 16 32 32 0 0 0 1 1 (\<lambda>a. if 0 \<le> a then 60 else 50) 5) = 57 \<and>
   uint (ihevc_hbd_deblk_422chroma_horz 10 2 0 16 32 32 0 0 0 1 1 (\<lambda>a. 700) 17) = 700"
proof -
  let ?m8 = "\<lambda>a :: int. if 0 \<le> a then 60 else 50 :: 8 word" and ?m16 = "\<lambda>a :: int. 700 :: 16 word"
  have "edge_fits 10 4 luma_i (edge_addr 1 16 0) ?m16" "edge_fits 10 8 chroma_i (edge_addr 16 1 0) ?m16"
    by (simp_all add: edge_fits_def)
  from deblk_chroma_exact [OF _ _ _ _ this, of 1 32 32 0 0 0 1 1 ?m8]
  have a: "chroma_horz_exact 8 1 0 16 32 32 0 0 0 1 1 ?m8 (ihevc_deblk_chroma_horz 1 0 16 32 32 0 0 0 1 1 ?m8)"
    and b: "chroma_horz_exact 10 2 0 16 32 32 0 0 0 1 1 ?m16 (ihevc_hbd_deblk_422chroma_horz 10 2 0 16 32 32 0 0 0 1 1 ?m16)"
    by simp_all
  show ?thesis using chroma_horz_exact_at [OF a, of 5 0] chroma_horz_exact_at [OF b, of 1 1] by (simp add: chroma_eval)
qed

end
