(* ===== verification/Intra_Pred.thy ===== *)
theory Intra_Pred
  imports Samples
begin

text \<open>
  Intra prediction of a transform block from its reference samples: \<^verbatim>\<open>common/ihevc_intra_pred_filters.c\<close>,
  \<^verbatim>\<open>ihevc_chroma_intra_pred_filters.c\<close> and their twins for more bits, with the function tables of
  \<^verbatim>\<open>decoder/ihevcd_api.c\<close>. The reference samples are one array, the lowest of the left column first,
  the corner at \<open>2 * nt\<close>, then the row above. A chroma routine does for each of the two interleaved
  components what the luma routine does for one, so a routine of both kinds is an instance of one
  definition, \<open>comps\<close> the number of components. \<^verbatim>\<open>ref_temp\<close>, a local array, has arbitrary contents.

  \<open>intra_pred_exact\<close>: the routine that the tables select for a mode predicts what the standard
  says, for every mode and size. The reference is stated with the angles of the standard, its
  inverse angles as quotients, and samples at coordinates beside the block.
\<close>

unbundle bit_operations_syntax

section \<open>Tables\<close>

definition gai4_ihevc_ang_table :: "int list" where
  "gai4_ihevc_ang_table =
    [0, 0, 32, 26, 21, 17, 13, 9, 5, 2, 0, -2, -5, -9, -13, -17, -21, -26, -32,
     -26, -21, -17, -13, -9, -5, -2, 0, 2, 5, 9, 13, 17, 21, 26, 32]"

definition gai4_ihevc_inv_ang_table :: "int list" where
  "gai4_ihevc_inv_ang_table =
    [4096, 1638, 910, 630, 482, 390, 315, 315, 390, 482, 630, 910, 1638, 4096]"

definition gai4_ihevc_ang_table_chroma :: "int list" where
  "gai4_ihevc_ang_table_chroma =
    [0, 0, 32, 26, 21, 17, 13, 9, 5, 2, 0, -2, -5, -9,
     -13, -17, -21, -26, -32, -26, -21, -17, -13, -9, -5,
     -2, 0, 2, 5, 9, 13, 17, 21, 26, 32]"

definition gai4_ihevc_inv_ang_table_chroma :: "int list" where
  "gai4_ihevc_inv_ang_table_chroma =
    [4096, 1638, 910, 630, 482, 390, 315,
     315, 390, 482, 630, 910, 1638, 4096]"

section \<open>Routines\<close>

text \<open>The reference sample \<open>i\<close> of component \<open>c\<close>; the stores of the components of a position.\<close>

definition px :: "int \<Rightarrow> int \<Rightarrow> (int \<Rightarrow> 'l::len word) \<Rightarrow> int \<Rightarrow> int \<Rightarrow> int" where
  "px comps pu1_ref r c i = uint (r (pu1_ref + comps * i + c))"

definition put :: "int \<Rightarrow> int \<Rightarrow> (int \<Rightarrow> 'v) \<Rightarrow> (int \<Rightarrow> 'v) \<Rightarrow> (int \<Rightarrow> 'v)" where
  "put comps x v m = for_to comps (\<lambda>c m. m(x + c := v c)) m"

definition log2nt :: "int \<Rightarrow> nat" where
  "log2nt nt = (if nt = 32 then 5 else if nt = 16 then 4 else if nt = 8 then 3 else if nt = 4 then 2 else 5)"

type_synonym 'l pred = "int \<Rightarrow> (int \<Rightarrow> 'l word) \<Rightarrow> int \<Rightarrow> int \<Rightarrow> int \<Rightarrow> int \<Rightarrow> (int \<Rightarrow> 'l word) \<Rightarrow> (int \<Rightarrow> 'l word)"

definition intra_planar :: "int \<Rightarrow> 'l::len pred" where
  "intra_planar comps pu1_ref r pu1_dst dst_strd nt mode m = for_to nt (\<lambda>row. for_to nt (\<lambda>col.
     put comps (pu1_dst + row * dst_strd + col * comps) (\<lambda>c. let p = px comps pu1_ref r c in
       word_of_int (((nt - 1 - col) * p (2 * nt - 1 - row) + (col + 1) * p (3 * nt + 1) +
         (nt - 1 - row) * p (2 * nt + 1 + col) + (row + 1) * p (nt - 1) + nt) div 2 ^ (log2nt nt + 1))))) m"

definition intra_dc_val :: "int \<Rightarrow> (int \<Rightarrow> int) \<Rightarrow> int" where
  "intra_dc_val nt p = (let acc_dc = for_to nt (\<lambda>i acc. acc + p (nt + i)) 0;
     acc_dc = for_to nt (\<lambda>i acc. acc + p (2 * nt + 1 + i)) acc_dc in (acc_dc + nt) div 2 ^ (log2nt nt + 1))"

definition intra_luma_dc :: "'l::len pred" where
  "intra_luma_dc pu1_ref r pu1_dst dst_strd nt mode m = (
     let p = px 1 pu1_ref r 0; dc_val = intra_dc_val nt p
     in if nt = 32 then for_to nt (\<lambda>row. for_to nt (\<lambda>col m. m(pu1_dst + row * dst_strd + col := word_of_int dc_val))) m
        else let
          m = m(pu1_dst := word_of_int ((p (2 * nt - 1) + 2 * dc_val + p (2 * nt + 1) + 2) div 4));
          m = for_to (nt - 1) (\<lambda>j m. let col = j + 1 in
            m(pu1_dst + col := word_of_int ((p (2 * nt + 1 + col) + 3 * dc_val + 2) div 4))) m;
          m = for_to (nt - 1) (\<lambda>j m. let row = j + 1 in
            m(pu1_dst + row * dst_strd := word_of_int ((p (2 * nt - 1 - row) + 3 * dc_val + 2) div 4))) m
        in for_to (nt - 1) (\<lambda>i. for_to (nt - 1) (\<lambda>j m. let row = i + 1; col = j + 1 in
             m(pu1_dst + row * dst_strd + col := word_of_int dc_val))) m)"

definition intra_chroma_dc :: "'l::len pred" where
  "intra_chroma_dc pu1_ref r pu1_dst dst_strd nt mode m = for_to nt (\<lambda>row. for_to nt (\<lambda>col.
     put 2 (pu1_dst + row * dst_strd + col * 2) (\<lambda>c. word_of_int (intra_dc_val nt (px 2 pu1_ref r c))))) m"

text \<open>Horizontal and vertical: plain replication, and with the filter of the first row or column,
  whose value is kept in a \<^verbatim>\<open>WORD16\<close>.\<close>

definition intra_horz :: "int \<Rightarrow> 'l::len pred" where
  "intra_horz comps pu1_ref r pu1_dst dst_strd nt mode m = for_to nt (\<lambda>row. for_to nt (\<lambda>col.
     put comps (pu1_dst + row * dst_strd + col * comps) (\<lambda>c. r (pu1_ref + comps * (2 * nt - 1 - row) + c)))) m"

definition intra_ver :: "int \<Rightarrow> 'l::len pred" where
  "intra_ver comps pu1_ref r pu1_dst dst_strd nt mode m = for_to nt (\<lambda>row. for_to nt (\<lambda>col.
     put comps (pu1_dst + row * dst_strd + col * comps) (\<lambda>c. r (pu1_ref + comps * (2 * nt + 1 + col) + c)))) m"

definition intra_luma_horz :: "nat \<Rightarrow> 'l::len pred" where
  "intra_luma_horz depth pu1_ref r pu1_dst dst_strd nt disable_boundary_filter m = (
     if nt = 32 \<or> disable_boundary_filter \<noteq> 0 then intra_horz 1 pu1_ref r pu1_dst dst_strd nt 10 m
     else let p = px 1 pu1_ref r 0;
       m = for_to nt (\<lambda>col m. let s2_predpixel = s16 (p (2 * nt - 1) + (p (2 * nt + 1 + col) - p (2 * nt)) div 2)
         in m(pu1_dst + col := word_of_int (CLIP3 s2_predpixel 0 (2 ^ depth - 1)))) m
     in for_to (nt - 1) (\<lambda>i. for_to nt (\<lambda>col m. let row = i + 1 in
       m(pu1_dst + row * dst_strd + col := r (pu1_ref + (2 * nt - 1 - row))))) m)"

definition intra_luma_ver :: "nat \<Rightarrow> 'l::len pred" where
  "intra_luma_ver depth pu1_ref r pu1_dst dst_strd nt disable_boundary_filter m = (
     if nt = 32 \<or> disable_boundary_filter \<noteq> 0 then intra_ver 1 pu1_ref r pu1_dst dst_strd nt 26 m
     else let p = px 1 pu1_ref r 0;
       m = for_to nt (\<lambda>row m. let s2_predpixel = s16 (p (2 * nt + 1) + (p (2 * nt - 1 - row) - p (2 * nt)) div 2)
         in m(pu1_dst + row * dst_strd := word_of_int (CLIP3 s2_predpixel 0 (2 ^ depth - 1)))) m
     in for_to nt (\<lambda>row. for_to (nt - 1) (\<lambda>j m. let col = j + 1 in
       m(pu1_dst + row * dst_strd + col := r (pu1_ref + (2 * nt + 1 + col))))) m)"

text \<open>The diagonal modes.\<close>

definition intra_luma_mode2 :: "'l::len pred" where
  "intra_luma_mode2 pu1_ref r pu1_dst dst_strd nt mode m = for_to nt (\<lambda>col.
     let idx = ((col + 1) * 32) div 32
     in for_to nt (\<lambda>row m. m(pu1_dst + col + row * dst_strd := r (pu1_ref + (2 * nt - row - idx - 1))))) m"

definition intra_chroma_mode2 :: "'l::len pred" where
  "intra_chroma_mode2 pu1_ref r pu1_dst dst_strd nt mode m = for_to nt (\<lambda>j.
     let col = 2 * j; idx_u = ((col + 1) * 32) div 32; idx_v = ((col + 1 + 1) * 32) div 32
     in for_to nt (\<lambda>row m. m(
       pu1_dst + col + row * dst_strd := r (pu1_ref + (4 * nt - 2 * row - idx_u - 3)),
       pu1_dst + (col + 1) + row * dst_strd := r (pu1_ref + (4 * nt - 2 * row - idx_v - 1))))) m"

definition intra_mode_18_34 :: "int \<Rightarrow> 'l::len pred" where
  "intra_mode_18_34 comps pu1_ref r pu1_dst dst_strd nt mode m = (
     let intra_pred_ang = (if mode = 18 then - 32 else 32)
     in for_to nt (\<lambda>row. let idx = ((row + 1) * intra_pred_ang) div 32
       in for_to nt (\<lambda>col. put comps (pu1_dst + row * dst_strd + col * comps)
         (\<lambda>c. r (pu1_ref + comps * (2 * nt + col + idx + 1) + c)))) m)"

text \<open>The angular modes. With a negative angle the main reference is extended from the side.\<close>

definition interpol :: "int \<Rightarrow> int \<Rightarrow> int \<Rightarrow> int" where
  "interpol fract a b = ((32 - fract) * a + fract * b + 16) div 32"

definition intra_mode_3_to_9 :: "int list \<Rightarrow> int \<Rightarrow> 'l::len pred" where
  "intra_mode_3_to_9 angles comps pu1_ref r pu1_dst dst_strd nt mode m = (
     let intra_pred_ang = angles ! nat mode
     in for_to nt (\<lambda>col. let pos = (col + 1) * intra_pred_ang; idx = pos div 32; fract = pos AND 31
       in for_to nt (\<lambda>row. let ref_main_idx = 2 * nt - row - idx - 1
         in put comps (pu1_dst + row * dst_strd + col * comps) (\<lambda>c. let p = px comps pu1_ref r c
           in word_of_int (interpol fract (p ref_main_idx) (p (ref_main_idx - 1)))))) m)"

definition extend_ref :: "int \<Rightarrow> int \<Rightarrow> int \<Rightarrow> int \<Rightarrow> int \<Rightarrow> int \<Rightarrow> (int \<Rightarrow> 'l::len word) \<Rightarrow> (int \<Rightarrow> 'l word) \<Rightarrow> (int \<Rightarrow> 'l word)" where
  "extend_ref comps dir nt intra_pred_ang inv_ang pu1_ref r ref_temp = (
     let ref_temp = for_to (nt + 1) (\<lambda>k. put comps (comps * (k + (nt - 1))) (\<lambda>c. r (pu1_ref + comps * (2 * nt - dir * k) + c))) ref_temp;
         ref_idx = (nt * intra_pred_ang) div 32
     in snd (for_to (- 1 - ref_idx) (\<lambda>j (inv_ang_sum, ref_temp). let k = - 1 - j; inv_ang_sum = inv_ang_sum + inv_ang in
       (inv_ang_sum, put comps (comps * (nt - 1) + comps * k)
         (\<lambda>c. r (pu1_ref + comps * (2 * nt + dir * (inv_ang_sum div 256)) + c)) ref_temp)) (128, ref_temp)))"


definition intra_mode_11_to_17 :: "int \<Rightarrow> (int \<Rightarrow> 'l::len word) \<Rightarrow> 'l pred" where
  "intra_mode_11_to_17 comps ref_temp pu1_ref r pu1_dst dst_strd nt mode m = (
     let intra_pred_ang = gai4_ihevc_ang_table ! nat mode; inv_ang = gai4_ihevc_inv_ang_table ! nat (mode - 11);
         ref_temp = extend_ref comps 1 nt intra_pred_ang inv_ang pu1_ref r ref_temp
     in for_to nt (\<lambda>col. let pos = (col + 1) * intra_pred_ang; idx = pos div 32; fract = pos AND 31
       in for_to nt (\<lambda>row. let ref_main_idx = row + idx + 1
         in put comps (pu1_dst + row * dst_strd + col * comps) (\<lambda>c. let ref_main = px comps (comps * (nt - 1)) ref_temp c
           in word_of_int (interpol fract (ref_main ref_main_idx) (ref_main (ref_main_idx + 1)))))) m)"

definition intra_mode_19_to_25 :: "int list \<Rightarrow> int list \<Rightarrow> int \<Rightarrow> (int \<Rightarrow> 'l::len word) \<Rightarrow> 'l pred" where
  "intra_mode_19_to_25 angles inv_angles comps ref_temp pu1_ref r pu1_dst dst_strd nt mode m = (
     let intra_pred_ang = angles ! nat mode; inv_ang = inv_angles ! nat (mode - 12);
         ref_temp = extend_ref comps (- 1) nt intra_pred_ang inv_ang pu1_ref r ref_temp
     in for_to nt (\<lambda>row. let pos = (row + 1) * intra_pred_ang; idx = pos div 32; fract = pos AND 31
       in for_to nt (\<lambda>col. let ref_main_idx = col + idx + 1
         in put comps (pu1_dst + row * dst_strd + col * comps) (\<lambda>c. let ref_main = px comps (comps * (nt - 1)) ref_temp c
           in word_of_int (interpol fract (ref_main ref_main_idx) (ref_main (ref_main_idx + 1)))))) m)"

definition intra_mode_27_to_33 :: "int list \<Rightarrow> int \<Rightarrow> 'l::len pred" where
  "intra_mode_27_to_33 angles comps pu1_ref r pu1_dst dst_strd nt mode m = (
     let intra_pred_ang = angles ! nat mode
     in for_to nt (\<lambda>row. let pos = (row + 1) * intra_pred_ang; idx = pos div 32; fract = pos AND 31
       in for_to nt (\<lambda>col. let ref_main_idx = 2 * nt + col + idx + 1
         in put comps (pu1_dst + row * dst_strd + col * comps) (\<lambda>c. let p = px comps pu1_ref r c
           in word_of_int (interpol fract (p ref_main_idx) (p (ref_main_idx + 1)))))) m)"

subsection \<open>The routines of the files\<close>

definition ihevc_intra_pred_luma_planar :: "8 pred" where
  "ihevc_intra_pred_luma_planar = intra_planar 1"

definition ihevc_intra_pred_luma_dc :: "8 pred" where
  "ihevc_intra_pred_luma_dc = intra_luma_dc"

definition ihevc_intra_pred_luma_horz :: "8 pred" where
  "ihevc_intra_pred_luma_horz = intra_luma_horz 8"

definition ihevc_intra_pred_luma_ver :: "8 pred" where
  "ihevc_intra_pred_luma_ver = intra_luma_ver 8"

definition ihevc_intra_pred_luma_mode2 :: "8 pred" where
  "ihevc_intra_pred_luma_mode2 = intra_luma_mode2"

definition ihevc_intra_pred_luma_mode_18_34 :: "8 pred" where
  "ihevc_intra_pred_luma_mode_18_34 = intra_mode_18_34 1"

definition ihevc_intra_pred_luma_mode_3_to_9 :: "8 pred" where
  "ihevc_intra_pred_luma_mode_3_to_9 = intra_mode_3_to_9 gai4_ihevc_ang_table 1"

definition ihevc_intra_pred_luma_mode_11_to_17 :: "(int \<Rightarrow> 8 word) \<Rightarrow> 8 pred" where
  "ihevc_intra_pred_luma_mode_11_to_17 = intra_mode_11_to_17 1"

definition ihevc_intra_pred_luma_mode_19_to_25 :: "(int \<Rightarrow> 8 word) \<Rightarrow> 8 pred" where
  "ihevc_intra_pred_luma_mode_19_to_25 = intra_mode_19_to_25 gai4_ihevc_ang_table gai4_ihevc_inv_ang_table 1"

definition ihevc_intra_pred_luma_mode_27_to_33 :: "8 pred" where
  "ihevc_intra_pred_luma_mode_27_to_33 = intra_mode_27_to_33 gai4_ihevc_ang_table 1"

definition ihevc_hbd_intra_pred_luma_planar :: "nat \<Rightarrow> 16 pred" where
  "ihevc_hbd_intra_pred_luma_planar bit_depth = intra_planar 1"

definition ihevc_hbd_intra_pred_luma_dc :: "nat \<Rightarrow> 16 pred" where
  "ihevc_hbd_intra_pred_luma_dc bit_depth = intra_luma_dc"

definition ihevc_hbd_intra_pred_luma_horz :: "nat \<Rightarrow> 16 pred" where
  "ihevc_hbd_intra_pred_luma_horz bit_depth = intra_luma_horz bit_depth"

definition ihevc_hbd_intra_pred_luma_ver :: "nat \<Rightarrow> 16 pred" where
  "ihevc_hbd_intra_pred_luma_ver bit_depth = intra_luma_ver bit_depth"

definition ihevc_hbd_intra_pred_luma_mode2 :: "nat \<Rightarrow> 16 pred" where
  "ihevc_hbd_intra_pred_luma_mode2 bit_depth = intra_luma_mode2"

definition ihevc_hbd_intra_pred_luma_mode_18_34 :: "nat \<Rightarrow> 16 pred" where
  "ihevc_hbd_intra_pred_luma_mode_18_34 bit_depth = intra_mode_18_34 1"

definition ihevc_hbd_intra_pred_luma_mode_3_to_9 :: "nat \<Rightarrow> 16 pred" where
  "ihevc_hbd_intra_pred_luma_mode_3_to_9 bit_depth = intra_mode_3_to_9 gai4_ihevc_ang_table 1"

definition ihevc_hbd_intra_pred_luma_mode_11_to_17 :: "nat \<Rightarrow> (int \<Rightarrow> 16 word) \<Rightarrow> 16 pred" where
  "ihevc_hbd_intra_pred_luma_mode_11_to_17 bit_depth = intra_mode_11_to_17 1"

definition ihevc_hbd_intra_pred_luma_mode_19_to_25 :: "nat \<Rightarrow> (int \<Rightarrow> 16 word) \<Rightarrow> 16 pred" where
  "ihevc_hbd_intra_pred_luma_mode_19_to_25 bit_depth = intra_mode_19_to_25 gai4_ihevc_ang_table gai4_ihevc_inv_ang_table 1"

definition ihevc_hbd_intra_pred_luma_mode_27_to_33 :: "nat \<Rightarrow> 16 pred" where
  "ihevc_hbd_intra_pred_luma_mode_27_to_33 bit_depth = intra_mode_27_to_33 gai4_ihevc_ang_table 1"

definition ihevc_intra_pred_chroma_planar :: "8 pred" where
  "ihevc_intra_pred_chroma_planar = intra_planar 2"

definition ihevc_intra_pred_chroma_dc :: "8 pred" where
  "ihevc_intra_pred_chroma_dc = intra_chroma_dc"

definition ihevc_intra_pred_chroma_horz :: "8 pred" where
  "ihevc_intra_pred_chroma_horz = intra_horz 2"

definition ihevc_intra_pred_chroma_ver :: "8 pred" where
  "ihevc_intra_pred_chroma_ver = intra_ver 2"

definition ihevc_intra_pred_chroma_mode2 :: "8 pred" where
  "ihevc_intra_pred_chroma_mode2 = intra_chroma_mode2"

definition ihevc_intra_pred_chroma_mode_18_34 :: "8 pred" where
  "ihevc_intra_pred_chroma_mode_18_34 = intra_mode_18_34 2"

definition ihevc_intra_pred_chroma_mode_3_to_9 :: "8 pred" where
  "ihevc_intra_pred_chroma_mode_3_to_9 = intra_mode_3_to_9 gai4_ihevc_ang_table 2"

definition ihevc_intra_pred_chroma_mode_11_to_17 :: "(int \<Rightarrow> 8 word) \<Rightarrow> 8 pred" where
  "ihevc_intra_pred_chroma_mode_11_to_17 = intra_mode_11_to_17 2"

definition ihevc_intra_pred_chroma_mode_19_to_25 :: "(int \<Rightarrow> 8 word) \<Rightarrow> 8 pred" where
  "ihevc_intra_pred_chroma_mode_19_to_25 = intra_mode_19_to_25 gai4_ihevc_ang_table_chroma gai4_ihevc_inv_ang_table_chroma 2"

definition ihevc_intra_pred_chroma_mode_27_to_33 :: "8 pred" where
  "ihevc_intra_pred_chroma_mode_27_to_33 = intra_mode_27_to_33 gai4_ihevc_ang_table_chroma 2"

definition ihevc_hbd_intra_pred_chroma_planar :: "16 pred" where
  "ihevc_hbd_intra_pred_chroma_planar = intra_planar 2"

definition ihevc_hbd_intra_pred_chroma_dc :: "16 pred" where
  "ihevc_hbd_intra_pred_chroma_dc = intra_chroma_dc"

definition ihevc_hbd_intra_pred_chroma_horz :: "16 pred" where
  "ihevc_hbd_intra_pred_chroma_horz = intra_horz 2"

definition ihevc_hbd_intra_pred_chroma_ver :: "16 pred" where
  "ihevc_hbd_intra_pred_chroma_ver = intra_ver 2"

definition ihevc_hbd_intra_pred_chroma_mode2 :: "16 pred" where
  "ihevc_hbd_intra_pred_chroma_mode2 = intra_chroma_mode2"

definition ihevc_hbd_intra_pred_chroma_mode_18_34 :: "16 pred" where
  "ihevc_hbd_intra_pred_chroma_mode_18_34 = intra_mode_18_34 2"

definition ihevc_hbd_intra_pred_chroma_mode_3_to_9 :: "16 pred" where
  "ihevc_hbd_intra_pred_chroma_mode_3_to_9 = intra_mode_3_to_9 gai4_ihevc_ang_table 2"

definition ihevc_hbd_intra_pred_chroma_mode_11_to_17 :: "(int \<Rightarrow> 16 word) \<Rightarrow> 16 pred" where
  "ihevc_hbd_intra_pred_chroma_mode_11_to_17 = intra_mode_11_to_17 2"

definition ihevc_hbd_intra_pred_chroma_mode_19_to_25 :: "(int \<Rightarrow> 16 word) \<Rightarrow> 16 pred" where
  "ihevc_hbd_intra_pred_chroma_mode_19_to_25 = intra_mode_19_to_25 gai4_ihevc_ang_table_chroma gai4_ihevc_inv_ang_table_chroma 2"

definition ihevc_hbd_intra_pred_chroma_mode_27_to_33 :: "16 pred" where
  "ihevc_hbd_intra_pred_chroma_mode_27_to_33 = intra_mode_27_to_33 gai4_ihevc_ang_table_chroma 2"

subsection \<open>The function tables of the decoder\<close>

definition g_i4_ip_funcs :: "nat list" where
  "g_i4_ip_funcs =
     [1, 2, 3, 4, 4, 4, 4, 4, 4, 4, 5, 6, 6, 6, 6, 6, 6, 6, 7,
      8, 8, 8, 8, 8, 8, 8, 9, 10, 10, 10, 10, 10, 10, 10, 7]"

definition apf_intra_pred_luma :: "(int \<Rightarrow> 8 word) \<Rightarrow> 8 pred option list" where
  "apf_intra_pred_luma ref_temp = [None,
     Some ihevc_intra_pred_luma_planar,
     Some ihevc_intra_pred_luma_dc,
     Some ihevc_intra_pred_luma_mode2,
     Some ihevc_intra_pred_luma_mode_3_to_9,
     Some ihevc_intra_pred_luma_horz,
     Some (ihevc_intra_pred_luma_mode_11_to_17 ref_temp),
     Some ihevc_intra_pred_luma_mode_18_34,
     Some (ihevc_intra_pred_luma_mode_19_to_25 ref_temp),
     Some ihevc_intra_pred_luma_ver,
     Some ihevc_intra_pred_luma_mode_27_to_33]"

definition apf_intra_pred_chroma :: "(int \<Rightarrow> 8 word) \<Rightarrow> 8 pred option list" where
  "apf_intra_pred_chroma ref_temp = [None,
     Some ihevc_intra_pred_chroma_planar,
     Some ihevc_intra_pred_chroma_dc,
     Some ihevc_intra_pred_chroma_mode2,
     Some ihevc_intra_pred_chroma_mode_3_to_9,
     Some ihevc_intra_pred_chroma_horz,
     Some (ihevc_intra_pred_chroma_mode_11_to_17 ref_temp),
     Some ihevc_intra_pred_chroma_mode_18_34,
     Some (ihevc_intra_pred_chroma_mode_19_to_25 ref_temp),
     Some ihevc_intra_pred_chroma_ver,
     Some ihevc_intra_pred_chroma_mode_27_to_33]"

definition apf_hbd_intra_pred_luma :: "nat \<Rightarrow> (int \<Rightarrow> 16 word) \<Rightarrow> 16 pred option list" where
  "apf_hbd_intra_pred_luma bit_depth ref_temp = [None,
     Some (ihevc_hbd_intra_pred_luma_planar bit_depth),
     Some (ihevc_hbd_intra_pred_luma_dc bit_depth),
     Some (ihevc_hbd_intra_pred_luma_mode2 bit_depth),
     Some (ihevc_hbd_intra_pred_luma_mode_3_to_9 bit_depth),
     Some (ihevc_hbd_intra_pred_luma_horz bit_depth),
     Some (ihevc_hbd_intra_pred_luma_mode_11_to_17 bit_depth ref_temp),
     Some (ihevc_hbd_intra_pred_luma_mode_18_34 bit_depth),
     Some (ihevc_hbd_intra_pred_luma_mode_19_to_25 bit_depth ref_temp),
     Some (ihevc_hbd_intra_pred_luma_ver bit_depth),
     Some (ihevc_hbd_intra_pred_luma_mode_27_to_33 bit_depth)]"

definition apf_hbd_intra_pred_chroma :: "(int \<Rightarrow> 16 word) \<Rightarrow> 16 pred option list" where
  "apf_hbd_intra_pred_chroma ref_temp = [None,
     Some ihevc_hbd_intra_pred_chroma_planar,
     Some ihevc_hbd_intra_pred_chroma_dc,
     Some ihevc_hbd_intra_pred_chroma_mode2,
     Some ihevc_hbd_intra_pred_chroma_mode_3_to_9,
     Some ihevc_hbd_intra_pred_chroma_horz,
     Some (ihevc_hbd_intra_pred_chroma_mode_11_to_17 ref_temp),
     Some ihevc_hbd_intra_pred_chroma_mode_18_34,
     Some (ihevc_hbd_intra_pred_chroma_mode_19_to_25 ref_temp),
     Some ihevc_hbd_intra_pred_chroma_ver,
     Some ihevc_hbd_intra_pred_chroma_mode_27_to_33]"

text \<open>The calls: for the modes 10 and 26 of luma the last argument is the flag of the boundary filter.\<close>

definition call_intra_pred :: "'l::len pred option list \<Rightarrow> nat \<Rightarrow> int \<Rightarrow> int \<Rightarrow> (int \<Rightarrow> 'l word) \<Rightarrow> int \<Rightarrow> int \<Rightarrow> int \<Rightarrow>
    (int \<Rightarrow> 'l word) \<Rightarrow> (int \<Rightarrow> 'l word) option" where
  "call_intra_pred apf mode arg pu1_ref r pu1_dst dst_strd nt m =
     map_option (\<lambda>f. f pu1_ref r pu1_dst dst_strd nt arg m) (apf ! (g_i4_ip_funcs ! mode))"

definition luma_mode_arg :: "nat \<Rightarrow> int \<Rightarrow> int" where
  "luma_mode_arg mode disable_boundary_filter = (if mode = 10 \<or> mode = 26 then disable_boundary_filter else int mode)"


section \<open>Stores of a block\<close>

definition cells :: "int \<Rightarrow> int \<Rightarrow> int \<Rightarrow> int \<Rightarrow> int set" where
  "cells comps nt dst strd = (\<Union>row\<in>{0..<nt}. \<Union>col\<in>{0..<nt}. \<Union>c\<in>{0..<comps}. {dst + row * strd + col * comps + c})"

definition cell_val :: "int \<Rightarrow> int \<Rightarrow> int \<Rightarrow> (int \<Rightarrow> int \<Rightarrow> int \<Rightarrow> 'v) \<Rightarrow> int \<Rightarrow> 'v" where
  "cell_val comps dst strd v a = v ((a - dst) div strd) ((a - dst) mod strd div comps) ((a - dst) mod strd mod comps)"

text \<open>A block that has the given values, everything else as before.\<close>

definition gives :: "int \<Rightarrow> int \<Rightarrow> int \<Rightarrow> int \<Rightarrow> (int \<Rightarrow> int \<Rightarrow> int \<Rightarrow> 'v) \<Rightarrow> (int \<Rightarrow> 'v) \<Rightarrow> (int \<Rightarrow> 'v) \<Rightarrow> bool" where
  "gives comps nt dst strd v m m' \<longleftrightarrow> (\<forall>row col c. 0 \<le> row \<and> row < nt \<and> 0 \<le> col \<and> col < nt \<and> 0 \<le> c \<and> c < comps \<longrightarrow>
     m' (dst + row * strd + col * comps + c) = v row col c) \<and> (\<forall>a. a \<notin> cells comps nt dst strd \<longrightarrow> m' a = m a)"

lemma cell_val_at:
  assumes "comps * nt \<le> strd" "0 \<le> col" "col < nt" "0 \<le> c" "c < comps"
  shows "cell_val comps dst strd v (dst + row * strd + col * comps + c) = v row col c"
proof -
  have "(col + 1) * comps \<le> nt * comps" using assms(3-5) by (intro mult_right_mono) auto
  then have o: "0 \<le> col * comps + c" "col * comps + c < strd" using assms by (auto simp: algebra_simps)
  have a: "dst + row * strd + col * comps + c - dst = (col * comps + c) + row * strd" by simp
  have "((col * comps + c) + row * strd) div strd = row" "((col * comps + c) + row * strd) mod strd = col * comps + c"
    using o by (simp_all add: div_pos_pos_trivial)
  moreover have "(col * comps + c) div comps = col" "(col * comps + c) mod comps = c" using assms(4,5) by simp_all
  ultimately show ?thesis unfolding cell_val_def a by simp
qed

lemma writes_gives:
  assumes "writes (cell_val comps dst strd v) (cells comps nt dst strd) F" "comps * nt \<le> strd"
  shows "gives comps nt dst strd v m (F m)"
proof -
  have "dst + row * strd + col * comps + c \<in> cells comps nt dst strd"
    if "0 \<le> row" "row < nt" "0 \<le> col" "col < nt" "0 \<le> c" "c < comps" for row col c
    using that unfolding cells_def by (intro UN_I [of row] UN_I [of col] UN_I [of c]) auto
  then show ?thesis using assms by (simp add: gives_def writes_def cell_val_at)
qed

lemma writes_put:
  assumes "comps * nt \<le> strd" "0 \<le> col" "col < nt" "\<And>c. 0 \<le> c \<Longrightarrow> c < comps \<Longrightarrow> f c = v row col c"
  shows "writes (cell_val comps dst strd v) (\<Union>c\<in>{0..<comps}. {dst + row * strd + col * comps + c}) (put comps (dst + row * strd + col * comps) f)"
  unfolding put_def [abs_def] by (intro writes_for writes_upd) (simp add: cell_val_at [OF assms(1-3)] assms(4))

text \<open>The loops over a block, by rows and by columns.\<close>

lemma gives_rows:
  assumes "comps * nt \<le> strd"
    and "\<And>row col c. 0 \<le> row \<Longrightarrow> row < nt \<Longrightarrow> 0 \<le> col \<Longrightarrow> col < nt \<Longrightarrow> 0 \<le> c \<Longrightarrow> c < comps \<Longrightarrow> f row col c = v row col c"
  shows "gives comps nt dst strd v m (for_to nt (\<lambda>row. for_to nt (\<lambda>col. put comps (dst + row * strd + col * comps) (f row col))) m)"
proof (rule writes_gives [OF _ assms(1)])
  show "writes (cell_val comps dst strd v) (cells comps nt dst strd)
      (for_to nt (\<lambda>row. for_to nt (\<lambda>col. put comps (dst + row * strd + col * comps) (f row col))))"
    unfolding cells_def by (intro writes_for writes_put [OF assms(1)]) (auto intro: assms(2))
qed

lemma gives_cols:
  assumes "comps * nt \<le> strd"
    and "\<And>row col c. 0 \<le> row \<Longrightarrow> row < nt \<Longrightarrow> 0 \<le> col \<Longrightarrow> col < nt \<Longrightarrow> 0 \<le> c \<Longrightarrow> c < comps \<Longrightarrow> f row col c = v row col c"
  shows "gives comps nt dst strd v m (for_to nt (\<lambda>col. for_to nt (\<lambda>row. put comps (dst + row * strd + col * comps) (f row col))) m)"
proof (rule writes_gives [OF _ assms(1)])
  have "cells comps nt dst strd = (\<Union>col\<in>{0..<nt}. \<Union>row\<in>{0..<nt}. \<Union>c\<in>{0..<comps}. {dst + row * strd + col * comps + c})"
    by (auto simp: cells_def)
  then show "writes (cell_val comps dst strd v) (cells comps nt dst strd)
      (for_to nt (\<lambda>col. for_to nt (\<lambda>row. put comps (dst + row * strd + col * comps) (f row col))))"
    by (simp only:) (intro writes_for writes_put [OF assms(1)], auto intro: assms(2))
qed

section \<open>The reference\<close>

text \<open>The sample at a coordinate beside the block: \<open>(-1, y)\<close> left of it, \<open>(x, -1)\<close> above it.\<close>

definition nbr :: "int \<Rightarrow> (int \<Rightarrow> int) \<Rightarrow> int \<Rightarrow> int \<Rightarrow> int" where
  "nbr nt p x y = (if x = - 1 then p (2 * nt - 1 - y) else p (2 * nt + 1 + x))"

text \<open>The angle of a mode, by its distance from the horizontal or vertical one; the inverse angle.\<close>

definition mode_angle :: "int \<Rightarrow> int" where
  "mode_angle mode = (let d = (if mode < 18 then 10 - mode else mode - 26)
     in sgn d * [0, 2, 5, 9, 13, 17, 21, 26, 32] ! nat \<bar>d\<bar>)"

definition inverse_angle :: "int \<Rightarrow> int" where
  "inverse_angle a = (8192 + \<bar>a\<bar> div 2) div \<bar>a\<bar>"

text \<open>The extended reference, and the prediction of a vertical mode. A horizontal mode is a vertical
  one with the axes exchanged.\<close>

definition main_ref :: "(int \<Rightarrow> int \<Rightarrow> int) \<Rightarrow> int \<Rightarrow> int \<Rightarrow> int" where
  "main_ref P a x = (if 0 \<le> x then P (x - 1) (- 1) else P (- 1) ((- x * inverse_angle a + 128) div 256 - 1))"

definition angular :: "(int \<Rightarrow> int \<Rightarrow> int) \<Rightarrow> int \<Rightarrow> int \<Rightarrow> int \<Rightarrow> int" where
  "angular P a x y = (let i = ((y + 1) * a) div 32; f = ((y + 1) * a) mod 32
     in if f = 0 then main_ref P a (x + i + 1)
        else ((32 - f) * main_ref P a (x + i + 1) + f * main_ref P a (x + i + 2) + 16) div 32)"

definition dc_ref :: "int \<Rightarrow> (int \<Rightarrow> int \<Rightarrow> int) \<Rightarrow> int" where
  "dc_ref nt P = ((\<Sum>x = 0..<nt. P x (- 1)) + (\<Sum>y = 0..<nt. P (- 1) y) + nt) div (2 * nt)"

text \<open>\<open>edge\<close> tells whether the first row or column is filtered: for luma, below 32 samples, not disabled.\<close>

definition intra_ref :: "int \<Rightarrow> bool \<Rightarrow> int \<Rightarrow> int \<Rightarrow> (int \<Rightarrow> int) \<Rightarrow> int \<Rightarrow> int \<Rightarrow> int" where
  "intra_ref top_val edge nt mode p y x = (let P = nbr nt p in
     if mode = 0 then ((nt - 1 - x) * P (- 1) y + (x + 1) * P nt (- 1) + (nt - 1 - y) * P x (- 1) + (y + 1) * P (- 1) nt + nt) div (2 * nt)
     else if mode = 1 then let d = dc_ref nt P in
       if edge \<and> x = 0 \<and> y = 0 then (P (- 1) 0 + 2 * d + P 0 (- 1) + 2) div 4
       else if edge \<and> y = 0 then (P x (- 1) + 3 * d + 2) div 4
       else if edge \<and> x = 0 then (P (- 1) y + 3 * d + 2) div 4
       else d
     else if mode = 10 \<and> edge \<and> y = 0 then CLIP3 (P (- 1) 0 + (P x (- 1) - P (- 1) (- 1)) div 2) 0 top_val
     else if mode = 26 \<and> edge \<and> x = 0 then CLIP3 (P 0 (- 1) + (P (- 1) y - P (- 1) (- 1)) div 2) 0 top_val
     else if mode < 18 then angular (\<lambda>x y. P y x) (mode_angle mode) y x
     else angular P (mode_angle mode) x y)"

section \<open>Each routine against the reference\<close>

text \<open>What the routines have in common: samples of the bit depth beside the block.\<close>

definition ref_ok :: "int \<Rightarrow> int \<Rightarrow> (int \<Rightarrow> int) \<Rightarrow> bool" where
  "ref_ok M nt p \<longleftrightarrow> (\<forall>i. 0 \<le> i \<and> i \<le> 4 * nt \<longrightarrow> 0 \<le> p i \<and> p i \<le> M)"

lemma ref_okD: "ref_ok M nt p \<Longrightarrow> 0 \<le> i \<Longrightarrow> i \<le> 4 * nt \<Longrightarrow> 0 \<le> p i \<and> p i \<le> M"
  by (simp add: ref_ok_def)

abbreviation size_ok :: "int \<Rightarrow> bool" where "size_ok nt \<equiv> nt = 4 \<or> nt = 8 \<or> nt = 16 \<or> nt = 32"

lemma log2nt: "size_ok nt \<Longrightarrow> 2 ^ (log2nt nt + 1) = 2 * nt"
  by (auto simp: log2nt_def)

lemma and_31: "pos AND 31 = (pos :: int) mod 32"
proof -
  have "pos AND (2 ^ 5 - 1) = take_bit 5 pos" by (simp add: take_bit_eq_mask mask_eq_exp_minus_1)
  then show ?thesis by (simp add: take_bit_eq_mod)
qed

lemma mult_right_le: "0 \<le> (a :: int) \<Longrightarrow> b \<le> M \<Longrightarrow> a * b \<le> a * M"
  by (rule mult_left_mono)

lemma planar_routine:
  assumes "size_ok nt" "comps * nt \<le> dst_strd"
  shows "gives comps nt pu1_dst dst_strd (\<lambda>row col c. word_of_int (intra_ref M edge nt 0 (px comps pu1_ref r c) row col))
    m (intra_planar comps pu1_ref r pu1_dst dst_strd nt mode m)"
  unfolding intra_planar_def
  by (rule gives_rows [OF assms(2)]) (use assms(1) log2nt [OF assms(1)] in
      \<open>auto simp: intra_ref_def nbr_def Let_def algebra_simps\<close>)

lemma horz_routine:
  assumes "comps * nt \<le> dst_strd"
  shows "gives comps nt pu1_dst dst_strd (\<lambda>row col c. word_of_int (px comps pu1_ref r c (2 * nt - 1 - row)))
    m (intra_horz comps pu1_ref r pu1_dst dst_strd nt mode m)"
  unfolding intra_horz_def by (rule gives_rows [OF assms]) (simp add: px_def)

lemma ver_routine:
  assumes "comps * nt \<le> dst_strd"
  shows "gives comps nt pu1_dst dst_strd (\<lambda>row col c. word_of_int (px comps pu1_ref r c (2 * nt + 1 + col)))
    m (intra_ver comps pu1_ref r pu1_dst dst_strd nt mode m)"
  unfolding intra_ver_def by (rule gives_rows [OF assms]) (simp add: px_def)

text \<open>The angles and inverse angles in the tables.\<close>

lemma all_modes:
  assumes "list_all Q [2, 3, 4, 5, 6, 7, 8, 9, 10, 11, 12, 13, 14, 15, 16, 17, 18, 19, 20, 21, 22, 23, 24, 25, 26, 27, 28, 29, 30, 31, 32, 33, 34]"
    and "2 \<le> mode" "mode \<le> (34 :: int)"
  shows "Q mode"
proof -
  have "[2..34] = [2, 3, 4, 5, 6, 7, 8, 9, 10, 11, 12, 13, 14, 15, 16, 17, 18, 19, 20, 21, 22, 23, 24, 25, 26, 27, 28, 29, 30, 31, 32, 33, 34 :: int]"
    by (simp add: upto_rec1)
  then have "list_all Q [2..34]" using assms(1) by (simp only:)
  then have "Ball {2..34} Q" by (simp only: list_all_iff set_upto)
  then show ?thesis by (rule bspec) (use assms(2,3) in auto)
qed

lemma angle_table:
  assumes "2 \<le> mode" "mode \<le> 34"
  shows "gai4_ihevc_ang_table ! nat mode = mode_angle mode"
  by (rule all_modes [OF _ assms]) (simp add: gai4_ihevc_ang_table_def mode_angle_def Let_def)

lemma mode_angle_sign:
  assumes "2 \<le> mode" "mode \<le> 34"
  shows "(mode \<le> 9 \<or> 27 \<le> mode \<longrightarrow> 0 < mode_angle mode) \<and> (11 \<le> mode \<and> mode \<le> 25 \<longrightarrow> - 32 \<le> mode_angle mode \<and> mode_angle mode < 0)"
  by (rule all_modes [OF _ assms]) (simp add: mode_angle_def Let_def)

lemma inverse_table:
  assumes "2 \<le> mode" "mode \<le> 34"
  shows "(11 \<le> mode \<and> mode \<le> 17 \<longrightarrow> gai4_ihevc_inv_ang_table ! nat (mode - 11) = inverse_angle (mode_angle mode)) \<and>
    (19 \<le> mode \<and> mode \<le> 25 \<longrightarrow> gai4_ihevc_inv_ang_table ! nat (mode - 12) = inverse_angle (mode_angle mode))"
  by (rule all_modes [OF _ assms]) (simp add: gai4_ihevc_inv_ang_table_def mode_angle_def inverse_angle_def Let_def)

lemma chroma_tables: "gai4_ihevc_ang_table_chroma = gai4_ihevc_ang_table" "gai4_ihevc_inv_ang_table_chroma = gai4_ihevc_inv_ang_table"
  by (simp_all add: gai4_ihevc_ang_table_def gai4_ihevc_ang_table_chroma_def gai4_ihevc_inv_ang_table_def gai4_ihevc_inv_ang_table_chroma_def)

text \<open>Interpolation with a fraction of 0 is the first sample, so the reference interpolates always.\<close>

lemma angular_interpol:
  "angular P a x y = interpol (((y + 1) * a) mod 32) (main_ref P a (x + ((y + 1) * a) div 32 + 1)) (main_ref P a (x + ((y + 1) * a) div 32 + 2))"
  by (simp add: angular_def interpol_def Let_def)

lemma main_ref_nonneg: "0 \<le> x \<Longrightarrow> main_ref P a x = P (x - 1) (- 1)"
  by (simp add: main_ref_def)

lemma mode_3_to_9_routine:
  assumes "comps * nt \<le> dst_strd" "3 \<le> mode" "mode \<le> 9"
  shows "gives comps nt pu1_dst dst_strd (\<lambda>row col c. word_of_int (intra_ref M edge nt mode (px comps pu1_ref r c) row col))
    m (intra_mode_3_to_9 gai4_ihevc_ang_table comps pu1_ref r pu1_dst dst_strd nt mode m)"
proof -
  have t: "gai4_ihevc_ang_table ! nat mode = mode_angle mode" using angle_table assms(2,3) by simp
  have a: "0 < mode_angle mode" using mode_angle_sign [of mode] assms(2,3) by simp
  show ?thesis unfolding intra_mode_3_to_9_def Let_def t and_31
  proof (rule gives_cols [OF assms(1)])
    fix row col c assume rc: "0 \<le> row" "row < nt" "0 \<le> col" "col < nt"
    have "0 \<le> ((col + 1) * mode_angle mode) div 32" using a rc by (simp add: pos_imp_zdiv_nonneg_iff)
    then have "0 \<le> row + ((col + 1) * mode_angle mode) div 32 + 1" "0 \<le> row + ((col + 1) * mode_angle mode) div 32 + 2" using rc by linarith+
    then show "word_of_int (interpol ((col + 1) * mode_angle mode mod 32)
        (px comps pu1_ref r c (2 * nt - row - (col + 1) * mode_angle mode div 32 - 1))
        (px comps pu1_ref r c (2 * nt - row - (col + 1) * mode_angle mode div 32 - 1 - 1))) =
      word_of_int (intra_ref M edge nt mode (px comps pu1_ref r c) row col)"
      using assms(2,3) by (simp add: intra_ref_def Let_def angular_interpol main_ref_nonneg nbr_def algebra_simps)
  qed
qed

lemma mode_27_to_33_routine:
  assumes "comps * nt \<le> dst_strd" "27 \<le> mode" "mode \<le> 33"
  shows "gives comps nt pu1_dst dst_strd (\<lambda>row col c. word_of_int (intra_ref M edge nt mode (px comps pu1_ref r c) row col))
    m (intra_mode_27_to_33 gai4_ihevc_ang_table comps pu1_ref r pu1_dst dst_strd nt mode m)"
proof -
  have t: "gai4_ihevc_ang_table ! nat mode = mode_angle mode" using angle_table assms(2,3) by simp
  have a: "0 < mode_angle mode" using mode_angle_sign [of mode] assms(2,3) by simp
  show ?thesis unfolding intra_mode_27_to_33_def Let_def t and_31
  proof (rule gives_rows [OF assms(1)])
    fix row col c assume rc: "0 \<le> row" "row < nt" "0 \<le> col" "col < nt"
    have i: "0 \<le> ((row + 1) * mode_angle mode) div 32" using a rc by (simp add: pos_imp_zdiv_nonneg_iff)
    then have "0 \<le> col + ((row + 1) * mode_angle mode) div 32" "0 \<le> col + ((row + 1) * mode_angle mode) div 32 + 1"
      "0 \<le> col + ((row + 1) * mode_angle mode) div 32 + 2" using rc by linarith+
    then show "word_of_int (interpol ((row + 1) * mode_angle mode mod 32)
        (px comps pu1_ref r c (2 * nt + col + (row + 1) * mode_angle mode div 32 + 1))
        (px comps pu1_ref r c (2 * nt + col + (row + 1) * mode_angle mode div 32 + 1 + 1))) =
      word_of_int (intra_ref M edge nt mode (px comps pu1_ref r c) row col)"
      using assms(2,3) by (simp add: intra_ref_def Let_def angular_interpol main_ref_nonneg nbr_def algebra_simps)
  qed
qed

text \<open>The extended reference: whatever the local array held, the samples that are used are those of the
  reference.\<close>

lemma px_put:
  assumes "0 < comps" "0 \<le> c" "c < comps"
  shows "px comps (comps * b) (put comps (comps * (b + j)) v t) c i = (if i = j then uint (v c) else px comps (comps * b) t c i)"
proof -
  have inj: "comps * b + comps * i + c = comps * (b + j) + k \<longleftrightarrow> i = j \<and> k = c" if "0 \<le> k" "k < comps" for k
  proof
    assume *: "comps * b + comps * i + c = comps * (b + j) + k"
    have "(c + comps * i) div comps = i" "(k + comps * j) div comps = j" using assms that by simp_all
    moreover have "c + comps * i = k + comps * j" using * by (simp add: algebra_simps)
    ultimately have "i = j" by simp
    then show "i = j \<and> k = c" using * by (simp add: algebra_simps)
  qed (simp add: algebra_simps)
  show ?thesis
  proof (cases "i = j")
    case True
    have "put comps (comps * (b + j)) v t (comps * (b + j) + c) = v c"
      unfolding put_def by (rule for_to_stores_in [where a = "\<lambda>k. comps * (b + j) + k"]) (use assms in auto)
    then show ?thesis using True by (simp add: px_def algebra_simps)
  next
    case False
    have "put comps (comps * (b + j)) v t (comps * b + comps * i + c) = t (comps * b + comps * i + c)"
      unfolding put_def by (rule for_to_stores_out) (use inj False in force)
    then show ?thesis using False by (simp add: px_def)
  qed
qed

lemma extend_ref_px:
  fixes nt a :: int and r junk :: "int \<Rightarrow> 'l::len word"
  assumes "0 < comps" "0 \<le> c" "c < comps" "0 \<le> nt"
  defines "ref_idx \<equiv> (nt * a) div 32"
  shows "px comps (comps * (nt - 1)) (extend_ref comps dir nt a ia pu1_ref r junk) c i =
    (if 0 \<le> i \<and> i \<le> nt then px comps pu1_ref r c (2 * nt - dir * i)
     else if ref_idx < i \<and> i < 0 then px comps pu1_ref r c (2 * nt + dir * ((128 - i * ia) div 256))
     else px comps (comps * (nt - 1)) junk c i)"
proof -
  let ?px = "\<lambda>t. px comps (comps * (nt - 1)) t c" and ?src = "\<lambda>i v. r (pu1_ref + comps * i + v)"
  define t1 where "t1 = for_to (nt + 1) (\<lambda>k. put comps (comps * (k + (nt - 1))) (?src (2 * nt - dir * k))) junk"
  have src: "uint (?src i c) = px comps pu1_ref r c i" for i by (simp add: px_def)
  have t1: "\<forall>i. ?px t1 i = (if 0 \<le> i \<and> i < nt + 1 then px comps pu1_ref r c (2 * nt - dir * i) else ?px junk i)"
    unfolding t1_def
  proof (rule for_to_inv [where P = "\<lambda>k t. \<forall>i. ?px t i = (if 0 \<le> i \<and> i < k then px comps pu1_ref r c (2 * nt - dir * i) else ?px junk i)"])
    fix k and t :: "int \<Rightarrow> 'l word" assume "0 \<le> k" and IH: "\<forall>i. ?px t i = (if 0 \<le> i \<and> i < k then px comps pu1_ref r c (2 * nt - dir * i) else ?px junk i)"
    moreover have "?px (put comps (comps * (k + (nt - 1))) (?src (2 * nt - dir * k)) t) i = (if i = k then px comps pu1_ref r c (2 * nt - dir * k) else ?px t i)" for i
      using px_put [OF assms(1-3), of "nt - 1" k "?src (2 * nt - dir * k)" t i] by (simp only: src add.commute [of k])
    ultimately show "\<forall>i. ?px (put comps (comps * (k + (nt - 1))) (?src (2 * nt - dir * k)) t) i =
        (if 0 \<le> i \<and> i < k + 1 then px comps pu1_ref r c (2 * nt - dir * i) else ?px junk i)" by auto
  qed (use assms(4) in simp_all)
  show ?thesis
  proof (cases "0 \<le> - 1 - ref_idx")
    case False
    then have "extend_ref comps dir nt a ia pu1_ref r junk = t1" by (simp add: extend_ref_def Let_def t1_def ref_idx_def)
    then show ?thesis using t1 False by auto
  next
    case True
    let ?side = "\<lambda>i. px comps pu1_ref r c (2 * nt + dir * ((128 - i * ia) div 256))"
    let ?body = "\<lambda>j (sm, t). let k = - 1 - j; sm = sm + ia in
      (sm, put comps (comps * (nt - 1) + comps * k) (?src (2 * nt + dir * (sm div 256))) t)"
    have "case for_to (- 1 - ref_idx) ?body (128, t1) of (sm, t) \<Rightarrow> sm = 128 + (- 1 - ref_idx) * ia \<and>
        (\<forall>i. ?px t i = (if - (- 1 - ref_idx) \<le> i \<and> i < 0 then ?side i else ?px t1 i))"
    proof (rule for_to_inv [where P = "\<lambda>j (sm, t). sm = 128 + j * ia \<and> (\<forall>i. ?px t i = (if - j \<le> i \<and> i < 0 then ?side i else ?px t1 i))", OF True])
      fix j and x :: "int \<times> (int \<Rightarrow> 'l word)" assume j: "0 \<le> j" and x: "case x of (sm, t) \<Rightarrow> sm = 128 + j * ia \<and> (\<forall>i. ?px t i = (if - j \<le> i \<and> i < 0 then ?side i else ?px t1 i))"
      obtain sm t where p: "x = (sm, t)" by (cases x)
      have IH: "sm = 128 + j * ia" "\<forall>i. ?px t i = (if - j \<le> i \<and> i < 0 then ?side i else ?px t1 i)" using x p by auto
      define k where "k = - 1 - j"
      have e: "comps * (nt - 1) + comps * k = comps * ((nt - 1) + k)" by (simp only: distrib_left)
      have sm': "sm + ia = 128 - k * ia" using IH(1) by (simp add: k_def algebra_simps)
      have "?px (put comps (comps * (nt - 1) + comps * k) (?src (2 * nt + dir * ((sm + ia) div 256))) t) i = (if i = k then ?side k else ?px t i)" for i
        using px_put [OF assms(1-3), of "nt - 1" k "?src (2 * nt + dir * ((sm + ia) div 256))" t i] by (simp only: src sm' e)
      moreover have "- (j + 1) \<le> i \<and> i < 0 \<longleftrightarrow> i = k \<or> (- j \<le> i \<and> i < 0)" for i using j unfolding k_def by auto
      ultimately have "\<forall>i. ?px (put comps (comps * (nt - 1) + comps * k) (?src (2 * nt + dir * ((sm + ia) div 256))) t) i =
          (if - (j + 1) \<le> i \<and> i < 0 then ?side i else ?px t1 i)" using IH(2) j k_def by auto
      moreover have "sm + ia = 128 + (j + 1) * ia" using IH(1) by (simp add: algebra_simps)
      ultimately show "case ?body j x of (sm, t) \<Rightarrow> sm = 128 + (j + 1) * ia \<and> (\<forall>i. ?px t i = (if - (j + 1) \<le> i \<and> i < 0 then ?side i else ?px t1 i))"
        unfolding p by (simp add: Let_def k_def)
    qed simp
    moreover have "extend_ref comps dir nt a ia pu1_ref r junk = snd (for_to (- 1 - ref_idx) ?body (128, t1))"
      by (simp add: extend_ref_def Let_def t1_def ref_idx_def)
    ultimately show ?thesis using t1 by (auto simp: case_prod_unfold)
  qed
qed

lemma extend_ref_main:
  assumes "0 < comps" "0 \<le> c" "c < comps" "0 \<le> nt" "(nt * a) div 32 < i" "i \<le> nt"
  shows "px comps (comps * (nt - 1)) (extend_ref comps 1 nt a (inverse_angle a) pu1_ref r junk) c i =
      main_ref (\<lambda>x y. nbr nt (px comps pu1_ref r c) y x) a i"
    and "px comps (comps * (nt - 1)) (extend_ref comps (- 1) nt a (inverse_angle a) pu1_ref r junk) c i =
      main_ref (nbr nt (px comps pu1_ref r c)) a i"
  using extend_ref_px [OF assms(1-4), where a = a and i = i and ia = "inverse_angle a" and r = r and pu1_ref = pu1_ref and junk = junk] assms(5,6)
  by (simp_all add: main_ref_def nbr_def)

lemma neg_angle_idx:
  assumes "a < 0" "0 \<le> k" "k < nt" "0 \<le> (x :: int)" "x < nt"
  shows "(nt * a) div 32 < x + ((k + 1) * a) div 32 + 1" "x + ((k + 1) * a) div 32 + 2 \<le> nt"
proof -
  have "nt * a \<le> (k + 1) * a" using assms by (intro mult_right_mono_neg) auto
  then have "(nt * a) div 32 \<le> ((k + 1) * a) div 32" by (rule zdiv_mono1) simp
  then show "(nt * a) div 32 < x + ((k + 1) * a) div 32 + 1" using assms by linarith
  have "(k + 1) * a < 0" using assms by (simp add: mult_pos_neg)
  then have "((k + 1) * a) div 32 < 0" by simp
  then show "x + ((k + 1) * a) div 32 + 2 \<le> nt" using assms by linarith
qed

lemma mode_11_to_17_routine:
  assumes "comps * nt \<le> dst_strd" "11 \<le> mode" "mode \<le> 17"
  shows "gives comps nt pu1_dst dst_strd (\<lambda>row col c. word_of_int (intra_ref M edge nt mode (px comps pu1_ref r c) row col))
    m (intra_mode_11_to_17 comps ref_temp pu1_ref r pu1_dst dst_strd nt mode m)"
proof -
  have t: "gai4_ihevc_ang_table ! nat mode = mode_angle mode" "gai4_ihevc_inv_ang_table ! nat (mode - 11) = inverse_angle (mode_angle mode)"
    using angle_table inverse_table [of mode] assms(2,3) by simp_all
  have a: "mode_angle mode < 0" using mode_angle_sign [of mode] assms(2,3) by simp
  show ?thesis unfolding intra_mode_11_to_17_def Let_def t and_31
  proof (rule gives_cols [OF assms(1)])
    fix row col c assume rc: "0 \<le> row" "row < nt" "0 \<le> col" "col < nt" "0 \<le> c" "c < comps"
    note i = neg_angle_idx [OF a rc(3,4,1,2)]
    have ext: "px comps (comps * (nt - 1)) (extend_ref comps 1 nt (mode_angle mode) (inverse_angle (mode_angle mode)) pu1_ref r ref_temp) c i =
        main_ref (\<lambda>x y. nbr nt (px comps pu1_ref r c) y x) (mode_angle mode) i" if "(nt * mode_angle mode) div 32 < i" "i \<le> nt" for i
      by (rule extend_ref_main(1)) (use rc that in auto)
    have e: "row + (col + 1) * mode_angle mode div 32 + 1 + 1 = row + (col + 1) * mode_angle mode div 32 + 2" by simp
    show "word_of_int (interpol ((col + 1) * mode_angle mode mod 32)
        (px comps (comps * (nt - 1)) (extend_ref comps 1 nt (mode_angle mode) (inverse_angle (mode_angle mode)) pu1_ref r ref_temp) c
          (row + (col + 1) * mode_angle mode div 32 + 1))
        (px comps (comps * (nt - 1)) (extend_ref comps 1 nt (mode_angle mode) (inverse_angle (mode_angle mode)) pu1_ref r ref_temp) c
          (row + (col + 1) * mode_angle mode div 32 + 1 + 1))) =
      word_of_int (intra_ref M edge nt mode (px comps pu1_ref r c) row col)"
      unfolding e using ext [of "row + (col + 1) * mode_angle mode div 32 + 1"] ext [of "row + (col + 1) * mode_angle mode div 32 + 2"] i assms(2,3)
      by (simp add: intra_ref_def Let_def angular_interpol)
  qed
qed

lemma mode_19_to_25_routine:
  assumes "comps * nt \<le> dst_strd" "19 \<le> mode" "mode \<le> 25"
  shows "gives comps nt pu1_dst dst_strd (\<lambda>row col c. word_of_int (intra_ref M edge nt mode (px comps pu1_ref r c) row col))
    m (intra_mode_19_to_25 gai4_ihevc_ang_table gai4_ihevc_inv_ang_table comps ref_temp pu1_ref r pu1_dst dst_strd nt mode m)"
proof -
  have t: "gai4_ihevc_ang_table ! nat mode = mode_angle mode" "gai4_ihevc_inv_ang_table ! nat (mode - 12) = inverse_angle (mode_angle mode)"
    using angle_table inverse_table [of mode] assms(2,3) by simp_all
  have a: "mode_angle mode < 0" using mode_angle_sign [of mode] assms(2,3) by simp
  show ?thesis unfolding intra_mode_19_to_25_def Let_def t and_31
  proof (rule gives_rows [OF assms(1)])
    fix row col c assume rc: "0 \<le> row" "row < nt" "0 \<le> col" "col < nt" "0 \<le> c" "c < comps"
    note i = neg_angle_idx [OF a rc(1,2,3,4)]
    have ext: "px comps (comps * (nt - 1)) (extend_ref comps (- 1) nt (mode_angle mode) (inverse_angle (mode_angle mode)) pu1_ref r ref_temp) c i =
        main_ref (nbr nt (px comps pu1_ref r c)) (mode_angle mode) i" if "(nt * mode_angle mode) div 32 < i" "i \<le> nt" for i
      by (rule extend_ref_main(2)) (use rc that in auto)
    have e: "col + (row + 1) * mode_angle mode div 32 + 1 + 1 = col + (row + 1) * mode_angle mode div 32 + 2" by simp
    show "word_of_int (interpol ((row + 1) * mode_angle mode mod 32)
        (px comps (comps * (nt - 1)) (extend_ref comps (- 1) nt (mode_angle mode) (inverse_angle (mode_angle mode)) pu1_ref r ref_temp) c
          (col + (row + 1) * mode_angle mode div 32 + 1))
        (px comps (comps * (nt - 1)) (extend_ref comps (- 1) nt (mode_angle mode) (inverse_angle (mode_angle mode)) pu1_ref r ref_temp) c
          (col + (row + 1) * mode_angle mode div 32 + 1 + 1))) =
      word_of_int (intra_ref M edge nt mode (px comps pu1_ref r c) row col)"
      unfolding e using ext [of "col + (row + 1) * mode_angle mode div 32 + 1"] ext [of "col + (row + 1) * mode_angle mode div 32 + 2"] i assms(2,3)
      by (simp add: intra_ref_def Let_def angular_interpol)
  qed
qed

text \<open>The diagonal modes and the plain horizontal and vertical one.\<close>

lemma put_1: "put 1 x f = (\<lambda>m. m(x := f 0))"
proof
  show "put 1 x f m = m(x := f 0)" for m using for_to_Suc [of 0 "\<lambda>c m. m(x + c := f c)" m] by (simp add: put_def)
qed

lemma put_2: "put 2 x f = (\<lambda>m. m(x := f 0, x + 1 := f 1))"
proof
  show "put 2 x f m = m(x := f 0, x + 1 := f 1)" for m
    using for_to_Suc [of 1 "\<lambda>c m. m(x + c := f c)" m] fun_cong [OF put_1 [of x f], of m] by (simp add: put_def)
qed

lemma angular_32:
  assumes "0 \<le> x" "0 \<le> y"
  shows "angular P 32 x y = P (x + y + 1) (- 1)" "angular P 0 x y = P x (- 1)"
proof -
  have *: "1 + (x + y) = x + y + 1" by simp
  then show "angular P 32 x y = P (x + y + 1) (- 1)" "angular P 0 x y = P x (- 1)"
    using assms by (simp_all add: angular_def Let_def main_ref_nonneg *)
qed

lemma angular_neg32:
  assumes "0 \<le> x" "0 \<le> y"
  shows "angular P (- 32) x y = (if y \<le> x then P (x - y - 1) (- 1) else P (- 1) (y - x - 1))"
proof -
  have "(y + 1) * - 32 = 32 * (- (y + 1))" by simp
  then have i: "(y + 1) * - 32 div 32 = - (y + 1)" "(y + 1) * - 32 mod 32 = 0" by (metis nonzero_mult_div_cancel_left mod_mult_self1_is_0 zero_neq_numeral)+
  have "inverse_angle (- 32) = 256" by (simp add: inverse_angle_def)
  moreover have "((y - x) * 256 + 128) div 256 = y - x" by simp
  ultimately show ?thesis unfolding angular_def Let_def i by (simp add: main_ref_def)
qed

lemma mode_18_34_routine:
  assumes "comps * nt \<le> dst_strd" "mode = 18 \<or> mode = 34"
  shows "gives comps nt pu1_dst dst_strd (\<lambda>row col c. word_of_int (intra_ref M edge nt mode (px comps pu1_ref r c) row col))
    m (intra_mode_18_34 comps pu1_ref r pu1_dst dst_strd nt mode m)"
proof -
  have ang: "(if mode = 18 then - 32 else 32) = mode_angle mode" using assms(2) by (auto simp: mode_angle_def Let_def)
  show ?thesis unfolding intra_mode_18_34_def Let_def
  proof (rule gives_rows [OF assms(1)])
    fix row col c assume rc: "0 \<le> row" "row < nt" "0 \<le> col" "col < nt" "0 \<le> c" "c < comps"
    have "word_of_int (px comps pu1_ref r c (2 * nt + col + (row + 1) * (if mode = 18 then - 32 else 32) div 32 + 1)) =
        (word_of_int (intra_ref M edge nt mode (px comps pu1_ref r c) row col) :: 'a word)"
    proof (cases "mode = 18")
      case True
      have "(row + 1) * - 32 = 32 * (- (row + 1))" by simp
      then have "(row + 1) * - 32 div 32 = - (row + 1)" by (metis nonzero_mult_div_cancel_left zero_neq_numeral)
      then show ?thesis using True ang rc by (auto simp: intra_ref_def Let_def angular_neg32 nbr_def algebra_simps)
    next
      case False
      then show ?thesis using assms(2) ang [symmetric] rc by (auto simp: intra_ref_def Let_def angular_32 nbr_def algebra_simps)
    qed
    then show "r (pu1_ref + comps * (2 * nt + col + (row + 1) * (if mode = 18 then - 32 else 32) div 32 + 1) + c) =
        word_of_int (intra_ref M edge nt mode (px comps pu1_ref r c) row col)" by (simp add: px_def)
  qed
qed

lemma mode_2_ref:
  assumes "0 \<le> row" "0 \<le> col"
  shows "intra_ref M edge nt 2 p row col = p (2 * nt - row - col - 2)"
  using assms by (simp add: intra_ref_def Let_def mode_angle_def angular_32 nbr_def algebra_simps)

lemma luma_mode2_routine:
  assumes "nt \<le> dst_strd"
  shows "gives 1 nt pu1_dst dst_strd (\<lambda>row col c. word_of_int (intra_ref M edge nt 2 (px 1 pu1_ref r c) row col))
    m (intra_luma_mode2 pu1_ref r pu1_dst dst_strd nt mode m)"
proof -
  have "intra_luma_mode2 pu1_ref r pu1_dst dst_strd nt mode m = for_to nt (\<lambda>col. for_to nt (\<lambda>row.
      put 1 (pu1_dst + row * dst_strd + col * 1) (\<lambda>c. r (pu1_ref + (2 * nt - row - (col + 1) - 1))))) m"
    by (simp add: intra_luma_mode2_def put_1 add.assoc add.commute [of "_ * dst_strd"])
  moreover have "gives 1 nt pu1_dst dst_strd (\<lambda>row col c. word_of_int (intra_ref M edge nt 2 (px 1 pu1_ref r c) row col)) m \<dots>"
  proof (rule gives_cols)
    fix row col c :: int assume rc: "0 \<le> row" "0 \<le> col" and "0 \<le> c" "c < 1"
    then have "c = 0" by linarith
    then show "r (pu1_ref + (2 * nt - row - (col + 1) - 1)) = word_of_int (intra_ref M edge nt 2 (px 1 pu1_ref r c) row col)"
      using rc by (simp add: mode_2_ref px_def algebra_simps)
  qed (use assms in simp)
  ultimately show ?thesis by simp
qed

lemma chroma_mode2_routine:
  assumes "2 * nt \<le> dst_strd"
  shows "gives 2 nt pu1_dst dst_strd (\<lambda>row col c. word_of_int (intra_ref M edge nt 2 (px 2 pu1_ref r c) row col))
    m (intra_chroma_mode2 pu1_ref r pu1_dst dst_strd nt mode m)"
proof -
  have addr: "pu1_dst + 2 * j + row * dst_strd = pu1_dst + row * dst_strd + j * 2"
    "pu1_dst + (2 * j + 1) + row * dst_strd = pu1_dst + row * dst_strd + j * 2 + 1" for j row by simp_all
  have "intra_chroma_mode2 pu1_ref r pu1_dst dst_strd nt mode m = for_to nt (\<lambda>col. for_to nt (\<lambda>row.
      put 2 (pu1_dst + row * dst_strd + col * 2) (\<lambda>c. r (pu1_ref + (4 * nt - 2 * row - (2 * col + 1 + c) - (if c = 0 then 3 else 1)))))) m"
    unfolding intra_chroma_mode2_def put_2 Let_def addr by (simp add: add.assoc)
  moreover have "gives 2 nt pu1_dst dst_strd (\<lambda>row col c. word_of_int (intra_ref M edge nt 2 (px 2 pu1_ref r c) row col)) m \<dots>"
  proof (rule gives_cols [OF assms])
    fix row col c :: int assume rc: "0 \<le> row" "0 \<le> col" and "0 \<le> c" "c < 2"
    then have "c = 0 \<or> c = 1" by linarith
    then show "r (pu1_ref + (4 * nt - 2 * row - (2 * col + 1 + c) - (if c = 0 then 3 else 1))) =
        word_of_int (intra_ref M edge nt 2 (px 2 pu1_ref r c) row col)"
      using rc by (auto simp: mode_2_ref px_def algebra_simps)
  qed
  ultimately show ?thesis by simp
qed

lemma mode_10_26_ref:
  assumes "0 \<le> row" "0 \<le> col"
  shows "\<not> (edge \<and> row = 0) \<Longrightarrow> intra_ref M edge nt 10 p row col = p (2 * nt - 1 - row)"
    and "\<not> (edge \<and> col = 0) \<Longrightarrow> intra_ref M edge nt 26 p row col = p (2 * nt + 1 + col)"
  using assms by (auto simp: intra_ref_def Let_def mode_angle_def angular_32 nbr_def)

lemma plain_horz_routine:
  assumes "comps * nt \<le> dst_strd"
  shows "gives comps nt pu1_dst dst_strd (\<lambda>row col c. word_of_int (intra_ref M False nt 10 (px comps pu1_ref r c) row col))
    m (intra_horz comps pu1_ref r pu1_dst dst_strd nt mode m)"
  unfolding intra_horz_def by (rule gives_rows [OF assms]) (simp add: mode_10_26_ref px_def)

lemma plain_ver_routine:
  assumes "comps * nt \<le> dst_strd"
  shows "gives comps nt pu1_dst dst_strd (\<lambda>row col c. word_of_int (intra_ref M False nt 26 (px comps pu1_ref r c) row col))
    m (intra_ver comps pu1_ref r pu1_dst dst_strd nt mode m)"
  unfolding intra_ver_def by (rule gives_rows [OF assms]) (simp add: mode_10_26_ref px_def)

text \<open>The routines with a filtered first row or column.\<close>

lemma UN_first: "0 < n \<Longrightarrow> (\<Union>k\<in>{0..<n}. F k) = F 0 \<union> (\<Union>k\<in>{0..<n - 1}. F (k + 1))" for n :: int
proof (intro equalityI subsetI)
  fix x assume "0 < n" "x \<in> (\<Union>k\<in>{0..<n}. F k)"
  then obtain k where k: "0 \<le> k" "k < n" "x \<in> F k" by auto
  show "x \<in> F 0 \<union> (\<Union>k\<in>{0..<n - 1}. F (k + 1))"
  proof (cases "k = 0")
    case False
    then have "k - 1 \<in> {0..<n - 1}" "x \<in> F (k - 1 + 1)" using k by auto
    then show ?thesis by blast
  qed (use k in simp)
next
  fix x assume n: "0 < n" and "x \<in> F 0 \<union> (\<Union>k\<in>{0..<n - 1}. F (k + 1))"
  then consider "x \<in> F 0" | k where "0 \<le> k" "k < n - 1" "x \<in> F (k + 1)" by auto
  then show "x \<in> (\<Union>k\<in>{0..<n}. F k)"
  proof cases
    case 1
    then show ?thesis using n by auto
  next
    case 2
    then show ?thesis by (intro UN_I [of "k + 1"]) auto
  qed
qed

lemma cell1_at: "nt \<le> strd \<Longrightarrow> 0 \<le> col \<Longrightarrow> col < nt \<Longrightarrow> cell_val 1 dst strd v (dst + row * strd + col) = v row col 0"
  using cell_val_at [of 1 nt strd col 0 dst v row] by simp

lemma cell1_row: "nt \<le> strd \<Longrightarrow> 0 \<le> col \<Longrightarrow> col < nt \<Longrightarrow> cell_val 1 dst strd v (dst + col) = v 0 col 0"
  using cell1_at [of nt strd col dst v 0] by simp

lemma cell1_col: "nt \<le> strd \<Longrightarrow> 0 < nt \<Longrightarrow> cell_val 1 dst strd v (dst + row * strd) = v row 0 0"
  using cell1_at [of nt strd 0 dst v row] by simp

lemma cells1: "cells 1 nt dst strd = (\<Union>row\<in>{0..<nt}. \<Union>col\<in>{0..<nt}. {dst + row * strd + col})"
proof -
  have "{0..<1} = {0 :: int}" by auto
  then show ?thesis by (simp add: cells_def)
qed

lemma filtered_exact:
  assumes "0 \<le> a" "a \<le> M" "0 \<le> b" "b \<le> M" "0 \<le> d" "d \<le> M" "M \<le> 16383"
  shows "s16 (a + (b - d) div 2) = a + (b - d) div 2"
  by (rule s16_id) (use assms in linarith)+

lemma luma_horz_routine:
  assumes "size_ok nt" "nt \<le> dst_strd" "ref_ok (2 ^ depth - 1) nt (px 1 pu1_ref r 0)" "depth \<le> 14"
  shows "gives 1 nt pu1_dst dst_strd (\<lambda>row col c. word_of_int (intra_ref (2 ^ depth - 1) (nt \<noteq> 32 \<and> d = 0) nt 10 (px 1 pu1_ref r c) row col))
    m (intra_luma_horz depth pu1_ref r pu1_dst dst_strd nt d m)"
proof (cases "nt = 32 \<or> d \<noteq> 0")
  case True
  then have e: "(nt \<noteq> 32 \<and> d = 0) = False" by auto
  have "gives 1 nt pu1_dst dst_strd (\<lambda>row col c. word_of_int (intra_ref (2 ^ depth - 1) False nt 10 (px 1 pu1_ref r c) row col))
      m (intra_horz 1 pu1_ref r pu1_dst dst_strd nt 10 m)" by (rule plain_horz_routine) (use assms in simp)
  then show ?thesis using True unfolding e by (simp add: intra_luma_horz_def)
next
  case False
  let ?M = "2 ^ depth - 1 :: int" and ?p = "px 1 pu1_ref r 0" and ?s = "nt \<noteq> 32 \<and> d = 0"
  let ?v = "\<lambda>row col c. word_of_int (intra_ref ?M ?s nt 10 (px 1 pu1_ref r c) row col)"
  have M: "?M \<le> 16383" using power_increasing [OF assms(4), of "2 :: int"] by simp
  have nt: "0 < nt" using assms(1) by auto
  have p: "0 \<le> ?p i \<and> ?p i \<le> ?M" if "0 \<le> i" "i \<le> 4 * nt" for i by (rule ref_okD [OF assms(3) that])
  have first: "word_of_int (CLIP3 (s16 (?p (2 * nt - 1) + (?p (2 * nt + 1 + col) - ?p (2 * nt)) div 2)) 0 ?M) = ?v 0 col 0"
    if "0 \<le> col" "col < nt" for col
    using False that p [of "2 * nt - 1"] p [of "2 * nt + 1 + col"] p [of "2 * nt"] nt M
    by (simp add: filtered_exact [where M = ?M] intra_ref_def Let_def nbr_def)
  have rest: "r (pu1_ref + (2 * nt - 1 - (i + 1))) = ?v (i + 1) col 0" if "0 \<le> i" "0 \<le> col" for i col
    using that by (simp add: mode_10_26_ref px_def)
  let ?w = "cell_val 1 pu1_dst dst_strd ?v"
  have w1: "word_of_int (CLIP3 (s16 (?p (2 * nt - 1) + (?p (2 * nt + 1 + col) - ?p (2 * nt)) div 2)) 0 ?M) = ?w (pu1_dst + col)"
    if "0 \<le> col" "col < nt" for col
    unfolding cell1_row [OF assms(2) that] by (rule first [OF that])
  have w2: "r (pu1_ref + (2 * nt - 1 - (i + 1))) = ?w (pu1_dst + (i + 1) * dst_strd + col)" if "0 \<le> i" "0 \<le> col" "col < nt" for i col
    unfolding cell1_at [OF assms(2) that(2,3)] by (rule rest [OF that(1,2)])
  have f1: "writes ?w (\<Union>col\<in>{0..<nt}. {pu1_dst + col})
      (for_to nt (\<lambda>col m. m(pu1_dst + col := word_of_int (CLIP3 (s16 (?p (2 * nt - 1) + (?p (2 * nt + 1 + col) - ?p (2 * nt)) div 2)) 0 ?M))))"
    by (intro writes_for writes_upd w1)
  have f2: "writes ?w (\<Union>i\<in>{0..<nt - 1}. \<Union>col\<in>{0..<nt}. {pu1_dst + (i + 1) * dst_strd + col})
      (for_to (nt - 1) (\<lambda>i. for_to nt (\<lambda>col m. m(pu1_dst + (i + 1) * dst_strd + col := r (pu1_ref + (2 * nt - 1 - (i + 1)))))))"
    by (intro writes_for writes_upd w2)
  have "cells 1 nt pu1_dst dst_strd =
      (\<Union>col\<in>{0..<nt}. {pu1_dst + col}) \<union> (\<Union>i\<in>{0..<nt - 1}. \<Union>col\<in>{0..<nt}. {pu1_dst + (i + 1) * dst_strd + col})"
    unfolding cells1 using UN_first [OF nt, of "\<lambda>row. \<Union>col\<in>{0..<nt}. {pu1_dst + row * dst_strd + col}"] by simp
  then have "writes ?w (cells 1 nt pu1_dst dst_strd) (\<lambda>m. intra_luma_horz depth pu1_ref r pu1_dst dst_strd nt d m)"
    using writes_comp [OF f1 f2] False by (simp add: intra_luma_horz_def Let_def)
  then show ?thesis by (rule writes_gives) (use assms(2) in simp)
qed

lemma luma_ver_routine:
  assumes "size_ok nt" "nt \<le> dst_strd" "ref_ok (2 ^ depth - 1) nt (px 1 pu1_ref r 0)" "depth \<le> 14"
  shows "gives 1 nt pu1_dst dst_strd (\<lambda>row col c. word_of_int (intra_ref (2 ^ depth - 1) (nt \<noteq> 32 \<and> d = 0) nt 26 (px 1 pu1_ref r c) row col))
    m (intra_luma_ver depth pu1_ref r pu1_dst dst_strd nt d m)"
proof (cases "nt = 32 \<or> d \<noteq> 0")
  case True
  then have e: "(nt \<noteq> 32 \<and> d = 0) = False" by auto
  have "gives 1 nt pu1_dst dst_strd (\<lambda>row col c. word_of_int (intra_ref (2 ^ depth - 1) False nt 26 (px 1 pu1_ref r c) row col))
      m (intra_ver 1 pu1_ref r pu1_dst dst_strd nt 26 m)" by (rule plain_ver_routine) (use assms in simp)
  then show ?thesis using True unfolding e by (simp add: intra_luma_ver_def)
next
  case False
  let ?M = "2 ^ depth - 1 :: int" and ?p = "px 1 pu1_ref r 0" and ?s = "nt \<noteq> 32 \<and> d = 0"
  let ?v = "\<lambda>row col c. word_of_int (intra_ref ?M ?s nt 26 (px 1 pu1_ref r c) row col)"
  have M: "?M \<le> 16383" using power_increasing [OF assms(4), of "2 :: int"] by simp
  have nt: "0 < nt" using assms(1) by auto
  have p: "0 \<le> ?p i \<and> ?p i \<le> ?M" if "0 \<le> i" "i \<le> 4 * nt" for i by (rule ref_okD [OF assms(3) that])
  have first: "word_of_int (CLIP3 (s16 (?p (2 * nt + 1) + (?p (2 * nt - 1 - row) - ?p (2 * nt)) div 2)) 0 ?M) = ?v row 0 0"
    if "0 \<le> row" "row < nt" for row
    using False that p [of "2 * nt + 1"] p [of "2 * nt - 1 - row"] p [of "2 * nt"] nt M
    by (simp add: filtered_exact [where M = ?M] intra_ref_def Let_def nbr_def)
  have rest: "r (pu1_ref + (2 * nt + 1 + (j + 1))) = ?v row (j + 1) 0" if "0 \<le> row" "0 \<le> j" for row j
    using that by (simp add: mode_10_26_ref px_def)
  let ?w = "cell_val 1 pu1_dst dst_strd ?v"
  have w1: "word_of_int (CLIP3 (s16 (?p (2 * nt + 1) + (?p (2 * nt - 1 - row) - ?p (2 * nt)) div 2)) 0 ?M) = ?w (pu1_dst + row * dst_strd)"
    if "0 \<le> row" "row < nt" for row
    unfolding cell1_col [OF assms(2) nt] by (rule first [OF that])
  have w2: "r (pu1_ref + (2 * nt + 1 + (j + 1))) = ?w (pu1_dst + row * dst_strd + (j + 1))" if "0 \<le> row" "0 \<le> j" "j < nt - 1" for row j
  proof -
    have "0 \<le> j + 1" "j + 1 < nt" using that by simp_all
    then show ?thesis using rest [OF that(1,2)] by (simp only: cell1_at [OF assms(2)])
  qed
  have f1: "writes ?w (\<Union>row\<in>{0..<nt}. {pu1_dst + row * dst_strd})
      (for_to nt (\<lambda>row m. m(pu1_dst + row * dst_strd := word_of_int (CLIP3 (s16 (?p (2 * nt + 1) + (?p (2 * nt - 1 - row) - ?p (2 * nt)) div 2)) 0 ?M))))"
    by (intro writes_for writes_upd w1)
  have f2: "writes ?w (\<Union>row\<in>{0..<nt}. \<Union>j\<in>{0..<nt - 1}. {pu1_dst + row * dst_strd + (j + 1)})
      (for_to nt (\<lambda>row. for_to (nt - 1) (\<lambda>j m. m(pu1_dst + row * dst_strd + (j + 1) := r (pu1_ref + (2 * nt + 1 + (j + 1)))))))"
    by (intro writes_for writes_upd w2)
  have "cells 1 nt pu1_dst dst_strd =
      (\<Union>row\<in>{0..<nt}. {pu1_dst + row * dst_strd}) \<union> (\<Union>row\<in>{0..<nt}. \<Union>j\<in>{0..<nt - 1}. {pu1_dst + row * dst_strd + (j + 1)})"
    unfolding cells1 UN_first [OF nt, of "\<lambda>col. {pu1_dst + _ * dst_strd + col}"] UN_Un_distrib by simp
  then have "writes ?w (cells 1 nt pu1_dst dst_strd) (\<lambda>m. intra_luma_ver depth pu1_ref r pu1_dst dst_strd nt d m)"
    using writes_comp [OF f1 f2] False by (simp add: intra_luma_ver_def Let_def)
  then show ?thesis by (rule writes_gives) (use assms(2) in simp)
qed

lemma for_to_sum:
  assumes "0 \<le> n"
  shows "for_to n (\<lambda>i acc. acc + f i) a = a + (\<Sum>i = 0..<n. f i)"
proof (rule for_to_inv [where P = "\<lambda>k t. t = a + (\<Sum>i = 0..<k. f i)", OF assms])
  fix k t assume k: "0 \<le> k" and t: "t = a + (\<Sum>i = 0..<k. f i)"
  have "{0..<k + 1} = insert k {0..<k}" using k by auto
  then show "t + f k = a + (\<Sum>i = 0..<k + 1. f i)" using t by (simp add: ac_simps)
qed simp

lemma dc_val_ref:
  assumes "size_ok nt"
  shows "intra_dc_val nt p = dc_ref nt (nbr nt p)"
proof -
  have nt: "0 \<le> nt" using assms by auto
  have "(\<Sum>y = 0..<nt. nbr nt p (- 1) y) = (\<Sum>i = 0..<nt. p (nt + i))"
    by (rule sum.reindex_bij_witness [of _ "\<lambda>i. nt - 1 - i" "\<lambda>y. nt - 1 - y"]) (auto simp: nbr_def algebra_simps)
  moreover have "(\<Sum>x = 0..<nt. nbr nt p x (- 1)) = (\<Sum>i = 0..<nt. p (2 * nt + 1 + i))"
    by (rule sum.cong) (auto simp: nbr_def)
  ultimately show ?thesis
    unfolding intra_dc_val_def dc_ref_def Let_def for_to_sum [OF nt] log2nt [OF assms] by (simp add: add.commute)
qed

lemma chroma_dc_routine:
  assumes "size_ok nt" "2 * nt \<le> dst_strd"
  shows "gives 2 nt pu1_dst dst_strd (\<lambda>row col c. word_of_int (intra_ref M False nt 1 (px 2 pu1_ref r c) row col))
    m (intra_chroma_dc pu1_ref r pu1_dst dst_strd nt mode m)"
  unfolding intra_chroma_dc_def dc_val_ref [OF assms(1)]
  by (rule gives_rows [OF assms(2)]) (simp add: intra_ref_def Let_def)

lemma luma_dc_routine:
  fixes r m :: "int \<Rightarrow> 'l::len word"
  assumes "size_ok nt" "nt \<le> dst_strd"
  shows "gives 1 nt pu1_dst dst_strd (\<lambda>row col c. word_of_int (intra_ref M (nt \<noteq> 32) nt 1 (px 1 pu1_ref r c) row col))
    m (intra_luma_dc pu1_ref r pu1_dst dst_strd nt mode m)"
proof (cases "nt = 32")
  case True
  have "intra_luma_dc pu1_ref r pu1_dst dst_strd nt mode m = for_to nt (\<lambda>row. for_to nt (\<lambda>col.
      put 1 (pu1_dst + row * dst_strd + col * 1) (\<lambda>c. word_of_int (dc_ref nt (nbr nt (px 1 pu1_ref r 0)))))) m"
    unfolding intra_luma_dc_def put_1 Let_def dc_val_ref [OF assms(1)] using True by simp
  moreover have "gives 1 nt pu1_dst dst_strd (\<lambda>row col c. word_of_int (intra_ref M (nt \<noteq> 32) nt 1 (px 1 pu1_ref r c) row col)) m \<dots>"
  proof (rule gives_rows)
    fix c :: int assume "0 \<le> c" "c < 1"
    then have "c = 0" by linarith
    then show "word_of_int (dc_ref nt (nbr nt (px 1 pu1_ref r 0))) = word_of_int (intra_ref M (nt \<noteq> 32) nt 1 (px 1 pu1_ref r c) row col)" for row col
      using True by (simp add: intra_ref_def Let_def)
  qed (use assms in simp)
  ultimately show ?thesis by simp
next
  case False
  let ?p = "px 1 pu1_ref r 0" and ?v = "\<lambda>row col c. word_of_int (intra_ref M (nt \<noteq> 32) nt 1 (px 1 pu1_ref r c) row col) :: 'l word"
  let ?w = "cell_val 1 pu1_dst dst_strd ?v"
  define d where "d = dc_ref nt (nbr nt ?p)"
  have nt: "0 < nt" using assms(1) by auto
  have v: "?v 0 0 0 = word_of_int ((?p (2 * nt - 1) + 2 * d + ?p (2 * nt + 1) + 2) div 4)"
    "0 \<le> j \<Longrightarrow> ?v 0 (j + 1) 0 = word_of_int ((?p (2 * nt + 1 + (j + 1)) + 3 * d + 2) div 4)"
    "0 \<le> i \<Longrightarrow> ?v (i + 1) 0 0 = word_of_int ((?p (2 * nt - 1 - (i + 1)) + 3 * d + 2) div 4)"
    "0 \<le> i \<Longrightarrow> 0 \<le> j \<Longrightarrow> ?v (i + 1) (j + 1) 0 = word_of_int d" for i j
    using False by (simp_all add: intra_ref_def Let_def nbr_def d_def)
  have w1: "word_of_int ((?p (2 * nt - 1) + 2 * d + ?p (2 * nt + 1) + 2) div 4) = ?w pu1_dst"
    using cell1_row [OF assms(2) _ nt, of pu1_dst ?v] v(1) by simp
  have w2: "word_of_int ((?p (2 * nt + 1 + (j + 1)) + 3 * d + 2) div 4) = ?w (pu1_dst + (j + 1))" if "0 \<le> j" "j < nt - 1" for j
  proof -
    have j: "0 \<le> j + 1" "j + 1 < nt" using that by simp_all
    show ?thesis using v(2) [OF that(1)] by (simp only: cell1_row [OF assms(2) j])
  qed
  have w3: "word_of_int ((?p (2 * nt - 1 - (i + 1)) + 3 * d + 2) div 4) = ?w (pu1_dst + (i + 1) * dst_strd)" if "0 \<le> i" for i
    using v(3) [OF that] by (simp only: cell1_col [OF assms(2) nt])
  have w4: "word_of_int d = ?w (pu1_dst + (i + 1) * dst_strd + (j + 1))" if "0 \<le> i" "0 \<le> j" "j < nt - 1" for i j
  proof -
    have j: "0 \<le> j + 1" "j + 1 < nt" using that by simp_all
    show ?thesis using v(4) [OF that(1,2)] by (simp only: cell1_at [OF assms(2) j])
  qed
  have f1: "writes ?w {pu1_dst} (\<lambda>m. m(pu1_dst := word_of_int ((?p (2 * nt - 1) + 2 * d + ?p (2 * nt + 1) + 2) div 4)))"
    by (intro writes_upd w1)
  have f2: "writes ?w (\<Union>j\<in>{0..<nt - 1}. {pu1_dst + (j + 1)})
      (for_to (nt - 1) (\<lambda>j m. m(pu1_dst + (j + 1) := word_of_int ((?p (2 * nt + 1 + (j + 1)) + 3 * d + 2) div 4))))"
    by (intro writes_for writes_upd w2)
  have f3: "writes ?w (\<Union>i\<in>{0..<nt - 1}. {pu1_dst + (i + 1) * dst_strd})
      (for_to (nt - 1) (\<lambda>i m. m(pu1_dst + (i + 1) * dst_strd := word_of_int ((?p (2 * nt - 1 - (i + 1)) + 3 * d + 2) div 4))))"
    by (intro writes_for writes_upd w3)
  have f4: "writes ?w (\<Union>i\<in>{0..<nt - 1}. \<Union>j\<in>{0..<nt - 1}. {pu1_dst + (i + 1) * dst_strd + (j + 1)})
      (for_to (nt - 1) (\<lambda>i. for_to (nt - 1) (\<lambda>j m. m(pu1_dst + (i + 1) * dst_strd + (j + 1) := word_of_int d))))"
    by (intro writes_for writes_upd w4)
  have "cells 1 nt pu1_dst dst_strd = {pu1_dst} \<union> (\<Union>j\<in>{0..<nt - 1}. {pu1_dst + (j + 1)}) \<union>
      (\<Union>i\<in>{0..<nt - 1}. {pu1_dst + (i + 1) * dst_strd}) \<union> (\<Union>i\<in>{0..<nt - 1}. \<Union>j\<in>{0..<nt - 1}. {pu1_dst + (i + 1) * dst_strd + (j + 1)})"
    unfolding cells1 UN_first [OF nt, of "\<lambda>col. {pu1_dst + _ * dst_strd + col}"] UN_Un_distrib
    unfolding UN_first [OF nt, of "\<lambda>row. {pu1_dst + row * dst_strd + 0}"]
      UN_first [OF nt, of "\<lambda>row. \<Union>j\<in>{0..<nt - 1}. {pu1_dst + row * dst_strd + (j + 1)}"] by (simp add: Un_ac)
  then have "writes ?w (cells 1 nt pu1_dst dst_strd) (\<lambda>m. intra_luma_dc pu1_ref r pu1_dst dst_strd nt mode m)"
    using writes_comp [OF writes_comp [OF writes_comp [OF f1 f2] f3] f4] False
    by (simp add: intra_luma_dc_def Let_def dc_val_ref [OF assms(1)] d_def)
  then show ?thesis by (rule writes_gives) (use assms(2) in simp)
qed

section \<open>The range of a prediction\<close>

lemma interpol_range:
  assumes "0 \<le> f" "f < 32" "0 \<le> a" "a \<le> M" "0 \<le> b" "b \<le> M"
  shows "0 \<le> interpol f a b \<and> interpol f a b \<le> M"
proof -
  have "0 \<le> (32 - f) * a" "0 \<le> f * b" "(32 - f) * a \<le> (32 - f) * M" "f * b \<le> f * M" using assms by (simp_all add: mult_left_mono)
  moreover have "(32 - f) * M + f * M = 32 * M" by (simp add: algebra_simps)
  ultimately have "0 \<le> (32 - f) * a + f * b + 16" "(32 - f) * a + f * b + 16 \<le> 32 * M + 16" by linarith+
  then show ?thesis unfolding interpol_def by linarith
qed

lemma mode_angle_cases:
  assumes "2 \<le> mode" "mode \<le> 34"
  shows "mode_angle mode = 32 \<or> 0 \<le> mode_angle mode \<and> mode_angle mode \<le> 26 \<or> - 32 \<le> mode_angle mode \<and> mode_angle mode < 0"
  by (rule all_modes [OF _ assms]) (simp add: mode_angle_def Let_def)

lemma inverse_angle_le:
  assumes "- 32 \<le> a" "a < 0"
  shows "- a * inverse_angle a \<le> 8208" "0 \<le> inverse_angle a"
proof -
  have le: "b * (n div b) \<le> n" if "0 < b" for b n :: int using that by (simp add: minus_mod_eq_mult_div [symmetric])
  have "- a * inverse_angle a \<le> 8192 + - a div 2"
    using assms le [of "- a" "8192 + - a div 2"] by (simp add: inverse_angle_def abs_of_neg)
  moreover have "- a div 2 \<le> 16" using assms by linarith
  ultimately show "- a * inverse_angle a \<le> 8208" by linarith
  show "0 \<le> inverse_angle a" using assms by (simp add: inverse_angle_def pos_imp_zdiv_nonneg_iff)
qed

lemma side_index:
  assumes "- 32 \<le> a" "a < 0" "(nt * a) div 32 < i" "i < 0" "4 \<le> nt"
  shows "0 \<le> (- i * inverse_angle a + 128) div 256" "(- i * inverse_angle a + 128) div 256 \<le> 2 * nt"
proof -
  let ?ia = "inverse_angle a"
  note ia = inverse_angle_le [OF assms(1,2)]
  have "0 \<le> - i * ?ia" using assms(4) ia(2) by (intro mult_nonneg_nonneg) auto
  then show "0 \<le> (- i * ?ia + 128) div 256" by linarith
  have "nt * a < 32 * i" using assms(3) by linarith
  then have "32 * (- i) * ?ia \<le> nt * (- a) * ?ia" using ia(2) by (intro mult_right_mono) auto
  also have "\<dots> \<le> nt * 8208" using mult_left_mono [OF ia(1), of nt] assms(5) by (simp add: algebra_simps)
  finally have "32 * (- i * ?ia) \<le> nt * 8208" by (simp add: algebra_simps)
  then show "(- i * ?ia + 128) div 256 \<le> 2 * nt" using assms(5) by linarith
qed

lemma angular_range:
  assumes top: "\<And>k. - 1 \<le> k \<Longrightarrow> k < 2 * nt \<Longrightarrow> 0 \<le> P k (- 1) \<and> P k (- 1) \<le> M"
    and side: "\<And>k. - 1 \<le> k \<Longrightarrow> k < 2 * nt \<Longrightarrow> 0 \<le> P (- 1) k \<and> P (- 1) k \<le> M"
    and mode: "2 \<le> mode" "mode \<le> 34" and nt: "4 \<le> nt" and xy: "0 \<le> x" "x < nt" "0 \<le> y" "y < nt"
  shows "0 \<le> angular P (mode_angle mode) x y \<and> angular P (mode_angle mode) x y \<le> M"
proof -
  let ?a = "mode_angle mode"
  let ?i = "((y + 1) * ?a) div 32"
  have f: "0 \<le> ((y + 1) * ?a) mod 32" "((y + 1) * ?a) mod 32 < 32" by simp_all
  consider "?a = 32" | "0 \<le> ?a" "?a \<le> 26" | "- 32 \<le> ?a" "?a < 0" using mode_angle_cases [OF mode] by blast
  then show ?thesis
  proof cases
    case 1
    then show ?thesis using xy by (simp add: angular_32 top)
  next
    case 2
    have "(y + 1) * ?a \<le> nt * 26" using 2 xy by (intro mult_mono) auto
    then have i: "0 \<le> ?i" "?i < nt" using 2 xy nt by (simp add: pos_imp_zdiv_nonneg_iff, linarith)
    have "0 \<le> P (x + ?i + 1 - 1) (- 1) \<and> P (x + ?i + 1 - 1) (- 1) \<le> M" by (rule top) (use i xy in linarith)+
    moreover have "0 \<le> P (x + ?i + 2 - 1) (- 1) \<and> P (x + ?i + 2 - 1) (- 1) \<le> M" by (rule top) (use i xy in linarith)+
    moreover have "main_ref P ?a (x + ?i + 1) = P (x + ?i + 1 - 1) (- 1)" "main_ref P ?a (x + ?i + 2) = P (x + ?i + 2 - 1) (- 1)"
      using i xy by (intro main_ref_nonneg; linarith)+
    ultimately show ?thesis unfolding angular_interpol by (intro interpol_range [OF f]) simp_all
  next
    case 3
    have m: "0 \<le> main_ref P ?a i \<and> main_ref P ?a i \<le> M" if "(nt * ?a) div 32 < i" "i \<le> nt" for i
    proof (cases "0 \<le> i")
      case True
      then show ?thesis unfolding main_ref_nonneg [OF True] by (intro top) (use that nt in linarith)+
    next
      case False
      then have "main_ref P ?a i = P (- 1) ((- i * inverse_angle ?a + 128) div 256 - 1)" by (simp add: main_ref_def)
      then show ?thesis using side [of "(- i * inverse_angle ?a + 128) div 256 - 1"] side_index [OF 3 that(1) _ nt] False by simp
    qed
    note i = neg_angle_idx [OF 3(2) xy(3,4,1,2)]
    have "0 \<le> main_ref P ?a (x + ?i + 1) \<and> main_ref P ?a (x + ?i + 1) \<le> M" "0 \<le> main_ref P ?a (x + ?i + 2) \<and> main_ref P ?a (x + ?i + 2) \<le> M"
      by (rule m; use i in linarith)+
    then show ?thesis unfolding angular_interpol by (intro interpol_range [OF f]) simp_all
  qed
qed

lemma mean_range:
  assumes "0 \<le> s" "s \<le> 2 * nt * M" "0 < (nt :: int)"
  shows "0 \<le> (s + nt) div (2 * nt) \<and> (s + nt) div (2 * nt) \<le> M"
proof -
  have "(s + nt) div (2 * nt) \<le> (nt + M * (2 * nt)) div (2 * nt)" using assms by (intro zdiv_mono1) (auto simp: algebra_simps)
  moreover have "(nt + M * (2 * nt)) div (2 * nt) = M" using assms(3) by (simp add: div_pos_pos_trivial)
  ultimately show ?thesis using assms by (simp add: pos_imp_zdiv_nonneg_iff)
qed

lemma dc_ref_range:
  assumes "\<And>k. 0 \<le> k \<Longrightarrow> k < nt \<Longrightarrow> 0 \<le> P k (- 1) \<and> P k (- 1) \<le> M" "\<And>k. 0 \<le> k \<Longrightarrow> k < nt \<Longrightarrow> 0 \<le> P (- 1) k \<and> P (- 1) k \<le> M" "0 < nt"
  shows "0 \<le> dc_ref nt P \<and> dc_ref nt P \<le> M"
  unfolding dc_ref_def
proof (rule mean_range [OF _ _ assms(3)])
  have "(\<Sum>x = 0..<nt. P x (- 1)) \<le> of_nat (card {0..<nt}) * M" "(\<Sum>y = 0..<nt. P (- 1) y) \<le> of_nat (card {0..<nt}) * M"
    by (intro sum_bounded_above; use assms in auto)+
  then show "(\<Sum>x = 0..<nt. P x (- 1)) + (\<Sum>y = 0..<nt. P (- 1) y) \<le> 2 * nt * M" using assms(3) by simp
  show "0 \<le> (\<Sum>x = 0..<nt. P x (- 1)) + (\<Sum>y = 0..<nt. P (- 1) y)" by (intro add_nonneg_nonneg sum_nonneg) (use assms in auto)
qed

lemma planar_range:
  fixes x y nt M :: int
  assumes "0 \<le> A" "A \<le> M" "0 \<le> B" "B \<le> M" "0 \<le> C" "C \<le> M" "0 \<le> D" "D \<le> M" "0 \<le> x" "x < nt" "0 \<le> y" "y < nt"
  shows "0 \<le> ((nt - 1 - x) * A + (x + 1) * B + (nt - 1 - y) * C + (y + 1) * D + nt) div (2 * nt) \<and>
    ((nt - 1 - x) * A + (x + 1) * B + (nt - 1 - y) * C + (y + 1) * D + nt) div (2 * nt) \<le> M"
proof (rule mean_range)
  have "(nt - 1 - x) * A \<le> (nt - 1 - x) * M" "(x + 1) * B \<le> (x + 1) * M" "(nt - 1 - y) * C \<le> (nt - 1 - y) * M" "(y + 1) * D \<le> (y + 1) * M"
    using assms by (simp_all add: mult_left_mono)
  moreover have "(nt - 1 - x) * M + (x + 1) * M + (nt - 1 - y) * M + (y + 1) * M = 2 * nt * M" by (simp add: algebra_simps)
  ultimately show "(nt - 1 - x) * A + (x + 1) * B + (nt - 1 - y) * C + (y + 1) * D \<le> 2 * nt * M" by linarith
  show "0 \<le> (nt - 1 - x) * A + (x + 1) * B + (nt - 1 - y) * C + (y + 1) * D" by (intro add_nonneg_nonneg mult_nonneg_nonneg) (use assms in auto)
qed (use assms in simp)

lemma intra_ref_range:
  assumes p: "ref_ok M nt p" and nt: "size_ok nt" and mode: "0 \<le> mode" "mode \<le> 34" and rc: "0 \<le> row" "row < nt" "0 \<le> col" "col < nt"
  shows "0 \<le> intra_ref M edge nt mode p row col \<and> intra_ref M edge nt mode p row col \<le> M"
proof -
  let ?P = "nbr nt p"
  have nt4: "4 \<le> nt" using nt by auto
  have M: "0 \<le> M" using ref_okD [OF p, of 0] nt4 by simp
  have top: "0 \<le> ?P k (- 1) \<and> ?P k (- 1) \<le> M" if "- 1 \<le> k" "k < 2 * nt" for k
    using ref_okD [OF p, of "2 * nt + 1 + k"] that nt4 by (auto simp: nbr_def)
  have side: "0 \<le> ?P (- 1) k \<and> ?P (- 1) k \<le> M" if "- 1 \<le> k" "k < 2 * nt" for k
    using ref_okD [OF p, of "2 * nt - 1 - k"] that nt4 by (auto simp: nbr_def)
  have d: "0 \<le> dc_ref nt ?P \<and> dc_ref nt ?P \<le> M" by (rule dc_ref_range) (use top side nt4 in auto)
  consider "mode = 0" | "mode = 1" | "2 \<le> mode" using mode by linarith
  then show ?thesis
  proof cases
    case 1
    have "0 \<le> ((nt - 1 - col) * ?P (- 1) row + (col + 1) * ?P nt (- 1) + (nt - 1 - row) * ?P col (- 1) + (row + 1) * ?P (- 1) nt + nt) div (2 * nt) \<and>
        ((nt - 1 - col) * ?P (- 1) row + (col + 1) * ?P nt (- 1) + (nt - 1 - row) * ?P col (- 1) + (row + 1) * ?P (- 1) nt + nt) div (2 * nt) \<le> M"
      by (rule planar_range) (use top side rc nt4 in auto)
    then show ?thesis using 1 by (simp add: intra_ref_def Let_def)
  next
    case 2
    have "0 \<le> (?P (- 1) 0 + 2 * dc_ref nt ?P + ?P 0 (- 1) + 2) div 4 \<and> (?P (- 1) 0 + 2 * dc_ref nt ?P + ?P 0 (- 1) + 2) div 4 \<le> M"
      using top [of 0] side [of 0] d nt4 by auto
    moreover have "0 \<le> (?P col (- 1) + 3 * dc_ref nt ?P + 2) div 4 \<and> (?P col (- 1) + 3 * dc_ref nt ?P + 2) div 4 \<le> M"
      using top [of col] d rc by auto
    moreover have "0 \<le> (?P (- 1) row + 3 * dc_ref nt ?P + 2) div 4 \<and> (?P (- 1) row + 3 * dc_ref nt ?P + 2) div 4 \<le> M"
      using side [of row] d rc by auto
    ultimately show ?thesis using 2 d by (simp add: intra_ref_def Let_def)
  next
    case 3
    have "0 \<le> angular ?P (mode_angle mode) col row \<and> angular ?P (mode_angle mode) col row \<le> M"
      by (rule angular_range [where P = ?P, OF top side 3 mode(2) nt4 rc(3,4,1,2)])
    moreover have "0 \<le> angular (\<lambda>x y. ?P y x) (mode_angle mode) row col \<and> angular (\<lambda>x y. ?P y x) (mode_angle mode) row col \<le> M"
      by (rule angular_range [where P = "\<lambda>x y. ?P y x", OF side top 3 mode(2) nt4 rc])
    moreover have "0 \<le> CLIP3 x 0 M \<and> CLIP3 x 0 M \<le> M" for x using M by (auto simp: CLIP3_def)
    ultimately show ?thesis using 3 by (simp add: intra_ref_def Let_def)
  qed
qed

section \<open>The prediction of a block\<close>

definition predicts :: "int \<Rightarrow> int \<Rightarrow> bool \<Rightarrow> int \<Rightarrow> int \<Rightarrow> int \<Rightarrow> (int \<Rightarrow> 'l::len word) \<Rightarrow> int \<Rightarrow> int \<Rightarrow> (int \<Rightarrow> 'l word) \<Rightarrow>
    (int \<Rightarrow> 'l word) \<Rightarrow> bool" where
  "predicts comps top_val edge nt mode pu1_ref r pu1_dst dst_strd m m' \<longleftrightarrow>
     (\<forall>row col c. 0 \<le> row \<and> row < nt \<and> 0 \<le> col \<and> col < nt \<and> 0 \<le> c \<and> c < comps \<longrightarrow>
       uint (m' (pu1_dst + row * dst_strd + col * comps + c)) = intra_ref top_val edge nt mode (px comps pu1_ref r c) row col) \<and>
     (\<forall>a. a \<notin> cells comps nt pu1_dst dst_strd \<longrightarrow> m' a = m a)"

definition intra_input :: "int \<Rightarrow> nat \<Rightarrow> int \<Rightarrow> int \<Rightarrow> (int \<Rightarrow> 'l::len word) \<Rightarrow> int \<Rightarrow> bool" where
  "intra_input comps depth nt pu1_ref r dst_strd \<longleftrightarrow> size_ok nt \<and> comps * nt \<le> dst_strd \<and>
     (\<forall>c. 0 \<le> c \<and> c < comps \<longrightarrow> ref_ok (2 ^ depth - 1) nt (px comps pu1_ref r c))"

lemma predictsI:
  assumes "intra_input comps depth nt pu1_ref r dst_strd" "0 \<le> mode" "mode \<le> 34" "depth \<le> LENGTH('l::len)"
    and "gives comps nt pu1_dst dst_strd (\<lambda>row col c. word_of_int (intra_ref (2 ^ depth - 1) edge nt mode (px comps pu1_ref r c) row col)) m (m' :: int \<Rightarrow> 'l word)"
  shows "predicts comps (2 ^ depth - 1) edge nt mode pu1_ref r pu1_dst dst_strd m m'"
proof -
  have "uint (word_of_int (intra_ref (2 ^ depth - 1) edge nt mode (px comps pu1_ref r c) row col) :: 'l word) =
      intra_ref (2 ^ depth - 1) edge nt mode (px comps pu1_ref r c) row col"
    if "0 \<le> row" "row < nt" "0 \<le> col" "col < nt" "0 \<le> c" "c < comps" for row col c
  proof -
    have "ref_ok (2 ^ depth - 1) nt (px comps pu1_ref r c)" "size_ok nt" using assms(1) that by (auto simp: intra_input_def)
    from intra_ref_range [OF this assms(2,3) that(1-4), of edge] word_samples [OF _ _ assms(4)] show ?thesis by simp
  qed
  then show ?thesis using assms(5) by (simp add: predicts_def gives_def)
qed

lemma mode_cases:
  fixes mode :: nat
  assumes "mode \<le> 34"
  obtains "mode = 0" | "mode = 1" | "mode = 2" | "3 \<le> mode" "mode \<le> 9" | "mode = 10" | "11 \<le> mode" "mode \<le> 17" | "mode = 18 \<or> mode = 34" |
    "19 \<le> mode" "mode \<le> 25" | "mode = 26" | "27 \<le> mode" "mode \<le> 33"
proof -
  consider "mode < 3" | "3 \<le> mode" "mode < 11" | "11 \<le> mode" "mode < 19" | "19 \<le> mode" "mode < 27" | "27 \<le> mode" by linarith
  then show thesis
  proof cases
    case 1 then have "mode = 0 \<or> mode = 1 \<or> mode = 2" by auto
    then show thesis using that by blast
  next
    case 2 then have "mode \<le> 9 \<or> mode = 10" by auto
    then show thesis using that(4,5) 2 by blast
  next
    case 3 then have "mode \<le> 17 \<or> mode = 18" by auto
    then show thesis using that(6,7) 3 by blast
  next
    case 4 then have "mode \<le> 25 \<or> mode = 26" by auto
    then show thesis using that(8,9) 4 by blast
  next
    case 5 then have "mode \<le> 33 \<or> mode = 34" using assms by auto
    then show thesis using that(10,7) 5 by blast
  qed
qed
lemma ip_funcs:
  assumes "mode \<le> 34"
  shows "g_i4_ip_funcs ! mode = (if mode = 0 then 1 else if mode = 1 then 2 else if mode = 2 then 3 else if mode \<le> 9 then 4
    else if mode = 10 then 5 else if mode \<le> 17 then 6 else if mode = 18 \<or> mode = 34 then 7 else if mode \<le> 25 then 8
    else if mode = 26 then 9 else 10)"
proof (cases "2 \<le> mode")
  case True
  have "g_i4_ip_funcs ! nat (int mode) = (if int mode = 2 then 3 else if int mode \<le> 9 then 4
    else if int mode = 10 then 5 else if int mode \<le> 17 then 6 else if int mode = 18 \<or> int mode = 34 then 7 else if int mode \<le> 25 then 8
    else if int mode = 26 then 9 else 10)"
    by (rule all_modes) (use True assms in \<open>simp_all add: g_i4_ip_funcs_def\<close>)
  then show ?thesis using True by simp
next
  case False
  then have "mode = 0 \<or> mode = 1" by auto
  then show ?thesis by (auto simp: g_i4_ip_funcs_def)
qed

text \<open>The tables have the routines in their places, whatever their width.\<close>

lemma luma_call:
  fixes r m t :: "int \<Rightarrow> 'l::len word"
  assumes i: "intra_input 1 depth nt pu1_ref r dst_strd" and mode: "mode \<le> 34" and depth: "depth \<le> LENGTH('l)" "depth \<le> 14"
    and apf: "apf = [None, Some (intra_planar 1), Some intra_luma_dc, Some intra_luma_mode2, Some (intra_mode_3_to_9 gai4_ihevc_ang_table 1),
      Some (intra_luma_horz depth), Some (intra_mode_11_to_17 1 t), Some (intra_mode_18_34 1),
      Some (intra_mode_19_to_25 gai4_ihevc_ang_table gai4_ihevc_inv_ang_table 1 t), Some (intra_luma_ver depth),
      Some (intra_mode_27_to_33 gai4_ihevc_ang_table 1)]"
  shows "\<exists>m'. call_intra_pred apf mode (luma_mode_arg mode d) pu1_ref r pu1_dst dst_strd nt m = Some m' \<and>
    predicts 1 (2 ^ depth - 1) (nt \<noteq> 32 \<and> (mode = 1 \<or> d = 0)) nt (int mode) pu1_ref r pu1_dst dst_strd m m'"
proof -
  let ?edge = "nt \<noteq> 32 \<and> (mode = 1 \<or> d = 0)"
  have nt: "size_ok nt" and s: "nt \<le> dst_strd" "1 * nt \<le> dst_strd" and p: "ref_ok (2 ^ depth - 1) nt (px 1 pu1_ref r 0)"
    using i by (auto simp: intra_input_def)
  note I = predictsI [OF i _ _ depth(1), where edge = ?edge]
  have m: "0 \<le> int mode" "int mode \<le> 34" using mode by simp_all
  have r: "predicts 1 (2 ^ depth - 1) ?edge nt (int mode) pu1_ref r pu1_dst dst_strd m m'"
    if "gives 1 nt pu1_dst dst_strd (\<lambda>row col c. word_of_int (intra_ref (2 ^ depth - 1) ?edge nt (int mode) (px 1 pu1_ref r c) row col)) m m'" for m'
    by (rule I [OF m that])
  note f = apf ip_funcs luma_mode_arg_def
  have "\<exists>g. apf ! (g_i4_ip_funcs ! mode) = Some g \<and> gives 1 nt pu1_dst dst_strd (\<lambda>row col c. word_of_int
      (intra_ref (2 ^ depth - 1) ?edge nt (int mode) (px 1 pu1_ref r c) row col)) m (g pu1_ref r pu1_dst dst_strd nt (luma_mode_arg mode d) m)"
    using mode
  proof (cases rule: mode_cases)
    case 1
    then show ?thesis by (simp add: f planar_routine [OF nt s(2)])
  next
    case 2
    then show ?thesis by (simp add: f luma_dc_routine [OF nt s(1)])
  next
    case 3
    then show ?thesis by (simp add: f luma_mode2_routine [OF s(1)])
  next
    case 4
    then show ?thesis by (simp add: f mode_3_to_9_routine [OF s(2)])
  next
    case 5
    then show ?thesis by (simp add: f luma_horz_routine [OF nt s(1) p depth(2)])
  next
    case 6
    then show ?thesis by (simp add: f mode_11_to_17_routine [OF s(2)])
  next
    case 7
    then show ?thesis by (auto simp: f mode_18_34_routine [OF s(2)])
  next
    case 8
    then show ?thesis by (simp add: f mode_19_to_25_routine [OF s(2)])
  next
    case 9
    then show ?thesis by (simp add: f luma_ver_routine [OF nt s(1) p depth(2)])
  next
    case 10
    then show ?thesis by (simp add: f mode_27_to_33_routine [OF s(2)])
  qed
  then show ?thesis using r by (auto simp: call_intra_pred_def)
qed

lemma chroma_call:
  fixes r m t :: "int \<Rightarrow> 'l::len word"
  assumes i: "intra_input 2 depth nt pu1_ref r dst_strd" and mode: "mode \<le> 34" and depth: "depth \<le> LENGTH('l)"
    and apf: "apf = [None, Some (intra_planar 2), Some intra_chroma_dc, Some intra_chroma_mode2, Some (intra_mode_3_to_9 gai4_ihevc_ang_table 2),
      Some (intra_horz 2), Some (intra_mode_11_to_17 2 t), Some (intra_mode_18_34 2),
      Some (intra_mode_19_to_25 gai4_ihevc_ang_table gai4_ihevc_inv_ang_table 2 t), Some (intra_ver 2),
      Some (intra_mode_27_to_33 gai4_ihevc_ang_table 2)]"
  shows "\<exists>m'. call_intra_pred apf mode (int mode) pu1_ref r pu1_dst dst_strd nt m = Some m' \<and>
    predicts 2 (2 ^ depth - 1) False nt (int mode) pu1_ref r pu1_dst dst_strd m m'"
proof -
  have nt: "size_ok nt" and s: "2 * nt \<le> dst_strd" using i by (auto simp: intra_input_def)
  have m: "0 \<le> int mode" "int mode \<le> 34" using mode by simp_all
  have r: "predicts 2 (2 ^ depth - 1) False nt (int mode) pu1_ref r pu1_dst dst_strd m m'"
    if "gives 2 nt pu1_dst dst_strd (\<lambda>row col c. word_of_int (intra_ref (2 ^ depth - 1) False nt (int mode) (px 2 pu1_ref r c) row col)) m m'" for m'
    by (rule predictsI [OF i m depth that])
  note f = apf ip_funcs
  have "\<exists>g. apf ! (g_i4_ip_funcs ! mode) = Some g \<and> gives 2 nt pu1_dst dst_strd (\<lambda>row col c. word_of_int
      (intra_ref (2 ^ depth - 1) False nt (int mode) (px 2 pu1_ref r c) row col)) m (g pu1_ref r pu1_dst dst_strd nt (int mode) m)"
    using mode
  proof (cases rule: mode_cases)
    case 1
    then show ?thesis by (simp add: f planar_routine [OF nt s])
  next
    case 2
    then show ?thesis by (simp add: f chroma_dc_routine [OF nt s])
  next
    case 3
    then show ?thesis by (simp add: f chroma_mode2_routine [OF s])
  next
    case 4
    then show ?thesis by (simp add: f mode_3_to_9_routine [OF s])
  next
    case 5
    then show ?thesis by (simp add: f plain_horz_routine [OF s])
  next
    case 6
    then show ?thesis by (simp add: f mode_11_to_17_routine [OF s])
  next
    case 7
    then show ?thesis by (auto simp: f mode_18_34_routine [OF s])
  next
    case 8
    then show ?thesis by (simp add: f mode_19_to_25_routine [OF s])
  next
    case 9
    then show ?thesis by (simp add: f plain_ver_routine [OF s])
  next
    case 10
    then show ?thesis by (simp add: f mode_27_to_33_routine [OF s])
  qed
  then show ?thesis using r by (auto simp: call_intra_pred_def)
qed

lemmas luma_pred_defs = ihevc_intra_pred_luma_planar_def ihevc_intra_pred_luma_dc_def ihevc_intra_pred_luma_horz_def
  ihevc_intra_pred_luma_ver_def ihevc_intra_pred_luma_mode2_def ihevc_intra_pred_luma_mode_18_34_def
  ihevc_intra_pred_luma_mode_3_to_9_def ihevc_intra_pred_luma_mode_11_to_17_def ihevc_intra_pred_luma_mode_19_to_25_def
  ihevc_intra_pred_luma_mode_27_to_33_def ihevc_hbd_intra_pred_luma_planar_def ihevc_hbd_intra_pred_luma_dc_def
  ihevc_hbd_intra_pred_luma_horz_def ihevc_hbd_intra_pred_luma_ver_def ihevc_hbd_intra_pred_luma_mode2_def
  ihevc_hbd_intra_pred_luma_mode_18_34_def ihevc_hbd_intra_pred_luma_mode_3_to_9_def ihevc_hbd_intra_pred_luma_mode_11_to_17_def
  ihevc_hbd_intra_pred_luma_mode_19_to_25_def ihevc_hbd_intra_pred_luma_mode_27_to_33_def

lemmas chroma_pred_defs = ihevc_intra_pred_chroma_planar_def ihevc_intra_pred_chroma_dc_def ihevc_intra_pred_chroma_horz_def
  ihevc_intra_pred_chroma_ver_def ihevc_intra_pred_chroma_mode2_def ihevc_intra_pred_chroma_mode_18_34_def
  ihevc_intra_pred_chroma_mode_3_to_9_def ihevc_intra_pred_chroma_mode_11_to_17_def ihevc_intra_pred_chroma_mode_19_to_25_def
  ihevc_intra_pred_chroma_mode_27_to_33_def ihevc_hbd_intra_pred_chroma_planar_def ihevc_hbd_intra_pred_chroma_dc_def
  ihevc_hbd_intra_pred_chroma_horz_def ihevc_hbd_intra_pred_chroma_ver_def ihevc_hbd_intra_pred_chroma_mode2_def
  ihevc_hbd_intra_pred_chroma_mode_18_34_def ihevc_hbd_intra_pred_chroma_mode_3_to_9_def ihevc_hbd_intra_pred_chroma_mode_11_to_17_def
  ihevc_hbd_intra_pred_chroma_mode_19_to_25_def ihevc_hbd_intra_pred_chroma_mode_27_to_33_def

text \<open>A block whose reference samples are their own indices.\<close>

lemma index_samples:
  assumes "0 \<le> comps * i + c" "comps * i + c \<le> 255" "8 \<le> LENGTH('l::len)"
  shows "px comps 0 (\<lambda>a. word_of_int a :: 'l word) c i = comps * i + c"
  unfolding px_def using word_samples [of "comps * i + c" 8] assms by simp

lemma index_input:
  assumes "comps = 1 \<or> comps = 2" "8 \<le> depth" "8 \<le> LENGTH('l::len)"
  shows "intra_input comps depth 4 0 (\<lambda>a. word_of_int a :: 'l word) 8"
proof -
  have "(255 :: int) \<le> 2 ^ depth - 1" using power_increasing [OF assms(2), of "2 :: int"] by simp
  then have "ref_ok (2 ^ depth - 1) 4 (px comps 0 (\<lambda>a. word_of_int a :: 'l word) c)" if "0 \<le> c" "c < comps" for c
    unfolding ref_ok_def using assms(1) that by (auto simp: index_samples assms(3))
  then show ?thesis using assms(1) by (auto simp: intra_input_def)
qed

text \<open>C10: For every intra mode and transform size, the luma routine the decoder takes from its tables
  (8-bit or for up to 14 bits) gives each sample of the block the value of the standard, edge filters
  included, from the reference samples; nothing else is written, nothing wraps, and the unset part of
  the local array of the modes with negative angles is never used.\<close>
theorem intra_luma_exact:
  assumes "mode \<le> 34" "intra_input 1 8 nt pu1_ref r8 dst_strd" "intra_input 1 depth nt pu1_ref r16 dst_strd" "depth \<le> 14"
  shows "(\<exists>m'. call_intra_pred (apf_intra_pred_luma t8) mode (luma_mode_arg mode d) pu1_ref r8 pu1_dst dst_strd nt m8 = Some m' \<and>
      predicts 1 255 (nt \<noteq> 32 \<and> (mode = 1 \<or> d = 0)) nt (int mode) pu1_ref r8 pu1_dst dst_strd m8 m') \<and>
    (\<exists>m'. call_intra_pred (apf_hbd_intra_pred_luma depth t16) mode (luma_mode_arg mode d) pu1_ref r16 pu1_dst dst_strd nt m16 = Some m' \<and>
      predicts 1 (2 ^ depth - 1) (nt \<noteq> 32 \<and> (mode = 1 \<or> d = 0)) nt (int mode) pu1_ref r16 pu1_dst dst_strd m16 m')"
proof
  show "\<exists>m'. call_intra_pred (apf_intra_pred_luma t8) mode (luma_mode_arg mode d) pu1_ref r8 pu1_dst dst_strd nt m8 = Some m' \<and>
      predicts 1 255 (nt \<noteq> 32 \<and> (mode = 1 \<or> d = 0)) nt (int mode) pu1_ref r8 pu1_dst dst_strd m8 m'"
    using luma_call [OF assms(2,1), of "apf_intra_pred_luma t8" t8 d pu1_dst m8] by (simp add: apf_intra_pred_luma_def luma_pred_defs)
  show "\<exists>m'. call_intra_pred (apf_hbd_intra_pred_luma depth t16) mode (luma_mode_arg mode d) pu1_ref r16 pu1_dst dst_strd nt m16 = Some m' \<and>
      predicts 1 (2 ^ depth - 1) (nt \<noteq> 32 \<and> (mode = 1 \<or> d = 0)) nt (int mode) pu1_ref r16 pu1_dst dst_strd m16 m'"
    by (rule luma_call [OF assms(3,1) _ assms(4)]) (use assms(4) in \<open>simp_all add: apf_hbd_intra_pred_luma_def luma_pred_defs\<close>)
qed

lemma intra_luma_exact_witness:
  "\<exists>m'. call_intra_pred (apf_intra_pred_luma (\<lambda>_. 0)) 18 18 0 (\<lambda>a. word_of_int a) 0 8 4 (\<lambda>_. 0) = Some m' \<and> uint (m' 9) = 8"
proof -
  from intra_luma_exact [of 18 4 0 "\<lambda>a. word_of_int a" 8 10 "\<lambda>a. word_of_int a" "\<lambda>_. 0" 0 0 "\<lambda>_. 0" "\<lambda>_. 0" "\<lambda>_. 0"]
  obtain m' where m': "call_intra_pred (apf_intra_pred_luma (\<lambda>_. 0)) 18 18 0 (\<lambda>a. word_of_int a) 0 8 4 (\<lambda>_. 0) = Some m'"
    and p: "predicts 1 255 True 4 18 0 (\<lambda>a. word_of_int a) 0 8 (\<lambda>_. 0) m'"
    by (auto simp: index_input luma_mode_arg_def)
  have "uint (m' (0 + 1 * 8 + 1 * 1 + 0)) = intra_ref 255 True 4 18 (px 1 0 (\<lambda>a. word_of_int a :: 8 word) 0) 1 1"
    using p unfolding predicts_def by (elim conjE allE [of _ 1] allE [of _ 0]) simp
  then show ?thesis using m' by (simp add: intra_ref_def mode_angle_def angular_neg32 nbr_def index_samples)
qed

text \<open>C11: For every intra mode and transform size, the chroma routine the decoder takes from its tables
  (8-bit or for more bits) gives each sample of the two interleaved blocks the value of the standard,
  from the reference samples of its component; nothing else is written, and nothing wraps.\<close>
theorem intra_chroma_exact:
  assumes "mode \<le> 34" "intra_input 2 8 nt pu1_ref r8 dst_strd" "intra_input 2 depth nt pu1_ref r16 dst_strd" "depth \<le> 16"
  shows "(\<exists>m'. call_intra_pred (apf_intra_pred_chroma t8) mode (int mode) pu1_ref r8 pu1_dst dst_strd nt m8 = Some m' \<and>
      predicts 2 255 False nt (int mode) pu1_ref r8 pu1_dst dst_strd m8 m') \<and>
    (\<exists>m'. call_intra_pred (apf_hbd_intra_pred_chroma t16) mode (int mode) pu1_ref r16 pu1_dst dst_strd nt m16 = Some m' \<and>
      predicts 2 (2 ^ depth - 1) False nt (int mode) pu1_ref r16 pu1_dst dst_strd m16 m')"
proof
  show "\<exists>m'. call_intra_pred (apf_intra_pred_chroma t8) mode (int mode) pu1_ref r8 pu1_dst dst_strd nt m8 = Some m' \<and>
      predicts 2 255 False nt (int mode) pu1_ref r8 pu1_dst dst_strd m8 m'"
    using chroma_call [OF assms(2,1), of "apf_intra_pred_chroma t8" t8 pu1_dst m8]
    by (simp add: apf_intra_pred_chroma_def chroma_pred_defs chroma_tables)
  show "\<exists>m'. call_intra_pred (apf_hbd_intra_pred_chroma t16) mode (int mode) pu1_ref r16 pu1_dst dst_strd nt m16 = Some m' \<and>
      predicts 2 (2 ^ depth - 1) False nt (int mode) pu1_ref r16 pu1_dst dst_strd m16 m'"
    by (rule chroma_call [OF assms(3,1)]) (use assms(4) in \<open>simp_all add: apf_hbd_intra_pred_chroma_def chroma_pred_defs chroma_tables\<close>)
qed

lemma intra_chroma_exact_witness:
  "\<exists>m'. call_intra_pred (apf_intra_pred_chroma (\<lambda>_. 0)) 18 18 0 (\<lambda>a. word_of_int a) 0 8 4 (\<lambda>_. 0) = Some m' \<and> uint (m' 11) = 17"
proof -
  from intra_chroma_exact [of 18 4 0 "\<lambda>a. word_of_int a" 8 10 "\<lambda>a. word_of_int a" "\<lambda>_. 0" 0 "\<lambda>_. 0" "\<lambda>_. 0" "\<lambda>_. 0"]
  obtain m' where m': "call_intra_pred (apf_intra_pred_chroma (\<lambda>_. 0)) 18 18 0 (\<lambda>a. word_of_int a) 0 8 4 (\<lambda>_. 0) = Some m'"
    and p: "predicts 2 255 False 4 18 0 (\<lambda>a. word_of_int a) 0 8 (\<lambda>_. 0) m'"
    by (auto simp: index_input)
  have "uint (m' (0 + 1 * 8 + 1 * 2 + 1)) = intra_ref 255 False 4 18 (px 2 0 (\<lambda>a. word_of_int a :: 8 word) 1) 1 1"
    using p unfolding predicts_def by (elim conjE allE [of _ 1]) simp
  then show ?thesis using m' by (simp add: intra_ref_def mode_angle_def angular_neg32 nbr_def index_samples)
qed

end
