(* ===== verification/Spec2Isabelle.thy ===== *)
theory Spec2Isabelle
  imports Nal Cabac_Stream Buf_Mgr Disp_Mgr Ref_List Job_Queue Buffer_Que Weighted_Pred Coeff_Unpack Sao Padding Deblk Intra_Pred
begin

text \<open>
  libhevc is an H.265/HEVC decoder (\<^verbatim>\<open>src/decoder\<close>) and encoder (\<^verbatim>\<open>src/encoder\<close>) with the sample
  processing they share (\<^verbatim>\<open>src/common\<close>). This library models the portable C code of the parts listed
  below and proves what makes each of them correct. The model is a shallow embedding: a C function is
  a HOL function of the same name over the state it reads, which it returns updated.

  \<^bold>\<open>Conventions\<close> (theory \<open>Hevc_Prelude\<close>). Integers of the code are words of their width; \<open>WORD32\<close>
  values are \<open>int\<close> where the model checks that no operation leaves the type. A partial operation returns
  an \<open>option\<close>, \<open>None\<close> standing for undefined behaviour (access out of an array, null dereference,
  signed overflow, oversized shift), so a theorem that a call returns \<open>Some\<close> says it is safe. The
  error codes of the code are values of the model.

  \<^bold>\<open>Streams.\<close> The encoder writes syntax elements with \<^verbatim>\<open>ihevce_bitstream.c\<close> (\<open>Bit_Writer\<close>) and
  CABAC bins with \<^verbatim>\<open>ihevce_cabac.c\<close> (\<open>Cabac_Enc\<close>, \<open>Cabac_Enc_Ops\<close>), both with emulation prevention.
  The decoder finds a NAL unit, removes the emulation prevention bytes and dispatches on its type
  with \<^verbatim>\<open>ihevcd_nal.c\<close> (\<open>Nal\<close>), reads elements with \<^verbatim>\<open>ihevcd_bitstream.c\<close> (\<open>Bit_Reader\<close>) and bins with
  \<^verbatim>\<open>ihevcd_cabac.c\<close> (\<open>Cabac_Dec\<close>). \<open>Bit_Sequence\<close> has the bit strings and the emulation prevention that
  both sides are specified by, \<open>Arith_Coder\<close> the arithmetic coder over unbounded numbers that the two
  CABAC engines refine, \<open>Cabac_Tables\<close> the probability tables they share and \<open>Binarisation\<close> the bins of
  the symbols. \<open>Symbol_Channel\<close> states the interface between a writer and a reader as locales;
  \<open>Syntax_Stream\<close> and \<open>Cabac_Stream\<close> interpret it for the code and prove the round trips.

  \<^bold>\<open>Buffers.\<close> \<open>Buf_Mgr\<close>, \<open>Disp_Mgr\<close> and \<open>Dpb_Mgr\<close> are the buffer, display and decoded picture buffer
  managers of \<^verbatim>\<open>src/common\<close>. The buffer manager keeps a status word per buffer, refining the set of its
  holders; its words are the replay of the history of successful calls. The picture buffer keeps linked
  slots, refining a list of pictures. \<open>dec_reach\<close> in \<open>Dpb_Mgr\<close> are the states a decode can reach, with
  the calls the decoder makes, the hold for display of shared display buffers (\<^verbatim>\<open>ihevcd_api.c\<close>) left
  out. \<open>Ref_List\<close> is \<^verbatim>\<open>ihevcd_ref_list.c\<close>, the reference picture set of a slice, the marking of the
  pictures and the two lists, with the parsing of the list modification. \<open>Job_Queue\<close> is the queue
  between the threads of the decoder, a step per critical section, and \<open>Buffer_Que\<close> the queue
  between the stages of the encoder. The contracts \<open>Exclusive_Pool\<close> (no buffer is granted twice) and
  \<open>Fifo\<close> (items come out in the order they went in) are locales interpreted by them.

  \<^bold>\<open>Samples.\<close> \<open>Samples\<close> has arrays as memories from offsets to samples and the loops over blocks;
  \<open>Inter_Pred\<close> and \<open>Weighted_Pred\<close> the motion compensation filters, \<open>Intra_Pred\<close> the intra prediction
  of all modes with the tables the decoder selects the routines by, \<open>Transform\<close> and \<open>Itrans_Recon\<close> the
  inverse transforms and reconstruction, \<open>Coeff_Unpack\<close> inverse quantisation and the path of the
  decoder from parsed levels to samples, \<open>Deblk\<close> the deblocking filters of an edge, \<open>Sao\<close> the sample
  adaptive offset, \<open>Padding\<close> the extension of a picture beyond its border. The routines for 8-bit and
  for more bits, for luma and for chroma, are instances of shared definitions, one per loop nest. The
  butterflies, the in-place filters and the table driven predictions are proved equal to what the
  standard states, and free of overflow on the inputs the bit depth allows. The side of the standard is
  stated independently of the code: matrix products, sums over taps, the angles of the modes, and in
  \<open>Deblk\<close> the definitions whose names start with \<open>std\<close>, with thresholds by formula and both sides of an edge by one filter.

  \<^bold>\<open>Fuel and bounds.\<close> Loops are recursive on their counters. Two loops may not end. The wait of
  the job queue takes fuel, and \<open>Job_Queue\<close> proves both that it returns once a job is queued or the
  queue terminated, for every fuel from a bound on, and that the non-blocking call on an empty queue
  returns for none. The loop that fills a reference list, \<open>fill_while\<close> of \<open>Ref_List\<close>, is a partial
  function, undefined where it does not end, and \<open>ref_list_loop_ends\<close> proves that it ends exactly when
  there is a picture to enter or nothing to fill. The stream theorems assume room in the buffers
  (\<open>wr_room\<close>, \<open>enc_room\<close>), the managers at most 64 buffers, as the code defines. Assertions of the
  managers are checks of the model; those of the sample filters (block sizes, boundary strengths of 1 to
  3, at least one side of an edge to filter) are preconditions, stated where a theorem needs them.

  \<^bold>\<open>What modelling showed.\<close> \<open>ihevc_dpb_mgr_reset\<close> dereferences the null picture of an empty slot
  (\<open>dpb_reset_null_deref\<close>); a non-blocking dequeue of an empty job queue spins, where its comment says
  it fails (\<open>jobq_dequeue_nonblocking_hangs\<close>); the second slice of the first CRA picture makes its RASL
  pictures be decoded (\<open>nal_cra_second_slice\<close>); \<open>ihevcd_mv_mgr_get_poc\<close> returns the last buffer
  when none has the count (\<open>mv_get_poc_spec\<close>). Comments differ from the code for the clipping of levels
  (\<open>iquant_exact\<close>), for the nearest count, where the code prefers a preceding picture to a closer one
  that follows (\<open>dpb_nearest_poc\<close>), for the result of \<open>ihevc_buf_mgr_check_free\<close> and for the count of
  active buffers in \<open>ihevc_buf_mgr_add\<close>.

  \<^bold>\<open>Not modelled.\<close> In the decoder the control interface, the parsers of parameter sets, slice headers
  and slice data over the modelled readers, motion vector and intra mode prediction and the boundary
  strengths, which live in the slice context, the preparation of the intra reference samples, the walks
  over the coding tree blocks, and the output conversion; in the encoder the decisions, searches, rate
  control and threads, which have no contract but the syntax they write; the forward transforms and the
  fused and high bit depth twins of modelled routines; intrinsics and assembly, whose semantics is not in
  the repository. Memory allocation and locks are outside the model, the thread library an argument of it.
\<close>

end
